(* ===== verification/Mlbtcc_Prelude.thy ===== *)
theory Mlbtcc_Prelude
  imports Main "HOL-Library.Word" "HOL-Library.Monad_Syntax"
begin

text \<open>
  What the components share: the machine types of \<^verbatim>\<open>bitcoin-structs.h\<close>, the reading of
  memory (a buffer is the list of the bytes it owns; a read outside it is undefined
  behaviour of C and is the value \<open>None\<close>), the little-endian reading of integers that
  \<^verbatim>\<open>memcpy\<close> performs on the hosts the program runs on, and the interface of a
  self-delimiting byte code, which every variable-length integer of the program provides.
\<close>

unbundle bit_operations_syntax

type_synonym u8 = "8 word"
type_synonym u16 = "16 word"
type_synonym u32 = "32 word"
type_synonym u64 = "64 word"
type_synonym bytes = "u8 list"

named_theorems mem_simps \<open>evaluation of reads from a buffer\<close>
named_theorems byte_simps \<open>little-endian readings and their inverses\<close>

section \<open>Reading memory\<close>

definition rd :: "'a list \<Rightarrow> nat \<Rightarrow> 'a option" where
  "rd buf i = (if i < length buf then Some (buf ! i) else None)"

definition rds :: "'a list \<Rightarrow> nat \<Rightarrow> nat \<Rightarrow> 'a list option" where
  "rds buf i n = (if i + n \<le> length buf then Some (take n (drop i buf)) else None)"

lemma rd_Some_iff: "rd buf i = Some x \<longleftrightarrow> i < length buf \<and> buf ! i = x"
  by (auto simp: rd_def)

lemma rd_append_hit [mem_simps]: "rd (pre @ x # rest) (length pre) = Some x"
  by (simp add: rd_def nth_append)

lemma rd_Cons_0 [mem_simps]: "rd (x # rest) 0 = Some x"
  by (simp add: rd_def)

lemma rds_append_hit [mem_simps]:
  "length bs = n \<Longrightarrow> rds (pre @ bs @ rest) (length pre) n = Some bs"
  by (simp add: rds_def)

lemma rds_0_hit [mem_simps]: "length bs = n \<Longrightarrow> rds (bs @ rest) 0 n = Some bs"
  by (simp add: rds_def)

lemma rds_length: "rds buf i n = Some bs \<Longrightarrow> length bs = n"
  by (auto simp: rds_def split: if_splits)

lemma rds_bound: "rds buf i n = Some bs \<Longrightarrow> i + n \<le> length buf"
  by (auto simp: rds_def split: if_splits)

lemma rds_facts: "rds buf i n = Some bs \<Longrightarrow> length bs = n \<and> i + n \<le> length buf"
  by (simp add: rds_length rds_bound)

lemma rds_nth: "rds buf i n = Some bs \<Longrightarrow> k < n \<Longrightarrow> bs ! k = buf ! (i + k)"
  by (auto simp: rds_def split: if_splits)

lemma rds_None_iff: "rds buf i n = None \<longleftrightarrow> length buf < i + n"
  by (auto simp: rds_def)

lemma length_8_obtain:
  assumes "length xs = 8"
  obtains a b c d e f g h where "xs = [a, b, c, d, e, f, g, h]"
  using assms by (auto simp: numeral_eq_Suc length_Suc_conv)

section \<open>Bits of machine words\<close>

named_theorems unat_bits \<open>unsigned values of bit operations\<close>

lemma unat_drop_bit [unat_bits]: "unat (drop_bit n (w :: 'a::len word)) = unat w div 2 ^ n"
  by (subst unat_drop_bit_eq) (simp add: drop_bit_eq_div)

lemma unat_take_bit [unat_bits]: "unat (take_bit n (w :: 'a::len word)) = unat w mod 2 ^ n"
  by (subst unsigned_take_bit_eq) (simp add: take_bit_eq_mod)

lemma and_7F: "(w :: 'a::len word) AND 0x7F = take_bit 7 w"
  by (simp add: take_bit_eq_mask mask_eq_exp_minus_1)

lemma and_0F: "(w :: 'a::len word) AND 0x0F = take_bit 4 w"
  by (simp add: take_bit_eq_mask mask_eq_exp_minus_1)

lemma and_FF: "(w :: 'a::len word) AND 0xFF = take_bit 8 w"
  by (simp add: take_bit_eq_mask mask_eq_exp_minus_1)

lemma unat_ucast_byte [unat_bits]: "unat (ucast (w :: 'a::len word) :: u8) = unat w mod 256"
  by (simp add: unsigned_ucast_eq take_bit_eq_mod)

lemma unat_byte_less: "unat (b :: u8) < 256"
  using unsigned_less [of b, where 'a = nat] by simp

lemma unat_ucast_widen:
  assumes "LENGTH('a) \<le> LENGTH('b)"
  shows "unat (ucast (w :: 'a::len word) :: 'b::len word) = unat w"
proof -
  have "unat w < 2 ^ LENGTH('a)" by (rule unsigned_less)
  also have "\<dots> \<le> (2::nat) ^ LENGTH('b)" using assms by (rule power_increasing) simp
  finally show ?thesis by (simp add: unsigned_ucast_eq take_bit_nat_eq_self)
qed

lemma unat_ucast_8_16 [unat_bits]: "unat (ucast (b :: u8) :: u16) = unat b"
  and unat_ucast_8_32 [unat_bits]: "unat (ucast (b :: u8) :: u32) = unat b"
  and unat_ucast_8_64 [unat_bits]: "unat (ucast (b :: u8) :: u64) = unat b"
  and unat_ucast_16_64 [unat_bits]: "unat (ucast (h :: u16) :: u64) = unat h"
  and unat_ucast_32_64 [unat_bits]: "unat (ucast (x :: u32) :: u64) = unat x"
  by (rule unat_ucast_widen; simp)+

lemma and_80_iff_bit: "(b :: u8) AND 0x80 \<noteq> 0 \<longleftrightarrow> bit b 7"
  using and_exp_eq_0_iff_not_bit [of b 7] by simp

lemma bit7_iff: "bit (b :: u8) 7 \<longleftrightarrow> 128 \<le> unat b"
proof -
  have less: "unat b < 256" by (rule unat_byte_less)
  have "bit b 7 = bit (unat b) 7" by (simp add: bit_unsigned_iff)
  also have "\<dots> = odd (unat b div 128)" by (simp add: bit_iff_odd)
  also have "\<dots> = (128 \<le> unat b)"
  proof (cases "128 \<le> unat b")
    case True
    with less have "unat b div 128 = 1" by (simp add: div_nat_eqI)
    with True show ?thesis by simp
  qed simp
  finally show ?thesis .
qed

lemma and_80_iff: "(b :: u8) AND 0x80 \<noteq> 0 \<longleftrightarrow> 128 \<le> unat b"
  by (simp add: and_80_iff_bit bit7_iff)

lemma unat_or_80 [unat_bits]: "unat (x :: u8) < 128 \<Longrightarrow> unat (x OR 0x80) = unat x + 128"
proof -
  assume x: "unat x < 128"
  then have "\<not> bit x 7" by (simp add: bit7_iff)
  then have "x AND 0x80 = 0" using and_80_iff_bit by blast
  then have "x OR 0x80 = x + 0x80" by (simp add: disjunctive_add_eq_or)
  with x show ?thesis by (simp add: unat_word_ariths)
qed

lemma byte_high: "128 \<le> unat (b :: u8) \<Longrightarrow> b = of_nat (unat b mod 128 + 128)"
proof -
  assume "128 \<le> unat b"
  with unat_byte_less [of b] have "unat b div 128 = 1" by (simp add: div_nat_eqI)
  with div_mult_mod_eq [of "unat b" 128] have "unat b = unat b mod 128 + 128" by simp
  moreover have "b = of_nat (unat b)" by simp
  ultimately show ?thesis by metis
qed

lemma byte_low: "\<not> 128 \<le> unat (b :: u8) \<Longrightarrow> b = of_nat (unat b mod 128)"
  by simp

lemma of_nat_div_mod: "of_nat (n div d) * of_nat d + of_nat (n mod d) = (of_nat n :: 'a::comm_semiring_1)"
  by (metis div_mult_mod_eq of_nat_add of_nat_mult)

lemma of_nat_div_mod_128:
  "of_nat (n div 128) * 128 + of_nat (n mod 128) = (of_nat n :: 'a::comm_semiring_1)"
  using of_nat_div_mod [of n 128] by simp

section \<open>Little-endian integers\<close>

fun le_nat :: "bytes \<Rightarrow> nat" where
  "le_nat [] = 0"
| "le_nat (b # bs) = unat b + 256 * le_nat bs"

fun nat_le :: "nat \<Rightarrow> nat \<Rightarrow> bytes" where
  "nat_le 0 n = []"
| "nat_le (Suc k) n = of_nat n # nat_le k (n div 256)"

lemma length_nat_le [simp]: "length (nat_le k n) = k"
  by (induction k arbitrary: n) auto

lemma unat_of_nat_byte [byte_simps]: "unat (of_nat n :: u8) = n mod 256"
  by (simp add: unat_of_nat)

lemma le_nat_nat_le [byte_simps]: "le_nat (nat_le k n) = n mod 256 ^ k"
proof (induction k arbitrary: n)
  case 0
  then show ?case by simp
next
  case (Suc k)
  have "n mod (256 * 256 ^ k) = 256 * (n div 256 mod 256 ^ k) + n mod 256"
    by (rule mod_mult2_eq)
  with Suc show ?case by (simp add: byte_simps)
qed

lemma le_nat_bound: "le_nat bs < 256 ^ length bs"
proof (induction bs)
  case Nil
  then show ?case by simp
next
  case (Cons b bs)
  have "unat b < 256" by (rule unat_byte_less)
  with Cons show ?case by simp
qed

lemma nat_le_le_nat [byte_simps]: "nat_le (length bs) (le_nat bs) = bs"
proof (induction bs)
  case Nil
  then show ?case by simp
next
  case (Cons b bs)
  have "unat b < 256" by (rule unat_byte_less)
  then have "(unat b + 256 * le_nat bs) div 256 = le_nat bs" by simp
  moreover have "(of_nat (unat b + 256 * le_nat bs) :: u8) = b"
  proof -
    have "(256 :: u8) = 0" by simp
    then have "(of_nat (256 * le_nat bs) :: u8) = 0" by (simp only: of_nat_mult of_nat_numeral) simp
    then show ?thesis by simp
  qed
  ultimately show ?case using Cons by simp
qed

lemma le_nat_append: "le_nat (xs @ ys) = le_nat xs + 256 ^ length xs * le_nat ys"
  by (induction xs) (auto simp: algebra_simps)

text \<open>The value of a \<^verbatim>\<open>U16\<close>, \<^verbatim>\<open>U32\<close> or \<^verbatim>\<open>U64\<close> object whose bytes \<^verbatim>\<open>memcpy\<close> has set.\<close>

definition le_word :: "bytes \<Rightarrow> 'a::len word" where
  "le_word bs = of_nat (le_nat bs)"

definition word_le :: "nat \<Rightarrow> 'a::len word \<Rightarrow> bytes" where
  "word_le k w = nat_le k (unat w)"

lemma length_word_le [simp]: "length (word_le k w) = k"
  by (simp add: word_le_def)

lemma le_word_word_le:
  assumes "LENGTH('a) = 8 * k"
  shows "(le_word (word_le k (w :: 'a::len word)) :: 'a word) = w"
proof -
  have "(256 :: nat) ^ k = 2 ^ LENGTH('a)"
    by (simp add: assms power_mult)
  with unsigned_less [of w, where 'a = nat] show ?thesis
    by (simp add: le_word_def word_le_def byte_simps)
qed

lemma le_word_word_le_16 [byte_simps]: "(le_word (word_le 2 (w :: u16)) :: u16) = w"
  and le_word_word_le_32 [byte_simps]: "(le_word (word_le 4 (x :: u32)) :: u32) = x"
  and le_word_word_le_64 [byte_simps]: "(le_word (word_le 8 (y :: u64)) :: u64) = y"
  by (rule le_word_word_le; simp)+

lemma word_le_le_word:
  assumes "LENGTH('a) = 8 * k" and "length bs = k"
  shows "word_le k (le_word bs :: 'a::len word) = bs"
proof -
  have "(256 :: nat) ^ k = 2 ^ LENGTH('a)" by (simp add: assms(1) power_mult)
  with le_nat_bound [of bs] assms(2) have "unat (le_word bs :: 'a word) = le_nat bs"
    by (simp add: le_word_def unat_of_nat)
  with nat_le_le_nat [of bs] assms(2) show ?thesis by (simp add: word_le_def)
qed

lemma word_le_le_word_32 [byte_simps]: "length bs = 4 \<Longrightarrow> word_le 4 (le_word bs :: u32) = bs"
  and word_le_le_word_64 [byte_simps]: "length bs = 8 \<Longrightarrow> word_le 8 (le_word bs :: u64) = bs"
  by (rule word_le_le_word; simp)+

lemma nat_le_4:
  "nat_le 4 n = [of_nat n, of_nat (n div 2 ^ 8), of_nat (n div 2 ^ 16), of_nat (n div 2 ^ 24)]"
proof -
  have "(4 :: nat) = Suc (Suc (Suc (Suc 0)))" by simp
  then have "nat_le 4 n = [of_nat n, of_nat (n div 256), of_nat (n div 256 div 256),
      of_nat (n div 256 div 256 div 256)]"
    by (simp only: nat_le.simps)
  then show ?thesis by (simp flip: div_mult2_eq)
qed

lemma of_nat_div_exp: "(of_nat (unat x div 2 ^ k) :: u8) = ucast (drop_bit k (x :: 'a::len word))"
  by (simp add: word_unat_eq_iff unat_bits unat_of_nat)

lemma nat_le_8:
  "nat_le 8 n = [of_nat n, of_nat (n div 2 ^ 8), of_nat (n div 2 ^ 16), of_nat (n div 2 ^ 24),
     of_nat (n div 2 ^ 32), of_nat (n div 2 ^ 40), of_nat (n div 2 ^ 48), of_nat (n div 2 ^ 56)]"
proof -
  have "(8 :: nat) = Suc (Suc (Suc (Suc 4)))" by simp
  then have "nat_le 8 n = of_nat n # of_nat (n div 256) # of_nat (n div 256 div 256)
      # of_nat (n div 256 div 256 div 256) # nat_le 4 (n div 256 div 256 div 256 div 256)"
    by (simp only: nat_le.simps)
  then show ?thesis by (simp add: nat_le_4 flip: div_mult2_eq)
qed

lemma word_le_4:
  "word_le 4 (x :: u32)
     = [ucast x, ucast (drop_bit 8 x), ucast (drop_bit 16 x), ucast (drop_bit 24 x)]"
  using of_nat_div_exp [of x 0] unfolding word_le_def nat_le_4 of_nat_div_exp by simp

lemma word_le_8:
  "word_le 8 (x :: u64)
     = [ucast x, ucast (drop_bit 8 x), ucast (drop_bit 16 x), ucast (drop_bit 24 x),
        ucast (drop_bit 32 x), ucast (drop_bit 40 x), ucast (drop_bit 48 x), ucast (drop_bit 56 x)]"
  using of_nat_div_exp [of x 0] unfolding word_le_def nat_le_8 of_nat_div_exp by simp

lemma word_le_inj: "word_le 4 (x :: u32) = word_le 4 y \<Longrightarrow> x = y"
  by (metis le_word_word_le_32)

section \<open>Self-delimiting byte codes\<close>

text \<open>
  The interface of a variable-length integer: a reader that, given any bytes that begin with
  an encoding, returns how many bytes it used and the value. What the clients need (decoding
  one field after another, distinct values having distinct codes, no code being a prefix of
  another) follows from this law alone.
\<close>

locale prefix_code =
  fixes valid :: "'v \<Rightarrow> bool"
    and enc :: "'v \<Rightarrow> bytes"
    and dec :: "bytes \<Rightarrow> (nat \<times> 'v) option"
  assumes dec_enc: "valid v \<Longrightarrow> dec (enc v @ rest) = Some (length (enc v), v)"
begin

lemma dec_enc_exact: "valid v \<Longrightarrow> dec (enc v) = Some (length (enc v), v)"
  using dec_enc [of v "[]"] by simp

lemma enc_eq_prefix:
  assumes "valid v" and "valid w" and "enc v @ xs = enc w @ ys"
  shows "v = w \<and> xs = ys"
proof -
  from assms(1) have "dec (enc v @ xs) = Some (length (enc v), v)" by (rule dec_enc)
  moreover from assms(2) have "dec (enc w @ ys) = Some (length (enc w), w)" by (rule dec_enc)
  ultimately have "v = w" using assms(3) by simp
  with assms(3) show ?thesis by simp
qed

lemma enc_inj: "valid v \<Longrightarrow> valid w \<Longrightarrow> enc v = enc w \<Longrightarrow> v = w"
  using enc_eq_prefix [of v w "[]" "[]"] by simp

lemma enc_prefix_free: "valid v \<Longrightarrow> valid w \<Longrightarrow> enc w = enc v @ s \<Longrightarrow> s = []"
  using enc_eq_prefix [of v w s "[]"] by auto

lemma dec_at:
  "valid v \<Longrightarrow> dec (drop (length pre) (pre @ enc v @ rest)) = Some (length (enc v), v)"
  by (simp add: dec_enc)

lemma enc_concat_inj:
  assumes "\<forall>v \<in> set vs. valid v" and "\<forall>w \<in> set ws. valid w"
    and "length vs = length ws"
    and "concat (map enc vs) @ xs = concat (map enc ws) @ ys"
  shows "vs = ws \<and> xs = ys"
  using assms
proof (induction vs arbitrary: ws)
  case Nil
  then show ?case by simp
next
  case (Cons v vs)
  then obtain w ws' where ws: "ws = w # ws'" by (cases ws) auto
  with Cons.prems have "enc v @ (concat (map enc vs) @ xs) = enc w @ (concat (map enc ws') @ ys)"
    and "valid v" and "valid w" by auto
  then have "v = w" and "concat (map enc vs) @ xs = concat (map enc ws') @ ys"
    using enc_eq_prefix by blast+
  with Cons.IH [of ws'] Cons.prems ws show ?case by simp
qed

end

end
