(* ===== verification/Big_Ints.thy ===== *)
theory Big_Ints
  imports Mlbtcc_Prelude
begin

text \<open>
  \<^verbatim>\<open>src/bigInts.c\<close>: the variable-length integers and the byte-order helpers. A function that
  fills a caller's buffer returns the bytes it writes; a function that reads from a pointer
  takes the bytes from that pointer to the end of the allocation, and reading past them is
  \<open>None\<close>.
\<close>

section \<open>Base-128 varints (least significant group first)\<close>

function VarintEncode :: "u32 \<Rightarrow> bytes" where
  "VarintEncode value =
     (if value \<ge> 0x80
      then (ucast (value AND 0x7F) OR 0x80) # VarintEncode (drop_bit 7 value)
      else [ucast value])"
  by pat_completeness auto
termination
  by (relation "measure unat") (auto simp: unat_drop_bit word_le_nat_alt)

declare VarintEncode.simps [simp del]

text \<open>
  The reading loop. A shift by 32 or more is undefined in C, as is running past the buffer.
  The shifted operand is promoted to \<^verbatim>\<open>int\<close>; the shift is taken modulo \<open>2 ^ 32\<close>, as gcc and
  clang document it.
\<close>

fun VarintDecode_loop :: "bytes \<Rightarrow> u32 \<Rightarrow> nat \<Rightarrow> nat \<Rightarrow> (nat \<times> u32) option" where
  "VarintDecode_loop [] result shift i = None"
| "VarintDecode_loop (b # input) result shift i =
     (if b AND 0x80 \<noteq> 0
      then (if shift < 32
            then VarintDecode_loop input (result OR push_bit shift (ucast (b AND 0x7F))) (shift + 7) (i + 1)
            else None)
      else (if shift < 32 then Some (i + 1, result OR push_bit shift (ucast b)) else None))"

definition VarintDecode :: "bytes \<Rightarrow> (nat \<times> u32) option" where
  "VarintDecode input = VarintDecode_loop input 0 0 0"

section \<open>Byte order\<close>

text \<open>\<^verbatim>\<open>"%02X"\<close> and \<^verbatim>\<open>"%02x"\<close> of one byte.\<close>

definition hexDigits :: string where
  "hexDigits = ''0123456789abcdef''"

definition hexDigitsUpper :: string where
  "hexDigitsUpper = ''0123456789ABCDEF''"

definition print_02X :: "u8 \<Rightarrow> string" where
  "print_02X b = [hexDigitsUpper ! unat (drop_bit 4 b), hexDigitsUpper ! unat (b AND 0x0F)]"

definition print_02x :: "u8 \<Rightarrow> string" where
  "print_02x b = [hexDigits ! unat (drop_bit 4 b), hexDigits ! unat (b AND 0x0F)]"

definition PrintByteString :: "bytes \<Rightarrow> string" where
  "PrintByteString bs = concat (map print_02X bs)"

definition ConvertUint32ToUint8Array :: "u32 \<Rightarrow> bytes" where
  "ConvertUint32ToUint8Array value =
     [ucast (drop_bit 24 value AND 0xFF), ucast (drop_bit 16 value AND 0xFF),
      ucast (drop_bit 8 value AND 0xFF), ucast (value AND 0xFF)]"

definition ChangeEndiannessUint32 :: "u32 \<Rightarrow> u32" where
  "ChangeEndiannessUint32 value =
     (drop_bit 24 value AND 0x000000FF) OR (drop_bit 8 value AND 0x0000FF00) OR
     (push_bit 8 value AND 0x00FF0000) OR (push_bit 24 value AND 0xFF000000)"

section \<open>Bitcoin's base-128 integers (most significant group first, with carry)\<close>

text \<open>
  \<^verbatim>\<open>U8 buffer[10]\<close>: a store at index 10 or above would be undefined and is \<open>None\<close>. The bytes
  go out in the reverse order of the buffer. The result is the returned count and the bytes.
\<close>

function EncodeVarint128_loop :: "u64 \<Rightarrow> bytes \<Rightarrow> bytes option" where
  "EncodeVarint128_loop value buffer =
     (if value > 0x7F
      then (if length buffer < 10
            then EncodeVarint128_loop (drop_bit 7 value - 1)
                   (buffer @ [ucast (value AND 0x7F) OR 0x80])
            else None)
      else (if length buffer < 10 then Some (buffer @ [ucast (value AND 0x7F)]) else None))"
  by pat_completeness auto
termination
  by (relation "measure (\<lambda>(v, buffer). 10 - length buffer)") auto

declare EncodeVarint128_loop.simps [simp del]

definition EncodeVarint128 :: "u64 \<Rightarrow> (nat \<times> bytes) option" where
  "EncodeVarint128 value =
     (case EncodeVarint128_loop value [] of
        None \<Rightarrow> None | Some buffer \<Rightarrow> Some (length buffer, rev buffer))"

fun DecodeVarint128_loop :: "bytes \<Rightarrow> u64 \<Rightarrow> nat \<Rightarrow> (nat \<times> u64) option" where
  "DecodeVarint128_loop [] value n = None"
| "DecodeVarint128_loop (byte # ret) value n =
     (let value = push_bit 7 value OR ucast (byte AND 0x7F);
          value = (if byte AND 0x80 \<noteq> 0 then value + 1 else value)
      in if byte AND 0x80 \<noteq> 0 then DecodeVarint128_loop ret value (n + 1)
         else Some (n + 1, value))"

definition DecodeVarint128 :: "bytes \<Rightarrow> (nat \<times> u64) option" where
  "DecodeVarint128 data = DecodeVarint128_loop data 0 0"

section \<open>Compact sizes\<close>

definition CompactSizeEncode :: "u64 \<Rightarrow> bytes" where
  "CompactSizeEncode value =
     (if value \<le> 252 then [ucast value]
      else if value \<le> 0xFFFF then
        [0xFD, ucast (value AND 0xFF), ucast (drop_bit 8 value AND 0xFF)]
      else if value \<le> 0xFFFFFFFF then
        [0xFE, ucast (value AND 0xFF), ucast (drop_bit 8 value AND 0xFF),
         ucast (drop_bit 16 value AND 0xFF), ucast (drop_bit 24 value AND 0xFF)]
      else
        [0xFF, ucast (value AND 0xFF), ucast (drop_bit 8 value AND 0xFF),
         ucast (drop_bit 16 value AND 0xFF), ucast (drop_bit 24 value AND 0xFF),
         ucast (drop_bit 32 value AND 0xFF), ucast (drop_bit 40 value AND 0xFF),
         ucast (drop_bit 48 value AND 0xFF), ucast (drop_bit 56 value AND 0xFF)])"

text \<open>
  The result is the returned size with what is stored through \<^verbatim>\<open>value\<close>: \<open>None\<close> inside the
  pair when the function returns without a store. \<open>data\<close> is \<open>None\<close> for the null pointer and
  \<open>hasValue\<close> says whether \<^verbatim>\<open>value\<close> is not null. The outer \<open>None\<close> is a read outside the buffer,
  which the caller provokes by claiming a \<open>dataSize\<close> larger than the buffer.
\<close>

definition CompactSizeDecode :: "bytes option \<Rightarrow> nat \<Rightarrow> bool \<Rightarrow> (nat \<times> u64 option) option" where
  "CompactSizeDecode data dataSize hasValue =
     (case data of
        None \<Rightarrow> Some (0, if hasValue then Some 0 else None)
      | Some d \<Rightarrow>
          if \<not> hasValue \<or> dataSize = 0 then Some (0, if hasValue then Some 0 else None)
          else do {
            first \<leftarrow> rd d 0;
            if first \<le> 0xFC then Some (1, Some (ucast first))
            else if first = 0xFD then
              (if dataSize < 3 then Some (dataSize, None)
               else do {
                 d1 \<leftarrow> rd d 1; d2 \<leftarrow> rd d 2;
                 Some (3, Some (ucast d1 OR push_bit 8 (ucast d2)))
               })
            else if first = 0xFE then
              (if dataSize < 5 then Some (dataSize, None)
               else do {
                 d1 \<leftarrow> rd d 1; d2 \<leftarrow> rd d 2; d3 \<leftarrow> rd d 3; d4 \<leftarrow> rd d 4;
                 Some (5, Some (ucast d1 OR push_bit 8 (ucast d2) OR push_bit 16 (ucast d3) OR
                                push_bit 24 (ucast d4)))
               })
            else
              (if dataSize < 9 then Some (dataSize, None)
               else do {
                 d1 \<leftarrow> rd d 1; d2 \<leftarrow> rd d 2; d3 \<leftarrow> rd d 3; d4 \<leftarrow> rd d 4;
                 d5 \<leftarrow> rd d 5; d6 \<leftarrow> rd d 6; d7 \<leftarrow> rd d 7; d8 \<leftarrow> rd d 8;
                 Some (9, Some (ucast d1 OR push_bit 8 (ucast d2) OR push_bit 16 (ucast d3) OR
                                push_bit 24 (ucast d4) OR push_bit 32 (ucast d5) OR
                                push_bit 40 (ucast d6) OR push_bit 48 (ucast d7) OR
                                push_bit 56 (ucast d8)))
               })
          })"

section \<open>The varint reads back what it writes\<close>

lemma varint_byte_continues: "(ucast (v AND 0x7F :: u32) OR 0x80 :: u8) AND 0x80 \<noteq> 0"
  by (simp add: and_80_iff_bit bit_simps)

lemma varint_byte_payload:
  "ucast ((ucast (v AND 0x7F :: u32) OR 0x80 :: u8) AND 0x7F) = take_bit 7 v"
  unfolding and_7F by (rule bit_word_eqI) (auto simp: bit_simps)

lemma varint_recombine:
  "push_bit s (take_bit 7 v) OR push_bit (s + 7) (drop_bit 7 v) = push_bit s (v :: u32)"
proof (rule bit_word_eqI)
  fix n
  assume "n < LENGTH(32)"
  moreover have "s + 7 \<le> n \<Longrightarrow> 7 + (n - (s + 7)) = n - s" by simp
  ultimately show "bit (push_bit s (take_bit 7 v) OR push_bit (s + 7) (drop_bit 7 v)) n
      = bit (push_bit s v) n"
    by (cases "s + 7 \<le> n") (auto simp: bit_simps)
qed

lemma VarintDecode_loop_encode:
  assumes "unat v * 2 ^ s < 2 ^ 32" and "s < 32"
  shows "VarintDecode_loop (VarintEncode v @ rest) r s i
           = Some (i + length (VarintEncode v), r OR push_bit s v)"
  using assms
proof (induction v arbitrary: r s i rule: VarintEncode.induct)
  case (1 v)
  show ?case
  proof (cases "v \<ge> 0x80")
    case True
    then have v: "128 \<le> unat v" by (simp add: word_le_nat_alt)
    then have "128 * 2 ^ s \<le> unat v * 2 ^ s" by (rule mult_le_mono1)
    with "1.prems"(1) have "128 * 2 ^ s < (2 :: nat) ^ 32" by (rule le_less_trans [rotated])
    then have "(2::nat) ^ (s + 7) < 2 ^ 32" by (simp add: power_add)
    then have s: "s + 7 < 32" by (simp only: power_strict_increasing_iff)
    have "unat v div 128 * 2 ^ (s + 7) = unat v div 128 * 128 * 2 ^ s"
      by (simp add: power_add)
    also have "\<dots> \<le> unat v * 2 ^ s" by (rule mult_le_mono1) simp
    also have "\<dots> < 2 ^ 32" by (rule "1.prems"(1))
    finally have "unat (drop_bit 7 v) * 2 ^ (s + 7) < 2 ^ 32" by (simp add: unat_drop_bit)
    from "1.IH" [OF True this s] show ?thesis
      using True "1.prems"(2)
      by (subst (1 2) VarintEncode.simps)
        (simp add: varint_byte_continues varint_byte_payload varint_recombine or.assoc)
  next
    case False
    then have v: "unat v < 128" by (simp add: word_le_nat_alt)
    then have "ucast (ucast v :: u8) = v"
      by (simp add: word_unat_eq_iff unat_bits)
    moreover have "\<not> (ucast v :: u8) AND 0x80 \<noteq> 0"
      using v by (simp only: and_80_iff) (simp add: unat_ucast_byte)
    ultimately show ?thesis
      using False "1.prems"(2) by (subst (1 2) VarintEncode.simps) simp
  qed
qed

lemma VarintDecode_encode:
  "VarintDecode (VarintEncode v @ rest) = Some (length (VarintEncode v), v)"
  using VarintDecode_loop_encode [of v 0 rest 0 0] unsigned_less [of v, where 'a = nat]
  by (simp add: VarintDecode_def)

interpretation varint32: prefix_code "\<lambda>_. True" VarintEncode VarintDecode
  by unfold_locales (rule VarintDecode_encode)


section \<open>The Bitcoin integer: what the decoder reads\<close>

text \<open>
  The format \<^verbatim>\<open>DecodeVarint128\<close> is written for: groups of seven bits, most significant first,
  every byte but the last with bit 7 set, and each continuation adding one to the value.
\<close>

fun core_varint_hi :: "nat \<Rightarrow> bytes" where
  "core_varint_hi n =
     (if n \<le> 127 then [of_nat (n + 128)]
      else core_varint_hi (n div 128 - 1) @ [of_nat (n mod 128 + 128)])"

declare core_varint_hi.simps [simp del]

definition core_varint :: "nat \<Rightarrow> bytes" where
  "core_varint n =
     (if n \<le> 127 then [of_nat n] else core_varint_hi (n div 128 - 1) @ [of_nat (n mod 128)])"

lemma varint128_accumulate:
  "push_bit 7 value OR ucast (b AND 0x7F :: u8) = value * 128 + (of_nat (unat b mod 128) :: u64)"
proof -
  have "push_bit 7 value AND (ucast (b AND 0x7F) :: u64) = 0"
    unfolding and_7F by (rule bit_word_eqI) (auto simp: bit_simps)
  then have "push_bit 7 value OR ucast (b AND 0x7F) = push_bit 7 value + (ucast (b AND 0x7F) :: u64)"
    by (simp add: disjunctive_add_eq_or)
  moreover have "(ucast (b AND 0x7F) :: u64) = of_nat (unat b mod 128)"
    by (simp add: word_unat_eq_iff unat_bits and_7F unat_of_nat)
  ultimately show ?thesis by (simp add: push_bit_eq_mult)
qed

lemma DecodeVarint128_cont:
  "g < 128 \<Longrightarrow> DecodeVarint128_loop (of_nat (g + 128) # ret) value n
     = DecodeVarint128_loop ret (value * 128 + of_nat (g + 1)) (n + 1)"
  using and_80_iff [of "of_nat (g + 128)"]
  by (simp add: Let_def varint128_accumulate unat_of_nat del: of_nat_add) (simp add: ac_simps)

lemma DecodeVarint128_last:
  "g < 128 \<Longrightarrow> DecodeVarint128_loop (of_nat g # ret) value n = Some (n + 1, value * 128 + of_nat g)"
  using and_80_iff [of "of_nat g"] by (simp add: Let_def varint128_accumulate unat_of_nat)

declare DecodeVarint128_loop.simps(2) [simp del]

lemma DecodeVarint128_hi:
  "DecodeVarint128_loop (core_varint_hi m @ rest) 0 n
     = DecodeVarint128_loop rest (of_nat (m + 1)) (n + length (core_varint_hi m))"
proof (induction m arbitrary: rest n rule: core_varint_hi.induct)
  case (1 m)
  show ?case
  proof (cases "m \<le> 127")
    case True
    then show ?thesis by (simp add: core_varint_hi.simps [of m] DecodeVarint128_cont del: of_nat_add)
  next
    case False
    then have suc: "Suc (m div 128 - 1) = m div 128" by (simp add: Suc_pred' [symmetric] div_greater_zero_iff)
    have acc: "(of_nat (m div 128) * 128 + (1 + of_nat (m mod 128)) :: u64) = 1 + of_nat m"
      by (simp add: add.left_commute of_nat_div_mod_128)
    from suc show ?thesis using False "1.IH" [OF False]
      by (simp add: core_varint_hi.simps [of m] DecodeVarint128_cont del: of_nat_add)
        (simp add: acc)
  qed
qed

lemma DecodeVarint128_core:
  "DecodeVarint128 (core_varint n @ rest) = Some (length (core_varint n), of_nat n)"
proof (cases "n \<le> 127")
  case True
  then show ?thesis by (simp add: DecodeVarint128_def core_varint_def DecodeVarint128_last)
next
  case False
  then have "Suc (n div 128 - 1) = n div 128" by (simp add: Suc_pred' [symmetric] div_greater_zero_iff)
  moreover have "(of_nat (n div 128) * 128 + of_nat (n mod 128) :: u64) = of_nat n"
    by (rule of_nat_div_mod_128)
  ultimately show ?thesis using False
    by (simp add: DecodeVarint128_def core_varint_def DecodeVarint128_hi DecodeVarint128_last)
qed

lemma core_varint_hi_bound: "127 * (n + 1) + 128 \<le> 128 ^ (length (core_varint_hi n) + 1)"
proof (induction n rule: core_varint_hi.induct)
  case (1 n)
  show ?case
  proof (cases "n \<le> 127")
    case True
    then show ?thesis by (simp add: core_varint_hi.simps [of n])
  next
    case False
    then have suc: "n div 128 - 1 + 1 = n div 128" by (simp add: div_greater_zero_iff)
    have "127 * (n + 1) + 128 \<le> 128 * (127 * (n div 128) + 128)" by simp
    also have "\<dots> \<le> 128 * 128 ^ (length (core_varint_hi (n div 128 - 1)) + 1)"
      using "1.IH" [OF False] unfolding suc by (rule mult_le_mono2)
    finally show ?thesis using False by (simp add: core_varint_hi.simps [of n])
  qed
qed

lemma core_varint_bound:
  assumes "length (core_varint n) \<le> 9"
  shows "n < 2 ^ 64"
proof (cases "n \<le> 127")
  case True
  then show ?thesis by simp
next
  case False
  let ?m = "n div 128 - 1"
  from False assms have "length (core_varint_hi ?m) + 1 \<le> 9" by (simp add: core_varint_def)
  then have "(128::nat) ^ (length (core_varint_hi ?m) + 1) \<le> 128 ^ 9"
    by (rule power_increasing) simp
  with core_varint_hi_bound [of ?m] have "127 * (?m + 1) + 128 \<le> 128 ^ 9" by (rule le_trans)
  moreover from False have "?m + 1 = n div 128" by (simp add: div_greater_zero_iff)
  ultimately have "127 * (n div 128) + 128 \<le> 128 ^ 9" by simp
  moreover have "q < 2 ^ 57" if "127 * q + 128 \<le> 128 ^ 9" for q :: nat using that by simp
  ultimately have "n div 128 < 2 ^ 57" by blast
  then have "n < 2 ^ 57 * 128" by (simp only: div_less_iff_less_mult)
  then show ?thesis by simp
qed

lemma DecodeVarint128_loop_canonical:
  assumes "DecodeVarint128_loop bs (of_nat (m + 1)) k = Some (k', v)"
  shows "\<exists>n. v = of_nat n \<and> core_varint n = core_varint_hi m @ take (k' - k) bs \<and> k < k'"
  using assms
proof (induction bs arbitrary: m k)
  case Nil
  then show ?case by simp
next
  case (Cons b bs)
  define g where "g = unat b mod 128"
  have g: "g < 128" by (simp add: g_def)
  then have d: "((m + 1) * 128 + g) div 128 = m + 1" "((m + 1) * 128 + g) mod 128 = g"
    by (simp_all only: div_mult_self3 mod_mult_self3) simp_all
  show ?case
  proof (cases "128 \<le> unat b")
    case True
    then have b: "b = of_nat (g + 128)" unfolding g_def by (rule byte_high)
    let ?m = "(m + 1) * 128 + g"
    have acc: "of_nat (m + 1) * 128 + of_nat (g + 1) = (of_nat (?m + 1) :: u64)" by simp
    from Cons.prems have "DecodeVarint128_loop bs (of_nat (?m + 1)) (k + 1) = Some (k', v)"
      by (simp only: b DecodeVarint128_cont [OF g] acc)
    from Cons.IH [OF this] obtain n where n: "v = of_nat n"
      "core_varint n = core_varint_hi ?m @ take (k' - (k + 1)) bs" "k + 1 < k'" by blast
    moreover have "core_varint_hi ?m = core_varint_hi m @ [b]"
      by (subst core_varint_hi.simps) (simp only: b d, simp)
    moreover from n(3) have "k' - k = Suc (k' - (k + 1))" by simp
    then have "take (k' - k) (b # bs) = b # take (k' - (k + 1)) bs" by simp
    ultimately show ?thesis by auto
  next
    case False
    then have b: "b = of_nat g" unfolding g_def by (rule byte_low)
    with Cons.prems have k': "k' = k + 1" and v: "v = of_nat ((m + 1) * 128 + g)"
      by (simp_all add: DecodeVarint128_last [OF g] del: of_nat_add) (simp add: algebra_simps)
    have "core_varint ((m + 1) * 128 + g) = core_varint_hi m @ [b]"
      by (simp only: core_varint_def d b) simp
    moreover from k' have "take (k' - k) (b # bs) = [b]" and "k < k'" by simp_all
    ultimately show ?thesis using v by metis
  qed
qed

lemma DecodeVarint128_canonical_nat:
  assumes "DecodeVarint128 bs = Some (k, v)"
  shows "\<exists>n. v = of_nat n \<and> core_varint n = take k bs"
proof (cases bs)
  case Nil
  with assms show ?thesis by (simp add: DecodeVarint128_def)
next
  case (Cons b bs')
  define g where "g = unat b mod 128"
  have g: "g < 128" by (simp add: g_def)
  show ?thesis
  proof (cases "128 \<le> unat b")
    case True
    then have b: "b = of_nat (g + 128)" unfolding g_def by (rule byte_high)
    from assms Cons have "DecodeVarint128_loop bs' (of_nat (g + 1)) 1 = Some (k, v)"
      by (simp add: DecodeVarint128_def b DecodeVarint128_cont [OF g] del: of_nat_add)
    from DecodeVarint128_loop_canonical [OF this] obtain n where
      n: "v = of_nat n" "core_varint n = core_varint_hi g @ take (k - 1) bs'" "1 < k" by blast
    moreover have "core_varint_hi g = [b]" using g b by (simp add: core_varint_hi.simps [of g])
    moreover have "take k bs = b # take (k - 1) bs'" using Cons n(3) by (cases k) auto
    ultimately show ?thesis by auto
  next
    case False
    then have b: "b = of_nat g" unfolding g_def by (rule byte_low)
    with assms Cons have "k = 1" and "v = of_nat g"
      by (simp_all add: DecodeVarint128_def DecodeVarint128_last [OF g])
    moreover have "core_varint g = [of_nat g]" using g by (simp add: core_varint_def)
    moreover have "take 1 bs = [of_nat g]" using Cons b by simp
    ultimately show ?thesis by metis
  qed
qed

section \<open>The encoder against the decoder\<close>

fun v128_groups :: "nat \<Rightarrow> bytes" where
  "v128_groups n =
     (if n > 127 then of_nat (n mod 128 + 128) # v128_groups (n div 128 - 1) else [of_nat n])"

declare v128_groups.simps [simp del]

lemma length_v128_groups: "127 * n + 128 < 128 ^ (k + 1) \<Longrightarrow> 0 < k \<Longrightarrow> length (v128_groups n) \<le> k"
proof (induction n arbitrary: k rule: v128_groups.induct)
  case (1 n)
  show ?case
  proof (cases "n > 127")
    case True
    let ?m = "n div 128 - 1"
    from True have m: "?m + 1 = n div 128" by (simp add: div_greater_zero_iff)
    have "128 * (127 * ?m + 128) \<le> 127 * n + 128"
    proof -
      have "127 * ?m + 127 = 127 * (n div 128)" using m by simp
      then have "127 * ?m + 128 = 127 * (n div 128) + 1" by simp
      then show ?thesis by simp
    qed
    with "1.prems"(1) have "128 * (127 * ?m + 128) < 128 * 128 ^ k"
      by (simp only: power_add power_one_right mult.commute)
    then have less: "127 * ?m + 128 < 128 ^ k" by (simp only: mult_less_cancel1)
    then have "k \<noteq> 0" by (cases k) auto
    moreover have "k \<noteq> 1" using less by (cases "k = 1") auto
    ultimately obtain j where j: "k = j + 1" "0 < j" by (cases k) auto
    with less "1.IH" [OF True, of j] have "length (v128_groups ?m) \<le> j" by simp
    with True j show ?thesis by (simp add: v128_groups.simps [of n])
  next
    case False
    with "1.prems" show ?thesis by (simp add: v128_groups.simps [of n])
  qed
qed

lemma v128_group_byte:
  "(ucast (value AND 0x7F :: u64) OR 0x80 :: u8) = of_nat (unat value mod 128 + 128)"
  by (simp add: word_unat_eq_iff unat_bits and_7F unat_of_nat del: of_nat_add)

lemma EncodeVarint128_loop_groups:
  "length buffer + length (v128_groups (unat v)) \<le> 10 \<Longrightarrow>
     EncodeVarint128_loop v buffer = Some (buffer @ v128_groups (unat v))"
proof (induction v buffer rule: EncodeVarint128_loop.induct)
  case (1 v buffer)
  show ?case
  proof (cases "v > 0x7F")
    case True
    then have vn: "unat v > 127" by (simp add: word_less_nat_alt)
    then have "unat v div 128 \<ge> 1" by simp
    then have step: "unat (drop_bit 7 v - 1) = unat v div 128 - 1"
      by (subst unat_sub) (simp_all add: word_le_nat_alt unat_drop_bit)
    from vn "1.prems" have len: "length buffer < 10"
      and len': "length (buffer @ [ucast (v AND 0x7F) OR 0x80])
                   + length (v128_groups (unat (drop_bit 7 v - 1))) \<le> 10"
      by (simp_all add: v128_groups.simps [of "unat v"] step)
    from "1.IH" [OF True len len'] show ?thesis using True vn len
      by (subst EncodeVarint128_loop.simps)
        (simp add: v128_groups.simps [of "unat v"] step v128_group_byte del: of_nat_add)
  next
    case False
    then have vn: "unat v \<le> 127" by (simp add: word_less_nat_alt)
    then have "(ucast (v AND 0x7F) :: u8) = of_nat (unat v)"
      by (simp add: word_unat_eq_iff unat_bits and_7F unat_of_nat)
    with vn False "1.prems" show ?thesis
      by (subst EncodeVarint128_loop.simps) (simp add: v128_groups.simps [of "unat v"])
  qed
qed

lemma EncodeVarint128_groups:
  "EncodeVarint128 v
     = Some (length (v128_groups (unat v)), rev (v128_groups (unat v)))"
proof -
  have "unat v < 2 ^ 64" using unsigned_less [of v, where 'a = nat] by simp
  then have "length (v128_groups (unat v)) \<le> 10" by (intro length_v128_groups) simp_all
  then show ?thesis
    using EncodeVarint128_loop_groups [of "[]" v] by (simp add: EncodeVarint128_def)
qed

lemma v128_groups_last:
  "\<exists>g < 128. \<exists>ys. rev (v128_groups n) = of_nat g # ys \<and> g \<le> n"
proof (induction n rule: v128_groups.induct)
  case (1 n)
  show ?case
  proof (cases "n > 127")
    case True
    from "1.IH" [OF True] obtain g ys where
      "g < 128" "rev (v128_groups (n div 128 - 1)) = of_nat g # ys" by blast
    with True show ?thesis by (auto simp: v128_groups.simps [of n])
  next
    case False
    then have "rev (v128_groups n) = of_nat n # []" by (simp add: v128_groups.simps [of n])
    moreover from False have "n < 128" by simp
    ultimately show ?thesis by blast
  qed
qed

section \<open>Compact sizes read back\<close>

lemma byte_join:
  "take_bit k v OR push_bit k (ucast (ucast (drop_bit k v AND 0xFF) :: u8)) = take_bit (k + 8) (v :: u64)"
proof (rule bit_word_eqI)
  fix n
  assume "n < LENGTH(64)"
  moreover have "k \<le> n \<Longrightarrow> k + (n - k) = n" by simp
  ultimately show "bit (take_bit k v OR push_bit k (ucast (ucast (drop_bit k v AND 0xFF) :: u8))) n
      = bit (take_bit (k + 8) v) n"
    unfolding and_FF by (cases "k \<le> n") (auto simp: bit_simps)
qed

lemma byte_join_0: "ucast (ucast (v AND 0xFF) :: u8) = take_bit 8 (v :: u64)"
  using byte_join [of 0 v] by simp

lemma bytes_join_16:
  "ucast (ucast (v AND 0xFF) :: u8) OR push_bit 8 (ucast (ucast (drop_bit 8 v AND 0xFF) :: u8))
     = take_bit 16 (v :: u64)"
  using byte_join [of 8 v] by (simp add: byte_join_0)

lemma bytes_join_32:
  "ucast (ucast (v AND 0xFF) :: u8) OR push_bit 8 (ucast (ucast (drop_bit 8 v AND 0xFF) :: u8)) OR
   push_bit 16 (ucast (ucast (drop_bit 16 v AND 0xFF) :: u8)) OR
   push_bit 24 (ucast (ucast (drop_bit 24 v AND 0xFF) :: u8)) = take_bit 32 (v :: u64)"
  using bytes_join_16 [of v] byte_join [of 16 v] byte_join [of 24 v]
  by (simp add: or.assoc [symmetric])

lemma bytes_join_64:
  "ucast (ucast (v AND 0xFF) :: u8) OR push_bit 8 (ucast (ucast (drop_bit 8 v AND 0xFF) :: u8)) OR
   push_bit 16 (ucast (ucast (drop_bit 16 v AND 0xFF) :: u8)) OR
   push_bit 24 (ucast (ucast (drop_bit 24 v AND 0xFF) :: u8)) OR
   push_bit 32 (ucast (ucast (drop_bit 32 v AND 0xFF) :: u8)) OR
   push_bit 40 (ucast (ucast (drop_bit 40 v AND 0xFF) :: u8)) OR
   push_bit 48 (ucast (ucast (drop_bit 48 v AND 0xFF) :: u8)) OR
   push_bit 56 (ucast (ucast (drop_bit 56 v AND 0xFF) :: u8)) = (v :: u64)"
proof -
  have "take_bit 64 v = v" by (rule bit_word_eqI) (simp add: bit_simps)
  then show ?thesis
    using bytes_join_32 [of v] byte_join [of 32 v] byte_join [of 40 v] byte_join [of 48 v]
      byte_join [of 56 v]
    by (simp add: or.assoc [symmetric])
qed

lemma take_bit_small: "unat (v :: 'a::len word) < 2 ^ k \<Longrightarrow> take_bit k v = v"
  by (simp add: word_unat_eq_iff unat_take_bit)

lemma length_CompactSizeEncode:
  "length (CompactSizeEncode v) =
     (if v \<le> 252 then 1 else if v \<le> 0xFFFF then 3 else if v \<le> 0xFFFFFFFF then 5 else 9)"
  by (simp add: CompactSizeEncode_def)

lemma CompactSizeDecode_encode:
  assumes "length (CompactSizeEncode v) \<le> dataSize"
  shows "CompactSizeDecode (Some (CompactSizeEncode v @ rest)) dataSize True
           = Some (length (CompactSizeEncode v), Some v)"
proof -
  have nz: "dataSize \<noteq> 0" using assms by (auto simp: length_CompactSizeEncode split: if_splits)
  consider (one) "v \<le> 252" | (three) "\<not> v \<le> 252" "v \<le> 0xFFFF"
    | (five) "\<not> v \<le> 252" "\<not> v \<le> 0xFFFF" "v \<le> 0xFFFFFFFF"
    | (nine) "\<not> v \<le> 252" "\<not> v \<le> 0xFFFF" "\<not> v \<le> 0xFFFFFFFF" by blast
  then show ?thesis
  proof cases
    case one
    then have "unat v \<le> 252" by (simp add: word_le_nat_alt)
    then have "(ucast (ucast v :: u8) :: u64) = v" and "(ucast v :: u8) \<le> 0xFC"
      by (simp_all add: word_unat_eq_iff word_le_nat_alt unat_bits)
    with one nz show ?thesis by (simp add: CompactSizeDecode_def CompactSizeEncode_def rd_def)
  next
    case three
    then have "take_bit 16 v = v" by (intro take_bit_small) (simp add: word_le_nat_alt)
    with three nz assms show ?thesis
      by (simp add: CompactSizeDecode_def CompactSizeEncode_def rd_def bytes_join_16)
  next
    case five
    then have "take_bit 32 v = v" by (intro take_bit_small) (simp add: word_le_nat_alt)
    with five nz assms show ?thesis
      by (simp add: CompactSizeDecode_def CompactSizeEncode_def rd_def bytes_join_32)
  next
    case nine
    with nz assms show ?thesis
      by (simp add: CompactSizeDecode_def CompactSizeEncode_def rd_def bytes_join_64)
  qed
qed

definition CompactSize_read :: "bytes \<Rightarrow> (nat \<times> u64) option" where
  "CompactSize_read bs =
     (case CompactSizeDecode (Some bs) 10 True of
        Some (n, Some v) \<Rightarrow> Some (n, v) | _ \<Rightarrow> None)"

lemma CompactSize_read_encode:
  "CompactSize_read (CompactSizeEncode v @ rest) = Some (length (CompactSizeEncode v), v)"
  by (simp add: CompactSize_read_def CompactSizeDecode_encode length_CompactSizeEncode)

interpretation compact: prefix_code "\<lambda>_. True" CompactSizeEncode CompactSize_read
  by unfold_locales (rule CompactSize_read_encode)

definition Varint128_read :: "bytes \<Rightarrow> (nat \<times> nat) option" where
  "Varint128_read bs = map_option (\<lambda>(n, v). (n, unat v)) (DecodeVarint128 bs)"

interpretation varint128: prefix_code "\<lambda>n. n < 2 ^ 64" core_varint Varint128_read
  by unfold_locales (simp add: Varint128_read_def DecodeVarint128_core unat_of_nat)

section \<open>Byte order helpers\<close>

lemma ConvertUint32_word_le: "ConvertUint32ToUint8Array x = rev (word_le 4 x)"
proof -
  have "(ucast (y AND 0xFF) :: u8) = ucast y" for y :: u32
    unfolding and_FF by (rule bit_word_eqI) (simp add: bit_simps)
  then show ?thesis by (simp add: ConvertUint32ToUint8Array_def word_le_4)
qed

lemma ChangeEndianness_bytes: "word_le 4 (ChangeEndiannessUint32 x) = rev (word_le 4 x)"
proof -
  let ?y = "ChangeEndiannessUint32 x"
  have masks: "(0x000000FF :: u32) = mask 8" "(0x0000FF00 :: u32) = push_bit 8 (mask 8)"
    "(0x00FF0000 :: u32) = push_bit 16 (mask 8)" "(0xFF000000 :: u32) = push_bit 24 (mask 8)"
    by (simp_all add: mask_eq_exp_minus_1)
  have "(ucast ?y :: u8) = ucast (drop_bit 24 x)" "(ucast (drop_bit 8 ?y) :: u8) = ucast (drop_bit 16 x)"
    "(ucast (drop_bit 16 ?y) :: u8) = ucast (drop_bit 8 x)" "(ucast (drop_bit 24 ?y) :: u8) = ucast x"
    unfolding ChangeEndiannessUint32_def masks
    by (rule bit_word_eqI, auto simp: bit_simps)+
  then show ?thesis by (simp add: word_le_4)
qed

section \<open>Properties\<close>

text \<open>
  The base-128 varint of \<^verbatim>\<open>bigInts.c\<close> is a round trip for every 32-bit value: whatever
  follows in the buffer, \<^verbatim>\<open>VarintDecode\<close> gives back the value and the number of bytes that
  \<^verbatim>\<open>VarintEncode\<close> wrote.
\<close>

theorem varint_roundtrip:
  "VarintDecode (VarintEncode v @ rest) = Some (length (VarintEncode v), v)"
  by (rule VarintDecode_encode)

text \<open>
  C13: \<^verbatim>\<open>DecodeVarint128\<close> inverts the Bitcoin integer format for every 64-bit value, and the
  format is canonical: any bytes it decodes using at most nine of them are the one encoding of
  the value it returns. (Ten bytes can exceed 64 bits and wrap.)
\<close>

theorem varint128_decode_canonical:
  "(n < 2 ^ 64 \<longrightarrow> DecodeVarint128 (core_varint n @ rest) = Some (length (core_varint n), of_nat n)) \<and>
   (DecodeVarint128 bs = Some (k, v) \<and> k \<le> 9 \<longrightarrow> take k bs = core_varint (unat v))"
proof (intro conjI impI)
  show "DecodeVarint128 (core_varint n @ rest) = Some (length (core_varint n), of_nat n)"
    by (rule DecodeVarint128_core)
  assume d: "DecodeVarint128 bs = Some (k, v) \<and> k \<le> 9"
  then obtain m where m: "v = of_nat m" "core_varint m = take k bs"
    using DecodeVarint128_canonical_nat by blast
  with d have "length (core_varint m) \<le> 9" by (simp add: min_le_iff_disj)
  then have "m < 2 ^ 64" by (rule core_varint_bound)
  with m show "take k bs = core_varint (unat v)" by (simp add: unat_of_nat)
qed

theorem varint128_decode_canonical_witness:
  "DecodeVarint128 ([0x80, 0x00] @ [7]) = Some (2, 128) \<and> take 2 [0x80, 0x00, 7] = core_varint 128"
proof -
  have c: "core_varint 128 = [0x80, 0x00]"
    by (simp add: core_varint_def core_varint_hi.simps [of 0])
  have "DecodeVarint128 (core_varint 128 @ [7]) = Some (2, 128)"
    using varint128_decode_canonical [of 128 "[7]" "[]" 0 0] by (simp add: c)
  moreover from this have "take 2 [0x80, 0x00, 7] = core_varint (unat (128 :: u64))"
    using varint128_decode_canonical [of 0 "[]" "[0x80, 0x00, 7]" 2 128] by (simp add: c)
  ultimately show ?thesis by (simp add: c)
qed

text \<open>
  \<^verbatim>\<open>EncodeVarint128\<close> never overruns its ten-byte buffer, but it does not write the format
  \<^verbatim>\<open>DecodeVarint128\<close> reads: the continuation bit is set on every byte but the most significant
  group, which is written first. Decoding its output gives the value back exactly for values up
  to 127; for every larger value the decoder stops after the first byte.
\<close>

theorem EncodeVarint128_not_inverse:
  "\<exists>d u. EncodeVarint128 v = Some (length d, d) \<and> DecodeVarint128 d = Some (1, u) \<and>
     length d \<le> 10 \<and> (u = v \<longleftrightarrow> v \<le> 127)"
proof -
  let ?g = "v128_groups (unat v)"
  obtain g ys where g: "g < 128" "rev ?g = of_nat g # ys" "g \<le> unat v"
    using v128_groups_last by blast
  have enc: "EncodeVarint128 v = Some (length (rev ?g), rev ?g)"
    by (simp add: EncodeVarint128_groups)
  have dec: "DecodeVarint128 (rev ?g) = Some (1, of_nat g)"
    using g by (simp add: DecodeVarint128_def DecodeVarint128_last)
  have "unat v < 2 ^ 64" using unsigned_less [of v, where 'a = nat] by simp
  then have len: "length (rev ?g) \<le> 10" by (simp add: length_v128_groups)
  have "(of_nat g :: u64) = v \<longleftrightarrow> v \<le> 127"
  proof (cases "v \<le> 127")
    case True
    then have "unat v \<le> 127" by (simp add: word_le_nat_alt)
    then have "rev ?g = [of_nat (unat v)]" by (simp add: v128_groups.simps [of "unat v"])
    with g(2) have "unat (of_nat g :: u8) = unat (of_nat (unat v) :: u8)" by simp
    then have "g mod 256 = unat v mod 256" by (simp only: unat_of_nat_byte)
    with g(1) \<open>unat v \<le> 127\<close> have "g = unat v" by simp
    with True show ?thesis by simp
  next
    case False
    then have "127 < unat v" by (simp add: word_le_nat_alt)
    with g(1) have "unat (of_nat g :: u64) \<noteq> unat v" by (simp add: unat_of_nat)
    with False show ?thesis by auto
  qed
  with enc dec len show ?thesis by blast
qed

text \<open>
  A compact size is read back by \<^verbatim>\<open>CompactSizeDecode\<close> whenever the claimed size of the data
  covers the encoding, for every 64-bit value and whatever follows; with a shorter claimed size
  the decoder returns the claimed size and stores nothing through \<^verbatim>\<open>value\<close>.
\<close>

theorem compact_size_roundtrip:
  "CompactSizeDecode (Some (CompactSizeEncode v @ rest)) dataSize True =
     (if dataSize = 0 then Some (0, Some 0)
      else if length (CompactSizeEncode v) \<le> dataSize then Some (length (CompactSizeEncode v), Some v)
      else Some (dataSize, None))"
proof (cases "length (CompactSizeEncode v) \<le> dataSize")
  case True
  moreover have "length (CompactSizeEncode v) \<ge> 1" by (simp add: length_CompactSizeEncode)
  ultimately show ?thesis by (auto simp: CompactSizeDecode_encode)
next
  case False
  consider (one) "v \<le> 252" | (three) "\<not> v \<le> 252" "v \<le> 0xFFFF"
    | (five) "\<not> v \<le> 252" "\<not> v \<le> 0xFFFF" "v \<le> 0xFFFFFFFF"
    | (nine) "\<not> v \<le> 252" "\<not> v \<le> 0xFFFF" "\<not> v \<le> 0xFFFFFFFF" by blast
  then show ?thesis
  proof cases
    case one
    with False have "dataSize = 0" by (simp add: length_CompactSizeEncode)
    then show ?thesis by (simp add: CompactSizeDecode_def)
  next
    case three
    with False have "dataSize < 3" by (simp add: length_CompactSizeEncode)
    with three show ?thesis by (simp add: CompactSizeDecode_def CompactSizeEncode_def rd_def)
  next
    case five
    with False have "dataSize < 5" by (simp add: length_CompactSizeEncode)
    with five show ?thesis by (simp add: CompactSizeDecode_def CompactSizeEncode_def rd_def)
  next
    case nine
    with False have "dataSize < 9" by (simp add: length_CompactSizeEncode)
    with nine show ?thesis by (simp add: CompactSizeDecode_def CompactSizeEncode_def rd_def)
  qed
qed

text \<open>
  \<^verbatim>\<open>ConvertUint32ToUint8Array\<close> writes the big-endian bytes of a value and
  \<^verbatim>\<open>ChangeEndiannessUint32\<close> reverses its bytes, so swapping twice is the identity.
\<close>

theorem endianness_helpers:
  "ConvertUint32ToUint8Array x = rev (word_le 4 x) \<and>
   ConvertUint32ToUint8Array (ChangeEndiannessUint32 x) = word_le 4 x \<and>
   ChangeEndiannessUint32 (ChangeEndiannessUint32 x) = x"
  by (simp add: ConvertUint32_word_le ChangeEndianness_bytes word_le_inj)

end
