(* ===== verification/Sha256.thy ===== *)
theory Sha256
  imports Mlbtcc_Prelude
begin

text \<open>
  \<^verbatim>\<open>src/extern/sha256/sha256.c\<close>: the streaming SHA-256 the program hashes headers and
  transactions with, and the FIPS 180-4 function it must compute. The context is allocated on
  the caller's stack, so its data buffer starts with arbitrary bytes (the argument \<open>junk\<close> of
  \<open>sha256_init\<close>); that no digest depends on them is part of what is proved.
\<close>

section \<open>The code\<close>

record SHA256_CTX =
  ctx_data :: bytes
  datalen :: nat
  bitlen :: u64
  ctx_state :: "u32 list"

definition ROTRIGHT :: "u32 \<Rightarrow> nat \<Rightarrow> u32" where
  "ROTRIGHT a b = drop_bit b a OR push_bit (32 - b) a"

definition CH :: "u32 \<Rightarrow> u32 \<Rightarrow> u32 \<Rightarrow> u32" where
  "CH x y z = (x AND y) XOR (NOT x AND z)"

definition MAJ :: "u32 \<Rightarrow> u32 \<Rightarrow> u32 \<Rightarrow> u32" where
  "MAJ x y z = (x AND y) XOR (x AND z) XOR (y AND z)"

definition EP0 :: "u32 \<Rightarrow> u32" where
  "EP0 x = ROTRIGHT x 2 XOR ROTRIGHT x 13 XOR ROTRIGHT x 22"

definition EP1 :: "u32 \<Rightarrow> u32" where
  "EP1 x = ROTRIGHT x 6 XOR ROTRIGHT x 11 XOR ROTRIGHT x 25"

definition SIG0 :: "u32 \<Rightarrow> u32" where
  "SIG0 x = ROTRIGHT x 7 XOR ROTRIGHT x 18 XOR drop_bit 3 x"

definition SIG1 :: "u32 \<Rightarrow> u32" where
  "SIG1 x = ROTRIGHT x 17 XOR ROTRIGHT x 19 XOR drop_bit 10 x"

definition sha256_k :: "u32 list" where
  "sha256_k =
    [0x428a2f98, 0x71374491, 0xb5c0fbcf, 0xe9b5dba5, 0x3956c25b, 0x59f111f1, 0x923f82a4, 0xab1c5ed5] @
    [0xd807aa98, 0x12835b01, 0x243185be, 0x550c7dc3, 0x72be5d74, 0x80deb1fe, 0x9bdc06a7, 0xc19bf174] @
    [0xe49b69c1, 0xefbe4786, 0x0fc19dc6, 0x240ca1cc, 0x2de92c6f, 0x4a7484aa, 0x5cb0a9dc, 0x76f988da] @
    [0x983e5152, 0xa831c66d, 0xb00327c8, 0xbf597fc7, 0xc6e00bf3, 0xd5a79147, 0x06ca6351, 0x14292967] @
    [0x27b70a85, 0x2e1b2138, 0x4d2c6dfc, 0x53380d13, 0x650a7354, 0x766a0abb, 0x81c2c92e, 0x92722c85] @
    [0xa2bfe8a1, 0xa81a664b, 0xc24b8b70, 0xc76c51a3, 0xd192e819, 0xd6990624, 0xf40e3585, 0x106aa070] @
    [0x19a4c116, 0x1e376c08, 0x2748774c, 0x34b0bcb5, 0x391c0cb3, 0x4ed8aa4a, 0x5b9cca4f, 0x682e6ff3] @
    [0x748f82ee, 0x78a5636f, 0x84c87814, 0x8cc70208, 0x90befffa, 0xa4506ceb, 0xbef9a3f7, 0xc67178f2]"

definition transform_word :: "bytes \<Rightarrow> nat \<Rightarrow> u32" where
  "transform_word data j =
     push_bit 24 (ucast (data ! j)) OR push_bit 16 (ucast (data ! (j + 1))) OR
     push_bit 8 (ucast (data ! (j + 2))) OR ucast (data ! (j + 3))"

definition transform_extend :: "nat \<Rightarrow> u32 list \<Rightarrow> u32 list" where
  "transform_extend i m =
     m @ [SIG1 (m ! (i - 2)) + m ! (i - 7) + SIG0 (m ! (i - 15)) + m ! (i - 16)]"

definition transform_schedule :: "bytes \<Rightarrow> u32 list" where
  "transform_schedule data =
     fold transform_extend [16..<64] (map (\<lambda>i. transform_word data (4 * i)) [0..<16])"

type_synonym regs = "u32 \<times> u32 \<times> u32 \<times> u32 \<times> u32 \<times> u32 \<times> u32 \<times> u32"

definition transform_round :: "u32 list \<Rightarrow> nat \<Rightarrow> regs \<Rightarrow> regs" where
  "transform_round m i r =
     (case r of (a, b, c, d, e, f, g, h) \<Rightarrow>
        let t1 = h + EP1 e + CH e f g + sha256_k ! i + m ! i;
            t2 = EP0 a + MAJ a b c
        in (t1 + t2, a, b, c, d + t1, e, f, g))"

definition sha256_transform :: "u32 list \<Rightarrow> bytes \<Rightarrow> u32 list" where
  "sha256_transform s data =
     (let m = transform_schedule data in
      case fold (transform_round m) [0..<64]
             (s ! 0, s ! 1, s ! 2, s ! 3, s ! 4, s ! 5, s ! 6, s ! 7) of
        (a, b, c, d, e, f, g, h) \<Rightarrow>
          [s ! 0 + a, s ! 1 + b, s ! 2 + c, s ! 3 + d, s ! 4 + e, s ! 5 + f, s ! 6 + g, s ! 7 + h])"

definition sha256_init :: "bytes \<Rightarrow> SHA256_CTX" where
  "sha256_init junk =
     \<lparr>ctx_data = junk, datalen = 0, bitlen = 0,
      ctx_state = [0x6a09e667, 0xbb67ae85, 0x3c6ef372, 0xa54ff53a,
                   0x510e527f, 0x9b05688c, 0x1f83d9ab, 0x5be0cd19]\<rparr>"

text \<open>One turn of the loop of \<^verbatim>\<open>sha256_update\<close>.\<close>

definition sha256_update_byte :: "u8 \<Rightarrow> SHA256_CTX \<Rightarrow> SHA256_CTX" where
  "sha256_update_byte b ctx =
     (let ctx = ctx\<lparr>ctx_data := (ctx_data ctx)[datalen ctx := b], datalen := datalen ctx + 1\<rparr>
      in if datalen ctx = 64
         then ctx\<lparr>ctx_state := sha256_transform (ctx_state ctx) (ctx_data ctx),
                  bitlen := bitlen ctx + 512, datalen := 0\<rparr>
         else ctx)"

text \<open>
  The loop counter is a 32-bit \<^verbatim>\<open>WORD\<close> compared with a \<^verbatim>\<open>size_t\<close>: for a length of \<open>2 ^ 32\<close> or
  more it wraps before it reaches the bound and the loop never ends (\<open>None\<close>).
\<close>

definition sha256_update :: "SHA256_CTX \<Rightarrow> bytes \<Rightarrow> SHA256_CTX option" where
  "sha256_update ctx data =
     (if int (length data) < 2 ^ 32 then Some (fold sha256_update_byte data ctx) else None)"

function fill_zero :: "bytes \<Rightarrow> nat \<Rightarrow> nat \<Rightarrow> bytes" where
  "fill_zero data i n = (if i < n then fill_zero (data[i := 0]) (i + 1) n else data)"
  by pat_completeness auto
termination
  by (relation "measure (\<lambda>(data, i, n). n - i)") auto

declare fill_zero.simps [simp del]

definition put_bitlen :: "u64 \<Rightarrow> bytes \<Rightarrow> bytes" where
  "put_bitlen n data =
     data[63 := ucast n, 62 := ucast (drop_bit 8 n), 61 := ucast (drop_bit 16 n),
          60 := ucast (drop_bit 24 n), 59 := ucast (drop_bit 32 n), 58 := ucast (drop_bit 40 n),
          57 := ucast (drop_bit 48 n), 56 := ucast (drop_bit 56 n)]"

text \<open>The digest: byte \<open>i\<close> of word \<open>j\<close> of the state goes to \<^verbatim>\<open>hash[i + 4 * j]\<close>.\<close>

definition put_hash :: "u32 list \<Rightarrow> bytes" where
  "put_hash s = map (\<lambda>n. ucast (drop_bit (24 - (n mod 4) * 8) (s ! (n div 4)) AND 0x000000ff)) [0..<32]"

definition sha256_final :: "SHA256_CTX \<Rightarrow> bytes" where
  "sha256_final ctx =
     (let i = datalen ctx;
          ctx1 =
            (if datalen ctx < 56
             then ctx\<lparr>ctx_data := fill_zero ((ctx_data ctx)[i := 0x80]) (i + 1) 56\<rparr>
             else let full = fill_zero ((ctx_data ctx)[i := 0x80]) (i + 1) 64
                  in ctx\<lparr>ctx_state := sha256_transform (ctx_state ctx) full,
                         ctx_data := replicate 56 0 @ drop 56 full\<rparr>);
          ctx2 = ctx1\<lparr>bitlen := bitlen ctx1 + of_nat (datalen ctx * 8)\<rparr>;
          ctx3 = ctx2\<lparr>ctx_data := put_bitlen (bitlen ctx2) (ctx_data ctx2)\<rparr>
      in put_hash (sha256_transform (ctx_state ctx3) (ctx_data ctx3)))"

definition sha256 :: "bytes \<Rightarrow> bytes \<Rightarrow> bytes option" where
  "sha256 junk data = map_option sha256_final (sha256_update (sha256_init junk) data)"

definition sha256d :: "bytes \<Rightarrow> bytes \<Rightarrow> bytes option" where
  "sha256d junk data = do { hash \<leftarrow> sha256 junk data; sha256 junk hash }"

section \<open>FIPS 180-4\<close>

definition fips_Sigma0 :: "u32 \<Rightarrow> u32" where
  "fips_Sigma0 x = word_rotr 2 x XOR word_rotr 13 x XOR word_rotr 22 x"

definition fips_Sigma1 :: "u32 \<Rightarrow> u32" where
  "fips_Sigma1 x = word_rotr 6 x XOR word_rotr 11 x XOR word_rotr 25 x"

definition fips_sigma0 :: "u32 \<Rightarrow> u32" where
  "fips_sigma0 x = word_rotr 7 x XOR word_rotr 18 x XOR drop_bit 3 x"

definition fips_sigma1 :: "u32 \<Rightarrow> u32" where
  "fips_sigma1 x = word_rotr 17 x XOR word_rotr 19 x XOR drop_bit 10 x"

text \<open>The functions of section 4.1.2, as a choice and a majority of bits.\<close>

definition fips_Ch :: "u32 \<Rightarrow> u32 \<Rightarrow> u32 \<Rightarrow> u32" where
  "fips_Ch x y z = (x AND y) OR (NOT x AND z)"

definition fips_Maj :: "u32 \<Rightarrow> u32 \<Rightarrow> u32 \<Rightarrow> u32" where
  "fips_Maj x y z = (x AND y) OR (x AND z) OR (y AND z)"

text \<open>
  The constants of sections 4.2.2 and 5.3.3: the first 32 bits of the fractional parts of the cube roots
  of the first 64 primes, and of the square roots of the first 8. A root is found bit by bit.
\<close>

definition fips_primes :: "nat list" where
  "fips_primes =
    [2, 3, 5, 7, 11, 13, 17, 19, 23, 29, 31, 37, 41, 43, 47, 53,
     59, 61, 67, 71, 73, 79, 83, 89, 97, 101, 103, 107, 109, 113, 127, 131,
     137, 139, 149, 151, 157, 163, 167, 173, 179, 181, 191, 193, 197, 199, 211, 223,
     227, 229, 233, 239, 241, 251, 257, 263, 269, 271, 277, 281, 283, 293, 307, 311]"

fun root_bits :: "nat \<Rightarrow> nat \<Rightarrow> nat \<Rightarrow> nat \<Rightarrow> nat" where
  "root_bits r n m 0 = m"
| "root_bits r n m (Suc k) = root_bits r n (if (m + 2 ^ k) ^ r \<le> n then m + 2 ^ k else m) k"

definition fips_fraction :: "nat \<Rightarrow> nat \<Rightarrow> u32" where
  "fips_fraction r p = of_nat (root_bits r (p * 2 ^ (32 * r)) 0 40)"

definition fips_K :: "u32 list" where
  "fips_K = map (fips_fraction 3) fips_primes"

definition fips_H0 :: "u32 list" where
  "fips_H0 = map (fips_fraction 2) (take 8 fips_primes)"

text \<open>The message schedule as the recurrence of the standard, the words read big-endian.\<close>

definition be_word32 :: "bytes \<Rightarrow> u32" where
  "be_word32 bs = le_word (rev bs)"

fun fips_W :: "bytes \<Rightarrow> nat \<Rightarrow> u32" where
  "fips_W M t =
     (if t < 16 then be_word32 (take 4 (drop (4 * t) M))
      else fips_sigma1 (fips_W M (t - 2)) + fips_W M (t - 7) +
           fips_sigma0 (fips_W M (t - 15)) + fips_W M (t - 16))"

declare fips_W.simps [simp del]

fun fips_rounds :: "bytes \<Rightarrow> nat \<Rightarrow> regs \<Rightarrow> regs" where
  "fips_rounds M 0 r = r"
| "fips_rounds M (Suc t) r =
     (case fips_rounds M t r of (a, b, c, d, e, f, g, h) \<Rightarrow>
        let T1 = h + fips_Sigma1 e + fips_Ch e f g + fips_K ! t + fips_W M t;
            T2 = fips_Sigma0 a + fips_Maj a b c
        in (T1 + T2, a, b, c, d + T1, e, f, g))"

definition fips_compress :: "u32 list \<Rightarrow> bytes \<Rightarrow> u32 list" where
  "fips_compress H M =
     (case fips_rounds M 64 (H ! 0, H ! 1, H ! 2, H ! 3, H ! 4, H ! 5, H ! 6, H ! 7) of
        (a, b, c, d, e, f, g, h) \<Rightarrow>
          map2 (+) (map ((!) H) [0..<8]) [a, b, c, d, e, f, g, h])"

definition be64 :: "nat \<Rightarrow> bytes" where
  "be64 n = rev (nat_le 8 n)"

definition fips_pad :: "bytes \<Rightarrow> bytes" where
  "fips_pad M =
     M @ 0x80 # replicate ((119 - length M mod 64) mod 64) 0 @ be64 (8 * length M)"

fun chunks64 :: "bytes \<Rightarrow> bytes list" where
  "chunks64 xs = (if length xs < 64 then [] else take 64 xs # chunks64 (drop 64 xs))"

declare chunks64.simps [simp del]

definition fips_sha256 :: "bytes \<Rightarrow> bytes" where
  "fips_sha256 M =
     concat (map (\<lambda>w. rev (word_le 4 w)) (foldl fips_compress fips_H0 (chunks64 (fips_pad M))))"

section \<open>The compression function is the standard's\<close>

lemma ROTRIGHT_rotr: "0 < b \<Longrightarrow> b < 32 \<Longrightarrow> ROTRIGHT a b = word_rotr b a"
  unfolding ROTRIGHT_def
proof (rule bit_word_eqI)
  fix n
  assume "0 < b" and "b < 32" and "n < LENGTH(32)"
  moreover have "(n + b) mod 32 = (if n + b < 32 then n + b else n + b - 32)"
    using \<open>b < 32\<close> \<open>n < LENGTH(32)\<close> by (simp add: mod_if)
  ultimately show "bit (drop_bit b a OR push_bit (32 - b) a) n = bit (word_rotr b a) n"
    by (auto simp: bit_simps bit_word_rotr_iff add.commute intro: bit_imp_le_length dest: bit_imp_le_length)
qed

lemma root_bits_bounds:
  "m ^ r \<le> n \<Longrightarrow> n < (m + 2 ^ k) ^ r \<Longrightarrow> root_bits r n m k ^ r \<le> n \<and> n < (root_bits r n m k + 1) ^ r"
  by (induction k arbitrary: m) (simp_all add: add.assoc mult_2 [symmetric])

lemma root_bits_eq:
  assumes "0 < r" and "m ^ r \<le> n" and "n < (m + 1) ^ r" and "n < (2 ^ k) ^ r"
  shows "root_bits r n 0 k = m"
proof -
  let ?x = "root_bits r n 0 k"
  have x: "?x ^ r \<le> n" "n < (?x + 1) ^ r" using root_bits_bounds [of 0 r n k] assms(1,4) by (simp_all add: power_0_left)
  have "?x ^ r < (m + 1) ^ r" "m ^ r < (?x + 1) ^ r" using x assms(2,3) by simp_all
  then have "?x < m + 1" "m < ?x + 1" by (simp_all add: power_less_imp_less_base)
  then show ?thesis by simp
qed

lemma fractions_eq:
  assumes "0 < r" and "list_all2 (\<lambda>p m. m ^ r \<le> p * 2 ^ (32 * r) \<and> p * 2 ^ (32 * r) < (m + 1) ^ r \<and> p < 2 ^ (8 * r)) ps ms"
  shows "map (fips_fraction r) ps = map of_nat ms"
  using assms(2)
proof (induction rule: list_all2_induct)
  case (Cons p ps m ms)
  have "p * 2 ^ (32 * r) < 2 ^ (8 * r) * 2 ^ (32 * r)" using Cons.hyps by simp
  moreover have "(2::nat) ^ (8 * r) * 2 ^ (32 * r) = (2 ^ 40) ^ r"
    unfolding power_mult [symmetric] power_add [symmetric] by (rule arg_cong [where f = "(^) 2"]) simp
  ultimately have "p * 2 ^ (32 * r) < (2 ^ 40) ^ r" by (rule subst [rotated])
  then have "fips_fraction r p = of_nat m" unfolding fips_fraction_def using Cons.hyps assms(1) by (subst root_bits_eq) auto
  then show ?case using Cons.IH by simp
qed simp

lemma fips_K_table: "fips_K = sha256_k"
proof -
  let ?roots = "[5411319704, 6194414737, 7344290767, 8215976869, 9551921755, 10098905585, 11043570340, 11460697813,
     12214315672, 13195500289, 13492127166, 14311783875, 14809980276, 15046980094, 15499789991, 16133124468,
     16720292289, 16907126662, 17444216262, 17784676812, 17950125167, 18429019306, 18734950876, 19175934170,
     19734090066, 20001703533, 20132865992, 20390182855, 20516441075, 20764397895, 21588763473, 21813078375,
     22141143685, 22248366392, 22769593852, 22871018771, 23170020180, 23461497531, 23651862830, 23931792517,
     24205322401, 24295138891, 24734567280, 24820601251, 24990902297, 25075189284, 25569408389, 26045227120,
     26200031510, 26276752392, 26428864332, 26653801653, 26727943347, 27092625994, 27306805839, 27517677555,
     27725365998, 27793908591, 27997534228, 28131656200, 28198240250, 28526537963, 28973835255, 29099129074]"
  have "map (fips_fraction 3) fips_primes = map of_nat ?roots"
    by (rule fractions_eq) (simp_all add: fips_primes_def)
  then show ?thesis by (simp add: fips_K_def sha256_k_def)
qed

lemma fips_H0_table: "fips_H0 = [0x6a09e667, 0xbb67ae85, 0x3c6ef372, 0xa54ff53a, 0x510e527f, 0x9b05688c, 0x1f83d9ab, 0x5be0cd19]"
proof -
  let ?roots = "[6074000999, 7439101573, 9603838834, 11363415354, 14244795007, 15485724812, 17708603819, 18721328409]"
  have "map (fips_fraction 2) (take 8 fips_primes) = map of_nat ?roots"
    by (rule fractions_eq) (simp_all add: fips_primes_def)
  then show ?thesis by (simp add: fips_H0_def)
qed

lemma fips_functions:
  "EP0 = fips_Sigma0" "EP1 = fips_Sigma1" "SIG0 = fips_sigma0" "SIG1 = fips_sigma1"
  by (simp_all add: fun_eq_iff EP0_def EP1_def SIG0_def SIG1_def ROTRIGHT_rotr
      fips_Sigma0_def fips_Sigma1_def fips_sigma0_def fips_sigma1_def)

lemma fips_choices: "CH = fips_Ch" "MAJ = fips_Maj"
  unfolding fun_eq_iff CH_def MAJ_def fips_Ch_def fips_Maj_def by (intro allI bit_word_eqI; auto simp: bit_simps)+

lemma be_word32_bytes:
  "be_word32 [a, b, c, d] =
     push_bit 24 (ucast a) OR push_bit 16 (ucast b) OR push_bit 8 (ucast c) OR ucast d"
  (is "?l = ?r")
proof (rule word_le_inj)
  have "word_le 4 ?l = [d, c, b, a]"
    by (simp add: be_word32_def byte_simps)
  moreover have "(ucast ?r :: u8) = d" "(ucast (drop_bit 8 ?r) :: u8) = c"
    "(ucast (drop_bit 16 ?r) :: u8) = b" "(ucast (drop_bit 24 ?r) :: u8) = a"
    by (rule bit_word_eqI, auto simp: bit_simps dest: bit_imp_le_length)+
  then have "word_le 4 ?r = [d, c, b, a]" by (simp add: word_le_4)
  ultimately show "word_le 4 ?l = word_le 4 ?r" by simp
qed

lemma take_4_drop:
  assumes "j + 4 \<le> length xs"
  shows "take 4 (drop j xs) = [xs ! j, xs ! (j + 1), xs ! (j + 2), xs ! (j + 3)]"
  using assms by (intro nth_equalityI) (auto simp: less_Suc_eq numeral_eq_Suc)

lemma transform_word_fips: "t < 16 \<Longrightarrow> length M = 64 \<Longrightarrow> transform_word M (4 * t) = fips_W M t"
  by (simp add: transform_word_def fips_W.simps [of M t] take_4_drop be_word32_bytes)

lemma schedule_prefix:
  assumes "length M = 64" and "16 \<le> n"
  shows "fold transform_extend [16..<n] (map (\<lambda>i. transform_word M (4 * i)) [0..<16])
           = map (fips_W M) [0..<n]"
  using assms(2)
proof (induction n rule: dec_induct)
  case base
  show ?case using assms(1) by (simp add: transform_word_fips)
next
  case (step n)
  then show ?case
    by (simp add: transform_extend_def fips_functions fips_W.simps [of M n])
qed

lemma transform_schedule_fips: "length M = 64 \<Longrightarrow> transform_schedule M = map (fips_W M) [0..<64]"
  unfolding transform_schedule_def by (rule schedule_prefix) simp_all

lemma rounds_fips:
  "n \<le> 64 \<Longrightarrow> fold (transform_round (map (fips_W M) [0..<64])) [0..<n] r = fips_rounds M n r"
proof (induction n)
  case 0
  then show ?case by simp
next
  case (Suc n)
  then show ?case by (simp add: transform_round_def fips_functions fips_choices fips_K_table)
qed

lemma sha256_transform_fips:
  assumes "length H = 8" and "length M = 64"
  shows "sha256_transform H M = fips_compress H M"
proof -
  have "[0..<8] = [0, 1, 2, 3, 4, 5, 6, 7 :: nat]" by (simp add: upt_rec)
  then show ?thesis using assms
    by (simp add: sha256_transform_def fips_compress_def transform_schedule_fips rounds_fips
        Let_def split: prod.split)
qed

lemma length_fips_compress [simp]: "length (fips_compress H M) = 8"
  by (simp add: fips_compress_def split: prod.split)

section \<open>Streaming and padding\<close>

lemma chunks64_append:
  "length xs mod 64 = 0 \<Longrightarrow> chunks64 (xs @ ys) = chunks64 xs @ chunks64 ys"
proof (induction xs rule: chunks64.induct)
  case (1 xs)
  show ?case
  proof (cases "length xs < 64")
    case True
    with "1.prems" have "xs = []" by simp
    then show ?thesis by (simp add: chunks64.simps [of "[]"])
  next
    case False
    with "1.prems" have "length (drop 64 xs) mod 64 = 0" by (simp add: le_mod_geq)
    from "1.IH" [OF False this] False show ?thesis
      by (simp add: chunks64.simps [of xs] chunks64.simps [of "xs @ ys"])
  qed
qed

lemma chunks64_block: "length b = 64 \<Longrightarrow> chunks64 b = [b]"
  by (simp add: chunks64.simps [of b] chunks64.simps [of "[]"])

lemma fill_zero_eq:
  "i \<le> n \<Longrightarrow> n \<le> length data \<Longrightarrow> fill_zero data i n = take i data @ replicate (n - i) 0 @ drop n data"
proof (induction data i n rule: fill_zero.induct)
  case (1 data i n)
  show ?case
  proof (cases "i < n")
    case True
    with "1.prems" have "fill_zero data i n = take (i + 1) (data[i := 0]) @ replicate (n - (i + 1)) 0 @ drop n data"
      using "1.IH" by (subst fill_zero.simps) simp
    moreover have "take (i + 1) (data[i := 0]) = take i data @ [0]"
      using True "1.prems" by (simp add: take_Suc_conv_app_nth)
    moreover have "replicate (n - i) (0 :: u8) = 0 # replicate (n - (i + 1)) 0"
      using True by (metis Suc_diff_Suc Suc_eq_plus1 replicate_Suc)
    ultimately show ?thesis by simp
  next
    case False
    with "1.prems" show ?thesis by (subst fill_zero.simps) simp
  qed
qed

definition absorbed :: "SHA256_CTX \<Rightarrow> bytes \<Rightarrow> bytes \<Rightarrow> bool" where
  "absorbed ctx full part \<longleftrightarrow>
     length full mod 64 = 0 \<and> length part < 64 \<and> datalen ctx = length part \<and>
     length (ctx_data ctx) = 64 \<and> take (length part) (ctx_data ctx) = part \<and>
     ctx_state ctx = foldl fips_compress fips_H0 (chunks64 full) \<and>
     bitlen ctx = of_nat (8 * length full)"

lemma length_foldl_compress [simp]:
  "length H = 8 \<Longrightarrow> length (foldl fips_compress H Ms) = 8"
  by (induction Ms arbitrary: H) auto

lemma length_fips_H0 [simp]: "length fips_H0 = 8"
  by (simp add: fips_H0_table)

lemma absorbed_init: "length junk = 64 \<Longrightarrow> absorbed (sha256_init junk) [] []"
  by (simp add: absorbed_def sha256_init_def fips_H0_table chunks64.simps [of "[]"])

lemma absorbed_step:
  assumes "absorbed ctx full part"
  shows "\<exists>full' part'. absorbed (sha256_update_byte b ctx) full' part' \<and> full' @ part' = full @ part @ [b]"
proof -
  let ?d = "(ctx_data ctx)[length part := b]"
  have len: "length part < 64" "length (ctx_data ctx) = 64" "take (length part) (ctx_data ctx) = part"
    and dl: "datalen ctx = length part"
    using assms by (simp_all add: absorbed_def)
  then have d: "take (length part + 1) ?d = part @ [b]" "length ?d = 64"
    by (simp_all add: take_Suc_conv_app_nth)
  show ?thesis
  proof (cases "length part + 1 = 64")
    case True
    with d have "?d = part @ [b]" by simp
    then have "absorbed (sha256_update_byte b ctx) (full @ part @ [b]) []"
      using assms True dl
      by (simp add: absorbed_def sha256_update_byte_def Let_def chunks64_append chunks64_block
          sha256_transform_fips)
    then show ?thesis by (intro exI) auto
  next
    case False
    then have "absorbed (sha256_update_byte b ctx) full (part @ [b])"
      using assms d dl by (simp add: absorbed_def sha256_update_byte_def Let_def)
    then show ?thesis by (intro exI) auto
  qed
qed

lemma absorbed_fold:
  "absorbed ctx full part \<Longrightarrow>
     \<exists>full' part'. absorbed (fold sha256_update_byte data ctx) full' part' \<and> full' @ part' = full @ part @ data"
proof (induction data arbitrary: ctx full part)
  case Nil
  then show ?case by auto
next
  case (Cons b data)
  from absorbed_step [OF Cons.prems] obtain full1 part1 where
    1: "absorbed (sha256_update_byte b ctx) full1 part1" "full1 @ part1 = full @ part @ [b]" by blast
  from Cons.IH [OF 1(1)] obtain full2 part2 where
    "absorbed (fold sha256_update_byte (b # data) ctx) full2 part2" "full2 @ part2 = full1 @ part1 @ data"
    by auto
  with 1(2) show ?case by (metis append.assoc append_Cons append_Nil)
qed

lemma put_bitlen_eq:
  assumes "length data = 64"
  shows "put_bitlen n data = take 56 data @ rev (word_le 8 n)"
proof -
  have "length (drop 56 data) = 8" using assms by simp
  then obtain a b c d e f g h where d: "drop 56 data = [a, b, c, d, e, f, g, h]"
    by (rule length_8_obtain)
  define xs where "xs = take 56 data"
  have "data = xs @ [a, b, c, d, e, f, g, h]"
    unfolding xs_def d [symmetric] by simp
  moreover have "length xs = 56" using assms by (simp add: xs_def)
  ultimately show ?thesis
    by (simp add: put_bitlen_def word_le_8 list_update_append)
qed

lemma put_hash_eq:
  assumes "length s = 8"
  shows "put_hash s = concat (map (\<lambda>w. rev (word_le 4 w)) s)"
proof -
  from assms obtain a b c d e f g h where s: "s = [a, b, c, d, e, f, g, h]"
    by (rule length_8_obtain)
  have byte: "(ucast (w AND 255) :: u8) = ucast w" for w :: u32
    unfolding and_FF by (rule bit_word_eqI) (simp add: bit_simps)
  have "[0..<32] = [0, 1, 2, 3, 4, 5, 6, 7, 8, 9, 10, 11, 12, 13, 14, 15, 16, 17, 18, 19, 20,
      21, 22, 23, 24, 25, 26, 27, 28, 29, 30, 31 :: nat]" by (simp add: upt_rec)
  then show ?thesis by (simp add: put_hash_def s byte word_le_4)
qed

lemma final_length_field:
  assumes "bitlen ctx = of_nat (8 * length full)" and "datalen ctx = length part"
  shows "word_le 8 (bitlen ctx + of_nat (datalen ctx * 8)) = nat_le 8 (8 * length (full @ part))"
proof -
  have "bitlen ctx + of_nat (datalen ctx * 8) = (of_nat (8 * length (full @ part)) :: u64)"
    by (simp add: assms)
  moreover have "nat_le 8 (n mod 2 ^ 64) = nat_le 8 n" for n
    using nat_le_le_nat [of "nat_le 8 n"] by (simp add: byte_simps)
  ultimately show ?thesis unfolding word_le_def by (simp only: unat_of_nat len_of_numeral_defs) simp
qed

lemma sha256_final_fips:
  assumes "absorbed ctx full part"
  shows "sha256_final ctx = fips_sha256 (full @ part)"
proof -
  let ?p = "length part"
  let ?d = "ctx_data ctx"
  let ?L = "rev (nat_le 8 (8 * length (full @ part)))"
  note a = assms [unfolded absorbed_def]
  have p: "?p < 64" "?p < length ?d" and dl: "datalen ctx = ?p" using a by auto
  have lf: "word_le 8 (bitlen ctx + of_nat (datalen ctx * 8)) = nat_le 8 (8 * length (full @ part))"
    using a by (intro final_length_field) auto
  have upd: "take (?p + 1) (?d[?p := 0x80]) = part @ [0x80]"
    using a p by (simp add: take_Suc_conv_app_nth)
  have mod: "length (full @ part) mod 64 = ?p"
    using a by (simp add: mod_add_eq [of "length full", symmetric])
  have out: "fips_sha256 (full @ part)
      = put_hash (foldl fips_compress fips_H0 (chunks64 (fips_pad (full @ part))))"
    by (simp add: fips_sha256_def put_hash_eq)
  show ?thesis
  proof (cases "?p < 56")
    case True
    let ?B = "part @ 0x80 # replicate (55 - ?p) 0 @ ?L"
    have "fill_zero (?d[?p := 0x80]) (?p + 1) 56
        = part @ 0x80 # replicate (55 - ?p) 0 @ drop 56 (?d[?p := 0x80])"
      using True a by (subst fill_zero_eq) (simp_all add: upd [simplified])
    then have "put_bitlen n (fill_zero (?d[?p := 0x80]) (?p + 1) 56)
        = part @ 0x80 # replicate (55 - ?p) 0 @ rev (word_le 8 n)" for n
      using True a by (simp add: put_bitlen_eq take_Cons')
    then have "sha256_final ctx = put_hash (sha256_transform (ctx_state ctx) ?B)"
      using True by (simp add: sha256_final_def Let_def dl lf [unfolded dl, simplified])
    moreover have "fips_pad (full @ part) = full @ ?B"
    proof -
      have "(119 - ?p) mod 64 = 55 - ?p" using True by (simp add: mod_if)
      then show ?thesis by (simp add: fips_pad_def mod be64_def del: length_append)
    qed
    ultimately show ?thesis using a True
      by (simp add: out chunks64_append chunks64_block sha256_transform_fips)
  next
    case False
    let ?B1 = "part @ 0x80 # replicate (63 - ?p) 0"
    let ?B2 = "replicate 56 0 @ ?L"
    have full: "fill_zero (?d[?p := 0x80]) (?p + 1) 64 = ?B1"
      using False p a by (subst fill_zero_eq) (simp_all add: upd [simplified])
    have "put_bitlen n (replicate 56 0 @ drop 56 ?B1) = replicate 56 0 @ rev (word_le 8 n)" for n
      using p by (simp add: put_bitlen_eq)
    then have "sha256_final ctx = put_hash (sha256_transform (sha256_transform (ctx_state ctx) ?B1) ?B2)"
      using False by (simp add: sha256_final_def Let_def dl lf [unfolded dl, simplified] full [simplified])
    moreover have "fips_pad (full @ part) = full @ ?B1 @ ?B2"
    proof -
      have "(119 - ?p) mod 64 = (63 - ?p) + 56" using False p by (simp add: mod_if)
      then show ?thesis
        unfolding fips_pad_def mod be64_def by (simp only: replicate_add append.assoc append_Cons)
    qed
    moreover have "chunks64 (full @ ?B1 @ ?B2) = chunks64 full @ [?B1, ?B2]"
      using a p chunks64_append [of full "?B1 @ ?B2"] chunks64_append [of ?B1 ?B2]
      by (simp add: chunks64_block)
    ultimately show ?thesis using a p
      by (simp add: out sha256_transform_fips)
  qed
qed

lemma sha256_fips:
  assumes "length junk = 64" and "length M < 2 ^ 32"
  shows "sha256 junk M = Some (fips_sha256 M)"
proof -
  from absorbed_fold [OF absorbed_init [OF assms(1)], of M] obtain full part where
    "absorbed (fold sha256_update_byte M (sha256_init junk)) full part" "full @ part = M" by auto
  with sha256_final_fips show ?thesis using assms(2)
    by (auto simp: sha256_def sha256_update_def)
qed

lemma length_fips_sha256 [simp]: "length (fips_sha256 M) = 32"
proof -
  have "length (concat (map (\<lambda>w. rev (word_le 4 w)) ws)) = 4 * length ws" for ws :: "u32 list"
    by (induction ws) auto
  then show ?thesis by (simp add: fips_sha256_def)
qed

section \<open>Properties\<close>

text \<open>
  C12: The streaming implementation computes FIPS 180-4 SHA-256 of every message shorter than
  \<open>2 ^ 32\<close> bytes (the loop counter has 32 bits), whatever the uninitialised context holds. The standard
  is stated on its own: constants as the bits of the roots of primes, choice and majority of
  bits, the recurrence of the schedule and rotations; both padding branches of \<^verbatim>\<open>sha256_final\<close> produce the
  padded blocks of the standard.
\<close>

theorem sha256_correct:
  assumes "length junk = 64" and "length M < 2 ^ 32"
  shows "sha256 junk M = Some (fips_sha256 M) \<and>
         sha256d junk M = Some (fips_sha256 (fips_sha256 M)) \<and> length (fips_sha256 M) = 32"
  using assms by (simp add: sha256_fips sha256d_def)

theorem sha256_correct_witness:
  "sha256 (replicate 64 0xAA) [0x61, 0x62, 0x63] = Some (fips_sha256 [0x61, 0x62, 0x63])"
  using sha256_correct [of "replicate 64 0xAA" "[0x61, 0x62, 0x63]"] by simp

text \<open>
  Feeding a message in two pieces to \<^verbatim>\<open>sha256_update\<close> is feeding it at once, and the digest
  of the pieces is the digest of their concatenation.
\<close>

theorem sha256_update_append:
  assumes "length (xs @ ys) < 2 ^ 32"
  shows "do { ctx \<leftarrow> sha256_update ctx xs; sha256_update ctx ys } = sha256_update ctx (xs @ ys)"
  using assms by (simp add: sha256_update_def)

theorem sha256_update_append_witness:
  "do { ctx \<leftarrow> sha256_update (sha256_init (replicate 64 0)) [1, 2]; sha256_update ctx [3] }
     = sha256_update (sha256_init (replicate 64 0)) [1, 2, 3]"
  using sha256_update_append [of "[1, 2]" "[3]" "sha256_init (replicate 64 0)"] by simp

end
