(* ===== verification/Bitcoin_Structs.thy ===== *)
theory Bitcoin_Structs
  imports Mlbtcc_Prelude
begin

text \<open>
  The data model of \<^verbatim>\<open>src/include/bitcoin-structs.h\<close>, one record per struct with the field
  widths of the C types, and the initialisers of \<^verbatim>\<open>src/bitcoin-specifics.c\<close>. A pointer field
  is \<open>Null\<close>, \<open>Wild\<close> (indeterminate: never assigned) or \<open>At\<close> the object it points to; following
  a pointer that is not \<open>At\<close> is undefined.
\<close>

datatype 'a ptr = Null | Wild | At 'a

fun deref :: "'a ptr \<Rightarrow> 'a option" where
  "deref (At x) = Some x"
| "deref Null = None"
| "deref Wild = None"

lemma deref_Some_iff [simp]: "deref p = Some x \<longleftrightarrow> p = At x"
  by (cases p) auto

definition SHA256_HASH_SIZE :: nat where "SHA256_HASH_SIZE = 32"
definition BLOCKHEADER_SIZE :: nat where "BLOCKHEADER_SIZE = 80"
definition MAX_COMPACT_SIZE_BYTES :: nat where "MAX_COMPACT_SIZE_BYTES = 10"
definition MAX_OPEN_FILES :: nat where "MAX_OPEN_FILES = 5"
definition MAX_BLOCKFILE_SIZE :: nat where "MAX_BLOCKFILE_SIZE = 0x8000000"

lemmas struct_consts = SHA256_HASH_SIZE_def BLOCKHEADER_SIZE_def MAX_COMPACT_SIZE_BYTES_def
  MAX_OPEN_FILES_def MAX_BLOCKFILE_SIZE_def

section \<open>Blocks and transactions\<close>

record BlockHeader =
  bh_version :: u8
  bh_prevBlockHash :: bytes
  bh_merkleRoot :: bytes
  bh_time :: u32
  bh_bits :: u32
  bh_nonce :: u32

record Input =
  in_txid :: bytes
  in_vout :: u32
  in_scriptSigSize :: u16
  in_scriptSig :: "bytes ptr"
  in_sequence :: u32

record Output =
  out_amount :: u64
  out_scriptPubKeySize :: u16
  out_scriptPubKey :: "bytes ptr"

record StackItem =
  si_size :: u16
  si_item :: "bytes ptr"

record Witness =
  wit_stackItemsCount :: u16
  wit_stackItems :: "StackItem list ptr"

record Transaction =
  tx_version :: u32
  tx_marker :: u8
  tx_flag :: u8
  tx_inputCount :: u16
  tx_inputs :: "Input list ptr"
  tx_outputCount :: u16
  tx_outputs :: "Output list ptr"
  tx_witnesses :: "Witness list ptr"
  tx_locktime :: u32
  tx_size :: u16
  tx_txid :: bytes
  tx_wtxid :: bytes

text \<open>\<open>blk_height\<close> is \<open>None\<close> until a caller assigns it: the reader leaves it indeterminate.\<close>

record Block =
  blk_magic :: u32
  blk_blockSize :: u32
  blk_txCount :: u16
  blk_hash :: bytes
  blk_height :: "u64 option"
  blk_header :: BlockHeader
  blk_transactions :: "Transaction list ptr"

record Blocks =
  bks_blocks :: "Block list ptr"
  bks_count :: nat

section \<open>Index records\<close>

definition BLOCK_VALID_CHAIN :: u64 where "BLOCK_VALID_CHAIN = 4"

definition BLOCK_VALID_MASK :: u64 where
  "BLOCK_VALID_MASK = 1 OR 2 OR 3 OR BLOCK_VALID_CHAIN OR 5"

text \<open>
  The undo fields are \<open>None\<close> when the decoder does not assign them. \<^verbatim>\<open>validationStatus\<close> is an
  enum of four bytes into which eight are stored; its value is the low half.
\<close>

record BlockIndexRecord =
  bir_blockHash :: bytes
  bir_blockHeader :: "BlockHeader option"
  bir_version :: u64
  bir_height :: u64
  bir_txCount :: u64
  bir_validationStatus :: u32
  bir_blockFile :: u64
  bir_blockOffset :: u64
  bir_undoFile :: "u64 option"
  bir_undoOffset :: "u64 option"

record CoinRecord =
  cr_txid :: bytes
  cr_height :: "32 word"
  cr_coinbase :: u8
  cr_dummy :: "32 word"

record FileInformationRecord =
  fir_filenumber :: "u64 option"
  fir_blockCount :: u64
  fir_dataFileSize :: u64
  fir_revFileSize :: u64
  fir_lowestHeight :: u64
  fir_highestHeight :: u64
  fir_lowestTimestamp :: u64
  fir_highestTimestamp :: u64

section \<open>Initialisers\<close>

definition InitBlockHeader :: "BlockHeader \<Rightarrow> BlockHeader" where
  "InitBlockHeader header =
     \<lparr>bh_version = 0, bh_prevBlockHash = replicate 32 0, bh_merkleRoot = replicate 32 0,
      bh_time = 0, bh_bits = 0, bh_nonce = 0\<rparr>\<lparr>bh_version := 0\<rparr>"

definition InitInput :: "Input \<Rightarrow> Input" where
  "InitInput input =
     \<lparr>in_txid = replicate 32 0, in_vout = 0, in_scriptSigSize = 0, in_scriptSig = Null,
      in_sequence = 0\<rparr>\<lparr>in_scriptSig := Null\<rparr>"

definition InitOutput :: "Output \<Rightarrow> Output" where
  "InitOutput output =
     \<lparr>out_amount = 0, out_scriptPubKeySize = 0, out_scriptPubKey = Null\<rparr>\<lparr>out_scriptPubKey := Null\<rparr>"

definition InitStackItem :: "StackItem \<Rightarrow> StackItem" where
  "InitStackItem item = item\<lparr>si_size := 0, si_item := Null\<rparr>"

definition InitWitness :: "Witness \<Rightarrow> Witness" where
  "InitWitness witness = witness\<lparr>wit_stackItemsCount := 0, wit_stackItems := Null\<rparr>"

definition InitTransaction :: "Transaction \<Rightarrow> Transaction" where
  "InitTransaction tx =
     \<lparr>tx_version = 0, tx_marker = 0, tx_flag = 0, tx_inputCount = 0, tx_inputs = Null,
      tx_outputCount = 0, tx_outputs = Null, tx_witnesses = Null, tx_locktime = 0, tx_size = 0,
      tx_txid = replicate 32 0, tx_wtxid = replicate 32 0\<rparr>
     \<lparr>tx_inputs := Null, tx_outputs := Null, tx_witnesses := Null\<rparr>"

definition InitBlock :: "Block \<Rightarrow> Block" where
  "InitBlock block =
     (let block = \<lparr>blk_magic = 0, blk_blockSize = 0, blk_txCount = 0, blk_hash = replicate 32 0,
        blk_height = Some 0,
        blk_header = \<lparr>bh_version = 0, bh_prevBlockHash = replicate 32 0,
          bh_merkleRoot = replicate 32 0, bh_time = 0, bh_bits = 0, bh_nonce = 0\<rparr>,
        blk_transactions = Null\<rparr>
      in block\<lparr>blk_header := InitBlockHeader (blk_header block), blk_transactions := Null\<rparr>)"

end
