(* ===== verification/Specifics.thy ===== *)
theory Specifics
  imports Big_Ints Sha256 Bitcoin_Structs
begin

text \<open>
  \<^verbatim>\<open>src/bitcoin-specifics.c\<close>: hexadecimal, byte reversal, the two hash wrappers and the block
  header decoder. Strings are \<open>string\<close>; a C string in memory ends at its first NUL.
\<close>

section \<open>Hexadecimal\<close>

abbreviation NUL :: char where "NUL \<equiv> CHR 0x00"

definition c_isspace :: "char \<Rightarrow> bool" where
  "c_isspace c \<longleftrightarrow> c = CHR '' '' \<or> c = CHR 0x09 \<or> c = CHR 0x0A \<or> c = CHR 0x0B \<or> c = CHR 0x0C \<or> c = CHR 0x0D"

definition hex_value :: "char \<Rightarrow> nat option" where
  "hex_value c =
     (let n = of_char c :: nat in
      if 48 \<le> n \<and> n \<le> 57 then Some (n - 48)
      else if 65 \<le> n \<and> n \<le> 70 then Some (n - 55)
      else if 97 \<le> n \<and> n \<le> 102 then Some (n - 87)
      else None)"

text \<open>
  The C library's \<^verbatim>\<open>strtol(s, &endptr, 16)\<close>: skipped white space, an optional sign, an optional
  \<^verbatim>\<open>0x\<close>, then digits. The result is the value and the offset of \<^verbatim>\<open>endptr\<close>; without a digit the
  value is 0 and \<^verbatim>\<open>endptr\<close> is the start.
\<close>

definition strtol16 :: "string \<Rightarrow> int \<times> nat" where
  "strtol16 s =
     (let n0 = length (takeWhile c_isspace s);
          s1 = drop n0 s;
          neg = (case s1 of c # _ \<Rightarrow> c = CHR ''-'' | [] \<Rightarrow> False);
          sign = (case s1 of c # _ \<Rightarrow> c = CHR ''-'' \<or> c = CHR ''+'' | [] \<Rightarrow> False);
          n1 = (if sign then 1 else 0);
          s2 = drop n1 s1;
          n2 = (case s2 of a # b # c # _ \<Rightarrow>
                  (if a = CHR ''0'' \<and> (b = CHR ''x'' \<or> b = CHR ''X'') \<and> hex_value c \<noteq> None then 2 else 0)
                | _ \<Rightarrow> 0);
          ds = takeWhile (\<lambda>c. hex_value c \<noteq> None) (drop n2 s2);
          v = foldl (\<lambda>v c. 16 * v + int (the (hex_value c))) 0 ds
      in if ds = [] then (0, 0) else (if neg then - v else v, n0 + n1 + n2 + length ds))"

text \<open>
  One turn of the loop of \<^verbatim>\<open>HexToBytes\<close>: \<open>None\<close> reads past the string, \<open>Some None\<close> is the
  rejection (\<^verbatim>\<open>*endptr\<close> is not the terminator).
\<close>

definition HexToByte :: "char \<Rightarrow> char \<Rightarrow> u8 option" where
  "HexToByte c0 c1 =
     (let byteStr = takeWhile (\<lambda>c. c \<noteq> NUL) [c0, c1];
          (v, endptr) = strtol16 byteStr
      in if endptr = length byteStr then Some (of_int v) else None)"

text \<open>The result is the returned flag and the bytes stored, the rejected one included.\<close>

fun HexToBytes_loop :: "string \<Rightarrow> nat \<Rightarrow> nat \<Rightarrow> bytes \<Rightarrow> (bool \<times> bytes) option" where
  "HexToBytes_loop hex 0 i out = Some (True, out)"
| "HexToBytes_loop hex (Suc n) i out = do {
     c0 \<leftarrow> rd hex (i * 2);
     c1 \<leftarrow> rd hex (i * 2 + 1);
     (case HexToByte c0 c1 of
        None \<Rightarrow> Some (False, out @ [of_int (fst (strtol16 (takeWhile (\<lambda>c. c \<noteq> NUL) [c0, c1])))])
      | Some b \<Rightarrow> HexToBytes_loop hex n (i + 1) (out @ [b]))
   }"

definition HexToBytes :: "string \<Rightarrow> (bool \<times> bytes) option" where
  "HexToBytes hex = HexToBytes_loop hex 32 0 []"

text \<open>The buffer filled, with the terminator.\<close>

definition BytesToHex :: "bytes \<Rightarrow> nat \<Rightarrow> string option" where
  "BytesToHex bs len = map_option (\<lambda>xs. concat (map print_02x xs) @ [NUL]) (rds bs 0 len)"

section \<open>Reversal\<close>

function ReverseString_loop :: "bytes \<Rightarrow> nat \<Rightarrow> nat \<Rightarrow> bytes option" where
  "ReverseString_loop str i j =
     (if i < j
      then (if j < length str
            then ReverseString_loop (str[i := str ! j, j := str ! i]) (i + 1) (j - 1)
            else None)
      else Some str)"
  by pat_completeness auto
termination
  by (relation "measure (\<lambda>(str, i, j). j - i)") auto

declare ReverseString_loop.simps [simp del]

text \<open>\<^verbatim>\<open>size - 1\<close> is a \<^verbatim>\<open>size_t\<close>: for a size of 0 it is the largest one.\<close>

definition ReverseString :: "bytes \<Rightarrow> nat \<Rightarrow> bytes option" where
  "ReverseString str n = ReverseString_loop str 0 (if n = 0 then 2 ^ 64 - 1 else n - 1)"

section \<open>Hashes\<close>

text \<open>
  \<open>stk\<close> is what the stack holds where the context lies. In \<^verbatim>\<open>DoubleSHA256\<close> the second
  initialisation finds the data the first run left there; no digest depends on it
  (\<open>sha256_fips\<close>), so one argument serves for both.
\<close>

definition SHA256 :: "bytes \<Rightarrow> bytes \<Rightarrow> bytes option" where
  "SHA256 stk data = do { hash \<leftarrow> sha256 stk data; ReverseString hash 32 }"

definition DoubleSHA256 :: "bytes \<Rightarrow> bytes \<Rightarrow> bytes option" where
  "DoubleSHA256 stk data = do {
     hash \<leftarrow> sha256 stk data;
     hash \<leftarrow> sha256 stk hash;
     ReverseString hash 32
   }"

section \<open>The block header\<close>

text \<open>
  \<^verbatim>\<open>version\<close> is one byte wide: the four bytes copied to it end in the first three bytes of
  \<^verbatim>\<open>prevBlockHash\<close>, which the next copy overwrites.
\<close>

definition DecodeBlockHeader :: "bytes \<Rightarrow> BlockHeader \<Rightarrow> BlockHeader option" where
  "DecodeBlockHeader raw blockHeader = do {
     v \<leftarrow> rds raw 0 4;
     let blockHeader = blockHeader\<lparr>bh_version := v ! 0,
           bh_prevBlockHash := tl v @ drop 3 (bh_prevBlockHash blockHeader)\<rparr>;
     prev \<leftarrow> rds raw 4 32;
     prev \<leftarrow> ReverseString prev SHA256_HASH_SIZE;
     let blockHeader = blockHeader\<lparr>bh_prevBlockHash := prev\<rparr>;
     root \<leftarrow> rds raw 36 32;
     root \<leftarrow> ReverseString root SHA256_HASH_SIZE;
     t \<leftarrow> rds raw 68 4;
     b \<leftarrow> rds raw 72 4;
     n \<leftarrow> rds raw 76 4;
     Some (blockHeader\<lparr>bh_merkleRoot := root, bh_time := le_word t, bh_bits := le_word b,
                       bh_nonce := le_word n\<rparr>)
   }"

section \<open>Reversal is reversal\<close>

lemma ReverseString_loop_eq:
  "ys \<noteq> [] \<Longrightarrow>
     ReverseString_loop (xs @ ys @ zs) (length xs) (length xs + length ys - 1) = Some (xs @ rev ys @ zs)"
proof (induction ys arbitrary: xs zs rule: length_induct)
  case (1 ys)
  from \<open>ys \<noteq> []\<close> obtain a ys' where ys: "ys = a # ys'" by (cases ys) auto
  show ?case
  proof (cases ys' rule: rev_cases)
    case Nil
    with ys show ?thesis by (subst ReverseString_loop.simps) simp
  next
    case (snoc m b)
    let ?str = "xs @ ys @ zs"
    let ?j = "length xs + length ys - 1"
    have j: "?j = length xs + length m + 1" using ys snoc by simp
    have nths: "?str ! ?j = b" "?str ! length xs = a" "?j < length ?str"
      using ys snoc by (simp_all add: nth_append)
    have upd: "?str[length xs := b, ?j := a] = (xs @ [b]) @ m @ (a # zs)"
      using ys snoc j by (simp add: list_update_append)
    have step: "ReverseString_loop ?str (length xs) ?j
        = ReverseString_loop ((xs @ [b]) @ m @ (a # zs)) (length xs + 1) (?j - 1)"
    proof -
      have "length xs < ?j" using j by simp
      then show ?thesis by (subst ReverseString_loop.simps) (simp only: nths upd if_True)
    qed
    show ?thesis
    proof (cases "m = []")
      case True
      with step ys snoc show ?thesis by (simp add: ReverseString_loop.simps)
    next
      case False
      have eqs: "length xs + 1 = length (xs @ [b])" "?j - 1 = length (xs @ [b]) + length m - 1"
        using j by simp_all
      have "ReverseString_loop ((xs @ [b]) @ m @ (a # zs)) (length (xs @ [b]))
          (length (xs @ [b]) + length m - 1) = Some ((xs @ [b]) @ rev m @ (a # zs))"
        using "1.IH" [rule_format, of m "xs @ [b]" "a # zs"] False ys snoc by simp
      then have "ReverseString_loop ((xs @ [b]) @ m @ (a # zs)) (length xs + 1) (?j - 1)
          = Some ((xs @ [b]) @ rev m @ (a # zs))" by (simp only: eqs)
      with step ys snoc show ?thesis by simp
    qed
  qed
qed

lemma ReverseString_eq:
  assumes "0 < n" and "n \<le> length str"
  shows "ReverseString str n = Some (rev (take n str) @ drop n str)"
proof -
  have "take n str \<noteq> []" and "length (take n str) = n" using assms by auto
  with ReverseString_loop_eq [of "take n str" "[]" "drop n str"] show ?thesis
    using assms by (simp add: ReverseString_def)
qed

lemma ReverseString_full [simp]: "length str = 32 \<Longrightarrow> ReverseString str 32 = Some (rev str)"
  by (simp add: ReverseString_eq)

lemma ReverseString_full' [simp]:
  "length str = 32 \<Longrightarrow> ReverseString str SHA256_HASH_SIZE = Some (rev str)"
  by (simp add: SHA256_HASH_SIZE_def)

lemma ReverseString_zero: "length str < 2 ^ 64 \<Longrightarrow> ReverseString str 0 = None"
  by (simp add: ReverseString_def ReverseString_loop.simps [of str 0])

section \<open>The hash wrappers\<close>

definition hash256 :: "bytes \<Rightarrow> bytes" where
  "hash256 data = rev (fips_sha256 (fips_sha256 data))"

lemma SHA256_eq:
  "length stk = 64 \<Longrightarrow> length data < 2 ^ 32 \<Longrightarrow> SHA256 stk data = Some (rev (fips_sha256 data))"
  by (simp add: SHA256_def sha256_fips)

lemma DoubleSHA256_eq:
  "length stk = 64 \<Longrightarrow> length data < 2 ^ 32 \<Longrightarrow> DoubleSHA256 stk data = Some (hash256 data)"
  by (simp add: DoubleSHA256_def sha256_fips hash256_def)

lemma length_hash256 [simp]: "length (hash256 data) = 32"
  by (simp add: hash256_def)

section \<open>Hexadecimal round trip\<close>

lemma hexDigits_check:
  "list_all (\<lambda>n. hex_value (hexDigits ! n) = Some n \<and> \<not> c_isspace (hexDigits ! n)
     \<and> hexDigits ! n \<notin> set [CHR ''-'', CHR ''+'', CHR ''x'', CHR ''X'', NUL]) [0..<16]"
  by code_simp

lemma hexDigits_facts:
  assumes "n < 16"
  shows "hex_value (hexDigits ! n) = Some n" and "\<not> c_isspace (hexDigits ! n)"
    and "hexDigits ! n \<noteq> CHR ''-''" and "hexDigits ! n \<noteq> CHR ''+''"
    and "hexDigits ! n \<noteq> CHR ''x''" and "hexDigits ! n \<noteq> CHR ''X''" and "hexDigits ! n \<noteq> NUL"
  using hexDigits_check assms by (auto simp: list_all_iff)

lemma unat_nibbles: "unat (drop_bit 4 b) < 16" "unat (b AND 0x0F) < 16"
  "16 * unat (drop_bit 4 b) + unat (b AND 0x0F) = unat (b :: u8)"
  using unat_byte_less [of b] by (simp_all add: unat_drop_bit unat_take_bit and_0F)

lemma HexToByte_print:
  "HexToByte (hexDigits ! unat (drop_bit 4 b)) (hexDigits ! unat (b AND 0x0F)) = Some b"
proof -
  let ?h = "unat (drop_bit 4 b)"
  let ?l = "unat (b AND 0x0F)"
  note f = hexDigits_facts [OF unat_nibbles(1) [of b]] hexDigits_facts [OF unat_nibbles(2) [of b]]
  have "(of_int (16 * int ?h + int ?l) :: u8) = b"
  proof -
    have "16 * int ?h + int ?l = int (unat b)" using unat_nibbles(3) [of b] by linarith
    then show ?thesis by simp
  qed
  then show ?thesis
    by (simp add: HexToByte_def strtol16_def f Let_def)
qed

lemma BytesToHex_eq: "BytesToHex bs (length bs) = Some (concat (map print_02x bs) @ [NUL])"
  by (simp add: BytesToHex_def rds_def)

lemma length_print_02x [simp]: "length (print_02x b) = 2"
  by (simp add: print_02x_def)

lemma length_concat_print [simp]: "length (concat (map print_02x bs)) = 2 * length bs"
  by (induction bs) auto

lemma HexToBytes_loop_print:
  "HexToBytes_loop (concat (map print_02x pre) @ concat (map print_02x bs) @ rest) (length bs) (length pre) pre
     = Some (True, pre @ bs)"
proof (induction bs arbitrary: pre)
  case Nil
  then show ?case by simp
next
  case (Cons b bs)
  let ?hex = "concat (map print_02x pre) @ concat (map print_02x (b # bs)) @ rest"
  have "rd ?hex (length pre * 2) = Some (hexDigits ! unat (drop_bit 4 b))"
    and "rd ?hex (length pre * 2 + 1) = Some (hexDigits ! unat (b AND 0x0F))"
    by (simp_all add: rd_def nth_append) (simp_all add: print_02x_def)
  with Cons.IH [of "pre @ [b]"] show ?case by (simp add: HexToByte_print)
qed

lemma HexToBytes_print:
  "length bs = 32 \<Longrightarrow> HexToBytes (concat (map print_02x bs) @ rest) = Some (True, bs)"
  using HexToBytes_loop_print [of "[]" bs rest] by (simp add: HexToBytes_def)

section \<open>Headers read back\<close>

definition header_bytes :: "bytes \<Rightarrow> BlockHeader \<Rightarrow> bytes" where
  "header_bytes v h = v @ rev (bh_prevBlockHash h) @ rev (bh_merkleRoot h) @
     word_le 4 (bh_time h) @ word_le 4 (bh_bits h) @ word_le 4 (bh_nonce h)"

definition header_ok :: "BlockHeader \<Rightarrow> bool" where
  "header_ok h \<longleftrightarrow> length (bh_prevBlockHash h) = 32 \<and> length (bh_merkleRoot h) = 32"

lemma length_header_bytes [simp]:
  "length v = 4 \<Longrightarrow> header_ok h \<Longrightarrow> length (header_bytes v h) = 80"
  by (simp add: header_bytes_def header_ok_def)

lemma DecodeBlockHeader_bytes:
  assumes "length v = 4" and "header_ok h"
  shows "DecodeBlockHeader (header_bytes v h @ rest) junk = Some (h\<lparr>bh_version := v ! 0\<rparr>)"
  using assms
  by (simp add: DecodeBlockHeader_def header_bytes_def header_ok_def rds_def byte_simps)

lemma DecodeBlockHeader_short: "length raw < 80 \<Longrightarrow> DecodeBlockHeader raw junk = None"
  by (auto simp: DecodeBlockHeader_def Let_def rds_def split: bind_splits)

section \<open>Properties\<close>

text \<open>
  \<^verbatim>\<open>HexToBytes\<close> reads back what \<^verbatim>\<open>BytesToHex\<close> writes for every 32-byte string. It also accepts
  what \<^verbatim>\<open>strtol\<close> accepts beyond hexadecimal: a blank or a sign in front of one digit, and a
  terminator in the middle.
\<close>

theorem hex_roundtrip:
  assumes "length bs = 32"
  shows "\<exists>hex. BytesToHex bs 32 = Some hex \<and> length hex = 65 \<and> HexToBytes hex = Some (True, bs) \<and>
     HexToByte (CHR '' '') (CHR ''7'') = Some 7 \<and> HexToByte (CHR ''-'') (CHR ''1'') = Some 255 \<and>
     HexToByte NUL (CHR ''f'') = Some 0 \<and> HexToByte (CHR ''g'') (CHR ''0'') = None"
proof -
  have strtol: "HexToByte (CHR '' '') (CHR ''7'') = Some 7 \<and> HexToByte (CHR ''-'') (CHR ''1'') = Some 255 \<and>
     HexToByte NUL (CHR ''f'') = Some 0 \<and> HexToByte (CHR ''g'') (CHR ''0'') = None"
    by (simp add: HexToByte_def strtol16_def hex_value_def c_isspace_def Let_def)
  have "BytesToHex bs 32 = Some (concat (map print_02x bs) @ [NUL])"
    using BytesToHex_eq [of bs] assms by simp
  with assms strtol HexToBytes_print [OF assms] show ?thesis by simp
qed

theorem hex_roundtrip_witness:
  "\<exists>hex. BytesToHex (replicate 32 0xA7) 32 = Some hex \<and> HexToBytes hex = Some (True, replicate 32 0xA7)"
  using hex_roundtrip [of "replicate 32 0xA7"] by auto

text \<open>
  \<^verbatim>\<open>ReverseString\<close> reverses the first \<^verbatim>\<open>size\<close> bytes and leaves the rest; for a size of 0 its
  unsigned bound wraps and it touches memory outside any buffer.
\<close>

theorem ReverseString_correct:
  assumes "n \<le> length str" and "length str < 2 ^ 64"
  shows "ReverseString str n = (if n = 0 then None else Some (rev (take n str) @ drop n str))"
  using assms by (simp add: ReverseString_eq ReverseString_zero)

theorem ReverseString_correct_witness:
  "ReverseString [1, 2, 3, 4] 3 = Some [3, 2, 1, 4]"
  using ReverseString_correct [of 3 "[1, 2, 3, 4]"] by simp

text \<open>
  The header decoder reads back every header from its 80 bytes, with the two hashes turned
  to display order, except that of the four version bytes only the first survives (the field is
  one byte wide); with fewer than 80 bytes it reads outside the buffer.
\<close>

theorem header_decode:
  assumes "length v = 4" and "header_ok h"
  shows "DecodeBlockHeader (header_bytes v h @ rest) junk = Some (h\<lparr>bh_version := v ! 0\<rparr>) \<and>
         DecodeBlockHeader (take 79 (header_bytes v h)) junk = None"
  using assms by (simp add: DecodeBlockHeader_bytes DecodeBlockHeader_short)

definition sample_header :: BlockHeader where
  "sample_header = \<lparr>bh_version = 0, bh_prevBlockHash = replicate 32 1, bh_merkleRoot = replicate 32 2,
     bh_time = 1231006505, bh_bits = 0x1d00ffff, bh_nonce = 2083236893\<rparr>"

theorem header_decode_witness:
  "DecodeBlockHeader (header_bytes [0, 0, 0, 0x20] sample_header @ [9]) sample_header = Some sample_header"
  using header_decode [of "[0, 0, 0, 0x20]" sample_header "[9]" sample_header]
  by (simp add: sample_header_def header_ok_def)

end
