(* ===== verification/Tx_Parser.thy ===== *)
theory Tx_Parser
  imports Specifics
begin

text \<open>
  \<^verbatim>\<open>ReadTxn\<close> of \<^verbatim>\<open>src/blkdat.c\<close>: the parser of the transactions of a block. An offset is the
  position in \<^verbatim>\<open>blockBuffer\<close>; a read outside the buffer is undefined and gives \<open>None\<close> (the code
  passes 10 as the size of the data to \<^verbatim>\<open>CompactSizeDecode\<close>, however few bytes are left).

  \<^verbatim>\<open>CompactSizeDecode\<close> stores eight bytes through a pointer to a 16-bit field. The field gets
  the low 16 bits; the other six bytes fall on padding or on the pointer that is assigned next.
\<close>

section \<open>The code\<close>

fun read_n :: "(nat \<Rightarrow> ('a \<times> nat) option) \<Rightarrow> nat \<Rightarrow> nat \<Rightarrow> ('a list \<times> nat) option" where
  "read_n f 0 off = Some ([], off)"
| "read_n f (Suc n) off = do {
     (x, off) \<leftarrow> f off;
     (xs, off) \<leftarrow> read_n f n off;
     Some (x # xs, off)
   }"

definition read_count :: "bytes \<Rightarrow> nat \<Rightarrow> (u16 \<times> nat) option" where
  "read_count buf off = do {
     (n, v) \<leftarrow> CompactSizeDecode (Some (drop off buf)) MAX_COMPACT_SIZE_BYTES True;
     v \<leftarrow> v;
     Some (ucast v, off + n)
   }"

definition read_input :: "bytes \<Rightarrow> nat \<Rightarrow> (Input \<times> nat) option" where
  "read_input buf off = do {
     out \<leftarrow> rds buf off 36;
     let off = off + 36;
     (scriptSigSize, off) \<leftarrow> read_count buf off;
     scriptSig \<leftarrow> rds buf off (unat scriptSigSize);
     let off = off + unat scriptSigSize;
     sequence \<leftarrow> rds buf off 4;
     let off = off + 4;
     Some (\<lparr>in_txid = take 32 out, in_vout = le_word (drop 32 out),
            in_scriptSigSize = scriptSigSize, in_scriptSig = At scriptSig,
            in_sequence = le_word sequence\<rparr>, off)
   }"

definition read_output :: "bytes \<Rightarrow> nat \<Rightarrow> (Output \<times> nat) option" where
  "read_output buf off = do {
     amount \<leftarrow> rds buf off 8;
     let off = off + 8;
     (scriptPubKeySize, off) \<leftarrow> read_count buf off;
     scriptPubKey \<leftarrow> rds buf off (unat scriptPubKeySize);
     let off = off + unat scriptPubKeySize;
     Some (\<lparr>out_amount = le_word amount, out_scriptPubKeySize = scriptPubKeySize,
            out_scriptPubKey = At scriptPubKey\<rparr>, off)
   }"

definition read_stackItem :: "bytes \<Rightarrow> nat \<Rightarrow> (StackItem \<times> nat) option" where
  "read_stackItem buf off = do {
     (n, off) \<leftarrow> read_count buf off;
     item \<leftarrow> rds buf off (unat n);
     let off = off + unat n;
     Some (\<lparr>si_size = n, si_item = At item\<rparr>, off)
   }"

definition read_witness :: "bytes \<Rightarrow> nat \<Rightarrow> (Witness \<times> nat) option" where
  "read_witness buf off = do {
     (stackItemsCount, off) \<leftarrow> read_count buf off;
     (stackItems, off) \<leftarrow> read_n (read_stackItem buf) (unat stackItemsCount) off;
     Some (\<lparr>wit_stackItemsCount = stackItemsCount, wit_stackItems = At stackItems\<rparr>, off)
   }"

text \<open>
  One turn of the outer loop. \<^verbatim>\<open>transaction.size\<close> is \<^verbatim>\<open>(U16)bufferOffset - startPosOffset\<close> cut to
  16 bits, so the hashed copy holds that many bytes.
\<close>

definition read_tx :: "bytes \<Rightarrow> bytes \<Rightarrow> nat \<Rightarrow> (Transaction \<times> nat) option" where
  "read_tx stk buf startPosOffset = do {
     let off = startPosOffset;
     v \<leftarrow> rds buf off 6;
     let off = off + 4;
     let isSegwit = (v ! 4 = 0x00 \<and> v ! 5 \<ge> 0x01);
     let off = (if isSegwit then off + 2 else off);
     let marker = (if isSegwit then v ! 4 else 0);
     let flag = (if isSegwit then v ! 5 else 0);
     (inputCount, off) \<leftarrow> read_count buf off;
     (inputs, off) \<leftarrow> read_n (read_input buf) (unat inputCount) off;
     (outputCount, off) \<leftarrow> read_count buf off;
     (outputs, off) \<leftarrow> read_n (read_output buf) (unat outputCount) off;
     (witnesses, off) \<leftarrow>
       (if isSegwit
        then map_option (\<lambda>(ws, off). (At ws, off)) (read_n (read_witness buf) (unat inputCount) off)
        else Some (Wild, off));
     locktime \<leftarrow> rds buf off 4;
     let off = off + 4;
     let sz = (of_nat off :: u16) - of_nat startPosOffset;
     wtxBuffer \<leftarrow> rds buf startPosOffset (unat sz);
     wtxid \<leftarrow> DoubleSHA256 stk wtxBuffer;
     Some (\<lparr>tx_version = le_word (take 4 v), tx_marker = marker, tx_flag = flag,
            tx_inputCount = inputCount, tx_inputs = At inputs,
            tx_outputCount = outputCount, tx_outputs = At outputs,
            tx_witnesses = witnesses, tx_locktime = le_word locktime, tx_size = sz,
            tx_txid = wtxid, tx_wtxid = wtxid\<rparr>, off)
   }"

definition ReadTxn :: "bytes \<Rightarrow> bytes \<Rightarrow> u16 \<Rightarrow> Transaction list option" where
  "ReadTxn stk blockBuffer txCount =
     map_option fst (read_n (read_tx stk blockBuffer) (unat txCount) 0)"

section \<open>The wire format\<close>

definition count_bytes :: "u16 \<Rightarrow> bytes" where
  "count_bytes n = CompactSizeEncode (ucast n)"

definition ser_sized :: "u16 \<Rightarrow> bytes ptr \<Rightarrow> bytes" where
  "ser_sized n p = count_bytes n @ (case p of At bs \<Rightarrow> bs | _ \<Rightarrow> [])"

definition sized_ok :: "u16 \<Rightarrow> bytes ptr \<Rightarrow> bool" where
  "sized_ok n p \<longleftrightarrow> (\<exists>bs. p = At bs \<and> length bs = unat n)"

definition ser_list :: "('a \<Rightarrow> bytes) \<Rightarrow> 'a list ptr \<Rightarrow> bytes" where
  "ser_list ser p = (case p of At xs \<Rightarrow> concat (map ser xs) | _ \<Rightarrow> [])"

definition list_ok :: "('a \<Rightarrow> bool) \<Rightarrow> u16 \<Rightarrow> 'a list ptr \<Rightarrow> bool" where
  "list_ok ok n p \<longleftrightarrow> (\<exists>xs. p = At xs \<and> length xs = unat n \<and> list_all ok xs)"

definition ser_input :: "Input \<Rightarrow> bytes" where
  "ser_input i = in_txid i @ word_le 4 (in_vout i) @ ser_sized (in_scriptSigSize i) (in_scriptSig i) @
     word_le 4 (in_sequence i)"

definition ok_input :: "Input \<Rightarrow> bool" where
  "ok_input i \<longleftrightarrow> length (in_txid i) = 32 \<and> sized_ok (in_scriptSigSize i) (in_scriptSig i)"

definition ser_output :: "Output \<Rightarrow> bytes" where
  "ser_output t = word_le 8 (out_amount t) @ ser_sized (out_scriptPubKeySize t) (out_scriptPubKey t)"

definition ok_output :: "Output \<Rightarrow> bool" where
  "ok_output t \<longleftrightarrow> sized_ok (out_scriptPubKeySize t) (out_scriptPubKey t)"

definition ser_stackItem :: "StackItem \<Rightarrow> bytes" where
  "ser_stackItem s = ser_sized (si_size s) (si_item s)"

definition ok_stackItem :: "StackItem \<Rightarrow> bool" where
  "ok_stackItem s \<longleftrightarrow> sized_ok (si_size s) (si_item s)"

definition ser_witness :: "Witness \<Rightarrow> bytes" where
  "ser_witness w = count_bytes (wit_stackItemsCount w) @ ser_list ser_stackItem (wit_stackItems w)"

definition ok_witness :: "Witness \<Rightarrow> bool" where
  "ok_witness w \<longleftrightarrow> list_ok ok_stackItem (wit_stackItemsCount w) (wit_stackItems w)"

definition is_segwit :: "Transaction \<Rightarrow> bool" where
  "is_segwit t \<longleftrightarrow> tx_marker t = 0x00 \<and> tx_flag t \<ge> 0x01"

definition ser_io :: "Transaction \<Rightarrow> bytes" where
  "ser_io t = count_bytes (tx_inputCount t) @ ser_list ser_input (tx_inputs t) @
     count_bytes (tx_outputCount t) @ ser_list ser_output (tx_outputs t)"

definition ser_tx :: "Transaction \<Rightarrow> bytes" where
  "ser_tx t = word_le 4 (tx_version t) @ (if is_segwit t then [tx_marker t, tx_flag t] else []) @
     ser_io t @ (if is_segwit t then ser_list ser_witness (tx_witnesses t) else []) @
     word_le 4 (tx_locktime t)"

text \<open>The form whose hash BIP 141 calls the txid: no marker, flag or witnesses.\<close>

definition ser_tx_stripped :: "Transaction \<Rightarrow> bytes" where
  "ser_tx_stripped t = word_le 4 (tx_version t) @ ser_io t @ word_le 4 (tx_locktime t)"

definition shape_tx :: "Transaction \<Rightarrow> bool" where
  "shape_tx t \<longleftrightarrow>
     list_ok ok_input (tx_inputCount t) (tx_inputs t) \<and>
     list_ok ok_output (tx_outputCount t) (tx_outputs t) \<and>
     (if is_segwit t then list_ok ok_witness (tx_inputCount t) (tx_witnesses t)
      else tx_marker t = 0 \<and> tx_flag t = 0 \<and> tx_witnesses t = Wild)"

text \<open>The two ids: 32 bytes, and the same ones.\<close>

definition ids_ok :: "Transaction \<Rightarrow> bool" where
  "ids_ok t \<longleftrightarrow> length (tx_txid t) = 32 \<and> length (tx_wtxid t) = 32 \<and> tx_txid t = tx_wtxid t"

text \<open>
  A transaction on the wire. Nothing is said of its size and its ids: they are not on the wire,
  and the parser computes them.
\<close>

definition wire_tx :: "Transaction \<Rightarrow> bool" where
  "wire_tx t \<longleftrightarrow> shape_tx t \<and> (is_segwit t \<or> tx_inputCount t \<noteq> 0) \<and> length (ser_tx t) < 2 ^ 16"

definition derived_fields :: "Transaction \<Rightarrow> Transaction" where
  "derived_fields t = t\<lparr>tx_size := of_nat (length (ser_tx t)),
     tx_txid := hash256 (ser_tx t), tx_wtxid := hash256 (ser_tx t)\<rparr>"

text \<open>
  A transaction the parser gives back: counts that agree with the lists, at least one input
  when there is no marker (its count is what distinguishes the two formats), a size that fits
  16 bits, and the derived fields.
\<close>

definition ok_tx :: "Transaction \<Rightarrow> bool" where
  "ok_tx t \<longleftrightarrow> shape_tx t \<and> (is_segwit t \<or> tx_inputCount t \<noteq> 0) \<and> length (ser_tx t) < 2 ^ 16 \<and>
     tx_size t = of_nat (length (ser_tx t)) \<and> tx_wtxid t = hash256 (ser_tx t) \<and> tx_txid t = tx_wtxid t"

section \<open>Readers and writers of elements\<close>

text \<open>
  The contract between a reader and the format it reads: at the start of an encoded element
  the reader returns the element and the offset behind it. Sequences follow.
\<close>

locale element_reader =
  fixes reader :: "bytes \<Rightarrow> nat \<Rightarrow> ('a \<times> nat) option"
    and ser :: "'a \<Rightarrow> bytes"
    and ok :: "'a \<Rightarrow> bool"
  assumes reads: "ok x \<Longrightarrow> reader (pre @ ser x @ post) (length pre) = Some (x, length pre + length (ser x))"
begin

lemma reads_list:
  "list_all ok xs \<Longrightarrow>
     read_n (reader (pre @ concat (map ser xs) @ post)) (length xs) (length pre)
       = Some (xs, length pre + length (concat (map ser xs)))"
proof (induction xs arbitrary: pre)
  case Nil
  then show ?case by simp
next
  case (Cons x xs)
  then have "reader (pre @ ser x @ concat (map ser xs) @ post) (length pre)
      = Some (x, length pre + length (ser x))" by (intro reads) simp
  moreover have "read_n (reader ((pre @ ser x) @ concat (map ser xs) @ post)) (length xs) (length (pre @ ser x))
      = Some (xs, length (pre @ ser x) + length (concat (map ser xs)))"
    using Cons.IH [of "pre @ ser x"] Cons.prems by simp
  ultimately show ?case by (simp add: add.assoc)
qed

lemma reads_list_at:
  "list_all ok xs \<Longrightarrow> n = length xs \<Longrightarrow> off = length pre \<Longrightarrow>
     buf = pre @ concat (map ser xs) @ post \<Longrightarrow>
     read_n (reader buf) n off = Some (xs, off + length (concat (map ser xs)))"
  using reads_list by simp

end

lemma read_count_read:
  "read_count buf off =
     (case CompactSize_read (drop off buf) of
        None \<Rightarrow> None | Some (n, v) \<Rightarrow> Some (ucast v, off + n))"
  by (auto simp: read_count_def CompactSize_read_def MAX_COMPACT_SIZE_BYTES_def
      split: option.splits bind_splits)

lemma read_count_bytes [mem_simps]:
  "CompactSize_read (count_bytes n @ rest) = Some (length (count_bytes n), ucast n)"
  by (simp add: count_bytes_def CompactSize_read_encode)

lemma ucast_16_64 [simp]: "(ucast (ucast (n :: u16) :: u64) :: u16) = n"
  by (rule bit_word_eqI) (auto simp: bit_simps dest: bit_imp_le_length)

interpretation inputs: element_reader read_input ser_input ok_input
proof
  fix x pre post
  assume "ok_input x"
  then show "read_input (pre @ ser_input x @ post) (length pre)
      = Some (x, length pre + length (ser_input x))"
    by (auto simp: read_input_def ser_input_def ok_input_def sized_ok_def ser_sized_def
        read_count_read mem_simps rds_def byte_simps)
qed

interpretation outputs: element_reader read_output ser_output ok_output
proof
  fix x pre post
  assume "ok_output x"
  then show "read_output (pre @ ser_output x @ post) (length pre)
      = Some (x, length pre + length (ser_output x))"
    by (auto simp: read_output_def ser_output_def ok_output_def sized_ok_def ser_sized_def
        read_count_read mem_simps rds_def byte_simps)
qed

interpretation stack_items: element_reader read_stackItem ser_stackItem ok_stackItem
proof
  fix x pre post
  assume "ok_stackItem x"
  then show "read_stackItem (pre @ ser_stackItem x @ post) (length pre)
      = Some (x, length pre + length (ser_stackItem x))"
    by (auto simp: read_stackItem_def ser_stackItem_def ok_stackItem_def sized_ok_def ser_sized_def
        read_count_read mem_simps rds_def byte_simps)
qed

interpretation witnesses: element_reader read_witness ser_witness ok_witness
proof
  fix x pre post
  assume "ok_witness x"
  then obtain xs where xs: "wit_stackItems x = At xs" "length xs = unat (wit_stackItemsCount x)"
    "list_all ok_stackItem xs" by (auto simp: ok_witness_def list_ok_def)
  let ?c = "count_bytes (wit_stackItemsCount x)"
  let ?buf = "pre @ ser_witness x @ post"
  have "read_n (read_stackItem ?buf) (unat (wit_stackItemsCount x)) (length pre + length ?c)
      = Some (xs, length pre + length ?c + length (concat (map ser_stackItem xs)))"
    using xs by (intro stack_items.reads_list_at [where pre = "pre @ ?c" and post = post])
      (simp_all add: ser_witness_def ser_list_def)
  moreover have "read_count ?buf (length pre) = Some (wit_stackItemsCount x, length pre + length ?c)"
    by (simp add: read_count_read ser_witness_def mem_simps)
  ultimately show "read_witness ?buf (length pre) = Some (x, length pre + length (ser_witness x))"
    using xs(1) by (simp add: read_witness_def ser_witness_def ser_list_def)
qed

section \<open>Transactions read back\<close>

lemma count_bytes_ne [simp]: "count_bytes n \<noteq> []"
  by (auto simp: count_bytes_def CompactSizeEncode_def split: if_splits)

lemma length_count_bytes: "1 \<le> length (count_bytes n)"
  by (cases "count_bytes n") auto

lemma count_bytes_zero: "count_bytes n ! 0 = 0 \<Longrightarrow> n = 0"
proof -
  assume z: "count_bytes n ! 0 = 0"
  have "(0xFD :: u8) \<noteq> 0" "(0xFE :: u8) \<noteq> 0" "(0xFF :: u8) \<noteq> 0" by simp_all
  with z have small: "(ucast n :: u64) \<le> 252" and "(ucast (ucast n :: u64) :: u8) = 0"
    by (auto simp: count_bytes_def CompactSizeEncode_def split: if_splits)
  then have "unat n \<le> 252" and "unat n mod 256 = 0"
    by (simp_all add: word_le_nat_alt word_unat_eq_iff unat_bits)
  then have "unat n = 0" by simp
  then show ?thesis by (simp add: unat_eq_zero)
qed

definition tx_header :: "Transaction \<Rightarrow> bytes" where
  "tx_header t = word_le 4 (tx_version t) @ (if is_segwit t then [tx_marker t, tx_flag t] else [])"

definition tx_witness_part :: "Transaction \<Rightarrow> bytes" where
  "tx_witness_part t = (if is_segwit t then ser_list ser_witness (tx_witnesses t) else [])"

lemma ser_tx_parts:
  "ser_tx t = tx_header t @ count_bytes (tx_inputCount t) @ ser_list ser_input (tx_inputs t) @
     count_bytes (tx_outputCount t) @ ser_list ser_output (tx_outputs t) @
     tx_witness_part t @ word_le 4 (tx_locktime t)"
  by (simp add: ser_tx_def ser_io_def tx_header_def tx_witness_part_def)

lemma read_first_six:
  assumes "is_segwit t \<or> tx_inputCount t \<noteq> 0"
  shows "\<exists>v. rds (pre @ ser_tx t @ post) (length pre) 6 = Some v \<and> take 4 v = word_le 4 (tx_version t) \<and>
     (v ! 4 = 0x00 \<and> v ! 5 \<ge> 0x01 \<longleftrightarrow> is_segwit t) \<and>
     (is_segwit t \<longrightarrow> v ! 4 = tx_marker t \<and> v ! 5 = tx_flag t)"
proof -
  let ?v = "take 6 (ser_tx t)"
  let ?i = "count_bytes (tx_inputCount t)"
  have "6 \<le> length (ser_tx t)"
    using length_count_bytes [of "tx_inputCount t"] length_count_bytes [of "tx_outputCount t"]
    by (simp add: ser_tx_parts tx_header_def)
  then have rds: "rds (pre @ ser_tx t @ post) (length pre) 6 = Some ?v" by (simp add: rds_def)
  have t4: "take 4 ?v = word_le 4 (tx_version t)" by (simp add: ser_tx_def min_def)
  show ?thesis
  proof (cases "is_segwit t")
    case True
    then have "?v ! 4 = tx_marker t" and "?v ! 5 = tx_flag t"
      by (simp_all add: ser_tx_def nth_append)
    with True rds t4 show ?thesis by (auto simp: is_segwit_def)
  next
    case False
    then have "?v ! 4 = ?i ! 0"
      using length_count_bytes [of "tx_inputCount t"] by (simp add: ser_tx_parts tx_header_def nth_append)
    moreover have "tx_inputCount t \<noteq> 0" using assms False by simp
    then have "?i ! 0 \<noteq> 0" using count_bytes_zero by blast
    ultimately show ?thesis using rds t4 False by auto
  qed
qed

lemma read_witnesses:
  assumes "shape_tx t" and "buf = pre @ tx_witness_part t @ post" and "off = length pre"
  shows "(if is_segwit t
          then map_option (\<lambda>(ws, off). (At ws, off)) (read_n (read_witness buf) (unat (tx_inputCount t)) off)
          else Some (Wild, off)) = Some (tx_witnesses t, off + length (tx_witness_part t))"
proof (cases "is_segwit t")
  case True
  with assms(1) obtain ws where ws: "tx_witnesses t = At ws" "length ws = unat (tx_inputCount t)"
    "list_all ok_witness ws" by (auto simp: shape_tx_def list_ok_def)
  with True assms have "read_n (read_witness buf) (unat (tx_inputCount t)) off
      = Some (ws, off + length (concat (map ser_witness ws)))"
    by (intro witnesses.reads_list_at [where pre = pre and post = post])
      (simp_all add: tx_witness_part_def ser_list_def)
  with True ws show ?thesis by (simp add: tx_witness_part_def ser_list_def)
next
  case False
  with assms show ?thesis by (simp add: shape_tx_def tx_witness_part_def)
qed

lemma read_tx_ser:
  assumes stk: "length stk = 64" and ok: "ok_tx t"
  shows "read_tx stk (pre @ ser_tx t @ post) (length pre) = Some (t, length pre + length (ser_tx t))"
proof -
  let ?buf = "pre @ ser_tx t @ post"
  let ?h = "length pre + length (tx_header t)"
  let ?ci = "count_bytes (tx_inputCount t)" and ?co = "count_bytes (tx_outputCount t)"
  let ?si = "ser_list ser_input (tx_inputs t)" and ?so = "ser_list ser_output (tx_outputs t)"
  from ok have shape: "shape_tx t" by (simp add: ok_tx_def)
  then obtain ins outs where
    ins: "tx_inputs t = At ins" "length ins = unat (tx_inputCount t)" "list_all ok_input ins" and
    outs: "tx_outputs t = At outs" "length outs = unat (tx_outputCount t)" "list_all ok_output outs"
    by (auto simp: shape_tx_def list_ok_def)
  obtain v where v: "rds ?buf (length pre) 6 = Some v" "take 4 v = word_le 4 (tx_version t)"
    "(v ! 4 = 0x00 \<and> v ! 5 \<ge> 0x01) = is_segwit t"
    "is_segwit t \<longrightarrow> v ! 4 = tx_marker t \<and> v ! 5 = tx_flag t"
    using read_first_six [of t pre post] ok by (auto simp: ok_tx_def)
  have mf: "(if is_segwit t then v ! 4 else 0) = tx_marker t" "(if is_segwit t then v ! 5 else 0) = tx_flag t"
    using v(4) shape by (simp_all add: shape_tx_def split: if_splits)
  have hdr: "(if is_segwit t then length pre + 4 + 2 else length pre + 4) = ?h"
    by (simp add: tx_header_def)
  have ic: "read_count ?buf ?h = Some (tx_inputCount t, ?h + length ?ci)"
    by (simp add: read_count_read ser_tx_parts mem_simps)
  have rin: "read_n (read_input ?buf) (unat (tx_inputCount t)) (?h + length ?ci)
      = Some (ins, ?h + length ?ci + length ?si)"
    using ins by (subst inputs.reads_list_at [where pre = "pre @ tx_header t @ ?ci"
          and post = "?co @ ?so @ tx_witness_part t @ word_le 4 (tx_locktime t) @ post"])
      (simp_all add: ser_tx_parts ser_list_def)
  have oc: "read_count ?buf (?h + length ?ci + length ?si)
      = Some (tx_outputCount t, ?h + length ?ci + length ?si + length ?co)"
    by (simp add: read_count_read ser_tx_parts mem_simps)
  have rout: "read_n (read_output ?buf) (unat (tx_outputCount t)) (?h + length ?ci + length ?si + length ?co)
      = Some (outs, ?h + length ?ci + length ?si + length ?co + length ?so)"
    using outs by (subst outputs.reads_list_at [where pre = "pre @ tx_header t @ ?ci @ ?si @ ?co"
          and post = "tx_witness_part t @ word_le 4 (tx_locktime t) @ post"])
      (simp_all add: ser_tx_parts ser_list_def)
  let ?w = "?h + length ?ci + length ?si + length ?co + length ?so"
  have wit: "(if is_segwit t
          then map_option (\<lambda>(ws, off). (At ws, off)) (read_n (read_witness ?buf) (unat (tx_inputCount t)) ?w)
          else Some (Wild, ?w)) = Some (tx_witnesses t, ?w + length (tx_witness_part t))"
    by (rule read_witnesses [OF shape, where pre = "pre @ tx_header t @ ?ci @ ?si @ ?co @ ?so"
          and post = "word_le 4 (tx_locktime t) @ post"]) (simp_all add: ser_tx_parts)
  have lock: "rds ?buf (?w + length (tx_witness_part t)) 4 = Some (word_le 4 (tx_locktime t))"
    by (simp add: rds_def ser_tx_parts)
  have off: "?w + length (tx_witness_part t) + 4 = length pre + length (ser_tx t)"
    by (simp add: ser_tx_parts)
  have sz: "(of_nat (length pre + length (ser_tx t)) :: u16) - of_nat (length pre) = tx_size t"
    using ok by (simp add: ok_tx_def)
  have usz: "unat (tx_size t) = length (ser_tx t)"
    using ok by (simp add: ok_tx_def unat_of_nat)
  have raw: "rds ?buf (length pre) (unat (tx_size t)) = Some (ser_tx t)"
    by (simp add: rds_def usz)
  have dbl: "DoubleSHA256 stk (ser_tx t) = Some (tx_wtxid t)"
    using ok stk by (simp add: DoubleSHA256_eq ok_tx_def)
  have txid: "tx_wtxid t = tx_txid t" using ok by (simp add: ok_tx_def)
  show ?thesis
    unfolding read_tx_def Let_def
    by (simp only: v mf hdr ic rin oc rout wit lock off sz raw dbl bind.bind_lunit prod.case byte_simps)
      (simp add: ins(1) outs(1) txid)
qed

interpretation txs: element_reader "read_tx stk" ser_tx "\<lambda>t. length stk = 64 \<and> ok_tx t" for stk
  by unfold_locales (simp add: read_tx_ser)

section \<open>What any parsed transaction satisfies\<close>

lemma read_n_all:
  assumes "read_n f n off = Some (xs, off')" and "\<And>o1 x o2. f o1 = Some (x, o2) \<Longrightarrow> P x"
  shows "length xs = n \<and> list_all P xs"
  using assms(1)
proof (induction n arbitrary: off xs)
  case 0
  then show ?case by simp
next
  case (Suc n)
  then show ?case using assms(2) by (fastforce split: bind_splits)
qed

lemma read_n_bound:
  assumes "read_n f n off = Some (xs, off')" and "off \<le> len"
    and "\<And>o1 x o2. f o1 = Some (x, o2) \<Longrightarrow> o1 \<le> o2 \<and> o2 \<le> len"
  shows "off \<le> off' \<and> off' \<le> len"
  using assms(1,2)
proof (induction n arbitrary: off xs)
  case 0
  then show ?case by simp
next
  case (Suc n)
  then obtain x o1 ys where "f off = Some (x, o1)" "read_n f n o1 = Some (ys, off')"
    by (auto split: bind_splits)
  with assms(3) [of off x o1] Suc.IH [of o1 ys] show ?case by simp
qed

lemma read_count_bound:
  "read_count buf off = Some (n, off') \<Longrightarrow> off \<le> off' \<and> off' \<le> length buf"
  by (auto simp: read_count_def CompactSizeDecode_def rd_Some_iff MAX_COMPACT_SIZE_BYTES_def
      split: bind_splits if_splits)

lemma read_input_facts:
  "read_input buf off = Some (i, off') \<Longrightarrow> ok_input i \<and> off \<le> off' \<and> off' \<le> length buf"
  by (auto simp: read_input_def ok_input_def sized_ok_def Let_def split: bind_splits
      dest!: rds_facts read_count_bound)

lemma read_output_facts:
  "read_output buf off = Some (i, off') \<Longrightarrow> ok_output i \<and> off \<le> off' \<and> off' \<le> length buf"
  by (auto simp: read_output_def ok_output_def sized_ok_def Let_def split: bind_splits
      dest!: rds_facts read_count_bound)

lemma read_stackItem_facts:
  "read_stackItem buf off = Some (i, off') \<Longrightarrow> ok_stackItem i \<and> off \<le> off' \<and> off' \<le> length buf"
  by (auto simp: read_stackItem_def ok_stackItem_def sized_ok_def Let_def split: bind_splits
      dest!: rds_facts read_count_bound)

lemma read_list_facts:
  assumes "read_n f n off = Some (xs, off')" and "off \<le> length buf"
    and "\<And>o1 x o2. f o1 = Some (x, o2) \<Longrightarrow> P x \<and> o1 \<le> o2 \<and> o2 \<le> length buf"
  shows "length xs = n \<and> list_all P xs \<and> off \<le> off' \<and> off' \<le> length buf"
proof -
  have "length xs = n \<and> list_all P xs" by (rule read_n_all [OF assms(1)]) (use assms(3) in blast)
  moreover have "off \<le> off' \<and> off' \<le> length buf"
    by (rule read_n_bound [OF assms(1,2)]) (use assms(3) in blast)
  ultimately show ?thesis by simp
qed

lemma read_witness_facts:
  "read_witness buf off = Some (w, off') \<Longrightarrow> ok_witness w \<and> off \<le> off' \<and> off' \<le> length buf"
  by (auto simp: read_witness_def ok_witness_def list_ok_def split: bind_splits
      dest!: read_count_bound read_list_facts [OF _ _ read_stackItem_facts])

lemma length_ReverseString: "ReverseString_loop str i j = Some s \<Longrightarrow> length s = length str"
proof (induction str i j rule: ReverseString_loop.induct)
  case (1 str i j)
  then show ?case by (simp add: ReverseString_loop.simps [of str i j] split: if_splits)
qed

lemma length_DoubleSHA256: "DoubleSHA256 stk raw = Some h \<Longrightarrow> length h = 32"
  unfolding DoubleSHA256_def ReverseString_def
  by (auto dest!: length_ReverseString simp: sha256_def sha256_final_def put_hash_def Let_def split: bind_splits)

lemma read_tx_facts:
  assumes "read_tx stk buf off = Some (t, off')"
  shows "shape_tx t \<and> ids_ok t \<and> off \<le> off' \<and> off' \<le> length buf"
proof -
  from assms obtain v ic o1 ins o2 oc o3 outs o4 wit o5 lock raw h where
    v: "rds buf off 6 = Some v" and
    ic: "read_count buf (if v ! 4 = 0 \<and> v ! 5 \<ge> 1 then off + 4 + 2 else off + 4) = Some (ic, o1)" and
    ins: "read_n (read_input buf) (unat ic) o1 = Some (ins, o2)" and
    oc: "read_count buf o2 = Some (oc, o3)" and
    outs: "read_n (read_output buf) (unat oc) o3 = Some (outs, o4)" and
    wit: "(if v ! 4 = 0 \<and> v ! 5 \<ge> 1
       then map_option (\<lambda>(ws, off). (At ws, off)) (read_n (read_witness buf) (unat ic) o4)
       else Some (Wild, o4)) = Some (wit, o5)" and
    lock: "rds buf o5 4 = Some lock" and
    t: "t = \<lparr>tx_version = le_word (take 4 v), tx_marker = (if v ! 4 = 0 \<and> v ! 5 \<ge> 1 then v ! 4 else 0),
            tx_flag = (if v ! 4 = 0 \<and> v ! 5 \<ge> 1 then v ! 5 else 0),
            tx_inputCount = ic, tx_inputs = At ins, tx_outputCount = oc, tx_outputs = At outs,
            tx_witnesses = wit, tx_locktime = le_word lock, tx_size = of_nat (o5 + 4) - of_nat off,
            tx_txid = h, tx_wtxid = h\<rparr>" and
    h: "DoubleSHA256 stk raw = Some h" and "off' = o5 + 4"
    unfolding read_tx_def Let_def by (auto split: bind_splits simp del: of_nat_add)
  have 1: "off \<le> o1 \<and> o1 \<le> length buf" using read_count_bound [OF ic] by (auto split: if_splits)
  have 2: "length ins = unat ic \<and> list_all ok_input ins \<and> o1 \<le> o2 \<and> o2 \<le> length buf"
    using 1 by (intro read_list_facts [OF ins _ read_input_facts]) simp_all
  have 3: "o2 \<le> o3 \<and> o3 \<le> length buf" by (rule read_count_bound [OF oc])
  then have 4: "length outs = unat oc \<and> list_all ok_output outs \<and> o3 \<le> o4 \<and> o4 \<le> length buf"
    by (intro read_list_facts [OF outs _ read_output_facts]) simp_all
  have 5: "if v ! 4 = 0 \<and> v ! 5 \<ge> 1 then list_ok ok_witness ic wit else wit = Wild"
    and 6: "o4 \<le> o5"
    using wit read_list_facts [of "read_witness buf" "unat ic" o4 _ _ buf ok_witness, OF _ _ read_witness_facts] 4
    by (auto simp: list_ok_def split: if_splits)
  have "shape_tx t"
    using 2 4 5 by (auto simp: t shape_tx_def is_segwit_def list_ok_def split: if_splits)
  moreover have "off \<le> off'" and "off' \<le> length buf"
    using 1 2 3 4 6 rds_bound [OF lock] \<open>off' = o5 + 4\<close> by simp_all
  moreover have "ids_ok t" using length_DoubleSHA256 [OF h] by (simp add: t ids_ok_def)
  ultimately show ?thesis by simp
qed

lemma ReadTxn_ser:
  assumes "length stk = 64" and "list_all ok_tx txs" and "unat n = length txs"
  shows "ReadTxn stk (concat (map ser_tx txs) @ post) n = Some txs"
proof -
  from assms(1,2) have "list_all (\<lambda>t. length stk = 64 \<and> ok_tx t) txs" by (simp add: list_all_iff)
  from txs.reads_list [OF this, of "[]" post] show ?thesis by (simp add: ReadTxn_def assms(3))
qed

lemma ReadTxn_facts:
  assumes "ReadTxn stk buf n = Some txs"
  shows "length txs = unat n \<and> (\<forall>t \<in> set txs. shape_tx t \<and> ids_ok t)"
proof -
  from assms obtain off' where r: "read_n (read_tx stk buf) (unat n) 0 = Some (txs, off')"
    by (auto simp: ReadTxn_def)
  have "length txs = unat n \<and> list_all (\<lambda>t. shape_tx t \<and> ids_ok t) txs"
    by (rule read_n_all [OF r]) (use read_tx_facts in blast)
  then show ?thesis by (simp add: list_all_iff)
qed

lemma stripped_shorter:
  assumes "is_segwit t"
  shows "length (ser_tx_stripped t) + 2 \<le> length (ser_tx t)"
  using assms by (simp add: ser_tx_def ser_tx_stripped_def)

lemma derived_fields_ser [simp]: "ser_tx (derived_fields t) = ser_tx t"
  by (simp add: derived_fields_def ser_tx_def ser_io_def is_segwit_def)

lemma derived_fields_wire: "shape_tx (derived_fields t) = shape_tx t" "is_segwit (derived_fields t) = is_segwit t"
    "tx_inputCount (derived_fields t) = tx_inputCount t"
  by (simp_all add: derived_fields_def shape_tx_def is_segwit_def)

lemma derived_fields_ids: "tx_size (derived_fields t) = of_nat (length (ser_tx t))"
    "tx_wtxid (derived_fields t) = hash256 (ser_tx t)" "tx_txid (derived_fields t) = hash256 (ser_tx t)"
  by (simp_all add: derived_fields_def)

lemma derived_fields_ok: "wire_tx t \<Longrightarrow> ok_tx (derived_fields t)"
  unfolding ok_tx_def derived_fields_ser wire_tx_def derived_fields_wire derived_fields_ids
  by (elim conjE, intro conjI, assumption+, rule refl, rule refl, rule refl)

section \<open>Properties\<close>

text \<open>
  C9: The parser reads back every sequence of well-formed transactions, legacy and segwit, from
  its wire bytes, whatever follows in the block: all fields, the scripts and witnesses, the size,
  and the double hash of the full serialisation as wtxid.
\<close>

theorem ReadTxn_roundtrip:
  assumes "length stk = 64" and "list_all ok_tx txs" and "unat n = length txs"
  shows "ReadTxn stk (concat (map ser_tx txs) @ post) n = Some txs"
  using assms by (rule ReadTxn_ser)

definition sample_core :: Transaction where
  "sample_core = \<lparr>tx_version = 2, tx_marker = 0, tx_flag = 1, tx_inputCount = 1,
     tx_inputs = At [\<lparr>in_txid = replicate 32 5, in_vout = 1, in_scriptSigSize = 2,
       in_scriptSig = At [0x51, 0x52], in_sequence = 0xFFFFFFFF\<rparr>],
     tx_outputCount = 1,
     tx_outputs = At [\<lparr>out_amount = 5000, out_scriptPubKeySize = 1, out_scriptPubKey = At [0x6a]\<rparr>],
     tx_witnesses = At [\<lparr>wit_stackItemsCount = 1, wit_stackItems = At [\<lparr>si_size = 1, si_item = At [7]\<rparr>]\<rparr>],
     tx_locktime = 0, tx_size = 0, tx_txid = [], tx_wtxid = []\<rparr>"

definition sample_tx :: Transaction where
  "sample_tx = sample_core\<lparr>tx_size := of_nat (length (ser_tx sample_core)),
     tx_txid := hash256 (ser_tx sample_core), tx_wtxid := hash256 (ser_tx sample_core)\<rparr>"

lemma sample_tx_ser: "ser_tx sample_tx = ser_tx sample_core"
  by (simp add: sample_tx_def ser_tx_def ser_io_def is_segwit_def)

lemma sample_tx_length: "length (ser_tx sample_core) = 68"
  by (simp add: sample_core_def ser_tx_def ser_io_def is_segwit_def ser_list_def ser_input_def
      ser_output_def ser_witness_def ser_stackItem_def ser_sized_def count_bytes_def CompactSizeEncode_def)

lemma sample_core_shape: "shape_tx sample_core \<and> is_segwit sample_core"
  by (simp add: sample_core_def shape_tx_def is_segwit_def list_ok_def ok_input_def ok_output_def
      ok_witness_def ok_stackItem_def sized_ok_def)

lemma sample_tx_ok: "ok_tx sample_tx"
proof -
  have "shape_tx sample_tx \<and> is_segwit sample_tx"
    using sample_core_shape by (simp add: sample_tx_def shape_tx_def is_segwit_def)
  then show ?thesis
    by (simp add: ok_tx_def sample_tx_ser sample_tx_length) (simp add: sample_tx_def sample_tx_length)
qed

theorem ReadTxn_roundtrip_witness:
  "ReadTxn (replicate 64 0) (concat (map ser_tx [sample_tx]) @ [1, 2, 3]) 1 = Some [sample_tx]"
  by (rule ReadTxn_roundtrip) (simp_all add: sample_tx_ok)

text \<open>
  C10: Whatever the bytes, a transaction the parser returns is well-formed: exactly as many
  transactions as asked for, every count equal to the length of its array, 32-byte ids, witnesses
  present exactly for the segwit marker, marker and flag cleared otherwise.
\<close>

theorem ReadTxn_shape:
  assumes "ReadTxn stk buf n = Some txs"
  shows "length txs = unat n \<and>
     (\<forall>t \<in> set txs. shape_tx t \<and> length (tx_txid t) = 32 \<and> length (tx_wtxid t) = 32)"
  using ReadTxn_facts [OF assms] by (simp add: ids_ok_def)

theorem ReadTxn_shape_witness:
  "length [sample_tx] = unat (1 :: u16) \<and> shape_tx sample_tx \<and> length (tx_txid sample_tx) = 32"
proof -
  have "ReadTxn (replicate 64 0) (concat (map ser_tx [sample_tx]) @ []) 1 = Some [sample_tx]"
    by (rule ReadTxn_ser) (simp_all add: sample_tx_ok)
  from ReadTxn_shape [OF this] show ?thesis by simp
qed

text \<open>
  C11: The txid the parser stores for a transaction read from the wire is its wtxid: the double
  hash of all its bytes. For a segwit transaction these contain marker, flag and witnesses and are
  more than BIP 141 hashes for the txid. The ids and the size of the transactions that were put
  on the wire play no part.
\<close>

theorem ReadTxn_txid_is_wtxid:
  assumes "length stk = 64" and "list_all wire_tx txs" and "unat n = length txs"
  shows "\<exists>ts. ReadTxn stk (concat (map ser_tx txs) @ post) n = Some ts \<and> length ts = length txs \<and>
     (\<forall>i < length txs. tx_wtxid (ts ! i) = hash256 (ser_tx (txs ! i)) \<and>
        tx_txid (ts ! i) = tx_wtxid (ts ! i) \<and>
        (is_segwit (txs ! i) \<longrightarrow> length (ser_tx_stripped (txs ! i)) < length (ser_tx (txs ! i))))"
proof -
  have "ReadTxn stk (concat (map ser_tx (map derived_fields txs)) @ post) n = Some (map derived_fields txs)"
    using assms by (intro ReadTxn_ser) (auto simp: list_all_iff derived_fields_ok)
  then have "ReadTxn stk (concat (map ser_tx txs) @ post) n = Some (map derived_fields txs)"
    by (simp add: comp_def)
  moreover have "length (ser_tx_stripped t) < length (ser_tx t)" if "is_segwit t" for t
    using stripped_shorter [OF that] by simp
  ultimately show ?thesis by (intro exI [of _ "map derived_fields txs"]) (simp add: derived_fields_def)
qed

theorem ReadTxn_txid_is_wtxid_witness:
  "tx_txid sample_core = [] \<and>
     (\<exists>t. ReadTxn (replicate 64 0) (concat (map ser_tx [sample_core])) 1 = Some [t] \<and>
        tx_txid t = hash256 (ser_tx sample_core) \<and>
        length (ser_tx_stripped sample_core) < length (ser_tx sample_core))"
proof -
  have "list_all wire_tx [sample_core]" by (simp add: wire_tx_def sample_core_shape sample_tx_length)
  from ReadTxn_txid_is_wtxid [of "replicate 64 0", OF _ this, of 1 "[]"] obtain ts where
    "ReadTxn (replicate 64 0) (concat (map ser_tx [sample_core])) 1 = Some ts" "length ts = 1"
    "tx_txid (ts ! 0) = hash256 (ser_tx sample_core)"
    "length (ser_tx_stripped sample_core) < length (ser_tx sample_core)"
    by (auto simp: sample_core_shape)
  moreover from \<open>length ts = 1\<close> obtain t where "ts = [t]" by (auto simp: length_Suc_conv)
  moreover have "tx_txid sample_core = []" by (simp add: sample_core_def)
  ultimately show ?thesis by simp
qed

end
