(* ===== verification/File_Cache.thy ===== *)
theory File_Cache
  imports Bitcoin_Structs
begin

text \<open>
  The cache of open files of \<^verbatim>\<open>src/blkdat.c\<close> (\<^verbatim>\<open>OpenFile\<close>, \<^verbatim>\<open>CloseLRUFile\<close>), the streams of the C
  library it manages, and the contract the block reader relies on. A \<^verbatim>\<open>FileInfo *\<close> is an index
  into the array of files, a \<^verbatim>\<open>FILE *\<close> a stream number. \<open>disk\<close> gives the bytes of the file a path
  names; \<open>None\<close> is a file that \<^verbatim>\<open>fopen\<close> cannot open. \<open>now\<close> is what \<^verbatim>\<open>time\<close> returns.
\<close>

section \<open>Streams of the C library\<close>

record stream =
  str_path :: string
  str_pos :: nat

record FileInfo =
  fi_filepath :: string
  fi_isOpen :: u8
  fi_file :: "nat ptr"

record OpenFileCache =
  ofc_fileInfo :: "nat option"
  ofc_lastAccessTime :: u32

record file_state =
  fs_files :: "FileInfo list"
  fs_openFiles :: "OpenFileCache list"
  fs_streams :: "nat \<rightharpoonup> stream"
  fs_next :: nat
  fs_out :: "string list"

type_synonym disk = "string \<rightharpoonup> bytes"

definition c_fopen :: "disk \<Rightarrow> string \<Rightarrow> file_state \<Rightarrow> nat ptr \<times> file_state" where
  "c_fopen disk path st =
     (case disk path of
        None \<Rightarrow> (Null, st)
      | Some _ \<Rightarrow> (At (fs_next st),
          st\<lparr>fs_streams := (fs_streams st)(fs_next st \<mapsto> \<lparr>str_path = path, str_pos = 0\<rparr>),
             fs_next := fs_next st + 1\<rparr>))"

definition c_fclose :: "nat ptr \<Rightarrow> file_state \<Rightarrow> file_state option" where
  "c_fclose f st = do {
     h \<leftarrow> deref f;
     _ \<leftarrow> fs_streams st h;
     Some (st\<lparr>fs_streams := (fs_streams st)(h := None)\<rparr>)
   }"

definition c_printf :: "string \<Rightarrow> file_state \<Rightarrow> file_state" where
  "c_printf msg st = st\<lparr>fs_out := fs_out st @ [msg]\<rparr>"

section \<open>The cache\<close>

fun lru_scan :: "OpenFileCache list \<Rightarrow> nat \<Rightarrow> nat \<Rightarrow> u32 \<Rightarrow> nat" where
  "lru_scan [] i lruIndex oldestTime = lruIndex"
| "lru_scan (s # ss) i lruIndex oldestTime =
     (if ofc_fileInfo s \<noteq> None \<and> ofc_lastAccessTime s < oldestTime
      then lru_scan ss (i + 1) i (ofc_lastAccessTime s)
      else lru_scan ss (i + 1) lruIndex oldestTime)"

definition CloseLRUFile :: "file_state \<Rightarrow> file_state option" where
  "CloseLRUFile st = do {
     s0 \<leftarrow> rd (fs_openFiles st) 0;
     let lruIndex = lru_scan (tl (fs_openFiles st)) 1 0 (ofc_lastAccessTime s0);
     s \<leftarrow> rd (fs_openFiles st) lruIndex;
     p \<leftarrow> ofc_fileInfo s;
     fi \<leftarrow> rd (fs_files st) p;
     st \<leftarrow> c_fclose (fi_file fi) st;
     Some (st\<lparr>fs_files := (fs_files st)[p := fi\<lparr>fi_isOpen := 0\<rparr>],
              fs_openFiles := (fs_openFiles st)[lruIndex := s\<lparr>ofc_fileInfo := None\<rparr>]\<rparr>)
   }"

fun find_slot :: "nat option \<Rightarrow> OpenFileCache list \<Rightarrow> nat option" where
  "find_slot q [] = None"
| "find_slot q (s # ss) =
     (if ofc_fileInfo s = q then Some 0 else map_option Suc (find_slot q ss))"

definition touch_slot :: "nat \<Rightarrow> u32 \<Rightarrow> file_state \<Rightarrow> file_state" where
  "touch_slot i now st =
     st\<lparr>fs_openFiles := (fs_openFiles st)[i := (fs_openFiles st ! i)\<lparr>ofc_lastAccessTime := now\<rparr>]\<rparr>"

definition OpenFile_miss :: "disk \<Rightarrow> u32 \<Rightarrow> nat \<Rightarrow> file_state \<Rightarrow> (nat ptr \<times> file_state) option" where
  "OpenFile_miss disk now p st = do {
     let openSlots = length [s \<leftarrow> fs_openFiles st. ofc_fileInfo s = None];
     st \<leftarrow> (if openSlots = 0 then CloseLRUFile st else Some st);
     fi \<leftarrow> rd (fs_files st) p;
     let (f, st) = c_fopen disk (fi_filepath fi) st;
     let st = st\<lparr>fs_files := (fs_files st)[p := fi\<lparr>fi_file := f\<rparr>]\<rparr>;
     if f = Null then Some (Null, c_printf ''Failed to open file'' st)
     else do {
       let st = st\<lparr>fs_files := (fs_files st)[p := fi\<lparr>fi_file := f, fi_isOpen := 1\<rparr>]\<rparr>;
       let st = (case find_slot None (fs_openFiles st) of
           None \<Rightarrow> st
         | Some i \<Rightarrow> st\<lparr>fs_openFiles := (fs_openFiles st)
             [i := \<lparr>ofc_fileInfo = Some p, ofc_lastAccessTime = now\<rparr>]\<rparr>);
       Some (f, st)
     }
   }"

definition OpenFile :: "disk \<Rightarrow> u32 \<Rightarrow> nat \<Rightarrow> file_state \<Rightarrow> (nat ptr \<times> file_state) option" where
  "OpenFile disk now p st = do {
     fi \<leftarrow> rd (fs_files st) p;
     (case (if fi_isOpen fi \<noteq> 0 then find_slot (Some p) (fs_openFiles st) else None) of
        Some i \<Rightarrow> Some (fi_file fi, touch_slot i now st)
      | None \<Rightarrow> OpenFile_miss disk now p st)
   }"

section \<open>Seeking and reading\<close>

text \<open>
  A \<^verbatim>\<open>size_t\<close> offset is converted to \<^verbatim>\<open>long\<close>: from \<open>2 ^ 63\<close> on it is negative and the seek fails,
  leaving the position. \<^verbatim>\<open>fread\<close> returns the bytes there are.
\<close>

definition c_fseek :: "nat ptr \<Rightarrow> u64 \<Rightarrow> file_state \<Rightarrow> (bool \<times> file_state) option" where
  "c_fseek f off st = do {
     h \<leftarrow> deref f;
     s \<leftarrow> fs_streams st h;
     if unat off < 2 ^ 63
     then Some (True, st\<lparr>fs_streams := (fs_streams st)(h \<mapsto> s\<lparr>str_pos := unat off\<rparr>)\<rparr>)
     else Some (False, st)
   }"

definition c_fread :: "disk \<Rightarrow> nat ptr \<Rightarrow> nat \<Rightarrow> file_state \<Rightarrow> (bytes \<times> file_state) option" where
  "c_fread disk f n st = do {
     h \<leftarrow> deref f;
     s \<leftarrow> fs_streams st h;
     content \<leftarrow> disk (str_path s);
     let got = take n (drop (str_pos s) content);
     Some (got, st\<lparr>fs_streams := (fs_streams st)(h \<mapsto> s\<lparr>str_pos := str_pos s + length got\<rparr>)\<rparr>)
   }"

section \<open>Freeing the list\<close>

text \<open>
  \<^verbatim>\<open>FreeFileList\<close> of \<^verbatim>\<open>src/bitcoin-structs.c\<close>, on the list the cache points into. The count is the
  length of the list; the frees of the paths and of the array leave nothing but an empty list.
\<close>

fun free_files :: "FileInfo list \<Rightarrow> file_state \<Rightarrow> file_state option" where
  "free_files [] st = Some st"
| "free_files (fi # fis) st = do {
     st \<leftarrow> (if fi_isOpen fi \<noteq> 0 then c_fclose (fi_file fi) st else Some st);
     free_files fis st
   }"

definition FreeFileList :: "file_state \<Rightarrow> file_state option" where
  "FreeFileList st = do {
     st \<leftarrow> free_files (fs_files st) st;
     Some (st\<lparr>fs_files := []\<rparr>)
   }"

section \<open>The steps of the program\<close>

definition init_files :: "string list \<Rightarrow> file_state" where
  "init_files paths =
     \<lparr>fs_files = map (\<lambda>q. \<lparr>fi_filepath = q, fi_isOpen = 0, fi_file = Null\<rparr>) paths,
      fs_openFiles = replicate MAX_OPEN_FILES \<lparr>ofc_fileInfo = None, ofc_lastAccessTime = 0\<rparr>,
      fs_streams = (\<lambda>_. None), fs_next = 0, fs_out = []\<rparr>"

inductive file_step :: "disk \<Rightarrow> file_state \<Rightarrow> file_state \<Rightarrow> bool" for disk :: disk where
  open_file: "OpenFile disk now p st = Some (f, st') \<Longrightarrow> file_step disk st st'"
| seek: "c_fseek f off st = Some (b, st') \<Longrightarrow> file_step disk st st'"
| read: "c_fread disk f n st = Some (bs, st') \<Longrightarrow> file_step disk st st'"
| print: "file_step disk st (c_printf msg st)"

inductive_cases file_stepE: "file_step disk st st'"

text \<open>
  The states between an initialisation and the release of the list: \<^verbatim>\<open>FreeFileList\<close> closes streams that the
  slots go on naming, and a second initialisation replaces the files under the slots of the
  first. Neither is a step, and the cache is not used after them.
\<close>

inductive file_reach :: "disk \<Rightarrow> string list \<Rightarrow> file_state \<Rightarrow> bool" for disk :: disk and paths where
  init: "file_reach disk paths (init_files paths)"
| step: "file_reach disk paths st \<Longrightarrow> file_step disk st st' \<Longrightarrow> file_reach disk paths st'"

section \<open>The invariant\<close>

text \<open>
  \<open>open_files\<close> is what the \<^verbatim>\<open>isOpen\<close> flags say. The flags, the slots and the streams agree: a file
  is flagged exactly when one slot holds it, its \<^verbatim>\<open>FILE *\<close> is a stream on its path that no other
  file shares, and there is no other stream.
\<close>

definition is_open :: "FileInfo list \<Rightarrow> nat \<Rightarrow> bool" where
  "is_open files p \<longleftrightarrow> p < length files \<and> fi_isOpen (files ! p) \<noteq> 0"

definition in_slot :: "OpenFileCache list \<Rightarrow> nat \<Rightarrow> nat \<Rightarrow> bool" where
  "in_slot slots i p \<longleftrightarrow> i < length slots \<and> ofc_fileInfo (slots ! i) = Some p"

definition slots_ok :: "(nat \<Rightarrow> bool) \<Rightarrow> OpenFileCache list \<Rightarrow> bool" where
  "slots_ok opn slots \<longleftrightarrow> length slots = MAX_OPEN_FILES \<and>
     (\<forall>p. opn p \<longleftrightarrow> (\<exists>i. in_slot slots i p)) \<and>
     (\<forall>i j p. in_slot slots i p \<longrightarrow> in_slot slots j p \<longrightarrow> i = j)"

definition holds :: "FileInfo list \<Rightarrow> nat \<Rightarrow> nat \<Rightarrow> bool" where
  "holds files p h \<longleftrightarrow> is_open files p \<and> fi_file (files ! p) = At h"

definition streams_ok :: "disk \<Rightarrow> FileInfo list \<Rightarrow> (nat \<rightharpoonup> stream) \<Rightarrow> nat \<Rightarrow> bool" where
  "streams_ok disk files streams n \<longleftrightarrow>
     (\<forall>p. is_open files p \<longrightarrow> (\<exists>h. holds files p h)) \<and>
     (\<forall>p h. holds files p h \<longrightarrow> (\<exists>s. streams h = Some s \<and>
        str_path s = fi_filepath (files ! p) \<and> disk (str_path s) \<noteq> None)) \<and>
     (\<forall>h s. streams h = Some s \<longrightarrow> h < n \<and> (\<exists>p. holds files p h)) \<and>
     (\<forall>p q h. holds files p h \<longrightarrow> holds files q h \<longrightarrow> p = q)"

definition cache_inv :: "disk \<Rightarrow> string list \<Rightarrow> file_state \<Rightarrow> bool" where
  "cache_inv disk paths st \<longleftrightarrow> map fi_filepath (fs_files st) = paths \<and>
     slots_ok (is_open (fs_files st)) (fs_openFiles st) \<and>
     streams_ok disk (fs_files st) (fs_streams st) (fs_next st)"

section \<open>The scans\<close>

lemma find_slot_Some: "find_slot q ss = Some i \<Longrightarrow> i < length ss \<and> ofc_fileInfo (ss ! i) = q"
  by (induction ss arbitrary: i) (auto split: if_splits)

lemma find_slot_None: "find_slot q ss = None \<longleftrightarrow> (\<forall>s \<in> set ss. ofc_fileInfo s \<noteq> q)"
  by (induction ss) auto

lemma find_slot_in_slot:
  "(\<exists>i. find_slot (Some p) slots = Some i) \<longleftrightarrow> (\<exists>i. in_slot slots i p)"
proof
  show "\<exists>i. find_slot (Some p) slots = Some i \<Longrightarrow> \<exists>i. in_slot slots i p"
    using find_slot_Some by (fastforce simp: in_slot_def)
  assume "\<exists>i. in_slot slots i p"
  then obtain i where "i < length slots" "ofc_fileInfo (slots ! i) = Some p"
    by (auto simp: in_slot_def)
  then have "find_slot (Some p) slots \<noteq> None"
    using nth_mem [of i slots] by (auto simp: find_slot_None)
  then show "\<exists>i. find_slot (Some p) slots = Some i" by blast
qed

lemma lru_scan_minimal:
  assumes "\<forall>s \<in> set ss. ofc_fileInfo s \<noteq> None"
    and "lru < length (pre @ ss)" and "ofc_lastAccessTime ((pre @ ss) ! lru) = t"
    and "\<forall>k < length pre. t \<le> ofc_lastAccessTime (pre ! k)"
  shows "lru_scan ss (length pre) lru t < length (pre @ ss) \<and>
    (\<forall>k < length (pre @ ss). ofc_lastAccessTime ((pre @ ss) ! lru_scan ss (length pre) lru t)
       \<le> ofc_lastAccessTime ((pre @ ss) ! k))"
  using assms
proof (induction ss arbitrary: pre lru t)
  case Nil
  then show ?case by simp
next
  case (Cons s ss)
  show ?case
  proof (cases "ofc_lastAccessTime s < t")
    case True
    with Cons.prems have "\<forall>k < length (pre @ [s]). ofc_lastAccessTime s \<le> ofc_lastAccessTime ((pre @ [s]) ! k)"
      by (auto simp: nth_append less_Suc_eq)
    with Cons.IH [of "length pre" "pre @ [s]" "ofc_lastAccessTime s"] Cons.prems True
    show ?thesis by (simp add: nth_append)
  next
    case False
    with Cons.prems have "\<forall>k < length (pre @ [s]). t \<le> ofc_lastAccessTime ((pre @ [s]) ! k)"
      by (auto simp: nth_append less_Suc_eq)
    with Cons.IH [of lru "pre @ [s]" t] Cons.prems False show ?thesis by simp
  qed
qed

lemma lru_minimal:
  assumes "slots \<noteq> []" and "\<forall>s \<in> set slots. ofc_fileInfo s \<noteq> None"
  defines "l \<equiv> lru_scan (tl slots) 1 0 (ofc_lastAccessTime (hd slots))"
  shows "l < length slots \<and>
    (\<forall>k < length slots. ofc_lastAccessTime (slots ! l) \<le> ofc_lastAccessTime (slots ! k))"
proof -
  obtain s ss where "slots = s # ss" using assms(1) by (cases slots) auto
  with assms(2) lru_scan_minimal [of ss 0 "[s]" "ofc_lastAccessTime s"]
  show ?thesis by (simp add: l_def)
qed

section \<open>Every operation preserves the invariant\<close>

lemma slots_touch:
  assumes "slots_ok opn slots"
  shows "slots_ok opn (slots[i := (slots ! i)\<lparr>ofc_lastAccessTime := now\<rparr>])"
proof -
  have "in_slot (slots[i := (slots ! i)\<lparr>ofc_lastAccessTime := now\<rparr>]) j p = in_slot slots j p" for j p
    by (cases "i < length slots") (auto simp: in_slot_def nth_list_update)
  with assms show ?thesis by (simp add: slots_ok_def)
qed

lemma slots_clear:
  assumes ok: "slots_ok opn slots" and i: "in_slot slots i p"
  shows "slots_ok (\<lambda>q. opn q \<and> q \<noteq> p) (slots[i := (slots ! i)\<lparr>ofc_fileInfo := None\<rparr>])"
proof -
  have "in_slot (slots[i := (slots ! i)\<lparr>ofc_fileInfo := None\<rparr>]) j q \<longleftrightarrow> in_slot slots j q \<and> j \<noteq> i" for j q
    using i by (auto simp: in_slot_def nth_list_update)
  moreover have "in_slot slots j q \<Longrightarrow> j \<noteq> i \<longleftrightarrow> q \<noteq> p" for j q
    using ok i by (auto simp: slots_ok_def in_slot_def)
  ultimately show ?thesis using ok unfolding slots_ok_def by (metis length_list_update)
qed

lemma slots_fill:
  assumes ok: "slots_ok opn slots" and i: "i < length slots" "ofc_fileInfo (slots ! i) = None"
    and p: "\<not> opn p"
  shows "slots_ok (\<lambda>q. opn q \<or> q = p) (slots[i := \<lparr>ofc_fileInfo = Some p, ofc_lastAccessTime = now\<rparr>])"
proof -
  let ?s = "slots[i := \<lparr>ofc_fileInfo = Some p, ofc_lastAccessTime = now\<rparr>]"
  have eq: "in_slot ?s j q \<longleftrightarrow> (if j = i then q = p else in_slot slots j q)" for j q
    using i by (auto simp: in_slot_def nth_list_update)
  have "in_slot slots j q \<Longrightarrow> j \<noteq> i \<and> q \<noteq> p" for j q
    using ok i p by (auto simp: slots_ok_def in_slot_def)
  then show ?thesis using ok unfolding slots_ok_def eq by (metis length_list_update)
qed

lemma is_open_update:
  "p < length files \<Longrightarrow>
     is_open (files[p := fi]) q \<longleftrightarrow> (if q = p then fi_isOpen fi \<noteq> 0 else is_open files q)"
  by (auto simp: is_open_def nth_list_update)

lemma streams_okI:
  assumes "\<And>p. is_open files p \<Longrightarrow> \<exists>h. holds files p h"
    and "\<And>p h. holds files p h \<Longrightarrow> \<exists>s. streams h = Some s \<and>
      str_path s = fi_filepath (files ! p) \<and> disk (str_path s) \<noteq> None"
    and "\<And>h s. streams h = Some s \<Longrightarrow> h < n \<and> (\<exists>p. holds files p h)"
    and "\<And>p q h. holds files p h \<Longrightarrow> holds files q h \<Longrightarrow> p = q"
  shows "streams_ok disk files streams n"
  unfolding streams_ok_def using assms by blast

lemma streams_okD:
  assumes "streams_ok disk files streams n"
  shows "is_open files p \<Longrightarrow> \<exists>h. holds files p h"
    and "holds files p h \<Longrightarrow> \<exists>s. streams h = Some s \<and> str_path s = fi_filepath (files ! p) \<and>
      disk (str_path s) \<noteq> None"
    and "streams h = Some s \<Longrightarrow> h < n \<and> (\<exists>p. holds files p h)"
    and "holds files p h \<Longrightarrow> holds files q h \<Longrightarrow> p = q"
  using assms unfolding streams_ok_def by blast+

lemma streams_close:
  assumes ok: "streams_ok disk files streams n" and h: "holds files p h"
  shows "streams_ok disk (files[p := (files ! p)\<lparr>fi_isOpen := 0\<rparr>]) (streams(h := None)) n"
proof -
  let ?f = "files[p := (files ! p)\<lparr>fi_isOpen := 0\<rparr>]"
  have len: "p < length files" using h by (simp add: holds_def is_open_def)
  have opn: "is_open ?f q \<longleftrightarrow> q \<noteq> p \<and> is_open files q" for q
    using len by (simp add: is_open_update)
  have hld: "holds ?f q g \<longleftrightarrow> q \<noteq> p \<and> holds files q g" for q g
    by (auto simp: holds_def opn)
  have path: "fi_filepath (?f ! q) = fi_filepath (files ! q)" for q
    by (cases "q = p"; cases "p < length files") (auto simp: list_update_beyond)
  have other: "holds files q g \<Longrightarrow> q \<noteq> p \<Longrightarrow> g \<noteq> h" for q g
    using ok h unfolding streams_ok_def by blast
  have keep: "g \<noteq> h \<Longrightarrow> holds files q g \<Longrightarrow> q \<noteq> p" for q g
    using h by (auto simp: holds_def)
  show ?thesis
    unfolding streams_ok_def opn hld path
    using streams_okD [OF ok] other keep by (auto; metis)
qed

lemma streams_open:
  assumes ok: "streams_ok disk files streams n" and p: "p < length files" "\<not> is_open files p"
    and d: "disk (fi_filepath (files ! p)) \<noteq> None"
  shows "streams_ok disk (files[p := (files ! p)\<lparr>fi_file := At n, fi_isOpen := 1\<rparr>])
     (streams(n \<mapsto> \<lparr>str_path = fi_filepath (files ! p), str_pos = 0\<rparr>)) (n + 1)"
proof -
  let ?f = "files[p := (files ! p)\<lparr>fi_file := At n, fi_isOpen := 1\<rparr>]"
  let ?s = "streams(n \<mapsto> \<lparr>str_path = fi_filepath (files ! p), str_pos = 0\<rparr>)"
  have opn: "is_open ?f q \<longleftrightarrow> q = p \<or> is_open files q" for q
    using p by (simp add: is_open_update)
  have hld: "holds ?f q g \<longleftrightarrow> (q = p \<and> g = n) \<or> holds files q g" for q g
    using p by (cases "q = p") (auto simp: holds_def opn)
  have path: "fi_filepath (?f ! q) = fi_filepath (files ! q)" for q
    by (cases "q = p"; cases "p < length files") (auto simp: list_update_beyond)
  have old: "\<not> holds files q n" for q
    using ok unfolding streams_ok_def by blast
  have new: "\<not> holds files p g" for g using p by (simp add: holds_def)
  have 1: "\<exists>h. q = p \<and> h = n \<or> holds files q h" if "q = p \<or> is_open files q" for q
    using ok that unfolding streams_ok_def by blast
  have 2: "\<exists>s. ?s h = Some s \<and> str_path s = fi_filepath (files ! q) \<and> disk (str_path s) \<noteq> None"
    if "q = p \<and> h = n \<or> holds files q h" for q h
    using streams_okD(2) [OF ok, of q h] that d old by (cases "h = n") auto
  have 3: "h < n + 1 \<and> (\<exists>q. q = p \<and> h = n \<or> holds files q h)" if "?s h = Some s" for h s
  proof (cases "h = n")
    case False
    with that have "streams h = Some s" by simp
    from streams_okD(3) [OF ok this] show ?thesis by fastforce
  qed auto
  have 4: "q = r" if "q = p \<and> h = n \<or> holds files q h" "r = p \<and> h = n \<or> holds files r h" for q r h
    using ok that old new unfolding streams_ok_def by blast
  show ?thesis by (rule streams_okI; unfold opn hld path) (erule 1 2 3 4, assumption?)+
qed

lemma streams_move:
  assumes ok: "streams_ok disk files streams n" and h: "streams h = Some s"
  shows "streams_ok disk files (streams(h \<mapsto> s\<lparr>str_pos := k\<rparr>)) n"
proof -
  have "\<exists>s'. (streams(h \<mapsto> s\<lparr>str_pos := k\<rparr>)) g = Some s' \<and> str_path s' = fi_filepath (files ! p) \<and>
      disk (str_path s') \<noteq> None" if "holds files p g" for p g
    using streams_okD(2) [OF ok that] h by (cases "g = h") auto
  moreover have "g < n \<and> (\<exists>p. holds files p g)" if "(streams(h \<mapsto> s\<lparr>str_pos := k\<rparr>)) g = Some s'" for g s'
    using streams_okD(3) [OF ok, of g] h that by (cases "g = h") auto
  ultimately show ?thesis using ok unfolding streams_ok_def by blast
qed

lemma streams_forget:
  assumes ok: "streams_ok disk files streams n" and p: "\<not> is_open files p"
  shows "streams_ok disk (files[p := (files ! p)\<lparr>fi_file := f\<rparr>]) streams n"
proof (cases "p < length files")
  case True
  let ?f = "files[p := (files ! p)\<lparr>fi_file := f\<rparr>]"
  have opn: "is_open ?f q \<longleftrightarrow> is_open files q" for q
    using True by (simp add: is_open_update) (simp add: is_open_def)
  have hld: "holds ?f q g \<longleftrightarrow> holds files q g" for q g
    using p by (cases "q = p") (auto simp: holds_def opn)
  have path: "fi_filepath (?f ! q) = fi_filepath (files ! q)" for q
    using True by (cases "q = p") auto
  show ?thesis using ok unfolding streams_ok_def opn hld path .
qed (use ok in \<open>simp add: list_update_beyond\<close>)

section \<open>The abstract cache\<close>

text \<open>
  What the cache promises: a bounded map from files to the time of their last access. A new file
  evicts an entry of the smallest time when the map is full, and enters when it can be opened.
\<close>

definition lru_view :: "OpenFileCache list \<Rightarrow> nat \<rightharpoonup> u32" where
  "lru_view slots p =
     map_option (\<lambda>i. ofc_lastAccessTime (slots ! i)) (find_slot (Some p) slots)"

definition lru_evict :: "(nat \<rightharpoonup> u32) \<Rightarrow> (nat \<rightharpoonup> u32) \<Rightarrow> bool" where
  "lru_evict m m' \<longleftrightarrow> (if card (dom m) < MAX_OPEN_FILES then m' = m
     else \<exists>v t. m v = Some t \<and> (\<forall>w u. m w = Some u \<longrightarrow> t \<le> u) \<and> m' = m(v := None))"

definition lru_access :: "u32 \<Rightarrow> nat \<Rightarrow> bool \<Rightarrow> (nat \<rightharpoonup> u32) \<Rightarrow> (nat \<rightharpoonup> u32) \<Rightarrow> bool" where
  "lru_access now p exists m m' \<longleftrightarrow>
     (if p \<in> dom m then m' = m(p \<mapsto> now)
      else \<exists>m1. lru_evict m m1 \<and> m' = (if exists then m1(p \<mapsto> now) else m1))"

lemma lru_view_Some:
  assumes ok: "slots_ok opn slots"
  shows "lru_view slots p = Some t \<longleftrightarrow> (\<exists>i. in_slot slots i p \<and> ofc_lastAccessTime (slots ! i) = t)"
proof -
  have uniq: "in_slot slots i p \<Longrightarrow> find_slot (Some p) slots = Some i" for i
  proof -
    assume i: "in_slot slots i p"
    then obtain j where j: "find_slot (Some p) slots = Some j" using find_slot_in_slot by blast
    from find_slot_Some [OF this] have "in_slot slots j p" by (simp add: in_slot_def)
    with ok i have "j = i" unfolding slots_ok_def by blast
    with j show ?thesis by simp
  qed
  moreover have "find_slot (Some p) slots = Some i \<Longrightarrow> in_slot slots i p" for i
    using find_slot_Some [of "Some p" slots i] by (simp add: in_slot_def)
  ultimately show ?thesis unfolding lru_view_def map_option_eq_Some by blast
qed

lemma slots_okD: "slots_ok opn slots \<Longrightarrow> opn p \<longleftrightarrow> (\<exists>i. in_slot slots i p)"
  by (simp add: slots_ok_def)

lemma dom_lru_view: "slots_ok opn slots \<Longrightarrow> p \<in> dom (lru_view slots) \<longleftrightarrow> opn p"
proof -
  assume ok: "slots_ok opn slots"
  then have "opn p \<longleftrightarrow> (\<exists>i. in_slot slots i p)" by (simp add: slots_ok_def)
  then show ?thesis by (auto simp: dom_def lru_view_Some [OF ok])
qed

lemma map_ext_Some: "(\<And>q t. m q = Some t \<longleftrightarrow> m' q = Some t) \<Longrightarrow> m = m'"
  by (rule ext) (metis not_Some_eq)

lemma view_touch:
  assumes ok: "slots_ok opn slots" and i: "in_slot slots i p"
  shows "lru_view (slots[i := (slots ! i)\<lparr>ofc_lastAccessTime := now\<rparr>]) = (lru_view slots)(p \<mapsto> now)"
proof (rule map_ext_Some)
  let ?s = "slots[i := (slots ! i)\<lparr>ofc_lastAccessTime := now\<rparr>]"
  fix q t
  have "in_slot ?s j q \<longleftrightarrow> in_slot slots j q" for j
    by (cases "i < length slots") (auto simp: in_slot_def nth_list_update)
  moreover have "in_slot slots j q \<Longrightarrow> j = i \<longleftrightarrow> q = p" for j
    using ok i by (auto simp: slots_ok_def in_slot_def)
  moreover have "ofc_lastAccessTime (?s ! j) = (if j = i then now else ofc_lastAccessTime (slots ! j))" for j
    using i by (simp add: in_slot_def)
  ultimately show "lru_view ?s q = Some t \<longleftrightarrow> ((lru_view slots)(p \<mapsto> now)) q = Some t"
    using i by (auto simp: lru_view_Some [OF ok] lru_view_Some [OF slots_touch [OF ok]])
qed

lemma view_clear:
  assumes ok: "slots_ok opn slots" and i: "in_slot slots i p"
  shows "lru_view (slots[i := (slots ! i)\<lparr>ofc_fileInfo := None\<rparr>]) = (lru_view slots)(p := None)"
proof (rule map_ext_Some)
  let ?s = "slots[i := (slots ! i)\<lparr>ofc_fileInfo := None\<rparr>]"
  fix q t
  have "in_slot ?s j q \<longleftrightarrow> in_slot slots j q \<and> j \<noteq> i" for j
    using i by (auto simp: in_slot_def nth_list_update)
  moreover have "in_slot slots j q \<Longrightarrow> j = i \<longleftrightarrow> q = p" for j
    using ok i by (auto simp: slots_ok_def in_slot_def)
  moreover have "ofc_lastAccessTime (?s ! j) = ofc_lastAccessTime (slots ! j)" for j
    using i by (simp add: in_slot_def nth_list_update)
  ultimately show "lru_view ?s q = Some t \<longleftrightarrow> ((lru_view slots)(p := None)) q = Some t"
    by (auto simp: lru_view_Some [OF ok] lru_view_Some [OF slots_clear [OF ok i]])
qed

lemma view_fill:
  assumes ok: "slots_ok opn slots" and i: "i < length slots" "ofc_fileInfo (slots ! i) = None"
    and p: "\<not> opn p"
  shows "lru_view (slots[i := \<lparr>ofc_fileInfo = Some p, ofc_lastAccessTime = now\<rparr>]) =
    (lru_view slots)(p \<mapsto> now)"
proof (rule map_ext_Some)
  let ?s = "slots[i := \<lparr>ofc_fileInfo = Some p, ofc_lastAccessTime = now\<rparr>]"
  fix q t
  have "in_slot ?s j q \<longleftrightarrow> (if j = i then q = p else in_slot slots j q)" for j
    using i by (auto simp: in_slot_def nth_list_update)
  moreover have "in_slot slots j q \<Longrightarrow> j \<noteq> i \<and> q \<noteq> p" for j
    using ok i p by (auto simp: slots_ok_def in_slot_def)
  moreover have "?s ! j = (if j = i then \<lparr>ofc_fileInfo = Some p, ofc_lastAccessTime = now\<rparr> else slots ! j)" for j
    using i by simp
  ultimately show "lru_view ?s q = Some t \<longleftrightarrow> ((lru_view slots)(p \<mapsto> now)) q = Some t"
    by (auto simp: lru_view_Some [OF ok] lru_view_Some [OF slots_fill [OF ok i p]] split: if_splits)
qed

text \<open>The map is full exactly when no slot is free.\<close>

lemma card_view:
  assumes ok: "slots_ok opn slots"
  shows "card (dom (lru_view slots)) = card {i. i < MAX_OPEN_FILES \<and> ofc_fileInfo (slots ! i) \<noteq> None}"
proof -
  let ?I = "{i. i < MAX_OPEN_FILES \<and> ofc_fileInfo (slots ! i) \<noteq> None}"
  have len: "length slots = MAX_OPEN_FILES" using ok by (simp add: slots_ok_def)
  have "dom (lru_view slots) = (\<lambda>i. the (ofc_fileInfo (slots ! i))) ` ?I"
  proof (rule set_eqI)
    fix p
    have "p \<in> dom (lru_view slots) \<longleftrightarrow> (\<exists>i. in_slot slots i p)"
      using dom_lru_view [OF ok, of p] slots_okD [OF ok, of p] by blast
    also have "\<dots> \<longleftrightarrow> p \<in> (\<lambda>i. the (ofc_fileInfo (slots ! i))) ` ?I"
      using len by (auto simp: in_slot_def image_iff)
    finally show "p \<in> dom (lru_view slots) \<longleftrightarrow> p \<in> (\<lambda>i. the (ofc_fileInfo (slots ! i))) ` ?I" .
  qed
  moreover have "inj_on (\<lambda>i. the (ofc_fileInfo (slots ! i))) ?I"
  proof (rule inj_onI)
    fix i j assume i: "i \<in> ?I" "j \<in> ?I"
      and eq: "the (ofc_fileInfo (slots ! i)) = the (ofc_fileInfo (slots ! j))"
    then obtain p where "in_slot slots i p" "in_slot slots j p" using len by (auto simp: in_slot_def)
    with ok show "i = j" unfolding slots_ok_def by blast
  qed
  ultimately show ?thesis by (simp add: card_image)
qed

lemma card_view_full:
  assumes ok: "slots_ok opn slots"
  shows "card (dom (lru_view slots)) < MAX_OPEN_FILES \<longleftrightarrow> (\<exists>s \<in> set slots. ofc_fileInfo s = None)"
    and "card (dom (lru_view slots)) \<le> MAX_OPEN_FILES"
proof -
  let ?I = "{i. i < MAX_OPEN_FILES \<and> ofc_fileInfo (slots ! i) \<noteq> None}"
  have len: "length slots = MAX_OPEN_FILES" using ok by (simp add: slots_ok_def)
  have sub: "?I \<subseteq> {..<MAX_OPEN_FILES}" by blast
  have le: "card ?I \<le> MAX_OPEN_FILES"
    using card_mono [OF finite_lessThan sub] by (simp only: card_lessThan)
  have "card ?I = MAX_OPEN_FILES \<longleftrightarrow> ?I = {..<MAX_OPEN_FILES}"
  proof
    assume "card ?I = MAX_OPEN_FILES"
    then have "card ?I = card {..<MAX_OPEN_FILES}" by (simp only: card_lessThan)
    from card_subset_eq [OF finite_lessThan sub this] show "?I = {..<MAX_OPEN_FILES}" .
  qed (simp only: card_lessThan)
  also have "\<dots> \<longleftrightarrow> (\<forall>i < MAX_OPEN_FILES. ofc_fileInfo (slots ! i) \<noteq> None)" by blast
  also have "\<dots> \<longleftrightarrow> \<not> (\<exists>s \<in> set slots. ofc_fileInfo s = None)"
    using all_set_conv_all_nth [of slots "\<lambda>s. ofc_fileInfo s \<noteq> None"] len by auto
  finally show "card (dom (lru_view slots)) < MAX_OPEN_FILES \<longleftrightarrow> (\<exists>s \<in> set slots. ofc_fileInfo s = None)"
    and "card (dom (lru_view slots)) \<le> MAX_OPEN_FILES"
    using le by (auto simp: card_view [OF ok])
qed

section \<open>Closing and opening\<close>

lemma paths_update [simp]:
  "p < length files \<Longrightarrow> fi_filepath fi = fi_filepath (files ! p) \<Longrightarrow>
     map fi_filepath (files[p := fi]) = map fi_filepath files"
  by (metis length_map list_update_id map_update nth_map)

lemma CloseLRUFile_spec:
  assumes inv: "cache_inv disk paths st" and full: "\<forall>s \<in> set (fs_openFiles st). ofc_fileInfo s \<noteq> None"
  shows "\<exists>st' v. CloseLRUFile st = Some st' \<and> cache_inv disk paths st' \<and>
    (\<forall>q. is_open (fs_files st') q \<longleftrightarrow> is_open (fs_files st) q \<and> q \<noteq> v) \<and>
    find_slot None (fs_openFiles st') \<noteq> None \<and>
    lru_evict (lru_view (fs_openFiles st)) (lru_view (fs_openFiles st'))"
proof -
  let ?S = "fs_openFiles st" and ?F = "fs_files st"
  have sl: "slots_ok (is_open ?F) ?S" and str: "streams_ok disk ?F (fs_streams st) (fs_next st)"
    using inv by (simp_all add: cache_inv_def)
  have len: "length ?S = MAX_OPEN_FILES" using sl by (simp add: slots_ok_def)
  then have ne: "?S \<noteq> []" by (auto simp: MAX_OPEN_FILES_def)
  define l where "l = lru_scan (tl ?S) 1 0 (ofc_lastAccessTime (hd ?S))"
  from lru_minimal [OF ne full] have l: "l < length ?S"
    and min: "\<And>k. k < length ?S \<Longrightarrow> ofc_lastAccessTime (?S ! l) \<le> ofc_lastAccessTime (?S ! k)"
    unfolding l_def by blast+
  from l full obtain v where v: "ofc_fileInfo (?S ! l) = Some v" using nth_mem by blast
  with l have iv: "in_slot ?S l v" by (simp add: in_slot_def)
  then have ov: "is_open ?F v" using slots_okD [OF sl] by blast
  then obtain h where h: "holds ?F v h" using streams_okD(1) [OF str] by blast
  then obtain s where s: "fs_streams st h = Some s" using streams_okD(2) [OF str] by blast
  have vl: "v < length ?F" using ov by (simp add: is_open_def)
  let ?st = "st\<lparr>fs_files := ?F[v := (?F ! v)\<lparr>fi_isOpen := 0\<rparr>],
    fs_openFiles := ?S[l := (?S ! l)\<lparr>ofc_fileInfo := None\<rparr>], fs_streams := (fs_streams st)(h := None)\<rparr>"
  have r0: "rd ?S 0 = Some (hd ?S)" using ne by (simp add: rd_def hd_conv_nth)
  have close: "CloseLRUFile st = Some ?st"
    using r0 l v vl h s unfolding CloseLRUFile_def Let_def l_def [symmetric]
    by (simp add: rd_def c_fclose_def holds_def l_def)
  have opn: "is_open (fs_files ?st) q \<longleftrightarrow> is_open ?F q \<and> q \<noteq> v" for q
    using vl by (simp add: is_open_update)
  have "map fi_filepath (fs_files ?st) = paths"
    using inv vl by (simp add: cache_inv_def paths_update)
  moreover have "slots_ok (is_open (fs_files ?st)) (fs_openFiles ?st)"
  proof -
    have "is_open (fs_files ?st) = (\<lambda>q. is_open ?F q \<and> q \<noteq> v)" using opn by (intro ext)
    with slots_clear [OF sl iv] show ?thesis by simp
  qed
  moreover have "streams_ok disk (fs_files ?st) (fs_streams ?st) (fs_next ?st)"
    using streams_close [OF str h] by simp
  ultimately have "cache_inv disk paths ?st" by (simp add: cache_inv_def)
  moreover have "find_slot None (fs_openFiles ?st) \<noteq> None"
    using set_update_memI [OF l, of "(?S ! l)\<lparr>ofc_fileInfo := None\<rparr>"]
    by (simp add: find_slot_None) (rule bexI [rotated], assumption, simp)
  moreover have "lru_evict (lru_view ?S) (lru_view (fs_openFiles ?st))"
  proof -
    have "lru_view ?S v = Some (ofc_lastAccessTime (?S ! l))"
      using iv by (auto simp: lru_view_Some [OF sl])
    moreover have "lru_view ?S w = Some u \<Longrightarrow> ofc_lastAccessTime (?S ! l) \<le> u" for w u
      using min by (auto simp: lru_view_Some [OF sl] in_slot_def)
    moreover have "\<not> card (dom (lru_view ?S)) < MAX_OPEN_FILES"
      using card_view_full(1) [OF sl] full by blast
    ultimately show ?thesis
      unfolding lru_evict_def using view_clear [OF sl iv] by auto
  qed
  ultimately show ?thesis using close opn by blast
qed

text \<open>What \<^verbatim>\<open>fopen\<close> and the entry in a free slot do once there is one.\<close>

definition enter :: "disk \<Rightarrow> u32 \<Rightarrow> nat \<Rightarrow> file_state \<Rightarrow> (nat ptr \<times> file_state) option" where
  "enter disk now p st = do {
     fi \<leftarrow> rd (fs_files st) p;
     let (f, st) = c_fopen disk (fi_filepath fi) st;
     let st = st\<lparr>fs_files := (fs_files st)[p := fi\<lparr>fi_file := f\<rparr>]\<rparr>;
     if f = Null then Some (Null, c_printf ''Failed to open file'' st)
     else do {
       let st = st\<lparr>fs_files := (fs_files st)[p := fi\<lparr>fi_file := f, fi_isOpen := 1\<rparr>]\<rparr>;
       let st = (case find_slot None (fs_openFiles st) of
           None \<Rightarrow> st
         | Some i \<Rightarrow> st\<lparr>fs_openFiles := (fs_openFiles st)
             [i := \<lparr>ofc_fileInfo = Some p, ofc_lastAccessTime = now\<rparr>]\<rparr>);
       Some (f, st)
     }
   }"

lemma OpenFile_miss_enter:
  "OpenFile_miss disk now p st =
     (if find_slot None (fs_openFiles st) = None then CloseLRUFile st else Some st) \<bind> enter disk now p"
proof -
  have "length [s \<leftarrow> fs_openFiles st. ofc_fileInfo s = None] = 0 \<longleftrightarrow>
      find_slot None (fs_openFiles st) = None"
    by (simp add: find_slot_None filter_empty_conv)
  then show ?thesis unfolding OpenFile_miss_def enter_def Let_def by simp
qed

definition opened :: "disk \<Rightarrow> string list \<Rightarrow> nat \<Rightarrow> nat ptr \<Rightarrow> file_state \<Rightarrow> bool" where
  "opened disk paths p f st \<longleftrightarrow>
     (if disk (paths ! p) = None then f = Null
      else \<exists>h s. f = At h \<and> holds (fs_files st) p h \<and> fs_streams st h = Some s \<and> str_path s = paths ! p)"

lemma enter_spec:
  assumes inv: "cache_inv disk paths st" and p: "p < length paths" "\<not> is_open (fs_files st) p"
    and free: "find_slot None (fs_openFiles st) = Some i"
  shows "\<exists>f st'. enter disk now p st = Some (f, st') \<and> cache_inv disk paths st' \<and>
    opened disk paths p f st' \<and>
    lru_view (fs_openFiles st') =
      (if disk (paths ! p) = None then lru_view (fs_openFiles st) else (lru_view (fs_openFiles st))(p \<mapsto> now))"
proof -
  let ?S = "fs_openFiles st" and ?F = "fs_files st" and ?n = "fs_next st"
  have pth: "map fi_filepath ?F = paths" and sl: "slots_ok (is_open ?F) ?S"
    and str: "streams_ok disk ?F (fs_streams st) ?n" using inv by (simp_all add: cache_inv_def)
  have pl: "p < length ?F" using p(1) pth by (metis length_map)
  then have path: "fi_filepath (?F ! p) = paths ! p" using pth by (metis nth_map)
  have i: "i < length ?S" "ofc_fileInfo (?S ! i) = None" using find_slot_Some [OF free] by auto
  show ?thesis
  proof (cases "disk (paths ! p)")
    case None
    let ?F' = "?F[p := (?F ! p)\<lparr>fi_file := Null\<rparr>]"
    let ?st = "c_printf ''Failed to open file'' (st\<lparr>fs_files := ?F'\<rparr>)"
    have "enter disk now p st = Some (Null, ?st)"
      using pl None by (simp add: enter_def rd_def c_fopen_def path)
    moreover have "is_open ?F' = is_open ?F"
      using p(2) pl by (simp add: fun_eq_iff is_open_update) (simp add: is_open_def)
    then have "cache_inv disk paths ?st"
      using pth sl streams_forget [OF str p(2)] pl by (simp add: cache_inv_def c_printf_def)
    ultimately show ?thesis using None by (simp add: opened_def c_printf_def)
  next
    case (Some content)
    let ?F' = "?F[p := (?F ! p)\<lparr>fi_file := At ?n, fi_isOpen := 1\<rparr>]"
    let ?S' = "?S[i := \<lparr>ofc_fileInfo = Some p, ofc_lastAccessTime = now\<rparr>]"
    let ?st = "st\<lparr>fs_files := ?F', fs_openFiles := ?S', fs_next := ?n + 1,
      fs_streams := (fs_streams st)(?n \<mapsto> \<lparr>str_path = paths ! p, str_pos = 0\<rparr>)\<rparr>"
    have ent: "enter disk now p st = Some (At ?n, ?st)"
      using pl Some free by (simp add: enter_def rd_def c_fopen_def path)
    have opn: "is_open ?F' = (\<lambda>q. is_open ?F q \<or> q = p)"
      using pl by (auto simp: fun_eq_iff is_open_update)
    have "cache_inv disk paths ?st"
      using pth pl slots_fill [OF sl i p(2), of now] streams_open [OF str pl p(2)] Some opn
      by (simp add: cache_inv_def path)
    moreover have "opened disk paths p (At ?n) ?st"
      using pl Some opn by (simp add: opened_def holds_def)
    moreover have "lru_view ?S' = (lru_view ?S)(p \<mapsto> now)" by (rule view_fill [OF sl i p(2)])
    ultimately show ?thesis using ent Some by simp
  qed
qed

lemma OpenFile_spec:
  assumes inv: "cache_inv disk paths st" and p: "p < length paths"
  shows "\<exists>f st'. OpenFile disk now p st = Some (f, st') \<and> cache_inv disk paths st' \<and>
    opened disk paths p f st' \<and>
    lru_access now p (disk (paths ! p) \<noteq> None) (lru_view (fs_openFiles st)) (lru_view (fs_openFiles st'))"
proof -
  let ?S = "fs_openFiles st" and ?F = "fs_files st"
  have pth: "map fi_filepath ?F = paths" and sl: "slots_ok (is_open ?F) ?S"
    and str: "streams_ok disk ?F (fs_streams st) (fs_next st)" using inv by (simp_all add: cache_inv_def)
  have pl: "p < length ?F" using p pth by (metis length_map)
  then have path: "fi_filepath (?F ! p) = paths ! p" using pth by (metis nth_map)
  show ?thesis
  proof (cases "is_open ?F p")
    case True
    then obtain i where f: "find_slot (Some p) ?S = Some i"
      using slots_okD [OF sl] find_slot_in_slot by blast
    then have i: "in_slot ?S i p" using find_slot_Some by (fastforce simp: in_slot_def)
    obtain h s where h: "holds ?F p h" "fs_streams st h = Some s" "str_path s = paths ! p" "disk (paths ! p) \<noteq> None"
      using streams_okD(1,2) [OF str] True path by metis
    have "OpenFile disk now p st = Some (At h, touch_slot i now st)"
      using True pl f h(1) by (simp add: OpenFile_def rd_def is_open_def holds_def)
    moreover have "cache_inv disk paths (touch_slot i now st)"
      using inv slots_touch [OF sl] by (simp add: cache_inv_def touch_slot_def)
    moreover have "opened disk paths p (At h) (touch_slot i now st)"
      using h by (simp add: opened_def touch_slot_def)
    moreover have "p \<in> dom (lru_view ?S)" using dom_lru_view [OF sl] True by blast
    then have "lru_access now p (disk (paths ! p) \<noteq> None) (lru_view ?S) (lru_view (fs_openFiles (touch_slot i now st)))"
      using view_touch [OF sl i] by (simp add: lru_access_def touch_slot_def)
    ultimately show ?thesis by blast
  next
    case False
    then have "find_slot (Some p) ?S = None"
      using slots_okD [OF sl, of p] find_slot_in_slot [of p ?S] by (cases "find_slot (Some p) ?S") auto
    then have miss: "OpenFile disk now p st = OpenFile_miss disk now p st"
      using pl by (simp add: OpenFile_def rd_def)
    have nd: "p \<notin> dom (lru_view ?S)" using dom_lru_view [OF sl] False by blast
    obtain st1 where st1: "(if find_slot None ?S = None then CloseLRUFile st else Some st) = Some st1"
      "cache_inv disk paths st1" "\<not> is_open (fs_files st1) p" "find_slot None (fs_openFiles st1) \<noteq> None"
      "lru_evict (lru_view ?S) (lru_view (fs_openFiles st1))"
    proof (cases "find_slot None ?S")
      case None
      then show ?thesis
        using CloseLRUFile_spec [OF inv] False that by (auto simp: find_slot_None)
    next
      case (Some i)
      from find_slot_Some [OF this] have "\<exists>s \<in> set ?S. ofc_fileInfo s = None" using nth_mem by blast
      then have "lru_evict (lru_view ?S) (lru_view ?S)"
        using card_view_full(1) [OF sl] by (simp add: lru_evict_def)
      with that inv False Some show ?thesis by simp
    qed
    then obtain i where "find_slot None (fs_openFiles st1) = Some i" by blast
    from enter_spec [OF st1(2) p st1(3) this, of now] obtain f st' where
      e: "enter disk now p st1 = Some (f, st')" "cache_inv disk paths st'" "opened disk paths p f st'"
      "lru_view (fs_openFiles st') = (if disk (paths ! p) = None then lru_view (fs_openFiles st1)
        else (lru_view (fs_openFiles st1))(p \<mapsto> now))" by blast
    have "OpenFile disk now p st = Some (f, st')"
      unfolding miss OpenFile_miss_enter st1(1) by (simp add: e(1))
    moreover have "lru_access now p (disk (paths ! p) \<noteq> None) (lru_view ?S) (lru_view (fs_openFiles st'))"
      using nd st1(5) e(4) by (auto simp: lru_access_def)
    ultimately show ?thesis using e by blast
  qed
qed

section \<open>Seeking and reading keep the invariant\<close>

definition stream_at :: "disk \<Rightarrow> file_state \<Rightarrow> nat ptr \<Rightarrow> (bytes \<times> nat) option" where
  "stream_at disk st f = do {
     h \<leftarrow> deref f;
     s \<leftarrow> fs_streams st h;
     content \<leftarrow> disk (str_path s);
     Some (content, str_pos s)
   }"

lemma stream_at_Some:
  "stream_at disk st f = Some (c, k) \<longleftrightarrow>
     (\<exists>h s. f = At h \<and> fs_streams st h = Some s \<and> disk (str_path s) = Some c \<and> str_pos s = k)"
  by (cases f) (auto simp: stream_at_def split: bind_splits)

lemma fseek_inv: "cache_inv disk paths st \<Longrightarrow> c_fseek f off st = Some (b, st') \<Longrightarrow> cache_inv disk paths st'"
  by (auto simp: c_fseek_def cache_inv_def streams_move split: bind_splits if_splits)

lemma fread_inv: "cache_inv disk paths st \<Longrightarrow> c_fread disk f n st = Some (bs, st') \<Longrightarrow> cache_inv disk paths st'"
  by (auto simp: c_fread_def cache_inv_def Let_def streams_move split: bind_splits)

lemma printf_inv [simp]: "cache_inv disk paths (c_printf msg st) = cache_inv disk paths st"
  by (simp add: c_printf_def cache_inv_def)

lemma OpenFile_inv:
  assumes "cache_inv disk paths st" and "OpenFile disk now p st = Some (f, st')"
  shows "cache_inv disk paths st'"
proof -
  have "p < length (fs_files st)"
    using assms(2) by (auto simp: OpenFile_def rd_def split: bind_splits if_splits)
  then have "p < length paths" using assms(1) by (auto simp: cache_inv_def)
  from OpenFile_spec [OF assms(1) this, of now] assms(2) show ?thesis by auto
qed

lemma init_inv: "cache_inv disk paths (init_files paths)"
proof -
  have "\<not> is_open (map (\<lambda>q. \<lparr>fi_filepath = q, fi_isOpen = 0, fi_file = Null\<rparr>) paths) p" for p
    by (auto simp: is_open_def)
  moreover have "\<not> in_slot (replicate MAX_OPEN_FILES \<lparr>ofc_fileInfo = None, ofc_lastAccessTime = 0\<rparr>) i p" for i p
    by (auto simp: in_slot_def)
  ultimately show ?thesis
    by (simp add: cache_inv_def init_files_def slots_ok_def streams_ok_def holds_def comp_def)
qed

lemma file_step_inv: "file_step disk st st' \<Longrightarrow> cache_inv disk paths st \<Longrightarrow> cache_inv disk paths st'"
  by (erule file_stepE) (auto intro: OpenFile_inv fseek_inv fread_inv)

lemma file_reach_inv: "file_reach disk paths st \<Longrightarrow> cache_inv disk paths st"
  by (induction rule: file_reach.induct) (auto intro: init_inv file_step_inv)

lemma streams_bounded:
  assumes "cache_inv disk paths st"
  shows "finite (dom (fs_streams st)) \<and> card (dom (fs_streams st)) \<le> MAX_OPEN_FILES"
proof -
  let ?S = "fs_openFiles st" and ?F = "fs_files st"
  have sl: "slots_ok (is_open ?F) ?S"
    and str: "streams_ok disk ?F (fs_streams st) (fs_next st)" using assms by (simp_all add: cache_inv_def)
  let ?D = "dom (lru_view ?S)" and ?g = "\<lambda>p. case fi_file (?F ! p) of At h \<Rightarrow> h | _ \<Rightarrow> 0"
  have dom: "?D = {p. is_open ?F p}" using dom_lru_view [OF sl] by blast
  have fin: "finite ?D" unfolding dom by (rule finite_subset [of _ "{..<length ?F}"]) (auto simp: is_open_def)
  have sub: "dom (fs_streams st) \<subseteq> ?g ` ?D"
  proof
    fix h assume "h \<in> dom (fs_streams st)"
    then obtain p where "holds ?F p h" using streams_okD(3) [OF str] by blast
    then show "h \<in> ?g ` ?D" unfolding dom by (force simp: holds_def image_iff)
  qed
  have "card (dom (fs_streams st)) \<le> card ?D"
    using card_mono [OF finite_imageI [OF fin] sub] card_image_le [OF fin, of ?g] by linarith
  with card_view_full(2) [OF sl] finite_subset [OF sub finite_imageI [OF fin]] show ?thesis by linarith
qed

section \<open>The contract of the file layer\<close>

locale file_layer =
  fixes inv :: "'st \<Rightarrow> bool"
    and content :: "nat \<rightharpoonup> bytes"
    and at :: "'st \<Rightarrow> nat ptr \<Rightarrow> (bytes \<times> nat) option"
    and open_op :: "nat \<Rightarrow> 'st \<Rightarrow> (nat ptr \<times> 'st) option"
    and seek_op :: "nat ptr \<Rightarrow> u64 \<Rightarrow> 'st \<Rightarrow> (bool \<times> 'st) option"
    and read_op :: "nat ptr \<Rightarrow> nat \<Rightarrow> 'st \<Rightarrow> (bytes \<times> 'st) option"
  assumes opens: "inv st \<Longrightarrow> content p = Some c \<Longrightarrow>
      \<exists>f st' k. open_op p st = Some (f, st') \<and> inv st' \<and> at st' f = Some (c, k)"
    and seeks: "inv st \<Longrightarrow> at st f = Some (c, k) \<Longrightarrow> unat off < 2 ^ 63 \<Longrightarrow>
      \<exists>st'. seek_op f off st = Some (True, st') \<and> inv st' \<and> at st' f = Some (c, unat off)"
    and reads: "inv st \<Longrightarrow> at st f = Some (c, k) \<Longrightarrow>
      \<exists>st'. read_op f n st = Some (take n (drop k c), st') \<and> inv st' \<and>
        at st' f = Some (c, k + length (take n (drop k c)))"
begin

lemma read_twice:
  assumes "inv st" and "content p = Some (pre @ a @ b @ rest)" and "length pre = unat off"
    and "unat off < 2 ^ 63"
  shows "\<exists>f st1 st2 st3 st4. open_op p st = Some (f, st1) \<and> seek_op f off st1 = Some (True, st2) \<and>
    read_op f (length a) st2 = Some (a, st3) \<and> read_op f (length b) st3 = Some (b, st4) \<and> inv st4"
proof -
  let ?c = "pre @ a @ b @ rest"
  obtain f st1 k where 1: "open_op p st = Some (f, st1)" "inv st1" "at st1 f = Some (?c, k)"
    using opens [OF assms(1,2)] by blast
  obtain st2 where 2: "seek_op f off st1 = Some (True, st2)" "inv st2" "at st2 f = Some (?c, unat off)"
    using seeks [OF 1(2,3) assms(4)] by blast
  obtain st3 where 3: "read_op f (length a) st2 = Some (a, st3)" "inv st3"
      "at st3 f = Some (?c, unat off + length a)"
    using reads [OF 2(2,3), of "length a"] assms(3) by auto
  obtain st4 where 4: "read_op f (length b) st3 = Some (b, st4)" "inv st4"
    using reads [OF 3(2,3), of "length b"] assms(3) by auto
  from 1 2 3 4 show ?thesis by blast
qed

end

text \<open>
  The reader assigns the result to \<^verbatim>\<open>fileInfo->file\<close> once more; on the cache this changes nothing.
\<close>

definition OpenFile_assign :: "disk \<Rightarrow> u32 \<Rightarrow> nat \<Rightarrow> file_state \<Rightarrow> (nat ptr \<times> file_state) option" where
  "OpenFile_assign disk now p st = do {
     (f, st) \<leftarrow> OpenFile disk now p st;
     Some (f, st\<lparr>fs_files := (fs_files st)[p := (fs_files st ! p)\<lparr>fi_file := f\<rparr>]\<rparr>)
   }"

definition content_of :: "disk \<Rightarrow> string list \<Rightarrow> nat \<rightharpoonup> bytes" where
  "content_of disk paths p = (if p < length paths then disk (paths ! p) else None)"

interpretation cache: file_layer "cache_inv disk paths" "content_of disk paths" "stream_at disk"
  "OpenFile_assign disk now" c_fseek "c_fread disk" for disk paths now
proof
  fix st p c
  assume inv: "cache_inv disk paths st" and c: "content_of disk paths p = Some c"
  then have p: "p < length paths" "disk (paths ! p) = Some c"
    by (auto simp: content_of_def split: if_splits)
  from OpenFile_spec [OF inv p(1), of now] p(2) obtain h s st' where
    o: "OpenFile disk now p st = Some (At h, st')" "cache_inv disk paths st'" "holds (fs_files st') p h"
    "fs_streams st' h = Some s" "str_path s = paths ! p" by (auto simp: opened_def)
  have "fs_files st' ! p = (fs_files st' ! p)\<lparr>fi_file := At h\<rparr>" using o(3) by (simp add: holds_def)
  then have "(fs_files st')[p := (fs_files st' ! p)\<lparr>fi_file := At h\<rparr>] = fs_files st'"
    by (metis list_update_id)
  then have "OpenFile_assign disk now p st = Some (At h, st')" by (simp add: OpenFile_assign_def o(1))
  with o p(2) show "\<exists>f st' k. OpenFile_assign disk now p st = Some (f, st') \<and> cache_inv disk paths st' \<and>
      stream_at disk st' f = Some (c, k)" by (auto simp: stream_at_Some)
next
  fix st f c k and off :: u64
  assume "cache_inv disk paths st" "stream_at disk st f = Some (c, k)" "unat off < 2 ^ 63"
  then show "\<exists>st'. c_fseek f off st = Some (True, st') \<and> cache_inv disk paths st' \<and>
      stream_at disk st' f = Some (c, unat off)"
    by (auto simp: stream_at_Some c_fseek_def cache_inv_def streams_move)
next
  fix st f c k n
  assume "cache_inv disk paths st" "stream_at disk st f = Some (c, k)"
  then show "\<exists>st'. c_fread disk f n st = Some (take n (drop k c), st') \<and> cache_inv disk paths st' \<and>
      stream_at disk st' f = Some (c, k + length (take n (drop k c)))"
    by (auto simp: stream_at_Some c_fread_def cache_inv_def streams_move Let_def)
qed

section \<open>Freeing the list closes every stream\<close>

lemma free_files_closes:
  assumes "\<forall>p < length fis. fi_isOpen (fis ! p) \<noteq> 0 \<longrightarrow>
      (\<exists>h. fi_file (fis ! p) = At h \<and> fs_streams st h \<noteq> None)"
    and "\<forall>p < length fis. \<forall>q < length fis. fi_isOpen (fis ! p) \<noteq> 0 \<longrightarrow> fi_isOpen (fis ! q) \<noteq> 0 \<longrightarrow>
      fi_file (fis ! p) = fi_file (fis ! q) \<longrightarrow> p = q"
  shows "free_files fis st = Some (st\<lparr>fs_streams :=
    fs_streams st |` {h. \<forall>fi \<in> set fis. fi_isOpen fi \<noteq> 0 \<longrightarrow> fi_file fi \<noteq> At h}\<rparr>)"
  using assms
proof (induction fis arbitrary: st)
  case Nil
  then show ?case by simp
next
  case (Cons fi fis)
  have tl1: "\<forall>p < length fis. fi_isOpen (fis ! p) \<noteq> 0 \<longrightarrow>
      (\<exists>h. fi_file (fis ! p) = At h \<and> fs_streams st h \<noteq> None)"
    using Cons.prems(1) by fastforce
  have tl2: "\<forall>p < length fis. \<forall>q < length fis. fi_isOpen (fis ! p) \<noteq> 0 \<longrightarrow> fi_isOpen (fis ! q) \<noteq> 0 \<longrightarrow>
      fi_file (fis ! p) = fi_file (fis ! q) \<longrightarrow> p = q"
    using Cons.prems(2) by fastforce
  show ?case
  proof (cases "fi_isOpen fi = 0")
    case True
    with Cons.IH [OF tl1 tl2] show ?thesis by simp
  next
    case False
    with Cons.prems(1) obtain h where h: "fi_file fi = At h" "fs_streams st h \<noteq> None" by fastforce
    have ne: "fi_file (fis ! p) \<noteq> At h" if "p < length fis" "fi_isOpen (fis ! p) \<noteq> 0" for p
      using Cons.prems(2) that False h(1) by fastforce
    let ?st = "st\<lparr>fs_streams := (fs_streams st)(h := None)\<rparr>"
    have "\<forall>p < length fis. fi_isOpen (fis ! p) \<noteq> 0 \<longrightarrow>
        (\<exists>g. fi_file (fis ! p) = At g \<and> fs_streams ?st g \<noteq> None)"
      using tl1 ne by fastforce
    note IH = Cons.IH [OF this tl2]
    have "(fs_streams st)(h := None) |` {g. \<forall>fi \<in> set fis. fi_isOpen fi \<noteq> 0 \<longrightarrow> fi_file fi \<noteq> At g} =
        fs_streams st |` {g. \<forall>fi' \<in> set (fi # fis). fi_isOpen fi' \<noteq> 0 \<longrightarrow> fi_file fi' \<noteq> At g}"
      using False h(1) by (auto simp: restrict_map_def fun_eq_iff)
    note eq = this
    from h obtain s where s: "fs_streams st h = Some s" by blast
    have "free_files (fi # fis) st = free_files fis ?st"
      using False h(1) s by (simp add: c_fclose_def)
    also have "\<dots> = Some (st\<lparr>fs_streams := (fs_streams st)(h := None) |`
        {g. \<forall>fi \<in> set fis. fi_isOpen fi \<noteq> 0 \<longrightarrow> fi_file fi \<noteq> At g}\<rparr>)"
      unfolding IH by simp
    finally show ?thesis unfolding eq .
  qed
qed

lemma FreeFileList_eq:
  assumes "cache_inv disk paths st"
  shows "FreeFileList st = Some (st\<lparr>fs_streams := (\<lambda>_. None), fs_files := []\<rparr>)"
proof -
  let ?F = "fs_files st"
  have str: "streams_ok disk ?F (fs_streams st) (fs_next st)" using assms by (simp add: cache_inv_def)
  have 1: "\<forall>p < length ?F. fi_isOpen (?F ! p) \<noteq> 0 \<longrightarrow>
      (\<exists>h. fi_file (?F ! p) = At h \<and> fs_streams st h \<noteq> None)"
    using streams_okD(1,2) [OF str] by (fastforce simp: is_open_def holds_def)
  moreover have "\<forall>p < length ?F. \<forall>q < length ?F. fi_isOpen (?F ! p) \<noteq> 0 \<longrightarrow> fi_isOpen (?F ! q) \<noteq> 0 \<longrightarrow>
      fi_file (?F ! p) = fi_file (?F ! q) \<longrightarrow> p = q"
    using 1 streams_okD(4) [OF str] by (simp add: is_open_def holds_def) metis
  ultimately have free: "free_files ?F st = Some (st\<lparr>fs_streams :=
      fs_streams st |` {h. \<forall>fi \<in> set ?F. fi_isOpen fi \<noteq> 0 \<longrightarrow> fi_file fi \<noteq> At h}\<rparr>)"
    by (rule free_files_closes)
  have "fs_streams st |` {h. \<forall>fi \<in> set ?F. fi_isOpen fi \<noteq> 0 \<longrightarrow> fi_file fi \<noteq> At h} = (\<lambda>_. None)"
  proof (rule ext)
    fix h
    show "(fs_streams st |` {h. \<forall>fi \<in> set ?F. fi_isOpen fi \<noteq> 0 \<longrightarrow> fi_file fi \<noteq> At h}) h = None"
    proof (cases "fs_streams st h")
      case (Some s)
      then obtain p where "p < length ?F" "fi_isOpen (?F ! p) \<noteq> 0" "fi_file (?F ! p) = At h"
        using streams_okD(3) [OF str] by (auto simp: holds_def is_open_def)
      then show ?thesis using nth_mem by (fastforce simp: restrict_map_def)
    qed (simp add: restrict_map_def)
  qed
  with free show ?thesis by (simp add: FreeFileList_def)
qed

section \<open>Properties\<close>

text \<open>
  C4: In every state the program can reach by opening files, seeking and reading, the \<^verbatim>\<open>isOpen\<close>
  flags, the cache slots and the open streams agree, and at most five streams are open.
\<close>

theorem file_cache_invariant:
  assumes "file_reach disk paths st"
  shows "cache_inv disk paths st \<and> finite (dom (fs_streams st)) \<and>
    card (dom (fs_streams st)) \<le> MAX_OPEN_FILES"
  using file_reach_inv [OF assms] streams_bounded by blast

theorem file_cache_invariant_witness:
  "cache_inv (\<lambda>_. None) [''blk00000.dat''] (c_printf ''x'' (init_files [''blk00000.dat'']))"
proof -
  have "file_reach (\<lambda>_. None) [''blk00000.dat''] (c_printf ''x'' (init_files [''blk00000.dat'']))"
    by (rule file_reach.step [OF file_reach.init]) (rule file_step.print)
  from file_cache_invariant [OF this] show ?thesis by blast
qed

text \<open>
  C3: \<^verbatim>\<open>OpenFile\<close> implements a least-recently-used cache of five files: in every reachable state it
  returns (no undefined behaviour), with a stream on the file asked for or \<^verbatim>\<open>NULL\<close> exactly when the
  file cannot be opened; a cached file only gets the new time; for another file an entry with the
  smallest time is evicted when the cache is full, and the file is entered.
\<close>

theorem OpenFile_refines_lru:
  assumes "file_reach disk paths st" and "p < length paths"
  shows "\<exists>f st'. OpenFile disk now p st = Some (f, st') \<and> opened disk paths p f st' \<and>
    lru_access now p (disk (paths ! p) \<noteq> None) (lru_view (fs_openFiles st)) (lru_view (fs_openFiles st'))"
  using OpenFile_spec [OF file_reach_inv [OF assms(1)] assms(2)] by blast

theorem OpenFile_refines_lru_witness:
  "\<exists>f st'. OpenFile [''a'' \<mapsto> [1, 2]] 9 0 (init_files [''a'']) = Some (f, st') \<and>
     opened [''a'' \<mapsto> [1, 2]] [''a''] 0 f st' \<and>
     lru_access 9 0 True (lru_view (fs_openFiles (init_files [''a'']))) (lru_view (fs_openFiles st'))"
  using OpenFile_refines_lru [OF file_reach.init [of "[''a'' \<mapsto> [1, 2]]" "[''a'']"], of 0 9] by simp

text \<open>
  \<^verbatim>\<open>FreeFileList\<close> closes each open stream once and leaves none open, but it does not clear the
  cache: every file that was open is still in a slot, as a pointer into the freed array.
\<close>

theorem FreeFileList_closes:
  assumes "file_reach disk paths st"
  shows "\<exists>st'. FreeFileList st = Some st' \<and> dom (fs_streams st') = {} \<and> fs_files st' = [] \<and>
    (is_open (fs_files st) p \<longrightarrow> (\<exists>i. in_slot (fs_openFiles st') i p))"
  using FreeFileList_eq [OF file_reach_inv [OF assms]] file_reach_inv [OF assms]
  by (auto simp: cache_inv_def slots_ok_def)

theorem FreeFileList_closes_witness:
  "\<exists>st' i. FreeFileList (snd (the (OpenFile [''a'' \<mapsto> [1, 2]] 9 0 (init_files [''a''])))) = Some st' \<and>
     dom (fs_streams st') = {} \<and> in_slot (fs_openFiles st') i 0"
proof -
  let ?st = "init_files [''a'']" and ?d = "[''a'' \<mapsto> [1 :: u8, 2]]"
  obtain st' where st': "OpenFile ?d 9 0 ?st = Some (At 0, st')" "is_open (fs_files st') 0"
    by (simp add: OpenFile_def OpenFile_miss_def c_fopen_def init_files_def rd_def is_open_def
        MAX_OPEN_FILES_def numeral_eq_Suc)
  have "file_reach ?d [''a''] st'"
    by (rule file_reach.step [OF file_reach.init]) (rule file_step.open_file [OF st'(1)])
  from FreeFileList_closes [OF this, of 0] st' show ?thesis by auto
qed

end
