(* ===== verification/Blk_Dat.thy ===== *)
theory Blk_Dat
  imports Tx_Parser File_Cache
begin

text \<open>
  \<^verbatim>\<open>ReadBlockFromBlkDatFile\<close> of \<^verbatim>\<open>src/blkdat.c\<close>: one block from a \<^verbatim>\<open>blk*.dat\<close> file, through the
  cache of open files, the XOR key of the data directory and the parser of transactions.
\<close>

section \<open>The code\<close>

definition is_xor_active :: "bytes \<Rightarrow> bool" where
  "is_xor_active xorKey = list_ex (\<lambda>i. xorKey ! i \<noteq> 0) [0..<8]"

definition xor_key :: "bytes \<Rightarrow> u64 \<Rightarrow> bytes \<Rightarrow> bytes" where
  "xor_key xorKey pos bs =
     (if is_xor_active xorKey
      then map (\<lambda>i. bs ! i XOR xorKey ! (unat (pos + of_nat i) mod 8)) [0..<length bs]
      else bs)"

text \<open>
  The eight bytes of the prefix must all have been read; of the block buffer, the bytes that were
  read are defined, and reading another one is undefined. \<open>junk\<close> is the content of the local
  header before the decoder fills it. The allocation of the buffer succeeds (the code exits with 1
  otherwise), and the message on standard error after a short read with \<^verbatim>\<open>ferror\<close> set is left out.
\<close>

definition ReadBlockFromBlkDatFile ::
  "disk \<Rightarrow> bytes \<Rightarrow> bytes \<Rightarrow> BlockHeader \<Rightarrow> u32 \<Rightarrow> nat \<Rightarrow> u64 \<Rightarrow> file_state \<Rightarrow> (Block \<times> file_state) option" where
  "ReadBlockFromBlkDatFile disk xorKey stk junk now p offset st = do {
     (f, st) \<leftarrow> OpenFile_assign disk now p st;
     (ok, st) \<leftarrow> c_fseek f (offset - 8) st;
     let st = (if ok then st else c_printf ''Failed to seek to the offset'' st);
     (rawPrefix, st) \<leftarrow> c_fread disk f 8 st;
     let st = (if length rawPrefix = 8 then st else c_printf ''Failed to read block prefix'' st);
     rawPrefix \<leftarrow> rds rawPrefix 0 8;
     let rawPrefix = xor_key xorKey (offset - 8) rawPrefix;
     let magic = le_word (take 4 rawPrefix);
     let blockSize = (le_word (drop 4 rawPrefix) :: u32);
     let st = (if unat (offset - 8 + ucast blockSize) > MAX_BLOCKFILE_SIZE
               then c_printf ''Trying to read bytes after the end of the file'' st else st);
     (blockBuffer, st) \<leftarrow> c_fread disk f (unat blockSize) st;
     let st = (if length blockBuffer = unat blockSize then st else c_printf ''Cannot Read.'' st);
     let blockBuffer = xor_key xorKey offset blockBuffer;
     blockHeaderBuffer \<leftarrow> rds blockBuffer 0 BLOCKHEADER_SIZE;
     header \<leftarrow> DecodeBlockHeader blockHeaderBuffer junk;
     (txCount, bufferOffset) \<leftarrow> read_count blockBuffer BLOCKHEADER_SIZE;
     transactions \<leftarrow> ReadTxn stk (drop bufferOffset blockBuffer) txCount;
     hash \<leftarrow> DoubleSHA256 stk blockHeaderBuffer;
     Some (\<lparr>blk_magic = magic, blk_blockSize = blockSize, blk_txCount = txCount, blk_hash = hash,
            blk_height = None, blk_header = header, blk_transactions = At transactions\<rparr>, st)
   }"

section \<open>The obfuscated file\<close>

text \<open>Bitcoin Core stores each byte of a block file XORed with the key byte of its position.\<close>

fun obfuscate :: "bytes \<Rightarrow> nat \<Rightarrow> bytes \<Rightarrow> bytes" where
  "obfuscate key n [] = []"
| "obfuscate key n (b # bs) = (b XOR key ! (n mod 8)) # obfuscate key (n + 1) bs"

lemma length_obfuscate [simp]: "length (obfuscate key n bs) = length bs"
  by (induction bs arbitrary: n) auto

lemma obfuscate_append:
  "obfuscate key n (xs @ ys) = obfuscate key n xs @ obfuscate key (n + length xs) ys"
  by (induction xs arbitrary: n) auto

lemma nth_obfuscate: "i < length bs \<Longrightarrow> obfuscate key n bs ! i = bs ! i XOR key ! ((n + i) mod 8)"
  by (induction bs arbitrary: n i) (auto simp: nth_Cons split: nat.splits)

lemma unat_pos_mod_8: "unat (pos + of_nat i :: u64) mod 8 = (unat pos + i) mod 8"
proof -
  have "unat (pos + of_nat i :: u64) = (unat pos + i) mod 2 ^ 64"
    by (simp add: unat_word_ariths unat_of_nat mod_simps)
  also have "\<dots> mod 8 = (unat pos + i) mod 8" by (rule mod_mod_cancel) simp
  finally show ?thesis .
qed

lemma inactive_key: "\<not> is_xor_active key \<Longrightarrow> key ! (n mod 8) = 0"
  by (simp add: is_xor_active_def list_ex_iff)

lemma xor_key_obfuscate: "xor_key key pos bs = obfuscate key (unat pos) bs"
  by (rule nth_equalityI)
    (auto simp: xor_key_def nth_obfuscate unat_pos_mod_8 inactive_key)

lemma xor_key_inverse [simp]: "xor_key key pos (obfuscate key (unat pos) bs) = bs"
  by (rule nth_equalityI) (simp_all add: xor_key_obfuscate nth_obfuscate xor.assoc)

section \<open>A block read back\<close>

text \<open>The bytes of a block as the node writes them: magic, size, header, count, transactions.\<close>

definition block_body :: "bytes \<Rightarrow> BlockHeader \<Rightarrow> Transaction list \<Rightarrow> bytes" where
  "block_body v h txs = header_bytes v h @ count_bytes (of_nat (length txs)) @ concat (map ser_tx txs)"

definition block_bytes :: "u32 \<Rightarrow> bytes \<Rightarrow> BlockHeader \<Rightarrow> Transaction list \<Rightarrow> bytes" where
  "block_bytes magic v h txs =
     word_le 4 magic @ word_le 4 (of_nat (length (block_body v h txs)) :: u32) @ block_body v h txs"

definition block_ok :: "bytes \<Rightarrow> BlockHeader \<Rightarrow> Transaction list \<Rightarrow> bool" where
  "block_ok v h txs \<longleftrightarrow> length v = 4 \<and> header_ok h \<and> list_all ok_tx txs \<and> length txs < 2 ^ 16 \<and>
     length (block_body v h txs) < 2 ^ 32"

definition block_of :: "u32 \<Rightarrow> bytes \<Rightarrow> BlockHeader \<Rightarrow> Transaction list \<Rightarrow> Block" where
  "block_of magic v h txs =
     \<lparr>blk_magic = magic, blk_blockSize = of_nat (length (block_body v h txs)),
      blk_txCount = of_nat (length txs), blk_hash = hash256 (header_bytes v h), blk_height = None,
      blk_header = h\<lparr>bh_version := v ! 0\<rparr>, blk_transactions = At txs\<rparr>"

lemma parse_block_body:
  assumes ok: "block_ok v h txs" and stk: "length stk = 64"
  defines "buf \<equiv> block_body v h txs"
  shows "rds buf 0 BLOCKHEADER_SIZE = Some (header_bytes v h)"
    and "DecodeBlockHeader (header_bytes v h) junk = Some (h\<lparr>bh_version := v ! 0\<rparr>)"
    and "read_count buf BLOCKHEADER_SIZE =
      Some (of_nat (length txs), BLOCKHEADER_SIZE + length (count_bytes (of_nat (length txs))))"
    and "ReadTxn stk (drop (BLOCKHEADER_SIZE + length (count_bytes (of_nat (length txs)))) buf)
      (of_nat (length txs)) = Some txs"
    and "DoubleSHA256 stk (header_bytes v h) = Some (hash256 (header_bytes v h))"
proof -
  have v: "length v = 4" "header_ok h" "list_all ok_tx txs" "length txs < 2 ^ 16"
    using ok by (auto simp: block_ok_def)
  then have len: "length (header_bytes v h) = BLOCKHEADER_SIZE" by (simp add: BLOCKHEADER_SIZE_def)
  show "rds buf 0 BLOCKHEADER_SIZE = Some (header_bytes v h)"
    using len by (simp add: buf_def block_body_def mem_simps)
  show "DecodeBlockHeader (header_bytes v h) junk = Some (h\<lparr>bh_version := v ! 0\<rparr>)"
    using DecodeBlockHeader_bytes [OF v(1,2), of "[]" junk] by simp
  show "read_count buf BLOCKHEADER_SIZE =
      Some (of_nat (length txs), BLOCKHEADER_SIZE + length (count_bytes (of_nat (length txs))))"
    unfolding buf_def block_body_def len [symmetric] by (simp add: read_count_read read_count_bytes)
  have "unat (of_nat (length txs) :: u16) = length txs"
    using v(4) by (simp add: unat_of_nat)
  from ReadTxn_ser [OF stk v(3) this, of "[]"]
  show "ReadTxn stk (drop (BLOCKHEADER_SIZE + length (count_bytes (of_nat (length txs)))) buf)
      (of_nat (length txs)) = Some txs"
    unfolding buf_def block_body_def len [symmetric] by simp
  show "DoubleSHA256 stk (header_bytes v h) = Some (hash256 (header_bytes v h))"
    using DoubleSHA256_eq [OF stk] len by (simp add: BLOCKHEADER_SIZE_def)
qed

lemma ReadBlock_eq:
  assumes inv: "cache_inv disk paths st"
    and disk: "content_of disk paths p = Some (obfuscate key 0 (pre @ block_bytes magic v h txs @ rest))"
    and off: "unat offset = length pre + 8" "unat offset < 2 ^ 63"
    and ok: "block_ok v h txs" and stk: "length stk = 64"
  shows "\<exists>st'. ReadBlockFromBlkDatFile disk key stk junk now p offset st =
      Some (block_of magic v h txs, st') \<and> cache_inv disk paths st'"
proof -
  let ?body = "block_body v h txs"
  let ?size = "of_nat (length ?body) :: u32"
  let ?prefix = "word_le 4 magic @ word_le 4 ?size"
  have "8 \<le> offset" using off by (simp add: word_le_nat_alt)
  then have o8: "unat (offset - 8) = length pre" using off by (simp add: unat_sub)
  let ?a = "obfuscate key (unat (offset - 8)) ?prefix" and ?b = "obfuscate key (unat offset) ?body"
  have size: "unat ?size = length ?body" using ok by (simp add: block_ok_def unat_of_nat)
  have "content_of disk paths p = Some (obfuscate key 0 pre @ ?a @ ?b @
      obfuscate key (unat offset + length ?body) rest)"
    using disk unfolding block_bytes_def by (simp add: obfuscate_append off(1) o8 algebra_simps)
  note disk' = this
  have "length (obfuscate key 0 pre) = unat (offset - 8)" and "unat (offset - 8) < 2 ^ 63"
    using o8 off by simp_all
  from cache.read_twice [OF inv disk' this, of now] obtain f st1 st2 st3 st4 where
    rd: "OpenFile_assign disk now p st = Some (f, st1)" "c_fseek f (offset - 8) st1 = Some (True, st2)"
      "c_fread disk f 8 st2 = Some (?a, st3)" "c_fread disk f (length ?body) st3 = Some (?b, st4)"
      "cache_inv disk paths st4"
    by auto
  have pr: "c_fread disk f (length ?body) (c_printf msg st3) = Some (?b, c_printf msg st4)" for msg
    using rd(4) by (auto simp: c_fread_def c_printf_def Let_def split: bind_splits)
  have r3: "rds ?a 0 8 = Some ?a" by (simp add: rds_def)
  have "ReadBlockFromBlkDatFile disk key stk junk now p offset st = Some (block_of magic v h txs,
      if unat (offset - 8 + ucast ?size) > MAX_BLOCKFILE_SIZE
      then c_printf ''Trying to read bytes after the end of the file'' st4 else st4)"
    using rd r3 pr parse_block_body [OF ok stk] size
    by (simp add: ReadBlockFromBlkDatFile_def block_of_def Let_def byte_simps)
  with rd(5) show ?thesis by simp
qed

section \<open>Whatever the file holds\<close>

lemma OpenFile_assign_spec:
  assumes inv: "cache_inv disk paths st" and p: "OpenFile_assign disk now p st = Some (f, st')"
  shows "cache_inv disk paths st' \<and> p < length paths \<and> (f = Null \<longleftrightarrow> disk (paths ! p) = None)"
proof -
  obtain st1 where o: "OpenFile disk now p st = Some (f, st1)"
      "st' = st1\<lparr>fs_files := (fs_files st1)[p := (fs_files st1 ! p)\<lparr>fi_file := f\<rparr>]\<rparr>"
    using p by (auto simp: OpenFile_assign_def split: bind_splits)
  have pl: "p < length paths"
    using o(1) inv by (auto simp: OpenFile_def rd_def cache_inv_def split: bind_splits if_splits)
  from OpenFile_spec [OF inv pl, of now] o(1)
  have s: "cache_inv disk paths st1" "opened disk paths p f st1" by auto
  show ?thesis
  proof (cases "disk (paths ! p)")
    case (Some c)
    with inv pl have "content_of disk paths p = Some c" by (simp add: content_of_def)
    from cache.opens [OF inv this, of now] p s Some pl show ?thesis by (auto simp: opened_def)
  next
    case None
    let ?F = "fs_files st1"
    have pth: "map fi_filepath ?F = paths" using s(1) by (simp add: cache_inv_def)
    then have path: "p < length ?F" "fi_filepath (?F ! p) = paths ! p" using pl by auto
    have str: "streams_ok disk ?F (fs_streams st1) (fs_next st1)" using s(1) by (simp add: cache_inv_def)
    have no: "\<not> is_open ?F p" using streams_okD(1,2) [OF str] None path by metis
    have "is_open (?F[p := (?F ! p)\<lparr>fi_file := f\<rparr>]) = is_open ?F"
      using path(1) by (simp add: fun_eq_iff is_open_update) (simp add: is_open_def)
    with s(1) streams_forget [OF str no] path o(2) have "cache_inv disk paths st'"
      by (simp add: cache_inv_def)
    with s(2) None pl show ?thesis by (simp add: opened_def)
  qed
qed

lemma ReadBlock_facts:
  assumes inv: "cache_inv disk paths st"
    and rb: "ReadBlockFromBlkDatFile disk key stk junk now p offset st = Some (b, st')"
  shows "cache_inv disk paths st' \<and> p < length paths \<and> disk (paths ! p) \<noteq> None \<and>
    (\<exists>txs. blk_transactions b = At txs \<and> length txs = unat (blk_txCount b) \<and> (\<forall>t \<in> set txs. shape_tx t))"
proof -
  let ?c = "\<lambda>m b st. if b then st else c_printf m st"
  from rb obtain f st1 ok st2 raw st3 buf st4 txs bf where
    o: "OpenFile_assign disk now p st = Some (f, st1)" and k: "c_fseek f (offset - 8) st1 = Some (ok, st2)"
    and r3: "c_fread disk f 8 (?c ''Failed to seek to the offset'' ok st2) = Some (raw, st3)"
    and r4: "\<exists>b1 b2 m n. c_fread disk f n
        (if b1 then c_printf m (?c ''Failed to read block prefix'' b2 st3)
         else ?c ''Failed to read block prefix'' b2 st3) = Some (buf, st4)"
    and st': "\<exists>b3. st' = ?c ''Cannot Read.'' b3 st4"
    and tx: "blk_transactions b = At txs" "ReadTxn stk bf (blk_txCount b) = Some txs"
    unfolding ReadBlockFromBlkDatFile_def Let_def bind_eq_Some_conv
    by (clarsimp simp: bind_eq_Some_conv split del: if_split) blast
  note 1 = OpenFile_assign_spec [OF inv o]
  then have "cache_inv disk paths st2" using fseek_inv k by blast
  then have "cache_inv disk paths (?c ''Failed to seek to the offset'' ok st2)" by simp
  then have 3: "cache_inv disk paths st3" using fread_inv r3 by blast
  from r4 obtain b1 b2 m n where "c_fread disk f n
        (if b1 then c_printf m (?c ''Failed to read block prefix'' b2 st3)
         else ?c ''Failed to read block prefix'' b2 st3) = Some (buf, st4)" by blast
  from fread_inv [OF _ this, of paths] 3 have "cache_inv disk paths st4" by simp
  with st' have "cache_inv disk paths st'" by auto
  moreover have "f \<noteq> Null" using k by (auto simp: c_fseek_def split: bind_splits)
  ultimately show ?thesis using 1 tx ReadTxn_facts by blast
qed

section \<open>Properties\<close>

definition sample_disk :: disk where
  "sample_disk = [''blk00000.dat'' \<mapsto> obfuscate [1, 2, 3, 4, 5, 6, 7, 8] 0
     ([0xAA] @ block_bytes 0xd9b4bef9 [0, 0, 0, 0x20] sample_header [sample_tx] @ [0xBB])]"

lemma sample_block_ok: "block_ok [0, 0, 0, 0x20] sample_header [sample_tx]"
proof -
  have h: "header_ok sample_header" by (simp add: header_ok_def sample_header_def)
  have "length (count_bytes (1 :: u16)) = 1"
    by (simp add: count_bytes_def length_CompactSizeEncode)
  then show ?thesis
    using h sample_tx_ok by (simp add: block_ok_def block_body_def sample_tx_ser sample_tx_length)
qed

lemma sample_disk_content:
  "content_of sample_disk [''blk00000.dat''] 0 = Some (obfuscate [1, 2, 3, 4, 5, 6, 7, 8] 0
     ([0xAA] @ block_bytes 0xd9b4bef9 [0, 0, 0, 0x20] sample_header [sample_tx] @ [0xBB]))"
  by (simp add: content_of_def sample_disk_def)

text \<open>
  C2: A block is read back from an obfuscated block file: when the file holds, under any XOR key,
  a well-formed block whose header starts at \<open>offset\<close> (below \<open>2 ^ 63\<close>), the reader returns its
  magic, its size, its header, its transactions and the hash of its header, whatever surrounds
  the block, whatever is in the cache of open files, the stack and the local header; and the
  cache invariant holds again.
\<close>

theorem ReadBlock_roundtrip:
  assumes "cache_inv disk paths st"
    and "content_of disk paths p = Some (obfuscate key 0 (pre @ block_bytes magic v h txs @ rest))"
    and "unat offset = length pre + 8" and "unat offset < 2 ^ 63"
    and "block_ok v h txs" and "length stk = 64"
  shows "\<exists>st'. ReadBlockFromBlkDatFile disk key stk junk now p offset st =
      Some (block_of magic v h txs, st') \<and> cache_inv disk paths st'"
  by (rule ReadBlock_eq [OF assms])

theorem ReadBlock_roundtrip_witness:
  "\<exists>st'. ReadBlockFromBlkDatFile sample_disk [1, 2, 3, 4, 5, 6, 7, 8] (replicate 64 0) sample_header 7 0 9
      (init_files [''blk00000.dat'']) =
      Some (block_of 0xd9b4bef9 [0, 0, 0, 0x20] sample_header [sample_tx], st')"
  using ReadBlock_roundtrip [OF init_inv sample_disk_content, of 9 "replicate 64 0" sample_header 7] sample_block_ok
  by auto

text \<open>
  C5: Whatever bytes the files hold, a block the reader returns has as many transactions as its
  count, all well-formed, and the file cache is consistent afterwards; a file that cannot be
  opened never gives a block (its \<^verbatim>\<open>NULL\<close> stream is passed to \<^verbatim>\<open>fseek\<close>).
\<close>

theorem ReadBlock_shape:
  assumes "cache_inv disk paths st"
    and "ReadBlockFromBlkDatFile disk key stk junk now p offset st = Some (b, st')"
  shows "cache_inv disk paths st' \<and> p < length paths \<and> disk (paths ! p) \<noteq> None \<and>
    (\<exists>txs. blk_transactions b = At txs \<and> length txs = unat (blk_txCount b) \<and> list_all shape_tx txs)"
  using ReadBlock_facts [OF assms] by (simp add: list_all_iff)

theorem ReadBlock_shape_witness:
  "\<exists>b st' txs. ReadBlockFromBlkDatFile sample_disk [1, 2, 3, 4, 5, 6, 7, 8] (replicate 64 0) sample_header 7 0 9
      (init_files [''blk00000.dat'']) = Some (b, st') \<and> cache_inv sample_disk [''blk00000.dat''] st' \<and>
      blk_transactions b = At txs \<and> list_all shape_tx txs"
proof -
  have "\<exists>st'. ReadBlockFromBlkDatFile sample_disk [1, 2, 3, 4, 5, 6, 7, 8] (replicate 64 0) sample_header 7 0 9
      (init_files [''blk00000.dat'']) =
      Some (block_of 0xd9b4bef9 [0, 0, 0, 0x20] sample_header [sample_tx], st') \<and>
      cache_inv sample_disk [''blk00000.dat''] st'"
    by (rule ReadBlock_eq [OF init_inv sample_disk_content]) (simp_all add: sample_block_ok)
  then obtain st' where "ReadBlockFromBlkDatFile sample_disk [1, 2, 3, 4, 5, 6, 7, 8] (replicate 64 0)
      sample_header 7 0 9 (init_files [''blk00000.dat'']) =
      Some (block_of 0xd9b4bef9 [0, 0, 0, 0x20] sample_header [sample_tx], st')" by blast
  from ReadBlock_shape [OF init_inv this] this show ?thesis by blast
qed

end
