(* ===== verification/Ldb.thy ===== *)
theory Ldb
  imports Mlbtcc_Prelude
begin

text \<open>
  \<^verbatim>\<open>src/leveldb.c\<close>: the wrapper over the key-value store. The store itself is a parameter:
  \<open>open_db path\<close> is the message \<^verbatim>\<open>LDB_Open\<close> sets, or the entries an iterator visits from
  \<^verbatim>\<open>LDB_IterSeekToFirst\<close> until it is no longer valid, in that order. A run of the program ends in
  undefined behaviour, in \<^verbatim>\<open>exit\<close>, or in a result.
\<close>

datatype 'a run = Undef | Exit nat | Ret 'a

type_synonym entry = "bytes \<times> bytes"
type_synonym store = "string \<Rightarrow> string + entry list"

fun run_of :: "'a option \<Rightarrow> 'a run" where
  "run_of None = Undef"
| "run_of (Some x) = Ret x"

definition LDB_InitOpen :: "store \<Rightarrow> string \<Rightarrow> entry list run" where
  "LDB_InitOpen open_db path = (case open_db path of Inl errors \<Rightarrow> Exit 1 | Inr es \<Rightarrow> Ret es)"

text \<open>\<^verbatim>\<open>key[0]\<close> of an empty key lies outside the key.\<close>

fun LDB_CountEntries :: "entry list \<Rightarrow> u8 \<Rightarrow> nat option" where
  "LDB_CountEntries [] keyPrefix = Some 0"
| "LDB_CountEntries ((key, _) # es) keyPrefix = do {
     k \<leftarrow> rd key 0;
     n \<leftarrow> LDB_CountEntries es keyPrefix;
     Some (if k = keyPrefix then n + 1 else n)
   }"

definition count_prefixes :: "u8 \<Rightarrow> bytes \<Rightarrow> nat list \<Rightarrow> nat list" where
  "count_prefixes k keyPrefixes counts =
     map (\<lambda>i. if k = keyPrefixes ! i then counts ! i + 1 else counts ! i) [0..<length keyPrefixes]"

fun count_loop :: "entry list \<Rightarrow> bytes \<Rightarrow> nat list \<Rightarrow> nat list option" where
  "count_loop [] keyPrefixes counts = Some counts"
| "count_loop ((key, _) # es) keyPrefixes counts = do {
     k \<leftarrow> rd key 0;
     count_loop es keyPrefixes (count_prefixes k keyPrefixes counts)
   }"

definition LDB_CountEntriesForPrefixes :: "entry list \<Rightarrow> bytes \<Rightarrow> nat list option" where
  "LDB_CountEntriesForPrefixes es keyPrefixes =
     count_loop es keyPrefixes (replicate (length keyPrefixes) 0)"

section \<open>What is counted\<close>

definition with_prefix :: "u8 \<Rightarrow> entry list \<Rightarrow> entry list" where
  "with_prefix k es = [e \<leftarrow> es. take 1 (fst e) = [k]]"

lemma with_prefix_simps [simp]:
  "with_prefix k [] = []"
  "with_prefix k ((key, v) # es) =
     (if take 1 key = [k] then (key, v) # with_prefix k es else with_prefix k es)"
  by (auto simp: with_prefix_def)

lemma rd_0: "rd key 0 = (case key of [] \<Rightarrow> None | k # _ \<Rightarrow> Some k)"
  by (cases key) (auto simp: rd_def)

lemma count_loop_eq:
  assumes "length counts = length ps"
  shows "count_loop es ps counts =
    (if \<forall>e \<in> set es. fst e \<noteq> []
     then Some (map (\<lambda>i. counts ! i + length (with_prefix (ps ! i) es)) [0..<length ps]) else None)"
  using assms
proof (induction es arbitrary: counts)
  case Nil
  then show ?case using map_nth [of counts] by simp
next
  case (Cons e es)
  obtain key v where e: "e = (key, v)" by fastforce
  show ?case
  proof (cases key)
    case (Cons k ks)
    have "length (count_prefixes k ps counts) = length ps" by (simp add: count_prefixes_def)
    from Cons.IH [OF this] Cons e show ?thesis
      by (auto simp: rd_0 count_prefixes_def)
  qed (simp add: e rd_0)
qed

lemma LDB_CountEntriesForPrefixes_eq:
  "\<forall>e \<in> set es. fst e \<noteq> [] \<Longrightarrow>
     LDB_CountEntriesForPrefixes es ps = Some (map (\<lambda>p. length (with_prefix p es)) ps)"
  by (auto simp: LDB_CountEntriesForPrefixes_def count_loop_eq intro: nth_equalityI)

lemma LDB_CountEntries_eq:
  "LDB_CountEntries es p =
     (if \<forall>e \<in> set es. fst e \<noteq> [] then Some (length (with_prefix p es)) else None)"
  by (induction es p rule: LDB_CountEntries.induct) (auto simp: rd_0 split: list.splits)

end
