(* ===== verification/Indexing.thy ===== *)
theory Indexing
  imports Blk_Dat Ldb "HOL-Library.Multiset"
begin

text \<open>
  \<^verbatim>\<open>src/indexing.c\<close>: the records of the block index and of the coin database, the table of records
  by height, and the order of the block files.
\<close>

section \<open>Records\<close>

text \<open>One \<^verbatim>\<open>offset += DecodeVarint128(value + offset, ...)\<close>.\<close>

definition varint_at :: "bytes \<Rightarrow> nat \<Rightarrow> (u64 \<times> nat) option" where
  "varint_at val off = do { (n, v) \<leftarrow> DecodeVarint128 (drop off val); Some (v, off + n) }"

text \<open>\<^verbatim>\<open>valLen - BLOCKHEADER_SIZE\<close> is a \<^verbatim>\<open>size_t\<close> and wraps for a value shorter than a header.\<close>

definition GetBlockIndexRecord :: "BlockHeader \<Rightarrow> bytes \<Rightarrow> bytes \<Rightarrow> BlockIndexRecord option" where
  "GetBlockIndexRecord junk key val = do {
     blockHash \<leftarrow> rds key 1 SHA256_HASH_SIZE;
     blockHash \<leftarrow> ReverseString blockHash SHA256_HASH_SIZE;
     (version, off) \<leftarrow> varint_at val 0;
     (height, off) \<leftarrow> varint_at val off;
     (validationStatus, off) \<leftarrow> varint_at val off;
     (txCount, off) \<leftarrow> varint_at val off;
     (blockFile, off) \<leftarrow> varint_at val off;
     (blockOffset, off) \<leftarrow> varint_at val off;
     (undoFile, undoOffset) \<leftarrow>
       (if off < unat (of_nat (length val) - of_nat BLOCKHEADER_SIZE :: u64)
        then do {
          (undoFile, off) \<leftarrow> varint_at val off;
          (undoOffset, off) \<leftarrow> varint_at val off;
          Some (Some undoFile, Some undoOffset)
        }
        else Some (None, None));
     blockHeader \<leftarrow>
       (if length val \<ge> BLOCKHEADER_SIZE
        then map_option Some (DecodeBlockHeader (drop (length val - BLOCKHEADER_SIZE) val) junk)
        else Some None);
     Some \<lparr>bir_blockHash = blockHash, bir_blockHeader = blockHeader, bir_version = version,
           bir_height = height, bir_txCount = txCount, bir_validationStatus = ucast validationStatus,
           bir_blockFile = blockFile, bir_blockOffset = blockOffset,
           bir_undoFile = undoFile, bir_undoOffset = undoOffset\<rparr>
   }"

definition GetFileInformationRecord :: "bytes \<Rightarrow> bytes \<Rightarrow> FileInformationRecord option" where
  "GetFileInformationRecord key val = do {
     (blockCount, off) \<leftarrow> varint_at val 0;
     (dataFileSize, off) \<leftarrow> varint_at val off;
     (revFileSize, off) \<leftarrow> varint_at val off;
     (lowestHeight, off) \<leftarrow> varint_at val off;
     (highestHeight, off) \<leftarrow> varint_at val off;
     (lowestTimestamp, off) \<leftarrow> varint_at val off;
     (highestTimestamp, off) \<leftarrow> varint_at val off;
     Some \<lparr>fir_filenumber = None, fir_blockCount = blockCount, fir_dataFileSize = dataFileSize,
           fir_revFileSize = revFileSize, fir_lowestHeight = lowestHeight,
           fir_highestHeight = highestHeight, fir_lowestTimestamp = lowestTimestamp,
           fir_highestTimestamp = highestTimestamp\<rparr>
   }"

definition GetLastBlockFileNumberUsed :: "bytes \<Rightarrow> u32" where
  "GetLastBlockFileNumberUsed val = 0"

definition GetIsDatabaseReindexing :: "bytes \<Rightarrow> u8" where
  "GetIsDatabaseReindexing val = 0"

text \<open>\<^verbatim>\<open>(int32_t)(code >> 1)\<close> keeps the low 32 bits.\<close>

definition GetCoinRecord :: "bytes \<Rightarrow> bytes \<Rightarrow> CoinRecord option" where
  "GetCoinRecord key val = do {
     txid \<leftarrow> rds key 1 SHA256_HASH_SIZE;
     txid \<leftarrow> ReverseString txid SHA256_HASH_SIZE;
     (code, off) \<leftarrow> varint_at val 0;
     (nUnspent, off) \<leftarrow> varint_at val off;
     Some \<lparr>cr_txid = txid, cr_height = ucast (drop_bit 1 code), cr_coinbase = ucast (code AND 1),
           cr_dummy = 0\<rparr>
   }"

section \<open>The tables\<close>

text \<open>
  An array from \<^verbatim>\<open>malloc\<close> is a list of optional records: \<open>None\<close> is an element never stored to.
  A store outside it is undefined.
\<close>

record IndexRecords =
  ir_blockIndexRecord :: "BlockIndexRecord option list ptr"
  ir_blockIndexRecordCount :: nat
  ir_fileInformationRecord :: "FileInformationRecord option list ptr"
  ir_fileInformationRecordCount :: nat
  ir_coinRecord :: "CoinRecord option list ptr"
  ir_coinRecordCount :: nat

definition put :: "'a option list \<Rightarrow> nat \<Rightarrow> 'a \<Rightarrow> 'a option list option" where
  "put arr i x = (if i < length arr then Some (arr[i := Some x]) else None)"

definition in_chain :: "BlockIndexRecord \<Rightarrow> bool" where
  "in_chain r \<longleftrightarrow> (bir_validationStatus r AND ucast BLOCK_VALID_MASK) \<ge> ucast BLOCK_VALID_CHAIN"

fun index_loop :: "BlockHeader \<Rightarrow> entry list \<Rightarrow> BlockIndexRecord option list \<Rightarrow> nat \<Rightarrow> nat \<Rightarrow>
    (BlockIndexRecord option list \<times> nat \<times> nat) option" where
  "index_loop junk [] arr n m = Some (arr, n, m)"
| "index_loop junk ((key, val) # es) arr n m = do {
     k \<leftarrow> rd key 0;
     if k = 0x62 then do {
       r \<leftarrow> GetBlockIndexRecord junk key val;
       if in_chain r then do {
         arr \<leftarrow> put arr (unat (bir_height r)) r;
         index_loop junk es arr (n + 1) m
       }
       else index_loop junk es arr n m
     }
     else if k = 0x66 then do {
       _ \<leftarrow> GetFileInformationRecord key val;
       index_loop junk es arr n (m + 1)
     }
     else index_loop junk es arr n m
   }"

definition BuildBlockIndexRecords ::
  "BlockHeader \<Rightarrow> store \<Rightarrow> string \<Rightarrow> IndexRecords \<Rightarrow> IndexRecords run" where
  "BuildBlockIndexRecords junk open_db directory gEnv_indexRecords =
     (case LDB_InitOpen open_db directory of
        Undef \<Rightarrow> Undef | Exit c \<Rightarrow> Exit c
      | Ret es \<Rightarrow> run_of (do {
          let ir = gEnv_indexRecords\<lparr>ir_blockIndexRecordCount := 0, ir_fileInformationRecordCount := 0\<rparr>;
          counts \<leftarrow> LDB_CountEntriesForPrefixes es [0x62, 0x66];
          (arr, n, m) \<leftarrow> index_loop junk es (replicate (counts ! 0) None) 0 0;
          Some (ir\<lparr>ir_blockIndexRecord := At arr, ir_blockIndexRecordCount := n,
            ir_fileInformationRecord := At (replicate (counts ! 1) None),
            ir_fileInformationRecordCount := m\<rparr>)
        }))"

fun coin_loop :: "entry list \<Rightarrow> CoinRecord option list \<Rightarrow> nat \<Rightarrow> (CoinRecord option list \<times> nat) option" where
  "coin_loop [] arr n = Some (arr, n)"
| "coin_loop ((key, val) # es) arr n = do {
     k \<leftarrow> rd key 0;
     if k = 0x43 then do {
       r \<leftarrow> GetCoinRecord key val;
       arr \<leftarrow> put arr n r;
       coin_loop es arr (n + 1)
     }
     else coin_loop es arr n
   }"

text \<open>
  \<^verbatim>\<open>BuildCoinRecords\<close> fills a local copy of the index records: the first component is that copy,
  the second the global state after the call, which is unchanged.
\<close>

definition BuildCoinRecords :: "store \<Rightarrow> string \<Rightarrow> IndexRecords \<Rightarrow> (IndexRecords \<times> IndexRecords) run" where
  "BuildCoinRecords open_db directory gEnv_indexRecords =
     (case LDB_InitOpen open_db directory of
        Undef \<Rightarrow> Undef | Exit c \<Rightarrow> Exit c
      | Ret es \<Rightarrow> run_of (do {
          counts \<leftarrow> LDB_CountEntriesForPrefixes es [0x43, 0x42];
          (arr, n) \<leftarrow> coin_loop es (replicate (counts ! 0) None) 0;
          Some (gEnv_indexRecords\<lparr>ir_coinRecord := At arr, ir_coinRecordCount := n\<rparr>, gEnv_indexRecords)
        }))"

section \<open>The order of the block files\<close>

fun strstr :: "string \<Rightarrow> string \<Rightarrow> string option" where
  "strstr [] pat = (if pat = [] then Some [] else None)"
| "strstr (c # cs) pat = (if take (length pat) (c # cs) = pat then Some (c # cs) else strstr cs pat)"

definition is_digit :: "char \<Rightarrow> bool" where
  "is_digit c \<longleftrightarrow> 48 \<le> (of_char c :: nat) \<and> (of_char c :: nat) \<le> 57"

definition digits_value :: "string \<Rightarrow> int" where
  "digits_value s = foldl (\<lambda>n c. 10 * n + (of_char c - 48)) 0 (takeWhile is_digit s)"

text \<open>\<^verbatim>\<open>atoi\<close> is undefined for a value outside the range of \<^verbatim>\<open>int\<close>.\<close>

definition atoi :: "string \<Rightarrow> int option" where
  "atoi s =
     (let s = dropWhile c_isspace s;
          n = (case s of
                 [] \<Rightarrow> 0
               | c # cs \<Rightarrow> if c = CHR ''-'' then - digits_value cs
                          else if c = CHR ''+'' then digits_value cs else digits_value s)
      in if - (2 ^ 31) \<le> n \<and> n < 2 ^ 31 then Some n else None)"

definition ExtractBlockNumber :: "string \<Rightarrow> int option" where
  "ExtractBlockNumber filename =
     (case strstr filename ''blk'' of Some s \<Rightarrow> atoi (drop 3 s) | None \<Rightarrow> Some 0)"

definition CompareFileInfo :: "FileInfo \<Rightarrow> FileInfo \<Rightarrow> int option" where
  "CompareFileInfo a b = do {
     numA \<leftarrow> ExtractBlockNumber (fi_filepath a);
     numB \<leftarrow> ExtractBlockNumber (fi_filepath b);
     if - (2 ^ 31) \<le> numA - numB \<and> numA - numB < 2 ^ 31 then Some (numA - numB) else None
   }"

text \<open>
  \<^verbatim>\<open>qsort\<close> is a parameter: its order among equal elements is unspecified. It may compare any two
  elements, so one undefined comparison makes the call undefined.
\<close>

definition SortFiles ::
  "((FileInfo \<Rightarrow> FileInfo \<Rightarrow> int) \<Rightarrow> FileInfo list \<Rightarrow> FileInfo list) \<Rightarrow> FileInfo list \<Rightarrow> FileInfo list option" where
  "SortFiles qsort files =
     (if list_all (\<lambda>a. list_all (\<lambda>b. CompareFileInfo a b \<noteq> None) files) files
      then Some (qsort (\<lambda>a b. the (CompareFileInfo a b)) files) else None)"

section \<open>Records read back\<close>

lemma varint_at_core [mem_simps]:
  "varint_at (pre @ core_varint (unat v) @ rest) (length pre) =
     Some (v, length pre + length (core_varint (unat v)))"
  using DecodeVarint128_core [of "unat v" rest] by (simp add: varint_at_def)

lemma varint_at_step:
  "off = length pre \<Longrightarrow> varint_at (pre @ core_varint (unat v) @ rest) off =
     Some (v, length (pre @ core_varint (unat v)))"
  by (simp add: varint_at_core)

definition varints :: "u64 list \<Rightarrow> bytes" where
  "varints vs = concat (map (\<lambda>v. core_varint (unat v)) vs)"

lemma varints_simps [simp]:
  "varints [] = []" "varints (v # vs) = core_varint (unat v) @ varints vs"
  by (simp_all add: varints_def)

lemma varints_append [simp]: "varints (vs @ ws) = varints vs @ varints ws"
  by (simp add: varints_def)

lemma varint_at_nth:
  "varint_at (varints (us @ v # vs) @ rest) (length (varints us)) = Some (v, length (varints (us @ [v])))"
  using varint_at_step [of "length (varints us)" "varints us" v "varints vs @ rest"] by simp

text \<open>
  The value of a record as Bitcoin Core's \<^verbatim>\<open>CDiskBlockIndex\<close> writes it, which is what the code
  reads: version, height, status, transaction count, file and position, the undo position when there is
  one, and the raw header.
\<close>

definition index_value :: "BlockIndexRecord \<Rightarrow> u64 \<Rightarrow> bytes \<Rightarrow> BlockHeader \<Rightarrow> bytes" where
  "index_value r status v h = varints ([bir_version r, bir_height r, status, bir_txCount r,
     bir_blockFile r, bir_blockOffset r] @
     (case (bir_undoFile r, bir_undoOffset r) of (Some a, Some b) \<Rightarrow> [a, b] | _ \<Rightarrow> [])) @ header_bytes v h"

text \<open>The value as \<^verbatim>\<open>doc/leveldb.md\<close> lists it: the transaction count comes before the status.\<close>

definition documented_value :: "BlockIndexRecord \<Rightarrow> u64 \<Rightarrow> bytes \<Rightarrow> BlockHeader \<Rightarrow> bytes" where
  "documented_value r status v h = varints ([bir_version r, bir_height r, bir_txCount r, status,
     bir_blockFile r, bir_blockOffset r] @
     (case (bir_undoFile r, bir_undoOffset r) of (Some a, Some b) \<Rightarrow> [a, b] | _ \<Rightarrow> [])) @ header_bytes v h"

definition index_ok :: "BlockIndexRecord \<Rightarrow> u64 \<Rightarrow> bytes \<Rightarrow> BlockHeader \<Rightarrow> bool" where
  "index_ok r status v h \<longleftrightarrow> length (bir_blockHash r) = 32 \<and> length v = 4 \<and> header_ok h \<and>
     bir_blockHeader r = Some (h\<lparr>bh_version := v ! 0\<rparr>) \<and> bir_validationStatus r = ucast status \<and>
     (bir_undoFile r = None \<longleftrightarrow> bir_undoOffset r = None)"

lemma core_varint_ne [simp]: "core_varint n \<noteq> []"
  by (simp add: core_varint_def)

lemma length_core_varint_hi: "m < 128 ^ Suc k \<Longrightarrow> length (core_varint_hi m) \<le> Suc k"
proof (induction k arbitrary: m)
  case 0
  then show ?case by (simp add: core_varint_hi.simps [of m])
next
  case (Suc k)
  have "m div 128 < 128 ^ Suc k" using Suc.prems by (simp add: div_less_iff_less_mult mult.commute)
  then have "m div 128 - 1 < 128 ^ Suc k" by (rule less_imp_diff_less)
  from Suc.IH [OF this] show ?case by (simp add: core_varint_hi.simps [of m])
qed

lemma length_core_varint: "length (core_varint (unat (v :: u64))) \<le> 10"
proof -
  have "unat v < 2 ^ 64" using unsigned_less [of v, where 'a = nat] by simp
  also have "(2 :: nat) ^ 64 \<le> 128 * 128 ^ Suc 8" by simp
  finally have "unat v div 128 < 128 ^ Suc 8" by (simp add: div_less_iff_less_mult mult.commute)
  then have "unat v div 128 - 1 < 128 ^ Suc 8" by (rule less_imp_diff_less)
  from length_core_varint_hi [OF this] show ?thesis by (simp add: core_varint_def)
qed

lemma length_varints: "length (varints vs) \<le> 10 * length vs"
proof (induction vs)
  case (Cons v vs)
  with length_core_varint [of v] show ?case by simp
qed simp

lemma unat_size_minus:
  assumes "n < 2 ^ 64" and "k \<le> n"
  shows "unat (of_nat n - of_nat k :: u64) = n - k"
proof -
  have n: "unat (of_nat n :: u64) = n" and k: "unat (of_nat k :: u64) = k"
    using assms by (simp_all add: unat_of_nat)
  then have "(of_nat k :: u64) \<le> of_nat n" using assms(2) by (simp add: word_le_nat_alt)
  from unat_sub [OF this] n k show ?thesis by simp
qed

lemma varint_at_index:
  assumes "i < length vs"
  shows "varint_at (varints vs @ rest) (length (varints (take i vs))) =
    Some (vs ! i, length (varints (take (Suc i) vs)))"
proof -
  have "vs = take i vs @ vs ! i # drop (Suc i) vs" using assms by (rule id_take_nth_drop)
  with varint_at_nth [of "take i vs" "vs ! i" "drop (Suc i) vs" rest] assms show ?thesis
    by (simp add: take_Suc_conv_app_nth del: varints_simps varints_append)
qed

lemma GetBlockIndexRecord_read:
  assumes ok: "index_ok r status v h"
  shows "GetBlockIndexRecord junk (0x62 # rev (bir_blockHash r)) (index_value r status v h) = Some r"
proof -
  have l: "length v = 4" "header_ok h" "length (bir_blockHash r) = 32" using ok by (auto simp: index_ok_def)
  then have hb: "length (header_bytes v h) = 80" by simp
  have hash: "rds (0x62 # rev (bir_blockHash r)) 1 32 = Some (rev (bir_blockHash r))"
    "ReverseString (rev (bir_blockHash r)) 32 = Some (bir_blockHash r)"
    using l(3) by (simp_all add: rds_def ReverseString_eq)
  define six where "six = [bir_version r, bir_height r, status, bir_txCount r, bir_blockFile r, bir_blockOffset r]"
  define vs where "vs = six @ (case (bir_undoFile r, bir_undoOffset r) of (Some a, Some b) \<Rightarrow> [a, b] | _ \<Rightarrow> [])"
  let ?val = "varints vs @ header_bytes v h"
  let ?off = "\<lambda>i. length (varints (take i vs))"
  have val: "index_value r status v h = ?val" by (simp add: index_value_def vs_def six_def)
  have "length vs \<le> 8" by (simp add: vs_def six_def split: option.splits)
  with length_varints [of vs] have small: "length (varints vs) \<le> 80" by linarith
  have room: "unat (of_nat (length ?val) - of_nat 80 :: u64) = length (varints vs)"
    using unat_size_minus [of "length ?val" 80] small hb by simp
  have hd: "DecodeBlockHeader (drop (length ?val - 80) ?val) junk = Some (h\<lparr>bh_version := v ! 0\<rparr>)"
    using DecodeBlockHeader_bytes [OF l(1,2), of "[]" junk] hb by simp
  have at: "i < length vs \<Longrightarrow> varint_at ?val (?off i) = Some (vs ! i, ?off (Suc i))" for i
    by (rule varint_at_index)
  have six: "varint_at ?val 0 = Some (bir_version r, ?off 1)" "varint_at ?val (?off 1) = Some (bir_height r, ?off 2)"
    "varint_at ?val (?off 2) = Some (status, ?off 3)" "varint_at ?val (?off 3) = Some (bir_txCount r, ?off 4)"
    "varint_at ?val (?off 4) = Some (bir_blockFile r, ?off 5)" "varint_at ?val (?off 5) = Some (bir_blockOffset r, ?off 6)"
    using at [of 0] at [of 1] at [of 2] at [of 3] at [of 4] at [of 5]
    by (simp_all add: vs_def six_def nth_append numeral_eq_Suc del: varints_append take_Suc_Cons take_append)
  show ?thesis
  proof (cases "bir_undoFile r")
    case None
    with ok have u: "bir_undoOffset r = None" by (simp add: index_ok_def)
    then have "take 6 vs = vs" using None by (simp add: vs_def six_def)
    with six hash hd room hb ok None u val show ?thesis
      by (simp add: GetBlockIndexRecord_def struct_consts index_ok_def)
  next
    case (Some a)
    with ok obtain b where u: "bir_undoOffset r = Some b" by (auto simp: index_ok_def)
    have vs: "vs = six @ [a, b]" using Some u by (simp add: vs_def)
    have "?off 6 < length (varints vs)" by (simp add: vs six_def)
    moreover have "varint_at ?val (?off 6) = Some (a, ?off 7)" "varint_at ?val (?off 7) = Some (b, ?off 8)"
      using at [of 6] at [of 7] by (simp_all add: vs six_def)
    ultimately show ?thesis using six hash hd room hb ok Some u val
      by (simp add: GetBlockIndexRecord_def struct_consts index_ok_def)
  qed
qed

section \<open>The table by height\<close>

text \<open>
  The records of the chain, in the order of the iterator, and a store whose entries the decoders
  can read.
\<close>

definition chain_record :: "BlockHeader \<Rightarrow> entry \<Rightarrow> BlockIndexRecord option" where
  "chain_record junk e =
     (if take 1 (fst e) = [0x62]
      then (case GetBlockIndexRecord junk (fst e) (snd e) of
              Some r \<Rightarrow> if in_chain r then Some r else None | None \<Rightarrow> None)
      else None)"

definition chain_records :: "BlockHeader \<Rightarrow> entry list \<Rightarrow> BlockIndexRecord list" where
  "chain_records junk es = List.map_filter (chain_record junk) es"

definition store_ok :: "BlockHeader \<Rightarrow> entry list \<Rightarrow> bool" where
  "store_ok junk es = list_all (\<lambda>(key, val). key \<noteq> [] \<and>
     (take 1 key = [0x62] \<longrightarrow> GetBlockIndexRecord junk key val \<noteq> None) \<and>
     (take 1 key = [0x66] \<longrightarrow> GetFileInformationRecord key val \<noteq> None)) es"

definition heights :: "BlockIndexRecord list \<Rightarrow> nat list" where
  "heights rs = map (\<lambda>r. unat (bir_height r)) rs"

definition table :: "nat \<Rightarrow> BlockIndexRecord list \<Rightarrow> BlockIndexRecord option list" where
  "table n rs = map (\<lambda>h. find (\<lambda>r. unat (bir_height r) = h) (rev rs)) [0..<n]"

lemma chain_records_simps [simp]:
  "chain_records junk [] = []"
  "chain_records junk (e # es) =
     (case chain_record junk e of None \<Rightarrow> chain_records junk es | Some r \<Rightarrow> r # chain_records junk es)"
  by (simp_all add: chain_records_def map_filter_simps split: option.splits)

lemma table_store:
  "table n (rs @ [r]) = (table n rs)[unat (bir_height r) := Some r]"
  by (rule nth_equalityI) (auto simp: table_def nth_list_update)

lemma index_loop_eq:
  assumes "store_ok junk es"
  shows "index_loop junk es (table n rs) k m =
    (if \<forall>h \<in> set (heights (chain_records junk es)). h < n
     then Some (table n (rs @ chain_records junk es), k + length (chain_records junk es),
       m + length (with_prefix 0x66 es))
     else None)"
  using assms
proof (induction es arbitrary: rs k m)
  case Nil
  then show ?case by (simp add: heights_def)
next
  case (Cons e es)
  obtain key val where e: "e = (key, val)" by fastforce
  with Cons.prems obtain c cs where key: "key = c # cs" by (cases key) (auto simp: store_ok_def)
  have ok: "store_ok junk es" using Cons.prems by (simp add: store_ok_def)
  note IH = Cons.IH [OF ok]
  show ?case
  proof (cases "c = 0x62")
    case True
    with Cons.prems e key obtain r where r: "GetBlockIndexRecord junk key val = Some r"
      by (auto simp: store_ok_def)
    show ?thesis
    proof (cases "in_chain r")
      case chain: True
      then have "chain_record junk e = Some r" using True e key r by (simp add: chain_record_def)
      moreover have "put (table n rs) (unat (bir_height r)) r =
          (if unat (bir_height r) < n then Some (table n (rs @ [r])) else None)"
        by (simp add: put_def table_store) (simp add: table_def)
      ultimately show ?thesis
        using True chain e key r IH [of "rs @ [r]" "k + 1" m]
        by (simp add: rd_0 heights_def)
    next
      case chain: False
      then have "chain_record junk e = None" using True e key r by (simp add: chain_record_def)
      with True chain e key r IH [of rs k m] show ?thesis by (simp add: rd_0)
    qed
  next
    case False
    then have "chain_record junk e = None" using e key by (simp add: chain_record_def)
    with False Cons.prems e key IH show ?thesis by (auto simp: rd_0 store_ok_def)
  qed
qed

lemma BuildBlockIndexRecords_eq:
  assumes "open_db dir = Inr es" and "store_ok junk es"
  defines "rs \<equiv> chain_records junk es" and "n \<equiv> length (with_prefix 0x62 es)"
  shows "BuildBlockIndexRecords junk open_db dir ir =
    (if \<forall>h \<in> set (heights rs). h < n
     then Ret (ir\<lparr>ir_blockIndexRecord := At (table n rs), ir_blockIndexRecordCount := length rs,
       ir_fileInformationRecord := At (replicate (length (with_prefix 0x66 es)) None),
       ir_fileInformationRecordCount := length (with_prefix 0x66 es)\<rparr>)
     else Undef)"
proof -
  have "\<forall>e \<in> set es. fst e \<noteq> []" using assms(2) by (auto simp: store_ok_def list_all_iff)
  then have "LDB_CountEntriesForPrefixes es [0x62, 0x66] = Some [n, length (with_prefix 0x66 es)]"
    by (simp add: LDB_CountEntriesForPrefixes_eq n_def)
  moreover have "replicate n None = table n []" by (simp add: table_def map_replicate_const)
  ultimately show ?thesis
    using index_loop_eq [OF assms(2), of n "[]" 0 0]
    by (simp add: BuildBlockIndexRecords_def LDB_InitOpen_def assms(1) rs_def)
qed

lemma length_chain_records: "store_ok junk es \<Longrightarrow> length (chain_records junk es) \<le> length (with_prefix 0x62 es)"
  by (induction es) (auto simp: chain_record_def store_ok_def split: option.splits)

lemma find_rev_None: "find P (rev xs) = None \<longleftrightarrow> (\<forall>x \<in> set xs. \<not> P x)"
  by (auto simp: find_None_iff)

lemma table_entry: "h < n \<Longrightarrow> table n rs ! h = find (\<lambda>r. unat (bir_height r) = h) (rev rs)"
  by (simp add: table_def)

lemma table_entry_height: "h < n \<Longrightarrow> table n rs ! h = Some r \<Longrightarrow> unat (bir_height r) = h \<and> r \<in> set rs"
  by (auto simp: table_entry find_Some_iff rev_nth)

lemma table_complete_iff:
  assumes "length rs \<le> n"
  shows "(\<forall>h < length rs. table n rs ! h \<noteq> None) \<longleftrightarrow> set (heights rs) = {..<length rs}"
proof
  assume full: "\<forall>h < length rs. table n rs ! h \<noteq> None"
  have "{..<length rs} \<subseteq> set (heights rs)"
  proof
    fix h assume "h \<in> {..<length rs}"
    then obtain r where "table n rs ! h = Some r" and "h < n" using full assms by fastforce
    from table_entry_height [OF this(2,1)] show "h \<in> set (heights rs)" by (auto simp: heights_def)
  qed
  moreover have "card (set (heights rs)) \<le> length rs" using card_length [of "heights rs"] by (simp add: heights_def)
  ultimately show "set (heights rs) = {..<length rs}"
    by (metis List.finite_set card_lessThan card_seteq)
next
  assume eq: "set (heights rs) = {..<length rs}"
  show "\<forall>h < length rs. table n rs ! h \<noteq> None"
  proof (intro allI impI)
    fix h assume h: "h < length rs"
    then have "h \<in> set (heights rs)" using eq by simp
    then have "find (\<lambda>r. unat (bir_height r) = h) (rev rs) \<noteq> None"
      unfolding find_rev_None by (auto simp: heights_def)
    with h assms show "table n rs ! h \<noteq> None" by (simp add: table_entry)
  qed
qed

section \<open>The coin records\<close>

definition coin_records :: "entry list \<Rightarrow> CoinRecord option list" where
  "coin_records es = map (\<lambda>(key, val). GetCoinRecord key val) (with_prefix 0x43 es)"

lemma coin_loop_eq:
  assumes "list_all (\<lambda>e. fst e \<noteq> []) es" and "None \<notin> set (coin_records es)"
    and "length (coin_records es) \<le> k"
  shows "coin_loop es (pre @ replicate k None) (length pre) =
    Some (pre @ coin_records es @ replicate (k - length (coin_records es)) None,
      length pre + length (coin_records es))"
  using assms
proof (induction es arbitrary: pre k)
  case Nil
  then show ?case by (simp add: coin_records_def)
next
  case (Cons e es)
  obtain key val where e: "e = (key, val)" by fastforce
  with Cons.prems obtain c cs where key: "key = c # cs" by (cases key) auto
  have ok: "list_all (\<lambda>e. fst e \<noteq> []) es" using Cons.prems by simp
  show ?case
  proof (cases "c = 0x43")
    case True
    then have rs: "coin_records (e # es) = GetCoinRecord key val # coin_records es"
      using e key by (simp add: coin_records_def)
    with Cons.prems(2) obtain r where r: "GetCoinRecord key val = Some r" by fastforce
    from rs Cons.prems(3) obtain k' where k: "k = Suc k'" by (cases k) auto
    have "put (pre @ replicate k None) (length pre) r = Some ((pre @ [Some r]) @ replicate k' None)"
      by (simp add: put_def k)
    with Cons.IH [OF ok, of k' "pre @ [Some r]"] Cons.prems rs r True e key k show ?thesis
      by (simp add: rd_0)
  next
    case False
    then have "coin_records (e # es) = coin_records es" using e key by (simp add: coin_records_def)
    with Cons.IH [OF ok, of k pre] Cons.prems False e key show ?thesis by (simp add: rd_0)
  qed
qed

lemma BuildCoinRecords_eq:
  assumes "open_db dir = Inr es" and "list_all (\<lambda>e. fst e \<noteq> []) es" and "None \<notin> set (coin_records es)"
  shows "BuildCoinRecords open_db dir ir =
    Ret (ir\<lparr>ir_coinRecord := At (coin_records es), ir_coinRecordCount := length (coin_records es)\<rparr>, ir)"
proof -
  have "LDB_CountEntriesForPrefixes es [0x43, 0x42] =
      Some [length (coin_records es), length (with_prefix 0x42 es)]"
    using assms(2) by (simp add: LDB_CountEntriesForPrefixes_eq list_all_iff coin_records_def)
  with coin_loop_eq [OF assms(2,3), of "length (coin_records es)" "[]"] show ?thesis
    by (simp add: BuildCoinRecords_def LDB_InitOpen_def assms(1))
qed

section \<open>The order of the files\<close>

definition consistent :: "('a \<Rightarrow> 'a \<Rightarrow> int) \<Rightarrow> 'a list \<Rightarrow> bool" where
  "consistent cmp xs \<longleftrightarrow> (\<forall>a \<in> set xs. \<forall>b \<in> set xs. (cmp a b > 0 \<longleftrightarrow> cmp b a < 0) \<and>
     (\<forall>c \<in> set xs. cmp a b \<le> 0 \<longrightarrow> cmp b c \<le> 0 \<longrightarrow> cmp a c \<le> 0))"

definition qsort_contract :: "(('a \<Rightarrow> 'a \<Rightarrow> int) \<Rightarrow> 'a list \<Rightarrow> 'a list) \<Rightarrow> bool" where
  "qsort_contract qsort \<longleftrightarrow> (\<forall>cmp xs. consistent cmp xs \<longrightarrow>
     mset (qsort cmp xs) = mset xs \<and> sorted_wrt (\<lambda>a b. cmp a b \<le> 0) (qsort cmp xs))"

definition file_number :: "FileInfo \<Rightarrow> int" where
  "file_number f = (case ExtractBlockNumber (fi_filepath f) of Some n \<Rightarrow> n | None \<Rightarrow> 0)"

definition numbered :: "FileInfo list \<Rightarrow> bool" where
  "numbered files = list_all (\<lambda>f. case ExtractBlockNumber (fi_filepath f) of
     Some n \<Rightarrow> 0 \<le> n | None \<Rightarrow> False) files"

lemma atoi_range: "atoi s = Some n \<Longrightarrow> - (2 ^ 31) \<le> n \<and> n < 2 ^ 31"
  unfolding atoi_def Let_def by (simp only: option.inject split: if_splits) simp_all

lemma ExtractBlockNumber_range: "ExtractBlockNumber s = Some n \<Longrightarrow> n < 2 ^ 31"
  using atoi_range by (auto simp: ExtractBlockNumber_def split: option.splits)

lemma numberedD:
  "numbered files \<Longrightarrow> f \<in> set files \<Longrightarrow> \<exists>n. ExtractBlockNumber (fi_filepath f) = Some n \<and> 0 \<le> n"
  by (cases "ExtractBlockNumber (fi_filepath f)") (auto simp: numbered_def list_all_iff)

lemma CompareFileInfo_eq:
  assumes "numbered files" and "a \<in> set files" and "b \<in> set files"
  shows "CompareFileInfo a b = Some (file_number a - file_number b)"
proof -
  obtain m n where "ExtractBlockNumber (fi_filepath a) = Some m" "0 \<le> m"
    "ExtractBlockNumber (fi_filepath b) = Some n" "0 \<le> n"
    using numberedD [OF assms(1,2)] numberedD [OF assms(1,3)] by blast
  moreover from this have "m < 2 ^ 31" "n < 2 ^ 31" using ExtractBlockNumber_range by blast+
  ultimately show ?thesis by (simp add: CompareFileInfo_def file_number_def)
qed

lemma SortFiles_sorts:
  assumes q: "qsort_contract qsort" and n: "numbered files"
  shows "\<exists>fs. SortFiles qsort files = Some fs \<and> mset fs = mset files \<and> sorted (map file_number fs)"
proof -
  let ?cmp = "\<lambda>a b. the (CompareFileInfo a b)"
  have cmp: "a \<in> set files \<Longrightarrow> b \<in> set files \<Longrightarrow> ?cmp a b = file_number a - file_number b" for a b
    using CompareFileInfo_eq [OF n] by simp
  then have "consistent ?cmp files" by (simp add: consistent_def)
  with q have fs: "mset (qsort ?cmp files) = mset files" "sorted_wrt (\<lambda>a b. ?cmp a b \<le> 0) (qsort ?cmp files)"
    by (auto simp: qsort_contract_def)
  then have "set (qsort ?cmp files) = set files" by (metis mset_eq_setD)
  with fs(2) cmp have "sorted_wrt (\<lambda>a b. file_number a \<le> file_number b) (qsort ?cmp files)"
    by (auto elim!: sorted_wrt_mono_rel [rotated])
  moreover have "SortFiles qsort files = Some (qsort ?cmp files)"
    using CompareFileInfo_eq [OF n] by (simp add: SortFiles_def list_all_iff)
  ultimately show ?thesis using fs(1) by (simp add: sorted_map)
qed

lemma sorted_index_iff:
  assumes "mset fs = mset files" and "sorted (map file_number fs)"
  shows "(\<forall>i < length fs. file_number (fs ! i) = int i) \<longleftrightarrow>
    mset (map file_number files) = mset (map int [0..<length files])"
proof -
  have len: "length fs = length files" using assms(1) by (metis mset_eq_length)
  have "(\<forall>i < length fs. file_number (fs ! i) = int i) \<longleftrightarrow> map file_number fs = map int [0..<length files]"
    using len list_eq_iff_nth_eq [of "map file_number fs" "map int [0..<length files]"] by simp
  also have "\<dots> \<longleftrightarrow> mset (map file_number fs) = mset (map int [0..<length files])"
  proof
    assume eq: "mset (map file_number fs) = mset (map int [0..<length files])"
    have "sorted (map int [0..<length files])" by (simp add: sorted_wrt_map sorted_wrt_upt)
    with eq assms(2) show "map file_number fs = map int [0..<length files]"
      by (metis properties_for_sort)
  qed (rule arg_cong)
  finally show ?thesis using assms(1) by (metis mset_map)
qed

section \<open>Block file names\<close>

definition digit :: "nat \<Rightarrow> char" where
  "digit d = char_of (48 + d mod 10)"

definition blk_name :: "nat \<Rightarrow> string" where
  "blk_name n = ''blk'' @ [digit (n div 10000), digit (n div 1000), digit (n div 100), digit (n div 10),
     digit n] @ ''.dat''"

lemma digit_facts [simp]:
  "is_digit (digit d)" "(of_char (digit d) :: int) = 48 + int (d mod 10)" "\<not> c_isspace (digit d)"
  "digit d \<noteq> CHR ''-''" "digit d \<noteq> CHR ''+''"
proof -
  have m: "(48 + d mod 10) mod 256 = 48 + d mod 10"
    using mod_less_divisor [of 10 d] by (intro mod_less) linarith
  have o: "(of_char (digit d) :: nat) = 48 + d mod 10"
    by (simp add: digit_def of_char_of m)
  then have lt: "(of_char (digit d) :: nat) \<le> 57" "48 \<le> (of_char (digit d) :: nat)"
    using mod_less_divisor [of 10 d] by linarith+
  then show "is_digit (digit d)" by (simp add: is_digit_def)
  have "(of_char (digit d) :: int) = int (of_char (digit d))" by (simp only: of_nat_of_char)
  also have "\<dots> = 48 + int (d mod 10)" unfolding o by simp
  finally show "(of_char (digit d) :: int) = 48 + int (d mod 10)" .
  show "\<not> c_isspace (digit d)" "digit d \<noteq> CHR ''-''" "digit d \<noteq> CHR ''+''"
    using lt by (auto simp: c_isspace_def)
qed

lemma five_digits:
  fixes n :: nat
  assumes "n < 100000"
  shows "10 * (10 * (10 * (10 * (n div 10000 mod 10) + n div 1000 mod 10) + n div 100 mod 10) + n div 10 mod 10)
     + n mod 10 = n"
proof -
  have d: "n div 10000 = n div 1000 div 10" "n div 1000 = n div 100 div 10" "n div 100 = n div 10 div 10"
    by (simp_all add: div_mult2_eq [symmetric])
  have "n div 10000 < 10" using assms by (simp add: div_less_iff_less_mult)
  then have "n div 10000 mod 10 = n div 10000" by simp
  moreover have "10 * (n div 10000) + n div 1000 mod 10 = n div 1000"
    "10 * (n div 1000) + n div 100 mod 10 = n div 100" "10 * (n div 100) + n div 10 mod 10 = n div 10"
    "10 * (n div 10) + n mod 10 = n"
    unfolding d(1) by (subst d(2), simp) (use d in simp)+
  ultimately show ?thesis by simp
qed

lemma atoi_five:
  assumes "n < 100000"
  shows "atoi ([digit (n div 10000), digit (n div 1000), digit (n div 100), digit (n div 10), digit n] @ ''.dat'')
    = Some (int n)"
proof -
  have "digits_value ([digit (n div 10000), digit (n div 1000), digit (n div 100), digit (n div 10), digit n] @ ''.dat'')
    = int (10 * (10 * (10 * (10 * (n div 10000 mod 10) + n div 1000 mod 10) + n div 100 mod 10) + n div 10 mod 10)
     + n mod 10)"
    by (simp add: digits_value_def is_digit_def [of "CHR ''.''"])
  also have "\<dots> = int n" by (simp only: five_digits [OF assms])
  finally show ?thesis using assms by (simp add: atoi_def)
qed

lemma strstr_dir:
  assumes "strstr (dir @ ''/'') ''blk'' = None"
  shows "strstr (dir @ ''/blk'' @ rest) ''blk'' = Some (''blk'' @ rest)"
  using assms
proof (induction dir)
  case Nil
  then show ?case by simp
next
  case (Cons c cs)
  then have "strstr (cs @ ''/'') ''blk'' = None" by (auto split: if_splits)
  note IH = Cons.IH [OF this]
  have "take 3 (c # cs @ ''/blk'' @ rest) \<noteq> ''blk''"
  proof (cases "length cs \<ge> 2")
    case True
    then have "take 3 (c # cs @ ''/blk'' @ rest) = take 3 (c # cs @ ''/'')" by simp
    with Cons.prems show ?thesis by (auto simp: numeral_2_eq_2 numeral_3_eq_3 split: if_splits)
  next
    case False
    then consider "cs = []" | d where "cs = [d]" by (cases cs; cases "tl cs") auto
    then show ?thesis by cases auto
  qed
  with IH show ?case by (simp add: numeral_2_eq_2 numeral_3_eq_3)
qed

lemma ExtractBlockNumber_blk:
  "n < 100000 \<Longrightarrow> strstr (dir @ ''/'') ''blk'' = None \<Longrightarrow>
     ExtractBlockNumber (dir @ ''/'' @ blk_name n) = Some (int n)"
  using strstr_dir [of dir] atoi_five [of n] by (simp add: ExtractBlockNumber_def blk_name_def)

section \<open>Properties\<close>

text \<open>
  C14: A block index record written with the status before the transaction count, as Bitcoin Core
  writes it, is read back with every field; of the header version only the low byte survives. Written in
  the order of \<^verbatim>\<open>doc/leveldb.md\<close>, the same record is read with these two fields exchanged (and
  the count cut to the width of the status): the document is not the format of the code.
\<close>

theorem GetBlockIndexRecord_roundtrip:
  assumes "index_ok r status v h"
  shows "GetBlockIndexRecord junk (0x62 # rev (bir_blockHash r)) (index_value r status v h) = Some r \<and>
     GetBlockIndexRecord junk (0x62 # rev (bir_blockHash r)) (documented_value r status v h) =
       Some (r\<lparr>bir_txCount := status, bir_validationStatus := ucast (bir_txCount r)\<rparr>)"
proof -
  let ?r = "r\<lparr>bir_txCount := status, bir_validationStatus := ucast (bir_txCount r)\<rparr>"
  have "index_ok ?r (bir_txCount r) v h" using assms by (simp add: index_ok_def)
  from GetBlockIndexRecord_read [OF this, of junk] GetBlockIndexRecord_read [OF assms, of junk]
  show ?thesis by (simp add: documented_value_def index_value_def)
qed

definition sample_record :: BlockIndexRecord where
  "sample_record = \<lparr>bir_blockHash = replicate 32 7, bir_blockHeader = Some sample_header,
     bir_version = 259900, bir_height = 0, bir_txCount = 2, bir_validationStatus = 0x9D,
     bir_blockFile = 0, bir_blockOffset = 301, bir_undoFile = Some 0, bir_undoOffset = Some 8\<rparr>"

lemma sample_record_ok: "index_ok sample_record 0x9D [0, 0, 0, 0x20] sample_header"
  by (simp add: index_ok_def sample_record_def header_ok_def sample_header_def)

theorem GetBlockIndexRecord_roundtrip_witness:
  "GetBlockIndexRecord sample_header (0x62 # replicate 32 7)
     (index_value sample_record 0x9D [0, 0, 0, 0x20] sample_header) = Some sample_record \<and>
   GetBlockIndexRecord sample_header (0x62 # replicate 32 7)
     (documented_value sample_record 0x9D [0, 0, 0, 0x20] sample_header) =
       Some (sample_record\<lparr>bir_txCount := 0x9D, bir_validationStatus := 2\<rparr>)"
  using GetBlockIndexRecord_roundtrip [OF sample_record_ok, of sample_header]
  by (simp add: sample_record_def)

text \<open>
  C6: Building the index: the count is the number of records validated to the chain level, and the
  table holds at each height the last such record of the iteration; a validated height that is not
  below the number of all block records is stored outside the table (undefined). The global counts
  of file records are kept, the file records themselves are not.
\<close>

theorem BuildBlockIndexRecords_table:
  assumes "open_db dir = Inr es" and "store_ok junk es"
  shows "BuildBlockIndexRecords junk open_db dir ir =
    (let rs = chain_records junk es; n = length (with_prefix 0x62 es); m = length (with_prefix 0x66 es) in
     if list_all (\<lambda>h. h < n) (heights rs)
     then Ret (ir\<lparr>ir_blockIndexRecord := At (table n rs), ir_blockIndexRecordCount := length rs,
       ir_fileInformationRecord := At (replicate m None), ir_fileInformationRecordCount := m\<rparr>)
     else Undef)"
  using BuildBlockIndexRecords_eq [of open_db dir es junk ir, OF assms] by (simp add: Let_def list_all_iff)

definition empty_records :: IndexRecords where
  "empty_records = \<lparr>ir_blockIndexRecord = Null, ir_blockIndexRecordCount = 0,
     ir_fileInformationRecord = Null, ir_fileInformationRecordCount = 0,
     ir_coinRecord = Null, ir_coinRecordCount = 0\<rparr>"

definition sample_entries :: "entry list" where
  "sample_entries = [([0x52], [1]),
     (0x62 # replicate 32 7, index_value sample_record 0x9D [0, 0, 0, 0x20] sample_header)]"

lemma sample_entry:
  "GetBlockIndexRecord junk (0x62 # replicate 32 7)
     (index_value sample_record 0x9D [0, 0, 0, 0x20] sample_header) = Some sample_record"
  using GetBlockIndexRecord_read [OF sample_record_ok, of junk] by (simp add: sample_record_def)

lemma sample_in_chain: "in_chain sample_record"
  by (simp add: in_chain_def sample_record_def BLOCK_VALID_MASK_def BLOCK_VALID_CHAIN_def)

lemma sample_entries_ok: "store_ok junk sample_entries"
  and sample_chain: "chain_records junk sample_entries = [sample_record]"
  by (simp_all add: store_ok_def sample_entries_def sample_entry chain_record_def sample_in_chain)

theorem BuildBlockIndexRecords_table_witness:
  "BuildBlockIndexRecords sample_header (\<lambda>_. Inr sample_entries) ''d'' empty_records =
     Ret (empty_records\<lparr>ir_blockIndexRecord := At [Some sample_record], ir_blockIndexRecordCount := 1,
       ir_fileInformationRecord := At []\<rparr>)"
proof -
  have "length (with_prefix 0x62 sample_entries) = 1" "with_prefix 0x66 sample_entries = []"
    by (simp_all add: sample_entries_def)
  moreover have "unat (bir_height sample_record) = 0" by (simp add: sample_record_def)
  ultimately show ?thesis
    using BuildBlockIndexRecords_table [of "\<lambda>_. Inr sample_entries" "''d''" sample_entries sample_header
        empty_records]
    by (simp add: sample_entries_ok sample_chain heights_def table_def empty_records_def Let_def)
qed

text \<open>
  C7: Below the count the table has no hole exactly when the heights of the validated records are
  the numbers below the count. Two validated records of one height (a stale branch that was fully
  validated) leave a height below the count that was never written, which the functions of the API
  that run to the count read.
\<close>

theorem index_complete_iff:
  assumes "open_db dir = Inr es" and "store_ok junk es"
    and "BuildBlockIndexRecords junk open_db dir ir = Ret ir'"
  shows "\<exists>arr. ir_blockIndexRecord ir' = At arr \<and> ir_blockIndexRecordCount ir' \<le> length arr \<and>
    (None \<notin> set (take (ir_blockIndexRecordCount ir') arr) \<longleftrightarrow>
     set (heights (chain_records junk es)) = {..<ir_blockIndexRecordCount ir'})"
proof -
  let ?rs = "chain_records junk es" and ?n = "length (with_prefix 0x62 es)"
  have ir: "ir_blockIndexRecord ir' = At (table ?n ?rs)" "ir_blockIndexRecordCount ir' = length ?rs"
    using assms(3) unfolding BuildBlockIndexRecords_eq [of open_db dir es junk, OF assms(1,2)] by (auto split: if_splits)
  have le: "length ?rs \<le> ?n" by (rule length_chain_records [OF assms(2)])
  have "None \<notin> set (take (length ?rs) (table ?n ?rs)) \<longleftrightarrow> (\<forall>h < length ?rs. table ?n ?rs ! h \<noteq> None)"
    using le by (auto simp: in_set_conv_nth table_def)
  with ir le table_complete_iff [OF le] show ?thesis by (simp add: table_def)
qed

theorem index_complete_iff_witness:
  "\<exists>ir arr. BuildBlockIndexRecords sample_header (\<lambda>_. Inr sample_entries) ''d'' empty_records = Ret ir \<and>
     ir_blockIndexRecord ir = At arr \<and> None \<notin> set (take (ir_blockIndexRecordCount ir) arr)"
proof -
  let ?ir = "empty_records\<lparr>ir_blockIndexRecord := At [Some sample_record], ir_blockIndexRecordCount := 1,
       ir_fileInformationRecord := At []\<rparr>"
  have b: "BuildBlockIndexRecords sample_header (\<lambda>_. Inr sample_entries) ''d'' empty_records = Ret ?ir"
    using BuildBlockIndexRecords_eq [of "\<lambda>_. Inr sample_entries" "''d''" sample_entries sample_header
        empty_records]
    by (simp add: sample_entries_ok sample_chain heights_def table_def empty_records_def)
       (simp add: sample_entries_def sample_record_def)
  have "set (heights (chain_records sample_header sample_entries)) = {..<1}"
    by (auto simp: sample_chain heights_def sample_record_def)
  with index_complete_iff [of "\<lambda>_. Inr sample_entries" "''d''" sample_entries sample_header empty_records ?ir]
    b sample_entries_ok show ?thesis by simp
qed

text \<open>
  The coin records are decoded in the order of the iteration into a table as large as the
  number of \<^verbatim>\<open>'C'\<close> entries, but the table is stored in a local copy: the global index records are
  unchanged by the call.
\<close>

theorem BuildCoinRecords_local:
  assumes "open_db dir = Inr es" and "list_all (\<lambda>e. fst e \<noteq> []) es" and "None \<notin> set (coin_records es)"
  shows "BuildCoinRecords open_db dir ir =
    Ret (ir\<lparr>ir_coinRecord := At (coin_records es), ir_coinRecordCount := length (coin_records es)\<rparr>, ir)"
  using BuildCoinRecords_eq [of open_db dir es ir, OF assms] .

theorem BuildCoinRecords_local_witness:
  "BuildCoinRecords (\<lambda>_. Inr [(0x43 # replicate 32 5, [0x2D, 0x01])]) ''d'' empty_records =
     Ret (empty_records\<lparr>ir_coinRecord := At [Some \<lparr>cr_txid = replicate 32 5, cr_height = 22,
       cr_coinbase = 1, cr_dummy = 0\<rparr>], ir_coinRecordCount := 1\<rparr>, empty_records)"
proof -
  have "GetCoinRecord (0x43 # replicate 32 5) [0x2D, 0x01] =
      Some \<lparr>cr_txid = replicate 32 5, cr_height = 22, cr_coinbase = 1, cr_dummy = 0\<rparr>"
    using varint_at_nth [of "[]" 45 "[1]" "[]"] varint_at_nth [of "[45]" 1 "[]" "[]"]
    by (simp add: GetCoinRecord_def rds_def struct_consts ReverseString_eq core_varint_def)
  with BuildCoinRecords_local [of "\<lambda>_. Inr [(0x43 # replicate 32 5, [0x2D, 0x01])]" "''d''"
      "[(0x43 # replicate 32 5, [0x2D, 0x01])]" empty_records]
  show ?thesis by (simp add: coin_records_def)
qed

text \<open>
  Sorting the block files, with any \<^verbatim>\<open>qsort\<close> that meets its contract, gives a permutation in the
  order of the numbers in their names; the file at index \<open>i\<close> is the one with number \<open>i\<close>, as the
  lookup of a block by its file number assumes, exactly when the numbers are \<open>0 \<dots> n - 1\<close>, each
  once (so not for a pruned directory).
\<close>

theorem SortFiles_index:
  assumes "qsort_contract qsort" and "numbered files"
  shows "\<exists>fs. SortFiles qsort files = Some fs \<and> mset fs = mset files \<and> sorted (map file_number fs) \<and>
    (map file_number fs = map int [0..<length fs] \<longleftrightarrow>
     mset (map file_number files) = mset (map int [0..<length files]))"
proof -
  obtain fs where fs: "SortFiles qsort files = Some fs" "mset fs = mset files" "sorted (map file_number fs)"
    using SortFiles_sorts [OF assms] by blast
  have "map file_number fs = map int [0..<length fs] \<longleftrightarrow> (\<forall>i < length fs. file_number (fs ! i) = int i)"
    using list_eq_iff_nth_eq [of "map file_number fs" "map int [0..<length fs]"] by simp
  with fs sorted_index_iff [OF fs(2,3)] show ?thesis by blast
qed

text \<open>An insertion sort by the comparator meets the contract.\<close>

fun insert_by :: "('a \<Rightarrow> 'a \<Rightarrow> int) \<Rightarrow> 'a \<Rightarrow> 'a list \<Rightarrow> 'a list" where
  "insert_by cmp x [] = [x]"
| "insert_by cmp x (y # ys) = (if cmp x y \<le> 0 then x # y # ys else y # insert_by cmp x ys)"

definition insertion_sort :: "('a \<Rightarrow> 'a \<Rightarrow> int) \<Rightarrow> 'a list \<Rightarrow> 'a list" where
  "insertion_sort cmp xs = foldr (insert_by cmp) xs []"

lemma mset_insert_by [simp]: "mset (insert_by cmp x ys) = add_mset x (mset ys)"
  by (induction ys) auto

lemma set_insert_by [simp]: "set (insert_by cmp x ys) = insert x (set ys)"
  by (induction ys) auto

lemma consistentD:
  assumes "consistent cmp xs" and "a \<in> set xs" and "b \<in> set xs"
  shows "\<not> cmp a b \<le> 0 \<Longrightarrow> cmp b a \<le> 0"
    and "c \<in> set xs \<Longrightarrow> cmp a b \<le> 0 \<Longrightarrow> cmp b c \<le> 0 \<Longrightarrow> cmp a c \<le> 0"
proof -
  have "cmp a b > 0 \<longleftrightarrow> cmp b a < 0" using assms unfolding consistent_def by blast
  then show "\<not> cmp a b \<le> 0 \<Longrightarrow> cmp b a \<le> 0" by linarith
  show "c \<in> set xs \<Longrightarrow> cmp a b \<le> 0 \<Longrightarrow> cmp b c \<le> 0 \<Longrightarrow> cmp a c \<le> 0"
    using assms unfolding consistent_def by blast
qed

lemma consistent_subset: "consistent cmp xs \<Longrightarrow> set ys \<subseteq> set xs \<Longrightarrow> consistent cmp ys"
  unfolding consistent_def by blast

lemma sorted_insert_by:
  assumes "consistent cmp (x # ys)" and "sorted_wrt (\<lambda>a b. cmp a b \<le> 0) ys"
  shows "sorted_wrt (\<lambda>a b. cmp a b \<le> 0) (insert_by cmp x ys)"
  using assms
proof (induction ys)
  case (Cons y ys)
  note c = Cons.prems(1)
  show ?case
  proof (cases "cmp x y \<le> 0")
    case True
    have "cmp x z \<le> 0" if "z \<in> set ys" for z
      using consistentD(2) [OF c, of x y z] True Cons.prems(2) that by simp
    with True Cons.prems(2) show ?thesis by simp
  next
    case False
    then have "cmp y x \<le> 0" using consistentD(1) [OF c, of x y] by simp
    moreover have "consistent cmp (x # ys)" by (rule consistent_subset [OF c]) auto
    ultimately show ?thesis using Cons.IH Cons.prems(2) False by simp
  qed
qed simp

lemma insertion_sort_sorts:
  "mset (insertion_sort cmp xs) = mset xs \<and>
     (consistent cmp xs \<longrightarrow> sorted_wrt (\<lambda>a b. cmp a b \<le> 0) (insertion_sort cmp xs))"
proof (induction xs)
  case (Cons x xs)
  have step: "insertion_sort cmp (x # xs) = insert_by cmp x (insertion_sort cmp xs)"
    by (simp add: insertion_sort_def)
  have eq: "set (insertion_sort cmp xs) = set xs" using Cons.IH by (metis mset_eq_setD)
  have "sorted_wrt (\<lambda>a b. cmp a b \<le> 0) (insertion_sort cmp (x # xs))" if c: "consistent cmp (x # xs)"
    unfolding step
  proof (rule sorted_insert_by)
    show "consistent cmp (x # insertion_sort cmp xs)" by (rule consistent_subset [OF c]) (simp add: eq)
    have "consistent cmp xs" by (rule consistent_subset [OF c]) auto
    then show "sorted_wrt (\<lambda>a b. cmp a b \<le> 0) (insertion_sort cmp xs)" using Cons.IH by blast
  qed
  then show ?case using Cons.IH by (simp add: step)
qed (simp add: insertion_sort_def)

lemma insertion_sort_contract: "qsort_contract insertion_sort"
  unfolding qsort_contract_def using insertion_sort_sorts by blast

definition sample_files :: "FileInfo list" where
  "sample_files = map (\<lambda>n. \<lparr>fi_filepath = ''d/'' @ blk_name n, fi_isOpen = 0, fi_file = Null\<rparr>) [1, 0]"

theorem SortFiles_index_witness:
  "\<exists>fs. SortFiles insertion_sort sample_files = Some fs \<and> map file_number fs = [0, 1]"
proof -
  have n: "ExtractBlockNumber (''d/'' @ blk_name k) = Some (int k)" if "k < 100000" for k
    using ExtractBlockNumber_blk [OF that, of "''d''"] by simp
  then have "numbered sample_files" and "map file_number sample_files = [1, 0]"
    using n [of 0] n [of 1] by (simp_all add: numbered_def sample_files_def file_number_def)
  note ok = this
  from SortFiles_index [OF insertion_sort_contract ok(1)] obtain fs where
    fs: "SortFiles insertion_sort sample_files = Some fs" "mset fs = mset sample_files"
    "map file_number fs = map int [0..<length fs] \<longleftrightarrow>
     mset (map file_number sample_files) = mset (map int [0..<length sample_files])" by blast
  have "length fs = 2" using mset_eq_length [OF fs(2)] by (simp add: sample_files_def)
  moreover have "length sample_files = 2" by (simp add: sample_files_def)
  ultimately show ?thesis using fs(1,3) by (simp add: ok(2) upt_conv_Cons add_mset_commute)
qed

text \<open>
  The number of a block file is the five digits of its name when the directory has no
  \<^verbatim>\<open>blk\<close> in its path; the search takes the first \<^verbatim>\<open>blk\<close> of the whole path, so under a directory
  with one the number is lost.
\<close>

theorem ExtractBlockNumber_name:
  assumes "n < 100000" and "strstr (dir @ ''/'') ''blk'' = None"
  shows "ExtractBlockNumber (dir @ ''/'' @ blk_name n) = Some (int n) \<and>
    ExtractBlockNumber (''/blk'' @ dir' @ ''/'' @ blk_name n) = atoi (dir' @ ''/'' @ blk_name n)"
  using ExtractBlockNumber_blk [OF assms] by (simp add: ExtractBlockNumber_def)

theorem ExtractBlockNumber_name_witness:
  "ExtractBlockNumber (''/b/blocks/'' @ blk_name 4711) = Some 4711 \<and>
   ExtractBlockNumber (''/blk/blocks/'' @ blk_name 4711) = Some 0"
  using ExtractBlockNumber_name [of 4711 "''/b/blocks''" "''/blocks''"]
  by (simp add: atoi_def c_isspace_def digits_value_def is_digit_def)

end
