(* ===== verification/Api.thy ===== *)
theory Api
  imports Indexing
begin

text \<open>
  \<^verbatim>\<open>src/API.c\<close>: the functions a program calls, over the environment the initialisation built.
  \<open>rdr\<close> gathers what the block reader depends on besides the environment: the files, the stack
  contents and the clock (\<open>rd_clock i\<close> is the time at the \<open>i\<close>-th block read of the call).
  A height is the integer that the caller passes; it is a C \<^verbatim>\<open>int\<close>, and the model takes any.
\<close>

record reader =
  rd_disk :: disk
  rd_stk :: bytes
  rd_junk :: BlockHeader
  rd_clock :: "nat \<Rightarrow> u32"

record env =
  env_files :: file_state
  env_records :: IndexRecords
  env_xorKey :: bytes

section \<open>Blocks by height\<close>

text \<open>A \<^verbatim>\<open>blockIndexRecord[i]\<close>: undefined outside the table and at an element never written.\<close>

definition record_at :: "env \<Rightarrow> int \<Rightarrow> BlockIndexRecord option" where
  "record_at e i = do {
     arr \<leftarrow> deref (ir_blockIndexRecord (env_records e));
     if i < 0 then None else do { r \<leftarrow> rd arr (nat i); r }
   }"

definition GetBlock_at :: "reader \<Rightarrow> nat \<Rightarrow> int \<Rightarrow> env \<Rightarrow> (Block \<times> env) option" where
  "GetBlock_at rdr k height e = do {
     r \<leftarrow> record_at e height;
     (block, st) \<leftarrow> ReadBlockFromBlkDatFile (rd_disk rdr) (env_xorKey e) (rd_stk rdr) (rd_junk rdr)
       (rd_clock rdr k) (unat (bir_blockFile r)) (bir_blockOffset r) (env_files e);
     Some (block\<lparr>blk_height := Some (of_int height)\<rparr>, e\<lparr>env_files := st\<rparr>)
   }"

definition GetBlock :: "reader \<Rightarrow> int \<Rightarrow> env \<Rightarrow> (Block \<times> env) option" where
  "GetBlock rdr height e = GetBlock_at rdr 0 height e"

definition c_int :: "int \<Rightarrow> bool" where
  "c_int n \<longleftrightarrow> - (2 ^ 31) \<le> n \<and> n < 2 ^ 31"

fun GetBlocks_loop :: "reader \<Rightarrow> int \<Rightarrow> nat \<Rightarrow> nat \<Rightarrow> env \<Rightarrow> (Block list \<times> env) option" where
  "GetBlocks_loop rdr height i 0 e = Some ([], e)"
| "GetBlocks_loop rdr height i (Suc n) e =
     (if c_int (height + int i)
      then do {
        (b, e) \<leftarrow> GetBlock_at rdr i (height + int i) e;
        (bs, e) \<leftarrow> GetBlocks_loop rdr height (i + 1) n e;
        Some (b # bs, e)
      }
      else None)"

text \<open>
  \<^verbatim>\<open>count * 4 * Mib\<close>: the first product is of type \<^verbatim>\<open>int\<close> (its overflow is undefined), the second of
  64 unsigned bits.
\<close>

definition GetBlocks :: "reader \<Rightarrow> int \<Rightarrow> int \<Rightarrow> env \<Rightarrow> (Blocks \<times> env) option" where
  "GetBlocks rdr height cnt e =
     (if \<not> c_int (cnt * 4) then None
      else if (of_int (cnt * 4) * 1048576 :: u64) > 4 * 1073741824
      then Some (\<lparr>bks_blocks = Null, bks_count = 0\<rparr>,
        e\<lparr>env_files := c_printf ''Error Getting blocks'' (env_files e)\<rparr>)
      else do {
        (bs, e) \<leftarrow> GetBlocks_loop rdr height 0 (nat cnt) e;
        Some (\<lparr>bks_blocks = At bs, bks_count = nat cnt\<rparr>, e)
      })"

definition GetBlockHeader :: "env \<Rightarrow> int \<Rightarrow> BlockHeader option" where
  "GetBlockHeader e height = do { r \<leftarrow> record_at e height; bir_blockHeader r }"

section \<open>Blocks by date\<close>

text \<open>
  \<^verbatim>\<open>SECONDS_PER_DAY\<close> is \<^verbatim>\<open>60 * 60 * 24\<close> without parentheses: \<^verbatim>\<open>timestamp % SECONDS_PER_DAY\<close> is
  \<^verbatim>\<open>((timestamp % 60) * 60) * 24\<close>.
\<close>

definition day_start :: "u32 \<Rightarrow> u32" where
  "day_start timestamp = timestamp - (timestamp mod 60 * 60 * 24)"

definition day_end :: "u32 \<Rightarrow> u32" where
  "day_end timestamp = day_start timestamp + 60 * 60 * 24 - 1"

definition record_time :: "env \<Rightarrow> int \<Rightarrow> u32 option" where
  "record_time e i = do { r \<leftarrow> record_at e i; h \<leftarrow> bir_blockHeader r; Some (bh_time h) }"

text \<open>The height, of 64 bits, is passed as an \<^verbatim>\<open>int\<close>: its low 32 bits, signed.\<close>

definition height_arg :: "BlockIndexRecord \<Rightarrow> int" where
  "height_arg r = sint (ucast (bir_height r) :: u32)"

definition zero_block :: Block where
  "zero_block = \<lparr>blk_magic = 0, blk_blockSize = 0, blk_txCount = 0, blk_hash = replicate 32 0,
     blk_height = Some 0, blk_header = \<lparr>bh_version = 0, bh_prevBlockHash = replicate 32 0,
       bh_merkleRoot = replicate 32 0, bh_time = 0, bh_bits = 0, bh_nonce = 0\<rparr>,
     blk_transactions = Null\<rparr>"

fun first_loop :: "reader \<Rightarrow> u32 \<Rightarrow> u32 \<Rightarrow> nat \<Rightarrow> nat \<Rightarrow> env \<Rightarrow> (Block \<times> env) option" where
  "first_loop rdr start stop i 0 e = Some (zero_block, e)"
| "first_loop rdr start stop i (Suc n) e = do {
     t \<leftarrow> record_time e (int i);
     if t \<ge> start \<and> t \<le> stop
     then do { r \<leftarrow> record_at e (int i); GetBlock rdr (height_arg r) e }
     else first_loop rdr start stop (i + 1) n e
   }"

definition GetFirstBlockOfDate :: "reader \<Rightarrow> u32 \<Rightarrow> env \<Rightarrow> (Block \<times> env) option" where
  "GetFirstBlockOfDate rdr timestamp e =
     first_loop rdr (day_start timestamp) (day_end timestamp) 0
       (ir_blockIndexRecordCount (env_records e)) e"

fun last_loop :: "reader \<Rightarrow> u32 \<Rightarrow> u32 \<Rightarrow> nat \<Rightarrow> env \<Rightarrow> (Block \<times> env) option" where
  "last_loop rdr start stop 0 e = Some (zero_block, e)"
| "last_loop rdr start stop (Suc i) e = do {
     t \<leftarrow> record_time e (int (Suc i));
     if t \<ge> start \<and> t \<le> stop
     then do { r \<leftarrow> record_at e (int (Suc i)); GetBlock rdr (height_arg r) e }
     else last_loop rdr start stop i e
   }"

definition GetLastBlockOfDate :: "reader \<Rightarrow> u32 \<Rightarrow> env \<Rightarrow> (Block \<times> env) option" where
  "GetLastBlockOfDate rdr timestamp e =
     last_loop rdr (day_start timestamp) (day_end timestamp)
       (ir_blockIndexRecordCount (env_records e)) e"

fun day_loop :: "u32 \<Rightarrow> u32 \<Rightarrow> nat \<Rightarrow> nat \<Rightarrow> int \<Rightarrow> int \<Rightarrow> env \<Rightarrow> (int \<times> int) option" where
  "day_loop start stop i 0 frst lst e = Some (frst, lst)"
| "day_loop start stop i (Suc n) frst lst e = do {
     t \<leftarrow> record_time e (int i);
     if t \<ge> start \<and> t \<le> stop
     then day_loop start stop (i + 1) n (if frst = -1 then int i else frst) (int i) e
     else if t > stop then Some (frst, lst)
     else day_loop start stop (i + 1) n frst lst e
   }"

definition GetBlocksOfDay :: "reader \<Rightarrow> u32 \<Rightarrow> env \<Rightarrow> (Blocks \<times> env) option" where
  "GetBlocksOfDay rdr timestamp e = do {
     (frst, lst) \<leftarrow> day_loop (day_start timestamp) (day_end timestamp) 0
       (ir_blockIndexRecordCount (env_records e)) (-1) (-1) e;
     if frst = -1 \<or> lst = -1 then Some (\<lparr>bks_blocks = Null, bks_count = 0\<rparr>, e)
     else do {
       r1 \<leftarrow> record_at e frst;
       r2 \<leftarrow> record_at e lst;
       let n = (ucast (bir_height r2 - bir_height r1 + 1) :: u32);
       GetBlocks rdr (height_arg r1) (sint n) e
     }
   }"

section \<open>Statistics\<close>

text \<open>
  \<^verbatim>\<open>memset(&stats, 0, sizeof(Block))\<close> clears the first 144 of the 200 bytes of the result: the
  fields after \<^verbatim>\<open>swTx\<close> keep what the stack held (\<open>junk\<close>), and two of them are added to.
\<close>

record BlockStats =
  bst_blockHash :: bytes
  bst_height :: "u64 option"
  bst_ins :: u64
  bst_outs :: u64
  bst_time :: u64
  bst_totalOut :: u64
  bst_totalSize :: u64

fun sum_outputs :: "Output list \<Rightarrow> nat \<Rightarrow> nat \<Rightarrow> u64 \<Rightarrow> u64 option" where
  "sum_outputs outs j 0 acc = Some acc"
| "sum_outputs outs j (Suc n) acc = do {
     out \<leftarrow> rd outs j;
     sum_outputs outs (j + 1) n (acc + out_amount out)
   }"

fun stats_loop :: "Transaction list \<Rightarrow> nat \<Rightarrow> nat \<Rightarrow> BlockStats \<Rightarrow> BlockStats option" where
  "stats_loop txs i 0 stats = Some stats"
| "stats_loop txs i (Suc n) stats = do {
     tx \<leftarrow> rd txs i;
     let stats = stats\<lparr>bst_ins := bst_ins stats + ucast (tx_inputCount tx),
           bst_outs := bst_outs stats + ucast (tx_outputCount tx),
           bst_totalSize := bst_totalSize stats + ucast (tx_size tx)\<rparr>;
     total \<leftarrow> (if tx_outputCount tx = 0 then Some (bst_totalOut stats)
              else do {
                outs \<leftarrow> deref (tx_outputs tx);
                sum_outputs outs 0 (unat (tx_outputCount tx)) (bst_totalOut stats)
              });
     stats_loop txs (i + 1) n (stats\<lparr>bst_totalOut := total\<rparr>)
   }"

definition GetBlockStats :: "u64 \<Rightarrow> u64 \<Rightarrow> Block \<Rightarrow> BlockStats option" where
  "GetBlockStats junkOut junkSize block = do {
     let stats = \<lparr>bst_blockHash = blk_hash block, bst_height = blk_height block, bst_ins = 0, bst_outs = 0,
           bst_time = ucast (bh_time (blk_header block)), bst_totalOut = junkOut, bst_totalSize = junkSize\<rparr>;
     if blk_txCount block = 0 then Some stats
     else do {
       txs \<leftarrow> deref (blk_transactions block);
       stats_loop txs 0 (unat (blk_txCount block)) stats
     }
   }"

section \<open>Reading by height\<close>

text \<open>
  What the data directory must hold for a block to be found: the record at the height names a file
  and an offset at which the file has the block, obfuscated with the key.
\<close>

definition stored :: "reader \<Rightarrow> string list \<Rightarrow> env \<Rightarrow> int \<Rightarrow> Block \<Rightarrow> bool" where
  "stored rdr paths e h b \<longleftrightarrow> (\<exists>r pre magic v hd txs rest. record_at e h = Some r \<and>
     content_of (rd_disk rdr) paths (unat (bir_blockFile r)) =
       Some (obfuscate (env_xorKey e) 0 (pre @ block_bytes magic v hd txs @ rest)) \<and>
     unat (bir_blockOffset r) = length pre + 8 \<and> unat (bir_blockOffset r) < 2 ^ 63 \<and>
     block_ok v hd txs \<and> b = (block_of magic v hd txs)\<lparr>blk_height := Some (of_int h)\<rparr>)"

definition env_ok :: "reader \<Rightarrow> string list \<Rightarrow> env \<Rightarrow> bool" where
  "env_ok rdr paths e \<longleftrightarrow> cache_inv (rd_disk rdr) paths (env_files e) \<and> length (rd_stk rdr) = 64"

lemma GetBlock_at_stored:
  assumes ok: "env_ok rdr paths e" and b: "stored rdr paths e h b"
  shows "\<exists>st. GetBlock_at rdr k h e = Some (b, e\<lparr>env_files := st\<rparr>) \<and> env_ok rdr paths (e\<lparr>env_files := st\<rparr>)"
proof -
  from b obtain r pre magic v hd txs rest where r: "record_at e h = Some r"
    "content_of (rd_disk rdr) paths (unat (bir_blockFile r)) =
       Some (obfuscate (env_xorKey e) 0 (pre @ block_bytes magic v hd txs @ rest))"
    "unat (bir_blockOffset r) = length pre + 8" "unat (bir_blockOffset r) < 2 ^ 63"
    "block_ok v hd txs" "b = (block_of magic v hd txs)\<lparr>blk_height := Some (of_int h)\<rparr>"
    unfolding stored_def by blast
  have i: "cache_inv (rd_disk rdr) paths (env_files e)" "length (rd_stk rdr) = 64"
    using ok by (auto simp: env_ok_def)
  from ReadBlock_eq [OF i(1) r(2-5) i(2), of "rd_junk rdr" "rd_clock rdr k"] r i show ?thesis
    by (auto simp: GetBlock_at_def env_ok_def)
qed

lemma record_at_files [simp]: "record_at (e\<lparr>env_files := st\<rparr>) = record_at e"
  by (simp add: fun_eq_iff record_at_def)

lemma stored_files [simp]: "stored rdr paths (e\<lparr>env_files := st\<rparr>) = stored rdr paths e"
  by (simp add: fun_eq_iff stored_def)

lemma GetBlocks_loop_stored:
  assumes "env_ok rdr paths e" and "\<forall>j < length bs. stored rdr paths e (h + int (i + j)) (bs ! j)"
    and "c_int h" and "h + int (i + length bs) \<le> 2 ^ 31"
  shows "\<exists>st. GetBlocks_loop rdr h i (length bs) e = Some (bs, e\<lparr>env_files := st\<rparr>) \<and>
    env_ok rdr paths (e\<lparr>env_files := st\<rparr>)"
  using assms
proof (induction bs arbitrary: i e)
  case Nil
  then have "GetBlocks_loop rdr h i (length []) e = Some ([], e\<lparr>env_files := env_files e\<rparr>)" by simp
  with Nil.prems(1) show ?case by (metis env.surjective env.update_convs(1))
next
  case (Cons b bs)
  have b: "stored rdr paths e (h + int i) b" using Cons.prems(2) by force
  from GetBlock_at_stored [OF Cons.prems(1) this, of i] obtain st where
    st: "GetBlock_at rdr i (h + int i) e = Some (b, e\<lparr>env_files := st\<rparr>)" "env_ok rdr paths (e\<lparr>env_files := st\<rparr>)"
    by blast
  have rest: "\<forall>j < length bs. stored rdr paths (e\<lparr>env_files := st\<rparr>) (h + int (i + 1 + j)) (bs ! j)"
  proof (intro allI impI)
    fix j assume "j < length bs"
    with Cons.prems(2) [rule_format, of "Suc j"]
    show "stored rdr paths (e\<lparr>env_files := st\<rparr>) (h + int (i + 1 + j)) (bs ! j)"
      by (simp add: algebra_simps)
  qed
  have bound: "h + int (i + 1 + length bs) \<le> 2 ^ 31" using Cons.prems(4) by simp
  from Cons.IH [OF st(2) rest Cons.prems(3) bound] obtain st' where
    st': "GetBlocks_loop rdr h (i + 1) (length bs) (e\<lparr>env_files := st\<rparr>) =
      Some (bs, e\<lparr>env_files := st\<rparr>\<lparr>env_files := st'\<rparr>)"
    "env_ok rdr paths (e\<lparr>env_files := st\<rparr>\<lparr>env_files := st'\<rparr>)" by blast
  have "c_int (h + int i)" using Cons.prems(3,4) by (simp add: c_int_def)
  with st st' show ?case by auto
qed

lemma memory_limit:
  assumes "c_int (n * 4)"
  shows "(of_int (n * 4) * 1048576 :: u64) > 4 * 1073741824 \<longleftrightarrow> n < 0 \<or> n > 1024"
proof -
  have w: "(of_int (n * 4) * 1048576 :: u64) = of_int (n * 4194304)" by simp
  have b: "- (2 ^ 29) \<le> n" "n < 2 ^ 29" using assms by (auto simp: c_int_def)
  have u: "uint (of_int k :: u64) = k mod 2 ^ 64" for k
    by (simp add: uint_word_of_int)
  have "(of_int (n * 4) * 1048576 :: u64) > 4 * 1073741824 \<longleftrightarrow> 4294967296 < n * 4194304 mod 2 ^ 64"
    unfolding w word_less_def u by simp
  also have "\<dots> \<longleftrightarrow> n < 0 \<or> n > 1024"
  proof (cases "n < 0")
    case True
    have "n * 4194304 mod 2 ^ 64 = n * 4194304 + 2 ^ 64"
    proof -
      have "n * 4194304 mod 2 ^ 64 = (n * 4194304 + 2 ^ 64) mod 2 ^ 64" by (simp only: mod_add_self2)
      also have "\<dots> = n * 4194304 + 2 ^ 64" using True b by (intro mod_pos_pos_trivial) simp_all
      finally show ?thesis .
    qed
    with True b show ?thesis by simp
  next
    case False
    then have "n * 4194304 mod 2 ^ 64 = n * 4194304" using b by (intro mod_pos_pos_trivial) simp_all
    with False show ?thesis by simp
  qed
  finally show ?thesis .
qed

section \<open>Scanning by date\<close>

definition times_ok :: "env \<Rightarrow> u32 list \<Rightarrow> bool" where
  "times_ok e ts \<longleftrightarrow> ir_blockIndexRecordCount (env_records e) = length ts \<and>
     (\<forall>i < length ts. record_time e (int i) = Some (ts ! i))"

definition in_day :: "u32 \<Rightarrow> u32 \<Rightarrow> bool" where
  "in_day ts t \<longleftrightarrow> day_start ts \<le> t \<and> t \<le> day_end ts"

lemma record_time_at: "record_time e i = Some t \<Longrightarrow> \<exists>r. record_at e i = Some r"
  by (auto simp: record_time_def split: bind_splits)

lemma first_loop_find:
  assumes "\<forall>j < i + n. record_time e (int j) = Some (ts ! j)"
  shows "first_loop rdr a b i n e =
    (case find (\<lambda>j. a \<le> ts ! j \<and> ts ! j \<le> b) [i..<i + n] of
       None \<Rightarrow> Some (zero_block, e)
     | Some j \<Rightarrow> record_at e (int j) \<bind> (\<lambda>r. GetBlock rdr (height_arg r) e))"
  using assms by (induction n arbitrary: i) (auto simp: upt_conv_Cons simp del: upt_Suc)

text \<open>The indices of the window before the first time past it.\<close>

definition day_hits :: "u32 \<Rightarrow> u32 \<Rightarrow> u32 list \<Rightarrow> nat \<Rightarrow> nat \<Rightarrow> nat list" where
  "day_hits a b ts i n = filter (\<lambda>j. a \<le> ts ! j) (takeWhile (\<lambda>j. ts ! j \<le> b) [i..<i + n])"

lemma day_hits_simps [simp]:
  "day_hits a b ts i 0 = []"
  "day_hits a b ts i (Suc n) =
     (if ts ! i \<le> b then (if a \<le> ts ! i then i # day_hits a b ts (i + 1) n else day_hits a b ts (i + 1) n)
      else [])"
  by (simp_all add: day_hits_def upt_conv_Cons del: upt_Suc)

lemma day_loop_hits:
  assumes "\<forall>j < i + n. record_time e (int j) = Some (ts ! j)"
  shows "day_loop a b i n f l e =
    Some (if day_hits a b ts i n = [] then (f, l)
      else (if f = -1 then int (hd (day_hits a b ts i n)) else f, int (last (day_hits a b ts i n))))"
  using assms
proof (induction n arbitrary: i f l)
  case (Suc n)
  have t: "record_time e (int i) = Some (ts ! i)" using Suc.prems by simp
  have "\<forall>j < i + 1 + n. record_time e (int j) = Some (ts ! j)" using Suc.prems by simp
  note IH = Suc.IH [OF this]
  show ?case using t IH by (auto simp: not_le not_less)
qed simp

lemma last_loop_overrun:
  "n \<noteq> 0 \<Longrightarrow> record_time e (int n) = None \<Longrightarrow> last_loop rdr a b n e = None"
  by (cases n) auto

section \<open>Statistics of a parsed block\<close>

lemma sum_outputs_eq:
  "j + n \<le> length outs \<Longrightarrow>
     sum_outputs outs j n acc = Some (acc + sum_list (map out_amount (take n (drop j outs))))"
proof (induction n arbitrary: j acc)
  case (Suc n)
  then have "drop j outs = outs ! j # drop (j + 1) outs" by (simp add: Cons_nth_drop_Suc)
  with Suc show ?case by (simp add: rd_def algebra_simps)
qed simp

definition outputs_of :: "Transaction \<Rightarrow> Output list" where
  "outputs_of t = (case tx_outputs t of At outs \<Rightarrow> outs | _ \<Rightarrow> [])"

lemma stats_loop_eq:
  assumes "i + n \<le> length txs" and "list_all shape_tx txs"
  shows "stats_loop txs i n stats = Some (stats
    \<lparr>bst_ins := bst_ins stats + sum_list (map (\<lambda>t. ucast (tx_inputCount t)) (take n (drop i txs))),
     bst_outs := bst_outs stats + sum_list (map (\<lambda>t. ucast (tx_outputCount t)) (take n (drop i txs))),
     bst_totalSize := bst_totalSize stats + sum_list (map (\<lambda>t. ucast (tx_size t)) (take n (drop i txs))),
     bst_totalOut := bst_totalOut stats +
       sum_list (map (\<lambda>t. sum_list (map out_amount (outputs_of t))) (take n (drop i txs)))\<rparr>)"
  using assms
proof (induction n arbitrary: i stats)
  case 0
  then show ?case by simp
next
  case (Suc n)
  let ?t = "txs ! i"
  have d: "drop i txs = ?t # drop (i + 1) txs" using Suc.prems(1) by (simp add: Cons_nth_drop_Suc)
  have "shape_tx ?t" using Suc.prems by (simp add: list_all_length)
  then obtain outs where o: "tx_outputs ?t = At outs" "length outs = unat (tx_outputCount ?t)"
    by (auto simp: shape_tx_def list_ok_def)
  have total: "(if tx_outputCount ?t = 0 then Some acc
      else deref (tx_outputs ?t) \<bind> (\<lambda>outs. sum_outputs outs 0 (unat (tx_outputCount ?t)) acc)) =
      Some (acc + sum_list (map out_amount (outputs_of ?t)))" for acc
    using o sum_outputs_eq [of 0 "length outs" outs acc]
    by (cases "tx_outputCount ?t = 0") (simp_all add: outputs_of_def)
  show ?case
    using Suc.IH [of "i + 1"] Suc.prems total by (simp add: rd_def d Let_def algebra_simps)
qed

lemma diff_eq_iff_le: "(a :: nat) \<le> n \<Longrightarrow> b \<le> n \<Longrightarrow> n - a = n - b \<longleftrightarrow> a = b"
  by linarith

section \<open>A small environment\<close>

definition sample_reader :: reader where
  "sample_reader = \<lparr>rd_disk = sample_disk, rd_stk = replicate 64 0, rd_junk = sample_header,
     rd_clock = (\<lambda>i. of_nat i)\<rparr>"

definition sample_env :: env where
  "sample_env = \<lparr>env_files = init_files [''blk00000.dat''],
     env_records = empty_records\<lparr>ir_blockIndexRecord := At [Some (sample_record\<lparr>bir_blockOffset := 9\<rparr>)],
       ir_blockIndexRecordCount := 1\<rparr>,
     env_xorKey = [1, 2, 3, 4, 5, 6, 7, 8]\<rparr>"

definition sample_block :: Block where
  "sample_block = (block_of 0xd9b4bef9 [0, 0, 0, 0x20] sample_header [sample_tx])\<lparr>blk_height := Some 0\<rparr>"

lemma sample_record_at:
  "record_at sample_env i = (if i = 0 then Some (sample_record\<lparr>bir_blockOffset := 9\<rparr>) else None)"
  by (auto simp: record_at_def sample_env_def rd_def)

lemma sample_env_ok: "env_ok sample_reader [''blk00000.dat''] sample_env"
  by (simp add: env_ok_def sample_reader_def sample_env_def init_inv)

lemma sample_stored: "stored sample_reader [''blk00000.dat''] sample_env 0 sample_block"
proof -
  let ?r = "sample_record\<lparr>bir_blockOffset := 9\<rparr>"
  have "record_at sample_env 0 = Some ?r" by (simp add: sample_record_at)
  moreover have "content_of (rd_disk sample_reader) [''blk00000.dat''] (unat (bir_blockFile ?r)) =
      Some (obfuscate (env_xorKey sample_env) 0
        ([0xAA] @ block_bytes 0xd9b4bef9 [0, 0, 0, 0x20] sample_header [sample_tx] @ [0xBB]))"
    using sample_disk_content by (simp add: sample_reader_def sample_env_def sample_record_def)
  moreover have "unat (bir_blockOffset ?r) = length [0xAA :: u8] + 8" "unat (bir_blockOffset ?r) < 2 ^ 63"
    by simp_all
  ultimately show ?thesis unfolding stored_def sample_block_def using sample_block_ok of_int_0 by metis
qed

lemma sample_times: "times_ok sample_env [1231006505]"
  by (simp add: times_ok_def record_time_def sample_record_at sample_record_def sample_header_def)
    (simp add: sample_env_def)

section \<open>Properties\<close>

text \<open>
  C8: \<^verbatim>\<open>GetBlock\<close> returns the block that is stored where the index says: for a height whose record
  names a file and an offset at which the file holds a well-formed block, the result is that block
  with the height set, and a later call works again.
\<close>

theorem GetBlock_stored:
  assumes "env_ok rdr paths e" and "stored rdr paths e h b"
  shows "\<exists>e'. GetBlock rdr h e = Some (b, e') \<and> env_ok rdr paths e' \<and> env_records e' = env_records e"
  using GetBlock_at_stored [OF assms, of 0] by (auto simp: GetBlock_def)

theorem GetBlock_stored_witness:
  "\<exists>e'. GetBlock sample_reader 0 sample_env = Some (sample_block, e')"
  using GetBlock_stored [OF sample_env_ok sample_stored] by blast

text \<open>
  \<^verbatim>\<open>GetBlocks\<close> returns the stored blocks of the heights asked for, up to 1024 of them, and
  refuses a larger or negative count as long as four times the count is an \<^verbatim>\<open>int\<close>.
\<close>

theorem GetBlocks_limit:
  assumes "env_ok rdr paths e" and "c_int h" and "c_int (n * 4)"
    and "0 \<le> n \<Longrightarrow> n \<le> 1024 \<Longrightarrow> length bs = nat n \<and> h + n \<le> 2 ^ 31 \<and>
      (\<forall>j < length bs. stored rdr paths e (h + int j) (bs ! j))"
  shows "\<exists>e'. GetBlocks rdr h n e =
    Some (if 0 \<le> n \<and> n \<le> 1024 then \<lparr>bks_blocks = At bs, bks_count = nat n\<rparr>
          else \<lparr>bks_blocks = Null, bks_count = 0\<rparr>, e')"
proof (cases "0 \<le> n \<and> n \<le> 1024")
  case True
  with assms(4) have bs: "length bs = nat n" "h + int (0 + length bs) \<le> 2 ^ 31"
    "\<forall>j < length bs. stored rdr paths e (h + int (0 + j)) (bs ! j)" by auto
  from GetBlocks_loop_stored [OF assms(1) bs(3) assms(2) bs(2)] bs(1) True memory_limit [OF assms(3)] assms(3)
  show ?thesis by (auto simp: GetBlocks_def)
next
  case False
  with memory_limit [OF assms(3)] assms(3) show ?thesis by (auto simp: GetBlocks_def)
qed

theorem GetBlocks_limit_witness:
  "(\<exists>e'. GetBlocks sample_reader 0 1 sample_env = Some (\<lparr>bks_blocks = At [sample_block], bks_count = 1\<rparr>, e')) \<and>
   (\<exists>e'. GetBlocks sample_reader 0 1025 sample_env = Some (\<lparr>bks_blocks = Null, bks_count = 0\<rparr>, e'))"
proof
  show "\<exists>e'. GetBlocks sample_reader 0 1 sample_env = Some (\<lparr>bks_blocks = At [sample_block], bks_count = 1\<rparr>, e')"
    using GetBlocks_limit [OF sample_env_ok, of 0 1 "[sample_block]"] sample_stored by (simp add: c_int_def)
  show "\<exists>e'. GetBlocks sample_reader 0 1025 sample_env = Some (\<lparr>bks_blocks = Null, bks_count = 0\<rparr>, e')"
    using GetBlocks_limit [OF sample_env_ok, of 0 1025 "[]"] by (simp add: c_int_def)
qed

text \<open>
  The day window does not start at midnight. For a timestamp after the first day it starts
  1440 times the seconds of the minute earlier, which is midnight exactly when that is the time of
  day; the block returned for a date is the first of the index in this window, or an empty one.
\<close>

theorem GetFirstBlockOfDate_window:
  assumes "86400 \<le> unat t" and "times_ok e ts"
  shows "unat (day_start t) = unat t - 1440 * (unat t mod 60) \<and>
    (unat (day_start t) = unat t - unat t mod 86400 \<longleftrightarrow> 1440 * (unat t mod 60) = unat t mod 86400) \<and>
    GetFirstBlockOfDate rdr t e =
      (case find (\<lambda>j. in_day t (ts ! j)) [0..<length ts] of
         None \<Rightarrow> Some (zero_block, e)
       | Some j \<Rightarrow> record_at e (int j) \<bind> (\<lambda>r. GetBlock rdr (height_arg r) e))"
proof (intro conjI)
  have m: "unat t mod 60 \<le> 59" using mod_less_divisor [of 60 "unat t"] by linarith
  have u: "unat (t mod 60 * 60 * 24) = 1440 * (unat t mod 60)"
  proof -
    have "t mod 60 * 60 * 24 = (of_nat (1440 * (unat t mod 60)) :: u32)"
    proof -
      have "(of_nat (unat t mod 60) :: u32) = of_nat (unat (t mod 60))" by (simp add: unat_mod)
      then show ?thesis by simp
    qed
    moreover have "1440 * (unat t mod 60) < 2 ^ 32" using m by simp
    ultimately show ?thesis by (simp only: unat_of_nat) simp
  qed
  have "t mod 60 * 60 * 24 \<le> t" unfolding word_le_nat_alt u using assms(1) m by linarith
  from unat_sub [OF this] u show s: "unat (day_start t) = unat t - 1440 * (unat t mod 60)"
    by (simp add: day_start_def)
  have le: "1440 * (unat t mod 60) \<le> unat t" using assms(1) m by linarith
  have "unat t mod 86400 \<le> unat t" by simp
  with le show "unat (day_start t) = unat t - unat t mod 86400 \<longleftrightarrow> 1440 * (unat t mod 60) = unat t mod 86400"
    unfolding s by (rule diff_eq_iff_le)
  have "\<forall>j < 0 + length ts. record_time e (int j) = Some (ts ! j)" using assms(2) by (simp add: times_ok_def)
  from first_loop_find [OF this, of rdr "day_start t" "day_end t"] assms(2)
  show "GetFirstBlockOfDate rdr t e =
      (case find (\<lambda>j. in_day t (ts ! j)) [0..<length ts] of
         None \<Rightarrow> Some (zero_block, e)
       | Some j \<Rightarrow> record_at e (int j) \<bind> (\<lambda>r. GetBlock rdr (height_arg r) e))"
    by (simp add: GetFirstBlockOfDate_def times_ok_def in_day_def)
qed

theorem GetFirstBlockOfDate_window_witness:
  "unat (day_start 1231006505) = 1230999305 \<and> unat (day_start 1231006505) \<noteq> 1230940800 \<and>
   (\<exists>e'. GetFirstBlockOfDate sample_reader 1231006505 sample_env = Some (sample_block, e'))"
proof -
  have d: "in_day 1231006505 1231006505" by (simp add: in_day_def day_start_def day_end_def)
  have "height_arg (sample_record\<lparr>bir_blockOffset := 9\<rparr>) = 0" by (simp add: height_arg_def sample_record_def)
  moreover from GetBlock_at_stored [OF sample_env_ok sample_stored, of 0]
  have "\<exists>e'. GetBlock sample_reader 0 sample_env = Some (sample_block, e')" by (auto simp: GetBlock_def)
  ultimately show ?thesis
    using GetFirstBlockOfDate_window [OF _ sample_times, of 1231006505 sample_reader] d
    by (simp add: sample_record_at)
qed

text \<open>
  \<^verbatim>\<open>GetLastBlockOfDate\<close> starts at the index equal to the count. When the table is exactly as long
  as the count, every call reads past its end; and it never looks at the block of index 0.
\<close>

theorem GetLastBlockOfDate_overrun:
  assumes "ir_blockIndexRecord (env_records e) = At arr"
    and "ir_blockIndexRecordCount (env_records e) = length arr" and "arr \<noteq> []"
  shows "GetLastBlockOfDate rdr t e = None \<and>
    (\<forall>start stop. last_loop rdr start stop 0 e = Some (zero_block, e))"
  using assms last_loop_overrun [of "length arr" e]
  by (simp add: GetLastBlockOfDate_def record_time_def record_at_def rd_def)

theorem GetLastBlockOfDate_overrun_witness:
  "GetLastBlockOfDate sample_reader 1231006505 sample_env = None"
  using GetLastBlockOfDate_overrun [of sample_env "[Some (sample_record\<lparr>bir_blockOffset := 9\<rparr>)]"]
  by (simp add: sample_env_def)

text \<open>
  \<^verbatim>\<open>GetBlocksOfDay\<close> asks for the heights from the first to the last index of the window that
  stand before the first time past the window; with none it returns no blocks. (Block times do not
  increase strictly: later blocks of the day behind a block past the window are lost.)
\<close>

theorem GetBlocksOfDay_range:
  assumes "times_ok e ts"
  shows "GetBlocksOfDay rdr t e =
    (let hits = day_hits (day_start t) (day_end t) ts 0 (length ts) in
     if hits = [] then Some (\<lparr>bks_blocks = Null, bks_count = 0\<rparr>, e)
     else record_at e (int (hd hits)) \<bind> (\<lambda>r1. record_at e (int (last hits)) \<bind> (\<lambda>r2.
       GetBlocks rdr (height_arg r1) (sint (ucast (bir_height r2 - bir_height r1 + 1) :: u32)) e)))"
proof -
  have "\<forall>j < 0 + length ts. record_time e (int j) = Some (ts ! j)" using assms by (simp add: times_ok_def)
  from day_loop_hits [OF this, of "day_start t" "day_end t" "-1" "-1"] assms show ?thesis
    by (simp add: GetBlocksOfDay_def times_ok_def Let_def)
qed

theorem GetBlocksOfDay_range_witness:
  "\<exists>e'. GetBlocksOfDay sample_reader 1231006505 sample_env = Some (\<lparr>bks_blocks = At [sample_block], bks_count = 1\<rparr>, e')"
proof -
  have "day_hits (day_start 1231006505) (day_end 1231006505) [1231006505] 0 (length [1231006505 :: u32]) = [0]"
    by (simp add: day_start_def day_end_def)
  moreover have "height_arg (sample_record\<lparr>bir_blockOffset := 9\<rparr>) = 0"
    by (simp add: height_arg_def sample_record_def)
  moreover from GetBlock_at_stored [OF sample_env_ok sample_stored, of 0]
  have "\<exists>e'. GetBlocks sample_reader 0 1 sample_env = Some (\<lparr>bks_blocks = At [sample_block], bks_count = 1\<rparr>, e')"
    using memory_limit [of 1] by (auto simp: GetBlocks_def c_int_def)
  ultimately show ?thesis
    using GetBlocksOfDay_range [OF sample_times, of sample_reader 1231006505]
    by (simp add: sample_record_at)
qed

text \<open>
  The statistics of a parsed block: the counts of inputs and outputs are the sums over its
  transactions (modulo \<open>2 ^ 64\<close>); the total size and the total amount are the sums plus whatever
  the stack held, because the result is cleared only for the size of a \<^verbatim>\<open>Block\<close>.
\<close>

theorem GetBlockStats_sums:
  assumes "blk_transactions b = At txs" and "length txs = unat (blk_txCount b)" and "list_all shape_tx txs"
  shows "GetBlockStats junkOut junkSize b = Some
    \<lparr>bst_blockHash = blk_hash b, bst_height = blk_height b,
     bst_ins = sum_list (map (\<lambda>t. ucast (tx_inputCount t)) txs),
     bst_outs = sum_list (map (\<lambda>t. ucast (tx_outputCount t)) txs),
     bst_time = ucast (bh_time (blk_header b)),
     bst_totalOut = junkOut + sum_list (map (\<lambda>t. sum_list (map out_amount (outputs_of t))) txs),
     bst_totalSize = junkSize + sum_list (map (\<lambda>t. ucast (tx_size t)) txs)\<rparr>"
proof (cases "blk_txCount b = 0")
  case True
  with assms show ?thesis by (simp add: GetBlockStats_def)
next
  case False
  with assms stats_loop_eq [of 0 "length txs" txs] show ?thesis by (simp add: GetBlockStats_def)
qed

theorem GetBlockStats_sums_witness:
  "\<exists>s. GetBlockStats 0 1000 sample_block = Some s \<and> bst_totalSize s = 1068"
proof -
  have "shape_tx sample_tx" "tx_size sample_tx = 68"
    using sample_tx_ok by (simp_all add: ok_tx_def sample_tx_ser sample_tx_length)
  with GetBlockStats_sums [of sample_block "[sample_tx]" 0 1000] show ?thesis
    by (simp add: sample_block_def block_of_def)
qed

end
