(* ===== verification/Files.thy ===== *)
theory Files
  imports File_Cache
begin

text \<open>
  \<^verbatim>\<open>src/files.c\<close>: patterns of file names, the listing of a directory, the shell commands and the
  choice of a data directory. The file system is a parameter: \<open>is_dir\<close> says what \<^verbatim>\<open>stat\<close> reports,
  \<open>entries\<close> what \<^verbatim>\<open>opendir\<close> and \<^verbatim>\<open>readdir\<close> give. A string is the list of its characters, without
  the terminator.
\<close>

section \<open>Wildcards\<close>

text \<open>
  \<open>p\<close> and \<open>s\<close> are what is left of the pattern and the string; \<open>star\<close> holds the pattern behind the
  last star and the place \<^verbatim>\<open>ss\<close> where its match is tried.
\<close>

function WildcardMatch_loop :: "string \<Rightarrow> string \<Rightarrow> (string \<times> string) option \<Rightarrow> bool" where
  "WildcardMatch_loop p s star =
     (if s = [] then dropWhile (\<lambda>c. c = CHR ''*'') p = []
      else if p \<noteq> [] \<and> (hd p = CHR ''?'' \<or> hd p = hd s) then WildcardMatch_loop (tl p) (tl s) star
      else if p \<noteq> [] \<and> hd p = CHR ''*'' then WildcardMatch_loop (tl p) s (Some (tl p, s))
      else (case star of
              Some (q, ss) \<Rightarrow> WildcardMatch_loop q (tl ss) (Some (q, tl ss))
            | None \<Rightarrow> False))"
  by pat_completeness auto
termination
  by (relation "measures
      [\<lambda>(p, s, star). case star of None \<Rightarrow> length p + 1 | Some (q, ss) \<Rightarrow> max (length p) (length q),
       \<lambda>(p, s, star). case star of None \<Rightarrow> 0 | Some (q, ss) \<Rightarrow> length ss,
       \<lambda>(p, s, star). length s]")
    (auto split: option.splits simp: neq_Nil_conv, (metis diff_less length_greater_0_conv zero_less_Suc)+)

declare WildcardMatch_loop.simps [simp del]

definition WildcardMatch :: "string \<Rightarrow> string \<Rightarrow> bool" where
  "WildcardMatch str pattern = WildcardMatch_loop pattern str None"

text \<open>What a pattern means.\<close>

fun glob :: "string \<Rightarrow> string \<Rightarrow> bool" where
  "glob [] s = (s = [])"
| "glob (c # p) s =
     (if c = CHR ''*'' then list_ex (\<lambda>k. glob p (drop k s)) [0..<length s + 1]
      else (case s of [] \<Rightarrow> False | d # s \<Rightarrow> (c = CHR ''?'' \<or> c = d) \<and> glob p s))"

lemma glob_star: "glob (CHR ''*'' # p) s \<longleftrightarrow> (\<exists>k \<le> length s. glob p (drop k s))"
  by (simp add: list_ex_iff less_Suc_eq_le Bex_def del: upt_Suc)

lemma glob_char: "c \<noteq> CHR ''*'' \<Longrightarrow>
    glob (c # p) s \<longleftrightarrow> (\<exists>d s'. s = d # s' \<and> (c = CHR ''?'' \<or> c = d) \<and> glob p s')"
  by (cases s) auto

lemma glob_nil: "glob p [] \<longleftrightarrow> dropWhile (\<lambda>c. c = CHR ''*'') p = []"
  by (induction p) auto

declare glob.simps(2) [simp del]

lemma glob_suffix_star:
  assumes "glob (CHR ''*'' # p) (drop k s)"
  shows "glob (CHR ''*'' # p) s"
proof (cases "k \<le> length s")
  case True
  with assms obtain j where "j \<le> length s - k" "glob p (drop (j + k) s)"
    by (auto simp: glob_star drop_drop)
  with True show ?thesis unfolding glob_star by (intro exI [of _ "j + k"]) auto
next
  case False
  with assms have "glob (CHR ''*'' # p) []" by simp
  then have "glob p []" by (simp add: glob_star)
  then show ?thesis unfolding glob_star by (intro exI [of _ "length s"]) simp
qed

lemma glob_plain_prefix:
  assumes "glob (u @ p) s" and "CHR ''*'' \<notin> set u"
  shows "length u \<le> length s \<and> glob p (drop (length u) s)"
  using assms
proof (induction u arbitrary: s)
  case (Cons c u)
  then obtain d s' where "s = d # s'" "glob (u @ p) s'" by (auto simp: glob_char)
  with Cons.IH [of s'] Cons.prems show ?case by simp
qed simp

text \<open>
  The invariant of the search: since the last star, a part \<open>u\<close> of the pattern without a star has
  been matched to as many characters. Then the loop decides whether the rest matches here or the
  pattern behind the star matches at a later place.
\<close>

definition retry :: "(string \<times> string) option \<Rightarrow> bool" where
  "retry star = (case star of None \<Rightarrow> False
     | Some (q, ss) \<Rightarrow> \<exists>k. 1 \<le> k \<and> k \<le> length ss \<and> glob q (drop k ss))"

lemma retry_Cons: "retry (Some (q, c # cs)) \<longleftrightarrow> glob q cs \<or> retry (Some (q, cs))"
proof
  assume "retry (Some (q, c # cs))"
  then obtain k where k: "1 \<le> k" "k \<le> Suc (length cs)" "glob q (drop k (c # cs))"
    by (auto simp: retry_def)
  then obtain j where "k = Suc j" by (cases k) auto
  with k show "glob q cs \<or> retry (Some (q, cs))" by (cases j) (auto simp: retry_def)
next
  assume "glob q cs \<or> retry (Some (q, cs))"
  then show "retry (Some (q, c # cs))"
  proof
    assume "glob q cs"
    then show ?thesis by (auto simp: retry_def intro!: exI [of _ 1])
  next
    assume "retry (Some (q, cs))"
    then obtain k where "1 \<le> k" "k \<le> length cs" "glob q (drop k cs)" by (auto simp: retry_def)
    then show ?thesis by (auto simp: retry_def intro!: exI [of _ "Suc k"])
  qed
qed

definition star_inv :: "string \<Rightarrow> string \<Rightarrow> (string \<times> string) option \<Rightarrow> bool" where
  "star_inv p s star = (case star of None \<Rightarrow> True
     | Some (q, ss) \<Rightarrow> \<exists>u v. q = u @ p \<and> ss = v @ s \<and> length u = length v \<and> CHR ''*'' \<notin> set u)"

lemma retry_star:
  assumes inv: "star_inv p s star" and p: "p = CHR ''*'' # p' \<or> s = []" and r: "retry star"
  shows "glob p s"
proof -
  from r obtain q ss k where s: "star = Some (q, ss)" "1 \<le> k" "k \<le> length ss" "glob q (drop k ss)"
    by (auto simp: retry_def split: option.splits)
  with inv obtain u v where u: "q = u @ p" "ss = v @ s" "length u = length v" "CHR ''*'' \<notin> set u"
    by (auto simp: star_inv_def)
  from glob_plain_prefix [of u p "drop k ss"] s(4) u(1,4)
  have len: "length u \<le> length ss - k" and g: "glob p (drop (length u + k) ss)" by (simp_all add: drop_drop)
  from p show ?thesis
  proof
    assume "s = []"
    with u len s(2,3) show ?thesis by simp
  next
    assume star: "p = CHR ''*'' # p'"
    have "drop (length u + k) ss = drop k s" using u(2,3) by simp
    with g star show ?thesis using glob_suffix_star by simp
  qed
qed

lemma WildcardMatch_loop_glob:
  "CHR ''*'' \<notin> set s \<Longrightarrow> (\<forall>q ss. star = Some (q, ss) \<longrightarrow> CHR ''*'' \<notin> set ss) \<Longrightarrow> star_inv p s star \<Longrightarrow>
     WildcardMatch_loop p s star \<longleftrightarrow> glob p s \<or> retry star"
proof (induction p s star rule: WildcardMatch_loop.induct)
  case (1 p s star)
  note prems = "1.prems" and step = WildcardMatch_loop.simps [of p s star]
  show ?case
  proof (cases "s = []")
    case True
    then show ?thesis using retry_star [OF prems(3)] step glob_nil by auto
  next
    case False
    then obtain d s' where s: "s = d # s'" by (cases s) auto
    then have d: "d \<noteq> CHR ''*''" using prems(1) by auto
    consider (char) c p' where "p = c # p'" "c = CHR ''?'' \<or> c = d" "c \<noteq> CHR ''*''"
      | (star) p' where "p = CHR ''*'' # p'"
      | (stuck) "\<not> (p \<noteq> [] \<and> (hd p = CHR ''?'' \<or> hd p = hd s))" "\<not> (p \<noteq> [] \<and> hd p = CHR ''*'')"
      using s d by (cases p) auto
    then show ?thesis
    proof cases
      case char
      then have "WildcardMatch_loop p s star = WildcardMatch_loop p' s' star" using step s by simp
      moreover have "star_inv p' s' star"
        using prems(3) char s by (auto simp: star_inv_def split: option.splits)
      moreover have "glob p s = glob p' s'" using char s by (auto simp: glob_char)
      ultimately show ?thesis using "1.IH"(1) False char s prems(1,2) by simp
    next
      case star
      have "WildcardMatch_loop p s star = WildcardMatch_loop p' s (Some (p', s))"
        using step star s d by simp
      also have "\<dots> \<longleftrightarrow> glob p' s \<or> retry (Some (p', s))"
        using "1.IH"(2) False star s d prems(1) by (simp add: star_inv_def)
      also have "\<dots> \<longleftrightarrow> glob p s"
        unfolding star glob_star retry_def by (simp, metis One_nat_def Suc_leI drop0 gr0I le0)
      finally show ?thesis using retry_star [OF prems(3)] star by blast
    next
      case stuck
      have no: "\<not> glob p s" using stuck s by (cases p) (auto simp: glob_char)
      show ?thesis
      proof (cases star)
        case None
        then show ?thesis using step False stuck no by (simp add: retry_def)
      next
        case (Some st)
        obtain q ss where st: "star = Some (q, ss)" using Some by (cases st) auto
        then have ne: "ss \<noteq> []" using prems(3) s by (auto simp: star_inv_def)
        have tl: "CHR ''*'' \<notin> set (tl ss)" using prems(2) st ne by (cases ss) auto
        have "WildcardMatch_loop p s star = WildcardMatch_loop q (tl ss) (Some (q, tl ss))"
          using step False stuck st by simp
        also have "\<dots> \<longleftrightarrow> glob q (tl ss) \<or> retry (Some (q, tl ss))"
          using "1.IH"(3) [OF False stuck, of "(q, ss)" q ss] st tl by (simp add: star_inv_def)
        also have "\<dots> \<longleftrightarrow> retry star"
        proof -
          obtain c cs where "ss = c # cs" using ne by (cases ss) auto
          then show ?thesis unfolding st using retry_Cons [of q c cs] by simp
        qed
        finally show ?thesis using no by simp
      qed
    qed
  qed
qed

lemma WildcardMatch_glob: "CHR ''*'' \<notin> set str \<Longrightarrow> WildcardMatch str pattern = glob pattern str"
  by (simp add: WildcardMatch_def WildcardMatch_loop_glob star_inv_def retry_def)

section \<open>Directories and commands\<close>

definition PATH_SEPARATOR :: char where
  "PATH_SEPARATOR = CHR ''/''"

text \<open>\<^verbatim>\<open>SanitizeDirString\<close> on a string in a buffer of \<open>cap\<close> bytes.\<close>

definition SanitizeDirString :: "nat \<Rightarrow> string \<Rightarrow> string option" where
  "SanitizeDirString cap dir =
     (if length dir > 0 \<and> dir ! (length dir - 1) \<noteq> PATH_SEPARATOR
      then (if length dir + 2 \<le> cap then Some (dir @ [PATH_SEPARATOR]) else None)
      else Some dir)"

text \<open>\<^verbatim>\<open>snprintf\<close> keeps what fits in the buffer.\<close>

definition snprintf :: "nat \<Rightarrow> string \<Rightarrow> string" where
  "snprintf n s = take (n - 1) s"

definition quoted :: "string \<Rightarrow> string" where
  "quoted s = [CHR 0x27] @ s @ [CHR 0x27]"

text \<open>The commands return what \<open>system\<close> returns for the command line; the messages go to \<^verbatim>\<open>stderr\<close>.\<close>

definition CopyDirectory :: "(string \<Rightarrow> int) \<Rightarrow> string \<Rightarrow> string \<Rightarrow> int \<times> string list" where
  "CopyDirectory system src_dir dest_dir =
     (let command = snprintf 1024 (''cp -r '' @ src_dir @ '' '' @ dest_dir) in
      if system command \<noteq> 0
      then (-1, [''Error copying directory from '' @ quoted src_dir @ '' to '' @ quoted dest_dir])
      else (0, []))"

definition DeleteDirectory :: "(string \<Rightarrow> int) \<Rightarrow> string \<Rightarrow> int \<times> string list" where
  "DeleteDirectory system dir_path =
     (let command = snprintf 1024 (''rm -rf '' @ dir_path) in
      if system command \<noteq> 0 then (-1, [''Error deleting directory '' @ quoted dir_path])
      else (0, []))"

definition IsDirectory :: "(string \<Rightarrow> bool) \<Rightarrow> string \<Rightarrow> bool" where
  "IsDirectory is_dir path = is_dir path"

definition GetFileSize :: "(string \<rightharpoonup> int) \<Rightarrow> string \<Rightarrow> int \<times> string list" where
  "GetFileSize stat filename =
     (case stat filename of Some n \<Rightarrow> (n, []) | None \<Rightarrow> (-1, [''stat'']))"

section \<open>The list of the files\<close>

text \<open>
  \<open>FileList\<close>: the files, of which there are \<^verbatim>\<open>count\<close>, and \<^verbatim>\<open>totalSize\<close>, the number of elements the
  array has room for. A store beyond it is undefined.
\<close>

record FileList =
  fl_files :: "FileInfo list"
  fl_totalSize :: nat

definition add_file :: "string \<Rightarrow> string \<Rightarrow> FileList \<Rightarrow> FileList option" where
  "add_file directory d_name fl =
     (let fl = (if length (fl_files fl) \<ge> fl_totalSize fl
                then fl\<lparr>fl_totalSize := fl_totalSize fl * 2\<rparr> else fl) in
      if length (fl_files fl) < fl_totalSize fl
      then Some (fl\<lparr>fl_files := fl_files fl @
        [\<lparr>fi_filepath = directory @ ''/'' @ d_name, fi_isOpen = 0, fi_file = Null\<rparr>]\<rparr>)
      else None)"

fun list_loop :: "string \<Rightarrow> string \<Rightarrow> string list \<Rightarrow> FileList \<Rightarrow> FileList option" where
  "list_loop directory pattern [] fl = Some fl"
| "list_loop directory pattern (d_name # ds) fl =
     (if WildcardMatch d_name pattern
      then do { fl \<leftarrow> add_file directory d_name fl; list_loop directory pattern ds fl }
      else list_loop directory pattern ds fl)"

definition ListFiles :: "(string \<rightharpoonup> string list) \<Rightarrow> string \<Rightarrow> string \<Rightarrow> u16 \<Rightarrow> FileList option" where
  "ListFiles entries directory pattern allocationSize =
     (case entries directory of
        None \<Rightarrow> Some \<lparr>fl_files = [], fl_totalSize = 0\<rparr>
      | Some ds \<Rightarrow> list_loop directory pattern ds \<lparr>fl_files = [], fl_totalSize = unat allocationSize\<rparr>)"

section \<open>The data directory\<close>

definition IsBitcoinDatadir :: "(string \<Rightarrow> bool) \<Rightarrow> string \<Rightarrow> bool" where
  "IsBitcoinDatadir is_dir path = IsDirectory is_dir path"

text \<open>
  A run may end in \<^verbatim>\<open>exit(1)\<close> (the left of the sum). \<^verbatim>\<open>strcat(strdup(home), "/.bitcoin")\<close> writes
  behind the copy of the home directory, so with \<^verbatim>\<open>HOME\<close> set building the table is undefined.
  \<^verbatim>\<open>strncpy\<close> with 512 leaves a shorter string terminated.
\<close>

definition defaultLocations :: "string list" where
  "defaultLocations = [''/usr/local/bitcoin'', ''/opt/bitcoin'', ''/var/lib/bitcoin'',
     ''/mnt/data/bitcoin'', ''/home/bitcoin/.bitcoin'']"

definition TryDefaultBitcoinDatadirs ::
  "(string \<Rightarrow> bool) \<Rightarrow> string option \<Rightarrow> (nat + string \<times> string list) option" where
  "TryDefaultBitcoinDatadirs is_dir home =
     (case home of
        Some h \<Rightarrow> None
      | None \<Rightarrow> Some (case find (IsBitcoinDatadir is_dir) defaultLocations of
          Some d \<Rightarrow> Inr (d, [''Using Bitcoin datadir: '' @ d])
        | None \<Rightarrow> Inl 1))"

definition GetBitcoinDatadir ::
  "(string \<Rightarrow> bool) \<Rightarrow> string option \<Rightarrow> string ptr \<Rightarrow> (nat + string \<times> string list) option" where
  "GetBitcoinDatadir is_dir home datadir =
     (let invalid = ''Provided datadir is invalid. Trying default locations...'' in
      case datadir of
        Wild \<Rightarrow> None
      | Null \<Rightarrow> (case TryDefaultBitcoinDatadirs is_dir home of
          Some (Inl c) \<Rightarrow> Some (Inl c)
        | _ \<Rightarrow> None)
      | At d \<Rightarrow>
          if length d = 0 \<or> \<not> IsBitcoinDatadir is_dir d
          then map_option (map_sum id (apsnd ((#) invalid))) (TryDefaultBitcoinDatadirs is_dir home)
          else Some (Inr (d, [''Provided datadir is valid: '' @ d])))"

section \<open>What the listing holds\<close>

definition listed :: "string \<Rightarrow> string \<Rightarrow> FileInfo" where
  "listed directory d_name = \<lparr>fi_filepath = directory @ ''/'' @ d_name, fi_isOpen = 0, fi_file = Null\<rparr>"

lemma list_loop_eq:
  assumes "0 < fl_totalSize fl" and "length (fl_files fl) \<le> fl_totalSize fl"
  shows "\<exists>n. list_loop directory pattern ds fl =
      Some \<lparr>fl_files = fl_files fl @ map (listed directory) [d \<leftarrow> ds. WildcardMatch d pattern], fl_totalSize = n\<rparr> \<and>
    length (fl_files fl) + length [d \<leftarrow> ds. WildcardMatch d pattern] \<le> n \<and> n \<ge> fl_totalSize fl"
  using assms
proof (induction ds arbitrary: fl)
  case Nil
  then show ?case by (cases fl) auto
next
  case (Cons d ds)
  show ?case
  proof (cases "WildcardMatch d pattern")
    case True
    let ?n = "if length (fl_files fl) \<ge> fl_totalSize fl then fl_totalSize fl * 2 else fl_totalSize fl"
    let ?fl = "\<lparr>fl_files = fl_files fl @ [listed directory d], fl_totalSize = ?n\<rparr>"
    have add: "add_file directory d fl = Some ?fl"
      using Cons.prems by (cases fl) (auto simp: add_file_def listed_def)
    have "0 < fl_totalSize ?fl" "length (fl_files ?fl) \<le> fl_totalSize ?fl" using Cons.prems by auto
    from Cons.IH [OF this] True add show ?thesis by (auto split: if_splits)
  next
    case False
    with Cons.IH [OF Cons.prems] show ?thesis by simp
  qed
qed

section \<open>Properties\<close>

text \<open>
  The wildcard match, a loop with one point of return, decides the meaning of the pattern for
  every string without a star; a star in the string is taken for the star of the pattern.
\<close>

theorem WildcardMatch_correct:
  assumes "CHR ''*'' \<notin> set str"
  shows "WildcardMatch str pattern = glob pattern str \<and>
    \<not> WildcardMatch ''*ab'' ''*b'' \<and> glob ''*b'' ''*ab''"
proof -
  have "\<not> WildcardMatch ''*ab'' ''*b''"
    by (simp add: WildcardMatch_def WildcardMatch_loop.simps)
  moreover have "glob ''*b'' ''*ab''"
    unfolding glob_star by (rule exI [of _ 2]) (simp add: glob_char)
  ultimately show ?thesis using WildcardMatch_glob [OF assms] by blast
qed

theorem WildcardMatch_correct_witness:
  "WildcardMatch ''blk00012.dat'' ''blk*.dat'' = glob ''blk*.dat'' ''blk00012.dat''"
  using WildcardMatch_correct [of "''blk00012.dat''" "''blk*.dat''"] by simp

text \<open>
  With room for at least one element at the start, the listing never stores outside its array,
  however it grows, and holds one closed entry for each matching name in the order of the
  directory.
\<close>

theorem ListFiles_complete:
  assumes "entries directory = Some ds" and "allocationSize \<noteq> 0"
  shows "\<exists>n. ListFiles entries directory pattern allocationSize =
      Some \<lparr>fl_files = map (listed directory) [d \<leftarrow> ds. WildcardMatch d pattern], fl_totalSize = n\<rparr> \<and>
    length [d \<leftarrow> ds. WildcardMatch d pattern] \<le> n"
proof -
  have "0 < unat allocationSize" using assms(2) by (simp add: unat_gt_0)
  with list_loop_eq [of "\<lparr>fl_files = [], fl_totalSize = unat allocationSize\<rparr>" directory pattern ds] assms(1)
  show ?thesis by (auto simp: ListFiles_def)
qed

theorem ListFiles_complete_witness:
  "\<exists>n. ListFiles [''b'' \<mapsto> [''.'', ''blk1.dat'', ''rev1.dat'', ''blk0.dat'']] ''b'' ''blk*.dat'' 1 =
      Some \<lparr>fl_files = map (listed ''b'') [''blk1.dat'', ''blk0.dat''], fl_totalSize = n\<rparr>"
proof -
  have "[d \<leftarrow> [''.'', ''blk1.dat'', ''rev1.dat'', ''blk0.dat'']. WildcardMatch d ''blk*.dat''] =
      [''blk1.dat'', ''blk0.dat'']"
    by (simp add: WildcardMatch_def WildcardMatch_loop.simps)
  with ListFiles_complete [of "[''b'' \<mapsto> [''.'', ''blk1.dat'', ''rev1.dat'', ''blk0.dat'']]" "''b''"
      "[''.'', ''blk1.dat'', ''rev1.dat'', ''blk0.dat'']" 1 "''blk*.dat''"]
  show ?thesis by auto
qed

end
