(* ===== verification/Datadir.thy ===== *)
theory Datadir
  imports Api Files
begin

text \<open>
  \<^verbatim>\<open>src/parser.c\<close>, \<^verbatim>\<open>src/mlbtcc.c\<close> and the entry point of \<^verbatim>\<open>src/indexing.c\<close>: from the path of a data
  directory to the environment the API works on. \<open>system\<close> gathers what the operating system and
  the C library answer: which paths are directories, what they list, the contents of the files,
  the key-value stores, \<^verbatim>\<open>qsort\<close>, the environment variable \<^verbatim>\<open>USER\<close>, the two answers of
  \<^verbatim>\<open>IsBitcoindRunning\<close> and the results of \<^verbatim>\<open>system\<close>.
\<close>

record system =
  sys_is_dir :: "string \<Rightarrow> bool"
  sys_entries :: "string \<rightharpoonup> string list"
  sys_disk :: disk
  sys_store :: store
  sys_qsort :: "(FileInfo \<Rightarrow> FileInfo \<Rightarrow> int) \<Rightarrow> FileInfo list \<Rightarrow> FileInfo list"
  sys_USER :: "string option"
  sys_running :: "bool \<times> bool"
  sys_system :: "string \<Rightarrow> int"

record MLBTCC_ENV =
  me_dataDir :: string
  me_blocksDir :: string
  me_indexesDir :: string
  me_status :: u32
  me_env :: env
  me_out :: "string list"

definition MAX_PATH_LENGTH :: nat where "MAX_PATH_LENGTH = 512"
definition HAS_DATADIR :: nat where "HAS_DATADIR = 0"
definition HAS_BLOCK_INDEX_RECORD :: u32 where "HAS_BLOCK_INDEX_RECORD = 1"
definition HAS_INDEXES :: nat where "HAS_INDEXES = 4"
definition HAS_TXINDEX :: nat where "HAS_TXINDEX = 8"
definition HAS_COINSTAT :: nat where "HAS_COINSTAT = 16"

text \<open>\<^verbatim>\<open>SET_BIT(value, bit)\<close> shifts by its second argument; the enum has 32 bits.\<close>

definition SET_BIT :: "u32 \<Rightarrow> nat \<Rightarrow> u32" where
  "SET_BIT v n = ucast (ucast v OR push_bit n (1 :: u64))"

section \<open>Finding the directory\<close>

definition defaultDatadirs :: "string list" where
  "defaultDatadirs = [''/home/bitcoin/.bitcoin/'', ''/home/$USER/.bitcoin/'',
     ''/Users/$USER/Library/Application Support/Bitcoin/'', ''/root/.bitcoin/'',
     ''/var/lib/bitcoind/'', ''/mnt/data/bitcoin/'']"

text \<open>\<^verbatim>\<open>strcpy\<close> into a buffer of \<^verbatim>\<open>MAX_PATH_LENGTH\<close> bytes.\<close>

definition strcpy_path :: "string \<Rightarrow> string option" where
  "strcpy_path s = (if length s < MAX_PATH_LENGTH then Some s else None)"

definition ExpandUserDir :: "string option \<Rightarrow> string \<Rightarrow> string option" where
  "ExpandUserDir user path =
     (if strstr path ''$USER'' \<noteq> None \<or> strstr path ''~'' \<noteq> None
      then (case user of
              Some u \<Rightarrow> do {
                tmp \<leftarrow> strcpy_path path;
                (case strstr tmp ''$USER'' of
                   Some dollar \<Rightarrow> Some (snprintf MAX_PATH_LENGTH
                     (take (length tmp - length dollar) tmp @ u @ drop 5 dollar))
                 | None \<Rightarrow> strcpy_path path)
              }
            | None \<Rightarrow> strcpy_path path)
      else strcpy_path path)"

fun search_dirs :: "system \<Rightarrow> string list \<Rightarrow> string option option" where
  "search_dirs sys [] = Some None"
| "search_dirs sys (d # ds) = do {
     expanded \<leftarrow> ExpandUserDir (sys_USER sys) d;
     if IsDirectory (sys_is_dir sys) expanded then Some (Some expanded) else search_dirs sys ds
   }"

definition SearchDefaultDatadirs :: "system \<Rightarrow> string option option" where
  "SearchDefaultDatadirs sys = search_dirs sys defaultDatadirs"

section \<open>The key\<close>

definition LoadXorKey :: "system \<Rightarrow> string \<Rightarrow> MLBTCC_ENV \<Rightarrow> MLBTCC_ENV" where
  "LoadXorKey sys datadir gEnv =
     (let path = snprintf 4096 (datadir @ ''/blocks/xor.dat'') in
      case sys_disk sys path of
        None \<Rightarrow> gEnv\<lparr>me_env := (me_env gEnv)\<lparr>env_xorKey := replicate 8 0\<rparr>,
          me_out := me_out gEnv @ [''Failed to open xor.dat'']\<rparr>
      | Some content \<Rightarrow>
          if length (take 8 content) \<noteq> 8
          then gEnv\<lparr>me_env := (me_env gEnv)\<lparr>env_xorKey := replicate 8 0\<rparr>,
            me_out := me_out gEnv @ [''Invalid xor.dat file size'']\<rparr>
          else gEnv\<lparr>me_env := (me_env gEnv)\<lparr>env_xorKey := take 8 content\<rparr>\<rparr>)"

section \<open>The directory\<close>

definition set_status :: "system \<Rightarrow> MLBTCC_ENV \<Rightarrow> MLBTCC_ENV" where
  "set_status sys gEnv =
     (let status = SET_BIT (me_status gEnv) HAS_DATADIR;
          status = (if IsDirectory (sys_is_dir sys) (me_indexesDir gEnv)
            then (let txindex = snprintf MAX_PATH_LENGTH (me_indexesDir gEnv @ ''/txindex'');
                      coinstat = snprintf MAX_PATH_LENGTH (me_indexesDir gEnv @ ''/coinstat'');
                      status = SET_BIT status HAS_INDEXES;
                      status = (if IsDirectory (sys_is_dir sys) txindex then SET_BIT status HAS_TXINDEX else status)
                  in (if IsDirectory (sys_is_dir sys) coinstat then SET_BIT status HAS_COINSTAT else status))
            else status)
      in gEnv\<lparr>me_status := status\<rparr>)"

text \<open>\<^verbatim>\<open>strncpy\<close> with 512 bytes leaves a path of 512 characters without a terminator.\<close>

definition parse_dirs :: "system \<Rightarrow> string \<Rightarrow> MLBTCC_ENV \<Rightarrow> MLBTCC_ENV run" where
  "parse_dirs sys datadir gEnv =
     (let gEnv = gEnv\<lparr>me_blocksDir := snprintf MAX_PATH_LENGTH (datadir @ ''blocks/''),
            me_indexesDir := snprintf MAX_PATH_LENGTH (datadir @ ''indexes/'')\<rparr> in
      if \<not> IsDirectory (sys_is_dir sys) (me_blocksDir gEnv) then Exit 1
      else (let gEnv = LoadXorKey sys (me_dataDir gEnv) gEnv in
        case BytesToHex (env_xorKey (me_env gEnv)) 8 of
          None \<Rightarrow> Undef
        | Some xooor \<Rightarrow>
            Ret (set_status sys (gEnv\<lparr>me_out := me_out gEnv @ [''XORKEY: '' @ take 16 xooor]\<rparr>))))"

definition ParseCoreDatadir :: "system \<Rightarrow> string \<Rightarrow> MLBTCC_ENV \<Rightarrow> MLBTCC_ENV run" where
  "ParseCoreDatadir sys path gEnv =
     (if IsDirectory (sys_is_dir sys) path
      then (case strcpy_path path of None \<Rightarrow> Undef | Some datadir \<Rightarrow> parse_dirs sys datadir gEnv)
      else (case SearchDefaultDatadirs sys of
              None \<Rightarrow> Undef
            | Some None \<Rightarrow> Exit 1
            | Some (Some datadir) \<Rightarrow> parse_dirs sys datadir (gEnv\<lparr>me_out := me_out gEnv @
                [''Couldnt open '' @ path @ '' - fallback to '' @ me_dataDir gEnv]\<rparr>)))"

section \<open>Indexing\<close>

definition build_index :: "system \<Rightarrow> BlockHeader \<Rightarrow> string \<Rightarrow> MLBTCC_ENV \<Rightarrow> MLBTCC_ENV run" where
  "build_index sys junk dir gEnv =
     (case BuildBlockIndexRecords junk (sys_store sys) dir (env_records (me_env gEnv)) of
        Undef \<Rightarrow> Undef | Exit c \<Rightarrow> Exit c
      | Ret ir \<Rightarrow> Ret (gEnv\<lparr>me_env := (me_env gEnv)\<lparr>env_records := ir\<rparr>\<rparr>))"

definition IndexCoreDatadir :: "system \<Rightarrow> BlockHeader \<Rightarrow> MLBTCC_ENV \<Rightarrow> MLBTCC_ENV run" where
  "IndexCoreDatadir sys junk gEnv =
     (let blkIndexesDir = snprintf MAX_PATH_LENGTH (me_blocksDir gEnv @ ''/index/'') in
      case ListFiles (sys_entries sys) (me_blocksDir gEnv) ''blk*.dat'' 5000 of
        None \<Rightarrow> Undef
      | Some fl \<Rightarrow>
        (case SortFiles (sys_qsort sys) (fl_files fl) of
           None \<Rightarrow> Undef
         | Some files \<Rightarrow>
           (let e = me_env gEnv;
                gEnv = gEnv\<lparr>me_env := e\<lparr>env_files := (env_files e)\<lparr>fs_files := files\<rparr>\<rparr>,
                  me_out := me_out gEnv @ [''Bitcoin running '' @
                    (if fst (sys_running sys) then ''1'' else ''0'')]\<rparr> in
            if \<not> snd (sys_running sys) then build_index sys junk blkIndexesDir gEnv
            else (let (_, e1) = CopyDirectory (sys_system sys) blkIndexesDir ''/tmp/block-index'' in
              case build_index sys junk ''/tmp/block-index'' (gEnv\<lparr>me_out := me_out gEnv @ e1\<rparr>) of
                Undef \<Rightarrow> Undef | Exit c \<Rightarrow> Exit c
              | Ret gEnv \<Rightarrow> (let (_, e2) = DeleteDirectory (sys_system sys) ''/tmp/block-index'' in
                  Ret (gEnv\<lparr>me_out := me_out gEnv @ e2\<rparr>))))))"

text \<open>
  \<^verbatim>\<open>InitMLBTCC\<close> clears the environment; the cache of open files, a variable of the block reader,
  keeps its slots and streams.
\<close>

definition InitMLBTCC :: "system \<Rightarrow> BlockHeader \<Rightarrow> string \<Rightarrow> file_state \<Rightarrow> MLBTCC_ENV run" where
  "InitMLBTCC sys junk path cache =
     (let gEnv = \<lparr>me_dataDir = [], me_blocksDir = [], me_indexesDir = [], me_status = 0,
            me_env = \<lparr>env_files = cache\<lparr>fs_files := []\<rparr>, env_records = empty_records,
              env_xorKey = replicate 8 0\<rparr>,
            me_out = []\<rparr> in
      case ParseCoreDatadir sys path gEnv of
        Undef \<Rightarrow> Undef | Exit c \<Rightarrow> Exit c
      | Ret gEnv \<Rightarrow> IndexCoreDatadir sys junk gEnv)"

section \<open>A data directory that can be read\<close>

text \<open>
  The directory \<open>path\<close> (with its final slash) has block files \<open>0 \<dots> n - 1\<close> in its \<^verbatim>\<open>blocks\<close> directory
  and an index \<open>es\<close> whose entries can be decoded; no node is running.
\<close>

definition core_datadir :: "system \<Rightarrow> BlockHeader \<Rightarrow> string \<Rightarrow> nat \<Rightarrow> entry list \<Rightarrow> bool" where
  "core_datadir sys junk path n es \<longleftrightarrow>
     sys_is_dir sys path \<and> sys_is_dir sys (path @ ''blocks/'') \<and> length path \<le> 400 \<and>
     strstr (path @ ''blocks//'') ''blk'' = None \<and> \<not> snd (sys_running sys) \<and>
     qsort_contract (sys_qsort sys) \<and> n \<le> 100000 \<and>
     (\<exists>ds. sys_entries sys (path @ ''blocks/'') = Some ds \<and>
       mset [d \<leftarrow> ds. WildcardMatch d ''blk*.dat''] = mset (map blk_name [0..<n])) \<and>
     sys_store sys (path @ ''blocks//index/'') = Inr es \<and> store_ok junk es \<and>
     list_all (\<lambda>h. h < length (with_prefix 0x62 es)) (heights (chain_records junk es))"

definition block_paths :: "string \<Rightarrow> nat \<Rightarrow> string list" where
  "block_paths path n = map (\<lambda>k. path @ ''blocks//'' @ blk_name k) [0..<n]"

definition key_of :: "system \<Rightarrow> bytes" where
  "key_of sys = (case sys_disk sys ''/blocks/xor.dat'' of
     Some content \<Rightarrow> if 8 \<le> length content then take 8 content else replicate 8 0
   | None \<Rightarrow> replicate 8 0)"

lemma LoadXorKey_env: "me_env (LoadXorKey sys [] gEnv) = (me_env gEnv)\<lparr>env_xorKey := key_of sys\<rparr>"
  by (simp add: LoadXorKey_def key_of_def snprintf_def Let_def split: option.splits)

lemma LoadXorKey_rest [simp]:
  "me_blocksDir (LoadXorKey sys d gEnv) = me_blocksDir gEnv"
  "me_indexesDir (LoadXorKey sys d gEnv) = me_indexesDir gEnv"
  "me_dataDir (LoadXorKey sys d gEnv) = me_dataDir gEnv"
  "me_status (LoadXorKey sys d gEnv) = me_status gEnv"
  by (simp_all add: LoadXorKey_def Let_def split: option.splits)

lemma set_status_rest [simp]:
  "me_env (set_status sys gEnv) = me_env gEnv" "me_blocksDir (set_status sys gEnv) = me_blocksDir gEnv"
  "me_dataDir (set_status sys gEnv) = me_dataDir gEnv" "me_indexesDir (set_status sys gEnv) = me_indexesDir gEnv"
  by (simp_all add: set_status_def Let_def)

lemma length_key [simp]: "length (key_of sys) = 8"
  by (simp add: key_of_def split: option.splits)

lemma parse_dirs_Ret:
  assumes "sys_is_dir sys (d @ ''blocks/'')" and "length d \<le> 400" and "me_dataDir gEnv = []"
  shows "\<exists>g. parse_dirs sys d gEnv = Ret g \<and> me_env g = (me_env gEnv)\<lparr>env_xorKey := key_of sys\<rparr> \<and>
    me_blocksDir g = d @ ''blocks/'' \<and> me_dataDir g = []"
proof -
  let ?g = "gEnv\<lparr>me_blocksDir := d @ ''blocks/'', me_indexesDir := d @ ''indexes/''\<rparr>"
  let ?l = "LoadXorKey sys [] ?g"
  have p: "snprintf MAX_PATH_LENGTH (d @ ''blocks/'') = d @ ''blocks/''"
    "snprintf MAX_PATH_LENGTH (d @ ''indexes/'') = d @ ''indexes/''"
    using assms(2) by (simp_all add: snprintf_def MAX_PATH_LENGTH_def)
  have k: "me_env ?l = (me_env gEnv)\<lparr>env_xorKey := key_of sys\<rparr>" by (simp add: LoadXorKey_env)
  then obtain x where x: "BytesToHex (env_xorKey (me_env ?l)) 8 = Some x"
    using BytesToHex_eq [of "key_of sys"] by simp
  with assms k show ?thesis
    by (simp add: parse_dirs_def p IsDirectory_def Let_def)
qed

lemma listed_paths: "map fi_filepath (map (listed d) ns) = map (\<lambda>k. d @ ''/'' @ k) ns"
  by (simp add: listed_def)

lemma sorted_block_files:
  assumes dd: "core_datadir sys junk path n es"
  shows "\<exists>fl. ListFiles (sys_entries sys) (path @ ''blocks/'') ''blk*.dat'' 5000 = Some fl \<and>
    SortFiles (sys_qsort sys) (fl_files fl) = Some (fs_files (init_files (block_paths path n)))"
proof -
  let ?d = "path @ ''blocks/''"
  obtain ds where ds: "sys_entries sys ?d = Some ds"
    "mset [d \<leftarrow> ds. WildcardMatch d ''blk*.dat''] = mset (map blk_name [0..<n])"
    using dd by (auto simp: core_datadir_def)
  let ?fs = "map (listed ?d) [d \<leftarrow> ds. WildcardMatch d ''blk*.dat'']"
  have q: "qsort_contract (sys_qsort sys)" and n: "n \<le> 100000" and blk: "strstr (?d @ ''/'') ''blk'' = None"
    using dd by (auto simp: core_datadir_def)
  have "0 < fl_totalSize \<lparr>fl_files = [], fl_totalSize = unat (5000 :: u16)\<rparr>" by simp
  from list_loop_eq [OF this, of ?d "''blk*.dat''" ds] obtain m where
    fl: "ListFiles (sys_entries sys) ?d ''blk*.dat'' 5000 = Some \<lparr>fl_files = ?fs, fl_totalSize = m\<rparr>"
    using ds(1) by (auto simp: ListFiles_def)
  have ms: "mset ?fs = mset (map (listed ?d \<circ> blk_name) [0..<n])"
    using arg_cong [OF ds(2), of "image_mset (listed ?d)"] by (simp add: multiset.map_comp comp_def)
  have num: "k < n \<Longrightarrow> ExtractBlockNumber (fi_filepath (listed ?d (blk_name k))) = Some (int k)" for k
    using ExtractBlockNumber_blk [OF _ blk, of k] n by (simp add: listed_def)
  have "set ?fs = listed ?d ` blk_name ` {..<n}"
    using arg_cong [OF ms, of set_mset] by (auto simp: image_image)
  then have ok: "numbered ?fs" using num by (auto simp: numbered_def list_all_iff)
  have fnum: "map file_number (map (listed ?d \<circ> blk_name) [0..<n]) = map int [0..<n]"
    using num by (simp add: file_number_def)
  obtain fs where s: "SortFiles (sys_qsort sys) ?fs = Some fs" "mset fs = mset ?fs" "sorted (map file_number fs)"
    using SortFiles_sorts [OF q ok] by blast
  have "fs = map (listed ?d \<circ> blk_name) [0..<n]"
  proof (rule nth_equalityI)
    show len: "length fs = length (map (listed ?d \<circ> blk_name) [0..<n])"
      using mset_eq_length [OF trans [OF s(2) ms]] .
    have "mset (map file_number ?fs) = mset (map int [0..<length ?fs])"
    proof -
      have "mset (map file_number ?fs) = mset (map file_number (map (listed ?d \<circ> blk_name) [0..<n]))"
        using arg_cong [OF ms, of "image_mset file_number"] by (simp only: mset_map [symmetric])
      also have "\<dots> = mset (map int [0..<n])" by (simp only: fnum)
      finally show ?thesis using mset_eq_length [OF ms] by simp
    qed
    with sorted_index_iff [OF s(2,3)] have idx: "\<forall>i < length fs. file_number (fs ! i) = int i" by blast
    fix i assume i: "i < length fs"
    then have "fs ! i \<in> set (map (listed ?d \<circ> blk_name) [0..<n])" using nth_mem [OF i] mset_eq_setD [OF trans [OF s(2) ms]] by blast
    then obtain k where k: "k < n" "fs ! i = listed ?d (blk_name k)" by auto
    then have "file_number (fs ! i) = int k" using num by (simp add: file_number_def)
    with idx i have "k = i" by simp
    with k i len show "fs ! i = map (listed ?d \<circ> blk_name) [0..<n] ! i" by simp
  qed
  then have "fs = fs_files (init_files (block_paths path n))"
    by (simp add: init_files_def block_paths_def listed_def)
  with fl s(1) show ?thesis by simp
qed

lemma InitMLBTCC_ready:
  assumes dd: "core_datadir sys junk path n es"
  shows "\<exists>gEnv. InitMLBTCC sys junk path (init_files []) = Ret gEnv \<and>
    env_files (me_env gEnv) = init_files (block_paths path n) \<and>
    env_xorKey (me_env gEnv) = key_of sys \<and>
    ir_blockIndexRecord (env_records (me_env gEnv)) =
      At (table (length (with_prefix 0x62 es)) (chain_records junk es)) \<and>
    ir_blockIndexRecordCount (env_records (me_env gEnv)) = length (chain_records junk es)"
proof -
  have d: "sys_is_dir sys path" "sys_is_dir sys (path @ ''blocks/'')" "length path \<le> 400"
    "\<not> snd (sys_running sys)" "sys_store sys (path @ ''blocks//index/'') = Inr es" "store_ok junk es"
    "\<forall>h \<in> set (heights (chain_records junk es)). h < length (with_prefix 0x62 es)"
    using dd by (auto simp: core_datadir_def list_all_iff)
  let ?e0 = "\<lparr>env_files = (init_files [])\<lparr>fs_files := []\<rparr>, env_records = empty_records, env_xorKey = replicate 8 0\<rparr>"
  let ?g0 = "\<lparr>me_dataDir = [], me_blocksDir = [], me_indexesDir = [], me_status = 0, me_env = ?e0, me_out = []\<rparr>"
  obtain g where g: "parse_dirs sys path ?g0 = Ret g" "me_env g = ?e0\<lparr>env_xorKey := key_of sys\<rparr>"
    "me_blocksDir g = path @ ''blocks/''"
    using parse_dirs_Ret [OF d(2,3), of ?g0] by auto
  have dir: "snprintf MAX_PATH_LENGTH ((path @ ''blocks/'') @ ''/index/'') = path @ ''blocks//index/''"
    using d(3) by (simp add: snprintf_def MAX_PATH_LENGTH_def)
  obtain fl where fl: "ListFiles (sys_entries sys) (path @ ''blocks/'') ''blk*.dat'' 5000 = Some fl"
    "SortFiles (sys_qsort sys) (fl_files fl) = Some (fs_files (init_files (block_paths path n)))"
    using sorted_block_files [OF dd] by blast
  have files: "(init_files [])\<lparr>fs_files := fs_files (init_files ps)\<rparr> = init_files ps" for ps
    by (simp add: init_files_def)
  show ?thesis
    using BuildBlockIndexRecords_eq [of "sys_store sys" "path @ ''blocks//index/''" es junk, OF d(5,6)] d(7)
    using g d(1,3,4) fl dir files
    by (simp add: InitMLBTCC_def ParseCoreDatadir_def IsDirectory_def strcpy_path_def MAX_PATH_LENGTH_def
        IndexCoreDatadir_def build_index_def Let_def)
qed

section \<open>The status\<close>

lemma bit_SET_BIT: "n < 32 \<Longrightarrow> bit (SET_BIT v n) k \<longleftrightarrow> bit v k \<or> k = n"
  by (auto simp: SET_BIT_def bit_simps bit_imp_le_length dest: bit_imp_le_length)

lemma status_bits:
  "bit (me_status (set_status sys gEnv)) k \<longleftrightarrow> bit (me_status gEnv) k \<or> k = 0 \<or>
     sys_is_dir sys (me_indexesDir gEnv) \<and> (k = 4 \<or>
       k = 8 \<and> sys_is_dir sys (snprintf 512 (me_indexesDir gEnv @ ''/txindex'')) \<or>
       k = 16 \<and> sys_is_dir sys (snprintf 512 (me_indexesDir gEnv @ ''/coinstat'')))"
  by (auto simp: set_status_def Let_def IsDirectory_def bit_SET_BIT HAS_DATADIR_def HAS_INDEXES_def
      HAS_TXINDEX_def HAS_COINSTAT_def MAX_PATH_LENGTH_def)

section \<open>The directory chosen\<close>

text \<open>The path asked for when it is a directory, else the first default directory that exists.\<close>

definition expand_user :: "string option \<Rightarrow> string \<Rightarrow> string" where
  "expand_user user p = (case (user, strstr p ''$USER'') of
     (Some u, Some rest) \<Rightarrow> snprintf 512 (take (length p - length rest) p @ u @ drop 5 rest)
   | _ \<Rightarrow> p)"

definition chosen_dir :: "system \<Rightarrow> string \<Rightarrow> string option" where
  "chosen_dir sys path =
     (if sys_is_dir sys path then Some path
      else find (sys_is_dir sys) (map (expand_user (sys_USER sys)) defaultDatadirs))"

lemma ExpandUserDir_eq: "length p < 512 \<Longrightarrow> ExpandUserDir user p = Some (expand_user user p)"
  by (auto simp: ExpandUserDir_def expand_user_def strcpy_path_def MAX_PATH_LENGTH_def split: option.splits)

lemma search_dirs_eq:
  "list_all (\<lambda>d. length d < 512) ds \<Longrightarrow>
     search_dirs sys ds = Some (find (sys_is_dir sys) (map (expand_user (sys_USER sys)) ds))"
  by (induction ds) (simp_all add: ExpandUserDir_eq IsDirectory_def)

lemma SearchDefaultDatadirs_eq:
  "SearchDefaultDatadirs sys = Some (find (sys_is_dir sys) (map (expand_user (sys_USER sys)) defaultDatadirs))"
  unfolding SearchDefaultDatadirs_def by (rule search_dirs_eq) (simp add: defaultDatadirs_def)

text \<open>
  The outcome for a directory \<open>d\<close> and the environment \<open>e\<close> of the block reader before the call.
\<close>

definition parsed_dir :: "system \<Rightarrow> env \<Rightarrow> string \<Rightarrow> MLBTCC_ENV run \<Rightarrow> bool" where
  "parsed_dir sys e d r \<longleftrightarrow>
     (let blocks = snprintf 512 (d @ ''blocks/''); indexes = snprintf 512 (d @ ''indexes/'') in
      case r of
        Undef \<Rightarrow> False
      | Exit c \<Rightarrow> c = 1 \<and> \<not> sys_is_dir sys blocks
      | Ret g \<Rightarrow> sys_is_dir sys blocks \<and> me_blocksDir g = blocks \<and> me_indexesDir g = indexes \<and>
          me_dataDir g = [] \<and> me_env g = e\<lparr>env_xorKey := key_of sys\<rparr> \<and>
          (\<forall>k. bit (me_status g) k \<longleftrightarrow> k = 0 \<or> sys_is_dir sys indexes \<and> (k = 4 \<or>
             k = 8 \<and> sys_is_dir sys (snprintf 512 (indexes @ ''/txindex'')) \<or>
             k = 16 \<and> sys_is_dir sys (snprintf 512 (indexes @ ''/coinstat'')))))"

lemma parse_dirs_parsed:
  assumes "me_dataDir gEnv = []" and "me_status gEnv = 0"
  shows "parsed_dir sys (me_env gEnv) d (parse_dirs sys d gEnv)"
proof (cases "sys_is_dir sys (snprintf 512 (d @ ''blocks/''))")
  case True
  define g where "g = gEnv\<lparr>me_blocksDir := snprintf 512 (d @ ''blocks/''), me_indexesDir := snprintf 512 (d @ ''indexes/'')\<rparr>"
  define l where "l = LoadXorKey sys [] g"
  have g: "me_blocksDir g = snprintf 512 (d @ ''blocks/'')" "me_indexesDir g = snprintf 512 (d @ ''indexes/'')"
    "me_dataDir g = []" "me_status g = 0" "me_env g = me_env gEnv" using assms by (simp_all add: g_def)
  then have l: "me_blocksDir l = snprintf 512 (d @ ''blocks/'')" "me_indexesDir l = snprintf 512 (d @ ''indexes/'')"
    "me_dataDir l = []" "me_status l = 0" "me_env l = (me_env gEnv)\<lparr>env_xorKey := key_of sys\<rparr>"
    by (simp_all add: l_def LoadXorKey_env)
  obtain x where x: "BytesToHex (env_xorKey (me_env l)) 8 = Some x"
    using BytesToHex_eq [of "key_of sys"] l(5) by simp
  define h where "h = l\<lparr>me_out := me_out l @ [''XORKEY: '' @ take 16 x]\<rparr>"
  have h: "me_blocksDir h = snprintf 512 (d @ ''blocks/'')" "me_indexesDir h = snprintf 512 (d @ ''indexes/'')"
    "me_dataDir h = []" "me_status h = 0" "me_env h = (me_env gEnv)\<lparr>env_xorKey := key_of sys\<rparr>"
    using l by (simp_all add: h_def)
  have "parse_dirs sys d gEnv = Ret (set_status sys h)"
    unfolding parse_dirs_def Let_def MAX_PATH_LENGTH_def IsDirectory_def g_def [symmetric] g(1,3) l_def [symmetric]
    using True x by (simp add: h_def)
  then show ?thesis using True h status_bits [of sys h] by (simp add: parsed_dir_def Let_def)
next
  case False
  then show ?thesis by (simp add: parse_dirs_def parsed_dir_def MAX_PATH_LENGTH_def IsDirectory_def Let_def)
qed

section \<open>Properties\<close>

text \<open>
  Initialising on a data directory with the block files \<open>0 \<dots> n - 1\<close> in any order and an index
  whose entries decode: the environment has the files sorted so that each is at its own number, all
  closed and the cache empty, and the index table with its count.
\<close>

theorem InitMLBTCC_environment:
  assumes "core_datadir sys junk path n es"
  shows "\<exists>gEnv. InitMLBTCC sys junk path (init_files []) = Ret gEnv \<and>
    env_files (me_env gEnv) = init_files (block_paths path n) \<and>
    ir_blockIndexRecord (env_records (me_env gEnv)) =
      At (table (length (with_prefix 0x62 es)) (chain_records junk es)) \<and>
    ir_blockIndexRecordCount (env_records (me_env gEnv)) = length (chain_records junk es)"
  using InitMLBTCC_ready [OF assms] by blast

definition sample_system :: system where
  "sample_system = \<lparr>sys_is_dir = (\<lambda>p. p = ''/d/'' \<or> p = ''/d/blocks/''),
     sys_entries = [''/d/blocks/'' \<mapsto> [''.'', blk_name 1, ''rev00000.dat'', blk_name 0]],
     sys_disk = (\<lambda>p. if p = ''/blocks/xor.dat'' then Some [1, 2, 3, 4, 5, 6, 7, 8]
       else if p = ''/d/blocks//'' @ blk_name 0
       then Some (obfuscate [1, 2, 3, 4, 5, 6, 7, 8] 0 (replicate 293 0 @
         block_bytes 0xd9b4bef9 [0, 0, 0, 0x20] sample_header [sample_tx] @ []))
       else None),
     sys_store = (\<lambda>_. Inr sample_entries), sys_qsort = insertion_sort, sys_USER = None,
     sys_running = (False, False), sys_system = (\<lambda>_. 0)\<rparr>"

lemma sample_datadir: "core_datadir sample_system sample_header ''/d/'' 2 sample_entries"
proof -
  have [simp]: "blk_name 0 = ''blk00000.dat''" "blk_name 1 = ''blk00001.dat''" "blk_name (Suc 0) = ''blk00001.dat''"
    by code_simp+
  have "heights (chain_records sample_header sample_entries) = [0]"
    by (simp add: sample_chain heights_def sample_record_def)
  moreover have "length (with_prefix 0x62 sample_entries) = 1" by (simp add: sample_entries_def)
  moreover have "WildcardMatch ''blk00001.dat'' ''blk*.dat''" "WildcardMatch ''blk00000.dat'' ''blk*.dat''"
    "\<not> WildcardMatch ''.'' ''blk*.dat''" "\<not> WildcardMatch ''rev00000.dat'' ''blk*.dat''"
    by (simp_all add: WildcardMatch_def WildcardMatch_loop.simps)
  ultimately show ?thesis
    using sample_entries_ok [of sample_header] insertion_sort_contract
    by (simp add: core_datadir_def sample_system_def numeral_2_eq_2 add_mset_commute)
qed

theorem InitMLBTCC_environment_witness:
  "\<exists>gEnv. InitMLBTCC sample_system sample_header ''/d/'' (init_files []) = Ret gEnv \<and>
    env_files (me_env gEnv) = init_files (block_paths ''/d/'' 2)"
  using InitMLBTCC_environment [OF sample_datadir] by blast

text \<open>
  C15: What parsing a data directory does, for every path and system. Undefined for a directory path
  that does not fit the buffer; exit 1 when neither the path nor a default directory exists or the one
  chosen has no \<^verbatim>\<open>blocks\<close>; else the environment has the two directories below the chosen one. The XOR key
  is always that of \<^verbatim>\<open>/blocks/xor.dat\<close>, whatever the directory, because the stored data directory stays
  empty. The bits of the status are exactly those whose \<^emph>\<open>numbers\<close> are the values 0, 4, 8 and 16 of the
  flags of the directories found, though the header defines the flags as masks.
\<close>

theorem ParseCoreDatadir_environment:
  assumes "me_dataDir gEnv = []" and "me_status gEnv = 0"
  shows "if sys_is_dir sys path \<and> 512 \<le> length path then ParseCoreDatadir sys path gEnv = Undef
    else case chosen_dir sys path of
      None \<Rightarrow> ParseCoreDatadir sys path gEnv = Exit 1
    | Some d \<Rightarrow> parsed_dir sys (me_env gEnv) d (ParseCoreDatadir sys path gEnv)"
proof -
  have p: "parsed_dir sys (me_env gEnv) d (parse_dirs sys d (gEnv\<lparr>me_out := ms\<rparr>))" for d ms
    using parse_dirs_parsed [of "gEnv\<lparr>me_out := ms\<rparr>" sys d] assms by simp
  show ?thesis
    using parse_dirs_parsed [OF assms, of sys path] p
    by (simp add: ParseCoreDatadir_def IsDirectory_def strcpy_path_def MAX_PATH_LENGTH_def
        SearchDefaultDatadirs_eq chosen_dir_def split: option.splits)
qed

theorem ParseCoreDatadir_environment_witness:
  "case ParseCoreDatadir sample_system ''/d/'' \<lparr>me_dataDir = [], me_blocksDir = [], me_indexesDir = [],
      me_status = 0, me_env = sample_env, me_out = []\<rparr> of
    Ret g \<Rightarrow> env_xorKey (me_env g) = [1, 2, 3, 4, 5, 6, 7, 8] \<and> (\<forall>k. bit (me_status g) k \<longleftrightarrow> k = 0)
  | _ \<Rightarrow> False"
proof -
  have d: "sys_is_dir sample_system ''/d/''" "sys_is_dir sample_system ''/d/blocks/''"
    "\<not> sys_is_dir sample_system ''/d/indexes/''" "key_of sample_system = [1, 2, 3, 4, 5, 6, 7, 8]"
    by (simp_all add: sample_system_def key_of_def)
  let ?e = "\<lparr>me_dataDir = [], me_blocksDir = [], me_indexesDir = [], me_status = 0, me_env = sample_env, me_out = []\<rparr>"
  have "parsed_dir sample_system sample_env ''/d/'' (ParseCoreDatadir sample_system ''/d/'' ?e)"
    using ParseCoreDatadir_environment [of ?e sample_system "''/d/''"] d(1) by (simp add: chosen_dir_def)
  then show ?thesis
    using d by (cases "ParseCoreDatadir sample_system ''/d/'' ?e") (simp_all add: parsed_dir_def snprintf_def)
qed

end
