(* ===== verification/Decimal.thy ===== *)
theory Decimal
  imports Mlbtcc_Prelude
begin

text \<open>
  Decimal output of unsigned numbers (the \<^verbatim>\<open>%u\<close>, \<^verbatim>\<open>%d\<close> and \<^verbatim>\<open>%llu\<close> conversions of the printers) and
  its reading back, shared by the printers of the program and the file names of LevelDB.
\<close>

fun dec :: "nat \<Rightarrow> string" where
  "dec n = (if n < 10 then [char_of (48 + n)] else dec (n div 10) @ [char_of (48 + n mod 10)])"

declare dec.simps [simp del]

definition print_u :: "'a::len word \<Rightarrow> string" where
  "print_u w = dec (unat w)"

definition digit :: "char \<Rightarrow> bool" where
  "digit c \<longleftrightarrow> 48 \<le> (of_char c :: nat) \<and> (of_char c :: nat) \<le> 57"

definition undec :: "string \<Rightarrow> nat" where
  "undec s = foldl (\<lambda>n c. 10 * n + (of_char c - 48)) 0 s"

lemma of_char_digit: "(n :: nat) < 10 \<Longrightarrow> of_char (char_of (48 + n) :: char) = 48 + n"
  by (simp add: of_char_of take_bit_nat_eq_self)

lemma digit_char [simp]: "(n :: nat) < 10 \<Longrightarrow> digit (char_of (48 + n))"
  by (simp add: digit_def of_char_digit)

lemma digits_dec: "list_all digit (dec n)"
proof (induction n rule: dec.induct)
  case (1 n)
  then show ?case by (subst dec.simps) auto
qed

lemma undec_dec: "undec (dec n) = n"
proof (induction n rule: dec.induct)
  case (1 n)
  show ?case
  proof (cases "n < 10")
    case True
    then show ?thesis by (subst dec.simps) (simp add: undec_def of_char_digit)
  next
    case False
    with 1 have "undec (dec (n div 10)) = n div 10" by simp
    with False show ?thesis by (subst dec.simps) (simp add: undec_def of_char_digit)
  qed
qed

lemma dec_not_Nil [simp]: "dec n \<noteq> []"
  by (subst dec.simps) simp

lemma length_dec: "n < 10 ^ k \<Longrightarrow> 0 < k \<Longrightarrow> length (dec n) \<le> k"
proof (induction n arbitrary: k rule: dec.induct)
  case (1 n)
  show ?case
  proof (cases "n < 10")
    case False
    with 1(2,3) obtain k' where k: "k = Suc k'" "0 < k'"
      by (cases k) (auto, metis One_nat_def gr0I power_0 mult.right_neutral)
    with 1(2) have "n div 10 < 10 ^ k'" by (simp add: less_mult_imp_div_less mult.commute)
    with 1(1) [OF False this] k False show ?thesis by (subst dec.simps) simp
  qed (use 1(3) in \<open>subst dec.simps, simp\<close>)
qed

end
