(* ===== verification/Printing.thy ===== *)
theory Printing
  imports Blk_Dat Decimal
begin

text \<open>
  The printers of \<^verbatim>\<open>src/bitcoin-specifics.c\<close>, as the text they write. \<open>tstr\<close> is
  \<^verbatim>\<open>ConvertTimestampToString\<close>, which formats in the time zone of the host.
\<close>

section \<open>Numbers and hexadecimal\<close>

definition print_08x :: "u32 \<Rightarrow> string" where
  "print_08x w = concat (map print_02x (rev (word_le 4 w)))"

text \<open>\<^verbatim>\<open>snprintf(buf + offset, 3, "%02x", b)\<close> stores two digits and a terminator.\<close>

definition put_hex :: "u8 \<Rightarrow> nat \<Rightarrow> string \<Rightarrow> string option" where
  "put_hex b off buf =
     (if off + 3 \<le> length buf
      then Some (take off buf @ print_02x b @ [NUL] @ drop (off + 3) buf) else None)"

text \<open>The loop over a script: \<^verbatim>\<open>offset\<close> is of 16 bits.\<close>

fun hex_loop :: "bytes \<Rightarrow> nat \<Rightarrow> u16 \<Rightarrow> nat \<Rightarrow> string \<Rightarrow> string option" where
  "hex_loop script i offset 0 buf = Some buf"
| "hex_loop script i offset (Suc n) buf = do {
     b \<leftarrow> rd script i;
     buf \<leftarrow> put_hex b (unat offset) buf;
     hex_loop script (i + 1) (offset + 2) n buf
   }"

text \<open>
  \<open>junk\<close> is what the allocated buffer held. \<^verbatim>\<open>%s\<close> prints up to the first terminator.
\<close>

definition script_hex :: "string \<Rightarrow> u16 \<Rightarrow> bytes ptr \<Rightarrow> string option" where
  "script_hex junk sz script = do {
     bs \<leftarrow> (if sz = 0 then Some [] else deref script);
     buf \<leftarrow> hex_loop bs 0 0 (unat sz) junk;
     let buf = buf[unat sz * 2 := NUL];
     Some (takeWhile (\<lambda>c. c \<noteq> NUL) buf)
   }"

section \<open>The structures\<close>

definition NL :: char where "NL = CHR 0x0A"
definition Q :: char where "Q = CHR 0x22"

definition key :: "string \<Rightarrow> string" where
  "key k = [Q] @ k @ [Q] @ '': ''"

definition quoted_str :: "string \<Rightarrow> string" where
  "quoted_str s = [Q] @ s @ [Q]"

definition header_text :: "(u32 \<Rightarrow> string) \<Rightarrow> BlockHeader \<Rightarrow> string" where
  "header_text tstr header =
     key ''BlockHeader'' @ ''{'' @ [NL] @
     ''  '' @ key ''Version'' @ quoted_str (PrintByteString (ConvertUint32ToUint8Array (ucast (bh_version header)))) @ '','' @ [NL] @
     ''  '' @ key ''PreviousBlockHash'' @ quoted_str (PrintByteString (bh_prevBlockHash header)) @ '','' @ [NL] @
     ''  '' @ key ''MerkleRoot'' @ quoted_str (PrintByteString (bh_merkleRoot header)) @ '','' @ [NL] @
     ''  '' @ key ''Time'' @ quoted_str (tstr (bh_time header)) @ '','' @ [NL] @
     ''  '' @ key ''Bits'' @ quoted_str (PrintByteString (ConvertUint32ToUint8Array (bh_bits header))) @ '','' @ [NL] @
     ''  '' @ key ''Nonce'' @ quoted_str (PrintByteString (ConvertUint32ToUint8Array (bh_nonce header))) @ [NL] @
     ''}'' @ [NL]"

fun PrintBlockHeader :: "(u32 \<Rightarrow> string) \<Rightarrow> BlockHeader ptr \<Rightarrow> string option" where
  "PrintBlockHeader tstr Null = Some (key ''BlockHeader'' @ ''null'' @ [NL])"
| "PrintBlockHeader tstr Wild = None"
| "PrintBlockHeader tstr (At header) = Some (header_text tstr header)"

text \<open>
  \<open>mem\<close> is the allocator: \<open>None\<close> when \<^verbatim>\<open>malloc\<close> fails, else what the fresh memory holds. After a
  failure the printer returns, with the text written so far.
\<close>

definition PrintInput :: "string option \<Rightarrow> Input \<Rightarrow> string option" where
  "PrintInput mem input =
     (let out = ''    {'' @ [NL] @
        ''      '' @ key ''TXID'' @ quoted_str (concat (map print_02x (rev (take 32 (in_txid input))))) @ '','' @ [NL] @
        ''      '' @ key ''Vout'' @ print_u (in_vout input) @ '','' @ [NL] @
        ''      '' @ key ''ScriptSigSize'' @ print_u (in_scriptSigSize input) @ '','' @ [NL] in
      case mem of
        None \<Rightarrow> Some out
      | Some scriptSigHex \<Rightarrow> do {
          hex \<leftarrow> script_hex scriptSigHex (in_scriptSigSize input) (in_scriptSig input);
          Some (out @ ''      '' @ key ''ScriptSig'' @ quoted_str hex @ '','' @ [NL] @
            ''      '' @ key ''Sequence'' @ print_u (in_sequence input) @ [NL] @ ''    }'')
        })"

definition PrintOutput :: "string option \<Rightarrow> Output \<Rightarrow> string option" where
  "PrintOutput mem output =
     (let out = ''    {'' @ [NL] @
        ''      '' @ key ''Amount'' @ print_u (out_amount output) @ '','' @ [NL] @
        ''      '' @ key ''ScriptPubKeySize'' @ print_u (out_scriptPubKeySize output) @ '','' @ [NL] in
      case mem of
        None \<Rightarrow> Some out
      | Some scriptPubKeyHex \<Rightarrow> do {
          hex \<leftarrow> script_hex scriptPubKeyHex (out_scriptPubKeySize output) (out_scriptPubKey output);
          Some (out @ ''      '' @ key ''ScriptPubKey'' @ quoted_str hex @ [NL] @ ''    }'')
        })"

text \<open>
  A loop over an array of \<open>cnt\<close> elements with a comma and a line break behind each but the last,
  which has a line break. Below, \<open>mem n\<close> is the result of an allocation of \<open>n\<close> bytes.
\<close>

fun print_list :: "('a \<Rightarrow> string option) \<Rightarrow> 'a list \<Rightarrow> nat \<Rightarrow> nat \<Rightarrow> string option" where
  "print_list pr xs i 0 = Some []"
| "print_list pr xs i (Suc n) = do {
     x \<leftarrow> rd xs i;
     s \<leftarrow> pr x;
     rest \<leftarrow> print_list pr xs (i + 1) n;
     Some (s @ (if n > 0 then '','' @ [NL] else [NL]) @ rest)
   }"

definition print_array :: "('a \<Rightarrow> string option) \<Rightarrow> u16 \<Rightarrow> 'a list ptr \<Rightarrow> string option" where
  "print_array pr cnt p =
     (if cnt = 0 then Some [] else do { xs \<leftarrow> deref p; print_list pr xs 0 (unat cnt) })"

definition PrintTransaction :: "(nat \<Rightarrow> string option) \<Rightarrow> Transaction \<Rightarrow> string option" where
  "PrintTransaction mem tx = do {
     ins \<leftarrow> print_array (\<lambda>x. PrintInput (mem (unat (in_scriptSigSize x) * 2 + 1)) x) (tx_inputCount tx) (tx_inputs tx);
     outs \<leftarrow> print_array (\<lambda>x. PrintOutput (mem (unat (out_scriptPubKeySize x) * 2 + 1)) x) (tx_outputCount tx) (tx_outputs tx);
     Some (''  {'' @ [NL] @
       ''    '' @ key ''TransactionSize'' @ print_u (tx_size tx) @ '','' @ [NL] @
       ''    '' @ key ''Version'' @ print_u (tx_version tx) @ '','' @ [NL] @
       ''    '' @ key ''SegWit'' @ (if tx_marker tx = 0x00 \<and> tx_flag tx = 0x01 then ''true'' else ''false'') @ '','' @ [NL] @
       ''    '' @ key ''Inputs'' @ ''['' @ [NL] @ ins @ ''    ],'' @ [NL] @
       ''    '' @ key ''Outputs'' @ ''['' @ [NL] @ outs @ ''    ]'' @ [NL] @ ''  }'')
   }"

definition PrintBlock :: "(u32 \<Rightarrow> string) \<Rightarrow> (nat \<Rightarrow> string option) \<Rightarrow> Block \<Rightarrow> string option" where
  "PrintBlock tstr mem block = do {
     txs \<leftarrow> print_array (PrintTransaction mem) (blk_txCount block) (blk_transactions block);
     header \<leftarrow> PrintBlockHeader tstr (At (blk_header block));
     Some (''{'' @ [NL] @
       ''  '' @ key ''Magic'' @ quoted_str (''0x'' @ print_08x (blk_magic block)) @ '','' @ [NL] @
       ''  '' @ key ''BlockSize'' @ print_u (blk_blockSize block) @ '','' @ [NL] @
       ''  '' @ key ''TransactionCount'' @ print_u (blk_txCount block) @ '','' @ [NL] @
       header @ '','' @ [NL] @
       ''  '' @ key ''Transactions'' @ ''['' @ [NL] @ txs @ ''  ]'' @ [NL] @ ''}'' @ [NL])
   }"

definition PrintBlocks :: "(u32 \<Rightarrow> string) \<Rightarrow> (nat \<Rightarrow> string option) \<Rightarrow> Blocks \<Rightarrow> string option" where
  "PrintBlocks tstr mem blocks = do {
     bs \<leftarrow> (if bks_count blocks = 0 then Some []
           else do { xs \<leftarrow> deref (bks_blocks blocks); print_list (PrintBlock tstr mem) xs 0 (bks_count blocks) });
     Some (''['' @ [NL] @ bs @ '']'' @ [NL])
   }"

definition PrintBlockIndexRecord :: "(u32 \<Rightarrow> string) \<Rightarrow> BlockIndexRecord \<Rightarrow> string option" where
  "PrintBlockIndexRecord tstr r = do {
     undoFile \<leftarrow> bir_undoFile r;
     undoOffset \<leftarrow> bir_undoOffset r;
     blockHeader \<leftarrow> bir_blockHeader r;
     header \<leftarrow> PrintBlockHeader tstr (At blockHeader);
     Some (''Block Index Record:'' @ [NL] @
       ''Version: '' @ print_u (bir_version r) @ [NL] @
       ''Height: '' @ print_u (bir_height r) @ [NL] @
       ''Validation Status: '' @ print_u (bir_validationStatus r) @ [NL] @
       ''Transaction Count: '' @ print_u (bir_txCount r) @ [NL] @
       ''Block File: '' @ print_u (bir_blockFile r) @ [NL] @
       ''Block Offset: '' @ print_u (bir_blockOffset r) @ [NL] @
       ''Undo File: '' @ print_u undoFile @ [NL] @
       ''Undo Offset: '' @ print_u undoOffset @ [NL] @
       ''Block Hash: '' @ PrintByteString (bir_blockHash r) @ [NL] @
       ''Block Header:'' @ [NL] @ header @ [NL])
   }"

section \<open>What the script printer writes\<close>

definition hex :: "bytes \<Rightarrow> string" where
  "hex bs = concat (map print_02x bs)"

lemma length_hex [simp]: "length (hex bs) = 2 * length bs"
  by (simp add: hex_def)

lemma hex_Cons [simp]: "hex (b # bs) = print_02x b @ hex bs" "hex [] = []"
  by (simp_all add: hex_def)

lemma NUL_notin_hex: "NUL \<notin> set (hex bs)"
proof (induction bs)
  case (Cons b bs)
  then show ?case
    using hexDigits_facts(7) [OF unat_nibbles(1) [of b]] hexDigits_facts(7) [OF unat_nibbles(2) [of b]]
    by (auto simp: print_02x_def)
qed simp

lemma hex_loop_writes:
  assumes "i + n \<le> length script" and "2 * (o' + n) \<le> 65536" and "2 * (o' + n) + 1 \<le> length buf" and "0 < n"
  shows "hex_loop script i (of_nat (2 * o')) (n + m) buf =
    hex_loop script (i + n) (of_nat (2 * (o' + n))) m
      (take (2 * o') buf @ hex (take n (drop i script)) @ [NUL] @ drop (2 * (o' + n) + 1) buf)"
  using assms
proof (induction n arbitrary: i o' buf)
  case (Suc n)
  have d: "drop i script = script ! i # drop (i + 1) script"
    using Suc.prems(1) by (simp add: Cons_nth_drop_Suc)
  have off: "unat (of_nat (2 * o') :: u16) = 2 * o'" using Suc.prems(2)
    by (simp add: unat_of_nat del: of_nat_mult)
  let ?buf = "take (2 * o') buf @ print_02x (script ! i) @ [NUL] @ drop (2 * o' + 3) buf"
  have put: "put_hex (script ! i) (2 * o') buf = Some ?buf" using Suc.prems(3) by (simp add: put_hex_def)
  have nxt: "(of_nat (2 * o') :: u16) + 2 = of_nat (2 * (o' + 1))" by simp
  have step: "hex_loop script i (of_nat (2 * o')) (Suc n + m) buf =
      hex_loop script (i + 1) (of_nat (2 * (o' + 1))) (n + m) ?buf"
    using Suc.prems(1) put off nxt by (simp add: rd_def ac_simps del: of_nat_mult of_nat_add)
  show ?case
  proof (cases "n = 0")
    case True
    then show ?thesis using step d by (simp del: of_nat_mult of_nat_add add: numeral_3_eq_3)
  next
    case False
    have len: "2 * (o' + 1 + n) + 1 \<le> length ?buf" using Suc.prems(3) by simp
    have "hex_loop script (i + 1) (of_nat (2 * (o' + 1))) (n + m) ?buf =
      hex_loop script (i + 1 + n) (of_nat (2 * (o' + 1 + n))) m
        (take (2 * (o' + 1)) ?buf @ hex (take n (drop (i + 1) script)) @ [NUL] @ drop (2 * (o' + 1 + n) + 1) ?buf)"
      using Suc.IH [of "i + 1" "o' + 1" ?buf] Suc.prems False len by simp
    moreover have "take (2 * (o' + 1)) ?buf = take (2 * o') buf @ print_02x (script ! i)"
      using Suc.prems(3) by simp
    moreover have "drop (2 * (o' + 1 + n) + 1) ?buf = drop (2 * (o' + Suc n) + 1) buf"
      using Suc.prems(3) False by (simp add: numeral_3_eq_3 ac_simps)
    ultimately show ?thesis using step d by (simp del: of_nat_mult of_nat_add)
  qed
qed simp

lemma update_behind:
  "length pre < k \<Longrightarrow> (pre @ x # rest)[k := y] = pre @ x # rest[k - length pre - 1 := y]"
  by (drule less_imp_Suc_add) (auto simp: list_update_append)

lemma script_hex_eq:
  assumes sz: "length bs = unat sz" and junk: "length junk = unat sz * 2 + 1"
  shows "script_hex junk sz (At bs) = Some (hex (if unat sz \<le> 32768 then bs else drop 32768 bs))"
proof -
  have nul: "takeWhile (\<lambda>c. c \<noteq> NUL) (hex xs @ NUL # rest) = hex xs" for xs rest
    using NUL_notin_hex [of xs] by (subst takeWhile_append2) auto
  consider (zero) "sz = 0" | (small) "0 < unat sz" "unat sz \<le> 32768" | (big) "unat sz > 32768"
    by (metis not_le unat_gt_0)
  then show ?thesis
  proof cases
    case zero
    then have "hex_loop [] 0 0 0 junk = Some junk" by simp
    moreover have "junk[0 := NUL] = hex [] @ NUL # tl junk" using junk zero by (cases junk) auto
    ultimately show ?thesis using zero sz nul [of "[]" "tl junk"] by (simp add: script_hex_def)
  next
    case small
    then have ne: "sz \<noteq> 0" by (metis less_irrefl unat_0)
    have "hex_loop bs 0 0 (unat sz) junk = Some (hex bs @ [NUL])"
      using hex_loop_writes [of 0 "unat sz" bs 0 junk 0] small sz junk by simp
    then show ?thesis
      using small sz ne nul [of bs "[]"] by (simp add: script_hex_def list_update_append)
  next
    case big
    then have ne: "sz \<noteq> 0" by (metis not_less_zero unat_0)
    have lt: "unat sz < 65536" using unsigned_less [of sz, where 'a = nat] by simp
    let ?k = "unat sz - 32768" and ?b1 = "hex (take 32768 bs) @ [NUL] @ drop 65537 junk"
    have one: "hex_loop bs 0 0 (32768 + ?k) junk = hex_loop bs 32768 0 ?k ?b1"
    proof -
      have "(65536 :: u16) = 0" by simp
      with hex_loop_writes [of 0 32768 bs 0 junk ?k] big sz junk show ?thesis by simp
    qed
    have l1: "length ?b1 = length junk" using big sz junk by simp
    have two: "hex_loop bs 32768 0 (?k + 0) ?b1 =
        Some (hex (drop 32768 bs) @ NUL # drop (2 * ?k + 1) ?b1)"
      using hex_loop_writes [of 32768 ?k bs 0 ?b1 0] big lt sz junk l1 by simp
    have "hex_loop bs 0 0 (unat sz) junk = Some (hex (drop 32768 bs) @ NUL # drop (2 * ?k + 1) ?b1)"
      using one two big by simp
    moreover have "(hex (drop 32768 bs) @ NUL # drop (2 * ?k + 1) ?b1)[unat sz * 2 := NUL] =
        hex (drop 32768 bs) @ NUL # (drop (2 * ?k + 1) ?b1)[unat sz * 2 - length (hex (drop 32768 bs)) - 1 := NUL]"
      by (rule update_behind) (use big sz in simp)
    ultimately show ?thesis using big ne nul by (simp add: script_hex_def)
  qed
qed

section \<open>Balanced output\<close>

text \<open>
  A scan of the text: whether it is inside a string, and the brackets that are open. A string may
  not hold a quote, a backslash or a control character.
\<close>

definition plain_char :: "char \<Rightarrow> bool" where
  "plain_char c \<longleftrightarrow> c \<noteq> Q \<and> c \<noteq> CHR 0x5C \<and> 32 \<le> (of_char c :: nat)"

fun scan :: "string \<Rightarrow> bool \<times> char list \<Rightarrow> (bool \<times> char list) option" where
  "scan [] st = Some st"
| "scan (c # cs) (True, st) =
     (if c = Q then scan cs (False, st) else if plain_char c then scan cs (True, st) else None)"
| "scan (c # cs) (False, st) =
     (if c = Q then scan cs (True, st)
      else if c = CHR ''{'' \<or> c = CHR ''['' then scan cs (False, c # st)
      else if c = CHR ''}'' then (if st \<noteq> [] \<and> hd st = CHR ''{'' then scan cs (False, tl st) else None)
      else if c = CHR '']'' then (if st \<noteq> [] \<and> hd st = CHR ''['' then scan cs (False, tl st) else None)
      else scan cs (False, st))"

lemma scan_append: "scan (a @ b) s = scan a s \<bind> scan b"
  by (induction a s rule: scan.induct) auto

definition neutral :: "string \<Rightarrow> bool" where
  "neutral s \<longleftrightarrow> (\<forall>st. scan s (False, st) = Some (False, st))"

lemma neutral_append [intro]: "neutral a \<Longrightarrow> neutral b \<Longrightarrow> neutral (a @ b)"
  by (simp add: neutral_def scan_append)

lemma scan_neutral [simp]: "neutral s \<Longrightarrow> scan s (False, st) = Some (False, st)"
  by (simp add: neutral_def)

definition free_char :: "char \<Rightarrow> bool" where
  "free_char c \<longleftrightarrow> c \<noteq> Q \<and> c \<notin> set ''{}[]''"

lemma neutral_free: "list_all free_char s \<Longrightarrow> neutral s"
  by (induction s) (auto simp: neutral_def free_char_def)

lemma scan_plain: "list_all plain_char s \<Longrightarrow> scan s (True, st) = Some (True, st)"
  by (induction s) (auto simp: plain_char_def)

lemma neutral_quoted [simp]: "list_all plain_char s \<Longrightarrow> neutral (quoted_str s)"
  by (simp add: neutral_def quoted_str_def scan_append scan_plain)

lemma neutral_key [simp]: "list_all plain_char s \<Longrightarrow> neutral (key s)"
  by (simp add: key_def neutral_def scan_append scan_plain) (simp add: Q_def)

lemma hex_digit_chars: "list_all (\<lambda>n. plain_char (hexDigits ! n) \<and> plain_char (hexDigitsUpper ! n)) [0..<16]"
  by code_simp

lemma plain_hex [simp]: "list_all plain_char (print_02x b)" "list_all plain_char (print_02X b)"
  using hex_digit_chars unat_nibbles(1,2) [of b] by (auto simp: print_02x_def print_02X_def list_all_iff)

lemma plain_concat_hex [simp]:
  "list_all plain_char (concat (map print_02x bs))" "list_all plain_char (concat (map print_02X bs))"
  by (induction bs) auto

lemma plain_hex_bytes [simp]: "list_all plain_char (hex bs)" "list_all plain_char (PrintByteString bs)"
  "list_all plain_char (print_08x w)"
  by (simp_all add: hex_def PrintByteString_def print_08x_def)

lemma free_digit: "(n :: nat) < 10 \<Longrightarrow> free_char (char_of (48 + n))"
proof -
  assume n: "n < 10"
  have "list_all (\<lambda>n. free_char (char_of (48 + n :: nat))) [0..<10]" by code_simp
  with n show ?thesis by (simp add: list_all_iff)
qed

lemma free_dec: "list_all free_char (dec n)"
proof (induction n rule: dec.induct)
  case (1 n)
  then show ?case using free_digit by (subst dec.simps) auto
qed

lemma neutral_print_u [simp]: "neutral (print_u w)"
  by (simp add: print_u_def neutral_free free_dec)

lemma scan_literals [simp]: "scan [NL] (False, st) = Some (False, st)"
  by (simp add: NL_def Q_def)

lemmas text_consts = NL_def Q_def

lemma neutralI: "(\<And>st. scan s (False, st) = Some (False, st)) \<Longrightarrow> neutral s"
  by (simp add: neutral_def)

lemma neutral_keys [simp]:
  "neutral (key ''BlockHeader'')" "neutral (key ''Version'')" "neutral (key ''PreviousBlockHash'')"
  "neutral (key ''MerkleRoot'')" "neutral (key ''Time'')" "neutral (key ''Bits'')" "neutral (key
  ''Nonce'')" "neutral (key ''TXID'')" "neutral (key ''Vout'')" "neutral (key ''ScriptSigSize'')"
  "neutral (key ''ScriptSig'')" "neutral (key ''Sequence'')" "neutral (key ''Amount'')" "neutral (key
  ''ScriptPubKeySize'')" "neutral (key ''ScriptPubKey'')" "neutral (key ''TransactionSize'')" "neutral
  (key ''SegWit'')" "neutral (key ''Inputs'')" "neutral (key ''Outputs'')" "neutral (key ''Magic'')"
  "neutral (key ''BlockSize'')" "neutral (key ''TransactionCount'')" "neutral (key ''Transactions'')"
  by (rule neutral_key, code_simp)+

lemma neutral_0x [simp]: "list_all plain_char s \<Longrightarrow> neutral (quoted_str (CHR ''0'' # CHR ''x'' # s))"
  by (rule neutral_quoted) (simp add: plain_char_def Q_def)

lemma neutral_header:
  assumes "\<And>t. list_all plain_char (tstr t)"
  shows "neutral (header_text tstr h)"
  using assms unfolding header_text_def by (intro neutralI) (simp add: scan_append text_consts)

text \<open>
  What a failed allocation does to the scan. The text of an element may leave braces open, and the
  bracket that closes the array then does not match.
\<close>

definition leaves_open :: "nat \<Rightarrow> string \<Rightarrow> bool" where
  "leaves_open k s \<longleftrightarrow> (\<forall>st. scan s (False, st) = Some (False, replicate k (CHR ''{'') @ st))"

definition balanced_if :: "bool \<Rightarrow> string \<Rightarrow> bool" where
  "balanced_if ok s \<longleftrightarrow> (\<forall>st. scan s (False, st) = (if ok then Some (False, st) else None))"

lemma leaves_open_comma: "leaves_open k s \<Longrightarrow> leaves_open k (s @ (if n > 0 then '','' @ [NL] else [NL]))"
  by (simp add: leaves_open_def scan_append text_consts)

lemma leaves_open_append: "leaves_open j s \<Longrightarrow> leaves_open k r \<Longrightarrow> leaves_open (j + k) (s @ r)"
  by (simp add: leaves_open_def scan_append replicate_add add.commute [of j])

lemma balanced_if_append: "balanced_if p s \<Longrightarrow> balanced_if q r \<Longrightarrow> balanced_if (p \<and> q) (s @ r)"
  by (simp add: balanced_if_def scan_append)

lemma balanced_if_comma: "balanced_if p s \<Longrightarrow> balanced_if p (s @ (if n > 0 then '','' @ [NL] else [NL]))"
  by (simp add: balanced_if_def scan_append text_consts)

lemma print_list_open:
  assumes "\<forall>x \<in> set xs. \<exists>s. pr x = Some s \<and> leaves_open (f x) s" and "i + n \<le> length xs"
  shows "\<exists>s. print_list pr xs i n = Some s \<and> leaves_open (\<Sum>x \<leftarrow> take n (drop i xs). f x) s"
  using assms(2)
proof (induction n arbitrary: i)
  case (Suc n)
  then obtain s r where s: "pr (xs ! i) = Some s" "leaves_open (f (xs ! i)) s"
    and r: "print_list pr xs (i + 1) n = Some r" "leaves_open (\<Sum>x \<leftarrow> take n (drop (i + 1) xs). f x) r"
    using assms(1) Suc.IH [of "i + 1"] by fastforce
  have "drop i xs = xs ! i # drop (i + 1) xs" using Suc.prems by (simp add: Cons_nth_drop_Suc)
  with leaves_open_append [OF leaves_open_comma [OF s(2), of n] r(2)] s r Suc.prems show ?case
    by (simp add: rd_def)
qed (simp add: leaves_open_def)

lemma print_list_balanced:
  assumes "\<forall>x \<in> set xs. \<exists>s. pr x = Some s \<and> balanced_if (ok x) s" and "i + n \<le> length xs"
  shows "\<exists>s. print_list pr xs i n = Some s \<and> balanced_if (list_all ok (take n (drop i xs))) s"
  using assms(2)
proof (induction n arbitrary: i)
  case (Suc n)
  then obtain s r where s: "pr (xs ! i) = Some s" "balanced_if (ok (xs ! i)) s"
    and r: "print_list pr xs (i + 1) n = Some r" "balanced_if (list_all ok (take n (drop (i + 1) xs))) r"
    using assms(1) Suc.IH [of "i + 1"] by fastforce
  have "drop i xs = xs ! i # drop (i + 1) xs" using Suc.prems by (simp add: Cons_nth_drop_Suc)
  with balanced_if_append [OF balanced_if_comma [OF s(2), of n] r(2)] s r Suc.prems show ?case
    by (simp add: rd_def)
qed (simp add: balanced_if_def)

lemma print_array_list:
  "length xs = unat cnt \<Longrightarrow> print_array pr cnt (At xs) = print_list pr xs 0 (length xs)"
  by (simp add: print_array_def)

text \<open>An allocator whose results have the size asked for, and the allocations the scripts need.\<close>

definition sized_mem :: "(nat \<Rightarrow> string option) \<Rightarrow> bool" where
  "sized_mem mem \<longleftrightarrow> (\<forall>n s. mem n = Some s \<longrightarrow> length s = n)"

definition script_alloc :: "(nat \<Rightarrow> string option) \<Rightarrow> u16 \<Rightarrow> bool" where
  "script_alloc mem sz \<longleftrightarrow> mem (unat sz * 2 + 1) \<noteq> None"

definition tx_alloc :: "(nat \<Rightarrow> string option) \<Rightarrow> Transaction \<Rightarrow> bool" where
  "tx_alloc mem t \<longleftrightarrow>
     (case tx_inputs t of At xs \<Rightarrow> list_all (\<lambda>x. script_alloc mem (in_scriptSigSize x)) xs | _ \<Rightarrow> True) \<and>
     (case tx_outputs t of At xs \<Rightarrow> list_all (\<lambda>x. script_alloc mem (out_scriptPubKeySize x)) xs | _ \<Rightarrow> True)"

definition block_alloc :: "(nat \<Rightarrow> string option) \<Rightarrow> Block \<Rightarrow> bool" where
  "block_alloc mem b \<longleftrightarrow> (case blk_transactions b of At txs \<Rightarrow> list_all (tx_alloc mem) txs | _ \<Rightarrow> True)"

lemma script_hex_sized:
  assumes "sized_ok sz p" and "sized_mem mem" and "mem (unat sz * 2 + 1) = Some junk"
  shows "\<exists>bs. script_hex junk sz p = Some (hex bs)"
proof -
  have "length junk = unat sz * 2 + 1" using assms(2,3) unfolding sized_mem_def by blast
  with assms(1) script_hex_eq show ?thesis by (auto simp: sized_ok_def)
qed

lemma PrintInput_open:
  assumes "ok_input x" and "sized_mem mem"
  shows "\<exists>s. PrintInput (mem (unat (in_scriptSigSize x) * 2 + 1)) x = Some s \<and>
    leaves_open (of_bool (\<not> script_alloc mem (in_scriptSigSize x))) s"
proof (cases "mem (unat (in_scriptSigSize x) * 2 + 1)")
  case None
  then show ?thesis
    by (simp add: PrintInput_def Let_def script_alloc_def leaves_open_def scan_append text_consts)
next
  case (Some junk)
  then obtain bs where "script_hex junk (in_scriptSigSize x) (in_scriptSig x) = Some (hex bs)"
    using script_hex_sized [OF _ assms(2) Some] assms(1) by (auto simp: ok_input_def)
  with Some show ?thesis
    by (simp add: PrintInput_def Let_def script_alloc_def leaves_open_def scan_append text_consts)
qed

lemma PrintOutput_open:
  assumes "ok_output x" and "sized_mem mem"
  shows "\<exists>s. PrintOutput (mem (unat (out_scriptPubKeySize x) * 2 + 1)) x = Some s \<and>
    leaves_open (of_bool (\<not> script_alloc mem (out_scriptPubKeySize x))) s"
proof (cases "mem (unat (out_scriptPubKeySize x) * 2 + 1)")
  case None
  then show ?thesis
    by (simp add: PrintOutput_def Let_def script_alloc_def leaves_open_def scan_append text_consts)
next
  case (Some junk)
  then obtain bs where "script_hex junk (out_scriptPubKeySize x) (out_scriptPubKey x) = Some (hex bs)"
    using script_hex_sized [OF _ assms(2) Some] assms(1) by (auto simp: ok_output_def)
  with Some show ?thesis
    by (simp add: PrintOutput_def Let_def script_alloc_def leaves_open_def scan_append text_consts)
qed

lemma array_open:
  assumes "list_ok ok cnt (At xs)" and "\<And>x. ok x \<Longrightarrow> \<exists>s. pr x = Some s \<and> leaves_open (of_bool (\<not> alloc x)) s"
  shows "\<exists>s k. print_array pr cnt (At xs) = Some s \<and> leaves_open k s \<and> (k = 0 \<longleftrightarrow> list_all alloc xs)"
proof -
  have xs: "length xs = unat cnt" "list_all ok xs" using assms(1) by (auto simp: list_ok_def)
  then have "\<forall>x \<in> set xs. \<exists>s. pr x = Some s \<and> leaves_open (of_bool (\<not> alloc x)) s"
    using assms(2) by (auto simp: list_all_iff)
  from print_list_open [OF this, of 0 "length xs"] obtain s where
    "print_array pr cnt (At xs) = Some s" "leaves_open (\<Sum>x \<leftarrow> xs. of_bool (\<not> alloc x)) s"
    using xs(1) by (auto simp: print_array_list)
  moreover have "(\<Sum>x \<leftarrow> xs. of_bool (\<not> alloc x)) = (0 :: nat) \<longleftrightarrow> list_all alloc xs"
    by (induction xs) auto
  ultimately show ?thesis by (intro exI conjI)
qed

lemma PrintTransaction_balanced:
  assumes "shape_tx t" and "sized_mem mem"
  shows "\<exists>s. PrintTransaction mem t = Some s \<and> balanced_if (tx_alloc mem t) s"
proof -
  let ?in = "\<lambda>x. PrintInput (mem (unat (in_scriptSigSize x) * 2 + 1)) x"
  let ?out = "\<lambda>x. PrintOutput (mem (unat (out_scriptPubKeySize x) * 2 + 1)) x"
  obtain xs ys where x: "tx_inputs t = At xs" "list_ok ok_input (tx_inputCount t) (At xs)"
    and y: "tx_outputs t = At ys" "list_ok ok_output (tx_outputCount t) (At ys)"
    using assms(1) by (auto simp: shape_tx_def list_ok_def)
  obtain ins j where i: "print_array ?in (tx_inputCount t) (tx_inputs t) = Some ins" "leaves_open j ins"
    "j = 0 \<longleftrightarrow> list_all (\<lambda>x. script_alloc mem (in_scriptSigSize x)) xs"
    unfolding x(1) using array_open [OF x(2), of ?in, OF PrintInput_open [OF _ assms(2)]] by blast
  obtain outs k where o: "print_array ?out (tx_outputCount t) (tx_outputs t) = Some outs" "leaves_open k outs"
    "k = 0 \<longleftrightarrow> list_all (\<lambda>x. script_alloc mem (out_scriptPubKeySize x)) ys"
    unfolding y(1) using array_open [OF y(2), of ?out, OF PrintOutput_open [OF _ assms(2)]] by blast
  have "tx_alloc mem t \<longleftrightarrow> j = 0 \<and> k = 0" using i(3) o(3) x(1) y(1) by (simp add: tx_alloc_def)
  with i(1,2) o(1,2) show ?thesis
    by (cases j; cases k)
      (simp_all add: PrintTransaction_def balanced_if_def leaves_open_def scan_append text_consts)
qed

lemma PrintBlock_balanced:
  assumes "blk_transactions b = At txs" and "length txs = unat (blk_txCount b)" and "list_all shape_tx txs"
    and "sized_mem mem" and "\<And>t. list_all plain_char (tstr t)"
  shows "\<exists>s. PrintBlock tstr mem b = Some s \<and> balanced_if (block_alloc mem b) s"
proof -
  have "\<forall>t \<in> set txs. \<exists>s. PrintTransaction mem t = Some s \<and> balanced_if (tx_alloc mem t) s"
    using assms(3,4) PrintTransaction_balanced by (auto simp: list_all_iff)
  from print_list_balanced [OF this, of 0 "length txs"] obtain ts where
    "print_array (PrintTransaction mem) (blk_txCount b) (blk_transactions b) = Some ts" "balanced_if (list_all (tx_alloc mem) txs) ts"
    using assms(1,2) by (auto simp: print_array_list)
  with neutral_header [of tstr, OF assms(5)] assms(1) show ?thesis
    by (auto simp: PrintBlock_def block_alloc_def balanced_if_def scan_append text_consts)
qed

section \<open>Properties\<close>

text \<open>
  C16: The hexadecimal text the printers give of a script of at most 32768 bytes is the script; of
  a longer one it is the script from byte 32768 on, since the 16-bit offset into the buffer wraps
  to 0 and the first half is written over. The buffer is never written out of bounds.
\<close>

theorem script_hex_wraps:
  assumes "length bs = unat sz" and "length junk = unat sz * 2 + 1"
  shows "script_hex junk sz (At bs) = Some (hex (if unat sz \<le> 32768 then bs else drop 32768 bs))"
  using assms by (rule script_hex_eq)

theorem script_hex_wraps_witness:
  "script_hex ''?????'' 2 (At [0xab, 0x01]) = Some ''ab01'' \<and>
   script_hex (replicate 65539 CHR ''?'') 32769 (At (replicate 32768 0 @ [0xcd])) = Some ''cd''"
proof -
  have "script_hex ''?????'' 2 (At [0xab, 0x01]) = Some (hex [0xab, 0x01])"
    using script_hex_wraps [of "[0xab, 0x01]" 2 "''?????''"] by simp
  moreover have "script_hex (replicate 65539 CHR ''?'') 32769 (At (replicate 32768 0 @ [0xcd])) = Some (hex [0xcd])"
    using script_hex_wraps [of "replicate 32768 0 @ [0xcd]" 32769 "replicate 65539 CHR ''?''"] by simp
  moreover have "hex [0xab, 0x01] = ''ab01''" "hex [0xcd] = ''cd''" by code_simp+
  ultimately show ?thesis by simp
qed

definition shape_block :: "Block \<Rightarrow> bool" where
  "shape_block b \<longleftrightarrow> (\<exists>txs. blk_transactions b = At txs \<and> length txs = unat (blk_txCount b) \<and> list_all shape_tx txs)"

definition sample_blocks :: Blocks where
  "sample_blocks = \<lparr>bks_blocks = At [block_of 0xd9b4bef9 [0, 0, 0, 0x20] sample_header [sample_tx]], bks_count = 1\<rparr>"

text \<open>
  C17: Printing well-formed blocks (the blocks the reader returns are well-formed) always returns,
  and every bracket and every string that the text opens is closed in order exactly when the
  allocation of the buffer of every script succeeds: strings hold no quote, backslash or control
  character, and the scan of the text ends where it began. After a failed allocation the brace of the
  input or output stays open, and the bracket behind the array does not match it.
\<close>

theorem PrintBlocks_balanced:
  assumes "bks_blocks blocks = At bs" and "length bs = bks_count blocks" and "list_all shape_block bs"
    and "sized_mem mem" and "\<And>t. list_all plain_char (tstr t)"
  shows "\<exists>s. PrintBlocks tstr mem blocks = Some s \<and>
     scan s (False, []) = (if list_all (block_alloc mem) bs then Some (False, []) else None)"
proof -
  have "\<forall>b\<in>set bs. \<exists>s. PrintBlock tstr mem b = Some s \<and> balanced_if (block_alloc mem b) s"
    using assms(3) PrintBlock_balanced [OF _ _ _ assms(4,5)] by (auto simp: shape_block_def list_all_iff)
  from print_list_balanced [OF this, of 0 "length bs"] obtain s where
    "print_list (PrintBlock tstr mem) bs 0 (length bs) = Some s" "balanced_if (list_all (block_alloc mem) bs) s"
    by auto
  then show ?thesis
    using assms(1,2) by (auto simp: PrintBlocks_def balanced_if_def scan_append text_consts)
qed

theorem PrintBlocks_balanced_witness:
  "(\<exists>s. PrintBlocks (\<lambda>t. ''2009-01-03'') (\<lambda>n. Some (replicate n NUL)) sample_blocks = Some s \<and>
      scan s (False, []) = Some (False, [])) \<and>
   (\<exists>s. PrintBlocks (\<lambda>t. ''2009-01-03'') (\<lambda>n. None) sample_blocks = Some s \<and> scan s (False, []) = None)"
proof -
  let ?b = "block_of 0xd9b4bef9 [0, 0, 0, 0x20] sample_header [sample_tx]"
  have b: "list_all shape_block [?b]"
    using sample_block_ok by (auto simp: shape_block_def block_of_def block_ok_def ok_tx_def list_all_iff)
  have t: "list_all plain_char ''2009-01-03''" by code_simp
  have blocks: "bks_blocks sample_blocks = At [?b]" "length [?b] = bks_count sample_blocks"
    by (simp_all add: sample_blocks_def)
  have "list_all (block_alloc (\<lambda>n. Some (replicate n NUL))) [?b]" "\<not> list_all (block_alloc (\<lambda>n. None)) [?b]"
    by (simp_all add: block_alloc_def block_of_def tx_alloc_def script_alloc_def sample_tx_def sample_core_def)
  with PrintBlocks_balanced [OF blocks b, of "\<lambda>n. Some (replicate n NUL)" "\<lambda>t. ''2009-01-03''"]
    PrintBlocks_balanced [OF blocks b, of "\<lambda>n. None" "\<lambda>t. ''2009-01-03''"] t
  show ?thesis by (simp add: sized_mem_def)
qed

end
