(* ===== verification/Ldb_Coding.thy ===== *)
theory Ldb_Coding
  imports Mlbtcc_Prelude
begin

text \<open>
  The encodings of LevelDB (\<^verbatim>\<open>util/coding.cc\<close>, \<^verbatim>\<open>util/coding.h\<close>). A \<^verbatim>\<open>Slice\<close>, and the range
  between a pointer and its \<^verbatim>\<open>limit\<close>, is the list of its bytes; a reader that advances its slice
  returns the value and the bytes behind it, and the failing return (\<^verbatim>\<open>nullptr\<close>, \<^verbatim>\<open>false\<close>) is
  \<open>None\<close>. The fixed-length readers check no bounds: \<open>None\<close> is there a read out of bounds.
\<close>

section \<open>The code\<close>

text \<open>\<^verbatim>\<open>port::kLittleEndian\<close> is a constant of the build; both of its branches are modelled.\<close>

definition EncodeFixed32 :: "bool \<Rightarrow> u32 \<Rightarrow> bytes" where
  "EncodeFixed32 kLittleEndian v =
     (if kLittleEndian then word_le 4 v
      else [ucast (v AND 0xff), ucast (drop_bit 8 v AND 0xff), ucast (drop_bit 16 v AND 0xff),
            ucast (drop_bit 24 v AND 0xff)])"

definition EncodeFixed64 :: "bool \<Rightarrow> u64 \<Rightarrow> bytes" where
  "EncodeFixed64 kLittleEndian v =
     (if kLittleEndian then word_le 8 v
      else [ucast (v AND 0xff), ucast (drop_bit 8 v AND 0xff), ucast (drop_bit 16 v AND 0xff),
            ucast (drop_bit 24 v AND 0xff), ucast (drop_bit 32 v AND 0xff), ucast (drop_bit 40 v AND 0xff),
            ucast (drop_bit 48 v AND 0xff), ucast (drop_bit 56 v AND 0xff)])"

definition DecodeFixed32 :: "bool \<Rightarrow> bytes \<Rightarrow> u32 option" where
  "DecodeFixed32 kLittleEndian ptr =
     (if kLittleEndian then map_option le_word (rds ptr 0 4)
      else do {
        b0 \<leftarrow> rd ptr 0; b1 \<leftarrow> rd ptr 1; b2 \<leftarrow> rd ptr 2; b3 \<leftarrow> rd ptr 3;
        Some (ucast b0 OR push_bit 8 (ucast b1) OR push_bit 16 (ucast b2) OR push_bit 24 (ucast b3))
      })"

definition DecodeFixed64 :: "bool \<Rightarrow> bytes \<Rightarrow> u64 option" where
  "DecodeFixed64 kLittleEndian ptr =
     (if kLittleEndian then map_option le_word (rds ptr 0 8)
      else do {
        lo \<leftarrow> DecodeFixed32 kLittleEndian ptr;
        hi \<leftarrow> DecodeFixed32 kLittleEndian (drop 4 ptr);
        Some (push_bit 32 (ucast hi) OR ucast lo)
      })"

text \<open>The hosts of the build are little-endian.\<close>

definition PutFixed32 :: "bytes \<Rightarrow> u32 \<Rightarrow> bytes" where
  "PutFixed32 dst v = dst @ EncodeFixed32 True v"

definition PutFixed64 :: "bytes \<Rightarrow> u64 \<Rightarrow> bytes" where
  "PutFixed64 dst v = dst @ EncodeFixed64 True v"

definition EncodeVarint32 :: "u32 \<Rightarrow> bytes" where
  "EncodeVarint32 v =
     (if v < 2 ^ 7 then [ucast v]
      else if v < 2 ^ 14 then [ucast (v OR 128), ucast (drop_bit 7 v)]
      else if v < 2 ^ 21 then [ucast (v OR 128), ucast (drop_bit 7 v OR 128), ucast (drop_bit 14 v)]
      else if v < 2 ^ 28 then
        [ucast (v OR 128), ucast (drop_bit 7 v OR 128), ucast (drop_bit 14 v OR 128), ucast (drop_bit 21 v)]
      else
        [ucast (v OR 128), ucast (drop_bit 7 v OR 128), ucast (drop_bit 14 v OR 128),
         ucast (drop_bit 21 v OR 128), ucast (drop_bit 28 v)])"

definition PutVarint32 :: "bytes \<Rightarrow> u32 \<Rightarrow> bytes" where
  "PutVarint32 dst v = dst @ EncodeVarint32 v"

lemma drop_7_less: "(v :: u64) \<ge> 128 \<Longrightarrow> unat (drop_bit 7 v) < unat v"
  by (simp add: unat_bits word_le_nat_alt)

function EncodeVarint64 :: "u64 \<Rightarrow> bytes" where
  "EncodeVarint64 v =
     (if v \<ge> 128 then ucast (v OR 128) # EncodeVarint64 (drop_bit 7 v) else [ucast v])"
  by auto

termination by (relation "measure unat") (auto simp: drop_7_less)

definition PutVarint64 :: "bytes \<Rightarrow> u64 \<Rightarrow> bytes" where
  "PutVarint64 dst v = dst @ EncodeVarint64 v"

definition PutLengthPrefixedSlice :: "bytes \<Rightarrow> bytes \<Rightarrow> bytes" where
  "PutLengthPrefixedSlice dst s = PutVarint32 dst (of_nat (length s)) @ s"

function VarintLength_loop :: "u64 \<Rightarrow> nat \<Rightarrow> nat" where
  "VarintLength_loop v len = (if v \<ge> 128 then VarintLength_loop (drop_bit 7 v) (len + 1) else len)"
  by auto

termination by (relation "measure (unat \<circ> fst)") (auto simp: drop_7_less)

definition VarintLength :: "u64 \<Rightarrow> nat" where
  "VarintLength v = VarintLength_loop v 1"

declare EncodeVarint64.simps [simp del] VarintLength_loop.simps [simp del]

text \<open>The loop of both varint readers: \<open>maxshift\<close> is the largest shift it enters with.\<close>

fun varint_loop :: "nat \<Rightarrow> nat \<Rightarrow> 'a::len word \<Rightarrow> bytes \<Rightarrow> ('a word \<times> bytes) option" where
  "varint_loop maxshift shift result [] = None"
| "varint_loop maxshift shift result (p # ps) =
     (if shift \<le> maxshift
      then let byte = ucast p in
        if byte AND 128 \<noteq> 0
        then varint_loop maxshift (shift + 7) (result OR push_bit shift (byte AND 127)) ps
        else Some (result OR push_bit shift byte, ps)
      else None)"

definition GetVarint32PtrFallback :: "bytes \<Rightarrow> (u32 \<times> bytes) option" where
  "GetVarint32PtrFallback p = varint_loop 28 0 0 p"

definition GetVarint32Ptr :: "bytes \<Rightarrow> (u32 \<times> bytes) option" where
  "GetVarint32Ptr p =
     (case p of
        [] \<Rightarrow> GetVarint32PtrFallback p
      | b # ps \<Rightarrow> (let result = ucast b in
          if result AND 128 = 0 then Some (result, ps) else GetVarint32PtrFallback p))"

definition GetVarint32 :: "bytes \<Rightarrow> (u32 \<times> bytes) option" where
  "GetVarint32 input = (case GetVarint32Ptr input of None \<Rightarrow> None | Some (v, q) \<Rightarrow> Some (v, q))"

definition GetVarint64Ptr :: "bytes \<Rightarrow> (u64 \<times> bytes) option" where
  "GetVarint64Ptr p = varint_loop 63 0 0 p"

definition GetVarint64 :: "bytes \<Rightarrow> (u64 \<times> bytes) option" where
  "GetVarint64 input = (case GetVarint64Ptr input of None \<Rightarrow> None | Some (v, q) \<Rightarrow> Some (v, q))"

text \<open>
  The pointer and the slice reader of a length-prefixed string; the pointer one compares
  \<^verbatim>\<open>p + len\<close> with the limit.
\<close>

definition GetLengthPrefixedSlicePtr :: "bytes \<Rightarrow> (bytes \<times> bytes) option" where
  "GetLengthPrefixedSlicePtr p = do {
     (len, p) \<leftarrow> GetVarint32Ptr p;
     if unat len > length p then None else Some (take (unat len) p, drop (unat len) p)
   }"

definition GetLengthPrefixedSlice :: "bytes \<Rightarrow> (bytes \<times> bytes) option" where
  "GetLengthPrefixedSlice input = do {
     (len, input) \<leftarrow> GetVarint32 input;
     if length input \<ge> unat len then Some (take (unat len) input, drop (unat len) input) else None
   }"

section \<open>Slice readers\<close>

text \<open>
  The contract of a reader that advances its slice: behind a stored value it returns the value and
  leaves the bytes that follow.
\<close>

locale slice_code =
  fixes valid :: "'v \<Rightarrow> bool" and put :: "'v \<Rightarrow> bytes" and get :: "bytes \<Rightarrow> ('v \<times> bytes) option"
  assumes get_put: "valid v \<Longrightarrow> get (put v @ rest) = Some (v, rest)"
begin

text \<open>Reading a number of values one after the other.\<close>

fun get_n :: "nat \<Rightarrow> bytes \<Rightarrow> ('v list \<times> bytes) option" where
  "get_n 0 input = Some ([], input)"
| "get_n (Suc n) input = do { (v, input) \<leftarrow> get input; (vs, input) \<leftarrow> get_n n input; Some (v # vs, input) }"

lemma get_n_put: "list_all valid vs \<Longrightarrow> get_n (length vs) (concat (map put vs) @ rest) = Some (vs, rest)"
  by (induction vs) (auto simp: get_put)

lemma put_inj: "valid v \<Longrightarrow> valid w \<Longrightarrow> put v @ r = put w @ s \<Longrightarrow> v = w \<and> r = s"
  by (metis get_put option.inject prod.inject)

end

sublocale slice_code \<subseteq> code: prefix_code valid put "\<lambda>bs. map_option (\<lambda>(v, rest). (length bs - length rest, v)) (get bs)"
  by unfold_locales (simp add: get_put)

text \<open>Two values stored one after the other are read one after the other.\<close>

locale slice_pair = a: slice_code va pa ga + b: slice_code vb pb gb
  for va :: "'a \<Rightarrow> bool" and pa ga and vb :: "'b \<Rightarrow> bool" and pb gb
begin

definition put2 :: "'a \<times> 'b \<Rightarrow> bytes" where
  "put2 p = pa (fst p) @ pb (snd p)"

definition get2 :: "bytes \<Rightarrow> (('a \<times> 'b) \<times> bytes) option" where
  "get2 input = do { (x, input) \<leftarrow> ga input; (y, input) \<leftarrow> gb input; Some ((x, y), input) }"

lemma get2_put2: "va (fst p) \<Longrightarrow> vb (snd p) \<Longrightarrow> get2 (put2 p @ rest) = Some (p, rest)"
  by (simp add: get2_def put2_def a.get_put b.get_put)

end

sublocale slice_pair \<subseteq> both: slice_code "\<lambda>p. va (fst p) \<and> vb (snd p)" put2 get2
  by unfold_locales (simp add: get2_put2)

section \<open>Fixed-length integers\<close>

lemma EncodeFixed32_eq [simp]: "EncodeFixed32 e v = word_le 4 v"
  by (simp add: EncodeFixed32_def word_le_4 and_FF word_unat_eq_iff unat_bits)

lemma EncodeFixed64_eq [simp]: "EncodeFixed64 e v = word_le 8 v"
  by (simp add: EncodeFixed64_def word_le_8 and_FF word_unat_eq_iff unat_bits)

lemma rds_0_4: "rds ptr 0 4 = (if 4 \<le> length ptr then Some [ptr ! 0, ptr ! 1, ptr ! 2, ptr ! 3] else None)"
  by (auto simp: rds_def numeral_eq_Suc Suc_le_length_iff)

lemma bit_byte_high [simp]: "8 \<le> k \<Longrightarrow> \<not> bit (b :: u8) k"
  using bit_imp_le_length [of b k] by auto

lemma le_word_32_or:
  "(le_word [a, b, c, d] :: u32) = ucast a OR push_bit 8 (ucast b) OR push_bit 16 (ucast c) OR push_bit 24 (ucast d)"
  (is "_ = ?w")
proof -
  have "word_le 4 ?w = [a, b, c, d]"
    unfolding word_le_4 by (auto intro!: bit_eqI simp: bit_simps )
  then show ?thesis by (metis le_word_word_le_32)
qed

lemma DecodeFixed32_eq: "DecodeFixed32 e ptr = map_option le_word (rds ptr 0 4)"
  by (auto simp: DecodeFixed32_def rds_0_4 rd_def le_word_32_or)

lemma le_word_64_or:
  assumes "length xs = 4" and "length ys = 4"
  shows "(le_word (xs @ ys) :: u64) = push_bit 32 (ucast (le_word ys :: u32)) OR ucast (le_word xs :: u32)"
proof -
  have *: "unat (ucast (le_word zs :: u32) :: u64) = le_nat zs" if "length zs = 4" for zs :: bytes
    using le_nat_bound [of zs] that by (simp add: le_word_def unat_bits unat_of_nat)
  have w: "(ucast (le_word zs :: u32) :: u64) = of_nat (le_nat zs)" if "length zs = 4" for zs :: bytes
    using arg_cong [OF * [OF that], of "of_nat :: nat \<Rightarrow> u64"] by simp
  have "push_bit 32 (of_nat (le_nat ys) :: u64) AND of_nat (le_nat xs) = 0"
  proof (rule bit_eqI)
    have "take_bit 32 (le_nat xs) = le_nat xs"
      using le_nat_bound [of xs] assms by (simp add: take_bit_nat_eq_self)
    then have "\<not> bit (le_nat xs) n" if "32 \<le> n" for n
      using that by (metis bit_take_bit_iff leD)
    then show "bit (push_bit 32 (of_nat (le_nat ys) :: u64) AND of_nat (le_nat xs)) n = bit (0 :: u64) n" for n
      by (auto simp: bit_simps bit_of_nat_iff)
  qed
  then show ?thesis
    by (simp only: w assms) (simp add: le_word_def le_nat_append assms push_bit_eq_mult algebra_simps
        flip: disjunctive_add_eq_or)
qed

lemma DecodeFixed64_eq: "DecodeFixed64 e ptr = map_option le_word (rds ptr 0 8)"
proof (cases "8 \<le> length ptr")
  case True
  have "take 8 ptr = take 4 ptr @ take 4 (drop 4 ptr)" by (metis numeral_Bit0 take_add)
  with True show ?thesis
    using le_word_64_or [of "take 4 ptr" "take 4 (drop 4 ptr)"]
    by (auto simp: DecodeFixed64_def DecodeFixed32_eq rds_def)
next
  case False
  then show ?thesis by (auto simp: DecodeFixed64_def DecodeFixed32_eq rds_def)
qed

lemma DecodeFixed_hit [mem_simps]:
  "DecodeFixed32 e (word_le 4 v @ rest) = Some v" "DecodeFixed64 e (word_le 8 w @ rest) = Some w"
  by (simp_all add: DecodeFixed32_eq DecodeFixed64_eq mem_simps byte_simps)

text \<open>Arrays of fixed-length integers.\<close>

lemma drop_fixed_array:
  assumes "i < length xs"
  shows "drop (i * 4) (concat (map (word_le 4) xs) @ r) = word_le 4 (xs ! i :: u32) @ concat (map (word_le 4) (drop (Suc i) xs)) @ r"
proof -
  have "length (concat (map (word_le 4) (take i xs))) = i * 4"
    using assms by (simp add: length_concat sum_list_triv o_def)
  moreover have "concat (map (word_le 4) xs) =
      concat (map (word_le 4) (take i xs)) @ word_le 4 (xs ! i) @ concat (map (word_le 4) (drop (Suc i) xs))"
    by (subst id_take_nth_drop [OF assms]) simp
  ultimately show ?thesis by simp
qed

lemma foldl_PutFixed32: "foldl PutFixed32 dst xs = dst @ concat (map (word_le 4) xs)"
  by (induction xs arbitrary: dst) (simp_all add: PutFixed32_def)

section \<open>Varints\<close>

text \<open>The format: groups of seven bits, the low ones first, a high bit on every group but the last.\<close>

fun leb :: "nat \<Rightarrow> bytes" where
  "leb n = (if n < 128 then [of_nat n] else of_nat (n mod 128 + 128) # leb (n div 128))"

declare leb.simps [simp del]

lemma leb_small: "n < 128 \<Longrightarrow> leb n = [of_nat n]"
  and leb_large: "128 \<le> n \<Longrightarrow> leb n = of_nat (n mod 128 + 128) # leb (n div 128)"
  by (subst leb.simps, simp)+

lemma length_leb: "n < 128 ^ k \<Longrightarrow> 0 < k \<Longrightarrow> length (leb n) \<le> k"
proof (induction n arbitrary: k rule: leb.induct)
  case (1 n)
  show ?case
  proof (cases "n < 128")
    case False
    with 1(2,3) obtain k' where k: "k = Suc k'" "0 < k'"
      by (metis gr0_conv_Suc less_not_refl neq0_conv power_one_right One_nat_def)
    with 1(2) have "n div 128 < 128 ^ k'" by (simp add: less_mult_imp_div_less mult.commute)
    with 1(1) [OF False this] k False show ?thesis by (simp add: leb_large)
  qed (use 1(3) in \<open>simp add: leb_small\<close>)
qed

lemma ucast_of_nat_byte: "n < 256 \<Longrightarrow> 8 \<le> LENGTH('a) \<Longrightarrow> (ucast (of_nat n :: u8) :: 'a::len word) = of_nat n"
  by (rule unsigned_word_eqI [where 'a = nat]) (simp add: unat_ucast_widen unat_of_nat byte_simps
      less_le_trans [OF _ power_increasing [of 8 "LENGTH('a)" 2]])

lemma of_nat_groups: "(of_nat n :: 'a::len word) = of_nat (n mod 128) OR push_bit 7 (of_nat (n div 128))"
proof -
  have "bit n k = bit (take_bit 7 n OR push_bit 7 (drop_bit 7 n)) k" for k
    by (cases "k < 7") (simp_all add: bit_simps)
  then have "n = take_bit 7 n OR push_bit 7 (drop_bit 7 n)" by (rule bit_eqI)
  then have "(of_nat n :: 'a word) = of_nat (take_bit 7 n OR push_bit 7 (drop_bit 7 n))" by simp
  then show ?thesis
    by (simp add: of_nat_or_eq of_nat_push_bit take_bit_eq_mod drop_bit_eq_div)
qed

lemma and_128: "(of_nat n :: 'a::len word) AND 128 \<noteq> 0 \<longleftrightarrow> bit (of_nat n :: 'a word) 7"
  using and_exp_eq_0_iff_not_bit [of "of_nat n :: 'a word" 7] by simp

lemma bit7_of_nat: "n < 256 \<Longrightarrow> 8 \<le> LENGTH('a) \<Longrightarrow> bit (of_nat n :: 'a::len word) 7 \<longleftrightarrow> 128 \<le> n"
proof -
  assume n: "n < 256" and l: "8 \<le> LENGTH('a)"
  have "bit (of_nat n :: 'a word) 7 = odd (n div 128)" using l by (simp add: bit_of_nat_iff bit_iff_odd [of n])
  also have "\<dots> = (128 \<le> n)"
  proof (cases "128 \<le> n")
    case True
    with n have "n div 128 = 1" by (simp add: div_nat_eqI)
    with True show ?thesis by simp
  qed simp
  finally show ?thesis .
qed

lemma group_payload: "(of_nat (n mod 128 + 128) :: 'a::len word) AND 127 = of_nat (n mod 128)"
proof -
  have "(of_nat (n mod 128 + 128) :: 'a word) AND 127 = of_nat (take_bit 7 (n mod 128 + 128))"
    using take_bit_of_nat [of 7 "n mod 128 + 128", where 'a = "'a word"]
    by (simp add: and_7F del: of_nat_add)
  then show ?thesis by (simp add: take_bit_eq_mod)
qed

lemma varint_loop_leb:
  assumes "8 \<le> LENGTH('a)"
  shows "shift + 7 * (length (leb n) - 1) \<le> maxshift \<Longrightarrow>
    varint_loop maxshift shift r (leb n @ rest) = Some (r OR push_bit shift (of_nat n :: 'a::len word), rest)"
proof (induction n arbitrary: shift r rule: leb.induct)
  case (1 n)
  show ?case
  proof (cases "n < 128")
    case True
    with 1(2) show ?thesis
      by (simp add: leb_small ucast_of_nat_byte assms and_128 bit7_of_nat del: of_nat_add)
  next
    case False
    have b: "n mod 128 + 128 < 256" using mod_less_divisor [of 128 n] by linarith
    have "leb (n div 128) \<noteq> []" by (subst leb.simps) simp
    then obtain m where m: "length (leb (n div 128)) = Suc m" by (cases "leb (n div 128)") auto
    have "varint_loop maxshift shift r (leb n @ rest) =
        varint_loop maxshift (shift + 7) (r OR push_bit shift (of_nat (n mod 128))) (leb (n div 128) @ rest)"
      using 1(2) False b
      by (simp add: leb_large ucast_of_nat_byte assms and_128 bit7_of_nat group_payload del: of_nat_add)
    also have "\<dots> = Some ((r OR push_bit shift (of_nat (n mod 128))) OR push_bit (shift + 7) (of_nat (n div 128)), rest)"
      using 1(2) False m by (intro 1(1)) (auto simp: leb_large)
    also have "(r OR push_bit shift (of_nat (n mod 128))) OR push_bit (shift + 7) (of_nat (n div 128)) =
        r OR push_bit shift (of_nat n)"
      by (subst (3) of_nat_groups) (simp add: push_bit_or push_bit_push_bit add.commute or.assoc)
    finally show ?thesis .
  qed
qed

lemma ucast_or_128: "ucast ((v :: u32) OR 128) = (of_nat (unat v mod 128 + 128) :: u8)"
  and ucast_or_128_64: "ucast ((w :: u64) OR 128) = (of_nat (unat w mod 128 + 128) :: u8)"
proof -
  have [simp]: "bit (128 :: nat) k \<longleftrightarrow> k = 7" "bit (128 :: int) k \<longleftrightarrow> k = 7" "bit (128 :: u8) k \<longleftrightarrow> k = 7" for k
    using bit_exp_iff [of 7 k, where 'a = nat] bit_exp_iff [of 7 k, where 'a = int]
      bit_exp_iff [of 7 k, where 'a = u8] by auto
  have *: "(of_nat (n mod 128 + 128) :: u8) = of_nat n OR 128" for n
  proof -
    have "bit (of_nat (n mod 128 + 128) :: u8) k = bit (of_nat n OR 128 :: u8) k" if "k < 8" for k
    proof (cases "k = 7")
      case True
      then show ?thesis using bit7_of_nat [of "n mod 128 + 128", where 'a = 8] by (simp add: bit_simps)
    next
      case False
      have "take_bit 7 (n mod 128 + 128) = take_bit 7 n" by (simp add: take_bit_eq_mod)
      then have "bit (n mod 128 + 128) k = bit n k" using False that
        bit_take_bit_iff [of 7 n k] bit_take_bit_iff [of 7 "n mod 128 + 128" k] by simp
      then show ?thesis using False that by (simp add: bit_simps bit_of_nat_iff del: of_nat_add)
    qed
    then show ?thesis by (auto intro: bit_word_eqI)
  qed
  show "ucast (v OR 128) = (of_nat (unat v mod 128 + 128) :: u8)"
    unfolding * by (simp add: unsigned_or_eq)
  show "ucast (w OR 128) = (of_nat (unat w mod 128 + 128) :: u8)"
    unfolding * by (simp add: unsigned_or_eq)
qed

lemma byte_of_groups:
  "(of_nat (unat x div 128) :: u8) = ucast (drop_bit 7 (x :: 'a::len word))"
  "(of_nat (unat x div 16384) :: u8) = ucast (drop_bit 14 x)"
  "(of_nat (unat x div 2097152) :: u8) = ucast (drop_bit 21 x)"
  "(of_nat (unat x div 268435456) :: u8) = ucast (drop_bit 28 x)"
  using of_nat_div_exp [of x 7] of_nat_div_exp [of x 14] of_nat_div_exp [of x 21] of_nat_div_exp [of x 28]
  by simp_all

lemma EncodeVarint32_leb: "EncodeVarint32 v = leb (unat v)"
proof -
  let ?n = "unat v"
  have d: "?n div 128 div 128 = ?n div 2 ^ 14" "?n div 128 div 128 div 128 = ?n div 2 ^ 21"
      "?n div 128 div 128 div 128 div 128 = ?n div 2 ^ 28"
      "?n div 16384 div 128 = ?n div 2 ^ 21" "?n div 2097152 div 128 = ?n div 2 ^ 28"
    by (simp_all flip: div_mult2_eq)
  have less: "?n < 2 ^ 32" using unsigned_less [of v, where 'a = nat] by simp
  note simps = EncodeVarint32_def word_less_nat_alt leb_small leb_large ucast_or_128 byte_of_groups unat_bits d [simplified]
  consider "?n < 2 ^ 7" | "2 ^ 7 \<le> ?n" "?n < 2 ^ 14" | "2 ^ 14 \<le> ?n" "?n < 2 ^ 21"
    | "2 ^ 21 \<le> ?n" "?n < 2 ^ 28" | "2 ^ 28 \<le> ?n" by linarith
  then show ?thesis
  proof cases
    case 1
    then show ?thesis by (simp add: simps)
  next
    case 2
    then have "?n div 128 < 128" by (simp add: less_mult_imp_div_less)
    with 2 show ?thesis by (simp add: simps)
  next
    case 3
    then have "128 \<le> ?n div 128" "?n div 128 div 128 < 128"
      by (simp_all add: d less_mult_imp_div_less div_le_mono [of 16384 ?n 128, simplified])
    with 3 show ?thesis by (simp add: simps)
  next
    case 4
    then have "128 \<le> ?n div 128" "128 \<le> ?n div 128 div 128" "?n div 128 div 128 div 128 < 128"
      using div_le_mono [of "2 ^ 21" ?n "2 ^ 14"] div_le_mono [of "2 ^ 21" ?n 128]
      by (simp_all add: d less_mult_imp_div_less)
    with 4 show ?thesis by (simp add: simps)
  next
    case 5
    then have "128 \<le> ?n div 128" "128 \<le> ?n div 128 div 128" "128 \<le> ?n div 128 div 128 div 128"
      "?n div 128 div 128 div 128 div 128 < 128"
      using div_le_mono [of "2 ^ 28" ?n "2 ^ 14"] div_le_mono [of "2 ^ 28" ?n 128] div_le_mono [of "2 ^ 28" ?n "2 ^ 21"] less
      by (simp_all add: d less_mult_imp_div_less)
    with 5 show ?thesis by (simp add: simps)
  qed
qed

lemma EncodeVarint64_leb: "EncodeVarint64 v = leb (unat v)"
proof (induction v rule: EncodeVarint64.induct)
  case (1 v)
  then show ?case
    by (subst EncodeVarint64.simps)
      (auto simp: word_le_nat_alt leb_small leb_large ucast_or_128_64 unat_bits)
qed

lemma VarintLength_leb: "VarintLength v = length (EncodeVarint64 v)"
proof -
  have "VarintLength_loop v len + 1 = len + length (leb (unat v))" for len
  proof (induction v len rule: VarintLength_loop.induct)
    case (1 v len)
    then show ?case
      by (subst VarintLength_loop.simps) (auto simp: word_le_nat_alt leb_small leb_large unat_bits)
  qed
  from this [of 1] show ?thesis by (simp add: VarintLength_def EncodeVarint64_leb)
qed

lemma length_EncodeVarint32: "length (EncodeVarint32 v) \<le> 5"
  by (simp add: EncodeVarint32_def)

lemma length_EncodeVarint64: "length (EncodeVarint64 v) \<le> 10"
  using unsigned_less [of v, where 'a = nat] by (simp add: EncodeVarint64_leb length_leb)

lemma GetVarint32_Ptr: "GetVarint32 = GetVarint32Ptr" "GetVarint64 = GetVarint64Ptr"
  by (auto simp: GetVarint32_def GetVarint64_def fun_eq_iff split: option.splits)

lemma GetVarint32_loop: "GetVarint32 p = varint_loop 28 0 0 p"
  by (cases p) (simp_all add: GetVarint32_Ptr GetVarint32Ptr_def GetVarint32PtrFallback_def Let_def)

lemma GetVarint32_put: "GetVarint32 (EncodeVarint32 v @ rest) = Some (v, rest)"
  using varint_loop_leb [of 0 "unat v" 28 "0 :: u32" rest] length_EncodeVarint32 [of v]
  by (simp add: GetVarint32_loop EncodeVarint32_leb)

lemma GetVarint64_put: "GetVarint64 (EncodeVarint64 v @ rest) = Some (v, rest)"
  using varint_loop_leb [of 0 "unat v" 63 "0 :: u64" rest] length_EncodeVarint64 [of v]
  by (simp add: GetVarint32_Ptr GetVarint64Ptr_def EncodeVarint64_leb)

interpretation varint32: slice_code "\<lambda>_. True" EncodeVarint32 GetVarint32
  by unfold_locales (rule GetVarint32_put)

interpretation varint64: slice_code "\<lambda>_. True" EncodeVarint64 GetVarint64
  by unfold_locales (rule GetVarint64_put)

section \<open>Length-prefixed strings\<close>

lemma GetLengthPrefixedSlice_put:
  "length s < 2 ^ 32 \<Longrightarrow> GetLengthPrefixedSlice (PutLengthPrefixedSlice [] s @ rest) = Some (s, rest)"
  by (simp add: GetLengthPrefixedSlice_def PutLengthPrefixedSlice_def PutVarint32_def GetVarint32_put unat_of_nat)

interpretation lps: slice_code "\<lambda>s. length s < 2 ^ 32" "PutLengthPrefixedSlice []" GetLengthPrefixedSlice
  by unfold_locales (rule GetLengthPrefixedSlice_put)

lemma Put_append:
  "PutFixed32 dst w = dst @ word_le 4 w" "PutFixed64 dst d = dst @ word_le 8 d"
  "PutVarint32 dst w = dst @ EncodeVarint32 w" "PutVarint64 dst d = dst @ EncodeVarint64 d"
  "PutLengthPrefixedSlice (b # dst) s = b # dst @ PutLengthPrefixedSlice [] s"
  "PutLengthPrefixedSlice (xs @ ys) s = xs @ PutLengthPrefixedSlice ys s"
  by (simp_all add: PutFixed32_def PutFixed64_def PutVarint32_def PutVarint64_def PutLengthPrefixedSlice_def)

lemma GetLengthPrefixedSlicePtr_eq: "GetLengthPrefixedSlicePtr = GetLengthPrefixedSlice"
  by (auto simp: fun_eq_iff GetLengthPrefixedSlicePtr_def GetLengthPrefixedSlice_def GetVarint32_Ptr
      split: Option.bind_splits)

text \<open>Every reader consumes a non-empty prefix, so a loop over a slice ends.\<close>

lemma varint_loop_suffix:
  "varint_loop maxshift shift r p = Some (v, rest) \<Longrightarrow>
    \<exists>pre. p = pre @ rest \<and> 0 < length pre \<and> shift + 7 * length pre \<le> maxshift + 7"
proof (induction maxshift shift r p rule: varint_loop.induct)
  case (2 maxshift shift r b ps)
  show ?case
  proof (cases "(ucast b :: 'a word) AND 128 \<noteq> 0")
    case True
    with 2 obtain pre where "ps = pre @ rest" "shift + 7 + 7 * length pre \<le> maxshift + 7"
      by (auto simp: Let_def split: if_splits)
    then have "b # ps = (b # pre) @ rest" "shift + 7 * length (b # pre) \<le> maxshift + 7" by auto
    then show ?thesis by (metis length_greater_0_conv list.distinct(1))
  next
    case False
    with 2(2) have "ps = rest" "shift \<le> maxshift" by (auto simp: Let_def split: if_splits)
    then have "b # ps = [b] @ rest" "shift + 7 * length [b] \<le> maxshift + 7" by auto
    then show ?thesis by (metis length_greater_0_conv list.distinct(1))
  qed
qed simp

lemma GetVarint32_suffix:
  "GetVarint32 p = Some (v, rest) \<Longrightarrow> \<exists>pre. p = pre @ rest \<and> 0 < length pre \<and> length pre \<le> 5"
  using varint_loop_suffix [of 28 0 0 p v rest] by (force simp: GetVarint32_loop)

lemma GetVarint64_suffix:
  "GetVarint64 p = Some (v, rest) \<Longrightarrow> \<exists>pre. p = pre @ rest \<and> 0 < length pre \<and> length pre \<le> 10"
  using varint_loop_suffix [of 63 0 0 p v rest] by (force simp: GetVarint32_Ptr GetVarint64Ptr_def)

lemma GetLengthPrefixedSlice_suffix:
  assumes "GetLengthPrefixedSlice p = Some (s, rest)"
  shows "\<exists>pre. p = pre @ s @ rest \<and> 0 < length pre \<and> length pre \<le> 5 \<and> length s < 2 ^ 32"
proof -
  from assms obtain len q where q: "GetVarint32 p = Some (len, q)" "unat len \<le> length q"
    "s = take (unat len) q" "rest = drop (unat len) q"
    by (auto simp: GetLengthPrefixedSlice_def split: Option.bind_splits if_splits)
  from GetVarint32_suffix [OF q(1)] obtain pre where "p = pre @ q" "0 < length pre" "length pre \<le> 5" by blast
  moreover have "length s < 2 ^ 32" using q(2,3) unsigned_less [of len, where 'a = nat] by simp
  ultimately show ?thesis using q by auto
qed

lemma slice_suffix_less:
  "GetVarint32 p = Some (v, rest) \<Longrightarrow> length rest < length p"
  "GetVarint64 p = Some (w, rest) \<Longrightarrow> length rest < length p"
  "GetLengthPrefixedSlice p = Some (s, rest) \<Longrightarrow> length rest < length p"
  by (auto dest!: GetVarint32_suffix GetVarint64_suffix GetLengthPrefixedSlice_suffix)

section \<open>Properties\<close>

text \<open>
  C19: A sequence of 32-bit varints, 64-bit varints or strings below 4 GiB that the writers append
  to a buffer is read back, in order, by the readers, which leave what follows; the encodings fill at
  most the 5 and 10 bytes of the writers' buffers, and \<^verbatim>\<open>VarintLength\<close> is the length written.
\<close>

theorem leveldb_coding_roundtrip:
  "GetVarint32 (PutVarint32 [] v @ rest) = Some (v, rest) \<and> length (PutVarint32 [] v) \<le> 5 \<and>
   GetVarint64 (PutVarint64 [] w @ rest) = Some (w, rest) \<and> length (PutVarint64 [] w) \<le> 10 \<and>
   VarintLength w = length (PutVarint64 [] w) \<and>
   DecodeFixed32 e (EncodeFixed32 e' v @ rest) = Some v \<and> DecodeFixed64 e (EncodeFixed64 e' w @ rest) = Some w \<and>
   (length s < 2 ^ 32 \<longrightarrow> GetLengthPrefixedSlice (PutLengthPrefixedSlice [] s @ rest) = Some (s, rest))"
  by (simp add: Put_append varint32.get_put varint64.get_put lps.get_put length_EncodeVarint32
      length_EncodeVarint64 VarintLength_leb mem_simps)

theorem leveldb_coding_roundtrip_witness:
  "GetVarint32 (PutVarint32 [] 300 @ [7]) = Some (300, [7]) \<and>
   GetLengthPrefixedSlice (PutLengthPrefixedSlice [] [1, 2, 3] @ [9]) = Some ([1, 2, 3], [9])"
  using leveldb_coding_roundtrip [of 300 "[7]"] leveldb_coding_roundtrip [of _ "[9]" _ _ _ "[1, 2, 3]"] by simp

text \<open>
  On any bytes, a varint reader either fails or consumes between one and 5 (10) bytes of its
  slice, and a string reader returns a string that is inside the slice: no reader looks behind the
  limit it is given.
\<close>

theorem leveldb_readers_in_bounds:
  "(\<forall>v rest. GetVarint32 p = Some (v, rest) \<longrightarrow> (\<exists>pre. p = pre @ rest \<and> 1 \<le> length pre \<and> length pre \<le> 5)) \<and>
   (\<forall>w rest. GetVarint64 p = Some (w, rest) \<longrightarrow> (\<exists>pre. p = pre @ rest \<and> 1 \<le> length pre \<and> length pre \<le> 10)) \<and>
   (\<forall>s rest. GetLengthPrefixedSlice p = Some (s, rest) \<longrightarrow>
      (\<exists>pre. p = pre @ s @ rest \<and> 1 \<le> length pre \<and> length pre \<le> 5))"
  unfolding One_nat_def Suc_le_eq
  by (intro conjI allI impI, rule GetVarint32_suffix, assumption, rule GetVarint64_suffix, assumption,
      drule GetLengthPrefixedSlice_suffix, iprover)

theorem leveldb_readers_in_bounds_witness:
  "\<exists>pre. [0xac, 0x02, 0x07] = pre @ [0x07 :: u8] \<and> 1 \<le> length pre \<and> length pre \<le> 5"
proof -
  have "GetVarint32 [0xac, 0x02, 0x07] = Some (300, [0x07])" by code_simp
  with leveldb_readers_in_bounds [of "[0xac, 0x02, 0x07]"] show ?thesis by blast
qed

end
