(* ===== verification/Ldb_Crc32c.thy ===== *)
theory Ldb_Crc32c
  imports Ldb_Coding
begin

text \<open>
  The checksum of LevelDB (\<^verbatim>\<open>util/crc32c.cc\<close>, \<^verbatim>\<open>util/crc32c.h\<close>): the table-driven routine with four
  interleaved strides, and its equality with the bitwise CRC-32C. \<open>accelerated\<close> stands for
  \<^verbatim>\<open>port::AcceleratedCRC32C\<close>, which is a call into another library or returns 0; \<open>addr\<close> is the
  address of the data, which decides the alignment.
\<close>

section \<open>The tables\<close>

definition kByteExtensionTable :: "u32 list" where
  "kByteExtensionTable = [
    0x00000000, 0xf26b8303, 0xe13b70f7, 0x1350f3f4, 0xc79a971f, 0x35f1141c, 0x26a1e7e8, 0xd4ca64eb,
    0x8ad958cf, 0x78b2dbcc, 0x6be22838, 0x9989ab3b, 0x4d43cfd0, 0xbf284cd3, 0xac78bf27, 0x5e133c24,
    0x105ec76f, 0xe235446c, 0xf165b798, 0x030e349b, 0xd7c45070, 0x25afd373, 0x36ff2087, 0xc494a384,
    0x9a879fa0, 0x68ec1ca3, 0x7bbcef57, 0x89d76c54, 0x5d1d08bf, 0xaf768bbc, 0xbc267848, 0x4e4dfb4b,
    0x20bd8ede, 0xd2d60ddd, 0xc186fe29, 0x33ed7d2a, 0xe72719c1, 0x154c9ac2, 0x061c6936, 0xf477ea35,
    0xaa64d611, 0x580f5512, 0x4b5fa6e6, 0xb93425e5, 0x6dfe410e, 0x9f95c20d, 0x8cc531f9, 0x7eaeb2fa,
    0x30e349b1, 0xc288cab2, 0xd1d83946, 0x23b3ba45, 0xf779deae, 0x05125dad, 0x1642ae59, 0xe4292d5a,
    0xba3a117e, 0x4851927d, 0x5b016189, 0xa96ae28a, 0x7da08661, 0x8fcb0562, 0x9c9bf696, 0x6ef07595,
    0x417b1dbc, 0xb3109ebf, 0xa0406d4b, 0x522bee48, 0x86e18aa3, 0x748a09a0, 0x67dafa54, 0x95b17957,
    0xcba24573, 0x39c9c670, 0x2a993584, 0xd8f2b687, 0x0c38d26c, 0xfe53516f, 0xed03a29b, 0x1f682198,
    0x5125dad3, 0xa34e59d0, 0xb01eaa24, 0x42752927, 0x96bf4dcc, 0x64d4cecf, 0x77843d3b, 0x85efbe38,
    0xdbfc821c, 0x2997011f, 0x3ac7f2eb, 0xc8ac71e8, 0x1c661503, 0xee0d9600, 0xfd5d65f4, 0x0f36e6f7,
    0x61c69362, 0x93ad1061, 0x80fde395, 0x72966096, 0xa65c047d, 0x5437877e, 0x4767748a, 0xb50cf789,
    0xeb1fcbad, 0x197448ae, 0x0a24bb5a, 0xf84f3859, 0x2c855cb2, 0xdeeedfb1, 0xcdbe2c45, 0x3fd5af46,
    0x7198540d, 0x83f3d70e, 0x90a324fa, 0x62c8a7f9, 0xb602c312, 0x44694011, 0x5739b3e5, 0xa55230e6,
    0xfb410cc2, 0x092a8fc1, 0x1a7a7c35, 0xe811ff36, 0x3cdb9bdd, 0xceb018de, 0xdde0eb2a, 0x2f8b6829,
    0x82f63b78, 0x709db87b, 0x63cd4b8f, 0x91a6c88c, 0x456cac67, 0xb7072f64, 0xa457dc90, 0x563c5f93,
    0x082f63b7, 0xfa44e0b4, 0xe9141340, 0x1b7f9043, 0xcfb5f4a8, 0x3dde77ab, 0x2e8e845f, 0xdce5075c,
    0x92a8fc17, 0x60c37f14, 0x73938ce0, 0x81f80fe3, 0x55326b08, 0xa759e80b, 0xb4091bff, 0x466298fc,
    0x1871a4d8, 0xea1a27db, 0xf94ad42f, 0x0b21572c, 0xdfeb33c7, 0x2d80b0c4, 0x3ed04330, 0xccbbc033,
    0xa24bb5a6, 0x502036a5, 0x4370c551, 0xb11b4652, 0x65d122b9, 0x97baa1ba, 0x84ea524e, 0x7681d14d,
    0x2892ed69, 0xdaf96e6a, 0xc9a99d9e, 0x3bc21e9d, 0xef087a76, 0x1d63f975, 0x0e330a81, 0xfc588982,
    0xb21572c9, 0x407ef1ca, 0x532e023e, 0xa145813d, 0x758fe5d6, 0x87e466d5, 0x94b49521, 0x66df1622,
    0x38cc2a06, 0xcaa7a905, 0xd9f75af1, 0x2b9cd9f2, 0xff56bd19, 0x0d3d3e1a, 0x1e6dcdee, 0xec064eed,
    0xc38d26c4, 0x31e6a5c7, 0x22b65633, 0xd0ddd530, 0x0417b1db, 0xf67c32d8, 0xe52cc12c, 0x1747422f,
    0x49547e0b, 0xbb3ffd08, 0xa86f0efc, 0x5a048dff, 0x8ecee914, 0x7ca56a17, 0x6ff599e3, 0x9d9e1ae0,
    0xd3d3e1ab, 0x21b862a8, 0x32e8915c, 0xc083125f, 0x144976b4, 0xe622f5b7, 0xf5720643, 0x07198540,
    0x590ab964, 0xab613a67, 0xb831c993, 0x4a5a4a90, 0x9e902e7b, 0x6cfbad78, 0x7fab5e8c, 0x8dc0dd8f,
    0xe330a81a, 0x115b2b19, 0x020bd8ed, 0xf0605bee, 0x24aa3f05, 0xd6c1bc06, 0xc5914ff2, 0x37faccf1,
    0x69e9f0d5, 0x9b8273d6, 0x88d28022, 0x7ab90321, 0xae7367ca, 0x5c18e4c9, 0x4f48173d, 0xbd23943e,
    0xf36e6f75, 0x0105ec76, 0x12551f82, 0xe03e9c81, 0x34f4f86a, 0xc69f7b69, 0xd5cf889d, 0x27a40b9e,
    0x79b737ba, 0x8bdcb4b9, 0x988c474d, 0x6ae7c44e, 0xbe2da0a5, 0x4c4623a6, 0x5f16d052, 0xad7d5351]"

definition kStrideExtensionTable0 :: "u32 list" where
  "kStrideExtensionTable0 = [
    0x00000000, 0x30d23865, 0x61a470ca, 0x517648af, 0xc348e194, 0xf39ad9f1, 0xa2ec915e, 0x923ea93b,
    0x837db5d9, 0xb3af8dbc, 0xe2d9c513, 0xd20bfd76, 0x4035544d, 0x70e76c28, 0x21912487, 0x11431ce2,
    0x03171d43, 0x33c52526, 0x62b36d89, 0x526155ec, 0xc05ffcd7, 0xf08dc4b2, 0xa1fb8c1d, 0x9129b478,
    0x806aa89a, 0xb0b890ff, 0xe1ced850, 0xd11ce035, 0x4322490e, 0x73f0716b, 0x228639c4, 0x125401a1,
    0x062e3a86, 0x36fc02e3, 0x678a4a4c, 0x57587229, 0xc566db12, 0xf5b4e377, 0xa4c2abd8, 0x941093bd,
    0x85538f5f, 0xb581b73a, 0xe4f7ff95, 0xd425c7f0, 0x461b6ecb, 0x76c956ae, 0x27bf1e01, 0x176d2664,
    0x053927c5, 0x35eb1fa0, 0x649d570f, 0x544f6f6a, 0xc671c651, 0xf6a3fe34, 0xa7d5b69b, 0x97078efe,
    0x8644921c, 0xb696aa79, 0xe7e0e2d6, 0xd732dab3, 0x450c7388, 0x75de4bed, 0x24a80342, 0x147a3b27,
    0x0c5c750c, 0x3c8e4d69, 0x6df805c6, 0x5d2a3da3, 0xcf149498, 0xffc6acfd, 0xaeb0e452, 0x9e62dc37,
    0x8f21c0d5, 0xbff3f8b0, 0xee85b01f, 0xde57887a, 0x4c692141, 0x7cbb1924, 0x2dcd518b, 0x1d1f69ee,
    0x0f4b684f, 0x3f99502a, 0x6eef1885, 0x5e3d20e0, 0xcc0389db, 0xfcd1b1be, 0xada7f911, 0x9d75c174,
    0x8c36dd96, 0xbce4e5f3, 0xed92ad5c, 0xdd409539, 0x4f7e3c02, 0x7fac0467, 0x2eda4cc8, 0x1e0874ad,
    0x0a724f8a, 0x3aa077ef, 0x6bd63f40, 0x5b040725, 0xc93aae1e, 0xf9e8967b, 0xa89eded4, 0x984ce6b1,
    0x890ffa53, 0xb9ddc236, 0xe8ab8a99, 0xd879b2fc, 0x4a471bc7, 0x7a9523a2, 0x2be36b0d, 0x1b315368,
    0x096552c9, 0x39b76aac, 0x68c12203, 0x58131a66, 0xca2db35d, 0xfaff8b38, 0xab89c397, 0x9b5bfbf2,
    0x8a18e710, 0xbacadf75, 0xebbc97da, 0xdb6eafbf, 0x49500684, 0x79823ee1, 0x28f4764e, 0x18264e2b,
    0x18b8ea18, 0x286ad27d, 0x791c9ad2, 0x49cea2b7, 0xdbf00b8c, 0xeb2233e9, 0xba547b46, 0x8a864323,
    0x9bc55fc1, 0xab1767a4, 0xfa612f0b, 0xcab3176e, 0x588dbe55, 0x685f8630, 0x3929ce9f, 0x09fbf6fa,
    0x1baff75b, 0x2b7dcf3e, 0x7a0b8791, 0x4ad9bff4, 0xd8e716cf, 0xe8352eaa, 0xb9436605, 0x89915e60,
    0x98d24282, 0xa8007ae7, 0xf9763248, 0xc9a40a2d, 0x5b9aa316, 0x6b489b73, 0x3a3ed3dc, 0x0aecebb9,
    0x1e96d09e, 0x2e44e8fb, 0x7f32a054, 0x4fe09831, 0xddde310a, 0xed0c096f, 0xbc7a41c0, 0x8ca879a5,
    0x9deb6547, 0xad395d22, 0xfc4f158d, 0xcc9d2de8, 0x5ea384d3, 0x6e71bcb6, 0x3f07f419, 0x0fd5cc7c,
    0x1d81cddd, 0x2d53f5b8, 0x7c25bd17, 0x4cf78572, 0xdec92c49, 0xee1b142c, 0xbf6d5c83, 0x8fbf64e6,
    0x9efc7804, 0xae2e4061, 0xff5808ce, 0xcf8a30ab, 0x5db49990, 0x6d66a1f5, 0x3c10e95a, 0x0cc2d13f,
    0x14e49f14, 0x2436a771, 0x7540efde, 0x4592d7bb, 0xd7ac7e80, 0xe77e46e5, 0xb6080e4a, 0x86da362f,
    0x97992acd, 0xa74b12a8, 0xf63d5a07, 0xc6ef6262, 0x54d1cb59, 0x6403f33c, 0x3575bb93, 0x05a783f6,
    0x17f38257, 0x2721ba32, 0x7657f29d, 0x4685caf8, 0xd4bb63c3, 0xe4695ba6, 0xb51f1309, 0x85cd2b6c,
    0x948e378e, 0xa45c0feb, 0xf52a4744, 0xc5f87f21, 0x57c6d61a, 0x6714ee7f, 0x3662a6d0, 0x06b09eb5,
    0x12caa592, 0x22189df7, 0x736ed558, 0x43bced3d, 0xd1824406, 0xe1507c63, 0xb02634cc, 0x80f40ca9,
    0x91b7104b, 0xa165282e, 0xf0136081, 0xc0c158e4, 0x52fff1df, 0x622dc9ba, 0x335b8115, 0x0389b970,
    0x11ddb8d1, 0x210f80b4, 0x7079c81b, 0x40abf07e, 0xd2955945, 0xe2476120, 0xb331298f, 0x83e311ea,
    0x92a00d08, 0xa272356d, 0xf3047dc2, 0xc3d645a7, 0x51e8ec9c, 0x613ad4f9, 0x304c9c56, 0x009ea433]"

definition kStrideExtensionTable1 :: "u32 list" where
  "kStrideExtensionTable1 = [
    0x00000000, 0x54075546, 0xa80eaa8c, 0xfc09ffca, 0x55f123e9, 0x01f676af, 0xfdff8965, 0xa9f8dc23,
    0xabe247d2, 0xffe51294, 0x03eced5e, 0x57ebb818, 0xfe13643b, 0xaa14317d, 0x561dceb7, 0x021a9bf1,
    0x5228f955, 0x062fac13, 0xfa2653d9, 0xae21069f, 0x07d9dabc, 0x53de8ffa, 0xafd77030, 0xfbd02576,
    0xf9cabe87, 0xadcdebc1, 0x51c4140b, 0x05c3414d, 0xac3b9d6e, 0xf83cc828, 0x043537e2, 0x503262a4,
    0xa451f2aa, 0xf056a7ec, 0x0c5f5826, 0x58580d60, 0xf1a0d143, 0xa5a78405, 0x59ae7bcf, 0x0da92e89,
    0x0fb3b578, 0x5bb4e03e, 0xa7bd1ff4, 0xf3ba4ab2, 0x5a429691, 0x0e45c3d7, 0xf24c3c1d, 0xa64b695b,
    0xf6790bff, 0xa27e5eb9, 0x5e77a173, 0x0a70f435, 0xa3882816, 0xf78f7d50, 0x0b86829a, 0x5f81d7dc,
    0x5d9b4c2d, 0x099c196b, 0xf595e6a1, 0xa192b3e7, 0x086a6fc4, 0x5c6d3a82, 0xa064c548, 0xf463900e,
    0x4d4f93a5, 0x1948c6e3, 0xe5413929, 0xb1466c6f, 0x18beb04c, 0x4cb9e50a, 0xb0b01ac0, 0xe4b74f86,
    0xe6add477, 0xb2aa8131, 0x4ea37efb, 0x1aa42bbd, 0xb35cf79e, 0xe75ba2d8, 0x1b525d12, 0x4f550854,
    0x1f676af0, 0x4b603fb6, 0xb769c07c, 0xe36e953a, 0x4a964919, 0x1e911c5f, 0xe298e395, 0xb69fb6d3,
    0xb4852d22, 0xe0827864, 0x1c8b87ae, 0x488cd2e8, 0xe1740ecb, 0xb5735b8d, 0x497aa447, 0x1d7df101,
    0xe91e610f, 0xbd193449, 0x4110cb83, 0x15179ec5, 0xbcef42e6, 0xe8e817a0, 0x14e1e86a, 0x40e6bd2c,
    0x42fc26dd, 0x16fb739b, 0xeaf28c51, 0xbef5d917, 0x170d0534, 0x430a5072, 0xbf03afb8, 0xeb04fafe,
    0xbb36985a, 0xef31cd1c, 0x133832d6, 0x473f6790, 0xeec7bbb3, 0xbac0eef5, 0x46c9113f, 0x12ce4479,
    0x10d4df88, 0x44d38ace, 0xb8da7504, 0xecdd2042, 0x4525fc61, 0x1122a927, 0xed2b56ed, 0xb92c03ab,
    0x9a9f274a, 0xce98720c, 0x32918dc6, 0x6696d880, 0xcf6e04a3, 0x9b6951e5, 0x6760ae2f, 0x3367fb69,
    0x317d6098, 0x657a35de, 0x9973ca14, 0xcd749f52, 0x648c4371, 0x308b1637, 0xcc82e9fd, 0x9885bcbb,
    0xc8b7de1f, 0x9cb08b59, 0x60b97493, 0x34be21d5, 0x9d46fdf6, 0xc941a8b0, 0x3548577a, 0x614f023c,
    0x635599cd, 0x3752cc8b, 0xcb5b3341, 0x9f5c6607, 0x36a4ba24, 0x62a3ef62, 0x9eaa10a8, 0xcaad45ee,
    0x3eced5e0, 0x6ac980a6, 0x96c07f6c, 0xc2c72a2a, 0x6b3ff609, 0x3f38a34f, 0xc3315c85, 0x973609c3,
    0x952c9232, 0xc12bc774, 0x3d2238be, 0x69256df8, 0xc0ddb1db, 0x94dae49d, 0x68d31b57, 0x3cd44e11,
    0x6ce62cb5, 0x38e179f3, 0xc4e88639, 0x90efd37f, 0x39170f5c, 0x6d105a1a, 0x9119a5d0, 0xc51ef096,
    0xc7046b67, 0x93033e21, 0x6f0ac1eb, 0x3b0d94ad, 0x92f5488e, 0xc6f21dc8, 0x3afbe202, 0x6efcb744,
    0xd7d0b4ef, 0x83d7e1a9, 0x7fde1e63, 0x2bd94b25, 0x82219706, 0xd626c240, 0x2a2f3d8a, 0x7e2868cc,
    0x7c32f33d, 0x2835a67b, 0xd43c59b1, 0x803b0cf7, 0x29c3d0d4, 0x7dc48592, 0x81cd7a58, 0xd5ca2f1e,
    0x85f84dba, 0xd1ff18fc, 0x2df6e736, 0x79f1b270, 0xd0096e53, 0x840e3b15, 0x7807c4df, 0x2c009199,
    0x2e1a0a68, 0x7a1d5f2e, 0x8614a0e4, 0xd213f5a2, 0x7beb2981, 0x2fec7cc7, 0xd3e5830d, 0x87e2d64b,
    0x73814645, 0x27861303, 0xdb8fecc9, 0x8f88b98f, 0x267065ac, 0x727730ea, 0x8e7ecf20, 0xda799a66,
    0xd8630197, 0x8c6454d1, 0x706dab1b, 0x246afe5d, 0x8d92227e, 0xd9957738, 0x259c88f2, 0x719bddb4,
    0x21a9bf10, 0x75aeea56, 0x89a7159c, 0xdda040da, 0x74589cf9, 0x205fc9bf, 0xdc563675, 0x88516333,
    0x8a4bf8c2, 0xde4cad84, 0x2245524e, 0x76420708, 0xdfbadb2b, 0x8bbd8e6d, 0x77b471a7, 0x23b324e1]"

definition kStrideExtensionTable2 :: "u32 list" where
  "kStrideExtensionTable2 = [
    0x00000000, 0x678efd01, 0xcf1dfa02, 0xa8930703, 0x9bd782f5, 0xfc597ff4, 0x54ca78f7, 0x334485f6,
    0x3243731b, 0x55cd8e1a, 0xfd5e8919, 0x9ad07418, 0xa994f1ee, 0xce1a0cef, 0x66890bec, 0x0107f6ed,
    0x6486e636, 0x03081b37, 0xab9b1c34, 0xcc15e135, 0xff5164c3, 0x98df99c2, 0x304c9ec1, 0x57c263c0,
    0x56c5952d, 0x314b682c, 0x99d86f2f, 0xfe56922e, 0xcd1217d8, 0xaa9cead9, 0x020fedda, 0x658110db,
    0xc90dcc6c, 0xae83316d, 0x0610366e, 0x619ecb6f, 0x52da4e99, 0x3554b398, 0x9dc7b49b, 0xfa49499a,
    0xfb4ebf77, 0x9cc04276, 0x34534575, 0x53ddb874, 0x60993d82, 0x0717c083, 0xaf84c780, 0xc80a3a81,
    0xad8b2a5a, 0xca05d75b, 0x6296d058, 0x05182d59, 0x365ca8af, 0x51d255ae, 0xf94152ad, 0x9ecfafac,
    0x9fc85941, 0xf846a440, 0x50d5a343, 0x375b5e42, 0x041fdbb4, 0x639126b5, 0xcb0221b6, 0xac8cdcb7,
    0x97f7ee29, 0xf0791328, 0x58ea142b, 0x3f64e92a, 0x0c206cdc, 0x6bae91dd, 0xc33d96de, 0xa4b36bdf,
    0xa5b49d32, 0xc23a6033, 0x6aa96730, 0x0d279a31, 0x3e631fc7, 0x59ede2c6, 0xf17ee5c5, 0x96f018c4,
    0xf371081f, 0x94fff51e, 0x3c6cf21d, 0x5be20f1c, 0x68a68aea, 0x0f2877eb, 0xa7bb70e8, 0xc0358de9,
    0xc1327b04, 0xa6bc8605, 0x0e2f8106, 0x69a17c07, 0x5ae5f9f1, 0x3d6b04f0, 0x95f803f3, 0xf276fef2,
    0x5efa2245, 0x3974df44, 0x91e7d847, 0xf6692546, 0xc52da0b0, 0xa2a35db1, 0x0a305ab2, 0x6dbea7b3,
    0x6cb9515e, 0x0b37ac5f, 0xa3a4ab5c, 0xc42a565d, 0xf76ed3ab, 0x90e02eaa, 0x387329a9, 0x5ffdd4a8,
    0x3a7cc473, 0x5df23972, 0xf5613e71, 0x92efc370, 0xa1ab4686, 0xc625bb87, 0x6eb6bc84, 0x09384185,
    0x083fb768, 0x6fb14a69, 0xc7224d6a, 0xa0acb06b, 0x93e8359d, 0xf466c89c, 0x5cf5cf9f, 0x3b7b329e,
    0x2a03aaa3, 0x4d8d57a2, 0xe51e50a1, 0x8290ada0, 0xb1d42856, 0xd65ad557, 0x7ec9d254, 0x19472f55,
    0x1840d9b8, 0x7fce24b9, 0xd75d23ba, 0xb0d3debb, 0x83975b4d, 0xe419a64c, 0x4c8aa14f, 0x2b045c4e,
    0x4e854c95, 0x290bb194, 0x8198b697, 0xe6164b96, 0xd552ce60, 0xb2dc3361, 0x1a4f3462, 0x7dc1c963,
    0x7cc63f8e, 0x1b48c28f, 0xb3dbc58c, 0xd455388d, 0xe711bd7b, 0x809f407a, 0x280c4779, 0x4f82ba78,
    0xe30e66cf, 0x84809bce, 0x2c139ccd, 0x4b9d61cc, 0x78d9e43a, 0x1f57193b, 0xb7c41e38, 0xd04ae339,
    0xd14d15d4, 0xb6c3e8d5, 0x1e50efd6, 0x79de12d7, 0x4a9a9721, 0x2d146a20, 0x85876d23, 0xe2099022,
    0x878880f9, 0xe0067df8, 0x48957afb, 0x2f1b87fa, 0x1c5f020c, 0x7bd1ff0d, 0xd342f80e, 0xb4cc050f,
    0xb5cbf3e2, 0xd2450ee3, 0x7ad609e0, 0x1d58f4e1, 0x2e1c7117, 0x49928c16, 0xe1018b15, 0x868f7614,
    0xbdf4448a, 0xda7ab98b, 0x72e9be88, 0x15674389, 0x2623c67f, 0x41ad3b7e, 0xe93e3c7d, 0x8eb0c17c,
    0x8fb73791, 0xe839ca90, 0x40aacd93, 0x27243092, 0x1460b564, 0x73ee4865, 0xdb7d4f66, 0xbcf3b267,
    0xd972a2bc, 0xbefc5fbd, 0x166f58be, 0x71e1a5bf, 0x42a52049, 0x252bdd48, 0x8db8da4b, 0xea36274a,
    0xeb31d1a7, 0x8cbf2ca6, 0x242c2ba5, 0x43a2d6a4, 0x70e65352, 0x1768ae53, 0xbffba950, 0xd8755451,
    0x74f988e6, 0x137775e7, 0xbbe472e4, 0xdc6a8fe5, 0xef2e0a13, 0x88a0f712, 0x2033f011, 0x47bd0d10,
    0x46bafbfd, 0x213406fc, 0x89a701ff, 0xee29fcfe, 0xdd6d7908, 0xbae38409, 0x1270830a, 0x75fe7e0b,
    0x107f6ed0, 0x77f193d1, 0xdf6294d2, 0xb8ec69d3, 0x8ba8ec25, 0xec261124, 0x44b51627, 0x233beb26,
    0x223c1dcb, 0x45b2e0ca, 0xed21e7c9, 0x8aaf1ac8, 0xb9eb9f3e, 0xde65623f, 0x76f6653c, 0x1178983d]"

definition kStrideExtensionTable3 :: "u32 list" where
  "kStrideExtensionTable3 = [
    0x00000000, 0xf20c0dfe, 0xe1f46d0d, 0x13f860f3, 0xc604aceb, 0x3408a115, 0x27f0c1e6, 0xd5fccc18,
    0x89e52f27, 0x7be922d9, 0x6811422a, 0x9a1d4fd4, 0x4fe183cc, 0xbded8e32, 0xae15eec1, 0x5c19e33f,
    0x162628bf, 0xe42a2541, 0xf7d245b2, 0x05de484c, 0xd0228454, 0x222e89aa, 0x31d6e959, 0xc3dae4a7,
    0x9fc30798, 0x6dcf0a66, 0x7e376a95, 0x8c3b676b, 0x59c7ab73, 0xabcba68d, 0xb833c67e, 0x4a3fcb80,
    0x2c4c517e, 0xde405c80, 0xcdb83c73, 0x3fb4318d, 0xea48fd95, 0x1844f06b, 0x0bbc9098, 0xf9b09d66,
    0xa5a97e59, 0x57a573a7, 0x445d1354, 0xb6511eaa, 0x63add2b2, 0x91a1df4c, 0x8259bfbf, 0x7055b241,
    0x3a6a79c1, 0xc866743f, 0xdb9e14cc, 0x29921932, 0xfc6ed52a, 0x0e62d8d4, 0x1d9ab827, 0xef96b5d9,
    0xb38f56e6, 0x41835b18, 0x527b3beb, 0xa0773615, 0x758bfa0d, 0x8787f7f3, 0x947f9700, 0x66739afe,
    0x5898a2fc, 0xaa94af02, 0xb96ccff1, 0x4b60c20f, 0x9e9c0e17, 0x6c9003e9, 0x7f68631a, 0x8d646ee4,
    0xd17d8ddb, 0x23718025, 0x3089e0d6, 0xc285ed28, 0x17792130, 0xe5752cce, 0xf68d4c3d, 0x048141c3,
    0x4ebe8a43, 0xbcb287bd, 0xaf4ae74e, 0x5d46eab0, 0x88ba26a8, 0x7ab62b56, 0x694e4ba5, 0x9b42465b,
    0xc75ba564, 0x3557a89a, 0x26afc869, 0xd4a3c597, 0x015f098f, 0xf3530471, 0xe0ab6482, 0x12a7697c,
    0x74d4f382, 0x86d8fe7c, 0x95209e8f, 0x672c9371, 0xb2d05f69, 0x40dc5297, 0x53243264, 0xa1283f9a,
    0xfd31dca5, 0x0f3dd15b, 0x1cc5b1a8, 0xeec9bc56, 0x3b35704e, 0xc9397db0, 0xdac11d43, 0x28cd10bd,
    0x62f2db3d, 0x90fed6c3, 0x8306b630, 0x710abbce, 0xa4f677d6, 0x56fa7a28, 0x45021adb, 0xb70e1725,
    0xeb17f41a, 0x191bf9e4, 0x0ae39917, 0xf8ef94e9, 0x2d1358f1, 0xdf1f550f, 0xcce735fc, 0x3eeb3802,
    0xb13145f8, 0x433d4806, 0x50c528f5, 0xa2c9250b, 0x7735e913, 0x8539e4ed, 0x96c1841e, 0x64cd89e0,
    0x38d46adf, 0xcad86721, 0xd92007d2, 0x2b2c0a2c, 0xfed0c634, 0x0cdccbca, 0x1f24ab39, 0xed28a6c7,
    0xa7176d47, 0x551b60b9, 0x46e3004a, 0xb4ef0db4, 0x6113c1ac, 0x931fcc52, 0x80e7aca1, 0x72eba15f,
    0x2ef24260, 0xdcfe4f9e, 0xcf062f6d, 0x3d0a2293, 0xe8f6ee8b, 0x1afae375, 0x09028386, 0xfb0e8e78,
    0x9d7d1486, 0x6f711978, 0x7c89798b, 0x8e857475, 0x5b79b86d, 0xa975b593, 0xba8dd560, 0x4881d89e,
    0x14983ba1, 0xe694365f, 0xf56c56ac, 0x07605b52, 0xd29c974a, 0x20909ab4, 0x3368fa47, 0xc164f7b9,
    0x8b5b3c39, 0x795731c7, 0x6aaf5134, 0x98a35cca, 0x4d5f90d2, 0xbf539d2c, 0xacabfddf, 0x5ea7f021,
    0x02be131e, 0xf0b21ee0, 0xe34a7e13, 0x114673ed, 0xc4babff5, 0x36b6b20b, 0x254ed2f8, 0xd742df06,
    0xe9a9e704, 0x1ba5eafa, 0x085d8a09, 0xfa5187f7, 0x2fad4bef, 0xdda14611, 0xce5926e2, 0x3c552b1c,
    0x604cc823, 0x9240c5dd, 0x81b8a52e, 0x73b4a8d0, 0xa64864c8, 0x54446936, 0x47bc09c5, 0xb5b0043b,
    0xff8fcfbb, 0x0d83c245, 0x1e7ba2b6, 0xec77af48, 0x398b6350, 0xcb876eae, 0xd87f0e5d, 0x2a7303a3,
    0x766ae09c, 0x8466ed62, 0x979e8d91, 0x6592806f, 0xb06e4c77, 0x42624189, 0x519a217a, 0xa3962c84,
    0xc5e5b67a, 0x37e9bb84, 0x2411db77, 0xd61dd689, 0x03e11a91, 0xf1ed176f, 0xe215779c, 0x10197a62,
    0x4c00995d, 0xbe0c94a3, 0xadf4f450, 0x5ff8f9ae, 0x8a0435b6, 0x78083848, 0x6bf058bb, 0x99fc5545,
    0xd3c39ec5, 0x21cf933b, 0x3237f3c8, 0xc03bfe36, 0x15c7322e, 0xe7cb3fd0, 0xf4335f23, 0x063f52dd,
    0x5a26b1e2, 0xa82abc1c, 0xbbd2dcef, 0x49ded111, 0x9c221d09, 0x6e2e10f7, 0x7dd67004, 0x8fda7dfa]"

section \<open>The routine\<close>

definition kCRC32Xor :: u32 where "kCRC32Xor = 0xffffffff"

definition ReadUint32LE :: "bytes \<Rightarrow> u32 option" where
  "ReadUint32LE buffer = DecodeFixed32 True buffer"

definition RoundUp :: "nat \<Rightarrow> u64 \<Rightarrow> u64" where
  "RoundUp N pointer = (pointer + (of_nat N - 1)) AND NOT (of_nat N - 1)"

definition STEP1 :: "u32 \<Rightarrow> u8 \<Rightarrow> u32" where
  "STEP1 l p = (let c = (l AND 0xff) XOR ucast p in kByteExtensionTable ! unat c XOR drop_bit 8 l)"

definition STEP4 :: "u32 \<Rightarrow> u32 \<Rightarrow> u32" where
  "STEP4 crc w =
     w XOR kStrideExtensionTable3 ! unat (crc AND 0xff) XOR
     kStrideExtensionTable2 ! unat (drop_bit 8 crc AND 0xff) XOR
     kStrideExtensionTable1 ! unat (drop_bit 16 crc AND 0xff) XOR
     kStrideExtensionTable0 ! unat (drop_bit 24 crc)"

definition STEP4W :: "u32 \<Rightarrow> u32 \<Rightarrow> u32" where
  "STEP4W l w = ((\<lambda>w. drop_bit 8 w XOR kByteExtensionTable ! unat (w AND 0xff)) ^^ 4) (w XOR l)"

type_synonym strides = "u32 \<times> u32 \<times> u32 \<times> u32"

function swath_loop :: "strides \<Rightarrow> bytes \<Rightarrow> (strides \<times> bytes) option" where
  "swath_loop (crc0, crc1, crc2, crc3) p =
     (if 16 \<le> length p then do {
        w0 \<leftarrow> ReadUint32LE p; w1 \<leftarrow> ReadUint32LE (drop 4 p);
        w2 \<leftarrow> ReadUint32LE (drop 8 p); w3 \<leftarrow> ReadUint32LE (drop 12 p);
        swath_loop (STEP4 crc0 w0, STEP4 crc1 w1, STEP4 crc2 w2, STEP4 crc3 w3) (drop 16 p)
      } else Some ((crc0, crc1, crc2, crc3), p))"
  by pat_completeness auto

termination by (relation "measure (length \<circ> snd)") auto

function word_loop :: "strides \<Rightarrow> bytes \<Rightarrow> (strides \<times> bytes) option" where
  "word_loop (crc0, crc1, crc2, crc3) p =
     (if 4 \<le> length p then do {
        w \<leftarrow> ReadUint32LE p;
        word_loop (crc1, crc2, crc3, STEP4 crc0 w) (drop 4 p)
      } else Some ((crc0, crc1, crc2, crc3), p))"
  by pat_completeness auto

termination by (relation "measure (length \<circ> snd)") auto

declare swath_loop.simps [simp del] word_loop.simps [simp del]

definition strides_part :: "u32 \<Rightarrow> bytes \<Rightarrow> (u32 \<times> bytes) option" where
  "strides_part l p =
     (if 16 \<le> length p then do {
        w0 \<leftarrow> ReadUint32LE p; w1 \<leftarrow> ReadUint32LE (drop 4 p);
        w2 \<leftarrow> ReadUint32LE (drop 8 p); w3 \<leftarrow> ReadUint32LE (drop 12 p);
        (crcs, p) \<leftarrow> swath_loop (w0 XOR l, w1, w2, w3) (drop 16 p);
        ((crc0, crc1, crc2, crc3), p) \<leftarrow> word_loop crcs p;
        Some (STEP4W (STEP4W (STEP4W (STEP4W 0 crc0) crc1) crc2) crc3, p)
      } else Some (l, p))"

definition TestCRCBuffer :: bytes where
  "TestCRCBuffer = map (\<lambda>c. of_nat (of_char c)) ''TestCRCBuffer''"

definition CanAccelerateCRC32C :: "(u32 \<Rightarrow> bytes \<Rightarrow> u32) \<Rightarrow> bool" where
  "CanAccelerateCRC32C accelerated \<longleftrightarrow> accelerated 0 TestCRCBuffer = 0xdcbc59fa"

definition Extend :: "(u32 \<Rightarrow> bytes \<Rightarrow> u32) \<Rightarrow> u64 \<Rightarrow> u32 \<Rightarrow> bytes \<Rightarrow> u32 option" where
  "Extend accelerated addr crc data =
     (if CanAccelerateCRC32C accelerated then Some (accelerated crc data)
      else do {
        let l = crc XOR kCRC32Xor;
        let k = unat (RoundUp 4 addr - addr);
        let (l, p) = (if k \<le> length data then (foldl STEP1 l (take k data), drop k data) else (l, data));
        (l, p) \<leftarrow> strides_part l p;
        let l = foldl STEP1 l p;
        Some (l XOR kCRC32Xor)
      })"

definition Crc_Value :: "(u32 \<Rightarrow> bytes \<Rightarrow> u32) \<Rightarrow> u64 \<Rightarrow> bytes \<Rightarrow> u32 option" where
  "Crc_Value accelerated addr data = Extend accelerated addr 0 data"

definition kMaskDelta :: u32 where "kMaskDelta = 0xa282ead8"

definition Mask :: "u32 \<Rightarrow> u32" where
  "Mask crc = (drop_bit 15 crc OR push_bit 17 crc) + kMaskDelta"

definition Unmask :: "u32 \<Rightarrow> u32" where
  "Unmask masked_crc = (let rot = masked_crc - kMaskDelta in drop_bit 17 rot OR push_bit 15 rot)"

section \<open>The bitwise checksum\<close>

text \<open>One step of the shift register for the reflected polynomial 0x82f63b78, and its iterations.\<close>

definition crc_bit :: "u32 \<Rightarrow> u32" where
  "crc_bit l = (if bit l 0 then drop_bit 1 l XOR 0x82f63b78 else drop_bit 1 l)"

definition crc_byte :: "u32 \<Rightarrow> u32" where
  "crc_byte l = (crc_bit ^^ 8) l"

definition crc_bytes :: "u32 \<Rightarrow> bytes \<Rightarrow> u32" where
  "crc_bytes l bs = foldl (\<lambda>l b. crc_byte (l XOR ucast b)) l bs"

definition crc32c :: "u32 \<Rightarrow> bytes \<Rightarrow> u32" where
  "crc32c crc data = crc_bytes (crc XOR 0xffffffff) data XOR 0xffffffff"

section \<open>Linearity\<close>

definition lin :: "(u32 \<Rightarrow> u32) \<Rightarrow> bool" where
  "lin f \<longleftrightarrow> (\<forall>a b. f (a XOR b) = f a XOR f b)"

lemma linD: "lin f \<Longrightarrow> f (a XOR b) = f a XOR f b"
  by (simp add: lin_def)

lemma lin_0: "lin f \<Longrightarrow> f 0 = 0"
  using linD [of f 0 0] by simp

lemma lin_comp: "lin f \<Longrightarrow> lin g \<Longrightarrow> lin (f \<circ> g)"
  by (simp add: lin_def)

lemma lin_funpow: "lin f \<Longrightarrow> lin (f ^^ n)"
  by (induction n) (simp_all add: lin_def)

lemma lin_push: "lin (push_bit n)"
  by (simp add: lin_def push_bit_xor)

lemma lin_crc_bit: "lin crc_bit"
  by (auto simp: lin_def crc_bit_def drop_bit_xor ac_simps bit_xor_iff)

lemma lin_crc_byte: "lin crc_byte"
  using lin_funpow [OF lin_crc_bit, of 8] by (simp add: crc_byte_def [abs_def])

text \<open>A table of a linear function is spanned by its values at the powers of two.\<close>

fun span :: "u32 list \<Rightarrow> u32 list" where
  "span [] = [0]"
| "span (b # bs) = (let r = span bs in r @ map (\<lambda>x. x XOR b) r)"

lemma of_nat_add_exp:
  assumes "i < 2 ^ n" and "n < 32"
  shows "(of_nat (i + 2 ^ n) :: u32) = of_nat i XOR 2 ^ n"
proof -
  have "\<not> bit i n" using assms(1) by (metis bit_take_bit_iff less_irrefl take_bit_nat_eq_self)
  then have "(of_nat i :: u32) AND 2 ^ n = 0" by (auto intro!: bit_eqI simp: bit_simps bit_of_nat_iff)
  then show ?thesis by (simp add: disjunctive_xor_eq_or disjunctive_add_eq_or)
qed

lemma span_linear:
  assumes "lin f"
  shows "n \<le> 32 \<Longrightarrow> span (map (\<lambda>j. f (2 ^ j)) (rev [0..<n])) = map (\<lambda>i. f (of_nat i)) [0..<2 ^ n]"
proof (induction n)
  case 0
  then show ?case using lin_0 [OF assms] by simp
next
  case (Suc n)
  have "[0..<m + m] = [0..<m] @ map (\<lambda>i. i + m) [0..<m]" for m :: nat
    using upt_add_eq_append [of 0 m m] map_add_upt [of m m] by simp
  from this [of "2 ^ n"] have "[0..<2 ^ Suc n] = [0..<2 ^ n] @ map (\<lambda>i. i + 2 ^ n) [0..<2 ^ n]"
    by (simp add: mult_2)
  moreover have "f (of_nat (i + 2 ^ n)) = f (of_nat i) XOR f (2 ^ n)" if "i < 2 ^ n" for i
    using of_nat_add_exp [OF that, of] Suc.prems linD [OF assms] by simp
  ultimately show ?case using Suc by (simp add: Let_def)
qed

lemma crc_bit_exp: "n < 31 \<Longrightarrow> crc_bit (2 ^ Suc n) = 2 ^ n"
  by (simp add: crc_bit_def drop_bit_exp_eq bit_exp_iff del: power_Suc bit_0)

lemma crc_bit_funpow: "j \<le> n \<Longrightarrow> j < 32 \<Longrightarrow> (crc_bit ^^ n) (2 ^ j) = (crc_bit ^^ (n - j)) 1"
proof (induction j arbitrary: n)
  case (Suc j)
  then obtain m where n: "n = Suc m" "j \<le> m" by (cases n) auto
  have "(crc_bit ^^ n) (2 ^ Suc j) = (crc_bit ^^ m) (crc_bit (2 ^ Suc j))"
    unfolding n(1) by (simp only: funpow_Suc_right comp_def)
  with Suc n show ?case by (simp add: crc_bit_exp del: power_Suc)
qed simp

section \<open>The tables are those of the bitwise checksum\<close>

text \<open>The register started at 1.\<close>

definition crc_sequence :: "u32 list" where
  "crc_sequence = [
    0x00000001, 0x82f63b78, 0x417b1dbc, 0x20bd8ede, 0x105ec76f, 0x8ad958cf, 0xc79a971f, 0xe13b70f7,
    0xf26b8303, 0xfbc3faf9, 0xff17c604, 0x7f8be302, 0x3fc5f181, 0x9d14c3b8, 0x4e8a61dc, 0x274530ee,
    0x13a29877, 0x8b277743, 0xc76580d9, 0xe144fb14, 0x70a27d8a, 0x38513ec5, 0x9edea41a, 0x4f6f520d,
    0xa541927e, 0x52a0c93f, 0xaba65fe7, 0xd725148b, 0xe964b13d, 0xf64463e6, 0x7b2231f3, 0xbf672381,
    0xdd45aab8, 0x6ea2d55c, 0x37516aae, 0x1ba8b557, 0x8f2261d3, 0xc5670b91, 0xe045beb0, 0x7022df58,
    0x38116fac, 0x1c08b7d6, 0x0e045beb, 0x85f4168d, 0xc00c303e, 0x6006181f, 0xb2f53777, 0xdb8ca0c3,
    0xef306b19, 0xf56e0ef4, 0x7ab7077a, 0x3d5b83bd, 0x9c5bfaa6, 0x4e2dfd53, 0xa5e0c5d1, 0xd0065990,
    0x68032cc8, 0x34019664, 0x1a00cb32, 0x0d006599, 0x847609b4, 0x423b04da, 0x211d826d, 0x9278fa4e,
    0x493c7d27, 0xa66805eb, 0xd1c2398d, 0xea1727be, 0x750b93df, 0xb873f297, 0xdecfc233, 0xed91da61,
    0xf43ed648, 0x7a1f6b24, 0x3d0fb592, 0x1e87dac9, 0x8db5d61c, 0x46daeb0e, 0x236d7587, 0x934081bb,
    0xcb567ba5, 0xe75d06aa, 0x73ae8355, 0xbb217ad2, 0x5d90bd69, 0xac3e65cc, 0x561f32e6, 0x2b0f9973,
    0x9771f7c1, 0xc94ec098, 0x64a7604c, 0x3253b026, 0x1929d813, 0x8e62d771, 0xc5c750c0, 0x62e3a860,
    0x3171d430, 0x18b8ea18, 0x0c5c750c, 0x062e3a86, 0x03171d43, 0x837db5d9, 0xc348e194, 0x61a470ca,
    0x30d23865, 0x9a9f274a, 0x4d4f93a5, 0xa451f2aa, 0x5228f955, 0xabe247d2, 0x55f123e9, 0xa80eaa8c,
    0x54075546, 0x2a03aaa3, 0x97f7ee29, 0xc90dcc6c, 0x6486e636, 0x3243731b, 0x9bd782f5, 0xcf1dfa02,
    0x678efd01, 0xb13145f8, 0x5898a2fc, 0x2c4c517e, 0x162628bf, 0x89e52f27, 0xc604aceb, 0xe1f46d0d,
    0xf20c0dfe]"

fun crc_chain :: "u32 list \<Rightarrow> bool" where
  "crc_chain (x # y # zs) \<longleftrightarrow> crc_bit x = y \<and> crc_chain (y # zs)"
| "crc_chain _ \<longleftrightarrow> True"

lemma crc_chain_nth: "crc_chain (x # xs) \<Longrightarrow> n < length (x # xs) \<Longrightarrow> (crc_bit ^^ n) x = (x # xs) ! n"
proof (induction xs arbitrary: x n)
  case (Cons y ys)
  then show ?case
    by (cases n) (auto simp: funpow_Suc_right simp del: funpow.simps)
qed simp

lemma crc_chain_sequence: "crc_chain crc_sequence"
  by (simp add: crc_sequence_def crc_bit_def)

lemma crc_iterate: "n \<le> 128 \<Longrightarrow> (crc_bit ^^ n) 1 = crc_sequence ! n"
  using crc_chain_nth [of 1 "tl crc_sequence" n] crc_chain_sequence by (simp add: crc_sequence_def)

lemma stride_basis:
  "k \<le> 24 \<Longrightarrow> k + 8 \<le> n \<Longrightarrow> map (\<lambda>j. ((crc_bit ^^ n) \<circ> push_bit k) (2 ^ j)) (rev [0..<8]) =
    map (\<lambda>j. (crc_bit ^^ (n - k - j)) 1) (rev [0..<8])"
  by (auto simp: crc_bit_funpow push_bit_eq_mult power_add [symmetric] ac_simps)

lemma stride_table:
  assumes "k \<le> 24" and "k + 8 \<le> n" and "n \<le> 128"
    and "span (map (\<lambda>j. crc_sequence ! (n - k - j)) (rev [0..<8])) = t"
  shows "t = map (\<lambda>i. (crc_bit ^^ n) (push_bit k (of_nat i))) [0..<256]"
proof -
  have "map (\<lambda>j. (crc_bit ^^ (n - k - j)) 1) (rev [0..<8]) = map (\<lambda>j. crc_sequence ! (n - k - j)) (rev [0..<8])"
    using assms(3) by (simp add: crc_iterate)
  then show ?thesis
    using span_linear [OF lin_comp [OF lin_funpow [OF lin_crc_bit] lin_push], of 8 n k] stride_basis [of k n] assms
    by (simp del: map_eq_conv)
qed

lemma byte_table: "kByteExtensionTable = map (\<lambda>i. crc_byte (of_nat i)) [0..<256]"
proof -
  have "span (map (\<lambda>j. crc_sequence ! (8 - 0 - j)) (rev [0..<8])) = kByteExtensionTable"
    by (simp add: kByteExtensionTable_def crc_sequence_def upt_rec Let_def)
  then show ?thesis using stride_table [of 0 8 kByteExtensionTable] by (simp add: crc_byte_def)
qed

lemma stride_tables:
  "kStrideExtensionTable3 = map (\<lambda>i. (crc_bit ^^ 128) (of_nat i)) [0..<256]"
  "kStrideExtensionTable2 = map (\<lambda>i. (crc_bit ^^ 128) (push_bit 8 (of_nat i))) [0..<256]"
  "kStrideExtensionTable1 = map (\<lambda>i. (crc_bit ^^ 128) (push_bit 16 (of_nat i))) [0..<256]"
  "kStrideExtensionTable0 = map (\<lambda>i. (crc_bit ^^ 128) (push_bit 24 (of_nat i))) [0..<256]"
proof -
  have "span (map (\<lambda>j. crc_sequence ! (128 - 0 - j)) (rev [0..<8])) = kStrideExtensionTable3" by (simp add: kStrideExtensionTable3_def crc_sequence_def upt_rec Let_def)
  then show "kStrideExtensionTable3 = map (\<lambda>i. (crc_bit ^^ 128) (of_nat i)) [0..<256]"
    using stride_table [of 0 128 kStrideExtensionTable3] by simp
  show "kStrideExtensionTable2 = map (\<lambda>i. (crc_bit ^^ 128) (push_bit 8 (of_nat i))) [0..<256]"
    by (rule stride_table) (simp_all add: kStrideExtensionTable2_def crc_sequence_def upt_rec Let_def)
  show "kStrideExtensionTable1 = map (\<lambda>i. (crc_bit ^^ 128) (push_bit 16 (of_nat i))) [0..<256]"
    by (rule stride_table) (simp_all add: kStrideExtensionTable1_def crc_sequence_def upt_rec Let_def)
  show "kStrideExtensionTable0 = map (\<lambda>i. (crc_bit ^^ 128) (push_bit 24 (of_nat i))) [0..<256]"
    by (rule stride_table) (simp_all add: kStrideExtensionTable0_def crc_sequence_def upt_rec Let_def)
qed

section \<open>Bytes and words of the register\<close>

lemma crc_bit_push: "unat x < 2 ^ (31 - n) \<Longrightarrow> n < 31 \<Longrightarrow> crc_bit (push_bit (Suc n) x) = push_bit n x"
proof -
  assume x: "unat x < 2 ^ (31 - n)" and n: "n < 31"
  have hi: "\<not> bit x k" if "31 - n \<le> k" for k
  proof -
    have "take_bit (31 - n) (unat x) = unat x" using x by (simp add: take_bit_nat_eq_self)
    then have "\<not> bit (unat x) k" using that by (metis bit_take_bit_iff leD)
    then show ?thesis by (simp add: bit_unsigned_iff)
  qed
  have "drop_bit 1 (push_bit (Suc n) x) = push_bit n x"
  proof (rule bit_eqI)
    fix k assume "possible_bit TYPE(u32) k"
    then have "k < 32" by simp
    then show "bit (drop_bit 1 (push_bit (Suc n) x)) k = bit (push_bit n x) k"
      using hi [of "k - n"] n by (cases "k = 31") (auto simp: bit_simps simp del: push_bit_Suc)
  qed
  then show ?thesis by (simp add: crc_bit_def bit_push_bit_iff del: bit_0 push_bit_Suc)
qed

lemma crc_bits_push: "unat x < 2 ^ (32 - n) \<Longrightarrow> n < 32 \<Longrightarrow> (crc_bit ^^ n) (push_bit n x) = x"
proof (induction n)
  case (Suc n)
  have "unat x < 2 ^ (32 - n)"
    by (rule less_le_trans [OF Suc.prems(1)]) (simp add: power_increasing)
  with Suc crc_bit_push [of x n] show ?case by (simp add: funpow_Suc_right del: funpow.simps push_bit_Suc)
qed simp

lemma crc_byte_push: "unat x < 2 ^ 24 \<Longrightarrow> crc_byte (push_bit 8 x) = x"
  using crc_bits_push [of x 8] by (simp add: crc_byte_def)

lemma byte_index: "n = unat (x :: u32) \<Longrightarrow> unat x < 256 \<Longrightarrow> map (\<lambda>i. f (of_nat i)) [0..<256] ! n = f x"
  by simp

lemma unat_low_byte: "unat ((x :: u32) AND 0xff) < 256"
  by (simp add: and_FF unat_bits)

lemma crc_byte_table: "crc_byte l = kByteExtensionTable ! unat (l AND 0xff) XOR drop_bit 8 l"
proof -
  have "l = push_bit 8 (drop_bit 8 l) XOR (l AND 0xff)"
  proof (rule bit_eqI)
    show "bit l k = bit (push_bit 8 (drop_bit 8 l) XOR (l AND 0xff)) k" if "possible_bit TYPE(u32) k" for k
      using that by (cases "k < 8") (auto simp: bit_simps and_FF)
  qed
  then have "crc_byte l = crc_byte (push_bit 8 (drop_bit 8 l)) XOR crc_byte (l AND 0xff)"
    by (metis linD [OF lin_crc_byte])
  moreover have "unat (drop_bit 8 l) < 2 ^ 24"
    using unsigned_less [of l, where 'a = nat] by (simp add: unat_bits less_mult_imp_div_less)
  moreover have "kByteExtensionTable ! unat (l AND 0xff) = crc_byte (l AND 0xff)"
    unfolding byte_table by (rule byte_index) (simp_all add: unat_low_byte)
  ultimately show ?thesis by (simp add: crc_byte_push xor.commute)
qed

lemma STEP1_crc: "STEP1 l b = crc_byte (l XOR ucast b)"
proof -
  have "(l XOR ucast b) AND 0xff = (l AND 0xff) XOR ucast b" "drop_bit 8 (l XOR ucast b) = drop_bit 8 l"
    by (auto intro!: bit_eqI simp: and_FF bit_simps)
  then show ?thesis by (simp add: STEP1_def Let_def crc_byte_table)
qed

definition crc_word :: "u32 \<Rightarrow> u32" where
  "crc_word l = crc_byte (crc_byte (crc_byte (crc_byte l)))"

lemma lin_crc_word: "lin crc_word"
  using lin_crc_byte by (simp add: lin_def crc_word_def)

lemma STEP4W_crc: "STEP4W l w = crc_word (w XOR l)"
proof -
  have "(\<lambda>w. drop_bit 8 w XOR kByteExtensionTable ! unat (w AND 0xff)) = crc_byte"
    by (simp add: crc_byte_table fun_eq_iff xor.commute)
  then show ?thesis by (simp add: STEP4W_def crc_word_def eval_nat_numeral)
qed

lemma crc_swath: "(crc_bit ^^ 128) l = crc_word (crc_word (crc_word (crc_word l)))"
proof -
  have "crc_byte = crc_bit ^^ 8" by (simp add: crc_byte_def fun_eq_iff)
  then have "crc_byte ^^ 16 = crc_bit ^^ (8 * 16)" by (metis funpow_mult)
  then have "(crc_bit ^^ 128) l = (crc_byte ^^ 16) l" by simp
  then show ?thesis by (simp add: crc_word_def eval_nat_numeral)
qed

lemma STEP4_crc: "STEP4 crc w = w XOR (crc_bit ^^ 128) crc"
proof -
  let ?S = "crc_bit ^^ 128"
  let ?a = "crc AND 0xff" and ?b = "drop_bit 8 crc AND 0xff" and ?c = "drop_bit 16 crc AND 0xff" and ?d = "drop_bit 24 crc"
  have "crc = ?a XOR push_bit 8 ?b XOR push_bit 16 ?c XOR push_bit 24 ?d"
  proof (rule bit_eqI)
    fix k assume "possible_bit TYPE(u32) k"
    then consider "k < 8" | "8 \<le> k" "k < 16" | "16 \<le> k" "k < 24" | "24 \<le> k" "k < 32" by force
    then show "bit crc k = bit (?a XOR push_bit 8 ?b XOR push_bit 16 ?c XOR push_bit 24 ?d) k"
      by cases (auto simp: bit_simps and_FF)
  qed
  then have "?S crc = ?S ?a XOR ?S (push_bit 8 ?b) XOR ?S (push_bit 16 ?c) XOR ?S (push_bit 24 ?d)"
    by (metis linD [OF lin_funpow [OF lin_crc_bit]])
  moreover have "unat ?d < 256"
    using unsigned_less [of crc, where 'a = nat] by (simp add: unat_bits less_mult_imp_div_less)
  then have "kStrideExtensionTable0 ! unat ?d = ?S (push_bit 24 ?d)"
    unfolding stride_tables by (rule byte_index [OF refl])
  moreover have "kStrideExtensionTable3 ! unat ?a = ?S ?a"
      "kStrideExtensionTable2 ! unat ?b = ?S (push_bit 8 ?b)"
      "kStrideExtensionTable1 ! unat ?c = ?S (push_bit 16 ?c)"
    unfolding stride_tables by (rule byte_index [OF refl unat_low_byte])+
  ultimately show ?thesis unfolding STEP4_def by (simp only:)
qed

lemma crc_bytes_append: "crc_bytes l (xs @ ys) = crc_bytes (crc_bytes l xs) ys"
  by (simp add: crc_bytes_def)

lemma le_word_xor:
  "(le_word [a, b, c, d] :: u32) =
     ucast a XOR push_bit 8 (ucast b XOR push_bit 8 (ucast c XOR push_bit 8 (ucast d)))" (is "_ = ?w")
proof -
  have "word_le 4 ?w = [a, b, c, d]"
    unfolding word_le_4 by (auto intro!: bit_eqI simp: bit_simps)
  then show ?thesis by (metis le_word_word_le_32)
qed

lemma unat_byte_push: "unat x < 2 ^ n \<Longrightarrow> n < 24 \<Longrightarrow> unat ((ucast (b :: u8) :: u32) XOR push_bit 8 x) < 2 ^ (n + 8)"
proof -
  assume "unat x < 2 ^ n" "n < 24"
  then have "take_bit n (unat x) = unat x" by (simp add: take_bit_nat_eq_self)
  then have "\<not> bit (unat x) k" if "n \<le> k" for k using that by (metis bit_take_bit_iff leD)
  then have hi: "\<not> bit x k" if "n \<le> k" for k using that by (simp add: bit_unsigned_iff)
  let ?y = "(ucast b :: u32) XOR push_bit 8 x"
  have "take_bit (n + 8) ?y = ?y"
  proof (rule bit_eqI)
    show "bit (take_bit (n + 8) ?y) k = bit ?y k" for k
      using hi [of "k - 8"] by (cases "k < n + 8") (simp_all add: bit_simps)
  qed
  then have "unat ?y = unat ?y mod 2 ^ (n + 8)" by (metis unat_take_bit)
  moreover have "unat ?y mod 2 ^ (n + 8) < 2 ^ (n + 8)" by simp
  ultimately show ?thesis by (rule ssubst)
qed

lemma crc_byte_mix: "unat y < 2 ^ 24 \<Longrightarrow> crc_byte (x XOR push_bit 8 y) = crc_byte x XOR y"
  by (simp add: linD [OF lin_crc_byte] crc_byte_push)

lemma crc_word_mix:
  assumes "unat y1 < 2 ^ 24" "y1 = b XOR push_bit 8 y2" "unat y2 < 2 ^ 24" "y2 = c XOR push_bit 8 y3" "unat y3 < 2 ^ 24"
  shows "crc_word (a XOR push_bit 8 y1) = crc_byte (crc_byte (crc_byte (crc_byte a XOR b) XOR c) XOR y3)"
proof -
  have "crc_byte (a XOR push_bit 8 y1) = (crc_byte a XOR b) XOR push_bit 8 y2"
    using crc_byte_mix [OF assms(1), of a] assms(2) by (simp only: xor.assoc)
  moreover have "crc_byte ((crc_byte a XOR b) XOR push_bit 8 y2) = (crc_byte (crc_byte a XOR b) XOR c) XOR push_bit 8 y3"
    using crc_byte_mix [OF assms(3), of "crc_byte a XOR b"] assms(4) by (simp only: xor.assoc)
  ultimately show ?thesis
    using crc_byte_mix [OF assms(5), of "crc_byte (crc_byte a XOR b) XOR c"] by (simp only: crc_word_def)
qed

lemma crc_bytes_word: "crc_bytes l [a, b, c, d] = crc_word (l XOR le_word [a, b, c, d])"
proof -
  have d: "unat (ucast d :: u32) < 2 ^ 8" using unat_byte_less [of d] by (simp add: unat_bits)
  have cd: "unat ((ucast c :: u32) XOR push_bit 8 (ucast d)) < 2 ^ 16"
    using unat_byte_push [OF d, of c] by (simp only: numeral_plus_numeral) simp
  have bcd: "unat ((ucast b :: u32) XOR push_bit 8 (ucast c XOR push_bit 8 (ucast d))) < 2 ^ 24"
    using unat_byte_push [OF cd, of b] by (simp only: numeral_plus_numeral) simp
  have "crc_word ((l XOR ucast a) XOR push_bit 8 (ucast b XOR push_bit 8 (ucast c XOR push_bit 8 (ucast d)))) =
      crc_byte (crc_byte (crc_byte (crc_byte (l XOR ucast a) XOR ucast b) XOR ucast c) XOR ucast d)"
    by (rule crc_word_mix [OF bcd refl _ refl]) (use cd d in simp_all)
  then have "crc_word (l XOR le_word [a, b, c, d]) =
      crc_byte (crc_byte (crc_byte (crc_byte (l XOR ucast a) XOR ucast b) XOR ucast c) XOR ucast d)"
    by (simp only: le_word_xor xor.assoc)
  then show ?thesis by (simp add: crc_bytes_def)
qed

lemma ReadUint32LE_word:
  "4 \<le> length p \<Longrightarrow> \<exists>w. ReadUint32LE p = Some w \<and> (\<forall>l. crc_bytes l (take 4 p) = crc_word (l XOR w))"
  using rds_0_4 [of p] by (simp add: rds_def ReadUint32LE_def DecodeFixed32_eq crc_bytes_word)

section \<open>The strides\<close>

fun combine :: "strides \<Rightarrow> u32" where
  "combine (c0, c1, c2, c3) = crc_word (crc_word (crc_word (crc_word c0 XOR c1) XOR c2) XOR c3)"

lemma combine_step: "combine (c1, c2, c3, STEP4 c0 w) = crc_word (combine (c0, c1, c2, c3) XOR w)"
  by (simp add: STEP4_crc crc_swath linD [OF lin_crc_word] ac_simps)

lemma word_loop_crc:
  "\<exists>cs' k. word_loop cs p = Some (cs', drop k p) \<and> k \<le> length p \<and> combine cs' = crc_bytes (combine cs) (take k p)"
proof (induction cs p rule: word_loop.induct)
  case (1 c0 c1 c2 c3 p)
  show ?case
  proof (cases "4 \<le> length p")
    case True
    then obtain w where w: "ReadUint32LE p = Some w" "\<forall>l. crc_bytes l (take 4 p) = crc_word (l XOR w)"
      using ReadUint32LE_word by blast
    from 1 [OF True w(1)] obtain cs' k where k: "word_loop (c1, c2, c3, STEP4 c0 w) (drop 4 p) = Some (cs', drop k (drop 4 p))"
      "k \<le> length (drop 4 p)" "combine cs' = crc_bytes (combine (c1, c2, c3, STEP4 c0 w)) (take k (drop 4 p))" by blast
    have "combine cs' = crc_bytes (combine (c0, c1, c2, c3)) (take (4 + k) p)"
      using k(3) w(2) unfolding combine_step take_add crc_bytes_append by simp
    moreover have "word_loop (c0, c1, c2, c3) p = Some (cs', drop (4 + k) p)"
      using True w(1) k(1) by (subst word_loop.simps) (simp add: add.commute)
    moreover have "4 + k \<le> length p" using True k(2) by simp
    ultimately show ?thesis by blast
  next
    case False
    then have "word_loop (c0, c1, c2, c3) p = Some ((c0, c1, c2, c3), drop 0 p)" by (subst word_loop.simps) simp
    then show ?thesis by (intro exI [of _ "(c0, c1, c2, c3)"] exI [of _ 0]) (simp add: crc_bytes_def)
  qed
qed

lemma swath_crc:
  assumes "16 \<le> length p"
  obtains w0 w1 w2 w3 where "ReadUint32LE p = Some w0" "ReadUint32LE (drop 4 p) = Some w1"
    "ReadUint32LE (drop 8 p) = Some w2" "ReadUint32LE (drop 12 p) = Some w3"
    "\<forall>l. crc_bytes l (take 16 p) = crc_word (crc_word (crc_word (crc_word (l XOR w0) XOR w1) XOR w2) XOR w3)"
proof -
  have "take 16 p = take 4 p @ take 4 (drop 4 p) @ take 4 (drop 8 p) @ take 4 (drop 12 p)"
    using take_add [of 4 12 p] take_add [of 4 8 "drop 4 p"] take_add [of 4 4 "drop 8 p"] by simp
  moreover obtain w0 w1 w2 w3 where w: "ReadUint32LE p = Some w0" "ReadUint32LE (drop 4 p) = Some w1"
    "ReadUint32LE (drop 8 p) = Some w2" "ReadUint32LE (drop 12 p) = Some w3"
    "\<forall>l. crc_bytes l (take 4 p) = crc_word (l XOR w0)" "\<forall>l. crc_bytes l (take 4 (drop 4 p)) = crc_word (l XOR w1)"
    "\<forall>l. crc_bytes l (take 4 (drop 8 p)) = crc_word (l XOR w2)" "\<forall>l. crc_bytes l (take 4 (drop 12 p)) = crc_word (l XOR w3)"
    using ReadUint32LE_word [of p] ReadUint32LE_word [of "drop 4 p"] ReadUint32LE_word [of "drop 8 p"]
      ReadUint32LE_word [of "drop 12 p"] assms by (auto simp: le_diff_conv2)
  ultimately show ?thesis using that [OF w(1-4)] by (simp add: crc_bytes_append)
qed

lemma combine_swath:
  "combine (STEP4 c0 w0, STEP4 c1 w1, STEP4 c2 w2, STEP4 c3 w3) =
    crc_word (crc_word (crc_word (crc_word (combine (c0, c1, c2, c3) XOR w0) XOR w1) XOR w2) XOR w3)"
  by (simp only: combine_step)

lemma swath_loop_crc:
  "\<exists>cs' k. swath_loop cs p = Some (cs', drop k p) \<and> k \<le> length p \<and> combine cs' = crc_bytes (combine cs) (take k p)"
proof (induction cs p rule: swath_loop.induct)
  case (1 c0 c1 c2 c3 p)
  show ?case
  proof (cases "16 \<le> length p")
    case True
    then obtain w0 w1 w2 w3 where w: "ReadUint32LE p = Some w0" "ReadUint32LE (drop 4 p) = Some w1"
      "ReadUint32LE (drop 8 p) = Some w2" "ReadUint32LE (drop 12 p) = Some w3"
      "\<forall>l. crc_bytes l (take 16 p) = crc_word (crc_word (crc_word (crc_word (l XOR w0) XOR w1) XOR w2) XOR w3)"
      by (rule swath_crc)
    let ?cs = "(STEP4 c0 w0, STEP4 c1 w1, STEP4 c2 w2, STEP4 c3 w3)"
    from 1 [OF True w(1-4)] obtain cs' k where k: "swath_loop ?cs (drop 16 p) = Some (cs', drop k (drop 16 p))"
      "k \<le> length (drop 16 p)" "combine cs' = crc_bytes (combine ?cs) (take k (drop 16 p))" by blast
    have "combine cs' = crc_bytes (combine (c0, c1, c2, c3)) (take (16 + k) p)"
      using k(3) unfolding combine_swath take_add crc_bytes_append w(5) [rule_format] .
    moreover have "swath_loop (c0, c1, c2, c3) p = Some (cs', drop (16 + k) p)"
      using True w k(1) by (subst swath_loop.simps) (simp add: add.commute)
    moreover have "16 + k \<le> length p" using True k(2) by simp
    ultimately show ?thesis by blast
  next
    case False
    then have "swath_loop (c0, c1, c2, c3) p = Some ((c0, c1, c2, c3), drop 0 p)" by (subst swath_loop.simps) simp
    then show ?thesis by (intro exI [of _ "(c0, c1, c2, c3)"] exI [of _ 0]) (simp add: crc_bytes_def)
  qed
qed

lemma strides_part_crc:
  "\<exists>k. strides_part l p = Some (crc_bytes l (take k p), drop k p) \<and> k \<le> length p"
proof (cases "16 \<le> length p")
  case True
  then obtain w0 w1 w2 w3 where w: "ReadUint32LE p = Some w0" "ReadUint32LE (drop 4 p) = Some w1"
    "ReadUint32LE (drop 8 p) = Some w2" "ReadUint32LE (drop 12 p) = Some w3"
    "\<forall>l. crc_bytes l (take 16 p) = crc_word (crc_word (crc_word (crc_word (l XOR w0) XOR w1) XOR w2) XOR w3)"
    by (rule swath_crc)
  let ?cs = "(w0 XOR l, w1, w2, w3)" and ?p = "drop 16 p"
  obtain cs k where k: "swath_loop ?cs ?p = Some (cs, drop k ?p)" "k \<le> length ?p"
    "combine cs = crc_bytes (combine ?cs) (take k ?p)" using swath_loop_crc by blast
  obtain c0 c1 c2 c3 m where m: "word_loop cs (drop k ?p) = Some ((c0, c1, c2, c3), drop m (drop k ?p))"
    "m \<le> length (drop k ?p)" "combine (c0, c1, c2, c3) = crc_bytes (combine cs) (take m (drop k ?p))"
    using word_loop_crc [of cs "drop k ?p"] by auto
  have "combine (c0, c1, c2, c3) = crc_bytes l (take (16 + (k + m)) p)"
    unfolding m(3) k(3) take_add crc_bytes_append w(5) [rule_format] by (simp add: xor.commute add.commute)
  then have "strides_part l p = Some (crc_bytes l (take (16 + (k + m)) p), drop (16 + (k + m)) p)"
    using True w k m by (simp add: strides_part_def STEP4W_crc ac_simps)
  moreover have "16 + (k + m) \<le> length p" using k(2) m(2) True by simp
  ultimately show ?thesis by blast
next
  case False
  then have "strides_part l p = Some (crc_bytes l (take 0 p), drop 0 p)" by (simp add: strides_part_def crc_bytes_def)
  then show ?thesis by blast
qed

lemma foldl_STEP1: "foldl STEP1 l p = crc_bytes l p"
  using STEP1_crc by (simp add: crc_bytes_def fun_eq_iff [of STEP1] cong: foldl_cong)

lemma crc_bytes_take_drop: "crc_bytes (crc_bytes l (take k p)) (drop k p) = crc_bytes l p"
  by (simp flip: crc_bytes_append)

lemma strides_rest: "(strides_part l p \<bind> (\<lambda>(l, p). Some (crc_bytes l p XOR x))) = Some (crc_bytes l p XOR x)"
  using strides_part_crc [of l p] by (auto simp: crc_bytes_take_drop)

lemma Extend_portable:
  "\<not> CanAccelerateCRC32C accelerated \<Longrightarrow> Extend accelerated addr crc data = Some (crc32c crc data)"
  by (simp add: Extend_def Let_def foldl_STEP1 strides_rest crc_bytes_take_drop crc32c_def kCRC32Xor_def)

lemma Extend_crc:
  assumes "accelerated = (\<lambda>_ _. 0) \<or> accelerated = crc32c"
  shows "Extend accelerated addr crc data = Some (crc32c crc data)"
proof (cases "CanAccelerateCRC32C accelerated")
  case True
  with assms have "accelerated = crc32c" by (auto simp: CanAccelerateCRC32C_def)
  with True show ?thesis by (simp add: Extend_def)
qed (rule Extend_portable)

lemma crc32c_append: "crc32c (crc32c crc xs) ys = crc32c crc (xs @ ys)"
  by (simp add: crc32c_def crc_bytes_append xor.assoc)

section \<open>Properties\<close>

text \<open>
  C18: On every input, at every alignment, and whether or not the accelerated routine is used, the
  checksum is the bitwise CRC-32C; no read leaves the buffer. The accelerated routine is assumed to
  be absent (it returns 0) or to compute CRC-32C, which is what it is documented to do.
\<close>

theorem crc32c_Extend_correct:
  assumes "accelerated = (\<lambda>_ _. 0) \<or> accelerated = crc32c"
  shows "Extend accelerated addr crc data = Some (crc32c crc data)"
  using assms by (rule Extend_crc)

theorem crc32c_Extend_correct_witness:
  "Extend (\<lambda>_ _. 0) 3 0 (map (\<lambda>c. of_nat (of_char c)) ''123456789'') =
     Some (crc32c 0 (map (\<lambda>c. of_nat (of_char c)) ''123456789''))"
  using crc32c_Extend_correct [of "\<lambda>_ _. 0"] by simp

text \<open>
  Extending a checksum by more data gives the checksum of the concatenation, for any
  alignment of the pieces, and the stored (masked) form of a checksum gives it back.
\<close>

theorem crc32c_pieces:
  assumes "accelerated = (\<lambda>_ _. 0) \<or> accelerated = crc32c"
  shows "(Extend accelerated a crc xs \<bind> (\<lambda>c. Extend accelerated b c ys)) = Extend accelerated d crc (xs @ ys) \<and>
    Unmask (Mask crc) = crc"
proof
  show "(Extend accelerated a crc xs \<bind> (\<lambda>c. Extend accelerated b c ys)) = Extend accelerated d crc (xs @ ys)"
    by (simp add: Extend_crc [OF assms] crc32c_append)
  have "drop_bit 17 (drop_bit 15 crc OR push_bit 17 crc) OR push_bit 15 (drop_bit 15 crc OR push_bit 17 crc) = crc"
  proof (rule bit_eqI)
    show "bit (drop_bit 17 (drop_bit 15 crc OR push_bit 17 crc) OR push_bit 15 (drop_bit 15 crc OR push_bit 17 crc)) k =
        bit crc k" if "possible_bit TYPE(u32) k" for k
      using that by (cases "k < 15") (auto simp: bit_simps)
  qed
  then show "Unmask (Mask crc) = crc" by (simp add: Unmask_def Mask_def Let_def)
qed

theorem crc32c_pieces_witness:
  "(Extend (\<lambda>_ _. 0) 1 5 [1, 2] \<bind> (\<lambda>c. Extend (\<lambda>_ _. 0) 2 c [3])) = Extend (\<lambda>_ _. 0) 0 5 [1, 2, 3]"
  using crc32c_pieces [of "\<lambda>_ _. 0" 1 5 "[1, 2]" 2 "[3]" 0] by simp

end
