(* ===== verification/Ldb_Log.thy ===== *)
theory Ldb_Log
  imports Ldb_Crc32c Decimal
begin

text \<open>
  The log of LevelDB: \<^verbatim>\<open>db/log_format.h\<close>, the writer of \<^verbatim>\<open>db/log_writer.cc\<close> and the reader of
  \<^verbatim>\<open>db/log_reader.cc\<close>, which recover a database after it was closed or crashed. Files are their
  contents with a list of outcomes for the next operations, so that every error return of the
  environment is a branch. The checksum is \<open>crc32c\<close>, which \<open>Ldb_Crc32c\<close> proves to be what
  \<^verbatim>\<open>crc32c::Extend\<close> computes.
\<close>

section \<open>The format\<close>

definition kZeroType :: u32 where "kZeroType = 0"
definition kFullType :: u32 where "kFullType = 1"
definition kFirstType :: u32 where "kFirstType = 2"
definition kMiddleType :: u32 where "kMiddleType = 3"
definition kLastType :: u32 where "kLastType = 4"
definition kMaxRecordType :: u32 where "kMaxRecordType = kLastType"
definition kEof :: u32 where "kEof = kMaxRecordType + 1"
definition kBadRecord :: u32 where "kBadRecord = kMaxRecordType + 2"
definition kBlockSize :: nat where "kBlockSize = 32768"
definition kHeaderSize :: nat where "kHeaderSize = 4 + 2 + 1"

lemmas log_consts = kZeroType_def kFullType_def kFirstType_def kMiddleType_def kLastType_def
  kMaxRecordType_def kEof_def kBadRecord_def

section \<open>The writer\<close>

text \<open>
  A writable file: its contents and the outcomes of the next calls, \<open>None\<close> for success and
  \<open>Some n\<close> for a failure behind \<open>n\<close> bytes; when the list is used up, calls succeed.
\<close>

record writable_file =
  wf_content :: bytes
  wf_outcomes :: "nat option list"

fun wf_Append :: "bytes \<Rightarrow> writable_file \<Rightarrow> bool \<times> writable_file" where
  "wf_Append s f =
     (case wf_outcomes f of
        [] \<Rightarrow> (True, f\<lparr>wf_content := wf_content f @ s\<rparr>)
      | None # r \<Rightarrow> (True, f\<lparr>wf_content := wf_content f @ s, wf_outcomes := r\<rparr>)
      | Some n # r \<Rightarrow> (False, f\<lparr>wf_content := wf_content f @ take n s, wf_outcomes := r\<rparr>))"

fun wf_Flush :: "writable_file \<Rightarrow> bool \<times> writable_file" where
  "wf_Flush f =
     (case wf_outcomes f of
        [] \<Rightarrow> (True, f)
      | x # r \<Rightarrow> (x = None, f\<lparr>wf_outcomes := r\<rparr>))"

record log_writer =
  lw_dest :: writable_file
  lw_block_offset :: nat
  lw_type_crc :: "u32 list"

definition InitTypeCrc :: "u32 list" where
  "InitTypeCrc = map (\<lambda>i. crc32c 0 [of_nat i]) [0..<Suc (unat kMaxRecordType)]"

definition log_Writer :: "writable_file \<Rightarrow> u64 \<Rightarrow> log_writer" where
  "log_Writer dest dest_length =
     \<lparr>lw_dest = dest, lw_block_offset = unat dest_length mod kBlockSize, lw_type_crc = InitTypeCrc\<rparr>"

definition EmitPhysicalRecord :: "u32 \<Rightarrow> bytes \<Rightarrow> log_writer \<Rightarrow> bool \<times> log_writer" where
  "EmitPhysicalRecord t ptr w =
     (let len = length ptr;
          crc = Mask (crc32c (lw_type_crc w ! unat t) ptr);
          buf = EncodeFixed32 True crc @
            [of_nat (take_bit 8 len), of_nat (drop_bit 8 len), ucast t];
          (s, f) = wf_Append buf (lw_dest w);
          (s, f) = (if s then wf_Append ptr f else (s, f));
          (s, f) = (if s then wf_Flush f else (s, f)) in
      (s, w\<lparr>lw_dest := f, lw_block_offset := lw_block_offset w + kHeaderSize + len\<rparr>))"

text \<open>A block with no room for a header is filled with zeros; the status of that write is dropped.\<close>

definition switch_block :: "log_writer \<Rightarrow> log_writer" where
  "switch_block w =
     (let leftover = kBlockSize - lw_block_offset w in
      if leftover < kHeaderSize
      then (if leftover > 0 then w\<lparr>lw_dest := snd (wf_Append (replicate leftover 0) (lw_dest w))\<rparr> else w)
             \<lparr>lw_block_offset := 0\<rparr>
      else w)"

definition record_type :: "bool \<Rightarrow> bool \<Rightarrow> u32" where
  "record_type beg fin =
     (if beg \<and> fin then kFullType else if beg then kFirstType else if fin then kLastType else kMiddleType)"

definition fragment_length :: "nat \<Rightarrow> nat \<Rightarrow> nat" where
  "fragment_length block_offset left =
     (let avail = kBlockSize - block_offset - kHeaderSize in if left < avail then left else avail)"

lemma switch_block_offset:
  "lw_block_offset (switch_block w) = (if kBlockSize - lw_block_offset w < kHeaderSize then 0 else lw_block_offset w)"
  by (simp add: switch_block_def Let_def)

lemma EmitPhysicalRecord_offset:
  "EmitPhysicalRecord t ptr w = (s, w') \<Longrightarrow> lw_block_offset w' = lw_block_offset w + kHeaderSize + length ptr"
  by (auto simp: EmitPhysicalRecord_def Let_def split: prod.splits if_splits)

function AddRecord_loop :: "bool \<Rightarrow> bytes \<Rightarrow> log_writer \<Rightarrow> bool \<times> log_writer" where
  "AddRecord_loop beg ptr w =
     (let w = switch_block w;
          n = fragment_length (lw_block_offset w) (length ptr);
          (s, w) = EmitPhysicalRecord (record_type beg (length ptr = n)) (take n ptr) w in
      if s \<and> drop n ptr \<noteq> [] then AddRecord_loop False (drop n ptr) w else (s, w))"
  by pat_completeness auto

termination
proof (relation "measures [\<lambda>(_, ptr, _). length ptr, \<lambda>(_, _, w). if lw_block_offset w = kBlockSize - kHeaderSize then 1 else 0]")
  fix beg ptr w x xa xb s w'
  assume x: "x = switch_block w" and xa: "xa = fragment_length (lw_block_offset x) (length ptr)"
    and xb: "xb = EmitPhysicalRecord (record_type beg (length ptr = xa)) (take xa ptr) x" "(s, w') = xb"
    and c: "s \<and> drop xa ptr \<noteq> []"
  have o: "lw_block_offset w' = lw_block_offset x + kHeaderSize + length (take xa ptr)"
    using xb EmitPhysicalRecord_offset by metis
  show "((False, drop xa ptr, w'), beg, ptr, w)
      \<in> measures [\<lambda>(_, ptr, _). length ptr, \<lambda>(_, _, w). if lw_block_offset w = kBlockSize - kHeaderSize then 1 else 0]"
  proof (cases "xa = 0")
    case True
    then have "lw_block_offset x + kHeaderSize \<ge> kBlockSize" using xa c
      by (auto simp: fragment_length_def Let_def split: if_splits)
    moreover from this have "lw_block_offset x = lw_block_offset w" "kHeaderSize \<le> kBlockSize - lw_block_offset w"
      using x by (auto simp: switch_block_offset kBlockSize_def kHeaderSize_def split: if_splits)
    ultimately have "lw_block_offset w = kBlockSize - kHeaderSize" "lw_block_offset w' = kBlockSize"
      using o True by (auto simp: kBlockSize_def kHeaderSize_def)
    then show ?thesis using True by (simp add: kBlockSize_def kHeaderSize_def)
  qed (use c in auto)
qed simp

definition AddRecord :: "bytes \<Rightarrow> log_writer \<Rightarrow> bool \<times> log_writer" where
  "AddRecord rec w = AddRecord_loop True rec w"

declare AddRecord_loop.simps [simp del]

section \<open>The reader\<close>

text \<open>A sequential file: what is left to read, and the outcomes of the next calls.\<close>

record sequential_file =
  sf_rest :: bytes
  sf_outcomes :: "bool list"

definition sf_Read :: "nat \<Rightarrow> sequential_file \<Rightarrow> bool \<times> bytes \<times> sequential_file" where
  "sf_Read n f =
     (if sf_outcomes f \<noteq> [] \<and> \<not> hd (sf_outcomes f) then (False, [], f\<lparr>sf_outcomes := tl (sf_outcomes f)\<rparr>)
      else (True, take n (sf_rest f), f\<lparr>sf_rest := drop n (sf_rest f), sf_outcomes := tl (sf_outcomes f)\<rparr>))"

definition sf_Skip :: "nat \<Rightarrow> sequential_file \<Rightarrow> bool \<times> sequential_file" where
  "sf_Skip n f =
     (if sf_outcomes f \<noteq> [] \<and> \<not> hd (sf_outcomes f) then (False, f\<lparr>sf_outcomes := tl (sf_outcomes f)\<rparr>)
      else (True, f\<lparr>sf_rest := drop n (sf_rest f), sf_outcomes := tl (sf_outcomes f)\<rparr>))"

record log_reader =
  lr_file :: sequential_file
  lr_reporter :: bool
  lr_checksum :: bool
  lr_buffer :: bytes
  lr_eof :: bool
  lr_last_record_offset :: u64
  lr_end_of_buffer_offset :: u64
  lr_initial_offset :: u64
  lr_resyncing :: bool
  lr_reports :: "(nat \<times> string) list"

definition log_Reader :: "sequential_file \<Rightarrow> bool \<Rightarrow> bool \<Rightarrow> u64 \<Rightarrow> log_reader" where
  "log_Reader file reporter checksum initial_offset =
     \<lparr>lr_file = file, lr_reporter = reporter, lr_checksum = checksum, lr_buffer = [], lr_eof = False,
      lr_last_record_offset = 0, lr_end_of_buffer_offset = 0, lr_initial_offset = initial_offset,
      lr_resyncing = (initial_offset > 0), lr_reports = []\<rparr>"

definition ReportDrop :: "nat \<Rightarrow> string \<Rightarrow> log_reader \<Rightarrow> log_reader" where
  "ReportDrop n reason r =
     (if lr_reporter r \<and>
         lr_end_of_buffer_offset r - of_nat (length (lr_buffer r)) - of_nat n \<ge> lr_initial_offset r
      then r\<lparr>lr_reports := lr_reports r @ [(n, reason)]\<rparr> else r)"

definition ReportCorruption :: "nat \<Rightarrow> string \<Rightarrow> log_reader \<Rightarrow> log_reader" where
  "ReportCorruption n reason r = ReportDrop n (''Corruption: '' @ reason) r"

definition SkipToInitialBlock :: "log_reader \<Rightarrow> bool \<times> log_reader" where
  "SkipToInitialBlock r =
     (let offset_in_block = unat (lr_initial_offset r) mod kBlockSize;
          block_start_location = lr_initial_offset r - of_nat offset_in_block;
          block_start_location =
            (if offset_in_block > kBlockSize - 6 then block_start_location + of_nat kBlockSize else block_start_location);
          r = r\<lparr>lr_end_of_buffer_offset := block_start_location\<rparr> in
      if block_start_location > 0 then
        let (ok, f) = sf_Skip (unat block_start_location) (lr_file r); r = r\<lparr>lr_file := f\<rparr> in
        if \<not> ok then (False, ReportDrop (unat block_start_location) ''IO error'' r) else (True, r)
      else (True, r))"

text \<open>
  What \<^verbatim>\<open>ReadPhysicalRecord\<close> does with a buffer that holds a header: the type (a signed character
  widened to an unsigned number), the fragment it stores in its result, and the reader. The buffer
  has at least 7 bytes, so that the indexing below is in bounds.
\<close>

definition parse_record :: "bytes \<Rightarrow> log_reader \<Rightarrow> u32 \<times> bytes \<times> log_reader" where
  "parse_record frag r =
     (let header = lr_buffer r;
          a = unat (header ! 4); b = unat (header ! 5); type = (scast (header ! 6) :: u32);
          len = a + 256 * b in
      if kHeaderSize + len > length (lr_buffer r) then
        let drop_size = length (lr_buffer r); r = r\<lparr>lr_buffer := []\<rparr> in
        if \<not> lr_eof r then (kBadRecord, frag, ReportCorruption drop_size ''bad record length'' r)
        else (kEof, frag, r)
      else if type = kZeroType \<and> len = 0 then (kBadRecord, frag, r\<lparr>lr_buffer := []\<rparr>)
      else if lr_checksum r \<and>
          crc32c 0 (take (1 + len) (drop 6 header)) \<noteq> Unmask (the (DecodeFixed32 True header)) then
        let drop_size = length (lr_buffer r); r = r\<lparr>lr_buffer := []\<rparr> in
        (kBadRecord, frag, ReportCorruption drop_size ''checksum mismatch'' r)
      else
        let r = r\<lparr>lr_buffer := drop (kHeaderSize + len) (lr_buffer r)\<rparr> in
        if lr_end_of_buffer_offset r - of_nat (length (lr_buffer r)) - of_nat kHeaderSize - of_nat len <
           lr_initial_offset r
        then (kBadRecord, [], r)
        else (type, take len (drop kHeaderSize header), r))"

function ReadPhysicalRecord :: "bytes \<Rightarrow> log_reader \<Rightarrow> u32 \<times> bytes \<times> log_reader" where
  "ReadPhysicalRecord frag r =
     (if length (lr_buffer r) < kHeaderSize then
        if \<not> lr_eof r then
          let (ok, bs, f) = sf_Read kBlockSize (lr_file r);
              r = r\<lparr>lr_buffer := bs, lr_file := f,
                    lr_end_of_buffer_offset := lr_end_of_buffer_offset r + of_nat (length bs)\<rparr> in
          if \<not> ok then (kEof, frag, (ReportDrop kBlockSize ''IO error'' (r\<lparr>lr_buffer := []\<rparr>))\<lparr>lr_eof := True\<rparr>)
          else if length bs < kBlockSize then ReadPhysicalRecord frag (r\<lparr>lr_eof := True\<rparr>)
          else ReadPhysicalRecord frag r
        else (kEof, frag, r\<lparr>lr_buffer := []\<rparr>)
      else parse_record frag r)"
  by pat_completeness auto

termination
  by (relation "measure (\<lambda>(_, r). if length (lr_buffer r) < kHeaderSize then if lr_eof r then 1 else 2 else 0)")
    (auto simp: kHeaderSize_def kBlockSize_def)

declare ReadPhysicalRecord.simps [simp del]

definition unread :: "log_reader \<Rightarrow> nat" where
  "unread r = length (lr_buffer r) + length (sf_rest (lr_file r))"

lemma ReportDrop_simps [simp]:
  "lr_buffer (ReportDrop n s r) = lr_buffer r" "lr_file (ReportDrop n s r) = lr_file r"
  "lr_buffer (ReportCorruption n s r) = lr_buffer r" "lr_file (ReportCorruption n s r) = lr_file r"
  by (simp_all add: ReportDrop_def ReportCorruption_def)

lemma parse_record_unread:
  assumes "kHeaderSize \<le> length (lr_buffer r)" and "parse_record frag r = (t, frag', r')"
  shows "unread r' < unread r"
  using assms by (auto simp: parse_record_def Let_def unread_def kHeaderSize_def split: if_splits)

lemma ReadPhysicalRecord_unread:
  "ReadPhysicalRecord frag r = (t, frag', r') \<Longrightarrow> t \<noteq> kEof \<Longrightarrow> unread r' < unread r"
proof (induction frag r rule: ReadPhysicalRecord.induct)
  case (1 frag r)
  show ?case
  proof (cases "length (lr_buffer r) < kHeaderSize")
    case True
    with 1(3,4) have e: "\<not> lr_eof r" by (subst (asm) ReadPhysicalRecord.simps) (auto split: if_splits)
    obtain ok bs f where rd: "sf_Read kBlockSize (lr_file r) = (ok, bs, f)" by (cases "sf_Read kBlockSize (lr_file r)") auto
    with 1(3,4) True e have ok by (subst (asm) ReadPhysicalRecord.simps) (auto simp: Let_def split: if_splits)
    then have "length bs + length (sf_rest f) = length (sf_rest (lr_file r))"
      using rd by (auto simp: sf_Read_def split: if_splits)
    moreover have "unread r' < length bs + length (sf_rest f)"
      using 1(1,2) [OF True e rd [symmetric] refl refl] 1(3,4) True e rd \<open>ok\<close>
      by (subst (asm) ReadPhysicalRecord.simps) (auto simp: Let_def unread_def split: if_splits)
    ultimately show ?thesis by (simp add: unread_def)
  next
    case False
    with 1(3) have "parse_record frag r = (t, frag', r')" by (subst (asm) ReadPhysicalRecord.simps) simp
    with False show ?thesis by (intro parse_record_unread) auto
  qed
qed

lemma ReadPhysicalRecord_progress:
  "(t, frag', r') = ReadPhysicalRecord frag r \<Longrightarrow> t \<noteq> kEof \<Longrightarrow> unread r' < unread r"
  using ReadPhysicalRecord_unread by metis

lemma unread_simps [simp]:
  "unread (r\<lparr>lr_resyncing := b\<rparr>) = unread r" "unread (ReportCorruption n s r) = unread r"
  by (simp_all add: unread_def)

function ReadRecord_loop :: "bool \<Rightarrow> bytes \<Rightarrow> u64 \<Rightarrow> bytes \<Rightarrow> log_reader \<Rightarrow> bytes option \<times> log_reader" where
  "ReadRecord_loop in_fragmented_record scratch prospective frag r =
     (let (type, frag, r) = ReadPhysicalRecord frag r;
          offset = lr_end_of_buffer_offset r - of_nat (length (lr_buffer r)) - of_nat kHeaderSize - of_nat (length frag) in
      if lr_resyncing r \<and> type = kMiddleType then ReadRecord_loop in_fragmented_record scratch prospective frag r
      else let resynced = lr_resyncing r \<and> type = kLastType; r = r\<lparr>lr_resyncing := False\<rparr> in
      if resynced then ReadRecord_loop in_fragmented_record scratch prospective frag r
      else if type = kFullType then
        let r = (if in_fragmented_record \<and> scratch \<noteq> []
                 then ReportCorruption (length scratch) ''partial record without end(1)'' r else r) in
        (Some frag, r\<lparr>lr_last_record_offset := offset\<rparr>)
      else if type = kFirstType then
        let r = (if in_fragmented_record \<and> scratch \<noteq> []
                 then ReportCorruption (length scratch) ''partial record without end(2)'' r else r) in
        ReadRecord_loop True frag offset frag r
      else if type = kMiddleType then
        if \<not> in_fragmented_record
        then ReadRecord_loop in_fragmented_record scratch prospective frag
               (ReportCorruption (length frag) ''missing start of fragmented record(1)'' r)
        else ReadRecord_loop in_fragmented_record (scratch @ frag) prospective frag r
      else if type = kLastType then
        if \<not> in_fragmented_record
        then ReadRecord_loop in_fragmented_record scratch prospective frag
               (ReportCorruption (length frag) ''missing start of fragmented record(2)'' r)
        else (Some (scratch @ frag), r\<lparr>lr_last_record_offset := prospective\<rparr>)
      else if type = kEof then (None, r)
      else if type = kBadRecord then
        if in_fragmented_record
        then ReadRecord_loop False [] prospective frag
               (ReportCorruption (length scratch) ''error in middle of record'' r)
        else ReadRecord_loop in_fragmented_record scratch prospective frag r
      else ReadRecord_loop False [] prospective frag
             (ReportCorruption (length frag + (if in_fragmented_record then length scratch else 0))
               (''unknown record type '' @ print_u type) r))"
  by pat_completeness auto

termination
  by (relation "measure (\<lambda>(_, _, _, _, r). unread r)")
    (auto dest!: ReadPhysicalRecord_progress simp: log_consts)

declare ReadRecord_loop.simps [simp del]

definition ReadRecord :: "log_reader \<Rightarrow> bytes option \<times> log_reader" where
  "ReadRecord r =
     (let (ok, r) = (if lr_last_record_offset r < lr_initial_offset r then SkipToInitialBlock r else (True, r)) in
      if \<not> ok then (None, r) else ReadRecord_loop False [] 0 [] r)"

section \<open>Physical records\<close>

definition phys :: "u32 \<Rightarrow> bytes \<Rightarrow> bytes" where
  "phys t p = word_le 4 (Mask (crc32c 0 (ucast t # p))) @
     [of_nat (take_bit 8 (length p)), of_nat (drop_bit 8 (length p)), ucast t] @ p"

definition log_types :: "u32 set" where
  "log_types = {kFullType, kFirstType, kMiddleType, kLastType}"

lemma Unmask_Mask: "Unmask (Mask c) = c"
proof -
  have "drop_bit 17 (drop_bit 15 c OR push_bit 17 c) OR push_bit 15 (drop_bit 15 c OR push_bit 17 c) = c"
  proof (rule bit_eqI)
    show "bit (drop_bit 17 (drop_bit 15 c OR push_bit 17 c) OR push_bit 15 (drop_bit 15 c OR push_bit 17 c)) k =
        bit c k" if "possible_bit TYPE(u32) k" for k
      using that by (cases "k < 15") (auto simp: bit_simps)
  qed
  then show ?thesis by (simp add: Unmask_def Mask_def Let_def)
qed

lemma length_phys [simp]: "length (phys t p) = kHeaderSize + length p"
  by (simp add: phys_def kHeaderSize_def)

lemma phys_parts:
  assumes "length p < 65536" and "t \<in> log_types" and "buf = phys t p @ q"
  shows "unat (buf ! 4) + 256 * unat (buf ! 5) = length p" "(scast (buf ! 6) :: u32) = t"
    "take (1 + length p) (drop 6 buf) = ucast t # p" "take (length p) (drop kHeaderSize buf) = p"
    "DecodeFixed32 True buf = Some (Mask (crc32c 0 (ucast t # p)))"
    "drop (kHeaderSize + length p) buf = q"
proof -
  let ?w = "word_le 4 (Mask (crc32c 0 (ucast t # p)))"
  let ?a = "of_nat (take_bit 8 (length p)) :: u8" and ?b = "of_nat (drop_bit 8 (length p)) :: u8"
  obtain w0 w1 w2 w3 where w: "?w = [w0, w1, w2, w3]" by (simp add: word_le_4)
  then have buf: "buf = w0 # w1 # w2 # w3 # ?a # ?b # ucast t # p @ q" using assms(3) by (simp add: phys_def)
  have "length p div 256 < 256" using assms(1) by (simp add: less_mult_imp_div_less)
  then show "unat (buf ! 4) + 256 * unat (buf ! 5) = length p"
    unfolding buf by (simp add: byte_simps take_bit_eq_mod drop_bit_eq_div)
  show "(scast (buf ! 6) :: u32) = t"
    unfolding buf using assms(2) by (auto simp: log_types_def log_consts)
  show "take (1 + length p) (drop 6 buf) = ucast t # p" "take (length p) (drop kHeaderSize buf) = p"
    unfolding buf by (simp_all add: kHeaderSize_def)
  show "drop (kHeaderSize + length p) buf = q" using assms(3) by simp
  show "DecodeFixed32 True buf = Some (Mask (crc32c 0 (ucast t # p)))"
    using assms(3) DecodeFixed_hit(1) by (simp add: phys_def)
qed

lemma parse_phys:
  assumes "lr_buffer r = phys t p @ q" and "length p < 65536" and "t \<in> log_types" and "lr_initial_offset r = 0"
  shows "parse_record frag r = (t, p, r\<lparr>lr_buffer := q\<rparr>)"
proof -
  note parts = phys_parts [OF assms(2,3,1)]
  have "t \<noteq> kZeroType" using assms(3) by (auto simp: log_types_def log_consts)
  moreover have "\<not> kHeaderSize + length p > length (lr_buffer r)" using assms(1) by simp
  ultimately show ?thesis
    unfolding parse_record_def Let_def parts(1-3) parts(5) using parts(4,6) assms(4)
    by (simp add: Unmask_Mask)
qed

section \<open>Positions in a log\<close>

text \<open>The bytes that fill a block without room for a header, and the position behind them.\<close>

definition pad :: "nat \<Rightarrow> bytes" where
  "pad off = (if kBlockSize - off < kHeaderSize then replicate (kBlockSize - off) 0 else [])"

definition start :: "nat \<Rightarrow> nat" where
  "start off = (if kBlockSize - off < kHeaderSize then 0 else off)"

text \<open>A reader at offset \<open>off\<close> of a block with \<open>data\<close> ahead of it.\<close>

definition reading :: "log_reader \<Rightarrow> nat \<Rightarrow> bytes \<Rightarrow> bool" where
  "reading r off data \<longleftrightarrow> off \<le> kBlockSize \<and>
     lr_buffer r = take (kBlockSize - off) data \<and> sf_rest (lr_file r) = drop (kBlockSize - off) data \<and>
     (lr_eof r \<longleftrightarrow> off + length data < kBlockSize) \<and> sf_outcomes (lr_file r) = [] \<and>
     lr_initial_offset r = 0 \<and> \<not> lr_resyncing r \<and> lr_reports r = []"

lemma reading_consume:
  assumes "reading r off (xs @ later)" and "off + length xs \<le> kBlockSize"
  shows "reading (r\<lparr>lr_buffer := take (kBlockSize - (off + length xs)) later\<rparr>) (off + length xs) later"
  using assms by (auto simp: reading_def)

lemma ReadPhysicalRecord_fill:
  assumes "length (lr_buffer r) < kHeaderSize" and "\<not> lr_eof r" and "sf_outcomes (lr_file r) = []"
    and "bs = take kBlockSize (sf_rest (lr_file r))"
  shows "ReadPhysicalRecord frag r =
    ReadPhysicalRecord frag (r\<lparr>lr_buffer := bs,
        lr_file := \<lparr>sf_rest = drop kBlockSize (sf_rest (lr_file r)), sf_outcomes = []\<rparr>,
        lr_end_of_buffer_offset := lr_end_of_buffer_offset r + of_nat (length bs),
        lr_eof := length bs < kBlockSize\<rparr>)"
proof -
  obtain f rep ch buf eof lo eo ini res rp where r:
    "r = \<lparr>lr_file = f, lr_reporter = rep, lr_checksum = ch, lr_buffer = buf, lr_eof = eof, lr_last_record_offset = lo,
      lr_end_of_buffer_offset = eo, lr_initial_offset = ini, lr_resyncing = res, lr_reports = rp\<rparr>" by (cases r)
  obtain rest outs where f: "f = \<lparr>sf_rest = rest, sf_outcomes = outs\<rparr>" by (cases f)
  show ?thesis
    using assms unfolding r f by (subst (1) ReadPhysicalRecord.simps) (auto simp: sf_Read_def Let_def min_def)
qed

lemma ReadPhysicalRecord_phys:
  assumes r: "reading r off (pad off @ phys t p @ later)" and fit: "start off + kHeaderSize + length p \<le> kBlockSize"
    and t: "t \<in> log_types"
  shows "\<exists>r'. ReadPhysicalRecord frag r = (t, p, r') \<and> reading r' (start off + kHeaderSize + length p) later"
proof -
  have p: "length p < 65536" using fit by (simp add: kBlockSize_def)
  have parse: "parse_record frag r = (t, p, r\<lparr>lr_buffer := take (kBlockSize - (o' + kHeaderSize + length p)) later\<rparr>) \<and>
      reading (r\<lparr>lr_buffer := take (kBlockSize - (o' + kHeaderSize + length p)) later\<rparr>) (o' + kHeaderSize + length p) later \<and>
      kHeaderSize \<le> length (lr_buffer r)"
    if rd: "reading r o' (phys t p @ later)" and f: "o' + kHeaderSize + length p \<le> kBlockSize" for r o'
  proof -
    have "lr_buffer r = phys t p @ take (kBlockSize - (o' + kHeaderSize + length p)) later"
      using rd f by (simp add: reading_def add.assoc)
    moreover have "lr_initial_offset r = 0" using rd by (simp add: reading_def)
    ultimately show ?thesis
      using parse_phys [of r t p] p t reading_consume [OF rd] f by (simp add: add.assoc)
  qed
  show ?thesis
  proof (cases "kBlockSize - off < kHeaderSize")
    case False
    then have "reading r off (phys t p @ later)" using r by (simp add: pad_def)
    from parse [OF this] False fit show ?thesis
      by (subst ReadPhysicalRecord.simps) (auto simp: start_def)
  next
    case True
    let ?data = "phys t p @ later"
    let ?r = "r\<lparr>lr_buffer := take kBlockSize ?data, lr_file := \<lparr>sf_rest = drop kBlockSize ?data, sf_outcomes = []\<rparr>,
        lr_end_of_buffer_offset := lr_end_of_buffer_offset r + of_nat (length (take kBlockSize ?data)),
        lr_eof := length (take kBlockSize ?data) < kBlockSize\<rparr>"
    have pd: "length (pad off) = kBlockSize - off" using True by (simp add: pad_def)
    have "reading ?r 0 ?data" using r by (auto simp: reading_def)
    from parse [OF this] fit True have ps: "parse_record frag ?r =
        (t, p, ?r\<lparr>lr_buffer := take (kBlockSize - (kHeaderSize + length p)) later\<rparr>)"
      "reading (?r\<lparr>lr_buffer := take (kBlockSize - (kHeaderSize + length p)) later\<rparr>) (kHeaderSize + length p) later"
      "kHeaderSize \<le> length (lr_buffer ?r)" by (simp_all add: start_def)
    have b: "length (lr_buffer r) < kHeaderSize" "\<not> lr_eof r" "sf_rest (lr_file r) = ?data" "sf_outcomes (lr_file r) = []"
      using r True pd by (auto simp: reading_def)
    have "ReadPhysicalRecord frag r = ReadPhysicalRecord frag ?r"
      using ReadPhysicalRecord_fill [OF b(1,2,4) refl, of frag] unfolding b(3) .
    also have "\<dots> = parse_record frag ?r"
      using ps(3) by (subst ReadPhysicalRecord.simps) simp
    finally show ?thesis using ps(1,2) True by (simp add: start_def)
  qed
qed

lemma ReadPhysicalRecord_end:
  assumes "reading r off []"
  shows "\<exists>r'. ReadPhysicalRecord frag r = (kEof, frag, r') \<and> lr_reports r' = []"
proof (cases "lr_eof r")
  case True
  with assms show ?thesis by (subst ReadPhysicalRecord.simps) (auto simp: reading_def kHeaderSize_def)
next
  case False
  have b: "length (lr_buffer r) < kHeaderSize" "sf_outcomes (lr_file r) = []" "sf_rest (lr_file r) = []"
    using assms by (auto simp: reading_def kHeaderSize_def)
  show ?thesis
    unfolding ReadPhysicalRecord_fill [OF b(1) False b(2) refl, of frag] b(3) using assms
    by (subst ReadPhysicalRecord.simps) (simp add: reading_def kHeaderSize_def kBlockSize_def)
qed

section \<open>Writing and reading back\<close>

definition writing :: "log_writer \<Rightarrow> bytes \<Rightarrow> bool" where
  "writing w content \<longleftrightarrow> lw_dest w = \<lparr>wf_content = content, wf_outcomes = []\<rparr> \<and> lw_type_crc w = InitTypeCrc \<and>
     lw_block_offset w \<le> kBlockSize"

lemma type_crc: "t \<in> log_types \<Longrightarrow> InitTypeCrc ! unat t = crc32c 0 [ucast t]"
  by (auto simp: log_types_def InitTypeCrc_def log_consts upt_rec)

lemma Emit_writing:
  assumes "writing w content" and "t \<in> log_types" and "lw_block_offset w + kHeaderSize + length p \<le> kBlockSize"
  shows "\<exists>w'. EmitPhysicalRecord t p w = (True, w') \<and> writing w' (content @ phys t p) \<and>
    lw_block_offset w' = lw_block_offset w + kHeaderSize + length p"
  using assms
  by (auto simp: EmitPhysicalRecord_def writing_def phys_def Let_def type_crc crc32c_append)

lemma switch_writing:
  "writing w content \<Longrightarrow> writing (switch_block w) (content @ pad (lw_block_offset w)) \<and>
    lw_block_offset (switch_block w) = start (lw_block_offset w)"
  by (auto simp: writing_def switch_block_def pad_def start_def Let_def kHeaderSize_def)

lemma record_type_log: "record_type b e \<in> log_types"
  by (auto simp: record_type_def log_types_def)

lemma pad_start_0: "pad 0 = []" "pad kBlockSize = []" "start kBlockSize = 0" "start 0 = 0"
  by (simp_all add: pad_def start_def kBlockSize_def kHeaderSize_def)

text \<open>One turn of the reader's loop on a record that the writer's loop has emitted.\<close>

lemma ReadRecord_step:
  assumes "ReadPhysicalRecord frag r = (record_type beg fin, p, r')" and "\<not> lr_resyncing r'"
    and "beg \<longleftrightarrow> \<not> in_frag" and "in_frag \<or> scratch = []"
  shows "if fin then \<exists>l. ReadRecord_loop in_frag scratch prospective frag r = (Some (scratch @ p), r'\<lparr>lr_last_record_offset := l\<rparr>)
    else \<exists>prospective'. ReadRecord_loop in_frag scratch prospective frag r =
      ReadRecord_loop True (scratch @ p) prospective' p r'"
proof -
  have [simp]: "r'\<lparr>lr_resyncing := False\<rparr> = r'" using assms(2) by (cases r') simp
  have type: "record_type beg fin =
      (if in_frag then if fin then kLastType else kMiddleType else if fin then kFullType else kFirstType)"
    using assms(3) by (auto simp: record_type_def)
  have neq: "kFirstType \<noteq> kFullType" "kMiddleType \<noteq> kFullType" "kMiddleType \<noteq> kFirstType"
    "kLastType \<noteq> kFullType" "kLastType \<noteq> kFirstType" "kLastType \<noteq> kMiddleType" by (simp_all add: log_consts)
  show ?thesis
  proof (cases fin)
    case True
    then show ?thesis using assms(1,2,4) neq unfolding type
      by (subst ReadRecord_loop.simps) (cases in_frag; simp add: Let_def; blast)
  next
    case False
    then show ?thesis using assms(1,2,4) neq unfolding type
      by (subst ReadRecord_loop.simps) (cases in_frag; simp add: Let_def; blast)
  qed
qed

definition aligned :: "nat \<Rightarrow> log_writer \<Rightarrow> bool" where
  "aligned off w \<longleftrightarrow> off = lw_block_offset w \<or> lw_block_offset w = 0 \<and> off = kBlockSize"

lemma aligned_pad: "aligned off w \<Longrightarrow> pad off = pad (lw_block_offset w) \<and> start off = start (lw_block_offset w)"
  by (auto simp: aligned_def pad_start_0)

lemma reading_last [simp]: "reading (r\<lparr>lr_last_record_offset := l\<rparr>) off data = reading r off data"
  by (simp add: reading_def)

text \<open>What the loop of the writer appends, the loop of the reader turns into the record.\<close>

definition reads_back :: "bool \<Rightarrow> bytes \<Rightarrow> log_writer \<Rightarrow> bytes \<Rightarrow> log_writer \<Rightarrow> bool" where
  "reads_back beg ptr w bs w' \<longleftrightarrow>
     (\<forall>r off later in_frag scratch prospective frag.
        reading r off (bs @ later) \<longrightarrow> aligned off w \<longrightarrow> (beg \<longleftrightarrow> \<not> in_frag) \<longrightarrow> (in_frag \<or> scratch = []) \<longrightarrow>
        (\<exists>r'. ReadRecord_loop in_frag scratch prospective frag r = (Some (scratch @ ptr), r') \<and>
           reading r' (lw_block_offset w') later))"

lemma AddRecord_loop_reads:
  "writing w content \<Longrightarrow>
    \<exists>w' bs. AddRecord_loop beg ptr w = (True, w') \<and> writing w' (content @ bs) \<and> reads_back beg ptr w bs w'"
proof (induction beg ptr w arbitrary: content rule: AddRecord_loop.induct)
  case (1 beg ptr w)
  let ?off = "lw_block_offset w" and ?w = "switch_block w"
  let ?n = "fragment_length (lw_block_offset ?w) (length ptr)"
  let ?t = "record_type beg (length ptr = ?n)" and ?p = "take ?n ptr"
  have w1: "writing ?w (content @ pad ?off)" "lw_block_offset ?w = start ?off"
    using switch_writing [OF 1(2)] by auto
  have st: "start ?off + kHeaderSize \<le> kBlockSize" by (auto simp: start_def kBlockSize_def kHeaderSize_def)
  have n: "?n \<le> length ptr" "start ?off + kHeaderSize + ?n \<le> kBlockSize"
    using st w1(2) by (auto simp: fragment_length_def Let_def)
  then have fit: "start ?off + kHeaderSize + length ?p \<le> kBlockSize" by simp
  obtain w2 where w2: "EmitPhysicalRecord ?t ?p ?w = (True, w2)" "writing w2 (content @ pad ?off @ phys ?t ?p)"
    "lw_block_offset w2 = start ?off + kHeaderSize + length ?p"
    using Emit_writing [OF w1(1) record_type_log, of ?p beg "length ptr = ?n"] fit w1(2) by auto
  have step: "\<exists>r'. ReadPhysicalRecord frag r = (?t, ?p, r') \<and> reading r' (lw_block_offset w2) later"
    if "reading r off (pad ?off @ phys ?t ?p @ later)" "aligned off w" for r off later frag
    using ReadPhysicalRecord_phys [of r off ?t ?p later frag] that fit record_type_log aligned_pad [OF that(2)] w2(3)
    by simp
  show ?case
  proof (cases "drop ?n ptr = []")
    case True
    then have e: "?n = length ptr" "?p = ptr" using n(1) by auto
    have add: "AddRecord_loop beg ptr w = (True, w2)"
      using w2(1) True by (subst AddRecord_loop.simps) (simp add: Let_def)
    have "reads_back beg ptr w (pad ?off @ phys ?t ?p) w2"
      unfolding reads_back_def
    proof (intro allI impI)
      fix r off later in_frag and scratch :: bytes and prospective frag
      assume a: "reading r off ((pad ?off @ phys ?t ?p) @ later)" "aligned off w" "beg \<longleftrightarrow> \<not> in_frag" "in_frag \<or> scratch = []"
      obtain r' where r': "ReadPhysicalRecord frag r = (?t, ?p, r')" "reading r' (lw_block_offset w2) later"
        using step [of r off later frag] a(1,2) by auto
      then have "\<not> lr_resyncing r'" by (simp add: reading_def)
      from ReadRecord_step [OF r'(1) this a(3,4), of prospective] e
      obtain l where "ReadRecord_loop in_frag scratch prospective frag r = (Some (scratch @ ptr), r'\<lparr>lr_last_record_offset := l\<rparr>)"
        by auto
      with r'(2) show "\<exists>r'. ReadRecord_loop in_frag scratch prospective frag r = (Some (scratch @ ptr), r') \<and>
          reading r' (lw_block_offset w2) later" by auto
    qed
    with add w2(2) show ?thesis by blast
  next
    case False
    then have ne: "length ptr \<noteq> ?n" by auto
    from 1(1) [OF refl refl refl w2(1) [symmetric] _ w2(2)] w2(1) False
    obtain w' bs where w': "AddRecord_loop False (drop ?n ptr) w2 = (True, w')"
      "writing w' ((content @ pad ?off @ phys ?t ?p) @ bs)" "reads_back False (drop ?n ptr) w2 bs w'" by auto
    have add: "AddRecord_loop beg ptr w = (True, w')"
      using w2(1) w'(1) False by (subst AddRecord_loop.simps) (simp add: Let_def)
    have "reads_back beg ptr w (pad ?off @ phys ?t ?p @ bs) w'"
      unfolding reads_back_def
    proof (intro allI impI)
      fix r off later in_frag and scratch :: bytes and prospective frag
      assume a: "reading r off ((pad ?off @ phys ?t ?p @ bs) @ later)" "aligned off w" "beg \<longleftrightarrow> \<not> in_frag" "in_frag \<or> scratch = []"
      obtain r' where r': "ReadPhysicalRecord frag r = (?t, ?p, r')" "reading r' (lw_block_offset w2) (bs @ later)"
        using step [of r off "bs @ later" frag] a(1,2) by auto
      then have "\<not> lr_resyncing r'" by (simp add: reading_def)
      from ReadRecord_step [OF r'(1) this a(3,4), of prospective] ne
      obtain pr where pr: "ReadRecord_loop in_frag scratch prospective frag r = ReadRecord_loop True (scratch @ ?p) pr ?p r'"
        by auto
      have "aligned (lw_block_offset w2) w2" by (simp add: aligned_def)
      with r'(2) obtain r'' where "ReadRecord_loop True (scratch @ ?p) pr ?p r' = (Some ((scratch @ ?p) @ drop ?n ptr), r'')"
        "reading r'' (lw_block_offset w') later"
        using w'(3) [unfolded reads_back_def, rule_format, of r' "lw_block_offset w2" later True "scratch @ ?p" pr ?p] by auto
      with pr show "\<exists>r'. ReadRecord_loop in_frag scratch prospective frag r = (Some (scratch @ ptr), r') \<and>
          reading r' (lw_block_offset w') later" by (simp only: append_assoc append_take_drop_id) blast
    qed
    moreover have "writing w' (content @ pad ?off @ phys ?t ?p @ bs)" using w'(2) by (simp only: append_assoc)
    ultimately show ?thesis using add by blast
  qed
qed

section \<open>Sequences of records\<close>

fun AddRecords :: "bytes list \<Rightarrow> log_writer \<Rightarrow> bool \<times> log_writer" where
  "AddRecords [] w = (True, w)"
| "AddRecords (rec # recs) w = (let (s, w) = AddRecord rec w in if s then AddRecords recs w else (s, w))"

fun ReadRecords :: "nat \<Rightarrow> log_reader \<Rightarrow> bytes option list \<times> log_reader" where
  "ReadRecords 0 r = ([], r)"
| "ReadRecords (Suc n) r = (let (x, r) = ReadRecord r; (xs, r) = ReadRecords n r in (x # xs, r))"

lemma ReadRecord_reading: "reading r off data \<Longrightarrow> ReadRecord r = ReadRecord_loop False [] 0 [] r"
  by (simp add: ReadRecord_def reading_def)

lemma ReadRecord_end:
  "reading r off [] \<Longrightarrow> \<exists>r'. ReadRecord r = (None, r') \<and> lr_reports r' = []"
proof -
  assume r: "reading r off []"
  obtain r' where r': "ReadPhysicalRecord [] r = (kEof, [], r')" "lr_reports r' = []"
    using ReadPhysicalRecord_end [OF r, of "[]"] by blast
  have "ReadRecord_loop False [] 0 [] r = (None, r'\<lparr>lr_resyncing := False\<rparr>)"
    using r'(1) by (subst ReadRecord_loop.simps) (simp add: Let_def log_consts)
  with r'(2) show ?thesis by (simp add: ReadRecord_reading [OF r])
qed

lemma AddRecords_read:
  "writing w content \<Longrightarrow>
    \<exists>w' bs. AddRecords recs w = (True, w') \<and> writing w' (content @ bs) \<and>
      (\<forall>r off. reading r off bs \<longrightarrow> aligned off w \<longrightarrow>
        (\<exists>r'. ReadRecords (length recs + 1) r = (map Some recs @ [None], r') \<and> lr_reports r' = []))"
proof (induction recs arbitrary: w content)
  case Nil
  have "\<exists>r'. ReadRecords 1 r = ([None], r') \<and> lr_reports r' = []" if "reading r off []" for r off
    using ReadRecord_end [OF that] by (auto simp: Let_def)
  with Nil show ?case by (intro exI [of _ w] exI [of _ "[]"]) auto
next
  case (Cons rec recs)
  obtain w1 b1 where w1: "AddRecord rec w = (True, w1)" "writing w1 (content @ b1)" "reads_back True rec w b1 w1"
    using AddRecord_loop_reads [OF Cons.prems, of True rec] by (auto simp: AddRecord_def)
  obtain w2 b2 where w2: "AddRecords recs w1 = (True, w2)" "writing w2 ((content @ b1) @ b2)"
    "\<forall>r off. reading r off b2 \<longrightarrow> aligned off w1 \<longrightarrow>
      (\<exists>r'. ReadRecords (length recs + 1) r = (map Some recs @ [None], r') \<and> lr_reports r' = [])"
    using Cons.IH [OF w1(2)] by blast
  have "\<exists>r'. ReadRecords (length (rec # recs) + 1) r = (map Some (rec # recs) @ [None], r') \<and> lr_reports r' = []"
    if r: "reading r off (b1 @ b2)" and al: "aligned off w" for r off
  proof -
    obtain r1 where r1: "ReadRecord_loop False [] 0 [] r = (Some rec, r1)" "reading r1 (lw_block_offset w1) b2"
      using w1(3) r al unfolding reads_back_def by (metis append_Nil)
    have "aligned (lw_block_offset w1) w1" by (simp add: aligned_def)
    with w2(3) r1(2) obtain r2 where "ReadRecords (length recs + 1) r1 = (map Some recs @ [None], r2)" "lr_reports r2 = []"
      by blast
    with r1(1) show ?thesis by (simp add: ReadRecord_reading [OF r] Let_def)
  qed
  with w1(1) w2(1,2) show ?case by (intro exI [of _ w2] exI [of _ "b1 @ b2"]) (simp add: Let_def)
qed

lemma log_records:
  "\<exists>w'. AddRecords recs (log_Writer \<lparr>wf_content = [], wf_outcomes = []\<rparr> 0) = (True, w') \<and>
    (\<exists>r'. ReadRecords (length recs + 1)
        (log_Reader \<lparr>sf_rest = wf_content (lw_dest w'), sf_outcomes = []\<rparr> reporter checksum 0) =
          (map Some recs @ [None], r') \<and> lr_reports r' = [])"
proof -
  let ?w = "log_Writer \<lparr>wf_content = [], wf_outcomes = []\<rparr> 0"
  have "writing ?w []" by (simp add: writing_def log_Writer_def)
  from AddRecords_read [OF this, of recs] obtain w' bs where w': "AddRecords recs ?w = (True, w')" "writing w' bs"
    "\<forall>r off. reading r off bs \<longrightarrow> aligned off ?w \<longrightarrow>
      (\<exists>r'. ReadRecords (length recs + 1) r = (map Some recs @ [None], r') \<and> lr_reports r' = [])" by auto
  have "reading (log_Reader \<lparr>sf_rest = bs, sf_outcomes = []\<rparr> reporter checksum 0) kBlockSize bs"
    "aligned kBlockSize ?w"
    by (simp_all add: reading_def log_Reader_def aligned_def log_Writer_def)
  with w' show ?thesis by (auto simp: writing_def)
qed

section \<open>Properties\<close>

text \<open>
  C21: Whatever records are added to a new log, of any sizes, reading the file returns exactly these
  records in order, then the end of the input, and reports no corruption, with or without checksum
  verification. The trailers, the fragments of records that span blocks and the empty
  first fragments at the end of a block are all covered.
\<close>

theorem log_roundtrip:
  "\<exists>w'. AddRecords recs (log_Writer \<lparr>wf_content = [], wf_outcomes = []\<rparr> 0) = (True, w') \<and>
    (\<exists>r'. ReadRecords (length recs + 1)
        (log_Reader \<lparr>sf_rest = wf_content (lw_dest w'), sf_outcomes = []\<rparr> reporter checksum 0) =
          (map Some recs @ [None], r') \<and> lr_reports r' = [])"
  by (rule log_records)

lemma ReadRecord_loop_unread: "ReadRecord_loop f scratch pr frag r = (Some record, r') \<Longrightarrow> unread r' < unread r"
proof (induction "unread r" arbitrary: f scratch pr frag r rule: less_induct)
  case less
  obtain t fr r1 where p: "ReadPhysicalRecord frag r = (t, fr, r1)" by (cases "ReadPhysicalRecord frag r") auto
  have "ReadRecord_loop f scratch pr frag r = (None, r1\<lparr>lr_resyncing := False\<rparr>)" if "t = kEof"
    using p that by (subst ReadRecord_loop.simps) (simp add: Let_def log_consts)
  then have "t \<noteq> kEof" using less.prems by auto
  then have dec: "unread r1 < unread r" using ReadPhysicalRecord_unread [OF p] by simp
  have ih: "unread r' < unread r"
    if "ReadRecord_loop f' scratch' pr' frag' r2 = (Some record, r')" "unread r2 = unread r1" for f' scratch' pr' frag' r2
    using less.hyps [of r2] that dec by fastforce
  have last: "unread (r2\<lparr>lr_last_record_offset := l\<rparr>) = unread r2" for l and r2 :: log_reader by (simp add: unread_def)
  show ?case
    using less.prems p dec last ih
    by (subst (asm) ReadRecord_loop.simps) (simp add: Let_def split: if_splits; force)
qed

lemma SkipToInitialBlock_unread: "unread (snd (SkipToInitialBlock r)) \<le> unread r"
  by (auto simp: SkipToInitialBlock_def sf_Skip_def unread_def Let_def split: prod.splits list.splits)

lemma ReadRecord_unread: "ReadRecord r = (Some record, r') \<Longrightarrow> unread r' < unread r"
  using ReadRecord_loop_unread SkipToInitialBlock_unread [of r]
  by (fastforce simp: ReadRecord_def split: if_splits prod.splits)

text \<open>
  C22: The reader ends on every input. For any file, any initial offset, any state of the reader and an
  environment that may fail at any call, every record that it returns leaves strictly less to
  read, and calling it again and again reports the end after at most as many records as there are
  bytes that are not read yet.
\<close>

theorem log_reader_progress:
  "(\<forall>record r'. ReadRecord r = (Some record, r') \<longrightarrow> unread r' < unread r) \<and>
   (\<exists>recs r'. length recs \<le> unread r \<and> ReadRecords (length recs + 1) r = (map Some recs @ [None], r'))"
proof -
  have "\<exists>recs r'. length recs \<le> unread r \<and> ReadRecords (length recs + 1) r = (map Some recs @ [None], r')"
  proof (induction "unread r" arbitrary: r rule: less_induct)
    case less
    show ?case
    proof (cases "ReadRecord r")
      case (Pair x r1)
      show ?thesis
      proof (cases x)
        case None
        then show ?thesis using Pair by (intro exI [of _ "[]"]) simp
      next
        case (Some rec1)
        then have dec: "unread r1 < unread r" using ReadRecord_unread Pair by blast
        from less.hyps [OF this] obtain recs r' where
          "length recs \<le> unread r1" "ReadRecords (length recs + 1) r1 = (map Some recs @ [None], r')" by blast
        then show ?thesis using Pair Some dec by (intro exI [of _ "rec1 # recs"]) simp
      qed
    qed
  qed
  then show ?thesis using ReadRecord_unread by blast
qed

theorem log_reader_progress_witness:
  "\<exists>r r'. lr_initial_offset r = 5 \<and> unread r = 10 \<and> (\<exists>recs r'. length recs \<le> 10 \<and> ReadRecords (length recs + 1) r = (map Some recs @ [None], r'))"
proof -
  let ?r = "log_Reader \<lparr>sf_rest = replicate 10 7, sf_outcomes = [False]\<rparr> True True 5"
  have "unread ?r = 10" "lr_initial_offset ?r = 5" by (simp_all add: unread_def log_Reader_def)
  then show ?thesis using log_reader_progress [of ?r] by metis
qed

text \<open>The bytes that the reader looks at: its buffer, or the next block of the file.\<close>

definition current_block :: "log_reader \<Rightarrow> bytes" where
  "current_block r = (if length (lr_buffer r) < kHeaderSize then take kBlockSize (sf_rest (lr_file r)) else lr_buffer r)"

definition valid_header :: "bytes \<Rightarrow> bytes \<Rightarrow> bool" where
  "valid_header h p \<longleftrightarrow> length h = kHeaderSize \<and> unat (h ! 4) + 256 * unat (h ! 5) = length p \<and>
     (\<exists>c. DecodeFixed32 True h = Some c \<and> Unmask c = crc32c 0 (h ! 6 # p))"

lemma parse_record_valid:
  assumes "kHeaderSize \<le> length (lr_buffer r)" and "parse_record frag r = (t, p, r')"
    and "t \<noteq> kEof" "t \<noteq> kBadRecord" and "lr_checksum r"
  shows "\<exists>h. lr_buffer r = h @ p @ lr_buffer r' \<and> valid_header h p \<and> t = scast (h ! 6)"
proof -
  let ?b = "lr_buffer r" and ?h = "take kHeaderSize (lr_buffer r)"
  let ?len = "unat (?b ! 4) + 256 * unat (?b ! 5)"
  have f: "kHeaderSize + ?len \<le> length ?b" "p = take ?len (drop kHeaderSize ?b)"
      "lr_buffer r' = drop (kHeaderSize + ?len) ?b" "t = scast (?b ! 6)"
      "crc32c 0 (take (1 + ?len) (drop 6 ?b)) = Unmask (the (DecodeFixed32 True ?b))"
    using assms(2-5) by (auto simp: parse_record_def Let_def split: if_splits)
  have nth: "?h ! 4 = ?b ! 4" "?h ! 5 = ?b ! 5" "?h ! 6 = ?b ! 6" by (simp_all add: kHeaderSize_def)
  have split: "?b = ?h @ p @ lr_buffer r'" using f(1-3) by (metis append_take_drop_id drop_drop add.commute)
  have "drop 6 ?b = ?b ! 6 # drop kHeaderSize ?b"
    using assms(1) Cons_nth_drop_Suc [of 6 ?b] by (simp add: kHeaderSize_def)
  then have crc: "take (1 + ?len) (drop 6 ?b) = ?b ! 6 # p" using f(2) by simp
  obtain c where "DecodeFixed32 True ?b = Some c" "DecodeFixed32 True ?h = Some c"
    using assms(1) by (auto simp: DecodeFixed32_eq rds_def kHeaderSize_def min_def)
  moreover have "length p = ?len" "length ?h = kHeaderSize" using f(1,2) assms(1) by auto
  ultimately have "valid_header ?h p" unfolding valid_header_def nth using f(5) crc by simp
  with split f(4) nth(3) show ?thesis by metis
qed

text \<open>
  With checksum verification, every fragment the reader accepts is a part of the current block
  behind a header whose length and checksum are those of the fragment: nothing else of a damaged file is
  ever returned.
\<close>

theorem log_checksum_verified:
  assumes "ReadPhysicalRecord frag r = (t, p, r')" and "t \<noteq> kEof" and "t \<noteq> kBadRecord" and "lr_checksum r"
  shows "\<exists>h q. current_block r = h @ p @ q \<and> valid_header h p \<and> t = scast (h ! 6) \<and> lr_buffer r' = q"
proof -
  have "\<exists>r1. parse_record frag r1 = (t, p, r') \<and> lr_buffer r1 = current_block r \<and>
      lr_checksum r1 \<and> kHeaderSize \<le> length (lr_buffer r1)"
  proof (cases "length (lr_buffer r) < kHeaderSize")
    case False
    then show ?thesis
      using assms by (subst (asm) ReadPhysicalRecord.simps) (auto simp: current_block_def intro!: exI [of _ r])
  next
    case True
    then have e: "\<not> lr_eof r" using assms(1,2) by (subst (asm) ReadPhysicalRecord.simps) auto
    obtain ok bs f where rd: "sf_Read kBlockSize (lr_file r) = (ok, bs, f)" by (cases "sf_Read kBlockSize (lr_file r)") auto
    with assms(1,2) True e have ok by (subst (asm) ReadPhysicalRecord.simps) (auto simp: Let_def split: if_splits)
    with rd have bs: "bs = take kBlockSize (sf_rest (lr_file r))" by (auto simp: sf_Read_def split: if_splits)
    let ?r = "r\<lparr>lr_buffer := bs, lr_file := f, lr_end_of_buffer_offset := lr_end_of_buffer_offset r + of_nat (length bs),
        lr_eof := (length bs < kBlockSize \<or> lr_eof r)\<rparr>"
    have "ReadPhysicalRecord frag ?r = (t, p, r')"
      using assms(1) True e rd \<open>ok\<close> by (subst (asm) ReadPhysicalRecord.simps) (cases r, auto simp: Let_def split: if_splits)
    then have "parse_record frag ?r = (t, p, r') \<and> kHeaderSize \<le> length bs"
      using assms(2) by (subst (asm) ReadPhysicalRecord.simps)
        (auto simp: Let_def kBlockSize_def kHeaderSize_def split: if_splits)
    then show ?thesis using assms(4) bs True by (intro exI [of _ ?r]) (simp add: current_block_def)
  qed
  then show ?thesis using parse_record_valid assms(2,3) by metis
qed

theorem log_checksum_verified_witness:
  "\<exists>h q. current_block (log_Reader \<lparr>sf_rest = phys kFullType [7], sf_outcomes = []\<rparr> True True 0) = h @ [7] @ q \<and>
    valid_header h [7]"
proof -
  let ?r = "log_Reader \<lparr>sf_rest = phys kFullType [7], sf_outcomes = []\<rparr> True True 0"
  have "reading ?r kBlockSize (pad kBlockSize @ phys kFullType [7] @ [])"
    by (simp add: reading_def log_Reader_def pad_start_0)
  from ReadPhysicalRecord_phys [OF this, of "[]"] obtain r' where "ReadPhysicalRecord [] ?r = (kFullType, [7], r')"
    by (auto simp: pad_start_0 log_types_def) (auto simp: kBlockSize_def kHeaderSize_def)
  from log_checksum_verified [OF this] show ?thesis by (auto simp: log_consts log_Reader_def)
qed

end
