(* ===== verification/Ldb_Status.thy ===== *)
theory Ldb_Status
  imports Ldb_Coding Decimal
begin

text \<open>
  The results of LevelDB's operations: \<^verbatim>\<open>include/leveldb/status.h\<close> and \<^verbatim>\<open>util/status.cc\<close>. A status is
  its \<^verbatim>\<open>state_\<close> pointer: \<open>None\<close> for \<^verbatim>\<open>nullptr\<close>, which is success, or the bytes of the array (the length
  of the message in four bytes, the code in one, the message).
\<close>

type_synonym Status = "bytes option"

definition ascii :: "string \<Rightarrow> bytes" where
  "ascii s = map of_char s"

datatype Code = kOk | kNotFound | kCorruption | kNotSupported | kInvalidArgument | kIOError

fun code_byte :: "Code \<Rightarrow> u8" where
  "code_byte kOk = 0"
| "code_byte kNotFound = 1"
| "code_byte kCorruption = 2"
| "code_byte kNotSupported = 3"
| "code_byte kInvalidArgument = 4"
| "code_byte kIOError = 5"

text \<open>
  The lengths are cut to 32 bits, and so are the copies. The code asserts that \<open>code\<close> is not \<open>kOk\<close>; all
  callers pass an error code, and the properties are stated for those.
\<close>

definition mk_Status :: "Code \<Rightarrow> bytes \<Rightarrow> bytes \<Rightarrow> Status" where
  "mk_Status code msg msg2 =
     (let len1 = (of_nat (length msg) :: u32); len2 = (of_nat (length msg2) :: u32);
          size = len1 + (if len2 \<noteq> 0 then 2 + len2 else 0) in
      Some (word_le 4 size @ [code_byte code] @ take (unat len1) msg @
        (if len2 \<noteq> 0 then ascii '': '' @ take (unat len2) msg2 else [])))"

abbreviation OK :: Status where "OK \<equiv> None"

definition Corruption :: "string \<Rightarrow> Status" where
  "Corruption msg = mk_Status kCorruption (ascii msg) []"

definition Corruption2 :: "string \<Rightarrow> string \<Rightarrow> Status" where
  "Corruption2 msg msg2 = mk_Status kCorruption (ascii msg) (ascii msg2)"

definition Status_ok :: "Status \<Rightarrow> bool" where
  "Status_ok s \<longleftrightarrow> s = None"

definition Status_code :: "Status \<Rightarrow> u8 option" where
  "Status_code s = (case s of None \<Rightarrow> Some (code_byte kOk) | Some state \<Rightarrow> rd state 4)"

definition CopyState :: "bytes \<Rightarrow> bytes option" where
  "CopyState state = do { len \<leftarrow> DecodeFixed32 True state; rds state 0 (unat (len + 5)) }"

definition Status_copy :: "Status \<Rightarrow> Status option" where
  "Status_copy rhs = (case rhs of None \<Rightarrow> Some None | Some state \<Rightarrow> map_option Some (CopyState state))"

definition code_text :: "u8 \<Rightarrow> bytes" where
  "code_text c =
     (if c = 0 then ascii ''OK'' else if c = 1 then ascii ''NotFound: ''
      else if c = 2 then ascii ''Corruption: '' else if c = 3 then ascii ''Not implemented: ''
      else if c = 4 then ascii ''Invalid argument: '' else if c = 5 then ascii ''IO error: ''
      else ascii (''Unknown code('' @ print_u c @ ''): ''))"

definition Status_ToString :: "Status \<Rightarrow> bytes option" where
  "Status_ToString s =
     (case s of
        None \<Rightarrow> Some (ascii ''OK'')
      | Some state \<Rightarrow> do {
          c \<leftarrow> rd state 4;
          len \<leftarrow> DecodeFixed32 True state;
          msg \<leftarrow> rds state 5 (unat len);
          Some (code_text c @ msg)
        })"

section \<open>What a status holds\<close>

definition status_of :: "Code \<Rightarrow> bytes \<Rightarrow> Status" where
  "status_of code m = Some (word_le 4 (of_nat (length m) :: u32) @ [code_byte code] @ m)"

lemma status_of_simps:
  assumes "length m + 5 < 2 ^ 32"
  shows "Status_code (status_of code m) = Some (code_byte code)"
    "Status_ToString (status_of code m) = Some (code_text (code_byte code) @ m)"
    "Status_copy (status_of code m) = Some (status_of code m)"
proof -
  have "unat (of_nat (length m) + 5 :: u32) = length m + 5" using assms by (simp add: unat_word_ariths unat_of_nat)
  then show "Status_copy (status_of code m) = Some (status_of code m)"
    by (simp add: Status_copy_def status_of_def CopyState_def DecodeFixed_hit rds_def)
  show "Status_code (status_of code m) = Some (code_byte code)"
    by (simp add: Status_code_def status_of_def rd_def nth_append)
  show "Status_ToString (status_of code m) = Some (code_text (code_byte code) @ m)"
    using assms by (simp add: Status_ToString_def status_of_def DecodeFixed_hit rd_def rds_def nth_append unat_of_nat)
qed

lemma mk_Status_small:
  assumes "length msg + length msg2 + 2 < 2 ^ 32"
  shows "mk_Status code msg msg2 = status_of code (msg @ (if msg2 = [] then [] else ascii '': '' @ msg2))"
proof -
  have n: "unat (of_nat (length msg) :: u32) = length msg" "unat (of_nat (length msg2) :: u32) = length msg2"
    using assms by (simp_all add: unat_of_nat)
  then have "(of_nat (length msg2) :: u32) = 0 \<longleftrightarrow> msg2 = []" by (metis length_0_conv unat_0 unat_eq_zero)
  then show ?thesis
    unfolding mk_Status_def Let_def n by (simp add: status_of_def ascii_def ac_simps)
qed

lemma Corruption_code [simp]:
  "length msg + 5 < 2 ^ 32 \<Longrightarrow> Status_code (Corruption msg) = Some 2" "Corruption msg \<noteq> OK" "Corruption2 msg m2 \<noteq> OK"
  by (simp_all add: Corruption_def Corruption2_def mk_Status_small status_of_simps ascii_def)
    (simp_all add: mk_Status_def Let_def)

section \<open>Properties\<close>

text \<open>
  C23: An error status carries its code and its messages: it is never the success value, its text is the
  name of the code, the message and the second message behind a colon, and a copy has the same code
  and text.
\<close>

theorem Status_roundtrip:
  assumes "length msg + length msg2 + 7 < 2 ^ 32" and "s = mk_Status code msg msg2"
  shows "\<not> Status_ok s \<and> Status_code s = Some (code_byte code) \<and>
    Status_ToString s = Some (code_text (code_byte code) @ msg @ (if msg2 = [] then [] else ascii '': '' @ msg2)) \<and>
    Status_copy s = Some s"
proof -
  let ?m = "msg @ (if msg2 = [] then [] else ascii '': '' @ msg2)"
  have "s = status_of code ?m" using assms mk_Status_small [of msg msg2 code] by simp
  moreover have "length ?m + 5 < 2 ^ 32" using assms(1) by (auto simp: ascii_def)
  moreover have "\<not> Status_ok s" using assms(2) by (simp add: Status_ok_def mk_Status_def Let_def)
  ultimately show ?thesis using status_of_simps [of ?m code] by simp
qed

theorem Status_roundtrip_witness:
  "Status_ToString (mk_Status kCorruption (ascii ''a'') (ascii ''b'')) = Some (ascii ''Corruption: a: b'')"
  using Status_roundtrip [of "ascii ''a''" "ascii ''b''" _ kCorruption] by (simp add: ascii_def code_text_def)

end
