(* ===== verification/Ldb_Keys.thy ===== *)
theory Ldb_Keys
  imports Ldb_Coding "HOL-Library.List_Lexorder"
begin

text \<open>
  Keys and their order: \<^verbatim>\<open>Slice::compare\<close> of \<^verbatim>\<open>include/leveldb/slice.h\<close>, the byte-wise comparator of
  \<^verbatim>\<open>util/comparator.cc\<close>, and the internal keys (user key, sequence number, type) with their
  comparator of \<^verbatim>\<open>db/dbformat.h\<close> and \<^verbatim>\<open>db/dbformat.cc\<close>. The interface \<^verbatim>\<open>Comparator\<close> of
  \<^verbatim>\<open>include/leveldb/comparator.h\<close> is a locale; the internal comparator is proved to satisfy it for
  every user comparator that does.
\<close>

section \<open>Slices\<close>

text \<open>\<^verbatim>\<open>memcmp\<close> promises the sign of the first difference, taken on unsigned bytes.\<close>

fun memcmp :: "bytes \<Rightarrow> bytes \<Rightarrow> nat \<Rightarrow> int" where
  "memcmp (a # as) (b # bs) (Suc n) = (if a = b then memcmp as bs n else uint a - uint b)"
| "memcmp _ _ _ = 0"

definition Slice_compare :: "bytes \<Rightarrow> bytes \<Rightarrow> int" where
  "Slice_compare a b =
     (let min_len = (if length a < length b then length a else length b);
          r = memcmp a b min_len in
      if r = 0 then if length a < length b then -1 else if length a > length b then 1 else r else r)"

definition starts_with :: "bytes \<Rightarrow> bytes \<Rightarrow> bool" where
  "starts_with s x \<longleftrightarrow> length s \<ge> length x \<and> memcmp s x (length x) = 0"

section \<open>The byte-wise comparator\<close>

fun diff_index :: "bytes \<Rightarrow> bytes \<Rightarrow> nat" where
  "diff_index (a # start) (b # limit) = (if a = b then Suc (diff_index start limit) else 0)"
| "diff_index _ _ = 0"

definition FindShortestSeparator :: "bytes \<Rightarrow> bytes \<Rightarrow> bytes" where
  "FindShortestSeparator start limit =
     (let min_length = min (length start) (length limit); i = diff_index start limit in
      if i \<ge> min_length then start
      else let diff_byte = start ! i in
        if diff_byte < 0xff \<and> unat diff_byte + 1 < unat (limit ! i)
        then take (i + 1) (start[i := diff_byte + 1]) else start)"

fun short_successor_loop :: "bytes \<Rightarrow> nat \<Rightarrow> nat \<Rightarrow> bytes" where
  "short_successor_loop key i 0 = key"
| "short_successor_loop key i (Suc n) =
     (let byte = key ! i in
      if byte \<noteq> 0xff then take (i + 1) (key[i := byte + 1]) else short_successor_loop key (i + 1) n)"

definition FindShortSuccessor :: "bytes \<Rightarrow> bytes" where
  "FindShortSuccessor key = short_successor_loop key 0 (length key)"

section \<open>Internal keys\<close>

datatype ValueType = kTypeDeletion | kTypeValue

fun type_byte :: "ValueType \<Rightarrow> u64" where
  "type_byte kTypeDeletion = 0"
| "type_byte kTypeValue = 1"

definition kValueTypeForSeek :: ValueType where "kValueTypeForSeek = kTypeValue"
definition kMaxSequenceNumber :: u64 where "kMaxSequenceNumber = push_bit 56 1 - 1"

record ParsedInternalKey =
  user_key :: bytes
  sequence :: u64
  key_type :: ValueType

definition PackSequenceAndType :: "u64 \<Rightarrow> ValueType \<Rightarrow> u64" where
  "PackSequenceAndType seq t = push_bit 8 seq OR type_byte t"

definition AppendInternalKey :: "bytes \<Rightarrow> ParsedInternalKey \<Rightarrow> bytes" where
  "AppendInternalKey result k =
     PutFixed64 (result @ user_key k) (PackSequenceAndType (sequence k) (key_type k))"

text \<open>\<^verbatim>\<open>static_cast<ValueType>(c)\<close> of a byte above 1 is only stored when the parse fails.\<close>

definition ParseInternalKey :: "bytes \<Rightarrow> ParsedInternalKey option" where
  "ParseInternalKey internal_key =
     (let n = length internal_key in
      if n < 8 then None
      else do {
        num \<leftarrow> DecodeFixed64 True (drop (n - 8) internal_key);
        let c = (ucast (num AND 0xff) :: u8);
        if c \<le> 1 then Some \<lparr>user_key = take (n - 8) internal_key, sequence = drop_bit 8 num,
          key_type = (if c = 0 then kTypeDeletion else kTypeValue)\<rparr>
        else None
      })"

text \<open>
  The code asserts that there are at least 8 bytes. The model gives the empty key for a shorter one,
  and the properties ask for 8 bytes.
\<close>

definition ExtractUserKey :: "bytes \<Rightarrow> bytes" where
  "ExtractUserKey internal_key = take (length internal_key - 8) internal_key"

text \<open>The packed number at the end of an internal key; \<open>None\<close> if the key is shorter than 8 bytes.\<close>

definition key_num :: "bytes \<Rightarrow> u64 option" where
  "key_num k = (if length k < 8 then None else DecodeFixed64 True (drop (length k - 8) k))"

definition InternalKey_Compare :: "(bytes \<Rightarrow> bytes \<Rightarrow> int) \<Rightarrow> bytes \<Rightarrow> bytes \<Rightarrow> int" where
  "InternalKey_Compare user_compare akey bkey =
     (let r = user_compare (ExtractUserKey akey) (ExtractUserKey bkey) in
      if r = 0 then
        let anum = the (key_num akey); bnum = the (key_num bkey) in
        if anum > bnum then -1 else if anum < bnum then 1 else r
      else r)"

definition InternalKey_FindShortestSeparator ::
    "(bytes \<Rightarrow> bytes \<Rightarrow> int) \<Rightarrow> (bytes \<Rightarrow> bytes \<Rightarrow> bytes) \<Rightarrow> bytes \<Rightarrow> bytes \<Rightarrow> bytes" where
  "InternalKey_FindShortestSeparator user_compare user_separator start limit =
     (let user_start = ExtractUserKey start; user_limit = ExtractUserKey limit;
          tmp = user_separator user_start user_limit in
      if length tmp < length user_start \<and> user_compare user_start tmp < 0
      then PutFixed64 tmp (PackSequenceAndType kMaxSequenceNumber kValueTypeForSeek) else start)"

definition InternalKey_FindShortSuccessor ::
    "(bytes \<Rightarrow> bytes \<Rightarrow> int) \<Rightarrow> (bytes \<Rightarrow> bytes) \<Rightarrow> bytes \<Rightarrow> bytes" where
  "InternalKey_FindShortSuccessor user_compare user_successor key =
     (let user_key = ExtractUserKey key; tmp = user_successor user_key in
      if length tmp < length user_key \<and> user_compare user_key tmp < 0
      then PutFixed64 tmp (PackSequenceAndType kMaxSequenceNumber kValueTypeForSeek) else key)"

record LookupKey =
  lk_space :: bytes
  lk_kstart :: nat

definition mk_LookupKey :: "bytes \<Rightarrow> u64 \<Rightarrow> LookupKey" where
  "mk_LookupKey ukey s =
     (let usize = length ukey; prefix = EncodeVarint32 (of_nat (usize + 8)) in
      \<lparr>lk_space = prefix @ ukey @ EncodeFixed64 True (PackSequenceAndType s kValueTypeForSeek),
       lk_kstart = length prefix\<rparr>)"

definition memtable_key :: "LookupKey \<Rightarrow> bytes" where
  "memtable_key k = lk_space k"

definition internal_key :: "LookupKey \<Rightarrow> bytes" where
  "internal_key k = drop (lk_kstart k) (lk_space k)"

definition lookup_user_key :: "LookupKey \<Rightarrow> bytes" where
  "lookup_user_key k = take (length (lk_space k) - lk_kstart k - 8) (drop (lk_kstart k) (lk_space k))"

section \<open>Order of slices\<close>

lemma memcmp_self [simp]: "memcmp a a n = 0"
  by (induction a arbitrary: n) (case_tac n; simp)+

lemma uint_byte [simp]: "uint (a :: u8) = uint b \<longleftrightarrow> a = b" "uint a < uint b \<longleftrightarrow> a < b"
  by (simp_all add: word_uint_eq_iff word_less_def)

lemma Slice_compare_less: "Slice_compare a b < 0 \<longleftrightarrow> a < b"
proof (induction a arbitrary: b)
  case Nil
  then show ?case by (cases b) (simp_all add: Slice_compare_def)
next
  case (Cons x a)
  show ?case
  proof (cases b)
    case (Cons y b')
    have "Slice_compare (x # a) (x # b') = Slice_compare a b'" by (simp add: Slice_compare_def Let_def)
    moreover have "x \<noteq> y \<Longrightarrow> Slice_compare (x # a) (y # b') = uint x - uint y"
      by (auto simp: Slice_compare_def Let_def)
    ultimately show ?thesis using Cons.IH [of b'] Cons by (cases "x = y") auto
  qed (simp add: Slice_compare_def)
qed

lemma Slice_compare_sym: "Slice_compare a b = - Slice_compare b a"
proof (induction a arbitrary: b)
  case Nil
  then show ?case by (cases b) (simp_all add: Slice_compare_def)
next
  case (Cons x a)
  show ?case
  proof (cases b)
    case (Cons y b')
    have "Slice_compare (x # a) (x # b') = Slice_compare a b'"
      "Slice_compare (x # b') (x # a) = Slice_compare b' a" by (simp_all add: Slice_compare_def Let_def)
    moreover have "x \<noteq> y \<Longrightarrow> Slice_compare (x # a) (y # b') = uint x - uint y"
      "x \<noteq> y \<Longrightarrow> Slice_compare (y # b') (x # a) = uint y - uint x"
      by (auto simp: Slice_compare_def Let_def)
    ultimately show ?thesis using Cons.IH [of b'] Cons by (cases "x = y") auto
  qed (simp add: Slice_compare_def)
qed

lemma Slice_compare_greater: "Slice_compare a b > 0 \<longleftrightarrow> b < a"
  using Slice_compare_less [of b a] Slice_compare_sym [of a b] by simp

lemma Slice_compare_0: "Slice_compare a b = 0 \<longleftrightarrow> a = b"
  using Slice_compare_less [of a b] Slice_compare_greater [of a b] by (metis linorder_neqE less_irrefl)

lemma memcmp_prefix: "length s \<ge> length x \<Longrightarrow> memcmp s x (length x) = 0 \<longleftrightarrow> take (length x) s = x"
proof (induction x arbitrary: s)
  case (Cons b x)
  then obtain c s' where "s = c # s'" "length x \<le> length s'" by (cases s) auto
  with Cons.IH [of s'] show ?case by auto
qed simp

lemma starts_with_iff: "starts_with s x \<longleftrightarrow> (\<exists>rest. s = x @ rest)"
  by (auto simp: starts_with_def memcmp_prefix) (metis append_take_drop_id)

section \<open>The comparator interface\<close>

text \<open>
  What \<^verbatim>\<open>include/leveldb/comparator.h\<close> asks of a comparator, on the keys that satisfy \<open>ok\<close>: a total
  order, a separator that lies in \<open>[start, limit)\<close> and a successor that is not smaller. The law
  \<open>separator_same\<close> is not in that contract, but the internal comparator relies on it: it passes the
  user keys of two internal keys, which may be equal.
\<close>

locale comparator =
  fixes ok :: "bytes \<Rightarrow> bool" and compare :: "bytes \<Rightarrow> bytes \<Rightarrow> int"
    and separator :: "bytes \<Rightarrow> bytes \<Rightarrow> bytes" and successor :: "bytes \<Rightarrow> bytes"
  assumes compare_sym: "ok a \<Longrightarrow> ok b \<Longrightarrow> compare a b < 0 \<longleftrightarrow> compare b a > 0"
    and compare_0: "ok a \<Longrightarrow> ok b \<Longrightarrow> compare a b = 0 \<longleftrightarrow> a = b"
    and compare_trans: "ok a \<Longrightarrow> ok b \<Longrightarrow> ok c \<Longrightarrow> compare a b < 0 \<Longrightarrow> compare b c < 0 \<Longrightarrow> compare a c < 0"
    and separator: "ok a \<Longrightarrow> ok b \<Longrightarrow> compare a b < 0 \<Longrightarrow>
      ok (separator a b) \<and> compare a (separator a b) \<le> 0 \<and> compare (separator a b) b < 0"
    and separator_same: "ok a \<Longrightarrow> separator a a = a"
    and successor: "ok a \<Longrightarrow> ok (successor a) \<and> compare a (successor a) \<le> 0"
begin

lemma compare_self: "ok a \<Longrightarrow> compare a a = 0"
  by (simp add: compare_0)

lemma compare_total: "ok a \<Longrightarrow> ok b \<Longrightarrow> compare a b < 0 \<or> a = b \<or> compare b a < 0"
  using compare_sym [of a b] compare_sym [of b a] compare_0 [of a b] by linarith

lemma compare_less_le_trans:
  "ok a \<Longrightarrow> ok b \<Longrightarrow> ok c \<Longrightarrow> compare a b < 0 \<Longrightarrow> compare b c \<le> 0 \<Longrightarrow> compare a c < 0"
  using compare_trans [of a b c] compare_0 [of b c] by force

lemma compare_le_less_trans:
  "ok a \<Longrightarrow> ok b \<Longrightarrow> ok c \<Longrightarrow> compare a b \<le> 0 \<Longrightarrow> compare b c < 0 \<Longrightarrow> compare a c < 0"
  using compare_trans [of a b c] compare_0 [of a b] by force

lemma compare_not_less: "ok a \<Longrightarrow> ok b \<Longrightarrow> \<not> compare a b < 0 \<longleftrightarrow> compare b a \<le> 0"
  using compare_sym [of a b] by linarith

text \<open>Keys that strictly increase from each to the next strictly increase altogether.\<close>

lemma sorted_keys:
  assumes "list_all ok ks" and "\<forall>i. Suc i < length ks \<longrightarrow> compare (ks ! i) (ks ! Suc i) < 0"
  shows "i < j \<Longrightarrow> j < length ks \<Longrightarrow> compare (ks ! i) (ks ! j) < 0"
proof (induction j)
  case (Suc j)
  have ok: "ok (ks ! i)" "ok (ks ! j)" "ok (ks ! Suc j)"
    using assms(1) Suc.prems by (simp_all add: list_all_length)
  show ?case
  proof (cases "i = j")
    case False
    with Suc have "compare (ks ! i) (ks ! j) < 0" by simp
    with compare_trans [OF ok(1,2,3)] assms(2) Suc.prems show ?thesis by simp
  qed (use assms(2) Suc.prems in simp)
qed simp

end

section \<open>The byte-wise comparator satisfies it\<close>

lemma diff_index_split:
  "\<exists>pre s l. start = pre @ s \<and> limit = pre @ l \<and> diff_index start limit = length pre \<and>
     (s = [] \<or> l = [] \<or> hd s \<noteq> hd l)"
proof (induction start limit rule: diff_index.induct)
  case (1 a start b limit)
  show ?case
  proof (cases "a = b")
    case True
    with 1 obtain pre s l where "start = pre @ s" "limit = pre @ l" "diff_index start limit = length pre"
      "s = [] \<or> l = [] \<or> hd s \<noteq> hd l" by blast
    with True show ?thesis by (intro exI [of _ "a # pre"] exI [of _ s] exI [of _ l]) simp
  next
    case False
    then show ?thesis by (intro exI [of _ "[]"] exI [of _ "a # start"] exI [of _ "b # limit"]) simp
  qed
qed (auto intro: exI [of _ "[]"])

lemma less_prefix [simp]: "(pre :: bytes) @ a < pre @ b \<longleftrightarrow> a < b"
  by (induction pre) auto

lemma byte_succ: "(b :: u8) \<noteq> 0xff \<Longrightarrow> unat (b + 1) = unat b + 1 \<and> b < b + 1"
proof -
  assume "b \<noteq> 0xff"
  then have "unat b \<noteq> unat (0xff :: u8)" by (metis unsigned_word_eqI)
  then have "unat b + 1 < 256" using unat_byte_less [of b] by simp
  then have "unat (b + 1) = unat b + 1" by (simp add: unat_word_ariths)
  then show ?thesis by (simp add: word_less_nat_alt)
qed

lemma FindShortestSeparator_cases:
  obtains (same) "FindShortestSeparator start limit = start"
  | (shorter) pre a s b l where "start = pre @ a # s" "limit = pre @ b # l" "unat a + 1 < unat b" "a \<noteq> 0xff"
      "FindShortestSeparator start limit = pre @ [a + 1]"
proof -
  obtain pre s l where d: "start = pre @ s" "limit = pre @ l" "diff_index start limit = length pre"
    "s = [] \<or> l = [] \<or> hd s \<noteq> hd l" using diff_index_split by blast
  show ?thesis
  proof (cases "FindShortestSeparator start limit = start")
    case False
    then obtain a s' b l' where sl: "s = a # s'" "l = b # l'"
      using d by (cases s; cases l) (auto simp: FindShortestSeparator_def Let_def)
    have c: "a < 0xff \<and> unat a + 1 < unat b"
      using False d(1-3) sl by (auto simp: FindShortestSeparator_def Let_def nth_append split: if_splits)
    then have "FindShortestSeparator start limit = pre @ [a + 1]"
      using d(1-3) sl by (simp add: FindShortestSeparator_def Let_def nth_append list_update_append)
    with shorter d(1,2) sl c show ?thesis by auto
  qed (rule same)
qed

lemma FindShortestSeparator_between:
  assumes "start < limit"
  shows "start \<le> FindShortestSeparator start limit \<and> FindShortestSeparator start limit < limit"
  using assms
proof (cases rule: FindShortestSeparator_cases [of start limit])
  case (shorter pre a s b l)
  have "a < a + 1" using byte_succ [OF shorter(4)] by simp
  moreover have "a + 1 < b" using byte_succ [OF shorter(4)] shorter(3) by (simp add: word_less_nat_alt)
  ultimately show ?thesis unfolding shorter(5) unfolding shorter(1,2) by (simp add: less_imp_le)
qed simp

lemma FindShortestSeparator_same: "FindShortestSeparator a a = a"
  by (cases rule: FindShortestSeparator_cases [of a a]) auto

lemma short_successor_loop_ge:
  "i + n = length key \<Longrightarrow> key \<le> short_successor_loop key i n"
proof (induction key i n rule: short_successor_loop.induct)
  case (2 key i n)
  show ?case
  proof (cases "key ! i = 0xff")
    case False
    have i: "i < length key" using 2(2) by simp
    have "take (i + 1) (key[i := key ! i + 1]) = take i key @ [key ! i + 1]"
      using i by (simp add: take_Suc_conv_app_nth)
    moreover have "key = take i key @ key ! i # drop (i + 1) key" using i by (simp add: id_take_nth_drop)
    moreover have "key ! i < key ! i + 1" using byte_succ [OF False] by simp
    ultimately have "key < take (i + 1) (key[i := key ! i + 1])"
      by (metis less_prefix Cons_less_Cons)
    with False show ?thesis by (simp add: Let_def less_imp_le)
  qed (use 2 in \<open>simp add: Let_def\<close>)
qed simp

interpretation bytewise: comparator "\<lambda>_. True" Slice_compare FindShortestSeparator FindShortSuccessor
proof
  show "Slice_compare a b < 0 \<longleftrightarrow> Slice_compare b a > 0" for a b
    by (simp add: Slice_compare_less Slice_compare_greater)
  show "Slice_compare a b = 0 \<longleftrightarrow> a = b" for a b by (rule Slice_compare_0)
  show "Slice_compare a b < 0 \<Longrightarrow> Slice_compare b c < 0 \<Longrightarrow> Slice_compare a c < 0" for a b c
    by (simp add: Slice_compare_less)
  have le: "Slice_compare a b \<le> 0 \<longleftrightarrow> a \<le> b" for a b
    using Slice_compare_greater [of a b] by (simp add: not_less [symmetric])
  show "True \<and> Slice_compare a (FindShortestSeparator a b) \<le> 0 \<and> Slice_compare (FindShortestSeparator a b) b < 0"
    if "Slice_compare a b < 0" for a b
    using FindShortestSeparator_between [of a b] that by (simp add: le Slice_compare_less)
  show "True \<and> Slice_compare a (FindShortSuccessor a) \<le> 0" for a
    using short_successor_loop_ge [of 0 "length a" a] by (simp add: le FindShortSuccessor_def)
qed (rule FindShortestSeparator_same)

section \<open>Internal keys\<close>

lemma ExtractUserKey_append [simp]: "ExtractUserKey (u @ word_le 8 n) = u"
  by (simp add: ExtractUserKey_def)

lemma key_num_append [simp]: "key_num (u @ word_le 8 n) = Some n"
  using DecodeFixed_hit(2) [of True n "[]"] by (simp add: key_num_def)

lemma internal_key_split:
  assumes "8 \<le> length k"
  obtains n where "k = ExtractUserKey k @ word_le 8 n" "key_num k = Some n"
proof
  let ?n = "le_word (drop (length k - 8) k) :: u64"
  have "word_le 8 ?n = drop (length k - 8) k" using assms by (simp add: byte_simps)
  then show *: "k = ExtractUserKey k @ word_le 8 ?n" by (simp add: ExtractUserKey_def)
  show "key_num k = Some ?n" by (subst *) simp
qed

lemma InternalKey_Compare_append:
  "InternalKey_Compare cmp (u @ word_le 8 (n :: u64)) (v @ word_le 8 (m :: u64)) =
     (if cmp u v = 0 then if n > m then -1 else if n < m then 1 else 0 else cmp u v)"
  by (simp add: InternalKey_Compare_def Let_def)

abbreviation (input) internal_ok :: "(bytes \<Rightarrow> bool) \<Rightarrow> bytes \<Rightarrow> bool" where
  "internal_ok ok k \<equiv> 8 \<le> length k \<and> ok (ExtractUserKey k)"

lemma internal_keyE:
  assumes "internal_ok ok k"
  obtains u n where "k = u @ word_le 8 (n :: u64)" "ok u"
  using assms internal_key_split by metis

context comparator
begin

lemma compare_self_append: "ok u \<Longrightarrow> InternalKey_Compare compare (u @ word_le 8 (n :: u64)) (u @ word_le 8 n) = 0"
  by (simp add: InternalKey_Compare_append compare_self)

lemma internal_separator:
  assumes "internal_ok ok a" "internal_ok ok b" "InternalKey_Compare compare a b < 0"
  shows "internal_ok ok (InternalKey_FindShortestSeparator compare separator a b) \<and>
    InternalKey_Compare compare a (InternalKey_FindShortestSeparator compare separator a b) \<le> 0 \<and>
    InternalKey_Compare compare (InternalKey_FindShortestSeparator compare separator a b) b < 0"
proof -
  obtain u n where a: "a = u @ word_le 8 (n :: u64)" "ok u" using assms(1) by (rule internal_keyE)
  obtain v m where b: "b = v @ word_le 8 (m :: u64)" "ok v" using assms(2) by (rule internal_keyE)
  show ?thesis
  proof (cases "length (separator u v) < length u \<and> compare u (separator u v) < 0")
    case True
    have "u \<noteq> v" using True separator_same a(2) by auto
    then have "compare u v < 0"
      using assms(3) a b by (simp add: InternalKey_Compare_append compare_0 split: if_splits)
    with separator [OF a(2) b(2)] have t: "ok (separator u v)" "compare (separator u v) v < 0" by auto
    have "InternalKey_FindShortestSeparator compare separator a b =
        separator u v @ word_le 8 (PackSequenceAndType kMaxSequenceNumber kValueTypeForSeek)"
      using True a b by (simp add: InternalKey_FindShortestSeparator_def Let_def Put_append)
    then show ?thesis using t True a b by (simp add: InternalKey_Compare_append)
  next
    case False
    then have "InternalKey_FindShortestSeparator compare separator a b = a"
      using a b by (auto simp: InternalKey_FindShortestSeparator_def Let_def)
    then show ?thesis using assms a compare_self_append by simp
  qed
qed

lemma internal_successor:
  assumes "internal_ok ok a"
  shows "internal_ok ok (InternalKey_FindShortSuccessor compare successor a) \<and>
    InternalKey_Compare compare a (InternalKey_FindShortSuccessor compare successor a) \<le> 0"
proof -
  obtain u n where a: "a = u @ word_le 8 (n :: u64)" "ok u" using assms by (rule internal_keyE)
  show ?thesis
    using successor [OF a(2)] a compare_self_append
    by (auto simp: InternalKey_FindShortSuccessor_def Let_def Put_append InternalKey_Compare_append)
qed

lemma internal_sym:
  assumes "internal_ok ok a" "internal_ok ok b"
  shows "InternalKey_Compare compare a b < 0 \<longleftrightarrow> InternalKey_Compare compare b a > 0"
  using assms compare_sym compare_0
  by (elim internal_keyE) (auto simp: InternalKey_Compare_append)

lemma internal_0:
  assumes "internal_ok ok a" "internal_ok ok b"
  shows "InternalKey_Compare compare a b = 0 \<longleftrightarrow> a = b"
proof -
  obtain u n where a: "a = u @ word_le 8 (n :: u64)" "ok u" using assms(1) by (rule internal_keyE)
  obtain v m where b: "b = v @ word_le 8 (m :: u64)" "ok v" using assms(2) by (rule internal_keyE)
  have "word_le 8 n = word_le 8 m \<longleftrightarrow> n = m" by (metis le_word_word_le_64)
  then show ?thesis using a b compare_0 [OF a(2) b(2)] by (auto simp: InternalKey_Compare_append)
qed

lemma internal_trans:
  assumes "internal_ok ok a" "internal_ok ok b" "internal_ok ok c"
    and "InternalKey_Compare compare a b < 0" "InternalKey_Compare compare b c < 0"
  shows "InternalKey_Compare compare a c < 0"
proof -
  obtain u n where a: "a = u @ word_le 8 (n :: u64)" "ok u" using assms(1) by (rule internal_keyE)
  obtain v m where b: "b = v @ word_le 8 (m :: u64)" "ok v" using assms(2) by (rule internal_keyE)
  obtain w l where c: "c = w @ word_le 8 (l :: u64)" "ok w" using assms(3) by (rule internal_keyE)
  from assms(4) a b have ab: "u = v \<and> n > m \<or> compare u v < 0"
    by (auto simp: InternalKey_Compare_append compare_0 split: if_splits)
  from assms(5) b c have "v = w \<and> m > l \<or> compare v w < 0"
    by (auto simp: InternalKey_Compare_append compare_0 split: if_splits)
  with ab have "u = w \<and> n > l \<or> compare u w < 0"
    using compare_trans [OF a(2) b(2) c(2)] less_trans [of l m n] by blast
  then show ?thesis using a c compare_self by (auto simp: InternalKey_Compare_append)
qed

lemma internal_separator_same:
  "internal_ok ok a \<Longrightarrow> InternalKey_FindShortestSeparator compare separator a a = a"
  by (simp add: InternalKey_FindShortestSeparator_def Let_def separator_same)

theorem internal_comparator:
  "comparator (internal_ok ok) (InternalKey_Compare compare)
    (InternalKey_FindShortestSeparator compare separator) (InternalKey_FindShortSuccessor compare successor)"
  by unfold_locales
    (erule (1) internal_sym, erule (1) internal_0, erule (4) internal_trans, erule (2) internal_separator,
     erule internal_separator_same, erule internal_successor)

end

interpretation internal: comparator "internal_ok (\<lambda>_. True)" "InternalKey_Compare Slice_compare"
  "InternalKey_FindShortestSeparator Slice_compare FindShortestSeparator"
  "InternalKey_FindShortSuccessor Slice_compare FindShortSuccessor"
  by (rule bytewise.internal_comparator)

section \<open>Packing and parsing\<close>

lemma type_byte_less: "unat (type_byte t) < 256"
  by (cases t) auto

lemma pack_parts:
  assumes "seq \<le> kMaxSequenceNumber"
  shows "drop_bit 8 (PackSequenceAndType seq t) = seq" "PackSequenceAndType seq t AND 0xff = type_byte t"
    "unat (PackSequenceAndType seq t) = 256 * unat seq + unat (type_byte t)"
proof -
  have s: "unat seq < 2 ^ 56" using assms by (simp add: word_le_nat_alt kMaxSequenceNumber_def)
  have hi: "\<not> bit (type_byte t) k" if "8 \<le> k" for k
    using that by (cases t) (auto simp: bit_1_iff)
  have "push_bit 8 seq AND type_byte t = 0"
  proof (rule bit_eqI)
    show "bit (push_bit 8 seq AND type_byte t) k = bit (0 :: u64) k" for k
      using hi [of k] by (cases "8 \<le> k") (simp_all add: bit_simps)
  qed
  then have "PackSequenceAndType seq t = push_bit 8 seq + type_byte t"
    by (simp add: PackSequenceAndType_def disjunctive_add_eq_or)
  moreover have "unat (push_bit 8 seq) = 256 * unat seq"
    using s by (simp add: push_bit_eq_mult unat_word_ariths)
  ultimately show u: "unat (PackSequenceAndType seq t) = 256 * unat seq + unat (type_byte t)"
    using s type_byte_less [of t] by (simp add: unat_word_ariths)
  then show "drop_bit 8 (PackSequenceAndType seq t) = seq"
    using type_byte_less [of t] by (intro unsigned_word_eqI [where 'a = nat]) (simp add: unat_bits)
  show "PackSequenceAndType seq t AND 0xff = type_byte t"
    using u type_byte_less [of t]
    by (intro unsigned_word_eqI [where 'a = nat]) (simp add: and_FF unat_bits)
qed

lemma ParseInternalKey_Append:
  assumes "sequence k \<le> kMaxSequenceNumber"
  shows "ParseInternalKey (AppendInternalKey [] k) = Some k"
proof -
  let ?num = "PackSequenceAndType (sequence k) (key_type k)"
  have "DecodeFixed64 True (word_le 8 ?num) = Some ?num"
    using DecodeFixed_hit(2) [of True ?num "[]"] by simp
  then show ?thesis
    using pack_parts [OF assms, of "key_type k"]
    by (cases "key_type k") (simp_all add: ParseInternalKey_def AppendInternalKey_def Put_append Let_def)
qed

lemma pack_less:
  assumes "s \<le> kMaxSequenceNumber" "s' \<le> kMaxSequenceNumber"
  shows "PackSequenceAndType s t < PackSequenceAndType s' t' \<longleftrightarrow>
    s < s' \<or> s = s' \<and> type_byte t < type_byte t'"
  using pack_parts(3) [OF assms(1), of t] pack_parts(3) [OF assms(2), of t'] type_byte_less [of t] type_byte_less [of t']
  by (auto simp: word_less_nat_alt word_unat_eq_iff)

lemma Append_eq: "AppendInternalKey [] k = user_key k @ word_le 8 (PackSequenceAndType (sequence k) (key_type k))"
  by (simp add: AppendInternalKey_def Put_append)

lemma LookupKey_parts:
  "internal_key (mk_LookupKey u s) =
     AppendInternalKey [] \<lparr>user_key = u, sequence = s, key_type = kValueTypeForSeek\<rparr>"
  "lookup_user_key (mk_LookupKey u s) = u"
  "length (lk_space (mk_LookupKey u s)) \<le> length u + 13"
  using length_EncodeVarint32 [of "of_nat (length u + 8)"]
  by (simp_all add: mk_LookupKey_def internal_key_def lookup_user_key_def Append_eq Let_def)

lemma memtable_key_slice:
  "memtable_key (mk_LookupKey u s) = PutLengthPrefixedSlice [] (internal_key (mk_LookupKey u s))"
  by (simp add: LookupKey_parts(1) Append_eq PutLengthPrefixedSlice_def PutVarint32_def)
    (simp add: memtable_key_def mk_LookupKey_def Let_def add.commute)

lemma internal_less_iff:
  assumes "sequence a \<le> kMaxSequenceNumber" "sequence b \<le> kMaxSequenceNumber"
  shows "InternalKey_Compare Slice_compare (AppendInternalKey [] a) (AppendInternalKey [] b) < 0 \<longleftrightarrow>
    user_key a < user_key b \<or> user_key a = user_key b \<and>
      (sequence a > sequence b \<or> sequence a = sequence b \<and> type_byte (key_type a) > type_byte (key_type b))"
  using pack_less [OF assms, of "key_type a" "key_type b"] pack_less [OF assms(2,1), of "key_type b" "key_type a"]
  by (auto simp: Append_eq InternalKey_Compare_append Slice_compare_less Slice_compare_0)

section \<open>Properties\<close>

text \<open>
  C20: The order of stored keys is that of user keys as byte strings, then of falling sequence
  numbers, then of falling types; and the key that a lookup of a user key at a sequence number seeks to
  lies at or before exactly the entries of that user key that are not newer, so that the first
  entry behind it is the newest one the lookup may see.
\<close>

theorem internal_key_order:
  assumes "sequence a \<le> kMaxSequenceNumber" and "sequence b \<le> kMaxSequenceNumber" and "s \<le> kMaxSequenceNumber"
  shows "(InternalKey_Compare Slice_compare (AppendInternalKey [] a) (AppendInternalKey [] b) < 0 \<longleftrightarrow>
      user_key a < user_key b \<or> user_key a = user_key b \<and>
        (sequence a > sequence b \<or> sequence a = sequence b \<and> type_byte (key_type a) > type_byte (key_type b))) \<and>
    (InternalKey_Compare Slice_compare (AppendInternalKey [] a) (internal_key (mk_LookupKey (user_key a) s)) \<ge> 0 \<longleftrightarrow>
      sequence a \<le> s)"
proof
  let ?l = "\<lparr>user_key = user_key a, sequence = s, key_type = kValueTypeForSeek\<rparr>"
  have t: "\<not> type_byte kTypeValue < type_byte (key_type a)" by (cases "key_type a") auto
  have "InternalKey_Compare Slice_compare (AppendInternalKey [] a) (AppendInternalKey [] ?l) < 0 \<longleftrightarrow> sequence a > s"
    using internal_less_iff [OF assms(1), of ?l] assms(3) t by (auto simp: kValueTypeForSeek_def)
  then show "InternalKey_Compare Slice_compare (AppendInternalKey [] a) (internal_key (mk_LookupKey (user_key a) s)) \<ge> 0 \<longleftrightarrow>
      sequence a \<le> s"
    by (simp add: LookupKey_parts not_less [symmetric])
qed (rule internal_less_iff [OF assms(1,2)])

theorem internal_key_order_witness:
  "InternalKey_Compare Slice_compare
      (AppendInternalKey [] \<lparr>user_key = [97], sequence = 9, key_type = kTypeValue\<rparr>)
      (AppendInternalKey [] \<lparr>user_key = [97], sequence = 4, key_type = kTypeDeletion\<rparr>) < 0 \<and>
   InternalKey_Compare Slice_compare
      (AppendInternalKey [] \<lparr>user_key = [97], sequence = 9, key_type = kTypeValue\<rparr>)
      (internal_key (mk_LookupKey [97] 12)) \<ge> 0"
  using internal_key_order [of "\<lparr>user_key = [97], sequence = 9, key_type = kTypeValue\<rparr>"
      "\<lparr>user_key = [97], sequence = 4, key_type = kTypeDeletion\<rparr>" 12]
  by (simp add: kMaxSequenceNumber_def)

text \<open>
  For stored keys \<open>a < b\<close> the separator that the index of a table stores for the gap between
  two blocks lies in \<open>[a, b)\<close>, and the successor stored behind the last block is at least \<open>a\<close>;
  both are keys with a user part. Parsing inverts appending, and fails exactly on keys of fewer
  than 8 bytes and on unknown types.
\<close>

theorem index_separators:
  assumes "8 \<le> length a" and "8 \<le> length b" and "InternalKey_Compare Slice_compare a b < 0"
    and "sequence k \<le> kMaxSequenceNumber"
  shows "let s = InternalKey_FindShortestSeparator Slice_compare FindShortestSeparator a b;
      t = InternalKey_FindShortSuccessor Slice_compare FindShortSuccessor a in
    8 \<le> length s \<and> InternalKey_Compare Slice_compare a s \<le> 0 \<and> InternalKey_Compare Slice_compare s b < 0 \<and>
    8 \<le> length t \<and> InternalKey_Compare Slice_compare a t \<le> 0 \<and>
    ParseInternalKey (AppendInternalKey [] k) = Some k \<and>
    (ParseInternalKey a = None \<longleftrightarrow> length a < 8 \<or> 1 < a ! (length a - 8))"
proof -
  have "ParseInternalKey a = None \<longleftrightarrow> 1 < a ! (length a - 8)"
  proof -
    obtain n where n: "a = ExtractUserKey a @ word_le 8 n" "key_num a = Some n"
      using internal_key_split [OF assms(1)] by blast
    have "length (ExtractUserKey a) = length a - 8" by (simp add: ExtractUserKey_def)
    then have "a ! (length a - 8) = word_le 8 n ! 0" by (subst n(1)) (simp add: nth_append)
    also have "\<dots> = ucast (n AND 0xff)"
      by (simp add: word_le_8 and_FF) (rule unsigned_word_eqI [where 'a = nat], simp add: unat_bits)
    finally show ?thesis
      using n(2) assms(1) by (auto simp: ParseInternalKey_def key_num_def Let_def not_less split: if_splits)
  qed
  then show ?thesis
    using internal.separator [of a b] internal.successor [of a] ParseInternalKey_Append [OF assms(4)] assms(1-3)
    by (auto simp: Let_def)
qed

theorem index_separators_witness:
  "let s = InternalKey_FindShortestSeparator Slice_compare FindShortestSeparator
        ([97, 98, 99] @ word_le 8 (PackSequenceAndType 1 kTypeValue)) ([97, 102] @ word_le 8 (PackSequenceAndType 2 kTypeValue)) in
    InternalKey_Compare Slice_compare ([97, 98, 99] @ word_le 8 (PackSequenceAndType 1 kTypeValue)) s \<le> 0 \<and>
    InternalKey_Compare Slice_compare s ([97, 102] @ word_le 8 (PackSequenceAndType 2 kTypeValue)) < 0"
  using index_separators [of "[97, 98, 99] @ word_le 8 (PackSequenceAndType 1 kTypeValue)"
      "[97, 102] @ word_le 8 (PackSequenceAndType 2 kTypeValue)" "\<lparr>user_key = [], sequence = 0, key_type = kTypeValue\<rparr>"]
  by (simp add: Let_def InternalKey_Compare_append Slice_compare_less Slice_compare_0 del: append.simps)

end
