(* ===== verification/Ldb_Batch.thy ===== *)
theory Ldb_Batch
  imports Ldb_Status Ldb_Keys
begin

text \<open>
  Write batches (\<^verbatim>\<open>db/write_batch.cc\<close>, \<^verbatim>\<open>db/write_batch_internal.h\<close>): the unit of writing that the log
  stores. A batch is its \<^verbatim>\<open>rep_\<close>. The handler of \<^verbatim>\<open>Iterate\<close> is a pair of functions on a state,
  and the memtable of \<^verbatim>\<open>InsertInto\<close> is a parameter with its \<^verbatim>\<open>Add\<close>.
\<close>

section \<open>The code\<close>

definition kHeader :: nat where "kHeader = 12"

definition Batch_Clear :: bytes where
  "Batch_Clear = replicate kHeader 0"

definition Count :: "bytes \<Rightarrow> u32 option" where
  "Count rep = DecodeFixed32 True (drop 8 rep)"

definition SetCount :: "bytes \<Rightarrow> u32 \<Rightarrow> bytes" where
  "SetCount rep n = take 8 rep @ EncodeFixed32 True n @ drop 12 rep"

definition Sequence :: "bytes \<Rightarrow> u64 option" where
  "Sequence rep = DecodeFixed64 True rep"

definition SetSequence :: "bytes \<Rightarrow> u64 \<Rightarrow> bytes" where
  "SetSequence rep seq = EncodeFixed64 True seq @ drop 8 rep"

definition type_tag :: "ValueType \<Rightarrow> u8" where
  "type_tag t = ucast (type_byte t)"

definition Batch_Put :: "bytes \<Rightarrow> bytes \<Rightarrow> bytes \<Rightarrow> bytes option" where
  "Batch_Put rep key val = do {
     n \<leftarrow> Count rep;
     let rep = SetCount rep (n + 1);
     let rep = rep @ [type_tag kTypeValue];
     let rep = PutLengthPrefixedSlice rep key;
     Some (PutLengthPrefixedSlice rep val)
   }"

definition Batch_Delete :: "bytes \<Rightarrow> bytes \<Rightarrow> bytes option" where
  "Batch_Delete rep key = do {
     n \<leftarrow> Count rep;
     let rep = SetCount rep (n + 1);
     let rep = rep @ [type_tag kTypeDeletion];
     Some (PutLengthPrefixedSlice rep key)
   }"

definition Batch_Append :: "bytes \<Rightarrow> bytes \<Rightarrow> bytes option" where
  "Batch_Append dst src = do {
     n \<leftarrow> Count dst;
     m \<leftarrow> Count src;
     let dst = SetCount dst (n + m);
     Some (dst @ drop kHeader src)
   }"

lemma snd_GetSlice_less: "GetLengthPrefixedSlice p = Some (k, q) \<Longrightarrow> length q < length p"
  using slice_suffix_less(3) by blast

text \<open>The loop of \<^verbatim>\<open>Iterate\<close>: the status, the number of records found and the handler's state.\<close>

function Iterate_loop ::
    "('h \<Rightarrow> bytes \<Rightarrow> bytes \<Rightarrow> 'h) \<Rightarrow> ('h \<Rightarrow> bytes \<Rightarrow> 'h) \<Rightarrow> bytes \<Rightarrow> nat \<Rightarrow> 'h \<Rightarrow> Status \<times> nat \<times> 'h" where
  "Iterate_loop put del input found h =
     (case input of
        [] \<Rightarrow> (OK, found, h)
      | tag # input \<Rightarrow>
          if tag = type_tag kTypeValue then
            (case GetLengthPrefixedSlice input of
               Some (key, input) \<Rightarrow>
                 (case GetLengthPrefixedSlice input of
                    Some (val, input) \<Rightarrow> Iterate_loop put del input (found + 1) (put h key val)
                  | None \<Rightarrow> (Corruption ''bad WriteBatch Put'', found + 1, h))
             | None \<Rightarrow> (Corruption ''bad WriteBatch Put'', found + 1, h))
          else if tag = type_tag kTypeDeletion then
            (case GetLengthPrefixedSlice input of
               Some (key, input) \<Rightarrow> Iterate_loop put del input (found + 1) (del h key)
             | None \<Rightarrow> (Corruption ''bad WriteBatch Delete'', found + 1, h))
          else (Corruption ''unknown WriteBatch tag'', found + 1, h))"
  by pat_completeness auto

termination
  by (relation "measure (\<lambda>(_, _, input, _, _). length input)") (auto dest!: snd_GetSlice_less)

declare Iterate_loop.simps [simp del]

definition Iterate :: "('h \<Rightarrow> bytes \<Rightarrow> bytes \<Rightarrow> 'h) \<Rightarrow> ('h \<Rightarrow> bytes \<Rightarrow> 'h) \<Rightarrow> bytes \<Rightarrow> 'h \<Rightarrow> Status \<times> 'h" where
  "Iterate put del rep h =
     (if length rep < kHeader then (Corruption ''malformed WriteBatch (too small)'', h)
      else case Iterate_loop put del (drop kHeader rep) 0 h of
        (s, found, h) \<Rightarrow>
          if \<not> Status_ok s then (s, h)
          else if Count rep \<noteq> Some (of_nat found) then (Corruption ''WriteBatch has wrong count'', h)
          else (OK, h))"

definition InsertInto :: "(u64 \<Rightarrow> ValueType \<Rightarrow> bytes \<Rightarrow> bytes \<Rightarrow> 'm \<Rightarrow> 'm) \<Rightarrow> bytes \<Rightarrow> 'm \<Rightarrow> (Status \<times> 'm) option" where
  "InsertInto add rep mem = do {
     seq \<leftarrow> Sequence rep;
     let put = (\<lambda>(seq, mem) key val. (seq + 1, add seq kTypeValue key val mem));
     let del = (\<lambda>(seq, mem) key. (seq + 1, add seq kTypeDeletion key [] mem));
     let (s, (seq, mem)) = Iterate put del rep (seq, mem);
     Some (s, mem)
   }"

section \<open>The abstract batch: a list of operations\<close>

datatype batch_op = Op_Put bytes bytes | Op_Delete bytes

fun op_bytes :: "batch_op \<Rightarrow> bytes" where
  "op_bytes (Op_Put k v) = [type_tag kTypeValue] @ PutLengthPrefixedSlice [] k @ PutLengthPrefixedSlice [] v"
| "op_bytes (Op_Delete k) = [type_tag kTypeDeletion] @ PutLengthPrefixedSlice [] k"

fun op_ok :: "batch_op \<Rightarrow> bool" where
  "op_ok (Op_Put k v) \<longleftrightarrow> length k < 2 ^ 32 \<and> length v < 2 ^ 32"
| "op_ok (Op_Delete k) \<longleftrightarrow> length k < 2 ^ 32"

fun op_apply :: "('h \<Rightarrow> bytes \<Rightarrow> bytes \<Rightarrow> 'h) \<Rightarrow> ('h \<Rightarrow> bytes \<Rightarrow> 'h) \<Rightarrow> 'h \<Rightarrow> batch_op \<Rightarrow> 'h" where
  "op_apply put del h (Op_Put k v) = put h k v"
| "op_apply put del h (Op_Delete k) = del h k"

definition represents :: "bytes \<Rightarrow> u64 \<Rightarrow> batch_op list \<Rightarrow> bool" where
  "represents rep seq ops \<longleftrightarrow>
     rep = word_le 8 seq @ word_le 4 (of_nat (length ops) :: u32) @ concat (map op_bytes ops) \<and> list_all op_ok ops"

lemma tags: "type_tag kTypeValue = 1" "type_tag kTypeDeletion = 0"
  by (simp_all add: type_tag_def)

lemma represents_parts:
  assumes "represents rep seq ops"
  shows "Count rep = Some (of_nat (length ops))" "Sequence rep = Some seq"
    "SetCount rep n = word_le 8 seq @ word_le 4 n @ concat (map op_bytes ops)"
    "drop kHeader rep = concat (map op_bytes ops)" "kHeader \<le> length rep"
  using assms
  by (simp_all add: represents_def Count_def Sequence_def SetCount_def kHeader_def mem_simps)

lemma Clear_represents: "represents Batch_Clear 0 []"
  by (simp add: represents_def Batch_Clear_def kHeader_def word_le_8 word_le_4) (simp add: eval_nat_numeral)

lemma Put_represents:
  assumes "represents rep seq ops" and "op_ok (Op_Put k v)"
  shows "\<exists>rep'. Batch_Put rep k v = Some rep' \<and> represents rep' seq (ops @ [Op_Put k v])"
  using assms(2) represents_parts [OF assms(1)] assms(1)
  by (simp add: Batch_Put_def represents_def Put_append ac_simps del: append.simps)

lemma Delete_represents:
  assumes "represents rep seq ops" and "op_ok (Op_Delete k)"
  shows "\<exists>rep'. Batch_Delete rep k = Some rep' \<and> represents rep' seq (ops @ [Op_Delete k])"
  using assms(2) represents_parts [OF assms(1)] assms(1)
  by (simp add: Batch_Delete_def represents_def Put_append ac_simps del: append.simps)

lemma Append_represents:
  assumes "represents dst seq ops" and "represents src seq' ops'"
  shows "\<exists>rep'. Batch_Append dst src = Some rep' \<and> represents rep' seq (ops @ ops')"
  using represents_parts [OF assms(1)] represents_parts [OF assms(2)] assms
  by (simp add: Batch_Append_def represents_def)

lemma SetSequence_represents: "represents rep seq ops \<Longrightarrow> represents (SetSequence rep seq') seq' ops"
  by (simp add: represents_def SetSequence_def)

lemma Iterate_loop_ops:
  "list_all op_ok ops \<Longrightarrow>
    Iterate_loop put del (concat (map op_bytes ops)) found h = (OK, found + length ops, foldl (op_apply put del) h ops)"
proof (induction ops arbitrary: found h)
  case Nil
  then show ?case by (subst Iterate_loop.simps) simp
next
  case (Cons op ops)
  then show ?case
    by (cases op) (subst Iterate_loop.simps, simp add: tags lps.get_put)+
qed

lemma Iterate_represents:
  assumes "represents rep seq ops"
  shows "Iterate put del rep h = (OK, foldl (op_apply put del) h ops)"
proof -
  have "list_all op_ok ops" using assms by (simp add: represents_def)
  then show ?thesis
    using represents_parts [OF assms] by (simp add: Iterate_def Iterate_loop_ops Status_ok_def)
qed

fun inserted :: "(u64 \<Rightarrow> ValueType \<Rightarrow> bytes \<Rightarrow> bytes \<Rightarrow> 'm \<Rightarrow> 'm) \<Rightarrow> u64 \<Rightarrow> batch_op list \<Rightarrow> 'm \<Rightarrow> 'm" where
  "inserted add seq [] mem = mem"
| "inserted add seq (Op_Put k v # ops) mem = inserted add (seq + 1) ops (add seq kTypeValue k v mem)"
| "inserted add seq (Op_Delete k # ops) mem = inserted add (seq + 1) ops (add seq kTypeDeletion k [] mem)"

lemma foldl_inserted:
  "snd (foldl (op_apply (\<lambda>(seq, mem) key val. (seq + 1, add seq kTypeValue key val mem))
      (\<lambda>(seq, mem) key. (seq + 1, add seq kTypeDeletion key [] mem))) (seq, mem) ops) = inserted add seq ops mem"
  by (induction add seq ops mem rule: inserted.induct) simp_all

lemma InsertInto_represents:
  assumes "represents rep seq ops"
  shows "InsertInto add rep mem = Some (OK, inserted add seq ops mem)"
  using represents_parts(2) [OF assms] foldl_inserted [of add seq mem ops]
  by (auto simp: InsertInto_def Let_def Iterate_represents [OF assms] split: prod.splits)

fun batch_run :: "bytes \<Rightarrow> batch_op list \<Rightarrow> bytes option" where
  "batch_run rep [] = Some rep"
| "batch_run rep (Op_Put k v # ops) = Batch_Put rep k v \<bind> (\<lambda>rep. batch_run rep ops)"
| "batch_run rep (Op_Delete k # ops) = Batch_Delete rep k \<bind> (\<lambda>rep. batch_run rep ops)"

lemma batch_run_represents:
  "represents rep seq done \<Longrightarrow> list_all op_ok ops \<Longrightarrow> \<exists>rep'. batch_run rep ops = Some rep' \<and> represents rep' seq (done @ ops)"
proof (induction ops arbitrary: rep "done")
  case (Cons op ops)
  show ?case
  proof (cases op)
    case (Op_Put k v)
    with Cons Put_represents [of rep seq "done" k v] show ?thesis by fastforce
  next
    case (Op_Delete k)
    with Cons Delete_represents [of rep seq "done" k] show ?thesis by fastforce
  qed
qed simp

section \<open>Properties\<close>

text \<open>
  C24: A batch refines the list of its operations: building batches with \<^verbatim>\<open>Put\<close> and \<^verbatim>\<open>Delete\<close> from
  empty ones and appending one to the other, then inserting the result, applies exactly the operations
  in order, with consecutive sequence numbers from the one that was set, and reports success.
\<close>

theorem WriteBatch_refines:
  assumes "list_all op_ok ops" and "list_all op_ok ops'"
  shows "\<exists>rep rep' all. batch_run Batch_Clear ops = Some rep \<and> batch_run Batch_Clear ops' = Some rep' \<and>
    Batch_Append rep rep' = Some all \<and>
    Count all = Some (of_nat (length ops + length ops')) \<and>
    InsertInto add (SetSequence all seq) mem = Some (OK, inserted add seq (ops @ ops') mem)"
proof -
  obtain rep rep' where r: "batch_run Batch_Clear ops = Some rep" "represents rep 0 ops"
    "batch_run Batch_Clear ops' = Some rep'" "represents rep' 0 ops'"
    using batch_run_represents [OF Clear_represents assms(1)] batch_run_represents [OF Clear_represents assms(2)] by auto
  obtain all where "Batch_Append rep rep' = Some all" "represents all 0 (ops @ ops')"
    using Append_represents [OF r(2,4)] by blast
  with r show ?thesis
    using InsertInto_represents [OF SetSequence_represents] represents_parts(1) [of all 0 "ops @ ops'"] by fastforce
qed

theorem WriteBatch_refines_witness:
  "\<exists>rep rep' all. batch_run Batch_Clear [Op_Put [107] [1]] = Some rep \<and> batch_run Batch_Clear [Op_Delete [107]] = Some rep' \<and>
    Batch_Append rep rep' = Some all \<and>
    InsertInto (\<lambda>s t k v m. (s, t, k, v) # m) (SetSequence all 7) [] =
      Some (OK, [(8, kTypeDeletion, [107], []), (7, kTypeValue, [107], [1])])"
proof -
  have eq: "inserted (\<lambda>s t k v m. (s, t, k, v) # m) 7 ([Op_Put [107] [1]] @ [Op_Delete [107]]) [] =
      [(8, kTypeDeletion, [107], []), (7, kTypeValue, [107], [1])]" by simp
  have "list_all op_ok [Op_Put [107] [1]]" "list_all op_ok [Op_Delete [107]]" by simp_all
  from WriteBatch_refines [OF this, of "\<lambda>s t k v m. (s, t, k, v) # m" 7 "[]", unfolded eq] show ?thesis by blast
qed

text \<open>
  A batch whose stored count does not agree with its records is reported as corrupt, but only after
  every record has been applied to the handler; a batch shorter than its header is refused with
  nothing applied.
\<close>

theorem WriteBatch_wrong_count:
  assumes "list_all op_ok ops" and "n \<noteq> (of_nat (length ops) :: u32)" and "length short < kHeader"
  shows "Iterate put del (word_le 8 (seq :: u64) @ word_le 4 n @ concat (map op_bytes ops)) h =
      (Corruption ''WriteBatch has wrong count'', foldl (op_apply put del) h ops) \<and>
    Iterate put del short h = (Corruption ''malformed WriteBatch (too small)'', h)"
  using assms by (simp add: Iterate_def kHeader_def Count_def mem_simps Iterate_loop_ops Status_ok_def)

theorem WriteBatch_wrong_count_witness:
  "Iterate (\<lambda>h k v. (k, v) # h) (\<lambda>h k. h) (word_le 8 (0 :: u64) @ word_le 4 (5 :: u32) @ concat (map op_bytes [Op_Put [107] [1]])) [] =
      (Corruption ''WriteBatch has wrong count'', [([107], [1])])"
  using WriteBatch_wrong_count [of "[Op_Put [107] [1]]" 5 "[]" "\<lambda>h k v. (k, v) # h" "\<lambda>h k. h" 0 "[]"]
  by (simp add: kHeader_def)

end
