(* ===== verification/Ldb_Names.thy ===== *)
theory Ldb_Names
  imports Ldb_Status Decimal
begin

text \<open>
  Numbers in text and the names of a database's files: \<^verbatim>\<open>util/logging.cc\<close> and \<^verbatim>\<open>db/filename.cc\<close>.
\<close>

section \<open>The code: logging\<close>

definition AppendNumberTo :: "string \<Rightarrow> u64 \<Rightarrow> string" where
  "AppendNumberTo str num = str @ print_u num"

definition NumberToString :: "u64 \<Rightarrow> string" where
  "NumberToString num = AppendNumberTo [] num"

definition hex_digit :: "nat \<Rightarrow> char" where
  "hex_digit n = ''0123456789abcdef'' ! n"

text \<open>A character is signed, so that bytes from 0x80 on are below the space and are escaped.\<close>

fun AppendEscapedStringTo :: "string \<Rightarrow> bytes \<Rightarrow> string" where
  "AppendEscapedStringTo str [] = str"
| "AppendEscapedStringTo str (c # cs) =
     (if 32 \<le> sint c \<and> sint c \<le> 126
      then AppendEscapedStringTo (str @ [char_of (unat c)]) cs
      else AppendEscapedStringTo
        (str @ [CHR 0x5C, CHR ''x'', hex_digit (unat c div 16), hex_digit (unat c mod 16)]) cs)"

definition EscapeString :: "bytes \<Rightarrow> string" where
  "EscapeString s = AppendEscapedStringTo [] s"

definition kMaxUint64 :: u64 where "kMaxUint64 = - 1"

text \<open>The loop over the digits: \<open>None\<close> for the overflow return, else the value and what is left.\<close>

fun consume_loop :: "string \<Rightarrow> u64 \<Rightarrow> (u64 \<times> string) option" where
  "consume_loop [] v = Some (v, [])"
| "consume_loop (ch # cs) v =
     (let c = (of_char ch :: nat) in
      if c < 48 \<or> c > 57 then Some (v, ch # cs)
      else if v > kMaxUint64 div 10 \<or> v = kMaxUint64 div 10 \<and> c > 48 + unat (kMaxUint64 mod 10) then None
      else consume_loop cs (v * 10 + of_nat (c - 48)))"

text \<open>The result, and what the calls store: the number and the rest of the slice.\<close>

definition ConsumeDecimalNumber :: "string \<Rightarrow> (bool \<times> u64 \<times> string) option" where
  "ConsumeDecimalNumber inp =
     (case consume_loop inp 0 of
        None \<Rightarrow> None
      | Some (v, rest) \<Rightarrow> Some (length rest < length inp, v, rest))"

section \<open>The code: file names\<close>

datatype FileType = kLogFile | kDBLockFile | kTableFile | kDescriptorFile | kCurrentFile | kTempFile | kInfoLogFile

definition print_06 :: "u64 \<Rightarrow> string" where
  "print_06 n = replicate (6 - length (print_u n)) (CHR ''0'') @ print_u n"

definition MakeFileName :: "string \<Rightarrow> u64 \<Rightarrow> string \<Rightarrow> string" where
  "MakeFileName dbname num suffix = dbname @ ''/'' @ print_06 num @ ''.'' @ suffix"

definition LogFileName :: "string \<Rightarrow> u64 \<Rightarrow> string" where
  "LogFileName dbname num = MakeFileName dbname num ''log''"

definition TableFileName :: "string \<Rightarrow> u64 \<Rightarrow> string" where
  "TableFileName dbname num = MakeFileName dbname num ''ldb''"

definition SSTTableFileName :: "string \<Rightarrow> u64 \<Rightarrow> string" where
  "SSTTableFileName dbname num = MakeFileName dbname num ''sst''"

definition DescriptorFileName :: "string \<Rightarrow> u64 \<Rightarrow> string" where
  "DescriptorFileName dbname num = dbname @ ''/MANIFEST-'' @ print_06 num"

definition CurrentFileName :: "string \<Rightarrow> string" where
  "CurrentFileName dbname = dbname @ ''/CURRENT''"

definition LockFileName :: "string \<Rightarrow> string" where
  "LockFileName dbname = dbname @ ''/LOCK''"

definition TempFileName :: "string \<Rightarrow> u64 \<Rightarrow> string" where
  "TempFileName dbname num = MakeFileName dbname num ''dbtmp''"

definition InfoLogFileName :: "string \<Rightarrow> string" where
  "InfoLogFileName dbname = dbname @ ''/LOG''"

definition OldInfoLogFileName :: "string \<Rightarrow> string" where
  "OldInfoLogFileName dbname = dbname @ ''/LOG.old''"

definition consume_number :: "string \<Rightarrow> (u64 \<times> string) option" where
  "consume_number rest =
     (case ConsumeDecimalNumber rest of Some (True, num, rest) \<Rightarrow> Some (num, rest) | _ \<Rightarrow> None)"

definition ParseFileName :: "string \<Rightarrow> (u64 \<times> FileType) option" where
  "ParseFileName rest =
     (if rest = ''CURRENT'' then Some (0, kCurrentFile)
      else if rest = ''LOCK'' then Some (0, kDBLockFile)
      else if rest = ''LOG'' \<or> rest = ''LOG.old'' then Some (0, kInfoLogFile)
      else if take 9 rest = ''MANIFEST-'' then do {
        (num, rest) \<leftarrow> consume_number (drop 9 rest);
        if rest \<noteq> [] then None else Some (num, kDescriptorFile)
      }
      else do {
        (num, suffix) \<leftarrow> consume_number rest;
        if suffix = ''.log'' then Some (num, kLogFile)
        else if suffix = ''.sst'' \<or> suffix = ''.ldb'' then Some (num, kTableFile)
        else if suffix = ''.dbtmp'' then Some (num, kTempFile)
        else None
      })"

text \<open>
  Making a manifest current. The environment is a record of its operations on a state: writing and
  syncing a file, renaming, deleting; each returns whether it succeeded.
\<close>

record 'e name_env =
  ne_write :: "string \<Rightarrow> string \<Rightarrow> 'e \<Rightarrow> bool \<times> 'e"
  ne_rename :: "string \<Rightarrow> string \<Rightarrow> 'e \<Rightarrow> bool \<times> 'e"
  ne_delete :: "string \<Rightarrow> 'e \<Rightarrow> bool \<times> 'e"

definition SetCurrentFile :: "'e name_env \<Rightarrow> string \<Rightarrow> u64 \<Rightarrow> 'e \<Rightarrow> bool \<times> 'e" where
  "SetCurrentFile env dbname descriptor_number e =
     (let manifest = DescriptorFileName dbname descriptor_number;
          contents = drop (length dbname + 1) manifest;
          tmp = TempFileName dbname descriptor_number;
          (s, e) = ne_write env (contents @ [CHR 0x0A]) tmp e;
          (s, e) = (if s then ne_rename env tmp (CurrentFileName dbname) e else (s, e));
          e = (if \<not> s then snd (ne_delete env tmp e) else e) in
      (s, e))"

section \<open>Reading decimal numbers\<close>

lemma max_div: "unat (kMaxUint64 div 10) = 1844674407370955161" "unat (kMaxUint64 mod 10) = 5"
  by (simp_all add: kMaxUint64_def unat_div unat_mod)

definition undec_from :: "nat \<Rightarrow> string \<Rightarrow> nat" where
  "undec_from n s = foldl (\<lambda>n c. 10 * n + (of_char c - 48)) n s"

lemma undec_from_mono: "n * 10 ^ length s \<le> undec_from n s"
proof (induction s arbitrary: n)
  case (Cons c s)
  have "n * 10 * 10 ^ length s \<le> (10 * n + (of_char c - 48)) * 10 ^ length s" by simp
  also have "\<dots> \<le> undec_from (10 * n + (of_char c - 48)) s" by (rule Cons)
  finally show ?case by (simp add: undec_from_def mult.assoc)
qed (simp add: undec_from_def)

lemma consume_loop_digits:
  assumes "list_all digit ds" and "rest = [] \<or> \<not> digit (hd rest)"
  shows "consume_loop (ds @ rest) v =
    (if undec_from (unat v) ds < 2 ^ 64 then Some (of_nat (undec_from (unat v) ds), rest) else None)"
  using assms(1)
proof (induction ds arbitrary: v)
  case Nil
  have "unat v < 2 ^ 64" using unsigned_less [of v, where 'a = nat] by simp
  moreover have "consume_loop rest v = Some (v, rest)"
    using assms(2) by (cases rest) (auto simp: digit_def Let_def)
  ultimately show ?case by (simp add: undec_from_def)
next
  case (Cons d ds)
  let ?d = "(of_char d :: nat) - 48" and ?n = "10 * unat v + (of_char d - 48)"
  have d: "48 \<le> (of_char d :: nat)" "(of_char d :: nat) \<le> 57" using Cons.prems by (auto simp: digit_def)
  have over: "v > kMaxUint64 div 10 \<or> v = kMaxUint64 div 10 \<and> of_char d > 48 + unat (kMaxUint64 mod 10) \<longleftrightarrow> 2 ^ 64 \<le> ?n"
    using d by (auto simp: word_less_nat_alt word_unat_eq_iff max_div)
  have fr: "undec_from (unat v) (d # ds) = undec_from ?n ds" by (simp add: undec_from_def)
  show ?case
  proof (cases "2 ^ 64 \<le> ?n")
    case True
    have "?n * 1 \<le> ?n * 10 ^ length ds" by (rule mult_le_mono2) simp
    also have "\<dots> \<le> undec_from ?n ds" by (rule undec_from_mono)
    finally have "\<not> undec_from ?n ds < 2 ^ 64" using True by simp
    moreover have "consume_loop ((d # ds) @ rest) v = None" using over True d by (simp add: Let_def not_less)
    ultimately show ?thesis unfolding fr by simp
  next
    case False
    have "unat (v * 10 + of_nat ?d) = ?n"
      using False by (simp add: unat_word_ariths unat_of_nat mult.commute)
    moreover have "consume_loop ((d # ds) @ rest) v = consume_loop (ds @ rest) (v * 10 + of_nat ?d)"
      using over False d by (auto simp: Let_def not_less)
    ultimately show ?thesis unfolding fr using Cons by simp
  qed
qed

lemma undec_zeros: "undec_from 0 (replicate k (CHR ''0'') @ s) = undec s"
proof -
  have "undec_from 0 (replicate k (CHR ''0'')) = 0" by (induction k) (simp_all add: undec_from_def)
  then show ?thesis by (simp add: undec_from_def undec_def)
qed

lemma digit_0: "digit (CHR ''0'')"
  by code_simp

lemma print_06_digits: "list_all digit (print_06 n)"
  using digits_dec [of "unat n"] by (auto simp: print_06_def print_u_def list_all_iff digit_0)

lemma consume_number_print:
  assumes "rest = [] \<or> \<not> digit (hd rest)"
  shows "consume_number (print_06 n @ rest) = Some (n, rest)"
proof -
  have "undec_from 0 (print_06 n) = unat n" by (simp add: print_06_def undec_zeros print_u_def undec_dec)
  moreover have "unat n < 2 ^ 64" using unsigned_less [of n, where 'a = nat] by simp
  ultimately have "consume_loop (print_06 n @ rest) 0 = Some (n, rest)"
    using consume_loop_digits [OF print_06_digits assms, of n 0] by simp
  moreover have "print_06 n \<noteq> []" by (simp add: print_06_def print_u_def)
  ultimately show ?thesis by (simp add: consume_number_def ConsumeDecimalNumber_def)
qed

lemma digit_first: "\<exists>d ds. print_06 n = d # ds \<and> digit d"
proof (cases "print_06 n")
  case Nil
  then show ?thesis by (simp add: print_06_def print_u_def)
next
  case (Cons d ds)
  then show ?thesis using print_06_digits [of n] by simp
qed

lemma letters_not_digits: "\<not> digit (CHR ''C'')" "\<not> digit (CHR ''L'')" "\<not> digit (CHR ''M'')" "\<not> digit (CHR ''.'')"
  by code_simp+

lemma ParseFileName_number:
  assumes "s = [] \<or> \<not> digit (hd s)"
  shows "ParseFileName (print_06 n @ s) =
    (if s = ''.log'' then Some (n, kLogFile) else if s = ''.sst'' \<or> s = ''.ldb'' then Some (n, kTableFile)
     else if s = ''.dbtmp'' then Some (n, kTempFile) else None)"
proof -
  obtain d ds where d: "print_06 n = d # ds" "digit d" using digit_first by blast
  then have "d \<noteq> CHR ''C''" "d \<noteq> CHR ''L''" "d \<noteq> CHR ''M''" using letters_not_digits by auto
  with d consume_number_print [OF assms, of n] show ?thesis by (simp add: ParseFileName_def)
qed

section \<open>Properties\<close>

text \<open>
  Every name of a log, table, manifest or temporary file is the directory, a slash and a name
  that parses back to the same number and kind, for every 64-bit number; the names without a number
  parse to their kinds. A number that does not fit in 64 bits is refused, not wrapped: digits are
  consumed exactly when their value is below 2^64.
\<close>

theorem file_names_roundtrip:
  "(\<exists>f. LogFileName db n = db @ ''/'' @ f \<and> ParseFileName f = Some (n, kLogFile)) \<and>
   (\<exists>f. TableFileName db n = db @ ''/'' @ f \<and> ParseFileName f = Some (n, kTableFile)) \<and>
   (\<exists>f. SSTTableFileName db n = db @ ''/'' @ f \<and> ParseFileName f = Some (n, kTableFile)) \<and>
   (\<exists>f. TempFileName db n = db @ ''/'' @ f \<and> ParseFileName f = Some (n, kTempFile)) \<and>
   (\<exists>f. DescriptorFileName db n = db @ ''/'' @ f \<and> ParseFileName f = Some (n, kDescriptorFile)) \<and>
   (\<exists>f. CurrentFileName db = db @ ''/'' @ f \<and> ParseFileName f = Some (0, kCurrentFile)) \<and>
   (\<exists>f. LockFileName db = db @ ''/'' @ f \<and> ParseFileName f = Some (0, kDBLockFile)) \<and>
   (list_all digit ds \<longrightarrow> ds \<noteq> [] \<longrightarrow> ConsumeDecimalNumber ds =
      (if undec ds < 2 ^ 64 then Some (True, of_nat (undec ds), []) else None))"
proof (intro conjI impI)
  have m: "ParseFileName (''MANIFEST-'' @ print_06 n) = Some (n, kDescriptorFile)"
    using consume_number_print [of "[]" n] by (simp add: ParseFileName_def)
  show "\<exists>f. DescriptorFileName db n = db @ ''/'' @ f \<and> ParseFileName f = Some (n, kDescriptorFile)"
    by (intro exI [of _ "''MANIFEST-'' @ print_06 n"] conjI m) (simp add: DescriptorFileName_def)
  show "ConsumeDecimalNumber ds = (if undec ds < 2 ^ 64 then Some (True, of_nat (undec ds), []) else None)"
    if "list_all digit ds" "ds \<noteq> []"
    using consume_loop_digits [OF that(1), of "[]" 0] that(2)
    by (auto simp: ConsumeDecimalNumber_def undec_def undec_from_def)
  show "\<exists>f. LogFileName db n = db @ ''/'' @ f \<and> ParseFileName f = Some (n, kLogFile)"
    by (intro exI [of _ "print_06 n @ ''.log''"]) (simp add: LogFileName_def MakeFileName_def ParseFileName_number letters_not_digits)
  show "\<exists>f. TableFileName db n = db @ ''/'' @ f \<and> ParseFileName f = Some (n, kTableFile)"
    by (intro exI [of _ "print_06 n @ ''.ldb''"]) (simp add: TableFileName_def MakeFileName_def ParseFileName_number letters_not_digits)
  show "\<exists>f. SSTTableFileName db n = db @ ''/'' @ f \<and> ParseFileName f = Some (n, kTableFile)"
    by (intro exI [of _ "print_06 n @ ''.sst''"]) (simp add: SSTTableFileName_def MakeFileName_def ParseFileName_number letters_not_digits)
  show "\<exists>f. TempFileName db n = db @ ''/'' @ f \<and> ParseFileName f = Some (n, kTempFile)"
    by (intro exI [of _ "print_06 n @ ''.dbtmp''"]) (simp add: TempFileName_def MakeFileName_def ParseFileName_number letters_not_digits)
qed (simp_all add: CurrentFileName_def LockFileName_def ParseFileName_def)

theorem file_names_roundtrip_witness:
  "ConsumeDecimalNumber ''18446744073709551615'' = Some (True, - 1, []) \<and>
   ConsumeDecimalNumber ''18446744073709551616'' = None"
proof -
  have "list_all digit ''18446744073709551615''" "list_all digit ''18446744073709551616''"
    "undec ''18446744073709551615'' = 2 ^ 64 - 1" "undec ''18446744073709551616'' = 2 ^ 64"
    by (simp_all add: digit_def undec_def)
  moreover have "(of_nat (2 ^ 64 - 1) :: u64) = - 1" by simp
  ultimately show ?thesis
    using file_names_roundtrip [of "[]" 0 "''18446744073709551615''"] file_names_roundtrip [of "[]" 0 "''18446744073709551616''"]
    by simp
qed

definition map_env :: "bool \<Rightarrow> bool \<Rightarrow> (string \<rightharpoonup> string) name_env" where
  "map_env write_ok rename_ok =
     \<lparr>ne_write = (\<lambda>s f m. (write_ok, m(f \<mapsto> if write_ok then s else []))),
      ne_rename = (\<lambda>a b m. if rename_ok then (True, (m(b := m a))(a := None)) else (False, m)),
      ne_delete = (\<lambda>f m. (True, m(f := None)))\<rparr>"

lemma temp_not_current: "TempFileName db n \<noteq> CurrentFileName db"
proof
  assume "TempFileName db n = CurrentFileName db"
  then have "print_06 n @ ''.dbtmp'' = ''CURRENT''" by (simp add: TempFileName_def MakeFileName_def CurrentFileName_def)
  moreover obtain d ds where "print_06 n = d # ds" "digit d" using digit_first by blast
  ultimately show False using letters_not_digits(1) by auto
qed

text \<open>
  Making a manifest current on a file system that may fail at each step: on success \<^verbatim>\<open>CURRENT\<close> holds
  the manifest's name and a line break, and nothing else but the temporary file is changed; when a step
  fails, \<^verbatim>\<open>CURRENT\<close> is as it was.
\<close>

theorem SetCurrentFile_atomic:
  "let (s, m') = SetCurrentFile (map_env w r) db n m in
    s = (w \<and> r) \<and>
    m' (CurrentFileName db) = (if s then Some (''MANIFEST-'' @ print_06 n @ [CHR 0x0A]) else m (CurrentFileName db)) \<and>
    m' (TempFileName db n) = None \<and>
    (\<forall>f. f = CurrentFileName db \<or> f = TempFileName db n \<or> m' f = m f)"
  using temp_not_current [of db n]
  by (cases w; cases r) (auto simp: SetCurrentFile_def map_env_def Let_def DescriptorFileName_def)

end
