(* ===== verification/Ldb_Version_Edit.thy ===== *)
theory Ldb_Version_Edit
  imports Ldb_Status Ldb_Keys Ldb_Names "HOL-Library.Product_Lexorder"
begin

text \<open>
  Version edits (\<^verbatim>\<open>db/version_edit.h\<close>, \<^verbatim>\<open>db/version_edit.cc\<close>): the records of the manifest, which say
  which table files a database consists of. An \<^verbatim>\<open>InternalKey\<close> is its \<^verbatim>\<open>rep_\<close>; the ordered set of
  deleted files is a set that is enumerated in order.
\<close>

section \<open>The edit\<close>

definition kNumLevels :: u32 where "kNumLevels = 7"

record FileMetaData =
  fm_refs :: int
  fm_allowed_seeks :: int
  fm_number :: u64
  fm_file_size :: u64
  fm_smallest :: bytes
  fm_largest :: bytes

record VersionEdit =
  ve_comparator :: bytes
  ve_log_number :: u64
  ve_prev_log_number :: u64
  ve_next_file_number :: u64
  ve_last_sequence :: u64
  ve_has_comparator :: bool
  ve_has_log_number :: bool
  ve_has_prev_log_number :: bool
  ve_has_next_file_number :: bool
  ve_has_last_sequence :: bool
  ve_compact_pointers :: "(nat \<times> bytes) list"
  ve_deleted_files :: "(nat \<times> u64) set"
  ve_new_files :: "(nat \<times> FileMetaData) list"

text \<open>\<^verbatim>\<open>Clear\<close> leaves the compact pointers alone.\<close>

definition VersionEdit_Clear :: "VersionEdit \<Rightarrow> VersionEdit" where
  "VersionEdit_Clear e = e
     \<lparr>ve_comparator := [], ve_log_number := 0, ve_prev_log_number := 0, ve_last_sequence := 0,
      ve_next_file_number := 0, ve_has_comparator := False, ve_has_log_number := False,
      ve_has_prev_log_number := False, ve_has_next_file_number := False, ve_has_last_sequence := False,
      ve_deleted_files := {}, ve_new_files := []\<rparr>"

definition new_VersionEdit :: VersionEdit where
  "new_VersionEdit =
     \<lparr>ve_comparator = [], ve_log_number = 0, ve_prev_log_number = 0, ve_next_file_number = 0,
      ve_last_sequence = 0, ve_has_comparator = False, ve_has_log_number = False,
      ve_has_prev_log_number = False, ve_has_next_file_number = False, ve_has_last_sequence = False,
      ve_compact_pointers = [], ve_deleted_files = {}, ve_new_files = []\<rparr>"

definition SetComparatorName :: "bytes \<Rightarrow> VersionEdit \<Rightarrow> VersionEdit" where
  "SetComparatorName name e = e\<lparr>ve_has_comparator := True, ve_comparator := name\<rparr>"

definition SetLogNumber :: "u64 \<Rightarrow> VersionEdit \<Rightarrow> VersionEdit" where
  "SetLogNumber num e = e\<lparr>ve_has_log_number := True, ve_log_number := num\<rparr>"

definition SetPrevLogNumber :: "u64 \<Rightarrow> VersionEdit \<Rightarrow> VersionEdit" where
  "SetPrevLogNumber num e = e\<lparr>ve_has_prev_log_number := True, ve_prev_log_number := num\<rparr>"

definition SetNextFile :: "u64 \<Rightarrow> VersionEdit \<Rightarrow> VersionEdit" where
  "SetNextFile num e = e\<lparr>ve_has_next_file_number := True, ve_next_file_number := num\<rparr>"

definition SetLastSequence :: "u64 \<Rightarrow> VersionEdit \<Rightarrow> VersionEdit" where
  "SetLastSequence seq e = e\<lparr>ve_has_last_sequence := True, ve_last_sequence := seq\<rparr>"

definition SetCompactPointer :: "nat \<Rightarrow> bytes \<Rightarrow> VersionEdit \<Rightarrow> VersionEdit" where
  "SetCompactPointer level key e = e\<lparr>ve_compact_pointers := ve_compact_pointers e @ [(level, key)]\<rparr>"

definition new_FileMetaData :: FileMetaData where
  "new_FileMetaData = \<lparr>fm_refs = 0, fm_allowed_seeks = 2 ^ 30, fm_number = 0, fm_file_size = 0,
     fm_smallest = [], fm_largest = []\<rparr>"

definition AddFile :: "nat \<Rightarrow> u64 \<Rightarrow> u64 \<Rightarrow> bytes \<Rightarrow> bytes \<Rightarrow> VersionEdit \<Rightarrow> VersionEdit" where
  "AddFile level file file_size smallest largest e =
     e\<lparr>ve_new_files := ve_new_files e @ [(level, new_FileMetaData
         \<lparr>fm_number := file, fm_file_size := file_size, fm_smallest := smallest, fm_largest := largest\<rparr>)]\<rparr>"

definition VersionEdit_DeleteFile :: "nat \<Rightarrow> u64 \<Rightarrow> VersionEdit \<Rightarrow> VersionEdit" where
  "VersionEdit_DeleteFile level file e = e\<lparr>ve_deleted_files := insert (level, file) (ve_deleted_files e)\<rparr>"

section \<open>Encoding\<close>

definition put_tag :: "u32 \<Rightarrow> bytes" where
  "put_tag t = PutVarint32 [] t"

abbreviation "kComparator \<equiv> (1 :: u32)"
abbreviation "kLogNumber \<equiv> (2 :: u32)"
abbreviation "kNextFileNumber \<equiv> (3 :: u32)"
abbreviation "kLastSequence \<equiv> (4 :: u32)"
abbreviation "kCompactPointer \<equiv> (5 :: u32)"
abbreviation "kDeletedFile \<equiv> (6 :: u32)"
abbreviation "kNewFile \<equiv> (7 :: u32)"
abbreviation "kPrevLogNumber \<equiv> (9 :: u32)"

definition enc_number :: "u32 \<Rightarrow> u64 \<Rightarrow> bytes" where
  "enc_number tag num = put_tag tag @ PutVarint64 [] num"

definition enc_pointer :: "nat \<times> bytes \<Rightarrow> bytes" where
  "enc_pointer p = put_tag kCompactPointer @ PutVarint32 [] (of_nat (fst p)) @ PutLengthPrefixedSlice [] (snd p)"

definition enc_deleted :: "nat \<times> u64 \<Rightarrow> bytes" where
  "enc_deleted p = put_tag kDeletedFile @ PutVarint32 [] (of_nat (fst p)) @ PutVarint64 [] (snd p)"

definition enc_new :: "nat \<times> FileMetaData \<Rightarrow> bytes" where
  "enc_new p = (let f = snd p in put_tag kNewFile @ PutVarint32 [] (of_nat (fst p)) @
     PutVarint64 [] (fm_number f) @ PutVarint64 [] (fm_file_size f) @
     PutLengthPrefixedSlice [] (fm_smallest f) @ PutLengthPrefixedSlice [] (fm_largest f))"

text \<open>
  \<^verbatim>\<open>InternalKey::Encode\<close> asserts that a key is not empty. The model writes an empty key as well, which
  is what a build without assertions does.
\<close>

definition VersionEdit_EncodeTo :: "bytes \<Rightarrow> VersionEdit \<Rightarrow> bytes" where
  "VersionEdit_EncodeTo dst e = dst @
     (if ve_has_comparator e then put_tag kComparator @ PutLengthPrefixedSlice [] (ve_comparator e) else []) @
     (if ve_has_log_number e then enc_number kLogNumber (ve_log_number e) else []) @
     (if ve_has_prev_log_number e then enc_number kPrevLogNumber (ve_prev_log_number e) else []) @
     (if ve_has_next_file_number e then enc_number kNextFileNumber (ve_next_file_number e) else []) @
     (if ve_has_last_sequence e then enc_number kLastSequence (ve_last_sequence e) else []) @
     concat (map enc_pointer (ve_compact_pointers e)) @
     concat (map enc_deleted (sorted_list_of_set (ve_deleted_files e))) @
     concat (map enc_new (ve_new_files e))"

section \<open>Decoding\<close>

definition GetInternalKey :: "bytes \<Rightarrow> (bytes \<times> bytes) option" where
  "GetInternalKey input = GetLengthPrefixedSlice input"

definition GetLevel :: "bytes \<Rightarrow> (nat \<times> bytes) option" where
  "GetLevel input = do {
     (v, input) \<leftarrow> GetVarint32 input;
     if v < kNumLevels then Some (unat v, input) else None
   }"

definition get_pointer :: "bytes \<Rightarrow> ((nat \<times> bytes) \<times> bytes) option" where
  "get_pointer input = do {
     (level, input) \<leftarrow> GetLevel input;
     (k, input) \<leftarrow> GetInternalKey input;
     Some ((level, k), input)
   }"

definition get_deleted :: "bytes \<Rightarrow> ((nat \<times> u64) \<times> bytes) option" where
  "get_deleted input = do {
     (level, input) \<leftarrow> GetLevel input;
     (num, input) \<leftarrow> GetVarint64 input;
     Some ((level, num), input)
   }"

definition get_new :: "bytes \<Rightarrow> ((nat \<times> FileMetaData) \<times> bytes) option" where
  "get_new input = do {
     (level, input) \<leftarrow> GetLevel input;
     (num, input) \<leftarrow> GetVarint64 input;
     (sz, input) \<leftarrow> GetVarint64 input;
     (smallest, input) \<leftarrow> GetInternalKey input;
     (largest, input) \<leftarrow> GetInternalKey input;
     Some ((level, new_FileMetaData\<lparr>fm_number := num, fm_file_size := sz,
       fm_smallest := smallest, fm_largest := largest\<rparr>), input)
   }"

text \<open>The body of the loop: a message, or the rest of the input and the edit.\<close>

definition field :: "string \<Rightarrow> ('v \<times> bytes) option \<Rightarrow> ('v \<Rightarrow> VersionEdit) \<Rightarrow> string + bytes \<times> VersionEdit" where
  "field msg got upd = (case got of Some (v, input) \<Rightarrow> Inr (input, upd v) | None \<Rightarrow> Inl msg)"

definition decode_field :: "u32 \<Rightarrow> bytes \<Rightarrow> VersionEdit \<Rightarrow> string + bytes \<times> VersionEdit" where
  "decode_field tag input e =
     (if tag = kComparator then field ''comparator name'' (GetLengthPrefixedSlice input) (\<lambda>s. SetComparatorName s e)
      else if tag = kLogNumber then field ''log number'' (GetVarint64 input) (\<lambda>n. SetLogNumber n e)
      else if tag = kPrevLogNumber then field ''previous log number'' (GetVarint64 input) (\<lambda>n. SetPrevLogNumber n e)
      else if tag = kNextFileNumber then field ''next file number'' (GetVarint64 input) (\<lambda>n. SetNextFile n e)
      else if tag = kLastSequence then field ''last sequence number'' (GetVarint64 input) (\<lambda>n. SetLastSequence n e)
      else if tag = kCompactPointer then
        field ''compaction pointer'' (get_pointer input) (\<lambda>(level, k). SetCompactPointer level k e)
      else if tag = kDeletedFile then
        field ''deleted file'' (get_deleted input) (\<lambda>(level, n). VersionEdit_DeleteFile level n e)
      else if tag = kNewFile then
        field ''new-file entry'' (get_new input) (\<lambda>f. e\<lparr>ve_new_files := ve_new_files e @ [f]\<rparr>)
      else Inl ''unknown tag'')"

lemma GetLevel_less: "GetLevel p = Some (v, q) \<Longrightarrow> length q < length p"
  by (auto simp: GetLevel_def split: Option.bind_splits if_splits dest!: slice_suffix_less(1))

lemma decode_field_less: "decode_field tag input e = Inr (input', e') \<Longrightarrow> length input' < length input"
  by (auto simp: decode_field_def field_def get_pointer_def get_deleted_def get_new_def GetInternalKey_def
      split: if_splits option.splits Option.bind_splits
      dest!: slice_suffix_less GetLevel_less)

function decode_loop :: "bytes \<Rightarrow> VersionEdit \<Rightarrow> string option \<times> VersionEdit" where
  "decode_loop input e =
     (case GetVarint32 input of
        None \<Rightarrow> (if input \<noteq> [] then Some ''invalid tag'' else None, e)
      | Some (tag, input) \<Rightarrow>
          (case decode_field tag input e of
             Inl msg \<Rightarrow> (Some msg, e)
           | Inr (input, e) \<Rightarrow> decode_loop input e))"
  by pat_completeness auto

termination
  by (relation "measure (length \<circ> fst)") (auto dest!: slice_suffix_less(1) decode_field_less)

declare decode_loop.simps [simp del]

definition VersionEdit_DecodeFrom :: "bytes \<Rightarrow> VersionEdit \<Rightarrow> Status \<times> VersionEdit" where
  "VersionEdit_DecodeFrom src e =
     (case decode_loop src (VersionEdit_Clear e) of
        (Some msg, e) \<Rightarrow> (Corruption2 ''VersionEdit'' msg, e)
      | (None, e) \<Rightarrow> (OK, e))"

section \<open>Text\<close>

definition Parsed_DebugString :: "ParsedInternalKey \<Rightarrow> string" where
  "Parsed_DebugString k =
     [CHR 0x27] @ EscapeString (user_key k) @ [CHR 0x27] @ '' @ '' @ print_u (sequence k) @ '' : '' @
     print_u (type_byte (key_type k))"

definition InternalKey_DebugString :: "bytes \<Rightarrow> string" where
  "InternalKey_DebugString rep =
     (case ParseInternalKey rep of
        Some parsed \<Rightarrow> Parsed_DebugString parsed
      | None \<Rightarrow> ''(bad)'' @ EscapeString rep)"

definition VersionEdit_DebugString :: "VersionEdit \<Rightarrow> string" where
  "VersionEdit_DebugString e =
     (let nl = (\<lambda>s. [CHR 0x0A] @ s); num = (\<lambda>r n. AppendNumberTo r n) in
      ''VersionEdit {'' @
      (if ve_has_comparator e then nl ''  Comparator: '' @ map (char_of \<circ> unat) (ve_comparator e) else []) @
      (if ve_has_log_number e then num (nl ''  LogNumber: '') (ve_log_number e) else []) @
      (if ve_has_prev_log_number e then num (nl ''  PrevLogNumber: '') (ve_prev_log_number e) else []) @
      (if ve_has_next_file_number e then num (nl ''  NextFile: '') (ve_next_file_number e) else []) @
      (if ve_has_last_sequence e then num (nl ''  LastSeq: '') (ve_last_sequence e) else []) @
      concat (map (\<lambda>(level, k). num (nl ''  CompactPointer: '') (of_nat level) @ '' '' @ InternalKey_DebugString k)
        (ve_compact_pointers e)) @
      concat (map (\<lambda>(level, n). num (num (nl ''  DeleteFile: '') (of_nat level) @ '' '') n)
        (sorted_list_of_set (ve_deleted_files e))) @
      concat (map (\<lambda>(level, f). num (num (num (nl ''  AddFile: '') (of_nat level) @ '' '') (fm_number f) @ '' '')
          (fm_file_size f) @ '' '' @ InternalKey_DebugString (fm_smallest f) @ '' .. '' @
          InternalKey_DebugString (fm_largest f))
        (ve_new_files e)) @
      nl ''}'' @ [CHR 0x0A])"

section \<open>Reading an encoded edit\<close>

lemma GetLevel_put: "l < 7 \<Longrightarrow> GetLevel (PutVarint32 [] (of_nat l) @ rest) = Some (l, rest)"
  by (simp add: GetLevel_def Put_append varint32.get_put kNumLevels_def word_less_nat_alt unat_of_nat)

interpretation level: slice_code "\<lambda>l. l < 7" "\<lambda>l. PutVarint32 [] (of_nat l)" GetLevel
  by unfold_locales (rule GetLevel_put)

definition file_ok :: "FileMetaData \<Rightarrow> bool" where
  "file_ok f \<longleftrightarrow> fm_refs f = 0 \<and> fm_allowed_seeks f = 2 ^ 30 \<and>
     length (fm_smallest f) < 2 ^ 32 \<and> length (fm_largest f) < 2 ^ 32"

lemmas field_simps = decode_field_def field_def get_pointer_def get_deleted_def get_new_def GetInternalKey_def

lemma get_pointer_put:
  "fst p < 7 \<Longrightarrow> length (snd p) < 2 ^ 32 \<Longrightarrow>
    get_pointer ((PutVarint32 [] (of_nat (fst p)) @ PutLengthPrefixedSlice [] (snd p)) @ rest) = Some (p, rest)"
  by (simp add: field_simps level.get_put lps.get_put)

lemma get_deleted_put:
  "fst p < 7 \<Longrightarrow> get_deleted ((PutVarint32 [] (of_nat (fst p)) @ PutVarint64 [] (snd p)) @ rest) = Some (p, rest)"
  by (simp add: field_simps level.get_put Put_append(4) varint64.get_put)

lemma get_new_put:
  "fst p < 7 \<Longrightarrow> file_ok (snd p) \<Longrightarrow>
    get_new ((PutVarint32 [] (of_nat (fst p)) @ PutVarint64 [] (fm_number (snd p)) @ PutVarint64 [] (fm_file_size (snd p)) @
      PutLengthPrefixedSlice [] (fm_smallest (snd p)) @ PutLengthPrefixedSlice [] (fm_largest (snd p))) @ rest) = Some (p, rest)"
  by (cases p) (simp add: field_simps level.get_put Put_append(4) varint64.get_put lps.get_put file_ok_def new_FileMetaData_def)

lemma decode_tag:
  "decode_loop (put_tag t @ body) e =
     (case decode_field t body e of Inl msg \<Rightarrow> (Some msg, e) | Inr (input, e) \<Rightarrow> decode_loop input e)"
  by (subst decode_loop.simps) (simp add: put_tag_def Put_append(3) varint32.get_put)

lemma decode_number [simp]:
  "decode_loop (enc_number kLogNumber n @ rest) e = decode_loop rest (SetLogNumber n e)"
  "decode_loop (enc_number kPrevLogNumber n @ rest) e = decode_loop rest (SetPrevLogNumber n e)"
  "decode_loop (enc_number kNextFileNumber n @ rest) e = decode_loop rest (SetNextFile n e)"
  "decode_loop (enc_number kLastSequence n @ rest) e = decode_loop rest (SetLastSequence n e)"
  by (simp_all add: enc_number_def decode_tag Put_append(4) decode_field_def field_def varint64.get_put)

lemma decode_comparator [simp]:
  "length s < 2 ^ 32 \<Longrightarrow> decode_loop (put_tag kComparator @ PutLengthPrefixedSlice [] s @ rest) e =
    decode_loop rest (SetComparatorName s e)"
  by (simp add: decode_tag decode_field_def field_def lps.get_put)

lemma decode_pointers [simp]:
  "list_all (\<lambda>p. fst p < 7 \<and> length (snd p) < 2 ^ 32) ps \<Longrightarrow>
    decode_loop (concat (map enc_pointer ps) @ rest) e =
    decode_loop rest (e\<lparr>ve_compact_pointers := ve_compact_pointers e @ ps\<rparr>)"
proof (induction ps arbitrary: e)
  case (Cons p ps)
  let ?e = "SetCompactPointer (fst p) (snd p) e"
  have "decode_loop (concat (map enc_pointer (p # ps)) @ rest) e = decode_loop (concat (map enc_pointer ps) @ rest) ?e"
    using get_pointer_put [of p "concat (map enc_pointer ps) @ rest"] Cons.prems
    by (simp add: enc_pointer_def decode_tag decode_field_def field_def split_beta)
  with Cons show ?case by (simp add: SetCompactPointer_def)
qed simp

lemma decode_deleted [simp]:
  "list_all (\<lambda>p. fst p < 7) ps \<Longrightarrow>
    decode_loop (concat (map enc_deleted ps) @ rest) e =
    decode_loop rest (e\<lparr>ve_deleted_files := ve_deleted_files e \<union> set ps\<rparr>)"
proof (induction ps arbitrary: e)
  case (Cons p ps)
  let ?e = "VersionEdit_DeleteFile (fst p) (snd p) e"
  have "decode_loop (concat (map enc_deleted (p # ps)) @ rest) e = decode_loop (concat (map enc_deleted ps) @ rest) ?e"
    using get_deleted_put [of p "concat (map enc_deleted ps) @ rest"] Cons.prems
    by (simp add: enc_deleted_def decode_tag decode_field_def field_def split_beta)
  with Cons show ?case by (simp add: VersionEdit_DeleteFile_def)
qed simp

lemma decode_new [simp]:
  "list_all (\<lambda>p. fst p < 7 \<and> file_ok (snd p)) ps \<Longrightarrow>
    decode_loop (concat (map enc_new ps) @ rest) e =
    decode_loop rest (e\<lparr>ve_new_files := ve_new_files e @ ps\<rparr>)"
proof (induction ps arbitrary: e)
  case (Cons p ps)
  let ?e = "e\<lparr>ve_new_files := ve_new_files e @ [p]\<rparr>"
  have "decode_loop (concat (map enc_new (p # ps)) @ rest) e = decode_loop (concat (map enc_new ps) @ rest) ?e"
    using get_new_put [of p "concat (map enc_new ps) @ rest"] Cons.prems
    by (simp add: enc_new_def Let_def decode_tag decode_field_def field_def split_beta)
  with Cons show ?case by simp
qed simp

lemma decode_end [simp]: "decode_loop [] e = (None, e)"
  by (subst decode_loop.simps) (simp add: GetVarint32_loop)

section \<open>Properties\<close>

text \<open>
  A well-formed edit: levels below 7, lengths below 4 GiB, finitely many deletions, and the default
  in every field that is not marked as present.
\<close>

definition edit_ok :: "VersionEdit \<Rightarrow> bool" where
  "edit_ok e \<longleftrightarrow> finite (ve_deleted_files e) \<and> (\<forall>p \<in> ve_deleted_files e. fst p < 7) \<and>
     list_all (\<lambda>p. fst p < 7 \<and> length (snd p) < 2 ^ 32) (ve_compact_pointers e) \<and>
     list_all (\<lambda>p. fst p < 7 \<and> file_ok (snd p)) (ve_new_files e) \<and>
     length (ve_comparator e) < 2 ^ 32 \<and>
     (\<not> ve_has_comparator e \<longrightarrow> ve_comparator e = []) \<and> (\<not> ve_has_log_number e \<longrightarrow> ve_log_number e = 0) \<and>
     (\<not> ve_has_prev_log_number e \<longrightarrow> ve_prev_log_number e = 0) \<and>
     (\<not> ve_has_next_file_number e \<longrightarrow> ve_next_file_number e = 0) \<and>
     (\<not> ve_has_last_sequence e \<longrightarrow> ve_last_sequence e = 0)"

lemmas set_defs = VersionEdit_Clear_def SetComparatorName_def SetLogNumber_def SetPrevLogNumber_def
  SetNextFile_def SetLastSequence_def

lemma decode_if:
  "length s < 2 ^ 32 \<Longrightarrow> decode_loop ((if b then put_tag kComparator @ PutLengthPrefixedSlice [] s else []) @ rest) x =
    decode_loop rest (if b then SetComparatorName s x else x)"
  "decode_loop ((if b then enc_number kLogNumber n else []) @ rest) x = decode_loop rest (if b then SetLogNumber n x else x)"
  "decode_loop ((if b then enc_number kPrevLogNumber n else []) @ rest) x = decode_loop rest (if b then SetPrevLogNumber n x else x)"
  "decode_loop ((if b then enc_number kNextFileNumber n else []) @ rest) x = decode_loop rest (if b then SetNextFile n x else x)"
  "decode_loop ((if b then enc_number kLastSequence n else []) @ rest) x = decode_loop rest (if b then SetLastSequence n x else x)"
  by simp_all

lemma decode_encode_rest:
  assumes "edit_ok e"
  shows "decode_loop (VersionEdit_EncodeTo [] e @ rest) (VersionEdit_Clear e0) =
    decode_loop rest (e\<lparr>ve_compact_pointers := ve_compact_pointers e0 @ ve_compact_pointers e\<rparr>)"
proof -
  have d: "list_all (\<lambda>p. fst p < 7) (sorted_list_of_set (ve_deleted_files e))"
    "set (sorted_list_of_set (ve_deleted_files e)) = ve_deleted_files e"
    using assms by (auto simp: edit_ok_def list_all_iff)
  let ?c = "\<lambda>x. if ve_has_comparator e then SetComparatorName (ve_comparator e) x else x"
  let ?l = "\<lambda>x. if ve_has_log_number e then SetLogNumber (ve_log_number e) x else x"
  let ?p = "\<lambda>x. if ve_has_prev_log_number e then SetPrevLogNumber (ve_prev_log_number e) x else x"
  let ?n = "\<lambda>x. if ve_has_next_file_number e then SetNextFile (ve_next_file_number e) x else x"
  let ?s = "\<lambda>x. if ve_has_last_sequence e then SetLastSequence (ve_last_sequence e) x else x"
  let ?e5 = "?s (?n (?p (?l (?c (VersionEdit_Clear e0)))))"
  have "decode_loop (VersionEdit_EncodeTo [] e @ rest) (VersionEdit_Clear e0) =
      decode_loop (concat (map enc_pointer (ve_compact_pointers e)) @
        concat (map enc_deleted (sorted_list_of_set (ve_deleted_files e))) @ concat (map enc_new (ve_new_files e)) @ rest) ?e5"
    using assms unfolding VersionEdit_EncodeTo_def append_Nil append_assoc
    by (simp only: decode_if edit_ok_def)
  also have "\<dots> = decode_loop rest (?e5\<lparr>ve_compact_pointers := ve_compact_pointers ?e5 @ ve_compact_pointers e,
      ve_deleted_files := ve_deleted_files ?e5 \<union> ve_deleted_files e,
      ve_new_files := ve_new_files ?e5 @ ve_new_files e\<rparr>)"
    using assms d by (simp add: edit_ok_def del: Un_insert_left)
  also have "?e5\<lparr>ve_compact_pointers := ve_compact_pointers ?e5 @ ve_compact_pointers e,
      ve_deleted_files := ve_deleted_files ?e5 \<union> ve_deleted_files e,
      ve_new_files := ve_new_files ?e5 @ ve_new_files e\<rparr> =
      e\<lparr>ve_compact_pointers := ve_compact_pointers e0 @ ve_compact_pointers e\<rparr>"
    using assms by (intro VersionEdit.equality) (auto simp: edit_ok_def set_defs)
  finally show ?thesis .
qed

lemma decode_encode:
  "edit_ok e \<Longrightarrow> decode_loop (VersionEdit_EncodeTo [] e) (VersionEdit_Clear e0) =
    (None, e\<lparr>ve_compact_pointers := ve_compact_pointers e0 @ ve_compact_pointers e\<rparr>)"
  using decode_encode_rest [of e "[]" e0] by simp

text \<open>
  C25: Reading the encoding of any well-formed edit into a new one gives the edit back, with every field.
  Reading it into an edit that has been used keeps the old compaction pointers in front of the new
  ones, since clearing an edit does not clear them.
\<close>

theorem VersionEdit_roundtrip:
  assumes "edit_ok e"
  shows "VersionEdit_DecodeFrom (VersionEdit_EncodeTo [] e) new_VersionEdit = (OK, e) \<and>
    VersionEdit_DecodeFrom (VersionEdit_EncodeTo [] e) e0 =
      (OK, e\<lparr>ve_compact_pointers := ve_compact_pointers e0 @ ve_compact_pointers e\<rparr>)"
  using decode_encode [OF assms] by (simp add: VersionEdit_DecodeFrom_def new_VersionEdit_def)

theorem VersionEdit_roundtrip_witness:
  "VersionEdit_DecodeFrom (VersionEdit_EncodeTo [] (SetCompactPointer 1 [97] (SetLogNumber 5 new_VersionEdit))) new_VersionEdit =
     (OK, SetCompactPointer 1 [97] (SetLogNumber 5 new_VersionEdit))"
proof -
  have "edit_ok (SetCompactPointer 1 [97] (SetLogNumber 5 new_VersionEdit))"
    by (simp add: edit_ok_def SetCompactPointer_def SetLogNumber_def new_VersionEdit_def)
  from VersionEdit_roundtrip [OF this, of new_VersionEdit] show ?thesis by blast
qed

text \<open>
  What cannot be a field, with the message for it: bytes that are no tag, a tag that no field has, and a
  tag whose value is not there, in any of its parts: a level has to be below 7.
\<close>

inductive bad_value :: "u32 \<Rightarrow> bytes \<Rightarrow> string \<Rightarrow> bool" where
  no_comparator: "GetLengthPrefixedSlice b = None \<Longrightarrow> bad_value kComparator b ''comparator name''"
| no_log: "GetVarint64 b = None \<Longrightarrow> bad_value kLogNumber b ''log number''"
| no_prev_log: "GetVarint64 b = None \<Longrightarrow> bad_value kPrevLogNumber b ''previous log number''"
| no_next_file: "GetVarint64 b = None \<Longrightarrow> bad_value kNextFileNumber b ''next file number''"
| no_last_sequence: "GetVarint64 b = None \<Longrightarrow> bad_value kLastSequence b ''last sequence number''"
| no_level: "GetVarint32 b = None \<or> (\<exists>l s. GetVarint32 b = Some (l, s) \<and> 7 \<le> l) \<Longrightarrow>
    (t, msg) \<in> {(kCompactPointer, ''compaction pointer''), (kDeletedFile, ''deleted file''), (kNewFile, ''new-file entry'')} \<Longrightarrow>
    bad_value t b msg"
| no_key: "GetVarint32 b = Some (l, s) \<Longrightarrow> GetLengthPrefixedSlice s = None \<Longrightarrow> bad_value kCompactPointer b ''compaction pointer''"
| no_deleted: "GetVarint32 b = Some (l, s) \<Longrightarrow> GetVarint64 s = None \<Longrightarrow> bad_value kDeletedFile b ''deleted file''"
| no_number: "GetVarint32 b = Some (l, s) \<Longrightarrow> GetVarint64 s = None \<Longrightarrow> bad_value kNewFile b ''new-file entry''"
| no_size: "GetVarint32 b = Some (l, s) \<Longrightarrow> GetVarint64 s = Some (n, s1) \<Longrightarrow> GetVarint64 s1 = None \<Longrightarrow>
    bad_value kNewFile b ''new-file entry''"
| no_smallest: "GetVarint32 b = Some (l, s) \<Longrightarrow> GetVarint64 s = Some (n, s1) \<Longrightarrow> GetVarint64 s1 = Some (z, s2) \<Longrightarrow>
    GetLengthPrefixedSlice s2 = None \<Longrightarrow> bad_value kNewFile b ''new-file entry''"
| no_largest: "GetVarint32 b = Some (l, s) \<Longrightarrow> GetVarint64 s = Some (n, s1) \<Longrightarrow> GetVarint64 s1 = Some (z, s2) \<Longrightarrow>
    GetLengthPrefixedSlice s2 = Some (k, s3) \<Longrightarrow> GetLengthPrefixedSlice s3 = None \<Longrightarrow> bad_value kNewFile b ''new-file entry''"

inductive malformed :: "bytes \<Rightarrow> string \<Rightarrow> bool" where
  invalid_tag: "GetVarint32 s = None \<Longrightarrow> s \<noteq> [] \<Longrightarrow> malformed s ''invalid tag''"
| unknown_tag: "GetVarint32 s = Some (tag, b) \<Longrightarrow> tag \<notin> {1, 2, 3, 4, 5, 6, 7, 9} \<Longrightarrow> malformed s ''unknown tag''"
| bad_value: "GetVarint32 s = Some (tag, b) \<Longrightarrow> bad_value tag b msg \<Longrightarrow> malformed s msg"

lemma GetLevel_None: "GetLevel b = None \<longleftrightarrow> GetVarint32 b = None \<or> (\<exists>l s. GetVarint32 b = Some (l, s) \<and> 7 \<le> l)"
  by (cases "GetVarint32 b") (auto simp: GetLevel_def kNumLevels_def not_less split: if_splits)

lemma GetLevel_Some: "GetVarint32 b = Some (l, s) \<Longrightarrow> GetLevel b = (if l < 7 then Some (unat l, s) else None)"
  by (simp add: GetLevel_def kNumLevels_def)

lemma bad_value_decode: "bad_value t b msg \<Longrightarrow> decode_field t b e = Inl msg"
proof (induction rule: bad_value.induct)
  case (no_level b t msg)
  then have "GetLevel b = None" by (simp add: GetLevel_None)
  then show ?case using no_level(2) by (auto simp: field_simps)
qed (auto simp: field_simps GetLevel_Some)

lemma malformed_decode: "malformed s msg \<Longrightarrow> \<exists>e'. decode_loop s e = (Some msg, e')"
proof (induction rule: malformed.induct)
  case (invalid_tag s)
  then show ?case by (subst decode_loop.simps) simp
next
  case (unknown_tag s tag b)
  then have "decode_field tag b e = Inl ''unknown tag''" by (simp add: decode_field_def)
  then show ?case using unknown_tag by (subst decode_loop.simps) simp
next
  case (bad_value s tag b msg)
  then show ?case using bad_value_decode [of tag b msg e] by (subst decode_loop.simps) simp
qed

text \<open>
  C26: Behind the encoding of any well-formed edit, bytes that cannot be a field are reported as a corruption
  with the message for what is wrong: no tag or an unknown one, a level that is missing or not below
  7, or a value with any of its parts missing, for each of the eight fields.
\<close>

theorem VersionEdit_errors:
  assumes "edit_ok prefix" and "malformed s msg"
  shows "fst (VersionEdit_DecodeFrom (VersionEdit_EncodeTo [] prefix @ s) e) = Corruption2 ''VersionEdit'' msg"
proof -
  let ?e = "prefix\<lparr>ve_compact_pointers := ve_compact_pointers e @ ve_compact_pointers prefix\<rparr>"
  obtain e' where "decode_loop s ?e = (Some msg, e')" using malformed_decode [OF assms(2)] by blast
  then show ?thesis using decode_encode_rest [OF assms(1), of s e] by (simp add: VersionEdit_DecodeFrom_def)
qed

theorem VersionEdit_errors_witness:
  "fst (VersionEdit_DecodeFrom (VersionEdit_EncodeTo [] (SetLogNumber 5 new_VersionEdit) @ [5, 7, 1, 97]) new_VersionEdit) =
    Corruption2 ''VersionEdit'' ''compaction pointer''"
proof (rule VersionEdit_errors)
  show "edit_ok (SetLogNumber 5 new_VersionEdit)" by (simp add: edit_ok_def SetLogNumber_def new_VersionEdit_def)
  have "GetVarint32 [5, 7, 1, 97] = Some (5, [7, 1, 97])" "GetVarint32 [7, 1, 97] = Some (7, [1, 97])" by code_simp+
  then show "malformed [5, 7, 1, 97] ''compaction pointer''" by (intro malformed.bad_value bad_value.no_level) auto
qed

end
