(* ===== verification/Ldb_Arena.thy ===== *)
theory Ldb_Arena
  imports Mlbtcc_Prelude
begin

text \<open>
  Two utilities of the memory table: the random number generator (\<^verbatim>\<open>util/random.h\<close>) and the arena
  (\<^verbatim>\<open>util/arena.h\<close>, \<^verbatim>\<open>util/arena.cc\<close>). The generator computes its modulus with shifts; the arena hands out
  disjoint pieces of the blocks it allocates.
\<close>

section \<open>Random numbers\<close>

text \<open>The state is \<^verbatim>\<open>seed_\<close>.\<close>

definition new_Random :: "u32 \<Rightarrow> u32" where
  "new_Random s = (let seed = s AND 0x7fffffff in if seed = 0 \<or> seed = 2147483647 then 1 else seed)"

definition Random_Next :: "u32 \<Rightarrow> u32" where
  "Random_Next seed =
     (let product = (ucast seed * 16807 :: u64);
          seed = (ucast (drop_bit 31 product + (product AND 2147483647)) :: u32) in
      if seed > 2147483647 then seed - 2147483647 else seed)"

text \<open>The results pair the number with the new state; \<open>n\<close> is an \<^verbatim>\<open>int\<close>, converted to an unsigned divisor.\<close>

definition Random_Uniform :: "u32 \<Rightarrow> u32 \<Rightarrow> u32 \<times> u32" where
  "Random_Uniform n seed = (let seed = Random_Next seed in (seed mod n, seed))"

definition Random_OneIn :: "u32 \<Rightarrow> u32 \<Rightarrow> bool \<times> u32" where
  "Random_OneIn n seed = (let seed = Random_Next seed in (seed mod n = 0, seed))"

definition Random_Skewed :: "u32 \<Rightarrow> u32 \<Rightarrow> u32 \<times> u32" where
  "Random_Skewed max_log seed =
     (let (l, seed) = Random_Uniform (max_log + 1) seed in Random_Uniform (push_bit (unat l) 1) seed)"

definition good_seed :: "u32 \<Rightarrow> bool" where
  "good_seed seed \<longleftrightarrow> 0 < unat seed \<and> unat seed < 2147483647"

lemma new_Random_good: "good_seed (new_Random s)"
proof -
  have "s AND 0x7fffffff = take_bit 31 s"
    using take_bit_eq_mask [of 31 s] by (simp add: mask_eq_exp_minus_1)
  then have "unat (s AND 0x7fffffff) = unat s mod 2147483648" by (simp add: unat_bits)
  then have less: "unat (s AND 0x7fffffff) < 2147483648" by simp
  show ?thesis
  proof (cases "s AND 0x7fffffff = 0 \<or> s AND 0x7fffffff = 2147483647")
    case False
    then have "unat (s AND 0x7fffffff) \<noteq> unat (0 :: u32)" "unat (s AND 0x7fffffff) \<noteq> unat (2147483647 :: u32)"
      by (metis word_unat_eq_iff)+
    then have "0 < unat (s AND 0x7fffffff)" "unat (s AND 0x7fffffff) < 2147483647"
      unfolding unat_0 unat_numeral using less by simp_all
    then show ?thesis unfolding new_Random_def Let_def good_seed_def using False by (simp only: if_False simp_thms)
  qed (simp only: new_Random_def Let_def good_seed_def if_True simp_thms, simp)
qed

text \<open>The shifts compute the remainder, and the cycle never leaves the good seeds.\<close>

lemma mersenne_fold:
  fixes m p :: nat
  assumes "p = a * (m + 1) + b" and "b \<le> m" and "a + b < 2 * m" and "p mod m \<noteq> 0"
  shows "(if a + b > m then a + b - m else a + b) = p mod m"
proof -
  have "p = a * m + (a + b)" using assms(1) by (simp add: algebra_simps)
  then have p: "p mod m = (a + b) mod m" by simp
  have "a + b \<noteq> m" using p assms(4) by auto
  with p assms(3) show ?thesis by (simp add: mod_if)
qed

lemma Random_Next_mod:
  assumes "good_seed seed"
  shows "unat (Random_Next seed) = unat seed * 16807 mod 2147483647" and "good_seed (Random_Next seed)"
proof -
  let ?p = "unat seed * 16807"
  define product :: u64 where "product = ucast seed * 16807"
  have s: "0 < unat seed" "unat seed < 2147483647" using assms by (auto simp: good_seed_def)
  then have p: "unat product = ?p" by (simp add: product_def unat_word_ariths unat_bits)
  have m: "product AND 2147483647 = take_bit 31 product"
    using take_bit_eq_mask [of 31 product] by (simp add: mask_eq_exp_minus_1)
  let ?a = "?p div 2147483648" and ?b = "?p mod 2147483648"
  have d: "unat (drop_bit 31 product) = ?a" "unat (product AND 2147483647) = ?b"
    unfolding m by (simp_all add: unat_bits p)
  have a: "?a < 16807" using s(2) by (simp add: less_mult_imp_div_less)
  have b: "?b < 2147483648" by simp
  have "coprime (2147483647 :: nat) 16807" by (simp add: coprime_iff_gcd_eq_1 gcd_non_0_nat)
  then have ne: "?p mod 2147483647 \<noteq> 0"
    using s nat_dvd_not_less [of "unat seed" 2147483647] by (simp add: mod_eq_0_iff_dvd coprime_dvd_mult_left_iff)
  have u: "unat (ucast (drop_bit 31 product + (product AND 2147483647)) :: u32) = ?a + ?b"
    using a b d by (simp add: unsigned_ucast_eq unat_word_ariths take_bit_nat_eq_self)
  have "?p = ?a * (2147483647 + 1) + ?b" by (simp add: div_mult_mod_eq)
  from mersenne_fold [OF this _ _ ne] have f: "(if ?a + ?b > 2147483647 then ?a + ?b - 2147483647 else ?a + ?b) = ?p mod 2147483647"
    using a b by linarith
  show *: "unat (Random_Next seed) = ?p mod 2147483647"
    using f u unfolding Random_Next_def Let_def product_def [symmetric]
    by (auto simp: word_less_nat_alt unat_sub word_le_nat_alt split: if_splits)
  show "good_seed (Random_Next seed)" using ne by (simp add: good_seed_def *)
qed

section \<open>The arena\<close>

text \<open>
  A pointer is the number of a block and an offset in it. The blocks are given by their sizes; where
  \<^verbatim>\<open>new char[]\<close> puts a block is the parameter \<open>base\<close>. \<open>None\<close> is the null pointer.
\<close>

type_synonym arena_ptr = "nat \<times> nat"

record arena =
  ar_alloc_ptr :: "arena_ptr option"
  ar_remaining :: nat
  ar_blocks :: "nat list"
  ar_memory_usage :: nat

definition kArenaBlockSize :: nat where "kArenaBlockSize = 4096"

definition new_Arena :: arena where
  "new_Arena = \<lparr>ar_alloc_ptr = None, ar_remaining = 0, ar_blocks = [], ar_memory_usage = 0\<rparr>"

definition AllocateNewBlock :: "nat \<Rightarrow> arena \<Rightarrow> arena_ptr \<times> arena" where
  "AllocateNewBlock block_bytes a =
     ((length (ar_blocks a), 0),
      a\<lparr>ar_blocks := ar_blocks a @ [block_bytes], ar_memory_usage := ar_memory_usage a + (block_bytes + 8)\<rparr>)"

definition AllocateFallback :: "nat \<Rightarrow> arena \<Rightarrow> arena_ptr \<times> arena" where
  "AllocateFallback bytes a =
     (if bytes > kArenaBlockSize div 4 then AllocateNewBlock bytes a
      else let ((b, off), a) = AllocateNewBlock kArenaBlockSize a in
        ((b, off), a\<lparr>ar_alloc_ptr := Some (b, off + bytes), ar_remaining := kArenaBlockSize - bytes\<rparr>))"

text \<open>With room left there is a current block; without one \<^verbatim>\<open>bytes > 0\<close> takes the other branch.\<close>

definition Allocate :: "nat \<Rightarrow> arena \<Rightarrow> arena_ptr \<times> arena" where
  "Allocate bytes a =
     (case ar_alloc_ptr a of
        Some (b, off) \<Rightarrow>
          if bytes \<le> ar_remaining a
          then ((b, off), a\<lparr>ar_alloc_ptr := Some (b, off + bytes), ar_remaining := ar_remaining a - bytes\<rparr>)
          else AllocateFallback bytes a
      | None \<Rightarrow> AllocateFallback bytes a)"

definition address :: "(nat \<Rightarrow> nat) \<Rightarrow> arena_ptr option \<Rightarrow> nat" where
  "address base p = (case p of None \<Rightarrow> 0 | Some (b, off) \<Rightarrow> base b + off)"

definition AllocateAligned :: "(nat \<Rightarrow> nat) \<Rightarrow> nat \<Rightarrow> arena \<Rightarrow> arena_ptr \<times> arena" where
  "AllocateAligned base bytes a =
     (let align = 8; current_mod = address base (ar_alloc_ptr a) mod align;
          slop = (if current_mod = 0 then 0 else align - current_mod);
          needed = bytes + slop in
      case ar_alloc_ptr a of
        Some (b, off) \<Rightarrow>
          if needed \<le> ar_remaining a
          then ((b, off + slop), a\<lparr>ar_alloc_ptr := Some (b, off + needed), ar_remaining := ar_remaining a - needed\<rparr>)
          else AllocateFallback bytes a
      | None \<Rightarrow> AllocateFallback bytes a)"

text \<open>A sequence of requests, with the pieces that were handed out, the last one first.\<close>

datatype request = Plain nat | Aligned nat

type_synonym piece = "arena_ptr \<times> nat"

fun serve :: "(nat \<Rightarrow> nat) \<Rightarrow> request \<Rightarrow> arena \<Rightarrow> piece \<times> arena" where
  "serve base (Plain n) a = (let (p, a) = Allocate n a in ((p, n), a))"
| "serve base (Aligned n) a = (let (p, a) = AllocateAligned base n a in ((p, n), a))"

fun request_size :: "request \<Rightarrow> nat" where
  "request_size (Plain n) = n"
| "request_size (Aligned n) = n"

fun serve_all :: "(nat \<Rightarrow> nat) \<Rightarrow> request list \<Rightarrow> arena \<Rightarrow> piece list \<times> arena" where
  "serve_all base [] a = ([], a)"
| "serve_all base (r # rs) a =
     (let (p, a) = serve base r a; (ps, a) = serve_all base rs a in (p # ps, a))"

fun apart :: "piece \<Rightarrow> piece \<Rightarrow> bool" where
  "apart ((b, off), n) ((b', off'), n') \<longleftrightarrow> b \<noteq> b' \<or> off + n \<le> off' \<or> off' + n' \<le> off"

fun inside :: "nat list \<Rightarrow> piece \<Rightarrow> bool" where
  "inside blocks ((b, off), n) \<longleftrightarrow> b < length blocks \<and> off + n \<le> blocks ! b"

text \<open>The pieces lie inside the blocks, and those in the current block lie before the free part.\<close>

definition arena_inv :: "arena \<Rightarrow> piece list \<Rightarrow> bool" where
  "arena_inv a used \<longleftrightarrow> list_all (inside (ar_blocks a)) used \<and> ar_memory_usage a = sum_list (map (\<lambda>n. n + 8) (ar_blocks a)) \<and>
     (case ar_alloc_ptr a of
        None \<Rightarrow> True
      | Some (b, off) \<Rightarrow> b < length (ar_blocks a) \<and> off + ar_remaining a = ar_blocks a ! b \<and>
          list_all (\<lambda>((b', off'), n). b' = b \<longrightarrow> off' + n \<le> off) used)"

lemma inside_mono: "inside blocks p \<Longrightarrow> inside (blocks @ bs) p"
  by (induction blocks p rule: inside.induct) (auto simp: nth_append)

lemma AllocateFallback_step:
  assumes "arena_inv a used" and "AllocateFallback n a = (p, a')"
  shows "arena_inv a' ((p, n) # used) \<and> list_all (apart (p, n)) used \<and> snd p = 0"
proof -
  let ?n = "length (ar_blocks a)"
  have fresh: "list_all (apart ((?n, off), m)) used" "list_all (\<lambda>((b', off'), k). b' = ?n \<longrightarrow> off' + k \<le> m) used" for off m
    using assms(1) by (auto simp: arena_inv_def list_all_iff)
  have ins: "list_all (inside (ar_blocks a @ bs)) used" for bs
    using assms(1) inside_mono by (auto simp: arena_inv_def list_all_iff simp del: inside.simps)
  show ?thesis
  proof (cases "n > kArenaBlockSize div 4")
    case True
    then have p: "p = (?n, 0)" "a' = a\<lparr>ar_blocks := ar_blocks a @ [n], ar_memory_usage := ar_memory_usage a + (n + 8)\<rparr>"
      using assms(2) by (auto simp: AllocateFallback_def AllocateNewBlock_def)
    have "arena_inv a' ((p, n) # used)"
      using assms(1) ins [of "[n]"] p by (auto simp: arena_inv_def nth_append split: option.splits)
    with p fresh(1) show ?thesis by simp
  next
    case False
    let ?a = "a\<lparr>ar_blocks := ar_blocks a @ [kArenaBlockSize], ar_memory_usage := ar_memory_usage a + (kArenaBlockSize + 8),
      ar_alloc_ptr := Some (?n, n), ar_remaining := kArenaBlockSize - n\<rparr>"
    have p: "p = (?n, 0)" "a' = ?a" using False assms(2) by (auto simp: AllocateFallback_def AllocateNewBlock_def)
    have "arena_inv ?a ((p, n) # used)"
      using assms(1) False ins [of "[kArenaBlockSize]"] fresh(2) [of n] p(1)
      by (simp add: arena_inv_def kArenaBlockSize_def)
    with p fresh(1) show ?thesis by simp
  qed
qed

lemma serve_step:
  assumes "arena_inv a used" and "serve base r a = (p, a')"
  shows "arena_inv a' (p # used) \<and> list_all (apart p) used \<and> snd p = request_size r"
proof -
  have bump: "arena_inv (a\<lparr>ar_alloc_ptr := Some (b, off + (s + n)), ar_remaining := ar_remaining a - (s + n)\<rparr>) (((b, off + s), n) # used) \<and>
      list_all (apart ((b, off + s), n)) used"
    if "ar_alloc_ptr a = Some (b, off)" "s + n \<le> ar_remaining a" for b off n s
    using assms(1) that by (fastforce simp: arena_inv_def list_all_iff)
  show ?thesis
  proof (cases r)
    case (Plain n)
    show ?thesis
    proof (cases "\<exists>b off. ar_alloc_ptr a = Some (b, off) \<and> n \<le> ar_remaining a")
      case True
      with Plain assms(2) bump [of _ _ 0 n] show ?thesis by (auto simp: Allocate_def)
    next
      case False
      then have "serve base r a = (let (p, a) = AllocateFallback n a in ((p, n), a))"
        using Plain by (auto simp: Allocate_def split: option.splits)
      with Plain assms(2) AllocateFallback_step [OF assms(1), of n] show ?thesis by (auto split: prod.splits)
    qed
  next
    case (Aligned n)
    define s where "s = (let m = address base (ar_alloc_ptr a) mod 8 in if m = 0 then 0 else 8 - m)"
    show ?thesis
    proof (cases "\<exists>b off. ar_alloc_ptr a = Some (b, off) \<and> s + n \<le> ar_remaining a")
      case True
      with Aligned assms(2) bump [of _ _ s n] show ?thesis by (auto simp: AllocateAligned_def Let_def s_def ac_simps)
    next
      case False
      then have "serve base r a = (let (p, a) = AllocateFallback n a in ((p, n), a))"
        using Aligned by (auto simp: AllocateAligned_def Let_def s_def ac_simps split: option.splits)
      with Aligned assms(2) AllocateFallback_step [OF assms(1), of n] show ?thesis by (auto split: prod.splits)
    qed
  qed
qed

lemma serve_all_inv:
  "arena_inv a used \<Longrightarrow> serve_all base rs a = (ps, a') \<Longrightarrow>
    arena_inv a' (rev ps @ used) \<and> sorted_wrt apart (rev ps @ used) = sorted_wrt apart used \<and> map snd ps = map request_size rs"
proof (induction rs arbitrary: a used ps a')
  case (Cons r rs)
  obtain p a1 where 1: "serve base r a = (p, a1)" by fastforce
  obtain qs a2 where 2: "serve_all base rs a1 = (qs, a2)" by fastforce
  note s = serve_step [OF Cons.prems(1) 1]
  have "ps = p # qs" "a' = a2" using Cons.prems(2) 1 2 by simp_all
  moreover have "sorted_wrt apart (p # used) = sorted_wrt apart used" using s by (auto simp: list_all_iff)
  ultimately show ?case using Cons.IH [OF _ 2] s by auto
qed simp

lemma AllocateFallback_start: "AllocateFallback n a = (p, a') \<Longrightarrow> snd p = 0"
  by (auto simp: AllocateFallback_def AllocateNewBlock_def split: if_splits)

lemma serve_aligned:
  assumes "\<forall>b. base b mod 8 = 0" and "serve base (Aligned n) a = ((p, m), a')"
  shows "address base (Some p) mod 8 = 0"
proof (cases "fst (AllocateAligned base n a) = fst (AllocateFallback n a)")
  case True
  obtain b off where "p = (b, off)" by (cases p)
  with True assms(2) AllocateFallback_start [of n a] have "off = 0"
    by (cases "AllocateFallback n a") (auto split: prod.splits)
  with assms(1) \<open>p = (b, off)\<close> show ?thesis by (simp add: address_def)
next
  case False
  let ?m = "address base (ar_alloc_ptr a) mod 8"
  let ?s = "if ?m = 0 then 0 else 8 - ?m"
  from False obtain b off where "ar_alloc_ptr a = Some (b, off)" "AllocateAligned base n a = ((b, off + ?s), snd (AllocateAligned base n a))"
    by (auto simp: AllocateAligned_def Let_def split: option.splits if_splits)
  moreover from this have "p = (b, off + ?s)" using assms(2) by (auto split: prod.splits)
  ultimately have "address base (Some p) = address base (ar_alloc_ptr a) + ?s" by (simp add: address_def)
  moreover have "(x + (if x mod 8 = 0 then 0 else 8 - x mod 8)) mod 8 = 0" for x :: nat
  proof (cases "x mod 8 = 0")
    case False
    have "x + (8 - x mod 8) = 8 * (x div 8) + 8" using mult_div_mod_eq [of 8 x] mod_less_divisor [of 8 x] by linarith
    with False show ?thesis by simp
  qed simp
  ultimately show ?thesis by simp
qed

lemma serve_all_aligned:
  assumes "\<forall>b. base b mod 8 = 0"
  shows "serve_all base rs a = (ps, a') \<Longrightarrow>
    list_all2 (\<lambda>r (p, n). (\<exists>n. r = Aligned n) \<longrightarrow> address base (Some p) mod 8 = 0) rs ps"
proof (induction rs arbitrary: a ps)
  case (Cons r rs)
  obtain p n a1 where 1: "serve base r a = ((p, n), a1)" by (metis prod.collapse)
  obtain qs where 2: "serve_all base rs a1 = (qs, a')" "ps = (p, n) # qs" using Cons.prems 1 by (auto split: prod.splits)
  have "(\<exists>k. r = Aligned k) \<longrightarrow> address base (Some p) mod 8 = 0" using serve_aligned [OF assms] 1 by metis
  with Cons.IH [OF 2(1)] 2(2) show ?case by simp
qed simp

text \<open>
  The pieces that any sequence of requests gets lie inside the allocated blocks and do not
  overlap, each has the size that was asked for, and the memory usage is that of the blocks with
  eight bytes more for each; with the blocks at multiples of eight, so are the aligned pieces.
\<close>

theorem arena_pieces_disjoint:
  assumes "serve_all base rs new_Arena = (ps, a)"
  shows "map snd ps = map request_size rs \<and> list_all (inside (ar_blocks a)) ps \<and> sorted_wrt apart (rev ps) \<and>
    ar_memory_usage a = sum_list (map (\<lambda>n. n + 8) (ar_blocks a)) \<and>
    ((\<forall>b. base b mod 8 = 0) \<longrightarrow> list_all2 (\<lambda>r (p, n). (\<exists>n. r = Aligned n) \<longrightarrow> address base (Some p) mod 8 = 0) rs ps)"
proof -
  have "arena_inv new_Arena []" by (simp add: arena_inv_def new_Arena_def)
  note i = serve_all_inv [OF this assms]
  show ?thesis using i serve_all_aligned [OF _ assms] by (simp add: arena_inv_def)
qed

theorem arena_pieces_disjoint_witness:
  "map snd (fst (serve_all (\<lambda>b. b * 4096) [Plain 3, Aligned 40] new_Arena)) = [3, 40]"
proof -
  obtain ps a where s: "serve_all (\<lambda>b. b * 4096) [Plain 3, Aligned 40] new_Arena = (ps, a)" by fastforce
  show ?thesis using arena_pieces_disjoint [OF s] s by simp
qed

end
