(* ===== verification/Ldb_Skiplist.thy ===== *)
theory Ldb_Skiplist
  imports Ldb_Arena "HOL-Library.Monad_Syntax"
begin

text \<open>
  The skip list of the memory table (\<^verbatim>\<open>db/skiplist.h\<close>). A node is an address in the list of nodes (the
  head is node 0), with its key and its next pointers, one for each level up to its height. The
  writer links a new node level by level; the theorems cover the states between those steps, in
  which readers may run.
\<close>

section \<open>The code\<close>

type_synonym 'k sl_node = "'k \<times> nat option list"

record 'k skiplist =
  sl_nodes :: "'k sl_node list"
  sl_max_height :: nat
  sl_rnd :: u32

definition kMaxHeight :: nat where "kMaxHeight = 12"

text \<open>
  The next pointers of a new node are set before they are read; until then they are null here.
  \<^verbatim>\<open>NewNode\<close> takes its memory from the arena, which hands out fresh pieces.
\<close>

definition NewNode :: "'k \<Rightarrow> nat \<Rightarrow> 'k skiplist \<Rightarrow> nat \<times> 'k skiplist" where
  "NewNode key height s =
     (length (sl_nodes s), s\<lparr>sl_nodes := sl_nodes s @ [(key, replicate height None)]\<rparr>)"

text \<open>The head has any key: \<open>junk\<close>.\<close>

definition new_SkipList :: "'k \<Rightarrow> 'k skiplist" where
  "new_SkipList junk =
     snd (NewNode junk kMaxHeight \<lparr>sl_nodes = [], sl_max_height = 1, sl_rnd = new_Random 0xdeadbeef\<rparr>)"

definition node_key :: "'k skiplist \<Rightarrow> nat \<Rightarrow> 'k option" where
  "node_key s x = map_option fst (rd (sl_nodes s) x)"

definition node_next :: "'k skiplist \<Rightarrow> nat \<Rightarrow> nat \<Rightarrow> nat option option" where
  "node_next s x n = do { (k, next) \<leftarrow> rd (sl_nodes s) x; rd next n }"

definition set_next :: "nat \<Rightarrow> nat \<Rightarrow> nat option \<Rightarrow> 'k skiplist \<Rightarrow> 'k skiplist option" where
  "set_next x n y s = do {
     (k, next) \<leftarrow> rd (sl_nodes s) x;
     if n < length next then Some (s\<lparr>sl_nodes := (sl_nodes s)[x := (k, next[n := y])]\<rparr>) else None
   }"

fun RandomHeight_loop :: "nat \<Rightarrow> nat \<Rightarrow> u32 \<Rightarrow> nat \<times> u32" where
  "RandomHeight_loop 0 height rnd = (height, rnd)"
| "RandomHeight_loop (Suc n) height rnd =
     (let rnd = Random_Next rnd in if rnd mod 4 = 0 then RandomHeight_loop n (height + 1) rnd else (height, rnd))"

definition RandomHeight :: "u32 \<Rightarrow> nat \<times> u32" where
  "RandomHeight rnd = RandomHeight_loop (kMaxHeight - 1) 1 rnd"

definition KeyIsAfterNode :: "('k \<Rightarrow> 'k \<Rightarrow> int) \<Rightarrow> 'k skiplist \<Rightarrow> 'k \<Rightarrow> nat option \<Rightarrow> bool option" where
  "KeyIsAfterNode compare s key n =
     (case n of None \<Rightarrow> Some False | Some n \<Rightarrow> do { k \<leftarrow> node_key s n; Some (compare k key < 0) })"

text \<open>
  The loop of the three searches: \<open>go\<close> says whether to move on to the next node of the level; otherwise
  the node is noted in \<open>prev\<close> and the search goes down a level. It ends at level 0 with the node, its
  next node and \<open>prev\<close>.
\<close>

partial_function (option) descend ::
    "(nat option \<Rightarrow> bool option) \<Rightarrow> 'k skiplist \<Rightarrow> nat \<Rightarrow> nat \<Rightarrow> nat option list \<Rightarrow>
      (nat \<times> nat option \<times> nat option list) option" where
  "descend go s x level prev = do {
     next \<leftarrow> node_next s x level;
     b \<leftarrow> go next;
     if b then descend go s (the next) level prev
     else
       let prev = prev[level := Some x] in
       if level = 0 then Some (x, next, prev) else descend go s x (level - 1) prev
   }"

definition FindGreaterOrEqual ::
    "('k \<Rightarrow> 'k \<Rightarrow> int) \<Rightarrow> 'k skiplist \<Rightarrow> 'k \<Rightarrow> nat option list \<Rightarrow> (nat option \<times> nat option list) option" where
  "FindGreaterOrEqual compare s key prev =
     map_option snd (descend (KeyIsAfterNode compare s key) s 0 (sl_max_height s - 1) prev)"

text \<open>It goes on as long as there is a next node and its key is not at or after \<open>key\<close>.\<close>

definition FindLessThan :: "('k \<Rightarrow> 'k \<Rightarrow> int) \<Rightarrow> 'k skiplist \<Rightarrow> 'k \<Rightarrow> nat option" where
  "FindLessThan compare s key =
     map_option fst (descend
       (\<lambda>next. case next of None \<Rightarrow> Some False | Some n \<Rightarrow> do { k \<leftarrow> node_key s n; Some (\<not> compare k key \<ge> 0) })
       s 0 (sl_max_height s - 1) [])"

definition FindLast :: "'k skiplist \<Rightarrow> nat option" where
  "FindLast s = map_option fst (descend (\<lambda>next. Some (next \<noteq> None)) s 0 (sl_max_height s - 1) [])"

definition link_level :: "nat option list \<Rightarrow> nat \<Rightarrow> nat \<Rightarrow> 'k skiplist \<Rightarrow> 'k skiplist option" where
  "link_level prev x i s = do {
     p \<leftarrow> rd prev i;
     p \<leftarrow> p;
     next \<leftarrow> node_next s p i;
     s \<leftarrow> set_next x i next s;
     set_next p i (Some x) s
   }"

fun link_levels :: "nat option list \<Rightarrow> nat \<Rightarrow> nat \<Rightarrow> 'k skiplist \<Rightarrow> 'k skiplist option" where
  "link_levels prev x 0 s = Some s"
| "link_levels prev x (Suc i) s = do { s \<leftarrow> link_levels prev x i s; link_level prev x i s }"

text \<open>What happens before the first link: the new node, with what the linking needs.\<close>

definition prepare_insert ::
    "('k \<Rightarrow> 'k \<Rightarrow> int) \<Rightarrow> 'k \<Rightarrow> 'k skiplist \<Rightarrow> (nat option list \<times> nat \<times> nat \<times> 'k skiplist) option" where
  "prepare_insert compare key s = do {
     (x, prev) \<leftarrow> FindGreaterOrEqual compare s key (replicate kMaxHeight None);
     let (height, rnd) = RandomHeight (sl_rnd s);
     let s = s\<lparr>sl_rnd := rnd\<rparr>;
     let (prev, s) =
       (if height > sl_max_height s
        then (foldl (\<lambda>prev i. prev[i := Some 0]) prev [sl_max_height s..<height], s\<lparr>sl_max_height := height\<rparr>)
        else (prev, s));
     let (x, s) = NewNode key height s;
     Some (prev, x, height, s)
   }"

definition SkipList_Insert :: "('k \<Rightarrow> 'k \<Rightarrow> int) \<Rightarrow> 'k \<Rightarrow> 'k skiplist \<Rightarrow> 'k skiplist option" where
  "SkipList_Insert compare key s = do {
     (prev, x, height, s) \<leftarrow> prepare_insert compare key s;
     link_levels prev x height s
   }"

definition SkipList_Contains :: "('k \<Rightarrow> 'k \<Rightarrow> int) \<Rightarrow> 'k skiplist \<Rightarrow> 'k \<Rightarrow> bool option" where
  "SkipList_Contains compare s key = do {
     (x, prev) \<leftarrow> FindGreaterOrEqual compare s key [];
     case x of None \<Rightarrow> Some False | Some n \<Rightarrow> do { k \<leftarrow> node_key s n; Some (compare key k = 0) }
   }"

text \<open>The iterator is its \<^verbatim>\<open>node_\<close>; \<open>None\<close> inside the result is the null pointer.\<close>

definition SL_key :: "'k skiplist \<Rightarrow> nat option \<Rightarrow> 'k option" where
  "SL_key s node = do { n \<leftarrow> node; node_key s n }"

definition SL_Next :: "'k skiplist \<Rightarrow> nat option \<Rightarrow> nat option option" where
  "SL_Next s node = do { n \<leftarrow> node; node_next s n 0 }"

definition not_head :: "nat \<Rightarrow> nat option" where
  "not_head n = (if n = 0 then None else Some n)"

definition SL_Prev :: "('k \<Rightarrow> 'k \<Rightarrow> int) \<Rightarrow> 'k skiplist \<Rightarrow> nat option \<Rightarrow> nat option option" where
  "SL_Prev compare s node = do {
     n \<leftarrow> node;
     k \<leftarrow> node_key s n;
     n \<leftarrow> FindLessThan compare s k;
     Some (not_head n)
   }"

definition SL_Seek :: "('k \<Rightarrow> 'k \<Rightarrow> int) \<Rightarrow> 'k skiplist \<Rightarrow> 'k \<Rightarrow> nat option option" where
  "SL_Seek compare s target = map_option fst (FindGreaterOrEqual compare s target [])"

definition SL_SeekToFirst :: "'k skiplist \<Rightarrow> nat option option" where
  "SL_SeekToFirst s = node_next s 0 0"

definition SL_SeekToLast :: "'k skiplist \<Rightarrow> nat option option" where
  "SL_SeekToLast s = map_option not_head (FindLast s)"

section \<open>The nodes in order\<close>

text \<open>
  \<open>order\<close> is the list of all nodes but the head in the order of their keys, and \<open>H\<close> the number of
  levels at which a node is linked: its height, or less while it is being inserted. On each level, a
  node points to the next one that is linked there.
\<close>

definition linked :: "nat \<Rightarrow> (nat \<Rightarrow> nat) \<Rightarrow> nat list \<Rightarrow> nat option" where
  "linked l H ys = find (\<lambda>b. l < H b) ys"

definition sl_rep :: "'k skiplist \<Rightarrow> nat list \<Rightarrow> (nat \<Rightarrow> nat) \<Rightarrow> bool" where
  "sl_rep s order H \<longleftrightarrow>
     distinct (0 # order) \<and> set (0 # order) \<subseteq> {..<length (sl_nodes s)} \<and>
     1 \<le> sl_max_height s \<and> sl_max_height s \<le> H 0 \<and> H 0 = kMaxHeight \<and> (\<forall>a \<in> set order. H a \<le> sl_max_height s) \<and>
     (\<forall>xs a ys l. 0 # order = xs @ a # ys \<longrightarrow> l < H a \<longrightarrow> node_next s a l = Some (linked l H ys))"

definition skey :: "'k skiplist \<Rightarrow> nat \<Rightarrow> 'k" where
  "skey s a = fst (sl_nodes s ! a)"

lemma node_key_skey: "a < length (sl_nodes s) \<Longrightarrow> node_key s a = Some (skey s a)"
  by (simp add: node_key_def rd_def skey_def)

lemma rep_node_key: "sl_rep s order H \<Longrightarrow> a \<in> set (0 # order) \<Longrightarrow> node_key s a = Some (skey s a)"
  by (auto simp: sl_rep_def intro!: node_key_skey)

lemma rep_next: "sl_rep s order H \<Longrightarrow> 0 # order = xs @ a # ys \<Longrightarrow> l < H a \<Longrightarrow> node_next s a l = Some (linked l H ys)"
  unfolding sl_rep_def by blast

lemma linked_append: "linked l H (xs @ ys) = (case linked l H xs of None \<Rightarrow> linked l H ys | Some b \<Rightarrow> Some b)"
  by (induction xs) (simp_all add: linked_def)

lemma linked_None_iff: "linked l H xs = None \<longleftrightarrow> (\<forall>b \<in> set xs. \<not> l < H b)"
  by (auto simp: linked_def find_None_iff)

lemma linked_SomeD:
  assumes "linked l H ys = Some b"
  obtains us vs where "ys = us @ b # vs" and "l < H b" and "\<forall>u \<in> set us. \<not> l < H u"
proof -
  from assms obtain i where i: "i < length ys" "l < H (ys ! i)" "b = ys ! i" "\<forall>j < i. \<not> l < H (ys ! j)"
    by (auto simp: linked_def find_Some_iff)
  show thesis
  proof (rule that [of "take i ys" "drop (Suc i) ys"])
    show "ys = take i ys @ b # drop (Suc i) ys" using i by (simp add: id_take_nth_drop)
    show "\<forall>u \<in> set (take i ys). \<not> l < H u" using i(1,4) by (auto simp: in_set_conv_nth)
  qed (use i in simp)
qed

text \<open>The last node of \<open>as\<close>, or the head, that is linked at a level.\<close>

definition pred_at :: "nat \<Rightarrow> (nat \<Rightarrow> nat) \<Rightarrow> nat list \<Rightarrow> nat" where
  "pred_at l H as = last (filter (\<lambda>a. l < H a) (0 # as))"

lemma pred_at_eq:
  assumes "0 # as = xs @ x # zs" and "l < H x" and "\<forall>z \<in> set zs. \<not> l < H z"
  shows "pred_at l H as = x"
proof -
  have "filter (\<lambda>a. l < H a) zs = []" using assms(3) by (simp add: filter_empty_conv)
  then have "filter (\<lambda>a. l < H a) (0 # as) = filter (\<lambda>a. l < H a) xs @ [x]" using assms(1,2) by simp
  then show ?thesis by (simp add: pred_at_def)
qed

lemma pred_at_split:
  assumes "l < H 0"
  obtains ws zs where "0 # as = ws @ pred_at l H as # zs" and "l < H (pred_at l H as)" and "\<forall>z \<in> set zs. \<not> l < H z"
proof -
  have "\<exists>a \<in> set (0 # as). l < H a" using assms by auto
  from split_list_last_prop [OF this] obtain ws a zs where
    "0 # as = ws @ a # zs" "l < H a" "\<forall>z \<in> set zs. \<not> l < H z" by blast
  with pred_at_eq [OF this] show thesis by (intro that) simp_all
qed

section \<open>Searching\<close>

text \<open>
  A search goes on over the nodes \<open>as\<close> and stops in front of \<open>bs\<close>. It ends, with the last linked node
  of \<open>as\<close> on each level and the first linked node of \<open>bs\<close>.
\<close>

lemma descend_at:
  assumes rep: "sl_rep s order H" and order: "order = as @ bs" and go0: "go None = Some False"
    and go: "\<forall>a \<in> set as. go (Some a) = Some True" "\<forall>b \<in> set bs. go (Some b) = Some False"
  shows "0 # order = xs @ x # ys \<Longrightarrow> x \<in> set (0 # as) \<Longrightarrow> level < H x \<Longrightarrow>
    \<exists>prev'. descend go s x level prev = Some (pred_at 0 H as, linked 0 H bs, prev') \<and> length prev' = length prev \<and>
      (\<forall>l < length prev. prev' ! l = (if l \<le> level then Some (pred_at l H as) else prev ! l))"
proof (induction "level + length ys" arbitrary: xs x ys level prev rule: less_induct)
  case less
  have d: "distinct (0 # order)" using rep by (simp add: sl_rep_def)
  obtain xs' zs where xz: "0 # as = xs' @ x # zs" using less.prems(2) by (metis in_set_conv_decomp)
  then have "xs @ x # ys = xs' @ x # zs @ bs" using less.prems(1) order by (metis append.assoc append_Cons)
  moreover have "x \<notin> set xs" "x \<notin> set ys" using d unfolding less.prems(1) by simp_all
  ultimately have ys: "ys = zs @ bs" using append_Cons_eq_iff [of x xs ys xs' "zs @ bs"] by simp
  have nxt: "node_next s x level = Some (linked level H ys)" by (rule rep_next [OF rep less.prems(1,3)])
  show ?case
  proof (cases "linked level H zs")
    case (Some b)
    then have l: "linked level H ys = Some b" by (simp add: ys linked_append)
    from linked_SomeD [OF Some] obtain us vs where b: "zs = us @ b # vs" "level < H b" by metis
    have "b \<in> set (0 # as)" using xz b(1) by simp
    moreover have "b \<noteq> 0" using d xz b(1) order by (metis append_Cons distinct.simps(2) distinct_append in_set_conv_decomp list.sel(3) not_Cons_self2 tl_append2 Un_iff set_append append_is_Nil_conv append_self_conv2 list.inject)
    ultimately have "go (Some b) = Some True" using go(1) by simp
    then have "descend go s x level prev = descend go s b level prev"
      using nxt l by (subst descend.simps) simp
    moreover have "0 # order = (xs @ x # us) @ b # (vs @ bs)" using less.prems(1) ys b(1) by simp
    ultimately show ?thesis using less(1) [of level "vs @ bs" _ b prev] b ys \<open>b \<in> set (0 # as)\<close> by simp
  next
    case None
    then have l: "linked level H ys = linked level H bs" by (simp add: ys linked_append)
    then have "go (linked level H ys) = Some False"
      using go0 go(2) by (cases "linked level H bs") (auto elim: linked_SomeD)
    then have step: "descend go s x level prev =
        (if level = 0 then Some (x, linked level H bs, prev[level := Some x]) else descend go s x (level - 1) (prev[level := Some x]))"
      using nxt l by (subst descend.simps) simp
    have p: "pred_at level H as = x"
      using pred_at_eq [of as xs' x zs level H] xz less.prems(3) None by (simp add: linked_None_iff)
    show ?thesis
    proof (cases level)
      case 0
      with step p show ?thesis by (auto simp: nth_list_update)
    next
      case (Suc m)
      then have "m < H x" using less.prems(3) by simp
      from less(1) [OF _ less.prems(1,2) this, of "prev[level := Some x]"] Suc obtain prev' where
        "descend go s x m (prev[level := Some x]) = Some (pred_at 0 H as, linked 0 H bs, prev')" "length prev' = length prev"
        "\<forall>l < length prev. prev' ! l = (if l \<le> m then Some (pred_at l H as) else prev[level := Some x] ! l)" by auto
      with step Suc p show ?thesis by (intro exI [of _ prev']) (auto simp: nth_list_update le_Suc_eq)
    qed
  qed
qed

lemma descend_head:
  assumes "sl_rep s order H" and "order = as @ bs" and "go None = Some False"
    and "\<forall>a \<in> set as. go (Some a) = Some True" and "\<forall>b \<in> set bs. go (Some b) = Some False"
  shows "\<exists>prev'. descend go s 0 (sl_max_height s - 1) prev = Some (pred_at 0 H as, linked 0 H bs, prev') \<and>
    length prev' = length prev \<and>
    (\<forall>l < length prev. prev' ! l = (if l < sl_max_height s then Some (pred_at l H as) else prev ! l))"
proof -
  have "sl_max_height s - 1 < H 0" and m: "1 \<le> sl_max_height s" using assms(1) by (auto simp: sl_rep_def)
  then have *: "l \<le> sl_max_height s - 1 \<longleftrightarrow> l < sl_max_height s" for l by auto
  show ?thesis
    using descend_at [OF assms, of "[]" 0 order "sl_max_height s - 1" prev] \<open>sl_max_height s - 1 < H 0\<close>
    unfolding * by simp
qed

section \<open>Linking a level\<close>

lemma set_next_other: "set_next x n y s = Some s' \<Longrightarrow> a \<noteq> x \<or> l \<noteq> n \<Longrightarrow> node_next s' a l = node_next s a l"
  by (cases "a = x") (auto simp: set_next_def node_next_def rd_def split: Option.bind_splits if_splits prod.splits)

lemma set_next_same: "set_next x n y s = Some s' \<Longrightarrow> node_next s' x n = Some y"
  by (auto simp: set_next_def node_next_def rd_def split: Option.bind_splits if_splits prod.splits)

lemma set_next_frame:
  "set_next x n y s = Some s' \<Longrightarrow> length (sl_nodes s') = length (sl_nodes s) \<and> sl_max_height s' = sl_max_height s \<and>
    sl_rnd s' = sl_rnd s \<and> skey s' a = skey s a \<and> length (snd (sl_nodes s' ! a)) = length (snd (sl_nodes s ! a))"
  by (auto simp: set_next_def rd_def skey_def nth_list_update split: if_splits prod.splits)

lemma set_next_ok: "x < length (sl_nodes s) \<Longrightarrow> n < length (snd (sl_nodes s ! x)) \<Longrightarrow> \<exists>s'. set_next x n y s = Some s'"
  by (auto simp: set_next_def rd_def split: prod.splits)

lemma node_next_bound: "node_next s a l = Some y \<Longrightarrow> a < length (sl_nodes s) \<and> l < length (snd (sl_nodes s ! a))"
  by (auto simp: node_next_def rd_def split: Option.bind_splits if_splits prod.splits)

lemma linked_cong: "(\<And>b. b \<in> set ys \<Longrightarrow> l < H b \<longleftrightarrow> l < H' b) \<Longrightarrow> linked l H ys = linked l H' ys"
  by (induction ys) (auto simp: linked_def)

lemma split_unique:
  assumes "distinct (us @ a # ys)" and "us @ a # ys = ws @ a # zs"
  shows "us = ws \<and> ys = zs"
proof -
  have "a \<notin> set us" "a \<notin> set ys" using assms(1) by simp_all
  with append_Cons_eq_iff [of a us ys ws zs] assms(2) show ?thesis by simp
qed

lemma split_at:
  assumes "us @ a # vs = ws @ p # zs" and "a \<noteq> p"
  shows "p \<in> set vs \<or> a \<in> set zs"
proof -
  from assms(1) obtain t where "us = ws @ t \<and> t @ a # vs = p # zs \<or> us @ t = ws \<and> a # vs = t @ p # zs"
    by (auto simp: append_eq_append_conv2)
  with assms(2) show ?thesis by (cases t) auto
qed

lemma split_before:
  assumes "distinct (us @ a # ys)" and "us @ a # ys = xs @ x # bs" and "x \<in> set ys"
  obtains vs where "ys = vs @ x # bs" and "xs = us @ a # vs"
proof -
  from assms(3) obtain vs bs' where v: "ys = vs @ x # bs'" by (metis in_set_conv_decomp)
  then have "(us @ a # vs) @ x # bs' = xs @ x # bs" using assms(2) by simp
  with split_unique [of "us @ a # vs" x bs' xs bs] assms(1) v show thesis by (intro that) auto
qed

lemma link_next:
  assumes dist: "distinct (0 # as @ x # bs)" and Hx: "H x = i"
    and old: "\<And>us a ys l. 0 # as @ x # bs = us @ a # ys \<Longrightarrow> l < H a \<Longrightarrow> N a l = Some (linked l H ys)"
    and w: "0 # as = ws @ p # zs" "i < H p" "\<forall>z \<in> set zs. \<not> i < H z"
    and split: "0 # as @ x # bs = us @ a # ys" and l: "l < (H(x := Suc i)) a"
  shows "(if a = p \<and> l = i then Some (Some x) else if a = x \<and> l = i then Some (linked i H bs) else N a l) =
    Some (linked l (H(x := Suc i)) ys)"
proof -
  let ?H = "H(x := Suc i)"
  have full: "0 # as @ x # bs = ws @ p # zs @ x # bs" using w(1) by (metis append.assoc append_Cons)
  have px: "p \<noteq> x" using w(2) Hx by auto
  show ?thesis
  proof (cases "x \<in> set ys")
    case False
    then have same: "linked l ?H ys = linked l H ys" by (intro linked_cong) auto
    have da: "distinct (us @ a # ys)" using dist unfolding split [symmetric] .
    have "a \<noteq> p"
    proof
      assume "a = p"
      then have "us @ a # ys = ws @ a # (zs @ x # bs)" using split full by simp
      with split_unique [OF da] False show False by auto
    qed
    moreover have "linked i H ys = linked i H bs" if "a = x"
      using split_unique [of us a ys "0 # as" bs] da split that by simp
    moreover have "l < H a" if "\<not> (a = x \<and> l = i)" using that l Hx by (auto split: if_splits)
    ultimately show ?thesis using same old [OF split] by auto
  next
    case True
    have da: "distinct (us @ a # ys)" using dist unfolding split [symmetric] .
    then have ax: "a \<noteq> x" using True by auto
    obtain vs where v: "ys = vs @ x # bs" "0 # as = us @ a # vs"
      using split_before [OF da _ True, of "0 # as" bs] split by auto
    then have lv: "linked l ?H vs = linked l H vs" using da by (intro linked_cong) auto
    have old: "N a l = Some (linked l H ys)" using old [OF split] l ax by simp
    show ?thesis
    proof (cases "l = i")
      case False
      then have "linked l ?H ys = linked l H ys" using Hx by (intro linked_cong) auto
      with False old show ?thesis by simp
    next
      case True
      show ?thesis
      proof (cases "a = p")
        case ap: True
        then have "vs = zs" using split_unique [of us a vs ws zs] da v w(1) by auto
        then have "linked l ?H vs = None" using lv w(3) True by (simp add: linked_None_iff)
        with ap True show ?thesis by (simp add: v(1) linked_append) (simp add: linked_def)
      next
        case False
        have "us @ a # vs = ws @ p # zs" using v(2) w(1) by simp
        from split_at [OF this False] have "p \<in> set vs" using w(3) l ax True by auto
        then have "linked i H vs \<noteq> None" using w(2) by (auto simp: linked_None_iff)
        with True False ax old lv show ?thesis by (auto simp: v(1) linked_append)
      qed
    qed
  qed
qed

text \<open>
  Linking \<open>x\<close>, which stands behind \<open>as\<close> and is linked below level \<open>i\<close>, at that level: it is reached
  from then on at one level more, and nothing else changes.
\<close>

lemma link_level_rep:
  assumes rep: "sl_rep s (as @ x # bs) H" and Hx: "H x = i" and i: "i < sl_max_height s" "i < length (snd (sl_nodes s ! x))"
    and prev: "rd prev i = Some (Some (pred_at i H as))"
  shows "\<exists>s'. link_level prev x i s = Some s' \<and> sl_rep s' (as @ x # bs) (H(x := Suc i)) \<and>
    sl_max_height s' = sl_max_height s \<and> sl_rnd s' = sl_rnd s \<and>
    length (sl_nodes s') = length (sl_nodes s) \<and> (\<forall>a. skey s' a = skey s a \<and> length (snd (sl_nodes s' ! a)) = length (snd (sl_nodes s ! a)))"
proof -
  let ?p = "pred_at i H as" and ?H = "H(x := Suc i)"
  have dist: "distinct (0 # as @ x # bs)" and x: "x < length (sl_nodes s)" and m: "sl_max_height s \<le> H 0" "1 \<le> sl_max_height s"
    using rep by (auto simp: sl_rep_def)
  have "i < H 0" using i(1) m(1) by simp
  from pred_at_split [of i H as, OF this] obtain ws zs where w: "0 # as = ws @ ?p # zs" "i < H ?p" "\<forall>z \<in> set zs. \<not> i < H z" by blast
  have full: "0 # as @ x # bs = ws @ ?p # zs @ x # bs" using w(1) by (metis append.assoc append_Cons)
  have px: "?p \<noteq> x" using w(2) Hx by auto
  have "linked i H zs = None" using w(3) by (simp add: linked_None_iff)
  then have np: "node_next s ?p i = Some (linked i H bs)"
    using rep_next [OF rep full w(2)] Hx by (simp add: linked_append) (simp add: linked_def)
  obtain s1 where s1: "set_next x i (linked i H bs) s = Some s1" using set_next_ok [OF x i(2)] by blast
  note f1 = set_next_frame [OF s1]
  obtain s2 where s2: "set_next ?p i (Some x) s1 = Some s2"
    using set_next_ok [of ?p s1 i] node_next_bound [OF np] f1 by auto
  note f2 = set_next_frame [OF s2]
  have nn: "node_next s2 a l = (if a = ?p \<and> l = i then Some (Some x) else if a = x \<and> l = i then Some (linked i H bs) else node_next s a l)" for a l
    using set_next_same [OF s2] set_next_other [OF s2, of a l] set_next_same [OF s1] set_next_other [OF s1, of a l] px by auto
  have "node_next s2 a l = Some (linked l ?H ys)"
    if "0 # as @ x # bs = us @ a # ys" "l < ?H a" for us a ys l
    unfolding nn using link_next [of as x bs H i "node_next s" ws ?p zs us a ys l] dist Hx rep_next [OF rep] w that by blast
  then have "sl_rep s2 (as @ x # bs) ?H"
    using rep f1 f2 i(1) dist unfolding sl_rep_def by auto
  moreover have "link_level prev x i s = Some s2" using prev np s1 s2 by (simp add: link_level_def)
  ultimately show ?thesis using f1 f2 by auto
qed

section \<open>Inserting\<close>

lemma RandomHeight_range: "RandomHeight rnd = (h, rnd') \<Longrightarrow> 1 \<le> h \<and> h \<le> kMaxHeight"
proof -
  have "RandomHeight_loop n height rnd = (h, rnd') \<Longrightarrow> height \<le> h \<and> h \<le> height + n" for n height
    by (induction n height rnd rule: RandomHeight_loop.induct) (auto simp: Let_def split: if_splits)
  then show "RandomHeight rnd = (h, rnd') \<Longrightarrow> 1 \<le> h \<and> h \<le> kMaxHeight"
    by (force simp: RandomHeight_def kMaxHeight_def)
qed

text \<open>The new node is there, and no level leads to it.\<close>

lemma NewNode_rep:
  assumes rep: "sl_rep s (as @ bs) H" and n: "NewNode k h s = (x, s')"
  shows "sl_rep s' (as @ x # bs) (H(x := 0)) \<and> x \<noteq> 0 \<and> x \<notin> set (as @ bs) \<and> skey s' x = k \<and> length (snd (sl_nodes s' ! x)) = h \<and>
    sl_max_height s' = sl_max_height s \<and> (\<forall>a \<in> set (as @ bs). skey s' a = skey s a)"
proof -
  have x: "x = length (sl_nodes s)" and s': "s' = s\<lparr>sl_nodes := sl_nodes s @ [(k, replicate h None)]\<rparr>"
    using n by (auto simp: NewNode_def)
  have less: "a < x" if "a \<in> set (0 # as @ bs)" for a using rep that x by (auto simp: sl_rep_def)
  have same: "node_next s' a l = node_next s a l" if "a < x" for a l
    using that by (simp add: node_next_def rd_def s' x nth_append)
  have "node_next s' a l = Some (linked l (H(x := 0)) ys)"
    if split: "0 # as @ x # bs = us @ a # ys" and l: "l < (H(x := 0)) a" for us a ys l
  proof -
    have ax: "a \<noteq> x" using l by auto
    have mem: "a \<in> set (0 # as @ bs)" using split ax by (metis Un_iff append_Cons in_set_conv_decomp set_ConsD set_append)
    have removed: "0 # as @ bs = removeAll x us @ a # removeAll x ys"
    proof -
      have "x \<notin> set (0 # as @ bs)" using less [of x] by blast
      then have "removeAll x (0 # as @ x # bs) = 0 # as @ bs" by simp
      then show ?thesis using split ax by simp
    qed
    have "linked l (H(x := 0)) ys = linked l H (removeAll x ys)" by (induction ys) (auto simp: linked_def)
    then show ?thesis using rep_next [OF rep removed] l ax same [OF less [OF mem]] by simp
  qed
  moreover have "x \<noteq> 0" "x \<notin> set (as @ bs)" using less by fastforce+
  moreover have "distinct (0 # as @ bs)" using rep by (simp add: sl_rep_def)
  then have "distinct (0 # as @ x # bs)" using \<open>x \<noteq> 0\<close> \<open>x \<notin> set (as @ bs)\<close> by auto
  moreover have "set (0 # as @ x # bs) \<subseteq> {..<length (sl_nodes s')}"
  proof
    fix a assume "a \<in> set (0 # as @ x # bs)"
    then have "a \<in> set (0 # as @ bs) \<or> a = x" by auto
    then show "a \<in> {..<length (sl_nodes s')}" using less [of a] x s' by auto
  qed
  moreover have "skey s' a = skey s a" if "a \<in> set (as @ bs)" for a using less [of a] that by (simp add: skey_def s' x nth_append)
  moreover have "skey s' x = k" "length (snd (sl_nodes s' ! x)) = h" by (simp_all add: skey_def s' x)
  moreover have "1 \<le> sl_max_height s" "sl_max_height s \<le> H 0" "H 0 = kMaxHeight" "\<forall>a \<in> set (as @ bs). H a \<le> sl_max_height s"
      "sl_max_height s' = sl_max_height s"
    using rep s' by (auto simp: sl_rep_def)
  ultimately show ?thesis unfolding sl_rep_def by (auto simp del: append_Cons)
qed

lemma pred_at_upd: "x \<notin> set (0 # as) \<Longrightarrow> pred_at l (H(x := n)) as = pred_at l H as"
  unfolding pred_at_def by (rule arg_cong [where f = last], rule filter_cong) auto

lemma link_levels_rep:
  assumes "sl_rep s (as @ x # bs) (H(x := 0))" and "i \<le> sl_max_height s" and "i \<le> length (snd (sl_nodes s ! x))"
    and "\<forall>l < i. rd prev l = Some (Some (pred_at l H as))"
  shows "\<exists>s'. link_levels prev x i s = Some s' \<and> sl_rep s' (as @ x # bs) (H(x := i)) \<and>
    sl_max_height s' = sl_max_height s \<and> (\<forall>a. skey s' a = skey s a \<and> length (snd (sl_nodes s' ! a)) = length (snd (sl_nodes s ! a)))"
  using assms(2-4)
proof (induction i)
  case 0
  show ?case by (rule exI [of _ s]) (simp only: link_levels.simps assms(1) simp_thms)
next
  case (Suc i)
  then have "i \<le> sl_max_height s" "i \<le> length (snd (sl_nodes s ! x))" "\<forall>l < i. rd prev l = Some (Some (pred_at l H as))"
    by auto
  from Suc.IH [OF this] obtain s1 where s1: "link_levels prev x i s = Some s1" "sl_rep s1 (as @ x # bs) (H(x := i))"
      "sl_max_height s1 = sl_max_height s" "\<forall>a. skey s1 a = skey s a \<and> length (snd (sl_nodes s1 ! a)) = length (snd (sl_nodes s ! a))"
    by blast
  have "x \<notin> set (0 # as)" using s1(2) by (auto simp: sl_rep_def)
  then have "rd prev i = Some (Some (pred_at i (H(x := i)) as))" using Suc.prems(3) pred_at_upd by simp
  moreover have "(H(x := i)) x = i" "i < sl_max_height s1" "i < length (snd (sl_nodes s1 ! x))"
    using Suc.prems(1,2) s1(3,4) by simp_all
  ultimately obtain s2 where s2: "link_level prev x i s1 = Some s2" "sl_rep s2 (as @ x # bs) ((H(x := i))(x := Suc i))"
      "sl_max_height s2 = sl_max_height s1" "\<forall>a. skey s2 a = skey s1 a \<and> length (snd (sl_nodes s2 ! a)) = length (snd (sl_nodes s1 ! a))"
    using link_level_rep [OF s1(2), of i prev] by blast
  have "sl_rep s2 (as @ x # bs) (H(x := Suc i))" using s2(2) by (simp only: fun_upd_upd)
  moreover have "link_levels prev x (Suc i) s = Some s2" using s1(1) s2(1) by simp
  ultimately show ?case using s1(3,4) s2(3,4) by metis
qed

lemma foldl_heads:
  assumes "j \<le> length prev"
  shows "length (foldl (\<lambda>prev i. prev[i := Some 0]) prev [i..<j]) = length prev \<and>
    (\<forall>l < length prev. foldl (\<lambda>prev i. prev[i := Some 0]) prev [i..<j] ! l = (if i \<le> l \<and> l < j then Some 0 else prev ! l))"
  using assms
proof (induction j)
  case (Suc j)
  then show ?case by (cases "i \<le> j") (auto simp: nth_list_update)
qed simp

text \<open>
  \<open>as\<close> are the nodes before the new key and \<open>bs\<close> those behind it. After each number of links the
  structure is that of a list in which the new node is linked at as many levels.
\<close>

lemma insert_steps:
  assumes rep: "sl_rep s (as @ bs) H" and as: "\<forall>a \<in> set as. compare (skey s a) key < 0"
    and bs: "\<forall>b \<in> set bs. \<not> compare (skey s b) key < 0"
  shows "\<exists>prev x h s1. prepare_insert compare key s = Some (prev, x, h, s1) \<and> 1 \<le> h \<and> x \<notin> set (0 # as @ bs) \<and>
    (\<forall>i \<le> h. \<exists>s2. link_levels prev x i s1 = Some s2 \<and> sl_rep s2 (as @ x # bs) (H(x := i)) \<and> skey s2 x = key \<and>
      (\<forall>a \<in> set (as @ bs). skey s2 a = skey s a))"
proof -
  let ?go = "KeyIsAfterNode compare s key"
  have go: "?go None = Some False" "\<forall>a \<in> set as. ?go (Some a) = Some True" "\<forall>b \<in> set bs. ?go (Some b) = Some False"
    using as bs rep_node_key [OF rep] by (auto simp: KeyIsAfterNode_def)
  obtain prev where prev: "FindGreaterOrEqual compare s key (replicate kMaxHeight None) = Some (linked 0 H bs, prev)"
      "length prev = kMaxHeight" "\<forall>l < kMaxHeight. l < sl_max_height s \<longrightarrow> prev ! l = Some (pred_at l H as)"
    using descend_head [OF rep refl go, of "replicate kMaxHeight None"] by (auto simp: FindGreaterOrEqual_def)
  obtain h rnd where h: "RandomHeight (sl_rnd s) = (h, rnd)" by fastforce
  note hr = RandomHeight_range [OF h]
  let ?m = "sl_max_height s"
  define s0 where "s0 = (if h > ?m then s\<lparr>sl_rnd := rnd, sl_max_height := h\<rparr> else s\<lparr>sl_rnd := rnd\<rparr>)"
  define prev0 where "prev0 = (if h > ?m then foldl (\<lambda>prev i. prev[i := Some 0]) prev [?m..<h] else prev)"
  obtain x s1 where n: "NewNode key h s0 = (x, s1)" by fastforce
  have rep0: "sl_rep s0 (as @ bs) H"
    using rep hr unfolding sl_rep_def s0_def node_next_def by (auto intro: le_trans less_imp_le)
  have m0: "h \<le> sl_max_height s0" and k0: "skey s0 a = skey s a" for a by (auto simp: s0_def skey_def)
  have p0: "rd prev0 l = Some (Some (pred_at l H as))" if "l < h" for l
  proof -
    have l: "l < kMaxHeight" using that hr by simp
    have "pred_at l H as = 0" if "?m \<le> l"
    proof -
      have "\<forall>a \<in> set as. H a \<le> ?m" using rep by (auto simp: sl_rep_def)
      then have "filter (\<lambda>a. l < H a) as = []" using that by (auto simp: filter_empty_conv)
      then show ?thesis using rep l by (simp add: pred_at_def sl_rep_def)
    qed
    then show ?thesis using foldl_heads [of h prev ?m] prev(2,3) l that hr by (auto simp: prev0_def rd_def)
  qed
  have "prepare_insert compare key s = Some (prev0, x, h, s1)"
    using prev(1) h n by (auto simp: prepare_insert_def prev0_def s0_def)
  moreover note N = NewNode_rep [OF rep0 n]
  moreover have "\<exists>s2. link_levels prev0 x i s1 = Some s2 \<and> sl_rep s2 (as @ x # bs) (H(x := i)) \<and> skey s2 x = key \<and>
      (\<forall>a \<in> set (as @ bs). skey s2 a = skey s a)" if "i \<le> h" for i
  proof -
    have "sl_rep s1 (as @ x # bs) (H(x := 0))" "i \<le> sl_max_height s1" "i \<le> length (snd (sl_nodes s1 ! x))"
      "\<forall>l < i. rd prev0 l = Some (Some (pred_at l H as))"
      using N m0 p0 that by auto
    from link_levels_rep [OF this] obtain s2 where s2: "link_levels prev0 x i s1 = Some s2"
      "sl_rep s2 (as @ x # bs) (H(x := i))" "\<forall>a. skey s2 a = skey s1 a" by blast
    then show ?thesis using N k0 by (intro exI [of _ s2]) simp
  qed
  ultimately show ?thesis using hr by auto
qed

text \<open>The iterator stands at the node of a position, or is null behind the last one.\<close>

definition node_at :: "nat list \<Rightarrow> nat \<Rightarrow> nat option" where
  "node_at order i = (if i < length order then Some (order ! i) else None)"

text \<open>
  What a search of the list has to find among its keys: the first key at or after the target, if there is
  one.
\<close>

definition first_from :: "('k \<Rightarrow> 'k \<Rightarrow> int) \<Rightarrow> 'k set \<Rightarrow> 'k \<Rightarrow> 'k option \<Rightarrow> bool" where
  "first_from compare K target r \<longleftrightarrow>
     (case r of None \<Rightarrow> \<forall>k \<in> K. compare k target < 0
      | Some k \<Rightarrow> k \<in> K \<and> \<not> compare k target < 0 \<and> (\<forall>k' \<in> K. k' \<noteq> k \<longrightarrow> compare k' target < 0 \<or> compare k k' < 0))"

section \<open>A list of keys\<close>

text \<open>What the list asks of its comparator.\<close>

locale skip_order =
  fixes ok :: "'k \<Rightarrow> bool" and compare :: "'k \<Rightarrow> 'k \<Rightarrow> int"
  assumes less_sym: "ok a \<Longrightarrow> ok b \<Longrightarrow> compare a b < 0 \<longleftrightarrow> compare b a > 0"
    and less_trans: "ok a \<Longrightarrow> ok b \<Longrightarrow> ok c \<Longrightarrow> compare a b < 0 \<Longrightarrow> compare b c < 0 \<Longrightarrow> compare a c < 0"
begin

definition sorted_keys :: "'k list \<Rightarrow> bool" where
  "sorted_keys ks \<longleftrightarrow> list_all ok ks \<and> sorted_wrt (\<lambda>a b. compare a b < 0) ks"

definition complete :: "'k skiplist \<Rightarrow> nat list \<Rightarrow> bool" where
  "complete s order \<longleftrightarrow> (\<exists>H. sl_rep s order H \<and> (\<forall>a \<in> set order. 1 \<le> H a)) \<and> sorted_keys (map (skey s) order)"

lemma sorted_before:
  assumes "sorted_keys ks" and "ok target" and "k \<in> set (dropWhile (\<lambda>k. compare k target < 0) ks)"
  shows "\<not> compare k target < 0"
proof
  assume l: "compare k target < 0"
  let ?d = "dropWhile (\<lambda>k. compare k target < 0) ks"
  have "?d \<noteq> []" using assms(3) by (metis empty_iff list.set(1))
  then obtain d ds where d: "?d = d # ds" "\<not> compare d target < 0" by (metis hd_dropWhile list.exhaust list.sel(1))
  have sd: "sorted_keys ?d"
    using assms(1) by (metis dropWhile_eq_drop list_all_append append_take_drop_id sorted_keys_def sorted_wrt_drop)
  with d assms(3) l have "compare d k < 0" "ok d" "ok k" by (auto simp: sorted_keys_def list_all_iff)
  with less_trans [of d k target] assms(2) l d(2) show False by blast
qed

lemma sorted_insert:
  assumes "sorted_keys (a @ b)" and "ok key" and "\<forall>k \<in> set a. compare k key < 0" and "\<forall>k \<in> set b. compare key k < 0"
  shows "sorted_keys (a @ key # b)"
  using assms by (auto simp: sorted_keys_def sorted_wrt_append)

lemma sorted_splice:
  assumes "sorted_keys ks" and "ok key" and "\<forall>k \<in> set ks. compare k key \<noteq> 0"
  shows "sorted_keys (takeWhile (\<lambda>k. compare k key < 0) ks @ key # dropWhile (\<lambda>k. compare k key < 0) ks)"
proof -
  let ?a = "takeWhile (\<lambda>k. compare k key < 0) ks" and ?b = "dropWhile (\<lambda>k. compare k key < 0) ks"
  have ab: "sorted_keys (?a @ ?b)" using assms(1) by simp
  have okb: "ok k" if "k \<in> set ks" for k using assms(1) that by (auto simp: sorted_keys_def list_all_iff)
  have "compare k key < 0" if "k \<in> set ?a" for k using that by (meson set_takeWhileD)
  moreover have "compare key k < 0" if "k \<in> set ?b" for k
    using sorted_before [OF assms(1,2) that] less_sym [of key k] assms(2,3) set_dropWhileD [OF that] okb by (metis linorder_neqE_linordered_idom)
  ultimately show ?thesis using sorted_insert [OF ab assms(2)] by blast
qed

lemma split_order:
  fixes s :: "'k skiplist"
  defines "as order target \<equiv> takeWhile (\<lambda>a. compare (skey s a) target < 0) order"
    and "bs order target \<equiv> dropWhile (\<lambda>a. compare (skey s a) target < 0) order"
  assumes "sorted_keys (map (skey s) order)" and "ok target"
  shows "order = as order target @ bs order target" and "\<forall>a \<in> set (as order target). compare (skey s a) target < 0"
    and "\<forall>b \<in> set (bs order target). \<not> compare (skey s b) target < 0"
    and "map (skey s) (as order target) = takeWhile (\<lambda>k. compare k target < 0) (map (skey s) order)"
    and "map (skey s) (bs order target) = dropWhile (\<lambda>k. compare k target < 0) (map (skey s) order)"
proof -
  show "order = as order target @ bs order target" by (simp add: as_def bs_def)
  show "\<forall>a \<in> set (as order target). compare (skey s a) target < 0" by (auto simp: as_def dest: set_takeWhileD)
  show "map (skey s) (as order target) = takeWhile (\<lambda>k. compare k target < 0) (map (skey s) order)"
    by (simp add: as_def takeWhile_map o_def)
  show b: "map (skey s) (bs order target) = dropWhile (\<lambda>k. compare k target < 0) (map (skey s) order)"
    by (simp add: bs_def dropWhile_map o_def)
  show "\<forall>b \<in> set (bs order target). \<not> compare (skey s b) target < 0"
  proof
    fix y assume "y \<in> set (bs order target)"
    then have "skey s y \<in> set (map (skey s) (bs order target))" by simp
    then show "\<not> compare (skey s y) target < 0" unfolding b by (rule sorted_before [OF assms(3,4)])
  qed
qed

text \<open>Searches in any state, on the nodes that are linked.\<close>

lemma FindGreaterOrEqual_rep:
  assumes "sl_rep s order H" and "sorted_keys (map (skey s) order)" and "ok target"
  shows "\<exists>prev'. FindGreaterOrEqual compare s target prev =
    Some (linked 0 H (dropWhile (\<lambda>a. compare (skey s a) target < 0) order), prev')"
proof -
  note so = split_order [OF assms(2,3)]
  have go: "KeyIsAfterNode compare s target (Some a) = Some (compare (skey s a) target < 0)" if "a \<in> set order" for a
    using rep_node_key [OF assms(1)] that by (simp add: KeyIsAfterNode_def)
  have "\<forall>a \<in> set (takeWhile (\<lambda>a. compare (skey s a) target < 0) order). KeyIsAfterNode compare s target (Some a) = Some True"
    using so(2) go by (metis set_takeWhileD)
  moreover have "\<forall>b \<in> set (dropWhile (\<lambda>a. compare (skey s a) target < 0) order). KeyIsAfterNode compare s target (Some b) = Some False"
    using so(3) go by (metis set_dropWhileD)
  ultimately have "\<exists>prev'. descend (KeyIsAfterNode compare s target) s 0 (sl_max_height s - 1) prev =
      Some (pred_at 0 H (takeWhile (\<lambda>a. compare (skey s a) target < 0) order),
        linked 0 H (dropWhile (\<lambda>a. compare (skey s a) target < 0) order), prev')"
    using descend_head [OF assms(1) so(1), of "KeyIsAfterNode compare s target" prev] by (auto simp: KeyIsAfterNode_def)
  then show ?thesis by (auto simp: FindGreaterOrEqual_def)
qed

lemma linked_0: "\<forall>a \<in> set ys. 1 \<le> H a \<Longrightarrow> linked 0 H ys = (case ys of [] \<Rightarrow> None | y # _ \<Rightarrow> Some y)"
  by (cases ys) (auto simp: linked_def)

lemma linked_0_skip: "\<forall>a \<in> set (ys @ zs). 1 \<le> H a \<Longrightarrow> H x = 0 \<Longrightarrow>
    linked 0 H (ys @ x # zs) = (case ys @ zs of [] \<Rightarrow> None | y # _ \<Rightarrow> Some y)"
  by (cases ys) (auto simp: linked_def split: list.splits)

lemma new_complete: "complete (new_SkipList junk) []"
proof -
  have "sl_rep (new_SkipList junk) [] (\<lambda>_. kMaxHeight)"
    by (auto simp: sl_rep_def new_SkipList_def NewNode_def kMaxHeight_def node_next_def rd_def linked_def Cons_eq_append_conv)
  then show ?thesis by (auto simp: complete_def sorted_keys_def)
qed

lemma Insert_complete:
  assumes "complete s order" and "ok key" and "\<forall>k \<in> set (map (skey s) order). compare k key \<noteq> 0"
  shows "\<exists>s' order'. SkipList_Insert compare key s = Some s' \<and> complete s' order' \<and>
    map (skey s') order' = takeWhile (\<lambda>k. compare k key < 0) (map (skey s) order) @ key # dropWhile (\<lambda>k. compare k key < 0) (map (skey s) order)"
proof -
  let ?as = "takeWhile (\<lambda>a. compare (skey s a) key < 0) order" and ?bs = "dropWhile (\<lambda>a. compare (skey s a) key < 0) order"
  from assms(1) obtain H where H: "sl_rep s order H" "\<forall>a \<in> set order. 1 \<le> H a" and sk: "sorted_keys (map (skey s) order)"
    by (auto simp: complete_def)
  note so = split_order [OF sk assms(2)]
  have "sl_rep s (?as @ ?bs) H" using H(1) by simp
  from insert_steps [of s ?as ?bs H compare key, OF this so(2,3)] obtain prev x h s1 where p: "prepare_insert compare key s = Some (prev, x, h, s1)"
      "1 \<le> h" "x \<notin> set (0 # ?as @ ?bs)"
      "\<forall>i \<le> h. \<exists>s2. link_levels prev x i s1 = Some s2 \<and> sl_rep s2 (?as @ x # ?bs) (H(x := i)) \<and> skey s2 x = key \<and>
        (\<forall>a \<in> set (?as @ ?bs). skey s2 a = skey s a)" by blast
  from p(4) obtain s2 where s2: "link_levels prev x h s1 = Some s2" "sl_rep s2 (?as @ x # ?bs) (H(x := h))" "skey s2 x = key"
      "\<forall>a \<in> set (?as @ ?bs). skey s2 a = skey s a" by blast
  have "map (skey s2) ?as = map (skey s) ?as" "map (skey s2) ?bs = map (skey s) ?bs" using s2(4) by (auto dest: set_takeWhileD set_dropWhileD)
  then have keys: "map (skey s2) (?as @ x # ?bs) = takeWhile (\<lambda>k. compare k key < 0) (map (skey s) order) @ key #
      dropWhile (\<lambda>k. compare k key < 0) (map (skey s) order)" using so(4,5) s2(3) by simp
  moreover have "\<forall>a \<in> set (?as @ x # ?bs). 1 \<le> (H(x := h)) a" using H(2) p(2) by (auto dest: set_takeWhileD set_dropWhileD)
  ultimately have "complete s2 (?as @ x # ?bs)"
    using s2(2) sorted_splice [OF sk assms(2,3)] unfolding complete_def by metis
  moreover have "SkipList_Insert compare key s = Some s2" using p(1) s2(1) by (simp add: SkipList_Insert_def)
  ultimately show ?thesis using keys by blast
qed

lemma completeE:
  assumes "complete s order"
  obtains H where "sl_rep s order H" and "\<forall>a \<in> set order. 1 \<le> H a" and "0 < H 0" and "sorted_keys (map (skey s) order)"
proof -
  from assms obtain H where h: "sl_rep s order H" "\<forall>a \<in> set order. 1 \<le> H a" "sorted_keys (map (skey s) order)"
    by (auto simp: complete_def)
  then have "0 < H 0" by (auto simp: sl_rep_def)
  with h show thesis by (intro that)
qed

lemma complete_key: "complete s order \<Longrightarrow> a \<in> set order \<Longrightarrow> node_key s a = Some (skey s a) \<and> a \<noteq> 0"
proof (elim completeE)
  fix H assume "sl_rep s order H" "a \<in> set order"
  moreover from this have "0 \<notin> set order" by (simp add: sl_rep_def)
  ultimately show ?thesis using rep_node_key [of s order H a] by (cases "a = 0") simp_all
qed

lemma pred_at_0: "\<forall>a \<in> set as. 1 \<le> H a \<Longrightarrow> 0 < H 0 \<Longrightarrow> pred_at 0 H as = last (0 # as)"
proof -
  assume "\<forall>a \<in> set as. 1 \<le> H a" and "0 < H 0"
  then have "filter (\<lambda>a. 0 < H a) (0 # as) = 0 # as" by (auto simp: filter_id_conv)
  then show ?thesis by (simp only: pred_at_def)
qed

lemma linked_0_drop: "\<forall>a \<in> set order. 1 \<le> H a \<Longrightarrow> linked 0 H (drop i order) = node_at order i"
proof -
  assume "\<forall>a \<in> set order. 1 \<le> H a"
  then have "\<forall>a \<in> set (drop i order). 1 \<le> H a" by (meson in_set_dropD)
  then show ?thesis by (cases "i < length order") (simp_all add: linked_0 node_at_def flip: Cons_nth_drop_Suc)
qed

lemma SL_SeekToFirst_at: "complete s order \<Longrightarrow> SL_SeekToFirst s = Some (node_at order 0)"
proof (elim completeE)
  fix H assume "sl_rep s order H" "\<forall>a \<in> set order. 1 \<le> H a" "0 < H 0"
  then show ?thesis using rep_next [of s order H "[]" 0 order 0] linked_0_drop [of order H 0] by (simp add: SL_SeekToFirst_def)
qed

lemma SL_Next_at: "complete s order \<Longrightarrow> i < length order \<Longrightarrow> SL_Next s (Some (order ! i)) = Some (node_at order (Suc i))"
proof (elim completeE)
  fix H assume r: "sl_rep s order H" "\<forall>a \<in> set order. 1 \<le> H a" and i: "i < length order"
  then have "0 # order = (0 # take i order) @ order ! i # drop (Suc i) order" "0 < H (order ! i)"
    by (auto simp: id_take_nth_drop [symmetric] Suc_le_lessD)
  from rep_next [OF r(1) this] r(2) show ?thesis by (simp add: SL_Next_def linked_0_drop)
qed

lemma SL_Seek_at:
  assumes "complete s order" and "ok target"
  shows "SL_Seek compare s target = Some (node_at order (length (takeWhile (\<lambda>k. compare k target < 0) (map (skey s) order))))"
proof -
  obtain H where h: "sl_rep s order H" "\<forall>a \<in> set order. 1 \<le> H a" "sorted_keys (map (skey s) order)" using assms(1) by (rule completeE)
  have "dropWhile (\<lambda>a. compare (skey s a) target < 0) order =
      drop (length (takeWhile (\<lambda>k. compare k target < 0) (map (skey s) order))) order"
    by (simp add: dropWhile_eq_drop takeWhile_map o_def)
  with FindGreaterOrEqual_rep [OF h(1,3) assms(2), of "[]"] linked_0_drop [OF h(2)] show ?thesis
    by (auto simp: SL_Seek_def)
qed

lemma sorted_keys_nth:
  "sorted_keys (map (skey s) order) \<Longrightarrow> i < j \<Longrightarrow> j < length order \<Longrightarrow>
    compare (skey s (order ! i)) (skey s (order ! j)) < 0 \<and> ok (skey s (order ! i)) \<and> ok (skey s (order ! j))"
  by (auto simp: sorted_keys_def sorted_wrt_iff_nth_less list_all_length)

lemma SL_Prev_at:
  assumes "complete s order" and i: "i < length order"
  shows "SL_Prev compare s (Some (order ! i)) = Some (if i = 0 then None else Some (order ! (i - 1)))"
proof -
  obtain H where h: "sl_rep s order H" "\<forall>a \<in> set order. 1 \<le> H a" "0 < H 0" "sorted_keys (map (skey s) order)"
    using assms(1) by (rule completeE)
  let ?k = "skey s (order ! i)"
  define go where "go = (\<lambda>next. case next of None \<Rightarrow> Some False | Some n \<Rightarrow> do { k \<leftarrow> node_key s n; Some (\<not> compare k ?k \<ge> 0) })"
  have go: "go (Some (order ! j)) = Some (j < i)" if "j < length order" for j
  proof -
    have "ok ?k" using h(4) i by (simp add: sorted_keys_def list_all_length)
    have "compare (skey s (order ! j)) ?k < 0 \<longleftrightarrow> j < i"
    proof (cases i j rule: linorder_cases)
      case less
      then have "compare ?k (skey s (order ! j)) < 0" "ok (skey s (order ! j))" using sorted_keys_nth [OF h(4)] that by blast+
      then show ?thesis using less_sym [OF \<open>ok ?k\<close>, of "skey s (order ! j)"] less by simp
    next
      case equal
      have "\<not> compare ?k ?k < 0" using less_sym [OF \<open>ok ?k\<close> \<open>ok ?k\<close>] by linarith
      then show ?thesis using equal by simp
    next
      case greater
      then show ?thesis using sorted_keys_nth [OF h(4) greater i] by simp
    qed
    then show ?thesis using rep_node_key [OF h(1)] that by (simp add: go_def not_le)
  qed
  have "\<forall>a \<in> set (take i order). go (Some a) = Some True" "\<forall>b \<in> set (drop i order). go (Some b) = Some False"
    using go i by (simp_all add: all_set_conv_all_nth)
  moreover have "order = take i order @ drop i order" "go None = Some False" by (simp_all add: go_def)
  ultimately obtain prev' where "descend go s 0 (sl_max_height s - 1) [] = Some (pred_at 0 H (take i order), linked 0 H (drop i order), prev')"
    using descend_head [OF h(1), of "take i order" "drop i order" go "[]"] by blast
  moreover have "\<forall>a \<in> set (take i order). 1 \<le> H a" using h(2) by (meson in_set_takeD)
  ultimately have "FindLessThan compare s ?k = Some (last (0 # take i order))"
    using pred_at_0 h(3) by (simp add: FindLessThan_def go_def)
  moreover have "last (0 # take i order) = (if i = 0 then 0 else order ! (i - 1))" using i by (auto simp: last_conv_nth)
  ultimately show ?thesis
    using complete_key [OF assms(1), of "order ! i"] complete_key [OF assms(1), of "order ! (i - 1)"] i
    by (simp add: SL_Prev_def not_head_def)
qed

lemma SL_SeekToLast_at:
  assumes "complete s order"
  shows "SL_SeekToLast s = Some (node_at order (length order - 1))"
proof -
  obtain H where h: "sl_rep s order H" "\<forall>a \<in> set order. 1 \<le> H a" "0 < H 0" using assms by (rule completeE)
  have "order = order @ []" by simp
  from descend_head [OF h(1) this, of "\<lambda>next. Some (next \<noteq> None)" "[]"] pred_at_0 [OF h(2,3)]
  have "FindLast s = Some (last (0 # order))" by (auto simp: FindLast_def)
  moreover have "order \<noteq> [] \<Longrightarrow> last order \<noteq> 0" using complete_key [OF assms] by auto
  ultimately show ?thesis by (auto simp: SL_SeekToLast_def not_head_def node_at_def last_conv_nth)
qed

lemma first_from_sorted:
  assumes "sorted_keys ks" and "ok target"
  shows "first_from compare (set ks) target (case dropWhile (\<lambda>k. compare k target < 0) ks of [] \<Rightarrow> None | k # _ \<Rightarrow> Some k)"
proof -
  let ?a = "takeWhile (\<lambda>k. compare k target < 0) ks" and ?b = "dropWhile (\<lambda>k. compare k target < 0) ks"
  have ks: "set ks = set ?a \<union> set ?b" by (metis set_append takeWhile_dropWhile_id)
  have a: "\<forall>k \<in> set ?a. compare k target < 0" by (meson set_takeWhileD)
  show ?thesis
  proof (cases ?b)
    case Nil
    then have "takeWhile (\<lambda>k. compare k target < 0) ks = ks" by (metis append_Nil2 takeWhile_dropWhile_id)
    then have "\<forall>k \<in> set ks. compare k target < 0" using a by (simp only:)
    then show ?thesis unfolding Nil first_from_def by simp
  next
    case (Cons k b)
    have "\<not> compare k target < 0" using sorted_before [OF assms, of k] Cons by simp
    moreover have "sorted_keys ?b"
      using assms(1) by (metis dropWhile_eq_drop list_all_append append_take_drop_id sorted_keys_def sorted_wrt_drop)
    then have "\<forall>k' \<in> set b. compare k k' < 0" using Cons by (simp add: sorted_keys_def)
    moreover have "set ks = set ?a \<union> insert k (set b)" using ks Cons by simp
    ultimately show ?thesis using a unfolding Cons first_from_def by (simp only: list.case option.case) blast
  qed
qed

lemma find_filter: "find P xs = (case filter P xs of [] \<Rightarrow> None | y # _ \<Rightarrow> Some y)"
  by (induction xs) auto

lemma dropWhile_sorted:
  "sorted_keys (map f ys) \<Longrightarrow> ok target \<Longrightarrow>
    dropWhile (\<lambda>a. compare (f a) target < 0) ys = filter (\<lambda>a. \<not> compare (f a) target < 0) ys"
proof (induction ys)
  case (Cons y ys)
  show ?case
  proof (cases "compare (f y) target < 0")
    case True
    then show ?thesis using Cons by (simp add: sorted_keys_def)
  next
    case False
    have "\<not> compare (f z) target < 0" if "z \<in> set ys" for z
      using less_trans [of "f y" "f z" target] Cons.prems that False by (auto simp: sorted_keys_def list_all_iff)
    with False show ?thesis by (simp add: filter_id_conv)
  qed
qed simp

lemma seek_linked:
  assumes "sl_rep s order H" and "sorted_keys (map (skey s) order)" and "ok target"
  shows "\<exists>r. do { n \<leftarrow> SL_Seek compare s target; Some (SL_key s n) } = Some r \<and>
    first_from compare (set (map (skey s) (filter (\<lambda>a. 0 < H a) order))) target r"
proof -
  let ?L = "filter (\<lambda>a. 0 < H a) order" and ?P = "\<lambda>a. compare (skey s a) target < 0"
  have sL: "sorted_keys (map (skey s) ?L)"
    using assms(2) by (auto simp: sorted_keys_def sorted_wrt_map list_all_iff intro: sorted_wrt_filter)
  have "linked 0 H (dropWhile ?P order) = (case dropWhile ?P ?L of [] \<Rightarrow> None | y # _ \<Rightarrow> Some y)"
    unfolding dropWhile_sorted [OF assms(2,3)] dropWhile_sorted [OF sL assms(3)] linked_def find_filter filter_filter
    by (simp add: conj_commute)
  then have seek: "SL_Seek compare s target = Some (case dropWhile ?P ?L of [] \<Rightarrow> None | y # _ \<Rightarrow> Some y)"
    using FindGreaterOrEqual_rep [OF assms, of "[]"] by (auto simp: SL_Seek_def)
  have mem: "node_key s y = Some (skey s y)" if "dropWhile ?P ?L = y # ys" for y ys
  proof -
    have "y \<in> set (dropWhile ?P ?L)" using that by simp
    then have "y \<in> set order" by (auto dest: set_dropWhileD)
    then show ?thesis using rep_node_key [OF assms(1)] by simp
  qed
  have "SL_key s (case dropWhile ?P ?L of [] \<Rightarrow> None | y # _ \<Rightarrow> Some y) =
      (case dropWhile (\<lambda>k. compare k target < 0) (map (skey s) ?L) of [] \<Rightarrow> None | k # _ \<Rightarrow> Some k)"
    using mem by (cases "dropWhile ?P ?L") (simp_all only: dropWhile_map o_def SL_key_def, simp_all)
  with seek first_from_sorted [OF sL assms(3)] show ?thesis by simp
qed

text \<open>
  A reader that searches while a key is being inserted, after any number of links: it ends, and it finds
  the first key of the old list before the first link is made, and of the new list from then on.
\<close>

lemma seek_during_insert:
  assumes "complete s order" and "ok key" and "\<forall>k \<in> set (map (skey s) order). compare k key \<noteq> 0" and "ok target"
  shows "\<exists>prev x h s1. prepare_insert compare key s = Some (prev, x, h, s1) \<and> 1 \<le> h \<and>
    (\<forall>i \<le> h. \<exists>s2 r. link_levels prev x i s1 = Some s2 \<and> do { n \<leftarrow> SL_Seek compare s2 target; Some (SL_key s2 n) } = Some r \<and>
      first_from compare (set (map (skey s) order) \<union> (if i = 0 then {} else {key})) target r)"
proof -
  let ?as = "takeWhile (\<lambda>a. compare (skey s a) key < 0) order" and ?bs = "dropWhile (\<lambda>a. compare (skey s a) key < 0) order"
  obtain H where H: "sl_rep s order H" "\<forall>a \<in> set order. 1 \<le> H a" and sk: "sorted_keys (map (skey s) order)"
    using assms(1) by (rule completeE)
  note so = split_order [OF sk assms(2)]
  have "sl_rep s (?as @ ?bs) H" using H(1) by simp
  from insert_steps [of s ?as ?bs H compare key, OF this so(2,3)] obtain prev x h s1 where p: "prepare_insert compare key s = Some (prev, x, h, s1)"
      "1 \<le> h" "x \<notin> set (0 # ?as @ ?bs)"
      "\<forall>i \<le> h. \<exists>s2. link_levels prev x i s1 = Some s2 \<and> sl_rep s2 (?as @ x # ?bs) (H(x := i)) \<and> skey s2 x = key \<and>
        (\<forall>a \<in> set (?as @ ?bs). skey s2 a = skey s a)" by blast
  have "\<exists>s2 r. link_levels prev x i s1 = Some s2 \<and> do { n \<leftarrow> SL_Seek compare s2 target; Some (SL_key s2 n) } = Some r \<and>
      first_from compare (set (map (skey s) order) \<union> (if i = 0 then {} else {key})) target r" if i: "i \<le> h" for i
  proof -
    obtain s2 where s2: "link_levels prev x i s1 = Some s2" "sl_rep s2 (?as @ x # ?bs) (H(x := i))" "skey s2 x = key"
        "\<forall>a \<in> set (?as @ ?bs). skey s2 a = skey s a" using p(4) i by blast
    have same: "map (skey s2) ?as = map (skey s) ?as" "map (skey s2) ?bs = map (skey s) ?bs"
      using s2(4) by (auto dest: set_takeWhileD set_dropWhileD)
    then have "map (skey s2) (?as @ x # ?bs) = takeWhile (\<lambda>k. compare k key < 0) (map (skey s) order) @ key #
        dropWhile (\<lambda>k. compare k key < 0) (map (skey s) order)" using so(4,5) s2(3) by simp
    then have "sorted_keys (map (skey s2) (?as @ x # ?bs))" using sorted_splice [OF sk assms(2,3)] by simp
    note r = seek_linked [OF s2(2) this assms(4)]
    have "filter (\<lambda>a. 0 < (H(x := i)) a) ys = ys" if "set ys \<subseteq> set order" for ys
      using that H(2) p(3) by (auto simp: filter_id_conv Suc_le_eq)
    moreover have "set ?as \<subseteq> set order" "set ?bs \<subseteq> set order" by (meson set_takeWhileD set_dropWhileD subsetI)+
    ultimately have "filter (\<lambda>a. 0 < (H(x := i)) a) ?as = ?as" "filter (\<lambda>a. 0 < (H(x := i)) a) ?bs = ?bs" by blast+
    then have "filter (\<lambda>a. 0 < (H(x := i)) a) (?as @ x # ?bs) = ?as @ (if i = 0 then [] else [x]) @ ?bs"
      by (simp only: filter_append filter.simps fun_upd_same) simp
    then have "set (map (skey s2) (filter (\<lambda>a. 0 < (H(x := i)) a) (?as @ x # ?bs))) =
        set (map (skey s2) ?as) \<union> (if i = 0 then {} else {key}) \<union> set (map (skey s2) ?bs)"
      using s2(3) by auto
    also have "\<dots> = set (map (skey s) (?as @ ?bs)) \<union> (if i = 0 then {} else {key})" unfolding same map_append set_append by blast
    finally show ?thesis using r s2(1) by simp
  qed
  with p(1,2) show ?thesis by blast
qed

end

end
