(* ===== verification/Ldb_Iterator.thy ===== *)
theory Ldb_Iterator
  imports Ldb_Status
begin

text \<open>
  The iterator interface of LevelDB (\<^verbatim>\<open>include/leveldb/iterator.h\<close>) as a contract: the state of an
  iterator stands at a position of a list of entries, or behind it when it is not valid, and the
  operations move the position. \<open>None\<close> as the result of an operation is a failure of its code (a read
  out of bounds, or a loop that does not end); the contract excludes it.
\<close>

type_synonym entry = "bytes \<times> bytes"

text \<open>Reading the entries from the current one on.\<close>

partial_function (option) drain ::
    "('s \<Rightarrow> bool) \<Rightarrow> ('s \<Rightarrow> entry option) \<Rightarrow> ('s \<Rightarrow> 's option) \<Rightarrow> 's \<Rightarrow> entry list option" where
  "drain valid entry_of step s =
     (if valid s then do {
        e \<leftarrow> entry_of s;
        s \<leftarrow> step s;
        es \<leftarrow> drain valid entry_of step s;
        Some (e # es)
      }
      else Some [])"

locale iterator =
  fixes entries :: "entry list" and ok :: "bytes \<Rightarrow> bool" and before :: "bytes \<Rightarrow> bytes \<Rightarrow> bool"
    and inv :: "'s \<Rightarrow> bool" and pos :: "'s \<Rightarrow> nat"
    and valid :: "'s \<Rightarrow> bool" and entry_of :: "'s \<Rightarrow> entry option"
    and first :: "'s \<Rightarrow> 's option" and final :: "'s \<Rightarrow> 's option"
    and forth :: "'s \<Rightarrow> 's option" and backward :: "'s \<Rightarrow> 's option" and seek :: "bytes \<Rightarrow> 's \<Rightarrow> 's option"
  assumes valid_pos: "inv s \<Longrightarrow> valid s \<longleftrightarrow> pos s < length entries"
    and entry_pos: "inv s \<Longrightarrow> valid s \<Longrightarrow> entry_of s = Some (entries ! pos s)"
    and first_pos: "inv s \<Longrightarrow> \<exists>s'. first s = Some s' \<and> inv s' \<and> pos s' = 0"
    and final_pos: "inv s \<Longrightarrow> \<exists>s'. final s = Some s' \<and> inv s' \<and> pos s' = length entries - 1"
    and next_pos: "inv s \<Longrightarrow> valid s \<Longrightarrow> \<exists>s'. forth s = Some s' \<and> inv s' \<and> pos s' = Suc (pos s)"
    and prev_pos: "inv s \<Longrightarrow> valid s \<Longrightarrow>
      \<exists>s'. backward s = Some s' \<and> inv s' \<and> pos s' = (if pos s = 0 then length entries else pos s - 1)"
    and seek_pos: "inv s \<Longrightarrow> ok target \<Longrightarrow>
      \<exists>s'. seek target s = Some s' \<and> inv s' \<and> pos s' = length (takeWhile (\<lambda>e. before (fst e) target) entries)"
begin

lemma drain_next: "inv s \<Longrightarrow> drain valid entry_of forth s = Some (drop (pos s) entries)"
proof (induction "length entries - pos s" arbitrary: s)
  case 0
  then show ?case by (subst drain.simps) (simp add: valid_pos)
next
  case (Suc n)
  then have v: "valid s" by (simp add: valid_pos)
  then obtain s' where s': "forth s = Some s'" "inv s'" "pos s' = Suc (pos s)" using next_pos Suc.prems by blast
  then have "drain valid entry_of forth s' = Some (drop (Suc (pos s)) entries)" using Suc by simp
  with s' v Suc.prems Suc.hyps(2) show ?case
    by (subst drain.simps) (simp add: entry_pos Cons_nth_drop_Suc)
qed

lemma drain_prev: "inv s \<Longrightarrow> pos s < length entries \<Longrightarrow> drain valid entry_of backward s = Some (rev (take (Suc (pos s)) entries))"
proof (induction "pos s" arbitrary: s)
  case 0
  then have v: "valid s" by (simp add: valid_pos)
  then obtain s' where s': "backward s = Some s'" "inv s'" "pos s' = length entries" using prev_pos 0 by fastforce
  then have "drain valid entry_of backward s' = Some []" by (subst drain.simps) (simp add: valid_pos)
  with s' v 0 show ?case by (subst drain.simps) (simp add: entry_pos take_Suc_conv_app_nth)
next
  case (Suc n)
  then have v: "valid s" by (simp add: valid_pos)
  then obtain s' where s': "backward s = Some s'" "inv s'" "pos s' = n" using prev_pos [of s] Suc by auto
  then have "drain valid entry_of backward s' = Some (rev (take (Suc n) entries))" using Suc by simp
  with s' v Suc show ?case by (subst drain.simps) (simp add: entry_pos take_Suc_conv_app_nth)
qed

lemma scan_forward: "inv s \<Longrightarrow> do { s \<leftarrow> first s; drain valid entry_of forth s } = Some entries"
  using first_pos [of s] drain_next by auto

lemma scan_backward: "inv s \<Longrightarrow> do { s \<leftarrow> final s; drain valid entry_of backward s } = Some (rev entries)"
proof -
  assume "inv s"
  then obtain s' where s': "final s = Some s'" "inv s'" "pos s' = length entries - 1" using final_pos by blast
  show ?thesis
  proof (cases "entries = []")
    case True
    with s' show ?thesis by (simp, subst drain.simps) (simp add: valid_pos)
  qed (use s' drain_prev [of s'] in simp)
qed

lemma scan_from: "inv s \<Longrightarrow> ok target \<Longrightarrow>
  do { s \<leftarrow> seek target s; drain valid entry_of forth s } = Some (dropWhile (\<lambda>e. before (fst e) target) entries)"
  using seek_pos [of s target] drain_next by (auto simp: dropWhile_eq_drop)

end

end
