(* ===== verification/Ldb_Memtable.thy ===== *)
theory Ldb_Memtable
  imports Ldb_Skiplist Ldb_Iterator Ldb_Batch "HOL-Library.Multiset"
begin

text \<open>
  The memory table (\<^verbatim>\<open>db/memtable.cc\<close>): a skip list of encoded entries. A pointer into memory is the
  list of the bytes from there to the end of its piece. The memory of the entries and of the nodes
  comes from the arena, whose pieces do not overlap; it is not part of this state. The theorems relate the
  table to the list of the writes it was given, alone and behind a write batch.
\<close>

section \<open>The code\<close>

text \<open>The slice behind the length at \<open>data\<close>, and the bytes behind the slice.\<close>

definition mem_slice :: "bytes \<Rightarrow> (bytes \<times> bytes) option" where
  "mem_slice data = do {
     (len, p) \<leftarrow> GetVarint32Ptr (take 5 data);
     let p = drop (length (take 5 data) - length p) data;
     s \<leftarrow> rds p 0 (unat len);
     Some (s, drop (unat len) p)
   }"

definition KeyComparator :: "(bytes \<Rightarrow> bytes \<Rightarrow> int) \<Rightarrow> bytes \<Rightarrow> bytes \<Rightarrow> int" where
  "KeyComparator ucmp aptr bptr =
     InternalKey_Compare ucmp (fst (the (mem_slice aptr))) (fst (the (mem_slice bptr)))"

definition EncodeKey :: "bytes \<Rightarrow> bytes" where
  "EncodeKey target = PutVarint32 [] (of_nat (length target)) @ target"

record MemTable =
  mt_refs :: int
  mt_table :: "bytes skiplist"

definition new_MemTable :: MemTable where
  "new_MemTable = \<lparr>mt_refs = 0, mt_table = new_SkipList []\<rparr>"

definition MemTable_Ref :: "MemTable \<Rightarrow> MemTable" where
  "MemTable_Ref m = m\<lparr>mt_refs := mt_refs m + 1\<rparr>"

text \<open>\<open>None\<close>: the table is deleted.\<close>

definition MemTable_Unref :: "MemTable \<Rightarrow> MemTable option" where
  "MemTable_Unref m = (let m = m\<lparr>mt_refs := mt_refs m - 1\<rparr> in if mt_refs m \<le> 0 then None else Some m)"

text \<open>The assertion at the end compares the bytes written with the bytes allocated.\<close>

definition MemTable_Add ::
    "(bytes \<Rightarrow> bytes \<Rightarrow> int) \<Rightarrow> u64 \<Rightarrow> ValueType \<Rightarrow> bytes \<Rightarrow> bytes \<Rightarrow> MemTable \<Rightarrow> MemTable option" where
  "MemTable_Add ucmp s t key val m =
     (let key_size = length key; val_size = length val; internal_key_size = key_size + 8;
          encoded_len = VarintLength (of_nat internal_key_size) + internal_key_size + VarintLength (of_nat val_size) + val_size;
          buf = EncodeVarint32 (of_nat internal_key_size) @ key @ EncodeFixed64 True (push_bit 8 s OR type_byte t) @
            EncodeVarint32 (of_nat val_size) @ val in
      if length buf = encoded_len
      then do { table \<leftarrow> SkipList_Insert (KeyComparator ucmp) buf (mt_table m); Some (m\<lparr>mt_table := table\<rparr>) }
      else None)"

text \<open>
  The result, \<^verbatim>\<open>*value\<close> and \<^verbatim>\<open>*s\<close>; the last two keep what they had when nothing is found. First what
  is done with the entry that the search ends at.
\<close>

definition MemTable_Get_entry ::
    "(bytes \<Rightarrow> bytes \<Rightarrow> int) \<Rightarrow> LookupKey \<Rightarrow> bytes \<Rightarrow> Status \<Rightarrow> bytes \<Rightarrow> (bool \<times> bytes \<times> Status) option" where
  "MemTable_Get_entry ucmp key val s entry = do {
     (key_length, p) \<leftarrow> GetVarint32Ptr (take 5 entry);
     let key_ptr = drop (length (take 5 entry) - length p) entry;
     ukey \<leftarrow> rds key_ptr 0 (unat (key_length - 8));
     if ucmp ukey (lookup_user_key key) = 0 then do {
       tag \<leftarrow> DecodeFixed64 True (drop (unat key_length - 8) key_ptr);
       if tag AND 0xff = type_byte kTypeValue then do {
         (v, _) \<leftarrow> mem_slice (drop (unat key_length) key_ptr);
         Some (True, v, s)
       }
       else if tag AND 0xff = type_byte kTypeDeletion then Some (True, val, mk_Status kNotFound [] [])
       else Some (False, val, s)
     }
     else Some (False, val, s)
   }"

definition MemTable_Get ::
    "(bytes \<Rightarrow> bytes \<Rightarrow> int) \<Rightarrow> LookupKey \<Rightarrow> bytes \<Rightarrow> Status \<Rightarrow> MemTable \<Rightarrow> (bool \<times> bytes \<times> Status) option" where
  "MemTable_Get ucmp key val s m = do {
     iter \<leftarrow> SL_Seek (KeyComparator ucmp) (mt_table m) (memtable_key key);
     case iter of
       None \<Rightarrow> Some (False, val, s)
     | Some _ \<Rightarrow> do {
         entry \<leftarrow> SL_key (mt_table m) iter;
         MemTable_Get_entry ucmp key val s entry
       }
   }"

text \<open>The iterator over the table is the one of the skip list.\<close>

definition MTI_Valid :: "nat option \<Rightarrow> bool" where
  "MTI_Valid iter \<longleftrightarrow> iter \<noteq> None"

definition MTI_Seek :: "(bytes \<Rightarrow> bytes \<Rightarrow> int) \<Rightarrow> MemTable \<Rightarrow> bytes \<Rightarrow> nat option \<Rightarrow> nat option option" where
  "MTI_Seek ucmp m k iter = SL_Seek (KeyComparator ucmp) (mt_table m) (EncodeKey k)"

definition MTI_SeekToFirst :: "MemTable \<Rightarrow> nat option \<Rightarrow> nat option option" where
  "MTI_SeekToFirst m iter = SL_SeekToFirst (mt_table m)"

definition MTI_SeekToLast :: "MemTable \<Rightarrow> nat option \<Rightarrow> nat option option" where
  "MTI_SeekToLast m iter = SL_SeekToLast (mt_table m)"

definition MTI_Next :: "MemTable \<Rightarrow> nat option \<Rightarrow> nat option option" where
  "MTI_Next m iter = SL_Next (mt_table m) iter"

definition MTI_Prev :: "(bytes \<Rightarrow> bytes \<Rightarrow> int) \<Rightarrow> MemTable \<Rightarrow> nat option \<Rightarrow> nat option option" where
  "MTI_Prev ucmp m iter = SL_Prev (KeyComparator ucmp) (mt_table m) iter"

definition MTI_key :: "MemTable \<Rightarrow> nat option \<Rightarrow> bytes option" where
  "MTI_key m iter = do { e \<leftarrow> SL_key (mt_table m) iter; (k, _) \<leftarrow> mem_slice e; Some k }"

definition MTI_value :: "MemTable \<Rightarrow> nat option \<Rightarrow> bytes option" where
  "MTI_value m iter = do {
     e \<leftarrow> SL_key (mt_table m) iter;
     (_, p) \<leftarrow> mem_slice e;
     (v, _) \<leftarrow> mem_slice p;
     Some v
   }"

definition MTI_entry :: "MemTable \<Rightarrow> nat option \<Rightarrow> entry option" where
  "MTI_entry m iter = do { k \<leftarrow> MTI_key m iter; v \<leftarrow> MTI_value m iter; Some (k, v) }"

section \<open>Entries\<close>

lemma varint_at:
  "do { (len, p) \<leftarrow> GetVarint32Ptr (take 5 (EncodeVarint32 n @ z));
     let p = drop (length (take 5 (EncodeVarint32 n @ z)) - length p) (EncodeVarint32 n @ z); F len p } = F n z"
proof -
  have *: "GetVarint32Ptr (take 5 (EncodeVarint32 n @ z)) = Some (n, take (5 - length (EncodeVarint32 n)) z)"
    using GetVarint32_put [of n "take (5 - length (EncodeVarint32 n)) z"] length_EncodeVarint32 [of n]
    by (simp add: GetVarint32_Ptr [symmetric])
  have **: "length (take 5 (EncodeVarint32 n @ z)) - length (take (5 - length (EncodeVarint32 n)) z) = length (EncodeVarint32 n)"
    using length_EncodeVarint32 [of n] by (simp add: min_def)
  have "drop (length (EncodeVarint32 n)) (EncodeVarint32 n @ z) = z" by simp
  then show ?thesis unfolding * bind.bind_lunit prod.case Let_def ** by simp
qed

lemma mem_slice_put:
  "length k < 2 ^ 32 \<Longrightarrow> mem_slice (EncodeVarint32 (of_nat (length k)) @ k @ rest) = Some (k, rest)"
  unfolding mem_slice_def varint_at by (simp add: rds_def unat_of_nat)

text \<open>A write, and the entry that is made of it.\<close>

type_synonym mem_write = "u64 \<times> ValueType \<times> bytes \<times> bytes"

definition write_ok :: "mem_write \<Rightarrow> bool" where
  "write_ok w = (case w of (s, t, k, v) \<Rightarrow> s \<le> kMaxSequenceNumber \<and> length k + 8 < 2 ^ 32 \<and> length v < 2 ^ 32)"

definition write_key :: "mem_write \<Rightarrow> bytes" where
  "write_key w = (case w of (s, t, k, v) \<Rightarrow> AppendInternalKey [] \<lparr>user_key = k, sequence = s, key_type = t\<rparr>)"

definition write_value :: "mem_write \<Rightarrow> bytes" where
  "write_value w = snd (snd (snd w))"

definition write_entry :: "mem_write \<Rightarrow> bytes" where
  "write_entry w = EncodeVarint32 (of_nat (length (write_key w))) @ write_key w @
     EncodeVarint32 (of_nat (length (write_value w))) @ write_value w"

definition visible :: "bytes \<Rightarrow> u64 \<Rightarrow> mem_write \<Rightarrow> bool" where
  "visible u snap w \<longleftrightarrow> fst (snd (snd w)) = u \<and> fst w \<le> snap"

text \<open>The newest visible write, and what the lookup makes of it.\<close>

fun newest :: "bytes \<Rightarrow> u64 \<Rightarrow> mem_write list \<Rightarrow> mem_write option" where
  "newest u snap [] = None"
| "newest u snap (w # ws) =
     (case newest u snap ws of
        None \<Rightarrow> if visible u snap w then Some w else None
      | Some w' \<Rightarrow> if visible u snap w \<and> fst w' < fst w then Some w else Some w')"

definition mem_result :: "mem_write option \<Rightarrow> bytes \<Rightarrow> Status \<Rightarrow> bool \<times> bytes \<times> Status" where
  "mem_result r val st =
     (case r of
        None \<Rightarrow> (False, val, st)
      | Some (s, kTypeValue, k, v) \<Rightarrow> (True, v, st)
      | Some (s, kTypeDeletion, k, v) \<Rightarrow> (True, val, mk_Status kNotFound [] []))"

lemma newest_None: "newest u snap ws = None \<longleftrightarrow> (\<forall>w \<in> set ws. \<not> visible u snap w)"
  by (induction ws) (auto split: option.splits)

lemma newest_SomeD:
  "newest u snap ws = Some w \<Longrightarrow> w \<in> set ws \<and> visible u snap w \<and> (\<forall>w' \<in> set ws. visible u snap w' \<longrightarrow> fst w' \<le> fst w)"
proof (induction ws arbitrary: w)
  case (Cons x ws)
  then show ?case using newest_None [of u snap ws] by (fastforce split: option.splits if_splits)
qed simp

definition write_id :: "mem_write \<Rightarrow> bytes \<times> u64" where
  "write_id w = (fst (snd (snd w)), fst w)"

fun mem_adds :: "(bytes \<Rightarrow> bytes \<Rightarrow> int) \<Rightarrow> mem_write list \<Rightarrow> MemTable \<Rightarrow> MemTable option" where
  "mem_adds ucmp [] m = Some m"
| "mem_adds ucmp ((s, t, k, v) # ws) m = do { m \<leftarrow> MemTable_Add ucmp s t k v m; mem_adds ucmp ws m }"

lemma newest_unique:
  assumes "inj_on write_id (set ws)" and "w \<in> set ws" and "visible u snap w"
    and "\<forall>w' \<in> set ws. visible u snap w' \<longrightarrow> fst w' \<le> fst w"
  shows "newest u snap ws = Some w"
proof (cases "newest u snap ws")
  case None
  then show ?thesis using assms(2,3) newest_None by blast
next
  case (Some x)
  from newest_SomeD [OF this] have x: "x \<in> set ws" "visible u snap x" "fst w \<le> fst x" using assms by auto
  then have "write_id x = write_id w" using assms(3,4) by (auto simp: write_id_def visible_def intro: order_antisym)
  then show ?thesis using Some x(1) assms(1,2) by (simp add: inj_on_eq_iff)
qed

lemma newest_cong:
  assumes "inj_on write_id (set ws)" and "set ws = set ws'"
  shows "newest u snap ws = newest u snap ws'"
proof (cases "newest u snap ws'")
  case None
  then show ?thesis using newest_None assms(2) by metis
next
  case (Some w)
  from newest_SomeD [OF this] show ?thesis using newest_unique [OF assms(1)] Some assms(2) by metis
qed

lemma newest_last:
  "sorted_wrt (\<lambda>a b. fst a < fst b) ws \<Longrightarrow> newest u snap ws = find (visible u snap) (rev ws)"
proof (induction ws)
  case (Cons w ws)
  have app: "find P (xs @ ys) = (case find P xs of None \<Rightarrow> find P ys | Some x \<Rightarrow> Some x)" for P :: "mem_write \<Rightarrow> bool" and xs ys
    by (induction xs) auto
  have "newest u snap ws = Some w' \<Longrightarrow> \<not> fst w' < fst w" for w'
    using newest_SomeD [of u snap ws w'] Cons.prems by (auto dest: order.asym)
  with Cons show ?case by (auto simp: app split: option.splits)
qed simp

lemma write_key_eq: "write_key (s, t, k, v) = k @ word_le 8 (PackSequenceAndType s t)"
  by (simp add: write_key_def Append_eq)

lemma length_write_key: "length (write_key w) = length (fst (snd (snd w))) + 8"
  by (cases w) (simp add: write_key_eq)

lemma entry_slice: "write_ok w \<Longrightarrow> mem_slice (write_entry w @ r) = Some (write_key w, EncodeVarint32 (of_nat (length (write_value w))) @ write_value w @ r)"
  using mem_slice_put [of "write_key w"] by (cases w) (simp add: write_entry_def length_write_key write_ok_def)

lemma KeyComparator_entries:
  "write_ok a \<Longrightarrow> write_ok b \<Longrightarrow> KeyComparator ucmp (write_entry a) (write_entry b) = InternalKey_Compare ucmp (write_key a) (write_key b)"
  using entry_slice [of a "[]"] entry_slice [of b "[]"] by (simp add: KeyComparator_def)

lemma EncodeKey_slice: "length k < 2 ^ 32 \<Longrightarrow> mem_slice (EncodeKey k) = Some (k, [])"
  using mem_slice_put [of k "[]"] by (simp add: EncodeKey_def PutVarint32_def)

lemma Add_insert:
  assumes "write_ok (s, t, k, v)"
  shows "MemTable_Add ucmp s t k v m = do {
    table \<leftarrow> SkipList_Insert (KeyComparator ucmp) (write_entry (s, t, k, v)) (mt_table m); Some (m\<lparr>mt_table := table\<rparr>) }"
proof -
  have len: "VarintLength (of_nat n) = length (EncodeVarint32 (of_nat n))" if "n < 2 ^ 32" for n
    using that by (simp add: VarintLength_leb EncodeVarint32_leb EncodeVarint64_leb unat_of_nat)
  have "EncodeVarint32 (of_nat (length k + 8)) @ k @ EncodeFixed64 True (push_bit 8 s OR type_byte t) @
      EncodeVarint32 (of_nat (length v)) @ v = write_entry (s, t, k, v)"
    by (simp add: write_entry_def write_key_eq write_value_def PackSequenceAndType_def)
  moreover have "length (write_entry (s, t, k, v)) =
      VarintLength (of_nat (length k + 8)) + (length k + 8) + VarintLength (of_nat (length v)) + length v"
    using assms len [of "length k + 8"] len [of "length v"]
    by (simp add: write_ok_def write_entry_def write_key_eq write_value_def)
  ultimately show ?thesis unfolding MemTable_Add_def Let_def by (simp only: simp_thms if_True)
qed

text \<open>The position of an iterator.\<close>

definition mti_pos :: "nat list \<Rightarrow> nat option \<Rightarrow> nat" where
  "mti_pos order iter = (case iter of None \<Rightarrow> length order | Some a \<Rightarrow> length (takeWhile (\<lambda>b. b \<noteq> a) order))"

section \<open>The order of the entries\<close>

definition mem_ok :: "(bytes \<Rightarrow> bool) \<Rightarrow> bytes \<Rightarrow> bool" where
  "mem_ok ok e = (case mem_slice e of Some (k, _) \<Rightarrow> internal_ok ok k | None \<Rightarrow> False)"

text \<open>A comparator of user keys gives an order of the entries.\<close>

sublocale comparator \<subseteq> mem: skip_order "mem_ok ok" "KeyComparator compare"
proof
  show "KeyComparator compare a b < 0 \<longleftrightarrow> KeyComparator compare b a > 0" if "mem_ok ok a" "mem_ok ok b" for a b
    using internal_sym that by (auto simp: mem_ok_def KeyComparator_def split: option.splits)
  show "KeyComparator compare a c < 0"
    if "mem_ok ok a" "mem_ok ok b" "mem_ok ok c" "KeyComparator compare a b < 0" "KeyComparator compare b c < 0" for a b c
  proof -
    from that(1-3) obtain p q r x y z where "mem_slice a = Some (x, p)" "mem_slice b = Some (y, q)" "mem_slice c = Some (z, r)"
        "internal_ok ok x" "internal_ok ok y" "internal_ok ok z"
      by (auto simp: mem_ok_def split: option.splits)
    with that(4,5) internal_trans [of x y z] show ?thesis by (simp add: KeyComparator_def)
  qed
qed

interpretation memtable_order: skip_order "mem_ok (\<lambda>_. True)" "KeyComparator Slice_compare"
  by (rule bytewise.mem.skip_order_axioms)

context comparator
begin

text \<open>The table holds the writes \<open>ws\<close>, in the order of their keys.\<close>

definition holds :: "MemTable \<Rightarrow> nat list \<Rightarrow> mem_write list \<Rightarrow> bool" where
  "holds m order ws \<longleftrightarrow> mem.complete (mt_table m) order \<and> map (skey (mt_table m)) order = map write_entry ws \<and>
     list_all (\<lambda>w. write_ok w \<and> ok (fst (snd (snd w)))) ws"

definition key_less :: "mem_write \<Rightarrow> mem_write \<Rightarrow> bool" where
  "key_less a b \<longleftrightarrow> InternalKey_Compare compare (write_key a) (write_key b) < 0"

lemma write_mem_ok: "write_ok w \<Longrightarrow> mem_ok ok (write_entry w) \<longleftrightarrow> ok (fst (snd (snd w)))"
  using entry_slice [of w "[]"] by (cases w) (simp add: mem_ok_def write_key_eq ExtractUserKey_def)

lemma holds_sorted:
  assumes "holds m order ws"
  shows "sorted_wrt key_less ws"
proof -
  have "mem.sorted_keys (map write_entry ws)" using assms by (auto simp: holds_def elim: mem.completeE)
  then have "sorted_wrt (\<lambda>a b. KeyComparator compare (write_entry a) (write_entry b) < 0) ws"
    by (simp add: mem.sorted_keys_def sorted_wrt_map)
  then show ?thesis using assms unfolding holds_def
    by (auto simp: key_less_def KeyComparator_entries list_all_iff elim!: sorted_wrt_mono_rel [rotated])
qed

lemma new_holds: "holds new_MemTable [] []"
  by (simp add: holds_def new_MemTable_def mem.new_complete)

lemma Add_holds:
  assumes "holds m order ws" and "write_ok (s, t, k, v)" and "ok k"
    and "\<forall>w \<in> set ws. fst (snd (snd w)) = k \<longrightarrow> fst w \<noteq> s"
  shows "\<exists>m' order'. MemTable_Add compare s t k v m = Some m' \<and> holds m' order'
    (takeWhile (\<lambda>w. key_less w (s, t, k, v)) ws @ (s, t, k, v) # dropWhile (\<lambda>w. key_less w (s, t, k, v)) ws)"
proof -
  let ?e = "write_entry (s, t, k, v)" and ?P = "\<lambda>w. key_less w (s, t, k, v)"
  have c: "mem.complete (mt_table m) order" and ks: "map (skey (mt_table m)) order = map write_entry ws"
    and ws: "\<forall>w \<in> set ws. write_ok w \<and> ok (fst (snd (snd w)))" using assms(1) by (simp_all add: holds_def list_all_iff)
  have cmp: "KeyComparator compare (write_entry w) ?e = InternalKey_Compare compare (write_key w) (write_key (s, t, k, v))"
    if "w \<in> set ws" for w using KeyComparator_entries ws that assms(2) by blast
  have ne: "KeyComparator compare (write_entry w) ?e \<noteq> 0" if "w \<in> set ws" for w
  proof -
    obtain s' t' k' v' where w: "w = (s', t', k', v')" by (cases w)
    have "k' = k \<Longrightarrow> PackSequenceAndType s' t' \<noteq> PackSequenceAndType s t"
    proof -
      assume "k' = k"
      then have "s' \<noteq> s" using assms(4) that w by auto
      moreover have "s' \<le> kMaxSequenceNumber" "s \<le> kMaxSequenceNumber" using ws that w assms(2) by (auto simp: write_ok_def)
      ultimately show ?thesis using pack_parts(1) [of s' t'] pack_parts(1) [of s t] by metis
    qed
    moreover have "ok k'" using ws that w by auto
    ultimately show ?thesis
      using cmp [OF that] compare_0 [of k' k] assms(3) by (auto simp: w write_key_eq InternalKey_Compare_append)
  qed
  have tw: "takeWhile (\<lambda>k. KeyComparator compare k ?e < 0) (map write_entry ws) = map write_entry (takeWhile ?P ws)"
    "dropWhile (\<lambda>k. KeyComparator compare k ?e < 0) (map write_entry ws) = map write_entry (dropWhile ?P ws)"
    unfolding takeWhile_map dropWhile_map o_def key_less_def using cmp by (auto cong: takeWhile_cong dropWhile_cong)
  have "mem_ok ok ?e" using write_mem_ok [OF assms(2)] assms(3) by simp
  from mem.Insert_complete [OF c this] ne obtain s' order' where i: "SkipList_Insert (KeyComparator compare) ?e (mt_table m) = Some s'"
      "mem.complete s' order'" "map (skey s') order' = map write_entry (takeWhile ?P ws @ (s, t, k, v) # dropWhile ?P ws)"
    unfolding ks tw by auto
  have "list_all (\<lambda>w. write_ok w \<and> ok (fst (snd (snd w)))) (takeWhile ?P ws @ (s, t, k, v) # dropWhile ?P ws)"
    using ws assms(2,3) by (auto simp: list_all_iff dest: set_takeWhileD set_dropWhileD)
  then have "holds (m\<lparr>mt_table := s'\<rparr>) order' (takeWhile ?P ws @ (s, t, k, v) # dropWhile ?P ws)"
    using i(2,3) by (simp add: holds_def)
  then show ?thesis using Add_insert [OF assms(2)] i(1) by (intro exI) simp
qed

text \<open>A write that a lookup at a sequence number may see.\<close>

lemma key_less_iff:
  assumes "ok k" and "ok k'"
  shows "key_less (s, t, k, v) (s', t', k', v') \<longleftrightarrow> compare k k' < 0 \<or> k = k' \<and> PackSequenceAndType s' t' < PackSequenceAndType s t"
  using compare_0 [OF assms] compare_self [OF assms(1)]
  by (auto simp: key_less_def write_key_eq InternalKey_Compare_append)

lemma not_less_target:
  assumes "write_ok w" and "ok u" and "fst (snd (snd w)) = u" and "snap \<le> kMaxSequenceNumber"
  shows "\<not> key_less w (snap, kTypeValue, u, []) \<longleftrightarrow> fst w \<le> snap"
proof -
  obtain s t v where w: "w = (s, t, u, v)" using assms(3) by (cases w) auto
  have "\<not> type_byte kTypeValue < type_byte t" by (cases t) auto
  then show ?thesis
    using pack_less [of snap s kTypeValue t] assms compare_self [OF assms(2)] by (auto simp: w key_less_iff write_ok_def)
qed

lemma later_not_less:
  assumes "\<forall>w \<in> set ws. write_ok w \<and> ok (fst (snd (snd w)))" and "sorted_wrt key_less ws"
    and "dropWhile (\<lambda>w. key_less w tgt) ws = w # rest" and "w' \<in> set ws" and "\<not> key_less w' tgt"
  shows "w' = w \<or> key_less w w'"
proof -
  have "w' \<in> set (w # rest)"
    using assms(3-5) by (metis Un_iff set_append set_takeWhileD takeWhile_dropWhile_id)
  moreover have "sorted_wrt key_less (w # rest)"
    using assms(2) assms(3) by (metis dropWhile_eq_drop sorted_wrt_drop)
  ultimately show ?thesis by auto
qed

lemma first_visible:
  assumes "\<forall>w \<in> set ws. write_ok w \<and> ok (fst (snd (snd w)))" and "sorted_wrt key_less ws" and "ok u" and "snap \<le> kMaxSequenceNumber"
    and "tgt = (snap, kTypeValue, u, [])"
  shows "case dropWhile (\<lambda>w. key_less w tgt) ws of
      [] \<Rightarrow> \<forall>w \<in> set ws. \<not> visible u snap w
    | w # _ \<Rightarrow> if fst (snd (snd w)) = u then visible u snap w \<and> (\<forall>w' \<in> set ws. visible u snap w' \<longrightarrow> fst w' \<le> fst w)
        else \<forall>w \<in> set ws. \<not> visible u snap w"
proof (cases "dropWhile (\<lambda>w. key_less w tgt) ws")
  case Nil
  then have "\<forall>w \<in> set ws. key_less w tgt" by simp
  have "\<not> visible u snap w" if "w \<in> set ws" for w
    using not_less_target [of w u snap] \<open>\<forall>w \<in> set ws. key_less w tgt\<close> assms(1,3-5) that by (auto simp: visible_def)
  then show ?thesis unfolding Nil by simp
next
  case (Cons w rest)
  have w: "w \<in> set ws" "\<not> key_less w tgt"
    using Cons by (metis list.set_intros(1) set_dropWhileD, metis hd_dropWhile list.distinct(1) list.sel(1))
  obtain s t k v where wp: "w = (s, t, k, v)" by (cases w)
  have okk: "ok k" "write_ok w" using assms(1) w(1) by (auto simp: wp)
  have rest: "compare k u < 0 \<or> k = u \<and> fst w' \<le> s" if w': "w' \<in> set ws" "visible u snap w'" for w'
  proof -
    obtain s' t' v' where wq: "w' = (s', t', u, v')" using w'(2) by (cases w') (auto simp: visible_def)
    have "write_ok w'" using assms(1) w'(1) by blast
    then have "\<not> key_less w' tgt" using not_less_target [of w' u snap] w'(2) assms(3-5) by (simp add: visible_def)
    from later_not_less [OF assms(1,2) Cons w'(1) this] have "w' = w \<or> key_less w w'" .
    then show ?thesis
      using key_less_iff [OF okk(1) assms(3)] pack_less [of s' s t' t] okk(2) \<open>write_ok w'\<close>
      by (auto simp: wp wq write_ok_def)
  qed
  have "\<not> compare k u < 0" using w(2) key_less_iff [OF okk(1) assms(3)] assms(5) wp by blast
  moreover have "k = u \<Longrightarrow> visible u snap w" using w(2) not_less_target [OF okk(2) assms(3) _ assms(4)] assms(5) by (simp add: visible_def wp)
  ultimately show ?thesis using rest by (auto simp: Cons wp)
qed

lemma Get_entry:
  assumes "write_ok w" and "ok (fst (snd (snd w)))" and "ok u"
  shows "MemTable_Get_entry compare (mk_LookupKey u snap) val st (write_entry w) =
    Some (mem_result (if fst (snd (snd w)) = u then Some w else None) val st)"
proof -
  obtain s t k v where w: "w = (s, t, k, v)" by (cases w)
  have o: "length k + 8 < 2 ^ 32" "length v < 2 ^ 32" "s \<le> kMaxSequenceNumber" using assms(1) by (simp_all add: w write_ok_def)
  let ?n = "of_nat (length k + 8) :: u32"
  have n: "unat ?n = length k + 8" using o(1) by (simp add: unat_of_nat del: of_nat_add)
  then have n8: "unat (?n - 8) = length k" by (simp add: unat_sub word_le_nat_alt del: of_nat_add)
  let ?z = "k @ word_le 8 (PackSequenceAndType s t) @ EncodeVarint32 (of_nat (length v)) @ v"
  have e: "write_entry w = EncodeVarint32 ?n @ ?z" by (simp add: w write_entry_def write_key_eq write_value_def)
  have "rds ?z 0 (length k) = Some k" "DecodeFixed64 True (drop (length k) ?z) = Some (PackSequenceAndType s t)"
    "mem_slice (drop (length k + 8) ?z) = Some (v, [])"
    using DecodeFixed_hit(2) mem_slice_put [OF o(2), of "[]"] by (simp_all add: rds_def)
  then show ?thesis
    unfolding MemTable_Get_entry_def e varint_at n n8 LookupKey_parts(2) using compare_0 [of k u] assms pack_parts(2) [OF o(3), of t]
    by (cases t) (simp_all add: w mem_result_def)
qed

lemma target_slice:
  assumes "length u + 8 < 2 ^ 32"
  shows "mem_slice (memtable_key (mk_LookupKey u snap)) = Some (write_key (snap, kTypeValue, u, []), [])"
  using mem_slice_put [of "write_key (snap, kTypeValue, u, [])" "[]"] assms
  by (simp add: memtable_key_slice LookupKey_parts(1) write_key_def kValueTypeForSeek_def PutLengthPrefixedSlice_def PutVarint32_def)
    (simp add: Append_eq)

lemma Get_holds:
  assumes "holds m order ws" and "inj_on write_id (set ws)" and "ok u" and "snap \<le> kMaxSequenceNumber" and "length u + 8 < 2 ^ 32"
  shows "MemTable_Get compare (mk_LookupKey u snap) val st m = Some (mem_result (newest u snap ws) val st)"
proof -
  let ?T = "memtable_key (mk_LookupKey u snap)" and ?t = "(snap, kTypeValue, u, [])"
  let ?i = "length (takeWhile (\<lambda>w. key_less w ?t) ws)"
  have c: "mem.complete (mt_table m) order" and ks: "map (skey (mt_table m)) order = map write_entry ws"
    and ws: "\<forall>w \<in> set ws. write_ok w \<and> ok (fst (snd (snd w)))" using assms(1) by (simp_all add: holds_def list_all_iff)
  have len: "length order = length ws" using ks by (metis length_map)
  have T: "mem_ok ok ?T" using target_slice [OF assms(5)] assms(3) by (simp add: mem_ok_def write_key_eq ExtractUserKey_def)
  have cmp: "KeyComparator compare (write_entry w) ?T = InternalKey_Compare compare (write_key w) (write_key ?t)" if "w \<in> set ws" for w
    using entry_slice [of w "[]"] ws that target_slice [OF assms(5)] by (simp add: KeyComparator_def)
  have "takeWhile (\<lambda>k. KeyComparator compare k ?T < 0) (map write_entry ws) = map write_entry (takeWhile (\<lambda>w. key_less w ?t) ws)"
    unfolding takeWhile_map o_def key_less_def using cmp by (auto cong: takeWhile_cong)
  then have seek: "SL_Seek (KeyComparator compare) (mt_table m) ?T = Some (node_at order ?i)"
    using mem.SL_Seek_at [OF c T] by (simp add: ks)
  note fv = first_visible [OF ws holds_sorted [OF assms(1)] assms(3,4) refl]
  show ?thesis
  proof (cases "dropWhile (\<lambda>w. key_less w ?t) ws")
    case Nil
    then have "?i = length order" using len by (metis append_Nil2 takeWhile_dropWhile_id)
    moreover have "newest u snap ws = None" using fv unfolding Nil by (simp add: newest_None)
    ultimately show ?thesis using seek by (simp add: MemTable_Get_def node_at_def mem_result_def)
  next
    case (Cons w rest)
    then have i: "?i < length ws" "ws ! ?i = w"
      by (metis (no_types) length_append less_add_same_cancel1 length_greater_0_conv list.distinct(1) takeWhile_dropWhile_id)
        (metis (no_types) Cons nth_append_length takeWhile_dropWhile_id)
    then have w: "w \<in> set ws" by (metis nth_mem)
    have "skey (mt_table m) (order ! ?i) = write_entry w" using ks i len by (metis nth_map)
    moreover have "order ! ?i \<in> set order" using i(1) len by simp
    ultimately have "SL_key (mt_table m) (Some (order ! ?i)) = Some (write_entry w)"
      using mem.complete_key [OF c] by (simp add: SL_key_def)
    moreover have "newest u snap ws = (if fst (snd (snd w)) = u then Some w else None)"
      using fv newest_unique [OF assms(2) w, of u snap] newest_None [of u snap ws] unfolding Cons by (auto split: if_splits)
    ultimately show ?thesis
      using seek Get_entry [of w u snap val st] ws w assms(3) i(1) len by (simp add: MemTable_Get_def node_at_def)
  qed
qed

text \<open>Any number of writes.\<close>

lemma insert_mset:
  "mset (takeWhile P ws @ w # dropWhile P ws) = add_mset w (mset ws)"
proof -
  have "mset (takeWhile P ws) + mset (dropWhile P ws) = mset ws" by (metis mset_append takeWhile_dropWhile_id)
  then show ?thesis by simp
qed

lemma adds_hold:
  "holds m order ws \<Longrightarrow> list_all (\<lambda>w. write_ok w \<and> ok (fst (snd (snd w)))) new \<Longrightarrow> distinct (map write_id (ws @ new)) \<Longrightarrow>
    \<exists>m' order' ws'. mem_adds compare new m = Some m' \<and> holds m' order' ws' \<and> mset ws' = mset (ws @ new)"
proof (induction new arbitrary: m order ws)
  case (Cons w new)
  obtain s t k v where w: "w = (s, t, k, v)" by (cases w)
  have "\<forall>w \<in> set ws. fst (snd (snd w)) = k \<longrightarrow> fst w \<noteq> s"
    using Cons.prems(3) by (force simp: w write_id_def)
  with Add_holds [OF Cons.prems(1), of s t k v] Cons.prems(2) obtain m1 order1 ws1 where
    1: "MemTable_Add compare s t k v m = Some m1" "holds m1 order1 ws1" "mset ws1 = add_mset w (mset ws)"
    using insert_mset [of "\<lambda>w. key_less w (s, t, k, v)" ws w] by (auto simp: w)
  have "mset (map write_id (ws1 @ new)) = mset (map write_id (ws @ w # new))" using 1(3) by simp
  then have "distinct (map write_id (ws1 @ new))" using Cons.prems(3) by (metis mset_eq_imp_distinct_iff)
  from Cons.IH [OF 1(2) _ this] Cons.prems(2) 1 show ?case by (auto simp: w)
qed auto

text \<open>The iterator.\<close>

definition mti_inv :: "MemTable \<Rightarrow> nat list \<Rightarrow> mem_write list \<Rightarrow> nat option \<Rightarrow> bool" where
  "mti_inv m order ws iter \<longleftrightarrow> holds m order ws \<and> (\<exists>i \<le> length order. iter = node_at order i)"

lemma mti_pos_at: "holds m order ws \<Longrightarrow> i \<le> length order \<Longrightarrow> mti_pos order (node_at order i) = i"
proof -
  assume h: "holds m order ws" and i: "i \<le> length order"
  have d: "distinct order" using h by (auto simp: holds_def sl_rep_def elim!: mem.completeE)
  show ?thesis
  proof (cases "i = length order")
    case False
    then have l: "i < length order" using i by simp
    have "takeWhile (\<lambda>b. b \<noteq> order ! i) order = take i order"
      using d l by (intro takeWhile_eq_take_P_nth) (auto simp: nth_eq_iff_index_eq)
    then show ?thesis using l by (simp add: mti_pos_def node_at_def)
  qed (simp add: mti_pos_def node_at_def)
qed

lemma mti_invE:
  assumes "mti_inv m order ws iter"
  obtains i where "iter = node_at order i" "mti_pos order iter = i" "i \<le> length order" "holds m order ws" "length order = length ws"
proof -
  from assms obtain i where i: "i \<le> length order" "iter = node_at order i" "holds m order ws" unfolding mti_inv_def by blast
  have "map (skey (mt_table m)) order = map write_entry ws" using i(3) by (simp add: holds_def)
  then have "length order = length ws" by (rule map_eq_imp_length_eq)
  moreover have "mti_pos order iter = i" using mti_pos_at [OF i(3,1)] i(2) by simp
  ultimately show thesis using that [OF i(2) _ i(1,3)] by blast
qed

lemma mti_at: "holds m order ws \<Longrightarrow> i \<le> length order \<Longrightarrow> mti_inv m order ws (node_at order i) \<and> mti_pos order (node_at order i) = i"
  using mti_pos_at by (auto simp: mti_inv_def)

lemma mti_entry_at:
  assumes "holds m order ws" and "i < length ws"
  shows "MTI_entry m (node_at order i) = Some (write_key (ws ! i), write_value (ws ! i))"
proof -
  have c: "mem.complete (mt_table m) order" and ks: "map (skey (mt_table m)) order = map write_entry ws"
    and ws: "write_ok (ws ! i)" using assms by (simp_all add: holds_def list_all_length)
  have l: "i < length order" using ks assms(2) by (metis length_map)
  then have "SL_key (mt_table m) (node_at order i) = Some (write_entry (ws ! i))"
    using mem.complete_key [OF c, of "order ! i"] arg_cong [OF ks, of "\<lambda>xs. xs ! i"] assms(2)
    by (simp add: SL_key_def node_at_def)
  moreover have "length (write_value (ws ! i)) < 2 ^ 32"
    using ws by (cases "ws ! i") (simp add: write_ok_def write_value_def)
  ultimately show ?thesis
    using entry_slice [OF ws, of "[]"] mem_slice_put [of "write_value (ws ! i)" "[]"]
    by (simp add: MTI_entry_def MTI_key_def MTI_value_def)
qed

lemma mti_seek_at:
  assumes "holds m order ws" and "internal_ok ok target" and "length target < 2 ^ 32"
  shows "MTI_Seek compare m target iter =
    Some (node_at order (length (takeWhile (\<lambda>e. InternalKey_Compare compare (fst e) target < 0) (map (\<lambda>w. (write_key w, write_value w)) ws))))"
proof -
  have c: "mem.complete (mt_table m) order" and ks: "map (skey (mt_table m)) order = map write_entry ws"
    and ws: "\<forall>w \<in> set ws. write_ok w" using assms(1) by (simp_all add: holds_def list_all_iff)
  note t = EncodeKey_slice [OF assms(3)]
  have cmp: "KeyComparator compare (write_entry w) (EncodeKey target) = InternalKey_Compare compare (write_key w) target"
    if "w \<in> set ws" for w using entry_slice [of w "[]"] ws that t by (simp add: KeyComparator_def)
  have "takeWhile (\<lambda>k. KeyComparator compare k (EncodeKey target) < 0) (map write_entry ws) =
      map write_entry (takeWhile (\<lambda>w. InternalKey_Compare compare (write_key w) target < 0) ws)"
    unfolding takeWhile_map o_def using cmp by (auto cong: takeWhile_cong)
  note tw = this
  have "mem_ok ok (EncodeKey target)" using t assms(2) by (simp add: mem_ok_def)
  from mem.SL_Seek_at [OF c this] show ?thesis unfolding MTI_Seek_def ks tw by (simp add: takeWhile_map o_def)
qed

theorem memtable_iterator:
  "iterator (map (\<lambda>w. (write_key w, write_value w)) ws) (\<lambda>k. internal_ok ok k \<and> length k < 2 ^ 32)
     (\<lambda>k t. InternalKey_Compare compare k t < 0) (mti_inv m order ws) (mti_pos order) MTI_Valid (MTI_entry m)
     (MTI_SeekToFirst m) (MTI_SeekToLast m) (MTI_Next m) (MTI_Prev compare m) (MTI_Seek compare m)"
proof
  fix iter assume inv: "mti_inv m order ws iter"
  from inv obtain i where i: "iter = node_at order i" "mti_pos order iter = i" "i \<le> length order" "holds m order ws"
    "length order = length ws" by (rule mti_invE)
  then have c: "mem.complete (mt_table m) order" by (simp add: holds_def)
  show v: "MTI_Valid iter = (mti_pos order iter < length (map (\<lambda>w. (write_key w, write_value w)) ws))"
    unfolding i(2) using i(1,5) by (simp add: MTI_Valid_def node_at_def)
  show "MTI_entry m iter = Some (map (\<lambda>w. (write_key w, write_value w)) ws ! mti_pos order iter)" if "MTI_Valid iter"
    using that v mti_entry_at [OF i(4)] unfolding i(2) unfolding i(1) by simp
  show "\<exists>s'. MTI_SeekToFirst m iter = Some s' \<and> mti_inv m order ws s' \<and> mti_pos order s' = 0"
    using mem.SL_SeekToFirst_at [OF c] mti_at [OF i(4)] by (simp add: MTI_SeekToFirst_def)
  show "\<exists>s'. MTI_SeekToLast m iter = Some s' \<and> mti_inv m order ws s' \<and>
      mti_pos order s' = length (map (\<lambda>w. (write_key w, write_value w)) ws) - 1"
    using mem.SL_SeekToLast_at [OF c] mti_at [OF i(4), of "length order - 1"] i(5) by (simp add: MTI_SeekToLast_def)
  show "\<exists>s'. MTI_Seek compare m target iter = Some s' \<and> mti_inv m order ws s' \<and> mti_pos order s' =
      length (takeWhile (\<lambda>e. InternalKey_Compare compare (fst e) target < 0) (map (\<lambda>w. (write_key w, write_value w)) ws))"
    if "internal_ok ok target \<and> length target < 2 ^ 32" for target
    using mti_seek_at [OF i(4), of target iter] that
      mti_at [OF i(4), of "length (takeWhile (\<lambda>e. InternalKey_Compare compare (fst e) target < 0) (map (\<lambda>w. (write_key w, write_value w)) ws))"]
      i(5) length_takeWhile_le [of _ "map (\<lambda>w. (write_key w, write_value w)) ws"] by simp
  assume "MTI_Valid iter"
  then have l: "i < length order" using v i by simp
  then have n: "iter = Some (order ! i)" using i(1) by (simp add: node_at_def)
  show "\<exists>s'. MTI_Next m iter = Some s' \<and> mti_inv m order ws s' \<and> mti_pos order s' = Suc (mti_pos order iter)"
    using mem.SL_Next_at [OF c l] mti_at [OF i(4), of "Suc i"] l unfolding i(2) by (simp add: MTI_Next_def n)
  have "SL_Prev (KeyComparator compare) (mt_table m) iter = Some (node_at order (if i = 0 then length order else i - 1))"
    using mem.SL_Prev_at [OF c l] l by (auto simp: n node_at_def)
  moreover have "(if i = 0 then length order else i - 1) \<le> length order" using l by (cases "i = 0") simp_all
  note mti_at [OF i(4) this]
  ultimately show "\<exists>s'. MTI_Prev compare m iter = Some s' \<and> mti_inv m order ws s' \<and>
      mti_pos order s' = (if mti_pos order iter = 0 then length (map (\<lambda>w. (write_key w, write_value w)) ws) else mti_pos order iter - 1)"
    unfolding i(2) length_map i(5) [symmetric] MTI_Prev_def by blast
qed

end

interpretation bytewise_memtable: iterator "map (\<lambda>w. (write_key w, write_value w)) ws" "\<lambda>k. internal_ok (\<lambda>_. True) k \<and> length k < 2 ^ 32"
    "\<lambda>k t. InternalKey_Compare Slice_compare k t < 0" "bytewise.mti_inv m order ws" "mti_pos order" MTI_Valid "MTI_entry m"
    "MTI_SeekToFirst m" "MTI_SeekToLast m" "MTI_Next m" "MTI_Prev Slice_compare m" "MTI_Seek Slice_compare m" for m order ws
  by (rule bytewise.memtable_iterator)

section \<open>Properties\<close>

lemma bytewise_adds:
  assumes "list_all write_ok ws" and "distinct (map write_id ws)"
  obtains m order ws' where "mem_adds Slice_compare ws new_MemTable = Some m" "bytewise.holds m order ws'" "mset ws' = mset ws"
    "inj_on write_id (set ws')"
proof -
  obtain m order ws' where m: "mem_adds Slice_compare ws new_MemTable = Some m" "bytewise.holds m order ws'" "mset ws' = mset ws"
    using bytewise.adds_hold [OF bytewise.new_holds, of ws] assms by auto
  moreover have "inj_on write_id (set ws')"
    using assms(2) m(3) by (metis distinct_map set_mset_mset)
  ultimately show thesis by (intro that)
qed

text \<open>
  C29: The memory table is a multi-version map. After any writes, in any order, with sequence numbers
  that differ for the same key, a lookup of a key at a sequence number ends without reading outside an
  entry and answers with the newest write of exactly that key that is not newer than the number: its
  value, or that it is deleted, and nothing when there is none.
\<close>

theorem memtable_get:
  assumes "list_all write_ok ws" and "distinct (map write_id ws)" and "snap \<le> kMaxSequenceNumber" and "length u + 8 < 2 ^ 32"
  shows "\<exists>m. mem_adds Slice_compare ws new_MemTable = Some m \<and>
    MemTable_Get Slice_compare (mk_LookupKey u snap) val st m = Some (mem_result (newest u snap ws) val st)"
proof -
  obtain m order ws' where m: "mem_adds Slice_compare ws new_MemTable = Some m" "bytewise.holds m order ws'" "mset ws' = mset ws"
    "inj_on write_id (set ws')" by (rule bytewise_adds [OF assms(1,2)])
  have "newest u snap ws' = newest u snap ws" by (rule newest_cong [OF m(4)]) (metis m(3) set_mset_mset)
  with bytewise.Get_holds [OF m(2,4) TrueI assms(3,4)] m(1) show ?thesis by simp
qed

theorem memtable_get_witness:
  "\<exists>m. mem_adds Slice_compare [(7, kTypeValue, [97], [1]), (9, kTypeDeletion, [97], []), (8, kTypeValue, [97, 0], [2])] new_MemTable = Some m \<and>
    MemTable_Get Slice_compare (mk_LookupKey [97] 8) [] None m = Some (True, [1], None)"
  using memtable_get [of "[(7, kTypeValue, [97], [1]), (9, kTypeDeletion, [97], []), (8, kTypeValue, [97, 0], [2])]" 8 "[97]" "[]" None]
  by (simp add: write_ok_def write_id_def kMaxSequenceNumber_def visible_def mem_result_def)

text \<open>
  The iterator of the memory table goes over exactly the writes it was given, in the order of internal
  keys, forwards and backwards, and from a seek over those that are not before the target. Every
  search and step of the skip list ends.
\<close>

theorem memtable_scan:
  assumes "list_all write_ok ws" and "distinct (map write_id ws)" and "8 \<le> length target" and "length target < 2 ^ 32"
  shows "\<exists>m es. mem_adds Slice_compare ws new_MemTable = Some m \<and>
    mset es = mset (map (\<lambda>w. (write_key w, write_value w)) ws) \<and>
    sorted_wrt (\<lambda>a b. InternalKey_Compare Slice_compare (fst a) (fst b) < 0) es \<and>
    do { it \<leftarrow> MTI_SeekToFirst m None; drain MTI_Valid (MTI_entry m) (MTI_Next m) it } = Some es \<and>
    do { it \<leftarrow> MTI_SeekToLast m None; drain MTI_Valid (MTI_entry m) (MTI_Prev Slice_compare m) it } = Some (rev es) \<and>
    do { it \<leftarrow> MTI_Seek Slice_compare m target None; drain MTI_Valid (MTI_entry m) (MTI_Next m) it } =
      Some (dropWhile (\<lambda>e. InternalKey_Compare Slice_compare (fst e) target < 0) es)"
proof -
  obtain m order ws' where m: "mem_adds Slice_compare ws new_MemTable = Some m" "bytewise.holds m order ws'" "mset ws' = mset ws"
    by (rule bytewise_adds [OF assms(1,2)])
  have "None = node_at order (length order)" by (simp add: node_at_def)
  then have inv: "bytewise.mti_inv m order ws' None" using m(2) unfolding bytewise.mti_inv_def by blast
  have "sorted_wrt (\<lambda>a b. InternalKey_Compare Slice_compare (fst a) (fst b) < 0) (map (\<lambda>w. (write_key w, write_value w)) ws')"
    using bytewise.holds_sorted [OF m(2)] unfolding sorted_wrt_map fst_conv bytewise.key_less_def [abs_def] .
  moreover have "mset (map (\<lambda>w. (write_key w, write_value w)) ws') = mset (map (\<lambda>w. (write_key w, write_value w)) ws)"
    using m(3) by simp
  ultimately show ?thesis
    using m(1) bytewise_memtable.scan_forward [OF inv] bytewise_memtable.scan_backward [OF inv]
      bytewise_memtable.scan_from [OF inv, of target] assms(3,4) by blast
qed

theorem memtable_scan_witness:
  "\<exists>m es. mem_adds Slice_compare [(7, kTypeValue, [98], [1]), (9, kTypeValue, [97], [2])] new_MemTable = Some m \<and>
    mset es = {#(write_key (7, kTypeValue, [98], [1]), [1]), (write_key (9, kTypeValue, [97], [2]), [2])#} \<and>
    do { it \<leftarrow> MTI_SeekToFirst m None; drain MTI_Valid (MTI_entry m) (MTI_Next m) it } = Some es"
  using memtable_scan [of "[(7, kTypeValue, [98], [1]), (9, kTypeValue, [97], [2])]" "replicate 8 0"]
  by (simp add: write_ok_def write_id_def kMaxSequenceNumber_def write_value_def) blast

text \<open>Any number of inserts.\<close>

fun inserts :: "bytes list \<Rightarrow> bytes skiplist \<Rightarrow> bytes skiplist option" where
  "inserts [] s = Some s"
| "inserts (k # ks) s = do { s \<leftarrow> SkipList_Insert (KeyComparator Slice_compare) k s; inserts ks s }"

lemma inserts_complete:
  "bytewise.mem.complete s order \<Longrightarrow> list_all (mem_ok (\<lambda>_. True)) ks \<Longrightarrow>
    sorted_wrt (\<lambda>a b. KeyComparator Slice_compare a b \<noteq> 0) (map (skey s) order @ ks) \<Longrightarrow>
    \<exists>s' order'. inserts ks s = Some s' \<and> bytewise.mem.complete s' order' \<and> set (map (skey s') order') = set (map (skey s) order @ ks)"
proof (induction ks arbitrary: s order)
  case (Cons k ks)
  let ?P = "\<lambda>a. KeyComparator Slice_compare a k < 0" and ?o = "map (skey s) order"
  have "\<forall>a \<in> set ?o. KeyComparator Slice_compare a k \<noteq> 0" using Cons.prems(3) by (simp add: sorted_wrt_append)
  then obtain s1 order1 where 1: "SkipList_Insert (KeyComparator Slice_compare) k s = Some s1" "bytewise.mem.complete s1 order1"
      "map (skey s1) order1 = takeWhile ?P ?o @ k # dropWhile ?P ?o"
    using bytewise.mem.Insert_complete [OF Cons.prems(1)] Cons.prems(2) by fastforce
  have set1: "set (map (skey s1) order1) = insert k (set ?o)"
    unfolding 1(3) by (metis Un_insert_right list.set(2) set_append takeWhile_dropWhile_id)
  have "sorted_wrt (\<lambda>a b. KeyComparator Slice_compare a b \<noteq> 0) (map (skey s1) order1)"
    using 1(2) by (auto elim!: bytewise.mem.completeE simp: bytewise.mem.sorted_keys_def intro: sorted_wrt_mono_rel [rotated])
  moreover have "\<forall>a \<in> set (map (skey s1) order1). \<forall>b \<in> set ks. KeyComparator Slice_compare a b \<noteq> 0"
    unfolding set1 using Cons.prems(3) by (auto simp: sorted_wrt_append)
  ultimately have "sorted_wrt (\<lambda>a b. KeyComparator Slice_compare a b \<noteq> 0) (map (skey s1) order1 @ ks)"
    using Cons.prems(3) by (simp add: sorted_wrt_append)
  from Cons.IH [OF 1(2) _ this] Cons.prems(2) obtain s' order' where
    "inserts ks s1 = Some s'" "bytewise.mem.complete s' order'" "set (map (skey s') order') = set (map (skey s1) order1 @ ks)" by auto
  then show ?case using 1(1) set1 by auto
qed auto

text \<open>
  C31: Readers never wait for a writer of the skip list. After any inserts of different keys, the writer of
  one more key gets through its steps; and after any number of its links, up to the last one, a reader's
  search returns, and what it finds is the first key at or after the target: of the keys before the
  insert as long as no link has been made, and of the keys with the new one from the first link on.
\<close>

theorem skiplist_readers:
  assumes "list_all (mem_ok (\<lambda>_. True)) (key # ks)" and "sorted_wrt (\<lambda>a b. KeyComparator Slice_compare a b \<noteq> 0) (ks @ [key])"
    and "mem_ok (\<lambda>_. True) target"
  shows "\<exists>s prev x h s1. inserts ks (new_SkipList []) = Some s \<and>
    prepare_insert (KeyComparator Slice_compare) key s = Some (prev, x, h, s1) \<and> 1 \<le> h \<and>
    (\<forall>i \<le> h. \<exists>s2 r. link_levels prev x i s1 = Some s2 \<and>
      do { n \<leftarrow> SL_Seek (KeyComparator Slice_compare) s2 target; Some (SL_key s2 n) } = Some r \<and>
      first_from (KeyComparator Slice_compare) (set ks \<union> (if i = 0 then {} else {key})) target r)"
proof -
  obtain s order where s: "inserts ks (new_SkipList []) = Some s" "bytewise.mem.complete s order" "set (map (skey s) order) = set ks"
    using inserts_complete [OF bytewise.mem.new_complete, of ks "[]"] assms(1,2) by (auto simp: sorted_wrt_append)
  have "\<forall>k \<in> set (map (skey s) order). KeyComparator Slice_compare k key \<noteq> 0"
    unfolding s(3) using assms(2) by (simp add: sorted_wrt_append)
  from bytewise.mem.seek_during_insert [OF s(2) _ this assms(3)] assms(1) show ?thesis
    unfolding s(3) using s(1) by auto
qed

theorem skiplist_readers_witness:
  "\<exists>s prev x h s1 s2 r. inserts [EncodeKey (replicate 9 1)] (new_SkipList []) = Some s \<and>
    prepare_insert (KeyComparator Slice_compare) (EncodeKey (replicate 9 2)) s = Some (prev, x, h, s1) \<and>
    link_levels prev x 1 s1 = Some s2 \<and>
    do { n \<leftarrow> SL_Seek (KeyComparator Slice_compare) s2 (EncodeKey (replicate 9 1)); Some (SL_key s2 n) } = Some r \<and>
    first_from (KeyComparator Slice_compare) {EncodeKey (replicate 9 1), EncodeKey (replicate 9 2)} (EncodeKey (replicate 9 1)) r"
proof -
  have h: "list_all (mem_ok (\<lambda>_. True)) [EncodeKey (replicate 9 2), EncodeKey (replicate 9 1)]"
    "sorted_wrt (\<lambda>a b. KeyComparator Slice_compare a b \<noteq> 0) ([EncodeKey (replicate 9 1)] @ [EncodeKey (replicate 9 2)])"
    "mem_ok (\<lambda>_. True) (EncodeKey (replicate 9 1))"
    by (simp_all add: mem_ok_def EncodeKey_slice KeyComparator_def InternalKey_Compare_def Let_def ExtractUserKey_def Slice_compare_0)
  have "set [EncodeKey (replicate 9 1)] \<union> (if 1 = (0 :: nat) then {} else {EncodeKey (replicate 9 2)}) =
      {EncodeKey (replicate 9 1), EncodeKey (replicate 9 2)}" by auto
  with skiplist_readers [OF h] show ?thesis by metis
qed

text \<open>A write batch in front of the table: its records as writes.\<close>

fun batch_writes :: "u64 \<Rightarrow> batch_op list \<Rightarrow> mem_write list" where
  "batch_writes seq [] = []"
| "batch_writes seq (Op_Put k v # ops) = (seq, kTypeValue, k, v) # batch_writes (seq + 1) ops"
| "batch_writes seq (Op_Delete k # ops) = (seq, kTypeDeletion, k, []) # batch_writes (seq + 1) ops"

abbreviation batch_add :: "u64 \<Rightarrow> ValueType \<Rightarrow> bytes \<Rightarrow> bytes \<Rightarrow> MemTable option \<Rightarrow> MemTable option" where
  "batch_add s t k v m \<equiv> m \<bind> MemTable_Add Slice_compare s t k v"

lemma inserted_writes: "inserted batch_add seq ops (Some m) = mem_adds Slice_compare (batch_writes seq ops) m"
proof -
  have None: "inserted batch_add seq ops None = None" for seq ops
    by (induction seq ops rule: batch_writes.induct) simp_all
  show ?thesis
  proof (induction seq ops arbitrary: m rule: batch_writes.induct)
    case (2 seq k v ops)
    then show ?case using None by (cases "MemTable_Add Slice_compare seq kTypeValue k v m") simp_all
  next
    case (3 seq k ops)
    then show ?case using None by (cases "MemTable_Add Slice_compare seq kTypeDeletion k [] m") simp_all
  qed simp
qed

fun op_key :: "batch_op \<Rightarrow> bytes" where
  "op_key (Op_Put k v) = k"
| "op_key (Op_Delete k) = k"

fun op_result :: "batch_op option \<Rightarrow> bytes \<Rightarrow> Status \<Rightarrow> bool \<times> bytes \<times> Status" where
  "op_result None val st = (False, val, st)"
| "op_result (Some (Op_Put k v)) val st = (True, v, st)"
| "op_result (Some (Op_Delete k)) val st = (True, val, mk_Status kNotFound [] [])"

fun op_write :: "u64 \<Rightarrow> batch_op \<Rightarrow> mem_write" where
  "op_write s (Op_Put k v) = (s, kTypeValue, k, v)"
| "op_write s (Op_Delete k) = (s, kTypeDeletion, k, [])"

lemma batch_writes_nth: "length (batch_writes seq ops) = length ops"
  "i < length ops \<Longrightarrow> batch_writes seq ops ! i = op_write (seq + of_nat i) (ops ! i)"
proof -
  show "length (batch_writes seq ops) = length ops" by (induction seq ops rule: batch_writes.induct) simp_all
  show "i < length ops \<Longrightarrow> batch_writes seq ops ! i = op_write (seq + of_nat i) (ops ! i)"
  proof (induction seq ops arbitrary: i rule: batch_writes.induct)
    case (2 seq k v ops)
    then show ?case by (cases i) (simp_all add: ac_simps)
  next
    case (3 seq k ops)
    then show ?case by (cases i) (simp_all add: ac_simps)
  qed simp
qed

lemma op_write_parts: "fst (op_write s op) = s" "fst (snd (snd (op_write s op))) = op_key op"
  "mem_result (Some (op_write s op)) val st = op_result (Some op) val st"
  by (cases op; simp add: mem_result_def)+

lemma seq_less:
  assumes "unat seq + length ops \<le> unat kMaxSequenceNumber" and "i < length ops"
  shows "unat (seq + of_nat i) = unat seq + i" "seq + of_nat i \<le> kMaxSequenceNumber"
proof -
  have b: "unat seq + i < 2 ^ 64" using assms unsigned_less [of kMaxSequenceNumber, where 'a = nat] by simp
  then show "unat (seq + of_nat i) = unat seq + i" by (simp add: unat_word_ariths unat_of_nat)
  then show "seq + of_nat i \<le> kMaxSequenceNumber" using assms by (simp add: word_le_nat_alt)
qed

lemma batch_writes_sorted:
  assumes "unat seq + length ops \<le> unat kMaxSequenceNumber"
  shows "sorted_wrt (\<lambda>a b. fst a < fst b) (batch_writes seq ops)" "distinct (map write_id (batch_writes seq ops))"
proof -
  have less: "fst (batch_writes seq ops ! i) < fst (batch_writes seq ops ! j)" if "i < j" "j < length ops" for i j
    using that seq_less(1) [OF assms, of i] seq_less(1) [OF assms, of j]
    by (simp add: batch_writes_nth op_write_parts word_less_nat_alt)
  then show "sorted_wrt (\<lambda>a b. fst a < fst b) (batch_writes seq ops)"
    by (simp add: sorted_wrt_iff_nth_less batch_writes_nth(1))
  have "distinct (map fst (batch_writes seq ops))"
    using less by (auto simp: distinct_conv_nth batch_writes_nth(1)) (metis less_irrefl linorder_neqE_nat)
  then have "distinct (map (snd \<circ> write_id) (batch_writes seq ops))" by (simp add: write_id_def o_def)
  then show "distinct (map write_id (batch_writes seq ops))" by (metis distinct_map map_map)
qed

lemma batch_writes_append: "batch_writes seq (ops @ ops') = batch_writes seq ops @ batch_writes (seq + of_nat (length ops)) ops'"
  by (induction seq ops rule: batch_writes.induct) (simp_all add: ac_simps)

lemma find_none: "\<forall>x \<in> set xs. \<not> P x \<Longrightarrow> find P (xs @ ys) = find P ys"
  by (induction xs) auto

lemma find_op_write:
  "\<forall>i < length ops. seq + of_nat i \<le> snap \<Longrightarrow>
    mem_result (find (visible u snap) (rev (batch_writes seq ops))) val st = op_result (find (\<lambda>op. op_key op = u) (rev ops)) val st"
proof (induction ops rule: rev_induct)
  case (snoc op ops)
  have "seq + of_nat (length ops) \<le> snap" using snoc.prems by simp
  moreover have "batch_writes seq (ops @ [op]) = batch_writes seq ops @ [op_write (seq + of_nat (length ops)) op]"
    by (cases op) (simp_all add: batch_writes_append)
  ultimately show ?case
    using snoc by (auto simp: visible_def op_write_parts)
qed (simp add: mem_result_def)

lemma newest_batch:
  assumes "unat seq + length ops \<le> unat kMaxSequenceNumber" and "n < length ops"
  shows "mem_result (newest u (seq + of_nat n) (batch_writes seq ops)) val st =
    op_result (find (\<lambda>op. op_key op = u) (rev (take (Suc n) ops))) val st"
proof -
  note less = seq_less [OF assms(1)]
  have le: "seq + of_nat i \<le> seq + of_nat j \<longleftrightarrow> i \<le> j" if "i < length ops" "j < length ops" for i j
    using less(1) that by (simp add: word_le_nat_alt)
  let ?r = "batch_writes (seq + of_nat (Suc n)) (drop (Suc n) ops)"
  have "batch_writes seq (take (Suc n) ops @ drop (Suc n) ops) = batch_writes seq (take (Suc n) ops) @ ?r"
    using assms(2) unfolding batch_writes_append by (simp add: min_def)
  then have split: "batch_writes seq ops = batch_writes seq (take (Suc n) ops) @ ?r" by simp
  have "\<not> visible u (seq + of_nat n) w" if w: "w \<in> set (rev ?r)" for w
  proof -
    obtain i where i: "i < length (drop (Suc n) ops)" "w = ?r ! i" using w by (auto simp: in_set_conv_nth batch_writes_nth(1))
    then have "fst w = seq + of_nat (Suc n + i)" by (simp add: batch_writes_nth op_write_parts ac_simps)
    moreover have "\<not> seq + of_nat (Suc n + i) \<le> seq + of_nat n" using le [of "Suc n + i" n] i(1) assms(2) by simp
    ultimately show ?thesis by (simp add: visible_def)
  qed
  then have "newest u (seq + of_nat n) (batch_writes seq ops) =
      find (visible u (seq + of_nat n)) (rev (batch_writes seq (take (Suc n) ops)))"
    unfolding newest_last [OF batch_writes_sorted(1) [OF assms(1)]] by (subst split) (simp add: find_none)
  moreover have "\<forall>i < length (take (Suc n) ops). seq + of_nat i \<le> seq + of_nat n" using le assms(2) by simp
  ultimately show ?thesis using find_op_write by simp
qed

text \<open>
  C30: Reading one's writes. A batch that is built record by record, given a sequence number and
  inserted into an empty memory table succeeds; and a lookup at the number of its n-th record
  answers with the last of the first n records on that key, be it a value or a deletion, and does not see
  the records behind.
\<close>

theorem batch_memtable_get:
  assumes "list_all op_ok ops" and "list_all (\<lambda>op. length (op_key op) + 8 < 2 ^ 32) ops"
    and "unat seq + length ops \<le> unat kMaxSequenceNumber" and "n < length ops" and "length u + 8 < 2 ^ 32"
  shows "\<exists>rep m. batch_run Batch_Clear ops = Some rep \<and>
    InsertInto batch_add (SetSequence rep seq) (Some new_MemTable) = Some (OK, Some m) \<and>
    MemTable_Get Slice_compare (mk_LookupKey u (seq + of_nat n)) val st m =
      Some (op_result (find (\<lambda>op. op_key op = u) (rev (take (Suc n) ops))) val st)"
proof -
  obtain rep where rep: "batch_run Batch_Clear ops = Some rep" "represents rep 0 ops"
    using batch_run_represents [OF Clear_represents assms(1)] by auto
  have "write_ok (batch_writes seq ops ! i)" if "i < length ops" for i
    using assms(1,2) that seq_less(2) [OF assms(3) that]
    by (cases "ops ! i") (auto simp: batch_writes_nth list_all_length write_ok_def dest: spec [of _ i])
  then have ok: "list_all write_ok (batch_writes seq ops)" by (simp add: list_all_length batch_writes_nth(1))
  obtain m order ws' where m: "mem_adds Slice_compare (batch_writes seq ops) new_MemTable = Some m" "bytewise.holds m order ws'"
      "mset ws' = mset (batch_writes seq ops)" "inj_on write_id (set ws')"
    by (rule bytewise_adds [OF ok batch_writes_sorted(2) [OF assms(3)]])
  have "newest u (seq + of_nat n) ws' = newest u (seq + of_nat n) (batch_writes seq ops)"
    by (rule newest_cong [OF m(4)]) (metis m(3) set_mset_mset)
  then have "MemTable_Get Slice_compare (mk_LookupKey u (seq + of_nat n)) val st m =
      Some (op_result (find (\<lambda>op. op_key op = u) (rev (take (Suc n) ops))) val st)"
    using bytewise.Get_holds [OF m(2,4) TrueI seq_less(2) [OF assms(3,4)] assms(5)] newest_batch [OF assms(3,4)] by simp
  moreover have "InsertInto batch_add (SetSequence rep seq) (Some new_MemTable) = Some (OK, Some m)"
    using InsertInto_represents [OF SetSequence_represents [OF rep(2)], of batch_add seq] m(1) by (simp add: inserted_writes)
  ultimately show ?thesis using rep(1) by blast
qed

theorem batch_memtable_get_witness:
  "\<exists>rep m. batch_run Batch_Clear [Op_Put [97] [1], Op_Delete [97], Op_Put [97] [2]] = Some rep \<and>
    InsertInto batch_add (SetSequence rep 5) (Some new_MemTable) = Some (OK, Some m) \<and>
    MemTable_Get Slice_compare (mk_LookupKey [97] (5 + of_nat 0)) [] OK m = Some (True, [1], OK)"
  using batch_memtable_get [of "[Op_Put [97] [1], Op_Delete [97], Op_Put [97] [2]]" 5 0 "[97]" "[]" OK]
  by (simp add: kMaxSequenceNumber_def)

end
