(* ===== verification/Ldb_Block.thy ===== *)
theory Ldb_Block
  imports Ldb_Keys Ldb_Iterator
begin

text \<open>
  The blocks of a table: \<^verbatim>\<open>table/block_builder.cc\<close> writes sorted entries with the prefix they share
  with the previous key left out, and \<^verbatim>\<open>table/block.cc\<close> reads them back through an iterator that
  searches the restart points. Offsets are 32-bit words as in the code; the restart points are
  counted with naturals (a block below 4 GiB has fewer than 2 ^ 30 of them).
\<close>

section \<open>The builder\<close>

record BlockBuilder =
  bb_buffer :: bytes
  bb_restarts :: "u32 list"
  bb_counter :: nat
  bb_finished :: bool
  bb_last_key :: bytes

definition new_BlockBuilder :: BlockBuilder where
  "new_BlockBuilder = \<lparr>bb_buffer = [], bb_restarts = [0], bb_counter = 0, bb_finished = False, bb_last_key = []\<rparr>"

definition BlockBuilder_Reset :: "BlockBuilder \<Rightarrow> BlockBuilder" where
  "BlockBuilder_Reset b =
     b\<lparr>bb_buffer := [], bb_restarts := [0], bb_counter := 0, bb_finished := False, bb_last_key := []\<rparr>"

definition CurrentSizeEstimate :: "BlockBuilder \<Rightarrow> nat" where
  "CurrentSizeEstimate b = length (bb_buffer b) + length (bb_restarts b) * 4 + 4"

definition BlockBuilder_Finish :: "BlockBuilder \<Rightarrow> bytes \<times> BlockBuilder" where
  "BlockBuilder_Finish b =
     (let buffer = foldl PutFixed32 (bb_buffer b) (bb_restarts b);
          buffer = PutFixed32 buffer (of_nat (length (bb_restarts b))) in
      (buffer, b\<lparr>bb_buffer := buffer, bb_finished := True\<rparr>))"

text \<open>
  \<open>interval\<close> is the option \<^verbatim>\<open>block_restart_interval\<close>. The sharing loop compares as the one of the
  byte-wise comparator does.
\<close>

definition BlockBuilder_Add :: "nat \<Rightarrow> bytes \<Rightarrow> bytes \<Rightarrow> BlockBuilder \<Rightarrow> BlockBuilder" where
  "BlockBuilder_Add interval key val b =
     (let (shared, restarts, counter) =
            (if bb_counter b < interval then (diff_index (bb_last_key b) key, bb_restarts b, bb_counter b)
             else (0, bb_restarts b @ [of_nat (length (bb_buffer b))], 0));
          non_shared = length key - shared;
          buffer = PutVarint32 (bb_buffer b) (of_nat shared);
          buffer = PutVarint32 buffer (of_nat non_shared);
          buffer = PutVarint32 buffer (of_nat (length val));
          buffer = buffer @ drop shared key;
          buffer = buffer @ val in
      b\<lparr>bb_buffer := buffer, bb_restarts := restarts,
        bb_last_key := take shared (bb_last_key b) @ drop shared key, bb_counter := counter + 1\<rparr>)"

section \<open>The block\<close>

text \<open>A size of 0 marks an error; \<^verbatim>\<open>restart_offset_\<close> is then not set.\<close>

record TableBlock =
  tb_data :: bytes
  tb_size :: nat
  tb_restart_offset :: u32

definition NumRestarts :: "bytes \<Rightarrow> nat \<Rightarrow> u32 option" where
  "NumRestarts data sz = DecodeFixed32 True (drop (sz - 4) data)"

definition mk_TableBlock :: "u32 \<Rightarrow> bytes \<Rightarrow> TableBlock option" where
  "mk_TableBlock junk contents =
     (let sz = length contents in
      if sz < 4 then Some \<lparr>tb_data = contents, tb_size = 0, tb_restart_offset = junk\<rparr>
      else do {
        let max_restarts_allowed = (sz - 4) div 4;
        num \<leftarrow> NumRestarts contents sz;
        if unat num > max_restarts_allowed
        then Some \<lparr>tb_data = contents, tb_size = 0, tb_restart_offset = junk\<rparr>
        else Some \<lparr>tb_data = contents, tb_size = sz, tb_restart_offset = of_nat (sz - unat (1 + num) * 4)\<rparr>
      })"

text \<open>
  The bytes from \<^verbatim>\<open>p\<close> to \<^verbatim>\<open>limit\<close>; the result has the three numbers and the bytes behind them. The sum of
  the two lengths is taken modulo 2 ^ 32, as in the code.
\<close>

definition DecodeEntry :: "bytes \<Rightarrow> (u32 \<times> u32 \<times> u32 \<times> bytes) option" where
  "DecodeEntry p =
     (if length p < 3 then None
      else let shared = (ucast (p ! 0) :: u32); non_shared = (ucast (p ! 1) :: u32); value_length = (ucast (p ! 2) :: u32) in do {
        (shared, non_shared, value_length, p) \<leftarrow>
          (if shared OR non_shared OR value_length < 128 then Some (shared, non_shared, value_length, drop 3 p)
           else do {
             (shared, p) \<leftarrow> GetVarint32Ptr p;
             (non_shared, p) \<leftarrow> GetVarint32Ptr p;
             (value_length, p) \<leftarrow> GetVarint32Ptr p;
             Some (shared, non_shared, value_length, p)
           });
        if (of_nat (length p) :: u32) < non_shared + value_length then None
        else Some (shared, non_shared, value_length, p)
      })"

text \<open>
  The iterator. \<^verbatim>\<open>value_\<close> is a slice of the data, given by its offset and length, or points
  elsewhere (\<open>None\<close>). An operation returns \<open>None\<close> when it reads outside the data, or a loop of
  it does not end.
\<close>

record BlockIter =
  bi_data :: bytes
  bi_restarts :: u32
  bi_num_restarts :: nat
  bi_current :: u32
  bi_restart_index :: nat
  bi_key :: bytes
  bi_value :: "(nat \<times> nat) option"
  bi_status :: Status

definition mk_BlockIter :: "bytes \<Rightarrow> u32 \<Rightarrow> nat \<Rightarrow> BlockIter" where
  "mk_BlockIter data restarts num_restarts =
     \<lparr>bi_data = data, bi_restarts = restarts, bi_num_restarts = num_restarts, bi_current = restarts,
      bi_restart_index = num_restarts, bi_key = [], bi_value = None, bi_status = OK\<rparr>"

definition NextEntryOffset :: "BlockIter \<Rightarrow> u32 option" where
  "NextEntryOffset it = do { (off, len) \<leftarrow> bi_value it; Some (of_nat (off + len)) }"

definition GetRestartPoint :: "BlockIter \<Rightarrow> nat \<Rightarrow> u32 option" where
  "GetRestartPoint it index = DecodeFixed32 True (drop (unat (bi_restarts it) + index * 4) (bi_data it))"

definition SeekToRestartPoint :: "nat \<Rightarrow> BlockIter \<Rightarrow> BlockIter option" where
  "SeekToRestartPoint index it = do {
     offset \<leftarrow> GetRestartPoint it index;
     Some (it\<lparr>bi_key := [], bi_restart_index := index, bi_value := Some (unat offset, 0)\<rparr>)
   }"

definition Iter_Valid :: "BlockIter \<Rightarrow> bool" where
  "Iter_Valid it \<longleftrightarrow> bi_current it < bi_restarts it"

definition Iter_key :: "BlockIter \<Rightarrow> bytes" where
  "Iter_key it = bi_key it"

definition Iter_value :: "BlockIter \<Rightarrow> bytes option" where
  "Iter_value it = do { (off, len) \<leftarrow> bi_value it; rds (bi_data it) off len }"

definition CorruptionError :: "BlockIter \<Rightarrow> BlockIter" where
  "CorruptionError it = it\<lparr>bi_current := bi_restarts it, bi_restart_index := bi_num_restarts it,
     bi_status := Corruption ''bad entry in block'', bi_key := [], bi_value := None\<rparr>"

text \<open>The loop that moves the restart index up to the current entry.\<close>

function advance_index :: "BlockIter \<Rightarrow> nat \<Rightarrow> nat option" where
  "advance_index it index =
     (if index + 1 < bi_num_restarts it then do {
        p \<leftarrow> GetRestartPoint it (index + 1);
        if p < bi_current it then advance_index it (index + 1) else Some index
      }
      else Some index)"
  by pat_completeness auto

termination by (relation "measure (\<lambda>(it, index). bi_num_restarts it - index)") auto

definition ParseNextKey :: "BlockIter \<Rightarrow> (bool \<times> BlockIter) option" where
  "ParseNextKey it = do {
     current \<leftarrow> NextEntryOffset it;
     let it = it\<lparr>bi_current := current\<rparr>;
     if current \<ge> bi_restarts it
     then Some (False, it\<lparr>bi_current := bi_restarts it, bi_restart_index := bi_num_restarts it\<rparr>)
     else case DecodeEntry (take (unat (bi_restarts it) - unat current) (drop (unat current) (bi_data it))) of
       None \<Rightarrow> Some (False, CorruptionError it)
     | Some (shared, non_shared, value_length, p) \<Rightarrow>
         if length (bi_key it) < unat shared then Some (False, CorruptionError it)
         else do {
           let p = unat (bi_restarts it) - length p;
           delta \<leftarrow> rds (bi_data it) p (unat non_shared);
           let it = it\<lparr>bi_key := take (unat shared) (bi_key it) @ delta,
                       bi_value := Some (p + unat non_shared, unat value_length)\<rparr>;
           index \<leftarrow> advance_index it (bi_restart_index it);
           Some (True, it\<lparr>bi_restart_index := index\<rparr>)
         }
   }"

definition Iter_Next :: "BlockIter \<Rightarrow> BlockIter option" where
  "Iter_Next it = map_option snd (ParseNextKey it)"

text \<open>The first loop of \<^verbatim>\<open>Prev\<close>: \<open>None\<close> inside when there is no entry before the current one.\<close>

fun restart_before :: "BlockIter \<Rightarrow> u32 \<Rightarrow> nat \<Rightarrow> nat option option" where
  "restart_before it original index = do {
     p \<leftarrow> GetRestartPoint it index;
     if p \<ge> original then (case index of 0 \<Rightarrow> Some None | Suc index \<Rightarrow> restart_before it original index)
     else Some (Some index)
   }"

text \<open>
  The loop that parses until the end of an entry reaches \<open>limit\<close>, of \<^verbatim>\<open>Prev\<close> and of \<^verbatim>\<open>SeekToLast\<close>.
\<close>

partial_function (option) parse_until :: "u32 \<Rightarrow> BlockIter \<Rightarrow> BlockIter option" where
  "parse_until limit it = do {
     (ok, it) \<leftarrow> ParseNextKey it;
     if ok then do {
       next \<leftarrow> NextEntryOffset it;
       if next < limit then parse_until limit it else Some it
     }
     else Some it
   }"

definition Iter_Prev :: "BlockIter \<Rightarrow> BlockIter option" where
  "Iter_Prev it = do {
     let original = bi_current it;
     r \<leftarrow> restart_before it original (bi_restart_index it);
     case r of
       None \<Rightarrow> Some (it\<lparr>bi_current := bi_restarts it, bi_restart_index := bi_num_restarts it\<rparr>)
     | Some index \<Rightarrow> do { it \<leftarrow> SeekToRestartPoint index it; parse_until original it }
   }"

text \<open>The binary search: \<open>Inl\<close> when an entry at a restart point is bad.\<close>

function search_restarts ::
    "(bytes \<Rightarrow> bytes \<Rightarrow> int) \<Rightarrow> bytes \<Rightarrow> BlockIter \<Rightarrow> nat \<Rightarrow> nat \<Rightarrow> (unit + nat) option" where
  "search_restarts compare target it left right =
     (if left < right then do {
        let mid = (left + right + 1) div 2;
        region_offset \<leftarrow> GetRestartPoint it mid;
        case DecodeEntry (take (unat (bi_restarts it) - unat region_offset) (drop (unat region_offset) (bi_data it))) of
          None \<Rightarrow> Some (Inl ())
        | Some (shared, non_shared, value_length, p) \<Rightarrow>
            if shared \<noteq> 0 then Some (Inl ())
            else do {
              mid_key \<leftarrow> rds (bi_data it) (unat (bi_restarts it) - length p) (unat non_shared);
              if compare mid_key target < 0 then search_restarts compare target it mid right
              else search_restarts compare target it left (mid - 1)
            }
      }
      else Some (Inr left))"
  by pat_completeness auto

termination by (relation "measure (\<lambda>(_, _, _, left, right). right - left)") auto

partial_function (option) seek_linear ::
    "(bytes \<Rightarrow> bytes \<Rightarrow> int) \<Rightarrow> bytes \<Rightarrow> BlockIter \<Rightarrow> BlockIter option" where
  "seek_linear compare target it = do {
     (ok, it) \<leftarrow> ParseNextKey it;
     if \<not> ok then Some it
     else if compare (bi_key it) target \<ge> 0 then Some it
     else seek_linear compare target it
   }"

definition Iter_Seek :: "(bytes \<Rightarrow> bytes \<Rightarrow> int) \<Rightarrow> bytes \<Rightarrow> BlockIter \<Rightarrow> BlockIter option" where
  "Iter_Seek compare target it = do {
     r \<leftarrow> search_restarts compare target it 0 (bi_num_restarts it - 1);
     case r of
       Inl _ \<Rightarrow> Some (CorruptionError it)
     | Inr left \<Rightarrow> do { it \<leftarrow> SeekToRestartPoint left it; seek_linear compare target it }
   }"

definition Iter_SeekToFirst :: "BlockIter \<Rightarrow> BlockIter option" where
  "Iter_SeekToFirst it = do { it \<leftarrow> SeekToRestartPoint 0 it; map_option snd (ParseNextKey it) }"

definition Iter_SeekToLast :: "BlockIter \<Rightarrow> BlockIter option" where
  "Iter_SeekToLast it = do {
     it \<leftarrow> SeekToRestartPoint (bi_num_restarts it - 1) it;
     parse_until (bi_restarts it) it
   }"

text \<open>\<^verbatim>\<open>NewIterator\<close>: the error iterator, the empty one, or an iterator over the block.\<close>

datatype table_iter = ErrorIterator Status | EmptyIterator | Iter BlockIter

definition NewIterator :: "TableBlock \<Rightarrow> table_iter option" where
  "NewIterator b =
     (if tb_size b < 4 then Some (ErrorIterator (Corruption ''bad block contents''))
      else do {
        num_restarts \<leftarrow> NumRestarts (tb_data b) (tb_size b);
        if num_restarts = 0 then Some EmptyIterator
        else Some (Iter (mk_BlockIter (tb_data b) (tb_restart_offset b) (unat num_restarts)))
      })"

declare advance_index.simps [simp del] restart_before.simps [simp del] search_restarts.simps [simp del]

section \<open>What the builder writes\<close>

text \<open>
  The layout for the entries \<open>es\<close>: entry \<open>i\<close> shares a prefix with the one before it unless its number
  is a multiple of the interval; \<open>off\<close> is where an entry starts.
\<close>

definition shared_at :: "nat \<Rightarrow> entry list \<Rightarrow> nat \<Rightarrow> nat" where
  "shared_at K es i = (if i mod K = 0 then 0 else diff_index (fst (es ! (i - 1))) (fst (es ! i)))"

definition enc_at :: "nat \<Rightarrow> entry list \<Rightarrow> nat \<Rightarrow> bytes" where
  "enc_at K es i =
     (let (k, v) = es ! i; s = shared_at K es i in
      EncodeVarint32 (of_nat s) @ EncodeVarint32 (of_nat (length k - s)) @ EncodeVarint32 (of_nat (length v)) @
      drop s k @ v)"

definition ents :: "nat \<Rightarrow> entry list \<Rightarrow> nat \<Rightarrow> bytes" where
  "ents K es n = concat (map (enc_at K es) [0..<n])"

definition off :: "nat \<Rightarrow> entry list \<Rightarrow> nat \<Rightarrow> nat" where
  "off K es n = length (ents K es n)"

definition num_at :: "nat \<Rightarrow> nat \<Rightarrow> nat" where
  "num_at K n = (if n = 0 then 1 else (n - 1) div K + 1)"

definition restart_words :: "nat \<Rightarrow> entry list \<Rightarrow> u32 list" where
  "restart_words K es = map (\<lambda>j. of_nat (off K es (j * K))) [0..<num_at K (length es)]"

definition built :: "nat \<Rightarrow> entry list \<Rightarrow> bytes" where
  "built K es = ents K es (length es) @ concat (map (word_le 4) (restart_words K es)) @
     word_le 4 (of_nat (num_at K (length es)) :: u32)"

definition add_all :: "nat \<Rightarrow> entry list \<Rightarrow> BlockBuilder" where
  "add_all K es = fold (\<lambda>(k, v). BlockBuilder_Add K k v) es new_BlockBuilder"

lemma at_snoc [simp]:
  "i < length es \<Longrightarrow> shared_at K (es @ [e]) i = shared_at K es i"
  "i < length es \<Longrightarrow> enc_at K (es @ [e]) i = enc_at K es i"
  by (auto simp: shared_at_def enc_at_def nth_append)

lemma ents_snoc [simp]: "n \<le> length es \<Longrightarrow> ents K (es @ [e]) n = ents K es n"
  by (auto simp: ents_def intro!: arg_cong [where f = concat])

lemma off_snoc [simp]: "n \<le> length es \<Longrightarrow> off K (es @ [e]) n = off K es n"
  by (simp add: off_def)

lemma ents_Suc: "ents K es (Suc n) = ents K es n @ enc_at K es n"
  by (simp add: ents_def)

lemma num_at_Suc: "0 < K \<Longrightarrow> num_at K (Suc n) = (if n \<noteq> 0 \<and> n mod K = 0 then Suc (num_at K n) else num_at K n)"
  by (cases n) (auto simp: num_at_def div_Suc)

lemma take_diff_index: "take (diff_index a b) a = take (diff_index a b) b" "diff_index a b \<le> length a" "diff_index a b \<le> length b"
  by (induction a b rule: diff_index.induct) auto

lemma restart_index_le: "0 < K \<Longrightarrow> j < num_at K n \<Longrightarrow> j * K \<le> n - 1"
proof -
  assume "0 < K" "j < num_at K n"
  then have "j \<le> (n - 1) div K" by (auto simp: num_at_def split: if_splits)
  then show ?thesis by (metis mult_le_mono1 div_times_less_eq_dividend order_trans)
qed

lemma add_all:
  assumes "0 < K"
  shows "add_all K es = \<lparr>bb_buffer = ents K es (length es), bb_restarts = restart_words K es,
    bb_counter = (if es = [] then 0 else (length es - 1) mod K + 1), bb_finished = False,
    bb_last_key = (if es = [] then [] else fst (last es))\<rparr>"
proof (induction es rule: rev_induct)
  case Nil
  then show ?case by (simp add: add_all_def new_BlockBuilder_def ents_def restart_words_def num_at_def off_def)
next
  case (snoc e es)
  obtain k v where e: "e = (k, v)" by (cases e)
  let ?n = "length es"
  have add: "add_all K (es @ [e]) = BlockBuilder_Add K k v (add_all K es)" by (simp add: add_all_def e)
  have words: "restart_words K (es @ [e]) =
      (if ?n \<noteq> 0 \<and> ?n mod K = 0 then restart_words K es @ [of_nat (off K es ?n)] else restart_words K es)"
  proof -
    have m: "map (\<lambda>j. of_nat (off K (es @ [e]) (j * K)) :: u32) [0..<num_at K ?n] =
        map (\<lambda>j. of_nat (off K es (j * K))) [0..<num_at K ?n]"
      using restart_index_le [OF assms, of _ ?n] by (auto intro!: arg_cong [where f = of_nat] off_snoc) force
    have "num_at K ?n * K = ?n" if "?n \<noteq> 0" "?n mod K = 0"
    proof -
      obtain n' where "?n = Suc n'" using \<open>?n \<noteq> 0\<close> by (cases ?n) auto
      with that have "num_at K ?n = ?n div K" using div_Suc [of n' K] by (simp add: num_at_def)
      with that(2) show ?thesis by (simp add: mod_0_imp_dvd)
    qed
    with m show ?thesis by (auto simp: restart_words_def num_at_Suc assms)
  qed
  have ents: "ents K (es @ [e]) (Suc ?n) = ents K es ?n @ enc_at K (es @ [e]) ?n" by (simp add: ents_Suc)
  show ?case
  proof (cases "es = []")
    case True
    then show ?thesis using assms snoc.IH add words ents
      by (simp add: BlockBuilder_Add_def PutVarint32_def enc_at_def shared_at_def e)
  next
    case False
    then obtain n' where n': "?n = Suc n'" by (cases ?n) auto
    have prev: "(es @ [e]) ! (?n - 1) = last es" "(es @ [e]) ! ?n = e"
      using False by (simp_all add: nth_append last_conv_nth)
    show ?thesis
    proof (cases "?n mod K = 0")
      case True
      then have "(?n - 1) mod K + 1 = K" using n' mod_Suc [of n' K] by (auto split: if_splits)
      with True False snoc.IH add words ents prev show ?thesis
        by (simp add: BlockBuilder_Add_def PutVarint32_def enc_at_def shared_at_def e off_def)
    next
      case m: False
      then have "(?n - 1) mod K + 1 = ?n mod K" using n' mod_Suc [of n' K] by (auto split: if_splits)
      moreover have "?n mod K < K" using assms by simp
      ultimately show ?thesis using m False snoc.IH add words ents prev
        by (simp add: BlockBuilder_Add_def PutVarint32_def enc_at_def shared_at_def e take_diff_index Let_def)
    qed
  qed
qed

lemma Finish_built: "0 < K \<Longrightarrow> fst (BlockBuilder_Finish (add_all K es)) = built K es"
  by (simp add: add_all BlockBuilder_Finish_def Let_def PutFixed32_def foldl_PutFixed32 built_def restart_words_def)

section \<open>Decoding an entry\<close>

lemma or_less_128:
  assumes "(a :: u32) OR b OR c < 128"
  shows "a AND 128 = 0 \<and> b AND 128 = 0 \<and> c AND 128 = 0"
proof -
  have "take_bit 7 w = w" if "w < 128" for w :: u32
    using that by (simp add: word_unat_eq_iff unat_bits word_less_nat_alt)
  from this [OF assms] have "take_bit 7 (a OR b OR c) = a OR b OR c" .
  then have "\<not> bit (a OR b OR c) 7" by (metis bit_take_bit_iff less_irrefl)
  then show ?thesis
    using and_exp_eq_0_iff_not_bit [of a 7] and_exp_eq_0_iff_not_bit [of b 7] and_exp_eq_0_iff_not_bit [of c 7]
    by (simp add: bit_or_iff)
qed

lemma DecodeEntry_varints:
  "DecodeEntry p =
     (if length p < 3 then None
      else do {
        (shared, p) \<leftarrow> GetVarint32 p;
        (non_shared, p) \<leftarrow> GetVarint32 p;
        (value_length, p) \<leftarrow> GetVarint32 p;
        if (of_nat (length p) :: u32) < non_shared + value_length then None
        else Some (shared, non_shared, value_length, p)
      })"
proof (cases "length p < 3")
  case False
  then obtain a b c r where p: "p = a # b # c # r"
    by (auto simp: numeral_3_eq_3 not_less Suc_le_length_iff)
  show ?thesis
  proof (cases "(ucast a :: u32) OR ucast b OR ucast c < 128")
    case True
    from or_less_128 [OF True] have "GetVarint32 (a # b # c # r) = Some (ucast a, b # c # r)"
      "GetVarint32 (b # c # r) = Some (ucast b, c # r)" "GetVarint32 (c # r) = Some (ucast c, r)"
      by (simp_all add: GetVarint32_Ptr GetVarint32Ptr_def Let_def)
    with True p show ?thesis by (simp add: DecodeEntry_def Let_def)
  next
    case False
    with p show ?thesis by (simp add: DecodeEntry_def Let_def GetVarint32_Ptr split: Option.bind_splits)
  qed
qed (simp add: DecodeEntry_def)

definition wf_block :: "nat \<Rightarrow> entry list \<Rightarrow> bool" where
  "wf_block K es \<longleftrightarrow> 0 < K \<and> list_all (\<lambda>(k, v). length k < 2 ^ 32) es \<and> length (built K es) < 2 ^ 32"

lemma shared_le: "shared_at K es i \<le> length (fst (es ! i))"
  by (auto simp: shared_at_def take_diff_index)

lemma EncodeVarint32_nonempty: "0 < length (EncodeVarint32 v)"
  by (simp add: EncodeVarint32_def)

lemma enc_at_ge_3: "3 \<le> length (enc_at K es i)"
proof -
  obtain k v where "es ! i = (k, v)" by (cases "es ! i")
  then have "length (enc_at K es i) = length (EncodeVarint32 (of_nat (shared_at K es i))) +
      length (EncodeVarint32 (of_nat (length k - shared_at K es i))) + length (EncodeVarint32 (of_nat (length v))) +
      (length k - shared_at K es i) + length v"
    by (simp add: enc_at_def Let_def)
  then show ?thesis
    using EncodeVarint32_nonempty [of "of_nat (shared_at K es i)"] EncodeVarint32_nonempty [of "of_nat (length v)"]
      EncodeVarint32_nonempty [of "of_nat (length k - shared_at K es i)"] by linarith
qed

lemma DecodeEntry_enc:
  assumes "es ! i = (k, v)" and "length k < 2 ^ 32" and "length (enc_at K es i @ rest) < 2 ^ 32"
  shows "DecodeEntry (enc_at K es i @ rest) =
    Some (of_nat (shared_at K es i), of_nat (length k - shared_at K es i), of_nat (length v),
      drop (shared_at K es i) k @ v @ rest)"
proof -
  let ?s = "shared_at K es i"
  have len: "length k - ?s + length v + length rest < 2 ^ 32"
    using assms(1,3) by (auto simp: enc_at_def Let_def)
  then have u: "unat (of_nat (length k - ?s) + of_nat (length v) :: u32) = length k - ?s + length v"
    by (simp add: unat_of_nat flip: of_nat_add)
  moreover have "unat (of_nat (length (drop ?s k @ v @ rest)) :: u32) = length k - ?s + length v + length rest"
    using len by (simp add: unat_of_nat flip: of_nat_add)
  ultimately have "\<not> (of_nat (length (drop ?s k @ v @ rest)) :: u32) < of_nat (length k - ?s) + of_nat (length v)"
    unfolding word_less_nat_alt by linarith
  moreover have "\<not> length (enc_at K es i @ rest) < 3" using enc_at_ge_3 [of K es i] by simp
  ultimately show ?thesis
    unfolding DecodeEntry_varints using assms(1) by (simp add: enc_at_def GetVarint32_put Let_def)
qed

section \<open>The positions of an iterator\<close>

lemma off_Suc: "off K es (Suc i) = off K es i + length (enc_at K es i)"
  by (simp add: off_def ents_Suc)

lemma off_mono: "i \<le> j \<Longrightarrow> off K es i \<le> off K es j"
  by (rule lift_Suc_mono_le [of "off K es"]) (auto simp: off_Suc)

lemma off_less_iff: "off K es i < off K es j \<longleftrightarrow> i < j"
proof -
  have *: "off K es i < off K es (Suc i)" for i using enc_at_ge_3 [of K es i] unfolding off_Suc by linarith
  have "i < j \<Longrightarrow> off K es i < off K es j" using lift_Suc_mono_less [of "off K es", OF *] .
  then show ?thesis using off_mono [of j i K es] by fastforce
qed

lemma off_le_iff: "off K es i \<le> off K es j \<longleftrightarrow> i \<le> j"
  using off_less_iff [of K es j i] by linarith

lemma length_restart_words [simp]: "length (restart_words K es) = num_at K (length es)"
  by (simp add: restart_words_def)

lemma length_built: "length (built K es) = off K es (length es) + 4 * num_at K (length es) + 4"
  by (simp add: built_def off_def length_concat sum_list_triv o_def)

lemma num_at_pos: "0 < num_at K n"
  by (simp add: num_at_def)

lemma wf_bounds:
  assumes "wf_block K es"
  shows "0 < K" and "num_at K (length es) < 2 ^ 32" and "i \<le> length es \<Longrightarrow> off K es i < 2 ^ 32"
    and "i \<le> length es \<Longrightarrow> unat (of_nat (off K es i) :: u32) = off K es i"
    and "unat (of_nat (num_at K (length es)) :: u32) = num_at K (length es)"
    and "i < length es \<Longrightarrow> es ! i = (k, v) \<Longrightarrow> length k < 2 ^ 32"
proof -
  show "0 < K" "num_at K (length es) < 2 ^ 32" using assms by (auto simp: wf_block_def length_built)
  then show "unat (of_nat (num_at K (length es)) :: u32) = num_at K (length es)" by (simp add: unat_of_nat)
  show o: "off K es i < 2 ^ 32" if "i \<le> length es"
    using assms off_mono [OF that, of K es] by (auto simp: wf_block_def length_built)
  show "unat (of_nat (off K es i) :: u32) = off K es i" if "i \<le> length es" using o [OF that] by (simp add: unat_of_nat)
  show "length k < 2 ^ 32" if "i < length es" "es ! i = (k, v)"
    using assms that by (auto simp: wf_block_def list_all_length)
qed

definition base :: "nat \<Rightarrow> entry list \<Rightarrow> BlockIter \<Rightarrow> bool" where
  "base K es it \<longleftrightarrow> wf_block K es \<and> bi_data it = built K es \<and> bi_restarts it = of_nat (off K es (length es)) \<and>
     bi_num_restarts it = num_at K (length es) \<and> bi_status it = OK"

definition at_entry :: "nat \<Rightarrow> entry list \<Rightarrow> BlockIter \<Rightarrow> nat \<Rightarrow> bool" where
  "at_entry K es it i \<longleftrightarrow> base K es it \<and> i < length es \<and> bi_current it = of_nat (off K es i) \<and>
     bi_key it = fst (es ! i) \<and>
     bi_value it = Some (off K es (Suc i) - length (snd (es ! i)), length (snd (es ! i))) \<and>
     bi_restart_index it < num_at K (length es) \<and> bi_restart_index it * K \<le> i \<and> i \<le> Suc (bi_restart_index it) * K"

text \<open>A state from which the next parse reads entry \<open>i\<close>.\<close>

definition ready :: "nat \<Rightarrow> entry list \<Rightarrow> BlockIter \<Rightarrow> nat \<Rightarrow> bool" where
  "ready K es it i \<longleftrightarrow> base K es it \<and> i \<le> length es \<and>
     (\<exists>p l. bi_value it = Some (p, l) \<and> p + l = off K es i) \<and>
     (i < length es \<longrightarrow> shared_at K es i \<le> length (bi_key it) \<and>
        take (shared_at K es i) (bi_key it) = take (shared_at K es i) (fst (es ! i))) \<and>
     bi_restart_index it < num_at K (length es) \<and> bi_restart_index it * K \<le> i"

definition at_end :: "nat \<Rightarrow> entry list \<Rightarrow> BlockIter \<Rightarrow> bool" where
  "at_end K es it \<longleftrightarrow> base K es it \<and> bi_current it = bi_restarts it"

lemma GetRestartPoint_eq:
  assumes "base K es it" and "j < num_at K (length es)"
  shows "GetRestartPoint it j = Some (of_nat (off K es (j * K)))"
proof -
  have "unat (bi_restarts it) = off K es (length es)" using assms(1) wf_bounds(4) by (auto simp: base_def)
  moreover have "drop (off K es (length es) + j * 4) (built K es) =
      drop (j * 4) (concat (map (word_le 4) (restart_words K es)) @ word_le 4 (of_nat (num_at K (length es)) :: u32))"
    by (simp add: built_def off_def)
  moreover have "\<dots> = word_le 4 (restart_words K es ! j) @ concat (map (word_le 4) (drop (Suc j) (restart_words K es))) @
      word_le 4 (of_nat (num_at K (length es)) :: u32)"
    using assms(2) by (intro drop_fixed_array) simp
  moreover have "restart_words K es ! j = of_nat (off K es (j * K))" using assms(2) by (simp add: restart_words_def)
  ultimately show ?thesis using assms(1) by (simp add: GetRestartPoint_def base_def DecodeFixed_hit)
qed

lemma restart_in_range: "wf_block K es \<Longrightarrow> j < num_at K (length es) \<Longrightarrow> j * K \<le> length es"
  using restart_index_le [of K j "length es"] wf_bounds(1) by fastforce

lemma SeekToRestartPoint_ready:
  assumes "base K es it" and "j < num_at K (length es)"
  shows "\<exists>it'. SeekToRestartPoint j it = Some it' \<and> ready K es it' (j * K)"
proof -
  have w: "wf_block K es" using assms(1) by (simp add: base_def)
  have "ready K es (it\<lparr>bi_key := [], bi_restart_index := j, bi_value := Some (off K es (j * K), 0)\<rparr>) (j * K)"
    using assms restart_in_range [OF w assms(2)] by (auto simp: ready_def base_def shared_at_def)
  then show ?thesis
    using assms wf_bounds(4) [OF w restart_in_range [OF w assms(2)]]
    by (simp add: SeekToRestartPoint_def GetRestartPoint_eq)
qed

lemma advance_index_at:
  assumes "base K es it" and "bi_current it = of_nat (off K es i)" and "i < length es"
    and "index < num_at K (length es)" and "index * K \<le> i"
  shows "\<exists>index'. advance_index it index = Some index' \<and> index' < num_at K (length es) \<and> index' * K \<le> i \<and> i \<le> Suc index' * K"
  using assms(4,5)
proof (induction "num_at K (length es) - index" arbitrary: index rule: less_induct)
  case less
  have w: "wf_block K es" and n: "bi_num_restarts it = num_at K (length es)" using assms(1) by (auto simp: base_def)
  note K = wf_bounds(1) [OF w]
  show ?case
  proof (cases "Suc index < num_at K (length es)")
    case True
    then have r: "GetRestartPoint it (Suc index) = Some (of_nat (off K es (Suc index * K)))"
      using GetRestartPoint_eq [OF assms(1)] by blast
    have "(of_nat (off K es (Suc index * K)) :: u32) < of_nat (off K es i) \<longleftrightarrow> Suc index * K < i"
      using wf_bounds(4) [OF w, of i] wf_bounds(4) [OF w restart_in_range [OF w True]] assms(3)
      by (simp only: word_less_nat_alt off_less_iff less_imp_le)
    then show ?thesis
      using less(1) [of "Suc index"] less(2,3) True r n assms(2) by (subst advance_index.simps) auto
  next
    case False
    then have "Suc index = num_at K (length es)" using less(2) by simp
    moreover have "i \<le> num_at K (length es) * K"
    proof -
      have "i div K \<le> (length es - 1) div K" using assms(3) by (intro div_le_mono) simp
      then have "i div K < num_at K (length es)" using assms(3) by (auto simp: num_at_def)
      then show ?thesis using K by (simp add: div_less_iff_less_mult)
    qed
    ultimately have "i \<le> Suc index * K" by (simp only:)
    then show ?thesis using False less(2,3) n by (subst advance_index.simps) auto
  qed
qed

definition trailer :: "nat \<Rightarrow> entry list \<Rightarrow> bytes" where
  "trailer K es = concat (map (word_le 4) (restart_words K es)) @ word_le 4 (of_nat (num_at K (length es)) :: u32)"

lemma built_split:
  fixes K :: nat
  assumes "i < length es"
  defines "rest \<equiv> concat (map (enc_at K es) [Suc i..<length es])"
  shows "built K es = ents K es i @ enc_at K es i @ rest @ trailer K es"
    and "off K es (length es) = off K es i + length (enc_at K es i @ rest)"
proof -
  have "[0..<length es] = [0..<i] @ i # [Suc i..<length es]"
    using assms(1) upt_add_eq_append [of 0 i "length es - i"] by (simp add: upt_conv_Cons)
  then have "ents K es (length es) = ents K es i @ enc_at K es i @ rest" by (simp add: ents_def rest_def)
  then show "built K es = ents K es i @ enc_at K es i @ rest @ trailer K es"
    "off K es (length es) = off K es i + length (enc_at K es i @ rest)"
    by (simp_all add: built_def trailer_def off_def)
qed

lemma enc_split:
  assumes "es ! i = (k, v)"
  obtains hdr where "enc_at K es i = hdr @ drop (shared_at K es i) k @ v"
  using assms by (simp add: enc_at_def Let_def)

text \<open>Decoding in place, as the parser and the binary search do it.\<close>

lemma decode_at:
  fixes K :: nat
  assumes "wf_block K es" and "i < length es" and "es ! i = (k, v)"
  defines "s \<equiv> shared_at K es i"
  obtains p where
    "DecodeEntry (take (off K es (length es) - off K es i) (drop (off K es i) (built K es))) =
      Some (of_nat s, of_nat (length k - s), of_nat (length v), p)"
    "rds (built K es) (off K es (length es) - length p) (length k - s) = Some (drop s k)"
    "off K es (length es) - length p + (length k - s) + length v = off K es (Suc i)"
    "rds (built K es) (off K es (length es) - length p + (length k - s)) (length v) = Some v"
    "unat (of_nat s :: u32) = s" "unat (of_nat (length k - s) :: u32) = length k - s" "unat (of_nat (length v) :: u32) = length v"
proof -
  let ?rest = "concat (map (enc_at K es) [Suc i..<length es])"
  note wb = wf_bounds [OF assms(1)] and bs = built_split [OF assms(2), of K]
  obtain hdr where h: "enc_at K es i = hdr @ drop s k @ v" using enc_split [OF assms(3)] s_def by metis
  have reg: "take (off K es (length es) - off K es i) (drop (off K es i) (built K es)) = enc_at K es i @ ?rest"
    unfolding bs by (simp add: off_def)
  have o: "length (enc_at K es i @ ?rest) < 2 ^ 32" using wb(3) [of "length es"] bs(2) by simp
  have k: "length k < 2 ^ 32" using wb(6) [OF assms(2,3)] .
  have sk: "s \<le> length k" using shared_le [of K es i] assms(3) s_def by simp
  let ?p = "drop s k @ v @ ?rest"
  have off: "off K es (length es) - length ?p = length (ents K es i @ hdr)"
    using bs(2) h by (simp add: off_def)
  show thesis
  proof (rule that [of ?p])
    show "DecodeEntry (take (off K es (length es) - off K es i) (drop (off K es i) (built K es))) =
        Some (of_nat s, of_nat (length k - s), of_nat (length v), ?p)"
      unfolding reg s_def by (rule DecodeEntry_enc [OF assms(3) k o])
    have b: "built K es = (ents K es i @ hdr) @ drop s k @ (v @ ?rest @ trailer K es)"
      "built K es = (ents K es i @ hdr @ drop s k) @ v @ (?rest @ trailer K es)"
      using bs(1) h by simp_all
    show "rds (built K es) (off K es (length es) - length ?p) (length k - s) = Some (drop s k)"
      unfolding off b(1) by (intro rds_append_hit) simp
    have "length (ents K es i @ hdr) + (length k - s) = length (ents K es i @ hdr @ drop s k)" by simp
    then show "rds (built K es) (off K es (length es) - length ?p + (length k - s)) (length v) = Some v"
      unfolding off b(2) by (simp only:) (rule rds_append_hit, simp)
    show "off K es (length es) - length ?p + (length k - s) + length v = off K es (Suc i)"
      unfolding off off_Suc h by (simp add: off_def)
    show "unat (of_nat s :: u32) = s" "unat (of_nat (length k - s) :: u32) = length k - s" using k sk by (simp_all add: unat_of_nat del: of_nat_diff)
    show "unat (of_nat (length v) :: u32) = length v" using o h by (simp add: unat_of_nat)
  qed
qed

lemma ParseNextKey_entry:
  assumes "ready K es it i" and "i < length es"
  shows "\<exists>it'. ParseNextKey it = Some (True, it') \<and> at_entry K es it' i"
proof -
  obtain k v where e: "es ! i = (k, v)" by (cases "es ! i")
  obtain p l where b: "base K es it" and v: "bi_value it = Some (p, l)" "p + l = off K es i"
      and sh: "shared_at K es i \<le> length (bi_key it)" "take (shared_at K es i) (bi_key it) = take (shared_at K es i) k"
      and r: "bi_restart_index it < num_at K (length es)" "bi_restart_index it * K \<le> i"
    using assms e by (auto simp: ready_def)
  have w: "wf_block K es" and data: "bi_data it = built K es" "bi_restarts it = of_nat (off K es (length es))"
    using b by (auto simp: base_def)
  have rs: "unat (of_nat (off K es (length es)) :: u32) = off K es (length es)" "unat (of_nat (off K es i) :: u32) = off K es i"
    using wf_bounds(4) [OF w] assms(2) by auto
  have lt: "(of_nat (off K es i) :: u32) < of_nat (off K es (length es))"
    using assms(2) rs by (simp add: word_less_nat_alt off_less_iff)
  from decode_at [OF w assms(2) e] obtain q where q:
    "DecodeEntry (take (off K es (length es) - off K es i) (drop (off K es i) (built K es))) =
      Some (of_nat (shared_at K es i), of_nat (length k - shared_at K es i), of_nat (length v), q)"
    "rds (built K es) (off K es (length es) - length q) (length k - shared_at K es i) = Some (drop (shared_at K es i) k)"
    "off K es (length es) - length q + (length k - shared_at K es i) + length v = off K es (Suc i)"
    "unat (of_nat (shared_at K es i) :: u32) = shared_at K es i"
    "unat (of_nat (length k - shared_at K es i) :: u32) = length k - shared_at K es i"
    "unat (of_nat (length v) :: u32) = length v" by metis
  define it1 where "it1 = it\<lparr>bi_current := of_nat (off K es i), bi_key := k,
    bi_value := Some (off K es (length es) - length q + (length k - shared_at K es i), length v)\<rparr>"
  have b1: "base K es it1" using b by (simp add: base_def it1_def)
  obtain index where ix: "advance_index it1 (bi_restart_index it) = Some index" "index < num_at K (length es)"
      "index * K \<le> i" "i \<le> Suc index * K"
    using advance_index_at [OF b1 _ assms(2) r] by (auto simp: it1_def)
  have "ParseNextKey it = Some (True, it1\<lparr>bi_restart_index := index\<rparr>)"
    using v sh q lt rs ix(1) data
    by (simp add: ParseNextKey_def NextEntryOffset_def it1_def Let_def not_le del: of_nat_add)
  moreover have "at_entry K es (it1\<lparr>bi_restart_index := index\<rparr>) i"
    using b1 assms(2) e ix q(3) by (auto simp: at_entry_def base_def it1_def)
  ultimately show ?thesis by blast
qed

lemma ParseNextKey_end:
  assumes "ready K es it (length es)"
  shows "\<exists>it'. ParseNextKey it = Some (False, it') \<and> at_end K es it'"
proof -
  obtain p l where "bi_value it = Some (p, l)" "p + l = off K es (length es)" "base K es it"
    using assms by (auto simp: ready_def)
  then have "ParseNextKey it = Some (False, it\<lparr>bi_current := bi_restarts it, bi_restart_index := bi_num_restarts it\<rparr>)"
    by (simp add: ParseNextKey_def NextEntryOffset_def base_def del: of_nat_add)
  with \<open>base K es it\<close> show ?thesis by (simp add: at_end_def base_def)
qed

lemma at_entry_ready:
  assumes "at_entry K es it i"
  shows "ready K es it (Suc i)"
proof -
  have "length (snd (es ! i)) \<le> off K es (Suc i)"
    by (cases "es ! i") (simp add: off_Suc enc_at_def Let_def)
  then show ?thesis
    using assms by (auto simp: at_entry_def ready_def shared_at_def take_diff_index(2) intro: take_diff_index(1))
qed

lemma NextEntryOffset_at: "at_entry K es it i \<Longrightarrow> NextEntryOffset it = Some (of_nat (off K es (Suc i)))"
proof -
  assume a: "at_entry K es it i"
  have "length (snd (es ! i)) \<le> off K es (Suc i)" by (cases "es ! i") (simp add: off_Suc enc_at_def Let_def)
  with a show ?thesis by (simp add: at_entry_def NextEntryOffset_def del: of_nat_add of_nat_diff)
qed

lemma parse_until_at:
  assumes "ready K es it i" and "i \<le> m" and "m < length es"
  shows "\<exists>it'. parse_until (of_nat (off K es (Suc m))) it = Some it' \<and> at_entry K es it' m"
  using assms
proof (induction "m - i" arbitrary: it i)
  case 0
  then have "i = m" by simp
  with 0 obtain it' where it': "ParseNextKey it = Some (True, it')" "at_entry K es it' m" using ParseNextKey_entry by blast
  then show ?case by (subst parse_until.simps) (simp add: NextEntryOffset_at)
next
  case (Suc d)
  then obtain it' where it': "ParseNextKey it = Some (True, it')" "at_entry K es it' i"
    using ParseNextKey_entry [of K es it i] by auto
  then have w: "wf_block K es" by (simp add: at_entry_def base_def)
  have lt: "(of_nat (off K es (Suc i)) :: u32) < of_nat (off K es (Suc m))"
    using wf_bounds(4) [OF w, of "Suc i"] wf_bounds(4) [OF w, of "Suc m"] Suc by (simp add: word_less_nat_alt off_less_iff)
  have "d = m - Suc i" "Suc i \<le> m" using Suc(2,4) by linarith+
  from Suc(1) [OF this(1) at_entry_ready [OF it'(2)] this(2) Suc(5)] obtain it'' where
    "parse_until (of_nat (off K es (Suc m))) it' = Some it''" "at_entry K es it'' m" by blast
  with it'(1) NextEntryOffset_at [OF it'(2)] lt show ?case by (subst parse_until.simps) simp
qed

lemma restart_before_at:
  assumes "base K es it" and "i < length es" and "index < num_at K (length es)" and "i \<le> Suc index * K"
  shows "restart_before it (of_nat (off K es i)) index =
    Some (if i = 0 then None else Some ((i - 1) div K))"
  using assms(3,4)
proof (induction index)
  case 0
  have w: "wf_block K es" using assms(1) by (simp add: base_def)
  note K = wf_bounds(1) [OF w]
  have "(of_nat (off K es i) :: u32) \<le> 0 \<longleftrightarrow> i = 0"
    using wf_bounds(4) [OF w, of i] assms(2) off_le_iff [of K es i 0] by (simp add: word_le_nat_alt off_def ents_def)
  moreover have "i \<noteq> 0 \<Longrightarrow> (i - 1) div K = 0" using 0 K by (simp add: div_eq_0_iff)
  ultimately show ?case
    using GetRestartPoint_eq [OF assms(1) 0(1)] by (subst restart_before.simps) (simp add: off_def ents_def)
next
  case (Suc index)
  have w: "wf_block K es" using assms(1) by (simp add: base_def)
  note K = wf_bounds(1) [OF w]
  have "(of_nat (off K es i) :: u32) \<le> of_nat (off K es (Suc index * K)) \<longleftrightarrow> i \<le> Suc index * K"
    using wf_bounds(4) [OF w, of i] wf_bounds(4) [OF w restart_in_range [OF w Suc.prems(1)]] assms(2)
    by (simp only: word_le_nat_alt off_le_iff less_imp_le)
  moreover have "i \<noteq> 0 \<and> (i - 1) div K = Suc index" if "\<not> i \<le> Suc index * K"
  proof -
    have "Suc index * K \<le> i - 1" "i - 1 < Suc (Suc index) * K" using that Suc.prems(2) K by auto
    then show ?thesis using that by (auto intro!: div_nat_eqI simp: mult.commute)
  qed
  ultimately show ?case
    using GetRestartPoint_eq [OF assms(1) Suc.prems(1)] Suc.IH Suc.prems(1)
    by (subst restart_before.simps) (auto simp del: restart_before.simps)
qed

section \<open>The operations move the position\<close>

definition bi_inv :: "nat \<Rightarrow> entry list \<Rightarrow> BlockIter \<Rightarrow> bool" where
  "bi_inv K es it \<longleftrightarrow> (\<exists>i. at_entry K es it i) \<or> at_end K es it"

definition bi_pos :: "nat \<Rightarrow> entry list \<Rightarrow> BlockIter \<Rightarrow> nat" where
  "bi_pos K es it = length (takeWhile (\<lambda>j. off K es j < unat (bi_current it)) [0..<length es])"

definition Iter_entry :: "BlockIter \<Rightarrow> entry option" where
  "Iter_entry it = do { v \<leftarrow> Iter_value it; Some (Iter_key it, v) }"

lemma bi_inv_base: "bi_inv K es it \<Longrightarrow> base K es it"
  by (auto simp: bi_inv_def at_entry_def at_end_def)

lemma bi_pos_off:
  assumes "wf_block K es" and "i \<le> length es" and "bi_current it = of_nat (off K es i)"
  shows "bi_pos K es it = i"
proof -
  have "takeWhile (\<lambda>j. off K es j < unat (bi_current it)) [0..<length es] = take i [0..<length es]"
    using assms wf_bounds(4) [OF assms(1,2)] by (intro takeWhile_eq_take_P_nth) (auto simp: off_less_iff)
  with assms(2) show ?thesis by (simp add: bi_pos_def)
qed

lemma at_entry_pos: "at_entry K es it i \<Longrightarrow> bi_inv K es it \<and> bi_pos K es it = i"
  by (auto simp: bi_inv_def at_entry_def base_def intro!: bi_pos_off)

lemma at_end_pos: "at_end K es it \<Longrightarrow> bi_inv K es it \<and> bi_pos K es it = length es"
  by (auto simp: bi_inv_def at_end_def base_def intro!: bi_pos_off)

lemma Valid_pos: "bi_inv K es it \<Longrightarrow> Iter_Valid it \<longleftrightarrow> bi_pos K es it < length es"
proof -
  assume i: "bi_inv K es it"
  then have w: "wf_block K es" using bi_inv_base by (auto simp: base_def)
  from i show ?thesis unfolding bi_inv_def
  proof
    assume "\<exists>i. at_entry K es it i"
    then obtain i where a: "at_entry K es it i" by blast
    then have "bi_current it < bi_restarts it" using wf_bounds(4) [OF w, of i] wf_bounds(4) [OF w, of "length es"]
      by (auto simp: at_entry_def base_def word_less_nat_alt off_less_iff)
    with a at_entry_pos [OF a] show ?thesis by (simp add: Iter_Valid_def at_entry_def)
  qed (use at_end_pos in \<open>auto simp: Iter_Valid_def at_end_def\<close>)
qed

lemma Valid_at: "bi_inv K es it \<Longrightarrow> Iter_Valid it \<Longrightarrow> at_entry K es it (bi_pos K es it)"
  using at_entry_pos [of K es it] at_end_pos [of K es it] Valid_pos [of K es it] by (auto simp: bi_inv_def)

lemma Iter_entry_at: "at_entry K es it i \<Longrightarrow> Iter_entry it = Some (es ! i)"
proof -
  assume a: "at_entry K es it i"
  then have w: "wf_block K es" and i: "i < length es" by (auto simp: at_entry_def base_def)
  obtain k v where e: "es ! i = (k, v)" by (cases "es ! i")
  from decode_at [OF w i e] obtain x where "x + length v = off K es (Suc i)" "rds (built K es) x (length v) = Some v"
    by metis
  then have "rds (built K es) (off K es (Suc i) - length v) (length v) = Some v" by (metis diff_add_inverse2)
  with a e show ?thesis by (simp add: Iter_entry_def Iter_value_def Iter_key_def at_entry_def base_def)
qed

lemma ParseNextKey_ready:
  assumes "ready K es it i"
  shows "\<exists>ok it'. ParseNextKey it = Some (ok, it') \<and> bi_inv K es it' \<and> bi_pos K es it' = i"
proof (cases "i < length es")
  case False
  with assms have "i = length es" by (simp add: ready_def)
  with assms show ?thesis using ParseNextKey_end at_end_pos by blast
qed (use ParseNextKey_entry [OF assms] at_entry_pos in blast)

lemma SeekToFirst_pos: "bi_inv K es it \<Longrightarrow> \<exists>it'. Iter_SeekToFirst it = Some it' \<and> bi_inv K es it' \<and> bi_pos K es it' = 0"
proof -
  assume "bi_inv K es it"
  then obtain it1 where "SeekToRestartPoint 0 it = Some it1" "ready K es it1 0"
    using SeekToRestartPoint_ready [OF bi_inv_base num_at_pos] by fastforce
  then show ?thesis using ParseNextKey_ready [of K es it1 0] by (auto simp: Iter_SeekToFirst_def)
qed

lemma Next_pos:
  "bi_inv K es it \<Longrightarrow> Iter_Valid it \<Longrightarrow> \<exists>it'. Iter_Next it = Some it' \<and> bi_inv K es it' \<and> bi_pos K es it' = Suc (bi_pos K es it)"
  using ParseNextKey_ready [OF at_entry_ready [OF Valid_at [of K es it]]] by (auto simp: Iter_Next_def)

lemma SeekToLast_pos:
  "bi_inv K es it \<Longrightarrow> \<exists>it'. Iter_SeekToLast it = Some it' \<and> bi_inv K es it' \<and> bi_pos K es it' = length es - 1"
proof -
  assume i: "bi_inv K es it"
  note b = bi_inv_base [OF i]
  then have w: "wf_block K es" and n: "bi_num_restarts it = num_at K (length es)" by (auto simp: base_def)
  let ?j = "num_at K (length es) - 1"
  have j: "?j < num_at K (length es)" using num_at_pos [of K "length es"] by simp
  then obtain it1 where it1: "SeekToRestartPoint ?j it = Some it1" "ready K es it1 (?j * K)"
    using SeekToRestartPoint_ready [OF b] by blast
  then have r: "bi_restarts it1 = of_nat (off K es (length es))" by (simp add: ready_def base_def)
  show ?thesis
  proof (cases "es = []")
    case True
    then have "ready K es it1 (length es)" using it1(2) by (simp add: num_at_def)
    then obtain it2 where "ParseNextKey it1 = Some (False, it2)" "at_end K es it2" using ParseNextKey_end by blast
    moreover from this have "parse_until (bi_restarts it1) it1 = Some it2" by (subst parse_until.simps) simp
    ultimately show ?thesis using it1(1) n True at_end_pos [of K es it2] by (auto simp: Iter_SeekToLast_def)
  next
    case False
    then have "?j * K \<le> length es - 1" "length es - 1 < length es" "Suc (length es - 1) = length es"
      using restart_index_le [OF wf_bounds(1) [OF w] j] by auto
    with parse_until_at [OF it1(2), of "length es - 1"] obtain it2 where
      "parse_until (bi_restarts it1) it1 = Some it2" "at_entry K es it2 (length es - 1)" using r by auto
    then show ?thesis using it1(1) n at_entry_pos by (auto simp: Iter_SeekToLast_def)
  qed
qed

lemma Prev_pos:
  assumes "bi_inv K es it" and "Iter_Valid it"
  shows "\<exists>it'. Iter_Prev it = Some it' \<and> bi_inv K es it' \<and>
    bi_pos K es it' = (if bi_pos K es it = 0 then length es else bi_pos K es it - 1)"
proof -
  let ?i = "bi_pos K es it"
  have a: "at_entry K es it ?i" using Valid_at assms by blast
  then have b: "base K es it" and i: "?i < length es" and cur: "bi_current it = of_nat (off K es ?i)"
      and r: "bi_restart_index it < num_at K (length es)" "?i \<le> Suc (bi_restart_index it) * K"
    by (auto simp: at_entry_def)
  note before = restart_before_at [OF b i r]
  show ?thesis
  proof (cases "?i = 0")
    case True
    let ?it = "it\<lparr>bi_current := bi_restarts it, bi_restart_index := bi_num_restarts it\<rparr>"
    have "at_end K es ?it" using b by (simp add: at_end_def base_def)
    with True before cur show ?thesis using at_end_pos [of K es ?it] by (simp add: Iter_Prev_def Let_def)
  next
    case False
    have w: "wf_block K es" using b by (simp add: base_def)
    let ?j = "(?i - 1) div K"
    have "?j \<le> (length es - 1) div K" using i by (intro div_le_mono) simp
    then have "?j < num_at K (length es)" using i by (auto simp: num_at_def)
    then obtain it1 where it1: "SeekToRestartPoint ?j it = Some it1" "ready K es it1 (?j * K)"
      using SeekToRestartPoint_ready [OF b] by blast
    have "?j * K \<le> ?i - 1" "?i - 1 < length es" "Suc (?i - 1) = ?i" using i False by auto
    with parse_until_at [OF it1(2), of "?i - 1"] obtain it2 where
      "parse_until (bi_current it) it1 = Some it2" "at_entry K es it2 (?i - 1)" using cur by auto
    then show ?thesis using False before cur it1(1) at_entry_pos [of K es it2] by (auto simp: Iter_Prev_def Let_def)
  qed
qed

section \<open>Searching\<close>

context comparator
begin

definition sorted_entries :: "entry list \<Rightarrow> bool" where
  "sorted_entries es \<longleftrightarrow> list_all (\<lambda>e. ok (fst e)) es \<and>
     (\<forall>i. Suc i < length es \<longrightarrow> compare (fst (es ! i)) (fst (es ! Suc i)) < 0)"

lemma entries_less:
  assumes "sorted_entries es" and "i < j" and "j < length es"
  shows "compare (fst (es ! i)) (fst (es ! j)) < 0"
  using sorted_keys [of "map fst es" i j] assms by (simp add: sorted_entries_def list_all_length)

lemma entries_before:
  assumes "sorted_entries es" and "ok target" and "j < length es" and "compare (fst (es ! j)) target < 0" and "i \<le> j"
  shows "compare (fst (es ! i)) target < 0"
proof (cases "i = j")
  case False
  have "ok (fst (es ! i))" "ok (fst (es ! j))" using assms by (simp_all add: sorted_entries_def list_all_length)
  with False show ?thesis using compare_trans [OF _ _ assms(2)] entries_less [OF assms(1), of i j] assms by simp
qed (use assms in simp)

lemma search_restarts_at:
  assumes "base K es it" and "left \<le> right" and "right < num_at K (length es)"
    and "left = 0 \<or> compare (fst (es ! (left * K))) target < 0"
  shows "\<exists>l. search_restarts compare target it left right = Some (Inr l) \<and> l < num_at K (length es) \<and>
    (l = 0 \<or> compare (fst (es ! (l * K))) target < 0)"
  using assms(2-4)
proof (induction "right - left" arbitrary: left right rule: less_induct)
  case less
  show ?case
  proof (cases "left < right")
    case True
    let ?mid = "(left + right + 1) div 2"
    have mid: "left < ?mid" "?mid \<le> right" "?mid < num_at K (length es)" using True less.prems by auto
    have w: "wf_block K es" and d: "bi_data it = built K es" "bi_restarts it = of_nat (off K es (length es))"
      using assms(1) by (auto simp: base_def)
    have "num_at K (length es) \<noteq> 1" using mid by linarith
    then have "es \<noteq> []" by (auto simp: num_at_def)
    then have "length es \<noteq> 0" by simp
    then have m: "?mid * K < length es" using restart_index_le [OF wf_bounds(1) [OF w] mid(3)] by linarith
    obtain k v where e: "es ! (?mid * K) = (k, v)" by (cases "es ! (?mid * K)")
    have s: "shared_at K es (?mid * K) = 0" by (simp add: shared_at_def)
    have u: "unat (of_nat (off K es (length es)) :: u32) = off K es (length es)"
      "unat (of_nat (off K es (?mid * K)) :: u32) = off K es (?mid * K)"
      using wf_bounds(4) [OF w] m by auto
    from decode_at [OF w m e] obtain p where
      "DecodeEntry (take (off K es (length es) - off K es (?mid * K)) (drop (off K es (?mid * K)) (built K es))) =
        Some (of_nat (shared_at K es (?mid * K)), of_nat (length k - shared_at K es (?mid * K)), of_nat (length v), p)"
      "rds (built K es) (off K es (length es) - length p) (length k - shared_at K es (?mid * K)) =
        Some (drop (shared_at K es (?mid * K)) k)"
      "unat (of_nat (length k - shared_at K es (?mid * K)) :: u32) = length k - shared_at K es (?mid * K)" by metis
    then have p:
      "DecodeEntry (take (off K es (length es) - off K es (?mid * K)) (drop (off K es (?mid * K)) (built K es))) =
        Some (0, of_nat (length k), of_nat (length v), p)"
      "rds (built K es) (off K es (length es) - length p) (length k) = Some k" "unat (of_nat (length k) :: u32) = length k"
      unfolding s by simp_all
    have "search_restarts compare target it left right =
        (if compare k target < 0 then search_restarts compare target it ?mid right
         else search_restarts compare target it left (?mid - 1))"
      using True GetRestartPoint_eq [OF assms(1) mid(3)] p d u by (subst search_restarts.simps) (simp add: Let_def)
    then show ?thesis
      using less(1) [of right ?mid] less(1) [of "?mid - 1" left] less.prems mid e by auto
  next
    case False
    with less.prems show ?thesis by (subst search_restarts.simps) auto
  qed
qed

lemma seek_linear_at:
  assumes "ready K es it i"
  shows "\<exists>it' j. seek_linear compare target it = Some it' \<and> bi_inv K es it' \<and> bi_pos K es it' = j \<and> i \<le> j \<and> j \<le> length es \<and>
    (\<forall>m. i \<le> m \<and> m < j \<longrightarrow> compare (fst (es ! m)) target < 0) \<and> (j < length es \<longrightarrow> \<not> compare (fst (es ! j)) target < 0)"
  using assms
proof (induction "length es - i" arbitrary: it i)
  case 0
  then have i: "i = length es" by (simp add: ready_def)
  with 0 obtain it' where it': "ParseNextKey it = Some (False, it')" "at_end K es it'" using ParseNextKey_end by blast
  then have "seek_linear compare target it = Some it'" by (subst seek_linear.simps) simp
  with at_end_pos [OF it'(2)] i show ?case by (intro exI [of _ it'] exI [of _ "length es"]) auto
next
  case (Suc d)
  then have i: "i < length es" by simp
  then obtain it' where it': "ParseNextKey it = Some (True, it')" "at_entry K es it' i"
    using ParseNextKey_entry Suc.prems by blast
  then have k: "bi_key it' = fst (es ! i)" by (simp add: at_entry_def)
  show ?case
  proof (cases "compare (fst (es ! i)) target < 0")
    case True
    have "d = length es - Suc i" using Suc(2) by simp
    from Suc(1) [OF this at_entry_ready [OF it'(2)]] obtain it2 j where 2: "seek_linear compare target it' = Some it2"
        "bi_inv K es it2" "bi_pos K es it2 = j" "Suc i \<le> j" "j \<le> length es"
        "\<forall>m. Suc i \<le> m \<and> m < j \<longrightarrow> compare (fst (es ! m)) target < 0" "j < length es \<longrightarrow> \<not> compare (fst (es ! j)) target < 0"
      by blast
    have "seek_linear compare target it = Some it2" using it'(1) k True 2(1) by (subst seek_linear.simps) simp
    moreover have "compare (fst (es ! m)) target < 0" if "i \<le> m" "m < j" for m
      using 2(6) that True by (cases "m = i") auto
    ultimately show ?thesis using 2 by (intro exI [of _ it2] exI [of _ j]) auto
  next
    case False
    then have "seek_linear compare target it = Some it'" using it'(1) k by (subst seek_linear.simps) simp
    with False at_entry_pos [OF it'(2)] i show ?thesis by (intro exI [of _ it'] exI [of _ i]) auto
  qed
qed

lemma Seek_pos:
  assumes "sorted_entries es" and "bi_inv K es it" and "ok target"
  shows "\<exists>it'. Iter_Seek compare target it = Some it' \<and> bi_inv K es it' \<and>
    bi_pos K es it' = length (takeWhile (\<lambda>e. compare (fst e) target < 0) es)"
proof -
  note b = bi_inv_base [OF assms(2)]
  then have w: "wf_block K es" and n: "bi_num_restarts it = num_at K (length es)" by (auto simp: base_def)
  obtain l where l: "search_restarts compare target it 0 (bi_num_restarts it - 1) = Some (Inr l)"
      "l < num_at K (length es)" "l = 0 \<or> compare (fst (es ! (l * K))) target < 0"
    using search_restarts_at [OF b, of 0 "bi_num_restarts it - 1" target] n num_at_pos [of K "length es"] by auto
  obtain it1 where it1: "SeekToRestartPoint l it = Some it1" "ready K es it1 (l * K)"
    using SeekToRestartPoint_ready [OF b l(2)] by blast
  obtain it2 j where 2: "seek_linear compare target it1 = Some it2" "bi_inv K es it2" "bi_pos K es it2 = j"
      "l * K \<le> j" "j \<le> length es" "\<forall>m. l * K \<le> m \<and> m < j \<longrightarrow> compare (fst (es ! m)) target < 0"
      "j < length es \<longrightarrow> \<not> compare (fst (es ! j)) target < 0"
    using seek_linear_at [OF it1(2)] by blast
  have "compare (fst (es ! m)) target < 0" if "m < j" for m
  proof (cases "l * K \<le> m")
    case False
    then have "l \<noteq> 0" by (cases l) auto
    moreover have "l * K < length es" using False that 2(5) restart_index_le [OF wf_bounds(1) [OF w] l(2)] by linarith
    ultimately show ?thesis using entries_before [OF assms(1,3)] l(3) False by simp
  qed (use 2(6) that in simp)
  then have "takeWhile (\<lambda>e. compare (fst e) target < 0) es = take j es"
    using 2(7) by (intro takeWhile_eq_take_P_nth) auto
  then show ?thesis using 2(1-3,5) l(1) it1(1) by (auto simp: Iter_Seek_def)
qed

theorem block_iterator:
  "iterator es ok (\<lambda>k t. compare k t < 0) (\<lambda>it. sorted_entries es \<and> bi_inv K es it) (bi_pos K es) Iter_Valid Iter_entry
     Iter_SeekToFirst Iter_SeekToLast Iter_Next Iter_Prev (Iter_Seek compare)"
proof
  show "\<exists>s'. Iter_Seek compare target s = Some s' \<and> (sorted_entries es \<and> bi_inv K es s') \<and>
      bi_pos K es s' = length (takeWhile (\<lambda>e. compare (fst e) target < 0) es)"
    if "sorted_entries es \<and> bi_inv K es s" "ok target" for s target using Seek_pos that by blast
qed (use Valid_pos [of K es] Iter_entry_at [OF Valid_at] SeekToFirst_pos [of K es] SeekToLast_pos [of K es]
    Next_pos [of K es] Prev_pos [of K es] in simp_all)

end

interpretation bytewise_block: iterator es "\<lambda>_. True" "\<lambda>k t. Slice_compare k t < 0"
    "\<lambda>it. bytewise.sorted_entries es \<and> bi_inv K es it" "bi_pos K es" Iter_Valid Iter_entry
    Iter_SeekToFirst Iter_SeekToLast Iter_Next Iter_Prev "Iter_Seek Slice_compare" for K es
  by (rule bytewise.block_iterator)

interpretation internal_block: iterator es "internal_ok (\<lambda>_. True)" "\<lambda>k t. InternalKey_Compare Slice_compare k t < 0"
    "\<lambda>it. internal.sorted_entries es \<and> bi_inv K es it" "bi_pos K es" Iter_Valid Iter_entry
    Iter_SeekToFirst Iter_SeekToLast Iter_Next Iter_Prev "Iter_Seek (InternalKey_Compare Slice_compare)" for K es
  by (rule internal.block_iterator)

section \<open>Properties\<close>

definition opened :: "nat \<Rightarrow> entry list \<Rightarrow> TableBlock" where
  "opened K es = \<lparr>tb_data = built K es, tb_size = length (built K es), tb_restart_offset = of_nat (off K es (length es))\<rparr>"

lemma open_built:
  assumes "wf_block K es"
  shows "mk_TableBlock junk (built K es) = Some (opened K es)"
    and "\<exists>it. NewIterator (opened K es) = Some (Iter it) \<and> at_end K es it"
proof -
  let ?c = "built K es" and ?n = "num_at K (length es)"
  note wb = wf_bounds [OF assms]
  have l: "length ?c < 2 ^ 32" using assms by (simp add: wf_block_def)
  have "drop (length ?c - 4) ?c = word_le 4 (of_nat ?n :: u32)" by (simp add: built_def length_built off_def length_concat sum_list_triv o_def)
  then have num: "NumRestarts ?c (length ?c) = Some (of_nat ?n)" using DecodeFixed_hit(1) [of True _ "[]"] by (simp add: NumRestarts_def)
  have n: "?n \<le> (length ?c - 4) div 4" "4 \<le> length ?c" "length ?c - Suc ?n * 4 = off K es (length es)" "Suc ?n < 2 ^ 32"
    using l by (simp_all add: length_built)
  then have "unat (1 + of_nat ?n :: u32) = Suc ?n" by (simp add: unat_of_nat flip: of_nat_Suc)
  then show "mk_TableBlock junk ?c = Some (opened K es)"
    using num n wb(5) by (simp add: mk_TableBlock_def opened_def Let_def)
  have "(of_nat ?n :: u32) \<noteq> 0" using wb(5) num_at_pos [of K "length es"] by (metis unat_0 less_irrefl)
  moreover have "at_end K es (mk_BlockIter ?c (of_nat (off K es (length es))) ?n)"
    using assms by (simp add: at_end_def base_def mk_BlockIter_def)
  ultimately show "\<exists>it. NewIterator (opened K es) = Some (Iter it) \<and> at_end K es it"
    using num n(2) wb(5) by (simp add: NewIterator_def opened_def)
qed

lemma internal_sorted:
  assumes "list_all (\<lambda>(k, v). 8 \<le> length k) es"
    and "sorted_wrt (\<lambda>a b. InternalKey_Compare Slice_compare (fst a) (fst b) < 0) es"
  shows "internal.sorted_entries es"
  using assms unfolding internal.sorted_entries_def by (auto simp: list_all_iff sorted_wrt_iff_nth_less)

text \<open>
  C28: The block iterator is the sorted list that was built. For every restart interval and every
  strictly increasing sequence of internal keys with their values, as long as the finished block is
  below 4 GiB, the block that is opened on the finished bytes iterates forwards over exactly the
  entries, backwards over them in reverse, and from a seek over exactly those that are not before
  the target; no operation reads outside the block, and every loop ends.
\<close>

theorem block_roundtrip:
  assumes "0 < K" and "list_all (\<lambda>(k, v). 8 \<le> length k \<and> length k < 2 ^ 32) es"
    and "sorted_wrt (\<lambda>a b. InternalKey_Compare Slice_compare (fst a) (fst b) < 0) es"
    and "fst (BlockBuilder_Finish (fold (\<lambda>(k, v). BlockBuilder_Add K k v) es new_BlockBuilder)) = c"
    and "length c < 2 ^ 32" and "8 \<le> length target"
  shows "\<exists>b it. mk_TableBlock junk c = Some b \<and> NewIterator b = Some (Iter it) \<and>
    do { it \<leftarrow> Iter_SeekToFirst it; drain Iter_Valid Iter_entry Iter_Next it } = Some es \<and>
    do { it \<leftarrow> Iter_SeekToLast it; drain Iter_Valid Iter_entry Iter_Prev it } = Some (rev es) \<and>
    do { it \<leftarrow> Iter_Seek (InternalKey_Compare Slice_compare) target it; drain Iter_Valid Iter_entry Iter_Next it } =
      Some (dropWhile (\<lambda>e. InternalKey_Compare Slice_compare (fst e) target < 0) es)"
proof -
  have c: "c = built K es" using assms(1,4) Finish_built [of K es] by (simp add: add_all_def)
  then have w: "wf_block K es" using assms(1,2,5) by (auto simp: wf_block_def list_all_iff)
  then obtain b it where b: "mk_TableBlock junk c = Some b" "NewIterator b = Some (Iter it)" "at_end K es it"
    using open_built [OF w] c by blast
  have "internal.sorted_entries es \<and> bi_inv K es it"
    using internal_sorted [OF _ assms(3)] assms(2) at_end_pos [OF b(3)] by (auto simp: list_all_iff)
  note scans = internal_block.scan_forward [OF this] internal_block.scan_backward [OF this] internal_block.scan_from [OF this, of target]
  with b(1,2) assms(6) show ?thesis by (intro exI [of _ b] exI [of _ it]) simp
qed

theorem block_roundtrip_witness:
  "\<exists>b it. mk_TableBlock 0 (fst (BlockBuilder_Finish (BlockBuilder_Add 2 (replicate 8 1) [7] new_BlockBuilder))) = Some b \<and>
    NewIterator b = Some (Iter it) \<and>
    do { it \<leftarrow> Iter_SeekToFirst it; drain Iter_Valid Iter_entry Iter_Next it } = Some [(replicate 8 1, [7])]"
proof -
  have "length (fst (BlockBuilder_Finish (BlockBuilder_Add 2 (replicate 8 1) [7] new_BlockBuilder))) = 20" by code_simp
  then show ?thesis
    using block_roundtrip [of 2 "[(replicate 8 1, [7])]" _ "replicate 8 0" 0] by auto
qed

text \<open>
  The bounds check of an entry adds its two lengths in 32 bits. On a block whose first entry
  announces lengths whose sum wraps to at most what is there, opening the block succeeds, and seeking
  to the first entry reads outside the block.
\<close>

theorem block_length_overflow:
  assumes "c = EncodeVarint32 0 @ EncodeVarint32 ns @ EncodeVarint32 vl @ rest @ word_le 4 (0 :: u32) @ word_le 4 (1 :: u32)"
    and "length c < 2 ^ 32" and "unat (ns + vl) \<le> length rest" and "length c < unat ns"
  shows "\<exists>b it. mk_TableBlock junk c = Some b \<and> NewIterator b = Some (Iter it) \<and> Iter_SeekToFirst it = None"
proof -
  let ?e = "EncodeVarint32 0 @ EncodeVarint32 ns @ EncodeVarint32 vl @ rest"
  let ?it = "mk_BlockIter c (of_nat (length ?e)) 1"
  have c: "c = ?e @ word_le 4 (0 :: u32) @ word_le 4 (1 :: u32)" and lc: "length c = length ?e + 8" using assms(1) by simp_all
  have le: "unat (of_nat (length ?e) :: u32) = length ?e" "unat (of_nat (length rest) :: u32) = length rest"
    using assms(2) lc by (simp_all only: unat_of_nat) auto
  have e3: "3 \<le> length ?e"
    using EncodeVarint32_nonempty [of 0] EncodeVarint32_nonempty [of ns] EncodeVarint32_nonempty [of vl] by (simp only: length_append)
  have "drop (length c - 4) c = word_le 4 (1 :: u32)" using c lc by simp
  then have num: "NumRestarts c (length c) = Some 1" using DecodeFixed_hit(1) [of True "1 :: u32" "[]"] by (simp add: NumRestarts_def)
  then have b: "mk_TableBlock junk c = Some \<lparr>tb_data = c, tb_size = length c, tb_restart_offset = of_nat (length ?e)\<rparr>"
    using lc by (simp add: mk_TableBlock_def Let_def del: length_append)
  have it: "NewIterator \<lparr>tb_data = c, tb_size = length c, tb_restart_offset = of_nat (length ?e)\<rparr> = Some (Iter ?it)"
    using num lc by (simp add: NewIterator_def del: length_append)
  have "drop (length ?e) c = word_le 4 (0 :: u32) @ word_le 4 (1 :: u32)" unfolding c by (rule append_eq_conv_conj [THEN iffD1, OF refl, THEN conjunct2, symmetric])
  then have r: "GetRestartPoint ?it 0 = Some 0"
    using le(1) by (simp add: GetRestartPoint_def mk_BlockIter_def DecodeFixed_hit del: length_append)
  have "\<not> (of_nat (length rest) :: u32) < ns + vl" using le(2) assms(3) by (simp add: word_less_nat_alt)
  then have d: "DecodeEntry ?e = Some (0, ns, vl, rest)"
    unfolding DecodeEntry_varints using e3 by (simp add: GetVarint32_put not_less)
  have t: "take (length ?e) c = ?e" unfolding c by (rule append_eq_conv_conj [THEN iffD1, OF refl, THEN conjunct1, symmetric])
  have "rds c (length ?e - length rest) (unat ns) = None" using assms(4) by (simp add: rds_None_iff)
  moreover have "(0 :: u32) < of_nat (length ?e)" using e3 unfolding word_less_nat_alt le(1) unat_0 by linarith
  ultimately have "Iter_SeekToFirst ?it = None"
    using r d t le(1)
    by (simp add: Iter_SeekToFirst_def SeekToRestartPoint_def ParseNextKey_def NextEntryOffset_def Let_def not_le del: length_append)
      (simp add: mk_BlockIter_def)
  with b it show ?thesis by blast
qed

theorem block_length_overflow_witness:
  "\<exists>b it. mk_TableBlock 0 ([0] @ [0xff, 0xff, 0xff, 0xff, 0x0f] @ [1] @ [] @ [0, 0, 0, 0] @ [1, 0, 0, 0]) = Some b \<and>
    NewIterator b = Some (Iter it) \<and> Iter_SeekToFirst it = None"
proof -
  have "EncodeVarint32 0 = [0]" "EncodeVarint32 0xffffffff = [0xff, 0xff, 0xff, 0xff, 0x0f]" "EncodeVarint32 1 = [1]"
    by code_simp+
  then show ?thesis using block_length_overflow [of _ "0xffffffff" 1 "[]" 0] by (simp add: word_le_4)
qed

end
