(* ===== verification/Ldb_Format.thy ===== *)
theory Ldb_Format
  imports Ldb_Log Ldb_Block
begin

text \<open>
  The format of a table file (\<^verbatim>\<open>table/format.h\<close>, \<^verbatim>\<open>table/format.cc\<close>): block handles, the footer and the
  reader of a block with its trailer. A file that is read and the compression library are parameters.
\<close>

section \<open>The code\<close>

record BlockHandle =
  bh_offset :: u64
  bh_size :: u64

definition kMaxEncodedLength :: nat where "kMaxEncodedLength = 10 + 10"

definition new_BlockHandle :: BlockHandle where
  "new_BlockHandle = \<lparr>bh_offset = NOT 0, bh_size = NOT 0\<rparr>"

text \<open>
  The code asserts that neither field is \<open>NOT 0\<close>, the value of a handle that was not set; a build
  without assertions encodes it like any other.
\<close>

definition Handle_EncodeTo :: "bytes \<Rightarrow> BlockHandle \<Rightarrow> bytes" where
  "Handle_EncodeTo dst h = PutVarint64 (PutVarint64 dst (bh_offset h)) (bh_size h)"

text \<open>The status, the handle and the rest of the input; a reader that fails sets nothing.\<close>

definition Handle_DecodeFrom :: "bytes \<Rightarrow> BlockHandle \<Rightarrow> Status \<times> BlockHandle \<times> bytes" where
  "Handle_DecodeFrom input h =
     (case GetVarint64 input of
        None \<Rightarrow> (Corruption ''bad block handle'', h, input)
      | Some (v, input) \<Rightarrow>
          (let h = h\<lparr>bh_offset := v\<rparr> in
           case GetVarint64 input of
             None \<Rightarrow> (Corruption ''bad block handle'', h, input)
           | Some (v, input) \<Rightarrow> (OK, h\<lparr>bh_size := v\<rparr>, input)))"

record Footer =
  ft_metaindex :: BlockHandle
  ft_index :: BlockHandle

definition new_Footer :: Footer where
  "new_Footer = \<lparr>ft_metaindex = new_BlockHandle, ft_index = new_BlockHandle\<rparr>"

definition kEncodedLength :: nat where "kEncodedLength = 2 * kMaxEncodedLength + 8"

definition kTableMagicNumber :: u64 where "kTableMagicNumber = 0xdb4775248b80fb57"

definition kBlockTrailerSize :: u64 where "kBlockTrailerSize = 5"

text \<open>\<^verbatim>\<open>std::string::resize\<close> cuts the string or fills it with zeros.\<close>

definition resize :: "nat \<Rightarrow> bytes \<Rightarrow> bytes" where
  "resize n s = take n s @ replicate (n - length s) 0"

definition Footer_EncodeTo :: "bytes \<Rightarrow> Footer \<Rightarrow> bytes" where
  "Footer_EncodeTo dst f =
     (let dst = Handle_EncodeTo dst (ft_metaindex f);
          dst = Handle_EncodeTo dst (ft_index f);
          dst = resize (2 * kMaxEncodedLength) dst;
          dst = PutFixed32 dst (ucast (kTableMagicNumber AND 0xffffffff)) in
      PutFixed32 dst (ucast (drop_bit 32 kTableMagicNumber)))"

text \<open>The magic number is read at a fixed place, whatever the length of the input: \<open>None\<close> if it is too short.\<close>

definition Footer_DecodeFrom :: "bytes \<Rightarrow> Footer \<Rightarrow> (Status \<times> Footer \<times> bytes) option" where
  "Footer_DecodeFrom input f = do {
     let magic_ptr = drop (kEncodedLength - 8) input;
     magic_lo \<leftarrow> DecodeFixed32 True magic_ptr;
     magic_hi \<leftarrow> DecodeFixed32 True (drop 4 magic_ptr);
     let magic = push_bit 32 (ucast magic_hi) OR ucast magic_lo;
     if magic \<noteq> kTableMagicNumber then Some (Corruption ''not an sstable (bad magic number)'', f, input)
     else
       let end = drop 8 magic_ptr;
           (result, h, input) = Handle_DecodeFrom input (ft_metaindex f);
           f = f\<lparr>ft_metaindex := h\<rparr> in
       if Status_ok result then
         let (result, h, input) = Handle_DecodeFrom input (ft_index f);
             f = f\<lparr>ft_index := h\<rparr> in
         Some (result, f, if Status_ok result then end else input)
       else Some (result, f, input)
   }"

text \<open>
  \<^verbatim>\<open>RandomAccessFile::Read(offset, n, result, scratch)\<close>: the status, the bytes, and whether they were put
  into \<open>scratch\<close>. Snappy: the length of the uncompressed contents, and the contents, where it succeeds.
\<close>

type_synonym read_file = "u64 \<Rightarrow> u64 \<Rightarrow> Status \<times> bytes \<times> bool"

record snappy =
  sn_length :: "bytes \<Rightarrow> nat option"
  sn_uncompress :: "bytes \<Rightarrow> bytes option"

record BlockContents =
  bc_data :: bytes
  bc_cachable :: bool
  bc_heap_allocated :: bool

definition no_contents :: BlockContents where
  "no_contents = \<lparr>bc_data = [], bc_cachable = False, bc_heap_allocated = False\<rparr>"

text \<open>
  \<open>size_t\<close> has 64 bits, so the sums are those of 64-bit words. Failing reads (\<open>None\<close>) are those behind the
  bytes that the file returned.
\<close>

definition ReadBlock_contents :: "snappy \<Rightarrow> u64 \<Rightarrow> bytes \<Rightarrow> bool \<Rightarrow> (Status \<times> BlockContents) option" where
  "ReadBlock_contents sn n contents scratch = do {
     t \<leftarrow> rd contents (unat n);
     data \<leftarrow> rds contents 0 (unat n);
     if t = 0 then
       if \<not> scratch then Some (OK, \<lparr>bc_data = data, bc_cachable = False, bc_heap_allocated = False\<rparr>)
       else Some (OK, \<lparr>bc_data = data, bc_cachable = True, bc_heap_allocated = True\<rparr>)
     else if t = 1 then
       case sn_length sn data of
         None \<Rightarrow> Some (Corruption ''corrupted compressed block contents'', no_contents)
       | Some ulength \<Rightarrow>
           (case sn_uncompress sn data of
              None \<Rightarrow> Some (Corruption ''corrupted compressed block contents'', no_contents)
            | Some ubuf \<Rightarrow> Some (OK, \<lparr>bc_data = take ulength ubuf, bc_cachable = True, bc_heap_allocated = True\<rparr>))
     else Some (Corruption ''bad block type'', no_contents)
   }"

definition ReadBlock :: "snappy \<Rightarrow> read_file \<Rightarrow> bool \<Rightarrow> BlockHandle \<Rightarrow> (Status \<times> BlockContents) option" where
  "ReadBlock sn read verify_checksums handle =
     (let n = bh_size handle; (s, contents, scratch) = read (bh_offset handle) (n + kBlockTrailerSize) in
      if \<not> Status_ok s then Some (s, no_contents)
      else if (of_nat (length contents) :: u64) \<noteq> n + kBlockTrailerSize then Some (Corruption ''truncated block read'', no_contents)
      else do {
        good \<leftarrow>
          (if verify_checksums then do {
             crc \<leftarrow> DecodeFixed32 True (drop (unat (n + 1)) contents);
             checked \<leftarrow> rds contents 0 (unat (n + 1));
             Some (crc32c 0 checked = Unmask crc)
           }
           else Some True);
        if \<not> good then Some (Corruption ''block checksum mismatch'', no_contents)
        else ReadBlock_contents sn n contents scratch
      })"

section \<open>Handles and the footer\<close>

text \<open>A handle is read back as two numbers stored one after the other.\<close>

interpretation handle: slice_pair "\<lambda>_. True" EncodeVarint64 GetVarint64 "\<lambda>_. True" EncodeVarint64 GetVarint64
  by unfold_locales

definition handle_bytes :: "BlockHandle \<Rightarrow> bytes" where
  "handle_bytes h = handle.put2 (bh_offset h, bh_size h)"

lemma Handle_EncodeTo_eq: "Handle_EncodeTo dst h = dst @ handle_bytes h"
  by (simp add: Handle_EncodeTo_def handle_bytes_def handle.put2_def PutVarint64_def)

lemma Handle_DecodeFrom_put: "Handle_DecodeFrom (handle_bytes h @ rest) h' = (OK, h, rest)"
  using handle.get2_put2 [of "(bh_offset h, bh_size h)" rest]
  by (simp add: Handle_DecodeFrom_def handle_bytes_def handle.get2_def handle.put2_def GetVarint64_put)

lemma length_handle_bytes: "length (handle_bytes h) \<le> kMaxEncodedLength"
  using length_EncodeVarint64 [of "bh_offset h"] length_EncodeVarint64 [of "bh_size h"]
  by (simp add: handle_bytes_def handle.put2_def kMaxEncodedLength_def)

lemma handle_bytes_inj: "handle_bytes h = handle_bytes h' \<Longrightarrow> h = h'"
  using Handle_DecodeFrom_put [of h "[]" h] Handle_DecodeFrom_put [of h' "[]" h] by simp

lemma Footer_EncodeTo_eq:
  "Footer_EncodeTo [] f = resize 40 (handle_bytes (ft_metaindex f) @ handle_bytes (ft_index f)) @
     word_le 4 (ucast (kTableMagicNumber AND 0xffffffff) :: u32) @ word_le 4 (ucast (drop_bit 32 kTableMagicNumber) :: u32)"
  by (simp add: Footer_EncodeTo_def Handle_EncodeTo_eq Let_def PutFixed32_def kMaxEncodedLength_def)

lemma footer_body:
  obtains pad where "resize 40 (handle_bytes a @ handle_bytes b) = handle_bytes a @ handle_bytes b @ pad"
    "length (handle_bytes a @ handle_bytes b @ pad) = 40"
  using length_handle_bytes [of a] length_handle_bytes [of b]
  by (simp add: resize_def kMaxEncodedLength_def)

lemma length_Footer_EncodeTo: "length (Footer_EncodeTo [] f) = kEncodedLength"
proof -
  obtain pad where "resize 40 (handle_bytes (ft_metaindex f) @ handle_bytes (ft_index f)) =
      handle_bytes (ft_metaindex f) @ handle_bytes (ft_index f) @ pad"
    "length (handle_bytes (ft_metaindex f) @ handle_bytes (ft_index f) @ pad) = 40" by (rule footer_body)
  then show ?thesis by (simp add: Footer_EncodeTo_eq kEncodedLength_def kMaxEncodedLength_def)
qed

lemma footer_magic:
  "drop 40 (Footer_EncodeTo [] f) =
     word_le 4 (ucast (kTableMagicNumber AND 0xffffffff) :: u32) @ word_le 4 (ucast (drop_bit 32 kTableMagicNumber) :: u32)"
proof -
  obtain pad where "resize 40 (handle_bytes (ft_metaindex f) @ handle_bytes (ft_index f)) =
      handle_bytes (ft_metaindex f) @ handle_bytes (ft_index f) @ pad"
    "length (handle_bytes (ft_metaindex f) @ handle_bytes (ft_index f) @ pad) = 40" by (rule footer_body)
  then show ?thesis by (simp add: Footer_EncodeTo_eq del: append_assoc)
qed

lemma Footer_DecodeFrom_put: "Footer_DecodeFrom (Footer_EncodeTo [] f @ rest) f' = Some (OK, f, rest)"
proof -
  obtain pad where p: "resize 40 (handle_bytes (ft_metaindex f) @ handle_bytes (ft_index f)) =
      handle_bytes (ft_metaindex f) @ handle_bytes (ft_index f) @ pad"
    "length (handle_bytes (ft_metaindex f) @ handle_bytes (ft_index f) @ pad) = 40" by (rule footer_body)
  let ?b = "handle_bytes (ft_metaindex f) @ handle_bytes (ft_index f) @ pad"
  let ?lo = "ucast (kTableMagicNumber AND 0xffffffff) :: u32" and ?hi = "ucast (drop_bit 32 kTableMagicNumber) :: u32"
  have e: "Footer_EncodeTo [] f @ rest = ?b @ word_le 4 ?lo @ word_le 4 ?hi @ rest"
    by (simp add: Footer_EncodeTo_eq p(1))
  have "drop 40 (?b @ word_le 4 ?lo @ word_le 4 ?hi @ rest) = word_le 4 ?lo @ word_le 4 ?hi @ rest"
    using p(2) by (simp del: append_assoc add: append_assoc [symmetric])
  moreover have "push_bit 32 (ucast ?hi :: u64) OR ucast ?lo = kTableMagicNumber"
    by (simp add: kTableMagicNumber_def)
  ultimately show ?thesis
    unfolding e Footer_DecodeFrom_def
    by (simp add: kEncodedLength_def kMaxEncodedLength_def DecodeFixed_hit Handle_DecodeFrom_put Status_ok_def)
qed

section \<open>Blocks with their trailer\<close>

definition raw_block :: "bytes \<Rightarrow> u8 \<Rightarrow> bytes" where
  "raw_block c t = c @ [t] @ word_le 4 (Mask (crc32c 0 (c @ [t])))"

lemma length_raw_block [simp]: "length (raw_block c t) = length c + 5"
  by (simp add: raw_block_def)

lemma size_words:
  assumes "n + 5 < 2 ^ 64"
  shows "unat (of_nat n :: u64) = n" "unat (of_nat n + 1 :: u64) = n + 1"
    "of_nat n + kBlockTrailerSize = (of_nat (n + 5) :: u64)"
  using assms by (simp_all add: unat_of_nat unat_word_ariths kBlockTrailerSize_def)

lemma ReadBlock_raw:
  assumes "read offs (of_nat (length c + 5)) = (OK, raw_block c 0, scratch)" and "length c + 5 < 2 ^ 64"
  shows "ReadBlock sn read v \<lparr>bh_offset = offs, bh_size = of_nat (length c)\<rparr> =
    Some (OK, \<lparr>bc_data = c, bc_cachable = scratch, bc_heap_allocated = scratch\<rparr>)"
proof -
  have d: "drop (Suc (length c)) (raw_block c 0) = word_le 4 (Mask (crc32c 0 (c @ [0]))) @ []"
    and r: "rds (raw_block c 0) 0 (Suc (length c)) = Some (c @ [0])" "rds (raw_block c 0) 0 (length c) = Some c"
    and t: "rd (raw_block c 0) (length c) = Some 0"
    by (simp_all add: raw_block_def rds_def rd_def nth_append)
  have "ReadBlock_contents sn (of_nat (length c)) (raw_block c 0) scratch =
      Some (OK, \<lparr>bc_data = c, bc_cachable = scratch, bc_heap_allocated = scratch\<rparr>)"
    using t r(2) unfolding ReadBlock_contents_def size_words(1) [OF assms(2)] by (cases scratch) simp_all
  then show ?thesis
    unfolding ReadBlock_def Let_def BlockHandle.simps size_words(3) [OF assms(2)] assms(1) size_words(1,2) [OF assms(2)]
    by (simp add: d r(1) Status_ok_def DecodeFixed_hit(1) Unmask_Mask del: append_Nil2)
qed

section \<open>Properties\<close>

text \<open>
  The footer of a table takes 48 bytes whatever its handles are, and it is read back as it was
  written, as is each handle; and the last 8 bytes decide whether a file is taken for a table: with any
  other bytes there, nothing of it is decoded.
\<close>

theorem footer_roundtrip:
  assumes "length body = 40" and "length magic = 8" and "magic \<noteq> drop 40 (Footer_EncodeTo [] f)"
  shows "length (Footer_EncodeTo [] f) = kEncodedLength \<and>
    Footer_DecodeFrom (Footer_EncodeTo [] f @ rest) new_Footer = Some (OK, f, rest) \<and>
    Handle_DecodeFrom (Handle_EncodeTo [] h @ rest) new_BlockHandle = (OK, h, rest) \<and>
    Footer_DecodeFrom (body @ magic @ rest) new_Footer =
      Some (Corruption ''not an sstable (bad magic number)'', new_Footer, body @ magic @ rest)"
proof -
  define lo hi :: u32 where "lo = le_word (take 4 magic)" and "hi = le_word (drop 4 magic)"
  then have "word_le 4 lo = take 4 magic" "word_le 4 hi = drop 4 magic"
    using assms(2) by (simp_all add: word_le_le_word_32)
  then have m: "magic = word_le 4 lo @ word_le 4 hi" by simp
  have ne: "push_bit 32 (ucast hi :: u64) OR ucast lo \<noteq> kTableMagicNumber"
  proof
    assume eq: "push_bit 32 (ucast hi :: u64) OR ucast lo = kTableMagicNumber"
    have "ucast (push_bit 32 (ucast hi :: u64) OR ucast lo) = lo"
      by (rule bit_word_eqI) (simp add: bit_simps)
    moreover have "ucast (drop_bit 32 (push_bit 32 (ucast hi :: u64) OR ucast lo)) = hi"
      by (rule bit_word_eqI) (auto simp: bit_simps dest: bit_imp_le_length)
    ultimately have "magic = word_le 4 (ucast kTableMagicNumber :: u32) @ word_le 4 (ucast (drop_bit 32 kTableMagicNumber) :: u32)"
      using m unfolding eq by metis
    moreover have "(ucast kTableMagicNumber :: u32) = ucast (kTableMagicNumber AND 0xffffffff)"
      by (simp add: kTableMagicNumber_def)
    ultimately show False using assms(3) by (simp add: footer_magic)
  qed
  have d: "DecodeFixed32 True (drop (kEncodedLength - 8) (body @ magic @ rest)) = Some lo"
    "DecodeFixed32 True (drop 4 (drop (kEncodedLength - 8) (body @ magic @ rest))) = Some hi"
    using assms(1) DecodeFixed_hit(1) by (simp_all add: m kEncodedLength_def kMaxEncodedLength_def)
  have "Footer_DecodeFrom (body @ magic @ rest) new_Footer =
      Some (Corruption ''not an sstable (bad magic number)'', new_Footer, body @ magic @ rest)"
    unfolding Footer_DecodeFrom_def Let_def d bind.bind_lunit by (rule if_P [OF ne])
  then show ?thesis
    using length_Footer_EncodeTo Footer_DecodeFrom_put Handle_DecodeFrom_put by (simp add: Handle_EncodeTo_eq)
qed

theorem footer_roundtrip_witness:
  "Footer_DecodeFrom (Footer_EncodeTo [] \<lparr>ft_metaindex = \<lparr>bh_offset = 7, bh_size = 1\<rparr>, ft_index = \<lparr>bh_offset = 300, bh_size = 2\<rparr>\<rparr> @ [1]) new_Footer =
    Some (OK, \<lparr>ft_metaindex = \<lparr>bh_offset = 7, bh_size = 1\<rparr>, ft_index = \<lparr>bh_offset = 300, bh_size = 2\<rparr>\<rparr>, [1])"
proof -
  let ?f = "\<lparr>ft_metaindex = \<lparr>bh_offset = 7, bh_size = 1\<rparr>, ft_index = \<lparr>bh_offset = 300, bh_size = 2\<rparr>\<rparr>"
  have "hd (drop 40 (Footer_EncodeTo [] ?f)) = 0x57" unfolding footer_magic by (simp add: word_le_4 kTableMagicNumber_def)
  moreover have "hd (replicate 8 0) = (0 :: u8)" by simp
  moreover have "(0x57 :: u8) \<noteq> 0" by simp
  ultimately have "replicate 8 0 \<noteq> drop 40 (Footer_EncodeTo [] ?f)" by metis
  from footer_roundtrip [of "replicate 40 0", OF _ _ this] show ?thesis by simp
qed

text \<open>
  C34: With the checksums verified, reading a block of at most 2 ^ 64 - 6 bytes never reads behind what
  the file returned; it succeeds only when all bytes were there and the stored checksum is that of
  the contents and the type; and what it returns for an uncompressed block are exactly the contents.
\<close>

theorem ReadBlock_checked:
  assumes "unat (bh_size h) + 5 < 2 ^ 64" and "read (bh_offset h) (bh_size h + 5) = (st, contents, scratch)" and "length contents < 2 ^ 64"
  shows "\<exists>s bc. ReadBlock sn read True h = Some (s, bc) \<and>
    (Status_ok s \<longrightarrow> Status_ok st \<and> length contents = unat (bh_size h) + 5 \<and>
      (\<exists>crc. DecodeFixed32 True (drop (unat (bh_size h) + 1) contents) = Some crc \<and>
        Unmask crc = crc32c 0 (take (unat (bh_size h) + 1) contents)) \<and>
      (contents ! unat (bh_size h) = 0 \<longrightarrow> bc_data bc = take (unat (bh_size h)) contents))"
proof -
  let ?n = "unat (bh_size h)"
  have n: "bh_size h + kBlockTrailerSize = of_nat (?n + 5)" "unat (bh_size h + 1) = ?n + 1"
    using size_words [of ?n] assms(1) by (simp_all add: kBlockTrailerSize_def)
  have eq: "(of_nat (length contents) :: u64) = of_nat (?n + 5) \<longleftrightarrow> length contents = ?n + 5"
    using assms(1,3) by (simp add: word_unat_eq_iff unat_of_nat del: of_nat_add)
  show ?thesis
  proof (cases "Status_ok st \<and> length contents = ?n + 5")
    case False
    then have "(of_nat (length contents) :: u64) \<noteq> bh_size h + kBlockTrailerSize" if "Status_ok st"
      using that eq n(1) by simp
    moreover have "\<not> Status_ok (Corruption ''truncated block read'')" by (simp add: Status_ok_def)
    ultimately show ?thesis using assms(2) by (cases "Status_ok st") (simp_all add: ReadBlock_def kBlockTrailerSize_def)
  next
    case True
    then have l: "length contents = ?n + 5" by simp
    then have r: "rds contents 0 (?n + 1) = Some (take (?n + 1) contents)" "rds contents 0 ?n = Some (take ?n contents)"
      "rd contents ?n = Some (contents ! ?n)" by (simp_all add: rds_def rd_def)
    obtain crc where crc: "DecodeFixed32 True (drop (?n + 1) contents) = Some crc"
      using l by (simp add: DecodeFixed32_eq rds_def)
    have "\<exists>s bc. ReadBlock_contents sn (bh_size h) contents scratch = Some (s, bc) \<and>
        (contents ! ?n = 0 \<longrightarrow> bc_data bc = take ?n contents)"
      using r by (auto simp: ReadBlock_contents_def split: option.splits)
    then obtain s bc where s: "ReadBlock_contents sn (bh_size h) contents scratch = Some (s, bc)"
      "contents ! ?n = 0 \<longrightarrow> bc_data bc = take ?n contents" by blast
    have nc: "\<not> Status_ok (Corruption ''block checksum mismatch'')" by (simp add: Status_ok_def)
    show ?thesis
      using True s crc r(1) assms(2) unfolding ReadBlock_def Let_def n(2)
      by (cases "crc32c 0 (take (?n + 1) contents) = Unmask crc")
        (simp_all add: kBlockTrailerSize_def l nc)
  qed
qed

theorem ReadBlock_checked_witness:
  "\<exists>s bc. ReadBlock \<lparr>sn_length = \<lambda>_. None, sn_uncompress = \<lambda>_. None\<rparr> (\<lambda>offs n. (OK, [1, 2, 0, 0, 0, 0, 0], True)) True \<lparr>bh_offset = 0, bh_size = 2\<rparr> = Some (s, bc) \<and>
    (Status_ok s \<longrightarrow> bc_data bc = [1, 2])"
  using ReadBlock_checked [of "\<lparr>bh_offset = 0, bh_size = 2\<rparr>" "\<lambda>offs n. (OK, [1, 2, 0, 0, 0, 0, 0], True)" OK "[1, 2, 0, 0, 0, 0, 0]" True "\<lparr>sn_length = \<lambda>_. None, sn_uncompress = \<lambda>_. None\<rparr>"]
  by auto

text \<open>
  C35: The size of a block is taken from the file and the size of its trailer is added in 64 bits. A handle
  whose size is from 2 ^ 64 - 5 to 2 ^ 64 - 2 can be stored (it keeps the assertions of \<^verbatim>\<open>EncodeTo\<close>) and
  is read back. The sum then wraps, so that the few bytes that the file returns have the length that
  was asked for, and what is read next lies behind them: the stored checksum when checksums are
  verified, the type of the block when they are not.
\<close>

theorem ReadBlock_size_overflow:
  assumes "2 ^ 64 \<le> unat (bh_size h) + 5" and "bh_size h \<noteq> NOT 0" and "bh_offset h \<noteq> NOT 0"
    and "\<And>offs n. \<exists>contents. read offs n = (OK, contents, scratch) \<and> length contents = unat n"
  shows "Handle_DecodeFrom (Handle_EncodeTo [] h) new_BlockHandle = (OK, h, []) \<and> ReadBlock sn read verify h = None"
proof -
  let ?n = "bh_size h + kBlockTrailerSize"
  obtain contents where c: "read (bh_offset h) ?n = (OK, contents, scratch)" "length contents = unat ?n" using assms(4) by blast
  have top: "unat (bh_size h) \<noteq> 2 ^ 64 - 1"
  proof
    assume "unat (bh_size h) = 2 ^ 64 - 1"
    then have "bh_size h = NOT 0" by (intro unsigned_word_eqI [where 'a = nat]) (simp add: unsigned_minus_1_eq_mask mask_eq_exp_minus_1)
    with assms(2) show False ..
  qed
  have n: "unat ?n < unat (bh_size h)" "unat ?n \<le> 3" "unat (bh_size h + 1) = unat (bh_size h) + 1"
    using assms(1) top unsigned_less [of "bh_size h", where 'a = nat] by (simp_all add: kBlockTrailerSize_def unat_word_ariths le_mod_geq)
  then have "rd contents (unat (bh_size h)) = None" using c(2) by (simp add: rd_def)
  moreover have "DecodeFixed32 True (drop (unat (bh_size h + 1)) contents) = None"
    using c(2) n by (simp add: DecodeFixed32_eq rds_def)
  ultimately show ?thesis
    using c Handle_DecodeFrom_put [of h "[]"] by (simp add: ReadBlock_def ReadBlock_contents_def Handle_EncodeTo_eq Status_ok_def Let_def)
qed

theorem ReadBlock_size_overflow_witness:
  "ReadBlock \<lparr>sn_length = \<lambda>_. None, sn_uncompress = \<lambda>_. None\<rparr> (\<lambda>offs n. (OK, replicate (unat n) 0, True)) True \<lparr>bh_offset = 0, bh_size = 0xfffffffffffffffe\<rparr> = None"
  using ReadBlock_size_overflow [of "\<lparr>bh_offset = 0, bh_size = 0xfffffffffffffffe\<rparr>" "\<lambda>offs n. (OK, replicate (unat n) 0, True)" True "\<lparr>sn_length = \<lambda>_. None, sn_uncompress = \<lambda>_. None\<rparr>" True]
  by simp

end
