(* ===== verification/Ldb_Filter.thy ===== *)
theory Ldb_Filter
  imports Ldb_Keys
begin

text \<open>
  The filters of LevelDB: the hash function (\<^verbatim>\<open>util/hash.cc\<close>), the Bloom filter policy
  (\<^verbatim>\<open>util/bloom.cc\<close>), its wrapper for internal keys (\<^verbatim>\<open>db/dbformat.cc\<close>) and the filter block of a
  table (\<^verbatim>\<open>table/filter_block.cc\<close>). What a policy promises (\<^verbatim>\<open>filter_policy.h\<close>: a key that was
  added is always matched) is a locale; the filter block is proved correct under it and the two
  policies of the code are its instances.
\<close>

section \<open>The hash function\<close>

text \<open>The loop takes four bytes at a time; the cases of the switch fall through to the shorter ones.\<close>

fun Hash_loop :: "u32 \<Rightarrow> bytes \<Rightarrow> u32" where
  "Hash_loop h (a # b # c # d # data) =
     (let h = h + le_word [a, b, c, d]; h = h * 0xc6a4a793 in Hash_loop (h XOR drop_bit 16 h) data)"
| "Hash_loop h [a, b, c] =
     (let h = h + push_bit 16 (ucast c) + push_bit 8 (ucast b) + ucast a; h = h * 0xc6a4a793 in h XOR drop_bit 24 h)"
| "Hash_loop h [a, b] =
     (let h = h + push_bit 8 (ucast b) + ucast a; h = h * 0xc6a4a793 in h XOR drop_bit 24 h)"
| "Hash_loop h [a] = (let h = h + ucast a; h = h * 0xc6a4a793 in h XOR drop_bit 24 h)"
| "Hash_loop h [] = h"

definition Hash :: "bytes \<Rightarrow> u32 \<Rightarrow> u32" where
  "Hash data seed = Hash_loop (seed XOR of_nat (length data) * 0xc6a4a793) data"

text \<open>The values that \<^verbatim>\<open>util/hash_test.cc\<close> expects.\<close>

lemma Hash_test:
  "Hash [] 0xbc9f1d34 = 0xbc9f1d34" "Hash [0x62] 0xbc9f1d34 = 0xef1345c4"
  "Hash [0xc3, 0x97] 0xbc9f1d34 = 0x5b663814" "Hash [0xe2, 0x99, 0xa5] 0xbc9f1d34 = 0x323c078f"
  "Hash [0xe1, 0x80, 0xb9, 0x32] 0xbc9f1d34 = 0xed21633a"
  by (simp_all add: Hash_def le_word_def)

section \<open>The Bloom filter\<close>

record BloomFilterPolicy =
  bits_per_key :: u64
  bloom_k :: nat

text \<open>
  The product with the floating-point constant 0.69 is cut to an integer; for a count of 0 to 43
  it is at least 0.01 away from the next integer, and from 44 on it is at least 30, the bound it is
  then cut to, so that the rounding of the product does not matter. For -1 it is cut to 0; below,
  the conversion to an unsigned type is undefined.
\<close>

definition NewBloomFilterPolicy :: "int \<Rightarrow> BloomFilterPolicy option" where
  "NewBloomFilterPolicy b =
     (if b < -1 then None
      else let k = nat (b * 69 div 100); k = (if k < 1 then 1 else k); k = (if k > 30 then 30 else k) in
        Some \<lparr>bits_per_key = of_int b, bloom_k = k\<rparr>)"

definition BloomHash :: "bytes \<Rightarrow> u32" where
  "BloomHash key = Hash key 0xbc9f1d34"

definition bloom_delta :: "u32 \<Rightarrow> u32" where
  "bloom_delta h = drop_bit 17 h OR push_bit 15 h"

text \<open>The two loops over the probes of a key; \<open>bits\<close> is a multiple of 8 and the size of the array in bits.\<close>

fun set_probes :: "nat \<Rightarrow> u64 \<Rightarrow> u32 \<Rightarrow> u32 \<Rightarrow> bytes \<Rightarrow> bytes option" where
  "set_probes 0 bits delta h array = Some array"
| "set_probes (Suc j) bits delta h array =
     (if bits = 0 then None
      else let bitpos = (ucast (ucast h mod bits) :: u32); i = unat (bitpos div 8) in do {
        b \<leftarrow> rd array i;
        set_probes j bits delta (h + delta) (array[i := b OR push_bit (unat (bitpos mod 8)) 1])
      })"

fun check_probes :: "nat \<Rightarrow> u64 \<Rightarrow> u32 \<Rightarrow> u32 \<Rightarrow> bytes \<Rightarrow> bool option" where
  "check_probes 0 bits delta h array = Some True"
| "check_probes (Suc j) bits delta h array =
     (let bitpos = (ucast (ucast h mod bits) :: u32); i = unat (bitpos div 8) in do {
        b \<leftarrow> rd array i;
        if b AND push_bit (unat (bitpos mod 8)) 1 = 0 then Some False
        else check_probes j bits delta (h + delta) array
      })"

fun set_keys :: "nat \<Rightarrow> u64 \<Rightarrow> bytes list \<Rightarrow> bytes \<Rightarrow> bytes option" where
  "set_keys k bits [] array = Some array"
| "set_keys k bits (key # keys) array = do {
     let h = BloomHash key;
     array \<leftarrow> set_probes k bits (bloom_delta h) h array;
     set_keys k bits keys array
   }"

text \<open>
  \<open>None\<close> is a division by zero, which a wrapped size would give. The number of keys is an
  \<^verbatim>\<open>int\<close>, so the list has fewer than 2 ^ 31 of them.
\<close>

definition Bloom_CreateFilter :: "BloomFilterPolicy \<Rightarrow> bytes list \<Rightarrow> bytes \<Rightarrow> bytes option" where
  "Bloom_CreateFilter p keys dst = do {
     let bits = of_nat (length keys) * bits_per_key p;
     let bits = (if bits < 64 then 64 else bits);
     let bytes = (bits + 7) div 8;
     let bits = bytes * 8;
     array \<leftarrow> set_keys (bloom_k p) bits keys (replicate (unat bytes) 0);
     Some (dst @ array @ [of_nat (bloom_k p)])
   }"

text \<open>The number of probes is a signed character: from 128 on it is a huge unsigned number.\<close>

definition Bloom_KeyMayMatch :: "bytes \<Rightarrow> bytes \<Rightarrow> bool option" where
  "Bloom_KeyMayMatch key bloom_filter =
     (let len = length bloom_filter in
      if len < 2 then Some False
      else let bits = of_nat (len - 1) * 8; k = (scast (bloom_filter ! (len - 1)) :: u64) in
        if k > 30 then Some True
        else let h = BloomHash key in check_probes (unat k) bits (bloom_delta h) h bloom_filter)"

text \<open>The wrapper of the database: filters are built from and asked for user keys.\<close>

definition InternalFilter_CreateFilter ::
    "(bytes list \<Rightarrow> bytes \<Rightarrow> bytes option) \<Rightarrow> bytes list \<Rightarrow> bytes \<Rightarrow> bytes option" where
  "InternalFilter_CreateFilter user_create keys dst = user_create (map ExtractUserKey keys) dst"

definition InternalFilter_KeyMayMatch :: "(bytes \<Rightarrow> bytes \<Rightarrow> bool option) \<Rightarrow> bytes \<Rightarrow> bytes \<Rightarrow> bool option" where
  "InternalFilter_KeyMayMatch user_match key f = user_match (ExtractUserKey key) f"

section \<open>The filter block\<close>

definition kFilterBaseLg :: nat where "kFilterBaseLg = 11"
definition kFilterBase :: u64 where "kFilterBase = push_bit kFilterBaseLg 1"

record FilterBlockBuilder =
  fb_keys :: bytes
  fb_start :: "nat list"
  fb_result :: bytes
  fb_filter_offsets :: "u32 list"

definition new_FilterBlockBuilder :: FilterBlockBuilder where
  "new_FilterBlockBuilder = \<lparr>fb_keys = [], fb_start = [], fb_result = [], fb_filter_offsets = []\<rparr>"

text \<open>\<open>create\<close> is the \<^verbatim>\<open>CreateFilter\<close> of the policy.\<close>

definition GenerateFilter ::
    "(bytes list \<Rightarrow> bytes \<Rightarrow> bytes option) \<Rightarrow> FilterBlockBuilder \<Rightarrow> FilterBlockBuilder option" where
  "GenerateFilter create b =
     (let num_keys = length (fb_start b) in
      if num_keys = 0
      then Some (b\<lparr>fb_filter_offsets := fb_filter_offsets b @ [of_nat (length (fb_result b))]\<rparr>)
      else do {
        let start = fb_start b @ [length (fb_keys b)];
        let tmp_keys = map (\<lambda>i. take (start ! (i + 1) - start ! i) (drop (start ! i) (fb_keys b))) [0..<num_keys];
        r \<leftarrow> create tmp_keys (fb_result b);
        Some \<lparr>fb_keys = [], fb_start = [], fb_result = r,
              fb_filter_offsets = fb_filter_offsets b @ [of_nat (length (fb_result b))]\<rparr>
      })"

fun generate_upto :: "(bytes list \<Rightarrow> bytes \<Rightarrow> bytes option) \<Rightarrow> nat \<Rightarrow> FilterBlockBuilder \<Rightarrow> FilterBlockBuilder option" where
  "generate_upto create 0 b = Some b"
| "generate_upto create (Suc n) b = do { b \<leftarrow> GenerateFilter create b; generate_upto create n b }"

text \<open>
  Every filter adds one offset, so the loop that generates filters while \<open>filter_index\<close> is larger
  than the number of offsets runs as often as the difference says.
\<close>

definition StartBlock ::
    "(bytes list \<Rightarrow> bytes \<Rightarrow> bytes option) \<Rightarrow> u64 \<Rightarrow> FilterBlockBuilder \<Rightarrow> FilterBlockBuilder option" where
  "StartBlock create block_offset b =
     (let filter_index = unat (block_offset div kFilterBase) in
      generate_upto create (filter_index - length (fb_filter_offsets b)) b)"

definition AddKey :: "bytes \<Rightarrow> FilterBlockBuilder \<Rightarrow> FilterBlockBuilder" where
  "AddKey k b = b\<lparr>fb_start := fb_start b @ [length (fb_keys b)], fb_keys := fb_keys b @ k\<rparr>"

definition FilterBlock_Finish ::
    "(bytes list \<Rightarrow> bytes \<Rightarrow> bytes option) \<Rightarrow> FilterBlockBuilder \<Rightarrow> bytes option" where
  "FilterBlock_Finish create b = do {
     b \<leftarrow> (if fb_start b \<noteq> [] then GenerateFilter create b else Some b);
     let array_offset = of_nat (length (fb_result b));
     let result = foldl PutFixed32 (fb_result b) (fb_filter_offsets b);
     let result = PutFixed32 result array_offset;
     Some (result @ [of_nat kFilterBaseLg])
   }"

text \<open>
  The pointers \<^verbatim>\<open>data_\<close> and \<^verbatim>\<open>offset_\<close> are the contents and an offset into them; for contents that are
  too short or inconsistent there are no filters.
\<close>

record FilterBlockReader =
  fr_data :: bytes
  fr_offset :: nat
  fr_num :: nat
  fr_base_lg :: nat

definition mk_FilterBlockReader :: "bytes \<Rightarrow> FilterBlockReader option" where
  "mk_FilterBlockReader contents =
     (let n = length contents in
      if n < 5 then Some \<lparr>fr_data = [], fr_offset = 0, fr_num = 0, fr_base_lg = 0\<rparr>
      else do {
        let base_lg = unat (scast (contents ! (n - 1)) :: u64);
        last_word \<leftarrow> DecodeFixed32 True (drop (n - 5) contents);
        if unat last_word > n - 5 then Some \<lparr>fr_data = [], fr_offset = 0, fr_num = 0, fr_base_lg = base_lg\<rparr>
        else Some \<lparr>fr_data = contents, fr_offset = unat last_word,
                   fr_num = (n - 5 - unat last_word) div 4, fr_base_lg = base_lg\<rparr>
      })"

text \<open>A shift by 64 or more is undefined.\<close>

definition Filter_KeyMayMatch ::
    "(bytes \<Rightarrow> bytes \<Rightarrow> bool option) \<Rightarrow> FilterBlockReader \<Rightarrow> u64 \<Rightarrow> bytes \<Rightarrow> bool option" where
  "Filter_KeyMayMatch may_match r block_offset key =
     (if fr_base_lg r \<ge> 64 then None
      else let index = unat (drop_bit (fr_base_lg r) block_offset) in
        if index < fr_num r then do {
          start \<leftarrow> DecodeFixed32 True (drop (fr_offset r + index * 4) (fr_data r));
          limit \<leftarrow> DecodeFixed32 True (drop (fr_offset r + index * 4 + 4) (fr_data r));
          if start \<le> limit \<and> unat limit \<le> fr_offset r
          then may_match key (take (unat (limit - start)) (drop (unat start) (fr_data r)))
          else if start = limit then Some False
          else Some True
        }
        else Some True)"

section \<open>Bits of an array\<close>

definition bit_at :: "bytes \<Rightarrow> nat \<Rightarrow> bool" where
  "bit_at array n = bit (array ! (n div 8)) (n mod 8)"

text \<open>The positions that the loops visit.\<close>

fun probe :: "u64 \<Rightarrow> u32 \<Rightarrow> u32 \<Rightarrow> nat \<Rightarrow> nat" where
  "probe bits delta h 0 = unat h mod unat bits"
| "probe bits delta h (Suc j) = probe bits delta (h + delta) j"

lemma bitpos_nat:
  fixes h :: u32 and bits :: u64
  defines "bitpos \<equiv> ucast (ucast h mod bits) :: u32"
  assumes "bits \<noteq> 0"
  shows "unat bitpos = unat h mod unat bits" and "unat (bitpos div 8) = unat h mod unat bits div 8"
    and "unat (bitpos mod 8) = unat h mod unat bits mod 8"
proof -
  have "unat (ucast h mod bits) = unat h mod unat bits" by (simp add: unat_mod unat_bits)
  moreover have "unat h mod unat bits < 2 ^ 32"
    using le_less_trans [OF mod_less_eq_dividend unsigned_less [of h, where 'a = nat]] by simp
  ultimately show *: "unat bitpos = unat h mod unat bits"
    by (simp add: bitpos_def unsigned_ucast_eq take_bit_nat_eq_self)
  show "unat (bitpos div 8) = unat h mod unat bits div 8" "unat (bitpos mod 8) = unat h mod unat bits mod 8"
    unfolding unat_div unat_mod * by simp_all
qed

lemma probe_less: "bits \<noteq> 0 \<Longrightarrow> probe bits delta h j < unat bits"
  by (induction j arbitrary: h) (auto simp: unat_gt_0)

lemma bit_at_set:
  assumes "n div 8 < length array"
  shows "bit_at (array[n div 8 := array ! (n div 8) OR push_bit (n mod 8) 1]) m \<longleftrightarrow> bit_at array m \<or> m = n"
proof (cases "m div 8 = n div 8")
  case True
  then have "m = n \<longleftrightarrow> m mod 8 = n mod 8" by (metis div_mult_mod_eq)
  with True assms show ?thesis
    by (auto simp: bit_at_def bit_or_iff bit_exp_iff)
qed (use assms in \<open>auto simp: bit_at_def nth_list_update\<close>)

lemma set_probes_bits:
  assumes "unat bits = 8 * length array" and "bits \<noteq> 0"
  shows "\<exists>array'. set_probes k bits delta h array = Some array' \<and> length array' = length array \<and>
    (\<forall>m. bit_at array' m \<longleftrightarrow> bit_at array m \<or> (\<exists>j < k. m = probe bits delta h j))"
  using assms(1)
proof (induction k arbitrary: h array)
  case (Suc k)
  let ?n = "unat h mod unat bits"
  let ?a = "array[?n div 8 := array ! (?n div 8) OR push_bit (?n mod 8) 1]"
  have "?n < unat bits" using assms(2) by (simp add: unat_gt_0)
  then have n: "?n div 8 < length array" using Suc.prems by (simp add: div_less_iff_less_mult)
  obtain a' where a': "set_probes k bits delta (h + delta) ?a = Some a'" "length a' = length array"
      "\<forall>m. bit_at a' m \<longleftrightarrow> bit_at ?a m \<or> (\<exists>j < k. m = probe bits delta (h + delta) j)"
    using Suc.IH [of ?a "h + delta"] Suc.prems by auto
  have "(\<exists>j < Suc k. m = probe bits delta h j) \<longleftrightarrow> m = ?n \<or> (\<exists>j < k. m = probe bits delta (h + delta) j)" for m
    by (auto simp: less_Suc_eq_0_disj)
  moreover have "set_probes (Suc k) bits delta h array = Some a'"
    using assms(2) n a'(1) by (simp add: Let_def bitpos_nat rd_def)
  ultimately show ?case using a'(2,3) bit_at_set [OF n] by auto
qed simp

lemma check_probes_bits:
  assumes "bits \<noteq> 0" and "unat bits div 8 < length array \<or> unat bits \<le> 8 * length array"
  shows "check_probes k bits delta h array = Some (\<forall>j < k. bit_at array (probe bits delta h j))"
proof (induction k arbitrary: h)
  case (Suc k)
  let ?n = "unat h mod unat bits"
  have "?n < unat bits" using assms(1) by (simp add: unat_gt_0)
  then have n: "?n div 8 < length array" using assms(2) by auto
  have "(\<forall>j < Suc k. bit_at array (probe bits delta h j)) \<longleftrightarrow>
      bit_at array ?n \<and> (\<forall>j < k. bit_at array (probe bits delta (h + delta) j))"
    by (auto simp: less_Suc_eq_0_disj)
  then show ?case using assms(1) n Suc.IH
    by (simp add: Let_def bitpos_nat rd_def and_exp_eq_0_iff_not_bit bit_at_def)
qed simp

lemma set_keys_bits:
  assumes "unat bits = 8 * length array" and "bits \<noteq> 0"
  shows "\<exists>array'. set_keys k bits keys array = Some array' \<and> length array' = length array \<and>
    (\<forall>m. bit_at array' m \<longleftrightarrow>
      bit_at array m \<or> (\<exists>key \<in> set keys. \<exists>j < k. m = probe bits (bloom_delta (BloomHash key)) (BloomHash key) j))"
  using assms(1)
proof (induction keys arbitrary: array)
  case (Cons key keys)
  obtain a where a: "set_probes k bits (bloom_delta (BloomHash key)) (BloomHash key) array = Some a"
      "length a = length array"
      "\<forall>m. bit_at a m \<longleftrightarrow> bit_at array m \<or> (\<exists>j < k. m = probe bits (bloom_delta (BloomHash key)) (BloomHash key) j)"
    using set_probes_bits [OF Cons.prems assms(2)] by blast
  with Cons.prems Cons.IH [of a] show ?case by (auto simp: Let_def)
qed simp

lemma check_probes_append:
  assumes "bits \<noteq> 0" and "unat bits = 8 * length array"
  shows "check_probes k bits delta h (array @ rest) = Some (\<forall>j < k. bit_at array (probe bits delta h j))"
proof -
  have "bit_at (array @ rest) (probe bits delta h j) = bit_at array (probe bits delta h j)" for j
    using probe_less [OF assms(1), of delta h j] assms(2)
    by (simp add: bit_at_def nth_append div_less_iff_less_mult mult.commute)
  then show ?thesis using assms by (simp add: check_probes_bits)
qed

section \<open>What a policy promises\<close>

text \<open>
  A filter is appended to the destination, and every key it was built from matches it.
  \<open>ok\<close> says which lists of keys a policy accepts.
\<close>

locale filter_policy =
  fixes ok :: "bytes list \<Rightarrow> bool" and create :: "bytes list \<Rightarrow> bytes \<Rightarrow> bytes option"
    and may_match :: "bytes \<Rightarrow> bytes \<Rightarrow> bool option"
  assumes create_matches:
      "ok keys \<Longrightarrow> \<exists>f. create keys dst = Some (dst @ f) \<and> (\<forall>key \<in> set keys. may_match key f = Some True)"
    and ok_part: "ok (xs @ ys @ zs) \<Longrightarrow> ok ys"

text \<open>The Bloom filter, with a sane number of bits per key.\<close>

definition bloom_ok :: "BloomFilterPolicy \<Rightarrow> bytes list \<Rightarrow> bool" where
  "bloom_ok p keys \<longleftrightarrow> unat (bits_per_key p) < 2 ^ 31 \<and> bloom_k p \<le> 30 \<and> length keys < 2 ^ 31"

lemma NewBloomFilterPolicy_ok:
  "0 \<le> b \<Longrightarrow> b < 2 ^ 31 \<Longrightarrow> \<exists>p. NewBloomFilterPolicy b = Some p \<and> bloom_ok p [] \<and> 1 \<le> bloom_k p"
  by (auto simp: NewBloomFilterPolicy_def bloom_ok_def Let_def unsigned_of_int take_bit_int_eq_self nat_less_iff)

lemma Bloom_create_matches:
  assumes "bloom_ok p keys"
  shows "\<exists>f. Bloom_CreateFilter p keys dst = Some (dst @ f) \<and> (\<forall>key \<in> set keys. Bloom_KeyMayMatch key f = Some True)"
proof -
  define bits0 :: u64 where "bits0 = of_nat (length keys) * bits_per_key p"
  define bits1 where "bits1 = (if bits0 < 64 then 64 else bits0)"
  define bytes where "bytes = (bits1 + 7) div 8"
  have "length keys * unat (bits_per_key p) < 2 ^ 31 * 2 ^ 31"
    using assms by (intro mult_strict_mono) (auto simp: bloom_ok_def)
  then have b0: "unat bits0 = length keys * unat (bits_per_key p)" "unat bits0 < 2 ^ 62"
    using assms by (auto simp: bits0_def unat_word_ariths unat_of_nat bloom_ok_def)
  then have b1: "64 \<le> unat bits1" "unat bits1 < 2 ^ 62"
    by (auto simp: bits1_def word_less_nat_alt)
  then have b: "unat bytes = (unat bits1 + 7) div 8"
    by (simp add: bytes_def unat_div unat_word_ariths)
  then have n: "8 \<le> unat bytes" "unat bytes < 2 ^ 60" using b1 by auto
  then have bits: "unat (bytes * 8) = 8 * unat bytes" "bytes * 8 \<noteq> 0"
    by (auto simp: unat_word_ariths word_unat_eq_iff)
  obtain a where a: "set_keys (bloom_k p) (bytes * 8) keys (replicate (unat bytes) 0) = Some a"
      "length a = unat bytes"
      "\<forall>m. bit_at a m \<longleftrightarrow> bit_at (replicate (unat bytes) 0) m \<or>
        (\<exists>key \<in> set keys. \<exists>j < bloom_k p. m = probe (bytes * 8) (bloom_delta (BloomHash key)) (BloomHash key) j)"
    using set_keys_bits [of "bytes * 8" "replicate (unat bytes) 0" "bloom_k p" keys] bits by auto
  have "Bloom_CreateFilter p keys dst = Some (dst @ a @ [of_nat (bloom_k p)])"
    using a(1) unfolding Bloom_CreateFilter_def Let_def bits0_def [symmetric] bits1_def [symmetric] bytes_def [symmetric]
    by simp
  moreover have "Bloom_KeyMayMatch key (a @ [of_nat (bloom_k p)]) = Some True" if "key \<in> set keys" for key
  proof -
    have k: "bloom_k p \<le> 30" using assms by (simp add: bloom_ok_def)
    then have "sint (of_nat (bloom_k p) :: u8) = int (bloom_k p)" by (simp add: signed_of_nat signed_take_bit_int_eq_self)
    then have "unat (scast (of_nat (bloom_k p) :: u8) :: u64) = bloom_k p"
      using k by (simp add: scast_eq unat_of_nat)
    moreover have "of_nat (unat bytes) * 8 = bytes * 8" by simp
    ultimately show ?thesis
      using k n a(2,3) that bits check_probes_append [of "bytes * 8" a] 
      by (auto simp: Bloom_KeyMayMatch_def Let_def word_less_nat_alt nth_append)
  qed
  ultimately show ?thesis by blast
qed

interpretation bloom: filter_policy "bloom_ok p" "Bloom_CreateFilter p" Bloom_KeyMayMatch for p
  by unfold_locales (auto simp: Bloom_create_matches, auto simp: bloom_ok_def)

section \<open>The filter block is correct for every policy\<close>

text \<open>The offsets at which the parts of a concatenation start.\<close>

definition starts :: "'a list list \<Rightarrow> nat list" where
  "starts xs = map (\<lambda>i. length (concat (take i xs))) [0..<length xs]"

lemma starts_snoc: "starts (xs @ [x]) = starts xs @ [length (concat xs)]"
  by (simp add: starts_def)

lemma length_starts [simp]: "length (starts xs) = length xs"
  by (simp add: starts_def)

lemma starts_nth: "i \<le> length xs \<Longrightarrow> (starts xs @ [length (concat xs)]) ! i = length (concat (take i xs))"
  by (auto simp: starts_def nth_append)

lemma concat_part:
  assumes "i < length xs"
  shows "take (length (concat (take (Suc i) xs)) - length (concat (take i xs))) (drop (length (concat (take i xs))) (concat xs @ r)) = xs ! i"
proof -
  have "concat xs = concat (take i xs) @ xs ! i @ concat (drop (Suc i) xs)"
    using assms by (metis concat.simps(2) concat_append id_take_nth_drop)
  then show ?thesis using assms by (simp add: take_Suc_conv_app_nth)
qed

lemma length_concat_take: "length (concat (take i xs)) \<le> length (concat xs)"
  by (metis append_take_drop_id concat_append le_add1 length_append)

lemma length_concat_take_Suc:
  "i < length xs \<Longrightarrow> length (concat (take (Suc i) xs)) = length (concat (take i xs)) + length (xs ! i)"
  by (simp add: take_Suc_conv_app_nth)

text \<open>
  The builder holds the filters \<open>fs\<close> for the lists of keys \<open>gens\<close> and the keys \<open>cur\<close> that wait for
  the next filter.
\<close>

definition fb_rep :: "(bytes list \<Rightarrow> bytes \<Rightarrow> bool) \<Rightarrow> FilterBlockBuilder \<Rightarrow> bytes list list \<Rightarrow> bytes list \<Rightarrow> bool" where
  "fb_rep good b gens cur \<longleftrightarrow> (\<exists>fs. list_all2 good gens fs \<and> fb_result b = concat fs \<and>
     fb_filter_offsets b = map of_nat (starts fs) \<and> fb_keys b = concat cur \<and> fb_start b = starts cur)"

lemma fb_rep_new: "fb_rep good new_FilterBlockBuilder [] []"
  by (simp add: fb_rep_def new_FilterBlockBuilder_def starts_def)

lemma fb_rep_AddKey: "fb_rep good b gens cur \<Longrightarrow> fb_rep good (AddKey k b) gens (cur @ [k])"
  by (auto simp: fb_rep_def AddKey_def starts_snoc)

lemma fb_rep_AddKeys: "fb_rep good b gens cur \<Longrightarrow> fb_rep good (fold AddKey ks b) gens (cur @ ks)"
proof (induction ks arbitrary: b cur)
  case (Cons k ks)
  then show ?case using Cons.IH [OF fb_rep_AddKey [OF Cons.prems], of k] by simp
qed simp

lemma fb_rep_length: "fb_rep good b gens cur \<Longrightarrow> length (fb_filter_offsets b) = length gens"
  by (auto simp: fb_rep_def dest: list_all2_lengthD)

lemma pending_keys:
  "map (\<lambda>i. take ((starts cur @ [length (concat cur)]) ! (i + 1) - (starts cur @ [length (concat cur)]) ! i)
      (drop ((starts cur @ [length (concat cur)]) ! i) (concat cur))) [0..<length cur] = cur"
  by (rule nth_equalityI) (use concat_part [where r = "[]"] in \<open>simp_all add: starts_nth\<close>)

text \<open>A use of the builder: \<^verbatim>\<open>(StartBlock AddKey*)* Finish\<close>.\<close>

fun add_blocks ::
    "(bytes list \<Rightarrow> bytes \<Rightarrow> bytes option) \<Rightarrow> (u64 \<times> bytes list) list \<Rightarrow> FilterBlockBuilder \<Rightarrow> FilterBlockBuilder option" where
  "add_blocks create [] b = Some b"
| "add_blocks create ((off, keys) # blocks) b = do {
     b \<leftarrow> StartBlock create off b;
     add_blocks create blocks (fold AddKey keys b)
   }"

definition build_filters ::
    "(bytes list \<Rightarrow> bytes \<Rightarrow> bytes option) \<Rightarrow> (u64 \<times> bytes list) list \<Rightarrow> bytes option" where
  "build_filters create blocks = do {
     b \<leftarrow> add_blocks create blocks new_FilterBlockBuilder;
     FilterBlock_Finish create b
   }"

definition filter_index :: "u64 \<Rightarrow> nat" where
  "filter_index off = unat off div 2048"

lemma filter_index_base: "unat (off div kFilterBase) = filter_index off"
  by (simp add: filter_index_def kFilterBase_def kFilterBaseLg_def unat_div)

text \<open>Which filter has which keys.\<close>

definition gen_at :: "bytes list list \<Rightarrow> bytes list \<Rightarrow> nat \<Rightarrow> bytes list" where
  "gen_at gens cur i = (if i < length gens then gens ! i else if i = length gens then cur else [])"

lemma gen_at_mono: "set (gen_at gens cur i) \<subseteq> set (gen_at gens (cur @ ks) i)"
  by (auto simp: gen_at_def)

lemma gen_at_snoc: "set (gen_at gens cur i) = set (gen_at (gens @ [cur]) [] i)"
  by (auto simp: gen_at_def nth_append less_Suc_eq)

context filter_policy
begin

definition good :: "bytes list \<Rightarrow> bytes \<Rightarrow> bool" where
  "good keys f \<longleftrightarrow> (\<forall>key \<in> set keys. may_match key f = Some True)"

lemma GenerateFilter_rep:
  assumes "fb_rep good b gens cur" and "ok cur"
  shows "\<exists>b'. GenerateFilter create b = Some b' \<and> fb_rep good b' (gens @ [cur]) []"
proof -
  obtain fs where fs: "list_all2 good gens fs" "fb_result b = concat fs" "fb_filter_offsets b = map of_nat (starts fs)"
      "fb_keys b = concat cur" "fb_start b = starts cur"
    using assms(1) by (auto simp: fb_rep_def)
  show ?thesis
  proof (cases "cur = []")
    case True
    then have "fb_rep good (b\<lparr>fb_filter_offsets := fb_filter_offsets b @ [of_nat (length (fb_result b))]\<rparr>) (gens @ [cur]) []"
      using fs by (auto simp: fb_rep_def good_def starts_snoc starts_def [of "[]"]
          intro!: exI [of _ "fs @ [[]]"] list_all2_appendI)
    with True fs show ?thesis by (simp add: GenerateFilter_def starts_def)
  next
    case False
    obtain f where f: "create cur (concat fs) = Some (concat fs @ f)" "good cur f"
      using create_matches [OF assms(2)] by (auto simp: good_def)
    have "fb_rep good \<lparr>fb_keys = [], fb_start = [], fb_result = concat fs @ f,
        fb_filter_offsets = fb_filter_offsets b @ [of_nat (length (fb_result b))]\<rparr> (gens @ [cur]) []"
      using fs f by (auto simp: fb_rep_def starts_snoc starts_def [of "[]"]
          intro!: exI [of _ "fs @ [f]"] list_all2_appendI)
    with False fs f(1) show ?thesis
      using pending_keys [of cur] by (simp add: GenerateFilter_def Let_def)
  qed
qed

lemma ok_Nil: "ok keys \<Longrightarrow> ok []"
  using ok_part [of "[]" "[]" keys] by simp

lemma generate_upto_rep:
  assumes "fb_rep good b gens cur" and "ok cur"
  shows "\<exists>b' gens' cur'. generate_upto create n b = Some b' \<and> fb_rep good b' gens' cur' \<and> length gens' = length gens + n \<and>
    concat gens' @ cur' = concat gens @ cur \<and> (\<forall>i. set (gen_at gens cur i) \<subseteq> set (gen_at gens' cur' i))"
  using assms
proof (induction n arbitrary: b gens cur)
  case (Suc n)
  obtain b1 where b1: "GenerateFilter create b = Some b1" "fb_rep good b1 (gens @ [cur]) []"
    using GenerateFilter_rep [OF Suc.prems] by blast
  obtain b' gens' cur' where "generate_upto create n b1 = Some b'" "fb_rep good b' gens' cur'"
      "length gens' = length gens + 1 + n" "concat gens' @ cur' = concat gens @ cur"
      "\<forall>i. set (gen_at (gens @ [cur]) [] i) \<subseteq> set (gen_at gens' cur' i)"
    using Suc.IH [OF b1(2) ok_Nil [OF Suc.prems(2)]] by auto
  moreover have "set (gen_at gens cur i) = set (gen_at (gens @ [cur]) [] i)" for i by (rule gen_at_snoc)
  ultimately show ?case using b1(1) by (intro exI [of _ b'] exI [of _ gens'] exI [of _ cur']) simp
qed auto

lemma StartBlock_rep:
  assumes "fb_rep good b gens cur" and "ok cur" and "length gens \<le> filter_index off"
  shows "\<exists>b' gens' cur'. StartBlock create off b = Some b' \<and> fb_rep good b' gens' cur' \<and> length gens' = filter_index off \<and>
    concat gens' @ cur' = concat gens @ cur \<and> (\<forall>i. set (gen_at gens cur i) \<subseteq> set (gen_at gens' cur' i))"
  using generate_upto_rep [OF assms(1,2), of "filter_index off - length gens"] assms(3) fb_rep_length [OF assms(1)]
  by (auto simp: StartBlock_def Let_def filter_index_base)

lemma add_blocks_rep:
  assumes "fb_rep good b gens cur" and "ok (concat gens @ cur @ concat (map snd blocks))"
    and "sorted (length gens # map (filter_index \<circ> fst) blocks)"
  shows "\<exists>b' gens' cur'. add_blocks create blocks b = Some b' \<and> fb_rep good b' gens' cur' \<and>
    concat gens' @ cur' = concat gens @ cur @ concat (map snd blocks) \<and>
    (\<forall>i. set (gen_at gens cur i) \<subseteq> set (gen_at gens' cur' i)) \<and>
    (\<forall>(off, keys) \<in> set blocks. set keys \<subseteq> set (gen_at gens' cur' (filter_index off)))"
  using assms
proof (induction blocks arbitrary: b gens cur)
  case (Cons block blocks)
  obtain off keys where o: "block = (off, keys)" by (cases block)
  have "ok cur" using ok_part [of "concat gens" cur] Cons.prems(2) by simp
  then obtain b1 gens1 cur1 where 1: "StartBlock create off b = Some b1" "fb_rep good b1 gens1 cur1"
      "length gens1 = filter_index off" "concat gens1 @ cur1 = concat gens @ cur"
      "\<forall>i. set (gen_at gens cur i) \<subseteq> set (gen_at gens1 cur1 i)"
    using StartBlock_rep [OF Cons.prems(1), of off] Cons.prems(3) o by auto
  have eq: "concat gens1 @ (cur1 @ keys) @ concat (map snd blocks) = concat gens @ cur @ concat (map snd (block # blocks))"
    using 1(4) o by (metis append.assoc concat.simps(2) list.simps(9) snd_conv)
  have "ok (concat gens1 @ (cur1 @ keys) @ concat (map snd blocks))" using Cons.prems(2) by (simp only: eq)
  moreover have "sorted (length gens1 # map (filter_index \<circ> fst) blocks)" using Cons.prems(3) 1(3) o by (simp add: o_def)
  ultimately obtain b' gens' cur' where 2: "add_blocks create blocks (fold AddKey keys b1) = Some b'" "fb_rep good b' gens' cur'"
      "concat gens' @ cur' = concat gens @ cur @ concat (map snd (block # blocks))"
      "\<forall>i. set (gen_at gens1 (cur1 @ keys) i) \<subseteq> set (gen_at gens' cur' i)"
      "\<forall>(off, keys) \<in> set blocks. set keys \<subseteq> set (gen_at gens' cur' (filter_index off))"
    using Cons.IH [OF fb_rep_AddKeys [OF 1(2)], of keys] unfolding eq by blast
  have "set keys \<subseteq> set (gen_at gens1 (cur1 @ keys) (filter_index off))" using 1(3) by (auto simp: gen_at_def)
  with 1 2 o gen_at_mono [of gens1 cur1] show ?case
    by (intro exI [of _ b'] exI [of _ gens'] exI [of _ cur']) (auto simp: subset_iff)
qed auto

lemma Finish_rep:
  assumes "fb_rep good b gens cur" and "ok cur"
  shows "\<exists>contents gens' fs. FilterBlock_Finish create b = Some contents \<and> list_all2 good gens' fs \<and>
    (\<forall>i. set (gen_at gens cur i) \<subseteq> set (gen_at gens' [] i)) \<and>
    contents = concat fs @ concat (map (word_le 4) (map of_nat (starts fs @ [length (concat fs)]) :: u32 list)) @ [11]"
proof -
  have "\<exists>b' gens'. (if fb_start b \<noteq> [] then GenerateFilter create b else Some b) = Some b' \<and>
      fb_rep good b' gens' [] \<and> (\<forall>i. set (gen_at gens cur i) \<subseteq> set (gen_at gens' [] i))"
  proof (cases "fb_start b = []")
    case True
    then have "cur = []" using assms(1) by (auto simp: fb_rep_def starts_def)
    with True assms(1) show ?thesis by auto
  next
    case False
    then show ?thesis using GenerateFilter_rep [OF assms] gen_at_snoc [of gens cur] by auto
  qed
  then obtain b' gens' fs where b': "(if fb_start b \<noteq> [] then GenerateFilter create b else Some b) = Some b'"
      "list_all2 good gens' fs" "fb_result b' = concat fs" "fb_filter_offsets b' = map of_nat (starts fs)"
      "\<forall>i. set (gen_at gens cur i) \<subseteq> set (gen_at gens' [] i)"
    by (auto simp: fb_rep_def)
  then have "FilterBlock_Finish create b = Some (concat fs @
      concat (map (word_le 4) (map of_nat (starts fs @ [length (concat fs)]) :: u32 list)) @ [11])"
    by (simp add: FilterBlock_Finish_def foldl_PutFixed32 PutFixed32_def kFilterBaseLg_def Let_def)
  with b'(2,5) show ?thesis by blast
qed

end

text \<open>The reader finds the filters that the finished contents hold.\<close>

definition filter_contents :: "bytes list \<Rightarrow> bytes" where
  "filter_contents fs = concat fs @ concat (map (word_le 4) (map of_nat (starts fs @ [length (concat fs)]) :: u32 list)) @ [11]"

definition filter_reader :: "bytes list \<Rightarrow> FilterBlockReader" where
  "filter_reader fs = \<lparr>fr_data = filter_contents fs, fr_offset = length (concat fs), fr_num = length fs, fr_base_lg = 11\<rparr>"

lemma length_filter_contents: "length (filter_contents fs) = length (concat fs) + 4 * length fs + 5"
  by (simp add: filter_contents_def length_concat sum_list_triv o_def)

lemma word_at:
  assumes "length (concat fs) < 2 ^ 32" and "i \<le> length fs"
  shows "DecodeFixed32 True (drop (length (concat fs) + i * 4) (filter_contents fs)) = Some (of_nat (length (concat (take i fs))))"
proof -
  have "drop (length (concat fs) + i * 4) (filter_contents fs) =
      drop (i * 4) (concat (map (word_le 4) (map of_nat (starts fs @ [length (concat fs)]) :: u32 list)) @ [11])"
    by (simp add: filter_contents_def)
  also have "\<dots> = word_le 4 (map of_nat (starts fs @ [length (concat fs)]) ! i :: u32) @
      concat (map (word_le 4) (drop (Suc i) (map of_nat (starts fs @ [length (concat fs)]) :: u32 list))) @ [11]"
    using assms(2) by (intro drop_fixed_array) simp
  also have "(map of_nat (starts fs @ [length (concat fs)]) ! i :: u32) = of_nat (length (concat (take i fs)))"
    using assms(2) by (subst nth_map) (simp_all add: starts_nth)
  finally show ?thesis by (simp add: mem_simps)
qed

lemma mk_filter_reader:
  assumes "length (concat fs) < 2 ^ 32"
  shows "mk_FilterBlockReader (filter_contents fs) = Some (filter_reader fs)"
proof -
  obtain pre where "filter_contents fs = pre @ [11]" unfolding filter_contents_def append.assoc [symmetric] by blast
  then have "filter_contents fs ! (length (filter_contents fs) - 1) = 11" by simp
  moreover have "length (filter_contents fs) - 5 = length (concat fs) + length fs * 4"
    by (simp add: length_filter_contents)
  moreover have "unat (scast (11 :: u8) :: u64) = 11" by simp
  ultimately show ?thesis
    using word_at [OF assms, of "length fs"] assms
    by (simp add: mk_FilterBlockReader_def Let_def length_filter_contents filter_reader_def unat_of_nat mult.commute [of 4] del: One_nat_def)
qed

lemma Filter_KeyMayMatch_hit:
  assumes "length (concat fs) < 2 ^ 32" and "filter_index off < length fs"
  shows "Filter_KeyMayMatch may_match (filter_reader fs) off key = may_match key (fs ! filter_index off)"
proof -
  let ?i = "filter_index off" and ?s = "\<lambda>i. length (concat (take i fs))"
  have s: "?s ?i \<le> ?s (Suc ?i)" "?s (Suc ?i) \<le> length (concat fs)"
    using length_concat_take [of "Suc ?i" fs] length_concat_take_Suc [OF assms(2)] by auto
  with assms(1) have u: "unat (of_nat (?s ?i) :: u32) = ?s ?i" "unat (of_nat (?s (Suc ?i)) :: u32) = ?s (Suc ?i)"
    by (simp_all add: unat_of_nat del: concat_append length_concat)
  with s have le: "(of_nat (?s ?i) :: u32) \<le> of_nat (?s (Suc ?i))" by (simp add: word_le_nat_alt)
  have "take (unat (of_nat (?s (Suc ?i)) - of_nat (?s ?i) :: u32)) (drop (?s ?i) (filter_contents fs)) = fs ! ?i"
    using concat_part [OF assms(2)] by (simp only: unat_sub [OF le] u filter_contents_def)
  moreover have "unat (drop_bit 11 off) = ?i" by (simp add: filter_index_def unat_bits)
  moreover have "DecodeFixed32 True (drop (length (concat fs) + ?i * 4) (filter_contents fs)) = Some (of_nat (?s ?i))"
    "DecodeFixed32 True (drop (length (concat fs) + ?i * 4 + 4) (filter_contents fs)) = Some (of_nat (?s (Suc ?i)))"
    using word_at [OF assms(1), of ?i] word_at [OF assms(1), of "Suc ?i"] assms(2) by (simp_all add: ac_simps)
  ultimately show ?thesis
    using assms(2) u s le by (simp add: Filter_KeyMayMatch_def filter_reader_def Let_def del: length_concat)
qed

context filter_policy
begin

lemma build_filters_match:
  assumes "ok (concat (map snd blocks))" and "sorted (map (filter_index \<circ> fst) blocks)"
  shows "\<exists>contents. build_filters create blocks = Some contents \<and>
    (length contents < 2 ^ 32 \<longrightarrow> (\<exists>r. mk_FilterBlockReader contents = Some r \<and>
      (\<forall>(off, keys) \<in> set blocks. \<forall>key \<in> set keys. Filter_KeyMayMatch may_match r off key = Some True)))"
proof -
  obtain b gens cur where b: "add_blocks create blocks new_FilterBlockBuilder = Some b" "fb_rep good b gens cur"
      "concat gens @ cur = concat (map snd blocks)"
      "\<forall>(off, keys) \<in> set blocks. set keys \<subseteq> set (gen_at gens cur (filter_index off))"
    using add_blocks_rep [OF fb_rep_new, of blocks] assms by auto
  have "ok cur" using ok_part [of "concat gens" cur "[]"] assms(1) b(3) by simp
  then obtain gens' fs where f: "FilterBlock_Finish create b = Some (filter_contents fs)" "list_all2 good gens' fs"
      "\<forall>i. set (gen_at gens cur i) \<subseteq> set (gen_at gens' [] i)"
    using Finish_rep [OF b(2)] unfolding filter_contents_def by blast
  have "\<exists>r. mk_FilterBlockReader (filter_contents fs) = Some r \<and>
      (\<forall>(off, keys) \<in> set blocks. \<forall>key \<in> set keys. Filter_KeyMayMatch may_match r off key = Some True)"
    if "length (filter_contents fs) < 2 ^ 32"
  proof -
    have l: "length (concat fs) < 2 ^ 32" using that by (simp only: length_filter_contents)
    have "Filter_KeyMayMatch may_match (filter_reader fs) off key = Some True"
      if "(off, keys) \<in> set blocks" "key \<in> set keys" for off keys key
    proof -
      have "key \<in> set (gen_at gens' [] (filter_index off))" using b(4) f(3) that by fastforce
      then have "filter_index off < length gens'" "key \<in> set (gens' ! filter_index off)"
        by (auto simp: gen_at_def split: if_splits)
      then show ?thesis
        using f(2) Filter_KeyMayMatch_hit [OF l] by (auto simp: list_all2_conv_all_nth good_def)
    qed
    with mk_filter_reader [OF l] show ?thesis by blast
  qed
  with b(1) f(1) show ?thesis by (simp add: build_filters_def)
qed

text \<open>The wrapper for internal keys of a policy is a policy.\<close>

lemma internal_policy:
  "filter_policy (\<lambda>keys. ok (map ExtractUserKey keys)) (InternalFilter_CreateFilter create)
    (InternalFilter_KeyMayMatch may_match)"
proof
  show "\<exists>f. InternalFilter_CreateFilter create keys dst = Some (dst @ f) \<and>
      (\<forall>key \<in> set keys. InternalFilter_KeyMayMatch may_match key f = Some True)"
    if "ok (map ExtractUserKey keys)" for keys dst
    using create_matches [OF that, of dst] by (auto simp: InternalFilter_CreateFilter_def InternalFilter_KeyMayMatch_def)
  show "ok (map ExtractUserKey ys)" if "ok (map ExtractUserKey (xs @ ys @ zs))" for xs ys zs
    using that ok_part by simp
qed

end

interpretation internal_bloom: filter_policy "\<lambda>keys. bloom_ok p (map ExtractUserKey keys)"
    "InternalFilter_CreateFilter (Bloom_CreateFilter p)" "InternalFilter_KeyMayMatch Bloom_KeyMayMatch" for p
  by (rule bloom.internal_policy)

text \<open>
  C27: No false negatives. For every number of bits per key and every sequence of blocks of internal
  keys at growing offsets, the filter block is built, and unless it grew to 4 GiB its reader
  matches, at the offset of every block, every key whose user key the block holds.
\<close>

theorem filter_block_no_false_negatives:
  assumes "0 \<le> b" and "b < 2 ^ 31" and "sorted (map (filter_index \<circ> fst) blocks)"
    and "length (concat (map snd blocks)) < 2 ^ 31"
  shows "\<exists>p contents. NewBloomFilterPolicy b = Some p \<and>
    build_filters (InternalFilter_CreateFilter (Bloom_CreateFilter p)) blocks = Some contents \<and>
    (length contents < 2 ^ 32 \<longrightarrow> (\<exists>r. mk_FilterBlockReader contents = Some r \<and>
      (\<forall>(off, keys) \<in> set blocks. \<forall>k \<in> set keys. \<forall>key. ExtractUserKey key = ExtractUserKey k \<longrightarrow>
        Filter_KeyMayMatch (InternalFilter_KeyMayMatch Bloom_KeyMayMatch) r off key = Some True)))"
proof -
  obtain p where p: "NewBloomFilterPolicy b = Some p" "bloom_ok p []" using NewBloomFilterPolicy_ok assms(1,2) by blast
  then have "bloom_ok p (map ExtractUserKey (concat (map snd blocks)))" using assms(4) by (simp add: bloom_ok_def)
  from internal_bloom.build_filters_match [OF this assms(3)] obtain contents where
    c: "build_filters (InternalFilter_CreateFilter (Bloom_CreateFilter p)) blocks = Some contents"
    "length contents < 2 ^ 32 \<longrightarrow> (\<exists>r. mk_FilterBlockReader contents = Some r \<and>
      (\<forall>(off, keys) \<in> set blocks. \<forall>key \<in> set keys.
        Filter_KeyMayMatch (InternalFilter_KeyMayMatch Bloom_KeyMayMatch) r off key = Some True))" by blast
  have same: "Filter_KeyMayMatch (InternalFilter_KeyMayMatch Bloom_KeyMayMatch) r off key =
      Filter_KeyMayMatch (InternalFilter_KeyMayMatch Bloom_KeyMayMatch) r off k"
    if "ExtractUserKey key = ExtractUserKey k" for r off key k
  proof -
    have "InternalFilter_KeyMayMatch Bloom_KeyMayMatch key = InternalFilter_KeyMayMatch Bloom_KeyMayMatch k"
      using that by (simp add: InternalFilter_KeyMayMatch_def fun_eq_iff)
    then show ?thesis by (simp only: Filter_KeyMayMatch_def)
  qed
  have "\<forall>(off, keys) \<in> set blocks. \<forall>k \<in> set keys. \<forall>key. ExtractUserKey key = ExtractUserKey k \<longrightarrow>
        Filter_KeyMayMatch (InternalFilter_KeyMayMatch Bloom_KeyMayMatch) r off key = Some True"
    if m: "\<forall>(off, keys) \<in> set blocks. \<forall>key \<in> set keys.
        Filter_KeyMayMatch (InternalFilter_KeyMayMatch Bloom_KeyMayMatch) r off key = Some True" for r
  proof clarify
    fix off keys k key
    assume "(off, keys) \<in> set blocks" "k \<in> set keys" "ExtractUserKey key = ExtractUserKey k"
    then show "Filter_KeyMayMatch (InternalFilter_KeyMayMatch Bloom_KeyMayMatch) r off key = Some True"
      using bspec [OF m, of "(off, keys)"] same [of key k r off] by simp
  qed
  with p(1) c show ?thesis by blast
qed

theorem filter_block_no_false_negatives_witness:
  "\<exists>contents r. build_filters (InternalFilter_CreateFilter (Bloom_CreateFilter \<lparr>bits_per_key = 10, bloom_k = 6\<rparr>))
      [(0, [[1, 2, 0, 0, 0, 0, 0, 0, 0, 0]])] = Some contents \<and> mk_FilterBlockReader contents = Some r \<and>
    Filter_KeyMayMatch (InternalFilter_KeyMayMatch Bloom_KeyMayMatch) r 0 [1, 2, 9, 0, 0, 0, 0, 0, 0, 0] = Some True"
proof -
  have p: "NewBloomFilterPolicy 10 = Some \<lparr>bits_per_key = 10, bloom_k = 6\<rparr>" by (simp add: NewBloomFilterPolicy_def)
  have "map_option length (build_filters (InternalFilter_CreateFilter (Bloom_CreateFilter \<lparr>bits_per_key = 10, bloom_k = 6\<rparr>))
      [(0, [[1, 2, 0, 0, 0, 0, 0, 0, 0, 0]])]) = Some 18"
    by code_simp
  then show ?thesis
    using filter_block_no_false_negatives [of 10 "[(0, [[1, 2, 0, 0, 0, 0, 0, 0, 0, 0]])]"]
    by (auto simp: p filter_index_def ExtractUserKey_def)
qed

end
