(* ===== verification/Ldb_Table_Builder.thy ===== *)
theory Ldb_Table_Builder
  imports Ldb_Format Ldb_Filter
begin

text \<open>
  Writing a table (\<^verbatim>\<open>table/table_builder.cc\<close>): sorted entries go to data blocks, which are cut when they
  reach the block size, with an index block whose keys separate them, an optional filter block, a
  metaindex block and the footer. The file is that of \<open>Ldb_Log\<close>; a call of it that fails returns an I/O
  error. Compression is a parameter. The assertions of the builder (calls in the right order, growing
  keys) are not part of the model; the theorems assume what they ask for.
\<close>

section \<open>The code\<close>

datatype CompressionType = kNoCompression | kSnappyCompression

fun compression_byte :: "CompressionType \<Rightarrow> u8" where
  "compression_byte kNoCompression = 0"
| "compression_byte kSnappyCompression = 1"

text \<open>The interfaces that the options point to. A comparator is compared by its address, \<open>cm_address\<close>.\<close>

record comparator_ops =
  cm_address :: nat
  cm_compare :: "bytes \<Rightarrow> bytes \<Rightarrow> int"
  cm_separator :: "bytes \<Rightarrow> bytes \<Rightarrow> bytes"
  cm_successor :: "bytes \<Rightarrow> bytes"

record policy_ops =
  fp_name :: bytes
  fp_create :: "bytes list \<Rightarrow> bytes \<Rightarrow> bytes option"
  fp_match :: "bytes \<Rightarrow> bytes \<Rightarrow> bool option"

record table_options =
  op_comparator :: comparator_ops
  op_paranoid_checks :: bool
  op_block_cache :: bool
  op_block_size :: nat
  op_restart_interval :: nat
  op_compression :: CompressionType
  op_filter_policy :: "policy_ops option"

record TableBuilder =
  tr_options :: table_options
  tr_index_options :: table_options
  tr_file :: writable_file
  tr_offset :: u64
  tr_status :: Status
  tr_data_block :: BlockBuilder
  tr_index_block :: BlockBuilder
  tr_last_key :: bytes
  tr_num_entries :: u64
  tr_closed :: bool
  tr_filter_block :: "FilterBlockBuilder option"
  tr_pending :: bool
  tr_pending_handle :: BlockHandle

definition file_status :: "bool \<Rightarrow> Status" where
  "file_status good = (if good then OK else mk_Status kIOError [] [])"

definition BlockBuilder_empty :: "BlockBuilder \<Rightarrow> bool" where
  "BlockBuilder_empty b \<longleftrightarrow> bb_buffer b = []"

text \<open>What is done with the filter block when there is one.\<close>

definition filter_step :: "(policy_ops \<Rightarrow> FilterBlockBuilder \<Rightarrow> FilterBlockBuilder option) \<Rightarrow> TableBuilder \<Rightarrow> TableBuilder option" where
  "filter_step f r =
     (case (op_filter_policy (tr_options r), tr_filter_block r) of
        (Some p, Some fb) \<Rightarrow> do { fb \<leftarrow> f p fb; Some (r\<lparr>tr_filter_block := Some fb\<rparr>) }
      | _ \<Rightarrow> Some r)"

definition new_TableBuilder :: "table_options \<Rightarrow> writable_file \<Rightarrow> TableBuilder option" where
  "new_TableBuilder opt f =
     filter_step (\<lambda>p. StartBlock (fp_create p) 0)
       \<lparr>tr_options = opt, tr_index_options = opt\<lparr>op_restart_interval := 1\<rparr>, tr_file = f, tr_offset = 0, tr_status = OK,
        tr_data_block = new_BlockBuilder, tr_index_block = new_BlockBuilder, tr_last_key = [], tr_num_entries = 0,
        tr_closed = False,
        tr_filter_block = (case op_filter_policy opt of None \<Rightarrow> None | Some p \<Rightarrow> Some new_FilterBlockBuilder),
        tr_pending = False, tr_pending_handle = new_BlockHandle\<rparr>"

definition ChangeOptions :: "table_options \<Rightarrow> TableBuilder \<Rightarrow> Status \<times> TableBuilder" where
  "ChangeOptions opt r =
     (if cm_address (op_comparator opt) \<noteq> cm_address (op_comparator (tr_options r))
      then (mk_Status kInvalidArgument (ascii ''changing comparator while building table'') [], r)
      else (OK, r\<lparr>tr_options := opt, tr_index_options := opt\<lparr>op_restart_interval := 1\<rparr>\<rparr>))"

definition WriteRawBlock :: "bytes \<Rightarrow> CompressionType \<Rightarrow> TableBuilder \<Rightarrow> BlockHandle \<times> TableBuilder" where
  "WriteRawBlock block_contents t r =
     (let handle = \<lparr>bh_offset = tr_offset r, bh_size = of_nat (length block_contents)\<rparr>;
          (good, f) = wf_Append block_contents (tr_file r);
          r = r\<lparr>tr_file := f, tr_status := file_status good\<rparr> in
      if Status_ok (tr_status r) then
        let crc = crc32c 0 block_contents;
            crc = crc32c crc [compression_byte t];
            trailer = compression_byte t # EncodeFixed32 True (Mask crc);
            (good, f) = wf_Append trailer (tr_file r);
            r = r\<lparr>tr_file := f, tr_status := file_status good\<rparr> in
        if Status_ok (tr_status r)
        then (handle, r\<lparr>tr_offset := tr_offset r + (of_nat (length block_contents) + kBlockTrailerSize)\<rparr>)
        else (handle, r)
      else (handle, r))"

text \<open>\<open>compress\<close> is \<^verbatim>\<open>port::Snappy_Compress\<close>. The results are the handle, the block that was reset, and the builder.\<close>

definition WriteBlock ::
    "(bytes \<Rightarrow> bytes option) \<Rightarrow> BlockBuilder \<Rightarrow> TableBuilder \<Rightarrow> BlockHandle \<times> BlockBuilder \<times> TableBuilder" where
  "WriteBlock compress block r =
     (let (raw, block) = BlockBuilder_Finish block;
          (block_contents, t) =
            (case op_compression (tr_options r) of
               kNoCompression \<Rightarrow> (raw, kNoCompression)
             | kSnappyCompression \<Rightarrow>
                 (case compress raw of
                    Some compressed \<Rightarrow>
                      if length compressed < length raw - length raw div 8 then (compressed, kSnappyCompression)
                      else (raw, kNoCompression)
                  | None \<Rightarrow> (raw, kNoCompression)));
          (handle, r) = WriteRawBlock block_contents t r in
      (handle, BlockBuilder_Reset block, r))"

definition Table_Flush :: "(bytes \<Rightarrow> bytes option) \<Rightarrow> TableBuilder \<Rightarrow> TableBuilder option" where
  "Table_Flush compress r =
     (if \<not> Status_ok (tr_status r) then Some r
      else if BlockBuilder_empty (tr_data_block r) then Some r
      else
        let (handle, block, r) = WriteBlock compress (tr_data_block r) r;
            r = r\<lparr>tr_pending_handle := handle, tr_data_block := block\<rparr>;
            r = (if Status_ok (tr_status r)
                 then let r = r\<lparr>tr_pending := True\<rparr>; (good, f) = wf_Flush (tr_file r) in
                   r\<lparr>tr_file := f, tr_status := file_status good\<rparr>
                 else r) in
        filter_step (\<lambda>p. StartBlock (fp_create p) (tr_offset r)) r)"

definition add_index_entry :: "bytes \<Rightarrow> TableBuilder \<Rightarrow> TableBuilder" where
  "add_index_entry key r =
     r\<lparr>tr_last_key := key,
       tr_index_block := BlockBuilder_Add (op_restart_interval (tr_index_options r)) key
         (Handle_EncodeTo [] (tr_pending_handle r)) (tr_index_block r),
       tr_pending := False\<rparr>"

definition Table_Add :: "(bytes \<Rightarrow> bytes option) \<Rightarrow> bytes \<Rightarrow> bytes \<Rightarrow> TableBuilder \<Rightarrow> TableBuilder option" where
  "Table_Add compress key val r =
     (if \<not> Status_ok (tr_status r) then Some r
      else do {
        let r = (if tr_pending r
                 then add_index_entry (cm_separator (op_comparator (tr_options r)) (tr_last_key r) key) r else r);
        r \<leftarrow> filter_step (\<lambda>p fb. Some (AddKey key fb)) r;
        let r = r\<lparr>tr_last_key := key, tr_num_entries := tr_num_entries r + 1,
                  tr_data_block := BlockBuilder_Add (op_restart_interval (tr_options r)) key val (tr_data_block r)\<rparr>;
        if CurrentSizeEstimate (tr_data_block r) \<ge> op_block_size (tr_options r) then Table_Flush compress r else Some r
      })"

text \<open>The parts of \<^verbatim>\<open>Finish\<close>; a handle that is not set keeps the value of its constructor.\<close>

definition write_filter :: "TableBuilder \<Rightarrow> (BlockHandle \<times> TableBuilder) option" where
  "write_filter r =
     (if Status_ok (tr_status r) then
        (case (op_filter_policy (tr_options r), tr_filter_block r) of
           (Some p, Some fb) \<Rightarrow> do {
             contents \<leftarrow> FilterBlock_Finish (fp_create p) fb;
             Some (WriteRawBlock contents kNoCompression r)
           }
         | _ \<Rightarrow> Some (new_BlockHandle, r))
      else Some (new_BlockHandle, r))"

definition write_metaindex :: "(bytes \<Rightarrow> bytes option) \<Rightarrow> BlockHandle \<Rightarrow> TableBuilder \<Rightarrow> BlockHandle \<times> TableBuilder" where
  "write_metaindex compress filter_handle r =
     (if Status_ok (tr_status r) then
        let meta = (case (op_filter_policy (tr_options r), tr_filter_block r) of
              (Some p, Some fb) \<Rightarrow>
                BlockBuilder_Add (op_restart_interval (tr_options r)) (ascii ''filter.'' @ fp_name p)
                  (Handle_EncodeTo [] filter_handle) new_BlockBuilder
            | _ \<Rightarrow> new_BlockBuilder);
            (handle, _, r) = WriteBlock compress meta r in
        (handle, r)
      else (new_BlockHandle, r))"

definition write_index :: "(bytes \<Rightarrow> bytes option) \<Rightarrow> TableBuilder \<Rightarrow> BlockHandle \<times> TableBuilder" where
  "write_index compress r =
     (if Status_ok (tr_status r) then
        let r = (if tr_pending r then add_index_entry (cm_successor (op_comparator (tr_options r)) (tr_last_key r)) r else r);
            (handle, block, r) = WriteBlock compress (tr_index_block r) r in
        (handle, r\<lparr>tr_index_block := block\<rparr>)
      else (new_BlockHandle, r))"

definition write_footer :: "BlockHandle \<Rightarrow> BlockHandle \<Rightarrow> TableBuilder \<Rightarrow> TableBuilder" where
  "write_footer metaindex_handle index_handle r =
     (if Status_ok (tr_status r) then
        let footer_encoding = Footer_EncodeTo [] \<lparr>ft_metaindex = metaindex_handle, ft_index = index_handle\<rparr>;
            (good, f) = wf_Append footer_encoding (tr_file r);
            r = r\<lparr>tr_file := f, tr_status := file_status good\<rparr> in
        if Status_ok (tr_status r) then r\<lparr>tr_offset := tr_offset r + of_nat (length footer_encoding)\<rparr> else r
      else r)"

definition Table_Finish :: "(bytes \<Rightarrow> bytes option) \<Rightarrow> TableBuilder \<Rightarrow> (Status \<times> TableBuilder) option" where
  "Table_Finish compress r = do {
     r \<leftarrow> Table_Flush compress r;
     let r = r\<lparr>tr_closed := True\<rparr>;
     (filter_handle, r) \<leftarrow> write_filter r;
     let (metaindex_handle, r) = write_metaindex compress filter_handle r;
     let (index_handle, r) = write_index compress r;
     let r = write_footer metaindex_handle index_handle r;
     Some (tr_status r, r)
   }"

definition Table_Abandon :: "TableBuilder \<Rightarrow> TableBuilder" where
  "Table_Abandon r = r\<lparr>tr_closed := True\<rparr>"

definition NumEntries :: "TableBuilder \<Rightarrow> u64" where
  "NumEntries r = tr_num_entries r"

definition Table_FileSize :: "TableBuilder \<Rightarrow> u64" where
  "Table_FileSize r = tr_offset r"

section \<open>Blocks that are written\<close>

text \<open>Blocks are stored as they are when compression is off or there is no Snappy.\<close>

definition stores_raw :: "(bytes \<Rightarrow> bytes option) \<Rightarrow> table_options \<Rightarrow> bool" where
  "stores_raw compress opt \<longleftrightarrow> op_compression opt = kNoCompression \<or> (\<forall>raw. compress raw = None)"

definition file_append :: "bytes \<Rightarrow> TableBuilder \<Rightarrow> TableBuilder" where
  "file_append s r = r\<lparr>tr_file := (tr_file r)\<lparr>wf_content := wf_content (tr_file r) @ s\<rparr>, tr_status := OK,
     tr_offset := tr_offset r + of_nat (length s)\<rparr>"

lemma WriteRawBlock_ok:
  assumes "wf_outcomes (tr_file r) = []"
  shows "WriteRawBlock c t r =
    (\<lparr>bh_offset = tr_offset r, bh_size = of_nat (length c)\<rparr>, file_append (raw_block c (compression_byte t)) r)"
  using assms by (simp add: WriteRawBlock_def file_status_def Status_ok_def file_append_def raw_block_def kBlockTrailerSize_def
      crc32c_append ac_simps)

lemma write_footer_ok:
  "wf_outcomes (tr_file r) = [] \<Longrightarrow> tr_status r = OK \<Longrightarrow>
    write_footer mh ih r = file_append (Footer_EncodeTo [] \<lparr>ft_metaindex = mh, ft_index = ih\<rparr>) r"
  by (simp add: write_footer_def Status_ok_def file_append_def file_status_def Let_def)

lemma Reset_new: "BlockBuilder_Reset b = new_BlockBuilder"
  by (simp add: BlockBuilder_Reset_def new_BlockBuilder_def)

lemma WriteBlock_ok:
  assumes "wf_outcomes (tr_file r) = []" and "stores_raw compress (tr_options r)" and "0 < K"
  shows "WriteBlock compress (add_all K es) r =
    (\<lparr>bh_offset = tr_offset r, bh_size = of_nat (length (built K es))\<rparr>, new_BlockBuilder, file_append (raw_block (built K es) 0) r)"
proof -
  obtain b where b: "BlockBuilder_Finish (add_all K es) = (built K es, b)"
    using Finish_built [OF assms(3), of es] by (metis prod.collapse)
  have "(case op_compression (tr_options r) of kNoCompression \<Rightarrow> (raw, kNoCompression)
      | kSnappyCompression \<Rightarrow> (case compress raw of
          Some compressed \<Rightarrow> if length compressed < length raw - length raw div 8 then (compressed, kSnappyCompression) else (raw, kNoCompression)
        | None \<Rightarrow> (raw, kNoCompression))) = (raw, kNoCompression)" for raw
    using assms(2) by (auto simp: stores_raw_def split: CompressionType.splits)
  then show ?thesis
    by (simp add: WriteBlock_def b WriteRawBlock_ok [OF assms(1)] Reset_new)
qed

lemma add_all_snoc: "BlockBuilder_Add K k v (add_all K es) = add_all K (es @ [(k, v)])"
  by (simp add: add_all_def)

lemma add_all_Nil: "add_all K [] = new_BlockBuilder"
  by (simp add: add_all_def)

lemma ents_nonempty: "es \<noteq> [] \<Longrightarrow> ents K es (length es) \<noteq> []"
proof -
  assume "es \<noteq> []"
  then have "enc_at K es 0 \<noteq> []"
    using EncodeVarint32_nonempty [of "of_nat (shared_at K es 0)"] by (auto simp: enc_at_def Let_def split: prod.splits)
  moreover have "0 \<in> set [0..<length es]" using \<open>es \<noteq> []\<close> by simp
  ultimately show ?thesis unfolding ents_def by auto
qed

lemma empty_add_all: "0 < K \<Longrightarrow> BlockBuilder_empty (add_all K es) \<longleftrightarrow> es = []"
  using ents_nonempty [of es K] by (auto simp: BlockBuilder_empty_def add_all ents_def)

section \<open>What the builder has written\<close>

text \<open>
  The finished data blocks are \<open>cs\<close>, the entries of the next one \<open>cur\<close>, and \<open>seps\<close> the keys of the index.
\<close>

definition chunk_bytes :: "nat \<Rightarrow> entry list list \<Rightarrow> bytes" where
  "chunk_bytes K cs = concat (map (\<lambda>c. raw_block (built K c) 0) cs)"

definition chunk_handle :: "nat \<Rightarrow> entry list list \<Rightarrow> nat \<Rightarrow> BlockHandle" where
  "chunk_handle K cs i = \<lparr>bh_offset = of_nat (length (chunk_bytes K (take i cs))), bh_size = of_nat (length (built K (cs ! i)))\<rparr>"

definition index_entries :: "nat \<Rightarrow> entry list list \<Rightarrow> bytes list \<Rightarrow> entry list" where
  "index_entries K cs seps = map (\<lambda>i. (seps ! i, handle_bytes (chunk_handle K cs i))) [0..<length seps]"

lemma chunk_bytes_snoc: "chunk_bytes K (cs @ [c]) = chunk_bytes K cs @ raw_block (built K c) 0"
  by (simp add: chunk_bytes_def)

lemma chunk_handle_snoc: "i < length cs \<Longrightarrow> chunk_handle K (cs @ [c]) i = chunk_handle K cs i"
  by (simp add: chunk_handle_def nth_append)

lemma index_entries_more: "length seps \<le> length cs \<Longrightarrow> index_entries K (cs @ [c]) seps = index_entries K cs seps"
  by (auto simp: index_entries_def chunk_handle_snoc)

lemma index_entries_snoc: "index_entries K cs (seps @ [s]) = index_entries K cs seps @ [(s, handle_bytes (chunk_handle K cs (length seps)))]"
  by (auto simp: index_entries_def nth_append)

definition finished_file :: "nat \<Rightarrow> entry list list \<Rightarrow> bytes list \<Rightarrow> bytes" where
  "finished_file K cs seps =
     (let data = chunk_bytes K cs; meta = raw_block (built K []) 0; idx = built 1 (index_entries K cs seps) in
      data @ meta @ raw_block idx 0 @
      Footer_EncodeTo [] \<lparr>ft_metaindex = \<lparr>bh_offset = of_nat (length data), bh_size = of_nat (length (built K []))\<rparr>,
        ft_index = \<lparr>bh_offset = of_nat (length data + length meta), bh_size = of_nat (length idx)\<rparr>\<rparr>)"

text \<open>Building with a whole list of entries.\<close>

fun table_adds :: "(bytes \<Rightarrow> bytes option) \<Rightarrow> entry list \<Rightarrow> TableBuilder \<Rightarrow> TableBuilder option" where
  "table_adds compress [] r = Some r"
| "table_adds compress ((k, v) # es) r = do { r \<leftarrow> Table_Add compress k v r; table_adds compress es r }"

context comparator
begin

definition plain_options :: "(bytes \<Rightarrow> bytes option) \<Rightarrow> table_options \<Rightarrow> bool" where
  "plain_options compress opt \<longleftrightarrow> cm_compare (op_comparator opt) = compare \<and> cm_separator (op_comparator opt) = separator \<and>
     cm_successor (op_comparator opt) = successor \<and> op_filter_policy opt = None \<and> stores_raw compress opt \<and> 0 < op_restart_interval opt"

text \<open>
  The keys of the index lie between the blocks: they are the separators of the comparator, and behind the
  last block the successor.
\<close>

definition separates :: "entry list list \<Rightarrow> bytes list \<Rightarrow> bool" where
  "separates cs seps \<longleftrightarrow> (\<forall>i < length seps. ok (seps ! i) \<and> compare (fst (last (cs ! i))) (seps ! i) \<le> 0 \<and>
     (Suc i < length cs \<longrightarrow> compare (seps ! i) (fst (hd (cs ! Suc i))) < 0 \<and>
       seps ! i = separator (fst (last (cs ! i))) (fst (hd (cs ! Suc i)))) \<and>
     (Suc i = length cs \<longrightarrow> seps ! i = successor (fst (last (cs ! i)))))"

definition builder_rep :: "table_options \<Rightarrow> entry list list \<Rightarrow> entry list \<Rightarrow> bytes list \<Rightarrow> TableBuilder \<Rightarrow> bool" where
  "builder_rep opt cs cur seps r \<longleftrightarrow>
     tr_options r = opt \<and> tr_index_options r = opt\<lparr>op_restart_interval := 1\<rparr> \<and>
     wf_outcomes (tr_file r) = [] \<and> wf_content (tr_file r) = chunk_bytes (op_restart_interval opt) cs \<and>
     tr_offset r = of_nat (length (chunk_bytes (op_restart_interval opt) cs)) \<and> tr_status r = OK \<and> tr_filter_block r = None \<and>
     tr_data_block r = add_all (op_restart_interval opt) cur \<and>
     tr_index_block r = add_all 1 (index_entries (op_restart_interval opt) cs seps) \<and>
     (concat cs @ cur \<noteq> [] \<longrightarrow> tr_last_key r = fst (last (concat cs @ cur))) \<and> [] \<notin> set cs \<and>
     separates (cs @ (if cur = [] then [] else [cur])) seps \<and>
     (if tr_pending r then cur = [] \<and> length cs = Suc (length seps) \<and> tr_pending_handle r = chunk_handle (op_restart_interval opt) cs (length seps)
      else length cs = length seps \<and> (cs = [] \<or> cur \<noteq> []))"

lemma new_rep:
  assumes "plain_options compress opt" and "wf_outcomes f = []" and "wf_content f = []"
  shows "\<exists>r. new_TableBuilder opt f = Some r \<and> builder_rep opt [] [] [] r"
  using assms by (simp add: new_TableBuilder_def filter_step_def plain_options_def builder_rep_def chunk_bytes_def index_entries_def
      separates_def add_all_Nil)

lemma filter_step_None: "tr_filter_block r = None \<Longrightarrow> filter_step f r = Some r"
  by (auto simp: filter_step_def split: option.splits)

lemma Flush_rep:
  assumes "plain_options compress opt" and "builder_rep opt cs cur seps r" and "cur \<noteq> []"
  shows "\<exists>r'. Table_Flush compress r = Some r' \<and> builder_rep opt (cs @ [cur]) [] seps r'"
proof -
  let ?K = "op_restart_interval opt"
  have K: "0 < ?K" "stores_raw compress (tr_options r)" and rep: "wf_outcomes (tr_file r) = []" "tr_data_block r = add_all ?K cur"
    "tr_status r = OK" "tr_filter_block r = None" and np: "\<not> tr_pending r" "length cs = length seps"
    using assms by (auto simp: plain_options_def builder_rep_def split: if_splits)
  note wb = WriteBlock_ok [OF rep(1) K(2,1), of cur]
  let ?r = "file_append (raw_block (built ?K cur) 0) r"
  let ?r' = "?r\<lparr>tr_pending_handle := chunk_handle ?K (cs @ [cur]) (length cs), tr_data_block := new_BlockBuilder, tr_pending := True\<rparr>"
  have h: "\<lparr>bh_offset = tr_offset r, bh_size = of_nat (length (built ?K cur))\<rparr> = chunk_handle ?K (cs @ [cur]) (length cs)"
    using assms(2) by (simp add: chunk_handle_def builder_rep_def)
  have "Table_Flush compress r = Some ?r'"
    using rep assms(3) empty_add_all [OF K(1)]
    by (simp add: Table_Flush_def Status_ok_def wb h file_append_def file_status_def filter_step_None)
  moreover have "builder_rep opt (cs @ [cur]) [] seps ?r'"
    using assms(2,3) np(2) unfolding builder_rep_def
    by (auto simp: file_append_def chunk_bytes_snoc index_entries_more add_all_Nil)
  ultimately show ?thesis by blast
qed

lemma concat_last: "[] \<notin> set cs \<Longrightarrow> cs \<noteq> [] \<Longrightarrow> last (concat cs) = last (last cs)"
  by (induction cs rule: rev_induct) auto

lemma separates_snoc:
  assumes "separates cs seps" and "length cs = Suc (length seps)" and "[] \<notin> set cs" and "ok s"
    and "compare (fst (last (concat cs))) s \<le> 0" and "compare s (fst e) < 0" and "s = separator (fst (last (concat cs))) (fst e)"
  shows "separates (cs @ [[e]]) (seps @ [s])"
proof -
  have "cs \<noteq> []" using assms(2) by auto
  then have "cs ! length seps = last cs" using assms(2) by (simp add: last_conv_nth)
  then show ?thesis
    using assms concat_last [OF assms(3) \<open>cs \<noteq> []\<close>] unfolding separates_def by (auto simp: nth_append less_Suc_eq)
qed

lemma separates_more:
  assumes "separates (cs @ [cur]) seps" and "cur \<noteq> []" and "length seps \<le> length cs"
  shows "separates (cs @ [cur @ [e]]) seps"
proof -
  have "hd ((cs @ [cur @ [e]]) ! Suc i) = hd ((cs @ [cur]) ! Suc i)" if "Suc i \<le> length cs" for i
    using that assms(2) by (auto simp: nth_append)
  then show ?thesis using assms(1,3) unfolding separates_def by (auto simp: nth_append split: if_splits)
qed

text \<open>The index entry of the block before, when it is due.\<close>

lemma index_entry_rep:
  assumes "plain_options compress opt" and "builder_rep opt cs cur seps r" and "ok k"
    and "concat cs @ cur \<noteq> [] \<Longrightarrow> ok (fst (last (concat cs @ cur))) \<and> compare (fst (last (concat cs @ cur))) k < 0"
  shows "\<exists>r' seps'. (if tr_pending r then add_index_entry (cm_separator (op_comparator (tr_options r)) (tr_last_key r) k) r else r) = r' \<and>
    tr_options r' = opt \<and> tr_index_options r' = opt\<lparr>op_restart_interval := 1\<rparr> \<and> tr_file r' = tr_file r \<and> tr_offset r' = tr_offset r \<and>
    tr_status r' = OK \<and> tr_filter_block r' = None \<and> tr_data_block r' = tr_data_block r \<and> tr_num_entries r' = tr_num_entries r \<and>
    tr_index_block r' = add_all 1 (index_entries (op_restart_interval opt) cs seps') \<and> \<not> tr_pending r' \<and>
    length cs = length seps' \<and> separates (cs @ [cur @ [(k, v)]]) seps'"
proof (cases "tr_pending r")
  case False
  then have f: "length cs = length seps" "cs = [] \<or> cur \<noteq> []" using assms(2) by (auto simp: builder_rep_def)
  have "separates (cs @ [cur @ [(k, v)]]) seps"
  proof (cases "cur = []")
    case True
    then show ?thesis using f by (simp add: separates_def)
  next
    case ne: False
    then show ?thesis using assms(2) separates_more [of cs cur seps "(k, v)"] f(1) by (simp add: builder_rep_def)
  qed
  then show ?thesis using False assms(2) f(1) by (intro exI [of _ r] exI [of _ seps]) (simp add: builder_rep_def)
next
  case True
  let ?s = "separator (tr_last_key r) k"
  have f: "cur = []" "length cs = Suc (length seps)" "[] \<notin> set cs" "tr_pending_handle r = chunk_handle (op_restart_interval opt) cs (length seps)"
    "separates cs seps" using True assms(2) by (auto simp: builder_rep_def)
  then have ne: "concat cs \<noteq> []" by (cases cs) auto
  then have last: "tr_last_key r = fst (last (concat cs))" using assms(2) f(1) by (auto simp: builder_rep_def)
  have s: "ok ?s \<and> compare (tr_last_key r) ?s \<le> 0 \<and> compare ?s k < 0"
    using separator [of "tr_last_key r" k] assms(3,4) ne f(1) last by simp
  then have "separates (cs @ [[(k, v)]]) (seps @ [?s])"
    using separates_snoc [OF f(5,2,3), of ?s "(k, v)"] last by simp
  moreover have "cm_separator (op_comparator (tr_options r)) = separator" using assms(1,2) by (simp add: plain_options_def builder_rep_def)
  ultimately show ?thesis
    using True assms(2) f by (intro exI [of _ "add_index_entry ?s r"] exI [of _ "seps @ [?s]"])
      (simp add: builder_rep_def add_index_entry_def add_all_snoc index_entries_snoc Handle_EncodeTo_eq)
qed

lemma Add_rep:
  assumes "plain_options compress opt" and "builder_rep opt cs cur seps r" and "ok k"
    and "concat cs @ cur \<noteq> [] \<Longrightarrow> ok (fst (last (concat cs @ cur))) \<and> compare (fst (last (concat cs @ cur))) k < 0"
  shows "\<exists>r' cs' cur' seps'. Table_Add compress k v r = Some r' \<and> builder_rep opt cs' cur' seps' r' \<and>
    concat cs' @ cur' = concat cs @ cur @ [(k, v)]"
proof -
  let ?K = "op_restart_interval opt"
  obtain r1 seps' where r1: "(if tr_pending r then add_index_entry (cm_separator (op_comparator (tr_options r)) (tr_last_key r) k) r else r) = r1"
    "tr_options r1 = opt" "tr_index_options r1 = opt\<lparr>op_restart_interval := 1\<rparr>" "tr_file r1 = tr_file r" "tr_offset r1 = tr_offset r"
    "tr_status r1 = OK" "tr_filter_block r1 = None" "tr_data_block r1 = tr_data_block r"
    "tr_index_block r1 = add_all 1 (index_entries ?K cs seps')" "\<not> tr_pending r1" "length cs = length seps'"
    "separates (cs @ [cur @ [(k, v)]]) seps'"
    using index_entry_rep [OF assms, of v] by blast
  define r2 where "r2 = r1\<lparr>tr_last_key := k, tr_num_entries := tr_num_entries r1 + 1,
      tr_data_block := BlockBuilder_Add ?K k v (tr_data_block r1)\<rparr>"
  have rep2: "builder_rep opt cs (cur @ [(k, v)]) seps' r2"
    using r1 assms(2) by (auto simp: builder_rep_def r2_def add_all_snoc)
  have "Table_Add compress k v r =
      (if CurrentSizeEstimate (tr_data_block r2) \<ge> op_block_size opt then Table_Flush compress r2 else Some r2)"
    using assms(2) r1(1,2,7) by (simp add: Table_Add_def Status_ok_def builder_rep_def filter_step_None r2_def)
  moreover obtain r3 where "Table_Flush compress r2 = Some r3" "builder_rep opt (cs @ [cur @ [(k, v)]]) [] seps' r3"
    using Flush_rep [OF assms(1) rep2] by blast
  ultimately show ?thesis
    using rep2 by (cases "CurrentSizeEstimate (tr_data_block r2) \<ge> op_block_size opt") force+
qed

lemma sorted_last:
  assumes "sorted_entries (d @ (k, v) # es)"
  shows "ok k" and "d \<noteq> [] \<Longrightarrow> ok (fst (last d)) \<and> compare (fst (last d)) k < 0"
proof -
  show "ok k" using assms by (simp add: sorted_entries_def)
  assume ne: "d \<noteq> []"
  then have "ok (fst (last d))" using assms last_in_set [OF ne] by (simp add: sorted_entries_def list_all_iff)
  moreover have "compare (fst ((d @ (k, v) # es) ! (length d - 1))) (fst ((d @ (k, v) # es) ! length d)) < 0"
    by (rule entries_less [OF assms]) (use ne in auto)
  ultimately show "ok (fst (last d)) \<and> compare (fst (last d)) k < 0" using ne by (simp add: nth_append last_conv_nth)
qed

lemma adds_rep:
  "plain_options compress opt \<Longrightarrow> builder_rep opt cs cur seps r \<Longrightarrow> sorted_entries (concat cs @ cur @ es) \<Longrightarrow>
    \<exists>r' cs' cur' seps'. table_adds compress es r = Some r' \<and> builder_rep opt cs' cur' seps' r' \<and> concat cs' @ cur' = concat cs @ cur @ es"
proof (induction es arbitrary: cs cur seps r)
  case (Cons e es)
  obtain k v where e: "e = (k, v)" by (cases e)
  have sorted: "sorted_entries ((concat cs @ cur) @ (k, v) # es)" using Cons.prems(3) e by simp
  obtain r1 cs1 cur1 seps1 where 1: "Table_Add compress k v r = Some r1" "builder_rep opt cs1 cur1 seps1 r1"
    "concat cs1 @ cur1 = concat cs @ cur @ [(k, v)]"
    using Add_rep [OF Cons.prems(1,2) sorted_last(1) [OF sorted] sorted_last(2) [OF sorted]] by blast
  have "concat cs1 @ cur1 @ es = concat cs @ cur @ e # es" using arg_cong [OF 1(3), of "\<lambda>xs. xs @ es"] e by simp
  with Cons.IH [OF Cons.prems(1) 1(2)] Cons.prems(3) 1(1) show ?case by (auto simp: e)
qed auto

text \<open>Closing the table.\<close>

lemma Finish_rep:
  assumes "plain_options compress opt" and "builder_rep opt cs cur seps r" and "list_all (\<lambda>e. ok (fst e)) (concat cs @ cur)"
  shows "\<exists>r' cs' seps'. Table_Finish compress r = Some (OK, r') \<and> concat cs' = concat cs @ cur \<and> [] \<notin> set cs' \<and>
    length seps' = length cs' \<and> separates cs' seps' \<and>
    wf_content (tr_file r') = finished_file (op_restart_interval opt) cs' seps' \<and> tr_offset r' = of_nat (length (wf_content (tr_file r')))"
proof -
  let ?K = "op_restart_interval opt"
  have K: "0 < ?K" "stores_raw compress opt" "cm_successor (op_comparator opt) = successor" using assms(1) by (auto simp: plain_options_def)
  obtain r1 cs1 where r1: "Table_Flush compress r = Some r1" "builder_rep opt cs1 [] seps r1" "concat cs1 = concat cs @ cur"
  proof (cases "cur = []")
    case True
    then have "Table_Flush compress r = Some r"
      using assms(2) empty_add_all [OF K(1), of "[]"] by (simp add: Table_Flush_def builder_rep_def Status_ok_def)
    with that [of r cs] True assms(2) show thesis by simp
  next
    case False
    from Flush_rep [OF assms(1,2) this] that show thesis by force
  qed
  note rep = r1(2) [unfolded builder_rep_def, simplified]
  define r2 where "r2 = file_append (raw_block (built ?K []) 0) (r1\<lparr>tr_closed := True\<rparr>)"
  have wf: "write_filter (r1\<lparr>tr_closed := True\<rparr>) = Some (new_BlockHandle, r1\<lparr>tr_closed := True\<rparr>)"
    using rep by (simp add: write_filter_def split: option.splits)
  let ?mh = "\<lparr>bh_offset = of_nat (length (chunk_bytes ?K cs1)), bh_size = of_nat (length (built ?K []))\<rparr>"
  have "wf_outcomes (tr_file (r1\<lparr>tr_closed := True\<rparr>)) = []" "stores_raw compress (tr_options (r1\<lparr>tr_closed := True\<rparr>))" using rep K by simp_all
  from WriteBlock_ok [OF this K(1), of "[]"] have wm: "write_metaindex compress new_BlockHandle (r1\<lparr>tr_closed := True\<rparr>) = (?mh, r2)"
    using rep by (simp add: write_metaindex_def Status_ok_def add_all_Nil r2_def split: option.splits)
  let ?last = "tr_last_key r1"
  define seps1 where "seps1 = (if tr_pending r1 then seps @ [successor ?last] else seps)"
  define r3 where "r3 = (if tr_pending r2 then add_index_entry (cm_successor (op_comparator (tr_options r2)) (tr_last_key r2)) r2 else r2)"
  have sep1: "length seps1 = length cs1 \<and> separates cs1 seps1"
  proof (cases "tr_pending r1")
    case True
    then have f: "length cs1 = Suc (length seps)" "[] \<notin> set cs1" "separates cs1 seps" using rep by simp_all
    then have ne: "cs1 \<noteq> []" "concat cs1 \<noteq> []" by (cases cs1; auto)+
    then have l: "?last = fst (last (concat cs1))" using rep by auto
    then have "ok ?last" using assms(3) last_in_set [OF ne(2)] r1(3) by (simp add: list_all_iff)
    then have "ok (successor ?last) \<and> compare ?last (successor ?last) \<le> 0" by (rule successor)
    moreover have "fst (last (cs1 ! length seps)) = ?last"
      using l concat_last [OF f(2) ne(1)] f(1) ne(1) by (simp add: last_conv_nth)
    ultimately show ?thesis using f True by (auto simp: seps1_def separates_def nth_append less_Suc_eq)
  next
    case False
    then show ?thesis using rep by (auto simp: seps1_def)
  qed
  have r3: "wf_outcomes (tr_file r3) = []" "stores_raw compress (tr_options r3)" "tr_status r3 = OK"
    "tr_index_block r3 = add_all 1 (index_entries ?K cs1 seps1)"
    "wf_content (tr_file r3) = chunk_bytes ?K cs1 @ raw_block (built ?K []) 0"
    "tr_offset r3 = of_nat (length (chunk_bytes ?K cs1) + length (raw_block (built ?K []) 0))"
    using rep K sep1 by (auto simp: r3_def r2_def seps1_def file_append_def add_index_entry_def add_all_snoc index_entries_snoc Handle_EncodeTo_eq)
  let ?ies = "index_entries ?K cs1 seps1"
  let ?ih = "\<lparr>bh_offset = tr_offset r3, bh_size = of_nat (length (built 1 ?ies))\<rparr>"
  define r4 where "r4 = (file_append (raw_block (built 1 ?ies) 0) r3)\<lparr>tr_index_block := new_BlockBuilder\<rparr>"
  have "tr_status r2 = OK" by (simp add: r2_def file_append_def)
  then have wi: "write_index compress r2 = (?ih, r4)"
    using WriteBlock_ok [OF r3(1,2), of 1 ?ies] r3(4) by (simp add: write_index_def Status_ok_def r3_def [symmetric] r4_def)
  let ?f = "\<lparr>ft_metaindex = ?mh, ft_index = ?ih\<rparr>"
  have wo: "write_footer ?mh ?ih r4 = file_append (Footer_EncodeTo [] ?f) r4"
    by (rule write_footer_ok) (use r3(1) in \<open>simp_all add: r4_def file_append_def\<close>)
  have content: "wf_content (tr_file (file_append (Footer_EncodeTo [] ?f) r4)) = finished_file ?K cs1 seps1"
    using r3(5,6) by (simp add: file_append_def r4_def finished_file_def Let_def)
  have "tr_offset (file_append (Footer_EncodeTo [] ?f) r4) = of_nat (length (finished_file ?K cs1 seps1))"
    using r3(6) by (simp add: file_append_def r4_def finished_file_def Let_def)
  moreover have "Table_Finish compress r = Some (OK, file_append (Footer_EncodeTo [] ?f) r4)"
    using r1(1) wf wm wi wo by (simp add: Table_Finish_def) (simp add: file_append_def)
  ultimately show ?thesis using r1(3) rep sep1 content by (intro exI conjI) auto
qed

text \<open>A whole table.\<close>

theorem built_table:
  assumes "plain_options compress opt" and "sorted_entries es" and "wf_outcomes f = []" and "wf_content f = []"
  shows "\<exists>r1 r2 r3 cs seps. new_TableBuilder opt f = Some r1 \<and> table_adds compress es r1 = Some r2 \<and> Table_Finish compress r2 = Some (OK, r3) \<and>
    concat cs = es \<and> [] \<notin> set cs \<and> length seps = length cs \<and> separates cs seps \<and>
    wf_content (tr_file r3) = finished_file (op_restart_interval opt) cs seps \<and>
    Table_FileSize r3 = of_nat (length (wf_content (tr_file r3)))"
proof -
  obtain r1 where r1: "new_TableBuilder opt f = Some r1" "builder_rep opt [] [] [] r1" using new_rep [OF assms(1,3,4)] by blast
  obtain r2 cs cur seps where r2: "table_adds compress es r1 = Some r2" "builder_rep opt cs cur seps r2" "concat cs @ cur = es"
    using adds_rep [OF assms(1) r1(2), of es] assms(2) unfolding concat.simps append_Nil by blast
  have "list_all (\<lambda>e. ok (fst e)) (concat cs @ cur)" using r2(3) assms(2) by (simp add: sorted_entries_def)
  from Finish_rep [OF assms(1) r2(2) this] r1(1) r2(1,3) show ?thesis unfolding Table_FileSize_def by metis
qed

end

end
