(* ===== verification/Ldb_Wrapper.thy ===== *)
theory Ldb_Wrapper
  imports Ldb_Block
begin

text \<open>
  Iterators as objects: the virtual functions of \<^verbatim>\<open>include/leveldb/iterator.h\<close> as a record of operations
  on a state, the iterators over blocks and the empty ones of \<^verbatim>\<open>table/iterator.cc\<close> as instances, and
  the wrapper of \<^verbatim>\<open>table/iterator_wrapper.h\<close>, which caches whether an iterator is valid and its key.
  Cleanup functions are not modelled.
\<close>

section \<open>Operations\<close>

record 's iter_ops =
  io_valid :: "'s \<Rightarrow> bool"
  io_key :: "'s \<Rightarrow> bytes option"
  io_value :: "'s \<Rightarrow> bytes option"
  io_first :: "'s \<Rightarrow> 's option"
  io_last :: "'s \<Rightarrow> 's option"
  io_next :: "'s \<Rightarrow> 's option"
  io_prev :: "'s \<Rightarrow> 's option"
  io_seek :: "bytes \<Rightarrow> 's \<Rightarrow> 's option"
  io_status :: "'s \<Rightarrow> Status"

definition io_entry :: "'s iter_ops \<Rightarrow> 's \<Rightarrow> entry option" where
  "io_entry ops s = do { k \<leftarrow> io_key ops s; v \<leftarrow> io_value ops s; Some (k, v) }"

text \<open>Operations that need a valid iterator fail on an empty one, as the assertions say.\<close>

definition on_block :: "(BlockIter \<Rightarrow> BlockIter option) \<Rightarrow> table_iter \<Rightarrow> table_iter option \<Rightarrow> table_iter option" where
  "on_block f it otherwise = (case it of Iter b \<Rightarrow> map_option Iter (f b) | _ \<Rightarrow> otherwise)"

definition table_iter_ops :: "(bytes \<Rightarrow> bytes \<Rightarrow> int) \<Rightarrow> table_iter iter_ops" where
  "table_iter_ops compare =
     \<lparr>io_valid = (\<lambda>it. case it of Iter b \<Rightarrow> Iter_Valid b | _ \<Rightarrow> False),
      io_key = (\<lambda>it. case it of Iter b \<Rightarrow> Some (Iter_key b) | _ \<Rightarrow> None),
      io_value = (\<lambda>it. case it of Iter b \<Rightarrow> Iter_value b | _ \<Rightarrow> None),
      io_first = (\<lambda>it. on_block Iter_SeekToFirst it (Some it)),
      io_last = (\<lambda>it. on_block Iter_SeekToLast it (Some it)),
      io_next = (\<lambda>it. on_block Iter_Next it None),
      io_prev = (\<lambda>it. on_block Iter_Prev it None),
      io_seek = (\<lambda>target it. on_block (Iter_Seek compare target) it (Some it)),
      io_status = (\<lambda>it. case it of Iter b \<Rightarrow> bi_status b | EmptyIterator \<Rightarrow> OK | ErrorIterator s \<Rightarrow> s)\<rparr>"

section \<open>The wrapper\<close>

text \<open>The key is only read when the wrapper is valid; otherwise it is what it was.\<close>

record 's wrapper =
  iw_iter :: "'s option"
  iw_valid :: bool
  iw_key :: bytes

definition new_wrapper :: "'s wrapper" where
  "new_wrapper = \<lparr>iw_iter = None, iw_valid = False, iw_key = []\<rparr>"

definition iw_Update :: "'s iter_ops \<Rightarrow> 's \<Rightarrow> 's wrapper \<Rightarrow> 's wrapper option" where
  "iw_Update ops it w =
     (if io_valid ops it then do { k \<leftarrow> io_key ops it; Some (w\<lparr>iw_iter := Some it, iw_valid := True, iw_key := k\<rparr>) }
      else Some (w\<lparr>iw_iter := Some it, iw_valid := False\<rparr>))"

definition iw_Set :: "'s iter_ops \<Rightarrow> 's option \<Rightarrow> 's wrapper \<Rightarrow> 's wrapper option" where
  "iw_Set ops iter w =
     (case iter of None \<Rightarrow> Some (w\<lparr>iw_iter := None, iw_valid := False\<rparr>) | Some it \<Rightarrow> iw_Update ops it w)"

definition iw_step :: "'s iter_ops \<Rightarrow> ('s \<Rightarrow> 's option) \<Rightarrow> 's wrapper \<Rightarrow> 's wrapper option" where
  "iw_step ops f w = do { it \<leftarrow> iw_iter w; it \<leftarrow> f it; iw_Update ops it w }"

definition wrapper_ops :: "'s iter_ops \<Rightarrow> 's wrapper iter_ops" where
  "wrapper_ops ops =
     \<lparr>io_valid = iw_valid,
      io_key = (\<lambda>w. if iw_valid w then Some (iw_key w) else None),
      io_value = (\<lambda>w. if iw_valid w then iw_iter w \<bind> io_value ops else None),
      io_first = iw_step ops (io_first ops),
      io_last = iw_step ops (io_last ops),
      io_next = iw_step ops (io_next ops),
      io_prev = iw_step ops (io_prev ops),
      io_seek = (\<lambda>k. iw_step ops (io_seek ops k)),
      io_status = (\<lambda>w. case iw_iter w of Some it \<Rightarrow> io_status ops it | None \<Rightarrow> OK)\<rparr>"

section \<open>The contract\<close>

locale op_iterator = iterator entries ok before inv pos "io_valid ops" "io_entry ops" "io_first ops" "io_last ops"
    "io_next ops" "io_prev ops" "io_seek ops"
  for ops :: "'s iter_ops" and entries ok before inv pos
begin

lemma key_pos: "inv s \<Longrightarrow> io_valid ops s \<Longrightarrow> io_key ops s = Some (fst (entries ! pos s)) \<and> io_value ops s = Some (snd (entries ! pos s))"
  using entry_pos [of s] by (cases "entries ! pos s") (auto simp: io_entry_def bind_eq_Some_conv)

definition winv :: "'s wrapper \<Rightarrow> bool" where
  "winv w \<longleftrightarrow> (\<exists>it. iw_iter w = Some it \<and> inv it \<and> iw_valid w = io_valid ops it \<and>
     (io_valid ops it \<longrightarrow> io_key ops it = Some (iw_key w)))"

definition wpos :: "'s wrapper \<Rightarrow> nat" where
  "wpos w = pos (the (iw_iter w))"

lemma Update_winv: "inv it \<Longrightarrow> \<exists>w'. iw_Update ops it w = Some w' \<and> winv w' \<and> wpos w' = pos it"
  using key_pos [of it] by (cases "io_valid ops it") (auto simp: iw_Update_def winv_def wpos_def)

lemma step_winv:
  assumes "winv w" and "\<And>it. iw_iter w = Some it \<Longrightarrow> inv it \<Longrightarrow> io_valid ops it = iw_valid w \<Longrightarrow> pos it = wpos w \<Longrightarrow>
      \<exists>it'. f it = Some it' \<and> inv it' \<and> pos it' = n"
  shows "\<exists>w'. iw_step ops f w = Some w' \<and> winv w' \<and> wpos w' = n"
proof -
  from assms(1) obtain it where it: "iw_iter w = Some it" "inv it" "io_valid ops it = iw_valid w" by (auto simp: winv_def)
  then obtain it' where "f it = Some it'" "inv it'" "pos it' = n" using assms(2) [of it] by (auto simp: wpos_def)
  then show ?thesis using Update_winv [of it' w] it(1) by (auto simp: iw_step_def)
qed

text \<open>A wrapped iterator satisfies the contract that the iterator satisfies.\<close>

theorem wrapped: "op_iterator (wrapper_ops ops) entries ok before winv wpos"
proof
  fix w assume w: "winv w"
  then obtain it where it: "iw_iter w = Some it" "inv it" "io_valid ops it = iw_valid w" "wpos w = pos it"
      "iw_valid w \<longrightarrow> io_key ops it = Some (iw_key w)"
    by (auto simp: winv_def wpos_def)
  show "io_valid (wrapper_ops ops) w = (wpos w < length entries)"
    using it valid_pos by (simp add: wrapper_ops_def)
  show "io_entry (wrapper_ops ops) w = Some (entries ! wpos w)" if "io_valid (wrapper_ops ops) w"
    using it key_pos [of it] that by (cases "entries ! pos it") (simp add: wrapper_ops_def io_entry_def)
  show "\<exists>s'. io_first (wrapper_ops ops) w = Some s' \<and> winv s' \<and> wpos s' = 0"
    using step_winv [OF w first_pos] by (simp add: wrapper_ops_def)
  show "\<exists>s'. io_last (wrapper_ops ops) w = Some s' \<and> winv s' \<and> wpos s' = length entries - 1"
    using step_winv [OF w final_pos] by (simp add: wrapper_ops_def)
  show "\<exists>s'. io_seek (wrapper_ops ops) target w = Some s' \<and> winv s' \<and> wpos s' = length (takeWhile (\<lambda>e. before (fst e) target) entries)"
    if "ok target" for target
    using step_winv [OF w seek_pos [OF _ that]] by (simp add: wrapper_ops_def)
  assume "io_valid (wrapper_ops ops) w"
  then have v: "iw_valid w" by (simp add: wrapper_ops_def)
  show "\<exists>s'. io_next (wrapper_ops ops) w = Some s' \<and> winv s' \<and> wpos s' = Suc (wpos w)"
    using step_winv [OF w, of "io_next ops"] next_pos v by (fastforce simp: wrapper_ops_def)
  show "\<exists>s'. io_prev (wrapper_ops ops) w = Some s' \<and> winv s' \<and> wpos s' = (if wpos w = 0 then length entries else wpos w - 1)"
    using step_winv [OF w, of "io_prev ops"] prev_pos v by (fastforce simp: wrapper_ops_def)
qed

end

section \<open>Iterators over blocks\<close>

definition ti_inv :: "(BlockIter \<Rightarrow> bool) \<Rightarrow> table_iter \<Rightarrow> bool" where
  "ti_inv binv it = (case it of Iter b \<Rightarrow> binv b | _ \<Rightarrow> False)"

definition ti_pos :: "(BlockIter \<Rightarrow> nat) \<Rightarrow> table_iter \<Rightarrow> nat" where
  "ti_pos bpos it = (case it of Iter b \<Rightarrow> bpos b | _ \<Rightarrow> 0)"

lemma table_iterator:
  assumes "iterator es ok before binv bpos Iter_Valid Iter_entry Iter_SeekToFirst Iter_SeekToLast Iter_Next Iter_Prev (Iter_Seek compare)"
  shows "op_iterator (table_iter_ops compare) es ok before (ti_inv binv) (ti_pos bpos)"
proof
  fix it assume "ti_inv binv it"
  then obtain b where b: "it = Iter b" "binv b" by (auto simp: ti_inv_def split: table_iter.splits)
  note at = iterator.valid_pos [OF assms b(2)] iterator.entry_pos [OF assms b(2)] iterator.first_pos [OF assms b(2)]
    iterator.final_pos [OF assms b(2)] iterator.next_pos [OF assms b(2)] iterator.prev_pos [OF assms b(2)] iterator.seek_pos [OF assms b(2)]
  let ?ops = "table_iter_ops compare"
  show "io_valid ?ops it = (ti_pos bpos it < length es)" using at(1) by (simp add: b table_iter_ops_def ti_pos_def)
  show "io_entry ?ops it = Some (es ! ti_pos bpos it)" if "io_valid ?ops it"
    using at(2) that by (auto simp: b table_iter_ops_def ti_pos_def io_entry_def Iter_entry_def bind_eq_Some_conv)
  show "\<exists>s'. io_first ?ops it = Some s' \<and> ti_inv binv s' \<and> ti_pos bpos s' = 0"
    using at(3) by (force simp: b table_iter_ops_def ti_pos_def ti_inv_def on_block_def)
  show "\<exists>s'. io_last ?ops it = Some s' \<and> ti_inv binv s' \<and> ti_pos bpos s' = length es - 1"
    using at(4) by (force simp: b table_iter_ops_def ti_pos_def ti_inv_def on_block_def)
  show "\<exists>s'. io_seek ?ops target it = Some s' \<and> ti_inv binv s' \<and> ti_pos bpos s' = length (takeWhile (\<lambda>e. before (fst e) target) es)"
    if "ok target" for target
    using at(7) [OF that] by (force simp: b table_iter_ops_def ti_pos_def ti_inv_def on_block_def)
  assume "io_valid ?ops it"
  then have v: "Iter_Valid b" by (simp add: b table_iter_ops_def)
  show "\<exists>s'. io_next ?ops it = Some s' \<and> ti_inv binv s' \<and> ti_pos bpos s' = Suc (ti_pos bpos it)"
    using at(5) [OF v] by (force simp: b table_iter_ops_def ti_pos_def ti_inv_def on_block_def)
  show "\<exists>s'. io_prev ?ops it = Some s' \<and> ti_inv binv s' \<and> ti_pos bpos s' = (if ti_pos bpos it = 0 then length es else ti_pos bpos it - 1)"
    using at(6) [OF v] by (force simp: b table_iter_ops_def ti_pos_def ti_inv_def on_block_def)
qed

interpretation internal_table: op_iterator "table_iter_ops (InternalKey_Compare Slice_compare)" es "internal_ok (\<lambda>_. True)"
    "\<lambda>k t. InternalKey_Compare Slice_compare k t < 0"
    "ti_inv (\<lambda>it. internal.sorted_entries es \<and> bi_inv K es it)" "ti_pos (bi_pos K es)" for K es
  by (rule table_iterator) (rule internal.block_iterator)

end
