(* ===== verification/Ldb_Two_Level.thy ===== *)
theory Ldb_Two_Level
  imports Ldb_Wrapper
begin

text \<open>
  The two-level iterator (\<^verbatim>\<open>table/two_level_iterator.cc\<close>): an index iterator whose values name blocks, and
  the iterator over the current block, which the block function makes. \<open>'c\<close> is the state behind
  \<^verbatim>\<open>arg_\<close>. When both levels satisfy the iterator contract, so does the whole, with the entries of all
  blocks one after the other.
\<close>

section \<open>The code\<close>

record ('i, 'd, 'c) two_level =
  tl_arg :: 'c
  tl_status :: Status
  tl_index :: "'i wrapper"
  tl_data :: "'d wrapper"
  tl_handle :: bytes

type_synonym ('d, 'c) block_function = "bytes \<Rightarrow> 'c \<Rightarrow> ('d \<times> 'c) option"

definition new_two_level :: "'i iter_ops \<Rightarrow> 'i \<Rightarrow> 'c \<Rightarrow> ('i, 'd, 'c) two_level option" where
  "new_two_level iops index c = do {
     w \<leftarrow> iw_Set iops (Some index) new_wrapper;
     Some \<lparr>tl_arg = c, tl_status = OK, tl_index = w, tl_data = new_wrapper, tl_handle = []\<rparr>
   }"

definition SaveError :: "Status \<Rightarrow> ('i, 'd, 'c) two_level \<Rightarrow> ('i, 'd, 'c) two_level" where
  "SaveError s t = (if Status_ok (tl_status t) \<and> \<not> Status_ok s then t\<lparr>tl_status := s\<rparr> else t)"

definition SetDataIterator :: "'d iter_ops \<Rightarrow> 'd option \<Rightarrow> ('i, 'd, 'c) two_level \<Rightarrow> ('i, 'd, 'c) two_level option" where
  "SetDataIterator dops data_iter t = do {
     let t = (case iw_iter (tl_data t) of Some d \<Rightarrow> SaveError (io_status dops d) t | None \<Rightarrow> t);
     w \<leftarrow> iw_Set dops data_iter (tl_data t);
     Some (t\<lparr>tl_data := w\<rparr>)
   }"

definition InitDataBlock ::
    "'i iter_ops \<Rightarrow> 'd iter_ops \<Rightarrow> ('d, 'c) block_function \<Rightarrow> ('i, 'd, 'c) two_level \<Rightarrow> ('i, 'd, 'c) two_level option" where
  "InitDataBlock iops dops block_function t =
     (if \<not> iw_valid (tl_index t) then SetDataIterator dops None t
      else do {
        handle \<leftarrow> io_value (wrapper_ops iops) (tl_index t);
        if iw_iter (tl_data t) \<noteq> None \<and> Slice_compare handle (tl_handle t) = 0 then Some t
        else do {
          (iter, c) \<leftarrow> block_function handle (tl_arg t);
          SetDataIterator dops (Some iter) (t\<lparr>tl_arg := c, tl_handle := handle\<rparr>)
        }
      })"

text \<open>An operation of the index iterator, and one of the data iterator unless it is null.\<close>

definition index_step :: "('i wrapper \<Rightarrow> 'i wrapper option) \<Rightarrow> ('i, 'd, 'c) two_level \<Rightarrow> ('i, 'd, 'c) two_level option" where
  "index_step f t = do { w \<leftarrow> f (tl_index t); Some (t\<lparr>tl_index := w\<rparr>) }"

definition data_step :: "('d wrapper \<Rightarrow> 'd wrapper option) \<Rightarrow> ('i, 'd, 'c) two_level \<Rightarrow> ('i, 'd, 'c) two_level option" where
  "data_step f t = do { w \<leftarrow> f (tl_data t); Some (t\<lparr>tl_data := w\<rparr>) }"

definition if_data :: "(('i, 'd, 'c) two_level \<Rightarrow> ('i, 'd, 'c) two_level option) \<Rightarrow> ('i, 'd, 'c) two_level \<Rightarrow> ('i, 'd, 'c) two_level option" where
  "if_data f t = (if iw_iter (tl_data t) \<noteq> None then f t else Some t)"

partial_function (option) SkipEmptyDataBlocksForward ::
    "'i iter_ops \<Rightarrow> 'd iter_ops \<Rightarrow> ('d, 'c) block_function \<Rightarrow> ('i, 'd, 'c) two_level \<Rightarrow> ('i, 'd, 'c) two_level option" where
  "SkipEmptyDataBlocksForward iops dops block_function t =
     (if iw_iter (tl_data t) = None \<or> \<not> iw_valid (tl_data t) then
        if \<not> iw_valid (tl_index t) then SetDataIterator dops None t
        else do {
          t \<leftarrow> index_step (io_next (wrapper_ops iops)) t;
          t \<leftarrow> InitDataBlock iops dops block_function t;
          t \<leftarrow> if_data (data_step (io_first (wrapper_ops dops))) t;
          SkipEmptyDataBlocksForward iops dops block_function t
        }
      else Some t)"

partial_function (option) SkipEmptyDataBlocksBackward ::
    "'i iter_ops \<Rightarrow> 'd iter_ops \<Rightarrow> ('d, 'c) block_function \<Rightarrow> ('i, 'd, 'c) two_level \<Rightarrow> ('i, 'd, 'c) two_level option" where
  "SkipEmptyDataBlocksBackward iops dops block_function t =
     (if iw_iter (tl_data t) = None \<or> \<not> iw_valid (tl_data t) then
        if \<not> iw_valid (tl_index t) then SetDataIterator dops None t
        else do {
          t \<leftarrow> index_step (io_prev (wrapper_ops iops)) t;
          t \<leftarrow> InitDataBlock iops dops block_function t;
          t \<leftarrow> if_data (data_step (io_last (wrapper_ops dops))) t;
          SkipEmptyDataBlocksBackward iops dops block_function t
        }
      else Some t)"

definition TL_Seek ::
    "'i iter_ops \<Rightarrow> 'd iter_ops \<Rightarrow> ('d, 'c) block_function \<Rightarrow> bytes \<Rightarrow> ('i, 'd, 'c) two_level \<Rightarrow> ('i, 'd, 'c) two_level option" where
  "TL_Seek iops dops block_function target t = do {
     t \<leftarrow> index_step (io_seek (wrapper_ops iops) target) t;
     t \<leftarrow> InitDataBlock iops dops block_function t;
     t \<leftarrow> if_data (data_step (io_seek (wrapper_ops dops) target)) t;
     SkipEmptyDataBlocksForward iops dops block_function t
   }"

definition TL_SeekToFirst ::
    "'i iter_ops \<Rightarrow> 'd iter_ops \<Rightarrow> ('d, 'c) block_function \<Rightarrow> ('i, 'd, 'c) two_level \<Rightarrow> ('i, 'd, 'c) two_level option" where
  "TL_SeekToFirst iops dops block_function t = do {
     t \<leftarrow> index_step (io_first (wrapper_ops iops)) t;
     t \<leftarrow> InitDataBlock iops dops block_function t;
     t \<leftarrow> if_data (data_step (io_first (wrapper_ops dops))) t;
     SkipEmptyDataBlocksForward iops dops block_function t
   }"

definition TL_SeekToLast ::
    "'i iter_ops \<Rightarrow> 'd iter_ops \<Rightarrow> ('d, 'c) block_function \<Rightarrow> ('i, 'd, 'c) two_level \<Rightarrow> ('i, 'd, 'c) two_level option" where
  "TL_SeekToLast iops dops block_function t = do {
     t \<leftarrow> index_step (io_last (wrapper_ops iops)) t;
     t \<leftarrow> InitDataBlock iops dops block_function t;
     t \<leftarrow> if_data (data_step (io_last (wrapper_ops dops))) t;
     SkipEmptyDataBlocksBackward iops dops block_function t
   }"

definition TL_Next ::
    "'i iter_ops \<Rightarrow> 'd iter_ops \<Rightarrow> ('d, 'c) block_function \<Rightarrow> ('i, 'd, 'c) two_level \<Rightarrow> ('i, 'd, 'c) two_level option" where
  "TL_Next iops dops block_function t = do {
     t \<leftarrow> data_step (io_next (wrapper_ops dops)) t;
     SkipEmptyDataBlocksForward iops dops block_function t
   }"

definition TL_Prev ::
    "'i iter_ops \<Rightarrow> 'd iter_ops \<Rightarrow> ('d, 'c) block_function \<Rightarrow> ('i, 'd, 'c) two_level \<Rightarrow> ('i, 'd, 'c) two_level option" where
  "TL_Prev iops dops block_function t = do {
     t \<leftarrow> data_step (io_prev (wrapper_ops dops)) t;
     SkipEmptyDataBlocksBackward iops dops block_function t
   }"

definition TL_status :: "'i iter_ops \<Rightarrow> 'd iter_ops \<Rightarrow> ('i, 'd, 'c) two_level \<Rightarrow> Status" where
  "TL_status iops dops t =
     (let s = io_status (wrapper_ops iops) (tl_index t); d = io_status (wrapper_ops dops) (tl_data t) in
      if \<not> Status_ok s then s
      else if iw_iter (tl_data t) \<noteq> None \<and> \<not> Status_ok d then d
      else tl_status t)"

definition two_level_ops ::
    "'i iter_ops \<Rightarrow> 'd iter_ops \<Rightarrow> ('d, 'c) block_function \<Rightarrow> ('i, 'd, 'c) two_level iter_ops" where
  "two_level_ops iops dops block_function =
     \<lparr>io_valid = (\<lambda>t. iw_valid (tl_data t)),
      io_key = (\<lambda>t. io_key (wrapper_ops dops) (tl_data t)),
      io_value = (\<lambda>t. io_value (wrapper_ops dops) (tl_data t)),
      io_first = TL_SeekToFirst iops dops block_function,
      io_last = TL_SeekToLast iops dops block_function,
      io_next = TL_Next iops dops block_function,
      io_prev = TL_Prev iops dops block_function,
      io_seek = TL_Seek iops dops block_function,
      io_status = TL_status iops dops\<rparr>"

section \<open>The contract\<close>

lemma takeWhile_append_stop: "takeWhile P b = [] \<Longrightarrow> takeWhile P (a @ b) = takeWhile P a"
  by (induction a) auto

text \<open>
  What the two levels have to promise: the values of the index name blocks that the block function can
  open, and the keys of the index separate the blocks.
\<close>

locale two_level_contract =
  index: op_iterator iops ientries ok ibefore iinv ipos
  for iops :: "'i iter_ops" and ientries ok ibefore iinv ipos +
  fixes dops :: "'d iter_ops" and block_function :: "('d, 'c) block_function"
    and contents :: "bytes \<Rightarrow> entry list" and before :: "bytes \<Rightarrow> bytes \<Rightarrow> bool"
    and dinv :: "bytes \<Rightarrow> 'd \<Rightarrow> bool" and dpos :: "bytes \<Rightarrow> 'd \<Rightarrow> nat" and cinv :: "'c \<Rightarrow> bool"
  assumes data: "h \<in> snd ` set ientries \<Longrightarrow> op_iterator dops (contents h) ok before (dinv h) (dpos h)"
    and block: "h \<in> snd ` set ientries \<Longrightarrow> cinv c \<Longrightarrow> \<exists>d c'. block_function h c = Some (d, c') \<and> dinv h d \<and> cinv c'"
    and block_before: "cinv c \<Longrightarrow> j < length ientries \<Longrightarrow> ok t \<Longrightarrow> ibefore (fst (ientries ! j)) t \<Longrightarrow>
      e \<in> set (contents (snd (ientries ! j))) \<Longrightarrow> before (fst e) t"
    and block_behind: "cinv c \<Longrightarrow> i < j \<Longrightarrow> j < length ientries \<Longrightarrow> ok t \<Longrightarrow> \<not> ibefore (fst (ientries ! i)) t \<Longrightarrow>
      e \<in> set (contents (snd (ientries ! j))) \<Longrightarrow> \<not> before (fst e) t"
begin

abbreviation (input) n :: nat where "n \<equiv> length ientries"
abbreviation (input) blk :: "nat \<Rightarrow> bytes" where "blk i \<equiv> snd (ientries ! i)"

definition all_entries :: "entry list" where
  "all_entries = concat (map (\<lambda>e. contents (snd e)) ientries)"

definition start :: "nat \<Rightarrow> nat" where
  "start i = length (concat (map (\<lambda>e. contents (snd e)) (take i ientries)))"

lemma start_Suc: "i < n \<Longrightarrow> start (Suc i) = start i + length (contents (blk i))"
  by (simp add: start_def take_Suc_conv_app_nth)

lemma start_0 [simp]: "start 0 = 0"
  by (simp add: start_def)

lemma start_n: "start n = length all_entries"
  by (simp add: start_def all_entries_def)

lemma start_mono: "i \<le> j \<Longrightarrow> start i \<le> start j"
proof -
  assume "i \<le> j"
  then have "take j ientries = take i ientries @ take (j - i) (drop i ientries)" by (metis le_add_diff_inverse take_add)
  then show ?thesis by (simp add: start_def)
qed

lemma all_split: "i < n \<Longrightarrow> all_entries = take (start i) all_entries @ contents (blk i) @ drop (start (Suc i)) all_entries"
proof -
  assume "i < n"
  then have "ientries = take i ientries @ (ientries ! i) # drop (Suc i) ientries" by (rule id_take_nth_drop)
  from arg_cong [OF this, of "\<lambda>l. concat (map (\<lambda>e. contents (snd e)) l)"]
  have "all_entries = concat (map (\<lambda>e. contents (snd e)) (take i ientries)) @ contents (blk i) @
      concat (map (\<lambda>e. contents (snd e)) (drop (Suc i) ientries))"
    unfolding all_entries_def map_append concat_append list.map concat.simps .
  then show ?thesis using start_Suc [OF \<open>i < n\<close>] by (simp add: start_def)
qed

lemma all_nth: "i < n \<Longrightarrow> j < length (contents (blk i)) \<Longrightarrow> start i + j < length all_entries \<and> all_entries ! (start i + j) = contents (blk i) ! j"
proof -
  assume i: "i < n" and j: "j < length (contents (blk i))"
  have l: "start i + j < start (Suc i)" "start (Suc i) \<le> length all_entries"
    using start_Suc [OF i] j start_mono [of "Suc i" n] i by (simp_all add: start_n)
  then have "length (take (start i) all_entries) = start i" by simp
  then have "all_entries ! (start i + j) = (contents (blk i) @ drop (start (Suc i)) all_entries) ! j"
    using all_split [OF i] by (metis nth_append_length_plus)
  then show ?thesis using l j by (simp add: nth_append)
qed

text \<open>
  The states. In \<open>loose\<close> the data iterator is one over the block of index position \<open>i\<close>, valid or not; in
  \<open>ended\<close> there is no data iterator.
\<close>

definition base :: "('i, 'd, 'c) two_level \<Rightarrow> bool" where
  "base t \<longleftrightarrow> cinv (tl_arg t) \<and> index.winv (tl_index t)"

definition data_winv :: "bytes \<Rightarrow> 'd wrapper \<Rightarrow> bool" where
  "data_winv b w \<longleftrightarrow> op_iterator.winv dops (dinv b) w"

definition data_wpos :: "bytes \<Rightarrow> 'd wrapper \<Rightarrow> nat" where
  "data_wpos b w = op_iterator.wpos (dpos b) w"

definition loose :: "nat \<Rightarrow> nat \<Rightarrow> ('i, 'd, 'c) two_level \<Rightarrow> bool" where
  "loose i j t \<longleftrightarrow> base t \<and> index.wpos (tl_index t) = i \<and> i < n \<and> tl_handle t = blk i \<and>
     data_winv (blk i) (tl_data t) \<and> data_wpos (blk i) (tl_data t) = j"

definition ended :: "('i, 'd, 'c) two_level \<Rightarrow> bool" where
  "ended t \<longleftrightarrow> base t \<and> iw_iter (tl_data t) = None \<and> \<not> iw_valid (tl_data t)"

definition tl_inv :: "('i, 'd, 'c) two_level \<Rightarrow> bool" where
  "tl_inv t \<longleftrightarrow> ended t \<or> (\<exists>i j. loose i j t \<and> j < length (contents (blk i)))"

definition tl_pos :: "('i, 'd, 'c) two_level \<Rightarrow> nat" where
  "tl_pos t = (if iw_iter (tl_data t) = None then length all_entries
     else start (index.wpos (tl_index t)) + data_wpos (tl_handle t) (tl_data t))"

lemma data_wrapped: "i < n \<Longrightarrow> op_iterator (wrapper_ops dops) (contents (blk i)) ok before (data_winv (blk i)) (data_wpos (blk i))"
proof -
  assume "i < n"
  then have "blk i \<in> snd ` set ientries" by simp
  from op_iterator.wrapped [OF data [OF this]] show ?thesis unfolding data_winv_def [abs_def] data_wpos_def [abs_def] .
qed

lemma data_winv_some: "i < n \<Longrightarrow> data_winv (blk i) w \<Longrightarrow> iw_iter w \<noteq> None"
  using op_iterator.winv_def [OF data] by (auto simp: data_winv_def)

lemmas iterator_laws = iterator.valid_pos iterator.first_pos iterator.final_pos iterator.next_pos iterator.prev_pos iterator.seek_pos

lemmas op_iteratorD = op_iterator_def [THEN meta_eq_to_obj_eq, THEN iffD1]

lemmas index_laws = iterator_laws [OF op_iteratorD [OF index.wrapped]]
lemmas data_laws = iterator_laws [OF op_iteratorD [OF data_wrapped]]

lemma iw_valid_ops: "io_valid (wrapper_ops ops) w = iw_valid w"
  by (simp add: wrapper_ops_def)

lemma loose_valid: "loose i j t \<Longrightarrow> iw_valid (tl_data t) \<longleftrightarrow> j < length (contents (blk i))"
  using data_laws(1) [of i "tl_data t"] by (auto simp: loose_def iw_valid_ops)

lemma loose_some: "loose i j t \<Longrightarrow> iw_iter (tl_data t) \<noteq> None"
  using data_winv_some by (auto simp: loose_def)

text \<open>A data step in a loose state.\<close>

lemma data_step_loose:
  assumes "loose i j t" and "\<exists>w. f (tl_data t) = Some w \<and> data_winv (blk i) w \<and> data_wpos (blk i) w = j'"
  shows "\<exists>t'. data_step f t = Some t' \<and> loose i j' t'"
  using assms by (auto simp: data_step_def loose_def base_def)

lemma index_step_base:
  assumes "base t" and "\<exists>w. f (tl_index t) = Some w \<and> index.winv w \<and> index.wpos w = i'"
  shows "\<exists>t'. index_step f t = Some t' \<and> base t' \<and> index.wpos (tl_index t') = i' \<and> tl_data t' = tl_data t \<and> tl_handle t' = tl_handle t"
  using assms by (auto simp: index_step_def base_def)

lemma SetDataIterator_None: "base t \<Longrightarrow> \<exists>t'. SetDataIterator dops None t = Some t' \<and> ended t'"
  by (cases "iw_iter (tl_data t)") (auto simp: SetDataIterator_def iw_Set_def ended_def base_def SaveError_def)

lemma SetDataIterator_Some:
  assumes "base t" and "index.wpos (tl_index t) = i" and "i < n" and "tl_handle t = blk i" and "dinv (blk i) d"
  shows "\<exists>t' j. SetDataIterator dops (Some d) t = Some t' \<and> loose i j t'"
proof -
  have "blk i \<in> snd ` set ientries" using assms(3) by simp
  from op_iterator.Update_winv [OF data [OF this] assms(5), of "tl_data t"] obtain w where
    w: "iw_Update dops d (tl_data t) = Some w" "data_winv (blk i) w" by (auto simp: data_winv_def)
  have "SetDataIterator dops (Some d) t =
      Some ((case iw_iter (tl_data t) of Some d \<Rightarrow> SaveError (io_status dops d) t | None \<Rightarrow> t)\<lparr>tl_data := w\<rparr>)"
    using w(1) by (auto simp: SetDataIterator_def iw_Set_def SaveError_def split: option.splits)
  then show ?thesis using assms(1-4) w(2) by (auto simp: loose_def base_def SaveError_def split: option.splits)
qed

text \<open>After moving the index, the data iterator is over its block, or gone.\<close>

lemma InitDataBlock_loose:
  assumes "base t" and "index.wpos (tl_index t) = i"
    and "iw_iter (tl_data t) \<noteq> None \<Longrightarrow> \<exists>k < n. tl_handle t = blk k \<and> data_winv (blk k) (tl_data t)"
  shows "\<exists>t'. InitDataBlock iops dops block_function t = Some t' \<and> (if i < n then \<exists>j. loose i j t' else ended t' \<and> \<not> iw_valid (tl_index t'))"
proof -
  have v: "iw_valid (tl_index t) \<longleftrightarrow> i < n" using index_laws(1) [of "tl_index t"] assms(1,2) by (simp add: base_def iw_valid_ops)
  show ?thesis
  proof (cases "i < n")
    case False
    then have e: "InitDataBlock iops dops block_function t = SetDataIterator dops None t" using v by (simp add: InitDataBlock_def)
    obtain t' where t': "SetDataIterator dops None t = Some t'" "ended t'" using SetDataIterator_None [OF assms(1)] by blast
    then have "tl_index t' = tl_index t"
      by (cases "iw_iter (tl_data t)") (auto simp: SetDataIterator_def iw_Set_def SaveError_def Let_def split: if_splits)
    with e t' False v show ?thesis by auto
  next
    case True
    have val: "io_value (wrapper_ops iops) (tl_index t) = Some (blk i)"
      using op_iterator.key_pos [OF index.wrapped, of "tl_index t"] assms(1,2) True v by (simp add: base_def iw_valid_ops)
    show ?thesis
    proof (cases "iw_iter (tl_data t) \<noteq> None \<and> Slice_compare (blk i) (tl_handle t) = 0")
      case same: True
      then have "tl_handle t = blk i" "data_winv (blk i) (tl_data t)" using assms(3) by (auto simp: Slice_compare_0)
      then have "loose i (data_wpos (blk i) (tl_data t)) t" using assms(1,2) True by (simp add: loose_def)
      moreover have "InitDataBlock iops dops block_function t = Some t" using same True v val by (simp add: InitDataBlock_def)
      ultimately show ?thesis using True by auto
    next
      case other: False
      have "blk i \<in> snd ` set ientries" using True by simp
      then obtain d c where d: "block_function (blk i) (tl_arg t) = Some (d, c)" "dinv (blk i) d" "cinv c"
        using block [of "blk i" "tl_arg t"] assms(1) unfolding base_def by blast
      have "base (t\<lparr>tl_arg := c, tl_handle := blk i\<rparr>)" using assms(1) d(3) by (simp add: base_def)
      from SetDataIterator_Some [OF this _ True _ d(2)] assms(2) obtain t' j where
        "SetDataIterator dops (Some d) (t\<lparr>tl_arg := c, tl_handle := blk i\<rparr>) = Some t'" "loose i j t'" by auto
      moreover have "InitDataBlock iops dops block_function t = SetDataIterator dops (Some d) (t\<lparr>tl_arg := c, tl_handle := blk i\<rparr>)"
        using other True v val d(1) by (auto simp: InitDataBlock_def)
      ultimately show ?thesis using True by auto
    qed
  qed
qed

lemma move_to:
  assumes "base t" and "index.wpos (tl_index t) = i"
    and "iw_iter (tl_data t) \<noteq> None \<Longrightarrow> \<exists>k < n. tl_handle t = blk k \<and> data_winv (blk k) (tl_data t)"
    and "\<And>w. i < n \<Longrightarrow> data_winv (blk i) w \<Longrightarrow> \<exists>w'. f w = Some w' \<and> data_winv (blk i) w' \<and> data_wpos (blk i) w' = j"
  shows "\<exists>t1 t2. InitDataBlock iops dops block_function t = Some t1 \<and> if_data (data_step f) t1 = Some t2 \<and>
    (if i < n then loose i j t2 else ended t2 \<and> \<not> iw_valid (tl_index t2))"
proof -
  obtain t1 where t1: "InitDataBlock iops dops block_function t = Some t1"
    "if i < n then \<exists>j. loose i j t1 else ended t1 \<and> \<not> iw_valid (tl_index t1)"
    using InitDataBlock_loose [OF assms(1,2)] assms(3) by blast
  show ?thesis
  proof (cases "i < n")
    case True
    then obtain j0 where l: "loose i j0 t1" using t1(2) by auto
    then have "\<exists>w'. f (tl_data t1) = Some w' \<and> data_winv (blk i) w' \<and> data_wpos (blk i) w' = j"
      using assms(4) [OF True] by (simp add: loose_def)
    from data_step_loose [OF l, of f j, OF this] loose_some [OF l] t1(1) True show ?thesis by (auto simp: if_data_def)
  next
    case False
    with t1 show ?thesis by (intro exI [of _ t1]) (simp add: if_data_def ended_def)
  qed
qed

lemma loose_handle: "loose i j t \<Longrightarrow> \<exists>k < n. tl_handle t = blk k \<and> data_winv (blk k) (tl_data t)"
  by (auto simp: loose_def)

lemma loose_inv: "loose i j t \<Longrightarrow> j < length (contents (blk i)) \<Longrightarrow> tl_inv t \<and> tl_pos t = start i + j"
  using loose_some [of i j t] by (auto simp: tl_inv_def tl_pos_def loose_def)

lemma ended_inv: "ended t \<Longrightarrow> tl_inv t \<and> tl_pos t = length all_entries"
  by (simp add: tl_inv_def tl_pos_def ended_def)

lemma skip_ended:
  assumes "ended t" and "\<not> iw_valid (tl_index t)"
  shows "\<exists>t'. SkipEmptyDataBlocksForward iops dops block_function t = Some t' \<and> ended t'"
    "\<exists>t'. SkipEmptyDataBlocksBackward iops dops block_function t = Some t' \<and> ended t'"
  using assms SetDataIterator_None [of t]
  by (subst SkipEmptyDataBlocksForward.simps, simp add: ended_def, subst SkipEmptyDataBlocksBackward.simps, simp add: ended_def)

lemma skip_forward:
  "loose i j t \<Longrightarrow> j \<le> length (contents (blk i)) \<Longrightarrow>
    \<exists>t'. SkipEmptyDataBlocksForward iops dops block_function t = Some t' \<and> tl_inv t' \<and> tl_pos t' = start i + j"
proof (induction "n - i" arbitrary: i j t)
  case 0
  then show ?case by (simp add: loose_def)
next
  case (Suc m)
  have i: "i < n" and b: "base t" "index.wpos (tl_index t) = i" using Suc.prems(1) by (simp_all add: loose_def)
  show ?case
  proof (cases "j < length (contents (blk i))")
    case True
    then have "iw_valid (tl_data t)" using loose_valid [OF Suc.prems(1)] by simp
    then have "SkipEmptyDataBlocksForward iops dops block_function t = Some t"
      using loose_some [OF Suc.prems(1)] by (subst SkipEmptyDataBlocksForward.simps) auto
    then show ?thesis using loose_inv [OF Suc.prems(1) True] by simp
  next
    case False
    then have j: "j = length (contents (blk i))" and v: "\<not> iw_valid (tl_data t)" using Suc.prems loose_valid [OF Suc.prems(1)] by auto
    have iv: "iw_valid (tl_index t)" using index_laws(1) [of "tl_index t"] b i by (simp add: base_def iw_valid_ops)
    have "\<exists>w. io_next (wrapper_ops iops) (tl_index t) = Some w \<and> index.winv w \<and> index.wpos w = Suc i"
      using index_laws(4) [of "tl_index t"] b iv by (simp add: base_def iw_valid_ops)
    from index_step_base [OF b(1), of "io_next (wrapper_ops iops)" "Suc i", OF this] obtain t1 where t1: "index_step (io_next (wrapper_ops iops)) t = Some t1" "base t1"
        "index.wpos (tl_index t1) = Suc i" "tl_data t1 = tl_data t" "tl_handle t1 = tl_handle t" by blast
    have "\<exists>t2 t3. InitDataBlock iops dops block_function t1 = Some t2 \<and> if_data (data_step (io_first (wrapper_ops dops))) t2 = Some t3 \<and>
        (if Suc i < n then loose (Suc i) 0 t3 else ended t3 \<and> \<not> iw_valid (tl_index t3))"
      by (rule move_to [OF t1(2,3)]) (use loose_handle [OF Suc.prems(1)] t1(4,5) data_laws(2) in auto)
    then obtain t2 t3 where t3: "InitDataBlock iops dops block_function t1 = Some t2"
        "if_data (data_step (io_first (wrapper_ops dops))) t2 = Some t3"
        "if Suc i < n then loose (Suc i) 0 t3 else ended t3 \<and> \<not> iw_valid (tl_index t3)" by blast
    have step: "SkipEmptyDataBlocksForward iops dops block_function t = SkipEmptyDataBlocksForward iops dops block_function t3"
      using v iv t1(1) t3(1,2) by (subst SkipEmptyDataBlocksForward.simps) simp
    have s: "start i + j = start (Suc i)" using start_Suc [OF i] j by simp
    show ?thesis
    proof (cases "Suc i < n")
      case True
      then have "m = n - Suc i" "loose (Suc i) 0 t3" using Suc(2) t3(3) by auto
      from Suc(1) [OF this] s step show ?thesis by auto
    next
      case False
      then have "ended t3" "\<not> iw_valid (tl_index t3)" "Suc i = n" using t3(3) i by auto
      with skip_ended(1) [of t3] ended_inv s step start_n show ?thesis by auto
    qed
  qed
qed

lemma skip_backward:
  "loose i j t \<Longrightarrow> \<exists>t'. SkipEmptyDataBlocksBackward iops dops block_function t = Some t' \<and> tl_inv t' \<and>
    tl_pos t' = (if j < length (contents (blk i)) then start i + j else if start i = 0 then length all_entries else start i - 1)"
proof (induction i arbitrary: j t rule: less_induct)
  case (less i)
  have i: "i < n" and b: "base t" "index.wpos (tl_index t) = i" using less.prems(1) by (simp_all add: loose_def)
  show ?case
  proof (cases "j < length (contents (blk i))")
    case True
    then have "iw_valid (tl_data t)" using loose_valid [OF less.prems(1)] by simp
    then have "SkipEmptyDataBlocksBackward iops dops block_function t = Some t"
      using loose_some [OF less.prems(1)] by (subst SkipEmptyDataBlocksBackward.simps) auto
    then show ?thesis using loose_inv [OF less.prems(1) True] True by simp
  next
    case False
    then have v: "\<not> iw_valid (tl_data t)" using loose_valid [OF less.prems(1)] by auto
    have iv: "iw_valid (tl_index t)" using index_laws(1) [of "tl_index t"] b i by (simp add: base_def iw_valid_ops)
    let ?i = "if i = 0 then n else i - 1"
    have "\<exists>w. io_prev (wrapper_ops iops) (tl_index t) = Some w \<and> index.winv w \<and> index.wpos w = ?i"
      using index_laws(5) [of "tl_index t", unfolded b(2)] b(1) iv by (simp add: base_def iw_valid_ops split del: if_split)
    from index_step_base [OF b(1), of "io_prev (wrapper_ops iops)" ?i, OF this] obtain t1 where t1: "index_step (io_prev (wrapper_ops iops)) t = Some t1" "base t1"
        "index.wpos (tl_index t1) = ?i" "tl_data t1 = tl_data t" "tl_handle t1 = tl_handle t" by blast
    have "\<exists>t2 t3. InitDataBlock iops dops block_function t1 = Some t2 \<and> if_data (data_step (io_last (wrapper_ops dops))) t2 = Some t3 \<and>
        (if ?i < n then loose ?i (length (contents (blk ?i)) - 1) t3 else ended t3 \<and> \<not> iw_valid (tl_index t3))"
      by (rule move_to [OF t1(2,3)]) (use loose_handle [OF less.prems(1)] t1(4,5) data_laws(3) in \<open>auto split del: if_split\<close>)
    then obtain t2 t3 where t3: "InitDataBlock iops dops block_function t1 = Some t2"
        "if_data (data_step (io_last (wrapper_ops dops))) t2 = Some t3"
        "if ?i < n then loose ?i (length (contents (blk ?i)) - 1) t3 else ended t3 \<and> \<not> iw_valid (tl_index t3)" by blast
    have step: "SkipEmptyDataBlocksBackward iops dops block_function t = SkipEmptyDataBlocksBackward iops dops block_function t3"
      using v iv t1(1) t3(1,2) by (subst SkipEmptyDataBlocksBackward.simps) simp
    show ?thesis
    proof (cases i)
      case 0
      then have "ended t3" "\<not> iw_valid (tl_index t3)" using t3(3) by auto
      with skip_ended(2) [of t3] ended_inv step False 0 show ?thesis by auto
    next
      case (Suc k)
      then have l: "loose k (length (contents (blk k)) - 1) t3" "k < n" using t3(3) i by auto
      have "start i = start k + length (contents (blk k))" using start_Suc [OF l(2)] Suc by simp
      moreover from less.IH [OF _ l(1)] Suc obtain t' where "SkipEmptyDataBlocksBackward iops dops block_function t3 = Some t'" "tl_inv t'"
        "tl_pos t' = (if length (contents (blk k)) - 1 < length (contents (blk k)) then start k + (length (contents (blk k)) - 1)
          else if start k = 0 then length all_entries else start k - 1)" by blast
      ultimately show ?thesis using step False by (cases "contents (blk k)") auto
    qed
  qed
qed

text \<open>The operations.\<close>

lemma takeWhile_all:
  assumes "ok target" and "i = length (takeWhile (\<lambda>e. ibefore (fst e) target) ientries)" and "cinv c"
  shows "length (takeWhile (\<lambda>e. before (fst e) target) all_entries) =
    (if i < n then start i + length (takeWhile (\<lambda>e. before (fst e) target) (contents (blk i))) else length all_entries)"
proof -
  let ?P = "\<lambda>e :: entry. before (fst e) target"
  have less: "ibefore (fst (ientries ! j)) target" if "j < i" for j
    using that assms(2) by (metis nth_mem set_takeWhileD takeWhile_nth)
  have pre: "?P e" if "j < i" "j < n" "e \<in> set (contents (blk j))" for e j
    using block_before [OF assms(3) that(2) assms(1) less [OF that(1)] that(3)] .
  have pre_all: "\<forall>e \<in> set (concat (map (\<lambda>e. contents (snd e)) (take i ientries))). ?P e"
    using pre assms(2) length_takeWhile_le by (fastforce simp: in_set_conv_nth)
  show ?thesis
  proof (cases "i < n")
    case False
    then have "take i ientries = ientries" by simp
    then have "takeWhile ?P all_entries = all_entries" using pre_all by (simp add: all_entries_def)
    with False show ?thesis by (simp only: if_False)
  next
    case True
    have stop: "\<not> ibefore (fst (ientries ! i)) target"
      using True assms(2) nth_length_takeWhile by metis
    let ?post = "concat (map (\<lambda>e. contents (snd e)) (drop (Suc i) ientries))"
    have "\<forall>e \<in> set ?post. \<not> ?P e"
    proof
      fix e assume "e \<in> set ?post"
      then obtain p where p: "p \<in> set (drop (Suc i) ientries)" "e \<in> set (contents (snd p))" by auto
      then obtain k where "k < n - Suc i" "p = drop (Suc i) ientries ! k" by (auto simp: in_set_conv_nth)
      then have "i < Suc i + k" "Suc i + k < n" "e \<in> set (contents (blk (Suc i + k)))" using p(2) by auto
      then show "\<not> ?P e" using block_behind [OF assms(3), of i "Suc i + k" target e] stop assms(1) by blast
    qed
    then have post: "takeWhile ?P ?post = []" by (metis hd_in_set takeWhile_eq_Nil_iff)
    have "ientries = take i ientries @ ientries ! i # drop (Suc i) ientries" using True by (rule id_take_nth_drop)
    from arg_cong [OF this, of "\<lambda>l. concat (map (\<lambda>e. contents (snd e)) l)"]
    have "all_entries = concat (map (\<lambda>e. contents (snd e)) (take i ientries)) @ contents (blk i) @ ?post"
      unfolding all_entries_def map_append concat_append list.map concat.simps .
    then have "takeWhile ?P all_entries = concat (map (\<lambda>e. contents (snd e)) (take i ientries)) @ takeWhile ?P (contents (blk i) @ ?post)"
      using takeWhile_append2 [of "concat (map (\<lambda>e. contents (snd e)) (take i ientries))" ?P "contents (blk i) @ ?post"] pre_all by simp
    also have "takeWhile ?P (contents (blk i) @ ?post) = takeWhile ?P (contents (blk i))"
      using post by (rule takeWhile_append_stop)
    finally show ?thesis using True by (simp add: start_def)
  qed
qed

lemma tl_invE:
  assumes "tl_inv t"
  obtains (at) i j where "loose i j t" "j < length (contents (blk i))" "tl_pos t = start i + j" "iw_valid (tl_data t)"
  | (behind) "ended t" "tl_pos t = length all_entries" "\<not> iw_valid (tl_data t)"
  using assms loose_inv loose_valid unfolding tl_inv_def by (metis ended_def ended_inv)

lemma tl_base: "tl_inv t \<Longrightarrow> base t \<and> (iw_iter (tl_data t) \<noteq> None \<longrightarrow> (\<exists>k < n. tl_handle t = blk k \<and> data_winv (blk k) (tl_data t)))"
  by (auto simp: tl_inv_def ended_def loose_def)

text \<open>The operations that place the index iterator first.\<close>

lemma jump:
  assumes "tl_inv t" and "\<And>w. index.winv w \<Longrightarrow> \<exists>w'. fi w = Some w' \<and> index.winv w' \<and> index.wpos w' = i"
    and "\<And>w. i < n \<Longrightarrow> data_winv (blk i) w \<Longrightarrow> \<exists>w'. f w = Some w' \<and> data_winv (blk i) w' \<and> data_wpos (blk i) w' = j"
  shows "\<exists>t1 t2 t3. index_step fi t = Some t1 \<and> InitDataBlock iops dops block_function t1 = Some t2 \<and>
    if_data (data_step f) t2 = Some t3 \<and> (if i < n then loose i j t3 else ended t3 \<and> \<not> iw_valid (tl_index t3))"
proof -
  from assms(1) tl_base have b: "base t" "iw_iter (tl_data t) \<noteq> None \<longrightarrow> (\<exists>k < n. tl_handle t = blk k \<and> data_winv (blk k) (tl_data t))" by auto
  have "\<exists>w. fi (tl_index t) = Some w \<and> index.winv w \<and> index.wpos w = i" using assms(2) b(1) by (simp add: base_def)
  from index_step_base [OF b(1), of fi i, OF this] obtain t1 where t1: "index_step fi t = Some t1" "base t1" "index.wpos (tl_index t1) = i"
    "tl_data t1 = tl_data t" "tl_handle t1 = tl_handle t" by blast
  have "\<exists>t2 t3. InitDataBlock iops dops block_function t1 = Some t2 \<and> if_data (data_step f) t2 = Some t3 \<and>
      (if i < n then loose i j t3 else ended t3 \<and> \<not> iw_valid (tl_index t3))"
    by (rule move_to [OF t1(2,3)]) (use b(2) t1(4,5) assms(3) in auto)
  with t1(1) show ?thesis by blast
qed

lemma Seek_at:
  assumes "tl_inv t" and "ok target"
  shows "\<exists>t'. TL_Seek iops dops block_function target t = Some t' \<and> tl_inv t' \<and>
    tl_pos t' = length (takeWhile (\<lambda>e. before (fst e) target) all_entries)"
proof -
  let ?i = "length (takeWhile (\<lambda>e. ibefore (fst e) target) ientries)"
  let ?j = "length (takeWhile (\<lambda>e. before (fst e) target) (contents (blk ?i)))"
  obtain t1 t2 t3 where t: "index_step (io_seek (wrapper_ops iops) target) t = Some t1" "InitDataBlock iops dops block_function t1 = Some t2"
      "if_data (data_step (io_seek (wrapper_ops dops) target)) t2 = Some t3"
      "if ?i < n then loose ?i ?j t3 else ended t3 \<and> \<not> iw_valid (tl_index t3)"
    using jump [OF assms(1), of "io_seek (wrapper_ops iops) target" ?i "io_seek (wrapper_ops dops) target" ?j]
      index_laws(6) [OF _ assms(2)] data_laws(6) [OF _ _ assms(2)] by blast
  then have s: "TL_Seek iops dops block_function target t = SkipEmptyDataBlocksForward iops dops block_function t3"
    by (simp add: TL_Seek_def)
  have "cinv (tl_arg t)" using tl_base [OF assms(1)] by (simp add: base_def)
  note tw = takeWhile_all [OF assms(2) refl this]
  show ?thesis
  proof (cases "?i < n")
    case True
    with t(4) have "loose ?i ?j t3" by simp
    from skip_forward [OF this length_takeWhile_le] show ?thesis using s tw True by auto
  next
    case False
    with t(4) skip_ended(1) [of t3] s tw ended_inv show ?thesis by auto
  qed
qed

lemma SeekToFirst_at:
  assumes "tl_inv t"
  shows "\<exists>t'. TL_SeekToFirst iops dops block_function t = Some t' \<and> tl_inv t' \<and> tl_pos t' = 0"
proof -
  obtain t1 t2 t3 where t: "index_step (io_first (wrapper_ops iops)) t = Some t1" "InitDataBlock iops dops block_function t1 = Some t2"
      "if_data (data_step (io_first (wrapper_ops dops))) t2 = Some t3"
      "if 0 < n then loose 0 0 t3 else ended t3 \<and> \<not> iw_valid (tl_index t3)"
    using jump [OF assms, of "io_first (wrapper_ops iops)" 0 "io_first (wrapper_ops dops)" 0] index_laws(2) data_laws(2) by blast
  then have s: "TL_SeekToFirst iops dops block_function t = SkipEmptyDataBlocksForward iops dops block_function t3"
    by (simp add: TL_SeekToFirst_def)
  show ?thesis
  proof (cases "0 < n")
    case True
    with t(4) skip_forward [of 0 0 t3] s show ?thesis by auto
  next
    case False
    then have "length all_entries = 0" using start_n start_0 by (metis neq0_conv)
    with False t(4) skip_ended(1) [of t3] s ended_inv show ?thesis by metis
  qed
qed

lemma SeekToLast_at:
  assumes "tl_inv t"
  shows "\<exists>t'. TL_SeekToLast iops dops block_function t = Some t' \<and> tl_inv t' \<and> tl_pos t' = length all_entries - 1"
proof -
  let ?i = "n - 1" and ?j = "length (contents (blk (n - 1))) - 1"
  obtain t1 t2 t3 where t: "index_step (io_last (wrapper_ops iops)) t = Some t1" "InitDataBlock iops dops block_function t1 = Some t2"
      "if_data (data_step (io_last (wrapper_ops dops))) t2 = Some t3"
      "if ?i < n then loose ?i ?j t3 else ended t3 \<and> \<not> iw_valid (tl_index t3)"
    using jump [OF assms, of "io_last (wrapper_ops iops)" ?i "io_last (wrapper_ops dops)" ?j] index_laws(3) data_laws(3) by blast
  then have s: "TL_SeekToLast iops dops block_function t = SkipEmptyDataBlocksBackward iops dops block_function t3"
    by (simp add: TL_SeekToLast_def)
  show ?thesis
  proof (cases "0 < n")
    case True
    then have "start n = start ?i + length (contents (blk ?i))" using start_Suc [of ?i] by simp
    moreover from True t(4) skip_backward [of ?i ?j t3] obtain t' where "SkipEmptyDataBlocksBackward iops dops block_function t3 = Some t'"
      "tl_inv t'" "tl_pos t' = (if ?j < length (contents (blk ?i)) then start ?i + ?j else if start ?i = 0 then length all_entries else start ?i - 1)"
      by auto
    ultimately show ?thesis using s start_n by (cases "contents (blk ?i)") auto
  next
    case False
    then have "length all_entries = 0" using start_n start_0 by (metis neq0_conv)
    moreover have "\<not> n - 1 < n" using False by simp
    ultimately show ?thesis using t(4) skip_ended(2) [of t3] s ended_inv by (metis diff_0_eq_0)
  qed
qed

theorem two_level: "op_iterator (two_level_ops iops dops block_function) all_entries ok before tl_inv tl_pos"
proof
  let ?ops = "two_level_ops iops dops block_function"
  fix t assume inv: "tl_inv t"
  show "io_valid ?ops t = (tl_pos t < length all_entries)"
    using inv by (rule tl_invE) (use all_nth in \<open>auto simp: two_level_ops_def loose_def\<close>)
  show "\<exists>s'. io_first ?ops t = Some s' \<and> tl_inv s' \<and> tl_pos s' = 0" using SeekToFirst_at [OF inv] by (simp add: two_level_ops_def)
  show "\<exists>s'. io_last ?ops t = Some s' \<and> tl_inv s' \<and> tl_pos s' = length all_entries - 1"
    using SeekToLast_at [OF inv] by (simp add: two_level_ops_def)
  show "\<exists>s'. io_seek ?ops target t = Some s' \<and> tl_inv s' \<and> tl_pos s' = length (takeWhile (\<lambda>e. before (fst e) target) all_entries)"
    if "ok target" for target using Seek_at [OF inv that] by (simp add: two_level_ops_def)
  assume "io_valid ?ops t"
  then obtain i j where l: "loose i j t" "j < length (contents (blk i))" "tl_pos t = start i + j" "iw_valid (tl_data t)"
    using tl_invE [OF inv] by (auto simp: two_level_ops_def)
  then have i: "i < n" and d: "data_winv (blk i) (tl_data t)" "data_wpos (blk i) (tl_data t) = j" by (simp_all add: loose_def)
  show "io_entry ?ops t = Some (all_entries ! tl_pos t)"
    using iterator.entry_pos [OF op_iteratorD [OF data_wrapped [OF i]] d(1)] l(3,4) all_nth [OF i l(2)] d(2)
    by (simp add: two_level_ops_def io_entry_def iw_valid_ops)
  have "\<exists>w'. io_next (wrapper_ops dops) (tl_data t) = Some w' \<and> data_winv (blk i) w' \<and> data_wpos (blk i) w' = Suc j"
    using data_laws(4) [OF i d(1)] l(4) d(2) by (simp add: iw_valid_ops)
  from data_step_loose [OF l(1), of "io_next (wrapper_ops dops)" "Suc j", OF this] skip_forward [of i "Suc j"] l(2,3)
  show "\<exists>s'. io_next ?ops t = Some s' \<and> tl_inv s' \<and> tl_pos s' = Suc (tl_pos t)" by (fastforce simp: two_level_ops_def TL_Next_def)
  let ?j = "if j = 0 then length (contents (blk i)) else j - 1"
  have "\<exists>w'. io_prev (wrapper_ops dops) (tl_data t) = Some w' \<and> data_winv (blk i) w' \<and> data_wpos (blk i) w' = ?j"
    using data_laws(5) [OF i d(1), unfolded d(2)] l(4) by (simp add: iw_valid_ops split del: if_split)
  from data_step_loose [OF l(1), of "io_prev (wrapper_ops dops)" ?j, OF this] obtain t1 where
    t1: "data_step (io_prev (wrapper_ops dops)) t = Some t1" "loose i ?j t1" by blast
  from skip_backward [OF t1(2)] obtain t2 where "SkipEmptyDataBlocksBackward iops dops block_function t1 = Some t2" "tl_inv t2"
    "tl_pos t2 = (if ?j < length (contents (blk i)) then start i + ?j else if start i = 0 then length all_entries else start i - 1)" by blast
  then show "\<exists>s'. io_prev ?ops t = Some s' \<and> tl_inv s' \<and> tl_pos s' = (if tl_pos t = 0 then length all_entries else tl_pos t - 1)"
    using t1(1) l(2,3) by (cases "j = 0") (auto simp: two_level_ops_def TL_Prev_def)
qed

end

end
