(* ===== verification/Ldb_Cache.thy ===== *)
theory Ldb_Cache
  imports Ldb_Filter
begin

text \<open>
  The cache of \<^verbatim>\<open>util/cache.cc\<close>: a hash table of handles with chains, one shard with its reference
  counts and its two lists, and the sharded cache. Handles live in a heap that maps addresses to
  them, so that a freed handle is an address without one, and every access to it fails (\<open>None\<close>). The
  two circular lists are lists of addresses, the oldest first. The sizes of the table are counted with
  naturals (a shard holds fewer than 2 ^ 31 entries); charges, capacity and usage are 64-bit and
  reference counts 32-bit words. A deleter is a call that is recorded. Mutexes are not modelled.
\<close>

section \<open>The hash table\<close>

text \<open>The operations read the key and the hash of a handle, which \<open>kh\<close> gives.\<close>

type_synonym handle_keys = "nat \<Rightarrow> (bytes \<times> u32) option"

record HandleTable =
  ht_length :: nat
  ht_elems :: nat
  ht_list :: "nat list list"

definition bucket_of :: "nat \<Rightarrow> u32 \<Rightarrow> nat" where
  "bucket_of len hash = unat (hash AND of_nat (len - 1))"

text \<open>The place in the chain of a bucket: that of the entry, or its end.\<close>

fun FindPointer :: "handle_keys \<Rightarrow> bytes \<Rightarrow> u32 \<Rightarrow> nat list \<Rightarrow> nat option" where
  "FindPointer kh key hash [] = Some 0"
| "FindPointer kh key hash (a # chain) = do {
     (k, h) \<leftarrow> kh a;
     if h \<noteq> hash \<or> key \<noteq> k then map_option Suc (FindPointer kh key hash chain) else Some 0
   }"

definition at_pointer :: "nat list \<Rightarrow> nat \<Rightarrow> nat option" where
  "at_pointer chain p = (if p < length chain then Some (chain ! p) else None)"

definition HT_Lookup :: "handle_keys \<Rightarrow> bytes \<Rightarrow> u32 \<Rightarrow> HandleTable \<Rightarrow> nat option option" where
  "HT_Lookup kh key hash t = do {
     let chain = ht_list t ! bucket_of (ht_length t) hash;
     p \<leftarrow> FindPointer kh key hash chain;
     Some (at_pointer chain p)
   }"

function resize_length :: "nat \<Rightarrow> nat \<Rightarrow> nat" where
  "resize_length n elems = (if 0 < n \<and> n < elems then resize_length (2 * n) elems else n)"
  by pat_completeness auto

termination by (relation "measure (\<lambda>(n, elems). elems - n)") auto

declare resize_length.simps [simp del]

fun move_chain :: "handle_keys \<Rightarrow> nat list \<Rightarrow> nat list list \<Rightarrow> nat list list option" where
  "move_chain kh [] new_list = Some new_list"
| "move_chain kh (a # chain) new_list = do {
     (_, hash) \<leftarrow> kh a;
     let i = bucket_of (length new_list) hash;
     move_chain kh chain (new_list[i := a # new_list ! i])
   }"

fun move_chains :: "handle_keys \<Rightarrow> nat list list \<Rightarrow> nat list list \<Rightarrow> nat list list option" where
  "move_chains kh [] new_list = Some new_list"
| "move_chains kh (chain # others) new_list = do { l \<leftarrow> move_chain kh chain new_list; move_chains kh others l }"

definition HT_Resize :: "handle_keys \<Rightarrow> HandleTable \<Rightarrow> HandleTable option" where
  "HT_Resize kh t = do {
     let new_length = resize_length 4 (ht_elems t);
     l \<leftarrow> move_chains kh (ht_list t) (replicate new_length []);
     Some (t\<lparr>ht_list := l, ht_length := new_length\<rparr>)
   }"

definition new_HandleTable :: "HandleTable option" where
  "new_HandleTable = HT_Resize (\<lambda>_. None) \<lparr>ht_length = 0, ht_elems = 0, ht_list = []\<rparr>"

text \<open>The handle that was replaced or removed, if there was one, and the table.\<close>

definition HT_Insert :: "handle_keys \<Rightarrow> nat \<Rightarrow> HandleTable \<Rightarrow> (nat option \<times> HandleTable) option" where
  "HT_Insert kh a t = do {
     (key, hash) \<leftarrow> kh a;
     let i = bucket_of (ht_length t) hash;
     let chain = ht_list t ! i;
     p \<leftarrow> FindPointer kh key hash chain;
     let old = at_pointer chain p;
     let t = t\<lparr>ht_list := (ht_list t)[i := take p chain @ a # drop (Suc p) chain]\<rparr>;
     if old = None then
       let t = t\<lparr>ht_elems := ht_elems t + 1\<rparr> in
       if ht_elems t > ht_length t then do { t \<leftarrow> HT_Resize kh t; Some (old, t) } else Some (old, t)
     else Some (old, t)
   }"

definition HT_Remove :: "handle_keys \<Rightarrow> bytes \<Rightarrow> u32 \<Rightarrow> HandleTable \<Rightarrow> (nat option \<times> HandleTable) option" where
  "HT_Remove kh key hash t = do {
     let i = bucket_of (ht_length t) hash;
     let chain = ht_list t ! i;
     p \<leftarrow> FindPointer kh key hash chain;
     let result = at_pointer chain p;
     Some (result, if result \<noteq> None
       then t\<lparr>ht_list := (ht_list t)[i := take p chain @ drop (Suc p) chain], ht_elems := ht_elems t - 1\<rparr> else t)
   }"

section \<open>One shard\<close>

record 'v LRUHandle =
  lh_key :: bytes
  lh_value :: 'v
  lh_charge :: u64
  lh_in_cache :: bool
  lh_refs :: u32
  lh_hash :: u32

text \<open>\<open>lc_fresh\<close> is the address that \<^verbatim>\<open>malloc\<close> gives next; \<open>lc_deleted\<close> are the calls of deleters.\<close>

record 'v LRUCache =
  lc_capacity :: u64
  lc_usage :: u64
  lc_lru :: "nat list"
  lc_in_use :: "nat list"
  lc_table :: HandleTable
  lc_heap :: "nat \<Rightarrow> 'v LRUHandle option"
  lc_fresh :: nat
  lc_deleted :: "(bytes \<times> 'v) list"

definition new_LRUCache :: "u64 \<Rightarrow> 'v LRUCache option" where
  "new_LRUCache capacity = do {
     t \<leftarrow> new_HandleTable;
     Some \<lparr>lc_capacity = capacity, lc_usage = 0, lc_lru = [], lc_in_use = [], lc_table = t, lc_heap = (\<lambda>_. None), lc_fresh = 0,
       lc_deleted = []\<rparr>
   }"

definition keys_of :: "'v LRUCache \<Rightarrow> handle_keys" where
  "keys_of c a = map_option (\<lambda>h. (lh_key h, lh_hash h)) (lc_heap c a)"

definition put_handle :: "nat \<Rightarrow> 'v LRUHandle \<Rightarrow> 'v LRUCache \<Rightarrow> 'v LRUCache" where
  "put_handle a h c = c\<lparr>lc_heap := (lc_heap c)(a := Some h)\<rparr>"

text \<open>Unlinking a handle takes it out of the list that it is in; it must be in one.\<close>

definition LRU_Remove :: "nat \<Rightarrow> 'v LRUCache \<Rightarrow> 'v LRUCache option" where
  "LRU_Remove a c =
     (if a \<in> set (lc_lru c) then Some (c\<lparr>lc_lru := remove1 a (lc_lru c)\<rparr>)
      else if a \<in> set (lc_in_use c) then Some (c\<lparr>lc_in_use := remove1 a (lc_in_use c)\<rparr>)
      else None)"

definition LRU_Ref :: "nat \<Rightarrow> 'v LRUCache \<Rightarrow> 'v LRUCache option" where
  "LRU_Ref a c = do {
     h \<leftarrow> lc_heap c a;
     c \<leftarrow> (if lh_refs h = 1 \<and> lh_in_cache h
           then do { c \<leftarrow> LRU_Remove a c; Some (c\<lparr>lc_in_use := lc_in_use c @ [a]\<rparr>) } else Some c);
     Some (put_handle a (h\<lparr>lh_refs := lh_refs h + 1\<rparr>) c)
   }"

definition LRU_Unref :: "nat \<Rightarrow> 'v LRUCache \<Rightarrow> 'v LRUCache option" where
  "LRU_Unref a c = do {
     h \<leftarrow> lc_heap c a;
     let h = h\<lparr>lh_refs := lh_refs h - 1\<rparr>;
     let c = put_handle a h c;
     if lh_refs h = 0
     then Some (c\<lparr>lc_deleted := lc_deleted c @ [(lh_key h, lh_value h)], lc_heap := (lc_heap c)(a := None)\<rparr>)
     else if lh_in_cache h \<and> lh_refs h = 1
     then do { c \<leftarrow> LRU_Remove a c; Some (c\<lparr>lc_lru := lc_lru c @ [a]\<rparr>) }
     else Some c
   }"

definition LRU_Lookup :: "bytes \<Rightarrow> u32 \<Rightarrow> 'v LRUCache \<Rightarrow> (nat option \<times> 'v LRUCache) option" where
  "LRU_Lookup key hash c = do {
     e \<leftarrow> HT_Lookup (keys_of c) key hash (lc_table c);
     case e of
       None \<Rightarrow> Some (None, c)
     | Some a \<Rightarrow> do { c \<leftarrow> LRU_Ref a c; Some (e, c) }
   }"

definition LRU_Release :: "nat \<Rightarrow> 'v LRUCache \<Rightarrow> 'v LRUCache option" where
  "LRU_Release a c = LRU_Unref a c"

definition FinishErase :: "nat option \<Rightarrow> 'v LRUCache \<Rightarrow> (bool \<times> 'v LRUCache) option" where
  "FinishErase e c =
     (case e of
        None \<Rightarrow> Some (False, c)
      | Some a \<Rightarrow> do {
          c \<leftarrow> LRU_Remove a c;
          h \<leftarrow> lc_heap c a;
          let c = (put_handle a (h\<lparr>lh_in_cache := False\<rparr>) c)\<lparr>lc_usage := lc_usage c - lh_charge h\<rparr>;
          c \<leftarrow> LRU_Unref a c;
          Some (True, c)
        })"

text \<open>Erasing the entry at the head of the LRU list; the loops that do so while they have to, or while there is one.\<close>

definition erase_oldest :: "'v LRUCache \<Rightarrow> 'v LRUCache option" where
  "erase_oldest c = do {
     h \<leftarrow> lc_heap c (hd (lc_lru c));
     (e, t) \<leftarrow> HT_Remove (keys_of c) (lh_key h) (lh_hash h) (lc_table c);
     (_, c) \<leftarrow> FinishErase e (c\<lparr>lc_table := t\<rparr>);
     Some c
   }"

partial_function (option) evict :: "'v LRUCache \<Rightarrow> 'v LRUCache option" where
  "evict c = (if lc_usage c > lc_capacity c \<and> lc_lru c \<noteq> [] then do { c \<leftarrow> erase_oldest c; evict c } else Some c)"

definition LRU_Insert :: "bytes \<Rightarrow> u32 \<Rightarrow> 'v \<Rightarrow> u64 \<Rightarrow> 'v LRUCache \<Rightarrow> (nat \<times> 'v LRUCache) option" where
  "LRU_Insert key hash val charge c = do {
     let a = lc_fresh c;
     let e = \<lparr>lh_key = key, lh_value = val, lh_charge = charge, lh_in_cache = False, lh_refs = 1, lh_hash = hash\<rparr>;
     let c = c\<lparr>lc_fresh := a + 1\<rparr>;
     c \<leftarrow> (if lc_capacity c > 0 then do {
         let c = put_handle a (e\<lparr>lh_refs := lh_refs e + 1, lh_in_cache := True\<rparr>) c;
         let c = c\<lparr>lc_in_use := lc_in_use c @ [a], lc_usage := lc_usage c + charge\<rparr>;
         (old, t) \<leftarrow> HT_Insert (keys_of c) a (lc_table c);
         (_, c) \<leftarrow> FinishErase old (c\<lparr>lc_table := t\<rparr>);
         Some c
       }
       else Some (put_handle a e c));
     c \<leftarrow> evict c;
     Some (a, c)
   }"

definition LRU_Erase :: "bytes \<Rightarrow> u32 \<Rightarrow> 'v LRUCache \<Rightarrow> 'v LRUCache option" where
  "LRU_Erase key hash c = do {
     (e, t) \<leftarrow> HT_Remove (keys_of c) key hash (lc_table c);
     (_, c) \<leftarrow> FinishErase e (c\<lparr>lc_table := t\<rparr>);
     Some c
   }"

partial_function (option) LRU_Prune :: "'v LRUCache \<Rightarrow> 'v LRUCache option" where
  "LRU_Prune c = (if lc_lru c \<noteq> [] then do { c \<leftarrow> erase_oldest c; LRU_Prune c } else Some c)"

definition LRU_TotalCharge :: "'v LRUCache \<Rightarrow> u64" where
  "LRU_TotalCharge c = lc_usage c"

text \<open>The destructor drops the cache's reference to everything on the LRU list.\<close>

fun drop_all :: "nat list \<Rightarrow> 'v LRUCache \<Rightarrow> 'v LRUCache option" where
  "drop_all [] c = Some c"
| "drop_all (a # as) c = do {
     h \<leftarrow> lc_heap c a;
     c \<leftarrow> LRU_Unref a (put_handle a (h\<lparr>lh_in_cache := False\<rparr>) c);
     drop_all as c
   }"

definition delete_LRUCache :: "'v LRUCache \<Rightarrow> 'v LRUCache option" where
  "delete_LRUCache c = drop_all (lc_lru c) c"

section \<open>The sharded cache\<close>

definition kNumShardBits :: nat where "kNumShardBits = 4"
definition kNumShards :: nat where "kNumShards = 2 ^ kNumShardBits"

text \<open>A handle is an address in a shard.\<close>

record 'v ShardedLRUCache =
  sh_shard :: "'v LRUCache list"
  sh_last_id :: u64

definition HashSlice :: "bytes \<Rightarrow> u32" where
  "HashSlice s = Hash s 0"

definition Shard :: "u32 \<Rightarrow> nat" where
  "Shard hash = unat (drop_bit (32 - kNumShardBits) hash)"

fun new_shards :: "nat \<Rightarrow> u64 \<Rightarrow> 'v LRUCache list option" where
  "new_shards 0 per_shard = Some []"
| "new_shards (Suc n) per_shard = do { s \<leftarrow> new_LRUCache per_shard; ss \<leftarrow> new_shards n per_shard; Some (s # ss) }"

definition NewLRUCache :: "u64 \<Rightarrow> 'v ShardedLRUCache option" where
  "NewLRUCache capacity = do {
     let per_shard = (capacity + of_nat (kNumShards - 1)) div of_nat kNumShards;
     ss \<leftarrow> new_shards kNumShards per_shard;
     Some \<lparr>sh_shard = ss, sh_last_id = 0\<rparr>
   }"

definition Cache_Insert :: "bytes \<Rightarrow> 'v \<Rightarrow> u64 \<Rightarrow> 'v ShardedLRUCache \<Rightarrow> ((nat \<times> nat) \<times> 'v ShardedLRUCache) option" where
  "Cache_Insert key val charge c = do {
     let hash = HashSlice key;
     let i = Shard hash;
     (a, s) \<leftarrow> LRU_Insert key hash val charge (sh_shard c ! i);
     Some ((i, a), c\<lparr>sh_shard := (sh_shard c)[i := s]\<rparr>)
   }"

definition Cache_Lookup :: "bytes \<Rightarrow> 'v ShardedLRUCache \<Rightarrow> ((nat \<times> nat) option \<times> 'v ShardedLRUCache) option" where
  "Cache_Lookup key c = do {
     let hash = HashSlice key;
     let i = Shard hash;
     (e, s) \<leftarrow> LRU_Lookup key hash (sh_shard c ! i);
     Some (map_option (Pair i) e, c\<lparr>sh_shard := (sh_shard c)[i := s]\<rparr>)
   }"

definition handle_at :: "nat \<times> nat \<Rightarrow> 'v ShardedLRUCache \<Rightarrow> 'v LRUHandle option" where
  "handle_at h c = lc_heap (sh_shard c ! fst h) (snd h)"

definition Cache_Release :: "nat \<times> nat \<Rightarrow> 'v ShardedLRUCache \<Rightarrow> 'v ShardedLRUCache option" where
  "Cache_Release h c = do {
     e \<leftarrow> handle_at h c;
     let i = Shard (lh_hash e);
     s \<leftarrow> LRU_Release (snd h) (sh_shard c ! i);
     Some (c\<lparr>sh_shard := (sh_shard c)[i := s]\<rparr>)
   }"

definition Cache_Erase :: "bytes \<Rightarrow> 'v ShardedLRUCache \<Rightarrow> 'v ShardedLRUCache option" where
  "Cache_Erase key c = do {
     let hash = HashSlice key;
     let i = Shard hash;
     s \<leftarrow> LRU_Erase key hash (sh_shard c ! i);
     Some (c\<lparr>sh_shard := (sh_shard c)[i := s]\<rparr>)
   }"

definition Cache_Value :: "nat \<times> nat \<Rightarrow> 'v ShardedLRUCache \<Rightarrow> 'v option" where
  "Cache_Value h c = map_option lh_value (handle_at h c)"

definition Cache_NewId :: "'v ShardedLRUCache \<Rightarrow> u64 \<times> 'v ShardedLRUCache" where
  "Cache_NewId c = (sh_last_id c + 1, c\<lparr>sh_last_id := sh_last_id c + 1\<rparr>)"

fun prune_shards :: "'v LRUCache list \<Rightarrow> 'v LRUCache list option" where
  "prune_shards [] = Some []"
| "prune_shards (s # ss) = do { s \<leftarrow> LRU_Prune s; ss \<leftarrow> prune_shards ss; Some (s # ss) }"

definition Cache_Prune :: "'v ShardedLRUCache \<Rightarrow> 'v ShardedLRUCache option" where
  "Cache_Prune c = do { ss \<leftarrow> prune_shards (sh_shard c); Some (c\<lparr>sh_shard := ss\<rparr>) }"

definition Cache_TotalCharge :: "'v ShardedLRUCache \<Rightarrow> u64" where
  "Cache_TotalCharge c = sum_list (map LRU_TotalCharge (sh_shard c))"

section \<open>The hash table as a set of handles\<close>

abbreviation chains_set :: "nat list list \<Rightarrow> nat set" where
  "chains_set L \<equiv> \<Union> (set ` set L)"

abbreviation ht_set :: "HandleTable \<Rightarrow> nat set" where
  "ht_set t \<equiv> chains_set (ht_list t)"

text \<open>Every handle is in the chain of its bucket, once.\<close>

definition shape :: "handle_keys \<Rightarrow> nat list list \<Rightarrow> bool" where
  "shape kh L \<longleftrightarrow> L \<noteq> [] \<and> (\<forall>i < length L. distinct (L ! i) \<and>
     (\<forall>a \<in> set (L ! i). \<exists>k h. kh a = Some (k, h) \<and> bucket_of (length L) h = i))"

definition ht_ok :: "handle_keys \<Rightarrow> HandleTable \<Rightarrow> bool" where
  "ht_ok kh t \<longleftrightarrow> shape kh (ht_list t) \<and> ht_length t = length (ht_list t) \<and> ht_elems t = card (ht_set t) \<and> inj_on kh (ht_set t)"

text \<open>What a search may find.\<close>

definition is_entry :: "handle_keys \<Rightarrow> nat set \<Rightarrow> bytes \<Rightarrow> u32 \<Rightarrow> nat option \<Rightarrow> bool" where
  "is_entry kh T key hash r \<longleftrightarrow>
     (case r of None \<Rightarrow> \<forall>a \<in> T. kh a \<noteq> Some (key, hash) | Some a \<Rightarrow> a \<in> T \<and> kh a = Some (key, hash))"

lemma bucket_less: "0 < n \<Longrightarrow> bucket_of n hash < n"
proof -
  assume "0 < n"
  have "unat (hash AND of_nat (n - 1)) \<le> unat (of_nat (n - 1) :: u32)" by (simp add: word_and_le1 flip: word_le_nat_alt)
  also have "\<dots> \<le> n - 1" by (simp add: unat_of_nat)
  finally show ?thesis using \<open>0 < n\<close> by (simp add: bucket_of_def)
qed

lemma FindPointer_eq:
  "\<forall>a \<in> set chain. kh a \<noteq> None \<Longrightarrow>
    FindPointer kh key hash chain = Some (length (takeWhile (\<lambda>a. kh a \<noteq> Some (key, hash)) chain))"
  by (induction chain) auto

lemma at_pointer_takeWhile:
  "at_pointer chain (length (takeWhile P chain)) = (case dropWhile P chain of [] \<Rightarrow> None | a # _ \<Rightarrow> Some a)"
  by (induction chain) (auto simp: at_pointer_def)

lemma in_chains: "a \<in> chains_set L \<longleftrightarrow> (\<exists>i < length L. a \<in> set (L ! i))"
  by (metis UN_iff in_set_conv_nth)

lemma shape_at: "shape kh L \<Longrightarrow> i < length L \<Longrightarrow> a \<in> set (L ! i) \<Longrightarrow> \<exists>k h. kh a = Some (k, h) \<and> bucket_of (length L) h = i"
  by (simp add: shape_def)

lemma shape_bucket:
  assumes "shape kh L" and "a \<in> chains_set L" and "kh a = Some (k, h)"
  shows "a \<in> set (L ! bucket_of (length L) h)"
proof -
  from assms(2) obtain i where "i < length L" "a \<in> set (L ! i)" using in_chains by metis
  with shape_at [OF assms(1) this] assms(3) show ?thesis by auto
qed

lemma shape_keys: "shape kh L \<Longrightarrow> a \<in> chains_set L \<Longrightarrow> \<exists>k h. kh a = Some (k, h)"
  using in_chains shape_at by metis

lemma shape_bucket_less: "shape kh L \<Longrightarrow> bucket_of (length L) h < length L"
  by (rule bucket_less) (simp add: shape_def)

lemma shape_chain: "shape kh L \<Longrightarrow> \<forall>a \<in> set (L ! bucket_of (length L) h). kh a \<noteq> None"
  using shape_bucket_less [of kh L h] shape_at by fastforce

lemma pointer_is_entry:
  assumes "shape kh L" and "chain = L ! bucket_of (length L) hash"
  shows "is_entry kh (chains_set L) key hash (at_pointer chain (length (takeWhile (\<lambda>a. kh a \<noteq> Some (key, hash)) chain)))"
proof -
  let ?P = "\<lambda>a. kh a \<noteq> Some (key, hash)"
  have sub: "set chain \<subseteq> chains_set L"
    using assms(2) nth_mem [OF shape_bucket_less [OF assms(1), of hash]] by (simp add: UN_upper)
  have out: "?P a" if "a \<in> chains_set L" "a \<notin> set chain" for a
    using shape_bucket [OF assms(1) that(1)] that(2) assms(2) by metis
  show ?thesis
  proof (cases "dropWhile ?P chain")
    case Nil
    then have "?P a" if "a \<in> set chain" for a using that by (simp add: dropWhile_eq_Nil_conv)
    then show ?thesis using Nil out by (auto simp: at_pointer_takeWhile is_entry_def simp del: dropWhile_eq_Nil_conv)
  next
    case (Cons a as)
    then have "\<not> ?P a" using hd_dropWhile [of ?P chain] by (metis list.discI list.sel(1))
    have "a \<in> set (dropWhile ?P chain)" unfolding Cons by simp
    then have "a \<in> set chain" by (rule set_dropWhileD)
    with \<open>\<not> ?P a\<close> show ?thesis using Cons sub by (auto simp: at_pointer_takeWhile is_entry_def simp del: dropWhile_eq_Nil_conv)
  qed
qed

lemma HT_Lookup_ok:
  assumes "ht_ok kh t"
  shows "\<exists>r. HT_Lookup kh key hash t = Some r \<and> is_entry kh (ht_set t) key hash r"
proof -
  have s: "shape kh (ht_list t)" "ht_length t = length (ht_list t)" using assms by (auto simp: ht_ok_def)
  show ?thesis
    using pointer_is_entry [OF s(1) refl, of key hash] FindPointer_eq [OF shape_chain [OF s(1), of hash], of key hash]
    by (simp add: HT_Lookup_def s(2) Let_def)
qed

text \<open>Replacing one chain.\<close>

lemma shape_update:
  assumes "shape kh L" and "i < length L" and "distinct chain" and "\<forall>a \<in> set chain. \<exists>k h. kh a = Some (k, h) \<and> bucket_of (length L) h = i"
  shows "shape kh (L[i := chain])" and "chains_set (L[i := chain]) = (chains_set L - set (L ! i)) \<union> set chain"
proof -
  show "shape kh (L[i := chain])" using assms by (auto simp: shape_def nth_list_update)
  have other: "a \<notin> set (L ! i)" if "j < length L" "j \<noteq> i" "a \<in> set (L ! j)" for a j
    using shape_at [OF assms(1) that(1,3)] shape_at [OF assms(1,2), of a] that(2) by auto
  have "a \<in> chains_set (L[i := chain]) \<longleftrightarrow> a \<in> set chain \<or> a \<in> chains_set L \<and> a \<notin> set (L ! i)" for a
    unfolding in_chains using assms(2) other by (auto simp: nth_list_update split: if_splits) metis+
  then show "chains_set (L[i := chain]) = (chains_set L - set (L ! i)) \<union> set chain" by blast
qed

text \<open>Taking an entry out of a chain.\<close>

lemma cut_chain:
  assumes "distinct chain"
  shows "set (take p chain @ drop (Suc p) chain) = set chain - set_option (at_pointer chain p)"
    and "distinct (take p chain @ drop (Suc p) chain)"
proof -
  show "set (take p chain @ drop (Suc p) chain) = set chain - set_option (at_pointer chain p)"
  proof (cases "p < length chain")
    case True
    let ?a = "take p chain" and ?b = "drop (Suc p) chain"
    have c: "chain = ?a @ chain ! p # ?b" using True by (rule id_take_nth_drop)
    then have "distinct (?a @ chain ! p # ?b)" using assms by simp
    then have "chain ! p \<notin> set ?a \<union> set ?b" by simp
    moreover have "set chain = set ?a \<union> insert (chain ! p) (set ?b)" using arg_cong [OF c, of set] by simp
    ultimately show ?thesis using True by (auto simp: at_pointer_def)
  qed (simp add: at_pointer_def)
  show "distinct (take p chain @ drop (Suc p) chain)"
    using assms set_take_disj_set_drop_if_distinct [OF assms, of p "Suc p"] by simp
qed

lemma set_insert_cut: "set (xs @ a # ys) = insert a (set (xs @ ys))" "distinct (xs @ a # ys) \<longleftrightarrow> a \<notin> set (xs @ ys) \<and> distinct (xs @ ys)"
  by auto

lemma entry_in_chain:
  "is_entry kh (chains_set L) key hash r \<Longrightarrow> shape kh L \<Longrightarrow> set_option r \<subseteq> set (L ! bucket_of (length L) hash)"
  using shape_bucket by (cases r) (auto simp: is_entry_def)

lemma HT_Remove_ok:
  assumes "ht_ok kh t"
  shows "\<exists>r t'. HT_Remove kh key hash t = Some (r, t') \<and> is_entry kh (ht_set t) key hash r \<and> ht_ok kh t' \<and> ht_set t' = ht_set t - set_option r"
proof -
  have s: "shape kh (ht_list t)" "ht_length t = length (ht_list t)" "ht_elems t = card (ht_set t)" "inj_on kh (ht_set t)"
    using assms by (auto simp: ht_ok_def)
  let ?i = "bucket_of (length (ht_list t)) hash" and ?L = "ht_list t"
  let ?p = "length (takeWhile (\<lambda>a. kh a \<noteq> Some (key, hash)) (?L ! ?i))"
  let ?chain = "take ?p (?L ! ?i) @ drop (Suc ?p) (?L ! ?i)" and ?r = "at_pointer (?L ! ?i) ?p"
  note e = pointer_is_entry [OF s(1) refl, of key hash] and i = shape_bucket_less [OF s(1), of hash]
  have d: "distinct (?L ! ?i)" using s(1) i by (simp add: shape_def)
  note cut = cut_chain [OF d, of ?p]
  have "\<forall>a \<in> set ?chain. \<exists>k h. kh a = Some (k, h) \<and> bucket_of (length ?L) h = ?i" using shape_at [OF s(1) i] cut(1) by blast
  note up = shape_update [OF s(1) i cut(2) this]
  have cs: "chains_set (?L[?i := ?chain]) = ht_set t - set_option ?r"
    unfolding up(2) cut(1) using entry_in_chain [OF e s(1)] nth_mem [OF i] by blast
  define t' where "t' = (if ?r \<noteq> None then t\<lparr>ht_list := ?L[?i := ?chain], ht_elems := ht_elems t - 1\<rparr> else t)"
  have set: "ht_set t' = ht_set t - set_option ?r" using cs by (simp add: t'_def)
  moreover have "ht_ok kh t'"
  proof (cases ?r)
    case (Some a)
    then have "a \<in> ht_set t" using e by (simp add: is_entry_def)
    then have "card (ht_set t - {a}) = card (ht_set t) - 1" by simp
    then show ?thesis using s up(1) cs Some by (auto simp: ht_ok_def t'_def inj_on_diff)
  qed (use assms in \<open>simp add: t'_def\<close>)
  moreover have "HT_Remove kh key hash t = Some (?r, t')"
    using FindPointer_eq [OF shape_chain [OF s(1), of hash], of key hash] by (simp add: HT_Remove_def s(2) Let_def t'_def)
  ultimately show ?thesis using e by blast
qed

lemma move_chain_ok:
  "shape kh L \<Longrightarrow> distinct chain \<Longrightarrow> set chain \<inter> chains_set L = {} \<Longrightarrow> \<forall>a \<in> set chain. kh a \<noteq> None \<Longrightarrow>
    \<exists>L'. move_chain kh chain L = Some L' \<and> shape kh L' \<and> length L' = length L \<and> chains_set L' = chains_set L \<union> set chain"
proof (induction chain arbitrary: L)
  case (Cons a chain)
  then obtain k h where k: "kh a = Some (k, h)" by auto
  let ?i = "bucket_of (length L) h"
  note i = shape_bucket_less [OF Cons.prems(1), of h]
  have "distinct (a # L ! ?i)" using Cons.prems(1,3) i nth_mem [OF i] by (auto simp: shape_def)
  moreover have "\<forall>b \<in> set (a # L ! ?i). \<exists>k h. kh b = Some (k, h) \<and> bucket_of (length L) h = ?i"
    using shape_at [OF Cons.prems(1) i] k by auto
  ultimately have up: "shape kh (L[?i := a # L ! ?i])" "chains_set (L[?i := a # L ! ?i]) = insert a (chains_set L)"
    using shape_update [OF Cons.prems(1) i, of "a # L ! ?i"] nth_mem [OF i] by auto
  have "set chain \<inter> chains_set (L[?i := a # L ! ?i]) = {}" unfolding up(2) using Cons.prems(2,3) by auto
  with Cons.IH [OF up(1)] Cons.prems(2,4) obtain L' where "move_chain kh chain (L[?i := a # L ! ?i]) = Some L'" "shape kh L'"
      "length L' = length L" "chains_set L' = insert a (chains_set L) \<union> set chain" unfolding up(2) by auto
  then show ?case by (simp add: k Let_def)
qed simp

lemma move_chains_ok:
  "shape kh M \<Longrightarrow> distinct (concat L) \<Longrightarrow> chains_set L \<inter> chains_set M = {} \<Longrightarrow> \<forall>a \<in> chains_set L. kh a \<noteq> None \<Longrightarrow>
    \<exists>L'. move_chains kh L M = Some L' \<and> shape kh L' \<and> length L' = length M \<and> chains_set L' = chains_set M \<union> chains_set L"
proof (induction L arbitrary: M)
  case (Cons chain L)
  have "distinct chain" "set chain \<inter> chains_set M = {}" "\<forall>a \<in> set chain. kh a \<noteq> None" using Cons.prems by auto
  from move_chain_ok [OF Cons.prems(1) this] obtain M' where M': "move_chain kh chain M = Some M'" "shape kh M'" "length M' = length M"
    "chains_set M' = chains_set M \<union> set chain" by blast
  have "chains_set L \<inter> chains_set M' = {}" unfolding M'(4) using Cons.prems(2,3) by auto
  with Cons.IH [OF M'(2)] Cons.prems(2,4) obtain L' where "move_chains kh L M' = Some L'" "shape kh L'" "length L' = length M'"
    "chains_set L' = chains_set M' \<union> chains_set L" by auto
  then show ?case using M' by auto
qed simp

lemma distinct_concat_shape:
  assumes "shape kh L"
  shows "distinct (concat L)"
proof -
  have "distinct (concat (take n L))" if "n \<le> length L" for n
    using that
  proof (induction n)
    case (Suc n)
    then have n: "n < length L" by simp
    have "a \<notin> set (L ! n)" if "a \<in> set (concat (take n L))" for a
    proof -
      from that have "a \<in> chains_set (take n L)" by simp
      then obtain j where j: "j < n" "a \<in> set (L ! j)" unfolding in_chains using n by auto
      then have "j < length L" using n by simp
      from shape_at [OF assms this j(2)] shape_at [OF assms n, of a] j(1) show ?thesis by auto
    qed
    then show ?case using Suc n assms by (auto simp: take_Suc_conv_app_nth shape_def)
  qed simp
  from this [of "length L"] show ?thesis by simp
qed

lemma resize_length_pos: "0 < n \<Longrightarrow> 0 < resize_length n e"
  by (induction n e rule: resize_length.induct) (subst resize_length.simps, simp)

lemma shape_empty: "0 < n \<Longrightarrow> shape kh (replicate n [])"
  by (auto simp: shape_def)

text \<open>Resizing keeps the handles.\<close>

lemma HT_Resize_ok:
  assumes "distinct (concat (ht_list t))" and "\<forall>a \<in> ht_set t. kh a \<noteq> None" and "ht_elems t = card (ht_set t)" and "inj_on kh (ht_set t)"
  shows "\<exists>t'. HT_Resize kh t = Some t' \<and> ht_ok kh t' \<and> ht_set t' = ht_set t"
proof -
  let ?n = "resize_length 4 (ht_elems t)"
  have n: "0 < ?n" by (rule resize_length_pos) simp
  have e: "chains_set (replicate ?n []) = {}" by simp
  then have "ht_set t \<inter> chains_set (replicate ?n []) = {}" by blast
  from move_chains_ok [OF shape_empty [OF n] assms(1) this assms(2)] obtain L where
    L: "move_chains kh (ht_list t) (replicate ?n []) = Some L" "shape kh L" "length L = ?n" "chains_set L = ht_set t"
    unfolding e by auto
  then show ?thesis using assms(3,4) by (auto simp: HT_Resize_def ht_ok_def)
qed

lemma new_HandleTable_ok: "\<exists>t. new_HandleTable = Some t \<and> ht_set t = {} \<and> (\<forall>kh. ht_ok kh t)"
proof -
  obtain t where t: "new_HandleTable = Some t" "ht_ok (\<lambda>_. None) t" "ht_set t = {}"
    using HT_Resize_ok [of "\<lparr>ht_length = 0, ht_elems = 0, ht_list = []\<rparr>" "\<lambda>_. None"] by (auto simp: new_HandleTable_def)
  have empty: "ht_list t ! i = []" if "i < length (ht_list t)" for i
  proof -
    have "set (ht_list t ! i) \<subseteq> ht_set t" using nth_mem [OF that] by blast
    then show ?thesis unfolding t(3) by simp
  qed
  have "ht_ok kh t" for kh
  proof -
    have "inj_on kh (ht_set t)" unfolding t(3) by simp
    moreover have "shape kh (ht_list t)" using t(2) empty by (simp add: ht_ok_def shape_def)
    ultimately show ?thesis using t(2) unfolding ht_ok_def by blast
  qed
  with t show ?thesis by blast
qed

lemma HT_Insert_ok:
  assumes "ht_ok kh t" and "kh a = Some (key, hash)" and "a \<notin> ht_set t"
  shows "\<exists>r t'. HT_Insert kh a t = Some (r, t') \<and> is_entry kh (ht_set t) key hash r \<and> ht_ok kh t' \<and>
    ht_set t' = insert a (ht_set t - set_option r)"
proof -
  have s: "shape kh (ht_list t)" "ht_length t = length (ht_list t)" "ht_elems t = card (ht_set t)" "inj_on kh (ht_set t)"
    using assms(1) by (auto simp: ht_ok_def)
  let ?i = "bucket_of (length (ht_list t)) hash" and ?L = "ht_list t"
  let ?p = "length (takeWhile (\<lambda>a. kh a \<noteq> Some (key, hash)) (?L ! ?i))"
  let ?chain = "take ?p (?L ! ?i) @ a # drop (Suc ?p) (?L ! ?i)" and ?r = "at_pointer (?L ! ?i) ?p"
  note e = pointer_is_entry [OF s(1) refl, of key hash] and i = shape_bucket_less [OF s(1), of hash]
  have d: "distinct (?L ! ?i)" using s(1) i by (simp add: shape_def)
  note cut = cut_chain [OF d, of ?p]
  have sub: "set (?L ! ?i) \<subseteq> ht_set t" using nth_mem [OF i] by blast
  have set: "set ?chain = insert a (set (?L ! ?i) - set_option ?r)" unfolding set_insert_cut(1) cut(1) ..
  have dc: "distinct ?chain" using cut sub assms(3) unfolding set_insert_cut(2) by blast
  have bc: "\<forall>b \<in> set ?chain. \<exists>k h. kh b = Some (k, h) \<and> bucket_of (length ?L) h = ?i"
    unfolding set using shape_at [OF s(1) i] assms(2) by auto
  note sh = shape_update(1) [OF s(1) i dc bc]
  have cs: "chains_set (?L[?i := ?chain]) = insert a (ht_set t - set_option ?r)"
    unfolding shape_update(2) [OF s(1) i dc bc] set using entry_in_chain [OF e s(1)] sub by blast
  have inj: "inj_on kh (insert a (ht_set t - set_option ?r))"
  proof -
    have ne: "kh b \<noteq> kh a" if b: "b \<in> ht_set t" "b \<notin> set_option ?r" for b
    proof (cases ?r)
      case (Some c)
      then have "c \<in> ht_set t" "kh c = kh a" using e assms(2) by (simp_all add: is_entry_def)
      with Some b inj_onD [OF s(4), of b c] show ?thesis by auto
    qed (use e b assms(2) in \<open>auto simp: is_entry_def\<close>)
    have "kh a \<notin> kh ` (ht_set t - set_option ?r)"
    proof
      assume "kh a \<in> kh ` (ht_set t - set_option ?r)"
      then obtain b where "kh a = kh b" "b \<in> ht_set t - set_option ?r" by (rule imageE)
      with ne [of b] show False by (metis DiffD1 DiffD2)
    qed
    moreover have "a \<notin> ht_set t - set_option ?r" using assms(3) by blast
    ultimately show ?thesis using inj_on_diff [OF s(4), of "set_option ?r"] by (simp only: inj_on_insert Diff_insert0 Diff_idemp) simp
  qed
  define t1 where "t1 = t\<lparr>ht_list := ?L[?i := ?chain]\<rparr>"
  have F: "FindPointer kh key hash (?L ! ?i) = Some ?p" by (rule FindPointer_eq [OF shape_chain [OF s(1)]])
  show ?thesis
  proof (cases ?r)
    case (Some b)
    then have b: "b \<in> ht_set t" using e by (simp add: is_entry_def)
    have fin: "finite (ht_set t)" by simp
    then have "0 < card (ht_set t)" using b card_gt_0_iff [of "ht_set t"] by blast
    moreover have "card (ht_set t - {b}) = card (ht_set t) - 1" using b by (rule card_Diff_singleton)
    ultimately have "card (insert a (ht_set t - {b})) = card (ht_set t)" using assms(3) by simp
    then have "ht_ok kh t1" using sh cs inj s(2,3) Some by (simp add: ht_ok_def t1_def)
    moreover have "HT_Insert kh a t = Some (Some b, t1)"
      using F Some by (simp add: HT_Insert_def assms(2) s(2) Let_def t1_def)
    ultimately show ?thesis using e cs Some by (intro exI [of _ "Some b"] exI [of _ t1]) (simp add: t1_def)
  next
    case None
    let ?t = "t1\<lparr>ht_elems := ht_elems t + 1\<rparr>"
    have set_t: "ht_set ?t = insert a (ht_set t)" using cs None by (simp add: t1_def)
    have "card (insert a (ht_set t)) = card (ht_set t) + 1" using assms(3) by simp
    then have ok: "ht_ok kh ?t" using sh cs inj s(2,3) None by (simp add: ht_ok_def t1_def)
    have "\<exists>t'. HT_Resize kh ?t = Some t' \<and> ht_ok kh t' \<and> ht_set t' = ht_set ?t"
      using ok shape_keys by (intro HT_Resize_ok distinct_concat_shape) (fastforce simp: ht_ok_def)+
    then obtain t2 where "HT_Resize kh ?t = Some t2" "ht_ok kh t2" "ht_set t2 = ht_set ?t" by blast
    moreover have "HT_Insert kh a t = (if ht_elems ?t > ht_length ?t then do { t \<leftarrow> HT_Resize kh ?t; Some (None, t) } else Some (None, ?t))"
      using F None by (simp add: HT_Insert_def assms(2) s(2) Let_def t1_def)
    ultimately show ?thesis using ok e None set_t by (cases "ht_elems ?t > ht_length ?t") (auto simp: is_entry_def)
  qed
qed

end
