(* ===== verification/Ldb_Cache_Contract.thy ===== *)
theory Ldb_Cache_Contract
  imports Ldb_Cache "HOL-Library.Sublist"
begin

text \<open>
  What the cache promises. The invariant of a shard ties the reference counts, the two lists, the
  hash table and the usage to what its clients hold; every operation that a client may call
  succeeds, keeps it and never frees a handle that is held. The sharded cache then satisfies the
  contract of a sound cache, on which the readers of tables rely.
\<close>

section \<open>Reference counts and lists\<close>

definition charge_of :: "'v LRUCache \<Rightarrow> nat \<Rightarrow> u64" where
  "charge_of c a = lh_charge (the (lc_heap c a))"

text \<open>The part of a handle that never changes.\<close>

definition content :: "'v LRUCache \<Rightarrow> nat \<Rightarrow> (bytes \<times> u32 \<times> 'v \<times> u64) option" where
  "content c a = map_option (\<lambda>h. (lh_key h, lh_hash h, lh_value h, lh_charge h)) (lc_heap c a)"

text \<open>
  \<open>rc\<close> counts the references of each handle, \<open>C\<close> are the handles that the cache has a reference to. Every
  address that was ever given out has either a handle or been deleted, once.
\<close>

definition handle_ok :: "nat \<Rightarrow> bool \<Rightarrow> bool \<Rightarrow> 'v LRUHandle option \<Rightarrow> bool" where
  "handle_ok n cached given e \<longleftrightarrow>
     (case e of None \<Rightarrow> n = 0 \<and> \<not> cached
      | Some h \<Rightarrow> given \<and> lh_in_cache h = cached \<and> lh_refs h = of_nat n \<and> 0 < n \<and> n < 2 ^ 32)"

lemma handle_ok_simps [simp]:
  "handle_ok n cached given None \<longleftrightarrow> n = 0 \<and> \<not> cached"
  "handle_ok n cached given (Some h) \<longleftrightarrow> given \<and> lh_in_cache h = cached \<and> lh_refs h = of_nat n \<and> 0 < n \<and> n < 2 ^ 32"
  by (simp_all add: handle_ok_def)

definition counted :: "(nat \<Rightarrow> nat) \<Rightarrow> nat set \<Rightarrow> 'v LRUCache \<Rightarrow> bool" where
  "counted rc C c \<longleftrightarrow> (\<forall>a. handle_ok (rc a) (a \<in> C) (a < lc_fresh c) (lc_heap c a)) \<and>
     distinct (lc_lru c) \<and> distinct (lc_in_use c) \<and> set (lc_lru c) = {a \<in> C. rc a = 1} \<and> set (lc_in_use c) = {a \<in> C. rc a \<noteq> 1} \<and>
     lc_usage c = (\<Sum>a \<in> C. charge_of c a) \<and> length (lc_deleted c) + card (dom (lc_heap c)) = lc_fresh c"

lemma refs_eq:
  "n < 2 ^ 32 \<Longrightarrow> (of_nat n :: u32) = 1 \<longleftrightarrow> n = 1" "n < 2 ^ 32 \<Longrightarrow> (of_nat n :: u32) = 0 \<longleftrightarrow> n = 0"
  by (simp_all add: word_unat_eq_iff unat_of_nat)

lemma refs_nat:
  fixes w :: u32
  shows "w = of_nat n \<Longrightarrow> 0 < n \<Longrightarrow> n < 2 ^ 32 \<Longrightarrow> unat w = n \<and> 0 < w"
  by (simp add: word_less_nat_alt unat_of_nat)

lemma countedD:
  assumes "counted rc C c"
  shows "handle_ok (rc a) (a \<in> C) (a < lc_fresh c) (lc_heap c a)" "distinct (lc_lru c)" "distinct (lc_in_use c)"
    "set (lc_lru c) = {a \<in> C. rc a = 1}" "set (lc_in_use c) = {a \<in> C. rc a \<noteq> 1}"
    "lc_usage c = (\<Sum>a \<in> C. charge_of c a)" "length (lc_deleted c) + card (dom (lc_heap c)) = lc_fresh c"
  using assms by (simp_all add: counted_def)

lemma counted_Some: "counted rc C c \<Longrightarrow> 0 < rc a \<or> a \<in> C \<Longrightarrow> \<exists>h. lc_heap c a = Some h"
  using countedD(1) [of rc C c a] by (cases "lc_heap c a") auto

lemma counted_handle:
  assumes "counted rc C c" and "lc_heap c a = Some h"
  shows "a < lc_fresh c" "lh_in_cache h \<longleftrightarrow> a \<in> C" "lh_refs h = of_nat (rc a)" "0 < rc a" "rc a < 2 ^ 32"
  using countedD(1) [OF assms(1), of a] assms(2) by simp_all

lemma counted_finite:
  assumes "counted rc C c"
  shows "finite C" and "finite (dom (lc_heap c))"
proof -
  have "C = set (lc_lru c) \<union> set (lc_in_use c)" using countedD(4,5) [OF assms] by auto
  then show "finite C" by (metis finite_set finite_Un)
  have "dom (lc_heap c) \<subseteq> {..<lc_fresh c}" using counted_handle(1) [OF assms] by auto
  then show "finite (dom (lc_heap c))" by (rule finite_subset) simp
qed

text \<open>Changing the references or the flag of a handle changes neither its charge nor its content.\<close>

lemma put_handle_fixed:
  assumes "lc_heap c a = Some h" and "lh_key h' = lh_key h" and "lh_hash h' = lh_hash h" and "lh_value h' = lh_value h" and "lh_charge h' = lh_charge h"
  shows "charge_of (put_handle a h' c) = charge_of c" "content (put_handle a h' c) = content c"
    "dom (lc_heap (put_handle a h' c)) = dom (lc_heap c)"
  using assms by (auto simp: charge_of_def content_def put_handle_def)

definition same_base :: "'v LRUCache \<Rightarrow> 'v LRUCache \<Rightarrow> bool" where
  "same_base c c' \<longleftrightarrow> lc_table c' = lc_table c \<and> lc_capacity c' = lc_capacity c \<and> lc_fresh c' = lc_fresh c"

lemma Ref_ok:
  assumes "counted rc C c" and "lc_heap c a = Some h" and "rc a + 1 < 2 ^ 32"
  shows "\<exists>c'. LRU_Ref a c = Some c' \<and> counted (rc(a := rc a + 1)) C c' \<and> content c' = content c \<and> same_base c c'"
proof -
  note at = counted_handle [OF assms(1,2)] and l = countedD [OF assms(1)]
  let ?h = "h\<lparr>lh_refs := lh_refs h + 1\<rparr>"
  let ?c = "if rc a = 1 \<and> a \<in> C then c\<lparr>lc_lru := remove1 a (lc_lru c), lc_in_use := lc_in_use c @ [a]\<rparr> else c"
  have H: "lc_heap ?c a = Some h" using assms(2) by simp
  note fixed = put_handle_fixed [OF H, of ?h, simplified]
  have "LRU_Ref a c = Some (put_handle a ?h ?c)"
    using at l(4) assms(2) by (auto simp: LRU_Ref_def LRU_Remove_def refs_eq)
  moreover have "counted (rc(a := rc a + 1)) C (put_handle a ?h ?c)"
    unfolding counted_def
  proof (intro conjI allI)
    fix b
    show "handle_ok ((rc(a := rc a + 1)) b) (b \<in> C) (b < lc_fresh (put_handle a ?h ?c)) (lc_heap (put_handle a ?h ?c) b)"
      using l(1) [of b] at assms(3) by (simp add: put_handle_def)
    show "set (lc_lru (put_handle a ?h ?c)) = {b \<in> C. (rc(a := rc a + 1)) b = 1}"
      "set (lc_in_use (put_handle a ?h ?c)) = {b \<in> C. (rc(a := rc a + 1)) b \<noteq> 1}"
      using l(2-5) at(4) by (auto simp: put_handle_def)
  qed (use l fixed in \<open>auto simp: put_handle_def charge_of_def\<close>)
  moreover have "content (put_handle a ?h ?c) = content c" using assms(2) by (auto simp: content_def put_handle_def)
  ultimately show ?thesis by (auto simp: same_base_def put_handle_def)
qed

lemma Unref_ok:
  assumes "counted rc C c" and "lc_heap c a = Some h" and "a \<in> C \<Longrightarrow> 2 \<le> rc a"
  shows "\<exists>c'. LRU_Unref a c = Some c' \<and> counted (rc(a := rc a - 1)) C c' \<and>
    content c' = (if rc a = 1 then (content c)(a := None) else content c) \<and> same_base c c' \<and>
    (a \<notin> C \<longrightarrow> lc_lru c' = lc_lru c \<and> lc_in_use c' = lc_in_use c)"
proof -
  note at = counted_handle [OF assms(1,2)] and l = countedD [OF assms(1)]
  let ?h = "h\<lparr>lh_refs := lh_refs h - 1\<rparr>"
  have r: "lh_refs ?h = of_nat (rc a - 1)" using at(3,4) by (simp add: of_nat_diff)
  then have r01: "lh_refs ?h = 0 \<longleftrightarrow> rc a = 1" "lh_refs ?h = 1 \<longleftrightarrow> rc a = 2" using refs_eq [of "rc a - 1"] at(4,5) by auto
  show ?thesis
  proof (cases "rc a = 1")
    case True
    then have C: "a \<notin> C" using assms(3) by auto
    let ?c = "(put_handle a ?h c)\<lparr>lc_deleted := lc_deleted c @ [(lh_key h, lh_value h)], lc_heap := (lc_heap c)(a := None)\<rparr>"
    have "LRU_Unref a c = Some ?c" using assms(2) r01(1) True by (simp add: LRU_Unref_def put_handle_def)
    moreover have "counted (rc(a := rc a - 1)) C ?c"
      unfolding counted_def
    proof (intro conjI allI)
      fix b show "handle_ok ((rc(a := rc a - 1)) b) (b \<in> C) (b < lc_fresh ?c) (lc_heap ?c b)"
        using l(1) [of b] True C by (simp add: put_handle_def)
      have "(\<Sum>b \<in> C. charge_of ?c b) = (\<Sum>b \<in> C. charge_of c b)" by (rule sum.cong) (use C in \<open>auto simp: charge_of_def\<close>)
      moreover have "lc_usage ?c = lc_usage c" by (simp add: put_handle_def)
      ultimately show "lc_usage ?c = (\<Sum>b \<in> C. charge_of ?c b)" using l(6) by metis
      have d: "dom (lc_heap ?c) = dom (lc_heap c) - {a}" "a \<in> dom (lc_heap c)" using assms(2) by auto
      have "card (dom (lc_heap c)) = Suc (card (dom (lc_heap c) - {a}))" by (rule card.remove [OF counted_finite(2) [OF assms(1)] d(2)])
      moreover have "length (lc_deleted ?c) = Suc (length (lc_deleted c))" "lc_fresh ?c = lc_fresh c" by (simp_all add: put_handle_def)
      ultimately show "length (lc_deleted ?c) + card (dom (lc_heap ?c)) = lc_fresh ?c" using l(7) unfolding d(1) by linarith
    qed (use l C in \<open>auto simp: put_handle_def\<close>)
    moreover have "content ?c = (content c)(a := None)" by (auto simp: content_def)
    ultimately show ?thesis using True by (simp add: same_base_def put_handle_def)
  next
    case False
    let ?c = "if rc a = 2 \<and> a \<in> C then c\<lparr>lc_in_use := remove1 a (lc_in_use c), lc_lru := lc_lru c @ [a]\<rparr> else c"
    have H: "lc_heap ?c a = Some h" using assms(2) by simp
    note fixed = put_handle_fixed [OF H, of ?h, simplified]
    have "LRU_Unref a c = Some (put_handle a ?h ?c)"
    proof (cases "rc a = 2 \<and> a \<in> C")
      case True
      then have "lh_refs ?h = 1" "lh_in_cache h" "a \<notin> set (lc_lru c)" "a \<in> set (lc_in_use c)" using r01 at(2) l(4,5) by auto
      then show ?thesis using assms(2) True by (simp add: LRU_Unref_def put_handle_def LRU_Remove_def)
    next
      case no: False
      then have "lh_refs ?h \<noteq> 0" "\<not> (lh_in_cache h \<and> lh_refs ?h = 1)" using r01 at(2) False by auto
      then show ?thesis using assms(2) no by (auto simp: LRU_Unref_def Let_def)
    qed
    moreover have "counted (rc(a := rc a - 1)) C (put_handle a ?h ?c)"
      unfolding counted_def
    proof (intro conjI allI)
      fix b show "handle_ok ((rc(a := rc a - 1)) b) (b \<in> C) (b < lc_fresh (put_handle a ?h ?c)) (lc_heap (put_handle a ?h ?c) b)"
        using l(1) [of b] at False r by (auto simp: put_handle_def)
      have e: "(rc(a := rc a - 1)) b = 1 \<longleftrightarrow> (if b = a then rc a = 2 else rc b = 1)" for b using at(4) by auto
      have "a \<in> C \<Longrightarrow> rc a = 2 \<or> rc a \<noteq> 1 \<and> rc a \<noteq> 2" using assms(3) by auto
      then show "set (lc_lru (put_handle a ?h ?c)) = {b \<in> C. (rc(a := rc a - 1)) b = 1}"
        "set (lc_in_use (put_handle a ?h ?c)) = {b \<in> C. (rc(a := rc a - 1)) b \<noteq> 1}"
        unfolding e using l(2-5) False by (auto simp: put_handle_def)
    qed (use l fixed in \<open>auto simp: put_handle_def charge_of_def\<close>)
    moreover have "content (put_handle a ?h ?c) = content c" using assms(2) by (auto simp: content_def put_handle_def)
    ultimately show ?thesis using False by (simp add: same_base_def put_handle_def)
  qed
qed

text \<open>Taking a handle out of the cache.\<close>

definition unlinked :: "nat \<Rightarrow> 'v LRUHandle \<Rightarrow> 'v LRUCache \<Rightarrow> 'v LRUCache" where
  "unlinked a h c = (put_handle a (h\<lparr>lh_in_cache := False\<rparr>) c)
     \<lparr>lc_lru := remove1 a (lc_lru c), lc_in_use := remove1 a (lc_in_use c), lc_usage := lc_usage c - lh_charge h\<rparr>"

lemma unlinked_ok:
  assumes "counted rc C c" and "a \<in> C" and "lc_heap c a = Some h"
  shows "counted rc (C - {a}) (unlinked a h c)" "content (unlinked a h c) = content c"
    "\<exists>c1. LRU_Remove a c = Some c1 \<and> lc_heap c1 = lc_heap c \<and>
       (put_handle a (h\<lparr>lh_in_cache := False\<rparr>) c1)\<lparr>lc_usage := lc_usage c1 - lh_charge h\<rparr> = unlinked a h c"
proof -
  note at = counted_handle [OF assms(1,3)] and l = countedD [OF assms(1)]
  have fixed: "charge_of (unlinked a h c) = charge_of c" "dom (lc_heap (unlinked a h c)) = dom (lc_heap c)"
    using assms(3) by (auto simp: charge_of_def unlinked_def put_handle_def)
  show "counted rc (C - {a}) (unlinked a h c)"
    unfolding counted_def fixed
  proof (intro conjI allI)
    fix b show "handle_ok (rc b) (b \<in> C - {a}) (b < lc_fresh (unlinked a h c)) (lc_heap (unlinked a h c) b)"
      using l(1) [of b] at by (simp add: unlinked_def put_handle_def)
    have "charge_of c a = lh_charge h" using assms(3) by (simp add: charge_of_def)
    then show "lc_usage (unlinked a h c) = (\<Sum>b \<in> C - {a}. charge_of c b)"
      using l(6) sum.remove [OF counted_finite(1) [OF assms(1)] assms(2), of "charge_of c"] by (simp add: unlinked_def)
  qed (use l in \<open>auto simp: unlinked_def put_handle_def\<close>)
  show "content (unlinked a h c) = content c" using assms(3) by (auto simp: content_def unlinked_def put_handle_def)
  have "a \<in> set (lc_lru c) \<and> a \<notin> set (lc_in_use c) \<or> a \<notin> set (lc_lru c) \<and> a \<in> set (lc_in_use c)" using l(4,5) assms(2) by auto
  then show "\<exists>c1. LRU_Remove a c = Some c1 \<and> lc_heap c1 = lc_heap c \<and>
      (put_handle a (h\<lparr>lh_in_cache := False\<rparr>) c1)\<lparr>lc_usage := lc_usage c1 - lh_charge h\<rparr> = unlinked a h c"
    by (auto simp: LRU_Remove_def unlinked_def put_handle_def remove1_idem)
qed

lemma FinishErase_ok:
  assumes "counted rc C c" and "a \<in> C"
  shows "\<exists>c'. FinishErase (Some a) c = Some (True, c') \<and> counted (rc(a := rc a - 1)) (C - {a}) c' \<and>
    content c' = (if rc a = 1 then (content c)(a := None) else content c) \<and> same_base c c' \<and>
    lc_lru c' = remove1 a (lc_lru c) \<and> lc_in_use c' = remove1 a (lc_in_use c)"
proof -
  obtain h where h: "lc_heap c a = Some h" using counted_Some [OF assms(1)] assms(2) by blast
  note un = unlinked_ok [OF assms h]
  obtain c1 where c1: "LRU_Remove a c = Some c1" "lc_heap c1 = lc_heap c"
    "(put_handle a (h\<lparr>lh_in_cache := False\<rparr>) c1)\<lparr>lc_usage := lc_usage c1 - lh_charge h\<rparr> = unlinked a h c" using un(3) by blast
  have "lc_heap (unlinked a h c) a = Some (h\<lparr>lh_in_cache := False\<rparr>)" by (simp add: unlinked_def put_handle_def)
  from Unref_ok [OF un(1) this] obtain c' where c': "LRU_Unref a (unlinked a h c) = Some c'" "counted (rc(a := rc a - 1)) (C - {a}) c'"
    "content c' = (if rc a = 1 then (content c)(a := None) else content c)" "same_base (unlinked a h c) c'"
    "lc_lru c' = lc_lru (unlinked a h c)" "lc_in_use c' = lc_in_use (unlinked a h c)" unfolding un(2) by auto
  have "FinishErase (Some a) c = Some (True, c')" using c1 c'(1) h by (simp add: FinishErase_def)
  moreover have "same_base c c'" using c'(4) by (simp add: same_base_def unlinked_def put_handle_def)
  ultimately show ?thesis using c'(2,3,5,6) by (simp add: unlinked_def)
qed

section \<open>The invariant of a shard\<close>

abbreviation cached_set :: "'v LRUCache \<Rightarrow> nat set" where
  "cached_set c \<equiv> ht_set (lc_table c)"

text \<open>\<open>clients a\<close> counts the references of the clients to a handle.\<close>

definition ref_count :: "(nat \<Rightarrow> nat) \<Rightarrow> nat set \<Rightarrow> nat \<Rightarrow> nat" where
  "ref_count clients T a = clients a + of_bool (a \<in> T)"

definition shard_ok :: "(nat \<Rightarrow> nat) \<Rightarrow> 'v LRUCache \<Rightarrow> bool" where
  "shard_ok clients c \<longleftrightarrow> ht_ok (keys_of c) (lc_table c) \<and> counted (ref_count clients (cached_set c)) (cached_set c) c"

lemma keys_of_content: "keys_of c = (\<lambda>a. map_option (\<lambda>(k, h, _). (k, h)) (content c a))"
  by (auto simp: keys_of_def content_def option.map_comp o_def)

lemma ht_ok_cong: "ht_ok kh t \<Longrightarrow> (\<And>a. a \<in> ht_set t \<Longrightarrow> kh' a = kh a) \<Longrightarrow> ht_ok kh' t"
proof -
  assume ok: "ht_ok kh t" and eq: "\<And>a. a \<in> ht_set t \<Longrightarrow> kh' a = kh a"
  have "\<exists>k h. kh' a = Some (k, h) \<and> bucket_of (length (ht_list t)) h = i" if "i < length (ht_list t)" "a \<in> set (ht_list t ! i)" for i a
    using shape_at [OF _ that, of kh] eq [of a] ok that in_chains [of a "ht_list t"] unfolding ht_ok_def by metis
  moreover have "inj_on kh' (ht_set t)" using ok inj_on_cong [of "ht_set t" kh' kh] eq unfolding ht_ok_def by blast
  ultimately show ?thesis using ok by (simp add: ht_ok_def shape_def)
qed

lemma shard_okI:
  assumes "ht_ok kh t" and "lc_table c = t" and "\<And>a. a \<in> ht_set t \<Longrightarrow> keys_of c a = kh a" and "counted rc (ht_set t) c"
    and "rc = ref_count clients (ht_set t)"
  shows "shard_ok clients c"
  using assms ht_ok_cong unfolding shard_ok_def by metis

lemma ref_count_upd: "(ref_count clients T)(a := n + of_bool (a \<in> T)) = ref_count (clients(a := n)) T"
  by (auto simp: ref_count_def)

lemma shard_handle: "shard_ok clients c \<Longrightarrow> 0 < clients a \<or> a \<in> cached_set c \<Longrightarrow> \<exists>h. lc_heap c a = Some h"
  using counted_Some [of "ref_count clients (cached_set c)" "cached_set c" c a] by (auto simp: shard_ok_def ref_count_def)

lemma shard_fresh: "shard_ok clients c \<Longrightarrow> clients (lc_fresh c) = 0 \<and> lc_fresh c \<notin> cached_set c \<and> lc_heap c (lc_fresh c) = None"
  using counted_handle(1) [of "ref_count clients (cached_set c)" "cached_set c" c "lc_fresh c"] shard_handle [of clients c "lc_fresh c"]
  unfolding shard_ok_def by (metis less_irrefl neq0_conv not_None_eq)

lemma keys_same: "content c' = content c \<Longrightarrow> keys_of c' = keys_of c"
  by (simp add: keys_of_content)

lemma Lookup_ok:
  assumes "shard_ok clients c"
  shows "\<exists>r. is_entry (keys_of c) (cached_set c) key hash r \<and>
    (case r of None \<Rightarrow> LRU_Lookup key hash c = Some (None, c)
     | Some a \<Rightarrow> clients a + 2 < 2 ^ 32 \<longrightarrow> (\<exists>c'. LRU_Lookup key hash c = Some (Some a, c') \<and>
         shard_ok (clients(a := clients a + 1)) c' \<and> content c' = content c \<and> same_base c c'))"
proof -
  have ok: "ht_ok (keys_of c) (lc_table c)" "counted (ref_count clients (cached_set c)) (cached_set c) c" using assms by (auto simp: shard_ok_def)
  obtain r where r: "HT_Lookup (keys_of c) key hash (lc_table c) = Some r" "is_entry (keys_of c) (cached_set c) key hash r"
    using HT_Lookup_ok [OF ok(1)] by blast
  have "\<exists>c'. LRU_Lookup key hash c = Some (Some a, c') \<and> shard_ok (clients(a := clients a + 1)) c' \<and> content c' = content c \<and> same_base c c'"
    if a: "r = Some a" "clients a + 2 < 2 ^ 32" for a
  proof -
    have T: "a \<in> cached_set c" using r(2) a(1) by (simp add: is_entry_def)
    then obtain h where h: "lc_heap c a = Some h" using shard_handle [OF assms] by blast
    have "ref_count clients (cached_set c) a + 1 < 2 ^ 32" using a(2) T by (simp add: ref_count_def)
    from Ref_ok [OF ok(2) h this] obtain c' where c': "LRU_Ref a c = Some c'"
      "counted ((ref_count clients (cached_set c))(a := ref_count clients (cached_set c) a + 1)) (cached_set c) c'"
      "content c' = content c" "same_base c c'" by blast
    have "(ref_count clients (cached_set c))(a := ref_count clients (cached_set c) a + 1) = ref_count (clients(a := clients a + 1)) (cached_set c)"
      by (rule ext) (simp add: ref_count_def)
    then have "shard_ok (clients(a := clients a + 1)) c'"
      using c' ok(1) keys_same [OF c'(3)] by (simp add: shard_ok_def same_base_def)
    then show ?thesis using c' r(1) a(1) by (simp add: LRU_Lookup_def)
  qed
  then show ?thesis using r by (intro exI [of _ r]) (auto simp: LRU_Lookup_def split: option.splits)
qed

lemma Release_ok:
  assumes "shard_ok clients c" and "0 < clients a"
  shows "\<exists>c'. LRU_Release a c = Some c' \<and> shard_ok (clients(a := clients a - 1)) c' \<and> same_base c c' \<and>
    content c' = (if clients a = 1 \<and> a \<notin> cached_set c then (content c)(a := None) else content c)"
proof -
  let ?T = "cached_set c"
  have ok: "ht_ok (keys_of c) (lc_table c)" "counted (ref_count clients ?T) ?T c" using assms(1) by (auto simp: shard_ok_def)
  obtain h where h: "lc_heap c a = Some h" using shard_handle [OF assms(1)] assms(2) by blast
  have "2 \<le> ref_count clients ?T a" if "a \<in> ?T" using that assms(2) by (simp add: ref_count_def)
  from Unref_ok [OF ok(2) h this] obtain c' where c': "LRU_Unref a c = Some c'"
    "counted ((ref_count clients ?T)(a := ref_count clients ?T a - 1)) ?T c'"
    "content c' = (if ref_count clients ?T a = 1 then (content c)(a := None) else content c)" "same_base c c'" by blast
  have e: "(ref_count clients ?T)(a := ref_count clients ?T a - 1) = ref_count (clients(a := clients a - 1)) ?T"
    using assms(2) by (intro ext) (simp add: ref_count_def)
  have c: "content c' = (if clients a = 1 \<and> a \<notin> ?T then (content c)(a := None) else content c)"
    using c'(3) assms(2) by (auto simp: ref_count_def)
  have "keys_of c' b = keys_of c b" if "b \<in> ?T" for b using c that by (auto simp: keys_of_content)
  then have "shard_ok (clients(a := clients a - 1)) c'"
    using shard_okI [OF ok(1), of c'] c'(2,4) e by (simp add: same_base_def)
  with c c' show ?thesis by (simp add: LRU_Release_def)
qed

text \<open>Erasing an entry.\<close>

lemma FinishErase_table:
  assumes "ht_ok kh t" and "counted (ref_count clients (ht_set t \<union> set_option r)) (ht_set t \<union> set_option r) c" and "lc_table c = t"
    and "\<And>a. a \<in> ht_set t \<Longrightarrow> keys_of c a = kh a" and "set_option r \<inter> ht_set t = {}"
  shows "\<exists>b c'. FinishErase r c = Some (b, c') \<and> shard_ok clients c' \<and> same_base c c' \<and>
    content c' = (\<lambda>a. if a \<in> set_option r \<and> clients a = 0 then None else content c a) \<and>
    lc_lru c' = filter (\<lambda>a. a \<notin> set_option r) (lc_lru c) \<and> lc_in_use c' = filter (\<lambda>a. a \<notin> set_option r) (lc_in_use c)"
proof (cases r)
  case None
  then have "shard_ok clients c" using assms by (intro shard_okI [OF assms(1,3)]) auto
  with None show ?thesis by (intro exI [of _ False] exI [of _ c]) (simp add: FinishErase_def same_base_def)
next
  case (Some a)
  let ?C = "ht_set t \<union> set_option r"
  have a: "a \<in> ?C" "a \<notin> ht_set t" "?C - {a} = ht_set t" using Some assms(5) by auto
  from FinishErase_ok [OF assms(2) a(1)] obtain c' where c': "FinishErase (Some a) c = Some (True, c')"
    "counted ((ref_count clients ?C)(a := ref_count clients ?C a - 1)) (ht_set t) c'"
    "content c' = (if ref_count clients ?C a = 1 then (content c)(a := None) else content c)" "same_base c c'"
    "lc_lru c' = remove1 a (lc_lru c)" "lc_in_use c' = remove1 a (lc_in_use c)" unfolding a(3) by blast
  have e: "(ref_count clients ?C)(a := ref_count clients ?C a - 1) = ref_count clients (ht_set t)"
    using a Some by (intro ext) (auto simp: ref_count_def)
  have c: "content c' = (\<lambda>b. if b \<in> set_option r \<and> clients b = 0 then None else content c b)"
    using c'(3) a(1) Some by (intro ext) (auto simp: ref_count_def)
  have "keys_of c' b = kh b" if "b \<in> ht_set t" for b
    using assms(4) [OF that] c that a(2) Some by (auto simp: keys_of_content)
  then have "shard_ok clients c'" using c'(2,4) e assms(3) by (intro shard_okI [OF assms(1)]) (auto simp: same_base_def)
  moreover have "filter (\<lambda>b. b \<notin> set_option r) xs = remove1 a xs" if "distinct xs" for xs
    using that Some by (simp add: distinct_remove1_removeAll removeAll_filter_not_eq eq_commute)
  ultimately show ?thesis
    using c' c Some countedD(2,3) [OF assms(2)] by (intro exI [of _ True] exI [of _ c']) (simp add: fun_eq_iff)
qed

lemma Erase_ok:
  assumes "shard_ok clients c"
  shows "\<exists>r c'. LRU_Erase key hash c = Some c' \<and> is_entry (keys_of c) (cached_set c) key hash r \<and> shard_ok clients c' \<and>
    cached_set c' = cached_set c - set_option r \<and>
    content c' = (\<lambda>a. if a \<in> set_option r \<and> clients a = 0 then None else content c a) \<and>
    lc_lru c' = filter (\<lambda>a. a \<notin> set_option r) (lc_lru c) \<and> lc_in_use c' = filter (\<lambda>a. a \<notin> set_option r) (lc_in_use c) \<and>
    lc_capacity c' = lc_capacity c \<and> lc_fresh c' = lc_fresh c"
proof -
  let ?T = "cached_set c"
  have ok: "ht_ok (keys_of c) (lc_table c)" "counted (ref_count clients ?T) ?T c" using assms by (auto simp: shard_ok_def)
  obtain r t where r: "HT_Remove (keys_of c) key hash (lc_table c) = Some (r, t)" "is_entry (keys_of c) ?T key hash r"
    "ht_ok (keys_of c) t" "ht_set t = ?T - set_option r" using HT_Remove_ok [OF ok(1)] by blast
  let ?c = "c\<lparr>lc_table := t\<rparr>"
  have "set_option r \<subseteq> ?T" using r(2) by (cases r) (auto simp: is_entry_def)
  then have T: "ht_set t \<union> set_option r = ?T" "set_option r \<inter> ht_set t = {}" using r(4) by auto
  have k: "keys_of ?c = keys_of c" "content ?c = content c" by (auto simp: keys_of_def content_def)
  have "counted (ref_count clients ?T) ?T ?c" using ok(2) by (simp add: counted_def charge_of_def)
  then have C: "counted (ref_count clients (ht_set t \<union> set_option r)) (ht_set t \<union> set_option r) ?c" unfolding T(1) .
  have l: "lc_lru ?c = lc_lru c" "lc_in_use ?c = lc_in_use c" by simp_all
  obtain b c' where c': "FinishErase r ?c = Some (b, c')" "shard_ok clients c'" "same_base ?c c'"
    "content c' = (\<lambda>a. if a \<in> set_option r \<and> clients a = 0 then None else content c a)"
    "lc_lru c' = filter (\<lambda>a. a \<notin> set_option r) (lc_lru c)" "lc_in_use c' = filter (\<lambda>a. a \<notin> set_option r) (lc_in_use c)"
    using FinishErase_table [OF r(3) C _ _ T(2)] unfolding k l by auto
  then show ?thesis using r by (intro exI [of _ r] exI [of _ c']) (simp add: LRU_Erase_def same_base_def)
qed

text \<open>Evicting the \<open>n\<close> oldest entries of the LRU list. What stays is as it was.\<close>

definition charge_sum :: "'v LRUCache \<Rightarrow> nat set \<Rightarrow> u64" where
  "charge_sum c A = (\<Sum>a \<in> A. charge_of c a)"

definition evicted :: "nat \<Rightarrow> 'v LRUCache \<Rightarrow> 'v LRUCache \<Rightarrow> bool" where
  "evicted n c c' \<longleftrightarrow> n \<le> length (lc_lru c) \<and> cached_set c' = cached_set c - set (take n (lc_lru c)) \<and>
     lc_lru c' = drop n (lc_lru c) \<and> lc_in_use c' = lc_in_use c \<and>
     content c' = (\<lambda>a. if a \<in> set (take n (lc_lru c)) then None else content c a) \<and>
     lc_capacity c' = lc_capacity c \<and> lc_fresh c' = lc_fresh c"

lemma evicted_0: "evicted 0 c c"
  by (simp add: evicted_def)

lemma evicted_Suc:
  assumes "evicted 1 c c1" and "evicted n c1 c'"
  shows "evicted (Suc n) c c'"
proof -
  from assms obtain a as where "lc_lru c = a # as" by (cases "lc_lru c") (auto simp: evicted_def)
  with assms show ?thesis by (auto simp: evicted_def fun_eq_iff)
qed

lemma shard_lru:
  assumes "shard_ok clients c" and "a \<in> set (lc_lru c)"
  shows "a \<in> cached_set c" and "clients a = 0"
proof -
  have "counted (ref_count clients (cached_set c)) (cached_set c) c" using assms(1) by (simp add: shard_ok_def)
  from countedD(4) [OF this] assms(2) have a: "a \<in> cached_set c" "ref_count clients (cached_set c) a = 1" by blast+
  then show "a \<in> cached_set c" "clients a = 0" unfolding ref_count_def by simp_all
qed

lemma shard_in_use:
  assumes "shard_ok clients c" and "a \<in> cached_set c" and "clients a = 0"
  shows "a \<in> set (lc_lru c)" and "a \<notin> set (lc_in_use c)"
proof -
  have "counted (ref_count clients (cached_set c)) (cached_set c) c" using assms(1) by (simp add: shard_ok_def)
  from countedD(4,5) [OF this] assms(2,3) show "a \<in> set (lc_lru c)" "a \<notin> set (lc_in_use c)" by (simp_all add: ref_count_def)
qed

lemma shard_distinct: "shard_ok clients c \<Longrightarrow> distinct (lc_lru c)"
  using countedD(2) by (auto simp: shard_ok_def)

lemma charge_sum_evicted:
  assumes "shard_ok clients c" and "evicted n c c'" and "A \<subseteq> cached_set c'"
  shows "charge_sum c' A = charge_sum c A"
  unfolding charge_sum_def
proof (rule sum.cong)
  fix a assume "a \<in> A"
  then have "a \<in> cached_set c - set (take n (lc_lru c))" using assms(2,3) unfolding evicted_def by (metis subsetD)
  then have a: "a \<in> cached_set c" "a \<notin> set (take n (lc_lru c))" by (simp_all only: Diff_iff not_False_eq_True simp_thms)
  then have "content c' a = content c a" using assms(2) by (simp add: evicted_def)
  moreover obtain h where "lc_heap c a = Some h" using shard_handle [OF assms(1)] a(1) by blast
  ultimately show "charge_of c' a = charge_of c a" by (auto simp: content_def charge_of_def)
qed simp

lemma shard_usage: "shard_ok clients c \<Longrightarrow> lc_usage c = charge_sum c (cached_set c)"
  using countedD(6) unfolding shard_ok_def charge_sum_def by blast

lemma erase_oldest_Erase:
  "erase_oldest c = do { h \<leftarrow> lc_heap c (hd (lc_lru c)); LRU_Erase (lh_key h) (lh_hash h) c }"
  by (simp add: erase_oldest_def LRU_Erase_def)

lemma is_entry_unique:
  assumes "is_entry kh T key hash r" and "inj_on kh T" and "a \<in> T" and "kh a = Some (key, hash)"
  shows "r = Some a"
  using assms inj_onD [OF assms(2)] by (cases r) (auto simp: is_entry_def)

lemma erase_oldest_ok:
  assumes "shard_ok clients c" and "lc_lru c = a # as"
  shows "\<exists>c'. erase_oldest c = Some c' \<and> shard_ok clients c' \<and> evicted 1 c c'"
proof -
  have a: "a \<in> cached_set c" "clients a = 0" using shard_lru [OF assms(1), of a] assms(2) by auto
  obtain h where h: "lc_heap c a = Some h" using shard_handle [OF assms(1)] a(1) by blast
  then have k: "keys_of c a = Some (lh_key h, lh_hash h)" by (simp add: keys_of_def)
  obtain r c' where c': "LRU_Erase (lh_key h) (lh_hash h) c = Some c'" "is_entry (keys_of c) (cached_set c) (lh_key h) (lh_hash h) r"
    "shard_ok clients c'" "cached_set c' = cached_set c - set_option r"
    "content c' = (\<lambda>a. if a \<in> set_option r \<and> clients a = 0 then None else content c a)"
    "lc_lru c' = filter (\<lambda>a. a \<notin> set_option r) (lc_lru c)" "lc_in_use c' = filter (\<lambda>a. a \<notin> set_option r) (lc_in_use c)"
    "lc_capacity c' = lc_capacity c" "lc_fresh c' = lc_fresh c"
    using Erase_ok [OF assms(1), of "lh_key h" "lh_hash h"] by (elim exE conjE)
  have "inj_on (keys_of c) (cached_set c)" using assms(1) by (simp add: shard_ok_def ht_ok_def)
  then have r: "r = Some a" using is_entry_unique [OF c'(2) _ a(1) k] by blast
  have "distinct (lc_lru c)" "a \<notin> set (lc_in_use c)" using shard_distinct [OF assms(1)] shard_in_use(2) [OF assms(1) a] by simp_all
  then have "filter (\<lambda>b. b \<notin> set_option r) (lc_lru c) = as" "filter (\<lambda>b. b \<notin> set_option r) (lc_in_use c) = lc_in_use c"
    unfolding assms(2) r by (auto simp: filter_id_conv)
  moreover have "set (take 1 (lc_lru c)) = set_option r" "drop 1 (lc_lru c) = as" "1 \<le> length (lc_lru c)"
    unfolding assms(2) r by simp_all
  moreover have "content c' = (\<lambda>b. if b \<in> set_option r then None else content c b)" using c'(5) a(2) r by (simp add: fun_eq_iff)
  ultimately have "evicted 1 c c'" unfolding evicted_def using c'(4,6-9) by presburger
  with c' show ?thesis using assms(2) h by (auto simp: erase_oldest_Erase)
qed

lemma evict_ok:
  assumes "shard_ok clients c"
  shows "\<exists>n c'. evict c = Some c' \<and> shard_ok clients c' \<and> evicted n c c' \<and> (lc_usage c' \<le> lc_capacity c' \<or> lc_lru c' = []) \<and>
    (\<forall>m < n. lc_capacity c < charge_sum c (cached_set c - set (take m (lc_lru c))))"
  using assms
proof (induction "lc_lru c" arbitrary: c)
  case Nil
  then show ?case by (intro exI [of _ 0] exI [of _ c]) (simp add: evicted_0 evict.simps)
next
  case (Cons a as)
  note L = Cons.hyps(2) [symmetric]
  show ?case
  proof (cases "lc_capacity c < lc_usage c")
    case True
    obtain c1 where c1: "erase_oldest c = Some c1" "shard_ok clients c1" "evicted 1 c c1"
      using erase_oldest_ok [OF Cons.prems] Cons.hyps(2) by metis
    then have "as = lc_lru c1" by (simp add: evicted_def flip: Cons.hyps(2))
    from Cons.hyps(1) [OF this c1(2)] obtain n c' where c': "evict c1 = Some c'" "shard_ok clients c'" "evicted n c1 c'"
      "lc_usage c' \<le> lc_capacity c' \<or> lc_lru c' = []" "\<forall>m < n. lc_capacity c1 < charge_sum c1 (cached_set c1 - set (take m (lc_lru c1)))"
      by blast
    have "lc_capacity c < charge_sum c (cached_set c - set (take m (lc_lru c)))" if "m < Suc n" for m
    proof (cases m)
      case 0
      then show ?thesis using True shard_usage [OF Cons.prems] by simp
    next
      case (Suc j)
      then have "lc_capacity c1 < charge_sum c1 (cached_set c1 - set (take j (lc_lru c1)))" using c'(5) that by simp
      moreover have "cached_set c1 - set (take j (lc_lru c1)) = cached_set c - set (take m (lc_lru c))"
        using c1(3) unfolding evicted_def L Suc by (simp add: set_diff_eq)
      ultimately show ?thesis
        using charge_sum_evicted [OF Cons.prems c1(3) Diff_subset] c1(3) unfolding evicted_def by metis
    qed
    moreover have "evict c = Some c'" using c1 c' True Cons.hyps(2) by (subst evict.simps) auto
    ultimately show ?thesis using c' evicted_Suc [OF c1(3) c'(3)] by (intro exI [of _ "Suc n"] exI [of _ c']) simp
  next
    case False
    then show ?thesis using Cons.prems by (intro exI [of _ 0] exI [of _ c]) (auto simp: evicted_0 evict.simps not_less)
  qed
qed

lemma Prune_ok:
  assumes "shard_ok clients c"
  shows "\<exists>c'. LRU_Prune c = Some c' \<and> shard_ok clients c' \<and> evicted (length (lc_lru c)) c c'"
  using assms
proof (induction "lc_lru c" arbitrary: c)
  case Nil
  then show ?case using evicted_0 [of c] by (intro exI [of _ c]) (simp add: LRU_Prune.simps)
next
  case (Cons a as)
  obtain c1 where c1: "erase_oldest c = Some c1" "shard_ok clients c1" "evicted 1 c c1"
    using erase_oldest_ok [OF Cons.prems] Cons.hyps(2) by metis
  then have as: "as = lc_lru c1" by (simp add: evicted_def flip: Cons.hyps(2))
  from Cons.hyps(1) [OF as c1(2)] obtain c' where c': "LRU_Prune c1 = Some c'" "shard_ok clients c'" "evicted (length (lc_lru c1)) c1 c'" by blast
  moreover have "LRU_Prune c = Some c'" using c1 c' Cons.hyps(2) by (subst LRU_Prune.simps) auto
  moreover have "evicted (length (lc_lru c)) c c'" using evicted_Suc [OF c1(3) c'(3)] Cons.hyps(2) as by (metis length_Cons)
  ultimately show ?case by blast
qed

text \<open>
  Entering a new entry: it replaces the entry of the same key, which is freed when no client holds
  it. A cache with no capacity gives its client a handle and does not keep it.
\<close>

definition new_handle :: "bytes \<Rightarrow> u32 \<Rightarrow> 'v \<Rightarrow> u64 \<Rightarrow> bool \<Rightarrow> 'v LRUHandle" where
  "new_handle key hash val charge kept =
     \<lparr>lh_key = key, lh_value = val, lh_charge = charge, lh_in_cache = kept, lh_refs = (if kept then 2 else 1), lh_hash = hash\<rparr>"

definition entered :: "bytes \<Rightarrow> u32 \<Rightarrow> 'v \<Rightarrow> u64 \<Rightarrow> 'v LRUCache \<Rightarrow> 'v LRUCache" where
  "entered key hash val charge c =
     (let a = lc_fresh c; c = c\<lparr>lc_fresh := a + 1\<rparr> in
      if lc_capacity c > 0
      then (put_handle a (new_handle key hash val charge True) c)\<lparr>lc_in_use := lc_in_use c @ [a], lc_usage := lc_usage c + charge\<rparr>
      else put_handle a (new_handle key hash val charge False) c)"

lemma entered_counted:
  assumes "counted rc C c" and "rc (lc_fresh c) = 0" and "lc_fresh c \<notin> C"
  defines "a \<equiv> lc_fresh c"
  defines "n \<equiv> if lc_capacity c > 0 then 2 else 1"
  shows "counted (rc(a := n)) (if lc_capacity c > 0 then insert a C else C) (entered key hash val charge c)" (is "counted _ ?C ?c")
proof -
  note l = countedD [OF assms(1)]
  have H: "lc_heap c a = None" using counted_handle(1) [OF assms(1), of a] by (cases "lc_heap c a") (auto simp: a_def)
  have heap: "lc_heap ?c = (lc_heap c)(a := Some (new_handle key hash val charge (lc_capacity c > 0)))"
    by (auto simp: entered_def a_def put_handle_def Let_def)
  have old: "charge_of ?c b = charge_of c b" if "b \<in> C" for b
    using that assms(3) by (auto simp: charge_of_def heap a_def)
  have new: "charge_of ?c a = charge" by (simp add: charge_of_def heap new_handle_def)
  have rest: "lc_fresh ?c = lc_fresh c + 1" "lc_lru ?c = lc_lru c" "lc_deleted ?c = lc_deleted c"
    "lc_in_use ?c = (if lc_capacity c > 0 then lc_in_use c @ [a] else lc_in_use c)"
    "lc_usage ?c = (if lc_capacity c > 0 then lc_usage c + charge else lc_usage c)"
    by (auto simp: entered_def a_def put_handle_def Let_def)
  show ?thesis
    unfolding counted_def
  proof (intro conjI allI)
    fix b
    have "a < lc_fresh c + 1" by (simp add: a_def)
    moreover have "handle_ok (rc b) (b \<in> C) (b < lc_fresh c + 1) (lc_heap c b)"
      using l(1) [of b] by (cases "lc_heap c b") auto
    ultimately show "handle_ok ((rc(a := n)) b) (b \<in> ?C) (b < lc_fresh ?c) (lc_heap ?c b)"
      using assms(3) by (simp add: rest heap n_def new_handle_def a_def)
    show "distinct (lc_lru ?c)" using l(2) by (simp add: rest)
    show "distinct (lc_in_use ?c)" using l(3,5) assms(3) by (auto simp: rest a_def)
    show "set (lc_lru ?c) = {b \<in> ?C. (rc(a := n)) b = 1}" using l(4) assms(3) by (auto simp: rest n_def a_def)
    show "set (lc_in_use ?c) = {b \<in> ?C. (rc(a := n)) b \<noteq> 1}" using l(5) assms(3) by (auto simp: rest n_def a_def)
    have "a \<notin> C" using assms(3) by (simp add: a_def)
    then show "lc_usage ?c = (\<Sum>b \<in> ?C. charge_of ?c b)"
      using l(6) counted_finite(1) [OF assms(1)] by (simp add: rest new old add.commute)
    have "card (dom (lc_heap ?c)) = card (dom (lc_heap c)) + 1"
      using H counted_finite(2) [OF assms(1)] by (simp add: heap domIff)
    then show "length (lc_deleted ?c) + card (dom (lc_heap ?c)) = lc_fresh ?c" using l(7) by (simp add: rest)
  qed
qed

lemma entered_content:
  "content (entered key hash val charge c) = (content c)(lc_fresh c \<mapsto> (key, hash, val, charge))"
  "lc_table (entered key hash val charge c) = lc_table c" "lc_lru (entered key hash val charge c) = lc_lru c"
  "lc_in_use (entered key hash val charge c) = (if lc_capacity c > 0 then lc_in_use c @ [lc_fresh c] else lc_in_use c)"
  "lc_capacity (entered key hash val charge c) = lc_capacity c" "lc_fresh (entered key hash val charge c) = lc_fresh c + 1"
  by (auto simp: entered_def content_def put_handle_def new_handle_def Let_def)

lemma LRU_Insert_steps:
  "LRU_Insert key hash val charge c = do {
     c1 \<leftarrow> (if lc_capacity c > 0 then do {
         let c = entered key hash val charge c;
         (old, t) \<leftarrow> HT_Insert (keys_of c) (lc_fresh c - 1) (lc_table c);
         (_, c) \<leftarrow> FinishErase old (c\<lparr>lc_table := t\<rparr>);
         Some c
       } else Some (entered key hash val charge c));
     c' \<leftarrow> evict c1;
     Some (lc_fresh c, c')
   }"
  by (simp add: LRU_Insert_def entered_def new_handle_def Let_def put_handle_def)

text \<open>What an insertion has done before it evicts anything.\<close>

definition replaced :: "bytes \<Rightarrow> u32 \<Rightarrow> 'v \<Rightarrow> u64 \<Rightarrow> (nat \<Rightarrow> nat) \<Rightarrow> nat option \<Rightarrow> 'v LRUCache \<Rightarrow> 'v LRUCache \<Rightarrow> bool" where
  "replaced key hash val charge clients r c c' \<longleftrightarrow>
     cached_set c' = (if lc_capacity c > 0 then insert (lc_fresh c) (cached_set c - set_option r) else cached_set c) \<and>
     content c' = (\<lambda>a. if a \<in> set_option r \<and> clients a = 0 then None
                       else if a = lc_fresh c then Some (key, hash, val, charge) else content c a) \<and>
     lc_lru c' = filter (\<lambda>a. a \<notin> set_option r) (lc_lru c) \<and> lc_capacity c' = lc_capacity c \<and> lc_fresh c' = lc_fresh c + 1"

lemma is_entry_cong: "is_entry kh T key hash r \<Longrightarrow> (\<And>a. a \<in> T \<Longrightarrow> kh' a = kh a) \<Longrightarrow> is_entry kh' T key hash r"
  by (auto simp: is_entry_def split: option.splits)

lemma enter_ok:
  fixes key hash val charge
  assumes "shard_ok clients c" and "lc_capacity c > 0"
  defines "a \<equiv> lc_fresh c" and "e \<equiv> entered key hash val charge c"
  shows "\<exists>r t c1 b. HT_Insert (keys_of e) a (lc_table c) = Some (r, t) \<and> FinishErase r (e\<lparr>lc_table := t\<rparr>) = Some (b, c1) \<and>
    is_entry (keys_of c) (cached_set c) key hash r \<and> shard_ok (clients(a := 1)) c1 \<and> replaced key hash val charge clients r c c1"
proof -
  let ?T = "cached_set c"
  have ok: "ht_ok (keys_of c) (lc_table c)" "counted (ref_count clients ?T) ?T c" using assms(1) by (auto simp: shard_ok_def)
  have f: "clients a = 0" "a \<notin> ?T" using shard_fresh [OF assms(1)] by (auto simp: a_def)
  note ec = entered_content [of key hash val charge c, folded e_def a_def]
  have k: "keys_of e a = Some (key, hash)" "\<And>b. b \<in> ?T \<Longrightarrow> keys_of e b = keys_of c b" using f(2) by (auto simp: keys_of_content ec(1))
  have "ht_ok (keys_of e) (lc_table c)" using ht_ok_cong [OF ok(1)] k(2) .
  from HT_Insert_ok [OF this k(1) f(2)] obtain r t where r: "HT_Insert (keys_of e) a (lc_table c) = Some (r, t)"
    "is_entry (keys_of e) ?T key hash r" "ht_ok (keys_of e) t" "ht_set t = insert a (?T - set_option r)" by blast
  have r': "is_entry (keys_of c) ?T key hash r" using is_entry_cong [OF r(2)] k(2) by metis
  then have "set_option r \<subseteq> ?T" by (cases r) (auto simp: is_entry_def)
  then have T: "ht_set t \<union> set_option r = insert a ?T" "set_option r \<inter> ht_set t = {}" using f(2) unfolding r(4) by blast+
  have n: "ref_count clients ?T a = 0" using f by (simp add: ref_count_def)
  have "(ref_count clients ?T)(a := 2) = ref_count (clients(a := 1)) (insert a ?T)" by (rule ext) (simp add: ref_count_def)
  then have "counted (ref_count (clients(a := 1)) (insert a ?T)) (insert a ?T) e"
    using entered_counted [OF ok(2), of key hash val charge] n f(2) assms(2) unfolding a_def e_def by simp
  then have C: "counted (ref_count (clients(a := 1)) (ht_set t \<union> set_option r)) (ht_set t \<union> set_option r) (e\<lparr>lc_table := t\<rparr>)"
    unfolding T(1) by (simp add: counted_def charge_of_def)
  have same: "keys_of (e\<lparr>lc_table := t\<rparr>) = keys_of e" "content (e\<lparr>lc_table := t\<rparr>) = content e" by (auto simp: keys_of_def content_def)
  from FinishErase_table [OF r(3) C _ _ T(2)] obtain b c1 where c1: "FinishErase r (e\<lparr>lc_table := t\<rparr>) = Some (b, c1)"
    "shard_ok (clients(a := 1)) c1" "same_base (e\<lparr>lc_table := t\<rparr>) c1"
    "content c1 = (\<lambda>b. if b \<in> set_option r \<and> (clients(a := 1)) b = 0 then None else content e b)"
    "lc_lru c1 = filter (\<lambda>a. a \<notin> set_option r) (lc_lru c)" unfolding same by (auto simp: ec(3))
  have "a \<notin> set_option r" using \<open>set_option r \<subseteq> ?T\<close> f(2) by blast
  then have "replaced key hash val charge clients r c c1"
    using c1(3,4,5) r(4) ec assms(2) by (auto simp: replaced_def same_base_def a_def fun_eq_iff)
  with r(1) r' c1(1,2) show ?thesis by blast
qed

lemma Insert_ok:
  assumes "shard_ok clients c"
  shows "\<exists>r c1 n c'. LRU_Insert key hash val charge c = Some (lc_fresh c, c') \<and> shard_ok (clients(lc_fresh c := 1)) c' \<and>
    (if lc_capacity c > 0 then is_entry (keys_of c) (cached_set c) key hash r else r = None) \<and>
    replaced key hash val charge clients r c c1 \<and> evicted n c1 c' \<and> (lc_usage c' \<le> lc_capacity c' \<or> lc_lru c' = []) \<and>
    (\<forall>m < n. lc_capacity c < charge_sum c1 (cached_set c1 - set (take m (lc_lru c1))))"
proof -
  let ?a = "lc_fresh c" and ?e = "entered key hash val charge c"
  have "\<exists>r c1. LRU_Insert key hash val charge c = do { c' \<leftarrow> evict c1; Some (?a, c') } \<and> shard_ok (clients(?a := 1)) c1 \<and>
    (if lc_capacity c > 0 then is_entry (keys_of c) (cached_set c) key hash r else r = None) \<and> replaced key hash val charge clients r c c1"
  proof (cases "lc_capacity c > 0")
    case True
    from enter_ok [OF assms this, of key hash val charge] obtain r t c1 b where
      "HT_Insert (keys_of ?e) ?a (lc_table c) = Some (r, t)" "FinishErase r (?e\<lparr>lc_table := t\<rparr>) = Some (b, c1)"
      "is_entry (keys_of c) (cached_set c) key hash r" "shard_ok (clients(?a := 1)) c1" "replaced key hash val charge clients r c c1"
      by blast
    with True show ?thesis by (intro exI [of _ r] exI [of _ c1]) (simp add: LRU_Insert_steps entered_content)
  next
    case False
    let ?T = "cached_set c"
    have ok: "ht_ok (keys_of c) (lc_table c)" "counted (ref_count clients ?T) ?T c" using assms by (auto simp: shard_ok_def)
    have f: "clients ?a = 0" "?a \<notin> ?T" using shard_fresh [OF assms] by auto
    have n: "ref_count clients ?T ?a = 0" using f by (simp add: ref_count_def)
    have rc: "(ref_count clients ?T)(?a := 1) = ref_count (clients(?a := 1)) ?T" using f(2) by (intro ext) (simp add: ref_count_def)
    have "counted ((ref_count clients ?T)(?a := 1)) ?T ?e"
      using entered_counted [OF ok(2) n f(2), of key hash val charge] False by simp
    moreover have "keys_of ?e b = keys_of c b" if "b \<in> ?T" for b using that f(2) by (auto simp: keys_of_content entered_content(1))
    ultimately have "shard_ok (clients(?a := 1)) ?e" using shard_okI [OF ok(1) entered_content(2)] rc by metis
    moreover have "replaced key hash val charge clients None c ?e" using False by (auto simp: replaced_def entered_content)
    ultimately show ?thesis using False by (intro exI [of _ None] exI [of _ ?e]) (simp add: LRU_Insert_steps)
  qed
  then obtain r c1 where c1: "LRU_Insert key hash val charge c = do { c' \<leftarrow> evict c1; Some (?a, c') }" "shard_ok (clients(?a := 1)) c1"
    "if lc_capacity c > 0 then is_entry (keys_of c) (cached_set c) key hash r else r = None" "replaced key hash val charge clients r c c1" by blast
  moreover have "lc_capacity c1 = lc_capacity c" using c1(4) by (simp add: replaced_def)
  ultimately show ?thesis using evict_ok [OF c1(2)] by (elim exE conjE) (simp, metis)
qed

section \<open>Clients of a shard\<close>

text \<open>
  What clients do with a shard. Whoever inserts or finds an entry holds a reference to its handle; only
  held handles are released, and fewer than 2 ^ 32 references to one handle are held. Nothing else is asked.
\<close>

datatype 'v lru_op =
  Insert_op bytes u32 'v u64
| Lookup_op bytes u32
| Release_op nat
| Erase_op bytes u32
| Prune_op

fun lru_allowed :: "(nat \<Rightarrow> nat) \<Rightarrow> 'v lru_op \<Rightarrow> bool" where
  "lru_allowed clients (Release_op a) \<longleftrightarrow> 0 < clients a"
| "lru_allowed clients (Lookup_op _ _) \<longleftrightarrow> (\<forall>a. clients a + 2 < 2 ^ 32)"
| "lru_allowed clients _ \<longleftrightarrow> True"

fun lru_do :: "'v lru_op \<Rightarrow> (nat \<Rightarrow> nat) \<Rightarrow> 'v LRUCache \<Rightarrow> ((nat \<Rightarrow> nat) \<times> 'v LRUCache) option" where
  "lru_do (Insert_op key hash val charge) clients c = do {
     (a, c) \<leftarrow> LRU_Insert key hash val charge c; Some (clients(a := clients a + 1), c) }"
| "lru_do (Lookup_op key hash) clients c = do {
     (e, c) \<leftarrow> LRU_Lookup key hash c;
     Some (case e of None \<Rightarrow> clients | Some a \<Rightarrow> clients(a := clients a + 1), c) }"
| "lru_do (Release_op a) clients c = do { c \<leftarrow> LRU_Release a c; Some (clients(a := clients a - 1), c) }"
| "lru_do (Erase_op key hash) clients c = do { c \<leftarrow> LRU_Erase key hash c; Some (clients, c) }"
| "lru_do Prune_op clients c = do { c \<leftarrow> LRU_Prune c; Some (clients, c) }"

inductive lru_reach :: "u64 \<Rightarrow> (nat \<Rightarrow> nat) \<Rightarrow> 'v LRUCache \<Rightarrow> bool" for capacity where
  start: "new_LRUCache capacity = Some c \<Longrightarrow> lru_reach capacity (\<lambda>_. 0) c"
| step: "lru_reach capacity clients c \<Longrightarrow> lru_allowed clients op \<Longrightarrow> lru_do op clients c = Some (clients', c') \<Longrightarrow>
    lru_reach capacity clients' c'"

lemma new_LRUCache_ok:
  "\<exists>c :: 'v LRUCache. new_LRUCache capacity = Some c \<and> shard_ok (\<lambda>_. 0) c \<and> lc_capacity c = capacity \<and> content c = (\<lambda>_. None) \<and> cached_set c = {}"
proof -
  obtain t where t: "new_HandleTable = Some t" "ht_set t = {}" "\<And>kh. ht_ok kh t" using new_HandleTable_ok by blast
  let ?c = "\<lparr>lc_capacity = capacity, lc_usage = 0, lc_lru = [], lc_in_use = [], lc_table = t, lc_heap = (\<lambda>_. None), lc_fresh = 0,
    lc_deleted = []\<rparr> :: 'v LRUCache"
  have "counted (ref_count (\<lambda>_. 0) {}) {} ?c" by (simp add: counted_def ref_count_def)
  then have "shard_ok (\<lambda>_. 0) ?c" using t(3) by (simp only: shard_ok_def LRUCache.select_convs t(2) simp_thms)
  moreover have "new_LRUCache capacity = Some ?c" unfolding new_LRUCache_def t(1) by simp
  moreover have "content ?c = (\<lambda>_. None)" by (rule ext) (simp add: content_def)
  moreover have "lc_capacity ?c = capacity" "cached_set ?c = {}" using t(2) by simp_all
  ultimately show ?thesis by blast
qed

lemma lru_do_ok:
  assumes "shard_ok clients c" and "lru_allowed clients op"
  shows "\<exists>clients' c'. lru_do op clients c = Some (clients', c') \<and> shard_ok clients' c' \<and> lc_capacity c' = lc_capacity c"
proof (cases op)
  case (Insert_op key hash val charge)
  obtain r c1 n c' where "LRU_Insert key hash val charge c = Some (lc_fresh c, c')" "shard_ok (clients(lc_fresh c := 1)) c'"
    "replaced key hash val charge clients r c c1" "evicted n c1 c'" using Insert_ok [OF assms(1), of key hash val charge] by blast
  moreover have "clients (lc_fresh c) = 0" using shard_fresh [OF assms(1)] by blast
  ultimately show ?thesis using Insert_op by (simp add: replaced_def evicted_def)
next
  case (Lookup_op key hash)
  then have "clients a + 2 < 2 ^ 32" for a using assms(2) by simp
  with Lookup_ok [OF assms(1), of key hash] Lookup_op assms(1) show ?thesis by (fastforce simp: same_base_def split: option.splits)
next
  case (Release_op a)
  then show ?thesis using Release_ok [OF assms(1), of a] assms(2) by (auto simp: same_base_def)
next
  case (Erase_op key hash)
  then show ?thesis using Erase_ok [OF assms(1), of key hash] by auto
next
  case Prune_op
  then show ?thesis using Prune_ok [OF assms(1)] by (auto simp: evicted_def)
qed

lemma lru_reach_ok:
  fixes c :: "'v LRUCache"
  shows "lru_reach capacity clients c \<Longrightarrow> shard_ok clients c \<and> lc_capacity c = capacity"
proof (induction rule: lru_reach.induct)
  case (start c)
  then show ?case using new_LRUCache_ok [of capacity, where ?'v = 'v] by auto
next
  case (step clients c op clients' c')
  then show ?case using lru_do_ok [of clients c op] by auto
qed

text \<open>The destructor.\<close>

lemma drop_all_ok:
  assumes "distinct as" and "dom (lc_heap c) = set as" and "\<forall>a \<in> set as. \<exists>h. lc_heap c a = Some h \<and> lh_refs h = 1"
  shows "\<exists>c'. drop_all as c = Some c' \<and> lc_heap c' = (\<lambda>_. None) \<and> length (lc_deleted c') = length (lc_deleted c) + length as \<and>
    lc_fresh c' = lc_fresh c"
  using assms
proof (induction as arbitrary: c)
  case (Cons a as)
  then obtain h where h: "lc_heap c a = Some h" "lh_refs h = 1" by auto
  let ?c = "c\<lparr>lc_deleted := lc_deleted c @ [(lh_key h, lh_value h)], lc_heap := (lc_heap c)(a := None)\<rparr>"
  have "LRU_Unref a (put_handle a (h\<lparr>lh_in_cache := False\<rparr>) c) = Some ?c"
    using h by (simp add: LRU_Unref_def put_handle_def Let_def)
  moreover have "dom (lc_heap ?c) = set as" "\<forall>b \<in> set as. \<exists>h. lc_heap ?c b = Some h \<and> lh_refs h = 1"
    using Cons.prems by auto
  then obtain c' where "drop_all as ?c = Some c'" "lc_heap c' = (\<lambda>_. None)" "length (lc_deleted c') = length (lc_deleted ?c) + length as"
    "lc_fresh c' = lc_fresh ?c" using Cons.IH [of ?c] Cons.prems(1) by (metis distinct.simps(2))
  ultimately show ?case using h by simp
qed (auto simp: fun_eq_iff domIff)

lemma delete_ok:
  assumes "shard_ok (\<lambda>_. 0) c"
  shows "\<exists>c'. delete_LRUCache c = Some c' \<and> lc_heap c' = (\<lambda>_. None) \<and> length (lc_deleted c') = lc_fresh c' \<and> lc_fresh c' = lc_fresh c"
proof -
  let ?T = "cached_set c"
  have k: "counted (ref_count (\<lambda>_. 0) ?T) ?T c" using assms by (simp add: shard_ok_def)
  have lru: "set (lc_lru c) = ?T" unfolding countedD(4) [OF k] by (auto simp: ref_count_def)
  have heap: "\<exists>h. lc_heap c a = Some h \<and> lh_refs h = 1" if a: "a \<in> ?T" for a
  proof -
    obtain h where h: "lc_heap c a = Some h" using counted_Some [OF k disjI2 [OF a]] by blast
    with counted_handle(3) [OF k h] a show ?thesis by (simp add: ref_count_def)
  qed
  have "dom (lc_heap c) = ?T"
  proof (intro equalityI subsetI)
    fix a assume "a \<in> dom (lc_heap c)"
    then obtain h where "lc_heap c a = Some h" by blast
    from counted_handle(4) [OF k this] show "a \<in> ?T" unfolding ref_count_def by (rule contrapos_pp) (simp only: of_bool_def if_False add_0 less_irrefl not_False_eq_True)
  next
    fix a assume "a \<in> ?T"
    then show "a \<in> dom (lc_heap c)" using heap by blast
  qed
  then have d: "dom (lc_heap c) = set (lc_lru c)" using lru by simp
  have "length (lc_deleted c) + length (lc_lru c) = lc_fresh c"
    using countedD(7) [OF k] distinct_card [OF countedD(2) [OF k]] d by simp
  then show ?thesis using drop_all_ok [OF countedD(2) [OF k] d] heap lru by (fastforce simp: delete_LRUCache_def)
qed

section \<open>Insertion\<close>

definition in_cache :: "'v LRUCache \<Rightarrow> nat \<Rightarrow> bool" where
  "in_cache c a \<longleftrightarrow> (case lc_heap c a of None \<Rightarrow> False | Some h \<Rightarrow> lh_in_cache h)"

lemma in_cache_iff: "shard_ok clients c \<Longrightarrow> in_cache c a \<longleftrightarrow> a \<in> cached_set c"
  using countedD(1) [of "ref_count clients (cached_set c)" "cached_set c" c a]
  by (cases "lc_heap c a") (simp_all add: shard_ok_def in_cache_def)

lemma entry_iff: "is_entry kh T key hash r \<Longrightarrow> inj_on kh T \<Longrightarrow> a \<in> T \<Longrightarrow> a \<in> set_option r \<longleftrightarrow> kh a = Some (key, hash)"
  using is_entry_unique [of kh T key hash r a] by (cases r) (auto simp: is_entry_def)

lemma Lookup_new:
  assumes "shard_ok clients c" and "a \<in> cached_set c" and "keys_of c a = Some (key, hash)" and "clients a + 2 < 2 ^ 32"
  shows "\<exists>c'. LRU_Lookup key hash c = Some (Some a, c')"
proof -
  obtain r where r: "is_entry (keys_of c) (cached_set c) key hash r"
    "case r of None \<Rightarrow> LRU_Lookup key hash c = Some (None, c)
     | Some a \<Rightarrow> clients a + 2 < 2 ^ 32 \<longrightarrow> (\<exists>c'. LRU_Lookup key hash c = Some (Some a, c') \<and>
         shard_ok (clients(a := clients a + 1)) c' \<and> content c' = content c \<and> same_base c c')"
    using Lookup_ok [OF assms(1), of key hash] by (elim exE conjE)
  have "inj_on (keys_of c) (cached_set c)" using assms(1) by (simp add: shard_ok_def ht_ok_def)
  from is_entry_unique [OF r(1) this assms(2,3)] r(2) assms(4) show ?thesis by auto
qed

text \<open>The charges that were there before an entry evicts others.\<close>

lemma replaced_charges:
  assumes "shard_ok clients c" and "replaced key hash val charge clients r c c1" and "lc_capacity c > 0"
    and "set xs \<subseteq> cached_set c" and "set_option r \<subseteq> cached_set c"
  shows "charge_sum c1 (cached_set c1 - set xs) = charge + charge_sum c (cached_set c - set_option r - set xs)"
proof -
  let ?a = "lc_fresh c" and ?A = "cached_set c - set_option r - set xs"
  have f: "?a \<notin> cached_set c" using shard_fresh [OF assms(1)] by blast
  have cached: "cached_set c1 = insert ?a (cached_set c - set_option r)" using assms(2,3) by (simp add: replaced_def)
  have A: "cached_set c1 - set xs = insert ?a ?A" "?a \<notin> ?A" using f assms(4) unfolding cached by (blast, simp)
  have fin: "finite ?A" using counted_finite(1) assms(1) unfolding shard_ok_def by blast
  have c1: "content c1 b = (if b \<in> set_option r \<and> clients b = 0 then None else if b = ?a then Some (key, hash, val, charge) else content c b)" for b
    using assms(2) by (simp add: replaced_def)
  have "?a \<notin> set_option r" using f assms(5) by (meson subsetD)
  then have "content c1 ?a = Some (key, hash, val, charge)" by (simp add: c1)
  then have new: "charge_of c1 ?a = charge" by (auto simp: content_def charge_of_def)
  have "charge_of c1 b = charge_of c b" if b: "b \<in> ?A" for b
  proof -
    have b': "b \<in> cached_set c" "b \<notin> set_option r" using b by simp_all
    then have "b \<noteq> ?a" using f by (metis (lifting))
    with b'(2) have "content c1 b = content c b" by (simp add: c1)
    moreover obtain h where "lc_heap c b = Some h" using shard_handle [OF assms(1) disjI2 [OF b'(1)]] by blast
    ultimately show ?thesis by (auto simp: content_def charge_of_def)
  qed
  then have "charge_sum c1 ?A = charge_sum c ?A" unfolding charge_sum_def by (rule sum.cong [OF refl])
  then show ?thesis unfolding A(1) charge_sum_def sum.insert [OF fin A(2)] new by simp
qed

text \<open>
  What an insertion does, as seen from outside: the new entry is found, the entries that it evicts are
  the oldest of those that no client holds and no more than have to go, and held handles survive.
\<close>

lemma insert_view:
  fixes key hash val charge
  assumes "shard_ok clients c" and "lc_capacity c > 0"
  defines "a \<equiv> lc_fresh c" and "kept \<equiv> filter (\<lambda>b. keys_of c b \<noteq> Some (key, hash)) (lc_lru c)"
  shows "\<exists>n c'. LRU_Insert key hash val charge c = Some (a, c') \<and> shard_ok (clients(a := 1)) c' \<and>
    (\<exists>c''. LRU_Lookup key hash c' = Some (Some a, c'')) \<and> content c' a = Some (key, hash, val, charge) \<and>
    lc_lru c' = drop n kept \<and> (lc_usage c' \<le> lc_capacity c \<or> lc_lru c' = []) \<and>
    (\<forall>m < n. lc_capacity c < charge + charge_sum c ({b \<in> cached_set c. keys_of c b \<noteq> Some (key, hash)} - set (take m kept))) \<and>
    (\<forall>b. 0 < clients b \<longrightarrow> content c' b = content c b)"
proof -
  let ?T = "cached_set c"
  obtain r c1 n c' where ins: "LRU_Insert key hash val charge c = Some (a, c')" "shard_ok (clients(a := 1)) c'"
    and e: "is_entry (keys_of c) ?T key hash r" and rep: "replaced key hash val charge clients r c c1" and ev: "evicted n c1 c'"
    and small: "lc_usage c' \<le> lc_capacity c' \<or> lc_lru c' = []"
    and least: "\<forall>m < n. lc_capacity c < charge_sum c1 (cached_set c1 - set (take m (lc_lru c1)))"
    using Insert_ok [OF assms(1), of key hash val charge] assms(2) unfolding a_def by (elim exE conjE) (simp only: if_True)
  have f: "clients a = 0" "a \<notin> ?T" using shard_fresh [OF assms(1)] by (simp_all add: a_def)
  have "inj_on (keys_of c) ?T" using assms(1) by (simp add: shard_ok_def ht_ok_def)
  note iff = entry_iff [OF e this]
  have sub: "set_option r \<subseteq> ?T" using e by (cases r) (auto simp: is_entry_def)
  have "filter (\<lambda>b. b \<notin> set_option r) (lc_lru c) = kept"
    unfolding kept_def by (intro filter_cong refl) (simp only: iff [OF shard_lru(1) [OF assms(1)]])
  then have lru: "lc_lru c1 = kept" using rep by (simp add: replaced_def)
  have keptT: "set kept \<subseteq> ?T" using shard_lru(1) [OF assms(1)] unfolding kept_def by (simp add: subset_iff)
  have T: "?T - set_option r = {b \<in> ?T. keys_of c b \<noteq> Some (key, hash)}" using iff by (simp add: set_eq_iff) metis
  have least': "lc_capacity c < charge + charge_sum c ({b \<in> ?T. keys_of c b \<noteq> Some (key, hash)} - set (take m kept))" if "m < n" for m
    using least that replaced_charges [OF assms(1) rep assms(2) subset_trans [OF set_take_subset keptT] sub, of m] unfolding lru T by metis
  have evs: "set (take n (lc_lru c1)) \<subseteq> ?T" unfolding lru using subset_trans [OF set_take_subset keptT] .
  have con: "content c' b = (if b \<in> set (take n kept) then None else if b \<in> set_option r \<and> clients b = 0 then None
      else if b = a then Some (key, hash, val, charge) else content c b)" for b
    using ev rep by (simp add: evicted_def replaced_def lru a_def)
  have na: "a \<notin> set (take n kept)" "a \<notin> set_option r" using f(2) evs sub unfolding lru by (meson subsetD)+
  then have ca: "content c' a = Some (key, hash, val, charge)" by (simp add: con)
  have "a \<in> cached_set c'" using ev rep na assms(2) by (simp add: evicted_def replaced_def lru a_def)
  moreover have "keys_of c' a = Some (key, hash)" using ca by (simp add: keys_of_content)
  ultimately have "\<exists>c''. LRU_Lookup key hash c' = Some (Some a, c'')" using Lookup_new [OF ins(2)] by simp
  moreover have "content c' b = content c b" if "0 < clients b" for b
  proof -
    have "b \<notin> set (take n kept)" using shard_lru(2) [OF assms(1), of b] that in_set_takeD [of b n kept] by (auto simp: kept_def)
    then show ?thesis using that f(1) by (auto simp: con)
  qed
  moreover have "lc_lru c' = drop n kept" "lc_capacity c' = lc_capacity c" using ev rep lru by (simp_all add: evicted_def replaced_def)
  ultimately show ?thesis using ins ca small least' by (intro exI [of _ n] exI [of _ c']) simp
qed

section \<open>The order of the LRU list\<close>

text \<open>
  The use of handles by the clients, as the list of all releases in the order they were made.
  \<open>remdups\<close> keeps the last occurrence of each.
\<close>

fun released :: "'v lru_op \<Rightarrow> nat list" where
  "released (Release_op a) = [a]"
| "released _ = []"

inductive lru_history :: "u64 \<Rightarrow> nat list \<Rightarrow> (nat \<Rightarrow> nat) \<Rightarrow> 'v LRUCache \<Rightarrow> bool" for capacity where
  fresh: "new_LRUCache capacity = Some c \<Longrightarrow> lru_history capacity [] (\<lambda>_. 0) c"
| use: "lru_history capacity rels clients c \<Longrightarrow> lru_allowed clients op \<Longrightarrow> lru_do op clients c = Some (clients', c') \<Longrightarrow>
    lru_history capacity (rels @ released op) clients' c'"

lemma history_reach: "lru_history capacity rels clients c \<Longrightarrow> lru_reach capacity clients c"
  by (induction rule: lru_history.induct) (auto intro: lru_reach.intros)

lemma reach_history: "lru_reach capacity clients c \<Longrightarrow> \<exists>rels. lru_history capacity rels clients c"
  by (induction rule: lru_reach.induct) (blast intro: lru_history.intros)+

text \<open>Every operation but a release can only take handles out of the LRU list.\<close>

lemma subseq_remove1: "subseq (remove1 a xs) xs"
  by (induction xs) auto

lemma Remove_shrinks: "LRU_Remove a c = Some c' \<Longrightarrow> subseq (lc_lru c') (lc_lru c) \<and> lc_heap c' = lc_heap c"
  by (auto simp: LRU_Remove_def subseq_remove1 split: if_splits)

lemma Remove_lru: "LRU_Remove a c = Some c' \<Longrightarrow> lc_lru c' = remove1 a (lc_lru c)"
  by (auto simp: LRU_Remove_def remove1_idem split: if_splits)

lemma Ref_shrinks: "LRU_Ref a c = Some c' \<Longrightarrow> subseq (lc_lru c') (lc_lru c)"
  by (auto simp: LRU_Ref_def put_handle_def split: bind_splits if_splits dest!: Remove_shrinks)

lemma Unref_erased: "LRU_Unref a c = Some c' \<Longrightarrow> lc_heap c a = Some h \<Longrightarrow> \<not> lh_in_cache h \<Longrightarrow> lc_lru c' = lc_lru c"
  by (auto simp: LRU_Unref_def put_handle_def Let_def split: if_splits)

lemma FinishErase_shrinks: "FinishErase e c = Some (b, c') \<Longrightarrow> subseq (lc_lru c') (lc_lru c)"
  by (auto simp: FinishErase_def put_handle_def Let_def split: bind_splits option.splits
      dest!: Remove_shrinks Unref_erased)

lemma erase_oldest_shrinks: "erase_oldest c = Some c' \<Longrightarrow> subseq (lc_lru c') (lc_lru c)"
  by (auto simp: erase_oldest_def split: bind_splits dest!: FinishErase_shrinks)

lemma evict_shrinks: "evict c = Some c' \<Longrightarrow> subseq (lc_lru c') (lc_lru c)"
proof (rule evict.raw_induct [where P = "\<lambda>c c'. subseq (lc_lru c') (lc_lru c)"])
  fix rec :: "'a LRUCache \<Rightarrow> 'a LRUCache option" and d d'
  assume IH: "\<And>x y. rec x = Some y \<Longrightarrow> subseq (lc_lru y) (lc_lru x)"
    and step: "(if lc_usage d > lc_capacity d \<and> lc_lru d \<noteq> [] then do { c \<leftarrow> erase_oldest d; rec c } else Some d) = Some d'"
  then show "subseq (lc_lru d') (lc_lru d)"
    by (auto split: if_splits bind_splits dest!: erase_oldest_shrinks) (meson subseq_order.trans)
qed

lemma Prune_shrinks: "LRU_Prune c = Some c' \<Longrightarrow> subseq (lc_lru c') (lc_lru c)"
proof (rule LRU_Prune.raw_induct [where P = "\<lambda>c c'. subseq (lc_lru c') (lc_lru c)"])
  fix rec :: "'a LRUCache \<Rightarrow> 'a LRUCache option" and d d'
  assume IH: "\<And>x y. rec x = Some y \<Longrightarrow> subseq (lc_lru y) (lc_lru x)"
    and step: "(if lc_lru d \<noteq> [] then do { c \<leftarrow> erase_oldest d; rec c } else Some d) = Some d'"
  then show "subseq (lc_lru d') (lc_lru d)"
    by (auto split: if_splits bind_splits dest!: erase_oldest_shrinks) (meson subseq_order.trans)
qed

lemma Insert_shrinks: "LRU_Insert key hash val charge c = Some (a, c') \<Longrightarrow> subseq (lc_lru c') (lc_lru c)"
  by (auto simp: LRU_Insert_def put_handle_def Let_def split: bind_splits if_splits dest!: FinishErase_shrinks evict_shrinks)

lemma Lookup_shrinks: "LRU_Lookup key hash c = Some (e, c') \<Longrightarrow> subseq (lc_lru c') (lc_lru c)"
  by (auto simp: LRU_Lookup_def split: bind_splits option.splits dest!: Ref_shrinks)

lemma Erase_shrinks: "LRU_Erase key hash c = Some c' \<Longrightarrow> subseq (lc_lru c') (lc_lru c)"
  by (auto simp: LRU_Erase_def split: bind_splits dest!: FinishErase_shrinks)

lemma lru_do_shrinks:
  "lru_do op clients c = Some (clients', c') \<Longrightarrow> released op = [] \<Longrightarrow> subseq (lc_lru c') (lc_lru c)"
  by (cases op) (auto split: bind_splits dest: Insert_shrinks Lookup_shrinks Erase_shrinks Prune_shrinks)

lemma Release_appends: "LRU_Release a c = Some c' \<Longrightarrow> lc_lru c' = lc_lru c \<or> lc_lru c' = remove1 a (lc_lru c) @ [a]"
  by (auto simp: LRU_Release_def LRU_Unref_def put_handle_def Let_def split: bind_splits if_splits dest!: Remove_lru)

lemma subseq_set: "subseq xs ys \<Longrightarrow> set xs \<subseteq> set ys"
  by (induction rule: list_emb.induct) auto

lemma subseq_filter_set: "subseq xs ys \<Longrightarrow> distinct ys \<Longrightarrow> xs = filter (\<lambda>a. a \<in> set xs) ys"
proof (induction rule: list_emb.induct)
  case (list_emb_Cons xs ys y)
  then have "y \<notin> set xs" using subseq_set by fastforce
  with list_emb_Cons show ?case by simp
next
  case (list_emb_Cons2 x y xs ys)
  then have "filter (\<lambda>a. a = x \<or> a \<in> set xs) ys = filter (\<lambda>a. a \<in> set xs) ys" by (intro filter_cong) auto
  with list_emb_Cons2 show ?case by simp
qed simp

lemma shrunk_filter:
  assumes "subseq xs (filter P ys)" and "distinct ys" and "set xs = {a. Q a}"
  shows "xs = filter Q ys"
proof -
  have "xs = filter (\<lambda>a. a \<in> set xs) (filter P ys)" using subseq_filter_set [OF assms(1)] assms(2) by simp
  moreover have "a \<in> set xs \<and> P a \<longleftrightarrow> Q a" for a
    using subseq_set [OF assms(1)] assms(3) by auto
  ultimately show ?thesis by (simp add: conj_commute)
qed

lemma lru_idle: "shard_ok clients c \<Longrightarrow> set (lc_lru c) = {a. in_cache c a \<and> clients a = 0}"
  using countedD(4) [of "ref_count clients (cached_set c)" "cached_set c" c]
  by (auto simp: shard_ok_def ref_count_def in_cache_iff)

text \<open>
  The LRU list holds the handles that are cached and not in use in the order of their last release.
\<close>

lemma lru_order:
  "lru_history capacity rels clients c \<Longrightarrow> lc_lru c = filter (\<lambda>a. in_cache c a \<and> clients a = 0) (remdups rels)"
proof (induction rule: lru_history.induct)
  case (fresh c)
  then show ?case by (auto simp: new_LRUCache_def split: bind_splits)
next
  case (use rels clients c op clients' c')
  have ok: "shard_ok clients c" "shard_ok clients' c'"
    using lru_reach_ok history_reach use.hyps lru_history.use by blast+
  show ?case
  proof (cases op)
    case (Release_op a)
    have c': "clients' = clients(a := clients a - 1)" "LRU_Release a c = Some c'" and a: "0 < clients a"
      using use.hyps(2,3) by (auto simp: Release_op split: bind_splits)
    have na: "a \<notin> set (lc_lru c)" using lru_idle [OF ok(1)] a by simp
    have eq: "lc_lru c' = lc_lru c \<or> lc_lru c' = lc_lru c @ [a]" using Release_appends [OF c'(2)] na by (simp add: remove1_idem)
    let ?idle = "\<lambda>b. in_cache c' b \<and> clients' b = 0"
    have "filter (\<lambda>b. b \<noteq> a \<and> ?idle b) (remdups rels) = lc_lru c"
      unfolding use.IH using eq lru_idle [OF ok(1)] lru_idle [OF ok(2)] a
      by (intro filter_cong refl) auto
    moreover have "remdups (rels @ [a]) = filter (\<lambda>b. b \<noteq> a) (remdups rels) @ [a]"
      by (induction rels) auto
    moreover have "?idle a \<longleftrightarrow> a \<in> set (lc_lru c')" using lru_idle [OF ok(2)] by simp
    ultimately show ?thesis using eq na by (auto simp: Release_op conj_commute)
  qed (use lru_do_shrinks [OF use.hyps(3)] use.IH lru_idle [OF ok(2)] in \<open>simp_all add: shrunk_filter\<close>)
qed

section \<open>Properties\<close>

text \<open>
  C36: A shard whose clients only release handles that they hold serves every operation: none touches a
  freed handle or unlinks one twice, and all return. Each handle counts exactly the references of its
  clients and of the cache, so that a held handle is never freed; the hash table holds what is marked
  as cached, the two lists hold those without and with clients, and the usage is the sum of their charges.
\<close>

theorem lru_cache_invariant:
  assumes "lru_reach capacity clients c"
  shows "(\<forall>op. lru_allowed clients op \<longrightarrow> (\<exists>clients' c'. lru_do op clients c = Some (clients', c'))) \<and>
    (\<forall>a h. lc_heap c a = Some h \<longrightarrow> unat (lh_refs h) = clients a + of_bool (lh_in_cache h) \<and> 0 < lh_refs h) \<and>
    (\<forall>a. 0 < clients a \<longrightarrow> lc_heap c a \<noteq> None) \<and>
    ht_set (lc_table c) = {a. in_cache c a} \<and>
    distinct (lc_lru c) \<and> set (lc_lru c) = {a. in_cache c a \<and> clients a = 0} \<and>
    distinct (lc_in_use c) \<and> set (lc_in_use c) = {a. in_cache c a \<and> 0 < clients a} \<and>
    lc_usage c = charge_sum c {a. in_cache c a}"
proof -
  have ok: "shard_ok clients c" using lru_reach_ok [OF assms] by blast
  have k: "counted (ref_count clients (cached_set c)) (cached_set c) c" using ok by (simp add: shard_ok_def)
  have T: "cached_set c = {a. in_cache c a}" using in_cache_iff [OF ok] by blast
  have "unat (lh_refs h) = clients a + of_bool (lh_in_cache h) \<and> 0 < lh_refs h" if h: "lc_heap c a = Some h" for a h
    using refs_nat [OF counted_handle(3,4,5) [OF k h]] counted_handle(2) [OF k h] by (simp only: ref_count_def simp_thms)
  moreover have "lc_heap c a \<noteq> None" if "0 < clients a" for a using shard_handle [OF ok] that by blast
  moreover have "set (lc_lru c) = {a. in_cache c a \<and> clients a = 0}" "set (lc_in_use c) = {a. in_cache c a \<and> 0 < clients a}"
    unfolding countedD(4,5) [OF k] unfolding T by (auto simp: ref_count_def)
  ultimately show ?thesis using lru_do_ok [OF ok] countedD(2,3) [OF k] shard_usage [OF ok] unfolding T by blast
qed

text \<open>
  C37: Inserting into a shard with a capacity replaces the entry of the same key, gives the client a held
  handle and makes the new entry the one that a lookup finds. It evicts entries that no client holds,
  those first whose last release lies furthest back in the history of the shard, exactly as many as it
  takes for the usage to fit the capacity (all of them, if the held entries alone exceed it), and the
  list keeps the others in the order of their last release; a handle that a client holds
  keeps its key, value and charge.
\<close>

theorem lru_insert:
  assumes "lru_history capacity rels clients c" and "0 < capacity"
    and "kept = filter (\<lambda>b. in_cache c b \<and> clients b = 0 \<and> keys_of c b \<noteq> Some (key, hash)) (remdups rels)"
  shows "\<exists>a n c'. LRU_Insert key hash val charge c = Some (a, c') \<and> clients a = 0 \<and>
    (\<exists>c''. LRU_Lookup key hash c' = Some (Some a, c'')) \<and> content c' a = Some (key, hash, val, charge) \<and>
    lc_lru c' = drop n kept \<and> (lc_usage c' \<le> capacity \<or> lc_lru c' = []) \<and>
    (\<forall>m < n. capacity < charge + charge_sum c ({b. in_cache c b \<and> keys_of c b \<noteq> Some (key, hash)} - set (take m kept))) \<and>
    (\<forall>b. 0 < clients b \<longrightarrow> content c' b = content c b)"
proof -
  have ok: "shard_ok clients c" "lc_capacity c = capacity" using lru_reach_ok [OF history_reach [OF assms(1)]] by simp_all
  have kept: "kept = filter (\<lambda>b. keys_of c b \<noteq> Some (key, hash)) (lc_lru c)"
    unfolding lru_order [OF assms(1)] assms(3) by (simp add: conj_ac)
  have T: "{b. in_cache c b \<and> P b} = {b \<in> cached_set c. P b}" for P using in_cache_iff [OF ok(1)] by (simp add: set_eq_iff)
  note view = insert_view [OF ok(1), of key hash val charge, unfolded ok(2), OF assms(2)]
  have "clients (lc_fresh c) = 0" using shard_fresh [OF ok(1)] by blast
  then show ?thesis using view unfolding kept T by (elim exE conjE) (intro exI conjI; assumption)
qed

text \<open>
  C38: Destroying a shard after its clients have released every handle deletes everything that was ever
  inserted and not yet deleted: nothing is left in the heap, and the deleter has run as often as handles were made.
\<close>

theorem lru_delete:
  assumes "lru_reach capacity (\<lambda>_. 0) c"
  shows "\<exists>c'. delete_LRUCache c = Some c' \<and> lc_heap c' = (\<lambda>_. None) \<and> length (lc_deleted c') = lc_fresh c' \<and> lc_fresh c' = lc_fresh c"
  using delete_ok lru_reach_ok [OF assms] by blast

section \<open>Witnesses\<close>

text \<open>A shard with room for one entry, which no client holds.\<close>

definition sample_shard :: "nat LRUCache" where
  "sample_shard =
     \<lparr>lc_capacity = 1, lc_usage = 1, lc_lru = [0], lc_in_use = [], lc_table = \<lparr>ht_length = 4, ht_elems = 1, ht_list = [[], [0], [], []]\<rparr>,
      lc_heap = [0 \<mapsto> \<lparr>lh_key = [7], lh_value = 5, lh_charge = 1, lh_in_cache = True, lh_refs = 1, lh_hash = 9\<rparr>], lc_fresh = 1,
      lc_deleted = []\<rparr>"

lemma new_HandleTable_eq: "new_HandleTable = Some \<lparr>ht_length = 4, ht_elems = 0, ht_list = replicate 4 []\<rparr>"
  by (simp add: new_HandleTable_def HT_Resize_def resize_length.simps eval_nat_numeral)

lemma sample_shard_history: "lru_history 1 [0] (\<lambda>_. 0) sample_shard"
proof -
  obtain c0 :: "nat LRUCache" where c0: "new_LRUCache 1 = Some c0" using new_LRUCache_ok by blast
  then have "lru_do (Insert_op [7] 9 5 1) (\<lambda>_. 0) c0 = Some ((\<lambda>_. 0)(0 := 1),
      sample_shard\<lparr>lc_lru := [], lc_in_use := [0],
        lc_heap := [0 \<mapsto> \<lparr>lh_key = [7], lh_value = 5, lh_charge = 1, lh_in_cache = True, lh_refs = 2, lh_hash = 9\<rparr>]\<rparr>)"
    by (auto simp: new_LRUCache_def new_HandleTable_eq LRU_Insert_def sample_shard_def put_handle_def HT_Insert_def keys_of_def
        bucket_of_def at_pointer_def FinishErase_def evict.simps eval_nat_numeral)
  note lru_history.use [OF lru_history.fresh [OF c0] _ this, simplified]
  from lru_history.use [OF this, of "Release_op 0" "\<lambda>_. 0" sample_shard] show ?thesis
    by (simp add: LRU_Release_def LRU_Unref_def LRU_Remove_def put_handle_def sample_shard_def fun_eq_iff)
qed

lemma sample_shard_reached: "lru_reach 1 (\<lambda>_. 0) sample_shard"
  by (rule history_reach [OF sample_shard_history])

lemma lru_cache_invariant_witness:
  "lru_reach 1 (\<lambda>_. 0) sample_shard \<and> set (lc_lru sample_shard) = {a. in_cache sample_shard a \<and> (0 :: nat) = 0} \<and>
   lc_usage sample_shard = charge_sum sample_shard {a. in_cache sample_shard a}"
  using sample_shard_reached lru_cache_invariant [OF sample_shard_reached] by simp

lemma lru_insert_witness:
  "lru_history 1 [0] (\<lambda>_. 0) sample_shard \<and> (0 :: u64) < 1 \<and>
   (\<exists>a n c' c''. LRU_Insert [8] 9 6 1 sample_shard = Some (a, c') \<and> LRU_Lookup [8] 9 c' = Some (Some a, c'') \<and> lc_lru c' = drop n [0])"
proof -
  have "[0] = filter (\<lambda>b. in_cache sample_shard b \<and> (0 :: nat) = 0 \<and> keys_of sample_shard b \<noteq> Some ([8], 9)) (remdups [0])"
    by (simp add: sample_shard_def keys_of_def in_cache_def)
  from lru_insert [OF sample_shard_history _ this, of 6 1] sample_shard_history show ?thesis by fastforce
qed

lemma lru_delete_witness:
  "lru_reach 1 (\<lambda>_. 0) sample_shard \<and> (\<exists>c'. delete_LRUCache sample_shard = Some c' \<and> length (lc_deleted c') = 1)"
  using sample_shard_reached lru_delete [OF sample_shard_reached] by (auto simp: sample_shard_def)

end
