(* ===== verification/Ldb_Cache_Shards.thy ===== *)
theory Ldb_Cache_Shards
  imports Ldb_Cache_Contract
begin

text \<open>
  The cache as its users see it. \<open>cache_ops\<close> is the interface that tables use, with the contract of a
  sound cache: a lookup returns only what was inserted under the key. The sharded LRU cache
  satisfies it, and its shards keep their invariant. A handle is released right after its value was read.
\<close>

section \<open>The interface\<close>

text \<open>A cache with values \<open>'v\<close> and the state \<open>'c\<close>.\<close>

record ('v, 'c) cache_ops =
  ca_NewId :: "'c \<Rightarrow> u64 \<times> 'c"
  ca_Lookup :: "bytes \<Rightarrow> 'c \<Rightarrow> 'v option \<times> 'c"
  ca_Insert :: "bytes \<Rightarrow> 'v \<Rightarrow> nat \<Rightarrow> 'c \<Rightarrow> 'c"

text \<open>What a cache has to promise: \<open>held\<close> is what it may return for a key, and only an insertion adds to it.\<close>

locale sound_cache =
  fixes cops :: "('v, 'c) cache_ops" and cainv :: "'c \<Rightarrow> bool" and held :: "'c \<Rightarrow> bytes \<Rightarrow> 'v \<Rightarrow> bool"
  assumes lookup: "cainv c \<Longrightarrow> ca_Lookup cops k c = (r, c') \<Longrightarrow>
      cainv c' \<and> (r = Some b \<longrightarrow> held c k b) \<and> (held c' k' b' \<longrightarrow> held c k' b')"
    and insert: "cainv c \<Longrightarrow> ca_Insert cops k b n c = c' \<Longrightarrow>
      cainv c' \<and> (held c' k' b' \<longrightarrow> k' = k \<and> b' = b \<or> held c k' b')"
    and new_id: "cainv c \<Longrightarrow> ca_NewId cops c = (i, c') \<Longrightarrow> cainv c' \<and> (held c' k' b' \<longrightarrow> held c k' b')"

text \<open>The LRU cache behind the interface; an operation that is not defined would change nothing.\<close>

definition lookup_value :: "bytes \<Rightarrow> 'v ShardedLRUCache \<Rightarrow> ('v option \<times> 'v ShardedLRUCache) option" where
  "lookup_value key c = do {
     (e, c) \<leftarrow> Cache_Lookup key c;
     case e of
       None \<Rightarrow> Some (None, c)
     | Some h \<Rightarrow> do { v \<leftarrow> Cache_Value h c; c \<leftarrow> Cache_Release h c; Some (Some v, c) }
   }"

definition insert_value :: "bytes \<Rightarrow> 'v \<Rightarrow> nat \<Rightarrow> 'v ShardedLRUCache \<Rightarrow> 'v ShardedLRUCache option" where
  "insert_value key val charge c = do { (h, c) \<leftarrow> Cache_Insert key val (of_nat charge) c; Cache_Release h c }"

definition lru_cache_ops :: "('v, 'v ShardedLRUCache) cache_ops" where
  "lru_cache_ops =
     \<lparr>ca_NewId = Cache_NewId,
      ca_Lookup = (\<lambda>key c. case lookup_value key c of Some r \<Rightarrow> r | None \<Rightarrow> (None, c)),
      ca_Insert = (\<lambda>key val charge c. case insert_value key val charge c of Some c' \<Rightarrow> c' | None \<Rightarrow> c)\<rparr>"

section \<open>The invariant of the shards\<close>

text \<open>Every handle is in the shard that the hash of its key selects.\<close>

definition placed :: "nat \<Rightarrow> 'v LRUCache \<Rightarrow> bool" where
  "placed i c \<longleftrightarrow> (\<forall>a k h v n. content c a = Some (k, h, v, n) \<longrightarrow> h = HashSlice k \<and> Shard h = i)"

lemma placed_grow:
  assumes "placed i c" and "\<And>a x. content c' a = Some x \<Longrightarrow> content c a = Some x \<or> x = (k, HashSlice k, v, n)" and "Shard (HashSlice k) = i"
  shows "placed i c'"
  unfolding placed_def
proof (intro allI impI)
  fix a k' h v' n' assume "content c' a = Some (k', h, v', n')"
  from assms(2) [OF this] show "h = HashSlice k' \<and> Shard h = i" using assms(1,3) unfolding placed_def by blast
qed

lemma placed_same: "placed i c \<Longrightarrow> content c' = content c \<Longrightarrow> placed i c'"
  unfolding placed_def by (simp only:)

definition shards_ok :: "(nat \<Rightarrow> nat \<Rightarrow> nat) \<Rightarrow> 'v ShardedLRUCache \<Rightarrow> bool" where
  "shards_ok clients c \<longleftrightarrow> length (sh_shard c) = kNumShards \<and>
     (\<forall>i < kNumShards. shard_ok (clients i) (sh_shard c ! i) \<and> placed i (sh_shard c ! i))"

definition shard_held :: "'v LRUCache \<Rightarrow> bytes \<Rightarrow> 'v \<Rightarrow> bool" where
  "shard_held c k v \<longleftrightarrow> (\<exists>a \<in> cached_set c. \<exists>h n. content c a = Some (k, h, v, n))"

definition lru_held :: "'v ShardedLRUCache \<Rightarrow> bytes \<Rightarrow> 'v \<Rightarrow> bool" where
  "lru_held c k v \<longleftrightarrow> (\<exists>i < kNumShards. shard_held (sh_shard c ! i) k v)"

lemma Shard_less: "Shard hash < kNumShards"
proof -
  have "unat (drop_bit 28 hash) < 2 ^ 4" using unsigned_less [where ?'a = nat, of hash] by (simp add: unat_drop_bit less_mult_imp_div_less)
  then show ?thesis by (simp add: Shard_def kNumShards_def kNumShardBits_def)
qed

text \<open>Replacing one shard.\<close>

lemma shards_ok_update:
  assumes "shards_ok (\<lambda>_ _. 0) c" and "i < kNumShards" and "shard_ok (\<lambda>_. 0) s" and "placed i s"
  shows "shards_ok (\<lambda>_ _. 0) (c\<lparr>sh_shard := (sh_shard c)[i := s]\<rparr>)"
  using assms by (simp add: shards_ok_def nth_list_update)

lemma held_update:
  assumes "i < kNumShards" and "length (sh_shard c) = kNumShards" and "lru_held (c\<lparr>sh_shard := (sh_shard c)[i := s]\<rparr>) k v"
  shows "shard_held s k v \<or> lru_held c k v"
  using assms by (auto simp: lru_held_def nth_list_update split: if_splits)

text \<open>Releasing a handle reaches the shard that it came from.\<close>

lemma Release_shard:
  assumes "length (sh_shard c) = kNumShards" and "i < kNumShards" and "placed i s" and "lc_heap s a = Some h" and "LRU_Release a s = Some s'"
  shows "Cache_Release (i, a) (c\<lparr>sh_shard := (sh_shard c)[i := s]\<rparr>) = Some (c\<lparr>sh_shard := (sh_shard c)[i := s']\<rparr>)"
proof -
  have "content s a = Some (lh_key h, lh_hash h, lh_value h, lh_charge h)" using assms(4) by (simp add: content_def)
  with assms(3) have "Shard (lh_hash h) = i" unfolding placed_def by blast
  then show ?thesis using assms by (simp add: Cache_Release_def handle_at_def)
qed

lemma lookup_shard:
  assumes "shard_ok (\<lambda>_. 0) s"
  shows "LRU_Lookup key hash s = Some (None, s) \<or>
    (\<exists>a s1 s2. LRU_Lookup key hash s = Some (Some a, s1) \<and> a \<in> cached_set s \<and> keys_of s a = Some (key, hash) \<and>
      content s1 = content s \<and> LRU_Release a s1 = Some s2 \<and> shard_ok (\<lambda>_. 0) s2 \<and> content s2 = content s \<and> cached_set s2 = cached_set s)"
proof -
  obtain r where r: "is_entry (keys_of s) (cached_set s) key hash r"
    "case r of None \<Rightarrow> LRU_Lookup key hash s = Some (None, s)
     | Some a \<Rightarrow> (0 :: nat) + 2 < 2 ^ 32 \<longrightarrow> (\<exists>s'. LRU_Lookup key hash s = Some (Some a, s') \<and>
         shard_ok ((\<lambda>_. 0)(a := 0 + 1)) s' \<and> content s' = content s \<and> same_base s s')"
    using Lookup_ok [OF assms, of key hash] by (elim exE conjE)
  show ?thesis
  proof (cases r)
    case None
    then show ?thesis using r(2) by simp
  next
    case (Some a)
    then obtain s1 where s1: "LRU_Lookup key hash s = Some (Some a, s1)" "shard_ok ((\<lambda>_. 0)(a := 1)) s1" "content s1 = content s"
      "same_base s s1" using r(2) by auto
    have a: "a \<in> cached_set s" "keys_of s a = Some (key, hash)" using r(1) Some by (simp_all add: is_entry_def)
    then have T: "cached_set s1 = cached_set s" "a \<in> cached_set s1" using s1(4) by (simp_all add: same_base_def)
    obtain s2 where s2: "LRU_Release a s1 = Some s2" "shard_ok (((\<lambda>_. 0)(a := 1))(a := ((\<lambda>_. 0)(a := 1)) a - 1)) s2" "same_base s1 s2"
      "content s2 = (if ((\<lambda>_. 0)(a := 1)) a = (1 :: nat) \<and> a \<notin> cached_set s1 then (content s1)(a := None) else content s1)"
      using Release_ok [OF s1(2), of a] by auto
    have "((\<lambda>_. 0 :: nat)(a := 1))(a := ((\<lambda>_. 0)(a := 1)) a - 1) = (\<lambda>_. 0)" by (simp add: fun_eq_iff)
    with s2(2) have "shard_ok (\<lambda>_. 0) s2" by (simp only:)
    moreover have "content s2 = content s" using s2(4) s1(3) T(2) by (simp only: simp_thms if_False)
    moreover have "cached_set s2 = cached_set s" using s2(3) T(1) by (simp add: same_base_def)
    ultimately show ?thesis using s1 s2(1) a by blast
  qed
qed

lemma lookup_value_ok:
  assumes "shards_ok (\<lambda>_ _. 0) c"
  shows "\<exists>r c'. lookup_value key c = Some (r, c') \<and> shards_ok (\<lambda>_ _. 0) c' \<and> (\<forall>v. r = Some v \<longrightarrow> lru_held c key v) \<and>
    (\<forall>k v. lru_held c' k v \<longrightarrow> lru_held c k v)"
proof -
  let ?hash = "HashSlice key"
  let ?i = "Shard ?hash"
  let ?s = "sh_shard c ! ?i"
  have len: "length (sh_shard c) = kNumShards" and i: "?i < kNumShards" and s: "shard_ok (\<lambda>_. 0) ?s" "placed ?i ?s"
    using assms Shard_less [of ?hash] by (simp_all add: shards_ok_def)
  from lookup_shard [OF s(1), of key ?hash] show ?thesis
  proof (elim disjE exE conjE)
    assume "LRU_Lookup key ?hash ?s = Some (None, ?s)"
    then have "lookup_value key c = Some (None, c)" by (simp add: lookup_value_def Cache_Lookup_def)
    then show ?thesis using assms by blast
  next
    fix a s1 s2
    assume l: "LRU_Lookup key ?hash ?s = Some (Some a, s1)" and a: "a \<in> cached_set ?s" "keys_of ?s a = Some (key, ?hash)"
      and s1: "content s1 = content ?s" and s2: "LRU_Release a s1 = Some s2" "shard_ok (\<lambda>_. 0) s2" "content s2 = content ?s" "cached_set s2 = cached_set ?s"
    obtain v n where v: "content ?s a = Some (key, ?hash, v, n)" using a(2) by (auto simp: keys_of_content)
    then have "content s1 a = Some (key, ?hash, v, n)" using s1 by simp
    then obtain h where h: "lc_heap s1 a = Some h" "lh_value h = v" unfolding content_def by auto
    have p: "placed ?i s1" "placed ?i s2" using placed_same [OF s(2)] s1 s2(3) by blast+
    let ?c = "c\<lparr>sh_shard := (sh_shard c)[?i := s2]\<rparr>"
    have "lookup_value key c = Some (Some v, ?c)"
      using l h Release_shard [OF len i p(1) h(1) s2(1)] len i
      by (simp add: lookup_value_def Cache_Lookup_def Cache_Value_def handle_at_def Let_def)
    moreover have "shards_ok (\<lambda>_ _. 0) ?c" using shards_ok_update [OF assms i s2(2) p(2)] .
    moreover have "lru_held c key v" using i a(1) v unfolding lru_held_def shard_held_def by blast
    moreover have "shard_held s2 k w \<longrightarrow> lru_held c k w" for k w using i unfolding lru_held_def shard_held_def s2(3,4) by blast
    then have "lru_held ?c k w \<longrightarrow> lru_held c k w" for k w using held_update [OF i len, of s2 k w] by blast
    ultimately show ?thesis by blast
  qed
qed

text \<open>An insertion adds its own entry and nothing else.\<close>

lemma Insert_content:
  assumes "shard_ok clients c"
  shows "\<exists>c'. LRU_Insert key hash val charge c = Some (lc_fresh c, c') \<and> shard_ok (clients(lc_fresh c := 1)) c' \<and>
    content c' (lc_fresh c) = Some (key, hash, val, charge) \<and> cached_set c' \<subseteq> insert (lc_fresh c) (cached_set c) \<and>
    (\<forall>b x. content c' b = Some x \<longrightarrow> content c b = Some x \<or> b = lc_fresh c \<and> x = (key, hash, val, charge))"
proof -
  let ?a = "lc_fresh c"
  obtain r c1 n c' where ins: "LRU_Insert key hash val charge c = Some (?a, c')" "shard_ok (clients(?a := 1)) c'"
    and e: "if lc_capacity c > 0 then is_entry (keys_of c) (cached_set c) key hash r else r = None"
    and rep: "replaced key hash val charge clients r c c1" and ev: "evicted n c1 c'"
    using Insert_ok [OF assms, of key hash val charge] by (elim exE conjE)
  have f: "?a \<notin> cached_set c" using shard_fresh [OF assms] by blast
  have con: "content c' b = (if b \<in> set (take n (lc_lru c1)) then None else if b \<in> set_option r \<and> clients b = 0 then None
      else if b = ?a then Some (key, hash, val, charge) else content c b)" for b
    using ev rep by (simp add: evicted_def replaced_def)
  have "?a \<notin> set_option r" using e f by (cases r) (auto simp: is_entry_def split: if_splits)
  moreover have "?a \<notin> set (lc_lru c)" using shard_lru(1) [OF assms] f by blast
  then have "?a \<notin> set (take n (lc_lru c1))" using rep in_set_takeD by (fastforce simp: replaced_def)
  ultimately have "content c' ?a = Some (key, hash, val, charge)" by (simp add: con)
  moreover have "cached_set c' \<subseteq> cached_set c1" using ev by (simp add: evicted_def)
  moreover have "cached_set c1 \<subseteq> insert ?a (cached_set c)" using rep by (simp add: replaced_def subset_iff)
  ultimately show ?thesis using ins con by (intro exI [of _ c']) (simp add: subset_trans [of "cached_set c'"])
qed

lemma insert_value_ok:
  assumes "shards_ok (\<lambda>_ _. 0) c"
  shows "\<exists>c'. insert_value key val charge c = Some c' \<and> shards_ok (\<lambda>_ _. 0) c' \<and>
    (\<forall>k v. lru_held c' k v \<longrightarrow> k = key \<and> v = val \<or> lru_held c k v)"
proof -
  let ?hash = "HashSlice key"
  let ?i = "Shard ?hash"
  let ?s = "sh_shard c ! ?i"
  let ?a = "lc_fresh ?s" and ?new = "(key, ?hash, val, of_nat charge :: u64)"
  have len: "length (sh_shard c) = kNumShards" and i: "?i < kNumShards" and s: "shard_ok (\<lambda>_. 0) ?s" "placed ?i ?s"
    using assms Shard_less [of ?hash] by (simp_all add: shards_ok_def)
  obtain s1 where s1: "LRU_Insert key ?hash val (of_nat charge) ?s = Some (?a, s1)" "shard_ok ((\<lambda>_. 0)(?a := 1)) s1"
    "content s1 ?a = Some ?new" "cached_set s1 \<subseteq> insert ?a (cached_set ?s)"
    "\<And>b x. content s1 b = Some x \<Longrightarrow> content ?s b = Some x \<or> b = ?a \<and> x = ?new"
    using Insert_content [OF s(1), of key ?hash val "of_nat charge"] by blast
  obtain s2 where s2: "LRU_Release ?a s1 = Some s2" "shard_ok (((\<lambda>_. 0)(?a := 1))(?a := ((\<lambda>_. 0)(?a := 1)) ?a - 1)) s2" "same_base s1 s2"
    "content s2 = (if ((\<lambda>_. 0)(?a := 1)) ?a = (1 :: nat) \<and> ?a \<notin> cached_set s1 then (content s1)(?a := None) else content s1)"
    using Release_ok [OF s1(2), of ?a] by auto
  have "((\<lambda>_. 0 :: nat)(?a := 1))(?a := ((\<lambda>_. 0)(?a := 1)) ?a - 1) = (\<lambda>_. 0)" by (simp add: fun_eq_iff)
  with s2(2) have ok: "shard_ok (\<lambda>_. 0) s2" by (simp only:)
  have con: "content ?s b = Some x \<or> b = ?a \<and> x = ?new" if "content s2 b = Some x" for b x
    using that s1(5) [of b x] unfolding s2(4) by (simp split: if_splits)
  obtain h where h: "lc_heap s1 ?a = Some h" using s1(3) by (auto simp: content_def)
  have p: "placed ?i s1" "placed ?i s2" using placed_grow [OF s(2) _ refl] s1(5) con by blast+
  let ?c = "c\<lparr>sh_shard := (sh_shard c)[?i := s2]\<rparr>"
  have "insert_value key val charge c = Some ?c"
    using s1(1) Release_shard [OF len i p(1) h s2(1)] by (simp add: insert_value_def Cache_Insert_def Let_def)
  moreover have "shards_ok (\<lambda>_ _. 0) ?c" using shards_ok_update [OF assms i ok p(2)] .
  moreover have held: "k = key \<and> v = val \<or> lru_held c k v" if h: "shard_held s2 k v" for k v
  proof -
    obtain b h n where b: "b \<in> cached_set s2" "content s2 b = Some (k, h, v, n)" using h unfolding shard_held_def by blast
    have "cached_set s2 = cached_set s1" using s2(3) by (simp add: same_base_def)
    then have "b = ?a \<or> b \<in> cached_set ?s" using s1(4) b(1) by blast
    moreover have "content ?s ?a = None" using shard_fresh [OF s(1)] by (simp add: content_def)
    ultimately show ?thesis using con [OF b(2)] i unfolding lru_held_def shard_held_def by (metis option.distinct(1) prod.inject)
  qed
  ultimately show ?thesis using held_update [OF i len] by blast
qed

text \<open>The LRU cache is a sound cache.\<close>

interpretation lru: sound_cache lru_cache_ops "shards_ok (\<lambda>_ _. 0)" lru_held
proof unfold_locales
  fix c :: "'a ShardedLRUCache" and k r b c' k' b'
  assume c: "shards_ok (\<lambda>_ _. 0) c" and l: "ca_Lookup lru_cache_ops k c = (r, c')"
  obtain r0 c0 where "lookup_value k c = Some (r0, c0)" "shards_ok (\<lambda>_ _. 0) c0" "\<forall>v. r0 = Some v \<longrightarrow> lru_held c k v"
    "\<forall>k v. lru_held c0 k v \<longrightarrow> lru_held c k v" using lookup_value_ok [OF c] by blast
  then show "shards_ok (\<lambda>_ _. 0) c' \<and> (r = Some b \<longrightarrow> lru_held c k b) \<and> (lru_held c' k' b' \<longrightarrow> lru_held c k' b')"
    using l by (simp add: lru_cache_ops_def)
next
  fix c :: "'a ShardedLRUCache" and k b n c' k' b'
  assume c: "shards_ok (\<lambda>_ _. 0) c" and l: "ca_Insert lru_cache_ops k b n c = c'"
  obtain c0 where "insert_value k b n c = Some c0" "shards_ok (\<lambda>_ _. 0) c0"
    "\<forall>k' v. lru_held c0 k' v \<longrightarrow> k' = k \<and> v = b \<or> lru_held c k' v" using insert_value_ok [OF c] by blast
  then show "shards_ok (\<lambda>_ _. 0) c' \<and> (lru_held c' k' b' \<longrightarrow> k' = k \<and> b' = b \<or> lru_held c k' b')"
    using l by (simp add: lru_cache_ops_def)
next
  fix c :: "'a ShardedLRUCache" and i c' k' b'
  assume "shards_ok (\<lambda>_ _. 0) c" and "ca_NewId lru_cache_ops c = (i, c')"
  then show "shards_ok (\<lambda>_ _. 0) c' \<and> (lru_held c' k' b' \<longrightarrow> lru_held c k' b')"
    by (auto simp: lru_cache_ops_def Cache_NewId_def shards_ok_def lru_held_def)
qed

text \<open>A new cache holds nothing.\<close>

lemma new_shards_ok:
  "\<exists>ss :: 'v LRUCache list. new_shards n per_shard = Some ss \<and> length ss = n \<and>
    (\<forall>s \<in> set ss. shard_ok (\<lambda>_. 0) s \<and> content s = (\<lambda>_. None) \<and> cached_set s = {})"
proof (induction n)
  case (Suc n)
  obtain s :: "'v LRUCache" where "new_LRUCache per_shard = Some s" "shard_ok (\<lambda>_. 0) s" "content s = (\<lambda>_. None)" "cached_set s = {}"
    using new_LRUCache_ok by blast
  with Suc.IH show ?case by auto
qed simp

lemma NewLRUCache_ok:
  "\<exists>c :: 'v ShardedLRUCache. NewLRUCache capacity = Some c \<and> shards_ok (\<lambda>_ _. 0) c \<and> (\<forall>k v. \<not> lru_held c k v)"
proof -
  let ?p = "(capacity + of_nat (kNumShards - 1)) div of_nat kNumShards"
  obtain ss :: "'v LRUCache list" where ss: "new_shards kNumShards ?p = Some ss" "length ss = kNumShards"
    "\<And>i. i < kNumShards \<Longrightarrow> shard_ok (\<lambda>_. 0) (ss ! i) \<and> content (ss ! i) = (\<lambda>_. None) \<and> cached_set (ss ! i) = {}"
    using new_shards_ok [of kNumShards ?p] by (metis nth_mem)
  let ?c = "\<lparr>sh_shard = ss, sh_last_id = 0\<rparr>"
  have "shards_ok (\<lambda>_ _. 0) ?c" using ss(2,3) by (simp add: shards_ok_def placed_def)
  moreover have "\<not> lru_held ?c k v" for k v using ss(3) by (auto simp: lru_held_def shard_held_def)
  moreover have "NewLRUCache capacity = Some ?c" using ss(1) by (simp add: NewLRUCache_def)
  ultimately show ?thesis by blast
qed

end
