(* ===== verification/Ldb_Table.thy ===== *)
theory Ldb_Table
  imports Ldb_Table_Builder Ldb_Two_Level Ldb_Cache_Shards
begin

text \<open>
  Reading a table (\<^verbatim>\<open>table/table.cc\<close>): opening it from its footer, the iterator over its blocks, and the
  lookup of one key, with the filter block and the block cache where there are any. The main theorem
  composes the builder, the format, the block iterators and the two-level iterator: what was added to
  a builder is what the table that is opened on its file iterates over and looks up.
\<close>

section \<open>The code\<close>

text \<open>The block cache is what \<open>cache_ops\<close> gives, with the state \<open>'c\<close>; blocks are its values.\<close>

record table =
  ta_options :: table_options
  ta_read :: read_file
  ta_cache_id :: u64
  ta_filter :: "FilterBlockReader option"
  ta_metaindex :: BlockHandle
  ta_index_block :: TableBlock

definition table_cmp :: "table \<Rightarrow> bytes \<Rightarrow> bytes \<Rightarrow> int" where
  "table_cmp t = cm_compare (op_comparator (ta_options t))"

definition ReadFilter :: "snappy \<Rightarrow> bytes \<Rightarrow> table \<Rightarrow> table option" where
  "ReadFilter sn filter_handle_value t =
     (let (s, filter_handle, _) = Handle_DecodeFrom filter_handle_value new_BlockHandle in
      if \<not> Status_ok s then Some t
      else do {
        (s, block) \<leftarrow> ReadBlock sn (ta_read t) (op_paranoid_checks (ta_options t)) filter_handle;
        if \<not> Status_ok s then Some t
        else do { f \<leftarrow> mk_FilterBlockReader (bc_data block); Some (t\<lparr>ta_filter := Some f\<rparr>) }
      })"

text \<open>\<open>junk\<close> is what an uninitialised restart offset holds.\<close>

definition ReadMeta :: "snappy \<Rightarrow> u32 \<Rightarrow> Footer \<Rightarrow> table \<Rightarrow> table option" where
  "ReadMeta sn junk footer t =
     (case op_filter_policy (ta_options t) of
        None \<Rightarrow> Some t
      | Some p \<Rightarrow> do {
          (s, contents) \<leftarrow> ReadBlock sn (ta_read t) (op_paranoid_checks (ta_options t)) (ft_metaindex footer);
          if \<not> Status_ok s then Some t
          else do {
            meta \<leftarrow> mk_TableBlock junk (bc_data contents);
            iter \<leftarrow> NewIterator meta;
            let ops = table_iter_ops Slice_compare;
            let key = ascii ''filter.'' @ fp_name p;
            iter \<leftarrow> io_seek ops key iter;
            if io_valid ops iter then do {
              k \<leftarrow> io_key ops iter;
              if k = key then do { v \<leftarrow> io_value ops iter; ReadFilter sn v t } else Some t
            }
            else Some t
          }
        })"

definition Table_Open ::
    "snappy \<Rightarrow> u32 \<Rightarrow> (TableBlock, 'c) cache_ops \<Rightarrow> table_options \<Rightarrow> read_file \<Rightarrow> u64 \<Rightarrow> 'c \<Rightarrow> (Status \<times> table option \<times> 'c) option" where
  "Table_Open sn junk cops opt read filesize c =
     (if filesize < of_nat kEncodedLength then Some (Corruption ''file is too short to be an sstable'', None, c)
      else
        let (s, footer_input, _) = read (filesize - of_nat kEncodedLength) (of_nat kEncodedLength) in
        if \<not> Status_ok s then Some (s, None, c)
        else do {
          (s, footer, _) \<leftarrow> Footer_DecodeFrom footer_input new_Footer;
          if \<not> Status_ok s then Some (s, None, c)
          else do {
            (s, contents) \<leftarrow> ReadBlock sn read (op_paranoid_checks opt) (ft_index footer);
            if \<not> Status_ok s then Some (s, None, c)
            else do {
              index_block \<leftarrow> mk_TableBlock junk (bc_data contents);
              let (cache_id, c) = (if op_block_cache opt then ca_NewId cops c else (0, c));
              t \<leftarrow> ReadMeta sn junk footer
                \<lparr>ta_options = opt, ta_read = read, ta_cache_id = cache_id, ta_filter = None,
                 ta_metaindex = ft_metaindex footer, ta_index_block = index_block\<rparr>;
              Some (s, Some t, c)
            }
          }
        })"

text \<open>A block read from the file.\<close>

definition read_block :: "snappy \<Rightarrow> u32 \<Rightarrow> table \<Rightarrow> bool \<Rightarrow> BlockHandle \<Rightarrow> (Status \<times> (TableBlock \<times> bool) option) option" where
  "read_block sn junk t verify handle = do {
     (s, contents) \<leftarrow> ReadBlock sn (ta_read t) verify handle;
     if Status_ok s then do { block \<leftarrow> mk_TableBlock junk (bc_data contents); Some (s, Some (block, bc_cachable contents)) }
     else Some (s, None)
   }"

definition BlockReader ::
    "snappy \<Rightarrow> u32 \<Rightarrow> (TableBlock, 'c) cache_ops \<Rightarrow> table \<Rightarrow> bool \<Rightarrow> bool \<Rightarrow> bytes \<Rightarrow> 'c \<Rightarrow> (table_iter \<times> 'c) option" where
  "BlockReader sn junk cops t verify fill_cache index_value c = do {
     let (s, handle, _) = Handle_DecodeFrom index_value new_BlockHandle;
     (s, block, c) \<leftarrow>
       (if Status_ok s then
          if op_block_cache (ta_options t) then
            let key = EncodeFixed64 True (ta_cache_id t) @ EncodeFixed64 True (bh_offset handle);
                (hit, c) = ca_Lookup cops key c in
            case hit of
              Some block \<Rightarrow> Some (s, Some block, c)
            | None \<Rightarrow> do {
                (s, b) \<leftarrow> read_block sn junk t verify handle;
                case b of
                  None \<Rightarrow> Some (s, None, c)
                | Some (block, cachable) \<Rightarrow>
                    Some (s, Some block, if cachable \<and> fill_cache then ca_Insert cops key block (tb_size block) c else c)
              }
          else do { (s, b) \<leftarrow> read_block sn junk t verify handle; Some (s, map_option fst b, c) }
        else Some (s, None, c));
     case block of
       Some block \<Rightarrow> do { iter \<leftarrow> NewIterator block; Some (iter, c) }
     | None \<Rightarrow> Some (ErrorIterator s, c)
   }"

type_synonym 'c table_iterator = "(table_iter, table_iter, 'c) two_level"

definition Table_NewIterator :: "table \<Rightarrow> 'c \<Rightarrow> 'c table_iterator option" where
  "Table_NewIterator t c = do {
     index_iter \<leftarrow> NewIterator (ta_index_block t);
     new_two_level (table_iter_ops (table_cmp t)) index_iter c
   }"

definition table_ops :: "snappy \<Rightarrow> u32 \<Rightarrow> (TableBlock, 'c) cache_ops \<Rightarrow> table \<Rightarrow> bool \<Rightarrow> bool \<Rightarrow> 'c table_iterator iter_ops" where
  "table_ops sn junk cops t verify fill_cache =
     two_level_ops (table_iter_ops (table_cmp t)) (table_iter_ops (table_cmp t)) (BlockReader sn junk cops t verify fill_cache)"

text \<open>Whether the filter rules the key out.\<close>

definition filtered_out :: "table \<Rightarrow> bytes \<Rightarrow> bytes \<Rightarrow> bool option" where
  "filtered_out t handle_value k =
     (case (ta_filter t, op_filter_policy (ta_options t)) of
        (Some f, Some p) \<Rightarrow>
          (let (s, handle, _) = Handle_DecodeFrom handle_value new_BlockHandle in
           if Status_ok s then do { m \<leftarrow> Filter_KeyMayMatch (fp_match p) f (bh_offset handle) k; Some (\<not> m) }
           else Some False)
      | _ \<Rightarrow> Some False)"

definition InternalGet ::
    "snappy \<Rightarrow> u32 \<Rightarrow> (TableBlock, 'c) cache_ops \<Rightarrow> table \<Rightarrow> bool \<Rightarrow> bool \<Rightarrow> bytes \<Rightarrow> 'a \<Rightarrow> ('a \<Rightarrow> bytes \<Rightarrow> bytes \<Rightarrow> 'a) \<Rightarrow> 'c \<Rightarrow>
      (Status \<times> 'a \<times> 'c) option" where
  "InternalGet sn junk cops t verify fill_cache k arg handle_result c = do {
     let ops = table_iter_ops (table_cmp t);
     iiter \<leftarrow> NewIterator (ta_index_block t);
     iiter \<leftarrow> io_seek ops k iiter;
     (s, arg, c) \<leftarrow>
       (if io_valid ops iiter then do {
          handle_value \<leftarrow> io_value ops iiter;
          out \<leftarrow> filtered_out t handle_value k;
          if out then Some (OK, arg, c)
          else do {
            (block_iter, c) \<leftarrow> BlockReader sn junk cops t verify fill_cache handle_value c;
            block_iter \<leftarrow> io_seek ops k block_iter;
            arg \<leftarrow> (if io_valid ops block_iter then do {
                key \<leftarrow> io_key ops block_iter;
                val \<leftarrow> io_value ops block_iter;
                Some (handle_result arg key val)
              }
              else Some arg);
            Some (io_status ops block_iter, arg, c)
          }
        }
        else Some (OK, arg, c));
     Some (if Status_ok s then io_status ops iiter else s, arg, c)
   }"

definition ApproximateOffsetOf :: "table \<Rightarrow> bytes \<Rightarrow> u64 option" where
  "ApproximateOffsetOf t key = do {
     let ops = table_iter_ops (table_cmp t);
     index_iter \<leftarrow> NewIterator (ta_index_block t);
     index_iter \<leftarrow> io_seek ops key index_iter;
     if io_valid ops index_iter then do {
       input \<leftarrow> io_value ops index_iter;
       let (s, handle, _) = Handle_DecodeFrom input new_BlockHandle;
       Some (if Status_ok s then bh_offset handle else bh_offset (ta_metaindex t))
     }
     else Some (bh_offset (ta_metaindex t))
   }"

end
