(* ===== verification/Ldb_Table_Contract.thy ===== *)
theory Ldb_Table_Contract
  imports Ldb_Table
begin

text \<open>
  What a table is to its readers. The file that the builder has finished is taken apart into its
  blocks; the index iterator and the block reader of a table that is opened on it satisfy the
  contract of the two-level iterator, with a cache that only returns what was put into it or
  without one. The main theorems compose builder, opening, iteration and lookup.
\<close>

section \<open>The parts of the file\<close>

text \<open>A file that returns what its contents are, as far as they go.\<close>

definition reads :: "bytes \<Rightarrow> bool \<Rightarrow> read_file \<Rightarrow> bool" where
  "reads c scratch read \<longleftrightarrow> (\<forall>offs n. read offs n = (OK, take (unat n) (drop (unat offs) c), scratch))"

lemma reads_at:
  "reads (a @ b @ r) scratch read \<Longrightarrow> length (a @ b @ r) < 2 ^ 64 \<Longrightarrow>
    read (of_nat (length a)) (of_nat (length b)) = (OK, b, scratch)"
  by (simp add: reads_def unat_of_nat)

lemma ReadBlock_at:
  assumes "reads file scratch read" and "file = a @ raw_block c 0 @ r" and "length file < 2 ^ 64"
  shows "ReadBlock sn read v \<lparr>bh_offset = of_nat (length a), bh_size = of_nat (length c)\<rparr> =
    Some (OK, \<lparr>bc_data = c, bc_cachable = scratch, bc_heap_allocated = scratch\<rparr>)"
proof (rule ReadBlock_raw)
  show "read (of_nat (length a)) (of_nat (length c + 5)) = (OK, raw_block c 0, scratch)"
    using reads_at [of a "raw_block c 0" r scratch read] assms by simp
qed (use assms(2,3) in simp)

lemma chunk_bytes_split:
  "i < length cs \<Longrightarrow> chunk_bytes K cs =
    chunk_bytes K (take i cs) @ raw_block (built K (cs ! i)) 0 @ chunk_bytes K (drop (Suc i) cs)"
proof -
  assume "i < length cs"
  then have "cs = take i cs @ cs ! i # drop (Suc i) cs" by (rule id_take_nth_drop)
  from arg_cong [OF this, of "chunk_bytes K"] show ?thesis
    unfolding chunk_bytes_def map_append concat_append list.map concat.simps .
qed

lemma chunk_start_less:
  assumes "i < j" and "j \<le> length cs"
  shows "length (chunk_bytes K (take i cs)) < length (chunk_bytes K (take j cs))"
  using chunk_bytes_split [of i "take j cs" K] assms by (simp add: min_def)

lemma length_chunk_take: "length (chunk_bytes K (take i cs)) \<le> length (chunk_bytes K cs)"
  using chunk_start_less [of i "length cs" cs K] by (cases "i < length cs") auto

lemma length_finished:
  "length (finished_file K cs seps) = length (chunk_bytes K cs) + length (built K []) +
     length (built 1 (index_entries K cs seps)) + 58"
  by (simp add: finished_file_def Let_def length_Footer_EncodeTo kEncodedLength_def kMaxEncodedLength_def)

text \<open>Different blocks have different handles, so a handle names its entries.\<close>

lemma chunk_offset_inj:
  assumes "length (chunk_bytes K cs) < 2 ^ 64" and "i < length cs" and "j < length cs"
    and "bh_offset (chunk_handle K cs i) = bh_offset (chunk_handle K cs j)"
  shows "i = j"
proof -
  let ?l = "\<lambda>i. length (chunk_bytes K (take i cs))"
  have "unat (of_nat (?l i) :: u64) = ?l i" for i using length_chunk_take [of K i cs] assms(1) by (simp add: unat_of_nat)
  then have "?l i = ?l j" using assms(4) by (metis BlockHandle.select_convs(1) chunk_handle_def)
  then show ?thesis using chunk_start_less [of i j cs K] chunk_start_less [of j i cs K] assms(2,3) by fastforce
qed

definition chunk_of :: "nat \<Rightarrow> entry list list \<Rightarrow> bytes \<Rightarrow> entry list" where
  "chunk_of K cs h = (case List.find (\<lambda>i. handle_bytes (chunk_handle K cs i) = h) [0..<length cs] of
     None \<Rightarrow> [] | Some i \<Rightarrow> cs ! i)"

lemma chunk_of_handle:
  assumes "length (chunk_bytes K cs) < 2 ^ 64" and "i < length cs"
  shows "chunk_of K cs (handle_bytes (chunk_handle K cs i)) = cs ! i"
proof (cases "List.find (\<lambda>j. handle_bytes (chunk_handle K cs j) = handle_bytes (chunk_handle K cs i)) [0..<length cs]")
  case None
  then show ?thesis using assms(2) by (auto simp: find_None_iff)
next
  case (Some j)
  then have "j < length cs" "handle_bytes (chunk_handle K cs j) = handle_bytes (chunk_handle K cs i)" by (auto simp: find_Some_iff)
  with chunk_offset_inj [OF assms(1) _ assms(2)] handle_bytes_inj have "j = i" by metis
  with Some show ?thesis by (simp add: chunk_of_def)
qed

section \<open>The order of the blocks\<close>

text \<open>The opened table over the file, with the comparator of the options.\<close>

definition table_over ::
    "(bytes \<Rightarrow> bytes \<Rightarrow> int) \<Rightarrow> bool \<Rightarrow> nat \<Rightarrow> entry list list \<Rightarrow> bytes list \<Rightarrow> table \<Rightarrow> bool" where
  "table_over compare scratch K cs seps t \<longleftrightarrow> table_cmp t = compare \<and> ta_filter t = None \<and> 0 < K \<and>
     reads (finished_file K cs seps) scratch (ta_read t) \<and> length (finished_file K cs seps) < 2 ^ 32 \<and>
     list_all (\<lambda>(k, v). length k < 2 ^ 32) (concat cs) \<and> ta_index_block t = opened 1 (index_entries K cs seps) \<and>
     length seps = length cs \<and> [] \<notin> set cs"

lemma length_index_entries [simp]: "length (index_entries K cs seps) = length seps"
  by (simp add: index_entries_def)

lemma nth_index_entries: "i < length seps \<Longrightarrow> index_entries K cs seps ! i = (seps ! i, handle_bytes (chunk_handle K cs i))"
  by (simp add: index_entries_def)

lemma wf_chunk:
  assumes "table_over compare scratch K cs seps t" and "i < length cs"
  shows "wf_block K (cs ! i)"
proof -
  have "length (built K (cs ! i)) \<le> length (chunk_bytes K cs)" using chunk_bytes_split [OF assms(2), of K] by simp
  moreover have "list_all (\<lambda>(k, v). length k < 2 ^ 32) (cs ! i)"
    using assms unfolding table_over_def list_all_iff by (auto dest: nth_mem)
  ultimately show ?thesis using assms(1) by (simp add: table_over_def wf_block_def length_finished)
qed

text \<open>No key of the index shares a prefix, so the keys are in the block as they are.\<close>

lemma length_key_built:
  assumes "i < length es"
  shows "length (fst (es ! i)) \<le> length (built 1 es)"
proof -
  have "length (fst (es ! i)) \<le> length (enc_at 1 es i)"
    by (cases "es ! i") (simp add: enc_at_def shared_at_def)
  also have "\<dots> \<le> off 1 es (Suc i)" by (simp add: off_Suc)
  also have "\<dots> \<le> off 1 es (length es)" using assms by (simp add: off_le_iff)
  finally show ?thesis by (simp add: length_built)
qed

lemma wf_index:
  assumes "table_over compare scratch K cs seps t"
  shows "wf_block 1 (index_entries K cs seps)"
proof -
  have l: "length (built 1 (index_entries K cs seps)) < 2 ^ 32" using assms by (simp add: table_over_def length_finished)
  have "length (fst (index_entries K cs seps ! i)) < 2 ^ 32" if "i < length (index_entries K cs seps)" for i
    using length_key_built [OF that] l by linarith
  then show ?thesis using l by (auto simp: wf_block_def list_all_length split_beta)
qed

lemma concat_at: "i < length xss \<Longrightarrow> concat xss = concat (take i xss) @ xss ! i @ concat (drop (Suc i) xss)"
proof -
  assume "i < length xss"
  then have "xss = take i xss @ xss ! i # drop (Suc i) xss" by (rule id_take_nth_drop)
  from arg_cong [OF this, of concat] show ?thesis unfolding concat_append concat.simps .
qed

context comparator
begin

lemma sorted_entries_wrt: "sorted_entries es \<longleftrightarrow> list_all (\<lambda>e. ok (fst e)) es \<and> sorted_wrt (\<lambda>a b. compare (fst a) (fst b) < 0) es"
proof
  assume "sorted_entries es"
  then show "list_all (\<lambda>e. ok (fst e)) es \<and> sorted_wrt (\<lambda>a b. compare (fst a) (fst b) < 0) es"
    using entries_less [of es] by (auto simp: sorted_wrt_iff_nth_less) (simp add: sorted_entries_def)
qed (simp add: sorted_entries_def sorted_wrt_iff_nth_less)

lemma chunks_sorted:
  assumes "sorted_entries (concat cs)"
  shows "i < length cs \<Longrightarrow> sorted_entries (cs ! i)"
    and "i < j \<Longrightarrow> j < length cs \<Longrightarrow> a \<in> set (cs ! i) \<Longrightarrow> b \<in> set (cs ! j) \<Longrightarrow> compare (fst a) (fst b) < 0"
proof -
  show one: "sorted_entries (cs ! i)" if "i < length cs" for i
  proof -
    have "concat cs = concat (take i cs) @ cs ! i @ concat (drop (Suc i) cs)" using that by (rule concat_at)
    with assms show ?thesis by (simp add: sorted_entries_wrt sorted_wrt_append)
  qed
  show "compare (fst a) (fst b) < 0" if "i < j" "j < length cs" "a \<in> set (cs ! i)" "b \<in> set (cs ! j)"
  proof -
    note c = concat_at [OF that(2)]
    have "cs ! i \<in> set (take j cs)" using that(1,2) by (auto simp: in_set_conv_nth intro!: exI [of _ i])
    then have "a \<in> set (concat (take j cs))" using that(3) by auto
    moreover have "sorted_wrt (\<lambda>a b. compare (fst a) (fst b) < 0) (concat (take j cs) @ cs ! j @ concat (drop (Suc j) cs))"
      using assms c by (simp add: sorted_entries_wrt)
    ultimately show ?thesis using that(4) unfolding sorted_wrt_append set_append by blast
  qed
qed

lemma chunk_ok: "sorted_entries (concat cs) \<Longrightarrow> i < length cs \<Longrightarrow> e \<in> set (cs ! i) \<Longrightarrow> ok (fst e)"
  using chunks_sorted(1) by (auto simp: sorted_entries_def list_all_iff)

lemma entry_le_last:
  assumes "sorted_entries es" and "e \<in> set es"
  shows "compare (fst e) (fst (last es)) \<le> 0" "compare (fst (hd es)) (fst e) \<le> 0"
proof -
  from assms(2) obtain i where i: "i < length es" "e = es ! i" by (auto simp: in_set_conv_nth)
  then have ne: "es \<noteq> []" and ok: "ok (fst e)" using assms by (auto simp: sorted_entries_def list_all_length)
  have "compare (fst e) (fst (es ! (length es - 1))) \<le> 0"
  proof (cases "i = length es - 1")
    case False
    then have "i < length es - 1" using i(1) by linarith
    from entries_less [OF assms(1) this] i ne show ?thesis by fastforce
  qed (use i ok compare_self in simp)
  then show "compare (fst e) (fst (last es)) \<le> 0" using ne by (simp add: last_conv_nth)
  have "compare (fst (es ! 0)) (fst e) \<le> 0"
    using entries_less [OF assms(1), of 0 i] i ok compare_self by (cases "i = 0") auto
  then show "compare (fst (hd es)) (fst e) \<le> 0" using ne by (simp add: hd_conv_nth)
qed

text \<open>The index is sorted, and its keys lie between the blocks.\<close>

lemma sep_order:
  assumes "separates cs seps" and "length seps = length cs" and "[] \<notin> set cs" and "sorted_entries (concat cs)"
  shows "i < length cs \<Longrightarrow> ok (seps ! i)"
    and "i < length cs \<Longrightarrow> e \<in> set (cs ! i) \<Longrightarrow> compare (fst e) (seps ! i) \<le> 0"
    and "i < j \<Longrightarrow> j < length cs \<Longrightarrow> e \<in> set (cs ! j) \<Longrightarrow> compare (seps ! i) (fst e) < 0"
proof -
  have sep: "ok (seps ! i)" "compare (fst (last (cs ! i))) (seps ! i) \<le> 0"
    "Suc i < length cs \<Longrightarrow> compare (seps ! i) (fst (hd (cs ! Suc i))) < 0" if "i < length cs" for i
    using assms(1,2) that unfolding separates_def by metis+
  have ne: "cs ! i \<noteq> []" if "i < length cs" for i using assms(3) nth_mem [OF that] by metis
  have le: "compare a c \<le> 0" if "compare a b \<le> 0" "compare b c \<le> 0" "ok a" "ok b" "ok c" for a b c
    using compare_le_less_trans [of a b c] compare_0 [of b c] that by force
  show "ok (seps ! i)" if "i < length cs" using sep that by blast
  show "compare (fst e) (seps ! i) \<le> 0" if "i < length cs" "e \<in> set (cs ! i)"
  proof (rule le)
    show "compare (fst e) (fst (last (cs ! i))) \<le> 0" using entry_le_last(1) chunks_sorted(1) assms(4) that by blast
  qed (use sep [OF that(1)] that chunk_ok [OF assms(4) that(1)] ne in auto)
  show "compare (seps ! i) (fst e) < 0" if "i < j" "j < length cs" "e \<in> set (cs ! j)"
  proof -
    have i: "i < length cs" "Suc i < length cs" using that by auto
    let ?b = "hd (cs ! Suc i)"
    have b: "?b \<in> set (cs ! Suc i)" "ok (fst ?b)" using ne i(2) chunk_ok [OF assms(4) i(2)] by auto
    have "compare (fst ?b) (fst e) \<le> 0"
    proof (cases "j = Suc i")
      case True
      then show ?thesis using entry_le_last(2) chunks_sorted(1) [OF assms(4) i(2)] that(3) by blast
    next
      case False
      then have "Suc i < j" using that(1) by simp
      from chunks_sorted(2) [OF assms(4) this that(2) b(1) that(3)] show ?thesis by simp
    qed
    then show ?thesis
      using compare_less_le_trans [OF sep(1) [OF i(1)] b(2) chunk_ok [OF assms(4) that(2,3)] sep(3) [OF i]] by blast
  qed
qed

lemma index_sorted:
  assumes "separates cs seps" and "length seps = length cs" and "[] \<notin> set cs" and "sorted_entries (concat cs)"
  shows "sorted_entries (index_entries K cs seps)"
proof -
  note o = sep_order [OF assms]
  have "compare (seps ! i) (seps ! Suc i) < 0" if "Suc i < length cs" for i
  proof -
    have "cs ! Suc i \<noteq> []" using assms(3) nth_mem [OF that] by metis
    then have e: "hd (cs ! Suc i) \<in> set (cs ! Suc i)" by simp
    have "i < length cs" using that by simp
    from compare_less_le_trans [OF o(1) [OF this] chunk_ok [OF assms(4) that e] o(1) [OF that] o(3) [of i, OF _ that e] o(2) [OF that e]]
    show ?thesis by simp
  qed
  then show ?thesis using o(1) assms(2) unfolding sorted_entries_def by (simp add: list_all_length nth_index_entries)
qed

end

section \<open>Reading a block\<close>

definition block_key :: "table \<Rightarrow> BlockHandle \<Rightarrow> bytes" where
  "block_key t h = EncodeFixed64 True (ta_cache_id t) @ EncodeFixed64 True (bh_offset h)"

definition cache_serves ::
    "(TableBlock, 'c) cache_ops \<Rightarrow> ('c \<Rightarrow> bool) \<Rightarrow> ('c \<Rightarrow> bytes \<Rightarrow> TableBlock \<Rightarrow> bool) \<Rightarrow> nat \<Rightarrow> entry list list \<Rightarrow> table \<Rightarrow> 'c \<Rightarrow> bool" where
  "cache_serves cops cainv held K cs t c \<longleftrightarrow> (op_block_cache (ta_options t) \<longrightarrow> sound_cache cops cainv held \<and> cainv c \<and>
     (\<forall>i < length cs. \<forall>b. held c (block_key t (chunk_handle K cs i)) b \<longrightarrow> b = opened K (cs ! i)))"

lemma read_block_chunk:
  assumes "table_over compare scratch K cs seps t" and "i < length cs"
  shows "read_block sn junk t verify (chunk_handle K cs i) = Some (OK, Some (opened K (cs ! i), scratch))"
proof -
  have "ReadBlock sn (ta_read t) verify (chunk_handle K cs i) =
      Some (OK, \<lparr>bc_data = built K (cs ! i), bc_cachable = scratch, bc_heap_allocated = scratch\<rparr>)"
    unfolding chunk_handle_def
  proof (rule ReadBlock_at)
    show "reads (finished_file K cs seps) scratch (ta_read t)" "length (finished_file K cs seps) < 2 ^ 64"
      using assms(1) by (simp_all add: table_over_def)
    show "finished_file K cs seps = chunk_bytes K (take i cs) @ raw_block (built K (cs ! i)) 0 @
        chunk_bytes K (drop (Suc i) cs) @ drop (length (chunk_bytes K cs)) (finished_file K cs seps)"
      using chunk_bytes_split [OF assms(2), of K] by (simp add: finished_file_def Let_def)
  qed
  then show ?thesis using open_built(1) [OF wf_chunk [OF assms]] by (simp add: read_block_def Status_ok_def)
qed

lemma block_key_inj: "block_key t h = block_key t h' \<Longrightarrow> bh_offset h = bh_offset h'"
  by (simp add: block_key_def) (metis le_word_word_le_64)

lemma table_over_length: "table_over compare scratch K cs seps t \<Longrightarrow> length (chunk_bytes K cs) < 2 ^ 64"
  by (simp add: table_over_def length_finished)

text \<open>The block reader opens the block that a handle of the index names.\<close>

lemma BlockReader_chunk:
  assumes "table_over compare scratch K cs seps t" and "cache_serves cops cainv held K cs t c" and "i < length cs"
  shows "\<exists>it c'. BlockReader sn junk cops t verify fill_cache (handle_bytes (chunk_handle K cs i)) c = Some (Iter it, c') \<and>
    at_end K (cs ! i) it \<and> cache_serves cops cainv held K cs t c'"
proof -
  let ?h = "chunk_handle K cs i"
  note rb = read_block_chunk [OF assms(1,3)]
  have h: "Handle_DecodeFrom (handle_bytes ?h) new_BlockHandle = (OK, ?h, [])" using Handle_DecodeFrom_put [of ?h "[]"] by simp
  obtain it where it: "NewIterator (opened K (cs ! i)) = Some (Iter it)" "at_end K (cs ! i) it"
    using open_built(2) [OF wf_chunk [OF assms(1,3)]] by blast
  have ok: "Status_ok OK" by (simp add: Status_ok_def)
  show ?thesis
  proof (cases "op_block_cache (ta_options t)")
    case False
    then show ?thesis using it assms(2) by (simp add: BlockReader_def h ok rb)
  next
    case True
    then have sc: "sound_cache cops cainv held" "cainv c"
      and right: "\<And>j b. j < length cs \<Longrightarrow> held c (block_key t (chunk_handle K cs j)) b \<Longrightarrow> b = opened K (cs ! j)"
      using assms(2) by (auto simp: cache_serves_def)
    obtain hit c1 where l: "ca_Lookup cops (block_key t ?h) c = (hit, c1)" by force
    note lk = sound_cache.lookup [OF sc l]
    have c1: "cache_serves cops cainv held K cs t c1" using lk sc right by (auto simp: cache_serves_def)
    let ?B = "BlockReader sn junk cops t verify fill_cache (handle_bytes ?h) c"
    show ?thesis
    proof (cases hit)
      case (Some b)
      then have "b = opened K (cs ! i)" using lk right [OF assms(3)] by blast
      then show ?thesis using it c1 Some l True by (simp add: BlockReader_def h ok block_key_def)
    next
      case None
      define c2 where "c2 = (if scratch \<and> fill_cache then ca_Insert cops (block_key t ?h) (opened K (cs ! i)) (tb_size (opened K (cs ! i))) c1 else c1)"
      have "?B = Some (Iter it, c2)" using None l True it(1) by (simp add: BlockReader_def h ok rb block_key_def c2_def)
      moreover have "cache_serves cops cainv held K cs t c2"
      proof (cases "scratch \<and> fill_cache")
        case ins: True
        then have e: "ca_Insert cops (block_key t ?h) (opened K (cs ! i)) (tb_size (opened K (cs ! i))) c1 = c2" by (simp add: c2_def)
        have "cainv c1" using lk by blast
        note in2 = sound_cache.insert [OF sc(1) this e]
        have "b = opened K (cs ! j)" if "j < length cs" "held c2 (block_key t (chunk_handle K cs j)) b" for j b
        proof (cases "held c1 (block_key t (chunk_handle K cs j)) b")
          case True
          then show ?thesis using right [OF that(1)] lk by blast
        next
          case False
          then have "block_key t (chunk_handle K cs j) = block_key t ?h" "b = opened K (cs ! i)" using in2 that(2) by blast+
          then show ?thesis using chunk_offset_inj [OF table_over_length [OF assms(1)] that(1) assms(3)] block_key_inj by metis
        qed
        then show ?thesis using in2 sc(1) by (auto simp: cache_serves_def)
      qed (use c1 in \<open>auto simp: c2_def\<close>)
      ultimately show ?thesis using it(2) by blast
    qed
  qed
qed

section \<open>The contract of the table iterator\<close>

text \<open>All that makes a table one over the blocks \<open>cs\<close>, with the state of its cache.\<close>

context comparator
begin

definition serving :: "(TableBlock, 'c) cache_ops \<Rightarrow> ('c \<Rightarrow> bool) \<Rightarrow> ('c \<Rightarrow> bytes \<Rightarrow> TableBlock \<Rightarrow> bool) \<Rightarrow> bool \<Rightarrow> nat \<Rightarrow> entry list list \<Rightarrow> bytes list \<Rightarrow>
    table \<Rightarrow> 'c \<Rightarrow> bool" where
  "serving cops cainv held scratch K cs seps t c \<longleftrightarrow> table_over compare scratch K cs seps t \<and> cache_serves cops cainv held K cs t c \<and>
     sorted_entries (concat cs) \<and> separates cs seps"

definition block_inv :: "nat \<Rightarrow> entry list \<Rightarrow> table_iter \<Rightarrow> bool" where
  "block_inv K es = ti_inv (\<lambda>it. sorted_entries es \<and> bi_inv K es it)"

lemma block_op_iterator: "op_iterator (table_iter_ops compare) es ok (\<lambda>k t. compare k t < 0) (block_inv K es) (ti_pos (bi_pos K es))"
  unfolding block_inv_def by (rule table_iterator) (rule block_iterator)

lemma serving_order:
  assumes "serving cops cainv held scratch K cs seps t c"
  shows "separates cs seps" "length seps = length cs" "[] \<notin> set cs" "sorted_entries (concat cs)"
    and "length (chunk_bytes K cs) < 2 ^ 64"
  using assms table_over_length by (auto simp: serving_def table_over_def)

lemma serving_chunk:
  assumes "serving cops cainv held scratch K cs seps t c" and "i < length (index_entries K cs seps)"
  shows "i < length cs" "snd (index_entries K cs seps ! i) = handle_bytes (chunk_handle K cs i)"
    "fst (index_entries K cs seps ! i) = seps ! i"
    "chunk_of K cs (snd (index_entries K cs seps ! i)) = cs ! i"
  using assms(2) serving_order [OF assms(1)] chunk_of_handle [of K cs i] by (simp_all add: nth_index_entries)

lemma serving_block:
  assumes "serving cops cainv held scratch K cs seps t c" and "i < length (index_entries K cs seps)"
  shows "\<exists>d c'. BlockReader sn junk cops t verify fill_cache (snd (index_entries K cs seps ! i)) c = Some (d, c') \<and>
    block_inv K (cs ! i) d \<and> serving cops cainv held scratch K cs seps t c'"
proof -
  note ch = serving_chunk [OF assms]
  have t: "table_over compare scratch K cs seps t" "cache_serves cops cainv held K cs t c" using assms(1) by (auto simp: serving_def)
  obtain it c' where it: "BlockReader sn junk cops t verify fill_cache (handle_bytes (chunk_handle K cs i)) c = Some (Iter it, c')"
      "at_end K (cs ! i) it" "cache_serves cops cainv held K cs t c'"
    using BlockReader_chunk [OF t ch(1)] by blast
  moreover have "block_inv K (cs ! i) (Iter it)"
    using at_end_pos [OF it(2)] chunks_sorted(1) [OF serving_order(4) [OF assms(1)] ch(1)] by (simp add: block_inv_def ti_inv_def)
  moreover have "serving cops cainv held scratch K cs seps t c'" using assms(1) it(3) by (simp add: serving_def)
  ultimately show ?thesis unfolding ch(2) by blast
qed

theorem table_levels:
  "two_level_contract (table_iter_ops compare) (index_entries K cs seps) ok (\<lambda>k t. compare k t < 0)
     (block_inv 1 (index_entries K cs seps)) (ti_pos (bi_pos 1 (index_entries K cs seps)))
     (table_iter_ops compare) (BlockReader sn junk cops t verify fill_cache) (chunk_of K cs) (\<lambda>k t. compare k t < 0)
     (\<lambda>h. block_inv K (chunk_of K cs h)) (\<lambda>h. ti_pos (bi_pos K (chunk_of K cs h)))
     (serving cops cainv held scratch K cs seps t)"
proof (intro two_level_contract.intro two_level_contract_axioms.intro block_op_iterator)
  fix h c assume h: "h \<in> snd ` set (index_entries K cs seps)" and c: "serving cops cainv held scratch K cs seps t c"
  then obtain i where "i < length (index_entries K cs seps)" "h = snd (index_entries K cs seps ! i)" by (auto simp: in_set_conv_nth)
  with serving_block [OF c] serving_chunk(4) [OF c]
  show "\<exists>d c'. BlockReader sn junk cops t verify fill_cache h c = Some (d, c') \<and> block_inv K (chunk_of K cs h) d \<and>
      serving cops cainv held scratch K cs seps t c'" by metis
next
  fix c j target e assume c: "serving cops cainv held scratch K cs seps t c" and j: "j < length (index_entries K cs seps)" and "ok target"
    and "compare (fst (index_entries K cs seps ! j)) target < 0" and "e \<in> set (chunk_of K cs (snd (index_entries K cs seps ! j)))"
  then have a: "compare (seps ! j) target < 0" "e \<in> set (cs ! j)" using serving_chunk [OF c j] by simp_all
  note s = serving_order [OF c] and ch = serving_chunk(1) [OF c j]
  show "compare (fst e) target < 0"
    using compare_le_less_trans [OF chunk_ok [OF s(4) ch a(2)] sep_order(1) [OF s(1-4) ch] \<open>ok target\<close> sep_order(2) [OF s(1-4) ch a(2)] a(1)] .
next
  fix c i j target e assume c: "serving cops cainv held scratch K cs seps t c" and ij: "i < j" and j: "j < length (index_entries K cs seps)"
    and "ok target" and n: "\<not> compare (fst (index_entries K cs seps ! i)) target < 0" and e: "e \<in> set (chunk_of K cs (snd (index_entries K cs seps ! j)))"
  have i: "i < length (index_entries K cs seps)" using ij j by simp
  note s = serving_order [OF c] and ch = serving_chunk(1) [OF c i] serving_chunk(1) [OF c j]
  have e: "e \<in> set (cs ! j)" and n: "\<not> compare (seps ! i) target < 0" using e n serving_chunk [OF c j] serving_chunk [OF c i] by simp_all
  show "\<not> compare (fst e) target < 0"
    using compare_trans [OF sep_order(1) [OF s(1-4) ch(1)] chunk_ok [OF s(4) ch(2) e] \<open>ok target\<close> sep_order(3) [OF s(1-4) ij ch(2) e]] n by blast
qed

end

interpretation table_blocks: two_level_contract "table_iter_ops (InternalKey_Compare Slice_compare)" "index_entries K cs seps"
    "internal_ok (\<lambda>_. True)" "\<lambda>k t. InternalKey_Compare Slice_compare k t < 0"
    "internal.block_inv 1 (index_entries K cs seps)" "ti_pos (bi_pos 1 (index_entries K cs seps))"
    "table_iter_ops (InternalKey_Compare Slice_compare)" "BlockReader sn junk cops t verify fill_cache" "chunk_of K cs"
    "\<lambda>k t. InternalKey_Compare Slice_compare k t < 0" "\<lambda>h. internal.block_inv K (chunk_of K cs h)"
    "\<lambda>h. ti_pos (bi_pos K (chunk_of K cs h))" "internal.serving cops cainv held scratch K cs seps t"
  for K cs seps sn junk cops t verify fill_cache cainv held scratch
  by (rule internal.table_levels)

section \<open>Opening and iterating\<close>

lemma file_parts:
  "finished_file K cs seps = (chunk_bytes K cs @ raw_block (built K []) 0) @ raw_block (built 1 (index_entries K cs seps)) 0 @
     drop (length (finished_file K cs seps) - kEncodedLength) (finished_file K cs seps)"
  "drop (length (finished_file K cs seps) - kEncodedLength) (finished_file K cs seps) =
     Footer_EncodeTo [] \<lparr>ft_metaindex = \<lparr>bh_offset = of_nat (length (chunk_bytes K cs)), bh_size = of_nat (length (built K []))\<rparr>,
        ft_index = \<lparr>bh_offset = of_nat (length (chunk_bytes K cs @ raw_block (built K []) 0)),
          bh_size = of_nat (length (built 1 (index_entries K cs seps)))\<rparr>\<rparr>"
  by (simp_all add: finished_file_def Let_def length_Footer_EncodeTo)

lemma Table_Open_finished:
  assumes "reads (finished_file K cs seps) scratch read" and "length (finished_file K cs seps) < 2 ^ 32"
    and "op_filter_policy opt = None" and "0 < K" and "length seps = length cs" and "[] \<notin> set cs"
    and "list_all (\<lambda>(k, v). length k < 2 ^ 32) (concat cs)"
  shows "\<exists>t c'. Table_Open sn junk cops opt read (of_nat (length (finished_file K cs seps))) c = Some (OK, Some t, c') \<and>
    table_over (cm_compare (op_comparator opt)) scratch K cs seps t \<and> ta_options t = opt \<and>
    bh_offset (ta_metaindex t) = of_nat (length (chunk_bytes K cs)) \<and>
    (if op_block_cache opt then ca_NewId cops c = (ta_cache_id t, c') else c' = c)"
proof -
  let ?file = "finished_file K cs seps" and ?ies = "index_entries K cs seps"
  let ?a = "chunk_bytes K cs @ raw_block (built K []) 0"
  let ?m = "\<lparr>bh_offset = of_nat (length (chunk_bytes K cs)), bh_size = of_nat (length (built K []))\<rparr>"
  let ?i = "\<lparr>bh_offset = of_nat (length ?a), bh_size = of_nat (length (built 1 ?ies))\<rparr>"
  have k: "kEncodedLength = 48" by (simp add: kEncodedLength_def kMaxEncodedLength_def)
  have l: "48 \<le> length ?file" by (simp add: length_finished)
  then have "(of_nat (length ?file) :: u64) - of_nat kEncodedLength = of_nat (length ?file - 48)" by (simp add: k)
  moreover have "unat (of_nat (length ?file - 48) :: u64) = length ?file - 48" using assms(2) by (simp add: unat_of_nat)
  ultimately have f: "read (of_nat (length ?file) - of_nat kEncodedLength) (of_nat kEncodedLength) =
      (OK, Footer_EncodeTo [] \<lparr>ft_metaindex = ?m, ft_index = ?i\<rparr>, scratch)"
    using assms(1) file_parts(2) [of K cs seps] length_Footer_EncodeTo [of "\<lparr>ft_metaindex = ?m, ft_index = ?i\<rparr>"]
    by (simp add: reads_def k)
  have "\<not> (of_nat (length ?file) :: u64) < of_nat kEncodedLength"
    using l assms(2) by (simp add: k word_less_nat_alt unat_of_nat)
  moreover note Footer_DecodeFrom_put [of "\<lparr>ft_metaindex = ?m, ft_index = ?i\<rparr>" "[]" new_Footer]
  moreover have rb: "ReadBlock sn read (op_paranoid_checks opt) ?i =
      Some (OK, \<lparr>bc_data = built 1 ?ies, bc_cachable = scratch, bc_heap_allocated = scratch\<rparr>)"
    by (rule ReadBlock_at [OF assms(1) file_parts(1)]) (use assms(2) in simp)
  moreover obtain i c' where ic: "(if op_block_cache opt then ca_NewId cops c else (0, c)) = (i, c')" by force
  moreover define t where "t = \<lparr>ta_options = opt, ta_read = read, ta_cache_id = i, ta_filter = None,
      ta_metaindex = ?m, ta_index_block = opened 1 ?ies\<rparr>"
  moreover have to: "table_over (cm_compare (op_comparator opt)) scratch K cs seps t"
    using assms by (simp add: table_over_def t_def table_cmp_def)
  moreover have "mk_TableBlock junk (built 1 ?ies) = Some (opened 1 ?ies)"
    by (rule open_built(1) [OF wf_index [OF to]])
  ultimately have "Table_Open sn junk cops opt read (of_nat (length ?file)) c = Some (OK, Some t, c')"
    using assms(3) unfolding Table_Open_def f by (simp add: Status_ok_def ReadMeta_def)
  with to ic show ?thesis by (auto simp: t_def split: if_splits)
qed

context comparator
begin

lemma serving_entries:
  assumes "serving cops cainv held scratch K cs seps t c"
  shows "two_level_contract.all_entries (index_entries K cs seps) (chunk_of K cs) = concat cs"
proof -
  note s = serving_order [OF assms]
  have "map (\<lambda>e. chunk_of K cs (snd e)) (index_entries K cs seps) = cs"
    using s(2) serving_chunk(4) [OF assms] by (intro nth_equalityI) simp_all
  then show ?thesis by (simp add: two_level_contract.all_entries_def [OF table_levels])
qed

text \<open>The iterator over a table is one over the entries of its blocks.\<close>

theorem table_iterates:
  assumes "serving cops cainv held scratch K cs seps t c"
  shows "\<exists>it inv pos. Table_NewIterator t c = Some it \<and> inv it \<and>
    op_iterator (table_ops sn junk cops t verify fill_cache) (concat cs) ok (\<lambda>k t. compare k t < 0) inv pos"
proof -
  let ?ies = "index_entries K cs seps"
  have to: "table_over compare scratch K cs seps t" using assms by (simp add: serving_def)
  then have tc: "table_cmp t = compare" "ta_index_block t = opened 1 ?ies" by (simp_all add: table_over_def)
  obtain b where b: "NewIterator (opened 1 ?ies) = Some (Iter b)" "at_end 1 ?ies b" using open_built(2) [OF wf_index [OF to]] by blast
  have "block_inv 1 ?ies (Iter b)"
    using at_end_pos [OF b(2)] index_sorted [OF serving_order(1-4) [OF assms]] by (simp add: block_inv_def ti_inv_def)
  from op_iterator.Update_winv [OF block_op_iterator this] obtain w where
    w: "iw_Update (table_iter_ops compare) (Iter b) new_wrapper = Some w"
      "op_iterator.winv (table_iter_ops compare) (block_inv 1 ?ies) w" by blast
  define it where "it = \<lparr>tl_arg = c, tl_status = OK, tl_index = w, tl_data = (new_wrapper :: table_iter wrapper), tl_handle = []\<rparr>"
  have "Table_NewIterator t c = Some it"
    using b(1) w(1) by (simp add: Table_NewIterator_def tc new_two_level_def iw_Set_def it_def)
  note tl = table_levels [of K cs seps sn junk cops t verify fill_cache cainv held scratch]
  have "two_level_contract.ended (table_iter_ops compare) (block_inv 1 ?ies) (serving cops cainv held scratch K cs seps t) it"
    unfolding two_level_contract.ended_def [OF tl] two_level_contract.base_def [OF tl]
    using assms w(2) by (simp add: it_def new_wrapper_def)
  note inv = two_level_contract.ended_inv [OF tl this]
  have "op_iterator (table_ops sn junk cops t verify fill_cache) (concat cs) ok (\<lambda>k t. compare k t < 0)
      (two_level_contract.tl_inv (table_iter_ops compare) ?ies (block_inv 1 ?ies) (ti_pos (bi_pos 1 ?ies)) (table_iter_ops compare)
        (chunk_of K cs) (\<lambda>h. block_inv K (chunk_of K cs h)) (\<lambda>h. ti_pos (bi_pos K (chunk_of K cs h))) (serving cops cainv held scratch K cs seps t))
      (two_level_contract.tl_pos ?ies (ti_pos (bi_pos 1 ?ies)) (chunk_of K cs) (\<lambda>h. ti_pos (bi_pos K (chunk_of K cs h))))"
    using two_level_contract.two_level [OF tl] unfolding serving_entries [OF assms] table_ops_def tc(1) .
  with inv \<open>Table_NewIterator t c = Some it\<close> show ?thesis by blast
qed

text \<open>Looking one key up.\<close>

lemma block_seek:
  assumes "block_inv K es it" and "ok k"
  shows "\<exists>it'. io_seek (table_iter_ops compare) k it = Some it' \<and> io_status (table_iter_ops compare) it' = OK \<and>
    (case dropWhile (\<lambda>e. compare (fst e) k < 0) es of [] \<Rightarrow> \<not> io_valid (table_iter_ops compare) it'
     | e # _ \<Rightarrow> io_valid (table_iter_ops compare) it' \<and> io_key (table_iter_ops compare) it' = Some (fst e) \<and>
         io_value (table_iter_ops compare) it' = Some (snd e))"
proof -
  note o = block_op_iterator [of es K]
  note ol = op_iterator_def [THEN meta_eq_to_obj_eq, THEN iffD1, OF o]
  let ?i = "length (takeWhile (\<lambda>e. compare (fst e) k < 0) es)"
  obtain it' where it': "io_seek (table_iter_ops compare) k it = Some it'" "block_inv K es it'" "ti_pos (bi_pos K es) it' = ?i"
    using iterator.seek_pos [OF ol assms] by blast
  have v: "io_valid (table_iter_ops compare) it' \<longleftrightarrow> ?i < length es" using iterator.valid_pos [OF ol it'(2)] it'(3) by simp
  have "io_status (table_iter_ops compare) it' = OK"
    using it'(2) bi_inv_base by (auto simp: block_inv_def ti_inv_def table_iter_ops_def base_def split: table_iter.splits)
  moreover have "dropWhile (\<lambda>e. compare (fst e) k < 0) es = (if ?i < length es then es ! ?i # drop (Suc ?i) es else [])"
    by (simp add: dropWhile_eq_drop Cons_nth_drop_Suc)
  ultimately show ?thesis using it'(1,3) v op_iterator.key_pos [OF o it'(2)] by auto
qed

text \<open>The entry that a lookup passes on: the first in the block that the index names.\<close>

definition get_entry :: "entry list list \<Rightarrow> bytes list \<Rightarrow> bytes \<Rightarrow> entry option" where
  "get_entry cs seps k =
     (let i = length (takeWhile (\<lambda>s. compare s k < 0) seps) in
      if i < length cs then (case dropWhile (\<lambda>e. compare (fst e) k < 0) (cs ! i) of [] \<Rightarrow> None | e # _ \<Rightarrow> Some e) else None)"

lemma dropWhile_index:
  "dropWhile (\<lambda>e. compare (fst e) k < 0) (index_entries K cs seps) =
    (let i = length (takeWhile (\<lambda>s. compare s k < 0) seps) in
     if i < length seps then (seps ! i, handle_bytes (chunk_handle K cs i)) # drop (Suc i) (index_entries K cs seps) else [])"
proof -
  let ?ies = "index_entries K cs seps"
  have m: "map fst ?ies = seps" by (simp add: index_entries_def o_def map_nth)
  have "takeWhile (\<lambda>s. compare s k < 0) (map fst ?ies) = map fst (takeWhile (\<lambda>e. compare (fst e) k < 0) ?ies)"
    by (simp add: takeWhile_map o_def)
  then have "length (takeWhile (\<lambda>e. compare (fst e) k < 0) ?ies) = length (takeWhile (\<lambda>s. compare s k < 0) seps)"
    unfolding m by simp
  then show ?thesis
    by (simp add: dropWhile_eq_drop Let_def Cons_nth_drop_Suc [symmetric] nth_index_entries del: Cons_nth_drop_Suc)
qed

lemma InternalGet_at:
  assumes "serving cops cainv held scratch K cs seps t c" and "ok k"
  shows "\<exists>c'. InternalGet sn junk cops t verify fill_cache k arg handle_result c =
      Some (OK, case get_entry cs seps k of None \<Rightarrow> arg | Some (k', v) \<Rightarrow> handle_result arg k' v, c') \<and>
    serving cops cainv held scratch K cs seps t c'"
proof -
  let ?ies = "index_entries K cs seps" and ?i = "length (takeWhile (\<lambda>s. compare s k < 0) seps)" and ?ops = "table_iter_ops compare"
  have to: "table_over compare scratch K cs seps t" using assms(1) by (simp add: serving_def)
  then have tc: "table_cmp t = compare" "ta_index_block t = opened 1 ?ies" "ta_filter t = None" by (simp_all add: table_over_def)
  note s = serving_order [OF assms(1)]
  obtain b where b: "NewIterator (opened 1 ?ies) = Some (Iter b)" "at_end 1 ?ies b" using open_built(2) [OF wf_index [OF to]] by blast
  have "block_inv 1 ?ies (Iter b)" using at_end_pos [OF b(2)] index_sorted [OF s(1-4)] by (simp add: block_inv_def ti_inv_def)
  from block_seek [OF this assms(2)] obtain ii where ii: "io_seek ?ops k (Iter b) = Some ii" "io_status ?ops ii = OK"
    "case dropWhile (\<lambda>e. compare (fst e) k < 0) ?ies of [] \<Rightarrow> \<not> io_valid ?ops ii
     | e # _ \<Rightarrow> io_valid ?ops ii \<and> io_key ?ops ii = Some (fst e) \<and> io_value ?ops ii = Some (snd e)" by blast
  have f: "filtered_out t h k = Some False" for h by (simp add: filtered_out_def tc(3))
  have ok: "Status_ok OK" by (simp add: Status_ok_def)
  show ?thesis
  proof (cases "?i < length seps")
    case False
    then show ?thesis using ii b(1) s(2) assms(1)
      by (simp add: dropWhile_index InternalGet_def tc ok get_entry_def)
  next
    case True
    then have iv: "io_valid ?ops ii" "io_value ?ops ii = Some (handle_bytes (chunk_handle K cs ?i))"
      using ii(3) by (simp_all add: dropWhile_index Let_def)
    have i: "?i < length ?ies" using True by simp
    from serving_block [OF assms(1) i] obtain d c' where d: "BlockReader sn junk cops t verify fill_cache (handle_bytes (chunk_handle K cs ?i)) c = Some (d, c')"
      "block_inv K (cs ! ?i) d" "serving cops cainv held scratch K cs seps t c'" unfolding serving_chunk(2) [OF assms(1) i] by blast
    from block_seek [OF d(2) assms(2)] obtain d' where d': "io_seek ?ops k d = Some d'" "io_status ?ops d' = OK"
      "case dropWhile (\<lambda>e. compare (fst e) k < 0) (cs ! ?i) of [] \<Rightarrow> \<not> io_valid ?ops d'
       | e # _ \<Rightarrow> io_valid ?ops d' \<and> io_key ?ops d' = Some (fst e) \<and> io_value ?ops d' = Some (snd e)" by blast
    have g: "get_entry cs seps k = (case dropWhile (\<lambda>e. compare (fst e) k < 0) (cs ! ?i) of [] \<Rightarrow> None | e # _ \<Rightarrow> Some e)"
      using True s(2) by (simp add: get_entry_def)
    have "InternalGet sn junk cops t verify fill_cache k arg handle_result c =
        Some (OK, case get_entry cs seps k of None \<Rightarrow> arg | Some (k', v) \<Rightarrow> handle_result arg k' v, c')"
      unfolding InternalGet_def tc b(1) g Let_def bind.bind_lunit ii(1) if_P [OF iv(1)] iv(2) f if_False d(1)
      using d'(1-3) ii(2) by (cases "dropWhile (\<lambda>e. compare (fst e) k < 0) (cs ! ?i)") (simp_all add: ok split_beta del: dropWhile_eq_Nil_conv)
    with d(3) show ?thesis by blast
  qed
qed

lemma get_entry_found:
  assumes "separates cs seps" and "length seps = length cs" and "[] \<notin> set cs" and "sorted_entries (concat cs)" and "ok k"
  shows "case dropWhile (\<lambda>e. compare (fst e) k < 0) (concat cs) of [] \<Rightarrow> get_entry cs seps k = None
    | d # _ \<Rightarrow> get_entry cs seps k = Some d \<or> get_entry cs seps k = None \<and>
        (\<exists>i. Suc i < length cs \<and> compare (fst (last (cs ! i))) k < 0 \<and> compare k (seps ! i) \<le> 0 \<and> d = hd (cs ! Suc i))"
proof -
  let ?P = "\<lambda>e :: entry. compare (fst e) k < 0" and ?i = "length (takeWhile (\<lambda>s. compare s k < 0) seps)"
  note o = sep_order [OF assms(1-4)]
  have "compare (seps ! j) k < 0" if "j < ?i" for j
    using that nth_mem [OF that] set_takeWhileD [of "takeWhile (\<lambda>s. compare s k < 0) seps ! j"] by (metis takeWhile_nth)
  then have "?P e" if "j < ?i" "j < length cs" "e \<in> set (cs ! j)" for j e
    using compare_le_less_trans [OF chunk_ok [OF assms(4) that(2,3)] o(1) [OF that(2)] assms(5) o(2) [OF that(2,3)]] that(1) by blast
  then have pre: "\<forall>e \<in> set (concat (take ?i cs)). ?P e" by (fastforce simp: in_set_conv_nth)
  show ?thesis
  proof (cases "?i < length cs")
    case False
    then have "take ?i cs = cs" by simp
    then have "dropWhile ?P (concat cs) = []" using pre by (simp add: dropWhile_eq_Nil_conv)
    with False show ?thesis by (simp add: get_entry_def del: dropWhile_eq_Nil_conv)
  next
    case True
    have n: "\<not> compare (seps ! ?i) k < 0" using True assms(2) nth_length_takeWhile by metis
    note c = concat_at [OF True]
    have d: "dropWhile ?P (concat cs) = dropWhile ?P (cs ! ?i @ concat (drop (Suc ?i) cs))"
      unfolding arg_cong [OF c, of "dropWhile ?P"] by (rule dropWhile_append2) (use pre in blast)
    show ?thesis
    proof (cases "dropWhile ?P (cs ! ?i)")
      case (Cons e es)
      then have "\<not> (\<forall>e \<in> set (cs ! ?i). ?P e)" by (simp flip: dropWhile_eq_Nil_conv)
      then have "dropWhile ?P (concat cs) = e # es @ concat (drop (Suc ?i) cs)"
        unfolding d dropWhile_append by (simp only: if_False Cons append_Cons)
      moreover have "get_entry cs seps k = Some e" using True Cons by (simp add: get_entry_def)
      ultimately show ?thesis by simp
    next
      case Nil
      then have all: "\<forall>e \<in> set (cs ! ?i). ?P e" by (simp add: dropWhile_eq_Nil_conv)
      have "\<not> ?P e" if e: "e \<in> set (concat (drop (Suc ?i) cs))" for e
      proof -
        obtain x where x: "x \<in> set (drop (Suc ?i) cs)" "e \<in> set x" using e by auto
        then obtain m where m: "m < length cs - Suc ?i" "x = drop (Suc ?i) cs ! m" by (auto simp: in_set_conv_nth)
        then have j: "?i < Suc ?i + m" "Suc ?i + m < length cs" "e \<in> set (cs ! (Suc ?i + m))" using x(2) by auto
        show ?thesis
          using compare_trans [OF o(1) [OF True] chunk_ok [OF assms(4) j(2,3)] assms(5) o(3) [OF j]] n by blast
      qed
      then have "dropWhile ?P (concat (drop (Suc ?i) cs)) = concat (drop (Suc ?i) cs)" by (metis dropWhile_eq_self_iff hd_in_set)
      then have D: "dropWhile ?P (concat cs) = concat (drop (Suc ?i) cs)" unfolding d using all dropWhile_append2 [of "cs ! ?i" ?P "concat (drop (Suc ?i) cs)"] by simp
      have g: "get_entry cs seps k = None" using True Nil by (simp add: get_entry_def del: dropWhile_eq_Nil_conv)
      show ?thesis
      proof (cases "Suc ?i < length cs")
        case False
        then show ?thesis using D g by (simp del: dropWhile_eq_Nil_conv)
      next
        case s: True
        have "cs ! Suc ?i \<noteq> []" "cs ! ?i \<noteq> []" using assms(3) nth_mem [OF s] nth_mem [OF True] by metis+
        then have "concat (drop (Suc ?i) cs) = hd (cs ! Suc ?i) # tl (cs ! Suc ?i) @ concat (drop (Suc (Suc ?i)) cs)"
          using s by (simp add: Cons_nth_drop_Suc [symmetric])
        moreover have "compare (fst (last (cs ! ?i))) k < 0" using all \<open>cs ! ?i \<noteq> []\<close> by simp
        moreover have "compare k (seps ! ?i) \<le> 0" using n compare_not_less [OF o(1) [OF True] assms(5)] by blast
        ultimately show ?thesis using D g s by (auto simp del: dropWhile_eq_Nil_conv)
      qed
    qed
  qed
qed

text \<open>A key that falls behind a block but not behind its index key has no entry in the next one.\<close>

lemma internal_gap:
  assumes "internal_ok ok a" "internal_ok ok b" "internal_ok ok k" and "InternalKey_Compare compare a b < 0"
    and "InternalKey_Compare compare a k < 0" and "InternalKey_Compare compare k (InternalKey_FindShortestSeparator compare separator a b) \<le> 0"
  shows "ExtractUserKey k \<noteq> ExtractUserKey b"
proof
  assume eq: "ExtractUserKey k = ExtractUserKey b"
  obtain u n where a: "a = u @ word_le 8 (n :: u64)" "ok u" using assms(1) by (rule internal_keyE)
  obtain v m where b: "b = v @ word_le 8 (m :: u64)" "ok v" using assms(2) by (rule internal_keyE)
  obtain w l where k: "k = w @ word_le 8 (l :: u64)" "ok w" using assms(3) by (rule internal_keyE)
  have w: "w = v" using eq b k by simp
  let ?t = "separator u v"
  show False
  proof (cases "length ?t < length u \<and> compare u ?t < 0")
    case True
    have "u \<noteq> v" using True separator_same a(2) by auto
    then have "compare u v < 0" using assms(4) a b by (simp add: InternalKey_Compare_append compare_0 split: if_splits)
    from separator [OF a(2) b(2) this] have t: "ok ?t" "compare ?t v < 0" by auto
    then have "compare v ?t > 0" using compare_sym b(2) by blast
    moreover have "InternalKey_FindShortestSeparator compare separator a b = ?t @ word_le 8 (PackSequenceAndType kMaxSequenceNumber kValueTypeForSeek)"
      using True a b by (simp add: InternalKey_FindShortestSeparator_def Let_def Put_append)
    ultimately show False using assms(6) k w by (simp add: InternalKey_Compare_append split: if_splits)
  next
    case False
    then have "InternalKey_FindShortestSeparator compare separator a b = a"
      using a b by (auto simp: InternalKey_FindShortestSeparator_def Let_def)
    then show False using assms(5,6) internal_sym [OF assms(1,3)] by simp
  qed
qed

end

end
