(* ===== verification/Ldb_Table_Roundtrip.thy ===== *)
theory Ldb_Table_Roundtrip
  imports Ldb_Table_Contract
begin

text \<open>
  Tables from end to end: the entries that are added to a builder are those that the table iterates
  over, seeks in and looks up when it is opened on the finished file.
\<close>

section \<open>Building and opening\<close>

text \<open>The comparator of internal keys over the byte-wise one (\<^verbatim>\<open>InternalKeyComparator\<close>), at some address.\<close>

definition internal_key_ops :: "nat \<Rightarrow> comparator_ops" where
  "internal_key_ops address =
     \<lparr>cm_address = address, cm_compare = InternalKey_Compare Slice_compare,
      cm_separator = InternalKey_FindShortestSeparator Slice_compare FindShortestSeparator,
      cm_successor = InternalKey_FindShortSuccessor Slice_compare FindShortSuccessor\<rparr>"

definition build_table ::
    "(bytes \<Rightarrow> bytes option) \<Rightarrow> table_options \<Rightarrow> writable_file \<Rightarrow> entry list \<Rightarrow> (Status \<times> TableBuilder) option" where
  "build_table compress opt f es = do {
     r \<leftarrow> new_TableBuilder opt f;
     r \<leftarrow> table_adds compress es r;
     Table_Finish compress r
   }"

definition stored_file :: "bool \<Rightarrow> bytes \<Rightarrow> read_file" where
  "stored_file scratch c offs n = (OK, take (unat n) (drop (unat offs) c), scratch)"

text \<open>A block cache, if there is one, returns only what was put into it, and is empty.\<close>

definition cache_ready ::
    "(TableBlock, 'c) cache_ops \<Rightarrow> ('c \<Rightarrow> bool) \<Rightarrow> ('c \<Rightarrow> bytes \<Rightarrow> TableBlock \<Rightarrow> bool) \<Rightarrow> table_options \<Rightarrow> 'c \<Rightarrow> bool" where
  "cache_ready cops cainv held opt c \<longleftrightarrow> (op_block_cache opt \<longrightarrow> sound_cache cops cainv held \<and> cainv c \<and> (\<forall>k b. \<not> held c k b))"

lemma reads_stored: "reads c scratch (stored_file scratch c)"
  by (simp add: reads_def stored_file_def)

context comparator
begin

lemma built_serving:
  assumes "plain_options compress opt" and "sorted_entries es" and "wf_outcomes f = []" and "wf_content f = []"
    and "list_all (\<lambda>(k, v). length k < 2 ^ 32) es"
  shows "\<exists>r cs seps. build_table compress opt f es = Some (OK, r) \<and> concat cs = es \<and> length seps = length cs \<and> [] \<notin> set cs \<and>
    separates cs seps \<and> wf_content (tr_file r) = finished_file (op_restart_interval opt) cs seps \<and>
    (\<forall>c. length (wf_content (tr_file r)) < 2 ^ 32 \<longrightarrow> cache_ready cops cainv held opt c \<longrightarrow>
      (\<exists>t c'. Table_Open sn junk cops opt (stored_file scratch (wf_content (tr_file r))) (Table_FileSize r) c = Some (OK, Some t, c') \<and>
         serving cops cainv held scratch (op_restart_interval opt) cs seps t c'))"
proof -
  let ?K = "op_restart_interval opt"
  obtain r1 r2 r cs seps where b: "new_TableBuilder opt f = Some r1" "table_adds compress es r1 = Some r2" "Table_Finish compress r2 = Some (OK, r)"
      "concat cs = es" "[] \<notin> set cs" "length seps = length cs" "separates cs seps"
      "wf_content (tr_file r) = finished_file ?K cs seps" "Table_FileSize r = of_nat (length (wf_content (tr_file r)))"
    using built_table [OF assms(1-4)] by blast
  have opens: "\<exists>t c'. Table_Open sn junk cops opt (stored_file scratch (wf_content (tr_file r))) (Table_FileSize r) c = Some (OK, Some t, c') \<and>
      serving cops cainv held scratch ?K cs seps t c'"
    if l: "length (wf_content (tr_file r)) < 2 ^ 32" and ready: "cache_ready cops cainv held opt c" for c
  proof -
    have o: "op_filter_policy opt = None" "0 < ?K" "cm_compare (op_comparator opt) = compare"
      using assms(1) by (auto simp: plain_options_def)
    obtain t c' where t: "Table_Open sn junk cops opt (stored_file scratch (wf_content (tr_file r))) (Table_FileSize r) c = Some (OK, Some t, c')"
      "table_over (cm_compare (op_comparator opt)) scratch ?K cs seps t" "ta_options t = opt"
      "if op_block_cache opt then ca_NewId cops c = (ta_cache_id t, c') else c' = c"
      using Table_Open_finished [OF reads_stored [of _ scratch] l [unfolded b(8)] o(1,2) b(6,5), of sn junk cops c] assms(5)
      unfolding b(4,8,9) by blast
    have "cache_serves cops cainv held ?K cs t c'"
    proof (cases "op_block_cache opt")
      case True
      then have s: "sound_cache cops cainv held" "cainv c" "\<And>k b. \<not> held c k b" using ready by (auto simp: cache_ready_def)
      from True t(4) have "ca_NewId cops c = (ta_cache_id t, c')" by simp
      from sound_cache.new_id [OF s(1,2) this] s show ?thesis by (auto simp: cache_serves_def)
    qed (use t(3) in \<open>simp add: cache_serves_def\<close>)
    then show ?thesis using t(1,2) o(3) assms(2) b(4,7) by (auto simp: serving_def)
  qed
  have build: "build_table compress opt f es = Some (OK, r)" by (simp add: build_table_def b(1-3))
  show ?thesis
    by (rule exI [of _ r], rule exI [of _ cs], rule exI [of _ seps]) (intro conjI allI impI build b(4-8) opens; assumption)
qed

lemma serving_no_filter: "serving cops cainv held scratch K cs seps t c \<Longrightarrow> ta_filter t = None"
  by (simp add: serving_def table_over_def)

lemma serving_scans:
  assumes "serving cops cainv held scratch K cs seps t c" and "ok target"
  shows "\<exists>it. let ops = table_ops sn junk cops t verify fill_cache; scan = drain (io_valid ops) (io_entry ops) in
    Table_NewIterator t c = Some it \<and>
    do { it \<leftarrow> io_first ops it; scan (io_next ops) it } = Some (concat cs) \<and>
    do { it \<leftarrow> io_last ops it; scan (io_prev ops) it } = Some (rev (concat cs)) \<and>
    do { it \<leftarrow> io_seek ops target it; scan (io_next ops) it } = Some (dropWhile (\<lambda>e. compare (fst e) target < 0) (concat cs))"
proof -
  obtain it inv pos where it: "Table_NewIterator t c = Some it" "inv it"
    "op_iterator (table_ops sn junk cops t verify fill_cache) (concat cs) ok (\<lambda>k t. compare k t < 0) inv pos"
    using table_iterates [OF assms(1), of sn junk verify fill_cache] by (elim exE conjE)
  note o = op_iterator_def [THEN meta_eq_to_obj_eq, THEN iffD1, OF it(3)]
  show ?thesis
    unfolding Let_def
    by (intro exI [of _ it] conjI it(1) iterator.scan_forward [OF o it(2)] iterator.scan_backward [OF o it(2)]
        iterator.scan_from [OF o it(2) assms(2)])
qed

end

text \<open>The options under which the properties hold.\<close>

definition plain_table :: "(bytes \<Rightarrow> bytes option) \<Rightarrow> table_options \<Rightarrow> bool" where
  "plain_table compress opt \<longleftrightarrow> (\<exists>address. op_comparator opt = internal_key_ops address) \<and> op_filter_policy opt = None \<and>
     stores_raw compress opt \<and> 0 < op_restart_interval opt"

lemma plain_internal: "plain_table compress opt \<Longrightarrow> internal.plain_options compress opt"
  by (auto simp: plain_table_def internal.plain_options_def internal_key_ops_def)

definition table_entries :: "entry list \<Rightarrow> bool" where
  "table_entries es \<longleftrightarrow> list_all (\<lambda>(k, v). 8 \<le> length k \<and> length k < 2 ^ 32) es \<and>
     sorted_wrt (\<lambda>a b. InternalKey_Compare Slice_compare (fst a) (fst b) < 0) es"

lemma table_entriesD:
  assumes "table_entries es"
  shows "internal.sorted_entries es" and "list_all (\<lambda>(k, v). length k < 2 ^ 32) es"
  using internal_sorted assms by (auto simp: table_entries_def list_all_iff)

text \<open>What both properties start from.\<close>

lemma plain_built:
  assumes "plain_table compress opt" and "table_entries es" and "cache_ready cops cainv held opt c"
    and "wf_outcomes f = []" and "wf_content f = []"
  shows "\<exists>r cs seps. build_table compress opt f es = Some (OK, r) \<and> concat cs = es \<and>
    (length (wf_content (tr_file r)) < 2 ^ 32 \<longrightarrow>
      (\<exists>t c'. Table_Open sn junk cops opt (stored_file scratch (wf_content (tr_file r))) (Table_FileSize r) c = Some (OK, Some t, c') \<and>
         internal.serving cops cainv held scratch (op_restart_interval opt) cs seps t c'))"
  using internal.built_serving [OF plain_internal [OF assms(1)] table_entriesD(1) [OF assms(2)] assms(4,5) table_entriesD(2) [OF assms(2)],
      of cops cainv held sn junk scratch] assms(3) by blast

text \<open>A lookup that passes nothing on has not missed an entry with its user key.\<close>

lemma get_user_key:
  assumes "internal.separates cs seps" and "length seps = length cs" and "[] \<notin> set cs" and "internal.sorted_entries (concat cs)"
    and "8 \<le> length k"
  shows "case dropWhile (\<lambda>e. InternalKey_Compare Slice_compare (fst e) k < 0) (concat cs) of [] \<Rightarrow> internal.get_entry cs seps k = None
    | e # _ \<Rightarrow> internal.get_entry cs seps k = Some e \<or>
        internal.get_entry cs seps k = None \<and> ExtractUserKey (fst e) \<noteq> ExtractUserKey k"
proof -
  let ?c = "InternalKey_Compare Slice_compare"
  have k: "8 \<le> length k \<and> True" using assms(5) by simp
  have gap: "ExtractUserKey (fst (hd (cs ! Suc i))) \<noteq> ExtractUserKey k"
    if i: "Suc i < length cs" "?c (fst (last (cs ! i))) k < 0" "?c k (seps ! i) \<le> 0" for i
  proof -
    have "cs ! i \<noteq> []" "cs ! Suc i \<noteq> []" using assms(3) nth_mem [OF i(1)] nth_mem [of i cs] i(1) by (metis Suc_lessD)+
    then have m: "last (cs ! i) \<in> set (cs ! i)" "hd (cs ! Suc i) \<in> set (cs ! Suc i)" by simp_all
    have l: "i < length cs" using i(1) by simp
    note ok = internal.chunk_ok [OF assms(4) l m(1)] internal.chunk_ok [OF assms(4) i(1) m(2)]
    have "?c (fst (last (cs ! i))) (fst (hd (cs ! Suc i))) < 0"
      using internal.chunks_sorted(2) [OF assms(4) _ i(1) m] by simp
    moreover have "seps ! i = InternalKey_FindShortestSeparator Slice_compare FindShortestSeparator (fst (last (cs ! i))) (fst (hd (cs ! Suc i)))"
      using assms(1,2) i(1) unfolding internal.separates_def by simp
    ultimately show ?thesis using bytewise.internal_gap [OF ok k _ i(2)] i(3) by metis
  qed
  show ?thesis
  proof (cases "dropWhile (\<lambda>e. ?c (fst e) k < 0) (concat cs)")
    case (Cons d ds)
    then show ?thesis using internal.get_entry_found [OF assms(1-4) k] gap unfolding Cons list.case by metis
  qed (use internal.get_entry_found [OF assms(1-4) k] in \<open>simp del: dropWhile_eq_Nil_conv\<close>)
qed

section \<open>The size of a small table\<close>

lemma length_built_one: "length (built K [(k, v)]) \<le> 23 + length k + length v"
  using length_EncodeVarint32 [of "of_nat (length v)"] length_EncodeVarint32 [of "of_nat (length k)"] length_EncodeVarint32 [of 0]
  by (simp add: length_built off_def ents_def enc_at_def shared_at_def num_at_def)

lemma length_internal_successor:
  "8 \<le> length k \<Longrightarrow> length (InternalKey_FindShortSuccessor Slice_compare FindShortSuccessor k) \<le> length k"
  by (auto simp: InternalKey_FindShortSuccessor_def Let_def Put_append ExtractUserKey_def)

lemma length_one_table:
  assumes "plain_table compress opt" and "table_entries [(k, v)]" and "wf_outcomes f = []" and "wf_content f = []"
    and "build_table compress opt f [(k, v)] = Some (s, r)"
  shows "length (wf_content (tr_file r)) \<le> 137 + 2 * length k + length v"
proof -
  let ?K = "op_restart_interval opt" and ?s = "InternalKey_FindShortSuccessor Slice_compare FindShortSuccessor k"
  obtain cs seps where b: "concat cs = [(k, v)]" "length seps = length cs" "[] \<notin> set cs" "internal.separates cs seps"
    "wf_content (tr_file r) = finished_file ?K cs seps"
    using internal.built_serving [OF plain_internal [OF assms(1)] table_entriesD(1) [OF assms(2)] assms(3,4) table_entriesD(2) [OF assms(2)]]
      assms(5) by force
  obtain x xs where x: "cs = x # xs" using b(1) by (cases cs) auto
  then have cs: "cs = [[(k, v)]]" using b(1,3) by (cases x; cases xs) auto
  then obtain s where "seps = [s]" using b(2) by (cases seps) auto
  then have seps: "seps = [?s]" using b(4) cs unfolding internal.separates_def by simp
  have "length (built ?K [(k, v)]) \<le> 23 + length k + length v" by (rule length_built_one)
  moreover have "length (index_entries ?K cs seps) = 1" "index_entries ?K cs seps ! 0 = (?s, handle_bytes (chunk_handle ?K cs 0))"
    using seps by (simp_all add: nth_index_entries)
  then have "index_entries ?K cs seps = [(?s, handle_bytes (chunk_handle ?K cs 0))]" by (simp add: seps index_entries_def)
  then have "length (built 1 (index_entries ?K cs seps)) \<le> 23 + length ?s + length (handle_bytes (chunk_handle ?K cs 0))"
    using length_built_one by metis
  moreover have "length (handle_bytes (chunk_handle ?K cs 0)) \<le> 20" using length_handle_bytes by (simp add: kMaxEncodedLength_def)
  moreover have "length ?s \<le> length k" using assms(2) by (intro length_internal_successor) (simp add: table_entries_def)
  moreover have "length (built ?K []) = 8" by (simp add: length_built off_def ents_def num_at_def)
  ultimately show ?thesis unfolding b(5) length_finished by (simp add: cs chunk_bytes_def)
qed

section \<open>Lookups through a filter\<close>

text \<open>
  The same table when it was opened with a filter: the filter is asked at the offset of the block
  the index names for the key, which is the offset \<^verbatim>\<open>ApproximateOffsetOf\<close> gives, and only a
  negative answer saves the read.
\<close>

definition with_filter :: "policy_ops \<Rightarrow> FilterBlockReader \<Rightarrow> table \<Rightarrow> table" where
  "with_filter p f t = t\<lparr>ta_filter := Some f, ta_options := (ta_options t)\<lparr>op_filter_policy := Some p\<rparr>\<rparr>"

lemma with_filter_simps [simp]:
  "table_cmp (with_filter p f t) = table_cmp t" "ta_index_block (with_filter p f t) = ta_index_block t"
  "ta_read (with_filter p f t) = ta_read t" "ta_cache_id (with_filter p f t) = ta_cache_id t"
  "op_block_cache (ta_options (with_filter p f t)) = op_block_cache (ta_options t)"
  by (simp_all add: with_filter_def table_cmp_def)

lemma BlockReader_with_filter:
  "BlockReader sn junk cops (with_filter p f t) verify fill_cache v c = BlockReader sn junk cops t verify fill_cache v c"
  by (simp only: BlockReader_def read_block_def with_filter_simps)

lemma filtered_out_with_filter:
  "Handle_DecodeFrom v new_BlockHandle = (s, h, rest) \<Longrightarrow> Status_ok s \<Longrightarrow>
     filtered_out (with_filter p f t) v k = map_option Not (Filter_KeyMayMatch (fp_match p) f (bh_offset h) k)"
  by (simp add: filtered_out_def with_filter_def map_conv_bind_option comp_def)

lemma BlockReader_bad_handle:
  "Handle_DecodeFrom v new_BlockHandle = (s, h, rest) \<Longrightarrow> \<not> Status_ok s \<Longrightarrow>
     BlockReader sn junk cops t verify fill_cache v c = Some (ErrorIterator s, c)"
  by (simp add: BlockReader_def)

lemma InternalGet_filtered:
  assumes "ta_filter t = None" and "InternalGet sn junk cops t verify fill_cache k arg handle_result c = Some (s, a, c')"
    and "Status_ok s"
  shows "\<exists>offset. ApproximateOffsetOf t k = Some offset \<and> (\<forall>p f m. Filter_KeyMayMatch (fp_match p) f offset k = Some m \<longrightarrow>
    InternalGet sn junk cops (with_filter p f t) verify fill_cache k arg handle_result c =
      (if m then Some (s, a, c') else Some (s, arg, c)))"
proof -
  let ?ops = "table_iter_ops (table_cmp t)"
  have f: "filtered_out t h k = Some False" for h by (simp add: filtered_out_def assms(1))
  obtain i ii where i: "NewIterator (ta_index_block t) = Some i" "io_seek ?ops k i = Some ii"
    using assms(2) by (auto simp: InternalGet_def Let_def split: bind_splits)
  note g = assms(2) [unfolded InternalGet_def Let_def i bind.bind_lunit f]
  show ?thesis
  proof (cases "io_valid ?ops ii")
    case False
    then show ?thesis using g by (auto simp: InternalGet_def ApproximateOffsetOf_def i)
  next
    case True
    then obtain v where v: "io_value ?ops ii = Some v" using g by (auto split: bind_splits)
    obtain hs h rest where h: "Handle_DecodeFrom v new_BlockHandle = (hs, h, rest)" by (cases "Handle_DecodeFrom v new_BlockHandle") auto
    have hs: "Status_ok hs"
    proof (rule ccontr)
      assume n: "\<not> Status_ok hs"
      have "io_seek ?ops k (ErrorIterator hs) = Some (ErrorIterator hs)" "\<not> io_valid ?ops (ErrorIterator hs)"
        "io_status ?ops (ErrorIterator hs) = hs" by (simp_all add: table_iter_ops_def on_block_def)
      with g assms(3) n show False by (simp add: True v BlockReader_bad_handle [OF h n] n)
    qed
    have ok: "s = io_status ?ops ii"  using g assms(3) by (auto simp: True v split: bind_splits if_splits)
    have OK: "Status_ok OK" by (simp add: Status_ok_def)
    have "ApproximateOffsetOf t k = Some (bh_offset h)" by (simp add: ApproximateOffsetOf_def i True v h hs)
    moreover have "InternalGet sn junk cops (with_filter p fr t) verify fill_cache k arg handle_result c =
        (if m then Some (s, a, c') else Some (s, arg, c))"
      if m: "Filter_KeyMayMatch (fp_match p) fr (bh_offset h) k = Some m" for p fr m
      using g ok by (cases m) (simp_all add: InternalGet_def i True v BlockReader_with_filter filtered_out_with_filter [OF h hs] m OK)
    ultimately show ?thesis by blast
  qed
qed

text \<open>What a lookup in a table that serves its chunks passes on.\<close>

lemma serving_get:
  assumes "internal.serving cops cainv held scratch K cs seps t c" and "8 \<le> length k"
  shows "\<exists>c' found offset. InternalGet sn junk cops t verify fill_cache k arg handle_result c =
      Some (OK, case found of None \<Rightarrow> arg | Some (k', v) \<Rightarrow> handle_result arg k' v, c') \<and>
    (case dropWhile (\<lambda>e. InternalKey_Compare Slice_compare (fst e) k < 0) (concat cs) of
       [] \<Rightarrow> found = None
     | e # _ \<Rightarrow> found = Some e \<or> found = None \<and> ExtractUserKey (fst e) \<noteq> ExtractUserKey k) \<and>
    ApproximateOffsetOf t k = Some offset \<and>
    (\<forall>p flt m. Filter_KeyMayMatch (fp_match p) flt offset k = Some m \<longrightarrow>
      InternalGet sn junk cops (with_filter p flt t) verify fill_cache k arg handle_result c =
        (if m then InternalGet sn junk cops t verify fill_cache k arg handle_result c else Some (OK, arg, c)))"
proof -
  have k: "8 \<le> length k \<and> True" using assms(2) by simp
  obtain c' where g: "InternalGet sn junk cops t verify fill_cache k arg handle_result c =
      Some (OK, case internal.get_entry cs seps k of None \<Rightarrow> arg | Some (k', v) \<Rightarrow> handle_result arg k' v, c')"
    using internal.InternalGet_at [OF assms(1) k, of sn junk verify fill_cache arg handle_result] by (elim exE conjE)
  note u = get_user_key [OF internal.serving_order(1-4) [OF assms(1)] assms(2)]
  have "Status_ok OK" by (simp add: Status_ok_def)
  from InternalGet_filtered [OF internal.serving_no_filter [OF assms(1)] g this] obtain offset where
    "ApproximateOffsetOf t k = Some offset"
    "\<forall>p flt m. Filter_KeyMayMatch (fp_match p) flt offset k = Some m \<longrightarrow>
      InternalGet sn junk cops (with_filter p flt t) verify fill_cache k arg handle_result c =
        (if m then InternalGet sn junk cops t verify fill_cache k arg handle_result c else Some (OK, arg, c))"
    unfolding g by (elim exE conjE)
  with g u show ?thesis by (intro exI conjI)
qed

section \<open>Properties\<close>

text \<open>
  C32: A table is the sorted list of the entries it was built from. For every block size and restart
  interval, with a block cache or without, building always succeeds on a file that does not fail, and as
  long as the file is below 4 GiB the table opens, and its iterator runs forwards over exactly the
  entries that were added, backwards over them in reverse, and from a seek over those not before the target.
\<close>

theorem table_roundtrip:
  assumes "plain_table compress opt" and "table_entries es" and "cache_ready cops cainv held opt c" and "8 \<le> length target"
    and "wf_outcomes f = []" and "wf_content f = []"
  shows "\<exists>r. build_table compress opt f es = Some (OK, r) \<and>
    (length (wf_content (tr_file r)) < 2 ^ 32 \<longrightarrow>
      (\<exists>t c' it. let ops = table_ops sn junk cops t verify fill_cache; scan = drain (io_valid ops) (io_entry ops) in
        Table_Open sn junk cops opt (stored_file scratch (wf_content (tr_file r))) (Table_FileSize r) c = Some (OK, Some t, c') \<and>
        Table_NewIterator t c' = Some it \<and>
        do { it \<leftarrow> io_first ops it; scan (io_next ops) it } = Some es \<and>
        do { it \<leftarrow> io_last ops it; scan (io_prev ops) it } = Some (rev es) \<and>
        do { it \<leftarrow> io_seek ops target it; scan (io_next ops) it } =
          Some (dropWhile (\<lambda>e. InternalKey_Compare Slice_compare (fst e) target < 0) es)))"
proof -
  obtain r cs seps where b: "build_table compress opt f es = Some (OK, r)" "concat cs = es"
    "length (wf_content (tr_file r)) < 2 ^ 32 \<longrightarrow>
      (\<exists>t c'. Table_Open sn junk cops opt (stored_file scratch (wf_content (tr_file r))) (Table_FileSize r) c = Some (OK, Some t, c') \<and>
         internal.serving cops cainv held scratch (op_restart_interval opt) cs seps t c')"
    using plain_built [OF assms(1-3,5,6), of sn junk scratch] by blast
  have "8 \<le> length target \<and> True" using assms(4) by simp
  note scans = internal.serving_scans [OF _ this, of cops cainv held scratch "op_restart_interval opt" cs seps _ _ sn junk verify fill_cache, unfolded b(2)]
  show ?thesis
  proof (intro exI [of _ r] conjI impI)
    show "build_table compress opt f es = Some (OK, r)" by (rule b(1))
    assume "length (wf_content (tr_file r)) < 2 ^ 32"
    then obtain t c' where t: "Table_Open sn junk cops opt (stored_file scratch (wf_content (tr_file r))) (Table_FileSize r) c = Some (OK, Some t, c')"
      "internal.serving cops cainv held scratch (op_restart_interval opt) cs seps t c'" using b(3) by blast
    from scans [OF t(2)] obtain it where it: "Table_NewIterator t c' = Some it"
      "(let ops = table_ops sn junk cops t verify fill_cache; scan = drain (io_valid ops) (io_entry ops) in
        do { it \<leftarrow> io_first ops it; scan (io_next ops) it } = Some es \<and>
        do { it \<leftarrow> io_last ops it; scan (io_prev ops) it } = Some (rev es) \<and>
        do { it \<leftarrow> io_seek ops target it; scan (io_next ops) it } =
          Some (dropWhile (\<lambda>e. InternalKey_Compare Slice_compare (fst e) target < 0) es))" unfolding Let_def by blast
    show "\<exists>t c' it. let ops = table_ops sn junk cops t verify fill_cache; scan = drain (io_valid ops) (io_entry ops) in
        Table_Open sn junk cops opt (stored_file scratch (wf_content (tr_file r))) (Table_FileSize r) c = Some (OK, Some t, c') \<and>
        Table_NewIterator t c' = Some it \<and>
        do { it \<leftarrow> io_first ops it; scan (io_next ops) it } = Some es \<and>
        do { it \<leftarrow> io_last ops it; scan (io_prev ops) it } = Some (rev es) \<and>
        do { it \<leftarrow> io_seek ops target it; scan (io_next ops) it } =
          Some (dropWhile (\<lambda>e. InternalKey_Compare Slice_compare (fst e) target < 0) es)"
      unfolding Let_def
      by (rule exI [of _ t], rule exI [of _ c'], rule exI [of _ it]) (intro conjI t(1) it(1) it(2) [unfolded Let_def, THEN conjunct1]
          it(2) [unfolded Let_def, THEN conjunct2, THEN conjunct1] it(2) [unfolded Let_def, THEN conjunct2, THEN conjunct2])
  qed
qed

abbreviation (input) small_options :: table_options where
  "small_options \<equiv> \<lparr>op_comparator = internal_key_ops 0, op_paranoid_checks = True, op_block_cache = True, op_block_size = 1,
     op_restart_interval = 2, op_compression = kNoCompression, op_filter_policy = None\<rparr>"

abbreviation (input) new_file :: writable_file where
  "new_file \<equiv> \<lparr>wf_content = [], wf_outcomes = []\<rparr>"

abbreviation (input) no_snappy :: snappy where
  "no_snappy \<equiv> \<lparr>sn_length = (\<lambda>_. None), sn_uncompress = (\<lambda>_. None)\<rparr>"

lemma small_plain: "plain_table (\<lambda>_. None) small_options"
  by (auto simp: plain_table_def stores_raw_def)

lemma small_entries: "table_entries [(replicate 8 1, [7])]"
  by (simp add: table_entries_def)

lemma lru_ready: "\<exists>c. NewLRUCache capacity = Some c \<and> cache_ready lru_cache_ops (shards_ok (\<lambda>_ _. 0)) lru_held opt c"
proof -
  obtain c :: "TableBlock ShardedLRUCache" where c: "NewLRUCache capacity = Some c" "shards_ok (\<lambda>_ _. 0) c" "\<forall>k v. \<not> lru_held c k v"
    using NewLRUCache_ok [of capacity] by (elim exE conjE)
  have "cache_ready lru_cache_ops (shards_ok (\<lambda>_ _. 0)) lru_held opt c"
    unfolding cache_ready_def using lru.sound_cache_axioms c(2,3) by (intro impI conjI)
  with c(1) show ?thesis by (intro exI conjI)
qed

theorem table_roundtrip_witness:
  "\<exists>c0 r t c it. NewLRUCache 4096 = Some c0 \<and> (let ops = table_ops no_snappy 0 lru_cache_ops t True True in
    build_table (\<lambda>_. None) small_options new_file [(replicate 8 1, [7])] = Some (OK, r) \<and>
    Table_Open no_snappy 0 lru_cache_ops small_options (stored_file True (wf_content (tr_file r))) (Table_FileSize r) c0 = Some (OK, Some t, c) \<and>
    Table_NewIterator t c = Some it \<and>
    do { it \<leftarrow> io_first ops it; drain (io_valid ops) (io_entry ops) (io_next ops) it } = Some [(replicate 8 1, [7])])"
proof -
  obtain c0 where c0: "NewLRUCache 4096 = Some c0" and ready: "cache_ready lru_cache_ops (shards_ok (\<lambda>_ _. 0)) lru_held small_options c0"
    using lru_ready by blast
  from table_roundtrip [OF small_plain small_entries ready, of "replicate 8 0" new_file no_snappy 0 True True True]
  obtain r where r: "build_table (\<lambda>_. None) small_options new_file [(replicate 8 1, [7])] = Some (OK, r)"
    "length (wf_content (tr_file r)) < 2 ^ 32 \<Longrightarrow>
      \<exists>t c' it. let ops = table_ops no_snappy 0 lru_cache_ops t True True; scan = drain (io_valid ops) (io_entry ops) in
        Table_Open no_snappy 0 lru_cache_ops small_options (stored_file True (wf_content (tr_file r))) (Table_FileSize r) c0 = Some (OK, Some t, c') \<and>
        Table_NewIterator t c' = Some it \<and>
        do { it \<leftarrow> io_first ops it; scan (io_next ops) it } = Some [(replicate 8 1, [7])]"
    unfolding Let_def by fastforce
  have "length (wf_content (tr_file r)) < 2 ^ 32" using length_one_table [OF small_plain small_entries _ _ r(1)] by simp
  with r c0 show ?thesis unfolding Let_def by blast
qed

text \<open>
  C33: A lookup in a table built from sorted internal keys passes on at most one entry, the first that is
  not before the key; and it does pass it on whenever that entry has the user key that is looked for,
  although it only reads the one block that the index names. So a lookup at a snapshot finds the newest
  version of the user key that is not newer than the snapshot. The table is written without a filter
  and without compression. When it is read with a filter beside it, the filter is asked for the offset
  of the block that the index names: on a positive answer the lookup is the same, on a
  negative one nothing is passed on and no block is read.
\<close>

theorem table_get:
  assumes "plain_table compress opt" and "table_entries es" and "cache_ready cops cainv held opt c" and "8 \<le> length k"
    and "wf_outcomes f = []" and "wf_content f = []"
  shows "\<exists>r. build_table compress opt f es = Some (OK, r) \<and>
    (length (wf_content (tr_file r)) < 2 ^ 32 \<longrightarrow>
      (\<exists>t c' c'' found offset.
        Table_Open sn junk cops opt (stored_file scratch (wf_content (tr_file r))) (Table_FileSize r) c = Some (OK, Some t, c') \<and>
        InternalGet sn junk cops t verify fill_cache k arg handle_result c' =
          Some (OK, case found of None \<Rightarrow> arg | Some (k', v) \<Rightarrow> handle_result arg k' v, c'') \<and>
        (case dropWhile (\<lambda>e. InternalKey_Compare Slice_compare (fst e) k < 0) es of
           [] \<Rightarrow> found = None
         | e # _ \<Rightarrow> found = Some e \<or> found = None \<and> ExtractUserKey (fst e) \<noteq> ExtractUserKey k) \<and>
        ApproximateOffsetOf t k = Some offset \<and>
        (\<forall>p flt m. Filter_KeyMayMatch (fp_match p) flt offset k = Some m \<longrightarrow>
          InternalGet sn junk cops (with_filter p flt t) verify fill_cache k arg handle_result c' =
            (if m then InternalGet sn junk cops t verify fill_cache k arg handle_result c' else Some (OK, arg, c')))))"
    (is "\<exists>r. _ \<and> (_ \<longrightarrow> ?Get r)")
proof -
  obtain r cs seps where b: "build_table compress opt f es = Some (OK, r)" "concat cs = es"
    "length (wf_content (tr_file r)) < 2 ^ 32 \<longrightarrow>
      (\<exists>t c'. Table_Open sn junk cops opt (stored_file scratch (wf_content (tr_file r))) (Table_FileSize r) c = Some (OK, Some t, c') \<and>
         internal.serving cops cainv held scratch (op_restart_interval opt) cs seps t c')"
    using plain_built [OF assms(1-3,5,6), of sn junk scratch] by blast
  note get = serving_get [OF _ assms(4), of cops cainv held scratch "op_restart_interval opt" cs seps _ _ sn junk verify fill_cache arg handle_result,
      unfolded b(2)]
  show ?thesis
  proof (rule exI [of _ r], intro conjI impI b(1))
    assume "length (wf_content (tr_file r)) < 2 ^ 32"
    then obtain t c' where t: "Table_Open sn junk cops opt (stored_file scratch (wf_content (tr_file r))) (Table_FileSize r) c = Some (OK, Some t, c')"
      "internal.serving cops cainv held scratch (op_restart_interval opt) cs seps t c'" using b(3) by blast
    from get [OF t(2)] t(1) show "?Get r" by blast
  qed
qed

text \<open>A filter block of base 63 with two empty filters, and a policy that matches nothing.\<close>

abbreviation (input) no_match :: policy_ops where
  "no_match \<equiv> \<lparr>fp_name = [], fp_create = (\<lambda>_ _. None), fp_match = (\<lambda>_ _. Some False)\<rparr>"

abbreviation (input) empty_filters :: FilterBlockReader where
  "empty_filters \<equiv> \<lparr>fr_data = replicate 12 0, fr_offset = 0, fr_num = 2, fr_base_lg = 63\<rparr>"

lemma no_match_filters: "Filter_KeyMayMatch (fp_match no_match) empty_filters offset k = Some False"
proof -
  have i: "unat (drop_bit 63 offset) < 2"
    using unsigned_less [of offset, where 'a = nat] by (simp add: unat_bits less_mult_imp_div_less)
  have "le_word (replicate 4 0) = (0 :: u32)" by code_simp
  then have "DecodeFixed32 True (replicate n 0) = Some 0" if "4 \<le> n" for n
    using that by (simp add: DecodeFixed32_def rds_def)
  with i show ?thesis by (simp add: Filter_KeyMayMatch_def Let_def)
qed

theorem table_get_witness:
  "\<exists>c0 r t c c'. NewLRUCache 4096 = Some c0 \<and> build_table (\<lambda>_. None) small_options new_file [(replicate 8 1, [7])] = Some (OK, r) \<and>
    Table_Open no_snappy 0 lru_cache_ops small_options (stored_file True (wf_content (tr_file r))) (Table_FileSize r) c0 = Some (OK, Some t, c) \<and>
    InternalGet no_snappy 0 lru_cache_ops t True True (replicate 8 1) [] (\<lambda>arg k v. v) c = Some (OK, [7], c') \<and>
    InternalGet no_snappy 0 lru_cache_ops (with_filter no_match empty_filters t) True True (replicate 8 1) [] (\<lambda>arg k v. v) c = Some (OK, [], c)"
proof -
  obtain c0 where c0: "NewLRUCache 4096 = Some c0" and ready: "cache_ready lru_cache_ops (shards_ok (\<lambda>_ _. 0)) lru_held small_options c0"
    using lru_ready by blast
  have "\<not> InternalKey_Compare Slice_compare (replicate 8 1) (replicate 8 1) < 0" by (simp add: internal.compare_self)
  then have d: "dropWhile (\<lambda>e. InternalKey_Compare Slice_compare (fst e) (replicate 8 1) < 0) [(replicate 8 1, [7 :: u8])] =
      [(replicate 8 1, [7])]" by simp
  have p: "8 \<le> length (replicate 8 (1 :: u8))" "wf_outcomes new_file = []" "wf_content new_file = []" by simp_all
  from table_get [OF small_plain small_entries ready p, of no_snappy 0 True True True "[]" "\<lambda>arg k v. v", unfolded d list.case]
  obtain r where r: "build_table (\<lambda>_. None) small_options new_file [(replicate 8 1, [7])] = Some (OK, r)"
    and g: "length (wf_content (tr_file r)) < 2 ^ 32 \<longrightarrow> (\<exists>t c c'. \<exists>found :: entry option. \<exists>offset.
      Table_Open no_snappy 0 lru_cache_ops small_options (stored_file True (wf_content (tr_file r))) (Table_FileSize r) c0 = Some (OK, Some t, c) \<and>
      InternalGet no_snappy 0 lru_cache_ops t True True (replicate 8 1) [] (\<lambda>arg k v. v) c =
        Some (OK, case found of None \<Rightarrow> [] | Some (k', v) \<Rightarrow> v, c') \<and>
      (found = Some (replicate 8 1, [7]) \<or> found = None \<and> ExtractUserKey (fst (replicate 8 (1 :: u8), [7 :: u8])) \<noteq> ExtractUserKey (replicate 8 1)) \<and>
      ApproximateOffsetOf t (replicate 8 1) = Some offset \<and>
      (\<forall>p flt m. Filter_KeyMayMatch (fp_match p) flt offset (replicate 8 1) = Some m \<longrightarrow>
        InternalGet no_snappy 0 lru_cache_ops (with_filter p flt t) True True (replicate 8 1) [] (\<lambda>arg k v. v) c =
          (if m then InternalGet no_snappy 0 lru_cache_ops t True True (replicate 8 1) [] (\<lambda>arg k v. v) c else Some (OK, [], c))))"
    by (elim exE conjE)
  have "length (wf_content (tr_file r)) < 2 ^ 32" using length_one_table [OF small_plain small_entries _ _ r] by simp
  from mp [OF g this] obtain t c c' and found :: "entry option" and offset where
    o: "Table_Open no_snappy 0 lru_cache_ops small_options (stored_file True (wf_content (tr_file r))) (Table_FileSize r) c0 = Some (OK, Some t, c)"
    and f: "InternalGet no_snappy 0 lru_cache_ops t True True (replicate 8 1) [] (\<lambda>arg k v. v) c =
        Some (OK, case found of None \<Rightarrow> [] | Some (k', v) \<Rightarrow> v, c')"
      "found = Some (replicate 8 1, [7]) \<or> found = None \<and> ExtractUserKey (fst (replicate 8 (1 :: u8), [7 :: u8])) \<noteq> ExtractUserKey (replicate 8 1)"
    and q: "\<forall>p flt m. Filter_KeyMayMatch (fp_match p) flt offset (replicate 8 1) = Some m \<longrightarrow>
        InternalGet no_snappy 0 lru_cache_ops (with_filter p flt t) True True (replicate 8 1) [] (\<lambda>arg k v. v) c =
          (if m then InternalGet no_snappy 0 lru_cache_ops t True True (replicate 8 1) [] (\<lambda>arg k v. v) c else Some (OK, [], c))"
    by (elim exE conjE)
  have n: "InternalGet no_snappy 0 lru_cache_ops (with_filter no_match empty_filters t) True True (replicate 8 1) [] (\<lambda>arg k v. v) c = Some (OK, [], c)"
    using q [THEN spec, THEN spec, THEN spec, THEN mp, OF no_match_filters] unfolding if_False .
  have found: "found = Some (replicate 8 1, [7])" using f(2) by simp
  from f(1) have "InternalGet no_snappy 0 lru_cache_ops t True True (replicate 8 1) [] (\<lambda>arg k v. v) c = Some (OK, [7], c')"
    unfolding found option.case prod.case .
  with r o c0 n show ?thesis by blast
qed

end
