(* ===== verification/Ldb_Merger.thy ===== *)
theory Ldb_Merger
  imports Ldb_Wrapper "HOL-Library.Multiset"
begin

text \<open>
  The merging iterator (\<^verbatim>\<open>table/merger.cc\<close>): iterators over sorted entries are merged into one over all
  of them. A child is a wrapped iterator with its operations. When all children satisfy the iterator
  contract, so does the merging iterator, in both directions and across changes of direction.
\<close>

section \<open>The code\<close>

datatype direction = kForward | kReverse

type_synonym 's child = "'s iter_ops \<times> 's wrapper"

record 's merger =
  mg_children :: "'s child list"
  mg_current :: "nat option"
  mg_direction :: direction

text \<open>A step of one child, of all and of all but one.\<close>

definition on_child :: "('s wrapper iter_ops \<Rightarrow> 's wrapper \<Rightarrow> 's wrapper option) \<Rightarrow> 's child \<Rightarrow> 's child option" where
  "on_child f c = map_option (Pair (fst c)) (f (wrapper_ops (fst c)) (snd c))"

fun each_from :: "(nat \<Rightarrow> 'a \<Rightarrow> 'b option) \<Rightarrow> nat \<Rightarrow> 'a list \<Rightarrow> 'b list option" where
  "each_from f i [] = Some []"
| "each_from f i (x # xs) = do { y \<leftarrow> f i x; ys \<leftarrow> each_from f (Suc i) xs; Some (y # ys) }"

definition all_children :: "('s wrapper iter_ops \<Rightarrow> 's wrapper \<Rightarrow> 's wrapper option) \<Rightarrow> 's child list \<Rightarrow> 's child list option" where
  "all_children f cs = each_from (\<lambda>_. on_child f) 0 cs"

definition other_children ::
    "('s wrapper iter_ops \<Rightarrow> 's wrapper \<Rightarrow> 's wrapper option) \<Rightarrow> nat \<Rightarrow> 's child list \<Rightarrow> 's child list option" where
  "other_children f c cs = each_from (\<lambda>i x. if i = c then Some x else on_child f x) 0 cs"

definition one_child ::
    "('s wrapper iter_ops \<Rightarrow> 's wrapper \<Rightarrow> 's wrapper option) \<Rightarrow> nat \<Rightarrow> 's child list \<Rightarrow> 's child list option" where
  "one_child f c cs = each_from (\<lambda>i x. if i = c then on_child f x else Some x) 0 cs"

definition new_merger :: "('s iter_ops \<times> 's) list \<Rightarrow> 's merger option" where
  "new_merger children = do {
     cs \<leftarrow> each_from (\<lambda>_ (ops, it). map_option (Pair ops) (iw_Set ops (Some it) new_wrapper)) 0 children;
     Some \<lparr>mg_children = cs, mg_current = None, mg_direction = kForward\<rparr>
   }"

definition child_key :: "'s child list \<Rightarrow> nat \<Rightarrow> bytes" where
  "child_key cs i = iw_key (snd (cs ! i))"

definition better :: "(bytes \<Rightarrow> bytes \<Rightarrow> bool) \<Rightarrow> 's child list \<Rightarrow> nat option \<Rightarrow> nat \<Rightarrow> nat option" where
  "better wins cs best i =
     (if iw_valid (snd (cs ! i)) then
        case best of None \<Rightarrow> Some i | Some j \<Rightarrow> if wins (child_key cs i) (child_key cs j) then Some i else best
      else best)"

definition FindSmallest :: "(bytes \<Rightarrow> bytes \<Rightarrow> int) \<Rightarrow> 's child list \<Rightarrow> nat option" where
  "FindSmallest compare cs = foldl (better (\<lambda>a b. compare a b < 0) cs) None [0..<length cs]"

definition FindLargest :: "(bytes \<Rightarrow> bytes \<Rightarrow> int) \<Rightarrow> 's child list \<Rightarrow> nat option" where
  "FindLargest compare cs = foldl (better (\<lambda>a b. compare a b > 0) cs) None (rev [0..<length cs])"

definition forwards :: "(bytes \<Rightarrow> bytes \<Rightarrow> int) \<Rightarrow> 's child list \<Rightarrow> 's merger" where
  "forwards compare cs = \<lparr>mg_children = cs, mg_current = FindSmallest compare cs, mg_direction = kForward\<rparr>"

definition backwards :: "(bytes \<Rightarrow> bytes \<Rightarrow> int) \<Rightarrow> 's child list \<Rightarrow> 's merger" where
  "backwards compare cs = \<lparr>mg_children = cs, mg_current = FindLargest compare cs, mg_direction = kReverse\<rparr>"

definition MI_SeekToFirst :: "(bytes \<Rightarrow> bytes \<Rightarrow> int) \<Rightarrow> 's merger \<Rightarrow> 's merger option" where
  "MI_SeekToFirst compare m = map_option (forwards compare) (all_children io_first (mg_children m))"

definition MI_SeekToLast :: "(bytes \<Rightarrow> bytes \<Rightarrow> int) \<Rightarrow> 's merger \<Rightarrow> 's merger option" where
  "MI_SeekToLast compare m = map_option (backwards compare) (all_children io_last (mg_children m))"

definition MI_Seek :: "(bytes \<Rightarrow> bytes \<Rightarrow> int) \<Rightarrow> bytes \<Rightarrow> 's merger \<Rightarrow> 's merger option" where
  "MI_Seek compare target m = map_option (forwards compare) (all_children (\<lambda>ops. io_seek ops target) (mg_children m))"

definition MI_Next :: "(bytes \<Rightarrow> bytes \<Rightarrow> int) \<Rightarrow> 's merger \<Rightarrow> 's merger option" where
  "MI_Next compare m = do {
     c \<leftarrow> mg_current m;
     let key = child_key (mg_children m) c;
     cs \<leftarrow> (if mg_direction m \<noteq> kForward then
         other_children (\<lambda>ops w. do {
           w \<leftarrow> io_seek ops key w;
           if io_valid ops w \<and> compare key (iw_key w) = 0 then io_next ops w else Some w
         }) c (mg_children m)
       else Some (mg_children m));
     cs \<leftarrow> one_child io_next c cs;
     Some (forwards compare cs)
   }"

definition MI_Prev :: "(bytes \<Rightarrow> bytes \<Rightarrow> int) \<Rightarrow> 's merger \<Rightarrow> 's merger option" where
  "MI_Prev compare m = do {
     c \<leftarrow> mg_current m;
     let key = child_key (mg_children m) c;
     cs \<leftarrow> (if mg_direction m \<noteq> kReverse then
         other_children (\<lambda>ops w. do {
           w \<leftarrow> io_seek ops key w;
           if io_valid ops w then io_prev ops w else io_last ops w
         }) c (mg_children m)
       else Some (mg_children m));
     cs \<leftarrow> one_child io_prev c cs;
     Some (backwards compare cs)
   }"

definition MI_at :: "('s wrapper iter_ops \<Rightarrow> 's wrapper \<Rightarrow> 'a option) \<Rightarrow> 's merger \<Rightarrow> 'a option" where
  "MI_at f m = do { c \<leftarrow> mg_current m; let (ops, w) = mg_children m ! c; f (wrapper_ops ops) w }"

fun first_error :: "'s child list \<Rightarrow> Status \<Rightarrow> Status" where
  "first_error [] s = s"
| "first_error ((ops, w) # cs) s =
     (let s = io_status (wrapper_ops ops) w in if \<not> Status_ok s then s else first_error cs s)"

definition merger_ops :: "(bytes \<Rightarrow> bytes \<Rightarrow> int) \<Rightarrow> 's merger iter_ops" where
  "merger_ops compare =
     \<lparr>io_valid = (\<lambda>m. mg_current m \<noteq> None),
      io_key = MI_at io_key,
      io_value = MI_at io_value,
      io_first = MI_SeekToFirst compare,
      io_last = MI_SeekToLast compare,
      io_next = MI_Next compare,
      io_prev = MI_Prev compare,
      io_seek = MI_Seek compare,
      io_status = (\<lambda>m. first_error (mg_children m) OK)\<rparr>"

text \<open>No child gives the empty iterator and one child itself.\<close>

datatype 's merged = No_children | One_child "'s iter_ops" 's | Children "'s merger"

definition NewMergingIterator :: "('s iter_ops \<times> 's) list \<Rightarrow> 's merged option" where
  "NewMergingIterator children =
     (case children of
        [] \<Rightarrow> Some No_children
      | [(ops, it)] \<Rightarrow> Some (One_child ops it)
      | _ \<Rightarrow> map_option Children (new_merger children))"

definition on_merged ::
    "('s iter_ops \<Rightarrow> 's \<Rightarrow> 's option) \<Rightarrow> ('s merger \<Rightarrow> 's merger option) \<Rightarrow> 's merged option \<Rightarrow> 's merged \<Rightarrow> 's merged option" where
  "on_merged one many none m =
     (case m of No_children \<Rightarrow> none | One_child ops it \<Rightarrow> map_option (One_child ops) (one ops it) | Children g \<Rightarrow> map_option Children (many g))"

definition merged_ops :: "(bytes \<Rightarrow> bytes \<Rightarrow> int) \<Rightarrow> 's merged iter_ops" where
  "merged_ops compare =
     (let many = merger_ops compare in
      \<lparr>io_valid = (\<lambda>m. case m of No_children \<Rightarrow> False | One_child ops it \<Rightarrow> io_valid ops it | Children g \<Rightarrow> io_valid many g),
       io_key = (\<lambda>m. case m of No_children \<Rightarrow> None | One_child ops it \<Rightarrow> io_key ops it | Children g \<Rightarrow> io_key many g),
       io_value = (\<lambda>m. case m of No_children \<Rightarrow> None | One_child ops it \<Rightarrow> io_value ops it | Children g \<Rightarrow> io_value many g),
       io_first = on_merged io_first (io_first many) (Some No_children),
       io_last = on_merged io_last (io_last many) (Some No_children),
       io_next = on_merged io_next (io_next many) None,
       io_prev = on_merged io_prev (io_prev many) None,
       io_seek = (\<lambda>k. on_merged (\<lambda>ops. io_seek ops k) (io_seek many k) (Some No_children)),
       io_status = (\<lambda>m. case m of No_children \<Rightarrow> OK | One_child ops it \<Rightarrow> io_status ops it | Children g \<Rightarrow> io_status many g)\<rparr>)"

section \<open>Cuts of sorted lists\<close>

text \<open>The entries of a sorted list that satisfy a property which is closed downwards are its first ones.\<close>

definition cut :: "(bytes \<Rightarrow> bool) \<Rightarrow> entry list \<Rightarrow> nat" where
  "cut D es = length (takeWhile (\<lambda>e. D (fst e)) es)"

lemma cut_unique: "p \<le> length es \<Longrightarrow> (\<And>i. i < length es \<Longrightarrow> D (fst (es ! i)) \<longleftrightarrow> i < p) \<Longrightarrow> cut D es = p"
proof (induction es arbitrary: p)
  case (Cons e es)
  show ?case
  proof (cases p)
    case 0
    then show ?thesis using Cons.prems(2) [of 0] by (simp add: cut_def)
  next
    case (Suc q)
    have "cut D es = q"
    proof (rule Cons.IH)
      show "D (fst (es ! i)) \<longleftrightarrow> i < q" if "i < length es" for i using Cons.prems(2) [of "Suc i"] that Suc by simp
    qed (use Cons.prems(1) Suc in simp)
    then show ?thesis using Cons.prems(2) [of 0] Suc by (simp add: cut_def)
  qed
qed (simp add: cut_def)

lemma cut_le: "cut D es \<le> length es"
  by (simp add: cut_def length_takeWhile_le)

lemma distinct_concat_nth:
  "distinct (concat xss) \<Longrightarrow> i < j \<Longrightarrow> j < length xss \<Longrightarrow> set (xss ! i) \<inter> set (xss ! j) = {}"
proof (induction xss arbitrary: i j)
  case (Cons xs xss)
  then obtain j' where j: "j = Suc j'" "j' < length xss" by (cases j) auto
  show ?case
  proof (cases i)
    case 0
    then show ?thesis using Cons.prems(1) j nth_mem [OF j(2)] by (auto simp: disjoint_iff)
  next
    case (Suc i')
    then show ?thesis using Cons.IH [of i' j'] Cons.prems j by simp
  qed
qed simp

context comparator
begin

definition down :: "(bytes \<Rightarrow> bool) \<Rightarrow> bool" where
  "down D \<longleftrightarrow> (\<forall>a b. ok a \<longrightarrow> ok b \<longrightarrow> D b \<longrightarrow> compare a b < 0 \<longrightarrow> D a)"

lemma down_less: "ok k \<Longrightarrow> down (\<lambda>x. compare x k < 0)"
  unfolding down_def by (intro allI impI) (rule compare_trans)

lemma down_le: "ok k \<Longrightarrow> down (\<lambda>x. compare x k \<le> 0)"
  unfolding down_def by (intro allI impI, rule less_imp_le) (rule compare_less_le_trans)

lemma down_all: "down (\<lambda>_. True)" and down_none: "down (\<lambda>_. False)"
  by (simp_all add: down_def)

lemma sorted_ok: "sorted_entries es \<Longrightarrow> i < length es \<Longrightarrow> ok (fst (es ! i))"
  by (simp add: sorted_entries_def list_all_length)

lemma cut_nth:
  assumes "sorted_entries es" and "down D" and "i < length es"
  shows "D (fst (es ! i)) \<longleftrightarrow> i < cut D es"
proof
  assume "i < cut D es"
  then have i: "i < length (takeWhile (\<lambda>e. D (fst e)) es)" by (simp add: cut_def)
  show "D (fst (es ! i))" using set_takeWhileD [OF nth_mem [OF i]] takeWhile_nth [OF i] by simp
next
  assume D: "D (fst (es ! i))"
  show "i < cut D es"
  proof (rule ccontr)
    assume "\<not> i < cut D es"
    then have c: "cut D es \<le> i" "cut D es < length es" using assms(3) by simp_all
    then have no: "\<not> D (fst (es ! cut D es))" using nth_length_takeWhile [of "\<lambda>e. D (fst e)" es] by (simp add: cut_def)
    with D c(1) have "cut D es < i" by (cases "cut D es = i") auto
    from entries_less [OF assms(1) this assms(3)] have "compare (fst (es ! cut D es)) (fst (es ! i)) < 0" .
    with assms(2) no D sorted_ok [OF assms(1)] c(2) assms(3) show False unfolding down_def by blast
  qed
qed

lemma sorted_le: "sorted_entries es \<Longrightarrow> i \<le> j \<Longrightarrow> j < length es \<Longrightarrow> compare (fst (es ! i)) (fst (es ! j)) \<le> 0"
  using entries_less [of es i j] compare_self [OF sorted_ok [of es j]] by (cases "i = j") auto

lemma sorted_less_iff:
  assumes "sorted_entries es" and "i < length es" and "j < length es"
  shows "compare (fst (es ! i)) (fst (es ! j)) < 0 \<longleftrightarrow> i < j"
proof (cases "i < j")
  case False
  then have "compare (fst (es ! j)) (fst (es ! i)) \<le> 0" using sorted_le [OF assms(1), of j i] assms(2) by simp
  with False show ?thesis using compare_not_less [OF sorted_ok sorted_ok, OF assms(1,2) assms(1,3)] by simp
qed (use entries_less assms in simp)

lemma cut_self: "sorted_entries es \<Longrightarrow> p < length es \<Longrightarrow> cut (\<lambda>x. compare x (fst (es ! p)) < 0) es = p"
  by (rule cut_unique) (auto simp: sorted_less_iff)

text \<open>A merge of sorted lists.\<close>

definition merges :: "entry list list \<Rightarrow> entry list \<Rightarrow> bool" where
  "merges ess M \<longleftrightarrow> sorted_entries M \<and> list_all sorted_entries ess \<and> mset M = mset (concat ess)"

lemma mergesD:
  assumes "merges ess M"
  shows "sorted_entries M" "i < length ess \<Longrightarrow> sorted_entries (ess ! i)" "mset M = mset (concat ess)"
  using assms by (simp_all add: merges_def list_all_length)

lemma distinct_keys: "sorted_entries es \<Longrightarrow> distinct (map fst es)"
  using sorted_less_iff [of es] compare_self sorted_ok [of es] unfolding distinct_conv_nth by (metis length_map nat_neq_iff nth_map)

lemma merged_keys:
  assumes "merges ess M" and "i < length ess" and "j < length ess" and "i \<noteq> j" and "e \<in> set (ess ! i)" and "e' \<in> set (ess ! j)"
  shows "fst e \<noteq> fst e'"
proof -
  have "mset (map fst M) = mset (map fst (concat ess))" using mergesD(3) [OF assms(1)] by simp
  then have "distinct (map fst (concat ess))" using distinct_keys [OF mergesD(1) [OF assms(1)]] mset_eq_imp_distinct_iff by blast
  then have d: "distinct (concat (map (map fst) ess))" by (simp add: map_concat)
  have "set (map (map fst) ess ! i) \<inter> set (map (map fst) ess ! j) = {}"
    using distinct_concat_nth [OF d, of i j] distinct_concat_nth [OF d, of j i] assms(2-4) by (cases "i < j") auto
  then show ?thesis using assms(2,3,5,6) by (auto simp: disjoint_iff)
qed

lemma cut_filter: "sorted_entries es \<Longrightarrow> down D \<Longrightarrow> cut D es = size (filter_mset (\<lambda>e. D (fst e)) (mset es))"
proof -
  assume s: "sorted_entries es" "down D"
  have "{i. i < length es \<and> D (fst (es ! i))} = {..<cut D es}" using cut_nth [OF s] cut_le [of D es] by auto
  then have "length (filter (\<lambda>e. D (fst e)) es) = cut D es" by (simp add: length_filter_conv_card)
  then show ?thesis by (metis mset_filter size_mset)
qed

lemma cut_merged:
  assumes "merges ess M" and "down D"
  shows "cut D M = sum_list (map (cut D) ess)"
proof -
  have "sum_list (map (cut D) es') = size (filter_mset (\<lambda>e. D (fst e)) (mset (concat es')))" if "list_all sorted_entries es'" for es'
    using that by (induction es') (auto simp: cut_filter [OF _ assms(2)])
  then show ?thesis using assms(1) cut_filter [OF _ assms(2)] by (simp add: merges_def)
qed

abbreviation below :: "bytes \<Rightarrow> bytes \<Rightarrow> bool" where
  "below k x \<equiv> compare x k < 0"

lemma merged_at:
  assumes "merges ess M" and "j < length ess" and "p < length (ess ! j)"
  shows "cut (below (fst (ess ! j ! p))) M < length M \<and> M ! cut (below (fst (ess ! j ! p))) M = ess ! j ! p"
proof -
  have "set M = set (concat ess)" using mergesD(3) [OF assms(1)] by (rule mset_eq_setD)
  moreover have "ess ! j ! p \<in> set (concat ess)" using assms(2,3) by (auto intro!: bexI [of _ "ess ! j"])
  ultimately have "ess ! j ! p \<in> set M" by simp
  then obtain m where "m < length M" "M ! m = ess ! j ! p" by (auto simp: in_set_conv_nth)
  then show ?thesis using cut_self [OF mergesD(1) [OF assms(1)], of m] by simp
qed

lemma smallest_cut:
  assumes "merges ess M" and "down D" and "j < length ess" and "cut D (ess ! j) < length (ess ! j)"
    and "k = fst (ess ! j ! cut D (ess ! j))"
    and least: "\<And>i. i < length ess \<Longrightarrow> cut D (ess ! i) < length (ess ! i) \<Longrightarrow> \<not> compare (fst (ess ! i ! cut D (ess ! i))) k < 0"
  shows "i < length ess \<Longrightarrow> cut (below k) (ess ! i) = cut D (ess ! i)" and "cut (below k) M = cut D M"
proof -
  have k: "ok k" "\<not> D k" using sorted_ok cut_nth [OF _ assms(2)] mergesD(2) [OF assms(1,3)] assms(4,5) by auto
  show *: "cut (below k) (ess ! i) = cut D (ess ! i)" if i: "i < length ess" for i
  proof (rule cut_unique [OF cut_le])
    note s = mergesD(2) [OF assms(1) i]
    fix m assume m: "m < length (ess ! i)"
    let ?x = "fst (ess ! i ! m)"
    show "compare ?x k < 0 \<longleftrightarrow> m < cut D (ess ! i)"
    proof (cases "m < cut D (ess ! i)")
      case True
      then have "D ?x" using cut_nth [OF s assms(2) m] by simp
      then have "\<not> compare k ?x < 0" "?x \<noteq> k" using assms(2) k sorted_ok [OF s m] unfolding down_def by blast+
      then show ?thesis using True compare_total [OF sorted_ok [OF s m] k(1)] by blast
    next
      case False
      then have c: "cut D (ess ! i) < length (ess ! i)" "compare (fst (ess ! i ! cut D (ess ! i))) ?x \<le> 0"
        using m sorted_le [OF s] by simp_all
      have "\<not> compare ?x k < 0"
        using compare_le_less_trans [OF sorted_ok [OF s c(1)] sorted_ok [OF s m] k(1) c(2)] least [OF i c(1)] by blast
      with False show ?thesis by simp
    qed
  qed
  have "map (cut (below k)) ess = map (cut D) ess" using * by (auto simp: in_set_conv_nth)
  then show "cut (below k) M = cut D M" unfolding cut_merged [OF assms(1) down_less [OF k(1)]] cut_merged [OF assms(1,2)] by (rule arg_cong)
qed

lemma largest_cut:
  assumes "merges ess M" and "down D" and j: "j < length ess" and c: "0 < cut D (ess ! j)"
    and k: "k = fst (ess ! j ! (cut D (ess ! j) - 1))"
    and greatest: "\<And>i. i < length ess \<Longrightarrow> 0 < cut D (ess ! i) \<Longrightarrow> \<not> compare (fst (ess ! i ! (cut D (ess ! i) - 1))) k > 0"
  shows "i < length ess \<Longrightarrow> cut (below k) (ess ! i) = (if i = j then cut D (ess ! j) - 1 else cut D (ess ! i))"
    and "cut (below k) M = cut D M - 1" and "0 < cut D M"
proof -
  note sj = mergesD(2) [OF assms(1) j]
  have last: "cut D (ess ! j) - 1 < length (ess ! j)" using c cut_le [of D "ess ! j"] by simp
  have ok: "ok k" "D k" using sorted_ok [OF sj last] cut_nth [OF sj assms(2) last] c k by auto
  show *: "cut (below k) (ess ! i) = (if i = j then cut D (ess ! j) - 1 else cut D (ess ! i))" if i: "i < length ess" for i
  proof (cases "i = j")
    case True
    then show ?thesis using cut_self [OF sj last] k by simp
  next
    case False
    note s = mergesD(2) [OF assms(1) i]
    have "cut (below k) (ess ! i) = cut D (ess ! i)"
    proof (rule cut_unique [OF cut_le])
      fix m assume m: "m < length (ess ! i)"
      let ?x = "fst (ess ! i ! m)" and ?l = "fst (ess ! i ! (cut D (ess ! i) - 1))"
      note okx = sorted_ok [OF s m]
      show "compare ?x k < 0 \<longleftrightarrow> m < cut D (ess ! i)"
      proof (cases "m < cut D (ess ! i)")
        case True
        then have l: "cut D (ess ! i) - 1 < length (ess ! i)" "compare ?x ?l \<le> 0" "\<not> compare ?l k > 0"
          using cut_le [of D "ess ! i"] sorted_le [OF s] greatest [OF i] by simp_all
        have "?x \<noteq> k" using merged_keys [OF assms(1) i j False nth_mem [OF m] nth_mem [OF last]] k by simp
        moreover have "\<not> compare k ?x < 0"
          using compare_less_le_trans [OF ok(1) okx sorted_ok [OF s l(1)] _ l(2)] compare_sym [OF ok(1) sorted_ok [OF s l(1)]] l(3) by blast
        ultimately show ?thesis using True compare_total [OF okx ok(1)] by blast
      next
        case no: False
        then have "\<not> D ?x" using cut_nth [OF s assms(2) m] by simp
        with assms(2) ok okx no show ?thesis unfolding down_def by blast
      qed
    qed
    with False show ?thesis by simp
  qed
  have "map (cut (below k)) ess = (map (cut D) ess)[j := cut D (ess ! j) - 1]"
    by (rule nth_equalityI) (simp_all add: * nth_list_update)
  then have "sum_list (map (cut (below k)) ess) = sum_list (map (cut D) ess) + (cut D (ess ! j) - 1) - cut D (ess ! j)"
    using j by (simp add: sum_list_update)
  moreover have "cut D (ess ! j) \<le> sum_list (map (cut D) ess)" using elem_le_sum_list [of j "map (cut D) ess"] j by simp
  moreover note cut_merged [OF assms(1,2)] cut_merged [OF assms(1) down_less [OF ok(1)]]
  ultimately show "cut (below k) M = cut D M - 1" "0 < cut D M" using c by simp_all
qed

end

section \<open>The best child\<close>

lemma better_simps:
  "\<not> iw_valid (snd (cs ! i)) \<Longrightarrow> better wins cs best i = best"
  "iw_valid (snd (cs ! i)) \<Longrightarrow> better wins cs None i = Some i"
  "iw_valid (snd (cs ! i)) \<Longrightarrow> better wins cs (Some j) i = Some (if wins (child_key cs i) (child_key cs j) then i else j)"
  by (simp_all add: better_def)

lemma better_fold:
  assumes "\<And>i. i \<in> set is \<Longrightarrow> iw_valid (snd (cs ! i)) \<Longrightarrow> \<not> wins (child_key cs i) (child_key cs i)"
    and "\<And>i j l. i \<in> set is \<Longrightarrow> j \<in> set is \<Longrightarrow> l \<in> set is \<Longrightarrow> iw_valid (snd (cs ! i)) \<Longrightarrow> iw_valid (snd (cs ! j)) \<Longrightarrow>
      iw_valid (snd (cs ! l)) \<Longrightarrow> wins (child_key cs i) (child_key cs j) \<Longrightarrow> wins (child_key cs j) (child_key cs l) \<Longrightarrow>
      wins (child_key cs i) (child_key cs l)"
  shows "case foldl (better wins cs) None is of
      None \<Rightarrow> \<forall>i \<in> set is. \<not> iw_valid (snd (cs ! i))
    | Some j \<Rightarrow> j \<in> set is \<and> iw_valid (snd (cs ! j)) \<and>
        (\<forall>i \<in> set is. iw_valid (snd (cs ! i)) \<longrightarrow> \<not> wins (child_key cs i) (child_key cs j))"
  using assms
proof (induction "is" rule: rev_induct)
  case (snoc i "is")
  let ?b = "foldl (better wins cs) None is"
  have IH: "case ?b of None \<Rightarrow> \<forall>i \<in> set is. \<not> iw_valid (snd (cs ! i))
    | Some j \<Rightarrow> j \<in> set is \<and> iw_valid (snd (cs ! j)) \<and>
        (\<forall>i \<in> set is. iw_valid (snd (cs ! i)) \<longrightarrow> \<not> wins (child_key cs i) (child_key cs j))"
  proof (rule snoc.IH)
    fix a b d
    assume "a \<in> set is" "iw_valid (snd (cs ! a))"
    then show "\<not> wins (child_key cs a) (child_key cs a)" using snoc.prems(1) [of a] by simp
    assume "b \<in> set is" "d \<in> set is" "iw_valid (snd (cs ! b))" "iw_valid (snd (cs ! d))"
      "wins (child_key cs a) (child_key cs b)" "wins (child_key cs b) (child_key cs d)"
    with \<open>a \<in> set is\<close> \<open>iw_valid (snd (cs ! a))\<close> show "wins (child_key cs a) (child_key cs d)" using snoc.prems(2) [of a b d] by simp
  qed
  show ?case
  proof (cases "iw_valid (snd (cs ! i))")
    case False
    then show ?thesis using IH by (cases ?b) (simp_all add: better_simps)
  next
    case v: True
    have ir: "\<not> wins (child_key cs i) (child_key cs i)" using snoc.prems(1) v by simp
    show ?thesis
    proof (cases ?b)
      case None
      then show ?thesis using IH v ir by (simp add: better_simps)
    next
      case (Some j)
      have j: "j \<in> set is" "iw_valid (snd (cs ! j))" "\<And>l. l \<in> set is \<Longrightarrow> iw_valid (snd (cs ! l)) \<Longrightarrow> \<not> wins (child_key cs l) (child_key cs j)"
        using IH Some by simp_all
      have "\<not> wins (child_key cs l) (child_key cs i)"
        if "wins (child_key cs i) (child_key cs j)" "l \<in> set is" "iw_valid (snd (cs ! l))" for l
        using snoc.prems(2) [of l i j] that j v by auto
      then show ?thesis using Some j v ir by (auto simp: better_simps)
    qed
  qed
qed simp

lemma each_from_Some:
  assumes "\<And>i. i < length xs \<Longrightarrow> \<exists>y. f (k + i) (xs ! i) = Some y \<and> P i y"
  shows "\<exists>ys. each_from f k xs = Some ys \<and> length ys = length xs \<and> (\<forall>i < length xs. P i (ys ! i))"
  using assms
proof (induction xs arbitrary: k P)
  case (Cons x xs)
  obtain y where y: "f k x = Some y" "P 0 y" using Cons.prems [of 0] by auto
  have "\<exists>y. f (Suc k + i) (xs ! i) = Some y \<and> P (Suc i) y" if "i < length xs" for i using Cons.prems [of "Suc i"] that by simp
  from Cons.IH [of "Suc k" "\<lambda>i. P (Suc i)", OF this] obtain ys where
    "each_from f (Suc k) xs = Some ys" "length ys = length xs" "\<forall>i < length xs. P (Suc i) (ys ! i)" by blast
  with y show ?case by (intro exI [of _ "y # ys"]) (simp add: All_less_Suc2)
qed simp

section \<open>The contract\<close>

text \<open>What is known of a child: its operations satisfy the contract, with these entries.\<close>

record 's child_spec =
  sp_ops :: "'s iter_ops"
  sp_entries :: "entry list"
  sp_inv :: "'s \<Rightarrow> bool"
  sp_pos :: "'s \<Rightarrow> nat"

text \<open>Where a child stands that has gone back from a position.\<close>

definition retreat :: "nat \<Rightarrow> nat \<Rightarrow> nat" where
  "retreat p n = (if p = 0 then n else p - 1)"

locale merge_contract = comparator ok compare separator successor
  for ok compare separator successor +
  fixes specs :: "'s child_spec list" and M :: "entry list"
  assumes children: "i < length specs \<Longrightarrow> op_iterator (sp_ops (specs ! i)) (sp_entries (specs ! i)) ok (\<lambda>k t. compare k t < 0)
      (sp_inv (specs ! i)) (sp_pos (specs ! i))"
    and merged: "merges (map sp_entries specs) M"
begin

abbreviation es :: "nat \<Rightarrow> entry list" where
  "es i \<equiv> sp_entries (specs ! i)"

definition child_ok :: "nat \<Rightarrow> 's child \<Rightarrow> nat \<Rightarrow> bool" where
  "child_ok i c p \<longleftrightarrow> fst c = sp_ops (specs ! i) \<and> op_iterator.winv (sp_ops (specs ! i)) (sp_inv (specs ! i)) (snd c) \<and>
     op_iterator.wpos (sp_pos (specs ! i)) (snd c) = p"

lemma wrapped_child:
  "i < length specs \<Longrightarrow> op_iterator (wrapper_ops (sp_ops (specs ! i))) (es i) ok (\<lambda>k t. compare k t < 0)
    (op_iterator.winv (sp_ops (specs ! i)) (sp_inv (specs ! i))) (op_iterator.wpos (sp_pos (specs ! i)))"
  by (rule op_iterator.wrapped [OF children])

lemma child_valid: "i < length specs \<Longrightarrow> child_ok i c p \<Longrightarrow> iw_valid (snd c) \<longleftrightarrow> p < length (es i)"
  using iterator.valid_pos [OF op_iterator.axioms [OF wrapped_child], of i "snd c"] by (auto simp: child_ok_def wrapper_ops_def)

lemma child_entry:
  assumes "i < length specs" and "child_ok i c p" and "p < length (es i)"
  shows "iw_key (snd c) = fst (es i ! p)" "io_key (wrapper_ops (fst c)) (snd c) = Some (fst (es i ! p))"
    "io_value (wrapper_ops (fst c)) (snd c) = Some (snd (es i ! p))"
proof -
  have v: "iw_valid (snd c)" using child_valid assms by blast
  then have "io_valid (wrapper_ops (fst c)) (snd c)" by (simp add: wrapper_ops_def)
  then show *: "io_key (wrapper_ops (fst c)) (snd c) = Some (fst (es i ! p))"
    "io_value (wrapper_ops (fst c)) (snd c) = Some (snd (es i ! p))"
    using op_iterator.key_pos [OF wrapped_child [OF assms(1)], of "snd c"] assms(2) by (auto simp: child_ok_def)
  show "iw_key (snd c) = fst (es i ! p)" using *(1) v by (simp add: wrapper_ops_def)
qed

text \<open>The steps of a child.\<close>

lemma child_steps:
  assumes "i < length specs" and "child_ok i c p"
  shows "\<exists>c'. on_child io_first c = Some c' \<and> child_ok i c' 0"
    "\<exists>c'. on_child io_last c = Some c' \<and> child_ok i c' (length (es i) - 1)"
    "ok target \<Longrightarrow> \<exists>c'. on_child (\<lambda>ops. io_seek ops target) c = Some c' \<and> child_ok i c' (cut (below target) (es i))"
    "p < length (es i) \<Longrightarrow> \<exists>c'. on_child io_next c = Some c' \<and> child_ok i c' (Suc p)"
    "p < length (es i) \<Longrightarrow> \<exists>c'. on_child io_prev c = Some c' \<and> child_ok i c' (retreat p (length (es i)))"
proof -
  note it = op_iterator.axioms [OF wrapped_child [OF assms(1)]]
  have w: "op_iterator.winv (sp_ops (specs ! i)) (sp_inv (specs ! i)) (snd c)" "op_iterator.wpos (sp_pos (specs ! i)) (snd c) = p"
    and f: "fst c = sp_ops (specs ! i)" using assms(2) by (auto simp: child_ok_def)
  show "\<exists>c'. on_child io_first c = Some c' \<and> child_ok i c' 0"
    using iterator.first_pos [OF it w(1)] f by (auto simp: on_child_def child_ok_def)
  show "\<exists>c'. on_child io_last c = Some c' \<and> child_ok i c' (length (es i) - 1)"
    using iterator.final_pos [OF it w(1)] f by (auto simp: on_child_def child_ok_def)
  show "\<exists>c'. on_child (\<lambda>ops. io_seek ops target) c = Some c' \<and> child_ok i c' (cut (below target) (es i))" if "ok target"
    using iterator.seek_pos [OF it w(1) that] f by (auto simp: on_child_def child_ok_def cut_def)
  assume "p < length (es i)"
  then have v: "io_valid (wrapper_ops (sp_ops (specs ! i))) (snd c)" using iterator.valid_pos [OF it w(1)] w(2) by simp
  show "\<exists>c'. on_child io_next c = Some c' \<and> child_ok i c' (Suc p)"
    using iterator.next_pos [OF it w(1) v] w(2) f by (auto simp: on_child_def child_ok_def)
  show "\<exists>c'. on_child io_prev c = Some c' \<and> child_ok i c' (retreat p (length (es i)))"
    using iterator.prev_pos [OF it w(1) v] w(2) f by (auto simp: on_child_def child_ok_def retreat_def)
qed

text \<open>All children stand at given positions.\<close>

definition at :: "(nat \<Rightarrow> nat) \<Rightarrow> 's child list \<Rightarrow> bool" where
  "at ps cs \<longleftrightarrow> length cs = length specs \<and> (\<forall>i < length specs. child_ok i (cs ! i) (ps i))"

definition mg_inv :: "'s merger \<Rightarrow> bool" where
  "mg_inv m \<longleftrightarrow> (\<exists>ps. at ps (mg_children m) \<and>
     (case mg_current m of
        None \<Rightarrow> True
      | Some c \<Rightarrow> c < length specs \<and> ps c < length (es c) \<and>
          (\<forall>i < length specs. i \<noteq> c \<longrightarrow> ps i =
             (let n = cut (below (fst (es c ! ps c))) (es i) in if mg_direction m = kForward then n else retreat n (length (es i))))))"

definition mg_pos :: "'s merger \<Rightarrow> nat" where
  "mg_pos m = (case mg_current m of None \<Rightarrow> length M | Some c \<Rightarrow> cut (below (child_key (mg_children m) c)) M)"

lemma es_sorted: "i < length specs \<Longrightarrow> sorted_entries (es i)"
  using mergesD(2) [OF merged, of i] by simp

lemma at_child: "at ps cs \<Longrightarrow> i < length specs \<Longrightarrow> child_ok i (cs ! i) (ps i)"
  by (simp add: at_def)

lemma at_valid: "at ps cs \<Longrightarrow> i < length specs \<Longrightarrow> iw_valid (snd (cs ! i)) \<longleftrightarrow> ps i < length (es i)"
  using child_valid at_child by blast

lemma at_key: "at ps cs \<Longrightarrow> i < length specs \<Longrightarrow> ps i < length (es i) \<Longrightarrow> child_key cs i = fst (es i ! ps i)"
  using child_entry(1) at_child by (auto simp: child_key_def)

lemma at_ok: "at ps cs \<Longrightarrow> i < length specs \<Longrightarrow> iw_valid (snd (cs ! i)) \<Longrightarrow> ok (child_key cs i)"
  using at_key at_valid sorted_ok [OF es_sorted] by simp

lemma best_child:
  assumes "at ps cs" and "set is = {..<length specs}" and "wins = (\<lambda>a b. compare a b < 0) \<or> wins = (\<lambda>a b. compare a b > 0)"
  shows "case foldl (better wins cs) None is of
      None \<Rightarrow> \<forall>i < length specs. ps i \<ge> length (es i)
    | Some j \<Rightarrow> j < length specs \<and> ps j < length (es j) \<and>
        (\<forall>i < length specs. ps i < length (es i) \<longrightarrow> \<not> wins (fst (es i ! ps i)) (fst (es j ! ps j)))"
proof -
  let ?v = "\<lambda>i. iw_valid (snd (cs ! i))" and ?k = "child_key cs"
  have ok: "ok (?k i)" if "i \<in> set is" "?v i" for i using at_ok [OF assms(1)] that assms(2) by simp
  have "case foldl (better wins cs) None is of None \<Rightarrow> \<forall>i \<in> set is. \<not> ?v i
    | Some j \<Rightarrow> j \<in> set is \<and> ?v j \<and> (\<forall>i \<in> set is. ?v i \<longrightarrow> \<not> wins (?k i) (?k j))"
  proof (rule better_fold)
    show "\<not> wins (?k i) (?k i)" if "i \<in> set is" "?v i" for i using compare_self [OF ok [OF that]] assms(3) by auto
    show "wins (?k i) (?k l)" if "i \<in> set is" "j \<in> set is" "l \<in> set is" "?v i" "?v j" "?v l" "wins (?k i) (?k j)" "wins (?k j) (?k l)" for i j l
      using that(7,8) compare_trans [OF ok ok ok, of i j l] compare_trans [OF ok ok ok, of l j i]
        compare_sym [OF ok ok, of l j] compare_sym [OF ok ok, of j i] compare_sym [OF ok ok, of l i] that(1-6) assms(3) by auto
  qed
  then show ?thesis using assms(2) at_valid [OF assms(1)] at_key [OF assms(1)] by (auto split: option.splits simp: not_less)
qed

text \<open>The children stand where a property that is closed downwards ends.\<close>

lemma forwards_at:
  assumes "down D" and "at (\<lambda>i. cut D (es i)) cs"
  shows "mg_inv (forwards compare cs)" and "mg_pos (forwards compare cs) = cut D M"
proof -
  have len: "length cs = length specs" using assms(2) by (simp add: at_def)
  have best: "case FindSmallest compare cs of
      None \<Rightarrow> \<forall>i < length specs. cut D (es i) \<ge> length (es i)
    | Some j \<Rightarrow> j < length specs \<and> cut D (es j) < length (es j) \<and>
        (\<forall>i < length specs. cut D (es i) < length (es i) \<longrightarrow> \<not> compare (fst (es i ! cut D (es i))) (fst (es j ! cut D (es j))) < 0)"
    unfolding FindSmallest_def len by (rule best_child [OF assms(2)]) (simp_all add: atLeast0LessThan)
  have "mg_inv (forwards compare cs) \<and> mg_pos (forwards compare cs) = cut D M"
  proof (cases "FindSmallest compare cs")
    case None
    then have "cut D (es i) = length (es i)" if "i < length specs" for i using best that cut_le [of D "es i"] by (simp add: le_antisym)
    then have "map (cut D) (map sp_entries specs) = map length (map sp_entries specs)" by (auto simp: in_set_conv_nth)
    then have "cut D M = sum_list (map length (map sp_entries specs))" unfolding cut_merged [OF merged assms(1)] by (rule arg_cong)
    then have "cut D M = size (mset (concat (map sp_entries specs)))" by (simp add: length_concat)
    then have "cut D M = length M" using mergesD(3) [OF merged] by (metis size_mset)
    with None assms(2) show ?thesis by (auto simp: mg_inv_def mg_pos_def forwards_def)
  next
    case (Some j)
    let ?k = "fst (es j ! cut D (es j))"
    have j: "j < length specs" "cut D (es j) < length (es j)"
      "\<And>i. i < length specs \<Longrightarrow> cut D (es i) < length (es i) \<Longrightarrow> \<not> compare (fst (es i ! cut D (es i))) ?k < 0"
      using best Some by simp_all
    have "cut (below ?k) (es i) = cut D (es i)" if "i < length specs" for i
      using smallest_cut(1) [OF merged assms(1), of j ?k i] j that by simp
    moreover have "cut (below ?k) M = cut D M" using smallest_cut(2) [OF merged assms(1), of j ?k] j by simp
    moreover have "child_key cs j = ?k" using at_key [OF assms(2) j(1,2)] .
    ultimately show ?thesis using Some j(1,2) assms(2)
      by (auto simp: mg_inv_def mg_pos_def forwards_def intro!: exI [of _ "\<lambda>i. cut D (es i)"])
  qed
  then show "mg_inv (forwards compare cs)" "mg_pos (forwards compare cs) = cut D M" by blast+
qed

text \<open>The children stand at the last entries of a property that is closed downwards.\<close>

lemma retreat_less: "p \<le> n \<Longrightarrow> retreat p n < n \<longleftrightarrow> 0 < p"
  by (auto simp: retreat_def)

lemma backwards_at:
  assumes "down D" and "at (\<lambda>i. retreat (cut D (es i)) (length (es i))) cs"
  shows "mg_inv (backwards compare cs)" and "mg_pos (backwards compare cs) = retreat (cut D M) (length M)"
proof -
  have len: "length cs = length specs" using assms(2) by (simp add: at_def)
  have best: "case FindLargest compare cs of
      None \<Rightarrow> \<forall>i < length specs. retreat (cut D (es i)) (length (es i)) \<ge> length (es i)
    | Some j \<Rightarrow> j < length specs \<and> retreat (cut D (es j)) (length (es j)) < length (es j) \<and>
        (\<forall>i < length specs. retreat (cut D (es i)) (length (es i)) < length (es i) \<longrightarrow>
          \<not> compare (fst (es i ! retreat (cut D (es i)) (length (es i)))) (fst (es j ! retreat (cut D (es j)) (length (es j)))) > 0)"
    unfolding FindLargest_def len by (rule best_child [OF assms(2)]) (simp_all add: atLeast0LessThan)
  have r: "retreat (cut D (es i)) (length (es i)) < length (es i) \<longleftrightarrow> 0 < cut D (es i)" for i by (rule retreat_less [OF cut_le])
  have "mg_inv (backwards compare cs) \<and> mg_pos (backwards compare cs) = retreat (cut D M) (length M)"
  proof (cases "FindLargest compare cs")
    case None
    then have "\<forall>i < length specs. cut D (es i) = 0" using best r by (auto simp: not_less [symmetric])
    then have "map (cut D) (map sp_entries specs) = map (\<lambda>_. 0) specs" by (auto simp: in_set_conv_nth)
    then have "cut D M = 0" using cut_merged [OF merged assms(1)] by (simp add: sum_list_triv)
    with None assms(2) show ?thesis by (auto simp: mg_inv_def mg_pos_def backwards_def retreat_def)
  next
    case (Some j)
    let ?k = "fst (es j ! (cut D (es j) - 1))"
    have j: "j < length specs" "0 < cut D (es j)" using best Some r by simp_all
    have g: "\<not> compare (fst (es i ! (cut D (es i) - 1))) ?k > 0" if "i < length specs" "0 < cut D (es i)" for i
    proof -
      have "retreat (cut D (es i)) (length (es i)) = cut D (es i) - 1" "retreat (cut D (es j)) (length (es j)) = cut D (es j) - 1"
        using that j by (simp_all add: retreat_def)
      then show ?thesis using best Some r that j by auto
    qed
    have "cut (below ?k) (es i) = cut D (es i)" if "i < length specs" "i \<noteq> j" for i
      using largest_cut(1) [OF merged assms(1), of j ?k i] j g that by simp
    moreover have "cut (below ?k) M = cut D M - 1" "0 < cut D M" using largest_cut(2,3) [OF merged assms(1), of j ?k] j g by simp_all
    moreover have "child_key cs j = ?k" using at_key [OF assms(2) j(1)] r [of j] j(2) by (simp add: retreat_def)
    ultimately show ?thesis using Some j assms(2) r [of j]
      by (auto simp: mg_inv_def mg_pos_def backwards_def retreat_def [of "cut D M"] Let_def retreat_def [of "cut D (es j)"]
          intro!: exI [of _ "\<lambda>i. retreat (cut D (es i)) (length (es i))"])
  qed
  then show "mg_inv (backwards compare cs)" "mg_pos (backwards compare cs) = retreat (cut D M) (length M)" by blast+
qed

text \<open>Steps of all, of one and of the other children.\<close>

lemma each_at:
  assumes "at ps cs" and "\<And>i. i < length specs \<Longrightarrow> \<exists>c'. f i (cs ! i) = Some c' \<and> child_ok i c' (qs i)"
  shows "\<exists>cs'. each_from f 0 cs = Some cs' \<and> at qs cs'"
  using each_from_Some [of cs f 0 "\<lambda>i c'. child_ok i c' (qs i)"] assms by (auto simp: at_def)

lemma one_at:
  assumes "at ps cs" and "c < length specs" and "\<exists>c'. on_child f (cs ! c) = Some c' \<and> child_ok c c' p"
    and "\<And>i. i < length specs \<Longrightarrow> i \<noteq> c \<Longrightarrow> qs i = ps i" and "qs c = p"
  shows "\<exists>cs'. one_child f c cs = Some cs' \<and> at qs cs'"
  unfolding one_child_def by (rule each_at [OF assms(1)]) (use assms at_child [OF assms(1)] in \<open>auto simp del: split_paired_Ex\<close>)

lemma other_at:
  assumes "at ps cs" and "\<And>i. i < length specs \<Longrightarrow> i \<noteq> c \<Longrightarrow> \<exists>c'. on_child f (cs ! i) = Some c' \<and> child_ok i c' (qs i)" and "qs c = ps c"
  shows "\<exists>cs'. other_children f c cs = Some cs' \<and> at qs cs'"
  unfolding other_children_def by (rule each_at [OF assms(1)]) (use assms at_child [OF assms(1)] in \<open>auto simp del: split_paired_Ex\<close>)

lemma on_child_comp:
  "on_child (\<lambda>ops w. do { w \<leftarrow> f ops w; g ops w }) c = do { c \<leftarrow> on_child f c; on_child g c }"
  by (cases "f (wrapper_ops (fst c)) (snd c)") (simp_all add: on_child_def)

text \<open>The current entry, and what is before it and up to it in each list.\<close>

lemma cut_upto_self: "sorted_entries es' \<Longrightarrow> p < length es' \<Longrightarrow> cut (\<lambda>x. compare x (fst (es' ! p)) \<le> 0) es' = Suc p"
proof (rule cut_unique)
  fix i assume s: "sorted_entries es'" and p: "p < length es'" and i: "i < length es'"
  have "compare (fst (es' ! i)) (fst (es' ! p)) \<le> 0 \<longleftrightarrow> \<not> compare (fst (es' ! p)) (fst (es' ! i)) < 0"
    using compare_not_less [OF sorted_ok [OF s p] sorted_ok [OF s i]] by simp
  then show "compare (fst (es' ! i)) (fst (es' ! p)) \<le> 0 \<longleftrightarrow> i < Suc p" using sorted_less_iff [OF s p i] by auto
qed simp

lemma cut_upto_other:
  assumes "c < length specs" and "p < length (es c)" and "i < length specs" and "i \<noteq> c"
  shows "cut (\<lambda>x. compare x (fst (es c ! p)) \<le> 0) (es i) = cut (below (fst (es c ! p))) (es i)"
proof (rule cut_unique [OF cut_le])
  let ?k = "fst (es c ! p)"
  note s = es_sorted [OF assms(3)]
  have k: "ok ?k" using sorted_ok [OF es_sorted [OF assms(1)] assms(2)] .
  fix m assume m: "m < length (es i)"
  have "fst (es i ! m) \<noteq> ?k"
    using merged_keys [OF merged, of i c "es i ! m" "es c ! p"] assms m by simp
  then have "compare (fst (es i ! m)) ?k \<noteq> 0" using compare_0 [OF sorted_ok [OF s m] k] by simp
  then have "compare (fst (es i ! m)) ?k \<le> 0 \<longleftrightarrow> compare (fst (es i ! m)) ?k < 0" by linarith
  then show "compare (fst (es i ! m)) ?k \<le> 0 \<longleftrightarrow> m < cut (below ?k) (es i)" using cut_nth [OF s down_less [OF k] m] by simp
qed

lemma current:
  assumes "mg_inv m" and "mg_current m = Some c"
  obtains ps where "at ps (mg_children m)" "c < length specs" "ps c < length (es c)" "child_key (mg_children m) c = fst (es c ! ps c)"
    "ok (fst (es c ! ps c))" "cut (below (fst (es c ! ps c))) (es c) = ps c" "mg_pos m < length M" "M ! mg_pos m = es c ! ps c"
    "mg_pos m = cut (below (fst (es c ! ps c))) M"
    "\<And>i. i < length specs \<Longrightarrow> i \<noteq> c \<Longrightarrow> ps i =
       (let n = cut (below (fst (es c ! ps c))) (es i) in if mg_direction m = kForward then n else retreat n (length (es i)))"
proof -
  from assms obtain ps where ps: "at ps (mg_children m)" "c < length specs" "ps c < length (es c)"
    "\<And>i. i < length specs \<Longrightarrow> i \<noteq> c \<Longrightarrow> ps i =
       (let n = cut (below (fst (es c ! ps c))) (es i) in if mg_direction m = kForward then n else retreat n (length (es i)))"
    by (auto simp: mg_inv_def)
  have key: "child_key (mg_children m) c = fst (es c ! ps c)" using at_key [OF ps(1-3)] .
  then have pos: "mg_pos m = cut (below (fst (es c ! ps c))) M" using assms(2) by (simp add: mg_pos_def)
  show thesis
    by (rule that [OF ps(1-3) key sorted_ok [OF es_sorted [OF ps(2)] ps(3)] cut_self [OF es_sorted [OF ps(2)] ps(3)]])
      (use merged_at [OF merged, of c "ps c"] ps(2,3) pos in simp_all, rule ps(4))
qed

text \<open>A step of all children.\<close>

lemma all_at:
  assumes "mg_inv m" and "\<And>i c p. i < length specs \<Longrightarrow> child_ok i c p \<Longrightarrow> \<exists>c'. on_child f c = Some c' \<and> child_ok i c' (qs i)"
  shows "\<exists>cs'. all_children f (mg_children m) = Some cs' \<and> at qs cs'"
proof -
  obtain ps where ps: "at ps (mg_children m)" using assms(1) by (auto simp: mg_inv_def)
  show ?thesis unfolding all_children_def by (rule each_at [OF ps]) (rule assms(2) [OF _ at_child [OF ps]])
qed

text \<open>Whatever the direction was, the other children end up before or behind the current key.\<close>

lemma switch_forward:
  assumes "mg_inv m" and "mg_current m = Some c"
  shows "\<exists>cs. (if mg_direction m \<noteq> kForward then
      other_children (\<lambda>ops w. do {
        w \<leftarrow> io_seek ops (child_key (mg_children m) c) w;
        if io_valid ops w \<and> compare (child_key (mg_children m) c) (iw_key w) = 0 then io_next ops w else Some w
      }) c (mg_children m)
    else Some (mg_children m)) = Some cs \<and> at (\<lambda>i. cut (below (child_key (mg_children m) c)) (es i)) cs"
proof -
  obtain ps where ps: "at ps (mg_children m)" "c < length specs" "ps c < length (es c)" "child_key (mg_children m) c = fst (es c ! ps c)"
    "ok (fst (es c ! ps c))" "cut (below (fst (es c ! ps c))) (es c) = ps c"
    "\<And>i. i < length specs \<Longrightarrow> i \<noteq> c \<Longrightarrow> ps i =
       (let n = cut (below (fst (es c ! ps c))) (es i) in if mg_direction m = kForward then n else retreat n (length (es i)))"
    by (rule current [OF assms], rule that) (assumption | blast)+
  let ?k = "fst (es c ! ps c)"
  let ?q = "\<lambda>i. cut (below ?k) (es i)"
  show ?thesis
  proof (cases "mg_direction m = kForward")
    case True
    have "at ?q (mg_children m)" unfolding at_def
    proof (intro conjI allI impI)
      fix i assume i: "i < length specs"
      have "?q i = ps i" using ps(6,7) True i by (cases "i = c") simp_all
      then show "child_ok i (mg_children m ! i) (?q i)" using at_child [OF ps(1) i] by simp
    qed (use ps(1) in \<open>simp add: at_def\<close>)
    with True show ?thesis unfolding ps(4) by simp
  next
    case False
    let ?g = "\<lambda>ops w. if io_valid ops w \<and> compare ?k (iw_key w) = 0 then io_next ops w else Some w"
    have "\<exists>c'. on_child (\<lambda>ops w. do { w \<leftarrow> io_seek ops ?k w; ?g ops w }) (mg_children m ! i) = Some c' \<and> child_ok i c' (?q i)"
      if i: "i < length specs" "i \<noteq> c" for i
    proof -
      obtain c' where c': "on_child (\<lambda>ops. io_seek ops ?k) (mg_children m ! i) = Some c'" "child_ok i c' (?q i)"
        using child_steps(3) [OF i(1) at_child [OF ps(1) i(1)] ps(5)] by blast
      have "compare ?k (iw_key (snd c')) \<noteq> 0" if "iw_valid (snd c')"
      proof -
        have q: "?q i < length (es i)" using child_valid [OF i(1) c'(2)] that by simp
        have "fst (es i ! ?q i) \<noteq> ?k"
          using merged_keys [OF merged, of i c "es i ! ?q i" "es c ! ps c"] i ps(2,3) q by simp
        then show ?thesis using compare_0 [OF ps(5) sorted_ok [OF es_sorted [OF i(1)] q]] child_entry(1) [OF i(1) c'(2) q] by metis
      qed
      then have "on_child ?g c' = Some c'" by (cases c') (auto simp: on_child_def wrapper_ops_def)
      then show ?thesis using c' by (simp add: on_child_comp del: split_paired_Ex)
    qed
    from other_at [OF ps(1) this ps(6)] False show ?thesis unfolding ps(4) by simp
  qed
qed

lemma switch_backward:
  assumes "mg_inv m" and "mg_current m = Some c"
  shows "\<exists>cs qs. (if mg_direction m \<noteq> kReverse then
      other_children (\<lambda>ops w. do {
        w \<leftarrow> io_seek ops (child_key (mg_children m) c) w;
        if io_valid ops w then io_prev ops w else io_last ops w
      }) c (mg_children m)
    else Some (mg_children m)) = Some cs \<and> at qs cs \<and> qs c = cut (below (child_key (mg_children m) c)) (es c) \<and>
    (\<forall>i < length specs. i \<noteq> c \<longrightarrow> qs i = retreat (cut (below (child_key (mg_children m) c)) (es i)) (length (es i)))"
proof -
  obtain ps where ps: "at ps (mg_children m)" "c < length specs" "ps c < length (es c)" "child_key (mg_children m) c = fst (es c ! ps c)"
    "ok (fst (es c ! ps c))" "cut (below (fst (es c ! ps c))) (es c) = ps c"
    "\<And>i. i < length specs \<Longrightarrow> i \<noteq> c \<Longrightarrow> ps i =
       (let n = cut (below (fst (es c ! ps c))) (es i) in if mg_direction m = kForward then n else retreat n (length (es i)))"
    by (rule current [OF assms], rule that) (assumption | blast)+
  let ?k = "fst (es c ! ps c)"
  let ?n = "\<lambda>i. cut (below ?k) (es i)"
  let ?q = "\<lambda>i. if i = c then ps c else retreat (?n i) (length (es i))"
  show ?thesis
  proof (cases "mg_direction m = kReverse")
    case True
    then show ?thesis unfolding ps(4) using ps(1,6,7) by (intro exI [of _ "mg_children m"] exI [of _ ps]) simp
  next
    case False
    let ?g = "\<lambda>ops w. if io_valid ops w then io_prev ops w else io_last ops w"
    have "\<exists>c'. on_child (\<lambda>ops w. do { w \<leftarrow> io_seek ops ?k w; ?g ops w }) (mg_children m ! i) = Some c' \<and> child_ok i c' (?q i)"
      if i: "i < length specs" "i \<noteq> c" for i
    proof -
      obtain c' where c': "on_child (\<lambda>ops. io_seek ops ?k) (mg_children m ! i) = Some c'" "child_ok i c' (?n i)"
        using child_steps(3) [OF i(1) at_child [OF ps(1) i(1)] ps(5)] by blast
      have g: "on_child ?g c' = (if iw_valid (snd c') then on_child io_prev c' else on_child io_last c')"
        by (simp add: on_child_def wrapper_ops_def)
      have "\<exists>c''. on_child ?g c' = Some c'' \<and> child_ok i c'' (?q i)"
      proof (cases "?n i < length (es i)")
        case True
        then show ?thesis using g child_valid [OF i(1) c'(2)] child_steps(5) [OF i(1) c'(2)] i(2) by simp
      next
        case no: False
        then have "?n i = length (es i)" using cut_le [of "below ?k" "es i"] by simp
        then have "?q i = length (es i) - 1" using i(2) by (simp add: retreat_def)
        then show ?thesis using g no child_valid [OF i(1) c'(2)] child_steps(2) [OF i(1) c'(2)] by simp
      qed
      then show ?thesis using c'(1) by (simp add: on_child_comp del: split_paired_Ex)
    qed
    from other_at [where c = c and qs = ?q, OF ps(1) this] obtain cs where
      "other_children (\<lambda>ops w. do { w \<leftarrow> io_seek ops ?k w; ?g ops w }) c (mg_children m) = Some cs" "at ?q cs" by auto
    with False ps(6) show ?thesis unfolding ps(4) by (intro exI [of _ cs] exI [of _ ?q]) simp
  qed
qed

text \<open>The steps of the merging iterator.\<close>

lemma Next_at:
  assumes "mg_inv m" and "mg_current m = Some c"
  shows "\<exists>m'. MI_Next compare m = Some m' \<and> mg_inv m' \<and> mg_pos m' = Suc (mg_pos m)"
proof -
  obtain ps where ps: "c < length specs" "ps c < length (es c)" "child_key (mg_children m) c = fst (es c ! ps c)"
    "ok (fst (es c ! ps c))" "cut (below (fst (es c ! ps c))) (es c) = ps c" "mg_pos m < length M" "M ! mg_pos m = es c ! ps c"
    by (rule current [OF assms], rule that) (assumption | blast)+
  let ?k = "fst (es c ! ps c)"
  let ?D = "\<lambda>x. compare x ?k \<le> 0"
  obtain cs where cs: "(if mg_direction m \<noteq> kForward then
      other_children (\<lambda>ops w. do {
        w \<leftarrow> io_seek ops ?k w; if io_valid ops w \<and> compare ?k (iw_key w) = 0 then io_next ops w else Some w
      }) c (mg_children m)
    else Some (mg_children m)) = Some cs" "at (\<lambda>i. cut (below ?k) (es i)) cs"
    using switch_forward [OF assms] unfolding ps(3) by blast
  have "child_ok c (cs ! c) (ps c)" using at_child [OF cs(2) ps(1)] ps(5) by simp
  from child_steps(4) [OF ps(1) this ps(2)] obtain cs' where cs': "one_child io_next c cs = Some cs'" "at (\<lambda>i. cut ?D (es i)) cs'"
    using one_at [OF cs(2) ps(1), of io_next "Suc (ps c)" "\<lambda>i. cut ?D (es i)"] cut_upto_other [OF ps(1,2)]
      cut_upto_self [OF es_sorted [OF ps(1)] ps(2)] by blast
  have "MI_Next compare m = Some (forwards compare cs')" by (simp only: MI_Next_def assms(2) Option.bind_lunit Let_def ps(3) cs(1) cs'(1))
  moreover have "cut ?D M = Suc (mg_pos m)" using cut_upto_self [OF mergesD(1) [OF merged] ps(6)] ps(7) by simp
  ultimately show ?thesis using forwards_at [OF down_le [OF ps(4)] cs'(2)] by simp
qed

lemma Prev_at:
  assumes "mg_inv m" and "mg_current m = Some c"
  shows "\<exists>m'. MI_Prev compare m = Some m' \<and> mg_inv m' \<and> mg_pos m' = retreat (mg_pos m) (length M)"
proof -
  obtain ps where ps: "c < length specs" "ps c < length (es c)" "child_key (mg_children m) c = fst (es c ! ps c)"
    "ok (fst (es c ! ps c))" "cut (below (fst (es c ! ps c))) (es c) = ps c" "mg_pos m = cut (below (fst (es c ! ps c))) M"
    by (rule current [OF assms], rule that) (assumption | blast)+
  let ?k = "fst (es c ! ps c)"
  obtain cs qs where cs: "(if mg_direction m \<noteq> kReverse then
      other_children (\<lambda>ops w. do {
        w \<leftarrow> io_seek ops ?k w; if io_valid ops w then io_prev ops w else io_last ops w
      }) c (mg_children m)
    else Some (mg_children m)) = Some cs" "at qs cs" "qs c = ps c"
    "\<And>i. i < length specs \<Longrightarrow> i \<noteq> c \<Longrightarrow> qs i = retreat (cut (below ?k) (es i)) (length (es i))"
    using switch_backward [OF assms] unfolding ps(3,5) by blast
  have "child_ok c (cs ! c) (ps c)" using at_child [OF cs(2) ps(1)] cs(3) by simp
  from child_steps(5) [OF ps(1) this ps(2)] obtain cs' where cs': "one_child io_prev c cs = Some cs'"
    "at (\<lambda>i. retreat (cut (below ?k) (es i)) (length (es i))) cs'"
    using one_at [OF cs(2) ps(1), of io_prev "retreat (ps c) (length (es c))" "\<lambda>i. retreat (cut (below ?k) (es i)) (length (es i))"]
      cs(4) ps(5) by auto
  have "MI_Prev compare m = Some (backwards compare cs')" by (simp only: MI_Prev_def assms(2) Option.bind_lunit Let_def ps(3) cs(1) cs'(1))
  then show ?thesis using backwards_at [OF down_less [OF ps(4)] cs'(2)] ps(6) by simp
qed

text \<open>The merging iterator satisfies the contract of an iterator over all entries.\<close>

theorem merging_iterator: "op_iterator (merger_ops compare) M ok (\<lambda>k t. compare k t < 0) mg_inv mg_pos"
proof
  fix m assume m: "mg_inv m"
  show "io_valid (merger_ops compare) m = (mg_pos m < length M)"
  proof (cases "mg_current m")
    case (Some c)
    show ?thesis by (rule current [OF m Some]) (simp add: merger_ops_def Some)
  qed (simp add: merger_ops_def mg_pos_def)
  show "\<exists>m'. io_first (merger_ops compare) m = Some m' \<and> mg_inv m' \<and> mg_pos m' = 0"
  proof -
    have len: "cut (\<lambda>_. False) xs = 0" for xs by (cases xs) (simp_all add: cut_def)
    obtain cs where cs: "all_children io_first (mg_children m) = Some cs" "at (\<lambda>_. 0) cs"
      using all_at [OF m, of io_first "\<lambda>_. 0"] child_steps(1) by blast
    then have "at (\<lambda>i. cut (\<lambda>_. False) (es i)) cs" by (simp add: len)
    from forwards_at [OF down_none this] show ?thesis using cs(1) by (simp add: merger_ops_def MI_SeekToFirst_def len)
  qed
  show "\<exists>m'. io_last (merger_ops compare) m = Some m' \<and> mg_inv m' \<and> mg_pos m' = length M - 1"
  proof -
    have "cut (\<lambda>_. True) xs = length xs" for xs by (rule cut_unique) simp_all
    moreover have "retreat n n = n - 1" for n by (simp add: retreat_def)
    ultimately have len: "cut (\<lambda>_. True) xs = length xs" "retreat n n = n - 1" for xs n by blast+
    obtain cs where cs: "all_children io_last (mg_children m) = Some cs" "at (\<lambda>i. length (es i) - 1) cs"
      using all_at [OF m, of io_last "\<lambda>i. length (es i) - 1"] child_steps(2) by blast
    then have "at (\<lambda>i. retreat (cut (\<lambda>_. True) (es i)) (length (es i))) cs" by (simp add: len)
    from backwards_at [OF down_all this] show ?thesis using cs(1) by (simp add: merger_ops_def MI_SeekToLast_def len)
  qed
  show "\<exists>m'. io_seek (merger_ops compare) target m = Some m' \<and> mg_inv m' \<and> mg_pos m' = length (takeWhile (\<lambda>e. compare (fst e) target < 0) M)"
    if t: "ok target" for target
  proof -
    obtain cs where cs: "all_children (\<lambda>ops. io_seek ops target) (mg_children m) = Some cs" "at (\<lambda>i. cut (below target) (es i)) cs"
      using all_at [OF m, of "\<lambda>ops. io_seek ops target" "\<lambda>i. cut (below target) (es i)"] child_steps(3) [OF _ _ t] by blast
    then show ?thesis using forwards_at [OF down_less [OF t] cs(2)] by (simp add: merger_ops_def MI_Seek_def cut_def)
  qed
  assume "io_valid (merger_ops compare) m"
  then obtain c where c: "mg_current m = Some c" by (auto simp: merger_ops_def)
  show "io_entry (merger_ops compare) m = Some (M ! mg_pos m)"
  proof (rule current [OF m c])
    fix ps assume ps: "at ps (mg_children m)" "c < length specs" "ps c < length (es c)" "M ! mg_pos m = es c ! ps c"
    have "io_entry (merger_ops compare) m = Some (fst (es c ! ps c), snd (es c ! ps c))"
      using c child_entry(2,3) [OF ps(2) at_child [OF ps(1,2)] ps(3)]
      by (simp add: io_entry_def merger_ops_def MI_at_def case_prod_beta)
    then show ?thesis using ps(4) by simp
  qed
  show "\<exists>m'. io_next (merger_ops compare) m = Some m' \<and> mg_inv m' \<and> mg_pos m' = Suc (mg_pos m)"
    using Next_at [OF m c] by (simp add: merger_ops_def)
  show "\<exists>m'. io_prev (merger_ops compare) m = Some m' \<and> mg_inv m' \<and> mg_pos m' = (if mg_pos m = 0 then length M else mg_pos m - 1)"
    using Prev_at [OF m c] by (simp add: merger_ops_def retreat_def)
qed

text \<open>It can be made from iterators that satisfy theirs.\<close>

lemma new_merger_inv:
  assumes "length its = length specs"
    and "\<And>i. i < length specs \<Longrightarrow> fst (its ! i) = sp_ops (specs ! i) \<and> sp_inv (specs ! i) (snd (its ! i))"
  shows "\<exists>m. new_merger its = Some m \<and> mg_inv m \<and> mg_pos m = length M"
proof -
  let ?f = "\<lambda>_. \<lambda>(ops, it). map_option (Pair ops) (iw_Set ops (Some it) new_wrapper)"
  have "\<exists>c. ?f (0 + i) (its ! i) = Some c \<and> child_ok i c (sp_pos (specs ! i) (snd (its ! i)))" if "i < length its" for i
  proof -
    have i: "i < length specs" using that assms(1) by simp
    obtain w where "iw_Update (sp_ops (specs ! i)) (snd (its ! i)) new_wrapper = Some w"
      "op_iterator.winv (sp_ops (specs ! i)) (sp_inv (specs ! i)) w" "op_iterator.wpos (sp_pos (specs ! i)) w = sp_pos (specs ! i) (snd (its ! i))"
      using op_iterator.Update_winv [OF children [OF i], of "snd (its ! i)" new_wrapper] assms(2) [OF i] by blast
    then show ?thesis using assms(2) [OF i] by (auto simp: case_prod_beta iw_Set_def child_ok_def)
  qed
  from each_from_Some [of its ?f 0 "\<lambda>i c. child_ok i c (sp_pos (specs ! i) (snd (its ! i)))", OF this] obtain cs where cs: "each_from ?f 0 its = Some cs" "length cs = length its"
    "\<forall>i < length its. child_ok i (cs ! i) (sp_pos (specs ! i) (snd (its ! i)))" by blast
  then have "at (\<lambda>i. sp_pos (specs ! i) (snd (its ! i))) cs" using assms(1) by (simp add: at_def)
  then have "mg_inv \<lparr>mg_children = cs, mg_current = None, mg_direction = kForward\<rparr>" by (auto simp: mg_inv_def)
  then show ?thesis using cs(1) by (simp add: new_merger_def mg_pos_def)
qed

text \<open>One list is its own merge.\<close>

lemma merges_one: "merges [es'] M' \<Longrightarrow> M' = es'"
proof (rule nth_equalityI)
  assume m: "merges [es'] M'"
  then show len: "length M' = length es'" using mergesD(3) [OF m] by (metis concat.simps append_Nil2 size_mset)
  fix p assume "p < length M'"
  then have p: "p < length es'" using len by simp
  have s: "sorted_entries es'" using m by (simp add: merges_def)
  have "cut (below (fst (es' ! p))) M' = p"
    using cut_merged [OF m down_less [OF sorted_ok [OF s p]]] cut_self [OF s p] by simp
  then show "M' ! p = es' ! p" using merged_at [OF m, of 0 p] p by simp
qed

definition merged_inv :: "'s merged \<Rightarrow> bool" where
  "merged_inv m = (case m of
     No_children \<Rightarrow> specs = []
   | One_child ops it \<Rightarrow> length specs = 1 \<and> ops = sp_ops (specs ! 0) \<and> sp_inv (specs ! 0) it
   | Children g \<Rightarrow> mg_inv g)"

definition merged_pos :: "'s merged \<Rightarrow> nat" where
  "merged_pos m = (case m of No_children \<Rightarrow> 0 | One_child ops it \<Rightarrow> sp_pos (specs ! 0) it | Children g \<Rightarrow> mg_pos g)"

lemma one_child_M: "length specs = 1 \<Longrightarrow> M = es 0"
  using merges_one merged by (cases specs) auto

lemma new_merged_inv:
  assumes "length its = length specs"
    and "\<And>i. i < length specs \<Longrightarrow> fst (its ! i) = sp_ops (specs ! i) \<and> sp_inv (specs ! i) (snd (its ! i)) \<and>
      sp_pos (specs ! i) (snd (its ! i)) = length (es i)"
  shows "\<exists>m. NewMergingIterator its = Some m \<and> merged_inv m \<and> merged_pos m = length M"
proof (cases its rule: remdups_adj.cases)
  case 1
  then have specs: "specs = []" using assms(1) by simp
  then have M: "length M = 0" using mergesD(3) [OF merged] by simp
  have "merged_inv No_children" by (subst merged_inv_def) (simp add: specs)
  moreover have "merged_pos No_children = length M" by (subst merged_pos_def) (simp add: M)
  moreover have "NewMergingIterator its = Some No_children" using 1 by (simp add: NewMergingIterator_def)
  ultimately show ?thesis by blast
next
  case (2 x)
  then have "length specs = 1" using assms(1) by simp
  moreover from this have "length M = length (es 0)" using one_child_M by blast
  ultimately show ?thesis using 2 assms(2) [of 0] by (cases x) (simp add: NewMergingIterator_def merged_inv_def merged_pos_def)
next
  case (3 x y zs)
  obtain g where "new_merger its = Some g" "mg_inv g" "mg_pos g = length M" using new_merger_inv [OF assms(1)] assms(2) by blast
  then show ?thesis using 3 by (intro exI [of _ "Children g"]) (simp add: NewMergingIterator_def merged_inv_def merged_pos_def split: prod.splits)
qed

text \<open>So is what \<^verbatim>\<open>NewMergingIterator\<close> makes, for any number of children.\<close>

theorem merged_iterator: "op_iterator (merged_ops compare) M ok (\<lambda>k t. compare k t < 0) merged_inv merged_pos"
proof
  fix m assume m: "merged_inv m"
  let ?ops = "merged_ops compare"
  note many = op_iterator.axioms [OF merging_iterator]
  have at_one: "merged_inv (One_child (sp_ops (specs ! 0)) it) \<longleftrightarrow> sp_inv (specs ! 0) it" if "length specs = 1" for it
    using that by (simp add: merged_inv_def)
  have at_several: "merged_inv (Children g) \<longleftrightarrow> mg_inv g" "merged_pos (Children g) = mg_pos g"
    "merged_pos (One_child ops it) = sp_pos (specs ! 0) it" for g ops it by (simp_all add: merged_inv_def merged_pos_def)
  note defs = merged_ops_def on_merged_def io_entry_def Let_def at_one at_several
  consider (none) "m = No_children" "M = []" "merged_inv No_children" "merged_pos No_children = 0"
    | (one) it where "m = One_child (sp_ops (specs ! 0)) it" "sp_inv (specs ! 0) it" "length specs = 1"
      "iterator M ok (\<lambda>k t. compare k t < 0) (sp_inv (specs ! 0)) (sp_pos (specs ! 0)) (io_valid (sp_ops (specs ! 0)))
        (io_entry (sp_ops (specs ! 0))) (io_first (sp_ops (specs ! 0))) (io_last (sp_ops (specs ! 0))) (io_next (sp_ops (specs ! 0)))
        (io_prev (sp_ops (specs ! 0))) (io_seek (sp_ops (specs ! 0)))"
    | (several) g where "m = Children g" "mg_inv g"
  proof (cases m)
    case No_children
    have i: "merged_inv No_children" using m unfolding No_children .
    then have "specs = []" by (simp add: merged_inv_def)
    have p: "merged_pos No_children = 0" by (simp add: merged_pos_def)
    from \<open>specs = []\<close> have "M = []" using mergesD(3) [OF merged] by simp
    then show ?thesis using none [OF No_children _ i p] by blast
  next
    case (One_child ops it)
    then have o: "length specs = 1" "ops = sp_ops (specs ! 0)" "sp_inv (specs ! 0) it" using m by (simp_all add: merged_inv_def)
    then show ?thesis using one [OF _ o(3,1)] One_child op_iterator.axioms [OF children [of 0]] one_child_M [OF o(1)] by simp
  qed (use several m in \<open>simp add: merged_inv_def\<close>)
  note split = this
  show "io_valid ?ops m = (merged_pos m < length M)"
    by (rule split) (auto simp: defs dest: iterator.valid_pos iterator.valid_pos [OF many])
  show "\<exists>m'. io_first ?ops m = Some m' \<and> merged_inv m' \<and> merged_pos m' = 0"
    by (rule split) (auto simp: defs dest: iterator.first_pos iterator.first_pos [OF many])
  show "\<exists>m'. io_last ?ops m = Some m' \<and> merged_inv m' \<and> merged_pos m' = length M - 1"
    by (rule split) (auto simp: defs dest: iterator.final_pos iterator.final_pos [OF many])
  show "\<exists>m'. io_seek ?ops target m = Some m' \<and> merged_inv m' \<and> merged_pos m' = length (takeWhile (\<lambda>e. compare (fst e) target < 0) M)"
    if "ok target" for target
    by (rule split) (use that in \<open>auto simp: defs dest: iterator.seek_pos iterator.seek_pos [OF many]\<close>)
  assume v: "io_valid ?ops m"
  show "io_entry ?ops m = Some (M ! merged_pos m)"
  proof (rule split)
    fix g assume g: "m = Children g" "mg_inv g"
    then have "io_valid (merger_ops compare) g" using v by (simp add: defs)
    from iterator.entry_pos [OF many g(2) this] show ?thesis by (simp add: g(1) defs)
  next
    fix it assume o: "m = One_child (sp_ops (specs ! 0)) it" "sp_inv (specs ! 0) it"
      "iterator M ok (\<lambda>k t. compare k t < 0) (sp_inv (specs ! 0)) (sp_pos (specs ! 0)) (io_valid (sp_ops (specs ! 0)))
        (io_entry (sp_ops (specs ! 0))) (io_first (sp_ops (specs ! 0))) (io_last (sp_ops (specs ! 0))) (io_next (sp_ops (specs ! 0)))
        (io_prev (sp_ops (specs ! 0))) (io_seek (sp_ops (specs ! 0)))"
    then have "io_valid (sp_ops (specs ! 0)) it" using v by (simp add: defs)
    from iterator.entry_pos [OF o(3,2) this] show ?thesis by (simp add: o(1) defs)
  qed (use v in \<open>simp add: defs\<close>)
  show "\<exists>m'. io_next ?ops m = Some m' \<and> merged_inv m' \<and> merged_pos m' = Suc (merged_pos m)"
    by (rule split) (use v in \<open>auto simp: defs dest: iterator.next_pos iterator.next_pos [OF many]\<close>)
  show "\<exists>m'. io_prev ?ops m = Some m' \<and> merged_inv m' \<and> merged_pos m' = (if merged_pos m = 0 then length M else merged_pos m - 1)"
    by (rule split) (use v in \<open>auto simp: defs dest: iterator.prev_pos iterator.prev_pos [OF many]\<close>)
qed

end

section \<open>Walks\<close>

text \<open>Any sequence of operations, with what an iterator shows after each; moving needs a valid iterator.\<close>

datatype cursor_move = To_first | To_last | Forth | Backward | To bytes

fun move :: "'s iter_ops \<Rightarrow> cursor_move \<Rightarrow> 's \<Rightarrow> 's option" where
  "move ops To_first s = io_first ops s"
| "move ops To_last s = io_last ops s"
| "move ops Forth s = (if io_valid ops s then io_next ops s else None)"
| "move ops Backward s = (if io_valid ops s then io_prev ops s else None)"
| "move ops (To target) s = io_seek ops target s"

definition shows_at :: "'s iter_ops \<Rightarrow> 's \<Rightarrow> entry option option" where
  "shows_at ops s = (if io_valid ops s then map_option Some (io_entry ops s) else Some None)"

fun walk :: "'s iter_ops \<Rightarrow> cursor_move list \<Rightarrow> 's \<Rightarrow> entry option list option" where
  "walk ops [] s = Some []"
| "walk ops (m # ms) s = do { s \<leftarrow> move ops m s; e \<leftarrow> shows_at ops s; es \<leftarrow> walk ops ms s; Some (e # es) }"

text \<open>The same on a list, with the position as the state.\<close>

fun list_move :: "(bytes \<Rightarrow> bytes \<Rightarrow> bool) \<Rightarrow> entry list \<Rightarrow> cursor_move \<Rightarrow> nat \<Rightarrow> nat option" where
  "list_move before es To_first n = Some 0"
| "list_move before es To_last n = Some (length es - 1)"
| "list_move before es Forth n = (if n < length es then Some (Suc n) else None)"
| "list_move before es Backward n = (if n < length es then Some (if n = 0 then length es else n - 1) else None)"
| "list_move before es (To target) n = Some (length (takeWhile (\<lambda>e. before (fst e) target) es))"

fun list_walk :: "(bytes \<Rightarrow> bytes \<Rightarrow> bool) \<Rightarrow> entry list \<Rightarrow> cursor_move list \<Rightarrow> nat \<Rightarrow> entry option list option" where
  "list_walk before es [] n = Some []"
| "list_walk before es (m # ms) n = do {
     n \<leftarrow> list_move before es m n;
     r \<leftarrow> list_walk before es ms n;
     Some ((if n < length es then Some (es ! n) else None) # r)
   }"

abbreviation (input) targets_ok :: "(bytes \<Rightarrow> bool) \<Rightarrow> cursor_move list \<Rightarrow> bool" where
  "targets_ok ok ms \<equiv> \<forall>target. To target \<in> set ms \<longrightarrow> ok target"

context op_iterator
begin

lemma move_pos:
  assumes "inv s" and "\<And>target. m = To target \<Longrightarrow> ok target"
  shows "case list_move before entries m (pos s) of None \<Rightarrow> move ops m s = None
    | Some n \<Rightarrow> \<exists>s'. move ops m s = Some s' \<and> inv s' \<and> pos s' = n"
  using assms first_pos [of s] final_pos [of s] next_pos [of s] prev_pos [of s] seek_pos [of s] valid_pos [of s]
  by (cases m) simp_all

lemma shows_pos: "inv s \<Longrightarrow> shows_at ops s = Some (if pos s < length entries then Some (entries ! pos s) else None)"
  using entry_pos [of s] valid_pos [of s] by (simp add: shows_at_def)

lemma walk_pos: "inv s \<Longrightarrow> targets_ok ok ms \<Longrightarrow> walk ops ms s = list_walk before entries ms (pos s)"
proof (induction ms arbitrary: s)
  case (Cons m ms)
  have m: "case list_move before entries m (pos s) of None \<Rightarrow> move ops m s = None
    | Some n \<Rightarrow> \<exists>s'. move ops m s = Some s' \<and> inv s' \<and> pos s' = n"
    by (rule move_pos) (use Cons.prems in auto)
  show ?case
  proof (cases "list_move before entries m (pos s)")
    case (Some n)
    then obtain s' where s': "move ops m s = Some s'" "inv s'" "pos s' = n" using m by auto
    have "walk ops ms s' = list_walk before entries ms n" using Cons.IH [OF s'(2)] Cons.prems(2) s'(3) by simp
    then show ?thesis using Some s' shows_pos [OF s'(2)] by simp
  qed (use m in simp)
qed simp

end

section \<open>Merging blocks\<close>

text \<open>Iterators over blocks are children; the lists are empty when they are not sorted runs of what is merged.\<close>

definition block_specs :: "nat \<Rightarrow> entry list list \<Rightarrow> entry list \<Rightarrow> table_iter child_spec list" where
  "block_specs K ess M = (if internal.merges ess M then map (\<lambda>es.
     \<lparr>sp_ops = table_iter_ops (InternalKey_Compare Slice_compare), sp_entries = es,
      sp_inv = ti_inv (\<lambda>it. internal.sorted_entries es \<and> bi_inv K es it), sp_pos = ti_pos (bi_pos K es)\<rparr>) ess else [])"

interpretation block_merge: merge_contract "internal_ok (\<lambda>_. True)" "InternalKey_Compare Slice_compare"
  "InternalKey_FindShortestSeparator Slice_compare FindShortestSeparator" "InternalKey_FindShortSuccessor Slice_compare FindShortSuccessor"
  "block_specs K ess M" "if internal.merges ess M then M else []" for K ess M
proof (rule merge_contract.intro [OF internal.comparator_axioms], rule merge_contract_axioms.intro)
  show "op_iterator (sp_ops (block_specs K ess M ! i)) (sp_entries (block_specs K ess M ! i)) (internal_ok (\<lambda>_. True))
      (\<lambda>k t. InternalKey_Compare Slice_compare k t < 0) (sp_inv (block_specs K ess M ! i)) (sp_pos (block_specs K ess M ! i))"
    if "i < length (block_specs K ess M)" for i
    using that internal_table.op_iterator_axioms [of "ess ! i" K] by (simp add: block_specs_def split: if_splits)
  have "map sp_entries (block_specs K ess M) = (if internal.merges ess M then ess else [])" by (simp add: block_specs_def o_def)
  moreover have "internal.merges [] []" unfolding internal.merges_def internal.sorted_entries_def by simp
  ultimately show "internal.merges (map sp_entries (block_specs K ess M)) (if internal.merges ess M then M else [])" by simp
qed

lemma merged_blocks:
  assumes "internal.merges ess M" and "list_all (wf_block K) ess"
  shows "\<exists>its m. list_all2 (\<lambda>es it. NewIterator (opened K es) = Some (Iter it)) ess its \<and>
    NewMergingIterator (map (\<lambda>it. (table_iter_ops (InternalKey_Compare Slice_compare), Iter it)) its) = Some m \<and>
    block_merge.merged_inv K ess M m \<and> block_merge.merged_pos K ess M m = length M"
proof -
  let ?ops = "table_iter_ops (InternalKey_Compare Slice_compare)" and ?specs = "block_specs K ess M"
  have "\<forall>es \<in> set ess. \<exists>it. NewIterator (opened K es) = Some (Iter it) \<and> at_end K es it"
    using open_built(2) assms(2) by (auto simp: list_all_iff)
  then obtain f where f: "\<And>es. es \<in> set ess \<Longrightarrow> NewIterator (opened K es) = Some (Iter (f es)) \<and> at_end K es (f es)" by metis
  let ?its = "map f ess"
  have "list_all2 (\<lambda>es it. NewIterator (opened K es) = Some (Iter it)) ess ?its" using f by (simp add: list_all2_conv_all_nth)
  moreover have "\<exists>m. NewMergingIterator (map (\<lambda>it. (?ops, Iter it)) ?its) = Some m \<and> block_merge.merged_inv K ess M m \<and>
      block_merge.merged_pos K ess M m = length M"
  proof -
    have s: "?specs = map (\<lambda>es. \<lparr>sp_ops = ?ops, sp_entries = es,
        sp_inv = ti_inv (\<lambda>it. internal.sorted_entries es \<and> bi_inv K es it), sp_pos = ti_pos (bi_pos K es)\<rparr>) ess"
      using assms(1) by (simp add: block_specs_def)
    have "sp_inv (?specs ! i) (Iter (f (ess ! i))) \<and> sp_pos (?specs ! i) (Iter (f (ess ! i))) = length (ess ! i)" if "i < length ess" for i
      using that at_end_pos f [of "ess ! i"] internal.mergesD(2) [OF assms(1)] by (simp add: s ti_inv_def ti_pos_def)
    then show ?thesis
      using block_merge.new_merged_inv [of "map (\<lambda>it. (?ops, Iter it)) ?its" K ess M] assms(1) by (simp add: s)
  qed
  ultimately show ?thesis by blast
qed

text \<open>
  C40: A merging iterator over blocks behaves as one iterator over the merge of their entries. For sorted
  runs of internal keys that share no key, any number of them, the iterators over the blocks that were
  built from the runs are merged into one that shows, after every step of any sequence of seeks and of
  moves forwards and backwards in any order, exactly the entry of the merged list at that place.
\<close>

theorem merge_walk:
  assumes "internal.merges ess M" and "list_all (wf_block K) ess" and "targets_ok (\<lambda>k. 8 \<le> length k) ms"
  shows "\<exists>its m. list_all2 (\<lambda>es it. NewIterator (opened K es) = Some (Iter it)) ess its \<and>
    NewMergingIterator (map (\<lambda>it. (table_iter_ops (InternalKey_Compare Slice_compare), Iter it)) its) = Some m \<and>
    walk (merged_ops (InternalKey_Compare Slice_compare)) ms m =
      list_walk (\<lambda>k t. InternalKey_Compare Slice_compare k t < 0) M ms (length M)"
proof -
  obtain its m where m: "list_all2 (\<lambda>es it. NewIterator (opened K es) = Some (Iter it)) ess its"
    "NewMergingIterator (map (\<lambda>it. (table_iter_ops (InternalKey_Compare Slice_compare), Iter it)) its) = Some m"
    "block_merge.merged_inv K ess M m" "block_merge.merged_pos K ess M m = length M"
    using merged_blocks [OF assms(1,2)] by blast
  have "walk (merged_ops (InternalKey_Compare Slice_compare)) ms m =
      list_walk (\<lambda>k t. InternalKey_Compare Slice_compare k t < 0) M ms (length M)"
    using op_iterator.walk_pos [OF block_merge.merged_iterator m(3), of ms] assms(1,3) m(4) by simp
  then show ?thesis using m(1,2) by blast
qed

abbreviation (input) run_entry :: "u8 \<Rightarrow> entry" where
  "run_entry b \<equiv> (b # replicate 8 0, [b])"

lemma small_block: "length k = 9 \<Longrightarrow> length v = 1 \<Longrightarrow> wf_block 2 [(k, v)]"
proof -
  assume l: "length k = 9" "length v = 1"
  moreover have "length (EncodeVarint32 0) \<le> 5" "length (EncodeVarint32 9) \<le> 5" "length (EncodeVarint32 1) \<le> 5"
    using length_EncodeVarint32 by blast+
  ultimately have "length (built 2 [(k, v)]) \<le> 100" by (simp add: length_built off_def ents_def enc_at_def shared_at_def num_at_def)
  then show ?thesis using l by (simp add: wf_block_def)
qed

lemma run_entry_order: "InternalKey_Compare Slice_compare (1 # replicate 8 0) (2 # replicate 8 0) < 0"
  by code_simp

lemma run_entry_merges: "internal.merges [[run_entry 2], [run_entry 1]] [run_entry 1, run_entry 2]"
  unfolding internal.merges_def internal.sorted_entries_def using run_entry_order by (simp add: less_Suc_eq)

theorem merge_walk_witness:
  "\<exists>its m. length its = 2 \<and>
    NewMergingIterator (map (\<lambda>it. (table_iter_ops (InternalKey_Compare Slice_compare), Iter it)) its) = Some m \<and>
    walk (merged_ops (InternalKey_Compare Slice_compare)) [To_first, Forth, Backward] m =
      Some [Some (run_entry 1), Some (run_entry 2), Some (run_entry 1)]"
proof -
  have w: "list_all (wf_block 2) [[run_entry 2], [run_entry 1]]" by (simp add: small_block)
  obtain its m where m: "list_all2 (\<lambda>es it. NewIterator (opened 2 es) = Some (Iter it)) [[run_entry 2], [run_entry 1]] its"
    "NewMergingIterator (map (\<lambda>it. (table_iter_ops (InternalKey_Compare Slice_compare), Iter it)) its) = Some m"
    "walk (merged_ops (InternalKey_Compare Slice_compare)) [To_first, Forth, Backward] m =
      list_walk (\<lambda>k t. InternalKey_Compare Slice_compare k t < 0) [run_entry 1, run_entry 2] [To_first, Forth, Backward] (length [run_entry 1, run_entry 2])"
    using merge_walk [OF run_entry_merges w, of "[To_first, Forth, Backward]"] by auto
  have "length its = 2" using list_all2_lengthD [OF m(1)] by simp
  with m(2,3) show ?thesis by auto
qed

end
