(* ===== verification/Ldb_Db_Iter.thy ===== *)
theory Ldb_Db_Iter
  imports Ldb_Merger Ldb_Arena
begin

text \<open>
  The iterator of a database (\<^verbatim>\<open>db/db_iter.cc\<close>): it goes over the internal keys of an internal iterator and
  shows, for a snapshot, each user key once, with its newest value that the snapshot sees, unless
  that is a deletion. Reads are sampled at random distances; \<^verbatim>\<open>RecordReadSample\<close> is a call that is recorded.
  The capacity of the saved value is not modelled.
\<close>

section \<open>The code\<close>

definition kReadBytesPeriod :: nat where "kReadBytesPeriod = 1048576"

record 's db_iter =
  di_iter :: 's
  di_sequence :: u64
  di_status :: Status
  di_saved_key :: bytes
  di_saved_value :: bytes
  di_direction :: direction
  di_valid :: bool
  di_rnd :: u32
  di_until_sampling :: nat
  di_samples :: "bytes list"

definition RandomCompactionPeriod :: "u32 \<Rightarrow> nat \<times> u32" where
  "RandomCompactionPeriod rnd = (let (n, rnd) = Random_Uniform (of_nat (2 * kReadBytesPeriod)) rnd in (unat n, rnd))"

definition new_DBIter :: "'s \<Rightarrow> u64 \<Rightarrow> u32 \<Rightarrow> 's db_iter" where
  "new_DBIter iter s seed =
     (let (n, rnd) = RandomCompactionPeriod (new_Random seed) in
      \<lparr>di_iter = iter, di_sequence = s, di_status = OK, di_saved_key = [], di_saved_value = [], di_direction = kForward,
       di_valid = False, di_rnd = rnd, di_until_sampling = n, di_samples = []\<rparr>)"

partial_function (option) sample_reads :: "nat \<Rightarrow> bytes \<Rightarrow> 's db_iter \<Rightarrow> 's db_iter option" where
  "sample_reads bytes_read k d =
     (if di_until_sampling d < bytes_read
      then let (n, rnd) = RandomCompactionPeriod (di_rnd d) in
        sample_reads bytes_read k (d\<lparr>di_until_sampling := di_until_sampling d + n, di_rnd := rnd, di_samples := di_samples d @ [k]\<rparr>)
      else Some d)"

definition ParseKey :: "'s iter_ops \<Rightarrow> 's db_iter \<Rightarrow> (ParsedInternalKey option \<times> 's db_iter) option" where
  "ParseKey ops d = do {
     k \<leftarrow> io_key ops (di_iter d);
     v \<leftarrow> io_value ops (di_iter d);
     let bytes_read = length k + length v;
     d \<leftarrow> sample_reads bytes_read k d;
     let d = d\<lparr>di_until_sampling := di_until_sampling d - bytes_read\<rparr>;
     case ParseInternalKey k of
       None \<Rightarrow> Some (None, d\<lparr>di_status := Corruption ''corrupted internal key in DBIter''\<rparr>)
     | Some ikey \<Rightarrow> Some (Some ikey, d)
   }"

text \<open>A parsed key that the snapshot sees.\<close>

definition seen_key :: "ParsedInternalKey option \<Rightarrow> 's db_iter \<Rightarrow> ParsedInternalKey option" where
  "seen_key parsed d = (case parsed of Some ikey \<Rightarrow> if sequence ikey \<le> di_sequence d then Some ikey else None | None \<Rightarrow> None)"

definition step_iter :: "('s \<Rightarrow> 's option) \<Rightarrow> 's db_iter \<Rightarrow> 's db_iter option" where
  "step_iter f d = do { it \<leftarrow> f (di_iter d); Some (d\<lparr>di_iter := it\<rparr>) }"

text \<open>
  The body of the loop forwards: the entry is yielded, or the scan goes on. Both callers pass
  \<^verbatim>\<open>&saved_key_\<close> as the place for the key to skip.
\<close>

definition next_entry ::
    "'s iter_ops \<Rightarrow> (bytes \<Rightarrow> bytes \<Rightarrow> int) \<Rightarrow> bool \<Rightarrow> 's db_iter \<Rightarrow> (bool \<times> 's db_iter + 's db_iter) option" where
  "next_entry ops ucmp skipping d = do {
     (parsed, d) \<leftarrow> ParseKey ops d;
     Some (case seen_key parsed d of
       None \<Rightarrow> Inl (skipping, d)
     | Some ikey \<Rightarrow>
         (case key_type ikey of
            kTypeDeletion \<Rightarrow> Inl (True, d\<lparr>di_saved_key := user_key ikey\<rparr>)
          | kTypeValue \<Rightarrow>
              if skipping \<and> ucmp (user_key ikey) (di_saved_key d) \<le> 0 then Inl (skipping, d)
              else Inr (d\<lparr>di_valid := True, di_saved_key := []\<rparr>)))
   }"

partial_function (option) FindNextUserEntry ::
    "'s iter_ops \<Rightarrow> (bytes \<Rightarrow> bytes \<Rightarrow> int) \<Rightarrow> bool \<Rightarrow> 's db_iter \<Rightarrow> 's db_iter option" where
  "FindNextUserEntry ops ucmp skipping d = do {
     r \<leftarrow> next_entry ops ucmp skipping d;
     case r of
       Inr d \<Rightarrow> Some d
     | Inl (skipping, d) \<Rightarrow> do {
         d \<leftarrow> step_iter (io_next ops) d;
         if io_valid ops (di_iter d) then FindNextUserEntry ops ucmp skipping d
         else Some (d\<lparr>di_saved_key := [], di_valid := False\<rparr>)
       }
   }"

definition DB_Next :: "'s iter_ops \<Rightarrow> (bytes \<Rightarrow> bytes \<Rightarrow> int) \<Rightarrow> 's db_iter \<Rightarrow> 's db_iter option" where
  "DB_Next ops ucmp d =
     (if di_direction d = kReverse then do {
        d \<leftarrow> step_iter (if \<not> io_valid ops (di_iter d) then io_first ops else io_next ops) (d\<lparr>di_direction := kForward\<rparr>);
        if \<not> io_valid ops (di_iter d) then Some (d\<lparr>di_valid := False, di_saved_key := []\<rparr>)
        else FindNextUserEntry ops ucmp True d
      }
      else do {
        k \<leftarrow> io_key ops (di_iter d);
        FindNextUserEntry ops ucmp True (d\<lparr>di_saved_key := ExtractUserKey k\<rparr>)
      })"

text \<open>The body of the loop backwards: it breaks, or the scan goes on.\<close>

definition prev_entry ::
    "'s iter_ops \<Rightarrow> (bytes \<Rightarrow> bytes \<Rightarrow> int) \<Rightarrow> ValueType \<Rightarrow> 's db_iter \<Rightarrow> (ValueType \<times> 's db_iter + 's db_iter) option" where
  "prev_entry ops ucmp value_type d = do {
     (parsed, d) \<leftarrow> ParseKey ops d;
     case seen_key parsed d of
       None \<Rightarrow> Some (Inl (value_type, d))
     | Some ikey \<Rightarrow>
         if value_type \<noteq> kTypeDeletion \<and> ucmp (user_key ikey) (di_saved_key d) < 0 then Some (Inr d)
         else if key_type ikey = kTypeDeletion then Some (Inl (kTypeDeletion, d\<lparr>di_saved_key := [], di_saved_value := []\<rparr>))
         else do {
           raw_value \<leftarrow> io_value ops (di_iter d);
           k \<leftarrow> io_key ops (di_iter d);
           Some (Inl (key_type ikey, d\<lparr>di_saved_key := ExtractUserKey k, di_saved_value := raw_value\<rparr>))
         }
   }"

partial_function (option) find_prev_loop ::
    "'s iter_ops \<Rightarrow> (bytes \<Rightarrow> bytes \<Rightarrow> int) \<Rightarrow> ValueType \<Rightarrow> 's db_iter \<Rightarrow> (ValueType \<times> 's db_iter) option" where
  "find_prev_loop ops ucmp value_type d = do {
     r \<leftarrow> prev_entry ops ucmp value_type d;
     case r of
       Inr d \<Rightarrow> Some (value_type, d)
     | Inl (value_type, d) \<Rightarrow> do {
         d \<leftarrow> step_iter (io_prev ops) d;
         if io_valid ops (di_iter d) then find_prev_loop ops ucmp value_type d else Some (value_type, d)
       }
   }"

definition FindPrevUserEntry :: "'s iter_ops \<Rightarrow> (bytes \<Rightarrow> bytes \<Rightarrow> int) \<Rightarrow> 's db_iter \<Rightarrow> 's db_iter option" where
  "FindPrevUserEntry ops ucmp d = do {
     (value_type, d) \<leftarrow> (if io_valid ops (di_iter d) then find_prev_loop ops ucmp kTypeDeletion d else Some (kTypeDeletion, d));
     if value_type = kTypeDeletion
     then Some (d\<lparr>di_valid := False, di_saved_key := [], di_saved_value := [], di_direction := kForward\<rparr>)
     else Some (d\<lparr>di_valid := True\<rparr>)
   }"

text \<open>The scan back to the previous user key; the flag says whether there is an entry.\<close>

partial_function (option) leave_key :: "'s iter_ops \<Rightarrow> (bytes \<Rightarrow> bytes \<Rightarrow> int) \<Rightarrow> 's db_iter \<Rightarrow> (bool \<times> 's db_iter) option" where
  "leave_key ops ucmp d = do {
     d \<leftarrow> step_iter (io_prev ops) d;
     if \<not> io_valid ops (di_iter d) then Some (False, d)
     else do {
       k \<leftarrow> io_key ops (di_iter d);
       if ucmp (ExtractUserKey k) (di_saved_key d) < 0 then Some (True, d) else leave_key ops ucmp d
     }
   }"

definition DB_Prev :: "'s iter_ops \<Rightarrow> (bytes \<Rightarrow> bytes \<Rightarrow> int) \<Rightarrow> 's db_iter \<Rightarrow> 's db_iter option" where
  "DB_Prev ops ucmp d =
     (if di_direction d = kForward then do {
        k \<leftarrow> io_key ops (di_iter d);
        (found, d) \<leftarrow> leave_key ops ucmp (d\<lparr>di_saved_key := ExtractUserKey k\<rparr>);
        if \<not> found then Some (d\<lparr>di_valid := False, di_saved_key := [], di_saved_value := []\<rparr>)
        else FindPrevUserEntry ops ucmp (d\<lparr>di_direction := kReverse\<rparr>)
      }
      else FindPrevUserEntry ops ucmp d)"

definition DB_Seek :: "'s iter_ops \<Rightarrow> (bytes \<Rightarrow> bytes \<Rightarrow> int) \<Rightarrow> bytes \<Rightarrow> 's db_iter \<Rightarrow> 's db_iter option" where
  "DB_Seek ops ucmp target d = do {
     let k = AppendInternalKey [] \<lparr>user_key = target, sequence = di_sequence d, key_type = kValueTypeForSeek\<rparr>;
     d \<leftarrow> step_iter (io_seek ops k) (d\<lparr>di_direction := kForward, di_saved_value := [], di_saved_key := k\<rparr>);
     if io_valid ops (di_iter d) then FindNextUserEntry ops ucmp False d else Some (d\<lparr>di_valid := False\<rparr>)
   }"

definition DB_SeekToFirst :: "'s iter_ops \<Rightarrow> (bytes \<Rightarrow> bytes \<Rightarrow> int) \<Rightarrow> 's db_iter \<Rightarrow> 's db_iter option" where
  "DB_SeekToFirst ops ucmp d = do {
     d \<leftarrow> step_iter (io_first ops) (d\<lparr>di_direction := kForward, di_saved_value := []\<rparr>);
     if io_valid ops (di_iter d) then FindNextUserEntry ops ucmp False d else Some (d\<lparr>di_valid := False\<rparr>)
   }"

definition DB_SeekToLast :: "'s iter_ops \<Rightarrow> (bytes \<Rightarrow> bytes \<Rightarrow> int) \<Rightarrow> 's db_iter \<Rightarrow> 's db_iter option" where
  "DB_SeekToLast ops ucmp d = do {
     d \<leftarrow> step_iter (io_last ops) (d\<lparr>di_direction := kReverse, di_saved_value := []\<rparr>);
     FindPrevUserEntry ops ucmp d
   }"

definition db_iter_ops :: "'s iter_ops \<Rightarrow> (bytes \<Rightarrow> bytes \<Rightarrow> int) \<Rightarrow> 's db_iter iter_ops" where
  "db_iter_ops ops ucmp =
     \<lparr>io_valid = di_valid,
      io_key = (\<lambda>d. if di_direction d = kForward then map_option ExtractUserKey (io_key ops (di_iter d)) else Some (di_saved_key d)),
      io_value = (\<lambda>d. if di_direction d = kForward then io_value ops (di_iter d) else Some (di_saved_value d)),
      io_first = DB_SeekToFirst ops ucmp,
      io_last = DB_SeekToLast ops ucmp,
      io_next = DB_Next ops ucmp,
      io_prev = DB_Prev ops ucmp,
      io_seek = DB_Seek ops ucmp,
      io_status = (\<lambda>d. if Status_ok (di_status d) then io_status ops (di_iter d) else di_status d)\<rparr>"

section \<open>Sampling ends\<close>

text \<open>A random distance may be 0, but the next one is not.\<close>

lemma period_eq: "fst (RandomCompactionPeriod rnd) = unat (Random_Next rnd) mod 2097152" "snd (RandomCompactionPeriod rnd) = Random_Next rnd"
  by (simp_all add: RandomCompactionPeriod_def Random_Uniform_def kReadBytesPeriod_def unat_mod Let_def)

lemma period_progress:
  assumes "good_seed rnd" and "unat (Random_Next rnd) mod 2097152 = 0"
  shows "0 < unat (Random_Next (Random_Next rnd)) mod 2097152"
proof -
  let ?t = "unat (Random_Next rnd)"
  have g: "good_seed (Random_Next rnd)" by (rule Random_Next_mod(2) [OF assms(1)])
  then have t: "0 < ?t" "?t < 2147483647" by (auto simp: good_seed_def)
  from assms(2) obtain k where k: "?t = k * 2097152" by (metis mod_0_imp_dvd dvd_def mult.commute)
  with t have k0: "0 < k" "k < 1024" by auto
  define a b where "a = 16807 * k div 1024" and "b = 16807 * k mod 1024"
  then have ab: "16807 * k = 1024 * a + b" "16 \<le> a" "a \<le> 16807" "b \<le> 1023" using k0 by auto
  have "?t * 16807 = 2097152 * (16807 * k)" using k by simp
  also have "\<dots> = (a + b * 2097152) + a * 2147483647" unfolding ab(1) by simp
  finally have "?t * 16807 mod 2147483647 = (a + b * 2097152) mod 2147483647" by (simp only: mod_mult_self1)
  also have "\<dots> = a + b * 2097152" using ab(2-4) by (intro mod_less) linarith
  finally have "unat (Random_Next (Random_Next rnd)) = a + b * 2097152" using Random_Next_mod(1) [OF g] by simp
  then have "unat (Random_Next (Random_Next rnd)) mod 2097152 = a" using ab(3) by simp
  then show ?thesis using ab(2) by simp
qed

text \<open>What sampling leaves as it was.\<close>

definition sampled :: "'s db_iter \<Rightarrow> 's db_iter \<Rightarrow> bool" where
  "sampled d d' \<longleftrightarrow> di_iter d' = di_iter d \<and> di_sequence d' = di_sequence d \<and> di_saved_key d' = di_saved_key d \<and>
     di_saved_value d' = di_saved_value d \<and> di_direction d' = di_direction d \<and> di_valid d' = di_valid d \<and> good_seed (di_rnd d')"

lemma sample_reads_ok: "good_seed (di_rnd d) \<Longrightarrow> \<exists>d'. sample_reads b k d = Some d' \<and> sampled d d' \<and> b \<le> di_until_sampling d'"
proof (induction "2 * (b - di_until_sampling d) + of_bool (fst (RandomCompactionPeriod (di_rnd d)) = 0)" arbitrary: d rule: less_induct)
  case less
  show ?case
  proof (cases "di_until_sampling d < b")
    case False
    then show ?thesis using less.prems by (subst sample_reads.simps) (simp add: sampled_def)
  next
    case True
    obtain n rnd where p: "RandomCompactionPeriod (di_rnd d) = (n, rnd)" by force
    then have r: "n = unat (Random_Next (di_rnd d)) mod 2097152" "rnd = Random_Next (di_rnd d)" using period_eq [of "di_rnd d"] by simp_all
    let ?d = "d\<lparr>di_until_sampling := di_until_sampling d + n, di_rnd := rnd, di_samples := di_samples d @ [k]\<rparr>"
    have g: "good_seed (di_rnd ?d)" using Random_Next_mod(2) [OF less.prems] r by simp
    have "2 * (b - di_until_sampling ?d) + of_bool (fst (RandomCompactionPeriod (di_rnd ?d)) = 0)
        < 2 * (b - di_until_sampling d) + of_bool (fst (RandomCompactionPeriod (di_rnd d)) = 0)"
    proof (cases "n = 0")
      case True
      then show ?thesis using period_progress [OF less.prems] p r period_eq by simp
    next
      case False
      then show ?thesis using True p by (auto split: if_splits)
    qed
    from less.hyps [OF this g] obtain d' where d': "sample_reads b k ?d = Some d'" "sampled ?d d'" "b \<le> di_until_sampling d'" by blast
    have "sample_reads b k d = Some d'" using True p d'(1) by (subst sample_reads.simps) simp
    then show ?thesis using d'(2,3) by (auto simp: sampled_def)
  qed
qed

section \<open>The contract\<close>

text \<open>The entries of a sorted internal iterator, seen from a snapshot.\<close>

definition entry_seen :: "u64 \<Rightarrow> entry \<Rightarrow> bool" where
  "entry_seen S e = (case ParseInternalKey (fst e) of Some p \<Rightarrow> sequence p \<le> S | None \<Rightarrow> False)"

definition entry_value :: "entry \<Rightarrow> bool" where
  "entry_value e = (case ParseInternalKey (fst e) of Some p \<Rightarrow> key_type p = kTypeValue | None \<Rightarrow> False)"

abbreviation entry_user :: "entry \<Rightarrow> bytes" where
  "entry_user e \<equiv> ExtractUserKey (fst e)"

text \<open>An entry is shown if it is a value and the first one of its user key that is seen.\<close>

definition shown :: "u64 \<Rightarrow> entry list \<Rightarrow> nat \<Rightarrow> bool" where
  "shown S M i \<longleftrightarrow> i < length M \<and> entry_seen S (M ! i) \<and> entry_value (M ! i) \<and>
     (\<forall>j < i. entry_seen S (M ! j) \<longrightarrow> entry_user (M ! j) \<noteq> entry_user (M ! i))"

definition live :: "u64 \<Rightarrow> entry list \<Rightarrow> entry list" where
  "live S M = map (\<lambda>i. (entry_user (M ! i), snd (M ! i))) (filter (shown S M) [0..<length M])"

text \<open>The versions of a user key that a snapshot sees, and the value of the newest one.\<close>

definition versions :: "u64 \<Rightarrow> bytes \<Rightarrow> entry list \<Rightarrow> (ParsedInternalKey \<times> bytes) list" where
  "versions S u M = List.map_filter (\<lambda>(k, v). case ParseInternalKey k of
     Some p \<Rightarrow> if user_key p = u \<and> sequence p \<le> S then Some (p, v) else None
   | None \<Rightarrow> None) M"

definition newest_value :: "u64 \<Rightarrow> entry list \<Rightarrow> bytes \<Rightarrow> bytes \<Rightarrow> bool" where
  "newest_value S M u v \<longleftrightarrow> (\<exists>(p, w) \<in> set (versions S u M). w = v \<and> key_type p = kTypeValue \<and>
     (\<forall>(q, _) \<in> set (versions S u M). sequence q \<le> sequence p))"

lemma versions_iff:
  "(p, v) \<in> set (versions S u M) \<longleftrightarrow>
     (\<exists>i < length M. ParseInternalKey (fst (M ! i)) = Some p \<and> snd (M ! i) = v \<and> user_key p = u \<and> sequence p \<le> S)"
proof -
  have "(p, v) \<in> set (versions S u M) \<longleftrightarrow>
      (\<exists>e \<in> set M. ParseInternalKey (fst e) = Some p \<and> snd e = v \<and> user_key p = u \<and> sequence p \<le> S)"
    unfolding versions_def by (induction M) (auto simp: List.map_filter_simps split: option.splits if_splits)
  also have "\<dots> \<longleftrightarrow> (\<exists>i < length M. ParseInternalKey (fst (M ! i)) = Some p \<and> snd (M ! i) = v \<and> user_key p = u \<and> sequence p \<le> S)"
    by (metis in_set_conv_nth)
  finally show ?thesis .
qed

lemma parse_user: "ParseInternalKey k = Some p \<Longrightarrow> user_key p = ExtractUserKey k"
  by (auto simp: ParseInternalKey_def ExtractUserKey_def Let_def bind_eq_Some_conv split: if_splits)

lemma parse_num:
  assumes "ParseInternalKey (u @ word_le 8 (m :: u64)) = Some p"
  shows "user_key p = u" and "unat m = 256 * unat (sequence p) + unat (type_byte (key_type p))"
proof -
  let ?c = "ucast (m AND 0xff) :: u8"
  have "DecodeFixed64 True (word_le 8 m) = Some m" using DecodeFixed_hit(2) [of True m "[]"] by simp
  then have p: "user_key p = u" "sequence p = drop_bit 8 m" "?c \<le> 1" "key_type p = (if ?c = 0 then kTypeDeletion else kTypeValue)"
    using assms by (auto simp: ParseInternalKey_def Let_def split: if_splits)
  then show "user_key p = u" by simp
  have c: "unat ?c = unat m mod 256" unfolding and_FF unat_ucast_byte unat_take_bit by simp
  have "unat ?c \<le> 1" using p(3) unfolding word_le_nat_alt by simp
  then have "unat (type_byte (key_type p)) = unat ?c" unfolding p(4) by (cases "?c = 0") (auto simp: unat_eq_zero le_Suc_eq)
  moreover have "unat (sequence p) = unat m div 256" unfolding p(2) unat_drop_bit by simp
  ultimately show "unat m = 256 * unat (sequence p) + unat (type_byte (key_type p))" unfolding c by simp
qed

lemma type_byte_le: "unat (type_byte t) \<le> 1"
  by (cases t) simp_all

locale db_contract = comparator ok ucmp separator successor +
  inner: op_iterator ops M "internal_ok ok" "\<lambda>k t. InternalKey_Compare ucmp k t < 0" inv pos
  for ok ucmp separator successor and ops :: "'s iter_ops" and M inv pos +
  fixes S :: u64
  assumes sorted: "comparator.sorted_entries (internal_ok ok) (InternalKey_Compare ucmp) M"
    and snapshot: "S \<le> kMaxSequenceNumber"
begin

abbreviation uk :: "nat \<Rightarrow> bytes" where "uk i \<equiv> entry_user (M ! i)"
abbreviation vis :: "nat \<Rightarrow> bool" where "vis i \<equiv> entry_seen S (M ! i)"
abbreviation isval :: "nat \<Rightarrow> bool" where "isval i \<equiv> entry_value (M ! i)"
abbreviation sh :: "nat \<Rightarrow> bool" where "sh i \<equiv> shown S M i"

lemma key_ok: "i < length M \<Longrightarrow> internal_ok ok (fst (M ! i))"
  using comparator.sorted_ok [OF internal_comparator sorted] .

lemma uk_ok: "i < length M \<Longrightarrow> ok (uk i)"
  using key_ok by simp

lemma uk_order: "i \<le> j \<Longrightarrow> j < length M \<Longrightarrow> ucmp (uk i) (uk j) \<le> 0"
proof (cases "i = j")
  case False
  assume "i \<le> j" and j: "j < length M"
  with False have ij: "i < j" "i < length M" by simp_all
  have l: "InternalKey_Compare ucmp (fst (M ! i)) (fst (M ! j)) < 0"
    using comparator.entries_less [OF internal_comparator sorted ij(1) j] .
  obtain u m where u: "fst (M ! i) = u @ word_le 8 (m :: u64)" using internal_keyE key_ok [OF ij(2)] by metis
  obtain v k where v: "fst (M ! j) = v @ word_le 8 (k :: u64)" using internal_keyE key_ok [OF j] by metis
  show ?thesis using l unfolding u v by (auto simp: InternalKey_Compare_append ExtractUserKey_append split: if_splits)
qed (use compare_self [OF uk_ok [of j]] in simp)

lemma compare_antisym: "ok a \<Longrightarrow> ok b \<Longrightarrow> ucmp a b \<le> 0 \<Longrightarrow> ucmp b a \<le> 0 \<Longrightarrow> a = b"
  using compare_sym [of a b] compare_0 [of a b] by linarith

lemma uk_between:
  assumes "i \<le> j" and "j \<le> l" and "l < length M" and "uk i = uk l"
  shows "uk j = uk i"
proof -
  have "j < length M" "i < length M" using assms(1-3) by simp_all
  then show ?thesis using compare_antisym [OF uk_ok uk_ok, of j i] uk_order [of i j] uk_order [of j l] assms by simp
qed

lemma uk_le_iff:
  assumes "j < i" and "i < length M"
  shows "ucmp (uk i) (uk j) \<le> 0 \<longleftrightarrow> uk i = uk j"
proof -
  have "j < length M" using assms by simp
  then show ?thesis
    using compare_antisym [OF uk_ok uk_ok, of i j] uk_order [of j i] compare_self [OF uk_ok, of j] assms by auto
qed

text \<open>Parsing the current key.\<close>

lemma ParseKey_at:
  assumes "inv (di_iter d)" and "pos (di_iter d) < length M" and "good_seed (di_rnd d)"
  shows "\<exists>d'. ParseKey ops d = Some (ParseInternalKey (fst (M ! pos (di_iter d))), d') \<and> sampled d d'"
proof -
  let ?p = "pos (di_iter d)"
  have k: "io_key ops (di_iter d) = Some (fst (M ! ?p))" "io_value ops (di_iter d) = Some (snd (M ! ?p))"
    using inner.key_pos [OF assms(1)] inner.valid_pos [OF assms(1)] assms(2) by simp_all
  obtain d' where "sample_reads (length (fst (M ! ?p)) + length (snd (M ! ?p))) (fst (M ! ?p)) d = Some d'" "sampled d d'"
    using sample_reads_ok [OF assms(3)] by blast
  then show ?thesis using k by (auto simp: ParseKey_def sampled_def Let_def split: option.splits)
qed

lemma seen_key_at:
  "di_sequence d = S \<Longrightarrow> seen_key (ParseInternalKey (fst (M ! i))) d = (if vis i then ParseInternalKey (fst (M ! i)) else None)"
  by (auto simp: seen_key_def entry_seen_def split: option.splits)

definition good :: "'s db_iter \<Rightarrow> bool" where
  "good d \<longleftrightarrow> inv (di_iter d) \<and> di_sequence d = S \<and> good_seed (di_rnd d)"

text \<open>
  What the scan forwards knows at \<open>p\<close>, when it looks for an entry from \<open>b\<close> on: the user keys that it has
  to skip are those it has seen already, and nothing that it skips is shown.
\<close>

definition scan_inv :: "nat \<Rightarrow> nat \<Rightarrow> bool \<Rightarrow> bytes \<Rightarrow> bool" where
  "scan_inv b p skipping sk \<longleftrightarrow>
     (\<forall>j < p. vis j \<longrightarrow> (\<forall>i. p \<le> i \<and> i < length M \<and> uk i = uk j \<longrightarrow> skipping \<and> ucmp (uk i) sk \<le> 0)) \<and>
     (skipping \<longrightarrow> (\<forall>i. p \<le> i \<and> i < length M \<and> ucmp (uk i) sk \<le> 0 \<and> b \<le> i \<longrightarrow> \<not> sh i)) \<and>
     (p < b \<longrightarrow> skipping \<and> (\<forall>i. p \<le> i \<and> i < b \<and> i < length M \<and> vis i \<longrightarrow> isval i \<and> ucmp (uk i) sk \<le> 0)) \<and>
     (\<forall>i. b \<le> i \<and> i < p \<longrightarrow> \<not> sh i)"

lemma scan_invD:
  assumes "scan_inv b p skipping sk"
  shows "j < p \<Longrightarrow> vis j \<Longrightarrow> p \<le> i \<Longrightarrow> i < length M \<Longrightarrow> uk i = uk j \<Longrightarrow> skipping \<and> ucmp (uk i) sk \<le> 0"
    "skipping \<Longrightarrow> p \<le> i \<Longrightarrow> i < length M \<Longrightarrow> ucmp (uk i) sk \<le> 0 \<Longrightarrow> b \<le> i \<Longrightarrow> \<not> sh i"
    "p < b \<Longrightarrow> skipping" "p < b \<Longrightarrow> p \<le> i \<Longrightarrow> i < b \<Longrightarrow> i < length M \<Longrightarrow> vis i \<Longrightarrow> isval i \<and> ucmp (uk i) sk \<le> 0"
    "b \<le> i \<Longrightarrow> i < p \<Longrightarrow> \<not> sh i"
  using assms unfolding scan_inv_def by blast+

lemma scan_inv_pass:
  assumes inv: "scan_inv b p skipping sk" and p: "p < length M" and pass: "\<not> vis p \<or> skipping \<and> ucmp (uk p) sk \<le> 0"
  shows "scan_inv b (Suc p) skipping sk"
  unfolding scan_inv_def
proof (intro conjI allI impI)
  note d = scan_invD [OF inv]
  show "skipping" "ucmp (uk i) sk \<le> 0" if "j < Suc p" "vis j" "Suc p \<le> i \<and> i < length M \<and> uk i = uk j" for i j
    using that pass d(1) [of j i] by (cases "j = p"; simp)+
  show "\<not> sh i" if "skipping" "Suc p \<le> i \<and> i < length M \<and> ucmp (uk i) sk \<le> 0 \<and> b \<le> i" for i using d(2) [of i] that by simp
  show "skipping" if "Suc p < b" using d(3) that by simp
  show "isval i" "ucmp (uk i) sk \<le> 0" if "Suc p < b" "Suc p \<le> i \<and> i < b \<and> i < length M \<and> vis i" for i using d(4) [of i] that by simp_all
  show "\<not> sh i" if i: "b \<le> i \<and> i < Suc p" for i
  proof (cases "i = p")
    case True
    then show ?thesis using i pass d(2) [of p] p by (auto simp: shown_def)
  qed (use i d(5) [of i] in simp)
qed

lemma scan_inv_delete:
  assumes inv: "scan_inv b p skipping sk" and p: "p < length M" and v: "vis p" "\<not> isval p"
  shows "scan_inv b (Suc p) True (uk p)"
  unfolding scan_inv_def
proof (intro conjI allI impI TrueI)
  note d = scan_invD [OF inv]
  have b: "b \<le> p" using d(4) [of p] p v by (cases "p < b") auto
  show "ucmp (uk i) (uk p) \<le> 0" if "j < Suc p" "vis j" "Suc p \<le> i \<and> i < length M \<and> uk i = uk j" for i j
    using uk_between [of j p i] uk_le_iff [of p i] that by simp
  show "\<not> sh i" if i: "Suc p \<le> i \<and> i < length M \<and> ucmp (uk i) (uk p) \<le> 0 \<and> b \<le> i" for i
  proof -
    have "p < i" "uk p = uk i" using uk_le_iff [of p i] i by simp_all
    then show ?thesis using v(1) by (auto simp: shown_def)
  qed
  show "isval i" "ucmp (uk i) (uk p) \<le> 0" if "Suc p < b" for i using that b by simp_all
  show "\<not> sh i" if "b \<le> i \<and> i < Suc p" for i
    using that d(5) [of i] v(2) by (cases "i = p") (auto simp: shown_def)
qed

lemma scan_inv_yield:
  assumes inv: "scan_inv b p skipping sk" and p: "p < length M" and v: "vis p" "isval p" and no: "\<not> (skipping \<and> ucmp (uk p) sk \<le> 0)"
  shows "sh p" and "b \<le> p"
proof -
  note d = scan_invD [OF inv]
  show "b \<le> p" using d(3) d(4) [of p] p v no by (cases "p < b") auto
  have "uk j \<noteq> uk p" if "j < p" "vis j" for j using d(1) [of j p] that p no by auto
  then show "sh p" using p v by (simp add: shown_def)
qed

text \<open>The result of a scan that starts at \<open>b\<close>.\<close>

definition found :: "nat \<Rightarrow> 's db_iter \<Rightarrow> bool" where
  "found b d \<longleftrightarrow> good d \<and> di_direction d = kForward \<and>
     (if di_valid d then sh (pos (di_iter d)) \<and> b \<le> pos (di_iter d) \<and> (\<forall>i. b \<le> i \<and> i < pos (di_iter d) \<longrightarrow> \<not> sh i)
      else \<forall>i \<ge> b. \<not> sh i)"

lemma found_none: "good d \<Longrightarrow> di_direction d = kForward \<Longrightarrow> (\<And>i. b \<le> i \<Longrightarrow> \<not> sh i) \<Longrightarrow> found b (d\<lparr>di_valid := False\<rparr>)"
  by (simp add: found_def good_def)

lemma next_entry_at:
  assumes "good d" and "pos (di_iter d) = p" and "p < length M" and "scan_inv b p skipping (di_saved_key d)"
  shows "(\<exists>skipping' d'. next_entry ops ucmp skipping d = Some (Inl (skipping', d')) \<and> good d' \<and> di_iter d' = di_iter d \<and>
      di_direction d' = di_direction d \<and> scan_inv b (Suc p) skipping' (di_saved_key d')) \<or>
    (\<exists>d'. next_entry ops ucmp skipping d = Some (Inr d') \<and> good d' \<and> di_iter d' = di_iter d \<and> di_direction d' = di_direction d \<and>
      di_valid d' \<and> sh p \<and> b \<le> p)"
proof -
  let ?k = "fst (M ! p)"
  obtain d1 where d1: "ParseKey ops d = Some (ParseInternalKey ?k, d1)" "sampled d d1"
    using ParseKey_at [of d] assms by (auto simp: good_def)
  then have g: "good d1" "di_iter d1 = di_iter d" "di_direction d1 = di_direction d" "di_saved_key d1 = di_saved_key d" "di_sequence d1 = S"
    using assms(1) by (simp_all add: good_def sampled_def)
  note seen = seen_key_at [OF g(5), of p]
  show ?thesis
  proof (cases "vis p")
    case False
    then show ?thesis using d1(1) g seen scan_inv_pass [OF assms(4,3)] by (auto simp: next_entry_def)
  next
    case vis: True
    then obtain i where i: "ParseInternalKey ?k = Some i" by (auto simp: entry_seen_def split: option.splits)
    then have u: "user_key i = uk p" using parse_user by blast
    show ?thesis
    proof (cases "key_type i")
      case kTypeDeletion
      then have "\<not> isval p" using i by (simp add: entry_value_def)
      from scan_inv_delete [OF assms(4,3) vis this] show ?thesis
        using d1(1) g seen vis i u kTypeDeletion by (auto simp: next_entry_def good_def)
    next
      case kTypeValue
      then have v: "isval p" using i by (simp add: entry_value_def)
      show ?thesis
      proof (cases "skipping \<and> ucmp (uk p) (di_saved_key d) \<le> 0")
        case True
        then show ?thesis using d1(1) g seen vis i u kTypeValue scan_inv_pass [OF assms(4,3)] by (auto simp: next_entry_def)
      next
        case False
        then show ?thesis using d1(1) g seen vis i u kTypeValue scan_inv_yield [OF assms(4,3) vis v False]
          by (auto simp: next_entry_def good_def)
      qed
    qed
  qed
qed

lemma step_next:
  assumes "good d" and "pos (di_iter d) < length M"
  shows "\<exists>d'. step_iter (io_next ops) d = Some d' \<and> good d' \<and> pos (di_iter d') = Suc (pos (di_iter d)) \<and>
    d' = d\<lparr>di_iter := di_iter d'\<rparr>"
  using inner.next_pos [of "di_iter d"] inner.valid_pos [of "di_iter d"] assms by (auto simp: step_iter_def good_def)

lemma valid_at: "good d \<Longrightarrow> io_valid ops (di_iter d) \<longleftrightarrow> pos (di_iter d) < length M"
  using inner.valid_pos by (simp add: good_def)

lemma FindNext_found:
  assumes "good d" and "di_direction d = kForward" and "pos (di_iter d) < length M" and "scan_inv b (pos (di_iter d)) skipping (di_saved_key d)"
  shows "\<exists>d'. FindNextUserEntry ops ucmp skipping d = Some d' \<and> found b d'"
  using assms
proof (induction "length M - pos (di_iter d)" arbitrary: d skipping rule: less_induct)
  case less
  let ?p = "pos (di_iter d)"
  from next_entry_at [OF less.prems(1) refl less.prems(3,4)] show ?case
  proof (elim disjE exE conjE)
    fix d' assume r: "next_entry ops ucmp skipping d = Some (Inr d')" "good d'" "di_iter d' = di_iter d" "di_direction d' = di_direction d"
      "di_valid d'" "sh ?p" "b \<le> ?p"
    then have "FindNextUserEntry ops ucmp skipping d = Some d'" by (subst FindNextUserEntry.simps) simp
    moreover have "found b d'" using r less.prems(2) scan_invD(5) [OF less.prems(4)] by (simp add: found_def)
    ultimately show ?thesis by blast
  next
    fix skipping' d1
    assume r: "next_entry ops ucmp skipping d = Some (Inl (skipping', d1))" "good d1" "di_iter d1 = di_iter d"
      "di_direction d1 = di_direction d" "scan_inv b (Suc ?p) skipping' (di_saved_key d1)"
    then obtain d2 where d2: "step_iter (io_next ops) d1 = Some d2" "good d2" "pos (di_iter d2) = Suc ?p" "d2 = d1\<lparr>di_iter := di_iter d2\<rparr>"
      using step_next [of d1] less.prems(3) by auto
    have same: "di_direction d2 = kForward" "di_saved_key d2 = di_saved_key d1" using r(4) less.prems(2) d2(4) by (metis db_iter.ext_inject db_iter.surjective db_iter.update_convs(1))+
    have step: "FindNextUserEntry ops ucmp skipping d =
        (if Suc ?p < length M then FindNextUserEntry ops ucmp skipping' d2 else Some (d2\<lparr>di_saved_key := [], di_valid := False\<rparr>))"
      using r(1) d2(1,3) valid_at [OF d2(2)] by (subst FindNextUserEntry.simps) simp
    show ?thesis
    proof (cases "Suc ?p < length M")
      case True
      then have "\<exists>d'. FindNextUserEntry ops ucmp skipping' d2 = Some d' \<and> found b d'"
        using less.hyps [of d2 skipping'] d2 same r(5) less.prems(3) by simp
      then show ?thesis using step True by simp
    next
      case False
      then have "\<not> sh i" if "b \<le> i" for i using scan_invD(5) [OF r(5), of i] that by (cases "i < Suc ?p") (auto simp: shown_def)
      then show ?thesis using step False d2(2) same by (simp add: found_def good_def)
    qed
  qed
qed

lemma SeekToFirst_found:
  assumes "good d"
  shows "\<exists>d'. DB_SeekToFirst ops ucmp d = Some d' \<and> found 0 d'"
proof -
  let ?d = "d\<lparr>di_direction := kForward, di_saved_value := []\<rparr>"
  obtain it where it: "io_first ops (di_iter d) = Some it" "inv it" "pos it = 0" using inner.first_pos assms by (auto simp: good_def)
  let ?e = "?d\<lparr>di_iter := it\<rparr>"
  have e: "step_iter (io_first ops) ?d = Some ?e" "good ?e" using it assms by (simp_all add: step_iter_def good_def)
  show ?thesis
  proof (cases "0 < length M")
    case True
    have "scan_inv 0 0 False (di_saved_key ?e)" by (simp add: scan_inv_def)
    then obtain d' where "FindNextUserEntry ops ucmp False ?e = Some d'" "found 0 d'" using FindNext_found [OF e(2)] True it(3) by auto
    then show ?thesis using e valid_at [OF e(2)] True it(3) by (simp add: DB_SeekToFirst_def)
  next
    case False
    then have "\<not> sh i" for i unfolding shown_def by simp
    then have "found 0 (?e\<lparr>di_valid := False\<rparr>)" by (intro found_none [OF e(2)]) simp_all
    moreover have "\<not> io_valid ops (di_iter ?e)" using False valid_at [OF e(2)] it(3) by simp
    ultimately show ?thesis using e(1) by (simp add: DB_SeekToFirst_def)
  qed
qed

text \<open>Next, from where a forward or a backward step has left the iterator.\<close>

definition prev_seen :: "nat \<Rightarrow> nat \<Rightarrow> bool" where
  "prev_seen c r \<longleftrightarrow> (if r < length M then r < c \<and> vis r \<and> ucmp (uk r) (uk c) < 0 \<and> (\<forall>i. r < i \<and> i < c \<longrightarrow> \<not> vis i)
     else r = length M \<and> (\<forall>i < c. \<not> vis i))"

lemma scan_inv_next:
  assumes "sh c" and "p \<le> c" and "\<And>i. p \<le> i \<Longrightarrow> i < c \<Longrightarrow> \<not> vis i"
    and "\<And>i j. j < p \<Longrightarrow> vis j \<Longrightarrow> p \<le> i \<Longrightarrow> i < length M \<Longrightarrow> uk i = uk j \<Longrightarrow> ucmp (uk i) (uk c) \<le> 0"
  shows "scan_inv (Suc c) p True (uk c)"
  unfolding scan_inv_def
proof (intro conjI allI impI TrueI)
  have c: "c < length M" "vis c" "isval c" using assms(1) by (auto simp: shown_def)
  show "ucmp (uk i) (uk c) \<le> 0" if "j < p" "vis j" "p \<le> i \<and> i < length M \<and> uk i = uk j" for i j using assms(4) that by blast
  show "\<not> sh i" if i: "p \<le> i \<and> i < length M \<and> ucmp (uk i) (uk c) \<le> 0 \<and> Suc c \<le> i" for i
  proof -
    have "c < i" "uk c = uk i" using uk_le_iff [of c i] i by simp_all
    then show ?thesis using c(2) by (auto simp: shown_def)
  qed
  show "isval i" "ucmp (uk i) (uk c) \<le> 0" if "p < Suc c" "p \<le> i \<and> i < Suc c \<and> i < length M \<and> vis i" for i
    using that assms(3) [of i] c compare_self [OF uk_ok [OF c(1)]] by (cases "i = c"; simp)+
  show "\<not> sh i" if "Suc c \<le> i \<and> i < p" for i using that assms(2) by simp
qed

text \<open>Where a valid iterator stands.\<close>

definition standing :: "nat \<Rightarrow> 's db_iter \<Rightarrow> bool" where
  "standing c d \<longleftrightarrow> sh c \<and> (if di_direction d = kForward then pos (di_iter d) = c
     else di_saved_key d = uk c \<and> di_saved_value d = snd (M ! c) \<and> prev_seen c (pos (di_iter d)))"

lemma not_forward: "di_direction d \<noteq> kForward \<longleftrightarrow> di_direction d = kReverse"
  by (cases "di_direction d") simp_all

lemma Next_forward:
  assumes "good d" and "standing c d" and "di_direction d = kForward"
  shows "\<exists>d'. DB_Next ops ucmp d = Some d' \<and> found (Suc c) d'"
proof -
  have c: "sh c" "pos (di_iter d) = c" "c < length M" using assms(2,3) by (auto simp: standing_def shown_def)
  have k: "io_key ops (di_iter d) = Some (fst (M ! c))"
    using inner.key_pos [of "di_iter d"] inner.valid_pos [of "di_iter d"] assms(1) c by (simp add: good_def)
  let ?d = "d\<lparr>di_saved_key := uk c\<rparr>"
  have "scan_inv (Suc c) c True (uk c)"
  proof (rule scan_inv_next [OF c(1)])
    fix i j assume "j < c" "vis j" "c \<le> i" "i < length M" "uk i = uk j"
    then have "uk i = uk c" using uk_between [of j c i] by simp
    then show "ucmp (uk i) (uk c) \<le> 0" using compare_self [OF uk_ok [OF c(3)]] by simp
  qed simp_all
  then obtain d' where "FindNextUserEntry ops ucmp True ?d = Some d'" "found (Suc c) d'"
    using FindNext_found [of ?d "Suc c" True] assms(1,3) c by (auto simp: good_def)
  then show ?thesis using k assms(3) by (simp add: DB_Next_def)
qed

lemma Next_reverse:
  assumes "good d" and "standing c d" and "di_direction d = kReverse"
  shows "\<exists>d'. DB_Next ops ucmp d = Some d' \<and> found (Suc c) d'"
proof -
  let ?r = "pos (di_iter d)" and ?d = "d\<lparr>di_direction := kForward\<rparr>"
  have c: "sh c" "di_saved_key d = uk c" "prev_seen c ?r" "c < length M" using assms(2,3) by (auto simp: standing_def shown_def)
  define p where "p = (if ?r < length M then Suc ?r else 0)"
  have pc: "p \<le> c" "\<And>i. p \<le> i \<Longrightarrow> i < c \<Longrightarrow> \<not> vis i" using c(3) by (auto simp: prev_seen_def p_def split: if_splits)
  have v: "io_valid ops (di_iter d) \<longleftrightarrow> ?r < length M" using valid_at [OF assms(1)] .
  have i: "inv (di_iter d)" using assms(1) by (simp add: good_def)
  obtain it where it: "(if \<not> io_valid ops (di_iter d) then io_first ops else io_next ops) (di_iter d) = Some it" "inv it" "pos it = p"
    using inner.first_pos [OF i] inner.next_pos [OF i] v by (cases "?r < length M") (auto simp: p_def)
  let ?e = "?d\<lparr>di_iter := it\<rparr>"
  have e: "good ?e" "di_saved_key ?e = uk c" "pos (di_iter ?e) = p" using assms(1) it c(2) by (simp_all add: good_def)
  have "scan_inv (Suc c) p True (uk c)"
  proof (rule scan_inv_next [OF c(1) pc])
    fix i j assume j: "j < p" "vis j" "p \<le> i" "i < length M" "uk i = uk j"
    then have r: "?r < length M" "j \<le> ?r" by (auto simp: p_def split: if_splits)
    then have "ucmp (uk ?r) (uk c) < 0" using c(3) by (simp add: prev_seen_def)
    then have "ucmp (uk j) (uk c) < 0"
      using compare_le_less_trans [OF uk_ok uk_ok uk_ok, of j ?r c] uk_order [OF r(2,1)] r c(4) by simp
    then show "ucmp (uk i) (uk c) \<le> 0" using j(5) by simp
  qed
  then obtain d' where "FindNextUserEntry ops ucmp True ?e = Some d'" "found (Suc c) d'"
    using FindNext_found [OF e(1), of "Suc c" True] e pc(1) c(4) by auto
  moreover have "io_valid ops it" using valid_at [OF e(1)] e(3) pc(1) c(4) by simp
  ultimately show ?thesis using it(1) assms(3) by (simp add: DB_Next_def step_iter_def)
qed

text \<open>Seeking.\<close>

lemma seek_key_before:
  assumes "ok target" and "i < length M"
  defines "k \<equiv> AppendInternalKey [] \<lparr>user_key = target, sequence = S, key_type = kValueTypeForSeek\<rparr>"
  shows "InternalKey_Compare ucmp (fst (M ! i)) k < 0 \<Longrightarrow> vis i \<Longrightarrow> ucmp (uk i) target < 0"
    and "\<not> InternalKey_Compare ucmp (fst (M ! i)) k < 0 \<Longrightarrow> \<not> ucmp (uk i) target < 0"
proof -
  obtain u m where u: "fst (M ! i) = u @ word_le 8 (m :: u64)" using internal_keyE key_ok [OF assms(2)] by metis
  have uk: "uk i = u" unfolding u by (simp add: ExtractUserKey_append)
  have k: "k = target @ word_le 8 (PackSequenceAndType S kValueTypeForSeek)" by (simp add: k_def Append_eq)
  have cmp: "InternalKey_Compare ucmp (fst (M ! i)) k < 0 \<longleftrightarrow>
      ucmp u target < 0 \<or> u = target \<and> m > PackSequenceAndType S kValueTypeForSeek"
    using compare_0 [OF _ assms(1), of u] uk_ok [OF assms(2)] uk compare_self [OF assms(1)] unfolding u k by (auto simp: InternalKey_Compare_append)
  then show "\<not> InternalKey_Compare ucmp (fst (M ! i)) k < 0 \<Longrightarrow> \<not> ucmp (uk i) target < 0" using uk by simp
  assume l: "InternalKey_Compare ucmp (fst (M ! i)) k < 0" and v: "vis i"
  obtain p where p: "ParseInternalKey (u @ word_le 8 m) = Some p" "sequence p \<le> S"
    using v unfolding entry_seen_def u by (auto split: option.splits)
  have "unat m \<le> 256 * unat S + 1"
    using parse_num(2) [OF p(1)] type_byte_le [of "key_type p"] p(2) unfolding word_le_nat_alt by linarith
  then have "m \<le> PackSequenceAndType S kValueTypeForSeek"
    using pack_parts(3) [OF snapshot, of kTypeValue] by (simp add: word_le_nat_alt kValueTypeForSeek_def)
  then show "ucmp (uk i) target < 0" using l cmp uk by auto
qed

lemma Seek_found:
  assumes "good d" and "ok target"
  shows "\<exists>d' b. DB_Seek ops ucmp target d = Some d' \<and> found b d' \<and> (\<forall>i. sh i \<longrightarrow> (ucmp (uk i) target < 0 \<longleftrightarrow> i < b))"
proof -
  let ?k = "AppendInternalKey [] \<lparr>user_key = target, sequence = S, key_type = kValueTypeForSeek\<rparr>"
  let ?d = "d\<lparr>di_direction := kForward, di_saved_value := [], di_saved_key := ?k\<rparr>"
  have S: "di_sequence d = S" using assms(1) by (simp add: good_def)
  have "internal_ok ok ?k" using assms(2) by (simp add: Append_eq ExtractUserKey_append)
  moreover define b where "b = cut (\<lambda>x. InternalKey_Compare ucmp x ?k < 0) M"
  ultimately obtain it where it: "io_seek ops ?k (di_iter d) = Some it" "inv it" "pos it = b"
    using inner.seek_pos [of "di_iter d" ?k] assms(1) by (auto simp: good_def cut_def)
  let ?e = "?d\<lparr>di_iter := it\<rparr>"
  have e: "step_iter (io_seek ops ?k) ?d = Some ?e" "good ?e" using it assms(1) by (simp_all add: step_iter_def good_def)
  have before: "InternalKey_Compare ucmp (fst (M ! i)) ?k < 0 \<longleftrightarrow> i < b" if "i < length M" for i
    unfolding b_def using comparator.cut_nth [OF internal_comparator sorted comparator.down_less [OF internal_comparator] that] \<open>internal_ok ok ?k\<close>
    by blast
  have side: "ucmp (uk i) target < 0 \<longleftrightarrow> i < b" if "i < length M" "vis i" for i
    using seek_key_before [OF assms(2) that(1)] before [OF that(1)] that(2) by blast
  then have sides: "\<forall>i. sh i \<longrightarrow> (ucmp (uk i) target < 0 \<longleftrightarrow> i < b)" by (simp add: shown_def)
  show ?thesis
  proof (cases "b < length M")
    case True
    have "scan_inv b b False ?k"
    proof -
      have "uk i \<noteq> uk j" if "j < b" "vis j" "b \<le> i" "i < length M" for i j
        using side [of j] seek_key_before(2) [OF assms(2) that(4)] before [OF that(4)] that by auto
      then show ?thesis by (auto simp: scan_inv_def)
    qed
    then obtain d' where "FindNextUserEntry ops ucmp False ?e = Some d'" "found b d'" using FindNext_found [OF e(2)] True it(3) by auto
    then show ?thesis using e valid_at [OF e(2)] True it(3) S sides by (intro exI [of _ d'] exI [of _ b]) (simp add: DB_Seek_def)
  next
    case False
    then have "\<not> sh i" if "b \<le> i" for i using that unfolding shown_def by simp
    then have "found b (?e\<lparr>di_valid := False\<rparr>)" by (intro found_none [OF e(2)]) simp_all
    moreover have "\<not> io_valid ops (di_iter ?e)" using False valid_at [OF e(2)] it(3) by simp
    ultimately show ?thesis using e(1) S sides by (intro exI [of _ "?e\<lparr>di_valid := False\<rparr>"] exI [of _ b]) (simp add: DB_Seek_def)
  qed
qed

text \<open>
  What the scan backwards knows when the entries from \<open>n\<close> to \<open>N\<close> are behind it: the saved entry is the
  newest one that is seen of its user key, so far.
\<close>

definition back_inv :: "nat \<Rightarrow> nat \<Rightarrow> ValueType \<Rightarrow> bytes \<Rightarrow> bytes \<Rightarrow> bool" where
  "back_inv N n vt sk sv \<longleftrightarrow>
     (if vt = kTypeDeletion then \<forall>i. n \<le> i \<and> i < N \<longrightarrow> \<not> sh i
      else \<exists>c. n \<le> c \<and> c < N \<and> c < length M \<and> vis c \<and> isval c \<and> uk c = sk \<and> snd (M ! c) = sv \<and>
        (\<forall>i. n \<le> i \<and> i < c \<longrightarrow> \<not> vis i) \<and> (\<forall>i. c < i \<and> i < N \<longrightarrow> \<not> sh i))"

text \<open>The entry that a scan backwards from \<open>N\<close> ends with, if there is one.\<close>

definition ended_at :: "nat \<Rightarrow> ValueType \<Rightarrow> bytes \<Rightarrow> bytes \<Rightarrow> nat \<Rightarrow> bool" where
  "ended_at N vt sk sv r \<longleftrightarrow>
     (if vt = kTypeDeletion then \<forall>i < N. \<not> sh i
      else \<exists>c < N. sh c \<and> uk c = sk \<and> snd (M ! c) = sv \<and> prev_seen c r \<and> (\<forall>i. c < i \<and> i < N \<longrightarrow> \<not> sh i))"

lemma from_Suc: "m \<le> i \<Longrightarrow> i = m \<or> Suc m \<le> i"
  by auto

lemma back_inv_skip:
  assumes "back_inv N (Suc m) vt sk sv" and "\<not> vis m"
  shows "back_inv N m vt sk sv"
proof (cases "vt = kTypeDeletion")
  case True
  have "\<not> sh m" using assms(2) by (simp add: shown_def)
  then show ?thesis using assms(1) True from_Suc [of m] unfolding back_inv_def by auto
next
  case False
  then obtain c where c: "Suc m \<le> c" "c < N" "c < length M" "vis c" "isval c" "uk c = sk" "snd (M ! c) = sv"
    "\<forall>i. Suc m \<le> i \<and> i < c \<longrightarrow> \<not> vis i" "\<forall>i. c < i \<and> i < N \<longrightarrow> \<not> sh i" using assms(1) by (auto simp: back_inv_def)
  have "\<forall>i. m \<le> i \<and> i < c \<longrightarrow> \<not> vis i" using c(8) assms(2) from_Suc [of m] by blast
  then show ?thesis using False c unfolding back_inv_def by (simp only: if_False) (intro exI [of _ c]; simp)
qed

lemma back_inv_take:
  assumes inv: "back_inv N (Suc m) vt sk sv" and m: "m < length M" "m < N" and v: "vis m" and go: "vt = kTypeDeletion \<or> \<not> ucmp (uk m) sk < 0"
  shows "isval m \<Longrightarrow> back_inv N m kTypeValue (uk m) (snd (M ! m))" and "\<not> isval m \<Longrightarrow> back_inv N m kTypeDeletion [] []"
proof -
  have none: "\<not> sh i" if "m < i" "i < N" for i
  proof (cases "vt = kTypeDeletion")
    case True
    then show ?thesis using inv that by (simp add: back_inv_def)
  next
    case False
    then obtain c where c: "Suc m \<le> c" "c < N" "c < length M" "uk c = sk" "\<And>i. Suc m \<le> i \<Longrightarrow> i < c \<Longrightarrow> \<not> vis i"
      "\<And>i. c < i \<Longrightarrow> i < N \<Longrightarrow> \<not> sh i" using inv by (auto simp: back_inv_def)
    have "ucmp (uk c) (uk m) \<le> 0" using go False c(1,3,4) compare_not_less [OF uk_ok uk_ok, of m c] m(1) by simp
    then have "uk c = uk m" using uk_le_iff [of m c] c(1,3) by simp
    moreover have "m < c" using c(1) by simp
    ultimately have "\<not> sh c" using v unfolding shown_def by metis
    then show ?thesis using that c(1,5,6) by (cases i c rule: linorder_cases) (auto simp: shown_def)
  qed
  show "isval m \<Longrightarrow> back_inv N m kTypeValue (uk m) (snd (M ! m))" using m v none by (auto simp: back_inv_def)
  assume "\<not> isval m"
  then have "\<not> sh m" by (simp add: shown_def)
  with none show "back_inv N m kTypeDeletion [] []" by (auto simp: back_inv_def le_less)
qed

lemma back_inv_break:
  assumes inv: "back_inv N (Suc m) vt sk sv" and m: "m < length M" and v: "vis m" and stop: "vt \<noteq> kTypeDeletion" "ucmp (uk m) sk < 0"
  shows "ended_at N vt sk sv m"
proof -
  obtain c where c: "Suc m \<le> c" "c < N" "c < length M" "vis c" "isval c" "uk c = sk" "snd (M ! c) = sv" "\<And>i. Suc m \<le> i \<Longrightarrow> i < c \<Longrightarrow> \<not> vis i"
    "\<forall>i. c < i \<and> i < N \<longrightarrow> \<not> sh i" using inv stop(1) by (auto simp: back_inv_def)
  have "uk j \<noteq> uk c" if "j < c" "vis j" for j
  proof
    assume e: "uk j = uk c"
    have "j \<le> m" using c(8) that by (meson not_less_eq_eq)
    then have "uk m = uk c" using uk_between [of j m c] c(1,3) e by simp
    then show False using stop(2) c(6) compare_self [OF uk_ok [OF c(3)]] by simp
  qed
  then have "sh c" using c(3-5) by (simp add: shown_def)
  moreover have "prev_seen c m" using c(1,6,8) m v stop(2) by (simp add: prev_seen_def)
  ultimately show ?thesis using c(2,6,7,9) stop(1) by (auto simp: ended_at_def)
qed

lemma back_inv_end: "back_inv N 0 vt sk sv \<Longrightarrow> ended_at N vt sk sv (length M)"
  unfolding back_inv_def ended_at_def prev_seen_def shown_def by (auto split: if_splits)

lemma prev_entry_at:
  assumes "good d" and "pos (di_iter d) = m" and "m < length M" and "m < N" and inv: "back_inv N (Suc m) vt (di_saved_key d) (di_saved_value d)"
  shows "(\<exists>vt' d'. prev_entry ops ucmp vt d = Some (Inl (vt', d')) \<and> good d' \<and> di_iter d' = di_iter d \<and>
      di_direction d' = di_direction d \<and> back_inv N m vt' (di_saved_key d') (di_saved_value d')) \<or>
    (\<exists>d'. prev_entry ops ucmp vt d = Some (Inr d') \<and> good d' \<and> di_iter d' = di_iter d \<and> di_direction d' = di_direction d \<and>
      ended_at N vt (di_saved_key d') (di_saved_value d') m)"
proof -
  let ?k = "fst (M ! m)"
  obtain d1 where d1: "ParseKey ops d = Some (ParseInternalKey ?k, d1)" "sampled d d1"
    using ParseKey_at [of d] assms by (auto simp: good_def)
  then have g: "good d1" "di_iter d1 = di_iter d" "di_direction d1 = di_direction d" "di_saved_key d1 = di_saved_key d"
    "di_saved_value d1 = di_saved_value d" "di_sequence d1 = S" using assms(1) by (simp_all add: good_def sampled_def)
  note seen = seen_key_at [OF g(6), of m]
  have kv: "io_key ops (di_iter d) = Some ?k" "io_value ops (di_iter d) = Some (snd (M ! m))"
    using inner.key_pos [of "di_iter d"] inner.valid_pos [of "di_iter d"] assms(1-3) by (simp_all add: good_def)
  show ?thesis
  proof (cases "vis m")
    case False
    then show ?thesis using d1(1) g seen back_inv_skip [OF inv False] by (auto simp: prev_entry_def)
  next
    case vis: True
    then obtain i where i: "ParseInternalKey ?k = Some i" by (auto simp: entry_seen_def split: option.splits)
    then have u: "user_key i = uk m" using parse_user by blast
    show ?thesis
    proof (cases "vt \<noteq> kTypeDeletion \<and> ucmp (uk m) (di_saved_key d) < 0")
      case True
      then show ?thesis using d1(1) g seen vis i u back_inv_break [OF inv assms(3) vis] by (auto simp: prev_entry_def)
    next
      case False
      then have go: "vt = kTypeDeletion \<or> \<not> ucmp (uk m) (di_saved_key d) < 0" by blast
      note took = back_inv_take [OF inv assms(3,4) vis go]
      show ?thesis
      proof (cases "key_type i")
        case kTypeDeletion
        then have "\<not> isval m" using i by (simp add: entry_value_def)
        then show ?thesis using d1(1) g seen vis i u False kTypeDeletion took(2) by (auto simp: prev_entry_def good_def)
      next
        case kTypeValue
        then have "isval m" using i by (simp add: entry_value_def)
        then show ?thesis using d1(1) g seen vis i u False kTypeValue took(1) kv by (auto simp: prev_entry_def good_def)
      qed
    qed
  qed
qed

lemma step_prev:
  assumes "good d" and "pos (di_iter d) < length M"
  shows "\<exists>it. step_iter (io_prev ops) d = Some (d\<lparr>di_iter := it\<rparr>) \<and> inv it \<and>
    pos it = (if pos (di_iter d) = 0 then length M else pos (di_iter d) - 1)"
  using inner.prev_pos [of "di_iter d"] inner.valid_pos [of "di_iter d"] assms by (auto simp: step_iter_def good_def)

lemma find_prev_loop_ok:
  assumes "good d" and "pos (di_iter d) < length M" and "pos (di_iter d) < N"
    and "back_inv N (Suc (pos (di_iter d))) vt (di_saved_key d) (di_saved_value d)"
  shows "\<exists>vt' d'. find_prev_loop ops ucmp vt d = Some (vt', d') \<and> good d' \<and> di_direction d' = di_direction d \<and>
    ended_at N vt' (di_saved_key d') (di_saved_value d') (pos (di_iter d'))"
  using assms
proof (induction "pos (di_iter d)" arbitrary: d vt rule: less_induct)
  case less
  let ?m = "pos (di_iter d)"
  from prev_entry_at [OF less.prems(1) refl less.prems(2-4)] show ?case
  proof (elim disjE exE conjE)
    fix d' assume "prev_entry ops ucmp vt d = Some (Inr d')" "good d'" "di_iter d' = di_iter d" "di_direction d' = di_direction d"
      "ended_at N vt (di_saved_key d') (di_saved_value d') ?m"
    then show ?thesis by (subst find_prev_loop.simps) simp
  next
    fix vt' d1
    assume r: "prev_entry ops ucmp vt d = Some (Inl (vt', d1))" "good d1" "di_iter d1 = di_iter d" "di_direction d1 = di_direction d"
      "back_inv N ?m vt' (di_saved_key d1) (di_saved_value d1)"
    obtain it where it: "step_iter (io_prev ops) d1 = Some (d1\<lparr>di_iter := it\<rparr>)" "inv it" "pos it = (if ?m = 0 then length M else ?m - 1)"
      using step_prev [OF r(2)] r(3) less.prems(2) by auto
    let ?e = "d1\<lparr>di_iter := it\<rparr>"
    have e: "good ?e" using it(2) r(2) by (simp add: good_def)
    have step: "find_prev_loop ops ucmp vt d = (if pos it < length M then find_prev_loop ops ucmp vt' ?e else Some (vt', ?e))"
      using r(1) it(1) valid_at [OF e] by (subst find_prev_loop.simps) simp
    show ?thesis
    proof (cases ?m)
      case 0
      then have "pos it = length M" "back_inv N 0 vt' (di_saved_key d1) (di_saved_value d1)" using it(3) r(5) by simp_all
      then show ?thesis using step e r(4) back_inv_end [of N vt' "di_saved_key d1" "di_saved_value d1"] by simp
    next
      case (Suc q)
      then have q: "pos (di_iter ?e) = q" using it(3) by simp
      then have "\<exists>vt'' d'. find_prev_loop ops ucmp vt' ?e = Some (vt'', d') \<and> good d' \<and> di_direction d' = di_direction ?e \<and>
          ended_at N vt'' (di_saved_key d') (di_saved_value d') (pos (di_iter d'))"
        using less.hyps [of ?e vt'] e Suc less.prems(2,3) r(5) by simp
      then show ?thesis using step q Suc less.prems(2) r(4) by simp
    qed
  qed
qed

definition prev_found :: "nat \<Rightarrow> 's db_iter \<Rightarrow> bool" where
  "prev_found N d \<longleftrightarrow> good d \<and>
     (if di_valid d then \<exists>c < N. standing c d \<and> (\<forall>i. c < i \<and> i < N \<longrightarrow> \<not> sh i) else \<forall>i < N. \<not> sh i)"

lemma FindPrev_found:
  assumes "good d" and "di_direction d = kReverse" and "if pos (di_iter d) < length M then N = Suc (pos (di_iter d)) else \<forall>i < N. \<not> sh i"
  shows "\<exists>d'. FindPrevUserEntry ops ucmp d = Some d' \<and> prev_found N d'"
proof -
  have "\<exists>vt d'. (if io_valid ops (di_iter d) then find_prev_loop ops ucmp kTypeDeletion d else Some (kTypeDeletion, d)) = Some (vt, d') \<and>
      good d' \<and> di_direction d' = kReverse \<and> ended_at N vt (di_saved_key d') (di_saved_value d') (pos (di_iter d'))"
  proof (cases "pos (di_iter d) < length M")
    case True
    then have "back_inv N (Suc (pos (di_iter d))) kTypeDeletion (di_saved_key d) (di_saved_value d)" "pos (di_iter d) < N"
      using assms(3) by (auto simp: back_inv_def)
    then show ?thesis using find_prev_loop_ok [OF assms(1) True] valid_at [OF assms(1)] True assms(2) by auto
  next
    case False
    then show ?thesis using valid_at [OF assms(1)] assms by (auto simp: ended_at_def)
  qed
  then obtain vt d' where d': "(if io_valid ops (di_iter d) then find_prev_loop ops ucmp kTypeDeletion d else Some (kTypeDeletion, d)) = Some (vt, d')"
    "good d'" "di_direction d' = kReverse" "ended_at N vt (di_saved_key d') (di_saved_value d') (pos (di_iter d'))" by blast
  show ?thesis
  proof (cases "vt = kTypeDeletion")
    case True
    then show ?thesis using d' by (simp add: FindPrevUserEntry_def ended_at_def prev_found_def good_def)
  next
    case False
    then obtain c where "c < N" "sh c" "uk c = di_saved_key d'" "snd (M ! c) = di_saved_value d'" "prev_seen c (pos (di_iter d'))"
      "\<forall>i. c < i \<and> i < N \<longrightarrow> \<not> sh i" using d'(4) by (auto simp: ended_at_def)
    then have "prev_found N (d'\<lparr>di_valid := True\<rparr>)" using d'(2,3) by (auto simp: prev_found_def good_def standing_def)
    then show ?thesis using d'(1) False by (simp add: FindPrevUserEntry_def)
  qed
qed

text \<open>The scan over the entries of the current user key, before a change of direction.\<close>

lemma leave_key_ok:
  assumes "good d" and "pos (di_iter d) \<le> c" and "c < length M" and "di_saved_key d = uk c"
    and "\<forall>i. pos (di_iter d) \<le> i \<and> i < c \<longrightarrow> uk i = uk c"
  shows "\<exists>b d'. leave_key ops ucmp d = Some (b, d') \<and> good d' \<and> di_direction d' = di_direction d \<and>
    (if b then pos (di_iter d') < c \<and> (\<forall>i. pos (di_iter d') < i \<and> i < c \<longrightarrow> uk i = uk c) else \<forall>i < c. uk i = uk c)"
  using assms
proof (induction "pos (di_iter d)" arbitrary: d rule: less_induct)
  case less
  let ?p = "pos (di_iter d)"
  obtain it where it: "step_iter (io_prev ops) d = Some (d\<lparr>di_iter := it\<rparr>)" "inv it" "pos it = (if ?p = 0 then length M else ?p - 1)"
    using step_prev [OF less.prems(1)] less.prems(2,3) by auto
  let ?e = "d\<lparr>di_iter := it\<rparr>"
  have e: "good ?e" "di_saved_key ?e = uk c" using it(2) less.prems(1,4) by (simp_all add: good_def)
  show ?case
  proof (cases ?p)
    case 0
    then have "\<not> io_valid ops it" using it(3) valid_at [OF e(1)] by simp
    then have "leave_key ops ucmp d = Some (False, ?e)" using it(1) by (subst leave_key.simps) simp
    then show ?thesis using e(1) 0 less.prems(5) by (intro exI [of _ False] exI [of _ ?e]) simp
  next
    case (Suc q)
    then have q: "pos it = q" "q < c" "q < length M" using it(3) less.prems(2,3) by simp_all
    then have v: "io_valid ops it" "io_key ops it = Some (fst (M ! q))"
      using valid_at [OF e(1)] inner.key_pos [OF it(2)] by simp_all
    have step: "leave_key ops ucmp d = (if ucmp (uk q) (uk c) < 0 then Some (True, ?e) else leave_key ops ucmp ?e)"
      using it(1) v less.prems(4) by (subst leave_key.simps) simp
    show ?thesis
    proof (cases "ucmp (uk q) (uk c) < 0")
      case True
      then show ?thesis using step e(1) q less.prems(5) Suc by (intro exI [of _ True] exI [of _ ?e]) (simp add: Suc_le_eq)
    next
      case False
      then have "ucmp (uk c) (uk q) \<le> 0" using compare_not_less [OF uk_ok uk_ok, of q c] q(3) less.prems(3) by simp
      then have "uk q = uk c" using uk_le_iff [OF q(2) less.prems(3)] by simp
      then have "\<forall>i. q \<le> i \<and> i < c \<longrightarrow> uk i = uk c" using less.prems(5) Suc from_Suc [of q] by auto
      then show ?thesis using less.hyps [of ?e] e q Suc less.prems(3) step False by simp
    qed
  qed
qed

lemma same_key_not_shown: "sh c \<Longrightarrow> i < c \<Longrightarrow> uk i = uk c \<Longrightarrow> \<not> sh i"
  by (auto simp: shown_def)

lemma Prev_found:
  assumes "good d" and "standing c d"
  shows "\<exists>d'. DB_Prev ops ucmp d = Some d' \<and> prev_found c d'"
proof (cases "di_direction d = kForward")
  case True
  have c: "sh c" "pos (di_iter d) = c" "c < length M" using assms(2) True by (auto simp: standing_def shown_def)
  have k: "io_key ops (di_iter d) = Some (fst (M ! c))"
    using inner.key_pos [of "di_iter d"] inner.valid_pos [of "di_iter d"] assms(1) c by (simp add: good_def)
  let ?d = "d\<lparr>di_saved_key := uk c\<rparr>"
  have e: "good ?d" "pos (di_iter ?d) \<le> c" "di_saved_key ?d = uk c" "\<forall>i. pos (di_iter ?d) \<le> i \<and> i < c \<longrightarrow> uk i = uk c"
    using assms(1) c(2) by (auto simp: good_def)
  from leave_key_ok [OF e(1,2) c(3) e(3,4)]
  obtain b d1 where d1: "leave_key ops ucmp ?d = Some (b, d1)" "good d1" "di_direction d1 = di_direction ?d"
    "if b then pos (di_iter d1) < c \<and> (\<forall>i. pos (di_iter d1) < i \<and> i < c \<longrightarrow> uk i = uk c) else \<forall>i < c. uk i = uk c"
    by (elim exE conjE)
  show ?thesis
  proof (cases b)
    case False
    then have "\<forall>i < c. \<not> sh i" using same_key_not_shown [OF c(1)] d1(4) by simp
    then have "prev_found c (d1\<lparr>di_valid := False, di_saved_key := [], di_saved_value := []\<rparr>)" using d1(2) by (simp add: prev_found_def good_def)
    then show ?thesis using k True d1(1) False by (simp add: DB_Prev_def)
  next
    case b: True
    let ?m = "pos (di_iter d1)" and ?e = "d1\<lparr>di_direction := kReverse\<rparr>"
    have m: "?m < c" "\<And>i. ?m < i \<Longrightarrow> i < c \<Longrightarrow> \<not> sh i" using d1(4) b same_key_not_shown [OF c(1)] by simp_all
    obtain d' where d': "FindPrevUserEntry ops ucmp ?e = Some d'" "prev_found (Suc ?m) d'"
      using FindPrev_found [of ?e "Suc ?m"] d1(2) m(1) c(3) by (auto simp: good_def)
    have "prev_found c d'"
    proof (cases "di_valid d'")
      case True
      then obtain c' where c': "c' < Suc ?m" "standing c' d'" "\<forall>i. c' < i \<and> i < Suc ?m \<longrightarrow> \<not> sh i" using d'(2) by (auto simp: prev_found_def)
      have "\<forall>i. c' < i \<and> i < c \<longrightarrow> \<not> sh i" using c'(3) m(2) by (metis less_Suc_eq_le linorder_not_le)
      moreover have "c' < c" using c'(1) m(1) by simp
      ultimately show ?thesis using d'(2) c'(2) True by (auto simp: prev_found_def)
    next
      case False
      then have "\<forall>i < Suc ?m. \<not> sh i" using d'(2) by (simp add: prev_found_def)
      then have "\<forall>i < c. \<not> sh i" using m(2) by (metis less_Suc_eq_le linorder_not_le)
      then show ?thesis using d'(2) False by (simp add: prev_found_def)
    qed
    then show ?thesis using k True d1(1) b d'(1) by (simp add: DB_Prev_def)
  qed
next
  case False
  let ?r = "pos (di_iter d)"
  have c: "sh c" "prev_seen c ?r" "c < length M" and dir: "di_direction d = kReverse" using assms(2) False not_forward by (auto simp: standing_def shown_def)
  define N where "N = (if ?r < length M then Suc ?r else c)"
  have gap: "N \<le> c" "\<And>i. N \<le> i \<Longrightarrow> i < c \<Longrightarrow> \<not> sh i" using c(2) by (auto simp: prev_seen_def N_def shown_def split: if_splits)
  have "if ?r < length M then N = Suc ?r else \<forall>i < N. \<not> sh i" using c(2) by (auto simp: prev_seen_def N_def shown_def)
  from FindPrev_found [OF assms(1) dir this] obtain d' where d': "FindPrevUserEntry ops ucmp d = Some d'" "prev_found N d'" by blast
  have "prev_found c d'"
  proof (cases "di_valid d'")
    case True
    then obtain c' where c': "c' < N" "standing c' d'" "\<forall>i. c' < i \<and> i < N \<longrightarrow> \<not> sh i" using d'(2) by (auto simp: prev_found_def)
    have "\<forall>i. c' < i \<and> i < c \<longrightarrow> \<not> sh i" using c'(3) gap(2) by (meson linorder_not_le)
    moreover have "c' < c" using c'(1) gap(1) by simp
    ultimately show ?thesis using d'(2) c'(2) True unfolding prev_found_def by (simp only: if_True) blast
  next
    case False
    then have "\<forall>i < c. \<not> sh i" using d'(2) gap(2) by (meson linorder_not_le prev_found_def)
    then show ?thesis using d'(2) False by (simp add: prev_found_def)
  qed
  then show ?thesis using dir d'(1) by (simp add: DB_Prev_def)
qed

lemma SeekToLast_found:
  assumes "good d"
  shows "\<exists>d'. DB_SeekToLast ops ucmp d = Some d' \<and> prev_found (length M) d'"
proof -
  let ?d = "d\<lparr>di_direction := kReverse, di_saved_value := []\<rparr>"
  obtain it where it: "io_last ops (di_iter d) = Some it" "inv it" "pos it = length M - 1" using inner.final_pos assms by (auto simp: good_def)
  let ?e = "?d\<lparr>di_iter := it\<rparr>"
  have e: "step_iter (io_last ops) ?d = Some ?e" "good ?e" using it assms by (simp_all add: step_iter_def good_def)
  have "if pos (di_iter ?e) < length M then length M = Suc (pos (di_iter ?e)) else \<forall>i < length M. \<not> sh i" using it(3) by auto
  from FindPrev_found [OF e(2) _ this] show ?thesis using e(1) by (simp add: DB_SeekToLast_def)
qed

text \<open>The place of an entry among those that are shown.\<close>

definition rank :: "nat \<Rightarrow> nat" where
  "rank c = length (filter sh [0..<c])"

lemma rank_all: "rank (length M) = length (live S M)"
  by (simp add: rank_def live_def)

lemma rank_upto: "b \<le> c \<Longrightarrow> (\<And>i. b \<le> i \<Longrightarrow> i < c \<Longrightarrow> \<not> sh i) \<Longrightarrow> rank b = rank c"
proof -
  assume "b \<le> c" and none: "\<And>i. b \<le> i \<Longrightarrow> i < c \<Longrightarrow> \<not> sh i"
  then have "[0..<c] = [0..<b] @ [b..<c]" by (metis le0 le_iff_add upt_add_eq_append)
  moreover have "filter sh [b..<c] = []" using none by (auto simp: filter_empty_conv)
  ultimately show "rank b = rank c" by (simp add: rank_def)
qed

lemma rank_end: "(\<And>i. b \<le> i \<Longrightarrow> \<not> sh i) \<Longrightarrow> rank b = length (live S M)"
proof (cases "b \<le> length M")
  case True
  assume "\<And>i. b \<le> i \<Longrightarrow> \<not> sh i"
  with True have "rank b = rank (length M)" by (intro rank_upto) simp_all
  then show ?thesis by (simp add: rank_all)
next
  case False
  then have "rank (length M) = rank b" by (intro rank_upto) (simp_all add: shown_def)
  then show ?thesis by (simp add: rank_all)
qed

lemma rank_Suc: "sh c \<Longrightarrow> rank (Suc c) = Suc (rank c)"
  by (simp add: rank_def)

lemma rank_at:
  assumes "sh c"
  shows "rank c < length (live S M)" and "live S M ! rank c = (uk c, snd (M ! c))"
proof -
  have c: "c < length M" using assms by (simp add: shown_def)
  then have "[0..<length M] = [0..<c] @ c # [Suc c..<length M]" by (metis le0 le_iff_add less_imp_le upt_add_eq_append upt_conv_Cons)
  then have "filter sh [0..<length M] = filter sh [0..<c] @ c # filter sh [Suc c..<length M]" using assms by simp
  then show "rank c < length (live S M)" "live S M ! rank c = (uk c, snd (M ! c))" by (simp_all add: live_def rank_def nth_append)
qed

lemma takeWhile_split: "\<forall>x \<in> set xs. P x \<Longrightarrow> \<forall>y \<in> set ys. \<not> P y \<Longrightarrow> takeWhile P (xs @ ys) = xs"
proof (induction xs)
  case Nil
  then show ?case by (cases ys) simp_all
qed simp

lemma rank_seek:
  assumes "\<forall>i. sh i \<longrightarrow> (ucmp (uk i) target < 0 \<longleftrightarrow> i < b)"
  shows "rank b = length (takeWhile (\<lambda>e. ucmp (fst e) target < 0) (live S M))"
proof -
  define n where "n = min b (length M)"
  have "[0..<length M] = [0..<n] @ [n..<length M]" using upt_add_eq_append [of 0 n "length M - n"] by (simp add: n_def)
  then have l: "live S M = map (\<lambda>i. (uk i, snd (M ! i))) (filter sh [0..<n] @ filter sh [n..<length M])" by (simp add: live_def)
  have n: "i < n \<longleftrightarrow> i < b" if "sh i" for i using that by (auto simp: n_def shown_def)
  then have n': "\<not> i < b" if "sh i" "n \<le> i" for i using that by (metis linorder_not_le)
  have "\<forall>i \<in> set (filter sh [0..<n]). ucmp (uk i) target < 0" "\<forall>i \<in> set (filter sh [n..<length M]). \<not> ucmp (uk i) target < 0"
    using assms n n' by auto
  then have "takeWhile (\<lambda>e. ucmp (fst e) target < 0) (live S M) = map (\<lambda>i. (uk i, snd (M ! i))) (filter sh [0..<n])"
    unfolding l takeWhile_map o_def fst_conv by (simp only: takeWhile_split)
  moreover have "rank n = rank b" by (rule rank_upto) (auto simp: n_def shown_def)
  ultimately show ?thesis by (simp add: rank_def)
qed

text \<open>The iterator as an iterator over the entries that are shown.\<close>

definition dinv :: "'s db_iter \<Rightarrow> bool" where
  "dinv d \<longleftrightarrow> good d \<and> (di_valid d \<longrightarrow> (\<exists>c. standing c d))"

definition dpos :: "'s db_iter \<Rightarrow> nat" where
  "dpos d = (if di_valid d then rank (THE c. standing c d) else length (live S M))"

lemma standing_unique: "standing c d \<Longrightarrow> standing c' d \<Longrightarrow> c' = c"
  using same_key_not_shown [of c c'] same_key_not_shown [of c' c]
  by (cases c c' rule: linorder_cases) (auto simp: standing_def split: if_splits)

lemma dpos_standing: "di_valid d \<Longrightarrow> standing c d \<Longrightarrow> dpos d = rank c"
proof -
  assume "di_valid d" and c: "standing c d"
  moreover have "(THE c. standing c d) = c" using c standing_unique [OF c] by (rule the_equality)
  ultimately show ?thesis by (simp add: dpos_def)
qed

lemma found_pos: "found b d \<Longrightarrow> dinv d \<and> dpos d = rank b"
proof (cases "di_valid d")
  case True
  assume f: "found b d"
  then have c: "standing (pos (di_iter d)) d" using True by (simp add: found_def standing_def)
  have "rank b = rank (pos (di_iter d))" using f True by (intro rank_upto) (simp_all add: found_def)
  then show ?thesis using f c dpos_standing [OF True c] by (auto simp: dinv_def found_def)
next
  case False
  assume f: "found b d"
  then have "rank b = length (live S M)" using False by (intro rank_end) (simp add: found_def)
  then show ?thesis using f False by (simp add: dinv_def dpos_def found_def)
qed

lemma prev_found_pos: "prev_found N d \<Longrightarrow> dinv d \<and> dpos d = (if rank N = 0 then length (live S M) else rank N - 1)"
proof (cases "di_valid d")
  case True
  assume f: "prev_found N d"
  then obtain c where c: "c < N" "standing c d" "\<forall>i. c < i \<and> i < N \<longrightarrow> \<not> sh i" using True by (auto simp: prev_found_def)
  have "rank (Suc c) = rank N" using c(1,3) by (intro rank_upto) simp_all
  moreover have "rank (Suc c) = Suc (rank c)" using c(2) by (intro rank_Suc) (simp add: standing_def)
  ultimately show ?thesis using f c(2) dpos_standing [OF True c(2)] by (auto simp: dinv_def prev_found_def)
next
  case False
  assume f: "prev_found N d"
  then have "rank 0 = rank N" using False by (intro rank_upto) (simp_all add: prev_found_def)
  then show ?thesis using f False by (simp add: dinv_def dpos_def prev_found_def rank_def)
qed

lemma standing_entry:
  assumes "good d" and "standing c d"
  shows "io_entry (db_iter_ops ops ucmp) d = Some (uk c, snd (M ! c))"
proof (cases "di_direction d = kForward")
  case True
  then have "pos (di_iter d) = c" "c < length M" using assms(2) by (auto simp: standing_def shown_def)
  then have "io_key ops (di_iter d) = Some (fst (M ! c))" "io_value ops (di_iter d) = Some (snd (M ! c))"
    using inner.key_pos [of "di_iter d"] inner.valid_pos [of "di_iter d"] assms(1) by (simp_all add: good_def)
  then show ?thesis using True by (simp add: io_entry_def db_iter_ops_def)
qed (use assms(2) in \<open>simp add: io_entry_def db_iter_ops_def standing_def\<close>)

theorem db_iterator: "op_iterator (db_iter_ops ops ucmp) (live S M) ok (\<lambda>k t. ucmp k t < 0) dinv dpos"
proof (rule op_iterator.intro, unfold_locales)
  fix d assume inv: "dinv d"
  then have g: "good d" by (simp add: dinv_def)
  have at: "\<exists>c. standing c d \<and> sh c \<and> dpos d = rank c" if "di_valid d"
    using inv that dpos_standing by (auto simp: dinv_def standing_def)
  show "io_valid (db_iter_ops ops ucmp) d \<longleftrightarrow> dpos d < length (live S M)"
    using at rank_at(1) by (cases "di_valid d") (auto simp: db_iter_ops_def dpos_def)
  show "\<exists>d'. io_first (db_iter_ops ops ucmp) d = Some d' \<and> dinv d' \<and> dpos d' = 0"
    using SeekToFirst_found [OF g] found_pos [of 0] by (auto simp: db_iter_ops_def rank_def)
  show "\<exists>d'. io_last (db_iter_ops ops ucmp) d = Some d' \<and> dinv d' \<and> dpos d' = length (live S M) - 1"
    using SeekToLast_found [OF g] prev_found_pos [of "length M"] by (auto simp: db_iter_ops_def rank_all)
  show "\<exists>d'. io_seek (db_iter_ops ops ucmp) target d = Some d' \<and> dinv d' \<and>
      dpos d' = length (takeWhile (\<lambda>e. ucmp (fst e) target < 0) (live S M))" if "ok target" for target
  proof -
    obtain d' b where "DB_Seek ops ucmp target d = Some d'" "found b d'" "\<forall>i. sh i \<longrightarrow> (ucmp (uk i) target < 0 \<longleftrightarrow> i < b)"
      using Seek_found [OF g \<open>ok target\<close>] by blast
    then show ?thesis using found_pos [of b d'] rank_seek [of target b] by (simp add: db_iter_ops_def)
  qed
  assume "io_valid (db_iter_ops ops ucmp) d"
  then have v: "di_valid d" by (simp add: db_iter_ops_def)
  then obtain c where c: "standing c d" "sh c" "dpos d = rank c" using at by blast
  show "io_entry (db_iter_ops ops ucmp) d = Some (live S M ! dpos d)" using standing_entry [OF g c(1)] rank_at(2) [OF c(2)] c(3) by simp
  have "\<exists>d'. DB_Next ops ucmp d = Some d' \<and> found (Suc c) d'"
    using Next_forward [OF g c(1)] Next_reverse [OF g c(1)] by (cases "di_direction d") simp_all
  then show "\<exists>d'. io_next (db_iter_ops ops ucmp) d = Some d' \<and> dinv d' \<and> dpos d' = Suc (dpos d)"
    using found_pos [of "Suc c"] rank_Suc [OF c(2)] c(3) by (auto simp: db_iter_ops_def)
  show "\<exists>d'. io_prev (db_iter_ops ops ucmp) d = Some d' \<and> dinv d' \<and> dpos d' = (if dpos d = 0 then length (live S M) else dpos d - 1)"
    using Prev_found [OF g c(1)] prev_found_pos [of c] c(3) by (auto simp: db_iter_ops_def)
qed

lemma new_DBIter_pos: "inv it \<Longrightarrow> dinv (new_DBIter it S seed) \<and> dpos (new_DBIter it S seed) = length (live S M)"
  using Random_Next_mod(2) [OF new_Random_good [of seed]] period_eq(2) [of "new_Random seed"]
  by (auto simp: dinv_def dpos_def good_def new_DBIter_def split: prod.splits)

text \<open>What is shown, without the order of the entries.\<close>

lemma later_older:
  assumes "i < j" and "j < length M" and "ParseInternalKey (fst (M ! i)) = Some p" and "ParseInternalKey (fst (M ! j)) = Some q"
    and "user_key p = user_key q"
  shows "sequence q < sequence p \<or> sequence q = sequence p \<and> type_byte (key_type q) < type_byte (key_type p)"
proof -
  have i: "i < length M" using assms(1,2) by simp
  obtain u m where u: "fst (M ! i) = u @ word_le 8 (m :: u64)" using internal_keyE key_ok [OF i] by metis
  obtain v k where v: "fst (M ! j) = v @ word_le 8 (k :: u64)" using internal_keyE key_ok [OF assms(2)] by metis
  note p = parse_num [OF assms(3) [unfolded u]] and q = parse_num [OF assms(4) [unfolded v]]
  have "ok u" using key_ok [OF i] by (simp add: u ExtractUserKey_append)
  then have "m > k"
    using comparator.entries_less [OF internal_comparator sorted assms(1,2)] p(1) q(1) assms(5) compare_self [of u]
    unfolding u v by (simp add: InternalKey_Compare_append split: if_splits)
  then have mk: "256 * unat (sequence q) + unat (type_byte (key_type q)) < 256 * unat (sequence p) + unat (type_byte (key_type p))"
    using p(2) q(2) by (simp add: word_less_nat_alt)
  then show ?thesis
    using type_byte_le [of "key_type p"] type_byte_le [of "key_type q"] unfolding word_less_nat_alt word_unat_eq_iff by linarith
qed

lemma shown_newest:
  assumes "sh i"
  shows "newest_value S M (uk i) (snd (M ! i))"
proof -
  from assms obtain p where p: "i < length M" "ParseInternalKey (fst (M ! i)) = Some p" "sequence p \<le> S" "key_type p = kTypeValue"
    by (auto simp: shown_def entry_seen_def entry_value_def split: option.splits)
  have u: "user_key p = uk i" using parse_user [OF p(2)] .
  have "sequence q \<le> sequence p" if q: "(q, w) \<in> set (versions S (uk i) M)" for q w
  proof -
    from q obtain j where j: "j < length M" "ParseInternalKey (fst (M ! j)) = Some q" "user_key q = uk i" "sequence q \<le> S"
      by (auto simp: versions_iff)
    then have "vis j" "uk j = uk i" using parse_user [OF j(2)] by (auto simp: entry_seen_def)
    then have "\<not> j < i" using assms by (auto simp: shown_def)
    then consider "j = i" | "i < j" by linarith
    then show ?thesis
    proof cases
      case 2
      then show ?thesis using later_older [OF 2 j(1) p(2) j(2)] u j(3) by auto
    qed (use p(2) j(2) in simp)
  qed
  moreover have "(p, snd (M ! i)) \<in> set (versions S (uk i) M)" using p u by (auto simp: versions_iff)
  ultimately show ?thesis using p(4) unfolding newest_value_def by (intro bexI [of _ "(p, snd (M ! i))"]) auto
qed

lemma newest_shown:
  assumes "newest_value S M u v"
  shows "\<exists>i. sh i \<and> uk i = u \<and> snd (M ! i) = v"
proof -
  obtain p where p: "(p, v) \<in> set (versions S u M)" "key_type p = kTypeValue"
    and newest: "\<And>q w. (q, w) \<in> set (versions S u M) \<Longrightarrow> sequence q \<le> sequence p"
    using assms unfolding newest_value_def by blast
  from p(1) obtain i where i: "i < length M" "ParseInternalKey (fst (M ! i)) = Some p" "snd (M ! i) = v" "user_key p = u" "sequence p \<le> S"
    by (auto simp: versions_iff)
  have "uk j \<noteq> uk i" if j: "j < i" "vis j" for j
  proof
    assume same: "uk j = uk i"
    from j obtain q where q: "ParseInternalKey (fst (M ! j)) = Some q" "sequence q \<le> S" by (auto simp: entry_seen_def split: option.splits)
    then have u: "user_key q = u" using parse_user [OF q(1)] parse_user [OF i(2)] same i(4) by simp
    then have "(q, snd (M ! j)) \<in> set (versions S u M)" using q j(1) i(1) by (auto simp: versions_iff intro: exI [of _ j])
    from newest [OF this] have le: "sequence q \<le> sequence p" .
    with later_older [OF j(1) i(1) q(1) i(2)] u i(4) have "type_byte (key_type p) < type_byte (key_type q)" by auto
    then show False using p(2) by (cases "key_type q") simp_all
  qed
  then have "sh i" using i p(2) by (simp add: shown_def entry_seen_def entry_value_def)
  then show ?thesis using parse_user [OF i(2)] i(3,4) by auto
qed

lemma live_newest: "(u, v) \<in> set (live S M) \<longleftrightarrow> newest_value S M u v"
  using shown_newest newest_shown [of u v] unfolding live_def by (auto simp: shown_def)

lemma live_sorted: "sorted_wrt (\<lambda>a b. ucmp (fst a) (fst b) < 0) (live S M)"
proof -
  have "ucmp (uk i) (uk j) < 0" if "sh i" "sh j" "i < j" for i j
  proof -
    have j: "j < length M" "i < length M" using that by (auto simp: shown_def)
    have "ucmp (uk i) (uk j) \<le> 0" "uk i \<noteq> uk j" using uk_order [of i j] j that same_key_not_shown [OF that(2,3)] by auto
    then show ?thesis using compare_0 [OF uk_ok [OF j(2)] uk_ok [OF j(1)]] by linarith
  qed
  then have "sorted_wrt (\<lambda>i j. ucmp (uk i) (uk j) < 0) (filter sh [0..<length M])"
    by (intro sorted_wrt_mono_rel [OF _ sorted_wrt_filter [OF sorted_wrt_upt]]) auto
  then show ?thesis by (simp add: live_def sorted_wrt_map)
qed

end
section \<open>Over merged blocks\<close>

text \<open>The lists are empty and the snapshot is 0 where the hypotheses of the contract do not hold.\<close>

interpretation merged_db: db_contract "\<lambda>_. True" Slice_compare FindShortestSeparator FindShortSuccessor
  "merged_ops (InternalKey_Compare Slice_compare)" "if internal.merges ess M then M else []" "block_merge.merged_inv K ess M"
  "block_merge.merged_pos K ess M" "if S \<le> kMaxSequenceNumber then S else 0" for K ess M S
proof (rule db_contract.intro [OF bytewise.comparator_axioms block_merge.merged_iterator], rule db_contract_axioms.intro)
  have "internal.sorted_entries []" unfolding internal.sorted_entries_def by simp
  then show "internal.sorted_entries (if internal.merges ess M then M else [])" using internal.mergesD(1) by simp
qed simp

text \<open>
  C39: A database iterator shows exactly what its snapshot sees. Over the merge of any sorted runs of
  internal keys, read through the iterators of the blocks that were built from them, the iterator of a
  snapshot behaves, under any sequence of seeks and of moves forwards and backwards, as a cursor in
  the list of the live entries. That list is strictly sorted by user key, and it holds a user key with
  a value exactly if the newest version of that key that the snapshot sees is that value.
\<close>

theorem db_iter_walk:
  assumes "internal.merges ess M" and "list_all (wf_block K) ess" and "S \<le> kMaxSequenceNumber"
  shows "\<exists>its m. list_all2 (\<lambda>es it. NewIterator (opened K es) = Some (Iter it)) ess its \<and>
    NewMergingIterator (map (\<lambda>it. (table_iter_ops (InternalKey_Compare Slice_compare), Iter it)) its) = Some m \<and>
    walk (db_iter_ops (merged_ops (InternalKey_Compare Slice_compare)) Slice_compare) ms (new_DBIter m S seed) =
      list_walk (\<lambda>k t. Slice_compare k t < 0) (live S M) ms (length (live S M)) \<and>
    sorted_wrt (\<lambda>a b. Slice_compare (fst a) (fst b) < 0) (live S M) \<and>
    (\<forall>u v. (u, v) \<in> set (live S M) \<longleftrightarrow> newest_value S M u v)"
proof -
  obtain its m where m: "list_all2 (\<lambda>es it. NewIterator (opened K es) = Some (Iter it)) ess its"
    "NewMergingIterator (map (\<lambda>it. (table_iter_ops (InternalKey_Compare Slice_compare), Iter it)) its) = Some m"
    "block_merge.merged_inv K ess M m"
    using merged_blocks [OF assms(1,2)] by blast
  let ?d = "new_DBIter m S seed"
  have d: "merged_db.dinv ess M K S ?d" "merged_db.dpos ess M K S ?d = length (live S M)"
    using merged_db.new_DBIter_pos [OF m(3), of S seed] assms(1,3) by simp_all
  have "walk (db_iter_ops (merged_ops (InternalKey_Compare Slice_compare)) Slice_compare) ms ?d =
      list_walk (\<lambda>k t. Slice_compare k t < 0) (live S M) ms (length (live S M))"
  proof -
    have "targets_ok (\<lambda>_. True) ms" by simp
    from op_iterator.walk_pos [OF merged_db.db_iterator d(1) this] show ?thesis unfolding d(2) unfolding if_P [OF assms(1)] if_P [OF assms(3)] .
  qed
  moreover have "sorted_wrt (\<lambda>a b. Slice_compare (fst a) (fst b) < 0) (live S M)" "(u, v) \<in> set (live S M) \<longleftrightarrow> newest_value S M u v" for u v
    using merged_db.live_sorted [of S ess M] merged_db.live_newest [of u v S ess M] assms(1,3) by simp_all
  ultimately show ?thesis using m(1,2) by blast
qed

text \<open>Three user keys: one with a version that is too new, one that is deleted, one that is seen as it was.\<close>

abbreviation (input) version_entry :: "u8 \<Rightarrow> u8 \<Rightarrow> u8 \<Rightarrow> entry" where
  "version_entry u s t \<equiv> (u # t # s # replicate 6 0, [s])"

abbreviation (input) version_entries :: "entry list" where
  "version_entries \<equiv> [version_entry 1 5 1, version_entry 1 3 1, version_entry 2 4 0, version_entry 2 2 1, version_entry 3 1 1]"

lemma version_entries_merge: "internal.merges (map (\<lambda>e. [e]) version_entries) version_entries"
proof -
  have "list_all (\<lambda>i. InternalKey_Compare Slice_compare (fst (version_entries ! i)) (fst (version_entries ! Suc i)) < 0) [0..<4]"
    by code_simp
  then have "\<forall>i. Suc i < length version_entries \<longrightarrow>
      InternalKey_Compare Slice_compare (fst (version_entries ! i)) (fst (version_entries ! Suc i)) < 0"
    unfolding list_all_iff by (simp add: less_Suc_eq_le del: nth_Cons_Suc)
  then show ?thesis unfolding internal.merges_def internal.sorted_entries_def by simp
qed

theorem db_iter_walk_witness:
  "\<exists>its m. length its = 5 \<and>
    NewMergingIterator (map (\<lambda>it. (table_iter_ops (InternalKey_Compare Slice_compare), Iter it)) its) = Some m \<and>
    walk (db_iter_ops (merged_ops (InternalKey_Compare Slice_compare)) Slice_compare) [To_first, Forth, Backward, To [2], Forth]
        (new_DBIter m 4 17) =
      Some [Some ([1], [3]), Some ([3], [1]), Some ([1], [3]), Some ([3], [1]), None]"
proof -
  have w: "list_all (wf_block 2) (map (\<lambda>e. [e]) version_entries)" by (simp add: small_block)
  have l: "live 4 version_entries = [([1], [3]), ([3], [1])]" by code_simp
  have S: "(4 :: u64) \<le> kMaxSequenceNumber" by code_simp
  from db_iter_walk [OF version_entries_merge w S, of "[To_first, Forth, Backward, To [2], Forth]" 17]
  obtain its m where m: "list_all2 (\<lambda>es it. NewIterator (opened 2 es) = Some (Iter it)) (map (\<lambda>e. [e]) version_entries) its"
    "NewMergingIterator (map (\<lambda>it. (table_iter_ops (InternalKey_Compare Slice_compare), Iter it)) its) = Some m"
    "walk (db_iter_ops (merged_ops (InternalKey_Compare Slice_compare)) Slice_compare) [To_first, Forth, Backward, To [2], Forth]
        (new_DBIter m 4 17) =
      list_walk (\<lambda>k t. Slice_compare k t < 0) (live 4 version_entries) [To_first, Forth, Backward, To [2], Forth]
        (length (live 4 version_entries))"
    by (elim exE conjE)
  have "length its = 5" using list_all2_lengthD [OF m(1)] by simp
  moreover have "list_walk (\<lambda>k t. Slice_compare k t < 0) [([1], [3]), ([3], [1])] [To_first, Forth, Backward, To [2], Forth] 2 =
      Some [Some ([1], [3]), Some ([3], [1]), Some ([1], [3]), Some ([3], [1]), None]" by code_simp
  ultimately show ?thesis using m(2,3) unfolding l by (intro exI [of _ its] exI [of _ m]) simp
qed

end
