(* ===== verification/Spec2Isabelle.thy ===== *)
theory Spec2Isabelle
  imports Datadir Printing Ldb_Crc32c Ldb_Log Ldb_Batch Ldb_Version_Edit Ldb_Memtable Ldb_Table_Roundtrip Ldb_Db_Iter
begin

text \<open>
  A model of mlbtcc, a C library that reads the files of a Bitcoin Core node, and of the parts of
  the LevelDB release that it carries. Every definition is translated from the code it names; code
  outside the repository (the file system, the clock, a storage environment, the hardware
  checksum) is an argument of the definitions that use it.

  \<^bold>\<open>How the program works.\<close> \<^verbatim>\<open>InitMLBTCC\<close> (\<^verbatim>\<open>mlbtcc.c\<close>) calls \<^verbatim>\<open>ParseCoreDatadir\<close> (\<^verbatim>\<open>parser.c\<close>), which finds the
  data directory, loads the XOR key and sets the environment, and \<^verbatim>\<open>IndexCoreDatadir\<close>
  (\<^verbatim>\<open>indexing.c\<close>), which lists and sorts the block files and fills the table of block index records
  from a LevelDB database through the wrapper \<^verbatim>\<open>leveldb.c\<close>. The functions of \<^verbatim>\<open>API.c\<close> look a height up in
  the table and read the block with \<^verbatim>\<open>blkdat.c\<close>: a cache of five open files, the XOR obfuscation, and the
  transaction parser over the codecs of \<^verbatim>\<open>bigInts.c\<close>, the helpers of \<^verbatim>\<open>bitcoin-specifics.c\<close> and the hash of
  \<^verbatim>\<open>extern/sha256\<close>.

  \<^bold>\<open>The theories of mlbtcc.\<close>
  \<^item> \<^verbatim>\<open>Mlbtcc_Prelude\<close>: checked reads of a byte list, little-endian numbers, words, and the locale of a
    prefix code, an encoding that is read back in front of any rest.
  \<^item> \<^verbatim>\<open>Decimal\<close>: the decimal text of numbers.
  \<^item> \<^verbatim>\<open>Big_Ints\<close> (\<^verbatim>\<open>bigInts.c\<close>): varints, compact sizes, endianness. Inverses, canonical encodings, and the
    encoder whose continuation bits are wrong.
  \<^item> \<^verbatim>\<open>Sha256\<close> (\<^verbatim>\<open>extern/sha256\<close>): the hash equals the function of FIPS 180-4, stated with its own functions
    and constants.
  \<^item> \<^verbatim>\<open>Bitcoin_Structs\<close>, \<^verbatim>\<open>Specifics\<close>, \<^verbatim>\<open>Printing\<close> (\<^verbatim>\<open>bitcoin-structs\<close>, \<^verbatim>\<open>bitcoin-specifics.c\<close>): the records,
    hexadecimal text, headers, and the JSON printers, whose brackets and strings are balanced exactly when
    no allocation fails.
  \<^item> \<^verbatim>\<open>Tx_Parser\<close>, \<^verbatim>\<open>File_Cache\<close>, \<^verbatim>\<open>Blk_Dat\<close> (\<^verbatim>\<open>blkdat.c\<close>): the parser of transactions (round trip and shape of
    every result), the file cache as a step relation with its invariant and its refinement of a
    least recently used cache, and the block reader on an obfuscated file.
  \<^item> \<^verbatim>\<open>Ldb\<close>, \<^verbatim>\<open>Indexing\<close> (\<^verbatim>\<open>leveldb.c\<close>, \<^verbatim>\<open>indexing.c\<close>): a database is the list of its entries in the order of an
    iteration; record formats, the table and when it has holes, sorting of the files.
  \<^item> \<^verbatim>\<open>Api\<close>, \<^verbatim>\<open>Files\<close>, \<^verbatim>\<open>Datadir\<close> (\<^verbatim>\<open>API.c\<close>, \<^verbatim>\<open>files.c\<close>, \<^verbatim>\<open>parser.c\<close>, \<^verbatim>\<open>mlbtcc.c\<close>): the queries, the search of a data
    directory, wildcard matching and the environment.

  \<^bold>\<open>The theories of LevelDB.\<close>
  \<^item> \<^verbatim>\<open>Ldb_Coding\<close>, \<^verbatim>\<open>Ldb_Crc32c\<close> (\<^verbatim>\<open>util/coding\<close>, \<^verbatim>\<open>util/crc32c\<close>): encodings read back; the table-driven checksum
    equals the bitwise one.
  \<^item> \<^verbatim>\<open>Ldb_Keys\<close> (\<^verbatim>\<open>slice.h\<close>, \<^verbatim>\<open>util/comparator.cc\<close>, \<^verbatim>\<open>db/dbformat\<close>): the contract of a comparator as a locale, and
    the two comparators that satisfy it.
  \<^item> \<^verbatim>\<open>Ldb_Status\<close>, \<^verbatim>\<open>Ldb_Names\<close>, \<^verbatim>\<open>Ldb_Batch\<close>, \<^verbatim>\<open>Ldb_Version_Edit\<close>, \<^verbatim>\<open>Ldb_Log\<close> (the files of these names under
    \<^verbatim>\<open>util\<close> and \<^verbatim>\<open>db\<close>): status values, file names, write batches as lists of operations, version
    edits, and the log writer and reader.
  \<^item> \<^verbatim>\<open>Ldb_Filter\<close> (\<^verbatim>\<open>util/hash.cc\<close>, \<^verbatim>\<open>util/bloom.cc\<close>, \<^verbatim>\<open>table/filter_block\<close>): the contract of a filter policy as
    a locale; Bloom filters satisfy it and filter blocks have no false negatives.
  \<^item> \<^verbatim>\<open>Ldb_Iterator\<close>, \<^verbatim>\<open>Ldb_Block\<close> (\<^verbatim>\<open>table/block_builder\<close>, \<^verbatim>\<open>table/block\<close>): the contract of an iterator as a
    locale, and the block iterator as an instance over the entries that were added.

  \<^item> \<^verbatim>\<open>Ldb_Arena\<close>, \<^verbatim>\<open>Ldb_Skiplist\<close>, \<^verbatim>\<open>Ldb_Memtable\<close> (\<^verbatim>\<open>util/arena\<close>, \<^verbatim>\<open>util/random.h\<close>, \<^verbatim>\<open>db/skiplist.h\<close>, \<^verbatim>\<open>db/memtable\<close>):
    the arena hands out disjoint pieces; readers of a skip list see a sorted list at every point of an
    insertion; a lookup in the memory table finds the newest version of a key.
  \<^item> \<^verbatim>\<open>Ldb_Format\<close>, \<^verbatim>\<open>Ldb_Wrapper\<close>, \<^verbatim>\<open>Ldb_Two_Level\<close>, \<^verbatim>\<open>Ldb_Table_Builder\<close>, \<^verbatim>\<open>Ldb_Table\<close>, \<^verbatim>\<open>Ldb_Table_Contract\<close>,
    \<^verbatim>\<open>Ldb_Table_Roundtrip\<close> (the files of these names under \<^verbatim>\<open>table\<close>): handles, footers and block trailers; the
    two-level iterator as an iterator over the entries of all blocks; and table files, which give back
    the entries that were added, with or without a block cache that keeps the cache contract. These tables
    are written without filter and compression; what a filter does to a lookup is part of \<^verbatim>\<open>table_get\<close>.
  \<^item> \<^verbatim>\<open>Ldb_Cache\<close>, \<^verbatim>\<open>Ldb_Cache_Contract\<close>, \<^verbatim>\<open>Ldb_Cache_Shards\<close> (\<^verbatim>\<open>util/cache.cc\<close>): the hash table, the reference counts
    and lists over a heap of handles with their invariant; eviction in the order of the last release;
    destruction; and the sharded cache, which keeps the contract of a sound cache.
  \<^item> \<^verbatim>\<open>Ldb_Merger\<close>, \<^verbatim>\<open>Ldb_Db_Iter\<close> (\<^verbatim>\<open>table/merger.cc\<close>, \<^verbatim>\<open>db/db_iter.cc\<close>): an iterator contract for each child gives
    one for the merge; over a merge, the iterator of a snapshot is a cursor in the newest versions that
    the snapshot sees and that are values.

  \<^bold>\<open>How the iterators compose.\<close> Every iterator keeps the contract \<open>op_iterator\<close> of \<^verbatim>\<open>Ldb_Wrapper\<close>, so each layer is
  proved from the contract of the one below: blocks, tables (two levels of blocks), merges, and the
  iterator of a database. A walk, any sequence of seeks and moves, shows the same entries on each as
  on the list that the layer stands for.

  \<^bold>\<open>Conventions.\<close> A machine integer is a word of its width; a size or an index that the surrounding
  code bounds is a natural number, and where a bound matters it is a hypothesis of the theorem. An
  operation that reads out of bounds, divides by zero, overflows a signed integer or uses a closed
  stream has the result \<open>None\<close> (or \<open>Undef\<close> where the program can also exit). Loops are recursive
  functions with termination proofs. Where only an invariant of the data makes a loop end (the entries
  of a block, the blocks of a two-level iterator, the lists of a cache, the scans and the read sampling
  of a database iterator), the loop is a partial function and its theorems say that it returns. There
  is no fuel anywhere. An allocation succeeds, except in the printers, where a failure is a branch of the
  model. The assertions of LevelDB are not branches: the definitions do what a build without them does,
  and where a property needs what is asserted (8 bytes in an internal key, a set block handle, an error
  code), it is a hypothesis.

  \<^bold>\<open>Not modelled.\<close> The build tool \<^verbatim>\<open>CBuilder.c\<close>; the release of memory outside the caches; LevelDB's
  database proper (\<^verbatim>\<open>db_impl.cc\<close>, \<^verbatim>\<open>version_set.cc\<close>, compaction, recovery), its environments, benchmarks,
  tests and C interface. The wrapper of mlbtcc uses the database through an iteration only, which the
  model takes as the list of its entries. The cache of open files is modelled between an initialisation
  and \<^verbatim>\<open>FreeFileList\<close>, not after.
\<close>

section \<open>From a data directory to a block\<close>

lemma table_unique:
  assumes "r \<in> set rs" and "\<forall>r' \<in> set rs. bir_height r' = bir_height r \<longrightarrow> r' = r"
    and "unat (bir_height r) < n"
  shows "table n rs ! unat (bir_height r) = Some r"
proof -
  have "find (\<lambda>r'. unat (bir_height r') = unat (bir_height r)) (rev rs) \<noteq> None"
    using assms(1) by (auto simp: find_None_iff)
  then obtain r' where r': "find (\<lambda>r'. unat (bir_height r') = unat (bir_height r)) (rev rs) = Some r'" by blast
  then have "r' \<in> set rs" "unat (bir_height r') = unat (bir_height r)"
    by (auto simp: find_Some_iff rev_nth)
  then have "r' \<in> set rs" "bir_height r' = bir_height r" by (auto intro: unsigned_word_eqI)
  with assms r' show ?thesis by (simp add: table_entry)
qed

text \<open>
  C1: End to end: on a data directory with its block files and index, after the initialisation,
  asking for the height of any chain-validated record whose height no other validated record has
  returns the block that the named file holds at the named offset, under the key in
  \<^verbatim>\<open>/blocks/xor.dat\<close>, with the height set.
\<close>

theorem init_then_GetBlock:
  assumes "core_datadir sys junk path n es" and "rd_disk rdr = sys_disk sys" and "length (rd_stk rdr) = 64"
    and "r \<in> set (chain_records junk es)"
    and "list_all (\<lambda>r'. bir_height r' = bir_height r \<longrightarrow> r' = r) (chain_records junk es)"
    and "unat (bir_blockFile r) < n"
    and "sys_disk sys (path @ ''blocks//'' @ blk_name (unat (bir_blockFile r))) =
      Some (obfuscate (key_of sys) 0 (pre @ block_bytes magic v hdr txs @ rest))"
    and "unat (bir_blockOffset r) = length pre + 8" and "unat (bir_blockOffset r) < 2 ^ 63"
    and "block_ok v hdr txs"
  shows "\<exists>gEnv e'. InitMLBTCC sys junk path (init_files []) = Ret gEnv \<and>
    GetBlock rdr (int (unat (bir_height r))) (me_env gEnv) =
      Some ((block_of magic v hdr txs)\<lparr>blk_height := Some (bir_height r)\<rparr>, e')"
proof -
  let ?rs = "chain_records junk es" and ?m = "length (with_prefix 0x62 es)" and ?ps = "block_paths path n"
  obtain gEnv where g: "InitMLBTCC sys junk path (init_files []) = Ret gEnv"
    "env_files (me_env gEnv) = init_files ?ps" "env_xorKey (me_env gEnv) = key_of sys"
    "ir_blockIndexRecord (env_records (me_env gEnv)) = At (table ?m ?rs)"
    using InitMLBTCC_ready [OF assms(1)] by blast
  have ok: "env_ok rdr ?ps (me_env gEnv)"
    using g(2) assms(2,3) init_inv by (simp add: env_ok_def)
  have "unat (bir_height r) < ?m"
    using assms(1,4) by (auto simp: core_datadir_def heights_def list_all_iff)
  then have "record_at (me_env gEnv) (int (unat (bir_height r))) = Some r"
    using g(4) table_unique [OF assms(4)] assms(5)
    by (simp add: record_at_def rd_def list_all_iff) (simp add: table_def)
  moreover have "content_of (rd_disk rdr) ?ps (unat (bir_blockFile r)) =
      Some (obfuscate (env_xorKey (me_env gEnv)) 0 (pre @ block_bytes magic v hdr txs @ rest))"
    using assms(2,6,7) g(3) by (simp add: content_of_def block_paths_def)
  ultimately have "stored rdr ?ps (me_env gEnv) (int (unat (bir_height r)))
      ((block_of magic v hdr txs)\<lparr>blk_height := Some (bir_height r)\<rparr>)"
    unfolding stored_def using assms(8-10) by (auto intro!: exI)
  from GetBlock_at_stored [OF ok this, of 0] g(1) show ?thesis by (auto simp: GetBlock_def)
qed

theorem init_then_GetBlock_witness:
  "\<exists>gEnv e'. InitMLBTCC sample_system sample_header ''/d/'' (init_files []) = Ret gEnv \<and>
    GetBlock \<lparr>rd_disk = sys_disk sample_system, rd_stk = replicate 64 0, rd_junk = sample_header,
      rd_clock = (\<lambda>_. 0)\<rparr> 0 (me_env gEnv) = Some (sample_block, e')"
  using init_then_GetBlock [OF sample_datadir, of "\<lparr>rd_disk = sys_disk sample_system, rd_stk = replicate 64 0,
      rd_junk = sample_header, rd_clock = (\<lambda>_. 0)\<rparr>" sample_record "replicate 293 0" "0xd9b4bef9"
      "[0, 0, 0, 0x20]" sample_header "[sample_tx]" "[]"] sample_block_ok
  by (simp add: sample_chain sample_record_def sample_block_def) (simp add: sample_system_def key_of_def)

end
